(* ===== verification/Lichen_Prelude.thy ===== *)
theory Lichen_Prelude
  imports Main "HOL-Library.Word" "HOL-Library.Sublist" "HOL-Library.Monad_Syntax"
begin

text \<open>
  What every component of the development shares: the names of the machine integers, the results
  a fallible Rust function answers with, the reads a Rust slice offers, and the generic facts the
  component proofs rest on.

  A Rust function that may panic is a function into \<open>option\<close>, with \<open>None\<close> for the panic
  (an index that is absent, an \<open>unwrap\<close> of nothing, a loop that does not return). A function
  that also answers a \<open>Result\<close> is a function into \<open>res\<close>, with the three ends a call has.
\<close>

section \<open>Machine integers\<close>

type_synonym u8 = "8 word"
type_synonym u16 = "16 word"
type_synonym u32 = "32 word"
type_synonym u64 = "64 word"

section \<open>Results\<close>

text \<open>The three ends of a Rust call of type \<open>Result\<close>: an answer, a refusal, a panic.\<close>

datatype ('a, 'e) res = Ok 'a | Err 'e | Panic

fun res_bind :: "('a, 'e) res \<Rightarrow> ('a \<Rightarrow> ('b, 'e) res) \<Rightarrow> ('b, 'e) res" where
  "res_bind (Ok a) f = f a"
| "res_bind (Err e) f = Err e"
| "res_bind Panic f = Panic"

text \<open>The body of a \<open>for\<close> loop whose only exits are its end and an early refusal.\<close>

fun check_each :: "('a \<Rightarrow> (unit, 'e) res) \<Rightarrow> 'a list \<Rightarrow> (unit, 'e) res" where
  "check_each f [] = Ok ()"
| "check_each f (x # xs) = res_bind (f x) (\<lambda>_. check_each f xs)"

text \<open>One guard of a checker: refuse with \<open>e\<close> unless \<open>b\<close> holds.\<close>

definition require :: "bool \<Rightarrow> 'e \<Rightarrow> (unit, 'e) res" where
  "require b e = (if b then Ok () else Err e)"

text \<open>A value the code indexes with \<open>[]\<close>: absent is a panic.\<close>

definition expect_some :: "'a option \<Rightarrow> ('a \<Rightarrow> ('b, 'e) res) \<Rightarrow> ('b, 'e) res" where
  "expect_some x f = (case x of None \<Rightarrow> Panic | Some a \<Rightarrow> f a)"

lemma res_bind_Ok [simp]: "res_bind r f = Ok b \<longleftrightarrow> (\<exists>a. r = Ok a \<and> f a = Ok b)"
  by (cases r) auto

lemma res_bind_Err_iff: "res_bind r f = Err e \<longleftrightarrow> r = Err e \<or> (\<exists>a. r = Ok a \<and> f a = Err e)"
  by (cases r) auto

lemma check_each_Ok [simp]: "check_each f xs = Ok () \<longleftrightarrow> (\<forall>x \<in> set xs. f x = Ok ())"
  by (induction xs) auto

lemma check_each_unit: "check_each f xs = Ok u \<longleftrightarrow> (\<forall>x \<in> set xs. f x = Ok ())"
  using check_each_Ok [of f xs] by (cases u) auto

lemma check_each_append:
  "check_each f (xs @ ys) = res_bind (check_each f xs) (\<lambda>_. check_each f ys)"
  by (induction xs) (auto, case_tac "f a", auto)

lemma require_Ok [simp]: "require b e = Ok u \<longleftrightarrow> b"
  by (simp add: require_def)

lemma require_Err [simp]: "require b e = Err e' \<longleftrightarrow> \<not> b \<and> e' = e"
  by (auto simp: require_def)

lemma require_Panic [simp]: "require b e \<noteq> Panic"
  by (simp add: require_def)

lemma expect_some_Ok [simp]: "expect_some x f = Ok b \<longleftrightarrow> (\<exists>a. x = Some a \<and> f a = Ok b)"
  by (cases x) (auto simp: expect_some_def)

lemma expect_some_Some [simp]: "expect_some (Some a) f = f a"
  by (simp add: expect_some_def)

lemma expect_some_None [simp]: "expect_some None f = Panic"
  by (simp add: expect_some_def)

section \<open>Slices\<close>

text \<open>\<open>slice.get(i)\<close>.\<close>

definition nth_opt :: "'a list \<Rightarrow> nat \<Rightarrow> 'a option" where
  "nth_opt xs i = (if i < length xs then Some (xs ! i) else None)"

text \<open>The parts of a string between the separators, as \<open>str::split\<close> answers them.\<close>

fun split_on :: "'a \<Rightarrow> 'a list \<Rightarrow> 'a list list" where
  "split_on sep [] = [[]]"
| "split_on sep (c # s) =
     (if c = sep then [] # split_on sep s
      else (case split_on sep s of [] \<Rightarrow> [[c]] | part # parts \<Rightarrow> (c # part) # parts))"

lemma split_on_single: "sep \<notin> set s \<Longrightarrow> split_on sep s = [s]"
  by (induction s) auto

lemma split_on_append: "sep \<notin> set s \<Longrightarrow> split_on sep (s @ sep # t) = s # split_on sep t"
  by (induction s) auto

lemma split_on_parts: "r \<in> set (split_on sep s) \<Longrightarrow> sep \<notin> set r"
  by (induction sep s arbitrary: r rule: split_on.induct) (auto split: if_splits list.splits)

text \<open>\<open>iter().position(p)\<close>: the index of the first element that satisfies \<open>p\<close>.\<close>

fun find_pos :: "('a \<Rightarrow> bool) \<Rightarrow> 'a list \<Rightarrow> nat option" where
  "find_pos p [] = None"
| "find_pos p (x # xs) = (if p x then Some 0 else map_option Suc (find_pos p xs))"

lemma nth_opt_Some [simp]: "nth_opt xs i = Some x \<longleftrightarrow> i < length xs \<and> xs ! i = x"
  by (simp add: nth_opt_def)

lemma nth_opt_None [simp]: "nth_opt xs i = None \<longleftrightarrow> length xs \<le> i"
  by (auto simp: nth_opt_def)

lemma nth_opt_Cons_0 [simp]: "nth_opt (x # xs) 0 = Some x"
  by simp

lemma nth_opt_in_set: "nth_opt xs i = Some x \<Longrightarrow> x \<in> set xs"
  by auto

lemma nth_opt_append:
  "nth_opt (xs @ ys) i = (if i < length xs then nth_opt xs i else nth_opt ys (i - length xs))"
  by (auto simp: nth_opt_def nth_append)

lemma nth_opt_map [simp]: "nth_opt (map f xs) i = map_option f (nth_opt xs i)"
  by (simp add: nth_opt_def)

lemma find_pos_Some:
  "find_pos p xs = Some i \<longleftrightarrow> i < length xs \<and> p (xs ! i) \<and> (\<forall>j < i. \<not> p (xs ! j))"
proof (induction xs arbitrary: i)
  case Nil
  show ?case by simp
next
  case (Cons x xs)
  show ?case
    by (cases i) (auto simp: Cons.IH less_Suc_eq_0_disj)
qed

lemma find_pos_None [simp]: "find_pos p xs = None \<longleftrightarrow> (\<forall>x \<in> set xs. \<not> p x)"
  by (induction xs) auto

text \<open>A map over a slice whose body may panic.\<close>

fun map_opt :: "('a \<Rightarrow> 'b option) \<Rightarrow> 'a list \<Rightarrow> 'b list option" where
  "map_opt f [] = Some []"
| "map_opt f (x # xs) = Option.bind (f x) (\<lambda>y. Option.bind (map_opt f xs) (\<lambda>ys. Some (y # ys)))"

text \<open>A \<open>for\<close> loop whose body rewrites a state and may panic.\<close>

fun fold_opt :: "('a \<Rightarrow> 's \<Rightarrow> 's option) \<Rightarrow> 'a list \<Rightarrow> 's \<Rightarrow> 's option" where
  "fold_opt f [] s = Some s"
| "fold_opt f (x # xs) s = Option.bind (f x s) (fold_opt f xs)"

text \<open>A \<open>for\<close> loop whose body rewrites a state, and may refuse or panic.\<close>

fun fold_res :: "('a \<Rightarrow> 's \<Rightarrow> ('s, 'e) res) \<Rightarrow> 'a list \<Rightarrow> 's \<Rightarrow> ('s, 'e) res" where
  "fold_res f [] s = Ok s"
| "fold_res f (x # xs) s = res_bind (f x s) (fold_res f xs)"

lemma map_opt_Some:
  "map_opt f xs = Some ys \<longleftrightarrow> length ys = length xs \<and> (\<forall>i < length xs. f (xs ! i) = Some (ys ! i))"
proof (induction xs arbitrary: ys)
  case (Cons x xs)
  show ?case
  proof (cases ys)
    case (Cons y ys')
    have "(\<forall>i < Suc n. P i) \<longleftrightarrow> P 0 \<and> (\<forall>i < n. P (Suc i))" for P and n :: nat
      by (auto simp: less_Suc_eq_0_disj)
    then show ?thesis using Cons by (auto simp: Cons.IH bind_eq_Some_conv)
  qed (auto simp: bind_eq_Some_conv)
qed auto

lemma map_opt_total: "(\<And>x. x \<in> set xs \<Longrightarrow> f x = Some (g x)) \<Longrightarrow> map_opt f xs = Some (map g xs)"
  by (induction xs) auto

lemma fold_opt_append:
  "fold_opt f (xs @ ys) s = Option.bind (fold_opt f xs s) (fold_opt f ys)"
  by (induction xs arbitrary: s) (auto split: Option.bind_splits)

lemma fold_res_append:
  "fold_res f (xs @ ys) s = res_bind (fold_res f xs s) (fold_res f ys)"
proof (induction xs arbitrary: s)
  case (Cons x xs)
  then show ?case by (cases "f x s") auto
qed simp

section \<open>Words\<close>

lemma unat_less_32 [simp]: "unat (x :: u32) < 4294967296"
  using unsigned_less [of x, where 'a = nat] by simp

lemma unat_less_64 [simp]: "unat (x :: u64) < 18446744073709551616"
  using unsigned_less [of x, where 'a = nat] by simp

end
