(* ===== verification/Disjoint.thy ===== *)
theory Disjoint
  imports Lichen_Prelude
begin

text \<open>
  The intrusive union-find of \<open>lichen-utils/src/disjoint.rs\<close>: a \<open>parent\<close>-pointer tree per
  set, and a member list from the representative threaded through \<open>next\<close>.

  The functions of the module are generic over a node type that carries a \<open>Meta\<close>; they read and
  write nothing of a node but that \<open>Meta\<close>, so the slot map they work on is the map from keys to
  the metadata of the nodes it holds. Indexing a key the map does not hold is a panic (\<open>None\<close>).
  \<open>find\<close> and \<open>members\<close> follow links, so on a cyclic table they do not return; that is \<open>None\<close>
  too, and the theorems state when they do return. The addition of the two set sizes is the
  checked one of a build with overflow checks.
\<close>

section \<open>The code\<close>

record 'k meta =
  m_parent :: "'k option"
  m_next :: "'k option"
  m_tail :: "'k option"
  m_size :: u32

type_synonym 'k uf = "'k \<Rightarrow> 'k meta option"

definition meta_new :: "'k option \<Rightarrow> 'k option \<Rightarrow> 'k option \<Rightarrow> u32 \<Rightarrow> 'k meta" where
  "meta_new p n t s = \<lparr>m_parent = p, m_next = n, m_tail = t, m_size = s\<rparr>"

text \<open>\<open>*nodes[key].meta_mut(..)\<close> rewritten by \<open>f\<close>.\<close>

definition upd_meta :: "'k uf \<Rightarrow> 'k \<Rightarrow> ('k meta \<Rightarrow> 'k meta) \<Rightarrow> 'k uf option" where
  "upd_meta nodes key f =
     (case nodes key of None \<Rightarrow> None | Some m \<Rightarrow> Some (nodes(key \<mapsto> f m)))"

definition make_set :: "'k uf \<Rightarrow> 'k \<Rightarrow> 'k uf option" where
  "make_set nodes key =
     upd_meta nodes key
       (\<lambda>m. m\<lparr>m_parent := None, m_next := None, m_tail := Some key, m_size := 1\<rparr>)"

partial_function (option) uf_find :: "'k uf \<Rightarrow> 'k \<Rightarrow> ('k uf \<times> 'k) option" where
  "uf_find nodes key =
     Option.bind (nodes key) (\<lambda>m.
       case m_parent m of
         None \<Rightarrow> Some (nodes, key)
       | Some parent \<Rightarrow>
           Option.bind (uf_find nodes parent) (\<lambda>(nodes', root).
             if root \<noteq> parent
             then Option.bind (upd_meta nodes' key (\<lambda>m. m\<lparr>m_parent := Some root\<rparr>))
                    (\<lambda>nodes''. Some (nodes'', root))
             else Some (nodes', root)))"

definition add_u32 :: "u32 \<Rightarrow> u32 \<Rightarrow> u32 option" where
  "add_u32 a b = (if unat a + unat b < 2 ^ 32 then Some (a + b) else None)"

text \<open>The writes of \<open>union\<close>, from the representative \<open>ra\<close> that stays and the one that goes.\<close>

definition uf_splice :: "'k uf \<Rightarrow> 'k \<Rightarrow> 'k \<Rightarrow> ('k uf \<times> 'k) option" where
  "uf_splice nodes ra rb =
     Option.bind (nodes ra) (\<lambda>ma. Option.bind (nodes rb) (\<lambda>mb.
     Option.bind (m_tail ma) (\<lambda>ta. Option.bind (m_tail mb) (\<lambda>tb.
     Option.bind (add_u32 (m_size ma) (m_size mb)) (\<lambda>size.
     Option.bind (upd_meta nodes ta (\<lambda>m. m\<lparr>m_next := Some rb\<rparr>)) (\<lambda>nodes.
     Option.bind (upd_meta nodes rb (\<lambda>m. m\<lparr>m_parent := Some ra\<rparr>)) (\<lambda>nodes.
     Option.bind (upd_meta nodes ra (\<lambda>m. m\<lparr>m_tail := Some tb\<rparr>)) (\<lambda>nodes.
     Option.bind (upd_meta nodes ra (\<lambda>m. m\<lparr>m_size := size\<rparr>)) (\<lambda>nodes.
       Some (nodes, ra))))))))))"

definition uf_union :: "'k uf \<Rightarrow> 'k \<Rightarrow> 'k \<Rightarrow> ('k uf \<times> 'k) option" where
  "uf_union nodes a b =
     Option.bind (uf_find nodes a) (\<lambda>(nodes, ra).
     Option.bind (uf_find nodes b) (\<lambda>(nodes, rb).
       if ra = rb then Some (nodes, ra)
       else Option.bind (nodes ra) (\<lambda>ma. Option.bind (nodes rb) (\<lambda>mb.
         if m_size ma < m_size mb then uf_splice nodes rb ra else uf_splice nodes ra rb))))"

fun rebuild_loop :: "'k uf \<Rightarrow> 'k \<Rightarrow> 'k option \<Rightarrow> 'k list \<Rightarrow> ('k uf \<times> 'k option) option" where
  "rebuild_loop nodes representative previous [] = Some (nodes, previous)"
| "rebuild_loop nodes representative previous (member # members) =
     Option.bind (case previous of
         None \<Rightarrow> Some nodes
       | Some p \<Rightarrow> upd_meta nodes p (\<lambda>m. m\<lparr>m_next := Some member\<rparr>)) (\<lambda>nodes.
     Option.bind (upd_meta nodes member
         (\<lambda>m. m\<lparr>m_parent := (if member \<noteq> representative then Some representative else None)\<rparr>))
       (\<lambda>nodes. rebuild_loop nodes representative (Some member) members))"

definition uf_rebuild :: "'k uf \<Rightarrow> 'k list \<Rightarrow> 'k uf option" where
  "uf_rebuild nodes members =
     (case members of
        [] \<Rightarrow> Some nodes
      | representative # _ \<Rightarrow>
          Option.bind (rebuild_loop nodes representative None members) (\<lambda>(nodes, previous).
          Option.bind previous (\<lambda>last.
          Option.bind (upd_meta nodes last (\<lambda>m. m\<lparr>m_next := None\<rparr>)) (\<lambda>nodes.
            upd_meta nodes representative
              (\<lambda>m. m\<lparr>m_tail := Some last, m_size := word_of_nat (length members)\<rparr>)))))"

partial_function (option) uf_members :: "'k uf \<Rightarrow> 'k \<Rightarrow> 'k list option" where
  "uf_members nodes root =
     Option.bind (nodes root) (\<lambda>m.
       case m_next m of
         None \<Rightarrow> Some [root]
       | Some key \<Rightarrow> Option.bind (uf_members nodes key) (\<lambda>ks. Some (root # ks)))"

section \<open>What a table represents\<close>

text \<open>
  \<open>climbs nodes k d r\<close>: following \<open>parent\<close> from \<open>k\<close> reaches the root \<open>r\<close> after \<open>d\<close> steps.
\<close>

inductive climbs :: "'k uf \<Rightarrow> 'k \<Rightarrow> nat \<Rightarrow> 'k \<Rightarrow> bool" for nodes where
  climbs_root: "nodes k = Some m \<Longrightarrow> m_parent m = None \<Longrightarrow> climbs nodes k 0 k"
| climbs_step: "nodes k = Some m \<Longrightarrow> m_parent m = Some p \<Longrightarrow> climbs nodes p d r \<Longrightarrow>
    climbs nodes k (Suc d) r"

inductive_cases climbs_0E: "climbs nodes k 0 r"
inductive_cases climbs_SucE: "climbs nodes k (Suc d) r"
inductive_simps climbs_0: "climbs nodes k 0 r"
inductive_simps climbs_Suc: "climbs nodes k (Suc d) r"

definition rep_of :: "'k uf \<Rightarrow> 'k \<Rightarrow> 'k \<Rightarrow> bool" where
  "rep_of nodes k r \<longleftrightarrow> (\<exists>d. climbs nodes k d r)"

definition is_root :: "'k uf \<Rightarrow> 'k \<Rightarrow> bool" where
  "is_root nodes r \<longleftrightarrow> (\<exists>m. nodes r = Some m \<and> m_parent m = None)"

text \<open>The keys in one set with \<open>k\<close>, and the relation the table stands for.\<close>

definition same_set :: "'k uf \<Rightarrow> 'k \<Rightarrow> 'k \<Rightarrow> bool" where
  "same_set nodes a b \<longleftrightarrow> (\<exists>r. rep_of nodes a r \<and> rep_of nodes b r)"

fun next_chain :: "'k uf \<Rightarrow> 'k list \<Rightarrow> bool" where
  "next_chain nodes [] = False"
| "next_chain nodes [k] = (\<exists>m. nodes k = Some m \<and> m_next m = None)"
| "next_chain nodes (k # k' # ks) =
     ((\<exists>m. nodes k = Some m \<and> m_next m = Some k') \<and> next_chain nodes (k' # ks))"

text \<open>
  \<open>set_list nodes r ms\<close>: the root \<open>r\<close> heads the member list \<open>ms\<close>, which holds exactly the keys
  that climb to \<open>r\<close>, once each, and whose end and length the root records.
\<close>

definition set_list :: "'k uf \<Rightarrow> 'k \<Rightarrow> 'k list \<Rightarrow> bool" where
  "set_list nodes r ms \<longleftrightarrow>
     next_chain nodes ms \<and> hd ms = r \<and> distinct ms \<and> set ms = {k. rep_of nodes k r} \<and>
     (\<exists>m. nodes r = Some m \<and> m_tail m = Some (last ms) \<and> unat (m_size m) = length ms)"

definition uf_inv :: "'k uf \<Rightarrow> bool" where
  "uf_inv nodes \<longleftrightarrow>
     finite (dom nodes) \<and> card (dom nodes) < 2 ^ 32 \<and>
     (\<forall>k \<in> dom nodes. \<exists>r. rep_of nodes k r) \<and>
     (\<forall>r. is_root nodes r \<longrightarrow> (\<exists>ms. set_list nodes r ms))"

text \<open>Union by size: a key is at most the logarithm of its set's size below the root.\<close>

definition uf_balanced :: "'k uf \<Rightarrow> bool" where
  "uf_balanced nodes \<longleftrightarrow>
     (\<forall>k d r m. climbs nodes k d r \<longrightarrow> nodes r = Some m \<longrightarrow> 2 ^ d \<le> unat (m_size m))"

section \<open>Climbing\<close>

lemma climbs_deterministic: "climbs nodes k d r \<Longrightarrow> climbs nodes k d' r' \<Longrightarrow> d' = d \<and> r' = r"
proof (induction arbitrary: d' r' rule: climbs.induct)
  case (climbs_root k m)
  from climbs_root.prems climbs_root.hyps show ?case by (auto elim: climbs.cases)
next
  case (climbs_step k m p d r)
  from climbs_step.prems obtain e where "d' = Suc e" "climbs nodes p e r'"
    by (cases rule: climbs.cases) (use climbs_step.hyps in simp_all)
  with climbs_step.IH show ?case by blast
qed

lemma climbs_is_root: "climbs nodes k d r \<Longrightarrow> is_root nodes r"
  by (induction rule: climbs.induct) (auto simp: is_root_def)

lemma climbs_dom: "climbs nodes k d r \<Longrightarrow> k \<in> dom nodes"
  by (cases rule: climbs.cases) auto

lemma climbs_dom_root: "climbs nodes k d r \<Longrightarrow> r \<in> dom nodes"
  using climbs_is_root by (force simp: is_root_def)

lemma climbs_from_root: "is_root nodes r \<Longrightarrow> climbs nodes r d r' \<longleftrightarrow> d = 0 \<and> r' = r"
  by (auto simp: is_root_def intro: climbs_root elim: climbs.cases)

lemma rep_of_unique: "rep_of nodes k r \<Longrightarrow> rep_of nodes k r' \<Longrightarrow> r' = r"
  by (auto simp: rep_of_def dest: climbs_deterministic)

lemma rep_of_is_root: "rep_of nodes k r \<Longrightarrow> is_root nodes r"
  by (auto simp: rep_of_def dest: climbs_is_root)

lemma rep_of_root [simp]: "is_root nodes r \<Longrightarrow> rep_of nodes r r' \<longleftrightarrow> r' = r"
  by (auto simp: rep_of_def climbs_from_root)

lemma rep_of_dom: "rep_of nodes k r \<Longrightarrow> k \<in> dom nodes \<and> r \<in> dom nodes"
  by (auto simp: rep_of_def dest: climbs_dom climbs_dom_root)

lemma same_set_iff_rep: "rep_of nodes a r \<Longrightarrow> same_set nodes a b \<longleftrightarrow> rep_of nodes b r"
  by (auto simp: same_set_def dest: rep_of_unique)

lemma same_set_refl: "uf_inv nodes \<Longrightarrow> k \<in> dom nodes \<Longrightarrow> same_set nodes k k"
  by (auto simp: uf_inv_def same_set_def)

lemma same_set_sym: "same_set nodes a b \<Longrightarrow> same_set nodes b a"
  by (auto simp: same_set_def)

lemma same_set_trans: "same_set nodes a b \<Longrightarrow> same_set nodes b c \<Longrightarrow> same_set nodes a c"
  by (auto simp: same_set_def dest: rep_of_unique)

section \<open>Metadata writes\<close>

lemma upd_meta_Some: "nodes k = Some m \<Longrightarrow> upd_meta nodes k f = Some (nodes(k \<mapsto> f m))"
  by (simp add: upd_meta_def)

lemma upd_meta_eq_Some:
  "upd_meta nodes k f = Some nodes' \<longleftrightarrow> (\<exists>m. nodes k = Some m \<and> nodes' = nodes(k \<mapsto> f m))"
  by (auto simp: upd_meta_def split: option.splits)

lemma next_chain_cong:
  assumes "\<And>k. k \<in> set ms \<Longrightarrow> map_option m_next (nodes' k) = map_option m_next (nodes k)"
  shows "next_chain nodes' ms = next_chain nodes ms"
  using assms
proof (induction ms rule: induct_list012)
  case (2 k)
  then show ?case by (cases "nodes k"; cases "nodes' k") auto
next
  case (3 k k' ks)
  from "3.prems" [of k] have "(\<exists>m. nodes' k = Some m \<and> m_next m = Some k') =
      (\<exists>m. nodes k = Some m \<and> m_next m = Some k')"
    by (cases "nodes k"; cases "nodes' k") auto
  with "3.IH"(2) "3.prems" show ?case by simp
qed simp

lemma next_chain_dom: "next_chain nodes ms \<Longrightarrow> set ms \<subseteq> dom nodes"
  by (induction ms rule: induct_list012) auto

lemma next_chain_not_Nil [simp]: "next_chain nodes ms \<Longrightarrow> ms \<noteq> []"
  by auto

text \<open>\<open>keeps_list nodes nodes'\<close>: at most \<open>parent\<close> fields differ.\<close>

definition keeps_list :: "'k uf \<Rightarrow> 'k uf \<Rightarrow> bool" where
  "keeps_list nodes nodes' \<longleftrightarrow>
     (\<forall>k. map_option (m_parent_update (\<lambda>_. None)) (nodes' k) =
          map_option (m_parent_update (\<lambda>_. None)) (nodes k))"

text \<open>\<open>compressed nodes nodes'\<close>: every key climbs to the root it had, in no more steps.\<close>

definition compressed :: "'k uf \<Rightarrow> 'k uf \<Rightarrow> bool" where
  "compressed nodes nodes' \<longleftrightarrow>
     keeps_list nodes nodes' \<and>
     (\<forall>k d r. climbs nodes k d r \<longrightarrow> (\<exists>d' \<le> d. climbs nodes' k d' r))"

lemma keeps_list_refl [simp]: "keeps_list nodes nodes"
  by (simp add: keeps_list_def)

lemma keeps_list_at:
  assumes "keeps_list nodes nodes'"
  shows "(nodes k = None \<and> nodes' k = None) \<or>
     (\<exists>m p. nodes k = Some m \<and> nodes' k = Some (m\<lparr>m_parent := p\<rparr>))"
proof (cases "nodes k")
  case None
  with assms show ?thesis by (auto simp: keeps_list_def dest: spec [of _ k])
next
  case (Some m)
  with assms obtain m' where m': "nodes' k = Some m'"
    and eq: "m_parent_update (\<lambda>_. None) m' = m_parent_update (\<lambda>_. None) m"
    unfolding keeps_list_def by (cases "nodes' k") (auto dest!: spec [of _ k])
  from eq have "m' = m\<lparr>m_parent := m_parent m'\<rparr>" by (cases m; cases m') simp
  with Some m' show ?thesis by metis
qed

lemma keeps_list_fields:
  assumes "keeps_list nodes nodes'"
  shows "map_option m_next (nodes' k) = map_option m_next (nodes k)"
    and "map_option m_tail (nodes' k) = map_option m_tail (nodes k)"
    and "map_option m_size (nodes' k) = map_option m_size (nodes k)"
  using keeps_list_at [OF assms, of k] by auto

lemma keeps_list_dom: "keeps_list nodes nodes' \<Longrightarrow> dom nodes' = dom nodes"
  by (metis (no_types, lifting) domIff keeps_list_at option.simps(3) set_eqI)

lemma keeps_list_trans: "keeps_list a b \<Longrightarrow> keeps_list b c \<Longrightarrow> keeps_list a c"
  by (simp add: keeps_list_def)

lemma keeps_list_upd: "nodes k = Some m \<Longrightarrow> keeps_list nodes (nodes(k \<mapsto> m\<lparr>m_parent := p\<rparr>))"
  by (simp add: keeps_list_def)

lemma compressed_refl [simp]: "compressed nodes nodes"
  by (auto simp: compressed_def)

lemma compressed_trans: "compressed a b \<Longrightarrow> compressed b c \<Longrightarrow> compressed a c"
  unfolding compressed_def by (meson keeps_list_trans order_trans)

text \<open>Re-pointing a key below a root straight at that root is a compression.\<close>

lemma compressed_upd:
  assumes k: "nodes k = Some m" and up: "climbs nodes k (Suc e) root"
  shows "compressed nodes (nodes(k \<mapsto> m\<lparr>m_parent := Some root\<rparr>))"
    and "climbs (nodes(k \<mapsto> m\<lparr>m_parent := Some root\<rparr>)) k 1 root"
proof -
  let ?n = "nodes(k \<mapsto> m\<lparr>m_parent := Some root\<rparr>)"
  have "is_root nodes root" using up by (rule climbs_is_root)
  moreover have "\<not> is_root nodes k" using up climbs_from_root by fastforce
  ultimately have "climbs ?n root 0 root"
    by (auto simp: is_root_def intro!: climbs_root)
  then show one: "climbs ?n k 1 root"
    by (auto intro!: climbs_step [where p = root])
  have "\<exists>d' \<le> d. climbs ?n x d' r" if "climbs nodes x d r" for x d r
    using that
  proof (induction rule: climbs.induct)
    case (climbs_root x mx)
    with \<open>\<not> is_root nodes k\<close> have "x \<noteq> k" by (auto simp: is_root_def)
    with climbs_root show ?case by (auto intro!: climbs.climbs_root)
  next
    case (climbs_step x mx p d r)
    show ?case
    proof (cases "x = k")
      case True
      have "climbs nodes x (Suc d) r" using climbs_step.hyps by (rule climbs.climbs_step)
      with True up have "root = r" by (auto dest: climbs_deterministic)
      with one True have "1 \<le> Suc d \<and> climbs ?n x 1 r" by simp
      then show ?thesis by (rule exI)
    next
      case False
      from climbs_step.IH obtain d' where "d' \<le> d" "climbs ?n p d' r" by blast
      moreover from False climbs_step.hyps have "?n x = Some mx" by simp
      ultimately have "Suc d' \<le> Suc d \<and> climbs ?n x (Suc d') r"
        using climbs_step.hyps by (blast intro: climbs.climbs_step)
      then show ?thesis by (rule exI)
    qed
  qed
  with keeps_list_upd [of nodes k m "Some root", OF k] show "compressed nodes ?n"
    by (simp add: compressed_def)
qed

section \<open>Find\<close>

text \<open>\<open>on_path nodes k x\<close>: \<open>x\<close> is \<open>k\<close> or one of the keys above it.\<close>

inductive on_path :: "'k uf \<Rightarrow> 'k \<Rightarrow> 'k \<Rightarrow> bool" for nodes where
  on_path_self: "on_path nodes k k"
| on_path_up: "nodes k = Some m \<Longrightarrow> m_parent m = Some p \<Longrightarrow> on_path nodes p x \<Longrightarrow> on_path nodes k x"

lemma compressed_le_1:
  assumes "compressed n n'" "climbs n x d r" "d \<le> 1"
  shows "\<exists>d' \<le> 1. climbs n' x d' r"
  using assms unfolding compressed_def by (meson order_trans)

lemma find_climbs:
  assumes "climbs nodes k d r"
  shows "\<exists>nodes'. uf_find nodes k = Some (nodes', r) \<and> compressed nodes nodes' \<and>
     (\<forall>x. on_path nodes k x \<longrightarrow> (\<exists>d' \<le> 1. climbs nodes' x d' r))"
  using assms
proof (induction rule: climbs.induct)
  case (climbs_root k m)
  then have "uf_find nodes k = Some (nodes, k)" by (subst uf_find.simps) simp
  moreover have "climbs nodes x 0 k" if "on_path nodes k x" for x
    using that climbs_root by (auto elim: on_path.cases intro: climbs.climbs_root)
  ultimately show ?case by (intro exI [of _ nodes]) auto
next
  case (climbs_step k m p d r)
  from climbs_step.IH obtain n where n: "uf_find nodes p = Some (n, r)"
    and c: "compressed nodes n"
    and short: "\<And>x. on_path nodes p x \<Longrightarrow> \<exists>d' \<le> 1. climbs n x d' r" by blast
  have kd: "climbs nodes k (Suc d) r" using climbs_step.hyps by (rule climbs.climbs_step)
  have path: "on_path nodes k x \<longleftrightarrow> x = k \<or> on_path nodes p x" for x
    using climbs_step.hyps by (auto elim: on_path.cases intro: on_path.intros)
  show ?case
  proof (cases "r = p")
    case True
    with n climbs_step.hyps have "uf_find nodes k = Some (n, r)" by (subst uf_find.simps) simp
    moreover have "climbs nodes k 1 r"
      using True climbs_step.hyps climbs_from_root [OF climbs_is_root [OF kd]] kd by auto
    ultimately show ?thesis
      using c short compressed_le_1 [OF c] path by (intro exI [of _ n]) auto
  next
    case False
    obtain mk where mk: "n k = Some mk" and "\<exists>d'. climbs n k d' r"
      using c kd climbs_dom unfolding compressed_def by (metis domD)
    then obtain d' where d': "climbs n k d' r" by blast
    have "\<not> is_root nodes k" using climbs_step.hyps by (simp add: is_root_def)
    have "k \<noteq> r" using climbs_is_root [OF kd] \<open>\<not> is_root nodes k\<close> by auto
    then obtain e where e: "d' = Suc e" using d' by (cases d') (auto elim: climbs_0E)
    let ?n = "n(k \<mapsto> mk\<lparr>m_parent := Some r\<rparr>)"
    have "uf_find nodes k = Some (?n, r)"
      using n mk False climbs_step.hyps by (subst uf_find.simps) (simp add: upd_meta_Some)
    moreover note up = compressed_upd [OF mk d' [unfolded e]]
    moreover have "compressed nodes ?n" using c up(1) by (rule compressed_trans)
    moreover have "\<exists>d' \<le> 1. climbs ?n x d' r" if "on_path nodes k x" for x
    proof (cases "x = k")
      case True
      with up(2) show ?thesis by (metis order_refl)
    next
      case False
      with that path have "on_path nodes p x" by simp
      then show ?thesis using short compressed_le_1 [OF up(1)] by metis
    qed
    ultimately show ?thesis by metis
  qed
qed

lemma compressed_keeps_list: "compressed a b \<Longrightarrow> keeps_list a b"
  by (simp add: compressed_def)

lemma compressed_rep_of:
  assumes "uf_inv nodes" "compressed nodes nodes'"
  shows "rep_of nodes' k r \<longleftrightarrow> rep_of nodes k r"
proof
  show "rep_of nodes' k r" if "rep_of nodes k r"
    using that assms(2) unfolding rep_of_def compressed_def by blast
next
  assume r: "rep_of nodes' k r"
  then have "k \<in> dom nodes"
    using rep_of_dom keeps_list_dom [OF compressed_keeps_list [OF assms(2)]] by metis
  then obtain r' where r': "rep_of nodes k r'" using assms(1) by (auto simp: uf_inv_def)
  then have "rep_of nodes' k r'" using assms(2) unfolding rep_of_def compressed_def by blast
  with r r' show "rep_of nodes k r" using rep_of_unique by metis
qed

lemma is_root_iff_rep: "is_root nodes r \<longleftrightarrow> rep_of nodes r r"
  using rep_of_is_root by fastforce

lemma set_list_cong:
  assumes "keeps_list nodes nodes'" "\<And>k. rep_of nodes' k r \<longleftrightarrow> rep_of nodes k r"
  shows "set_list nodes' r ms \<longleftrightarrow> set_list nodes r ms"
  using keeps_list_at [OF assms(1), of r]
    next_chain_cong [of ms nodes' nodes, OF keeps_list_fields(1) [OF assms(1)]] assms(2)
  by (auto simp: set_list_def)

lemma compressed_set_list:
  "uf_inv nodes \<Longrightarrow> compressed nodes nodes' \<Longrightarrow> set_list nodes' r ms \<longleftrightarrow> set_list nodes r ms"
  by (intro set_list_cong compressed_keeps_list compressed_rep_of)

lemma compressed_inv:
  assumes "uf_inv nodes" "compressed nodes nodes'"
  shows "uf_inv nodes'"
  using assms(1) compressed_rep_of [OF assms] compressed_set_list [OF assms]
    keeps_list_dom [OF compressed_keeps_list [OF assms(2)]]
  by (auto simp: uf_inv_def is_root_iff_rep)

lemma compressed_same_set:
  "uf_inv nodes \<Longrightarrow> compressed nodes nodes' \<Longrightarrow> same_set nodes' a b \<longleftrightarrow> same_set nodes a b"
  using compressed_rep_of [of nodes nodes'] by (simp add: same_set_def)

lemma compressed_balanced:
  assumes "uf_inv nodes" "compressed nodes nodes'" "uf_balanced nodes"
  shows "uf_balanced nodes'"
  unfolding uf_balanced_def
proof (intro allI impI)
  fix k d r m assume d: "climbs nodes' k d r" and m: "nodes' r = Some m"
  have "rep_of nodes k r" using d compressed_rep_of [OF assms(1,2)] by (auto simp: rep_of_def)
  then obtain e where e: "climbs nodes k e r" by (auto simp: rep_of_def)
  then obtain d' where "d' \<le> e" "climbs nodes' k d' r"
    using assms(2) unfolding compressed_def by blast
  with d have "d \<le> e" using climbs_deterministic by metis
  then have "(2::nat) ^ d \<le> 2 ^ e" by simp
  moreover obtain m' where "nodes r = Some m'" "m_size m' = m_size m"
    using keeps_list_at [OF compressed_keeps_list [OF assms(2)], of r] m by auto
  moreover from this have "2 ^ e \<le> unat (m_size m)"
    using e assms(3) unfolding uf_balanced_def by metis
  ultimately show "2 ^ d \<le> unat (m_size m)" by linarith
qed

lemma uf_inv_climbs:
  assumes "uf_inv nodes" "k \<in> dom nodes"
  obtains d r where "climbs nodes k d r"
  using assms unfolding uf_inv_def rep_of_def by blast

lemma find_total:
  assumes "uf_inv nodes" "k \<in> dom nodes"
  obtains nodes' r where "uf_find nodes k = Some (nodes', r)" "rep_of nodes k r"
    "compressed nodes nodes'" "uf_inv nodes'"
proof -
  from assms obtain d r where d: "climbs nodes k d r" by (rule uf_inv_climbs)
  from find_climbs [OF this] obtain nodes' where
    "uf_find nodes k = Some (nodes', r)" "compressed nodes nodes'" by blast
  with that d compressed_inv [OF assms(1)] show thesis by (auto simp: rep_of_def)
qed

section \<open>Union\<close>

text \<open>The parents of \<open>nodes'\<close> are those of \<open>nodes\<close>, but the root \<open>rb\<close> now hangs under the root
  \<open>ra\<close>.\<close>

definition hangs_under :: "'k uf \<Rightarrow> 'k uf \<Rightarrow> 'k \<Rightarrow> 'k \<Rightarrow> bool" where
  "hangs_under nodes nodes' rb ra \<longleftrightarrow>
     dom nodes' = dom nodes \<and> is_root nodes ra \<and> is_root nodes rb \<and> ra \<noteq> rb \<and>
     (\<forall>x m m'. nodes x = Some m \<longrightarrow> nodes' x = Some m' \<longrightarrow>
        m_parent m' = (if x = rb then Some ra else m_parent m))"

lemma hangs_under_at:
  assumes "hangs_under nodes nodes' rb ra" "nodes x = Some m"
  obtains m' where "nodes' x = Some m'" "m_parent m' = (if x = rb then Some ra else m_parent m)"
proof -
  have "x \<in> dom nodes'" using assms unfolding hangs_under_def by blast
  then obtain m' where "nodes' x = Some m'" by blast
  moreover from this have "m_parent m' = (if x = rb then Some ra else m_parent m)"
    using assms unfolding hangs_under_def by blast
  ultimately show thesis by (rule that)
qed

lemma hangs_under_climbs:
  assumes h: "hangs_under nodes nodes' rb ra" and "climbs nodes k d r"
  shows "climbs nodes' k (if r = rb then Suc d else d) (if r = rb then ra else r)"
  using assms(2)
proof (induction rule: climbs.induct)
  case (climbs_root k m)
  obtain ma where ma: "nodes ra = Some ma" "m_parent ma = None" "ra \<noteq> rb"
    using h by (auto simp: hangs_under_def is_root_def)
  obtain ma' where "nodes' ra = Some ma'" "m_parent ma' = (if ra = rb then Some ra else m_parent ma)"
    using h ma(1) by (rule hangs_under_at)
  with ma have ra: "climbs nodes' ra 0 ra" using climbs.climbs_root by fastforce
  obtain m' where m': "nodes' k = Some m'" "m_parent m' = (if k = rb then Some ra else m_parent m)"
    using h climbs_root(1) by (rule hangs_under_at)
  show ?case
  proof (cases "k = rb")
    case True
    with m' have "m_parent m' = Some ra" by simp
    with m'(1) have "climbs nodes' k (Suc 0) ra" using ra by (rule climbs.climbs_step)
    with True show ?thesis by simp
  next
    case False
    with m' climbs_root(2) have "m_parent m' = None" by simp
    with m'(1) have "climbs nodes' k 0 k" by (rule climbs.climbs_root)
    with False show ?thesis by simp
  qed
next
  case (climbs_step k m p d r)
  obtain m' where m': "nodes' k = Some m'" "m_parent m' = (if k = rb then Some ra else m_parent m)"
    using h climbs_step.hyps(1) by (rule hangs_under_at)
  have "k \<noteq> rb" using climbs_step.hyps h by (auto simp: hangs_under_def is_root_def)
  with m' climbs_step.hyps have "m_parent m' = Some p" by simp
  with m'(1) have "climbs nodes' k (Suc (if r = rb then Suc d else d)) (if r = rb then ra else r)"
    using climbs_step.IH by (rule climbs.climbs_step)
  then show ?case by (simp split: if_splits)
qed

lemma hangs_under_rep_of:
  assumes h: "hangs_under nodes nodes' rb ra" and inv: "uf_inv nodes"
  shows "rep_of nodes' k r \<longleftrightarrow>
     (rep_of nodes k rb \<and> r = ra) \<or> (\<not> rep_of nodes k rb \<and> rep_of nodes k r)"
proof (cases "k \<in> dom nodes")
  case True
  with inv obtain d r0 where d: "climbs nodes k d r0" by (rule uf_inv_climbs)
  then have "rep_of nodes k r0" unfolding rep_of_def ..
  then have r0: "rep_of nodes k x \<longleftrightarrow> x = r0" for x using rep_of_unique by metis
  have "rep_of nodes' k (if r0 = rb then ra else r0)"
    using hangs_under_climbs [OF h d] unfolding rep_of_def by blast
  then have "rep_of nodes' k x \<longleftrightarrow> x = (if r0 = rb then ra else r0)" for x
    using rep_of_unique by metis
  with r0 show ?thesis by auto
next
  case False
  then show ?thesis using rep_of_dom h unfolding hangs_under_def by metis
qed

lemma next_chain_nth:
  "next_chain nodes ms \<longleftrightarrow> ms \<noteq> [] \<and> (\<forall>i < length ms. \<exists>m. nodes (ms ! i) = Some m \<and>
     m_next m = (if Suc i < length ms then Some (ms ! Suc i) else None))"
proof (induction ms rule: induct_list012)
  case (3 k k' ks)
  have "(\<forall>i < Suc n. P i) \<longleftrightarrow> P 0 \<and> (\<forall>i < n. P (Suc i))" for P and n :: nat
    by (auto simp: less_Suc_eq_0_disj)
  with "3.IH"(2) show ?case by simp
qed auto

text \<open>The tables after \<open>uf_splice\<close>, key by key.\<close>

definition spliced :: "'k uf \<Rightarrow> 'k \<Rightarrow> 'k \<Rightarrow> 'k \<Rightarrow> 'k \<Rightarrow> u32 \<Rightarrow> 'k uf" where
  "spliced nodes ra rb ta tb sz = (\<lambda>k. map_option (\<lambda>m.
     \<lparr>m_parent = (if k = rb then Some ra else m_parent m),
      m_next = (if k = ta then Some rb else m_next m),
      m_tail = (if k = ra then Some tb else m_tail m),
      m_size = (if k = ra then sz else m_size m)\<rparr>) (nodes k))"

lemma splice_spliced:
  assumes "nodes ra = Some ma" "nodes rb = Some mb" "m_tail ma = Some ta" "m_tail mb = Some tb"
    "ta \<in> dom nodes" "unat (m_size ma) + unat (m_size mb) < 2 ^ 32"
  shows "uf_splice nodes ra rb = Some (spliced nodes ra rb ta tb (m_size ma + m_size mb), ra)"
proof -
  let ?sz = "m_size ma + m_size mb"
  from assms(5) obtain mt where mt: "nodes ta = Some mt" by blast
  define n1 where "n1 = nodes(ta \<mapsto> mt\<lparr>m_next := Some rb\<rparr>)"
  obtain b where b: "n1 rb = Some b" using assms(2) by (cases "rb = ta") (auto simp: n1_def)
  define n2 where "n2 = n1(rb \<mapsto> b\<lparr>m_parent := Some ra\<rparr>)"
  obtain a where a: "n2 ra = Some a"
    using assms(1) by (cases "ra = rb"; cases "ra = ta") (auto simp: n2_def n1_def)
  define n3 where "n3 = n2(ra \<mapsto> a\<lparr>m_tail := Some tb\<rparr>)"
  define n4 where "n4 = n3(ra \<mapsto> a\<lparr>m_tail := Some tb, m_size := ?sz\<rparr>)"
  have "uf_splice nodes ra rb = Some (n4, ra)"
  proof -
    have "upd_meta nodes ta (\<lambda>m. m\<lparr>m_next := Some rb\<rparr>) = Some n1"
      using mt by (simp add: upd_meta_def n1_def)
    moreover have "upd_meta n1 rb (\<lambda>m. m\<lparr>m_parent := Some ra\<rparr>) = Some n2"
      using b by (simp add: upd_meta_def n2_def)
    moreover have "upd_meta n2 ra (\<lambda>m. m\<lparr>m_tail := Some tb\<rparr>) = Some n3"
      using a by (simp add: upd_meta_def n3_def)
    moreover have "upd_meta n3 ra (\<lambda>m. m\<lparr>m_size := ?sz\<rparr>) = Some n4"
      by (simp add: upd_meta_def n4_def n3_def)
    ultimately show ?thesis using assms(1-4,6) by (simp add: uf_splice_def add_u32_def)
  qed
  moreover have "n4 k = spliced nodes ra rb ta tb ?sz k" for k
    using assms(1,2) mt a b
    by (cases "nodes k") (auto simp: n4_def n3_def n2_def n1_def spliced_def split: if_splits)
  ultimately show ?thesis by auto
qed

lemma spliced_hangs_under:
  assumes "is_root nodes ra" "is_root nodes rb" "ra \<noteq> rb"
  shows "hangs_under nodes (spliced nodes ra rb ta tb sz) rb ra"
  using assms by (auto simp: hangs_under_def spliced_def dom_def)

lemma next_chain_append:
  assumes "next_chain nodes xs" "next_chain nodes ys" "distinct (xs @ ys)"
    and next': "\<And>k. k \<in> set xs \<union> set ys \<Longrightarrow>
      map_option m_next (nodes' k) =
        (if k = last xs then Some (Some (hd ys)) else map_option m_next (nodes k))"
  shows "next_chain nodes' (xs @ ys)"
  unfolding next_chain_nth
proof (intro conjI allI impI)
  from assms(1,2) have ne: "xs \<noteq> []" "ys \<noteq> []" by auto
  then show "xs @ ys \<noteq> []" by simp
  fix i assume i: "i < length (xs @ ys)"
  let ?k = "(xs @ ys) ! i"
  have "?k \<in> set (xs @ ys)" using i by (rule nth_mem)
  then have n': "map_option m_next (nodes' ?k) =
      (if ?k = last xs then Some (Some (hd ys)) else map_option m_next (nodes ?k))"
    by (intro next') auto
  have lst: "?k = last xs \<longleftrightarrow> i = length xs - 1"
  proof -
    have "last xs = (xs @ ys) ! (length xs - 1)" using ne by (simp add: last_conv_nth nth_append)
    with assms(3) i ne show ?thesis by (metis diff_less length_append length_greater_0_conv
          nth_eq_iff_index_eq trans_less_add1 zero_less_one)
  qed
  have hdy: "hd ys = (xs @ ys) ! length xs" using ne by (simp add: hd_conv_nth nth_append)
  consider "i < length xs - 1" | "i = length xs - 1" | "length xs \<le> i" by linarith
  then show "\<exists>m. nodes' ?k = Some m \<and>
      m_next m = (if Suc i < length (xs @ ys) then Some ((xs @ ys) ! Suc i) else None)"
  proof cases
    case 1
    then have "\<exists>m. nodes (xs ! i) = Some m \<and> m_next m = Some (xs ! Suc i)"
      using assms(1) unfolding next_chain_nth by (auto dest!: spec [of _ i])
    with 1 n' lst show ?thesis by (auto simp: nth_append)
  next
    case 2
    with n' lst ne hdy show ?thesis by (auto simp: Suc_diff_1)
  next
    case 3
    let ?j = "i - length xs"
    have "\<exists>m. nodes (ys ! ?j) = Some m \<and>
        m_next m = (if Suc ?j < length ys then Some (ys ! Suc ?j) else None)"
      using assms(2) 3 i unfolding next_chain_nth by (auto dest!: spec [of _ ?j])
    moreover have "i \<noteq> length xs - 1" using 3 ne by (cases xs) auto
    ultimately show ?thesis using 3 n' lst i by (auto simp: nth_append Suc_diff_le)
  qed
qed

lemma set_list_mem: "set_list nodes r ms \<Longrightarrow> k \<in> set ms \<longleftrightarrow> rep_of nodes k r"
  by (simp add: set_list_def)

lemma set_lists_disjoint:
  assumes "set_list nodes r ms" "set_list nodes r' ms'" "r \<noteq> r'"
  shows "set ms \<inter> set ms' = {}"
proof (rule ccontr)
  assume "set ms \<inter> set ms' \<noteq> {}"
  then obtain k where "rep_of nodes k r" "rep_of nodes k r'"
    using set_list_mem [OF assms(1)] set_list_mem [OF assms(2)] by auto
  then have "r' = r" by (rule rep_of_unique)
  with assms(3) show False by simp
qed

text \<open>
  What \<open>uf_splice\<close> leaves: the set of \<open>rb\<close> is merged into the one of \<open>ra\<close>, its list appended, and
  every other set is as it was.
\<close>

lemma splice_spec:
  assumes inv: "uf_inv nodes" and ra: "is_root nodes ra" and rb: "is_root nodes rb" and "ra \<noteq> rb"
    and la: "set_list nodes ra as" and lb: "set_list nodes rb bs"
  obtains nodes' where "uf_splice nodes ra rb = Some (nodes', ra)"
    "hangs_under nodes nodes' rb ra" "set_list nodes' ra (as @ bs)"
    "\<And>r ms. r \<noteq> ra \<Longrightarrow> r \<noteq> rb \<Longrightarrow> is_root nodes r \<Longrightarrow> set_list nodes r ms \<Longrightarrow> set_list nodes' r ms"
    "\<And>k. k \<noteq> ra \<Longrightarrow> map_option m_size (nodes' k) = map_option m_size (nodes k)"
proof -
  from la obtain ma where ma: "nodes ra = Some ma" "m_tail ma = Some (last as)"
    "unat (m_size ma) = length as" by (auto simp: set_list_def)
  from lb obtain mb where mb: "nodes rb = Some mb" "m_tail mb = Some (last bs)"
    "unat (m_size mb) = length bs" by (auto simp: set_list_def)
  have ne: "as \<noteq> []" "bs \<noteq> []" using la lb by (auto simp: set_list_def)
  have disj: "set as \<inter> set bs = {}"
    using la lb \<open>ra \<noteq> rb\<close> by (rule set_lists_disjoint)
  have sub: "set as \<union> set bs \<subseteq> dom nodes"
    using la lb by (auto simp: set_list_def dest!: next_chain_dom)
  have dist: "distinct (as @ bs)" using la lb disj by (simp add: set_list_def)
  have "length as + length bs = card (set as \<union> set bs)"
    using distinct_card [OF dist] by simp
  also have "\<dots> \<le> card (dom nodes)" using sub inv by (intro card_mono) (auto simp: uf_inv_def)
  also have "\<dots> < 2 ^ 32" using inv by (simp add: uf_inv_def)
  finally have small: "length as + length bs < 2 ^ 32" .
  let ?n = "spliced nodes ra rb (last as) (last bs) (m_size ma + m_size mb)"
  have "last as \<in> dom nodes" using ne sub by (meson Un_iff in_mono last_in_set)
  then have sp: "uf_splice nodes ra rb = Some (?n, ra)"
    using ma mb small by (intro splice_spliced) auto
  have h: "hangs_under nodes ?n rb ra" using ra rb \<open>ra \<noteq> rb\<close> by (rule spliced_hangs_under)
  note rep = hangs_under_rep_of [OF h inv]
  have "next_chain ?n (as @ bs)"
  proof (rule next_chain_append)
    show "next_chain nodes as" "next_chain nodes bs" using la lb by (auto simp: set_list_def)
    fix k assume "k \<in> set as \<union> set bs"
    then obtain m where "nodes k = Some m" using sub by blast
    then show "map_option m_next (?n k) =
        (if k = last as then Some (Some (hd bs)) else map_option m_next (nodes k))"
      using lb by (simp add: spliced_def set_list_def)
  qed (rule dist)
  moreover have "set (as @ bs) = {k. rep_of ?n k ra}"
    using set_list_mem [OF la] set_list_mem [OF lb] by (auto simp: rep)
  moreover have "unat (m_size ma + m_size mb) = length (as @ bs)"
    using ma mb small by (simp add: unat_word_ariths)
  ultimately have "set_list ?n ra (as @ bs)"
    using la ma dist ne by (simp add: set_list_def spliced_def)
  moreover have "set_list ?n r ms"
    if r: "r \<noteq> ra" "r \<noteq> rb" "is_root nodes r" and l: "set_list nodes r ms" for r ms
  proof -
    have "set ms \<inter> set as = {}" using l la r(1) by (rule set_lists_disjoint)
    then have "last as \<notin> set ms" using ne by (meson disjoint_iff last_in_set)
    then have "next_chain ?n ms \<longleftrightarrow> next_chain nodes ms"
      by (intro next_chain_cong) (auto simp: spliced_def option.map_comp comp_def
          intro: option.map_cong)
    moreover have "rep_of ?n k r \<longleftrightarrow> rep_of nodes k r" for k
      using r rep_of_unique by (metis rep)
    moreover have "\<exists>m. ?n r = Some m \<and> m_tail m = Some (last ms) \<and> unat (m_size m) = length ms"
    proof -
      from l obtain m where "nodes r = Some m" "m_tail m = Some (last ms)"
        "unat (m_size m) = length ms" by (auto simp: set_list_def)
      with r show ?thesis by (simp add: spliced_def)
    qed
    ultimately show ?thesis using l by (simp add: set_list_def)
  qed
  moreover have "map_option m_size (?n k) = map_option m_size (nodes k)" if "k \<noteq> ra" for k
    using that by (simp add: spliced_def option.map_comp comp_def)
  ultimately show thesis using sp h that by blast
qed

text \<open>\<open>merged nodes nodes' a b\<close>: the relation the table stands for now also joins \<open>a\<close> and \<open>b\<close>.\<close>

definition merged :: "'k uf \<Rightarrow> 'k uf \<Rightarrow> 'k \<Rightarrow> 'k \<Rightarrow> bool" where
  "merged nodes nodes' a b \<longleftrightarrow> (\<forall>x y. same_set nodes' x y \<longleftrightarrow>
     same_set nodes x y \<or> (same_set nodes x a \<and> same_set nodes b y) \<or>
     (same_set nodes x b \<and> same_set nodes a y))"

lemma rep_of_or_not: "rep_of nodes k r \<Longrightarrow> rep_of nodes k r' \<longleftrightarrow> r' = r"
  using rep_of_unique by metis

lemma hangs_under_merged:
  assumes h: "hangs_under nodes nodes' rb ra" and inv: "uf_inv nodes"
    and a: "rep_of nodes a ra" and b: "rep_of nodes b rb"
  shows "merged nodes nodes' a b"
  unfolding merged_def
proof (intro allI)
  fix x y
  note rep = hangs_under_rep_of [OF h inv]
  have sa: "same_set nodes z a \<longleftrightarrow> rep_of nodes z ra" "same_set nodes a z \<longleftrightarrow> rep_of nodes z ra" for z
    using a same_set_sym same_set_iff_rep by metis+
  have sb: "same_set nodes z b \<longleftrightarrow> rep_of nodes z rb" "same_set nodes b z \<longleftrightarrow> rep_of nodes z rb" for z
    using b same_set_sym same_set_iff_rep by metis+
  show "same_set nodes' x y \<longleftrightarrow> same_set nodes x y \<or> (same_set nodes x a \<and> same_set nodes b y) \<or>
     (same_set nodes x b \<and> same_set nodes a y)"
  proof (cases "(\<exists>p. rep_of nodes x p) \<and> (\<exists>q. rep_of nodes y q)")
    case True
    then obtain p q where "rep_of nodes x p" "rep_of nodes y q" by blast
    note pq = rep_of_or_not [OF this(1)] rep_of_or_not [OF this(2)]
    have "ra \<noteq> rb" using h by (simp add: hangs_under_def)
    then show ?thesis unfolding sa sb unfolding same_set_def rep pq by auto
  next
    case False
    then show ?thesis unfolding sa sb unfolding same_set_def rep by blast
  qed
qed

lemma uf_balancedD:
  "uf_balanced nodes \<Longrightarrow> climbs nodes k d r \<Longrightarrow> nodes r = Some m \<Longrightarrow> 2 ^ d \<le> unat (m_size m)"
  unfolding uf_balanced_def by blast

lemma hangs_under_balanced:
  assumes h: "hangs_under nodes nodes' rb ra" and inv: "uf_inv nodes" and bal: "uf_balanced nodes"
    and m: "nodes ra = Some ma" "nodes rb = Some mb" "unat (m_size mb) \<le> unat (m_size ma)"
    and s: "nodes' ra = Some ma'" "unat (m_size ma') = unat (m_size ma) + unat (m_size mb)"
    and keep: "\<And>k. k \<noteq> ra \<Longrightarrow> map_option m_size (nodes' k) = map_option m_size (nodes k)"
  shows "uf_balanced nodes'"
  unfolding uf_balanced_def
proof (intro allI impI)
  fix k d r m assume d: "climbs nodes' k d r" and m': "nodes' r = Some m"
  have "k \<in> dom nodes" using climbs_dom [OF d] h by (simp add: hangs_under_def)
  with inv obtain e r0 where e: "climbs nodes k e r0" by (rule uf_inv_climbs)
  from climbs_deterministic [OF hangs_under_climbs [OF h e] d]
  have dr: "d = (if r0 = rb then Suc e else e)" "r = (if r0 = rb then ra else r0)" by auto
  consider "r0 = rb" | "r0 = ra" | "r0 \<noteq> ra" "r0 \<noteq> rb" by blast
  then show "2 ^ d \<le> unat (m_size m)"
  proof cases
    case 1
    have "2 ^ e \<le> unat (m_size mb)" using bal e [unfolded 1] m(2) by (rule uf_balancedD)
    with 1 dr m s m' show ?thesis by simp
  next
    case 2
    have "2 ^ e \<le> unat (m_size ma)" using bal e [unfolded 2] m(1) by (rule uf_balancedD)
    moreover have "ra \<noteq> rb" using h by (simp add: hangs_under_def)
    ultimately show ?thesis using 2 dr s m' by simp
  next
    case 3
    with dr keep [of r] m' obtain m0 where "nodes r0 = Some m0" "m_size m0 = m_size m"
      by (cases "nodes r0") auto
    moreover have "2 ^ e \<le> unat (m_size m0)" using bal e calculation(1) by (rule uf_balancedD)
    ultimately show ?thesis using 3 dr by simp
  qed
qed

lemma hangs_under_inv:
  assumes h: "hangs_under nodes nodes' rb ra" and inv: "uf_inv nodes"
    and la: "set_list nodes' ra ms"
    and other: "\<And>r ms. r \<noteq> ra \<Longrightarrow> r \<noteq> rb \<Longrightarrow> is_root nodes r \<Longrightarrow> set_list nodes r ms \<Longrightarrow>
      set_list nodes' r ms"
  shows "uf_inv nodes'"
proof -
  note rep = hangs_under_rep_of [OF h inv]
  have dom: "dom nodes' = dom nodes" using h by (simp add: hangs_under_def)
  have "\<exists>r. rep_of nodes' k r" if "k \<in> dom nodes'" for k
    using inv that unfolding dom rep uf_inv_def by metis
  moreover have "\<exists>ms. set_list nodes' r ms" if "is_root nodes' r" for r
  proof (cases "r = ra")
    case True
    with la show ?thesis by blast
  next
    case False
    have "rep_of nodes' r r" using that by simp
    with False have r: "rep_of nodes r r" "\<not> rep_of nodes r rb" unfolding rep by auto
    then have root: "is_root nodes r" by (simp add: is_root_iff_rep)
    then have "r \<noteq> rb" using r by auto
    with root False inv other show ?thesis unfolding uf_inv_def by metis
  qed
  ultimately show ?thesis using inv by (simp add: uf_inv_def dom)
qed

lemma uf_inv_set_list:
  assumes "uf_inv nodes" "is_root nodes r"
  obtains ms where "set_list nodes r ms"
  using assms unfolding uf_inv_def by blast

text \<open>
  \<open>splices\<close>: how the member lists change. The kept root \<open>ra\<close> heads its own list followed by the
  other one; every set apart from the two keeps its list.
\<close>

definition splices :: "'k uf \<Rightarrow> 'k uf \<Rightarrow> 'k \<Rightarrow> 'k \<Rightarrow> bool" where
  "splices nodes nodes' ra rb \<longleftrightarrow>
     (\<exists>as bs. set_list nodes ra as \<and> set_list nodes rb bs \<and> length bs \<le> length as \<and>
       set_list nodes' ra (as @ bs)) \<and>
     (\<forall>r ms. r \<noteq> ra \<longrightarrow> r \<noteq> rb \<longrightarrow> is_root nodes r \<longrightarrow> set_list nodes r ms \<longrightarrow>
       set_list nodes' r ms)"

lemma set_list_size:
  "set_list nodes r ms \<Longrightarrow> nodes r = Some m \<Longrightarrow> unat (m_size m) = length ms"
  by (simp add: set_list_def)

lemma splice_total:
  assumes inv: "uf_inv nodes" and ra: "is_root nodes ra" and rb: "is_root nodes rb" and "ra \<noteq> rb"
    and m: "nodes ra = Some ma" "nodes rb = Some mb" "\<not> m_size ma < m_size mb"
  obtains nodes' where "uf_splice nodes ra rb = Some (nodes', ra)" "uf_inv nodes'"
    "hangs_under nodes nodes' rb ra" "splices nodes nodes' ra rb"
    "uf_balanced nodes \<Longrightarrow> uf_balanced nodes'"
proof -
  obtain as where la: "set_list nodes ra as" using inv ra by (rule uf_inv_set_list)
  obtain bs where lb: "set_list nodes rb bs" using inv rb by (rule uf_inv_set_list)
  obtain nodes' where n: "uf_splice nodes ra rb = Some (nodes', ra)"
    and h: "hangs_under nodes nodes' rb ra" and l: "set_list nodes' ra (as @ bs)"
    and other: "\<And>r ms. r \<noteq> ra \<Longrightarrow> r \<noteq> rb \<Longrightarrow> is_root nodes r \<Longrightarrow> set_list nodes r ms \<Longrightarrow>
      set_list nodes' r ms"
    and sz: "\<And>k. k \<noteq> ra \<Longrightarrow> map_option m_size (nodes' k) = map_option m_size (nodes k)"
    using splice_spec [OF inv ra rb \<open>ra \<noteq> rb\<close> la lb] by metis
  have le: "unat (m_size mb) \<le> unat (m_size ma)"
    using m(3) by (simp add: word_less_nat_alt)
  have inv': "uf_inv nodes'" using h inv l other by (rule hangs_under_inv)
  have sp: "splices nodes nodes' ra rb"
    using la lb l other le set_list_size [OF la m(1)] set_list_size [OF lb m(2)]
    unfolding splices_def by metis
  have "uf_balanced nodes'" if "uf_balanced nodes"
  proof -
    obtain ma' where ma': "nodes' ra = Some ma'" using l by (auto simp: set_list_def)
    have "unat (m_size ma') = unat (m_size ma) + unat (m_size mb)"
      using set_list_size [OF l ma'] set_list_size [OF la m(1)] set_list_size [OF lb m(2)] by simp
    from hangs_under_balanced [OF h inv that m(1,2) le ma' this sz] show ?thesis .
  qed
  with n inv' h sp that show thesis by blast
qed

lemma merged_compressed:
  assumes inv: "uf_inv nodes" and c: "compressed nodes n" and m: "merged n nodes' a b"
  shows "merged nodes nodes' a b"
  using m unfolding merged_def compressed_same_set [OF inv c] .

lemma splices_compressed:
  assumes inv: "uf_inv nodes" and c: "compressed nodes n" and s: "splices n nodes' ra rb"
  shows "splices nodes nodes' ra rb"
  using s compressed_rep_of [OF inv c]
  unfolding splices_def compressed_set_list [OF inv c] is_root_iff_rep by simp

text \<open>
  \<open>union_ends nodes a b nodes' r\<close>: what a finished \<open>union\<close> leaves in \<open>nodes'\<close>, with \<open>r\<close> the
  representative it answers.
\<close>

definition union_ends :: "'k uf \<Rightarrow> 'k \<Rightarrow> 'k \<Rightarrow> 'k uf \<Rightarrow> 'k \<Rightarrow> bool" where
  "union_ends nodes a b nodes' r \<longleftrightarrow>
     uf_inv nodes' \<and> dom nodes' = dom nodes \<and> merged nodes nodes' a b \<and>
     rep_of nodes' a r \<and> rep_of nodes' b r \<and> (uf_balanced nodes \<longrightarrow> uf_balanced nodes') \<and>
     (same_set nodes a b \<longrightarrow> compressed nodes nodes') \<and>
     (\<not> same_set nodes a b \<longrightarrow> (\<exists>s. splices nodes nodes' r s \<and>
       (rep_of nodes a r \<and> rep_of nodes b s \<or> rep_of nodes b r \<and> rep_of nodes a s)))"

lemma union_of_roots:
  assumes inv: "uf_inv nodes" and c: "compressed nodes n" and i: "uf_inv n"
    and reps: "rep_of nodes a w \<and> rep_of nodes b l \<or> rep_of nodes b w \<and> rep_of nodes a l"
    and "w \<noteq> l" and m: "n w = Some mw" "n l = Some ml" "\<not> m_size mw < m_size ml"
  shows "\<exists>nodes'. uf_splice n w l = Some (nodes', w) \<and> union_ends nodes a b nodes' w"
proof -
  note rep = compressed_rep_of [OF inv c]
  have reps': "rep_of n a w \<and> rep_of n b l \<or> rep_of n b w \<and> rep_of n a l" using reps rep by simp
  then have roots: "is_root n w" "is_root n l" by (auto intro: rep_of_is_root)
  obtain n' where s: "uf_splice n w l = Some (n', w)" and i': "uf_inv n'"
    and h: "hangs_under n n' l w" and sp: "splices n n' w l"
    and bal: "uf_balanced n \<Longrightarrow> uf_balanced n'"
    using splice_total [OF i roots \<open>w \<noteq> l\<close> m] by metis
  have mer: "merged n n' a b"
    using reps' hangs_under_merged [OF h i] unfolding merged_def by blast
  have "rep_of n' a w" "rep_of n' b w"
    using hangs_under_rep_of [OF h i] reps' rep_of_or_not [of n] \<open>w \<noteq> l\<close> by metis+
  moreover have "\<not> same_set nodes a b"
    using reps \<open>w \<noteq> l\<close> rep_of_or_not [of nodes] unfolding same_set_def by metis
  moreover have "dom n' = dom nodes"
    using h keeps_list_dom [OF compressed_keeps_list [OF c]] by (simp add: hangs_under_def)
  ultimately have "union_ends nodes a b n' w"
    using i' merged_compressed [OF inv c mer] bal compressed_balanced [OF inv c]
      splices_compressed [OF inv c sp] reps unfolding union_ends_def by blast
  with s show ?thesis by blast
qed

text \<open>The whole of \<open>union\<close>: it returns, keeps the invariant, and merges exactly the two sets.\<close>

lemma union_total:
  assumes inv: "uf_inv nodes" and a: "a \<in> dom nodes" and b: "b \<in> dom nodes"
  shows "\<exists>nodes' r. uf_union nodes a b = Some (nodes', r) \<and> union_ends nodes a b nodes' r"
proof -
  obtain n1 ra where f1: "uf_find nodes a = Some (n1, ra)" and ra: "rep_of nodes a ra"
    and c1: "compressed nodes n1" and i1: "uf_inv n1" using inv a by (rule find_total)
  have b1: "b \<in> dom n1" using b keeps_list_dom [OF compressed_keeps_list [OF c1]] by simp
  obtain n rb where f2: "uf_find n1 b = Some (n, rb)" and rb1: "rep_of n1 b rb"
    and c2: "compressed n1 n" and i2: "uf_inv n" using i1 b1 by (rule find_total)
  have c: "compressed nodes n" using c1 c2 by (rule compressed_trans)
  have rb: "rep_of nodes b rb" using rb1 compressed_rep_of [OF inv c1] by simp
  have reps: "rep_of n a ra" "rep_of n b rb" using ra rb compressed_rep_of [OF inv c] by auto
  then obtain ma mb where m: "n ra = Some ma" "n rb = Some mb"
    using rep_of_dom by (meson domD)
  show ?thesis
  proof (cases "ra = rb")
    case True
    have "uf_union nodes a b = Some (n, ra)" using f1 f2 True by (simp add: uf_union_def)
    moreover have "merged n n a b"
      using same_set_trans same_set_sym reps True
      unfolding merged_def same_set_def by (metis rep_of_or_not)
    then have "merged nodes n a b" by (rule merged_compressed [OF inv c])
    moreover have "same_set nodes a b" using ra rb True unfolding same_set_def by blast
    ultimately show ?thesis
      using i2 reps True c compressed_balanced [OF inv c]
        keeps_list_dom [OF compressed_keeps_list [OF c]] unfolding union_ends_def by blast
  next
    case False
    define w l where "w = (if m_size ma < m_size mb then rb else ra)"
      and "l = (if m_size ma < m_size mb then ra else rb)"
    have "uf_union nodes a b = uf_splice n w l"
      using f1 f2 False m by (simp add: uf_union_def w_def l_def)
    moreover have "\<exists>nodes'. uf_splice n w l = Some (nodes', w) \<and> union_ends nodes a b nodes' w"
      by (rule union_of_roots [OF inv c i2,
            of _ w _ l "if m_size ma < m_size mb then mb else ma"
              "if m_size ma < m_size mb then ma else mb"])
        (use ra rb False m in \<open>auto simp: w_def l_def\<close>)
    ultimately show ?thesis by metis
  qed
qed

section \<open>Members and fresh sets\<close>

lemma members_chain: "next_chain nodes ms \<Longrightarrow> uf_members nodes (hd ms) = Some ms"
proof (induction ms rule: induct_list012)
  case (2 k)
  then show ?case by (subst uf_members.simps) auto
next
  case (3 k k' ks)
  then show ?case by (subst uf_members.simps) auto
qed simp

lemma members_set_list: "set_list nodes r ms \<Longrightarrow> uf_members nodes r = Some ms"
  using members_chain by (auto simp: set_list_def)

lemma is_root_inv_members:
  assumes "uf_inv nodes" "is_root nodes r"
  obtains ms where "uf_members nodes r = Some ms" "set_list nodes r ms"
  using assms uf_inv_set_list members_set_list by metis

lemma climbs_fun_upd:
  assumes "climbs nodes k d r" "\<And>x. on_path nodes k x \<Longrightarrow> nodes' x = nodes x"
  shows "climbs nodes' k d r"
  using assms
proof (induction rule: climbs.induct)
  case (climbs_root k m)
  then show ?case by (metis climbs.climbs_root on_path_self)
next
  case (climbs_step k m p d r)
  have "nodes' k = Some m" using climbs_step.prems climbs_step.hyps on_path_self by metis
  moreover have "climbs nodes' p d r"
    by (rule climbs_step.IH) (use climbs_step.prems climbs_step.hyps on_path_up in metis)
  ultimately show ?case using climbs_step.hyps(2) by (metis climbs.climbs_step)
qed

lemma on_path_rep: "on_path nodes k x \<Longrightarrow> climbs nodes k d r \<Longrightarrow> rep_of nodes x r"
proof (induction arbitrary: d rule: on_path.induct)
  case (on_path_self k)
  then show ?case by (auto simp: rep_of_def)
next
  case (on_path_up k m p x)
  from on_path_up.prems on_path_up.hyps obtain e where "climbs nodes p e r"
    by (auto elim: climbs.cases)
  then show ?case by (rule on_path_up.IH)
qed

text \<open>A set none of whose keys is written stands as it was.\<close>

lemma rep_of_untouched:
  assumes "rep_of nodes k r" "\<And>x. rep_of nodes x r \<Longrightarrow> nodes' x = nodes x"
  shows "rep_of nodes' k r"
proof -
  from assms(1) obtain d where d: "climbs nodes k d r" by (auto simp: rep_of_def)
  have "climbs nodes' k d r"
    by (rule climbs_fun_upd [OF d]) (use assms(2) on_path_rep d in metis)
  then show ?thesis by (auto simp: rep_of_def)
qed

lemma set_list_root_in: "set_list nodes r ms \<Longrightarrow> r \<in> set ms"
  unfolding set_list_def using hd_in_set next_chain_not_Nil by metis

lemma set_list_untouched:
  assumes l: "set_list nodes r ms" and same: "\<And>x. rep_of nodes x r \<Longrightarrow> nodes' x = nodes x"
    and conv: "\<And>x. rep_of nodes' x r \<Longrightarrow> rep_of nodes x r"
  shows "set_list nodes' r ms"
proof -
  have eq: "nodes' x = nodes x" if "x \<in> set ms" for x
    using that unfolding set_list_mem [OF l] by (rule same)
  have "next_chain nodes' ms \<longleftrightarrow> next_chain nodes ms"
    by (rule next_chain_cong) (simp add: eq)
  moreover have "{k. rep_of nodes' k r} = {k. rep_of nodes k r}"
  proof (intro set_eqI iffI; simp only: mem_Collect_eq)
    fix k assume k: "rep_of nodes k r"
    show "rep_of nodes' k r" by (rule rep_of_untouched [OF k same])
  qed (rule conv)
  moreover have "r \<in> set ms" using l by (rule set_list_root_in)
  ultimately show ?thesis using l eq [of r] by (simp add: set_list_def)
qed

text \<open>\<open>make_set\<close> on a node just inserted adds a set of its own.\<close>

lemma make_set_spec:
  assumes inv: "uf_inv nodes" and fresh: "key \<notin> dom nodes" and room: "card (dom nodes) + 1 < 2 ^ 32"
  obtains nodes' where "make_set (nodes(key \<mapsto> m)) key = Some nodes'" "uf_inv nodes'"
    "dom nodes' = insert key (dom nodes)" "set_list nodes' key [key]"
    "\<And>x y. same_set nodes' x y \<longleftrightarrow> same_set nodes x y \<or> (x = key \<and> y = key)"
    "uf_balanced nodes \<Longrightarrow> uf_balanced nodes'"
    "\<And>k r. rep_of nodes' k r \<longleftrightarrow> rep_of nodes k r \<or> (k = key \<and> r = key)"
proof -
  let ?m = "m\<lparr>m_parent := None, m_next := None, m_tail := Some key, m_size := 1\<rparr>"
  let ?n = "nodes(key \<mapsto> ?m)"
  have mk: "make_set (nodes(key \<mapsto> m)) key = Some ?n" by (simp add: make_set_def upd_meta_def)
  have keep: "?n x = nodes x" if "rep_of nodes x r" for x r
    using that fresh rep_of_dom by (metis fun_upd_other)
  have rooted: "is_root ?n key" by (simp add: is_root_def)
  have cl: "climbs ?n k d r \<longleftrightarrow> climbs nodes k d r \<or> (k = key \<and> d = 0 \<and> r = key)" for k d r
  proof
    assume c: "climbs ?n k d r"
    show "climbs nodes k d r \<or> (k = key \<and> d = 0 \<and> r = key)"
    proof (cases "k = key")
      case True
      with c rooted show ?thesis by (simp add: climbs_from_root)
    next
      case False
      with climbs_dom [OF c] have "k \<in> dom nodes" by simp
      with inv obtain e s where e: "climbs nodes k e s" by (rule uf_inv_climbs)
      have "climbs ?n k e s"
        by (rule climbs_fun_upd [OF e]) (use keep on_path_rep e in metis)
      with c e show ?thesis using climbs_deterministic by metis
    qed
  next
    assume "climbs nodes k d r \<or> (k = key \<and> d = 0 \<and> r = key)"
    then show "climbs ?n k d r"
    proof
      assume d: "climbs nodes k d r"
      show ?thesis by (rule climbs_fun_upd [OF d]) (use keep on_path_rep d in metis)
    qed (use rooted in \<open>simp add: climbs_from_root\<close>)
  qed
  have rep: "rep_of ?n k r \<longleftrightarrow> rep_of nodes k r \<or> (k = key \<and> r = key)" for k r
    unfolding rep_of_def cl by blast
  have nokey: "\<not> rep_of nodes x key" "\<not> rep_of nodes key x" for x
    using fresh rep_of_dom [of nodes x key] rep_of_dom [of nodes key x] by auto
  have new: "set_list ?n key [key]"
    unfolding set_list_def rep by (auto simp: nokey)
  have old: "set_list ?n r ms" if l: "set_list nodes r ms" and "r \<noteq> key" for r ms
    by (rule set_list_untouched [OF l]) (use keep rep \<open>r \<noteq> key\<close> in blast)+
  have inv': "uf_inv ?n"
  proof -
    have "card (insert key (dom nodes)) < 2 ^ 32"
      using inv fresh room by (simp add: uf_inv_def)
    moreover have "\<exists>r. rep_of ?n k r" if "k \<in> dom ?n" for k
      using that inv unfolding rep uf_inv_def by auto
    moreover have "\<exists>ms. set_list ?n r ms" if "is_root ?n r" for r
      using that new old inv unfolding is_root_iff_rep rep uf_inv_def by metis
    ultimately show ?thesis using inv by (simp add: uf_inv_def)
  qed
  have same: "same_set ?n x y \<longleftrightarrow> same_set nodes x y \<or> (x = key \<and> y = key)" for x y
    unfolding same_set_def rep using nokey by blast
  have bal: "uf_balanced ?n" if "uf_balanced nodes"
    unfolding uf_balanced_def cl
  proof (intro allI impI)
    fix k d r m' assume c: "climbs nodes k d r \<or> (k = key \<and> d = 0 \<and> r = key)" and m': "?n r = Some m'"
    show "2 ^ d \<le> unat (m_size m')"
    proof (cases "r = key")
      case True
      with c m' fresh climbs_dom_root show ?thesis by fastforce
    next
      case False
      with c m' show ?thesis using that by (auto dest: uf_balancedD)
    qed
  qed
  show thesis using that [OF mk inv' _ new same bal rep] by auto
qed

section \<open>Rebuilding a set from survivors\<close>

text \<open>The member after \<open>k\<close> in a list of distinct members.\<close>

fun succ_in :: "'k list \<Rightarrow> 'k \<Rightarrow> 'k option" where
  "succ_in (a # b # ms) k = (if k = a then Some b else succ_in (b # ms) k)"
| "succ_in _ k = None"

lemma succ_in_Cons: "ms \<noteq> [] \<Longrightarrow> succ_in (a # ms) k = (if k = a then Some (hd ms) else succ_in ms k)"
  by (cases ms) auto

text \<open>The table the loop leaves, once \<open>ms\<close> are re-pointed at \<open>r\<close> and linked up.\<close>

definition relinked :: "'k uf \<Rightarrow> 'k \<Rightarrow> 'k list \<Rightarrow> 'k uf" where
  "relinked nodes r ms = (\<lambda>k. if k \<notin> set ms then nodes k else map_option (\<lambda>m.
     m\<lparr>m_parent := (if k \<noteq> r then Some r else None),
       m_next := (case succ_in ms k of None \<Rightarrow> m_next m | Some k' \<Rightarrow> Some k')\<rparr>) (nodes k))"

text \<open>The table after \<open>uf_rebuild\<close>.\<close>

definition rebuilt :: "'k uf \<Rightarrow> 'k list \<Rightarrow> 'k uf" where
  "rebuilt nodes ms = (\<lambda>k. if k \<notin> set ms then nodes k else map_option (\<lambda>m.
     \<lparr>m_parent = (if k = hd ms then None else Some (hd ms)),
      m_next = succ_in ms k,
      m_tail = (if k = hd ms then Some (last ms) else m_tail m),
      m_size = (if k = hd ms then word_of_nat (length ms) else m_size m)\<rparr>) (nodes k))"

lemma succ_in_None: "distinct ms \<Longrightarrow> k \<in> set ms \<Longrightarrow> succ_in ms k = None \<longleftrightarrow> k = last ms"
  by (induction ms k rule: succ_in.induct) auto

lemma rebuild_loop_linked:
  assumes "distinct (p # ms)" "set (p # ms) \<subseteq> dom nodes"
  shows "rebuild_loop nodes r (Some p) ms = Some
    ((if ms = [] then nodes
      else (relinked nodes r ms)(p := map_option (m_next_update (\<lambda>_. Some (hd ms))) (nodes p))),
     Some (last (p # ms)))"
  using assms
proof (induction ms arbitrary: nodes p)
  case (Cons a as)
  from Cons.prems obtain mp ma where m: "nodes p = Some mp" "nodes a = Some ma" by auto
  have ne: "p \<noteq> a" "a \<notin> set as" "p \<notin> set as" "distinct (a # as)" using Cons.prems by auto
  define n where "n = nodes(p \<mapsto> mp\<lparr>m_next := Some a\<rparr>,
    a \<mapsto> ma\<lparr>m_parent := (if a \<noteq> r then Some r else None)\<rparr>)"
  have "set (a # as) \<subseteq> dom n" using Cons.prems by (auto simp: n_def)
  note IH = Cons.IH [OF ne(4) this]
  have step: "rebuild_loop nodes r (Some p) (a # as) = rebuild_loop n r (Some a) as"
    using m ne by (simp add: upd_meta_def n_def)
  have "(if as = [] then n
      else (relinked n r as)(a := map_option (m_next_update (\<lambda>_. Some (hd as))) (n a))) k =
    ((relinked nodes r (a # as))
      (p := map_option (m_next_update (\<lambda>_. Some (hd (a # as)))) (nodes p))) k" for k
    using m ne by (cases "as = []") (auto simp: relinked_def n_def succ_in_Cons)
  then show ?case unfolding step IH by (auto simp: fun_eq_iff)
qed simp

lemma rebuild_rebuilt:
  assumes "distinct ms" "set ms \<subseteq> dom nodes" "ms \<noteq> []"
  shows "uf_rebuild nodes ms = Some (rebuilt nodes ms)"
proof -
  obtain r rest where ms: "ms = r # rest" using assms(3) by (cases ms) auto
  obtain mr where mr: "nodes r = Some mr" using assms(2) ms by auto
  define n0 where "n0 = nodes(r \<mapsto> mr\<lparr>m_parent := None\<rparr>)"
  define n1 where "n1 = (if rest = [] then n0
    else (relinked n0 r rest)(r := map_option (m_next_update (\<lambda>_. Some (hd rest))) (n0 r)))"
  have n0: "distinct (r # rest)" "set (r # rest) \<subseteq> dom n0"
    using assms ms by (auto simp: n0_def)
  have loop: "rebuild_loop nodes r None ms = Some (n1, Some (last ms))"
    using rebuild_loop_linked [OF n0] mr ms by (simp add: upd_meta_def n0_def [symmetric] n1_def)
  have n1: "n1 k = (if k \<in> set ms then map_option (\<lambda>m.
      m\<lparr>m_parent := (if k = r then None else Some r),
        m_next := (case succ_in ms k of None \<Rightarrow> m_next m | Some k' \<Rightarrow> Some k')\<rparr>) (nodes k)
      else nodes k)" for k
    using assms(1) mr by (auto simp: n1_def n0_def relinked_def ms succ_in_Cons)
  have "last ms \<in> set ms" using assms(3) by simp
  with assms(2) obtain ml where ml: "n1 (last ms) = Some ml"
    using n1 [of "last ms"] by fastforce
  define n2 where "n2 = n1(last ms \<mapsto> ml\<lparr>m_next := None\<rparr>)"
  have "r \<in> dom n2" using n1 [of r] mr ms by (auto simp: n2_def)
  then obtain mr2 where mr2: "n2 r = Some mr2" by blast
  have u1: "upd_meta n1 (last ms) (\<lambda>m. m\<lparr>m_next := None\<rparr>) = Some n2"
    using ml by (simp add: upd_meta_def n2_def)
  have u2: "upd_meta n2 r (\<lambda>m. m\<lparr>m_tail := Some (last ms), m_size := word_of_nat (length ms)\<rparr>) =
      Some (n2(r \<mapsto> mr2\<lparr>m_tail := Some (last ms), m_size := word_of_nat (length ms)\<rparr>))"
    using mr2 by (simp add: upd_meta_def)
  have "uf_rebuild nodes ms =
      Some (n2(r \<mapsto> mr2\<lparr>m_tail := Some (last ms), m_size := word_of_nat (length ms)\<rparr>))"
    by (simp only: uf_rebuild_def ms list.case loop [unfolded ms] bind.bind_lunit prod.case
        u1 [unfolded ms] u2 [unfolded ms])
  moreover have "(n2(r \<mapsto> mr2\<lparr>m_tail := Some (last ms), m_size := word_of_nat (length ms)\<rparr>)) k =
      rebuilt nodes ms k" for k
  proof (cases "k \<in> set ms")
    case True
    with assms(2) obtain m where "nodes k = Some m" by blast
    with True mr2 ml show ?thesis
      using succ_in_None [OF assms(1) True] n1 [of k]
      by (auto simp: n2_def rebuilt_def ms split: option.splits if_splits)
  next
    case False
    then show ?thesis using \<open>last ms \<in> set ms\<close> n1 [of k] ms by (auto simp: n2_def rebuilt_def)
  qed
  ultimately show ?thesis by auto
qed

lemma succ_in_nth:
  "distinct ms \<Longrightarrow> i < length ms \<Longrightarrow>
   succ_in ms (ms ! i) = (if Suc i < length ms then Some (ms ! Suc i) else None)"
proof (induction ms arbitrary: i rule: induct_list012)
  case (3 a b ms)
  show ?case
  proof (cases i)
    case (Suc j)
    with "3.prems" have j: "j < length (b # ms)" by simp
    then have "(b # ms) ! j \<in> set (b # ms)" by (rule nth_mem)
    with "3.prems"(1) have "(b # ms) ! j \<noteq> a" by auto
    with "3.IH"(2) [of j] "3.prems"(1) j Suc show ?thesis by simp
  qed simp
qed auto

text \<open>
  \<open>reaped nodes ms live\<close>: the members of the list \<open>ms\<close> that are not \<open>live\<close> are gone, and the
  set is rebuilt from the others, as a block that is dropped leaves it.
\<close>

definition reaped :: "'k uf \<Rightarrow> 'k list \<Rightarrow> ('k \<Rightarrow> bool) \<Rightarrow> 'k uf" where
  "reaped nodes ms live =
     (rebuilt nodes (List.filter live ms)) |` (- {k \<in> set ms. \<not> live k})"

lemma rebuild_reaped:
  assumes "distinct ms" "set ms \<subseteq> dom nodes"
  shows "\<exists>n. uf_rebuild nodes (List.filter live ms) = Some n \<and>
    n |` (- {k \<in> set ms. \<not> live k}) = reaped nodes ms live"
proof (cases "List.filter live ms = []")
  case True
  then have "rebuilt nodes (List.filter live ms) = nodes" by (simp add: rebuilt_def)
  with True show ?thesis by (simp add: uf_rebuild_def reaped_def)
next
  case False
  have "uf_rebuild nodes (List.filter live ms) = Some (rebuilt nodes (List.filter live ms))"
    using assms False by (intro rebuild_rebuilt) auto
  then show ?thesis by (simp add: reaped_def)
qed

lemma reaped_other: "k \<notin> set ms \<Longrightarrow> reaped nodes ms live k = nodes k"
  by (simp add: reaped_def rebuilt_def)

lemma reaped_gone: "k \<in> set ms \<Longrightarrow> \<not> live k \<Longrightarrow> reaped nodes ms live k = None"
  by (simp add: reaped_def)

lemma reaped_live:
  assumes "k \<in> set ms" "live k" "nodes k = Some m"
  shows "reaped nodes ms live k = Some
     \<lparr>m_parent = (if k = hd (List.filter live ms) then None else Some (hd (List.filter live ms))),
      m_next = succ_in (List.filter live ms) k,
      m_tail = (if k = hd (List.filter live ms) then Some (last (List.filter live ms)) else m_tail m),
      m_size = (if k = hd (List.filter live ms) then word_of_nat (length (List.filter live ms))
        else m_size m)\<rparr>"
  using assms by (simp add: reaped_def rebuilt_def)

lemma reaped_climbs:
  assumes sub: "set ms \<subseteq> dom nodes" and k: "k \<in> set ms" "live k"
  shows "climbs (reaped nodes ms live) k (if k = hd (List.filter live ms) then 0 else 1)
    (hd (List.filter live ms))"
proof -
  let ?L = "List.filter live ms" and ?n = "reaped nodes ms live"
  have "?L \<noteq> []" using k by (auto simp: filter_empty_conv)
  then have "hd ?L \<in> set ?L" by (rule hd_in_set)
  then have h: "hd ?L \<in> set ms" "live (hd ?L)" by auto
  with sub obtain mh where "nodes (hd ?L) = Some mh" by blast
  from reaped_live [of _ ms live nodes, OF h this] have root: "climbs ?n (hd ?L) 0 (hd ?L)"
    by (auto intro: climbs_root)
  from k sub obtain m where "nodes k = Some m" by blast
  from reaped_live [of _ ms live nodes, OF k this] root show ?thesis by (auto intro: climbs_step)
qed

lemma reaped_rep_of:
  assumes inv: "uf_inv nodes" and l: "set_list nodes r ms"
  shows "rep_of (reaped nodes ms live) k s \<longleftrightarrow>
    (k \<in> set ms \<and> live k \<and> s = hd (List.filter live ms)) \<or> (k \<notin> set ms \<and> rep_of nodes k s)"
proof -
  let ?n = "reaped nodes ms live"
  have sub: "set ms \<subseteq> dom nodes" using l by (auto simp: set_list_def dest!: next_chain_dom)
  consider "k \<in> set ms" "live k" | "k \<in> set ms" "\<not> live k" | "k \<notin> set ms" by blast
  then show ?thesis
  proof cases
    case 1
    have "rep_of ?n k (hd (List.filter live ms))"
      using reaped_climbs [of ms nodes k live, OF sub 1] unfolding rep_of_def by blast
    with 1 show ?thesis using rep_of_or_not by metis
  next
    case 2
    then have "k \<notin> dom ?n" using reaped_gone by (metis domIff)
    with 2 show ?thesis using rep_of_dom by metis
  next
    case 3
    have keep: "rep_of ?n k t" if t: "rep_of nodes k t" for t
    proof (rule rep_of_untouched [OF t])
      fix x assume x: "rep_of nodes x t"
      have "t \<noteq> r" using 3 t set_list_mem [OF l] by auto
      then have "\<not> rep_of nodes x r" using x rep_of_or_not by metis
      then show "?n x = nodes x" using set_list_mem [OF l] by (auto intro: reaped_other)
    qed
    show ?thesis
    proof (cases "k \<in> dom nodes")
      case True
      with inv obtain t where t: "rep_of nodes k t" by (auto simp: uf_inv_def)
      from rep_of_or_not [OF keep [OF t]] rep_of_or_not [OF t] 3 show ?thesis by auto
    next
      case False
      then have "k \<notin> dom ?n" using 3 by (simp add: domIff reaped_other)
      with False 3 show ?thesis using rep_of_dom by metis
    qed
  qed
qed

lemma reaped_set_list:
  assumes inv: "uf_inv nodes" and l: "set_list nodes r ms" and "List.filter live ms \<noteq> []"
  shows "set_list (reaped nodes ms live) (hd (List.filter live ms)) (List.filter live ms)"
proof -
  let ?L = "List.filter live ms" and ?n = "reaped nodes ms live"
  have sub: "set ms \<subseteq> dom nodes" using l by (auto simp: set_list_def dest!: next_chain_dom)
  have dist: "distinct ms" "distinct ?L" using l by (auto simp: set_list_def)
  have at: "\<exists>m. ?n k = Some m \<and> m_next m = succ_in ?L k \<and> (k = hd ?L \<longrightarrow>
      m_tail m = Some (last ?L) \<and> m_size m = word_of_nat (length ?L))" if "k \<in> set ?L" for k
  proof -
    from that have k: "k \<in> set ms" "live k" by auto
    with sub obtain m where "nodes k = Some m" by blast
    from reaped_live [of _ ms live nodes, OF k this] show ?thesis by auto
  qed
  have "next_chain ?n ?L"
    unfolding next_chain_nth
  proof (intro conjI allI impI)
    fix i assume i: "i < length ?L"
    show "\<exists>m. ?n (?L ! i) = Some m \<and>
        m_next m = (if Suc i < length ?L then Some (?L ! Suc i) else None)"
      using at [OF nth_mem [OF i]] unfolding succ_in_nth [OF dist(2) i] by blast
  qed (rule assms(3))
  moreover have "set ?L = {k. rep_of ?n k (hd ?L)}"
  proof -
    have "\<not> rep_of nodes k (hd ?L)" if "k \<notin> set ms" for k
    proof
      assume k: "rep_of nodes k (hd ?L)"
      then have "is_root nodes (hd ?L)" by (rule rep_of_is_root)
      moreover have "rep_of nodes (hd ?L) r"
        using assms(3) hd_in_set [of ?L] set_list_mem [OF l, of "hd ?L"] by simp
      ultimately have "r = hd ?L" by simp
      with k that set_list_mem [OF l, of k] show False by simp
    qed
    then show ?thesis unfolding reaped_rep_of [OF inv l] by auto
  qed
  moreover have "length ?L < 2 ^ 32"
  proof -
    have "length ?L = card (set ?L)" using distinct_card [OF dist(2)] by simp
    also have "\<dots> \<le> card (dom nodes)"
      using inv sub by (intro card_mono) (auto simp: uf_inv_def)
    also have "\<dots> < 2 ^ 32" using inv by (simp add: uf_inv_def)
    finally show ?thesis .
  qed
  then have "unat (word_of_nat (length ?L) :: u32) = length ?L"
    by (simp add: unsigned_of_nat take_bit_nat_eq_self)
  then have "\<exists>m. ?n (hd ?L) = Some m \<and> m_tail m = Some (last ?L) \<and> unat (m_size m) = length ?L"
    using at [OF hd_in_set [OF assms(3)]] by auto
  ultimately show ?thesis using dist by (simp add: set_list_def)
qed

lemma reaped_inv:
  assumes inv: "uf_inv nodes" and l: "set_list nodes r ms"
  shows "uf_inv (reaped nodes ms live)"
    and "\<And>r' ms'. r' \<noteq> r \<Longrightarrow> set_list nodes r' ms' \<Longrightarrow> set_list (reaped nodes ms live) r' ms'"
proof -
  let ?n = "reaped nodes ms live"
  note rep = reaped_rep_of [OF inv l]
  have sub: "set ms \<subseteq> dom nodes" using l by (auto simp: set_list_def dest!: next_chain_dom)
  have dom: "dom ?n = dom nodes - {k \<in> set ms. \<not> live k}"
  proof (rule set_eqI)
    fix k
    consider "k \<in> set ms" "live k" | "k \<in> set ms" "\<not> live k" | "k \<notin> set ms" by blast
    then show "k \<in> dom ?n \<longleftrightarrow> k \<in> dom nodes - {k \<in> set ms. \<not> live k}"
    proof cases
      case 1
      with climbs_dom [OF reaped_climbs [of ms nodes k live, OF sub 1]] sub show ?thesis by auto
    next
      case 2
      with reaped_gone [of k ms live nodes] show ?thesis by (simp add: domIff)
    next
      case 3
      with reaped_other [of k ms nodes live] show ?thesis by (simp add: domIff)
    qed
  qed
  show other: "set_list ?n r' ms'" if "r' \<noteq> r" and l': "set_list nodes r' ms'" for r' ms'
  proof (rule set_list_untouched [OF l'])
    have d: "set ms' \<inter> set ms = {}" using l' l that(1) by (rule set_lists_disjoint)
    show "?n x = nodes x" if "rep_of nodes x r'" for x
      using that d set_list_mem [OF l'] by (auto intro: reaped_other)
    have "r' \<notin> set ms"
      using set_list_root_in [OF l'] d by blast
    moreover have "hd (List.filter live ms) \<in> set ms" if "k \<in> set ms" "live k" for k
      using that hd_in_set [of "List.filter live ms"] by (auto simp: filter_empty_conv)
    ultimately show "rep_of nodes x r'" if "rep_of ?n x r'" for x
      using that unfolding rep by auto
  qed
  have "\<exists>ms'. set_list ?n s ms'" if s: "is_root ?n s" for s
  proof -
    consider "s \<in> set ms" "live s" "s = hd (List.filter live ms)" | "s \<notin> set ms" "is_root nodes s"
      using s unfolding is_root_iff_rep rep by blast
    then show ?thesis
    proof cases
      case 1
      then have "List.filter live ms \<noteq> []" by (auto simp: filter_empty_conv)
      from reaped_set_list [OF inv l this] 1 show ?thesis by metis
    next
      case 2
      from inv 2(2) obtain ms' where ms': "set_list nodes s ms'" by (rule uf_inv_set_list)
      have "r \<in> set ms" using l by (rule set_list_root_in)
      with 2 have "s \<noteq> r" by auto
      from other [OF this ms'] show ?thesis ..
    qed
  qed
  moreover have "\<exists>s. rep_of ?n k s" if "k \<in> dom ?n" for k
    using that inv unfolding rep dom uf_inv_def by blast
  moreover have "card (dom ?n) \<le> card (dom nodes)"
    unfolding dom using inv by (intro card_mono) (auto simp: uf_inv_def)
  ultimately show "uf_inv ?n" using inv unfolding uf_inv_def by (auto simp: dom)
qed

lemma reaped_same_set:
  assumes inv: "uf_inv nodes" and l: "set_list nodes r ms"
  shows "same_set (reaped nodes ms live) x y \<longleftrightarrow> same_set nodes x y \<and>
    (x \<in> set ms \<longrightarrow> live x) \<and> (y \<in> set ms \<longrightarrow> live y)"
proof -
  have mem: "k \<in> set ms \<longleftrightarrow> rep_of nodes k r" for k using set_list_mem [OF l] .
  have hd: "hd (List.filter live ms) \<in> set ms" if "k \<in> set ms" "live k" for k
    using that hd_in_set [of "List.filter live ms"] by (auto simp: filter_empty_conv)
  have no: "\<not> rep_of nodes z s" if "z \<notin> set ms" "s \<in> set ms" for z s
  proof
    assume z: "rep_of nodes z s"
    then have "s = r" using that(2) mem rep_of_is_root rep_of_root by metis
    with z that(1) mem show False by simp
  qed
  show ?thesis
  proof (cases "x \<in> set ms \<longleftrightarrow> y \<in> set ms")
    case True
    then show ?thesis unfolding same_set_def reaped_rep_of [OF inv l] mem by auto
  next
    case False
    then have "\<not> same_set nodes x y" using mem rep_of_or_not unfolding same_set_def by metis
    moreover have "\<not> same_set (reaped nodes ms live) x y"
      using False hd no unfolding same_set_def reaped_rep_of [OF inv l] by blast
    ultimately show ?thesis by simp
  qed
qed

lemma reaped_balanced:
  assumes inv: "uf_inv nodes" and l: "set_list nodes r ms" and bal: "uf_balanced nodes"
  shows "uf_balanced (reaped nodes ms live)"
  unfolding uf_balanced_def
proof (intro allI impI)
  let ?n = "reaped nodes ms live" and ?L = "List.filter live ms"
  have sub: "set ms \<subseteq> dom nodes" using l by (auto simp: set_list_def dest!: next_chain_dom)
  fix k d s m assume d: "climbs ?n k d s" and m: "?n s = Some m"
  have "rep_of ?n k s" using d by (auto simp: rep_of_def)
  then consider "k \<in> set ms" "live k" "s = hd ?L" | "k \<notin> set ms" "rep_of nodes k s"
    unfolding reaped_rep_of [OF inv l] by blast
  then show "2 ^ d \<le> unat (m_size m)"
  proof cases
    case 1
    then have ne: "?L \<noteq> []" by (auto simp: filter_empty_conv)
    have "unat (m_size m) = length ?L"
      using set_list_size [OF reaped_set_list [OF inv l ne]] m 1 by simp
    moreover have "d = (if k = s then 0 else 1)"
      using climbs_deterministic [OF reaped_climbs [of ms nodes k live, OF sub 1(1,2)] d] 1(3)
      by simp
    moreover have "2 \<le> length ?L" if "k \<noteq> s"
    proof -
      have "{k, s} \<subseteq> set ?L" using 1 hd_in_set [OF ne] by auto
      then have "card {k, s} \<le> card (set ?L)" by (intro card_mono) auto
      with that show ?thesis using card_length [of ?L] by simp
    qed
    ultimately show ?thesis using ne by (cases ?L) auto
  next
    case 2
    then obtain e where e: "climbs nodes k e s" by (auto simp: rep_of_def)
    have "s \<noteq> r" using 2 set_list_mem [OF l] by auto
    have keep: "?n x = nodes x" if "rep_of nodes x s" for x
      using that rep_of_or_not [OF that] \<open>s \<noteq> r\<close> set_list_mem [OF l] by (auto intro: reaped_other)
    have "climbs ?n k e s" by (rule climbs_fun_upd [OF e]) (use keep on_path_rep e in metis)
    with d have "d = e" using climbs_deterministic by metis
    moreover have "nodes s = Some m" using m keep climbs_is_root [OF e] by simp
    ultimately show ?thesis using bal e by (auto dest: uf_balancedD)
  qed
qed

section \<open>The tables the operations reach\<close>

text \<open>
  One step of a program over the table: a node is inserted and made a set, two sets are joined, a
  root is looked up, or a set loses the members of a dropped block.
\<close>

inductive uf_step :: "'k uf \<Rightarrow> 'k uf \<Rightarrow> bool" where
  step_make: "key \<notin> dom nodes \<Longrightarrow> card (dom nodes) + 1 < 2 ^ 32 \<Longrightarrow>
    make_set (nodes(key \<mapsto> m)) key = Some nodes' \<Longrightarrow> uf_step nodes nodes'"
| step_find: "k \<in> dom nodes \<Longrightarrow> uf_find nodes k = Some (nodes', r) \<Longrightarrow> uf_step nodes nodes'"
| step_union: "a \<in> dom nodes \<Longrightarrow> b \<in> dom nodes \<Longrightarrow> uf_union nodes a b = Some (nodes', r) \<Longrightarrow>
    uf_step nodes nodes'"
| step_reap: "is_root nodes r \<Longrightarrow> uf_members nodes r = Some ms \<Longrightarrow>
    uf_rebuild nodes (List.filter live ms) = Some n \<Longrightarrow>
    uf_step nodes (n |` (- {k \<in> set ms. \<not> live k}))"

inductive uf_reach :: "'k uf \<Rightarrow> bool" where
  reach_empty: "uf_reach Map.empty"
| reach_step: "uf_reach nodes \<Longrightarrow> uf_step nodes nodes' \<Longrightarrow> uf_reach nodes'"

lemma uf_step_keeps:
  assumes "uf_step nodes nodes'" and inv: "uf_inv nodes" and bal: "uf_balanced nodes"
  shows "uf_inv nodes' \<and> uf_balanced nodes'"
  using assms(1)
proof cases
  case (step_make key m)
  from make_set_spec [OF inv step_make(1,2), of m] step_make(3) bal show ?thesis
    by (metis option.inject)
next
  case (step_find k r)
  from inv step_find(1) obtain n s where "uf_find nodes k = Some (n, s)" "compressed nodes n"
    "uf_inv n" by (rule find_total)
  with step_find(2) compressed_balanced [OF inv _ bal] show ?thesis by auto
next
  case (step_union a b r)
  from union_total [OF inv step_union(1,2)] step_union(3) bal show ?thesis
    by (auto simp: union_ends_def)
next
  case (step_reap r ms live n)
  from inv step_reap(2) obtain ms' where "uf_members nodes r = Some ms'" "set_list nodes r ms'"
    by (rule is_root_inv_members)
  with step_reap(3) have l: "set_list nodes r ms" by simp
  then have "distinct ms" "set ms \<subseteq> dom nodes" by (auto simp: set_list_def dest!: next_chain_dom)
  from rebuild_reaped [OF this, of live] step_reap(1,4) have "nodes' = reaped nodes ms live" by auto
  with reaped_inv(1) [OF inv l] reaped_balanced [OF inv l bal] show ?thesis by simp
qed

lemma uf_inv_empty: "uf_inv Map.empty" "uf_balanced Map.empty"
  by (auto simp: uf_inv_def uf_balanced_def is_root_def dest: climbs_dom)

lemma uf_reach_inv: "uf_reach nodes \<Longrightarrow> uf_inv nodes \<and> uf_balanced nodes"
  by (induction rule: uf_reach.induct) (use uf_inv_empty uf_step_keeps in blast)+

section \<open>A concrete table\<close>

text \<open>Four keys in two sets: the chain \<open>2 \<rightarrow> 1 \<rightarrow> 0\<close>, not yet compressed, and \<open>3\<close>.\<close>

definition demo_uf :: "nat uf" where
  "demo_uf = [0 \<mapsto> meta_new None (Some 1) (Some 2) 3,
     1 \<mapsto> meta_new (Some 0) (Some 2) (Some 1) 1,
     2 \<mapsto> meta_new (Some 1) None (Some 2) 1,
     3 \<mapsto> meta_new None None (Some 3) 1]"

lemma demo_climbs:
  "climbs demo_uf 0 0 0" "climbs demo_uf 1 1 0" "climbs demo_uf 2 2 0" "climbs demo_uf 3 0 3"
proof -
  note at = demo_uf_def meta_new_def
  show a: "climbs demo_uf 0 0 0" by (auto intro!: climbs_root simp: at)
  have "climbs demo_uf 1 (Suc 0) 0"
    by (rule climbs_step [OF _ _ a, of _ "meta_new (Some 0) (Some 2) (Some 1) 1"])
      (simp_all add: at)
  then show b: "climbs demo_uf 1 1 0" by simp
  have "climbs demo_uf 2 (Suc 1) 0"
    by (rule climbs_step [OF _ _ b, of _ "meta_new (Some 1) None (Some 2) 1"]) (simp_all add: at)
  then show "climbs demo_uf 2 2 0" by (simp add: numeral_2_eq_2)
  show "climbs demo_uf 3 0 3" by (auto intro!: climbs_root simp: at)
qed

lemma demo_dom: "dom demo_uf = {0, 1, 2, 3}"
  by (auto simp: demo_uf_def split: if_splits)

lemma demo_rep: "rep_of demo_uf k r \<longleftrightarrow> (k \<in> {0, 1, 2} \<and> r = 0) \<or> (k = 3 \<and> r = 3)"
proof -
  have "rep_of demo_uf 0 0" "rep_of demo_uf 1 0" "rep_of demo_uf 2 0" "rep_of demo_uf 3 3"
    using demo_climbs unfolding rep_of_def by blast+
  note this [THEN rep_of_or_not]
  moreover have "rep_of demo_uf k r \<Longrightarrow> k \<in> {0, 1, 2, 3}" using rep_of_dom demo_dom by metis
  ultimately show ?thesis by auto
qed

lemma demo_set_lists: "set_list demo_uf 0 [0, 1, 2]" "set_list demo_uf 3 [3]"
  unfolding set_list_def demo_rep by (auto simp: demo_uf_def meta_new_def)

lemma demo_inv: "uf_inv demo_uf"
  using demo_set_lists unfolding uf_inv_def demo_dom is_root_iff_rep demo_rep by auto

lemma demo_members: "uf_members demo_uf 0 = Some [0, 1, 2]" "uf_members demo_uf 3 = Some [3]"
  by (simp_all add: members_set_list [OF demo_set_lists(1)] members_set_list [OF demo_set_lists(2)])

lemma demo_separate: "\<not> same_set demo_uf 2 3"
  unfolding same_set_def demo_rep by simp

lemma demo_reach: "uf_reach [7 \<mapsto> meta_new None None (Some (7 :: nat)) 1]"
proof (rule reach_step [OF reach_empty])
  show "uf_step Map.empty [7 \<mapsto> meta_new None None (Some (7 :: nat)) 1]"
    by (rule step_make [where m = "meta_new None None None 0"])
      (simp_all add: make_set_def upd_meta_def meta_new_def)
qed

section \<open>Properties\<close>

text \<open>C18: \<open>find\<close> on a key of a well-formed table returns: it answers the root the key's parents
  lead to, changes nothing but parents, moves no key to another root or further from its own, and
  leaves every key of the path it walked at most one step below the root.\<close>

theorem uf_find_correct:
  assumes "uf_inv nodes" "k \<in> dom nodes"
  shows "\<exists>nodes' r. uf_find nodes k = Some (nodes', r) \<and> rep_of nodes k r \<and>
    keeps_list nodes nodes' \<and> uf_inv nodes' \<and>
    (\<forall>x s. rep_of nodes' x s \<longleftrightarrow> rep_of nodes x s) \<and>
    (\<forall>x d s. climbs nodes x d s \<longrightarrow> (\<exists>d' \<le> d. climbs nodes' x d' s)) \<and>
    (\<forall>x. on_path nodes k x \<longrightarrow> (\<exists>d \<le> 1. climbs nodes' x d r))"
proof -
  obtain d r where d: "climbs nodes k d r" using assms by (rule uf_inv_climbs)
  from find_climbs [OF this] obtain nodes' where f: "uf_find nodes k = Some (nodes', r)"
    and c: "compressed nodes nodes'"
    and p: "\<forall>x. on_path nodes k x \<longrightarrow> (\<exists>d \<le> 1. climbs nodes' x d r)" by blast
  have "rep_of nodes k r" using d by (auto simp: rep_of_def)
  with f p c compressed_inv [OF assms(1) c] compressed_rep_of [OF assms(1) c] show ?thesis
    unfolding compressed_def by blast
qed

theorem uf_find_correct_witness:
  "uf_inv demo_uf \<and> 2 \<in> dom demo_uf \<and> (\<exists>nodes'. uf_find demo_uf 2 = Some (nodes', 0) \<and>
     (\<exists>d \<le> 1. climbs nodes' 1 d 0) \<and> (\<exists>d \<le> 1. climbs nodes' 2 d 0))"
proof -
  have k: "2 \<in> dom demo_uf" by (simp add: demo_dom)
  from uf_find_correct [OF demo_inv k] obtain nodes' r where
    f: "uf_find demo_uf 2 = Some (nodes', r)" and r: "rep_of demo_uf 2 r"
    and p: "\<forall>x. on_path demo_uf 2 x \<longrightarrow> (\<exists>d \<le> 1. climbs nodes' x d r)" by metis
  have "on_path demo_uf 2 1"
    by (rule on_path_up [OF _ _ on_path_self, of _ _ "meta_new (Some 1) None (Some 2) 1"])
      (simp_all add: demo_uf_def meta_new_def)
  with p have "\<exists>d \<le> 1. climbs nodes' 1 d r" by blast
  moreover have "\<exists>d \<le> 1. climbs nodes' 2 d r" using p on_path_self by metis
  moreover have "r = 0" using r by (simp add: demo_rep)
  ultimately show ?thesis using f k demo_inv by metis
qed

text \<open>C17: \<open>union\<close> of two keys of a well-formed table returns: it answers the representative of both
  keys, merges exactly their two sets, and keeps the table well formed and balanced.\<close>

theorem uf_union_correct:
  assumes "uf_inv nodes" "a \<in> dom nodes" "b \<in> dom nodes"
  shows "\<exists>nodes' r. uf_union nodes a b = Some (nodes', r) \<and> uf_inv nodes' \<and>
    dom nodes' = dom nodes \<and> rep_of nodes' a r \<and> rep_of nodes' b r \<and>
    (\<forall>x y. same_set nodes' x y \<longleftrightarrow> same_set nodes x y \<or>
       (same_set nodes x a \<and> same_set nodes b y) \<or> (same_set nodes x b \<and> same_set nodes a y)) \<and>
    (uf_balanced nodes \<longrightarrow> uf_balanced nodes')"
  using union_total [OF assms] unfolding union_ends_def merged_def by blast

theorem uf_union_correct_witness:
  "uf_inv demo_uf \<and> {2, 3} \<subseteq> dom demo_uf \<and>
   (\<exists>nodes' r. uf_union demo_uf 2 3 = Some (nodes', r) \<and> same_set nodes' 0 3)"
proof -
  have d: "2 \<in> dom demo_uf" "3 \<in> dom demo_uf" by (auto simp: demo_dom)
  have s: "same_set demo_uf 0 2" "same_set demo_uf 3 3" unfolding same_set_def demo_rep by auto
  from uf_union_correct [OF demo_inv d] obtain nodes' r where
    "uf_union demo_uf 2 3 = Some (nodes', r)" "same_set nodes' 0 3" using s by metis
  with d demo_inv show ?thesis by blast
qed

text \<open>C9: when the two sets differ, the member list of the larger one is followed by the other
  list, the larger set's root stays the representative, and every other set keeps its list.\<close>

theorem uf_union_lists:
  assumes "uf_inv nodes" "a \<in> dom nodes" "b \<in> dom nodes" "\<not> same_set nodes a b"
  shows "\<exists>nodes' r s as bs. uf_union nodes a b = Some (nodes', r) \<and>
    (rep_of nodes a r \<and> rep_of nodes b s \<or> rep_of nodes b r \<and> rep_of nodes a s) \<and>
    uf_members nodes r = Some as \<and> uf_members nodes s = Some bs \<and> length bs \<le> length as \<and>
    uf_members nodes' r = Some (as @ bs) \<and>
    (\<forall>t. is_root nodes t \<longrightarrow> t \<noteq> r \<longrightarrow> t \<noteq> s \<longrightarrow> uf_members nodes' t = uf_members nodes t)"
proof -
  from union_total [OF assms(1-3)] assms(4) obtain nodes' r s where
    u: "uf_union nodes a b = Some (nodes', r)" and sp: "splices nodes nodes' r s"
    and reps: "rep_of nodes a r \<and> rep_of nodes b s \<or> rep_of nodes b r \<and> rep_of nodes a s"
    unfolding union_ends_def by blast
  from sp obtain as bs where "set_list nodes r as" "set_list nodes s bs" "length bs \<le> length as"
    "set_list nodes' r (as @ bs)" unfolding splices_def by blast
  then have "uf_members nodes r = Some as" "uf_members nodes s = Some bs"
    "length bs \<le> length as" "uf_members nodes' r = Some (as @ bs)"
    by (simp_all add: members_set_list)
  moreover have "uf_members nodes' t = uf_members nodes t"
    if t: "is_root nodes t" "t \<noteq> r" "t \<noteq> s" for t
  proof -
    from assms(1) t(1) obtain ms where ms: "uf_members nodes t = Some ms" "set_list nodes t ms"
      by (rule is_root_inv_members)
    then have "set_list nodes' t ms" using sp t unfolding splices_def by blast
    with ms show ?thesis by (simp add: members_set_list)
  qed
  ultimately show ?thesis using u reps by blast
qed

theorem uf_union_lists_witness:
  "\<not> same_set demo_uf 2 3 \<and>
   (\<exists>nodes'. uf_union demo_uf 2 3 = Some (nodes', 0) \<and> uf_members nodes' 0 = Some [0, 1, 2, 3])"
proof -
  have d: "2 \<in> dom demo_uf" "3 \<in> dom demo_uf" by (auto simp: demo_dom)
  from uf_union_lists [OF demo_inv d demo_separate] obtain nodes' r s as bs where
    "uf_union demo_uf 2 3 = Some (nodes', r)"
    "rep_of demo_uf 2 r \<and> rep_of demo_uf 3 s \<or> rep_of demo_uf 3 r \<and> rep_of demo_uf 2 s"
    "uf_members demo_uf r = Some as" "uf_members demo_uf s = Some bs" "length bs \<le> length as"
    "uf_members nodes' r = Some (as @ bs)" by metis
  then show ?thesis using demo_separate demo_members by (auto simp: demo_rep)
qed

text \<open>C34: in every table the operations reach, a key is at most the logarithm of its set's size
  below its root, and \<open>members\<close> lists each set from its root, every member once.\<close>

theorem uf_reach_depth:
  assumes "uf_reach nodes" "k \<in> dom nodes"
  shows "\<exists>d r ms. climbs nodes k d r \<and> uf_members nodes r = Some ms \<and> hd ms = r \<and>
    distinct ms \<and> (\<forall>x. x \<in> set ms \<longleftrightarrow> same_set nodes k x) \<and> 2 ^ d \<le> length ms"
proof -
  from uf_reach_inv [OF assms(1)] have inv: "uf_inv nodes" and bal: "uf_balanced nodes" by auto
  obtain d r where d: "climbs nodes k d r" using inv assms(2) by (rule uf_inv_climbs)
  have root: "is_root nodes r" using d by (rule climbs_is_root)
  then obtain m where m: "nodes r = Some m" by (auto simp: is_root_def)
  obtain ms where ms: "uf_members nodes r = Some ms" and l: "set_list nodes r ms"
    using inv root by (rule is_root_inv_members)
  have "rep_of nodes k r" using d by (auto simp: rep_of_def)
  from same_set_iff_rep [OF this] have "x \<in> set ms \<longleftrightarrow> same_set nodes k x" for x
    by (simp add: set_list_mem [OF l])
  moreover have "2 ^ d \<le> length ms" using uf_balancedD [OF bal d m] set_list_size [OF l m] by simp
  ultimately show ?thesis using d ms l unfolding set_list_def by blast
qed

theorem uf_reach_depth_witness:
  "\<exists>d r ms. climbs [7 \<mapsto> meta_new None None (Some (7 :: nat)) 1] 7 d r \<and>
     uf_members [7 \<mapsto> meta_new None None (Some (7 :: nat)) 1] r = Some ms \<and> 2 ^ d \<le> length ms"
  using uf_reach_depth [OF demo_reach, of 7] by auto

text \<open>C20: \<open>rebuild\<close> from the members of a set that stay, followed by the removal of the others,
  leaves a well-formed table: the survivors are one set, listed in the order they had, with every
  one at most a step below the first; no other set changes.\<close>

theorem uf_rebuild_survivors:
  assumes "uf_inv nodes" "is_root nodes r" "uf_members nodes r = Some ms"
  shows "\<exists>n nodes'. uf_rebuild nodes (List.filter live ms) = Some n \<and>
    nodes' = n |` (- {k \<in> set ms. \<not> live k}) \<and> uf_inv nodes' \<and>
    (\<forall>x y. same_set nodes' x y \<longleftrightarrow> same_set nodes x y \<and>
       (x \<in> set ms \<longrightarrow> live x) \<and> (y \<in> set ms \<longrightarrow> live y)) \<and>
    (List.filter live ms \<noteq> [] \<longrightarrow>
       uf_members nodes' (hd (List.filter live ms)) = Some (List.filter live ms)) \<and>
    (\<forall>x \<in> set (List.filter live ms). \<exists>d \<le> 1. climbs nodes' x d (hd (List.filter live ms))) \<and>
    (\<forall>t. is_root nodes t \<longrightarrow> t \<noteq> r \<longrightarrow> uf_members nodes' t = uf_members nodes t)"
proof -
  from assms(1,2) obtain ms' where "uf_members nodes r = Some ms'" "set_list nodes r ms'"
    by (rule is_root_inv_members)
  with assms(3) have l: "set_list nodes r ms" by simp
  then have d: "distinct ms" and sub: "set ms \<subseteq> dom nodes"
    by (auto simp: set_list_def dest!: next_chain_dom)
  from rebuild_reaped [OF this, of live] obtain n where
    n: "uf_rebuild nodes (List.filter live ms) = Some n"
    "reaped nodes ms live = n |` (- {k \<in> set ms. \<not> live k})" by auto
  have short: "\<exists>d \<le> 1. climbs (reaped nodes ms live) x d (hd (List.filter live ms))"
    if "x \<in> set (List.filter live ms)" for x
  proof -
    from that have "x \<in> set ms" "live x" by auto
    from reaped_climbs [of ms nodes x live, OF sub this] show ?thesis
      by (cases "x = hd (List.filter live ms)") (simp, blast, force)
  qed
  have "uf_members (reaped nodes ms live) t = uf_members nodes t"
    if t: "is_root nodes t" "t \<noteq> r" for t
  proof -
    from assms(1) t(1) obtain ts where "uf_members nodes t = Some ts" "set_list nodes t ts"
      by (rule is_root_inv_members)
    with reaped_inv(2) [OF assms(1) l t(2)] show ?thesis by (metis members_set_list)
  qed
  then show ?thesis
    by (intro exI [of _ n] exI [of _ "reaped nodes ms live"] conjI allI ballI impI n
        reaped_inv(1) [OF assms(1) l] reaped_same_set [OF assms(1) l] short
        members_set_list [OF reaped_set_list [OF assms(1) l]])
qed

theorem uf_rebuild_survivors_witness:
  "is_root demo_uf 0 \<and> uf_members demo_uf 0 = Some [0, 1, 2] \<and>
   (\<exists>n. uf_rebuild demo_uf [1, 2] = Some n \<and> uf_members (n |` (- {0})) 1 = Some [1, 2] \<and>
      uf_members (n |` (- {0})) 3 = Some [3])"
proof -
  have root: "is_root demo_uf 0" "is_root demo_uf 3" by (simp_all add: is_root_iff_rep demo_rep)
  have gone: "{k \<in> set [0, 1, 2]. \<not> k \<noteq> (0 :: nat)} = {0}" by auto
  from uf_rebuild_survivors [OF demo_inv root(1) demo_members(1), of "\<lambda>k. k \<noteq> 0"] root demo_members
  show ?thesis unfolding gone by auto
qed

end
