(* ===== verification/Kernel_IR.thy ===== *)
theory Kernel_IR
  imports Lichen_Prelude
begin

text \<open>
  The vocabulary of \<open>lichen-kernel-ir/src/lib.rs\<close>: element classes, shapes, operators,
  instructions, the facts a fragment declares, and the launch a backend is handed.

  \<open>usize\<close> values are \<open>nat\<close>, \<open>u32\<close> values 32-bit words, and an \<open>i64\<close> is a 64-bit word read through
  \<open>sint\<close> where its sign matters. An \<open>f32\<close> is its bit pattern, a 32-bit word. A kernel's name is
  the \<open>nat\<close> of its registry slot.
\<close>

section \<open>Element classes\<close>

datatype scalar_class = Int_class | Float_class | BFloat16_class

fun byte_width :: "scalar_class \<Rightarrow> nat" where
  "byte_width Int_class = 8"
| "byte_width Float_class = 4"
| "byte_width BFloat16_class = 2"

definition is_real :: "scalar_class \<Rightarrow> bool" where
  "is_real c = (c = Float_class \<or> c = BFloat16_class)"

definition all_classes :: "scalar_class list" where
  "all_classes = [Int_class, Float_class, BFloat16_class]"

fun class_index :: "scalar_class \<Rightarrow> nat" where
  "class_index Int_class = 0"
| "class_index Float_class = 1"
| "class_index BFloat16_class = 2"

lemma class_index_dense: "nth_opt all_classes (class_index c) = Some c"
  by (cases c) (simp_all add: all_classes_def)

lemma class_index_inj: "class_index c = class_index d \<Longrightarrow> c = d"
  by (cases c; cases d) simp_all

text \<open>The classes in the order of \<open>ALL\<close>, so that the library's orders apply to them.\<close>

instantiation scalar_class :: linorder
begin

definition less_eq_scalar_class :: "scalar_class \<Rightarrow> scalar_class \<Rightarrow> bool" where
  "less_eq_scalar_class c d = (class_index c \<le> class_index d)"

definition less_scalar_class :: "scalar_class \<Rightarrow> scalar_class \<Rightarrow> bool" where
  "less_scalar_class c d = (class_index c < class_index d)"

instance
  by standard (auto simp: less_eq_scalar_class_def less_scalar_class_def intro: class_index_inj)

end

section \<open>Payloads and buffers\<close>

type_synonym f32 = u32

datatype scalar_data = Int_data "u64 list" | Float_data "f32 list"

fun data_class :: "scalar_data \<Rightarrow> scalar_class" where
  "data_class (Int_data _) = Int_class"
| "data_class (Float_data _) = Float_class"

fun data_len :: "scalar_data \<Rightarrow> nat" where
  "data_len (Int_data es) = length es"
| "data_len (Float_data es) = length es"

definition data_is_empty :: "scalar_data \<Rightarrow> bool" where
  "data_is_empty d = (data_len d = 0)"

fun as_ints :: "scalar_data \<Rightarrow> u64 list option" where
  "as_ints (Int_data es) = Some es"
| "as_ints (Float_data _) = None"

fun as_floats :: "scalar_data \<Rightarrow> f32 list option" where
  "as_floats (Float_data es) = Some es"
| "as_floats (Int_data _) = None"

datatype resident_id = ResidentId u64

record device_extent =
  de_count :: resident_id
  de_index :: nat
  de_capacity :: nat

datatype batch_extent =
    Host_extent nat
  | Resident_extent resident_id nat nat
  | Produced_extent nat nat nat nat

fun allocated :: "batch_extent \<Rightarrow> nat" where
  "allocated (Host_extent count) = count"
| "allocated (Resident_extent _ _ capacity) = capacity"
| "allocated (Produced_extent _ _ _ capacity) = capacity"

text \<open>
  A backend's own \<open>fetch\<close> and \<open>run\<close> are its implementor's; the default
  \<open>run_over_device_extent\<close> is written over them.
\<close>

datatype 'e extent_error = Fetch_error 'e | No_integer_element | Not_a_count u64 | Run_error 'e

definition run_over_device_extent ::
  "(resident_id \<Rightarrow> nat \<Rightarrow> (scalar_data, 'e) res) \<Rightarrow> (nat \<Rightarrow> ('r, 'e) res) \<Rightarrow> device_extent \<Rightarrow>
   ('r, 'e extent_error) res" where
  "run_over_device_extent fetch run extent =
     (case fetch (de_count extent) (de_index extent + 1) of
        Panic \<Rightarrow> Panic
      | Err e \<Rightarrow> Err (Fetch_error e)
      | Ok payload \<Rightarrow>
          (case Option.bind (as_ints payload) (\<lambda>elements. nth_opt elements (de_index extent)) of
             None \<Rightarrow> Err No_integer_element
           | Some number \<Rightarrow>
               if sint number < 0 then Err (Not_a_count number)
               else (case run (nat (sint number)) of
                   Ok ids \<Rightarrow> Ok ids | Err e \<Rightarrow> Err (Run_error e) | Panic \<Rightarrow> Panic)))"

section \<open>Target facts\<close>

datatype int_width = I64

fun int_bits :: "int_width \<Rightarrow> u32" where
  "int_bits I64 = 64"

record target_facts =
  tf_int_width :: int_width
  tf_lane_width :: u32
  tf_lane_height :: u32

section \<open>Shapes\<close>

datatype kernel_shape = Scalar_shape scalar_class | Tuple_shape "kernel_shape list"

fun flat_arity :: "kernel_shape \<Rightarrow> nat" where
  "flat_arity (Scalar_shape _) = 1"
| "flat_arity (Tuple_shape items) = sum_list (map flat_arity items)"

fun leaf_classes :: "kernel_shape \<Rightarrow> scalar_class list" where
  "leaf_classes (Scalar_shape c) = [c]"
| "leaf_classes (Tuple_shape items) = concat (map leaf_classes items)"

text \<open>Natural subtraction stops at zero, as \<open>saturating_sub\<close> does.\<close>

definition shape_runtime_scalars :: "kernel_shape \<Rightarrow> nat" where
  "shape_runtime_scalars s = flat_arity s - 2"

record scalar_leaf =
  leaf_class :: scalar_class
  leaf_bits :: u64

section \<open>Instructions\<close>

datatype kernel_bin = Add | Sub | Mul | Div | Rem | Max | Min
  | Lt | Gt | Leq | Geq | Eq | Neq | BitAnd | BitOr | BitXor

definition is_comparison :: "kernel_bin \<Rightarrow> bool" where
  "is_comparison op = (op \<in> {Lt, Gt, Leq, Geq, Eq, Neq})"

type_synonym kernel_id = nat

datatype kernel_instr =
    Const scalar_class u64
  | Bin scalar_class kernel_bin
  | Negate
  | Fma
  | I32WrapI64
  | Select
  | Exp
  | Sqrt
  | Floor
  | Ln
  | Sin
  | Cos
  | CallKernel kernel_id
  | Conv scalar_class scalar_class
  | BufferReadCall scalar_class
  | OutputReadCall scalar_class
  | BufferWriteCall scalar_class
  | BufferAtomicAddCall scalar_class
  | SliceWriteCall scalar_class
  | SliceReadCall scalar_class

fun produces :: "kernel_instr \<Rightarrow> nat" where
  "produces (BufferWriteCall _) = 0"
| "produces (BufferAtomicAddCall _) = 0"
| "produces _ = 1"

fun arity :: "kernel_instr \<Rightarrow> nat option" where
  "arity (Const _ _) = Some 0"
| "arity (Bin _ _) = Some 2"
| "arity (BufferReadCall _) = Some 2"
| "arity (OutputReadCall _) = Some 2"
| "arity I32WrapI64 = Some 1"
| "arity (Conv _ _) = Some 1"
| "arity Negate = Some 1"
| "arity Exp = Some 1"
| "arity Sqrt = Some 1"
| "arity Floor = Some 1"
| "arity Ln = Some 1"
| "arity Sin = Some 1"
| "arity Cos = Some 1"
| "arity Fma = Some 3"
| "arity Select = Some 3"
| "arity (BufferWriteCall _) = Some 3"
| "arity (BufferAtomicAddCall _) = Some 3"
| "arity (SliceReadCall _) = Some 3"
| "arity (SliceWriteCall _) = Some 3"
| "arity (CallKernel _) = None"

fun own_class :: "kernel_instr \<Rightarrow> scalar_class option" where
  "own_class (Const c _) = Some c"
| "own_class (Bin c _) = Some c"
| "own_class (Conv _ to) = Some to"
| "own_class Exp = Some Float_class"
| "own_class Sqrt = Some Float_class"
| "own_class Floor = Some Float_class"
| "own_class Ln = Some Float_class"
| "own_class Sin = Some Float_class"
| "own_class Cos = Some Float_class"
| "own_class Negate = Some Float_class"
| "own_class Fma = Some Float_class"
| "own_class (BufferReadCall c) = Some c"
| "own_class (OutputReadCall c) = Some c"
| "own_class (BufferWriteCall c) = Some c"
| "own_class (BufferAtomicAddCall c) = Some c"
| "own_class (SliceReadCall c) = Some c"
| "own_class (SliceWriteCall c) = Some c"
| "own_class I32WrapI64 = None"
| "own_class Select = None"
| "own_class (CallKernel _) = None"

lemma arity_None [simp]: "arity op = None \<longleftrightarrow> (\<exists>k. op = CallKernel k)"
  by (cases op) auto

lemma produces_cases: "produces op = 0 \<or> produces op = 1"
  by (cases op) auto

section \<open>Roles, slices\<close>

record kernel_roles =
  r_scalars :: "nat list list"
  r_inputs :: "nat list list"
  r_outputs :: "nat list list"
  r_input_classes :: "scalar_class option list"
  r_output_classes :: "scalar_class option list"
  r_output_extents :: "u32 option list"

definition input_pos :: "kernel_roles \<Rightarrow> nat list \<Rightarrow> nat option" where
  "input_pos roles path = find_pos (\<lambda>candidate. candidate = path) (r_inputs roles)"

definition output_pos :: "kernel_roles \<Rightarrow> nat list \<Rightarrow> nat option" where
  "output_pos roles path = find_pos (\<lambda>candidate. candidate = path) (r_outputs roles)"

definition scalar_offset :: "kernel_roles \<Rightarrow> nat list \<Rightarrow> nat option" where
  "scalar_offset roles path = find_pos (\<lambda>candidate. candidate = path) (r_scalars roles)"

datatype space = Register | Warp | Shared

record slice =
  s_class :: scalar_class
  s_count :: u32
  s_space :: space

section \<open>Shape facts\<close>

lemma leaf_classes_length: "length (leaf_classes s) = flat_arity s"
  by (induction s rule: leaf_classes.induct)
    (simp_all add: length_concat comp_def cong: map_cong)

end
