(* ===== verification/Kernel_Body.thy ===== *)
theory Kernel_Body
  imports Kernel_IR
begin

text \<open>
  The body of a fragment (\<open>lichen-kernel-ir/src/body.rs\<close>): named values, blocks with
  parameters and a terminator, the operations that build a body, the rewrite that inlines the
  transcendental definitions, and the readers the other components use.

  A \<open>ValueId\<close> is a 32-bit word, minted from the length of the value list by the narrowing cast the
  code makes. Indexing a value or a block that is absent is a panic.
\<close>

section \<open>Data\<close>

type_synonym value_id = u32

datatype value_def =
    Block_param nat u32
  | Instr kernel_instr "value_id list" "scalar_class list"

record br =
  br_target :: nat
  br_args :: "value_id list"

datatype terminator = Return "value_id list" | Br br | CondBr value_id br br

record basic_block =
  bb_params :: "value_id list"
  bb_instrs :: "value_id list"
  bb_terminator :: terminator

record barrier =
  b_write :: value_id
  b_read :: value_id

record kernel_body =
  kb_values :: "value_def list"
  kb_blocks :: "basic_block list"
  kb_entry :: nat
  kb_exact :: bool
  kb_barriers :: "barrier list"

fun branches_of :: "terminator \<Rightarrow> br list" where
  "branches_of (Return _) = []"
| "branches_of (Br b) = [b]"
| "branches_of (CondBr _ if_true if_false) = [if_true, if_false]"

definition branches :: "basic_block \<Rightarrow> br list" where
  "branches block = branches_of (bb_terminator block)"

text \<open>\<open>self.values.get(value.0 as usize)\<close>.\<close>

definition value_at :: "kernel_body \<Rightarrow> value_id \<Rightarrow> value_def option" where
  "value_at body v = nth_opt (kb_values body) (unat v)"

section \<open>Building a body\<close>

definition body_new :: kernel_body where
  "body_new = \<lparr>kb_values = [], kb_blocks = [], kb_entry = 0, kb_exact = False, kb_barriers = []\<rparr>"

definition add_block :: "kernel_body \<Rightarrow> kernel_body \<times> nat" where
  "add_block body =
     (let blocks = kb_blocks body @
          [\<lparr>bb_params = [], bb_instrs = [], bb_terminator = Return []\<rparr>]
      in (body\<lparr>kb_blocks := blocks\<rparr>, length blocks - 1))"

definition upd_block :: "kernel_body \<Rightarrow> nat \<Rightarrow> (basic_block \<Rightarrow> basic_block) \<Rightarrow> kernel_body option" where
  "upd_block body block f =
     (if block < length (kb_blocks body)
      then Some (body\<lparr>kb_blocks := (kb_blocks body)[block := f (kb_blocks body ! block)]\<rparr>)
      else None)"

definition add_param :: "kernel_body \<Rightarrow> nat \<Rightarrow> (kernel_body \<times> value_id) option" where
  "add_param body block =
     (let value = word_of_nat (length (kb_values body)) in
      Option.bind (nth_opt (kb_blocks body) block) (\<lambda>basic.
      Option.bind (upd_block
          (body\<lparr>kb_values :=
             kb_values body @ [Block_param block (word_of_nat (length (bb_params basic)))]\<rparr>)
          block (\<lambda>basic. basic\<lparr>bb_params := bb_params basic @ [value]\<rparr>)) (\<lambda>body.
        Some (body, value))))"

definition add_op ::
  "kernel_body \<Rightarrow> nat \<Rightarrow> kernel_instr \<Rightarrow> value_id list \<Rightarrow> scalar_class list \<Rightarrow>
   (kernel_body \<times> value_id) option" where
  "add_op body block op args classes =
     (let value = word_of_nat (length (kb_values body)) in
      Option.bind (upd_block (body\<lparr>kb_values := kb_values body @ [Instr op args classes]\<rparr>)
          block (\<lambda>basic. basic\<lparr>bb_instrs := bb_instrs basic @ [value]\<rparr>)) (\<lambda>body.
        Some (body, value)))"

definition add_const ::
  "kernel_body \<Rightarrow> nat \<Rightarrow> scalar_class \<Rightarrow> u64 \<Rightarrow> (kernel_body \<times> value_id) option" where
  "add_const body block c bits = add_op body block (Const c bits) [] [c]"

definition set_terminator :: "kernel_body \<Rightarrow> nat \<Rightarrow> terminator \<Rightarrow> kernel_body option" where
  "set_terminator body block t = upd_block body block (\<lambda>basic. basic\<lparr>bb_terminator := t\<rparr>)"

section \<open>A hand-written body\<close>

datatype flat_op = Flat_instr kernel_instr | Flat_read nat

fun flat_step ::
  "nat \<Rightarrow> value_id list \<Rightarrow> flat_op \<Rightarrow> kernel_body \<times> value_id list \<Rightarrow>
   (kernel_body \<times> value_id list) option" where
  "flat_step entry parameters (Flat_read index) (body, values) =
     (case nth_opt parameters index of
        None \<Rightarrow> Some (body, values)
      | Some value \<Rightarrow> Some (body, values @ [value]))"
| "flat_step entry parameters (Flat_instr instr) (body, values) =
     (let count = min (case arity instr of None \<Rightarrow> 0 | Some n \<Rightarrow> n) (length values);
          args = drop (length values - count) values;
          kept = take (length values - count) values;
          classes = (if produces instr = 0 then []
             else [case own_class instr of None \<Rightarrow> Int_class | Some c \<Rightarrow> c])
      in Option.bind (add_op body entry instr args classes) (\<lambda>(body, value).
           Some (body, if 0 < produces instr then kept @ [value] else kept)))"

definition from_flat :: "nat \<Rightarrow> flat_op list \<Rightarrow> kernel_body option" where
  "from_flat domain ops =
     (let (body, entry) = add_block body_new in
      Option.bind (fold_opt (\<lambda>_ body. map_option fst (add_param body entry)) [0..<domain] body)
        (\<lambda>body.
      Option.bind (nth_opt (kb_blocks body) entry) (\<lambda>basic.
      Option.bind (fold_opt (flat_step entry (bb_params basic)) ops (body, [])) (\<lambda>(body, values).
        set_terminator body entry (Return (if values = [] then [] else [last values]))))))"

definition is_straight_line :: "kernel_body \<Rightarrow> bool" where
  "is_straight_line body =
     (case kb_blocks body of
        [block] \<Rightarrow> (case bb_terminator block of Return _ \<Rightarrow> True | _ \<Rightarrow> False)
      | _ \<Rightarrow> False)"

definition parameters :: "kernel_body \<Rightarrow> value_id list option" where
  "parameters body = map_option bb_params (nth_opt (kb_blocks body) (kb_entry body))"

section \<open>Inlining a definition\<close>

datatype inline_error =
    Takes_parameters nat
  | Computes_nothing
  | Must_return
  | Must_return_last
  | Lists_a_parameter
  | Reads_undefined

text \<open>The renaming of one step's operands: the first that is not renamed yet is refused.\<close>

fun rename_args ::
  "(value_id \<rightharpoonup> value_id) \<Rightarrow> value_id list \<Rightarrow> (value_id list, inline_error) res" where
  "rename_args renamed [] = Ok []"
| "rename_args renamed (arg # args) =
     (case renamed arg of
        None \<Rightarrow> Err Reads_undefined
      | Some value \<Rightarrow> res_bind (rename_args renamed args) (\<lambda>named. Ok (value # named)))"

text \<open>
  One step of the definition: the values of the body it is inlined into, the renaming so far and
  the sequence so far. The step that computes the definition's result overwrites \<open>target\<close>.
\<close>

fun inline_step ::
  "kernel_body \<Rightarrow> value_id \<Rightarrow> value_id \<Rightarrow> value_id \<Rightarrow>
   value_def list \<times> (value_id \<rightharpoonup> value_id) \<times> value_id list \<Rightarrow>
   (value_def list \<times> (value_id \<rightharpoonup> value_id) \<times> value_id list, inline_error) res" where
  "inline_step defn result target step (values, renamed, sequence) =
     (case value_at defn step of
        Some (Instr op args classes) \<Rightarrow>
          res_bind (rename_args renamed args) (\<lambda>named.
            if step = result then
              (if unat target < length values
               then Ok (values[unat target := Instr op named classes],
                        renamed(step \<mapsto> target), sequence @ [target])
               else Panic)
            else
              (let id = word_of_nat (length values)
               in Ok (values @ [Instr op named classes], renamed(step \<mapsto> id), sequence @ [id])))
      | _ \<Rightarrow> Err Lists_a_parameter)"

definition inline_definition ::
  "kernel_body \<Rightarrow> kernel_body \<Rightarrow> nat \<Rightarrow> nat \<Rightarrow> value_id \<Rightarrow> value_id \<Rightarrow>
   (kernel_body, inline_error) res" where
  "inline_definition body defn block position target operand =
     expect_some (nth_opt (kb_blocks defn) (kb_entry defn)) (\<lambda>source.
       case bb_params source of
         [parameter] \<Rightarrow>
           if bb_instrs source = [] then Err Computes_nothing
           else (let result = last (bb_instrs source) in
             case bb_terminator source of
               Return values \<Rightarrow>
                 if values \<noteq> [result] then Err Must_return_last
                 else res_bind (fold_res (inline_step defn result target) (bb_instrs source)
                     (kb_values body, [parameter \<mapsto> operand], [])) (\<lambda>(values, _, sequence).
                   expect_some (nth_opt (kb_blocks body) block) (\<lambda>basic.
                     if position < length (bb_instrs basic)
                     then Ok (body\<lparr>kb_values := values,
                       kb_blocks := (kb_blocks body)[block := basic\<lparr>bb_instrs :=
                         take position (bb_instrs basic) @ sequence @
                         drop (Suc position) (bb_instrs basic)\<rparr>],
                       kb_exact := True\<rparr>)
                     else Panic))
             | _ \<Rightarrow> Err Must_return)
       | params \<Rightarrow> Err (Takes_parameters (length params)))"

datatype expand_error = Operand_count kernel_instr nat | Inline_refused inline_error

text \<open>Where a body computes \<open>instruction\<close>: block, position there, and value.\<close>

definition transcendental_work :: "kernel_body \<Rightarrow> kernel_instr \<Rightarrow> (nat \<times> nat \<times> value_id) list" where
  "transcendental_work body instruction =
     concat (map (\<lambda>(block, basic).
       map (\<lambda>(position, value). (block, position, value))
         (List.filter (\<lambda>(position, value).
            case value_at body value of Some (Instr op _ _) \<Rightarrow> op = instruction | _ \<Rightarrow> False)
           (enumerate 0 (bb_instrs basic))))
       (enumerate 0 (kb_blocks body)))"

definition expand_site ::
  "kernel_instr \<Rightarrow> kernel_body \<Rightarrow> nat \<times> nat \<times> value_id \<Rightarrow> kernel_body \<Rightarrow>
   (kernel_body, expand_error) res" where
  "expand_site instruction defn = (\<lambda>(block, position, value) body.
     case value_at body value of
       Some (Instr _ arguments _) \<Rightarrow>
         (case arguments of
            [operand] \<Rightarrow>
              (case inline_definition body defn block position value operand of
                 Ok b \<Rightarrow> Ok b | Err e \<Rightarrow> Err (Inline_refused e) | Panic \<Rightarrow> Panic)
          | _ \<Rightarrow> Err (Operand_count instruction (length arguments)))
     | _ \<Rightarrow> Ok body)"

text \<open>The table of definitions is the caller's: \<open>TRANSCENDENTALS\<close>.\<close>

definition expand_transcendentals ::
  "(kernel_instr \<times> kernel_body) list \<Rightarrow> kernel_body \<Rightarrow> (kernel_body, expand_error) res" where
  "expand_transcendentals table body =
     fold_res (\<lambda>(instruction, defn) body.
       fold_res (expand_site instruction defn) (rev (transcendental_work body instruction)) body)
       table body"

section \<open>Readers\<close>

definition instrs :: "kernel_body \<Rightarrow> kernel_instr list option" where
  "instrs body =
     map_option (List.map_filter (\<lambda>d. case d of Instr op _ _ \<Rightarrow> Some op | Block_param _ _ \<Rightarrow> None))
       (map_opt (value_at body) (concat (map bb_instrs (kb_blocks body))))"

definition terminator_operands :: "terminator \<Rightarrow> value_id list" where
  "terminator_operands t =
     (case t of Return values \<Rightarrow> values | Br b \<Rightarrow> br_args b | CondBr cond _ _ \<Rightarrow> [cond]) @
     concat (map br_args (branches_of t))"

definition operands :: "kernel_body \<Rightarrow> value_id list option" where
  "operands body =
     map_option (\<lambda>defs.
         concat (List.map_filter
           (\<lambda>d. case d of Instr _ args _ \<Rightarrow> Some args | Block_param _ _ \<Rightarrow> None) defs) @
         concat (map (\<lambda>block. terminator_operands (bb_terminator block)) (kb_blocks body)))
       (map_opt (value_at body) (concat (map bb_instrs (kb_blocks body))))"

definition is_a_parameter :: "kernel_body \<Rightarrow> value_id \<Rightarrow> bool" where
  "is_a_parameter body v =
     (case value_at body v of Some (Block_param block _) \<Rightarrow> block = kb_entry body | _ \<Rightarrow> False)"

definition body_constant :: "kernel_body \<Rightarrow> value_id option \<Rightarrow> u64 option" where
  "body_constant body v =
     (case Option.bind v (value_at body) of
        Some (Instr (Const Int_class bits) _ _) \<Rightarrow> Some bits
      | _ \<Rightarrow> None)"

definition slice_ordinal :: "kernel_body \<Rightarrow> value_id \<Rightarrow> u64 option" where
  "slice_ordinal body v =
     (case value_at body v of
        Some (Instr _ args _) \<Rightarrow> body_constant body (nth_opt args 0)
      | _ \<Rightarrow> None)"

definition staged_slice :: "kernel_body \<Rightarrow> value_id \<Rightarrow> nat option" where
  "staged_slice body v =
     (case value_at body v of
        Some (Instr (SliceWriteCall _) _ _) \<Rightarrow> map_option unat (slice_ordinal body v)
      | _ \<Rightarrow> None)"

definition output_ordinal :: "kernel_body \<Rightarrow> value_id \<Rightarrow> u64 option" where
  "output_ordinal body v =
     (case value_at body v of
        Some (Instr _ args _) \<Rightarrow> body_constant body (nth_opt args 0)
      | _ \<Rightarrow> None)"

definition block_of :: "kernel_body \<Rightarrow> value_id \<Rightarrow> nat option" where
  "block_of body v = find_pos (\<lambda>block. v \<in> set (bb_instrs block)) (kb_blocks body)"

definition index_parameter :: "kernel_body \<Rightarrow> value_id option option" where
  "index_parameter body =
     map_option (\<lambda>block. if bb_params block = [] then None else Some (last (bb_params block)))
       (nth_opt (kb_blocks body) (kb_entry body))"

end
