(* ===== verification/Kernel_Exec.thy ===== *)
theory Kernel_Exec
  imports Kernel_Body
begin

text \<open>
  What a body computes. The repository states the meaning of an instruction in prose, beside
  \<open>KernelInstr\<close>; here it is a function, so that the rewrites of bodies can be proved to keep it.

  The \<open>f32\<close> operations are a record of functions on bit patterns: nothing below depends on which
  rounding they implement. Instructions that reach memory or another kernel are given their
  meaning by a function \<open>mem\<close> over an arbitrary state, and a transcendental instruction by a
  function \<open>tr\<close>, absent when a target has none.
\<close>

section \<open>Values and instructions\<close>

datatype kval = K_int u64 | K_float f32

record f32_ops =
  f_add :: "f32 \<Rightarrow> f32 \<Rightarrow> f32"
  f_sub :: "f32 \<Rightarrow> f32 \<Rightarrow> f32"
  f_mul :: "f32 \<Rightarrow> f32 \<Rightarrow> f32"
  f_div :: "f32 \<Rightarrow> f32 \<Rightarrow> f32"
  f_neg :: "f32 \<Rightarrow> f32"
  f_fma :: "f32 \<Rightarrow> f32 \<Rightarrow> f32 \<Rightarrow> f32"
  f_lt :: "f32 \<Rightarrow> f32 \<Rightarrow> bool"
  f_leq :: "f32 \<Rightarrow> f32 \<Rightarrow> bool"
  f_eq :: "f32 \<Rightarrow> f32 \<Rightarrow> bool"
  f_of_int :: "u64 \<Rightarrow> f32"
  f_to_int :: "f32 \<Rightarrow> u64"

definition truth :: "bool \<Rightarrow> kval" where
  "truth p = K_int (if p then 1 else 0)"

fun float_bin_val :: "f32_ops \<Rightarrow> kernel_bin \<Rightarrow> f32 \<Rightarrow> f32 \<Rightarrow> kval option" where
  "float_bin_val fl Add a b = Some (K_float (f_add fl a b))"
| "float_bin_val fl Sub a b = Some (K_float (f_sub fl a b))"
| "float_bin_val fl Mul a b = Some (K_float (f_mul fl a b))"
| "float_bin_val fl Div a b = Some (K_float (f_div fl a b))"
| "float_bin_val fl Max a b = Some (K_float (if f_lt fl a b then b else a))"
| "float_bin_val fl Min a b = Some (K_float (if f_lt fl b a then b else a))"
| "float_bin_val fl Lt a b = Some (truth (f_lt fl a b))"
| "float_bin_val fl Gt a b = Some (truth (f_lt fl b a))"
| "float_bin_val fl Leq a b = Some (truth (f_leq fl a b))"
| "float_bin_val fl Geq a b = Some (truth (f_leq fl b a))"
| "float_bin_val fl Eq a b = Some (truth (f_eq fl a b))"
| "float_bin_val fl Neq a b = Some (truth (\<not> f_eq fl a b))"
| "float_bin_val fl _ a b = None"

text \<open>The integer operators are unsigned, wrap, and have no answer for a zero divisor.\<close>

fun int_bin_val :: "kernel_bin \<Rightarrow> u64 \<Rightarrow> u64 \<Rightarrow> kval option" where
  "int_bin_val Add a b = Some (K_int (a + b))"
| "int_bin_val Sub a b = Some (K_int (a - b))"
| "int_bin_val Mul a b = Some (K_int (a * b))"
| "int_bin_val Div a b = (if b = 0 then None else Some (K_int (a div b)))"
| "int_bin_val Rem a b = (if b = 0 then None else Some (K_int (a mod b)))"
| "int_bin_val Max a b = Some (K_int (if a < b then b else a))"
| "int_bin_val Min a b = Some (K_int (if b < a then b else a))"
| "int_bin_val Lt a b = Some (truth (a < b))"
| "int_bin_val Gt a b = Some (truth (b < a))"
| "int_bin_val Leq a b = Some (truth (a \<le> b))"
| "int_bin_val Geq a b = Some (truth (b \<le> a))"
| "int_bin_val Eq a b = Some (truth (a = b))"
| "int_bin_val Neq a b = Some (truth (a \<noteq> b))"
| "int_bin_val BitAnd a b = Some (K_int (and a b))"
| "int_bin_val BitOr a b = Some (K_int (or a b))"
| "int_bin_val BitXor a b = Some (K_int (xor a b))"

definition transcendental_ops :: "kernel_instr list" where
  "transcendental_ops = [Exp, Sqrt, Floor, Ln, Sin, Cos]"

fun as_int :: "kval \<Rightarrow> u64 option" where
  "as_int (K_int a) = Some a"
| "as_int (K_float a) = None"

fun as_float :: "kval \<Rightarrow> f32 option" where
  "as_float (K_float a) = Some a"
| "as_float (K_int a) = None"

definition eval_bin :: "f32_ops \<Rightarrow> scalar_class \<Rightarrow> kernel_bin \<Rightarrow> kval \<Rightarrow> kval \<Rightarrow> kval option" where
  "eval_bin fl c op a b = (case c of
      Float_class \<Rightarrow> Option.bind (as_float a) (\<lambda>a. Option.bind (as_float b) (float_bin_val fl op a))
    | Int_class \<Rightarrow> Option.bind (as_int a) (\<lambda>a. Option.bind (as_int b) (int_bin_val op a))
    | BFloat16_class \<Rightarrow> None)"

definition eval_unary ::
  "f32_ops \<Rightarrow> (kernel_instr \<Rightarrow> f32 \<Rightarrow> f32 option) \<Rightarrow> kernel_instr \<Rightarrow> kval \<Rightarrow> kval option" where
  "eval_unary fl tr op a = (case op of
      Negate \<Rightarrow> map_option (\<lambda>a. K_float (f_neg fl a)) (as_float a)
    | I32WrapI64 \<Rightarrow> map_option (\<lambda>a. K_int (take_bit 32 a)) (as_int a)
    | Conv from to \<Rightarrow>
        if from = Float_class \<and> to = Int_class
        then map_option (\<lambda>a. K_int (f_to_int fl a)) (as_float a)
        else if from = Int_class \<and> to = Float_class
        then map_option (\<lambda>a. K_float (f_of_int fl a)) (as_int a)
        else None
    | _ \<Rightarrow> if op \<in> set transcendental_ops
        then Option.bind (as_float a) (\<lambda>a. map_option K_float (tr op a)) else None)"

definition eval_ternary :: "f32_ops \<Rightarrow> kernel_instr \<Rightarrow> kval \<Rightarrow> kval \<Rightarrow> kval \<Rightarrow> kval option" where
  "eval_ternary fl op a b c = (case op of
      Fma \<Rightarrow> Option.bind (as_float a) (\<lambda>a. Option.bind (as_float b) (\<lambda>b.
        map_option (\<lambda>c. K_float (f_fma fl a b c)) (as_float c)))
    | Select \<Rightarrow> map_option (\<lambda>c. if c \<noteq> 0 then a else b) (as_int c)
    | _ \<Rightarrow> None)"

definition eval_op ::
  "f32_ops \<Rightarrow> (kernel_instr \<Rightarrow> f32 \<Rightarrow> f32 option) \<Rightarrow> kernel_instr \<Rightarrow> kval list \<Rightarrow> kval option" where
  "eval_op fl tr op args = (case args of
      [] \<Rightarrow> (case op of
          Const Float_class bits \<Rightarrow> Some (K_float (ucast bits))
        | Const Int_class bits \<Rightarrow> Some (K_int bits)
        | _ \<Rightarrow> None)
    | [a] \<Rightarrow> eval_unary fl tr op a
    | [a, b] \<Rightarrow> (case op of Bin c k \<Rightarrow> eval_bin fl c k a b | _ \<Rightarrow> None)
    | [a, b, c] \<Rightarrow> eval_ternary fl op a b c
    | _ \<Rightarrow> None)"

lemmas eval_op_simps = eval_op_def eval_unary_def eval_bin_def eval_ternary_def
  transcendental_ops_def truth_def

definition reaches_memory :: "kernel_instr \<Rightarrow> bool" where
  "reaches_memory op = (case op of
      CallKernel _ \<Rightarrow> True | BufferReadCall _ \<Rightarrow> True | OutputReadCall _ \<Rightarrow> True
    | BufferWriteCall _ \<Rightarrow> True | BufferAtomicAddCall _ \<Rightarrow> True
    | SliceWriteCall _ \<Rightarrow> True | SliceReadCall _ \<Rightarrow> True | _ \<Rightarrow> False)"

section \<open>Running a list of instructions\<close>

type_synonym env = "value_id \<rightharpoonup> kval"
type_synonym 's mem = "kernel_instr \<Rightarrow> kval list \<Rightarrow> 's \<Rightarrow> (kval option \<times> 's) option"

definition exec_op ::
  "f32_ops \<Rightarrow> (kernel_instr \<Rightarrow> f32 \<Rightarrow> f32 option) \<Rightarrow> 's mem \<Rightarrow> kernel_instr \<Rightarrow> kval list \<Rightarrow> 's \<Rightarrow>
   (kval option \<times> 's) option" where
  "exec_op fl tr mem op args s =
     (if reaches_memory op then mem op args s
      else map_option (\<lambda>v. (Some v, s)) (eval_op fl tr op args))"

definition bind_result :: "env \<Rightarrow> value_id \<Rightarrow> kval option \<Rightarrow> env" where
  "bind_result e v r = (case r of None \<Rightarrow> e | Some x \<Rightarrow> e(v \<mapsto> x))"

definition exec_def ::
  "f32_ops \<Rightarrow> (kernel_instr \<Rightarrow> f32 \<Rightarrow> f32 option) \<Rightarrow> 's mem \<Rightarrow> value_id \<Rightarrow> value_def option \<Rightarrow>
   env \<times> 's \<Rightarrow> (env \<times> 's) option" where
  "exec_def fl tr mem v d = (\<lambda>(e, s).
     case d of
       Some (Instr op args _) \<Rightarrow>
         Option.bind (map_opt e args) (\<lambda>vals.
         Option.bind (exec_op fl tr mem op vals s) (\<lambda>(r, s). Some (bind_result e v r, s)))
     | _ \<Rightarrow> None)"

definition exec_instrs ::
  "f32_ops \<Rightarrow> (kernel_instr \<Rightarrow> f32 \<Rightarrow> f32 option) \<Rightarrow> 's mem \<Rightarrow> value_def list \<Rightarrow> value_id list \<Rightarrow>
   env \<times> 's \<Rightarrow> (env \<times> 's) option" where
  "exec_instrs fl tr mem values = fold_opt (\<lambda>v. exec_def fl tr mem v (nth_opt values (unat v)))"

text \<open>A straight-line body: the entry block's parameters are the arguments.\<close>

definition run_straight ::
  "f32_ops \<Rightarrow> (kernel_instr \<Rightarrow> f32 \<Rightarrow> f32 option) \<Rightarrow> 's mem \<Rightarrow> kernel_body \<Rightarrow> kval list \<Rightarrow> 's \<Rightarrow>
   (kval list \<times> 's) option" where
  "run_straight fl tr mem body args s =
     (case kb_blocks body of
        [block] \<Rightarrow>
          (case bb_terminator block of
             Return values \<Rightarrow>
               if length args = length (bb_params block) \<and> kb_entry body = 0 then
                 Option.bind (exec_instrs fl tr mem (kb_values body) (bb_instrs block)
                     (map_of (zip (bb_params block) args), s)) (\<lambda>(e, s).
                   map_option (\<lambda>vals. (vals, s)) (map_opt e values))
               else None
           | _ \<Rightarrow> None)
      | _ \<Rightarrow> None)"

lemma exec_instrs_Nil [simp]: "exec_instrs fl tr mem values [] st = Some st"
  by (simp add: exec_instrs_def)

lemma exec_instrs_Cons [simp]:
  "exec_instrs fl tr mem values (v # vs) st =
     Option.bind (exec_def fl tr mem v (nth_opt values (unat v)) st)
       (exec_instrs fl tr mem values vs)"
  by (simp add: exec_instrs_def)

lemma exec_instrs_append:
  "exec_instrs fl tr mem values (vs @ ws) st =
     Option.bind (exec_instrs fl tr mem values vs st) (exec_instrs fl tr mem values ws)"
  by (simp add: exec_instrs_def fold_opt_append)

section \<open>Bodies under construction\<close>

text \<open>
  \<open>models fl tr x b n \<rho>\<close>: \<open>b\<close> is one open block that has defined the values \<open>0..<n\<close>, the first its
  parameter, the others its instructions in order; on the argument \<open>x\<close>, value \<open>i\<close> is \<open>\<rho> i\<close>.
\<close>

definition models ::
  "f32_ops \<Rightarrow> (kernel_instr \<Rightarrow> f32 \<Rightarrow> f32 option) \<Rightarrow> f32 \<Rightarrow> kernel_body \<Rightarrow> nat \<Rightarrow> (nat \<Rightarrow> kval) \<Rightarrow> bool"
  where
  "models fl tr x b n \<rho> \<longleftrightarrow>
     kb_entry b = 0 \<and> 0 < n \<and> n < 2 ^ 32 \<and> length (kb_values b) = n \<and>
     kb_values b ! 0 = Block_param 0 0 \<and> \<rho> 0 = K_float x \<and> kb_barriers b = [] \<and>
     (\<exists>block. kb_blocks b = [block] \<and> bb_params block = [0] \<and>
        bb_instrs block = map word_of_nat [1..<n]) \<and>
     (\<forall>i. 0 < i \<longrightarrow> i < n \<longrightarrow> (\<exists>op args classes. kb_values b ! i = Instr op args classes \<and>
        \<not> reaches_memory op \<and> (\<forall>a \<in> set args. unat a < i) \<and>
        eval_op fl tr op (map (\<lambda>a. \<rho> (unat a)) args) = Some (\<rho> i)))"

text \<open>\<open>wp m Q\<close>: the builder step \<open>m\<close> does not panic and ends in \<open>Q\<close>.\<close>

definition wp :: "'a option \<Rightarrow> ('a \<Rightarrow> bool) \<Rightarrow> bool" where
  "wp m Q = (case m of None \<Rightarrow> False | Some r \<Rightarrow> Q r)"

lemma wp_Some [simp]: "wp (Some r) Q = Q r"
  by (simp add: wp_def)

lemma wp_bind: "wp m (\<lambda>r. wp (f r) Q) \<Longrightarrow> wp (Option.bind m f) Q"
  by (auto simp: wp_def split: option.splits)

lemma wp_bind_iff: "wp (Option.bind m f) Q = wp m (\<lambda>r. wp (f r) Q)"
  by (auto simp: wp_def split: option.splits)

lemma wp_mono: "wp m Q \<Longrightarrow> (\<And>r. Q r \<Longrightarrow> R r) \<Longrightarrow> wp m R"
  by (auto simp: wp_def split: option.splits)

lemma wp_conv: "wp m Q \<longleftrightarrow> (\<exists>r. m = Some r \<and> Q r)"
  by (auto simp: wp_def split: option.splits)

lemma models_room: "models fl tr x b n \<rho> \<Longrightarrow> 0 < n \<and> n < 4294967296"
  by (simp add: models_def)

lemma unat_of_nat_u32: "n < 4294967296 \<Longrightarrow> unat (word_of_nat n :: u32) = n"
  by (simp add: unsigned_of_nat take_bit_nat_eq_self)

lemma add_op_wp:
  assumes m: "models fl tr x b n \<rho>" and room: "Suc n < 4294967296"
    and args: "\<forall>a \<in> set args. unat a < n"
    and pure: "\<not> reaches_memory op"
    and ev: "eval_op fl tr op (map (\<lambda>a. \<rho> (unat a)) args) = Some v"
    and Q: "\<And>b'. models fl tr x b' (Suc n) (\<rho>(n := v)) \<Longrightarrow> Q (b', word_of_nat n)"
  shows "wp (add_op b 0 op args classes) Q"
proof -
  from m obtain block where b: "kb_entry b = 0" "0 < n" "n < 2 ^ 32" "length (kb_values b) = n"
    "kb_values b ! 0 = Block_param 0 0" "\<rho> 0 = K_float x" "kb_blocks b = [block]"
    "bb_params block = [0]" "bb_instrs block = map word_of_nat [1..<n]" "kb_barriers b = []"
    and old: "\<And>i. 0 < i \<Longrightarrow> i < n \<Longrightarrow> \<exists>op args classes. kb_values b ! i = Instr op args classes \<and>
        \<not> reaches_memory op \<and> (\<forall>a \<in> set args. unat a < i) \<and>
        eval_op fl tr op (map (\<lambda>a. \<rho> (unat a)) args) = Some (\<rho> i)"
    unfolding models_def by blast
  let ?b = "b\<lparr>kb_values := kb_values b @ [Instr op args classes],
    kb_blocks := [block\<lparr>bb_instrs := bb_instrs block @ [word_of_nat n]\<rparr>]\<rparr>"
  have "add_op b 0 op args classes = Some (?b, word_of_nat n)"
    using b by (simp add: add_op_def upd_block_def Let_def)
  moreover have "models fl tr x ?b (Suc n) (\<rho>(n := v))"
  proof -
    have "\<exists>op' args' classes'. kb_values ?b ! i = Instr op' args' classes' \<and>
        \<not> reaches_memory op' \<and> (\<forall>a \<in> set args'. unat a < i) \<and>
        eval_op fl tr op' (map (\<lambda>a. (\<rho>(n := v)) (unat a)) args') = Some ((\<rho>(n := v)) i)"
      if i: "0 < i" "i < Suc n" for i
    proof (cases "i = n")
      case True
      have same: "map (\<lambda>a. (\<rho>(n := v)) (unat a)) args = map (\<lambda>a. \<rho> (unat a)) args"
        using args by (intro map_cong) auto
      have "kb_values ?b ! i = Instr op args classes" using True b(4) by (simp add: nth_append)
      moreover have "(\<rho>(n := v)) i = v" using True by simp
      ultimately show ?thesis using pure args ev True unfolding same [symmetric] by metis
    next
      case False
      with i have "i < n" by simp
      from old [OF i(1) this] obtain op' args' classes' where
        o: "kb_values b ! i = Instr op' args' classes'" "\<not> reaches_memory op'"
        "\<forall>a \<in> set args'. unat a < i"
        "eval_op fl tr op' (map (\<lambda>a. \<rho> (unat a)) args') = Some (\<rho> i)" by blast
      have same: "map (\<lambda>a. (\<rho>(n := v)) (unat a)) args' = map (\<lambda>a. \<rho> (unat a)) args'"
        using o(3) \<open>i < n\<close> by (intro map_cong) auto
      have "kb_values ?b ! i = Instr op' args' classes'"
        using o(1) \<open>i < n\<close> b(4) by (simp add: nth_append)
      moreover have "(\<rho>(n := v)) i = \<rho> i" using False by simp
      ultimately show ?thesis using o(2-4) unfolding same [symmetric] by metis
    qed
    moreover have "[1..<Suc n] = [1..<n] @ [n]" using b(2) by simp
    ultimately show ?thesis using b room by (simp add: models_def nth_append)
  qed
  ultimately show ?thesis using Q by simp
qed

lemma models_start:
  "\<exists>b. add_param (fst (add_block body_new)) (snd (add_block body_new)) = Some (b, 0) \<and>
     models fl tr x b 1 (\<lambda>_. K_float x)"
  by (simp add: add_block_def body_new_def add_param_def upd_block_def models_def)

text \<open>A finished body, run on its argument, answers the value it returns.\<close>

lemma models_exec:
  assumes m: "models fl tr x b n \<rho>" and k: "k \<le> n" "0 < k"
  shows "exec_instrs fl tr mem (kb_values b) (map word_of_nat [1..<k]) ([0 \<mapsto> K_float x], s) =
    Some (\<lambda>v. if unat v < k then Some (\<rho> (unat v)) else None, s)"
  using k
proof (induction k)
  case (Suc k)
  note facts = m [unfolded models_def]
  show ?case
  proof (cases "k = 0")
    case True
    have "unat (v :: u32) = 0 \<longleftrightarrow> v = 0" for v by (simp add: unat_eq_zero)
    with True facts show ?thesis by (auto simp: fun_eq_iff)
  next
    case False
    let ?e = "\<lambda>v :: u32. if unat v < k then Some (\<rho> (unat v)) else None"
    from False Suc.prems facts obtain op args classes where
      o: "kb_values b ! k = Instr op args classes" "\<not> reaches_memory op"
      "\<forall>a \<in> set args. unat a < k" "eval_op fl tr op (map (\<lambda>a. \<rho> (unat a)) args) = Some (\<rho> k)"
      by (metis Suc_le_lessD gr0I)
    have args: "map_opt ?e args = Some (map (\<lambda>a. \<rho> (unat a)) args)"
      by (rule map_opt_total) (use o(3) in simp)
    have w: "unat (word_of_nat k :: u32) = k"
      using Suc.prems facts by (intro unat_of_nat_u32) simp
    have upd: "?e(word_of_nat k \<mapsto> \<rho> k) =
        (\<lambda>v. if unat v < Suc k then Some (\<rho> (unat v)) else None)"
    proof (rule ext)
      fix v :: u32
      have "v = word_of_nat k \<longleftrightarrow> unat v = k" using w by (metis word_unat_eq_iff)
      then show "(?e(word_of_nat k \<mapsto> \<rho> k)) v =
          (if unat v < Suc k then Some (\<rho> (unat v)) else None)" by auto
    qed
    have "nth_opt (kb_values b) k = Some (Instr op args classes)"
      using o(1) facts Suc.prems by simp
    with args w o(2,4) upd have "exec_def fl tr mem (word_of_nat k) (nth_opt (kb_values b) k) (?e, s) =
        Some (\<lambda>v. if unat v < Suc k then Some (\<rho> (unat v)) else None, s)"
      by (simp add: exec_def_def exec_op_def bind_result_def del: nth_opt_Some)
    with Suc False w show ?thesis by (simp add: exec_instrs_append)
  qed
qed simp

text \<open>\<open>latest n v\<close>: \<open>v\<close> is the last of the values \<open>0..<n\<close>.\<close>

definition latest :: "nat \<Rightarrow> value_id \<Rightarrow> bool" where
  "latest n v \<longleftrightarrow> v = word_of_nat (n - 1)"

lemma latest_Suc [simp]: "latest (Suc n) (word_of_nat n)"
  by (simp add: latest_def)

text \<open>
  \<open>evaluates fl tr x body v\<close>: \<open>body\<close> is such a block, closed by returning the value it computes
  last, which is \<open>v\<close> on the argument \<open>x\<close>.
\<close>

definition evaluates ::
  "f32_ops \<Rightarrow> (kernel_instr \<Rightarrow> f32 \<Rightarrow> f32 option) \<Rightarrow> f32 \<Rightarrow> kernel_body \<Rightarrow> f32 \<Rightarrow> bool" where
  "evaluates fl tr x body v \<longleftrightarrow>
     (\<exists>b n \<rho>. models fl tr x b n \<rho> \<and> 1 < n \<and> \<rho> (n - 1) = K_float v \<and>
       set_terminator b 0 (Return [word_of_nat (n - 1)]) = Some body)"

lemma evaluates_run:
  assumes "evaluates fl tr x body v"
  shows "run_straight fl tr mem body [K_float x] s = Some ([K_float v], s)"
proof -
  from assms obtain b n \<rho> where m: "models fl tr x b n \<rho>" and n: "1 < n"
    and v: "\<rho> (n - 1) = K_float v" and body: "set_terminator b 0 (Return [word_of_nat (n - 1)]) = Some body"
    unfolding evaluates_def by blast
  from m obtain block where b: "kb_entry b = 0" "kb_blocks b = [block]" "bb_params block = [0]"
    "bb_instrs block = map word_of_nat [1..<n]" "0 < n" "n < 2 ^ 32" unfolding models_def by blast
  have "unat (word_of_nat (n - 1) :: u32) = n - 1" using b(6) by (intro unat_of_nat_u32) simp
  moreover have "body = b\<lparr>kb_blocks := [block\<lparr>bb_terminator := Return [word_of_nat (n - 1)]\<rparr>]\<rparr>"
    using b body by (simp add: set_terminator_def upd_block_def)
  ultimately show ?thesis
    using b n v models_exec [OF m order_refl b(5), where mem = mem and s = s]
    by (simp add: run_straight_def)
qed

lemma set_terminator_wp:
  assumes "models fl tr x b n \<rho>" "1 < n \<and> n < 4294967296 \<and> latest n i" "\<rho> (unat i) = K_float v"
    "\<And>body. evaluates fl tr x body v \<Longrightarrow> Q body"
  shows "wp (set_terminator b 0 (Return [i])) Q"
proof -
  from assms(1) obtain block where b: "kb_blocks b = [block]" unfolding models_def by blast
  then obtain body where body: "set_terminator b 0 (Return [word_of_nat (n - 1)]) = Some body"
    by (simp add: set_terminator_def upd_block_def)
  moreover have "unat i = n - 1"
    using assms(2) unat_of_nat_u32 [of "n - 1"] by (auto simp: latest_def simp del: of_nat_diff)
  then have "\<rho> (n - 1) = K_float v" using assms(3) by simp
  ultimately have "evaluates fl tr x body v" using assms(1,2) unfolding evaluates_def by blast
  with assms(2,4) body show ?thesis by (simp add: latest_def)
qed

end
