(* ===== verification/Unary_Correct.thy ===== *)
theory Unary_Correct
  imports Unary
begin

text \<open>
  The bodies of \<open>Unary\<close> compute the functions of \<open>Unary\<close>.

  The first section runs the builder operations symbolically: each rule takes a body under
  construction one instruction further and names the value the instruction leaves. A loop of the
  code is a locale: whatever one round does, the rounds do in turn.
\<close>

section \<open>Running the builders\<close>

fun flt :: "kval \<Rightarrow> f32" where
  "flt (K_float a) = a"
| "flt (K_int a) = ucast a"

fun is_float :: "kval \<Rightarrow> bool" where
  "is_float (K_float a) = True"
| "is_float (K_int a) = False"

definition tru :: "kval \<Rightarrow> bool" where
  "tru v = (v = truth True)"

definition is_truth :: "kval \<Rightarrow> bool" where
  "is_truth v = (v = truth True \<or> v = truth False)"

fun float_arith :: "f32_ops \<Rightarrow> kernel_bin \<Rightarrow> f32 \<Rightarrow> f32 \<Rightarrow> f32" where
  "float_arith fl Add a b = f_add fl a b"
| "float_arith fl Sub a b = f_sub fl a b"
| "float_arith fl Mul a b = f_mul fl a b"
| "float_arith fl _ a b = f_div fl a b"

fun float_cmp :: "f32_ops \<Rightarrow> kernel_bin \<Rightarrow> f32 \<Rightarrow> f32 \<Rightarrow> bool" where
  "float_cmp fl Lt a b = f_lt fl a b"
| "float_cmp fl Gt a b = f_lt fl b a"
| "float_cmp fl Leq a b = f_leq fl a b"
| "float_cmp fl Geq a b = f_leq fl b a"
| "float_cmp fl Eq a b = f_eq fl a b"
| "float_cmp fl _ a b = (\<not> f_eq fl a b)"

definition is_arith :: "kernel_bin \<Rightarrow> bool" where
  "is_arith op = (op = Add \<or> op = Sub \<or> op = Mul \<or> op = Div)"

text \<open>\<open>is_val w e\<close> is \<open>w = e\<close>, kept folded until the last value is known.\<close>

definition is_val :: "'a \<Rightarrow> 'a \<Rightarrow> bool" where
  "is_val w e \<longleftrightarrow> w = e"

lemma is_val_refl [simp]: "is_val w w"
  by (simp add: is_val_def)

lemma tru_truth [simp]: "tru (truth p) = p" "is_truth (truth p)"
  by (auto simp: tru_def truth_def is_truth_def)

lemma is_truth_conv: "is_truth v \<longleftrightarrow> (\<exists>p. v = truth p)"
  by (auto simp: is_truth_def truth_def)

lemma is_float_conv: "is_float v \<longleftrightarrow> (\<exists>a. v = K_float a)"
  by (cases v) auto

lemma float_bin_val_arith: "is_arith op \<Longrightarrow> float_bin_val fl op a b = Some (K_float (float_arith fl op a b))"
  by (auto simp: is_arith_def)

lemma float_bin_val_cmp: "is_comparison op \<Longrightarrow> float_bin_val fl op a b = Some (truth (float_cmp fl op a b))"
  by (auto simp: is_comparison_def)

lemma ucast_ucast_f32: "ucast (ucast (v :: f32) :: u64) = v"
  by (simp add: unsigned_ucast_eq take_bit_word_eq_self)

lemma add_op_bind:
  assumes "models fl tr x b n \<rho>" "Suc n < 4294967296" "\<forall>a \<in> set args. unat a < n"
    "\<not> reaches_memory op" "eval_op fl tr op (map (\<lambda>a. \<rho> (unat a)) args) = Some v"
    "\<And>b'. models fl tr x b' (Suc n) (\<rho>(n := v)) \<Longrightarrow> wp (f b' (word_of_nat n)) Q"
  shows "wp (Option.bind (add_op b 0 op args classes) (case_prod f)) Q"
  by (rule wp_bind, rule add_op_wp [OF assms(1-5)]) (simp add: assms(6))

lemma constant_bind:
  assumes "models fl tr x b n \<rho>" "Suc n < 4294967296"
    "\<And>b'. models fl tr x b' (Suc n) (\<rho>(n := K_float v)) \<Longrightarrow> wp (f b' (word_of_nat n)) Q"
  shows "wp (Option.bind (float_constant b 0 v) (case_prod f)) Q"
  unfolding float_constant_def add_const_def
  by (rule add_op_bind [OF assms(1,2), where v = "K_float v"])
    (use assms(3) in \<open>simp_all add: reaches_memory_def eval_op_simps ucast_ucast_f32\<close>)

lemma float_bin_bind:
  assumes "models fl tr x b n \<rho>"
    "Suc n < 4294967296 \<and> unat i < n \<and> unat j < n \<and> is_float (\<rho> (unat i)) \<and>
     is_float (\<rho> (unat j)) \<and> is_arith op"
    "\<And>b' w. models fl tr x b' (Suc n) (\<rho>(n := K_float w)) \<Longrightarrow>
       is_val w (float_arith fl op (flt (\<rho> (unat i))) (flt (\<rho> (unat j)))) \<Longrightarrow> wp (f b' (word_of_nat n)) Q"
  shows "wp (Option.bind (float_bin b 0 op i j) (case_prod f)) Q"
  unfolding float_bin_def
  by (rule add_op_bind [OF assms(1),
        where v = "K_float (float_arith fl op (flt (\<rho> (unat i))) (flt (\<rho> (unat j))))"])
    (use assms(2,3) in \<open>auto simp: reaches_memory_def eval_op_simps float_bin_val_arith is_float_conv\<close>)

lemma conv_bind:
  assumes "models fl tr x b n \<rho>"
    "Suc (Suc n) < 4294967296 \<and> unat i < n \<and> is_float (\<rho> (unat i))"
    "\<And>b' w. models fl tr x b' (Suc (Suc n)) (\<rho>(n := K_int (f_to_int fl (flt (\<rho> (unat i)))), Suc n := K_float w)) \<Longrightarrow>
       is_val w (f_of_int fl (f_to_int fl (flt (\<rho> (unat i))))) \<Longrightarrow> wp (f b' (word_of_nat (Suc n))) Q"
  shows "wp (Option.bind (truncate b 0 i) (case_prod f)) Q"
proof -
  have eq: "Option.bind (truncate b 0 i) (case_prod f) = Option.bind
      (add_op b 0 (Conv Float_class Int_class) [i] [Int_class]) (case_prod (\<lambda>b' c. Option.bind
      (add_op b' 0 (Conv Int_class Float_class) [c] [Float_class]) (case_prod f)))"
    by (cases "add_op b 0 (Conv Float_class Int_class) [i] [Int_class]") (auto simp: truncate_def)
  show ?thesis
    unfolding eq
  proof (rule add_op_bind [OF assms(1), where v = "K_int (f_to_int fl (flt (\<rho> (unat i))))"])
    fix b' assume b': "models fl tr x b' (Suc n) (\<rho>(n := K_int (f_to_int fl (flt (\<rho> (unat i))))))"
    show "wp (Option.bind (add_op b' 0 (Conv Int_class Float_class) [word_of_nat n] [Float_class])
        (case_prod f)) Q"
      by (rule add_op_bind [OF b', where v = "K_float (f_of_int fl (f_to_int fl (flt (\<rho> (unat i)))))"])
        (use assms(2,3) in \<open>auto simp: reaches_memory_def eval_op_simps unat_of_nat_u32\<close>)
  qed (use assms(2) in \<open>auto simp: reaches_memory_def eval_op_simps is_float_conv\<close>)
qed

lemma wrap_bind:
  assumes "models fl tr x b n \<rho>"
    "Suc n < 4294967296 \<and> unat i < n \<and> is_truth (\<rho> (unat i))"
    "\<And>b'. models fl tr x b' (Suc n) (\<rho>(n := \<rho> (unat i))) \<Longrightarrow> wp (f b' (word_of_nat n)) Q"
  shows "wp (Option.bind (add_op b 0 I32WrapI64 [i] classes) (case_prod f)) Q"
  by (rule add_op_bind [OF assms(1), where v = "\<rho> (unat i)"])
    (use assms(2,3) in \<open>auto simp: reaches_memory_def eval_op_simps is_truth_conv\<close>)

lemma compare_bind:
  assumes "models fl tr x b n \<rho>"
    "Suc n < 4294967296 \<and> unat i < n \<and> unat j < n \<and> is_float (\<rho> (unat i)) \<and>
     is_float (\<rho> (unat j)) \<and> is_comparison op"
    "\<And>b' p. models fl tr x b' (Suc n) (\<rho>(n := truth p)) \<Longrightarrow>
       is_val p (float_cmp fl op (flt (\<rho> (unat i))) (flt (\<rho> (unat j)))) \<Longrightarrow> wp (f b' (word_of_nat n)) Q"
  shows "wp (Option.bind (float_bin b 0 op i j) (case_prod f)) Q"
  unfolding float_bin_def
  by (rule add_op_bind [OF assms(1),
        where v = "truth (float_cmp fl op (flt (\<rho> (unat i))) (flt (\<rho> (unat j))))"])
    (use assms(2,3) in \<open>auto simp: reaches_memory_def eval_op_def eval_bin_def float_bin_val_cmp is_float_conv\<close>)

lemma condition_bind:
  assumes "models fl tr x b n \<rho>"
    "Suc (Suc n) < 4294967296 \<and> unat i < n \<and> unat j < n \<and> is_float (\<rho> (unat i)) \<and>
     is_float (\<rho> (unat j)) \<and> is_comparison op"
    "\<And>b' p. models fl tr x b' (Suc (Suc n)) (\<rho>(n := truth p, Suc n := truth p)) \<Longrightarrow>
       is_val p (float_cmp fl op (flt (\<rho> (unat i))) (flt (\<rho> (unat j)))) \<Longrightarrow>
       wp (f b' (word_of_nat (Suc n))) Q"
  shows "wp (Option.bind (condition b 0 op i j) (case_prod f)) Q"
proof -
  have eq: "Option.bind (condition b 0 op i j) (case_prod f) = Option.bind (float_bin b 0 op i j)
      (case_prod (\<lambda>b' c. Option.bind (add_op b' 0 I32WrapI64 [c] [Int_class]) (case_prod f)))"
    by (cases "float_bin b 0 op i j") (auto simp: condition_def)
  show ?thesis
    unfolding eq
  proof (rule compare_bind [OF assms(1)])
    fix b' p assume b': "models fl tr x b' (Suc n) (\<rho>(n := truth p))"
      and p: "is_val p (float_cmp fl op (flt (\<rho> (unat i))) (flt (\<rho> (unat j))))"
    show "wp (Option.bind (add_op b' 0 I32WrapI64 [word_of_nat n] [Int_class]) (case_prod f)) Q"
      by (rule wrap_bind [OF b']) (use assms(2) assms(3) [OF _ p] in \<open>auto simp: unat_of_nat_u32\<close>)
  qed (use assms(2) in auto)
qed

lemma select_bind:
  assumes "models fl tr x b n \<rho>"
    "Suc n < 4294967296 \<and> unat i < n \<and> unat j < n \<and> unat k < n \<and> is_truth (\<rho> (unat k)) \<and>
     is_float (\<rho> (unat i)) \<and> is_float (\<rho> (unat j))"
    "\<And>b' w. models fl tr x b' (Suc n) (\<rho>(n := K_float w)) \<Longrightarrow>
       is_val w (if tru (\<rho> (unat k)) then flt (\<rho> (unat i)) else flt (\<rho> (unat j))) \<Longrightarrow>
       wp (f b' (word_of_nat n)) Q"
  shows "wp (Option.bind (select b 0 i j k) (case_prod f)) Q"
proof -
  from assms(2) obtain p where p: "\<rho> (unat k) = truth p" by (auto simp: is_truth_conv)
  with assms(2) have ev: "eval_op fl tr Select (map (\<lambda>a. \<rho> (unat a)) [i, j, k]) =
      Some (K_float (if p then flt (\<rho> (unat i)) else flt (\<rho> (unat j))))"
    by (auto simp: eval_op_simps is_float_conv)
  show ?thesis
    unfolding select_def
    by (rule add_op_bind [OF assms(1) _ _ _ ev])
      (use assms(2) assms(3) p in \<open>auto simp: reaches_memory_def\<close>)
qed

lemmas builder_rules = constant_bind float_bin_bind condition_bind select_bind conv_bind
lemmas builder_side = is_arith_def is_comparison_def



text \<open>What a piece of a builder may assume of the values it was handed, and leaves for the next.\<close>

definition grown :: "nat \<Rightarrow> (nat \<Rightarrow> kval) \<Rightarrow> nat \<Rightarrow> (nat \<Rightarrow> kval) \<Rightarrow> bool" where
  "grown n \<rho> m \<rho>' \<longleftrightarrow> n \<le> m \<and> (\<forall>k < n. \<rho>' k = \<rho> k)"

lemma grown_refl [simp]: "grown n \<rho> n \<rho>"
  by (simp add: grown_def)

lemma grown_trans: "grown n \<rho> m \<rho>' \<Longrightarrow> grown m \<rho>' l \<rho>'' \<Longrightarrow> grown n \<rho> l \<rho>''"
  by (auto simp: grown_def)

definition holds :: "nat \<Rightarrow> (nat \<Rightarrow> kval) \<Rightarrow> value_id \<Rightarrow> f32 \<Rightarrow> bool" where
  "holds n \<rho> i v \<longleftrightarrow> unat i < n \<and> \<rho> (unat i) = K_float v"

lemma holds_grown: "holds n \<rho> i v \<Longrightarrow> grown n \<rho> m \<rho>' \<Longrightarrow> holds m \<rho>' i v"
  by (auto simp: holds_def grown_def)

text \<open>
  A loop whose round rewrites one value: \<open>step a\<close> emits the instructions of the round for the
  datum \<open>a\<close> and \<open>g a\<close> is what they compute, as long as \<open>inv\<close> holds of the values they also read.
\<close>

locale value_loop =
  fixes fl :: f32_ops
    and tr :: "kernel_instr \<Rightarrow> f32 \<Rightarrow> f32 option"
    and x :: f32
    and c :: nat
    and inv :: "nat \<Rightarrow> (nat \<Rightarrow> kval) \<Rightarrow> bool"
    and step :: "'a \<Rightarrow> kernel_body \<times> value_id \<Rightarrow> (kernel_body \<times> value_id) option"
    and g :: "'a \<Rightarrow> f32 \<Rightarrow> f32"
  assumes inv_grown: "inv n \<rho> \<Longrightarrow> grown n \<rho> m \<rho>' \<Longrightarrow> inv m \<rho>'"
    and round: "models fl tr x b n \<rho> \<Longrightarrow> n + c < 4294967296 \<Longrightarrow> inv n \<rho> \<Longrightarrow> holds n \<rho> v X \<Longrightarrow>
      wp (step a (b, v)) (\<lambda>(b', v'). \<exists>m \<rho>'. models fl tr x b' m \<rho>' \<and> grown n \<rho> m \<rho>' \<and> m \<le> n + c \<and>
        holds m \<rho>' v' (g a X) \<and> latest m v')"
begin

lemma rounds:
  assumes "models fl tr x b n \<rho>" "n + c * length as < 4294967296" "inv n \<rho>" "holds n \<rho> v X"
    "latest n v"
  shows "wp (fold_opt step as (b, v)) (\<lambda>(b', v'). \<exists>m \<rho>'. models fl tr x b' m \<rho>' \<and>
    grown n \<rho> m \<rho>' \<and> m \<le> n + c * length as \<and> holds m \<rho>' v' (fold g as X) \<and> latest m v')"
  using assms
proof (induction as arbitrary: b n \<rho> v X)
  case Nil
  then show ?case by (auto intro!: exI [of _ n] exI [of _ \<rho>])
next
  case (Cons a as)
  from Cons.prems have room: "n + c < 4294967296" by simp
  show ?case
    unfolding fold_opt.simps
  proof (rule wp_bind, rule wp_mono [OF round [OF Cons.prems(1) room Cons.prems(3,4)]], clarify)
    fix b' v' m \<rho>'
    assume m: "models fl tr x b' m \<rho>'" and gr: "grown n \<rho> m \<rho>'" and le: "m \<le> n + c"
      and h: "holds m \<rho>' v' (g a X)" and l: "latest m v'"
    have "m + c * length as < 4294967296" using le Cons.prems(2) by simp
    from Cons.IH [OF m this inv_grown [OF Cons.prems(3) gr] h l]
    show "wp (fold_opt step as (b', v')) (\<lambda>(b', v'). \<exists>m \<rho>'. models fl tr x b' m \<rho>' \<and>
        grown n \<rho> m \<rho>' \<and> m \<le> n + c * length (a # as) \<and> holds m \<rho>' v' (fold g (a # as) X) \<and>
        latest m v')"
    proof (rule wp_mono, clarify)
      fix b'' v'' m' \<rho>''
      assume "models fl tr x b'' m' \<rho>''" "grown m \<rho>' m' \<rho>''" "m' \<le> m + c * length as"
        "holds m' \<rho>'' v'' (fold g as (g a X))" "latest m' v''"
      then show "\<exists>l \<rho>'. models fl tr x b'' l \<rho>' \<and> grown n \<rho> l \<rho>' \<and> l \<le> n + c * length (a # as) \<and>
          holds l \<rho>' v'' (fold g (a # as) X) \<and> latest l v''"
        using grown_trans [OF gr] le by (intro exI [of _ m'] exI [of _ \<rho>'']) auto
    qed
  qed
qed

end

text \<open>The same for a round that rewrites a value and its track.\<close>

locale pair_loop =
  fixes fl :: f32_ops
    and tr :: "kernel_instr \<Rightarrow> f32 \<Rightarrow> f32 option"
    and x :: f32
    and c :: nat
    and step :: "kernel_body \<times> value_id \<times> value_id \<Rightarrow> (kernel_body \<times> value_id \<times> value_id) option"
    and g :: "f32 \<times> f32 \<Rightarrow> f32 \<times> f32"
  assumes round: "models fl tr x b n \<rho> \<Longrightarrow> n + c < 4294967296 \<Longrightarrow> holds n \<rho> v X \<Longrightarrow>
      holds n \<rho> t T \<Longrightarrow>
      wp (step (b, v, t)) (\<lambda>(b', v', t'). \<exists>m \<rho>'. models fl tr x b' m \<rho>' \<and> grown n \<rho> m \<rho>' \<and>
        m \<le> n + c \<and> holds m \<rho>' v' (fst (g (X, T))) \<and> holds m \<rho>' t' (snd (g (X, T))))"
begin

lemma rounds:
  assumes "models fl tr x b n \<rho>" "n + c * k < 4294967296" "holds n \<rho> v X" "holds n \<rho> t T"
  shows "wp (repeat k step (b, v, t)) (\<lambda>(b', v', t'). \<exists>m \<rho>'. models fl tr x b' m \<rho>' \<and>
    grown n \<rho> m \<rho>' \<and> m \<le> n + c * k \<and> holds m \<rho>' v' (fst ((g ^^ k) (X, T))) \<and>
    holds m \<rho>' t' (snd ((g ^^ k) (X, T))))"
  using assms(2)
proof (induction k)
  case 0
  then show ?case using assms by (auto simp: repeat_def intro!: exI [of _ n] exI [of _ \<rho>])
next
  case (Suc k)
  have last: "Option.bind (step a) (fold_opt f []) = step a"
    for a and f :: "nat \<Rightarrow> kernel_body \<times> value_id \<times> value_id \<Rightarrow> _"
    by (cases "step a") simp_all
  have split: "repeat (Suc k) step st = Option.bind (repeat k step st) step" for st
    by (cases "fold_opt (\<lambda>_. step) [0..<k] st") (simp_all add: repeat_def fold_opt_append last)
  have "n + c * k < 4294967296" using Suc.prems by simp
  from Suc.IH [OF this] show ?case
    unfolding split
  proof (intro wp_bind, elim wp_mono, clarify)
    fix b' v' t' m \<rho>'
    let ?XT = "(g ^^ k) (X, T)"
    assume m: "models fl tr x b' m \<rho>'" and gr: "grown n \<rho> m \<rho>'" and le: "m \<le> n + c * k"
      and h: "holds m \<rho>' v' (fst ?XT)" "holds m \<rho>' t' (snd ?XT)"
    have "m + c < 4294967296" using le Suc.prems by simp
    from round [OF m this h] show "wp (step (b', v', t')) (\<lambda>(b', v', t'). \<exists>m \<rho>'.
        models fl tr x b' m \<rho>' \<and> grown n \<rho> m \<rho>' \<and> m \<le> n + c * Suc k \<and>
        holds m \<rho>' v' (fst ((g ^^ Suc k) (X, T))) \<and> holds m \<rho>' t' (snd ((g ^^ Suc k) (X, T))))"
    proof (rule wp_mono, clarify)
      fix b'' v'' t'' m' \<rho>''
      assume "models fl tr x b'' m' \<rho>''" "grown m \<rho>' m' \<rho>''" "m' \<le> m + c"
        "holds m' \<rho>'' v'' (fst (g (fst ?XT, snd ?XT)))" "holds m' \<rho>'' t'' (snd (g (fst ?XT, snd ?XT)))"
      then show "\<exists>l \<rho>'. models fl tr x b'' l \<rho>' \<and> grown n \<rho> l \<rho>' \<and> l \<le> n + c * Suc k \<and>
          holds l \<rho>' v'' (fst ((g ^^ Suc k) (X, T))) \<and> holds l \<rho>' t'' (snd ((g ^^ Suc k) (X, T)))"
        using grown_trans [OF gr] le by (intro exI [of _ m'] exI [of _ \<rho>'']) auto
    qed
  qed
qed

end

section \<open>The loops\<close>

lemma wp_tail: "wp (Option.bind m (case_prod (\<lambda>b i. Some (b, i)))) Q \<Longrightarrow> wp m Q"
  by (cases m) (auto split: prod.splits)

lemmas builder_simps = unat_of_nat_u32 is_arith_def is_comparison_def

interpretation rescale_loop: pair_loop fl tr x 9 "rescale 0 below stride track_step"
    "rescale_value fl below stride track_step"
  for fl tr x below stride track_step
proof (unfold_locales, goal_cases)
  case (1 b n \<rho> v X t T)
  then show ?case
    unfolding rescale_def prod.case holds_def
    apply -
    apply (erule builder_rules,
        (simp (no_asm_simp) add: builder_simps del: of_nat_Suc; fail))+
    apply (simp only: wp_Some prod.case)
    apply (intro exI conjI, assumption)
    apply (simp_all (no_asm_simp) add: grown_def builder_simps del: of_nat_Suc)
    apply (simp_all add: is_val_def builder_simps rescale_value_def cong: if_cong del: of_nat_Suc)
    done
qed

interpretation ln_loop: pair_loop fl tr x 9 "ln_scale 0 below edge stride track_step"
    "ln_scale_value fl (\<lambda>value. if below then f_lt fl value edge else f_leq fl edge value) stride
      (\<lambda>track. f_add fl track track_step)"
  for fl tr x below edge stride track_step
proof (unfold_locales, goal_cases)
  case (1 b n \<rho> v X t T)
  then show ?case
    unfolding ln_scale_def prod.case holds_def
    apply -
    apply (erule builder_rules,
        (simp (no_asm_simp) add: builder_simps del: of_nat_Suc; fail))+
    apply (simp only: wp_Some prod.case)
    apply (intro exI conjI, assumption)
    apply (simp_all (no_asm_simp) add: grown_def builder_simps del: of_nat_Suc)
    apply (simp_all add: is_val_def builder_simps ln_scale_value_def cong: if_cong del: of_nat_Suc)
    done
qed

interpretation newton_loop: value_loop fl tr x 4 "\<lambda>n \<rho>. holds n \<rho> reduced R" "\<lambda>_. newton_step 0 reduced"
    "\<lambda>_ root. f_mul fl (f_add fl root (f_div fl R root)) F_half"
  for fl tr x reduced R
proof (unfold_locales, goal_cases)
  case (1 n \<rho> m \<rho>')
  then show ?case by (rule holds_grown)
next
  case (2 b n \<rho> v X a)
  then show ?case
    unfolding newton_step_def prod.case holds_def
    apply -
    apply (erule builder_rules,
        (simp (no_asm_simp) add: builder_simps del: of_nat_Suc; fail))+
    apply (rule wp_tail)
    apply (erule builder_rules, (simp (no_asm_simp) add: builder_simps del: of_nat_Suc; fail))
    apply (simp only: wp_Some prod.case)
    apply (intro exI conjI, assumption)
    apply (simp_all (no_asm_simp) add: grown_def builder_simps del: of_nat_Suc)
    apply (simp_all add: is_val_def builder_simps cong: if_cong del: of_nat_Suc)
    done
qed

interpretation horner_loop: value_loop fl tr x 3 "\<lambda>n \<rho>. holds n \<rho> square S" "horner_step 0 square"
    "\<lambda>coefficient value. f_add fl (f_mul fl value S) coefficient"
  for fl tr x square S
proof (unfold_locales, goal_cases)
  case (1 n \<rho> m \<rho>')
  then show ?case by (rule holds_grown)
next
  case (2 b n \<rho> v X a)
  then show ?case
    unfolding horner_step_def prod.case holds_def
    apply -
    apply (erule builder_rules,
        (simp (no_asm_simp) add: builder_simps del: of_nat_Suc; fail))+
    apply (rule wp_tail)
    apply (erule builder_rules, (simp (no_asm_simp) add: builder_simps del: of_nat_Suc; fail))
    apply (simp only: wp_Some prod.case)
    apply (intro exI conjI, assumption)
    apply (simp_all (no_asm_simp) add: grown_def builder_simps del: of_nat_Suc)
    apply (simp_all add: is_val_def builder_simps cong: if_cong del: of_nat_Suc)
    done
qed

interpretation square_loop: value_loop fl tr x 1 "\<lambda>_ _. True"
    "\<lambda>_ (body, value). float_bin body 0 Mul value value" "\<lambda>_ powered. f_mul fl powered powered"
  for fl tr x
proof (unfold_locales, goal_cases)
  case (2 b n \<rho> v X a)
  then show ?case
    unfolding prod.case holds_def
    apply -
    apply (rule wp_tail)
    apply (erule builder_rules, (simp (no_asm_simp) add: builder_simps del: of_nat_Suc; fail))
    apply (simp only: wp_Some prod.case)
    apply (intro exI conjI, assumption)
    apply (simp_all (no_asm_simp) add: grown_def builder_simps del: of_nat_Suc)
    apply (simp_all add: is_val_def builder_simps cong: if_cong del: of_nat_Suc)
    done
qed simp

section \<open>The pieces as builder rules\<close>

lemma pair_bind:
  assumes "wp m (\<lambda>(b', v', t'). \<exists>m \<rho>'. models fl tr x b' m \<rho>' \<and> grown n \<rho> m \<rho>' \<and> m \<le> k \<and>
      holds m \<rho>' v' V \<and> holds m \<rho>' t' T)"
    and "\<And>b' m \<rho>' v' t'. models fl tr x b' m \<rho>' \<Longrightarrow> n \<le> m \<Longrightarrow> m \<le> k \<Longrightarrow>
      \<forall>i < n. \<rho>' i = \<rho> i \<Longrightarrow> unat v' < m \<Longrightarrow> \<rho>' (unat v') = K_float V \<Longrightarrow>
      unat t' < m \<Longrightarrow> \<rho>' (unat t') = K_float T \<Longrightarrow> wp (f b' v' t') Q"
  shows "wp (Option.bind m (case_prod (\<lambda>b'. case_prod (f b')))) Q"
  by (rule wp_bind, rule wp_mono [OF assms(1)])
    (auto simp: grown_def holds_def intro!: assms(2))

lemma value_bind:
  assumes "wp m (\<lambda>(b', v'). \<exists>m \<rho>'. models fl tr x b' m \<rho>' \<and> grown n \<rho> m \<rho>' \<and> m \<le> k \<and>
      holds m \<rho>' v' V \<and> latest m v')"
    and "\<And>b' m \<rho>' v'. models fl tr x b' m \<rho>' \<Longrightarrow> n \<le> m \<Longrightarrow> m \<le> k \<Longrightarrow>
      \<forall>i < n. \<rho>' i = \<rho> i \<Longrightarrow> unat v' < m \<Longrightarrow> \<rho>' (unat v') = K_float V \<Longrightarrow>
      latest m v' \<Longrightarrow> wp (f b' v') Q"
  shows "wp (Option.bind m (case_prod f)) Q"
  by (rule wp_bind, rule wp_mono [OF assms(1)])
    (auto simp: grown_def holds_def intro!: assms(2))

lemma holds_flt: "unat i < n \<Longrightarrow> is_float (\<rho> (unat i)) \<Longrightarrow> holds n \<rho> i (flt (\<rho> (unat i)))"
  by (cases "\<rho> (unat i)") (simp_all add: holds_def)

lemma rescale_bind:
  assumes "models fl tr x b n \<rho>"
    "k \<le> 40 \<and> n + 360 < 4294967296 \<and> unat v < n \<and> unat t < n \<and> is_float (\<rho> (unat v)) \<and> is_float (\<rho> (unat t))"
    "\<And>b' m \<rho>' v' t' V T. models fl tr x b' m \<rho>' \<Longrightarrow> n \<le> m \<Longrightarrow> m \<le> n + 360 \<Longrightarrow>
      \<forall>i < n. \<rho>' i = \<rho> i \<Longrightarrow> unat v' < m \<Longrightarrow> \<rho>' (unat v') = K_float V \<Longrightarrow>
      unat t' < m \<Longrightarrow> \<rho>' (unat t') = K_float T \<Longrightarrow>
      is_val ((rescale_value fl below stride track_step ^^ k) (flt (\<rho> (unat v)), flt (\<rho> (unat t))))
        (V, T) \<Longrightarrow>
      wp (f b' v' t') Q"
  shows "wp (Option.bind (repeat k (rescale 0 below stride track_step) (b, v, t))
    (case_prod (\<lambda>b'. case_prod (f b')))) Q"
proof (rule pair_bind [OF rescale_loop.rounds [OF assms(1) _ holds_flt holds_flt]])
qed (use assms(2) in simp_all, rule assms(3), assumption, assumption, simp, assumption+, simp)

lemma ln_bind:
  assumes "models fl tr x b n \<rho>"
    "k \<le> 40 \<and> n + 360 < 4294967296 \<and> unat v < n \<and> unat t < n \<and> is_float (\<rho> (unat v)) \<and> is_float (\<rho> (unat t))"
    "\<And>b' m \<rho>' v' t' V T. models fl tr x b' m \<rho>' \<Longrightarrow> n \<le> m \<Longrightarrow> m \<le> n + 360 \<Longrightarrow>
      \<forall>i < n. \<rho>' i = \<rho> i \<Longrightarrow> unat v' < m \<Longrightarrow> \<rho>' (unat v') = K_float V \<Longrightarrow>
      unat t' < m \<Longrightarrow> \<rho>' (unat t') = K_float T \<Longrightarrow>
      is_val ((ln_scale_value fl (\<lambda>value. if below then f_lt fl value edge else f_leq fl edge value)
        stride (\<lambda>track. f_add fl track track_step) ^^ k) (flt (\<rho> (unat v)), flt (\<rho> (unat t))))
        (V, T) \<Longrightarrow>
      wp (f b' v' t') Q"
  shows "wp (Option.bind (repeat k (ln_scale 0 below edge stride track_step) (b, v, t))
    (case_prod (\<lambda>b'. case_prod (f b')))) Q"
proof (rule pair_bind [OF ln_loop.rounds [OF assms(1) _ holds_flt holds_flt]])
qed (use assms(2) in simp_all, rule assms(3), assumption, assumption, simp, assumption+, simp)

lemma fold_const: "fold (\<lambda>_. g) xs = g ^^ length xs"
  by (induction xs) (simp_all add: funpow_swap1 comp_def fun_eq_iff)

lemma newton_bind:
  assumes "models fl tr x b n \<rho>"
    "k \<le> 6 \<and> n + 24 < 4294967296 \<and> unat r < n \<and> latest n v \<and> unat v < n \<and>
     is_float (\<rho> (unat r)) \<and> is_float (\<rho> (unat v))"
    "\<And>b' m \<rho>' v' V. models fl tr x b' m \<rho>' \<Longrightarrow> n \<le> m \<Longrightarrow> m \<le> n + 24 \<Longrightarrow>
      \<forall>i < n. \<rho>' i = \<rho> i \<Longrightarrow> unat v' < m \<Longrightarrow> \<rho>' (unat v') = K_float V \<Longrightarrow>
      is_val V (((\<lambda>root. f_mul fl (f_add fl root (f_div fl (flt (\<rho> (unat r))) root)) F_half) ^^ k)
        (flt (\<rho> (unat v)))) \<Longrightarrow>
      wp (f b' v') Q"
  shows "wp (Option.bind (repeat k (newton_step 0 r) (b, v)) (case_prod f)) Q"
  unfolding repeat_def
proof (rule value_bind [OF newton_loop.rounds [OF assms(1),
        where X = "flt (\<rho> (unat v))" and R = "flt (\<rho> (unat r))"]])
  show "holds n \<rho> r (flt (\<rho> (unat r)))" "holds n \<rho> v (flt (\<rho> (unat v)))"
    using assms(2) by (auto intro!: holds_flt)
qed (use assms(2) in \<open>auto simp: fold_const intro!: assms(3)\<close>)

lemma polynomial_bind:
  assumes m: "models fl tr x b n \<rho>"
    and side: "length cs \<le> 11 \<and> n + 31 < 4294967296 \<and> unat sq < n \<and> is_float (\<rho> (unat sq))"
    and Q: "\<And>b' m \<rho>' v' V. models fl tr x b' m \<rho>' \<Longrightarrow> n \<le> m \<Longrightarrow>
      m \<le> n + 31 \<Longrightarrow>
      \<forall>i < n. \<rho>' i = \<rho> i \<Longrightarrow> unat v' < m \<Longrightarrow> \<rho>' (unat v') = K_float V \<Longrightarrow>
      latest m v' \<Longrightarrow> is_val V (horner fl cs (flt (\<rho> (unat sq)))) \<Longrightarrow> wp (f b' v') Q"
  shows "wp (Option.bind (polynomial b 0 sq cs) (case_prod f)) Q"
proof -
  have eq: "Option.bind (polynomial b 0 sq cs) (case_prod f) = Option.bind (float_constant b 0 (last cs))
      (case_prod (\<lambda>b' v. Option.bind (fold_opt (horner_step 0 sq) (rev (butlast cs)) (b', v)) (case_prod f)))"
    by (cases "float_constant b 0 (last cs)") (auto simp: polynomial_def)
  show ?thesis
    unfolding eq
  proof (rule constant_bind [OF m])
    fix b' assume b': "models fl tr x b' (Suc n) (\<rho>(n := K_float (last cs)))"
    show "wp (Option.bind (fold_opt (horner_step 0 sq) (rev (butlast cs)) (b', word_of_nat n))
        (case_prod f)) Q"
    proof (rule value_bind [OF horner_loop.rounds [OF b',
            where X = "last cs" and S = "flt (\<rho> (unat sq))"]])
      show "holds (Suc n) (\<rho>(n := K_float (last cs))) sq (flt (\<rho> (unat sq)))"
        using side holds_flt [of sq "Suc n" "\<rho>(n := K_float (last cs))"] by simp
      show "holds (Suc n) (\<rho>(n := K_float (last cs))) (word_of_nat n) (last cs)"
        using side by (simp add: holds_def unat_of_nat_u32)
    qed (use side in \<open>auto simp: horner_def intro!: Q\<close>)
  qed (use side in simp)
qed

lemma square_bind:
  assumes "models fl tr x b n \<rho>"
    "k \<le> 7 \<and> n + 7 < 4294967296 \<and> latest n v \<and> unat v < n \<and> is_float (\<rho> (unat v))"
    "\<And>b' m \<rho>' v' V. models fl tr x b' m \<rho>' \<Longrightarrow> n \<le> m \<Longrightarrow> m \<le> n + 7 \<Longrightarrow>
      \<forall>i < n. \<rho>' i = \<rho> i \<Longrightarrow> unat v' < m \<Longrightarrow> \<rho>' (unat v') = K_float V \<Longrightarrow>
      latest m v' \<Longrightarrow>
      is_val V (((\<lambda>powered. f_mul fl powered powered) ^^ k) (flt (\<rho> (unat v)))) \<Longrightarrow> wp (f b' v') Q"
  shows "wp (Option.bind (repeat k (\<lambda>(body, value). float_bin body 0 Mul value value) (b, v))
    (case_prod f)) Q"
  unfolding repeat_def
proof (rule value_bind [OF square_loop.rounds [OF assms(1), where X = "flt (\<rho> (unat v))"]])
  show "holds n \<rho> v (flt (\<rho> (unat v)))" using assms(2) by (intro holds_flt) blast+
qed (use assms(2) in \<open>auto simp: fold_const intro!: assms(3)\<close>)

lemma body_start:
  assumes "\<And>b n \<rho>. models fl tr x b n \<rho> \<Longrightarrow> 0 < n \<Longrightarrow> n \<le> 1 \<Longrightarrow> \<rho> 0 = K_float x \<Longrightarrow> wp (f b 0 0) Q"
  shows "wp (let (body, entry) = add_block body_new
    in Option.bind (add_param body entry) (case_prod (\<lambda>b. f b entry))) Q"
proof -
  from models_start obtain b where b: "add_param (fst (add_block body_new)) (snd (add_block body_new)) =
      Some (b, 0)" and m: "models fl tr x b 1 (\<lambda>_. K_float x)" by blast
  have "snd (add_block body_new) = 0" by (simp add: add_block_def body_new_def)
  with b assms [OF m] show ?thesis by (simp add: case_prod_beta Let_def)
qed

lemmas body_rules = builder_rules rescale_bind ln_bind newton_bind polynomial_bind square_bind

section \<open>The bodies\<close>

text \<open>What bounds the number of instructions.\<close>

lemmas body_bounds = HALVINGS_def COEFFICIENTS_def COARSE_STEPS_def FINE_STEPS_def NEWTON_STEPS_def
  SINE_COEFFICIENTS_def COSINE_COEFFICIENTS_def LN_COEFFICIENTS_def LN_COARSE_STEPS_def
  LN_FINE_STEPS_def LN_UNIT_STEPS_def

lemma exp_body_evaluates: "wp exp_body (\<lambda>body. evaluates fl tr x body (exp_value fl x))"
  unfolding exp_body_def float_bin_def [symmetric]
  apply (rule body_start [where fl = fl and tr = tr and x = x])
  apply (erule body_rules, (simp (no_asm_simp) add: builder_simps del: of_nat_Suc; fail))
  apply (erule compare_bind, (simp (no_asm_simp) add: builder_simps del: of_nat_Suc; fail))
  apply (erule wrap_bind, (simp (no_asm_simp) add: builder_simps del: of_nat_Suc; fail))
  apply (erule body_rules, (simp (no_asm_simp) add: builder_simps body_bounds del: of_nat_Suc; fail))+
  apply (erule set_terminator_wp [where v = "exp_value fl x"])
    apply (simp (no_asm_simp) add: builder_simps body_bounds del: of_nat_Suc)
   apply (simp add: is_val_def builder_simps exp_value_def horner_def Let_def cong: if_cong del: of_nat_Suc)
  apply assumption
  done


definition mul_commutes :: "f32_ops \<Rightarrow> bool" where
  "mul_commutes fl \<longleftrightarrow> (\<forall>a b. f_mul fl a b = f_mul fl b a)"

lemma sqrt_body_evaluates:
  assumes "mul_commutes fl"
  shows "wp sqrt_body (\<lambda>body. evaluates fl tr x body (sqrt_value fl x))"
proof -
  have half: "(\<lambda>root. f_mul fl (f_add fl root (f_div fl R root)) F_half) =
      (\<lambda>root. f_mul fl F_half (f_add fl root (f_div fl R root)))" for R
    using assms by (auto simp: mul_commutes_def)
  show ?thesis
    unfolding sqrt_body_def
    apply (rule body_start [where fl = fl and tr = tr and x = x])
    apply (erule body_rules, (simp (no_asm_simp) add: builder_simps body_bounds del: of_nat_Suc; fail))+
    apply (erule set_terminator_wp [where v = "sqrt_value fl x"])
      apply (simp (no_asm_simp) add: builder_simps body_bounds del: of_nat_Suc)
     apply (simp add: is_val_def builder_simps sqrt_value_def half Let_def cong: if_cong del: of_nat_Suc)
    apply assumption
    done
qed

section \<open>The instructions only some bodies use\<close>

fun ival :: "kval \<Rightarrow> u64" where
  "ival (K_int a) = a"
| "ival (K_float a) = ucast a"

lemma to_int_bind:
  assumes "models fl tr x b n \<rho>" "Suc n < 4294967296 \<and> unat i < n \<and> is_float (\<rho> (unat i))"
    "\<And>b' w. models fl tr x b' (Suc n) (\<rho>(n := K_int w)) \<Longrightarrow> is_val w (f_to_int fl (flt (\<rho> (unat i)))) \<Longrightarrow>
      wp (f b' (word_of_nat n)) Q"
  shows "wp (Option.bind (add_op b 0 (Conv Float_class Int_class) [i] [Int_class]) (case_prod f)) Q"
  by (rule add_op_bind [OF assms(1), where v = "K_int (f_to_int fl (flt (\<rho> (unat i))))"])
    (use assms(2,3) in \<open>auto simp: reaches_memory_def eval_op_simps is_float_conv\<close>)

lemma of_int_bind:
  assumes "models fl tr x b n \<rho>" "Suc n < 4294967296 \<and> unat i < n \<and> \<not> is_float (\<rho> (unat i))"
    "\<And>b' w. models fl tr x b' (Suc n) (\<rho>(n := K_float w)) \<Longrightarrow> is_val w (f_of_int fl (ival (\<rho> (unat i)))) \<Longrightarrow>
      wp (f b' (word_of_nat n)) Q"
  shows "wp (Option.bind (add_op b 0 (Conv Int_class Float_class) [i] [Float_class]) (case_prod f)) Q"
proof -
  from assms(2) have "eval_op fl tr (Conv Int_class Float_class) (map (\<lambda>a. \<rho> (unat a)) [i]) =
      Some (K_float (f_of_int fl (ival (\<rho> (unat i)))))"
    by (cases "\<rho> (unat i)") (auto simp: eval_op_simps)
  show ?thesis
    by (rule add_op_bind [OF assms(1) _ _ _ \<open>eval_op fl tr _ _ = _\<close>])
      (use assms(2,3) in \<open>auto simp: reaches_memory_def\<close>)
qed

lemma fma_bind:
  assumes "models fl tr x b n \<rho>"
    "Suc n < 4294967296 \<and> unat i < n \<and> unat j < n \<and> unat k < n \<and> is_float (\<rho> (unat i)) \<and>
     is_float (\<rho> (unat j)) \<and> is_float (\<rho> (unat k))"
    "\<And>b' w. models fl tr x b' (Suc n) (\<rho>(n := K_float w)) \<Longrightarrow>
      is_val w (f_fma fl (flt (\<rho> (unat i))) (flt (\<rho> (unat j))) (flt (\<rho> (unat k)))) \<Longrightarrow>
      wp (f b' (word_of_nat n)) Q"
  shows "wp (Option.bind (add_op b 0 Fma [i, j, k] [Float_class]) (case_prod f)) Q"
  by (rule add_op_bind [OF assms(1), where v = "K_float (f_fma fl (flt (\<rho> (unat i)))
        (flt (\<rho> (unat j))) (flt (\<rho> (unat k))))"])
    (use assms(2,3) in \<open>auto simp: reaches_memory_def eval_op_simps is_float_conv\<close>)

lemma negate_bind:
  assumes "models fl tr x b n \<rho>" "Suc n < 4294967296 \<and> unat i < n \<and> is_float (\<rho> (unat i))"
    "\<And>b' w. models fl tr x b' (Suc n) (\<rho>(n := K_float w)) \<Longrightarrow> is_val w (f_neg fl (flt (\<rho> (unat i)))) \<Longrightarrow>
      wp (f b' (word_of_nat n)) Q"
  shows "wp (Option.bind (add_op b 0 Negate [i] [Float_class]) (case_prod f)) Q"
  by (rule add_op_bind [OF assms(1), where v = "K_float (f_neg fl (flt (\<rho> (unat i))))"])
    (use assms(2,3) in \<open>auto simp: reaches_memory_def eval_op_simps is_float_conv\<close>)

lemma bind_case_assoc:
  "Option.bind (Option.bind m (case_prod f)) g = Option.bind m (case_prod (\<lambda>b i. Option.bind (f b i) g))"
  by (cases m) auto

section \<open>Floor and logarithm\<close>

text \<open>What \<open>floor_body\<close> computes: the operations it emits, in its own order.\<close>

definition floor_emitted :: "f32_ops \<Rightarrow> f32 \<Rightarrow> f32" where
  "floor_emitted fl x =
     (let magnitude = if f_lt fl x F0 then f_sub fl F0 x else x;
          convertible = if f_lt fl magnitude RESOLUTION then magnitude else F0;
          integral = f_of_int fl (f_to_int fl convertible);
          lowered = if f_lt fl F0 (f_sub fl magnitude integral) then f_add fl integral F1 else integral
      in if f_lt fl x F0 then f_sub fl F0 lowered else integral)"

lemma floor_body_evaluates: "wp floor_body (\<lambda>body. evaluates fl tr x body (floor_emitted fl x))"
  unfolding floor_body_def
  apply (rule body_start [where fl = fl and tr = tr and x = x])
  apply (erule body_rules to_int_bind of_int_bind,
      (simp (no_asm_simp) add: builder_simps del: of_nat_Suc; fail))+
  apply (erule set_terminator_wp [where v = "floor_emitted fl x"])
    apply (simp (no_asm_simp) add: builder_simps del: of_nat_Suc)
   apply (simp add: is_val_def builder_simps floor_emitted_def Let_def cong: if_cong del: of_nat_Suc)
  apply assumption
  done

lemma ln_body_evaluates:
  assumes mul: "mul_commutes fl" and sub: "\<And>t. f_sub fl t F32 = f_add fl t F_neg_32"
  shows "wp ln_body (\<lambda>body. evaluates fl tr x body (ln_value fl x))"
proof -
  have two: "f_mul fl a F2 = f_mul fl F2 a" for a using mul by (simp add: mul_commutes_def)
  show ?thesis
    unfolding ln_body_def compensated_quotient_def bind_case_assoc
    apply (rule body_start [where fl = fl and tr = tr and x = x])
    apply (erule body_rules fma_bind negate_bind,
        (simp (no_asm_simp) add: builder_simps body_bounds del: of_nat_Suc; fail))+
    apply (erule set_terminator_wp [where v = "ln_value fl x"])
      apply (simp (no_asm_simp) add: builder_simps body_bounds del: of_nat_Suc)
     apply (cases "f_lt fl F0 x")
      apply (simp add: is_val_def builder_simps ln_value_def ln_reduce_value_def horner_def sub two Let_def
        cong: if_cong del: of_nat_Suc)
     apply (simp add: is_val_def builder_simps ln_value_def cong: if_cong del: of_nat_Suc)
    apply assumption
    done
qed

section \<open>Sine and cosine\<close>

text \<open>What the angle reduction and the two bodies compute, in the order they emit it.\<close>

definition reduce_angle_emitted :: "f32_ops \<Rightarrow> f32 \<Rightarrow> f32 \<times> f32" where
  "reduce_angle_emitted fl x =
     (let magnitude = if f_lt fl x F0 then f_sub fl F0 x else x;
          magnitude = if f_leq fl magnitude ANGLE_LIMIT then magnitude else ANGLE_LIMIT;
          quadrants = f_of_int fl (f_to_int fl
            (f_add fl (f_mul fl magnitude INVERSE_TWO_PI) F_half));
          whole = f_of_int fl (f_to_int fl (f_mul fl quadrants ONE_QUARTER));
          residue = f_sub fl quadrants (f_mul fl whole F4);
          r = f_sub fl (f_sub fl magnitude (f_mul fl quadrants HALF_PI_HEAD))
            (f_mul fl quadrants HALF_PI_TAIL)
      in (r, residue))"

definition quadrant_emitted :: "f32_ops \<Rightarrow> f32 \<Rightarrow> f32 \<Rightarrow> f32 \<Rightarrow> f32 \<Rightarrow> f32 \<Rightarrow> f32" where
  "quadrant_emitted fl m first second third fourth =
     (if f_eq fl m F3 then fourth else if f_eq fl m F2 then third
      else if f_eq fl m F1 then second else first)"

definition sin_emitted :: "f32_ops \<Rightarrow> f32 \<Rightarrow> f32" where
  "sin_emitted fl x =
     (let (r, m) = reduce_angle_emitted fl x;
          square = f_mul fl r r;
          c = horner fl COSINE_COEFFICIENTS square;
          s = f_mul fl r (horner fl SINE_COEFFICIENTS square);
          answer = quadrant_emitted fl m s c (f_sub fl F0 s) (f_sub fl F0 c)
      in if f_lt fl x F0 then f_sub fl F0 answer else answer)"

definition cos_emitted :: "f32_ops \<Rightarrow> f32 \<Rightarrow> f32" where
  "cos_emitted fl x =
     (let (r, m) = reduce_angle_emitted fl x;
          square = f_mul fl r r;
          c = horner fl COSINE_COEFFICIENTS square;
          s = f_mul fl r (horner fl SINE_COEFFICIENTS square)
      in quadrant_emitted fl m c (f_sub fl F0 s) (f_sub fl F0 c) s)"

lemma reduce_angle_wp:
  assumes "models fl tr x b n \<rho>" "n + 40 < 4294967296" "unat i < n" "\<rho> (unat i) = K_float X"
  shows "wp (reduce_angle b 0 i) (\<lambda>(b', v', t'). \<exists>m \<rho>'. models fl tr x b' m \<rho>' \<and> grown n \<rho> m \<rho>' \<and>
    m \<le> n + 40 \<and> holds m \<rho>' v' (fst (reduce_angle_emitted fl X)) \<and>
    holds m \<rho>' t' (snd (reduce_angle_emitted fl X)))"
  using assms
  unfolding reduce_angle_def holds_def
  apply -
  apply (erule body_rules, (simp (no_asm_simp) add: builder_simps del: of_nat_Suc; fail))+
  apply (simp only: wp_Some prod.case)
  apply (intro exI conjI, assumption)
  apply (simp_all (no_asm_simp) add: grown_def builder_simps del: of_nat_Suc)
  apply (simp_all add: is_val_def builder_simps reduce_angle_emitted_def Let_def cong: if_cong del: of_nat_Suc)
  done

lemma reduce_angle_bind:
  assumes "models fl tr x b n \<rho>" "n + 40 < 4294967296 \<and> unat i < n \<and> is_float (\<rho> (unat i))"
    "\<And>b' m \<rho>' v' t' R M. models fl tr x b' m \<rho>' \<Longrightarrow> n \<le> m \<Longrightarrow> m \<le> n + 40 \<Longrightarrow>
      \<forall>i < n. \<rho>' i = \<rho> i \<Longrightarrow> unat v' < m \<Longrightarrow> \<rho>' (unat v') = K_float R \<Longrightarrow>
      unat t' < m \<Longrightarrow> \<rho>' (unat t') = K_float M \<Longrightarrow>
      is_val (reduce_angle_emitted fl (flt (\<rho> (unat i)))) (R, M) \<Longrightarrow> wp (f b' v' t') Q"
  shows "wp (Option.bind (reduce_angle b 0 i) (case_prod (\<lambda>b'. case_prod (f b')))) Q"
proof -
  from assms(2) obtain X where X: "\<rho> (unat i) = K_float X" by (auto simp: is_float_conv)
  show ?thesis
    by (rule pair_bind [OF reduce_angle_wp [OF assms(1) _ _ X]])
      (use assms(2) X in \<open>simp_all\<close>, rule assms(3), assumption+, simp add: is_val_def)
qed

lemma some_bind:
  "wp (f b z s c ns nc) Q \<Longrightarrow> wp (Option.bind (Some (b, z, s, c, ns, nc))
     (\<lambda>(b, z, s, c, ns, nc). f b z s c ns nc)) Q"
  by simp

lemma cos_body_evaluates: "wp cos_body (\<lambda>body. evaluates fl tr x body (cos_emitted fl x))"
  unfolding cos_body_def angle_series_def quadrant_def bind_case_assoc
  apply (rule body_start [where fl = fl and tr = tr and x = x])
  apply (erule body_rules reduce_angle_bind,
      (simp (no_asm_simp) add: builder_simps body_bounds del: of_nat_Suc; fail))+
  apply (rule some_bind)
  apply (erule body_rules reduce_angle_bind,
      (simp (no_asm_simp) add: builder_simps body_bounds del: of_nat_Suc; fail))+
  apply (erule set_terminator_wp [where v = "cos_emitted fl x"])
    apply (simp (no_asm_simp) add: builder_simps body_bounds del: of_nat_Suc)
   apply (simp add: is_val_def builder_simps cos_emitted_def quadrant_emitted_def Let_def cong: if_cong
      del: of_nat_Suc)
  apply assumption
  done

lemma sin_body_evaluates: "wp sin_body (\<lambda>body. evaluates fl tr x body (sin_emitted fl x))"
  unfolding sin_body_def angle_series_def quadrant_def bind_case_assoc
  apply (rule body_start [where fl = fl and tr = tr and x = x])
  apply (erule body_rules reduce_angle_bind,
      (simp (no_asm_simp) add: builder_simps body_bounds del: of_nat_Suc; fail))+
  apply (rule some_bind)
  apply (erule body_rules reduce_angle_bind,
      (simp (no_asm_simp) add: builder_simps body_bounds del: of_nat_Suc; fail))+
  apply (erule set_terminator_wp [where v = "sin_emitted fl x"])
    apply (simp (no_asm_simp) add: builder_simps body_bounds del: of_nat_Suc)
   apply (simp add: is_val_def builder_simps sin_emitted_def quadrant_emitted_def Let_def cong: if_cong
      del: of_nat_Suc)
  apply assumption
  done

section \<open>The bodies compute what the host computes\<close>

text \<open>
  \<open>computes fl build f\<close>: \<open>build\<close> makes a body, and running it on any argument, in any memory and
  with any meaning of the other transcendentals, returns the one value \<open>f\<close> gives.
\<close>

definition computes_at :: "f32_ops \<Rightarrow> kernel_body option \<Rightarrow> f32 \<Rightarrow> f32 \<Rightarrow> bool" where
  "computes_at fl build x v \<longleftrightarrow>
     (\<exists>body. build = Some body \<and>
       (\<forall>tr. \<forall>mem :: nat mem. \<forall>s. run_straight fl tr mem body [K_float x] s = Some ([K_float v], s)))"

lemma computes_atI:
  assumes "\<And>tr. wp build (\<lambda>body. evaluates fl tr x body v)"
  shows "computes_at fl build x v"
proof -
  obtain body where "build = Some body" using assms [of undefined] by (cases build) (auto simp: wp_def)
  moreover then have "evaluates fl tr x body v" for tr using assms [of tr] by simp
  ultimately show ?thesis by (auto simp: computes_at_def intro: evaluates_run)
qed

text \<open>The laws of the arithmetic that a body's order of operations leans on.\<close>

definition negates :: "f32_ops \<Rightarrow> f32 \<Rightarrow> bool" where
  "negates fl a \<longleftrightarrow> f_sub fl F0 a = f_neg fl a"

definition subtracts_32 :: "f32_ops \<Rightarrow> bool" where
  "subtracts_32 fl \<longleftrightarrow> (\<forall>t. f_sub fl t F32 = f_add fl t F_neg_32)"

text \<open>The four quadrants compare and convert as the integers they are.\<close>

definition quadrants_exact :: "f32_ops \<Rightarrow> bool" where
  "quadrants_exact fl \<longleftrightarrow>
     (\<forall>(a, i) \<in> set [(F0, 0), (F1, 1), (F2, 2), (F3, 3)]. f_to_int fl a = i \<and>
       (\<forall>(b, j) \<in> set [(F1, 1), (F2, 2), (F3, 3)]. f_eq fl a b \<longleftrightarrow> i = (j :: u64)))"

definition magnitude_of :: "f32_ops \<Rightarrow> f32 \<Rightarrow> f32" where
  "magnitude_of fl x = (if f_lt fl x F0 then f_neg fl x else x)"

lemma reduce_angle_emitted_value:
  assumes "f_lt fl x F0 \<longrightarrow> negates fl x"
  shows "reduce_angle_emitted fl x = reduce_angle_value fl x"
  using assms by (simp add: reduce_angle_emitted_def reduce_angle_value_def Let_def negates_def)

text \<open>An instance of the arithmetic that has the laws: sign and magnitude, no exponent.\<close>

definition sm_value :: "f32 \<Rightarrow> int" where
  "sm_value w = (if bit w 31 then - uint (take_bit 31 w) else uint w)"

definition sm_word :: "int \<Rightarrow> f32" where
  "sm_word i = (if i < 0 then or (set_bit 31 0) (take_bit 31 (word_of_int (- i)))
     else take_bit 31 (word_of_int i))"

definition sm_ops :: f32_ops where
  "sm_ops = \<lparr>f_add = \<lambda>a b. sm_word (sm_value a + sm_value b),
     f_sub = \<lambda>a b. sm_word (sm_value a - sm_value b),
     f_mul = \<lambda>a b. sm_word (sm_value a * sm_value b),
     f_div = \<lambda>a b. sm_word (sm_value a div sm_value b),
     f_neg = \<lambda>a. sm_word (- sm_value a),
     f_fma = \<lambda>a b c. sm_word (sm_value a * sm_value b + sm_value c),
     f_lt = \<lambda>a b. sm_value a < sm_value b,
     f_leq = \<lambda>a b. sm_value a \<le> sm_value b,
     f_eq = \<lambda>a b. sm_value a = sm_value b,
     f_of_int = \<lambda>n. if n = 0 then F0 else if n = 1 then F1 else if n = 2 then F2 else F3,
     f_to_int = \<lambda>a. if a = F1 then 1 else if a = F2 then 2 else if a = F3 then 3 else 0\<rparr>"

lemma sm_laws:
  "mul_commutes sm_ops" "subtracts_32 sm_ops" "negates sm_ops a"
  by (simp_all add: mul_commutes_def subtracts_32_def negates_def sm_ops_def mult.commute
      F32_def F_neg_32_def F0_def sm_value_def)

lemma sm_quadrants: "quadrants_exact sm_ops"
  by (simp add: quadrants_exact_def sm_ops_def F0_def F1_def F2_def F3_def sm_value_def)

text \<open>
  C33: the instructions \<open>exp_body\<close> emits, run on an argument, return the bits \<open>exp_value\<close> returns,
  whatever the arithmetic: the two are one sequence of operations.
\<close>

theorem exp_body_is_exp_value: "computes_at fl exp_body x (exp_value fl x)"
  by (rule computes_atI) (rule exp_body_evaluates)

text \<open>
  C31: the instructions \<open>sqrt_body\<close> emits return what \<open>sqrt_value\<close> returns, in any arithmetic whose
  multiplication commutes; they multiply by a half on the other side.
\<close>

theorem sqrt_body_is_sqrt_value:
  assumes "mul_commutes fl"
  shows "computes_at fl sqrt_body x (sqrt_value fl x)"
  by (rule computes_atI) (rule sqrt_body_evaluates [OF assms])

theorem sqrt_body_is_sqrt_value_witness:
  "computes_at sm_ops sqrt_body F4 (sqrt_value sm_ops F4)"
  by (rule sqrt_body_is_sqrt_value) (rule sm_laws)

text \<open>
  C32: the instructions \<open>ln_body\<close> emits return what \<open>ln_value\<close> returns, in any arithmetic whose
  multiplication commutes and where subtracting 32 is adding its negation.
\<close>

theorem ln_body_is_ln_value:
  assumes "mul_commutes fl" "subtracts_32 fl"
  shows "computes_at fl ln_body x (ln_value fl x)"
  by (rule computes_atI, rule ln_body_evaluates) (use assms in \<open>auto simp: subtracts_32_def\<close>)

theorem ln_body_is_ln_value_witness:
  "computes_at sm_ops ln_body F4 (ln_value sm_ops F4)"
  by (rule ln_body_is_ln_value) (rule sm_laws)+

definition floor_magnitude :: "f32_ops \<Rightarrow> f32 \<Rightarrow> f32" where
  "floor_magnitude fl a =
     (let integral = f_of_int fl (f_to_int fl a)
      in if f_lt fl F0 (f_sub fl a integral) then f_add fl integral F1 else integral)"

text \<open>
  C32: below two to the twenty-four in magnitude the instructions \<open>floor_body\<close> emits return what
  \<open>floor_value\<close> returns, where subtracting a negative operand and the magnitude of its floor
  from zero negates them.
\<close>

theorem floor_body_in_range:
  assumes "f_lt fl (magnitude_of fl x) RESOLUTION"
    and "f_lt fl x F0 \<longrightarrow> negates fl x \<and> negates fl (floor_magnitude fl (f_neg fl x))"
  shows "computes_at fl floor_body x (floor_value fl x)"
proof (rule computes_atI)
  have "floor_emitted fl x = floor_value fl x"
    using assms by (cases "f_lt fl x F0")
      (auto simp: floor_emitted_def floor_value_def magnitude_of_def floor_magnitude_def
        negates_def Let_def)
  then show "wp floor_body (\<lambda>body. evaluates fl tr x body (floor_value fl x))" for tr
    using floor_body_evaluates [of fl tr x] by simp
qed

theorem floor_body_in_range_witness:
  "computes_at sm_ops floor_body 0x80000003 (floor_value sm_ops 0x80000003)"
  by (rule floor_body_in_range)
    (simp_all add: sm_laws, simp add: magnitude_of_def sm_ops_def sm_value_def sm_word_def F0_def
      RESOLUTION_def)

text \<open>
  C37: at and above two to the twenty-four the two disagree. The body hands its conversion zero
  instead of the operand and never selects the operand back, so a non-negative operand
  out of range (and one that compares with nothing) floors to the float of integer zero,
  while \<open>floor_value\<close> returns the operand.
\<close>

theorem floor_body_out_of_range:
  assumes "\<not> f_lt fl x F0" and "\<not> f_lt fl x RESOLUTION"
  shows "computes_at fl floor_body x (f_of_int fl (f_to_int fl F0)) \<and> floor_value fl x = x"
proof
  have "floor_emitted fl x = f_of_int fl (f_to_int fl F0)"
    using assms by (simp add: floor_emitted_def Let_def)
  then show "computes_at fl floor_body x (f_of_int fl (f_to_int fl F0))"
    using floor_body_evaluates [of fl _ x] by (intro computes_atI) simp
  show "floor_value fl x = x" using assms by (simp add: floor_value_def Let_def)
qed

theorem floor_body_out_of_range_witness:
  "computes_at sm_ops floor_body 0x4C000000 F0 \<and> floor_value sm_ops 0x4C000000 = 0x4C000000"
  using floor_body_out_of_range [where fl = sm_ops and x = "0x4C000000"]
  by (simp add: sm_ops_def sm_value_def F0_def F1_def F2_def F3_def RESOLUTION_def)

definition angle_values :: "f32_ops \<Rightarrow> f32 \<Rightarrow> f32 set" where
  "angle_values fl x =
     (let (r, m) = reduce_angle_value fl x; square = f_mul fl r r;
          s = f_mul fl r (horner fl SINE_COEFFICIENTS square);
          c = horner fl COSINE_COEFFICIENTS square
      in {s, c, f_neg fl s, f_neg fl c})"

definition angle_laws :: "f32_ops \<Rightarrow> f32 \<Rightarrow> bool" where
  "angle_laws fl x \<longleftrightarrow> quadrants_exact fl \<and> snd (reduce_angle_value fl x) \<in> {F0, F1, F2, F3} \<and>
     (f_lt fl x F0 \<longrightarrow> negates fl x) \<and> (\<forall>a \<in> angle_values fl x. negates fl a)"

lemma sin_emitted_value:
  assumes "angle_laws fl x"
  shows "sin_emitted fl x = sin_value fl x"
proof -
  obtain r m where rm: "reduce_angle_value fl x = (r, m)" by (cases "reduce_angle_value fl x")
  have "reduce_angle_emitted fl x = (r, m)"
    using assms reduce_angle_emitted_value [of fl x] rm by (simp add: angle_laws_def)
  with assms rm show ?thesis
    by (auto simp: angle_laws_def angle_values_def quadrants_exact_def sin_emitted_def sin_value_def
        sin_cos_value_def quadrant_emitted_def negates_def Let_def)
qed

lemma cos_emitted_value:
  assumes "angle_laws fl x"
  shows "cos_emitted fl x = cos_value fl x"
proof -
  obtain r m where rm: "reduce_angle_value fl x = (r, m)" by (cases "reduce_angle_value fl x")
  have "reduce_angle_emitted fl x = (r, m)"
    using assms reduce_angle_emitted_value [of fl x] rm by (simp add: angle_laws_def)
  with assms rm show ?thesis
    by (auto simp: angle_laws_def angle_values_def quadrants_exact_def cos_emitted_def cos_value_def
        sin_cos_value_def quadrant_emitted_def negates_def Let_def)
qed

lemma sm_value_zero [simp]: "sm_value F0 = 0"
  by (simp add: sm_value_def F0_def)

lemma sm_word_zero [simp]: "sm_word 0 = F0"
  by (simp add: sm_word_def F0_def)

lemma sm_ops_zero [simp]:
  "f_mul sm_ops F0 b = F0" "f_sub sm_ops F0 F0 = F0" "\<not> f_lt sm_ops F0 F0" "f_of_int sm_ops 0 = F0"
  by (simp_all add: sm_ops_def)

lemma sm_ops_angle [simp]:
  "f_leq sm_ops F0 ANGLE_LIMIT" "f_to_int sm_ops F0 = 0" "f_to_int sm_ops (f_add sm_ops F0 F_half) = 0"
  by (simp_all add: sm_ops_def F0_def F1_def F2_def F3_def ANGLE_LIMIT_def sm_value_def sm_word_def
      F_half_def)

lemma sm_angle_laws: "angle_laws sm_ops F0"
proof -
  have "reduce_angle_value sm_ops F0 = (F0, F0)"
    by (simp add: reduce_angle_value_def Let_def)
  then show ?thesis by (simp add: angle_laws_def sm_quadrants sm_laws)
qed

text \<open>
  C31: the instructions \<open>sin_body\<close> emits return what \<open>sin_value\<close> returns, where the reduced angle's
  quadrant is one of the four integers, these compare and convert exactly, and subtracting
  from zero negates the operand, the two series and the answer.
\<close>

theorem sin_body_is_sin_value:
  assumes "angle_laws fl x"
  shows "computes_at fl sin_body x (sin_value fl x)"
  using sin_body_evaluates [of fl _ x] by (intro computes_atI) (simp add: sin_emitted_value [OF assms])

theorem sin_body_is_sin_value_witness: "computes_at sm_ops sin_body F0 (sin_value sm_ops F0)"
  by (rule sin_body_is_sin_value) (rule sm_angle_laws)

text \<open>
  C34: the instructions \<open>cos_body\<close> emits return what \<open>cos_value\<close> returns, under the same laws.
\<close>

theorem cos_body_is_cos_value:
  assumes "angle_laws fl x"
  shows "computes_at fl cos_body x (cos_value fl x)"
  using cos_body_evaluates [of fl _ x] by (intro computes_atI) (simp add: cos_emitted_value [OF assms])

theorem cos_body_is_cos_value_witness: "computes_at sm_ops cos_body F0 (cos_value sm_ops F0)"
  by (rule cos_body_is_cos_value) (rule sm_angle_laws)

end
