(* ===== verification/Body_Flow.thy ===== *)
theory Body_Flow
  imports Kernel_Body
begin

text \<open>
  The control flow of a body (\<open>lichen-kernel-ir/src/body.rs\<close>): which blocks the entry reaches and
  which block every path to another passes through, as \<open>KernelBody::dominance\<close> computes them, and
  the readers over them: the blocks no lane can skip, the site of a definition, and the cones of
  values a value depends on.
\<close>

section \<open>Reachability and dominators\<close>

record dominance =
  dm_reachable :: "bool list"
  dm_dominators :: "bool list list"

definition dominates :: "dominance \<Rightarrow> nat \<Rightarrow> nat \<Rightarrow> bool" where
  "dominates d block candidate =
     (case Option.bind (nth_opt (dm_dominators d) block) (\<lambda>set. nth_opt set candidate) of
        None \<Rightarrow> False | Some b \<Rightarrow> b)"

definition successors :: "kernel_body \<Rightarrow> nat list list" where
  "successors body =
     map (\<lambda>block. List.filter (\<lambda>t. t < length (kb_blocks body)) (map br_target (branches block)))
       (kb_blocks body)"

lemma unmarked_less:
  assumes "b < length r" "\<not> r ! b"
  shows "card {i. i < length r \<and> \<not> r[b := True] ! i} < card {i. i < length r \<and> \<not> r ! i}"
proof (rule psubset_card_mono)
  show "{i. i < length r \<and> \<not> r[b := True] ! i} \<subset> {i. i < length r \<and> \<not> r ! i}"
    using assms by (auto simp: nth_list_update split: if_splits)
qed simp

text \<open>The stack's top is the head of the list; a block outside the table is a panic.\<close>

function reach_loop :: "nat list list \<Rightarrow> bool list \<Rightarrow> nat list \<Rightarrow> bool list option" where
  "reach_loop succs reachable [] = Some reachable"
| "reach_loop succs reachable (block # stack) =
     (if length reachable \<le> block then None
      else if reachable ! block then reach_loop succs reachable stack
      else (case nth_opt succs block of
          None \<Rightarrow> None
        | Some targets \<Rightarrow> reach_loop succs (reachable[block := True]) (rev targets @ stack)))"
  by pat_completeness auto

termination
  by (relation "measures [\<lambda>(succs, r, stack). card {i. i < length r \<and> \<not> r ! i},
      \<lambda>(succs, r, stack). length stack]") (auto simp: unmarked_less)

definition predecessors :: "nat list list \<Rightarrow> bool list \<Rightarrow> nat list list" where
  "predecessors succs reachable =
     fold (\<lambda>(index, targets) preds.
         if reachable ! index
         then fold (\<lambda>target preds. preds[target := preds ! target @ [index]]) targets preds
         else preds)
       (enumerate 0 succs) (replicate (length succs) [])"

definition dom_start :: "nat \<Rightarrow> bool list \<Rightarrow> bool list list" where
  "dom_start entry reachable =
     (map (\<lambda>block. if block \<noteq> entry \<and> reachable ! block then reachable[block := True]
          else replicate (length reachable) False) [0..<length reachable])
       [entry := (replicate (length reachable) False)[entry := True]]"

definition dom_next :: "nat list list \<Rightarrow> bool list list \<Rightarrow> nat \<Rightarrow> bool list" where
  "dom_next preds doms block =
     (fold (\<lambda>predecessor next. map2 (\<and>) next (doms ! predecessor)) (preds ! block)
        (replicate (length doms) True))[block := True]"

definition dom_step ::
  "nat \<Rightarrow> bool list \<Rightarrow> nat list list \<Rightarrow> nat \<Rightarrow> bool list list \<times> bool \<Rightarrow> bool list list \<times> bool" where
  "dom_step entry reachable preds block = (\<lambda>(doms, changed).
     if block = entry \<or> \<not> reachable ! block then (doms, changed)
     else (let next = dom_next preds doms block
       in if next \<noteq> doms ! block then (doms[block := next], True) else (doms, changed)))"

partial_function (option) dom_loop ::
  "nat \<Rightarrow> bool list \<Rightarrow> nat list list \<Rightarrow> bool list list \<Rightarrow> bool list list option" where
  "dom_loop entry reachable preds doms =
     (let (doms', changed) = fold (dom_step entry reachable preds) [0..<length doms] (doms, False)
      in if changed then dom_loop entry reachable preds doms' else Some doms')"

declare dom_loop.simps [code]

definition body_dominance :: "kernel_body \<Rightarrow> dominance option" where
  "body_dominance body =
     (let succs = successors body; count = length (kb_blocks body) in
      Option.bind (reach_loop succs (replicate count False) [kb_entry body]) (\<lambda>reachable.
      Option.bind (dom_loop (kb_entry body) reachable (predecessors succs reachable)
          (dom_start (kb_entry body) reachable)) (\<lambda>dominators.
        Some \<lparr>dm_reachable = reachable, dm_dominators = dominators\<rparr>)))"

text \<open>The specification: walks from the entry along the branches, as lists of blocks.\<close>

definition cfg_edge :: "kernel_body \<Rightarrow> nat \<Rightarrow> nat \<Rightarrow> bool" where
  "cfg_edge body a b \<longleftrightarrow> a < length (kb_blocks body) \<and> b < length (kb_blocks body) \<and>
     b \<in> br_target ` set (branches (kb_blocks body ! a))"

inductive cfg_walk :: "kernel_body \<Rightarrow> nat list \<Rightarrow> bool" for body where
  walk_start: "kb_entry body < length (kb_blocks body) \<Longrightarrow> cfg_walk body [kb_entry body]"
| walk_step: "cfg_walk body xs \<Longrightarrow> cfg_edge body (last xs) b \<Longrightarrow> cfg_walk body (xs @ [b])"

definition cfg_reaches :: "kernel_body \<Rightarrow> nat \<Rightarrow> bool" where
  "cfg_reaches body b \<longleftrightarrow> (\<exists>xs. cfg_walk body xs \<and> last xs = b)"

definition always_through :: "kernel_body \<Rightarrow> nat \<Rightarrow> nat \<Rightarrow> bool" where
  "always_through body b c \<longleftrightarrow> (\<forall>xs. cfg_walk body xs \<longrightarrow> last xs = b \<longrightarrow> c \<in> set xs)"

lemma cfg_walk_simps [simp]: "cfg_walk body xs \<Longrightarrow> xs \<noteq> []"
  by (induction rule: cfg_walk.induct) auto

lemma cfg_walk_facts:
  assumes "cfg_walk body xs"
  shows "hd xs = kb_entry body" "set xs \<subseteq> {..<length (kb_blocks body)}"
  using assms by (induction rule: cfg_walk.induct) (auto simp: cfg_edge_def)

lemma cfg_reaches_entry: "kb_entry body < length (kb_blocks body) \<Longrightarrow> cfg_reaches body (kb_entry body)"
  unfolding cfg_reaches_def by (rule exI [of _ "[kb_entry body]"]) (simp add: cfg_walk.intros)

lemma cfg_reaches_step: "cfg_reaches body a \<Longrightarrow> cfg_edge body a b \<Longrightarrow> cfg_reaches body b"
  unfolding cfg_reaches_def using walk_step by fastforce

lemma cfg_reaches_bound: "cfg_reaches body b \<Longrightarrow> b < length (kb_blocks body)"
  unfolding cfg_reaches_def using cfg_walk_facts(2) cfg_walk_simps last_in_set by blast

lemma successors_edge:
  "a < length (kb_blocks body) \<Longrightarrow> b \<in> set (successors body ! a) \<longleftrightarrow> cfg_edge body a b"
  by (auto simp: successors_def cfg_edge_def)

lemma length_successors [simp]: "length (successors body) = length (kb_blocks body)"
  by (simp add: successors_def)

section \<open>The search finds what the entry reaches\<close>

lemma cfg_walk_closed:
  assumes "cfg_walk body xs" "kb_entry body \<in> M" "\<And>a b. a \<in> M \<Longrightarrow> cfg_edge body a b \<Longrightarrow> b \<in> M"
  shows "last xs \<in> M"
  using assms by (induction rule: cfg_walk.induct) auto

lemma reach_loop_correct:
  assumes "length r = length (kb_blocks body)"
    "\<forall>b \<in> set stack. cfg_reaches body b"
    "\<forall>b < length r. r ! b \<longrightarrow> cfg_reaches body b"
    "\<forall>a b. a < length r \<longrightarrow> r ! a \<longrightarrow> cfg_edge body a b \<longrightarrow> r ! b \<or> b \<in> set stack"
    "r ! kb_entry body \<or> kb_entry body \<in> set stack"
    "kb_entry body < length (kb_blocks body)"
  shows "\<exists>r'. reach_loop (successors body) r stack = Some r' \<and> length r' = length (kb_blocks body) \<and>
    (\<forall>b < length r'. r' ! b \<longleftrightarrow> cfg_reaches body b)"
  using assms
proof (induction "successors body" r stack rule: reach_loop.induct)
  case (1 r)
  have "r ! b" if "cfg_reaches body b" for b
  proof -
    from that obtain xs where xs: "cfg_walk body xs" "last xs = b" by (auto simp: cfg_reaches_def)
    have "last xs \<in> {b. b < length r \<and> r ! b}"
      by (rule cfg_walk_closed [OF xs(1)]) (use 1 in \<open>auto simp: cfg_edge_def\<close>)
    then show ?thesis using xs(2) by simp
  qed
  then show ?case using 1(1,3) by auto
next
  case (2 r block stack)
  have bound: "block < length r" using 2(3,4) cfg_reaches_bound by fastforce
  show ?case
  proof (cases "r ! block")
    case True
    have "\<exists>r'. reach_loop (successors body) r stack = Some r' \<and> length r' = length (kb_blocks body) \<and>
        (\<forall>b < length r'. r' ! b \<longleftrightarrow> cfg_reaches body b)"
    proof (rule 2(1))
      show "\<forall>a b. a < length r \<longrightarrow> r ! a \<longrightarrow> cfg_edge body a b \<longrightarrow> r ! b \<or> b \<in> set stack"
        using 2(6) True by (metis set_ConsD)
    qed (use 2 bound True in \<open>auto\<close>)
    then show ?thesis using bound True by simp
  next
    case False
    have targets: "b \<in> set (successors body ! block) \<longleftrightarrow> cfg_edge body block b" for b
      using bound 2(3) successors_edge by simp
    have "\<exists>r'. reach_loop (successors body) (r[block := True]) (rev (successors body ! block) @ stack) =
        Some r' \<and> length r' = length (kb_blocks body) \<and> (\<forall>b < length r'. r' ! b \<longleftrightarrow> cfg_reaches body b)"
    proof (rule 2(2))
      show "nth_opt (successors body) block = Some (successors body ! block)"
        using bound 2(3) by simp
      show "\<forall>b \<in> set (rev (successors body ! block) @ stack). cfg_reaches body b"
        using 2(4) targets cfg_reaches_step by auto
      show "\<forall>a b. a < length (r[block := True]) \<longrightarrow> r[block := True] ! a \<longrightarrow> cfg_edge body a b \<longrightarrow>
          r[block := True] ! b \<or> b \<in> set (rev (successors body ! block) @ stack)"
        using 2(6) targets bound by (auto simp: nth_list_update)
    qed (use 2 bound False in \<open>auto simp: nth_list_update\<close>)
    then show ?thesis using bound False 2(3) by (simp add: nth_opt_def)
  qed
qed

lemma reach_loop_start:
  assumes "kb_entry body < length (kb_blocks body)"
  obtains r where "reach_loop (successors body) (replicate (length (kb_blocks body)) False)
      [kb_entry body] = Some r" "length r = length (kb_blocks body)"
    "\<And>b. b < length r \<Longrightarrow> r ! b \<longleftrightarrow> cfg_reaches body b"
  using reach_loop_correct [of "replicate (length (kb_blocks body)) False" body "[kb_entry body]"]
    assms cfg_reaches_entry by auto

section \<open>The loop finds the dominators\<close>

lemma predecessors_inner:
  assumes "\<forall>t \<in> set targets. t < length preds"
  shows "length (fold (\<lambda>target preds. preds[target := preds ! target @ [index]]) targets preds) =
      length preds"
    and "t < length preds \<Longrightarrow>
      set (fold (\<lambda>target preds. preds[target := preds ! target @ [index]]) targets preds ! t) =
      set (preds ! t) \<union> (if t \<in> set targets then {index} else {})"
  using assms
  by (induction targets arbitrary: preds) (auto simp: nth_list_update)

lemma predecessors_fold:
  assumes "\<forall>x \<in> set entries. \<forall>t \<in> set (snd x). t < length preds"
  shows "length (fold (\<lambda>(index, targets) preds. if reachable ! index
        then fold (\<lambda>target preds. preds[target := preds ! target @ [index]]) targets preds
        else preds) entries preds) = length preds \<and>
    (\<forall>t < length preds. set (fold (\<lambda>(index, targets) preds. if reachable ! index
        then fold (\<lambda>target preds. preds[target := preds ! target @ [index]]) targets preds
        else preds) entries preds ! t) =
      set (preds ! t) \<union> {i. \<exists>ts. (i, ts) \<in> set entries \<and> reachable ! i \<and> t \<in> set ts})"
  using assms
proof (induction entries arbitrary: preds)
  case (Cons e entries)
  obtain i ts where e: "e = (i, ts)" by (cases e)
  let ?p = "if reachable ! i then fold (\<lambda>target preds. preds[target := preds ! target @ [i]]) ts preds
    else preds"
  have ts: "\<forall>t \<in> set ts. t < length preds" using Cons.prems e by simp
  have len: "length ?p = length preds" using predecessors_inner(1) [OF ts] by simp
  have set: "set (?p ! t) = set (preds ! t) \<union> (if reachable ! i \<and> t \<in> set ts then {i} else {})"
    if "t < length preds" for t
    using predecessors_inner(2) [OF ts that] by simp
  show ?case
    using Cons.IH [of ?p] Cons.prems len set unfolding e by (auto simp: len)
qed simp

lemma predecessors_correct:
  assumes "\<forall>i < length succs. \<forall>t \<in> set (succs ! i). t < length succs"
  shows "length (predecessors succs reachable) = length succs"
    and "t < length succs \<Longrightarrow> set (predecessors succs reachable ! t) =
      {i. i < length succs \<and> reachable ! i \<and> t \<in> set (succs ! i)}"
proof -
  have "\<forall>x \<in> set (enumerate 0 succs). \<forall>t \<in> set (snd x). t < length (replicate (length succs) [])"
    using assms by (auto simp: in_set_enumerate_eq)
  note f = predecessors_fold [OF this, of reachable]
  show "length (predecessors succs reachable) = length succs"
    using f by (simp add: predecessors_def)
  show "t < length succs \<Longrightarrow> set (predecessors succs reachable ! t) =
      {i. i < length succs \<and> reachable ! i \<and> t \<in> set (succs ! i)}"
    using f by (auto simp: predecessors_def in_set_enumerate_eq)
qed

text \<open>The rows of a table of flags, read as sets.\<close>

definition row :: "bool list list \<Rightarrow> nat \<Rightarrow> nat set" where
  "row doms b = {c. c < length (doms ! b) \<and> doms ! b ! c}"

definition square :: "bool list list \<Rightarrow> bool" where
  "square doms \<longleftrightarrow> (\<forall>b < length doms. length (doms ! b) = length doms)"

lemma dom_next_fold:
  assumes "\<forall>p \<in> set ps. length (doms ! p) = length next"
  shows "length (fold (\<lambda>predecessor next. map2 (\<and>) next (doms ! predecessor)) ps next) = length next \<and>
    (\<forall>c < length next. fold (\<lambda>predecessor next. map2 (\<and>) next (doms ! predecessor)) ps next ! c \<longleftrightarrow>
      next ! c \<and> (\<forall>p \<in> set ps. doms ! p ! c))"
  using assms
proof (induction ps arbitrary: "next")
  case (Cons p ps)
  have "length (map2 (\<and>) next (doms ! p)) = length next" using Cons.prems by simp
  with Cons.IH [of "map2 (\<and>) next (doms ! p)"] Cons.prems show ?case by auto
qed simp

lemma dom_next_row:
  assumes "square doms" "\<forall>p \<in> set (preds ! b). p < length doms" "b < length doms"
  shows "length (dom_next preds doms b) = length doms"
    and "{c. c < length (dom_next preds doms b) \<and> dom_next preds doms b ! c} =
      insert b {c. c < length doms \<and> (\<forall>p \<in> set (preds ! b). c \<in> row doms p)}"
proof -
  have "\<forall>p \<in> set (preds ! b). length (doms ! p) = length (replicate (length doms) True)"
    using assms by (simp add: square_def)
  note f = dom_next_fold [OF this]
  show "length (dom_next preds doms b) = length doms" using f by (simp add: dom_next_def)
  show "{c. c < length (dom_next preds doms b) \<and> dom_next preds doms b ! c} =
      insert b {c. c < length doms \<and> (\<forall>p \<in> set (preds ! b). c \<in> row doms p)}"
    using f assms by (auto simp: dom_next_def nth_list_update row_def square_def)
qed

text \<open>
  The invariant of the loop. \<open>T\<close> is any assignment of sets that the equations of dominators
  keep: whatever it holds, no step removes.
\<close>

definition next_row :: "nat list list \<Rightarrow> bool list list \<Rightarrow> nat \<Rightarrow> nat set" where
  "next_row preds doms b = insert b {c. c < length doms \<and> (\<forall>p \<in> set (preds ! b). c \<in> row doms p)}"

definition flow :: "nat \<Rightarrow> nat \<Rightarrow> bool list \<Rightarrow> nat list list \<Rightarrow> (nat \<Rightarrow> nat set) \<Rightarrow> bool" where
  "flow n e r preds T \<longleftrightarrow> length r = n \<and> e < n \<and> r ! e \<and>
     (\<forall>b < n. \<forall>p \<in> set (preds ! b). p < n \<and> r ! p) \<and> (\<forall>b < n. r ! b \<longrightarrow> b \<noteq> e \<longrightarrow> preds ! b \<noteq> []) \<and>
     (\<forall>b < n. r ! b \<longrightarrow> b \<noteq> e \<longrightarrow> (\<forall>c \<in> T b. c = b \<or> (\<forall>p \<in> set (preds ! b). c \<in> T p))) \<and>
     (\<forall>b. T b \<subseteq> {..<n})"

definition dom_inv :: "nat \<Rightarrow> nat \<Rightarrow> bool list \<Rightarrow> nat list list \<Rightarrow> (nat \<Rightarrow> nat set) \<Rightarrow> bool list list \<Rightarrow> bool" where
  "dom_inv n e r preds T doms \<longleftrightarrow> square doms \<and> length doms = n \<and> row doms e = {e} \<and>
     (\<forall>b < n. \<not> r ! b \<longrightarrow> row doms b = {}) \<and>
     (\<forall>b < n. r ! b \<longrightarrow> T b \<subseteq> row doms b) \<and>
     (\<forall>b < n. r ! b \<longrightarrow> b \<noteq> e \<longrightarrow> next_row preds doms b \<subseteq> row doms b)"

definition weight :: "bool list list \<Rightarrow> nat" where
  "weight doms = (\<Sum>b < length doms. card (row doms b))"

lemma row_update [simp]:
  "b < length doms \<Longrightarrow> row (doms[b := v]) x = (if x = b then {c. c < length v \<and> v ! c} else row doms x)"
  by (auto simp: row_def)

lemma finite_row [simp]: "finite (row doms b)"
  by (simp add: row_def)

lemma row_inj:
  assumes "length v = length (doms ! b)" "{c. c < length v \<and> v ! c} = row doms b"
  shows "v = doms ! b"
  using assms by (auto simp: list_eq_iff_nth_eq row_def set_eq_iff)

lemma weight_less:
  assumes "b < length doms" "{c. c < length v \<and> v ! c} \<subset> row doms b"
  shows "weight (doms[b := v]) < weight doms"
proof -
  have "(\<Sum>x < length doms. card (row (doms[b := v]) x)) < (\<Sum>x < length doms. card (row doms x))"
  proof (rule sum_strict_mono_ex1)
    show "\<forall>x \<in> {..<length doms}. card (row (doms[b := v]) x) \<le> card (row doms x)"
      using assms by (auto intro!: card_mono)
    show "\<exists>x \<in> {..<length doms}. card (row (doms[b := v]) x) < card (row doms x)"
      using assms by (intro bexI [of _ b]) (auto intro!: psubset_card_mono)
  qed simp
  then show ?thesis by (simp add: weight_def)
qed

lemma dom_step_correct:
  assumes flow: "flow n e r preds T" and inv: "dom_inv n e r preds T doms" and b: "b < n"
    and step: "dom_step e r preds b (doms, changed) = (doms', changed')"
  shows "dom_inv n e r preds T doms' \<and> (changed' \<longleftrightarrow> changed \<or> doms' \<noteq> doms) \<and>
    (doms' \<noteq> doms \<longrightarrow> weight doms' < weight doms) \<and>
    (doms' = doms \<longrightarrow> r ! b \<longrightarrow> b \<noteq> e \<longrightarrow> row doms b = next_row preds doms b)"
proof (cases "b = e \<or> \<not> r ! b")
  case True
  then show ?thesis using inv step by (auto simp: dom_step_def)
next
  case False
  let ?v = "dom_next preds doms b"
  have sq: "square doms" "length doms = n" using inv by (auto simp: dom_inv_def)
  have ps: "\<forall>p \<in> set (preds ! b). p < length doms" using flow b sq by (auto simp: flow_def)
  have len: "length ?v = length doms" using dom_next_row(1) [OF sq(1) ps] b sq by simp
  have v: "{c. c < length ?v \<and> ?v ! c} = next_row preds doms b"
    using dom_next_row(2) [OF sq(1) ps] b sq by (simp add: next_row_def)
  have sub: "next_row preds doms b \<subseteq> row doms b" using inv b False by (auto simp: dom_inv_def)
  show ?thesis
  proof (cases "?v = doms ! b")
    case True
    then show ?thesis using False inv step v by (auto simp: dom_step_def row_def)
  next
    case change: False
    then have "next_row preds doms b \<noteq> row doms b"
      using row_inj [of ?v doms b] v len sq b by (auto simp: square_def)
    with sub have less: "next_row preds doms b \<subset> row doms b" by blast
    have d: "doms' = doms[b := ?v]" "changed'" using step False change by (auto simp: dom_step_def Let_def)
    have rows: "row doms' x = (if x = b then next_row preds doms b else row doms x)" for x
      using v b sq unfolding d by simp
    have anti: "row doms' x \<subseteq> row doms x" for x using rows sub by auto
    have mono: "next_row preds doms' x \<subseteq> next_row preds doms x" for x
      using anti d(1) by (auto simp: next_row_def)
    have T: "T b \<subseteq> next_row preds doms b"
    proof
      fix c assume c: "c \<in> T b"
      then have "c = b \<or> (\<forall>p \<in> set (preds ! b). c \<in> T p)" "c < n"
        using flow b False unfolding flow_def by blast+
      moreover have "p \<in> set (preds ! b) \<Longrightarrow> T p \<subseteq> row doms p" for p
        using flow inv b by (auto simp: flow_def dom_inv_def)
      ultimately show "c \<in> next_row preds doms b" using sq by (auto simp: next_row_def)
    qed
    have "dom_inv n e r preds T doms'"
      unfolding dom_inv_def
    proof (intro conjI allI impI)
      show "square doms'" using sq len b unfolding d square_def by (auto simp: nth_list_update)
      show "length doms' = n" using d sq by simp
      show "row doms' e = {e}" using rows False inv by (auto simp: dom_inv_def)
    next
      fix x assume "x < n" "\<not> r ! x"
      then show "row doms' x = {}" using rows False inv by (auto simp: dom_inv_def)
    next
      fix x assume "x < n" "r ! x"
      then show "T x \<subseteq> row doms' x" using rows T inv by (auto simp: dom_inv_def)
    next
      fix x assume x: "x < n" "r ! x" "x \<noteq> e"
      then have "next_row preds doms x \<subseteq> row doms x" using inv by (auto simp: dom_inv_def)
      then show "next_row preds doms' x \<subseteq> row doms' x" using mono [of x] rows [of x] by auto
    qed
    moreover have "weight doms' < weight doms"
      using weight_less [of b doms ?v] less v b sq d by simp
    moreover have "doms' \<noteq> doms" using d change b sq by (metis nth_list_update_eq)
    ultimately show ?thesis using d by blast
  qed
qed

lemma dom_pass_correct:
  assumes flow: "flow n e r preds T"
  shows "\<lbrakk>dom_inv n e r preds T doms; set bs \<subseteq> {..<n};
    fold (dom_step e r preds) bs (doms, changed) = (doms', changed')\<rbrakk> \<Longrightarrow>
    dom_inv n e r preds T doms' \<and> (changed \<longrightarrow> changed') \<and>
    (\<not> changed' \<longrightarrow> doms' = doms \<and> (\<forall>b \<in> set bs. r ! b \<longrightarrow> b \<noteq> e \<longrightarrow> row doms b = next_row preds doms b)) \<and>
    weight doms' \<le> weight doms \<and> (changed' \<longrightarrow> \<not> changed \<longrightarrow> weight doms' < weight doms)"
proof (induction bs arbitrary: doms changed)
  case Nil
  then show ?case by simp
next
  case (Cons b bs)
  obtain d c where d: "dom_step e r preds b (doms, changed) = (d, c)" by fastforce
  have step: "dom_inv n e r preds T d" "c \<longleftrightarrow> changed \<or> d \<noteq> doms" "d \<noteq> doms \<longrightarrow> weight d < weight doms"
    "d = doms \<longrightarrow> r ! b \<longrightarrow> b \<noteq> e \<longrightarrow> row doms b = next_row preds doms b"
    using dom_step_correct [OF flow Cons.prems(1) _ d] Cons.prems(2) by auto
  have rest: "dom_inv n e r preds T doms'" "c \<longrightarrow> changed'"
    "\<not> changed' \<longrightarrow> doms' = d \<and> (\<forall>b \<in> set bs. r ! b \<longrightarrow> b \<noteq> e \<longrightarrow> row d b = next_row preds d b)"
    "weight doms' \<le> weight d" "changed' \<longrightarrow> \<not> c \<longrightarrow> weight doms' < weight d"
    using Cons.IH [OF step(1), of c] Cons.prems(2,3) d by auto
  have "\<not> changed' \<longrightarrow> d = doms" using step(2) rest(2) by blast
  moreover have "changed' \<longrightarrow> \<not> changed \<longrightarrow> weight doms' < weight doms"
    using step(2,3) rest(4,5) by fastforce
  moreover have "weight doms' \<le> weight doms" using step(3) rest(4) by fastforce
  ultimately show ?case using step rest by auto
qed

lemma dom_loop_correct:
  assumes flow: "flow n e r preds T" and "dom_inv n e r preds T doms"
  shows "\<exists>d. dom_loop e r preds doms = Some d \<and> dom_inv n e r preds T d \<and>
    (\<forall>b < n. r ! b \<longrightarrow> b \<noteq> e \<longrightarrow> row d b = next_row preds d b)"
  using assms(2)
proof (induction "weight doms" arbitrary: doms rule: less_induct)
  case less
  obtain d c where d: "fold (dom_step e r preds) [0..<length doms] (doms, False) = (d, c)" by fastforce
  have n: "length doms = n" using less.prems by (simp add: dom_inv_def)
  then have "set [0..<length doms] \<subseteq> {..<n}" by auto
  note pass = dom_pass_correct [OF flow less.prems this d]
  show ?case
  proof (cases c)
    case True
    then have "weight d < weight doms" "dom_inv n e r preds T d" using pass n by auto
    from less.hyps [OF this] show ?thesis
      using d True by (subst dom_loop.simps) simp
  next
    case False
    then show ?thesis using pass n d by (subst dom_loop.simps) auto
  qed
qed

section \<open>What \<open>dominance\<close> answers\<close>

lemma cfg_walk_reaches: "cfg_walk body xs \<Longrightarrow> c \<in> set xs \<Longrightarrow> cfg_reaches body c"
proof (induction rule: cfg_walk.induct)
  case walk_start
  then show ?case using cfg_reaches_entry by simp
next
  case (walk_step xs b)
  have "cfg_reaches body (last xs)" using walk_step(1) by (auto simp: cfg_reaches_def)
  then show ?case using walk_step cfg_reaches_step by auto
qed

lemma cfg_reaches_pred:
  assumes "cfg_reaches body b" "b \<noteq> kb_entry body"
  shows "\<exists>a. cfg_reaches body a \<and> cfg_edge body a b"
proof -
  from assms(1) obtain xs where "cfg_walk body xs" "last xs = b" by (auto simp: cfg_reaches_def)
  then show ?thesis using assms(2)
    by (cases rule: cfg_walk.cases) (auto simp: cfg_reaches_def)
qed

lemma length_dom_start [simp]: "length (dom_start e r) = length r"
  by (simp add: dom_start_def)

lemma row_dom_start:
  assumes "e < length r" "b < length r"
  shows "row (dom_start e r) b = (if b = e then {e} else if r ! b then {c. c < length r \<and> r ! c} else {})"
  using assms by (auto simp: dom_start_def row_def nth_list_update split: if_splits)

lemma square_dom_start: "e < length r \<Longrightarrow> square (dom_start e r)"
  by (auto simp: square_def dom_start_def nth_list_update)

lemma body_dominance_correct:
  assumes "kb_entry body < length (kb_blocks body)"
  obtains d where "body_dominance body = Some d"
    "\<And>b. b < length (kb_blocks body) \<Longrightarrow> dm_reachable d ! b \<longleftrightarrow> cfg_reaches body b"
    "\<And>b c. dominates d b c \<longleftrightarrow> cfg_reaches body b \<and> always_through body b c"
    "length (dm_reachable d) = length (kb_blocks body)" "square (dm_dominators d)"
    "length (dm_dominators d) = length (kb_blocks body)"
proof -
  define n where "n = length (kb_blocks body)"
  define e where "e = kb_entry body"
  obtain r where r: "reach_loop (successors body) (replicate n False) [e] = Some r" "length r = n"
    "\<And>b. b < n \<Longrightarrow> r ! b \<longleftrightarrow> cfg_reaches body b"
    using reach_loop_start [OF assms] unfolding n_def e_def by metis
  define preds where "preds = predecessors (successors body) r"
  define T where "T b = {c. c < n \<and> always_through body b c}" for b
  have e: "e < n" "cfg_reaches body e" using assms cfg_reaches_entry by (simp_all add: e_def n_def)
  have closed: "\<forall>i < length (successors body). \<forall>t \<in> set (successors body ! i). t < length (successors body)"
    using successors_edge by (auto simp: cfg_edge_def)
  have preds: "set (preds ! t) = {i. i < n \<and> r ! i \<and> cfg_edge body i t}" if "t < n" for t
    using predecessors_correct(2) [OF closed] that successors_edge unfolding preds_def
    by (auto simp: n_def)
  have flow: "flow n e r preds T"
    unfolding flow_def
  proof (intro conjI allI impI ballI)
    show "length r = n" "e < n" "r ! e" using r e by auto
  next
    fix b p assume "b < n" "p \<in> set (preds ! b)"
    then show "p < n" "r ! p" using preds by auto
  next
    fix b assume b: "b < n" "r ! b" "b \<noteq> e"
    then obtain a where "cfg_reaches body a" "cfg_edge body a b"
      using cfg_reaches_pred r(3) unfolding e_def by blast
    then have "a \<in> set (preds ! b)" using b r(3) cfg_reaches_bound preds by (auto simp: n_def)
    then show "preds ! b \<noteq> []" by auto
  next
    fix b c assume b: "b < n" "r ! b" "b \<noteq> e" "c \<in> T b"
    have "c \<in> T p" if "c \<noteq> b" "p \<in> set (preds ! b)" for p
    proof -
      have "c \<in> set xs" if "cfg_walk body xs" "last xs = p" for xs
        using walk_step [OF that(1), of b] that(2) b(1,4) \<open>c \<noteq> b\<close> \<open>p \<in> set (preds ! b)\<close> preds
        by (fastforce simp: T_def always_through_def)
      then show ?thesis using b(4) by (simp add: T_def always_through_def)
    qed
    then show "c = b \<or> (\<forall>p \<in> set (preds ! b). c \<in> T p)" by blast
  next
    fix b show "T b \<subseteq> {..<n}" by (auto simp: T_def)
  qed
  have start: "dom_inv n e r preds T (dom_start e r)"
    unfolding dom_inv_def
  proof (intro conjI allI impI)
    show "square (dom_start e r)" "length (dom_start e r) = n" "row (dom_start e r) e = {e}"
      using e r square_dom_start row_dom_start by auto
  next
    fix b assume "b < n" "\<not> r ! b"
    then show "row (dom_start e r) b = {}" using e r row_dom_start by auto
  next
    fix b assume b: "b < n" "r ! b"
    then obtain xs where xs: "cfg_walk body xs" "last xs = b" using r(3) by (auto simp: cfg_reaches_def)
    have "T b \<subseteq> {c. c < n \<and> r ! c}"
      using xs r(3) cfg_walk_reaches by (auto simp: T_def always_through_def)
    moreover have "T e \<subseteq> {e}"
      using walk_start [of body] e unfolding T_def always_through_def e_def n_def by force
    ultimately show "T b \<subseteq> row (dom_start e r) b" using b e r row_dom_start by auto
  next
    fix b assume b: "b < n" "r ! b" "b \<noteq> e"
    then obtain p where "p \<in> set (preds ! b)" using flow by (fastforce simp: flow_def)
    moreover from this have "p < n" using flow b by (auto simp: flow_def)
    ultimately have "c < n \<and> r ! c" if "c \<in> next_row preds (dom_start e r) b" for c
      using that b e r row_dom_start [of e r p] by (auto simp: next_row_def split: if_splits)
    then show "next_row preds (dom_start e r) b \<subseteq> row (dom_start e r) b"
      using b e r row_dom_start by auto
  qed
  obtain d where d: "dom_loop e r preds (dom_start e r) = Some d" "dom_inv n e r preds T d"
    "\<And>b. b < n \<Longrightarrow> r ! b \<Longrightarrow> b \<noteq> e \<Longrightarrow> row d b = next_row preds d b"
    using dom_loop_correct [OF flow start] by blast
  have dn: "length d = n" "square d" "row d e = {e}" using d(2) by (auto simp: dom_inv_def)
  have sound: "c \<in> row d (last xs) \<Longrightarrow> c \<in> set xs" if "cfg_walk body xs" for xs c
    using that
  proof (induction rule: cfg_walk.induct)
    case walk_start
    then show ?case using dn e_def by simp
  next
    case (walk_step xs b)
    note hd = cfg_walk_facts(1) [OF walk_step(1)]
    show ?case
    proof (cases "b = e")
      case True
      then show ?thesis using walk_step.prems dn(3) hd walk_step(1) e_def by auto
    next
      case False
      have "cfg_reaches body (last xs)" using walk_step(1) by (auto simp: cfg_reaches_def)
      with walk_step(2) have "cfg_reaches body b" by (rule cfg_reaches_step [rotated])
      then have b: "b < n" "r ! b" using r(3) cfg_reaches_bound by (auto simp: n_def)
      moreover have "last xs \<in> set (preds ! b)"
        using \<open>cfg_reaches body (last xs)\<close> walk_step(2) preds b r(3) cfg_reaches_bound
        by (auto simp: n_def)
      ultimately show ?thesis
        using walk_step.prems walk_step.IH d(3) False by (auto simp: next_row_def)
    qed
  qed
  define dom where "dom = \<lparr>dm_reachable = r, dm_dominators = d\<rparr>"
  have row: "dominates dom b c \<longleftrightarrow> b < n \<and> c \<in> row d b" for b c
    using dn by (auto simp: dominates_def dom_def row_def nth_opt_def square_def)
  have "dominates dom b c \<longleftrightarrow> cfg_reaches body b \<and> always_through body b c" for b c
  proof
    assume "dominates dom b c"
    then have "b < n" "c \<in> row d b" using row by auto
    moreover from this have "r ! b" using d(2) by (auto simp: dom_inv_def)
    ultimately show "cfg_reaches body b \<and> always_through body b c"
      using r(3) sound by (auto simp: always_through_def)
  next
    assume b: "cfg_reaches body b \<and> always_through body b c"
    then have "b < n" "r ! b" using r(3) cfg_reaches_bound by (auto simp: n_def)
    moreover have "c < n" using b cfg_walk_facts(2) unfolding cfg_reaches_def always_through_def n_def
      by blast
    ultimately show "dominates dom b c" using b d(2) row by (auto simp: dom_inv_def T_def)
  qed
  moreover have "body_dominance body = Some dom"
    using r(1) d(1) unfolding preds_def n_def e_def
    by (simp add: body_dominance_def dom_def)
  ultimately show thesis using that [of dom] r dn by (simp add: dom_def n_def)
qed

text \<open>
  C17: on a body whose entry is one of its blocks \<open>dominance\<close> returns; a block is flagged reachable
  exactly if a walk from the entry ends in it, and a candidate is among a block's dominators
  exactly if the block is reachable and every walk from the entry to it passes through the candidate.
\<close>

theorem dominance_is_dominance:
  assumes "kb_entry body < length (kb_blocks body)"
  shows "\<exists>d. body_dominance body = Some d \<and>
    (\<forall>b < length (kb_blocks body). dm_reachable d ! b \<longleftrightarrow> cfg_reaches body b) \<and>
    (\<forall>b c. dominates d b c \<longleftrightarrow> cfg_reaches body b \<and> always_through body b c)"
proof -
  obtain d where "body_dominance body = Some d"
    "\<And>b. b < length (kb_blocks body) \<Longrightarrow> dm_reachable d ! b \<longleftrightarrow> cfg_reaches body b"
    "\<And>b c. dominates d b c \<longleftrightarrow> cfg_reaches body b \<and> always_through body b c"
    by (rule body_dominance_correct [OF assms]) (rule that)
  then show ?thesis by (intro exI [of _ d]) simp
qed

text \<open>A body with a loop: the entry, a header that is left or entered, and the loop's body.\<close>

definition loop_body :: kernel_body where
  "loop_body = \<lparr>kb_values = [Block_param 0 0],
     kb_blocks =
       [\<lparr>bb_params = [0], bb_instrs = [], bb_terminator = Br \<lparr>br_target = 1, br_args = []\<rparr>\<rparr>,
        \<lparr>bb_params = [], bb_instrs = [], bb_terminator =
           CondBr 0 \<lparr>br_target = 2, br_args = []\<rparr> \<lparr>br_target = 3, br_args = []\<rparr>\<rparr>,
        \<lparr>bb_params = [], bb_instrs = [], bb_terminator = Br \<lparr>br_target = 1, br_args = []\<rparr>\<rparr>,
        \<lparr>bb_params = [], bb_instrs = [], bb_terminator = Return [0]\<rparr>],
     kb_entry = 0, kb_exact = False, kb_barriers = []\<rparr>"

theorem dominance_is_dominance_witness:
  "\<exists>d. body_dominance loop_body = Some d \<and>
    (dominates d 3 1 \<longleftrightarrow> cfg_reaches loop_body 3 \<and> always_through loop_body 3 1)"
proof -
  have "kb_entry loop_body < length (kb_blocks loop_body)" by (simp add: loop_body_def)
  from dominance_is_dominance [OF this] show ?thesis by blast
qed

end
