(* ===== verification/Body_Validate.thy ===== *)
theory Body_Validate
  imports Body_Flow
begin

text \<open>
  The gate a consumer calls before it reads a body (\<open>KernelBody::validate\<close> in
  \<open>lichen-kernel-ir/src/body.rs\<close>), the scope rule it applies to every use, and what a body that
  passes can rely on. Its refusals are formatted strings in the code and constructors here.
\<close>

section \<open>Sites and scope\<close>

definition definition_sites :: "kernel_body \<Rightarrow> (nat \<times> nat) option list" where
  "definition_sites body =
     fold (\<lambda>(block, basic) sites.
         fold (\<lambda>(position, value) sites. sites[unat value := Some (block, position)])
           (enumerate 0 (bb_instrs basic)) sites)
       (enumerate 0 (kb_blocks body)) (replicate (length (kb_values body)) None)"

definition site_of :: "(nat \<times> nat) option list \<Rightarrow> value_id \<Rightarrow> (nat \<times> nat) option" where
  "site_of sites v = Option.bind (nth_opt sites (unat v)) id"

definition definition_site :: "kernel_body \<Rightarrow> value_id \<Rightarrow> (nat \<times> nat) option" where
  "definition_site body v = site_of (definition_sites body) v"

text \<open>Where a use stands, as a refusal names it.\<close>

datatype use_site =
    Use_instr kernel_instr
  | Use_condition nat
  | Use_transfer nat nat
  | Use_return nat

datatype scope_error =
    Parameter_not_dominating use_site value_id nat nat
  | No_block_defines use_site value_id
  | Defined_later use_site value_id nat
  | Definition_not_dominating use_site value_id nat nat

definition out_of_scope ::
  "kernel_body \<Rightarrow> dominance \<Rightarrow> (nat \<times> nat) option list \<Rightarrow> nat \<Rightarrow> nat \<Rightarrow> value_id \<Rightarrow> use_site \<Rightarrow>
   scope_error option" where
  "out_of_scope body d sites block position v site =
     (case value_at body v of
        Some (Block_param defined_in _) \<Rightarrow>
          if defined_in = block \<or> dominates d block defined_in then None
          else Some (Parameter_not_dominating site v defined_in block)
      | Some (Instr _ _ _) \<Rightarrow>
          (case site_of sites v of
             None \<Rightarrow> Some (No_block_defines site v)
           | Some (defined_in, defined_at) \<Rightarrow>
               if defined_in = block
               then if defined_at < position then None else Some (Defined_later site v block)
               else if dominates d block defined_in then None
               else Some (Definition_not_dominating site v defined_in block))
      | None \<Rightarrow> None)"

text \<open>\<open>value_dominates\<close>: whether \<open>v\<close> is in scope at the end of \<open>block\<close>.\<close>

definition value_dominates :: "kernel_body \<Rightarrow> nat \<Rightarrow> value_id \<Rightarrow> bool option" where
  "value_dominates body block v =
     Option.bind (body_dominance body) (\<lambda>d. Some
       (case value_at body v of
          Some (Block_param defined_in _) \<Rightarrow> defined_in = block \<or> dominates d block defined_in
        | Some (Instr _ _ _) \<Rightarrow>
            (case definition_site body v of
               Some (defined_in, _) \<Rightarrow> defined_in = block \<or> dominates d block defined_in
             | None \<Rightarrow> False)
        | None \<Rightarrow> False))"

definition dominates_block :: "kernel_body \<Rightarrow> nat \<Rightarrow> nat \<Rightarrow> bool option" where
  "dominates_block body block candidate =
     map_option (\<lambda>d. dominates d block candidate) (body_dominance body)"

section \<open>Blocks no lane can skip\<close>

definition is_return :: "terminator \<Rightarrow> bool" where
  "is_return t = (case t of Return _ \<Rightarrow> True | _ \<Rightarrow> False)"

definition unavoidable_blocks :: "kernel_body \<Rightarrow> dominance \<Rightarrow> bool list" where
  "unavoidable_blocks body d =
     map (\<lambda>block. dm_reachable d ! block \<and>
         list_all (\<lambda>(exit, basic).
             \<not> (dm_reachable d ! exit \<and> is_return (bb_terminator basic)) \<or>
             dm_dominators d ! exit ! block)
           (enumerate 0 (kb_blocks body)))
       [0..<length (kb_blocks body)]"

definition every_lane_reaches :: "kernel_body \<Rightarrow> bool list option" where
  "every_lane_reaches body = map_option (unavoidable_blocks body) (body_dominance body)"

section \<open>The gate\<close>

datatype body_error =
    No_blocks
  | Entry_missing nat nat
  | Target_missing nat nat
  | Branch_arity nat nat nat nat
  | Branch_undefined nat
  | Lists_parameter nat
  | Wrong_results kernel_instr nat
  | Wrong_operands kernel_instr nat
  | Operand_undefined kernel_instr
  | Return_undefined nat
  | Use_out_of_scope scope_error
  | Barrier_not_a_write barrier
  | Barrier_not_a_read barrier
  | Barrier_not_a_slice_read barrier
  | Barrier_unobserved barrier
  | Barrier_not_an_output_read barrier
  | Barrier_other_buffer barrier
  | Barrier_unlisted_write barrier
  | Barrier_unlisted_read barrier
  | Barrier_not_preceded barrier
  | Barrier_divergent barrier nat

definition defined_at_all :: "kernel_body \<Rightarrow> value_id \<Rightarrow> bool" where
  "defined_at_all body v \<longleftrightarrow> value_at body v \<noteq> None"

definition check_branch :: "kernel_body \<Rightarrow> nat \<Rightarrow> br \<Rightarrow> (unit, body_error) res" where
  "check_branch body index br =
     (case nth_opt (kb_blocks body) (br_target br) of
        None \<Rightarrow> Err (Target_missing index (br_target br))
      | Some target \<Rightarrow>
          let arity = length (bb_params target) in
          res_bind (require (length (br_args br) = arity)
              (Branch_arity index (length (br_args br)) (br_target br) arity)) (\<lambda>_.
            check_each (\<lambda>arg. require (defined_at_all body arg) (Branch_undefined index)) (br_args br)))"

definition check_instr :: "kernel_body \<Rightarrow> nat \<Rightarrow> value_id \<Rightarrow> (unit, body_error) res" where
  "check_instr body index instr =
     expect_some (value_at body instr) (\<lambda>d. case d of
        Block_param _ _ \<Rightarrow> Err (Lists_parameter index)
      | Instr op args classes \<Rightarrow>
          res_bind (require (produces op = length classes) (Wrong_results op (length classes))) (\<lambda>_.
          res_bind (require (case arity op of None \<Rightarrow> True | Some n \<Rightarrow> length args = n)
              (Wrong_operands op (length args))) (\<lambda>_.
            check_each (\<lambda>arg. require (defined_at_all body arg) (Operand_undefined op)) args)))"

definition check_block :: "kernel_body \<Rightarrow> nat \<times> basic_block \<Rightarrow> (unit, body_error) res" where
  "check_block body = (\<lambda>(index, block).
     res_bind (check_each (check_branch body index) (branches block)) (\<lambda>_.
       check_each (check_instr body index) (bb_instrs block)))"

definition check_return :: "kernel_body \<Rightarrow> nat \<times> basic_block \<Rightarrow> (unit, body_error) res" where
  "check_return body = (\<lambda>(index, block).
     case bb_terminator block of
       Return values \<Rightarrow>
         check_each (\<lambda>v. require (defined_at_all body v) (Return_undefined index)) values
     | _ \<Rightarrow> Ok ())"

definition in_scope_or ::
  "kernel_body \<Rightarrow> dominance \<Rightarrow> (nat \<times> nat) option list \<Rightarrow> nat \<Rightarrow> nat \<Rightarrow> use_site \<Rightarrow> value_id \<Rightarrow>
   (unit, body_error) res" where
  "in_scope_or body d sites block position site v =
     (case out_of_scope body d sites block position v site of
        Some cause \<Rightarrow> Err (Use_out_of_scope cause)
      | None \<Rightarrow> Ok ())"

definition check_scope ::
  "kernel_body \<Rightarrow> dominance \<Rightarrow> (nat \<times> nat) option list \<Rightarrow> nat \<times> basic_block \<Rightarrow>
   (unit, body_error) res" where
  "check_scope body d sites = (\<lambda>(index, block).
     res_bind (check_each (\<lambda>(position, instr).
         expect_some (value_at body instr) (\<lambda>def. case def of
            Instr op args _ \<Rightarrow> check_each (in_scope_or body d sites index position (Use_instr op)) args
          | Block_param _ _ \<Rightarrow> Ok ()))
         (enumerate 0 (bb_instrs block))) (\<lambda>_.
     let position = length (bb_instrs block) in
     res_bind (case bb_terminator block of
         CondBr cond _ _ \<Rightarrow> in_scope_or body d sites index position (Use_condition index) cond
       | _ \<Rightarrow> Ok ()) (\<lambda>_.
     res_bind (check_each (\<lambda>br. check_each
           (in_scope_or body d sites index position (Use_transfer index (br_target br))) (br_args br))
         (branches block)) (\<lambda>_.
     case bb_terminator block of
       Return values \<Rightarrow> check_each (in_scope_or body d sites index position (Use_return index)) values
     | _ \<Rightarrow> Ok ()))))"

text \<open>What a barrier names: a slice write or a buffer write, and the read that observes it.\<close>

datatype write_kind = Slice_write | Buffer_write

definition barrier_write_kind :: "kernel_body \<Rightarrow> barrier \<Rightarrow> (write_kind, body_error) res" where
  "barrier_write_kind body expr =
     (case value_at body (b_write expr) of
        Some (Instr (SliceWriteCall _) _ _) \<Rightarrow> Ok Slice_write
      | Some (Instr (BufferWriteCall _) _ _) \<Rightarrow> Ok Buffer_write
      | _ \<Rightarrow> Err (Barrier_not_a_write expr))"

definition is_slice_read :: "kernel_instr \<Rightarrow> bool" where
  "is_slice_read op = (case op of SliceReadCall _ \<Rightarrow> True | _ \<Rightarrow> False)"

definition is_output_read :: "kernel_instr \<Rightarrow> bool" where
  "is_output_read op = (case op of OutputReadCall _ \<Rightarrow> True | _ \<Rightarrow> False)"

definition check_buffer_pair ::
  "kernel_body \<Rightarrow> dominance \<Rightarrow> (nat \<times> nat) option list \<Rightarrow> barrier \<Rightarrow> (unit, body_error) res" where
  "check_buffer_pair body d sites expr =
     (let written = output_ordinal body (b_write expr); read_at = output_ordinal body (b_read expr) in
      if written = None \<or> written \<noteq> read_at then Err (Barrier_other_buffer expr)
      else (case site_of sites (b_write expr) of
          None \<Rightarrow> Err (Barrier_unlisted_write expr)
        | Some (write_block, write_at) \<Rightarrow>
            (case site_of sites (b_read expr) of
               None \<Rightarrow> Err (Barrier_unlisted_read expr)
             | Some (read_block, read_at) \<Rightarrow>
                 require (if write_block = read_block then write_at < read_at
                     else dominates d read_block write_block)
                   (Barrier_not_preceded expr))))"

definition check_barrier ::
  "kernel_body \<Rightarrow> dominance \<Rightarrow> (nat \<times> nat) option list \<Rightarrow> bool list \<Rightarrow> barrier \<Rightarrow>
   (unit, body_error) res" where
  "check_barrier body d sites unavoidable expr =
     res_bind (barrier_write_kind body expr) (\<lambda>write_kind.
     res_bind (case value_at body (b_read expr) of
         Some (Instr op args _) \<Rightarrow>
           (case write_kind of
              Slice_write \<Rightarrow>
                res_bind (require (is_slice_read op) (Barrier_not_a_slice_read expr)) (\<lambda>_.
                  require (nth_opt args 2 = Some (b_write expr)) (Barrier_unobserved expr))
            | Buffer_write \<Rightarrow>
                res_bind (require (is_output_read op) (Barrier_not_an_output_read expr)) (\<lambda>_.
                  check_buffer_pair body d sites expr))
       | _ \<Rightarrow> Err (Barrier_not_a_read expr)) (\<lambda>_.
     case block_of body (b_read expr) of
       None \<Rightarrow> Err (Barrier_unlisted_read expr)
     | Some block \<Rightarrow>
         expect_some (nth_opt unavoidable block) (\<lambda>reached.
           require reached (Barrier_divergent expr block))))"

definition validate :: "kernel_body \<Rightarrow> (unit, body_error) res" where
  "validate body =
     (if kb_blocks body = [] then Err No_blocks
      else if length (kb_blocks body) \<le> kb_entry body
      then Err (Entry_missing (kb_entry body) (length (kb_blocks body)))
      else
       (let blocks = enumerate 0 (kb_blocks body) in
        res_bind (check_each (check_block body) blocks) (\<lambda>_.
        res_bind (check_each (check_return body) blocks) (\<lambda>_.
        expect_some (body_dominance body) (\<lambda>d.
        let sites = definition_sites body in
        res_bind (check_each (check_scope body d sites) blocks) (\<lambda>_.
          check_each (check_barrier body d sites (unavoidable_blocks body d)) (kb_barriers body)))))))"

section \<open>Sites are where the value is listed\<close>

definition listed_at :: "kernel_body \<Rightarrow> value_id \<Rightarrow> nat \<times> nat \<Rightarrow> bool" where
  "listed_at body v = (\<lambda>(c, q). c < length (kb_blocks body) \<and>
     q < length (bb_instrs (kb_blocks body ! c)) \<and> bb_instrs (kb_blocks body ! c) ! q = v)"

definition sites_ok :: "kernel_body \<Rightarrow> (nat \<times> nat) option list \<Rightarrow> bool" where
  "sites_ok body sites \<longleftrightarrow> (\<forall>v site. site_of sites v = Some site \<longrightarrow> listed_at body v site)"

lemma site_of_update:
  "site_of (sites[unat w := Some site]) v =
     (if v = w \<and> unat w < length sites then Some site else site_of sites v)"
  by (auto simp: site_of_def nth_opt_def word_unat_eq_iff)

lemma sites_ok_block:
  assumes "sites_ok body sites" "\<forall>(q, v) \<in> set entries. listed_at body v (c, q)"
  shows "sites_ok body
    (fold (\<lambda>(position, value) sites. sites[unat value := Some (c, position)]) entries sites)"
  using assms
proof (induction entries arbitrary: sites)
  case (Cons e entries)
  obtain q v where e: "e = (q, v)" by (cases e)
  have "sites_ok body (sites[unat v := Some (c, q)])"
    using Cons.prems e by (auto simp: sites_ok_def site_of_update)
  then show ?case using Cons.IH Cons.prems(2) e by simp
qed simp

lemma sites_ok_blocks:
  assumes "sites_ok body sites" "\<forall>(c, basic) \<in> set entries. c < length (kb_blocks body) \<and>
    kb_blocks body ! c = basic"
  shows "sites_ok body (fold (\<lambda>(block, basic) sites.
         fold (\<lambda>(position, value) sites. sites[unat value := Some (block, position)])
           (enumerate 0 (bb_instrs basic)) sites) entries sites)"
  using assms
proof (induction entries arbitrary: sites)
  case (Cons e entries)
  obtain c basic where e: "e = (c, basic)" by (cases e)
  have "\<forall>(q, v) \<in> set (enumerate 0 (bb_instrs basic)). listed_at body v (c, q)"
    using Cons.prems(2) e by (auto simp: listed_at_def in_set_enumerate_eq)
  from sites_ok_block [OF Cons.prems(1) this] Cons.IH Cons.prems(2) e show ?case by simp
qed simp

lemma definition_sites_listed:
  assumes "site_of (definition_sites body) v = Some site"
  shows "listed_at body v site"
proof -
  have "sites_ok body (replicate (length (kb_values body)) None)"
    by (auto simp: sites_ok_def site_of_def nth_opt_def split: if_splits)
  then have "sites_ok body (definition_sites body)"
    unfolding definition_sites_def by (rule sites_ok_blocks) (auto simp: in_set_enumerate_eq)
  then show ?thesis using assms by (cases site) (simp add: sites_ok_def)
qed

section \<open>What a validated body guarantees\<close>

text \<open>
  The parameters a body lists and the parameters its values state are the same, as
  \<open>add_param\<close> mints them.
\<close>

definition params_agree :: "kernel_body \<Rightarrow> bool" where
  "params_agree body \<longleftrightarrow> (\<forall>v block index. value_at body v = Some (Block_param block index) \<longrightarrow>
     (\<exists>basic. nth_opt (kb_blocks body) block = Some basic \<and> v \<in> set (bb_params basic)))"

text \<open>
  The points of an execution: block, position in it, and the values bound so far. A block binds
  its parameters when it is entered and an instruction its value when it has run; a branch
  is taken either way.
\<close>

inductive at_point :: "kernel_body \<Rightarrow> nat \<Rightarrow> nat \<Rightarrow> value_id set \<Rightarrow> bool" for body where
  at_entry: "nth_opt (kb_blocks body) (kb_entry body) = Some basic \<Longrightarrow>
    at_point body (kb_entry body) 0 (set (bb_params basic))"
| at_instr: "at_point body k p bound \<Longrightarrow> nth_opt (kb_blocks body) k = Some basic \<Longrightarrow>
    nth_opt (bb_instrs basic) p = Some v \<Longrightarrow> at_point body k (Suc p) (insert v bound)"
| at_branch: "at_point body k p bound \<Longrightarrow> nth_opt (kb_blocks body) k = Some basic \<Longrightarrow>
    p = length (bb_instrs basic) \<Longrightarrow> br \<in> set (branches basic) \<Longrightarrow>
    nth_opt (kb_blocks body) (br_target br) = Some target \<Longrightarrow>
    at_point body (br_target br) 0 (bound \<union> set (bb_params target))"

text \<open>What a point reads is bound there.\<close>

definition reads_bound :: "kernel_body \<Rightarrow> nat \<Rightarrow> nat \<Rightarrow> value_id set \<Rightarrow> bool" where
  "reads_bound body k p bound \<longleftrightarrow>
     (\<exists>basic. nth_opt (kb_blocks body) k = Some basic \<and> p \<le> length (bb_instrs basic) \<and>
       (p < length (bb_instrs basic) \<longrightarrow> (\<exists>op args classes.
          value_at body (bb_instrs basic ! p) = Some (Instr op args classes) \<and> set args \<subseteq> bound)) \<and>
       (p = length (bb_instrs basic) \<longrightarrow>
          (\<forall>br \<in> set (branches basic). set (br_args br) \<subseteq> bound \<and>
             (\<exists>target. nth_opt (kb_blocks body) (br_target br) = Some target \<and>
               length (br_args br) = length (bb_params target))) \<and>
          (\<forall>vs. bb_terminator basic = Return vs \<longrightarrow> set vs \<subseteq> bound) \<and>
          (\<forall>cond t f. bb_terminator basic = CondBr cond t f \<longrightarrow>
             cond \<in> bound \<or> value_at body cond = None)))"

text \<open>The invariant: the blocks on some walk to here are bound, this one up to the position.\<close>

definition walked :: "kernel_body \<Rightarrow> nat \<Rightarrow> nat \<Rightarrow> value_id set \<Rightarrow> bool" where
  "walked body k p bound \<longleftrightarrow>
     (\<exists>xs. cfg_walk body xs \<and> last xs = k \<and> p \<le> length (bb_instrs (kb_blocks body ! k)) \<and>
       (\<forall>c \<in> set xs. set (bb_params (kb_blocks body ! c)) \<subseteq> bound) \<and>
       (\<forall>c \<in> set (butlast xs). set (bb_instrs (kb_blocks body ! c)) \<subseteq> bound) \<and>
       (\<forall>q < p. bb_instrs (kb_blocks body ! k) ! q \<in> bound))"

lemma at_point_walked:
  assumes "at_point body k p bound"
  shows "walked body k p bound"
  using assms
proof (induction rule: at_point.induct)
  case (at_entry basic)
  then show ?case unfolding walked_def
    by (intro exI [of _ "[kb_entry body]"]) (auto intro: walk_start)
next
  case (at_instr k p bound basic v)
  then show ?case unfolding walked_def by (fastforce simp: less_Suc_eq)
next
  case (at_branch k p bound basic br target)
  then obtain xs where xs: "cfg_walk body xs" "last xs = k"
    "\<forall>c \<in> set xs. set (bb_params (kb_blocks body ! c)) \<subseteq> bound"
    "\<forall>c \<in> set (butlast xs). set (bb_instrs (kb_blocks body ! c)) \<subseteq> bound"
    "\<forall>q < p. bb_instrs (kb_blocks body ! k) ! q \<in> bound"
    unfolding walked_def by blast
  have "cfg_edge body k (br_target br)" using at_branch by (auto simp: cfg_edge_def)
  then have "cfg_walk body (xs @ [br_target br])" using xs walk_step by blast
  moreover have "set (bb_instrs (kb_blocks body ! k)) \<subseteq> bound"
    using xs(5) at_branch by (auto simp: in_set_conv_nth)
  moreover have "set xs = insert k (set (butlast xs))"
    using xs(1,2) cfg_walk_simps by (metis append_butlast_last_id list.simps(15) rotate1.simps(2) set_rotate1)
  ultimately show ?case using xs at_branch unfolding walked_def
    by (intro exI [of _ "xs @ [br_target br]"]) auto
qed

lemma in_scope_bound:
  assumes "walked body k p bound" "params_agree body" "kb_entry body < length (kb_blocks body)"
    "body_dominance body = Some d"
    "out_of_scope body d (definition_sites body) k p v site = None" "value_at body v \<noteq> None"
  shows "v \<in> bound"
proof -
  from assms(1) obtain xs where xs: "cfg_walk body xs" "last xs = k"
    "\<forall>c \<in> set xs. set (bb_params (kb_blocks body ! c)) \<subseteq> bound"
    "\<forall>c \<in> set (butlast xs). set (bb_instrs (kb_blocks body ! c)) \<subseteq> bound"
    "\<forall>q < p. bb_instrs (kb_blocks body ! k) ! q \<in> bound" unfolding walked_def by blast
  have through: "c \<in> set xs" if "dominates d k c" for c
  proof -
    obtain d' where "body_dominance body = Some d'"
      "\<And>b c. dominates d' b c \<longleftrightarrow> cfg_reaches body b \<and> always_through body b c"
      by (rule body_dominance_correct [OF assms(3)]) (rule that)
    then show ?thesis using that assms(4) xs unfolding always_through_def by simp
  qed
  have own: "k \<in> set xs" using xs(1,2) by (metis cfg_walk_simps last_in_set)
  have before: "c \<in> set (butlast xs)" if "c \<in> set xs" "c \<noteq> k" for c
    using that xs(1,2) cfg_walk_simps by (metis append_butlast_last_id in_set_conv_decomp
        list.set_cases set_ConsD rotate1.simps(2) set_rotate1)
  show ?thesis
  proof (cases "value_at body v")
    case None
    then show ?thesis using assms(6) by simp
  next
    case (Some def)
    show ?thesis
    proof (cases "def")
      case (Block_param c index)
      then have "c = k \<or> dominates d k c" using assms(5) Some
        by (simp add: out_of_scope_def split: if_splits)
      then have "c \<in> set xs" using through own by auto
      moreover have "v \<in> set (bb_params (kb_blocks body ! c))"
        using assms(2) Some Block_param by (fastforce simp: params_agree_def)
      ultimately show ?thesis using xs(3) by blast
    next
      case (Instr op args classes)
      then obtain c q where site: "site_of (definition_sites body) v = Some (c, q)"
        and ok: "if c = k then q < p else dominates d k c"
        using assms(5) Some by (auto simp: out_of_scope_def split: option.splits if_splits)
      from definition_sites_listed [OF site] have
        "q < length (bb_instrs (kb_blocks body ! c))" "bb_instrs (kb_blocks body ! c) ! q = v"
        by (auto simp: listed_at_def)
      then show ?thesis
        using ok through before xs(4,5) nth_mem by (metis subsetD)
    qed
  qed
qed

text \<open>What the gate checked of one block, read off its answer.\<close>

lemma validate_facts:
  assumes "validate body = Ok ()"
  obtains d where "kb_entry body < length (kb_blocks body)" "body_dominance body = Some d"
    "\<And>k basic. nth_opt (kb_blocks body) k = Some basic \<Longrightarrow> check_block body (k, basic) = Ok ()"
    "\<And>k basic. nth_opt (kb_blocks body) k = Some basic \<Longrightarrow> check_return body (k, basic) = Ok ()"
    "\<And>k basic. nth_opt (kb_blocks body) k = Some basic \<Longrightarrow>
      check_scope body d (definition_sites body) (k, basic) = Ok ()"
    "\<And>expr. expr \<in> set (kb_barriers body) \<Longrightarrow>
      check_barrier body d (definition_sites body) (unavoidable_blocks body d) expr = Ok ()"
proof -
  from assms obtain d where d: "kb_entry body < length (kb_blocks body)" "body_dominance body = Some d"
    "check_each (check_block body) (enumerate 0 (kb_blocks body)) = Ok ()"
    "check_each (check_return body) (enumerate 0 (kb_blocks body)) = Ok ()"
    "check_each (check_scope body d (definition_sites body)) (enumerate 0 (kb_blocks body)) = Ok ()"
    "check_each (check_barrier body d (definition_sites body) (unavoidable_blocks body d))
      (kb_barriers body) = Ok ()"
    by (auto simp: validate_def Let_def check_each_unit split: if_splits)
  have "(k, basic) \<in> set (enumerate 0 (kb_blocks body))" if "nth_opt (kb_blocks body) k = Some basic"
    for k basic using that by (auto simp: in_set_enumerate_eq)
  with d show ?thesis by (intro that [of d]) (auto simp: check_each_unit)
qed

lemma in_scope_or_Ok [simp]:
  "in_scope_or body d sites k p site v = Ok u \<longleftrightarrow> out_of_scope body d sites k p v site = None"
  by (simp add: in_scope_or_def split: option.splits)

lemma unit_res: "r = Ok () \<longleftrightarrow> (\<exists>u. r = Ok u)"
  by auto

lemma check_instr_Ok:
  assumes "check_instr body k v = Ok ()"
  shows "\<exists>op args classes. value_at body v = Some (Instr op args classes) \<and>
    produces op = length classes \<and> (\<forall>n. arity op = Some n \<longrightarrow> length args = n) \<and>
    (\<forall>a \<in> set args. defined_at_all body a)"
proof (cases "value_at body v")
  case None
  then show ?thesis using assms by (simp add: check_instr_def)
next
  case (Some d)
  then show ?thesis using assms by (cases d) (auto simp: check_instr_def check_each_unit)
qed

lemma scope_instr:
  assumes "check_block body (k, basic) = Ok ()" "check_scope body d sites (k, basic) = Ok ()"
    "p < length (bb_instrs basic)"
  shows "\<exists>op args classes. value_at body (bb_instrs basic ! p) = Some (Instr op args classes) \<and>
    (\<forall>v \<in> set args. value_at body v \<noteq> None \<and> out_of_scope body d sites k p v (Use_instr op) = None)"
proof -
  let ?v = "bb_instrs basic ! p"
  have "check_instr body k ?v = Ok ()"
    using assms(1,3) by (auto simp: check_block_def check_each_unit)
  then obtain op args classes where v: "value_at body ?v = Some (Instr op args classes)"
    "\<forall>a \<in> set args. defined_at_all body a"
    using check_instr_Ok by blast
  have "(p, ?v) \<in> set (enumerate 0 (bb_instrs basic))" using assms(3) by (simp add: in_set_enumerate_eq)
  then have "\<forall>a \<in> set args. out_of_scope body d sites k p a (Use_instr op) = None"
    using assms(2) v(1) by (fastforce simp: check_scope_def check_each_unit)
  then show ?thesis using v by (auto simp: defined_at_all_def)
qed

lemma scope_branch:
  assumes "check_block body (k, basic) = Ok ()" "check_scope body d sites (k, basic) = Ok ()"
    "br \<in> set (branches basic)"
  shows "\<exists>target. nth_opt (kb_blocks body) (br_target br) = Some target \<and>
    length (br_args br) = length (bb_params target) \<and> (\<forall>v \<in> set (br_args br). value_at body v \<noteq> None \<and>
      out_of_scope body d sites k (length (bb_instrs basic)) v (Use_transfer k (br_target br)) = None)"
proof -
  have "check_branch body k br = Ok ()"
    using assms(1,3) by (auto simp: check_block_def check_each_unit)
  then obtain target where "nth_opt (kb_blocks body) (br_target br) = Some target"
    "length (br_args br) = length (bb_params target)" "\<forall>v \<in> set (br_args br). value_at body v \<noteq> None"
    by (auto simp: check_branch_def check_each_unit Let_def defined_at_all_def split: option.splits)
  moreover have "\<forall>v \<in> set (br_args br). out_of_scope body d sites k (length (bb_instrs basic)) v
      (Use_transfer k (br_target br)) = None"
    using assms(2,3) by (auto simp: check_scope_def check_each_unit Let_def)
  ultimately show ?thesis by blast
qed

lemma scope_return:
  assumes "check_return body (k, basic) = Ok ()" "check_scope body d sites (k, basic) = Ok ()"
    "bb_terminator basic = Return vs" "v \<in> set vs"
  shows "value_at body v \<noteq> None \<and>
    out_of_scope body d sites k (length (bb_instrs basic)) v (Use_return k) = None"
  using assms by (auto simp: check_return_def check_scope_def check_each_unit Let_def defined_at_all_def)

lemma scope_condition:
  assumes "check_scope body d sites (k, basic) = Ok ()" "bb_terminator basic = CondBr cond t f"
  shows "out_of_scope body d sites k (length (bb_instrs basic)) cond (Use_condition k) = None"
  using assms by (auto simp: check_scope_def check_each_unit Let_def)



section \<open>Barriers\<close>

text \<open>A barrier names a pair: a write, and a read that observes what it wrote.\<close>

definition slice_pair :: "kernel_body \<Rightarrow> barrier \<Rightarrow> bool" where
  "slice_pair body expr \<longleftrightarrow> (\<exists>c wargs wclasses c' args classes.
     value_at body (b_write expr) = Some (Instr (SliceWriteCall c) wargs wclasses) \<and>
     value_at body (b_read expr) = Some (Instr (SliceReadCall c') args classes) \<and>
     nth_opt args 2 = Some (b_write expr))"

definition buffer_pair :: "kernel_body \<Rightarrow> barrier \<Rightarrow> bool" where
  "buffer_pair body expr \<longleftrightarrow> (\<exists>c wargs wclasses c' args classes ordinal.
     value_at body (b_write expr) = Some (Instr (BufferWriteCall c) wargs wclasses) \<and>
     value_at body (b_read expr) = Some (Instr (OutputReadCall c') args classes) \<and>
     output_ordinal body (b_write expr) = Some ordinal \<and>
     output_ordinal body (b_read expr) = Some ordinal \<and>
     (\<exists>wb wp rb rp. listed_at body (b_write expr) (wb, wp) \<and> listed_at body (b_read expr) (rb, rp) \<and>
       (if wb = rb then wp < rp else always_through body rb wb)))"

definition ends_at_return :: "kernel_body \<Rightarrow> nat list \<Rightarrow> bool" where
  "ends_at_return body walk \<longleftrightarrow> cfg_walk body walk \<and> is_return (bb_terminator (kb_blocks body ! last walk))"

definition no_lane_skips :: "kernel_body \<Rightarrow> value_id \<Rightarrow> bool" where
  "no_lane_skips body v \<longleftrightarrow> (\<exists>k. k < length (kb_blocks body) \<and> v \<in> set (bb_instrs (kb_blocks body ! k)) \<and>
     cfg_reaches body k \<and> (\<forall>walk. ends_at_return body walk \<longrightarrow> k \<in> set walk))"

lemma unavoidable_blocks_correct:
  assumes "kb_entry body < length (kb_blocks body)" "body_dominance body = Some d"
    "nth_opt (unavoidable_blocks body d) k = Some True"
  shows "k < length (kb_blocks body) \<and> cfg_reaches body k \<and>
    (\<forall>walk. ends_at_return body walk \<longrightarrow> k \<in> set walk)"
proof -
  obtain d' where d: "body_dominance body = Some d'"
    "\<And>b. b < length (kb_blocks body) \<Longrightarrow> dm_reachable d' ! b \<longleftrightarrow> cfg_reaches body b"
    "\<And>b c. dominates d' b c \<longleftrightarrow> cfg_reaches body b \<and> always_through body b c"
    "square (dm_dominators d')" "length (dm_dominators d') = length (kb_blocks body)"
    by (rule body_dominance_correct [OF assms(1)]) (rule that)
  have [simp]: "d' = d" using d(1) assms(2) by simp
  have k: "k < length (kb_blocks body)" "dm_reachable d ! k"
    and all: "\<And>exit. exit < length (kb_blocks body) \<Longrightarrow> dm_reachable d ! exit \<Longrightarrow>
      is_return (bb_terminator (kb_blocks body ! exit)) \<Longrightarrow> dm_dominators d ! exit ! k"
    using assms(3) by (auto simp: unavoidable_blocks_def list_all_iff in_set_enumerate_eq)
  have "k \<in> set walk" if "ends_at_return body walk" for walk
  proof -
    let ?e = "last walk"
    have walk: "cfg_walk body walk" "is_return (bb_terminator (kb_blocks body ! ?e))"
      using that by (auto simp: ends_at_return_def)
    then have "cfg_reaches body ?e" by (auto simp: cfg_reaches_def)
    moreover from this have e: "?e < length (kb_blocks body)" by (rule cfg_reaches_bound)
    ultimately have "dm_dominators d ! ?e ! k" using all walk(2) d(2) by simp
    then have "dominates d ?e k" using e k(1) d(4,5)
      by (simp add: dominates_def nth_opt_def square_def)
    then show ?thesis using d(3) walk(1) by (auto simp: always_through_def)
  qed
  then show ?thesis using k d(2) by auto
qed

lemma barrier_write_kind_Ok:
  "barrier_write_kind body expr = Ok kind \<Longrightarrow>
   \<exists>c args classes. value_at body (b_write expr) = Some (Instr
     (case kind of Slice_write \<Rightarrow> SliceWriteCall c | Buffer_write \<Rightarrow> BufferWriteCall c) args classes)"
  by (auto simp: barrier_write_kind_def split: option.splits value_def.splits kernel_instr.splits)

lemma check_buffer_pair_Ok:
  assumes "check_buffer_pair body d (definition_sites body) expr = Ok ()"
    "\<And>b c. dominates d b c \<Longrightarrow> always_through body b c"
  shows "\<exists>ordinal. output_ordinal body (b_write expr) = Some ordinal \<and>
    output_ordinal body (b_read expr) = Some ordinal \<and>
    (\<exists>wb wp rb rp. listed_at body (b_write expr) (wb, wp) \<and> listed_at body (b_read expr) (rb, rp) \<and>
       (if wb = rb then wp < rp else always_through body rb wb))"
proof -
  obtain ordinal wb wp rb rp where o: "output_ordinal body (b_write expr) = Some ordinal"
    "output_ordinal body (b_read expr) = Some ordinal"
    and s: "site_of (definition_sites body) (b_write expr) = Some (wb, wp)"
      "site_of (definition_sites body) (b_read expr) = Some (rb, rp)"
      "if wb = rb then wp < rp else dominates d rb wb"
  proof (cases "output_ordinal body (b_write expr)")
    case None
    then show ?thesis using assms(1) by (simp add: check_buffer_pair_def)
  next
    case (Some ordinal)
    then show ?thesis using assms(1) that [of ordinal]
      by (auto simp: check_buffer_pair_def Let_def simp del: if_split split: if_split_asm option.split_asm)
  qed
  have "listed_at body (b_write expr) (wb, wp)" "listed_at body (b_read expr) (rb, rp)"
    using s definition_sites_listed by auto
  then show ?thesis using o s(3) assms(2) by metis
qed

text \<open>
  C22: every barrier of a validated body names a slice write with the slice read that
  observes it, or a buffer write with a read of the same output that it precedes on every
  walk; and the read is listed in a block that every walk to a return passes through.
\<close>

theorem validate_barriers:
  assumes "validate body = Ok ()" "expr \<in> set (kb_barriers body)"
  shows "(slice_pair body expr \<or> buffer_pair body expr) \<and> no_lane_skips body (b_read expr)"
proof -
  obtain d where d: "kb_entry body < length (kb_blocks body)" "body_dominance body = Some d"
    "check_barrier body d (definition_sites body) (unavoidable_blocks body d) expr = Ok ()"
    by (rule validate_facts [OF assms(1)]) (use assms(2) that in blast)
  have dom: "always_through body b c" if "dominates d b c" for b c
  proof -
    obtain d' where "body_dominance body = Some d'"
      "\<And>b c. dominates d' b c \<longleftrightarrow> cfg_reaches body b \<and> always_through body b c"
      by (rule body_dominance_correct [OF d(1)]) (rule that)
    then show ?thesis using that d(2) by simp
  qed
  obtain kind where kind: "barrier_write_kind body expr = Ok kind"
    using d(3) by (auto simp: check_barrier_def)
  from barrier_write_kind_Ok [OF kind] obtain c wargs wclasses where w:
    "value_at body (b_write expr) = Some (Instr
     (case kind of Slice_write \<Rightarrow> SliceWriteCall c | Buffer_write \<Rightarrow> BufferWriteCall c) wargs wclasses)"
    by blast
  obtain op args classes where r: "value_at body (b_read expr) = Some (Instr op args classes)"
    using d(3) kind by (auto simp: check_barrier_def split: option.splits value_def.splits)
  have "slice_pair body expr \<or> buffer_pair body expr"
  proof (cases kind)
    case Slice_write
    then obtain c' where "op = SliceReadCall c'" "nth_opt args 2 = Some (b_write expr)"
      using d(3) kind r by (auto simp: check_barrier_def is_slice_read_def split: kernel_instr.splits)
    then show ?thesis using w r Slice_write by (auto simp: slice_pair_def)
  next
    case Buffer_write
    then obtain c' where op: "op = OutputReadCall c'"
      and pair: "check_buffer_pair body d (definition_sites body) expr = Ok ()"
      using d(3) kind r by (auto simp: check_barrier_def is_output_read_def split: kernel_instr.splits)
    from check_buffer_pair_Ok [OF pair dom] op w r Buffer_write show ?thesis
      unfolding buffer_pair_def by fastforce
  qed
  moreover obtain k where k: "block_of body (b_read expr) = Some k"
    "nth_opt (unavoidable_blocks body d) k = Some True"
    using d(3) kind r by (auto simp: check_barrier_def split: option.splits)
  moreover have "b_read expr \<in> set (bb_instrs (kb_blocks body ! k))"
    using k(1) by (auto simp: block_of_def find_pos_Some)
  ultimately show ?thesis
    using unavoidable_blocks_correct [OF d(1,2) k(2)] by (auto simp: no_lane_skips_def)
qed

text \<open>A lane writes its own slot, every lane reads slot zero, and a barrier stands between.\<close>

definition staged_body :: kernel_body where
  "staged_body = \<lparr>kb_values = [Block_param 0 0, Instr (Const Int_class 0) [] [Int_class],
       Instr (SliceWriteCall Int_class) [1, 0, 0] [Int_class],
       Instr (SliceReadCall Int_class) [1, 1, 2] [Int_class]],
     kb_blocks = [\<lparr>bb_params = [0], bb_instrs = [1, 2, 3], bb_terminator = Return [3]\<rparr>],
     kb_entry = 0, kb_exact = False, kb_barriers = [\<lparr>b_write = 2, b_read = 3\<rparr>]\<rparr>"

theorem validate_barriers_witness: "no_lane_skips staged_body 3"
proof -
  have "validate staged_body = Ok ()" by code_simp
  moreover have "\<lparr>b_write = 2, b_read = 3\<rparr> \<in> set (kb_barriers staged_body)"
    by (simp add: staged_body_def)
  ultimately have "(slice_pair staged_body \<lparr>b_write = 2, b_read = 3\<rparr> \<or>
      buffer_pair staged_body \<lparr>b_write = 2, b_read = 3\<rparr>) \<and>
      no_lane_skips staged_body (b_read \<lparr>b_write = 2, b_read = 3\<rparr>)"
    by (rule validate_barriers)
  then show ?thesis by simp
qed

section \<open>What the gate lets through\<close>

text \<open>
  the gate accepts a body whose branch condition is no value of the body: a condition is
  looked up in its scope check only, which answers nothing for a value that does not exist.
\<close>

theorem validate_misses_condition:
  "\<exists>body cond t f. validate body = Ok () \<and> params_agree body \<and> at_point body 0 0 {0} \<and>
     bb_instrs (kb_blocks body ! 0) = [] \<and> bb_terminator (kb_blocks body ! 0) = CondBr cond t f \<and>
     value_at body cond = None"
proof -
  define target :: br where "target = \<lparr>br_target = 1, br_args = []\<rparr>"
  define body where "body = \<lparr>kb_values = [Block_param 0 0],
     kb_blocks = [\<lparr>bb_params = [0], bb_instrs = [], bb_terminator = CondBr 7 target target\<rparr>,
       \<lparr>bb_params = [], bb_instrs = [], bb_terminator = Return [0]\<rparr>],
     kb_entry = 0, kb_exact = False, kb_barriers = []\<rparr>"
  have "validate body = Ok ()" unfolding body_def target_def by code_simp
  moreover have "params_agree body"
    by (auto simp: params_agree_def body_def value_at_def nth_opt_def unat_eq_zero split: if_splits)
  moreover have "at_point body 0 0 {0}"
    using at_entry [of body] by (simp add: body_def nth_opt_def)
  moreover have "value_at body 7 = None" by (simp add: value_at_def body_def)
  ultimately show ?thesis
    by (intro exI [of _ body] exI [of _ 7] exI [of _ target]) (simp add: body_def)
qed

end
