(* ===== verification/Body_Cone.thy ===== *)
theory Body_Cone
  imports Body_Validate
begin

text \<open>
  What a value of a body depends on (\<open>lichen-kernel-ir/src/body.rs\<close>): the arguments the branches
  hand each block, the search for a dependence on the lane, and the cone a merge recomputes at
  another address.
\<close>

section \<open>Dependence\<close>

definition incoming_arguments :: "kernel_body \<Rightarrow> value_id list list list" where
  "incoming_arguments body =
     fold (\<lambda>block incoming. fold (\<lambda>branch incoming.
           if br_target branch < length incoming
           then incoming[br_target branch := incoming ! br_target branch @ [br_args branch]]
           else incoming)
         (branches block) incoming)
       (kb_blocks body) (replicate (length (kb_blocks body)) [])"

text \<open>What the branches into a parameter's block hand over at its index.\<close>

definition handed :: "value_id list list list \<Rightarrow> nat \<Rightarrow> u32 \<Rightarrow> value_id option list" where
  "handed incoming block index =
     map (\<lambda>arguments. nth_opt arguments (unat index))
       (case nth_opt incoming block of None \<Rightarrow> [] | Some ls \<Rightarrow> ls)"

lemma unseen_less:
  fixes v :: value_id
  assumes "v \<notin> seen"
  shows "card (- insert v seen) < card (- seen)"
  using assms by (intro psubset_card_mono) auto

text \<open>The stack's top is the head of the list.\<close>

function depends_loop ::
  "kernel_body \<Rightarrow> value_id list list list \<Rightarrow> value_id \<Rightarrow> value_id set \<Rightarrow> value_id list \<Rightarrow> bool" where
  "depends_loop body incoming lane seen [] = False"
| "depends_loop body incoming lane seen (current # stack) =
     (if current = lane then True
      else if current \<in> seen then depends_loop body incoming lane seen stack
      else (case value_at body current of
          Some (Instr _ args _) \<Rightarrow>
            depends_loop body incoming lane (insert current seen) (rev args @ stack)
        | Some (Block_param block index) \<Rightarrow>
            (let arguments = handed incoming block index in
             if None \<in> set arguments then True
             else depends_loop body incoming lane (insert current seen)
                 (rev (map the arguments) @ stack))
        | None \<Rightarrow> depends_loop body incoming lane (insert current seen) stack))"
  by pat_completeness auto

termination
  by (relation "measures [\<lambda>(body, incoming, lane, seen, stack). card (- seen),
      \<lambda>(body, incoming, lane, seen, stack). length stack]") (auto simp: unseen_less)

definition depends_on :: "kernel_body \<Rightarrow> value_id \<Rightarrow> value_id \<Rightarrow> value_id list list list \<Rightarrow> bool" where
  "depends_on body v lane incoming = depends_loop body incoming lane {} [v]"

section \<open>Cones\<close>

datatype cone_origin = Live value_id | Address | Rebuilt

datatype not_index_local =
    Write_is_not_indexed value_id
  | Slice_read value_id
  | Kernel_call value_id
  | Carried value_id

record cone =
  c_order :: "value_id list"
  c_origin :: "value_id \<rightharpoonup> cone_origin"

definition cone_reused :: "value_id \<Rightarrow> cone" where
  "cone_reused v = \<lparr>c_order = [v], c_origin = [v \<mapsto> Live v]\<rparr>"

definition origin_of :: "cone \<Rightarrow> value_id \<Rightarrow> cone_origin" where
  "origin_of c v = (case c_origin c v of None \<Rightarrow> Live v | Some origin \<Rightarrow> origin)"

text \<open>A value is pushed back when it is first met, and joins the order when it is met again.\<close>

function cone_order ::
  "kernel_body \<Rightarrow> value_id set \<Rightarrow> value_id list \<Rightarrow> value_id list \<Rightarrow> value_id list" where
  "cone_order body entered order [] = order"
| "cone_order body entered order (v # work) =
     (if v \<in> entered then cone_order body entered (order @ [v]) work
      else cone_order body (insert v entered) order
        (case value_at body v of
           Some (Instr _ args _) \<Rightarrow> rev args @ v # work
         | _ \<Rightarrow> v # work))"
  by pat_completeness auto

termination
  by (relation "measures [\<lambda>(body, entered, order, work). card (- entered),
      \<lambda>(body, entered, order, work). length work]") (auto simp: unseen_less)

definition cone_value ::
  "kernel_body \<Rightarrow> value_id \<Rightarrow> value_id \<Rightarrow> (value_id \<rightharpoonup> cone_origin) \<Rightarrow> (cone_origin, not_index_local) res" where
  "cone_value body written v origin =
     (case value_at body v of
        Some (Block_param block _) \<Rightarrow>
          if v = written then Ok Address
          else if block = kb_entry body then Ok (Live v)
          else Err (Carried v)
      | Some (Instr op args _) \<Rightarrow>
          (case op of
             SliceReadCall _ \<Rightarrow> Err (Slice_read v)
           | CallKernel _ \<Rightarrow> Err (Kernel_call v)
           | _ \<Rightarrow> Ok (if list_ex (\<lambda>arg. origin arg \<in> {Some Rebuilt, Some Address}) args
                 then Rebuilt else Live v))
      | None \<Rightarrow> Ok (Live v))"

definition cone_step ::
  "kernel_body \<Rightarrow> value_id \<Rightarrow> value_id \<Rightarrow> (value_id \<rightharpoonup> cone_origin) \<Rightarrow>
   (value_id \<rightharpoonup> cone_origin, not_index_local) res" where
  "cone_step body written v origin =
     res_bind (cone_value body written v origin) (\<lambda>resolved. Ok (origin(v \<mapsto> resolved)))"

definition index_local_cone ::
  "kernel_body \<Rightarrow> value_id \<Rightarrow> value_id \<Rightarrow> value_id option \<Rightarrow> (cone, not_index_local) res" where
  "index_local_cone body root written lane =
     (if lane \<noteq> Some written then Err (Write_is_not_indexed written)
      else (let order = cone_order body {} [] [root] in
        res_bind (fold_res (cone_step body written) order Map.empty) (\<lambda>origin.
        Ok \<lparr>c_order = order, c_origin = origin\<rparr>)))"

section \<open>The search finds every dependence\<close>

lemma set_map_the: "None \<notin> set xs \<Longrightarrow> set (map the xs) = {w. Some w \<in> set xs}"
proof (induction xs)
  case (Cons x xs)
  then show ?case by (cases x) auto
qed simp

text \<open>\<open>feeds v w\<close>: computing \<open>v\<close> takes \<open>w\<close>, along an operand or along any branch into its block.\<close>

definition feeds :: "kernel_body \<Rightarrow> value_id list list list \<Rightarrow> value_id \<Rightarrow> value_id \<Rightarrow> bool" where
  "feeds body incoming v w \<longleftrightarrow>
     (case value_at body v of
        Some (Instr _ args _) \<Rightarrow> w \<in> set args
      | Some (Block_param block index) \<Rightarrow> Some w \<in> set (handed incoming block index)
      | None \<Rightarrow> False)"

text \<open>A parameter some branch into its block hands nothing for.\<close>

definition unfed :: "kernel_body \<Rightarrow> value_id list list list \<Rightarrow> value_id \<Rightarrow> bool" where
  "unfed body incoming v \<longleftrightarrow>
     (case value_at body v of
        Some (Block_param block index) \<Rightarrow> None \<in> set (handed incoming block index)
      | _ \<Rightarrow> False)"

definition meets :: "kernel_body \<Rightarrow> value_id list list list \<Rightarrow> value_id \<Rightarrow> value_id \<Rightarrow> bool" where
  "meets body incoming lane v \<longleftrightarrow>
     (\<exists>w. (feeds body incoming)\<^sup>*\<^sup>* v w \<and> (w = lane \<or> unfed body incoming w))"

lemma meets_step: "feeds body incoming v w \<Longrightarrow> meets body incoming lane w \<Longrightarrow> meets body incoming lane v"
  unfolding meets_def by (auto intro: converse_rtranclp_into_rtranclp)

lemma meets_here: "v = lane \<or> unfed body incoming v \<Longrightarrow> meets body incoming lane v"
  unfolding meets_def by blast

lemma meets_cases:
  assumes "meets body incoming lane v" "v \<noteq> lane" "\<not> unfed body incoming v"
  shows "\<exists>w. feeds body incoming v w \<and> meets body incoming lane w"
  using assms unfolding meets_def by (metis converse_rtranclpE)

text \<open>What a search has seen leads out of it only through what is still on its stack.\<close>

definition seen_ok :: "kernel_body \<Rightarrow> value_id list list list \<Rightarrow> value_id \<Rightarrow> value_id set \<Rightarrow> value_id set \<Rightarrow> bool" where
  "seen_ok body incoming lane seen stack \<longleftrightarrow> (\<forall>v \<in> seen. v \<noteq> lane \<and> \<not> unfed body incoming v \<and>
     (\<forall>w. feeds body incoming v w \<longrightarrow> w \<in> seen \<or> w \<in> stack))"

lemma seen_ok_leaves:
  assumes "seen_ok body incoming lane seen stack" "meets body incoming lane v" "v \<in> seen"
  shows "\<exists>w \<in> stack. meets body incoming lane w"
proof -
  from assms(2) obtain t where t: "(feeds body incoming)\<^sup>*\<^sup>* v t" "t = lane \<or> unfed body incoming t"
    by (auto simp: meets_def)
  from t(1) assms(3) show ?thesis
  proof (induction rule: converse_rtranclp_induct)
    case base
    then show ?case using assms(1) t(2) by (auto simp: seen_ok_def)
  next
    case (step y z)
    then have "z \<in> seen \<or> z \<in> stack" using assms(1) by (auto simp: seen_ok_def)
    moreover have "meets body incoming lane z" using step(2) t(2) by (auto simp: meets_def)
    ultimately show ?case using step.IH by blast
  qed
qed

lemma depends_loop_correct:
  assumes "seen_ok body incoming lane seen (set stack)"
  shows "depends_loop body incoming lane seen stack \<longleftrightarrow> (\<exists>v \<in> set stack. meets body incoming lane v)"
  using assms
proof (induction body incoming lane seen stack rule: depends_loop.induct)
  case (1 body incoming lane seen)
  then show ?case by simp
next
  case (2 body incoming lane seen current stack)
  consider "current = lane" | "current \<noteq> lane" "current \<in> seen" | "current \<noteq> lane" "current \<notin> seen" by blast
  then show ?case
  proof cases
    case 1
    then show ?thesis using meets_here by auto
  next
    case 2
    then have ok: "seen_ok body incoming lane seen (set stack)"
      using "2.prems" by (auto simp: seen_ok_def)
    have "meets body incoming lane current \<Longrightarrow> \<exists>v \<in> set stack. meets body incoming lane v"
      using seen_ok_leaves [OF ok] 2(2) by blast
    then show ?thesis using "2.IH"(1) [OF 2 ok] 2 by auto
  next
    case 3
    have fed: "seen_ok body incoming lane (insert current seen) (S \<union> set stack)"
      if "\<not> unfed body incoming current" "\<And>w. feeds body incoming current w \<Longrightarrow> w \<in> S" for S
      using "2.prems" 3 that unfolding seen_ok_def by auto
    have top: "meets body incoming lane current \<longleftrightarrow> (\<exists>w \<in> S. meets body incoming lane w)"
      if "\<not> unfed body incoming current" "\<And>w. feeds body incoming current w \<longleftrightarrow> w \<in> S" for S
      using that 3 meets_cases meets_step by blast
    show ?thesis
    proof (cases "value_at body current")
      case None
      then have *: "\<not> unfed body incoming current" "\<And>w. feeds body incoming current w \<longleftrightarrow> w \<in> {}"
        by (auto simp: unfed_def feeds_def)
      have "seen_ok body incoming lane (insert current seen) (set stack)"
        using fed [of "{}"] * by simp
      from "2.IH"(2) [OF 3 None this] top [OF *] show ?thesis using 3 None by simp
    next
      case (Some d)
      show ?thesis
      proof (cases d)
        case (Instr op args classes)
        then have *: "\<not> unfed body incoming current" "\<And>w. feeds body incoming current w \<longleftrightarrow> w \<in> set args"
          using Some by (auto simp: unfed_def feeds_def)
        have "seen_ok body incoming lane (insert current seen) (set (rev args @ stack))"
          using fed [of "set args"] * by simp
        from "2.IH"(4) [OF 3 Some Instr this] top [OF *] show ?thesis using 3 Some Instr
          by (simp add: bex_Un)
      next
        case (Block_param block index)
        define arguments where "arguments = handed incoming block index"
        show ?thesis
        proof (cases "None \<in> set arguments")
          case True
          then have "meets body incoming lane current"
            using Some Block_param by (intro meets_here) (simp add: unfed_def arguments_def)
          then show ?thesis using 3 Some Block_param True by (simp add: arguments_def Let_def)
        next
          case False
          have the: "set (map the arguments) = {w. Some w \<in> set arguments}"
            using False by (rule set_map_the)
          then have *: "\<not> unfed body incoming current"
            "\<And>w. feeds body incoming current w \<longleftrightarrow> w \<in> set (map the arguments)"
            using Some Block_param False by (auto simp: unfed_def feeds_def arguments_def)
          have "seen_ok body incoming lane (insert current seen) (set (rev (map the arguments) @ stack))"
            using fed [of "set (map the arguments)"] * by simp
          from "2.IH"(3) [OF 3 Some Block_param arguments_def False this] top [OF *]
          show ?thesis using 3 Some Block_param False by (simp add: arguments_def Let_def bex_Un)
        qed
      qed
    qed
  qed
qed

lemma depends_on_correct: "depends_on body v lane incoming \<longleftrightarrow> meets body incoming lane v"
  using depends_loop_correct [of body incoming lane "{}" "[v]"]
  by (simp add: depends_on_def seen_ok_def)

section \<open>The arguments that come in\<close>

lemma incoming_block:
  "length (fold (\<lambda>branch incoming.
           if br_target branch < length incoming
           then incoming[br_target branch := incoming ! br_target branch @ [br_args branch]]
           else incoming) brs incoming) = length incoming \<and>
   (b < length incoming \<longrightarrow> set (fold (\<lambda>branch incoming.
           if br_target branch < length incoming
           then incoming[br_target branch := incoming ! br_target branch @ [br_args branch]]
           else incoming) brs incoming ! b) =
      set (incoming ! b) \<union> {br_args br |br. br \<in> set brs \<and> br_target br = b})"
proof (induction brs arbitrary: incoming)
  case (Cons br brs)
  define inc where "inc = (if br_target br < length incoming
    then incoming[br_target br := incoming ! br_target br @ [br_args br]] else incoming)"
  have len: "length inc = length incoming" by (simp add: inc_def)
  have "b < length incoming \<Longrightarrow> set (inc ! b) = set (incoming ! b) \<union>
      (if br_target br = b then {br_args br} else {})"
    by (auto simp: inc_def nth_list_update)
  then show ?case using Cons.IH [of inc] len unfolding inc_def [symmetric]
    by (auto simp: inc_def [symmetric])
qed simp

lemma incoming_fold:
  "length (fold (\<lambda>block incoming. fold (\<lambda>branch incoming.
           if br_target branch < length incoming
           then incoming[br_target branch := incoming ! br_target branch @ [br_args branch]]
           else incoming) (branches block) incoming) blocks incoming) = length incoming \<and>
   (b < length incoming \<longrightarrow> set (fold (\<lambda>block incoming. fold (\<lambda>branch incoming.
           if br_target branch < length incoming
           then incoming[br_target branch := incoming ! br_target branch @ [br_args branch]]
           else incoming) (branches block) incoming) blocks incoming ! b) =
      set (incoming ! b) \<union>
      {br_args br |br basic. basic \<in> set blocks \<and> br \<in> set (branches basic) \<and> br_target br = b})"
proof (induction blocks arbitrary: incoming)
  case (Cons basic blocks)
  let ?f = "\<lambda>branch incoming. if br_target branch < length incoming
     then incoming[br_target branch := incoming ! br_target branch @ [br_args branch]] else incoming"
  define inc where "inc = fold ?f (branches basic) incoming"
  have "length inc = length incoming" "b < length incoming \<Longrightarrow> set (inc ! b) =
      set (incoming ! b) \<union> {br_args br |br. br \<in> set (branches basic) \<and> br_target br = b}"
    using incoming_block [where brs = "branches basic" and incoming = incoming and b = b]
    unfolding inc_def by auto
  then show ?case using Cons.IH [of inc] unfolding fold_Cons o_apply inc_def [symmetric] by auto
qed simp

lemma handed_incoming:
  "set (handed (incoming_arguments body) block index) = (if block < length (kb_blocks body)
     then {w. \<exists>basic br. basic \<in> set (kb_blocks body) \<and> br \<in> set (branches basic) \<and>
       br_target br = block \<and> nth_opt (br_args br) (unat index) = w} else {})"
proof -
  have inc: "length (incoming_arguments body) = length (kb_blocks body)"
    "block < length (kb_blocks body) \<Longrightarrow> set (incoming_arguments body ! block) =
      {br_args br |br basic. basic \<in> set (kb_blocks body) \<and> br \<in> set (branches basic) \<and> br_target br = block}"
    using incoming_fold [where blocks = "kb_blocks body"
        and incoming = "replicate (length (kb_blocks body)) []" and b = block]
    by (auto simp: incoming_arguments_def)
  show ?thesis
  proof (cases "block < length (kb_blocks body)")
    case True
    then have "nth_opt (incoming_arguments body) block = Some (incoming_arguments body ! block)"
      using inc(1) by simp
    then show ?thesis using inc(2) True by (auto simp: handed_def simp del: nth_opt_Some nth_opt_None)
  next
    case False
    then have "nth_opt (incoming_arguments body) block = None" using inc(1) by simp
    then show ?thesis using False by (simp add: handed_def del: nth_opt_None)
  qed
qed

text \<open>
  The value a value is computed from: an operand of its instruction, or, for a block's parameter,
  what some branch of the body hands that block at the parameter's index.
\<close>

definition reads_value :: "kernel_body \<Rightarrow> value_id \<Rightarrow> value_id \<Rightarrow> bool" where
  "reads_value body v w \<longleftrightarrow>
     (\<exists>op args classes. value_at body v = Some (Instr op args classes) \<and> w \<in> set args) \<or>
     (\<exists>block index basic br. value_at body v = Some (Block_param block index) \<and>
        block < length (kb_blocks body) \<and> basic \<in> set (kb_blocks body) \<and> br \<in> set (branches basic) \<and>
        br_target br = block \<and> nth_opt (br_args br) (unat index) = Some w)"

definition unfed_param :: "kernel_body \<Rightarrow> value_id \<Rightarrow> bool" where
  "unfed_param body v \<longleftrightarrow>
     (\<exists>block index basic br. value_at body v = Some (Block_param block index) \<and>
        block < length (kb_blocks body) \<and> basic \<in> set (kb_blocks body) \<and> br \<in> set (branches basic) \<and>
        br_target br = block \<and> nth_opt (br_args br) (unat index) = None)"

lemma feeds_reads: "feeds body (incoming_arguments body) = reads_value body"
proof (intro ext)
  fix v w
  show "feeds body (incoming_arguments body) v w = reads_value body v w"
  proof (cases "value_at body v")
    case None
    then show ?thesis by (simp add: feeds_def reads_value_def)
  next
    case (Some d)
    then show ?thesis
      by (cases d) (auto simp: feeds_def reads_value_def handed_incoming simp del: nth_opt_Some)
  qed
qed

lemma unfed_reads: "unfed body (incoming_arguments body) v = unfed_param body v"
proof (cases "value_at body v")
  case None
  then show ?thesis by (simp add: unfed_def unfed_param_def)
next
  case (Some d)
  then show ?thesis
    by (cases d) (auto simp: unfed_def unfed_param_def handed_incoming simp del: nth_opt_None)
qed

text \<open>
  C23: over the arguments a body's branches hand over, \<open>depends_on\<close> answers yes exactly if a
  chain of operands and of arguments of any branch leads from the value to the lane, or to a
  parameter that some branch into its block hands nothing for.
\<close>

theorem depends_on_is_dependence:
  "depends_on body v lane (incoming_arguments body) \<longleftrightarrow>
     (\<exists>w. (reads_value body)\<^sup>*\<^sup>* v w \<and> (w = lane \<or> unfed_param body w))"
  by (simp only: depends_on_correct meets_def feeds_reads unfed_reads)

section \<open>The cone is complete, ordered, and local\<close>

definition operands_of :: "kernel_body \<Rightarrow> value_id \<Rightarrow> value_id set" where
  "operands_of body v = (case value_at body v of Some (Instr _ args _) \<Rightarrow> set args | _ \<Rightarrow> {})"

definition operand :: "kernel_body \<Rightarrow> value_id \<Rightarrow> value_id \<Rightarrow> bool" where
  "operand body v w \<longleftrightarrow> w \<in> operands_of body v"

text \<open>No instruction reads itself through its operands: \<open>rank\<close> is where it stands.\<close>

definition ranked :: "kernel_body \<Rightarrow> (value_id \<Rightarrow> nat) \<Rightarrow> bool" where
  "ranked body rank \<longleftrightarrow> (\<forall>v w. operand body v w \<longrightarrow> rank w < rank v)"

definition operands_first :: "kernel_body \<Rightarrow> value_id list \<Rightarrow> bool" where
  "operands_first body order \<longleftrightarrow>
     (\<forall>xs v ys. order = xs @ v # ys \<longrightarrow> operands_of body v \<subseteq> set xs)"

lemma operands_first_snoc:
  assumes "operands_first body order" "operands_of body v \<subseteq> set order"
  shows "operands_first body (order @ [v])"
  unfolding operands_first_def
proof (intro allI impI)
  fix xs u ys assume "order @ [v] = xs @ u # ys"
  then consider "ys = []" "order = xs" "u = v" | zs where "ys = zs @ [v]" "order = xs @ u # zs"
    by (cases ys rule: rev_cases) auto
  then show "operands_of body u \<subseteq> set xs"
    using assms by cases (auto simp: operands_first_def)
qed

lemma operands_first_in:
  assumes "operands_first body order" "v \<in> set order"
  shows "operands_of body v \<subseteq> set order"
proof -
  obtain xs ys where "order = xs @ v # ys" using split_list [OF assms(2)] by blast
  then show ?thesis using assms(1) by (fastforce simp: operands_first_def)
qed

text \<open>
  A value that is entered and not yet ordered waits on the stack below every operand it still
  misses, and below values of smaller rank only.
\<close>

definition cone_inv ::
  "kernel_body \<Rightarrow> (value_id \<Rightarrow> nat) \<Rightarrow> value_id set \<Rightarrow> value_id list \<Rightarrow> value_id list \<Rightarrow> bool" where
  "cone_inv body rank entered order work \<longleftrightarrow> set order \<subseteq> entered \<and> operands_first body order \<and>
     (\<forall>v \<in> entered - set order. \<exists>xs ys. work = xs @ v # ys \<and> v \<notin> set xs \<and>
        operands_of body v \<subseteq> set order \<union> set xs \<and> (\<forall>x \<in> set xs. rank x < rank v))"

lemma cone_inv_ordered:
  assumes "cone_inv body rank entered order (v # work)" "v \<in> entered"
  shows "cone_inv body rank entered (order @ [v]) work"
proof -
  have ops: "operands_of body v \<subseteq> set order"
  proof (cases "v \<in> set order")
    case True
    then show ?thesis using assms operands_first_in by (auto simp: cone_inv_def)
  next
    case False
    then obtain xs ys where "v # work = xs @ v # ys" "v \<notin> set xs"
      "operands_of body v \<subseteq> set order \<union> set xs" using assms unfolding cone_inv_def by blast
    then show ?thesis by (cases xs) auto
  qed
  have "\<exists>xs ys. work = xs @ u # ys \<and> u \<notin> set xs \<and> operands_of body u \<subseteq> set (order @ [v]) \<union> set xs \<and>
      (\<forall>x \<in> set xs. rank x < rank u)" if u: "u \<in> entered - set (order @ [v])" for u
  proof -
    have "u \<in> entered - set order" using u by auto
    then obtain xs ys where x: "v # work = xs @ u # ys" "u \<notin> set xs"
      "operands_of body u \<subseteq> set order \<union> set xs" "\<forall>x \<in> set xs. rank x < rank u"
      using assms(1) unfolding cone_inv_def by blast
    then obtain zs where "xs = v # zs" using u by (cases xs) auto
    then show ?thesis using x by (intro exI [of _ zs] exI [of _ ys]) auto
  qed
  then show ?thesis using assms ops operands_first_snoc unfolding cone_inv_def by auto
qed

lemma cone_inv_entered:
  assumes "cone_inv body rank entered order (v # work)" "v \<notin> entered" "ranked body rank"
    "set pushed = operands_of body v"
  shows "cone_inv body rank (insert v entered) order (pushed @ v # work)"
proof -
  have less: "\<forall>x \<in> set pushed. rank x < rank v"
    using assms(3,4) by (auto simp: ranked_def operand_def)
  have "\<exists>xs ys. pushed @ v # work = xs @ u # ys \<and> u \<notin> set xs \<and>
      operands_of body u \<subseteq> set order \<union> set xs \<and> (\<forall>x \<in> set xs. rank x < rank u)"
    if u: "u \<in> insert v entered - set order" for u
  proof (cases "u = v")
    case True
    then show ?thesis using assms(4) less by (intro exI [of _ pushed] exI [of _ work]) auto
  next
    case False
    then have "u \<in> entered - set order" using u by auto
    then obtain xs ys where x: "v # work = xs @ u # ys" "u \<notin> set xs"
      "operands_of body u \<subseteq> set order \<union> set xs" "\<forall>x \<in> set xs. rank x < rank u"
      using assms(1) unfolding cone_inv_def by blast
    then obtain zs where z: "xs = v # zs" using False by (cases xs) auto
    then have "rank v < rank u" using x(4) by simp
    then have "\<forall>x \<in> set pushed. rank x < rank u" using less by fastforce
    moreover from this have "u \<notin> set pushed" by auto
    ultimately show ?thesis using x z by (intro exI [of _ "pushed @ xs"] exI [of _ ys]) auto
  qed
  then show ?thesis using assms(1) unfolding cone_inv_def by auto
qed

lemma cone_order_correct:
  assumes "ranked body rank" "cone_inv body rank entered order work"
  shows "operands_first body (cone_order body entered order work) \<and>
    set order \<union> set work \<subseteq> set (cone_order body entered order work) \<and>
    set (cone_order body entered order work) \<subseteq>
      set order \<union> {w. \<exists>v \<in> set work. (operand body)\<^sup>*\<^sup>* v w}"
  using assms
proof (induction body entered order work rule: cone_order.induct)
  case (1 body entered order)
  then show ?case by (simp add: cone_inv_def)
next
  case (2 body entered order v work)
  show ?case
  proof (cases "v \<in> entered")
    case True
    from "2.IH"(1) [OF True 2(3) cone_inv_ordered [OF 2(4) True]] True show ?thesis by auto
  next
    case False
    define pushed where "pushed = (case value_at body v of Some (Instr _ args _) \<Rightarrow> rev args | _ \<Rightarrow> [])"
    have ops: "set pushed = operands_of body v"
      by (auto simp: pushed_def operands_of_def split: option.splits value_def.splits)
    have work: "(case value_at body v of Some (Instr _ args _) \<Rightarrow> rev args @ v # work | _ \<Rightarrow> v # work) =
        pushed @ v # work"
      by (auto simp: pushed_def split: option.splits value_def.splits)
    have down: "(operand body)\<^sup>*\<^sup>* v w" if "x \<in> set pushed" "(operand body)\<^sup>*\<^sup>* x w" for x w
      using that ops by (auto simp: operand_def intro: converse_rtranclp_into_rtranclp)
    have "cone_inv body rank (insert v entered) order (pushed @ v # work)"
      by (rule cone_inv_entered [OF 2(4) False 2(3) ops])
    note IH = "2.IH"(2) [OF False 2(3), unfolded work, OF this]
    have "cone_order body entered order (v # work) =
        cone_order body (insert v entered) order (pushed @ v # work)"
      using False work by simp
    moreover have "{w. \<exists>x \<in> set (pushed @ v # work). (operand body)\<^sup>*\<^sup>* x w} \<subseteq>
        {w. \<exists>x \<in> set (v # work). (operand body)\<^sup>*\<^sup>* x w}"
      using down by auto
    then have "set (cone_order body (insert v entered) order (pushed @ v # work)) \<subseteq>
        set order \<union> {w. \<exists>x \<in> set (v # work). (operand body)\<^sup>*\<^sup>* x w}"
      using IH by blast
    moreover have "set order \<union> set (v # work) \<subseteq>
        set (cone_order body (insert v entered) order (pushed @ v # work))"
      using IH by auto
    ultimately show ?thesis using IH by simp
  qed
qed

lemma operands_first_closed:
  assumes "operands_first body order" "v \<in> set order" "(operand body)\<^sup>*\<^sup>* v w"
  shows "w \<in> set order"
  using assms(3,2)
  by (induction rule: rtranclp_induct) (use operands_first_in [OF assms(1)] in \<open>auto simp: operand_def\<close>)

lemma cone_order_root:
  assumes "ranked body rank"
  shows "operands_first body (cone_order body {} [] [root])"
    and "set (cone_order body {} [] [root]) = {w. (operand body)\<^sup>*\<^sup>* root w}"
proof -
  have "cone_inv body rank {} [] [root]" by (simp add: cone_inv_def operands_first_def)
  note c = cone_order_correct [OF assms this]
  then show first: "operands_first body (cone_order body {} [] [root])" by blast
  show "set (cone_order body {} [] [root]) = {w. (operand body)\<^sup>*\<^sup>* root w}"
  proof (intro equalityI subsetI)
    fix w assume "w \<in> set (cone_order body {} [] [root])"
    then show "w \<in> {w. (operand body)\<^sup>*\<^sup>* root w}" using c by auto
  next
    fix w assume "w \<in> {w. (operand body)\<^sup>*\<^sup>* root w}"
    then show "w \<in> set (cone_order body {} [] [root])"
      using c operands_first_closed [OF first] by auto
  qed
qed

text \<open>What a copy at another address must take for a value.\<close>

definition moves :: "kernel_body \<Rightarrow> value_id \<Rightarrow> value_id \<Rightarrow> bool" where
  "moves body written v \<longleftrightarrow> (operand body)\<^sup>*\<^sup>* v written \<and>
     (\<exists>block index. value_at body written = Some (Block_param block index))"

definition index_local :: "kernel_body \<Rightarrow> value_id \<Rightarrow> value_id \<Rightarrow> bool" where
  "index_local body written v \<longleftrightarrow>
     (case value_at body v of
        Some (Block_param block _) \<Rightarrow> v = written \<or> block = kb_entry body
      | Some (Instr op _ _) \<Rightarrow> (\<forall>c. op \<noteq> SliceReadCall c) \<and> (\<forall>k. op \<noteq> CallKernel k)
      | None \<Rightarrow> True)"

definition origin_for :: "kernel_body \<Rightarrow> value_id \<Rightarrow> value_id \<Rightarrow> cone_origin" where
  "origin_for body written v =
     (if \<not> moves body written v then Live v else if v = written then Address else Rebuilt)"

lemma moves_cases:
  "moves body written v \<longleftrightarrow>
     v = written \<and> (\<exists>block index. value_at body v = Some (Block_param block index)) \<or>
     (\<exists>w \<in> operands_of body v. moves body written w)"
  unfolding moves_def operand_def [symmetric]
  by (metis (mono_tags) converse_rtranclpE converse_rtranclp_into_rtranclp operand_def rtranclp.rtrancl_refl)

lemma cone_value_correct:
  assumes "\<And>w. w \<in> operands_of body v \<Longrightarrow> origin w = Some (origin_for body written w)"
    "cone_value body written v origin = Ok resolved"
  shows "resolved = origin_for body written v \<and> index_local body written v"
proof (cases "value_at body v")
  case None
  then have "\<not> moves body written v" using moves_cases [of body written v] by (simp add: operands_of_def)
  then show ?thesis using assms(2) None by (simp add: cone_value_def origin_for_def index_local_def)
next
  case (Some d)
  show ?thesis
  proof (cases d)
    case (Block_param block index)
    then have "moves body written v \<longleftrightarrow> v = written"
      using Some moves_cases [of body written v] by (simp add: operands_of_def)
    then show ?thesis using assms(2) Some Block_param
      by (auto simp: cone_value_def origin_for_def index_local_def split: if_splits)
  next
    case (Instr op args classes)
    have ops: "operands_of body v = set args" using Some Instr by (simp add: operands_of_def)
    have m: "moves body written v \<longleftrightarrow> (\<exists>w \<in> set args. moves body written w)"
      using Some Instr moves_cases [of body written v] ops by simp
    have not_written: "v \<noteq> written" if "moves body written v"
      using that Some Instr by (auto simp: moves_def)
    have "list_ex (\<lambda>arg. origin arg \<in> {Some Rebuilt, Some Address}) args \<longleftrightarrow> moves body written v"
    proof -
      have "origin w \<in> {Some Rebuilt, Some Address} \<longleftrightarrow> moves body written w" if "w \<in> set args" for w
        using assms(1) [of w] that ops by (simp add: origin_for_def)
      then show ?thesis unfolding m by (auto simp: list_ex_iff)
    qed
    then have "resolved = (if moves body written v then Rebuilt else Live v)"
      "(\<forall>c. op \<noteq> SliceReadCall c) \<and> (\<forall>k. op \<noteq> CallKernel k)"
      using assms(2) Some Instr by (cases op; simp add: cone_value_def)+
    then show ?thesis using not_written Some Instr by (auto simp: origin_for_def index_local_def)
  qed
qed

lemma cone_step_Ok:
  "cone_step body written v origin = Ok origin' \<longleftrightarrow>
     (\<exists>resolved. cone_value body written v origin = Ok resolved \<and> origin' = origin(v \<mapsto> resolved))"
  by (auto simp: cone_step_def)

lemma cone_fold:
  assumes "operands_first body (done @ todo)"
    "\<And>v. v \<in> set done \<Longrightarrow> origin v = Some (origin_for body written v)"
    "fold_res (cone_step body written) todo origin = Ok origin'"
  shows "(\<forall>v \<in> set todo. origin' v = Some (origin_for body written v) \<and> index_local body written v) \<and>
    (\<forall>v \<in> set done. origin' v = Some (origin_for body written v))"
  using assms
proof (induction todo arbitrary: "done" origin)
  case (Cons v todo)
  obtain resolved where r: "cone_value body written v origin = Ok resolved"
    and rest: "fold_res (cone_step body written) todo (origin(v \<mapsto> resolved)) = Ok origin'"
    using Cons.prems(3) by (auto simp: cone_step_Ok simp del: fun_upd_apply)
  have "operands_of body v \<subseteq> set done" using Cons.prems(1) by (auto simp: operands_first_def)
  then have v: "resolved = origin_for body written v" "index_local body written v"
    using cone_value_correct [OF _ r] Cons.prems(2) by blast+
  have "operands_first body ((done @ [v]) @ todo)" using Cons.prems(1) by simp
  moreover have "(origin(v \<mapsto> resolved)) u = Some (origin_for body written u)" if "u \<in> set (done @ [v])" for u
    using that Cons.prems(2) v(1) by auto
  ultimately have
    "(\<forall>u \<in> set todo. origin' u = Some (origin_for body written u) \<and> index_local body written u) \<and>
     (\<forall>u \<in> set (done @ [v]). origin' u = Some (origin_for body written u))"
    using Cons.IH rest by blast
  then show ?case using v(2) by auto
qed simp


text \<open>Values minted in order are ranked by their ids.\<close>

definition args_before :: "kernel_body \<Rightarrow> bool" where
  "args_before body \<longleftrightarrow> list_all (\<lambda>(i, d).
     case d of Instr _ args _ \<Rightarrow> list_all (\<lambda>a. unat a < i) args | _ \<Rightarrow> True)
     (enumerate 0 (kb_values body))"

lemma args_before_ranked:
  assumes "args_before body"
  shows "ranked body unat"
  unfolding ranked_def
proof (intro allI impI)
  fix v w assume "operand body v w"
  then obtain op args classes where v: "value_at body v = Some (Instr op args classes)" "w \<in> set args"
    by (auto simp: operand_def operands_of_def split: option.splits value_def.splits)
  then have "(unat v, Instr op args classes) \<in> set (enumerate 0 (kb_values body))"
    by (auto simp: value_at_def in_set_enumerate_eq)
  with assms v(2) show "unat w < unat v" by (fastforce simp: args_before_def list_all_iff)
qed

text \<open>The value at twice the lane, read at the address the lane wrote.\<close>

definition doubled_body :: kernel_body where
  "doubled_body = \<lparr>kb_values = [Block_param 0 0, Block_param 0 1,
       Instr (Bin Int_class Add) [1, 1] [Int_class], Instr (Bin Int_class Mul) [2, 0] [Int_class]],
     kb_blocks = [\<lparr>bb_params = [0, 1], bb_instrs = [2, 3], bb_terminator = Return [3]\<rparr>],
     kb_entry = 0, kb_exact = False, kb_barriers = []\<rparr>"


end
