(* ===== verification/Kernel_Fragment.thy ===== *)
theory Kernel_Fragment
  imports Body_Validate
begin

text \<open>
  The compiled fragment (\<open>KernelFragment\<close> in \<open>lichen-kernel-ir/src/lib.rs\<close>), the restatement of its
  buffer classes, the launch set a backend is handed, the marks its body published and the
  claim a mark spells (\<open>marks.rs\<close>), and the check of a plan against it (\<open>plan.rs\<close>).

  A text is the list of its code points, as Rust's \<open>char\<close>s number them.
\<close>

section \<open>Text\<close>

type_synonym str = "nat list"

definition code_points :: "string \<Rightarrow> str" where
  "code_points s = map of_char s"

text \<open>\<open>char::is_whitespace\<close>: the code points of Unicode's \<open>White_Space\<close>.\<close>

definition is_whitespace :: "nat \<Rightarrow> bool" where
  "is_whitespace c \<longleftrightarrow> 9 \<le> c \<and> c \<le> 13 \<or> c \<in> {32, 133, 160, 5760} \<or> 8192 \<le> c \<and> c \<le> 8202 \<or>
     c \<in> {8232, 8233, 8239, 8287, 12288}"

definition trim :: "str \<Rightarrow> str" where
  "trim s = rev (dropWhile is_whitespace (rev (dropWhile is_whitespace s)))"

definition strip_prefix :: "str \<Rightarrow> str \<Rightarrow> str option" where
  "strip_prefix p s = (if prefix p s then Some (drop (length p) s) else None)"

definition strip_suffix :: "str \<Rightarrow> str \<Rightarrow> str option" where
  "strip_suffix p s = (if suffix p s then Some (take (length s - length p) s) else None)"

definition open_paren :: nat where "open_paren = 40"
definition close_paren :: nat where "close_paren = 41"
definition comma :: nat where "comma = 44"

section \<open>Marks and claims\<close>

definition CLAIM_PREFIX :: str where "CLAIM_PREFIX = code_points ''claim:''"

record mark_field =
  mf_name :: "str option"
  mf_text :: str

record kernel_mark =
  mk_value :: value_id
  mk_payload :: "mark_field list"

definition mark_field_text :: "kernel_mark \<Rightarrow> str \<Rightarrow> str option" where
  "mark_field_text mark name =
     map_option mf_text (List.find (\<lambda>field. mf_name field = Some name) (mk_payload mark))"

definition mark_text :: "kernel_mark \<Rightarrow> str option" where
  "mark_text mark = (case mk_payload mark of
      [field] \<Rightarrow> if mf_name field = None then Some (mf_text field) else None
    | _ \<Rightarrow> None)"

definition mark_role :: "kernel_mark \<Rightarrow> str option" where
  "mark_role mark = Option.bind (mark_text mark) (\<lambda>t. if prefix CLAIM_PREFIX t then None else Some t)"

record kernel_claim =
  cl_interface :: str
  cl_roles :: "str list"

text \<open>The refusals a reader of claims answers with; parsing uses the first two.\<close>

datatype claim_refusal =
    Not_a_claim str
  | Unreadable_claim str
  | Role_not_marked str str
  | Not_a_kernel str
  | Unknown_kernel nat

definition claim_parse :: "str \<Rightarrow> (kernel_claim, claim_refusal) res" where
  "claim_parse payload =
     (case strip_prefix CLAIM_PREFIX payload of
        None \<Rightarrow> Err (Not_a_claim payload)
      | Some body \<Rightarrow>
          let body = trim body in
          (case find_pos (\<lambda>c. c = open_paren) body of
             None \<Rightarrow> Err (Unreadable_claim payload)
           | Some opened \<Rightarrow>
               (case strip_suffix [close_paren] (drop (opened + 1) body) of
                  None \<Rightarrow> Err (Unreadable_claim payload)
                | Some roles \<Rightarrow>
                    let interface = trim (take opened body) in
                    if interface = [] \<or> list_ex is_whitespace interface
                    then Err (Unreadable_claim payload)
                    else Ok \<lparr>cl_interface = interface,
                      cl_roles = List.filter (\<lambda>role. role \<noteq> []) (map trim (split_on comma roles))\<rparr>)))"

definition claim_requires :: "kernel_claim \<Rightarrow> str \<Rightarrow> bool" where
  "claim_requires claim role = list_ex (\<lambda>required. required = role) (cl_roles claim)"

section \<open>Fragments\<close>

record kernel_fragment =
  kf_param_shape :: kernel_shape
  kf_roles :: kernel_roles
  kf_body :: kernel_body
  kf_inputs :: nat
  kf_outputs :: nat
  kf_input_classes :: "scalar_class list"
  kf_output_classes :: "scalar_class list"
  kf_result_classes :: "scalar_class list"
  kf_target :: target_facts
  kf_slices :: "slice list"
  kf_marks :: "kernel_mark list"

definition scalar_leaves :: "kernel_fragment \<Rightarrow> nat" where
  "scalar_leaves f = flat_arity (kf_param_shape f) - 1"

definition runtime_scalars :: "kernel_fragment \<Rightarrow> nat" where
  "runtime_scalars f = shape_runtime_scalars (kf_param_shape f)"

definition restate :: "scalar_class \<Rightarrow> scalar_class \<Rightarrow> scalar_class" where
  "restate c held = (if is_real held then c else held)"

text \<open>\<open>states_the_class\<close>: the accesses it moves are the buffer reads and the buffer writes.\<close>

definition restate_access :: "scalar_class \<Rightarrow> value_def \<Rightarrow> value_def" where
  "restate_access c v = (case v of
      Instr (BufferReadCall held) args classes \<Rightarrow> Instr (BufferReadCall (restate c held)) args classes
    | Instr (BufferWriteCall held) args classes \<Rightarrow> Instr (BufferWriteCall (restate c held)) args classes
    | _ \<Rightarrow> v)"

definition states_the_class :: "scalar_class \<Rightarrow> kernel_fragment \<Rightarrow> kernel_fragment" where
  "states_the_class c f =
     (if \<not> is_real c then f
      else f\<lparr>kf_input_classes := map (restate c) (kf_input_classes f),
        kf_output_classes := map (restate c) (kf_output_classes f),
        kf_body := (kf_body f)\<lparr>kb_values := map (restate_access c) (kb_values (kf_body f))\<rparr>\<rparr>)"

definition const_number :: "value_def \<Rightarrow> u64 option" where
  "const_number v = (case v of Instr (Const _ number) _ _ \<Rightarrow> Some number | _ \<Rightarrow> None)"

definition restate_read :: "u64 option list \<Rightarrow> nat \<Rightarrow> scalar_class \<Rightarrow> value_def \<Rightarrow> value_def" where
  "restate_read constants slot c v = (case v of
      Instr (BufferReadCall held) args classes \<Rightarrow>
        if is_real held \<and>
          Option.bind (nth_opt args 0) (\<lambda>arg. Option.bind (nth_opt constants (unat arg)) id) =
            Some (word_of_nat slot)
        then Instr (BufferReadCall c) args classes else v
    | _ \<Rightarrow> v)"

definition states_input_class :: "nat \<Rightarrow> scalar_class \<Rightarrow> kernel_fragment \<Rightarrow> kernel_fragment" where
  "states_input_class slot c f =
     (if \<not> is_real c then f
      else
        (let held = kf_input_classes f;
             constants = map const_number (kb_values (kf_body f))
         in f\<lparr>kf_input_classes := (if slot < length held \<and> is_real (held ! slot)
               then held[slot := c] else held),
             kf_body := (kf_body f)\<lparr>kb_values :=
               map (restate_read constants slot c) (kb_values (kf_body f))\<rparr>\<rparr>))"

section \<open>Launch sets\<close>

record launch_set =
  ls_ordered :: "kernel_fragment list"
  ls_index :: "kernel_id \<rightharpoonup> u32"
  ls_leaves :: "scalar_leaf list"

definition launch_new :: "kernel_fragment list \<Rightarrow> (kernel_id \<rightharpoonup> u32) \<Rightarrow> launch_set" where
  "launch_new ordered index = \<lparr>ls_ordered = ordered, ls_index = index, ls_leaves = []\<rparr>"

definition launch_single :: "kernel_fragment \<Rightarrow> launch_set" where
  "launch_single fragment = \<lparr>ls_ordered = [fragment], ls_index = Map.empty, ls_leaves = []\<rparr>"

definition with_leaves :: "scalar_leaf list \<Rightarrow> launch_set \<Rightarrow> launch_set" where
  "with_leaves leaves ls = ls\<lparr>ls_leaves := leaves\<rparr>"

text \<open>\<open>None\<close> is the panic of an empty set.\<close>

definition launch_root :: "launch_set \<Rightarrow> kernel_fragment option" where
  "launch_root ls = nth_opt (ls_ordered ls) 0"

definition callee :: "launch_set \<Rightarrow> kernel_id \<Rightarrow> (nat \<times> kernel_fragment) option" where
  "callee ls name =
     Option.bind (ls_index ls name) (\<lambda>at.
     Option.bind (nth_opt (ls_ordered ls) (unat at)) (\<lambda>fragment. Some (unat at, fragment)))"

section \<open>Plans\<close>

record staging =
  st_name :: str
  st_space :: space
  st_group_width :: u32

datatype plan_refusal =
    Unknown_staged_value str
  | Ambiguous_staged_value str
  | Not_a_staged_value str
  | Staging_width_not_a_width str u32 u32
  | Plan_contradicted str space space

definition marked_value :: "kernel_fragment \<Rightarrow> str \<Rightarrow> (value_id, plan_refusal) res" where
  "marked_value f name =
     (case map mk_value (List.filter (\<lambda>mark. mark_text mark = Some name) (kf_marks f)) of
        [] \<Rightarrow> Err (Unknown_staged_value name)
      | [first] \<Rightarrow> Ok first
      | _ \<Rightarrow> Err (Ambiguous_staged_value name))"

definition check_staging :: "kernel_fragment \<Rightarrow> staging \<Rightarrow> (unit, plan_refusal) res" where
  "check_staging f entry =
     res_bind (marked_value f (st_name entry)) (\<lambda>v.
     case staged_slice (kf_body f) v of
       None \<Rightarrow> Err (Not_a_staged_value (st_name entry))
     | Some ordinal \<Rightarrow>
         (case nth_opt (kf_slices f) ordinal of
            None \<Rightarrow> Err (Not_a_staged_value (st_name entry))
          | Some declared \<Rightarrow>
              if st_group_width entry \<noteq> tf_lane_width (kf_target f)
              then Err (Staging_width_not_a_width (st_name entry) (st_group_width entry)
                (tf_lane_width (kf_target f)))
              else if s_space declared \<noteq> st_space entry
              then Err (Plan_contradicted (st_name entry) (st_space entry) (s_space declared))
              else Ok ()))"

text \<open>A plan is the list of its stagings.\<close>

definition check_plan :: "kernel_fragment \<Rightarrow> staging list \<Rightarrow> (unit, plan_refusal) res" where
  "check_plan f plan = check_each (check_staging f) plan"

section \<open>A claim's spelling\<close>

fun join_on :: "nat \<Rightarrow> str list \<Rightarrow> str" where
  "join_on sep [] = []"
| "join_on sep [part] = part"
| "join_on sep (part # parts) = part @ sep # join_on sep parts"

definition claim_print :: "kernel_claim \<Rightarrow> str" where
  "claim_print claim = CLAIM_PREFIX @ cl_interface claim @ [open_paren] @
     join_on comma (cl_roles claim) @ [close_paren]"

definition trimmed :: "str \<Rightarrow> bool" where
  "trimmed s \<longleftrightarrow> s = [] \<or> \<not> is_whitespace (hd s) \<and> \<not> is_whitespace (last s)"

definition well_spelled :: "kernel_claim \<Rightarrow> bool" where
  "well_spelled claim \<longleftrightarrow> cl_interface claim \<noteq> [] \<and> open_paren \<notin> set (cl_interface claim) \<and>
     (\<forall>c \<in> set (cl_interface claim). \<not> is_whitespace c) \<and>
     (\<forall>role \<in> set (cl_roles claim). role \<noteq> [] \<and> comma \<notin> set role \<and> trimmed role)"

lemma dropWhile_hd: "xs \<noteq> [] \<Longrightarrow> \<not> P (hd xs) \<Longrightarrow> dropWhile P xs = xs"
  by (cases xs) auto

lemma trim_trimmed [simp]: "trimmed s \<Longrightarrow> trim s = s"
  unfolding trimmed_def trim_def
  by (cases "s = []") (auto simp: dropWhile_hd hd_rev)

lemma trimmed_trim: "trimmed (trim s)"
proof (cases "trim s = []")
  case False
  define t where "t = dropWhile is_whitespace s"
  define u where "u = dropWhile is_whitespace (rev t)"
  have u: "trim s = rev u" "u \<noteq> []" using False by (simp_all add: trim_def t_def u_def)
  then have "rev t \<noteq> []" by (auto simp: u_def)
  then have t: "\<not> is_whitespace (hd t)" using hd_dropWhile [of is_whitespace s] by (auto simp: t_def)
  have "\<not> is_whitespace (hd u)" using hd_dropWhile [of is_whitespace "rev t"] u(2) by (simp add: u_def)
  moreover have "last u = hd t"
  proof -
    have "rev t = takeWhile is_whitespace (rev t) @ u" by (simp add: u_def)
    then have "last (rev t) = last u" using u(2) by (metis last_appendR)
    then show ?thesis using \<open>rev t \<noteq> []\<close> by (simp add: last_rev)
  qed
  ultimately show ?thesis using t u by (simp add: trimmed_def hd_rev last_rev)
qed (simp add: trimmed_def)

lemma set_trim: "set (trim s) \<subseteq> set s"
  by (auto simp: trim_def dest!: set_dropWhileD)

lemma split_on_join: "rs \<noteq> [] \<Longrightarrow> \<forall>r \<in> set rs. sep \<notin> set r \<Longrightarrow> split_on sep (join_on sep rs) = rs"
  by (induction sep rs rule: join_on.induct) (auto simp: split_on_single split_on_append)

lemma strip_prefix_append [simp]: "strip_prefix p (p @ s) = Some s"
  by (simp add: strip_prefix_def)

lemma strip_suffix_append [simp]: "strip_suffix p (s @ p) = Some s"
  by (simp add: strip_suffix_def suffix_def)

lemma find_pos_append:
  "\<forall>x \<in> set xs. \<not> p x \<Longrightarrow> p y \<Longrightarrow> find_pos p (xs @ y # ys) = Some (length xs)"
  by (induction xs) auto

lemma claim_parse_well_spelled:
  assumes "claim_parse payload = Ok claim"
  shows "well_spelled claim"
proof -
  obtain body opened roles where b: "find_pos (\<lambda>c. c = open_paren) (trim body) = Some opened"
    and i: "trim (take opened (trim body)) \<noteq> []"
      "\<forall>c \<in> set (trim (take opened (trim body))). \<not> is_whitespace c"
    and c: "claim = \<lparr>cl_interface = trim (take opened (trim body)),
      cl_roles = List.filter (\<lambda>role. role \<noteq> []) (map trim (split_on comma roles))\<rparr>"
    using assms by (auto simp: claim_parse_def Let_def list_ex_iff split: option.splits if_splits)
  have "open_paren \<notin> set (take opened (trim body))"
    using b by (auto simp: find_pos_Some in_set_conv_nth)
  then have "open_paren \<notin> set (trim (take opened (trim body)))" using set_trim by blast
  moreover have "comma \<notin> set (trim r)" if "r \<in> set (split_on comma roles)" for r
    using split_on_parts [OF that] set_trim by blast
  ultimately show ?thesis using i trimmed_trim by (auto simp: well_spelled_def c)
qed

lemma claim_parse_print:
  assumes "well_spelled claim"
  shows "claim_parse (claim_print claim) = Ok claim"
proof -
  let ?i = "cl_interface claim"
  let ?r = "join_on comma (cl_roles claim)"
  let ?body = "?i @ open_paren # ?r @ [close_paren]"
  have i: "?i \<noteq> []" "\<forall>c \<in> set ?i. \<not> is_whitespace c" "\<forall>c \<in> set ?i. c \<noteq> open_paren"
    using assms by (auto simp: well_spelled_def)
  have "\<not> is_whitespace (hd ?body)" using i by simp
  moreover have "\<not> is_whitespace (last ?body)" by (simp add: is_whitespace_def close_paren_def)
  ultimately have body: "trim ?body = ?body" by (intro trim_trimmed) (simp add: trimmed_def)
  have interface: "trim ?i = ?i" using i by (intro trim_trimmed) (auto simp: trimmed_def)
  have roles: "List.filter (\<lambda>role. role \<noteq> []) (map trim (split_on comma ?r)) = cl_roles claim"
  proof (cases "cl_roles claim")
    case Nil
    then show ?thesis by (simp add: trim_def)
  next
    case (Cons r rs)
    then have "split_on comma ?r = cl_roles claim"
      using assms by (intro split_on_join) (auto simp: well_spelled_def)
    moreover have "map trim (cl_roles claim) = cl_roles claim"
      using assms by (intro map_idI) (auto simp: well_spelled_def)
    ultimately show ?thesis using assms by (auto simp: well_spelled_def intro!: filter_True)
  qed
  have open_at: "find_pos (\<lambda>c. c = open_paren) ?body = Some (length ?i)"
    using i(3) by (intro find_pos_append) auto
  have "claim_print claim = CLAIM_PREFIX @ ?body" by (simp add: claim_print_def)
  moreover have "\<not> list_ex is_whitespace ?i" using i(2) by (auto simp: list_ex_iff)
  ultimately show ?thesis
    using i(1) body interface roles open_at by (simp add: claim_parse_def Let_def)
qed

text \<open>
  C36: parsing what a claim prints gives the claim back exactly if it is well spelled: an
  interface without white space or an opening parenthesis, and roles that are trimmed, not
  empty and hold no comma. Those are the claims the parser answers with.
\<close>

theorem claim_round_trip:
  "(claim_parse (claim_print claim) = Ok claim \<longleftrightarrow> well_spelled claim) \<and>
   ((\<exists>payload. claim_parse payload = Ok claim) \<longleftrightarrow> well_spelled claim)"
  using claim_parse_print claim_parse_well_spelled by blast

section \<open>A plan is checked, never believed\<close>

text \<open>
  A fragment honours an entry: one mark alone spells its name, on a slice write whose constant
  ordinal is a declared slice, in the space the entry states, at the lane width of the target.
\<close>

definition honours :: "kernel_fragment \<Rightarrow> staging \<Rightarrow> bool" where
  "honours f entry \<longleftrightarrow> (\<exists>mark before after c args classes ordinal declared.
     kf_marks f = before @ mark # after \<and> mark_text mark = Some (st_name entry) \<and>
     Some (st_name entry) \<notin> mark_text ` set (before @ after) \<and>
     value_at (kf_body f) (mk_value mark) = Some (Instr (SliceWriteCall c) args classes) \<and>
     slice_ordinal (kf_body f) (mk_value mark) = Some ordinal \<and>
     nth_opt (kf_slices f) (unat ordinal) = Some declared \<and>
     s_space declared = st_space entry \<and> st_group_width entry = tf_lane_width (kf_target f))"

lemma filter_single:
  "List.filter p xs = [x] \<longleftrightarrow> (\<exists>before after. xs = before @ x # after \<and> p x \<and>
     (\<forall>y \<in> set (before @ after). \<not> p y))"
proof
  assume "List.filter p xs = [x]"
  then obtain before after where "xs = before @ x # after" "\<forall>y \<in> set before. \<not> p y" "p x"
    "List.filter p after = []"
    by (auto simp: filter_eq_Cons_iff)
  then show "\<exists>before after. xs = before @ x # after \<and> p x \<and> (\<forall>y \<in> set (before @ after). \<not> p y)"
    by (intro exI [of _ before] exI [of _ after]) (auto simp: filter_empty_conv)
qed (auto simp: filter_empty_conv)

lemma marked_value_Ok:
  "marked_value f name = Ok v \<longleftrightarrow> (\<exists>mark. mk_value mark = v \<and>
     List.filter (\<lambda>mark. mark_text mark = Some name) (kf_marks f) = [mark])"
  by (auto simp: marked_value_def split: list.splits)

lemma staged_slice_Some:
  "staged_slice body v = Some n \<longleftrightarrow> (\<exists>c args classes ordinal.
     value_at body v = Some (Instr (SliceWriteCall c) args classes) \<and>
     slice_ordinal body v = Some ordinal \<and> unat ordinal = n)"
  by (auto simp: staged_slice_def split: option.splits value_def.splits kernel_instr.splits)

lemma check_staging_Ok: "check_staging f entry = Ok () \<longleftrightarrow> honours f entry"
proof -
  let ?name = "st_name entry"
  let ?p = "\<lambda>mark. mark_text mark = Some ?name"
  have inner: "(case staged_slice (kf_body f) v of
       None \<Rightarrow> Err (Not_a_staged_value ?name)
     | Some ordinal \<Rightarrow>
         (case nth_opt (kf_slices f) ordinal of
            None \<Rightarrow> Err (Not_a_staged_value ?name)
          | Some declared \<Rightarrow>
              if st_group_width entry \<noteq> tf_lane_width (kf_target f)
              then Err (Staging_width_not_a_width ?name (st_group_width entry) (tf_lane_width (kf_target f)))
              else if s_space declared \<noteq> st_space entry
              then Err (Plan_contradicted ?name (st_space entry) (s_space declared))
              else Ok ())) = Ok () \<longleftrightarrow> (\<exists>n declared. staged_slice (kf_body f) v = Some n \<and>
        nth_opt (kf_slices f) n = Some declared \<and>
        st_group_width entry = tf_lane_width (kf_target f) \<and> s_space declared = st_space entry)" for v
    by (cases "staged_slice (kf_body f) v"; cases "nth_opt (kf_slices f) (the (staged_slice (kf_body f) v))")
      (auto simp del: nth_opt_Some nth_opt_None)
  have "check_staging f entry = Ok () \<longleftrightarrow> (\<exists>mark n declared. List.filter ?p (kf_marks f) = [mark] \<and>
      staged_slice (kf_body f) (mk_value mark) = Some n \<and> nth_opt (kf_slices f) n = Some declared \<and>
      st_group_width entry = tf_lane_width (kf_target f) \<and> s_space declared = st_space entry)"
    unfolding check_staging_def res_bind_Ok marked_value_Ok inner by blast
  also have "\<dots> \<longleftrightarrow> (\<exists>mark. List.filter ?p (kf_marks f) = [mark] \<and> (\<exists>c args classes ordinal declared.
      value_at (kf_body f) (mk_value mark) = Some (Instr (SliceWriteCall c) args classes) \<and>
      slice_ordinal (kf_body f) (mk_value mark) = Some ordinal \<and>
      nth_opt (kf_slices f) (unat ordinal) = Some declared \<and>
      s_space declared = st_space entry \<and> st_group_width entry = tf_lane_width (kf_target f)))"
    unfolding staged_slice_Some by (auto simp del: nth_opt_Some)
  also have "\<dots> \<longleftrightarrow> honours f entry"
  proof -
    have "List.filter ?p (kf_marks f) = [mark] \<longleftrightarrow> (\<exists>before after. kf_marks f = before @ mark # after \<and>
        ?p mark \<and> Some ?name \<notin> mark_text ` set (before @ after))" for mark
      unfolding filter_single by (metis (mono_tags, lifting) image_iff)
    then show ?thesis unfolding honours_def by (simp only:) blast
  qed
  finally show ?thesis .
qed

text \<open>
  a plan is accepted exactly if the fragment honours every entry of it.
\<close>

theorem check_plan_honoured: "check_plan f plan = Ok () \<longleftrightarrow> list_all (honours f) plan"
  by (simp add: check_plan_def check_staging_Ok list_all_iff)

section \<open>Restating a class\<close>

text \<open>
  restating a real class moves every real buffer and every read and write of a buffer at a
  real class to it, leaves the integer ones and all other instructions, and is settled by one
  statement: a second one of any real class answers as if it were the only one.
\<close>

theorem states_the_class_settles:
  assumes "is_real c" "is_real c'"
  shows "states_the_class c' (states_the_class c f) = states_the_class c' f \<and>
    (\<forall>held args classes v. value_at (kf_body f) v = Some (Instr (BufferReadCall held) args classes) \<longrightarrow>
      value_at (kf_body (states_the_class c f)) v =
        Some (Instr (BufferReadCall (if is_real held then c else held)) args classes)) \<and>
    (\<forall>held args classes v. value_at (kf_body f) v = Some (Instr (BufferWriteCall held) args classes) \<longrightarrow>
      value_at (kf_body (states_the_class c f)) v =
        Some (Instr (BufferWriteCall (if is_real held then c else held)) args classes)) \<and>
    kf_input_classes (states_the_class c f) =
      map (\<lambda>held. if is_real held then c else held) (kf_input_classes f)"
proof -
  have twice: "restate c' (restate c held) = restate c' held" for held
    using assms by (auto simp: restate_def)
  then have access: "restate_access c' (restate_access c v) = restate_access c' v" for v
    by (auto simp: restate_access_def split: value_def.splits kernel_instr.splits)
  have "states_the_class c' (states_the_class c f) = states_the_class c' f"
    using assms twice access by (simp add: states_the_class_def comp_def)
  moreover have "value_at (kf_body (states_the_class c f)) v =
      map_option (restate_access c) (value_at (kf_body f) v)" for v
    using assms by (simp add: states_the_class_def value_at_def)
  ultimately show ?thesis
    using assms(1) by (simp add: restate_access_def restate_def states_the_class_def)
qed

text \<open>A fragment that writes its output, reads it back and writes what it read.\<close>

definition echo_fragment :: kernel_fragment where
  "echo_fragment = \<lparr>kf_param_shape = Tuple_shape [Scalar_shape Int_class, Scalar_shape Int_class],
     kf_roles = \<lparr>r_scalars = [], r_inputs = [], r_outputs = [], r_input_classes = [],
       r_output_classes = [], r_output_extents = []\<rparr>,
     kf_body = \<lparr>kb_values = [Block_param 0 0, Block_param 0 1, Instr (Const Int_class 0) [] [Int_class],
         Instr (BufferReadCall Float_class) [2, 1] [Float_class],
         Instr (OutputReadCall Float_class) [2, 1] [Float_class]],
       kb_blocks = [\<lparr>bb_params = [0, 1], bb_instrs = [2, 3, 4], bb_terminator = Return [4]\<rparr>],
       kb_entry = 0, kb_exact = False, kb_barriers = []\<rparr>,
     kf_inputs = 1, kf_outputs = 1, kf_input_classes = [Float_class], kf_output_classes = [Float_class],
     kf_result_classes = [], kf_target = \<lparr>tf_int_width = I64, tf_lane_width = 64, tf_lane_height = 1\<rparr>,
     kf_slices = [], kf_marks = []\<rparr>"

theorem states_the_class_settles_witness:
  "value_at (kf_body (states_the_class BFloat16_class echo_fragment)) 3 =
     Some (Instr (BufferReadCall BFloat16_class) [2, 1] [Float_class])"
proof -
  have "value_at (kf_body echo_fragment) 3 = Some (Instr (BufferReadCall Float_class) [2, 1] [Float_class])"
    by (simp add: echo_fragment_def value_at_def)
  then show ?thesis
    using states_the_class_settles [of BFloat16_class Float_class echo_fragment] by (simp add: is_real_def)
qed

text \<open>
  restating a class leaves the read of an output behind: the buffer's declared class moves
  and the read that fetches from it keeps the old one.
\<close>

theorem states_the_class_leaves_output_reads:
  assumes "value_at (kf_body f) v = Some (Instr (OutputReadCall held) args classes)"
    "is_real c" "nth_opt (kf_output_classes f) k = Some held" "is_real held"
  shows "value_at (kf_body (states_the_class c f)) v = Some (Instr (OutputReadCall held) args classes) \<and>
    nth_opt (kf_output_classes (states_the_class c f)) k = Some c"
  using assms by (simp add: states_the_class_def value_at_def restate_access_def restate_def)

theorem states_the_class_leaves_output_reads_witness:
  "value_at (kf_body (states_the_class BFloat16_class echo_fragment)) 4 =
     Some (Instr (OutputReadCall Float_class) [2, 1] [Float_class]) \<and>
   nth_opt (kf_output_classes (states_the_class BFloat16_class echo_fragment)) 0 = Some BFloat16_class"
  by (rule states_the_class_leaves_output_reads)
    (simp_all add: echo_fragment_def value_at_def is_real_def)

end
