(* ===== verification/Barrier_Scan.thy ===== *)
theory Barrier_Scan
  imports Body_Cone Kernel_Fragment Kernel_Exec
begin

text \<open>
  The barrier scan (\<open>lichen-kernel-ir/src/barrier.rs\<close>): the bound a body derives for an index, the
  slice accesses it refuses, and the pairs of a write and a read that need a barrier between.

  The bounds are memoised in a map that the whole scan threads through. A bound is computed with
  fuel, one unit for each value entered; \<open>interval_total\<close> shows that one more than the number
  of the body's values always suffices.
\<close>

section \<open>Intervals\<close>

record interval =
  iv_low :: u64
  iv_high :: u64

definition UNBOUNDED :: interval where
  "UNBOUNDED = \<lparr>iv_low = 0, iv_high = - 1\<rparr>"

definition intersects :: "interval \<Rightarrow> interval \<Rightarrow> bool" where
  "intersects a b \<longleftrightarrow> iv_low a \<le> iv_high b \<and> iv_low b \<le> iv_high a"

type_synonym memo = "value_id \<rightharpoonup> interval"

definition checked_add :: "u64 \<Rightarrow> u64 \<Rightarrow> u64 option" where
  "checked_add a b = (if uint a + uint b < 18446744073709551616 then Some (a + b) else None)"

definition checked_mul :: "u64 \<Rightarrow> u64 \<Rightarrow> u64 option" where
  "checked_mul a b = (if uint a * uint b < 18446744073709551616 then Some (a * b) else None)"

lemma checked_unat:
  "checked_add a b = (if unat a + unat b < 2 ^ 64 then Some (a + b) else None)"
  "checked_mul a b = (if unat a * unat b < 2 ^ 64 then Some (a * b) else None)"
proof -
  have "int (unat a + unat b) < int (2 ^ 64) \<longleftrightarrow> unat a + unat b < 2 ^ 64"
    "int (unat a * unat b) < int (2 ^ 64) \<longleftrightarrow> unat a * unat b < 2 ^ 64" by (rule of_nat_less_iff)+
  then show "checked_add a b = (if unat a + unat b < 2 ^ 64 then Some (a + b) else None)"
    "checked_mul a b = (if unat a * unat b < 2 ^ 64 then Some (a * b) else None)"
    by (simp_all add: checked_add_def checked_mul_def)
qed

lemma below_count:
  assumes "high < (ucast (count :: u32) :: u64)" "w \<le> high"
  shows "unat w < unat count"
proof -
  have "unat count < 2 ^ 64" using unat_less_32 [of count] by (rule less_trans) simp
  then have "unat (ucast count :: u64) = unat count"
    by (simp add: unsigned_ucast_eq take_bit_nat_eq_self_iff)
  then show ?thesis using assms by (simp add: word_le_nat_alt word_less_nat_alt)
qed

text \<open>Two bounds combined end by end; an end that overflows gives up the whole bound.\<close>

definition ends :: "(u64 \<Rightarrow> u64 \<Rightarrow> u64 option) \<Rightarrow> interval \<Rightarrow> interval \<Rightarrow> interval" where
  "ends f left right =
     (case (f (iv_low left) (iv_low right), f (iv_high left) (iv_high right)) of
        (Some low, Some high) \<Rightarrow> \<lparr>iv_low = low, iv_high = high\<rparr>
      | _ \<Rightarrow> UNBOUNDED)"

text \<open>The operand at a position, bounded through \<open>rec\<close>.\<close>

definition operand_interval ::
  "(value_id \<Rightarrow> memo \<Rightarrow> (interval \<times> memo) option) \<Rightarrow> value_id list \<Rightarrow> nat \<Rightarrow> memo \<Rightarrow>
   (interval \<times> memo) option" where
  "operand_interval rec args position memo =
     (case nth_opt args position of None \<Rightarrow> Some (UNBOUNDED, memo) | Some v \<Rightarrow> rec v memo)"

definition two_operands ::
  "(value_id \<Rightarrow> memo \<Rightarrow> (interval \<times> memo) option) \<Rightarrow> value_id list \<Rightarrow> nat \<Rightarrow> nat \<Rightarrow>
   (interval \<Rightarrow> interval \<Rightarrow> interval) \<Rightarrow> memo \<Rightarrow> (interval \<times> memo) option" where
  "two_operands rec args i j f memo = do {
     (left, memo) \<leftarrow> operand_interval rec args i memo;
     (right, memo) \<leftarrow> operand_interval rec args j memo;
     Some (f left right, memo)
   }"

definition int_interval ::
  "kernel_body \<Rightarrow> (value_id \<Rightarrow> memo \<Rightarrow> (interval \<times> memo) option) \<Rightarrow> kernel_bin \<Rightarrow> value_id list \<Rightarrow>
   memo \<Rightarrow> (interval \<times> memo) option" where
  "int_interval body rec op args memo = (case op of
      Add \<Rightarrow> two_operands rec args 0 1 (ends checked_add) memo
    | Mul \<Rightarrow> two_operands rec args 0 1 (ends checked_mul) memo
    | Rem \<Rightarrow> do {
        (left, memo) \<leftarrow> operand_interval rec args 0 memo;
        Some (case body_constant body (nth_opt args 1) of
            Some modulus \<Rightarrow>
              if 0 < modulus then \<lparr>iv_low = 0, iv_high = min (iv_high left) (modulus - 1)\<rparr>
              else \<lparr>iv_low = 0, iv_high = iv_high left\<rparr>
          | None \<Rightarrow> \<lparr>iv_low = 0, iv_high = iv_high left\<rparr>, memo)
      }
    | Div \<Rightarrow> do {
        (left, memo) \<leftarrow> operand_interval rec args 0 memo;
        Some (\<lparr>iv_low = 0, iv_high = iv_high left\<rparr>, memo)
      }
    | Max \<Rightarrow> two_operands rec args 0 1 (\<lambda>left right.
        \<lparr>iv_low = max (iv_low left) (iv_low right), iv_high = max (iv_high left) (iv_high right)\<rparr>) memo
    | Min \<Rightarrow> two_operands rec args 0 1 (\<lambda>left right.
        \<lparr>iv_low = min (iv_low left) (iv_low right), iv_high = min (iv_high left) (iv_high right)\<rparr>) memo
    | _ \<Rightarrow> Some (if is_comparison op then \<lparr>iv_low = 0, iv_high = 1\<rparr> else UNBOUNDED, memo))"

definition interval_of ::
  "kernel_body \<Rightarrow> (value_id \<Rightarrow> memo \<Rightarrow> (interval \<times> memo) option) \<Rightarrow> kernel_instr \<Rightarrow> value_id list \<Rightarrow>
   memo \<Rightarrow> (interval \<times> memo) option" where
  "interval_of body rec op args memo = (case op of
      Bin c k \<Rightarrow> if c = Int_class then int_interval body rec k args memo else Some (UNBOUNDED, memo)
    | I32WrapI64 \<Rightarrow> Some (\<lparr>iv_low = 0, iv_high = 1\<rparr>, memo)
    | Select \<Rightarrow> two_operands rec args 1 2 (\<lambda>left right.
        \<lparr>iv_low = min (iv_low left) (iv_low right), iv_high = max (iv_high left) (iv_high right)\<rparr>) memo
    | _ \<Rightarrow> Some (UNBOUNDED, memo))"

fun interval_fuel :: "nat \<Rightarrow> kernel_body \<Rightarrow> value_id \<Rightarrow> memo \<Rightarrow> (interval \<times> memo) option" where
  "interval_fuel 0 body v memo = None"
| "interval_fuel (Suc fuel) body v memo =
     (case memo v of
        Some known \<Rightarrow> Some (known, memo)
      | None \<Rightarrow>
          (let memo = memo(v \<mapsto> UNBOUNDED) in
           Option.bind (case value_at body v of
               Some (Instr op args _) \<Rightarrow>
                 (case op of
                    Const Int_class bits \<Rightarrow> Some (\<lparr>iv_low = bits, iv_high = bits\<rparr>, memo)
                  | _ \<Rightarrow> interval_of body (interval_fuel fuel body) op args memo)
             | _ \<Rightarrow> Some (UNBOUNDED, memo)) (\<lambda>(answer, memo).
           Some (answer, memo(v \<mapsto> answer)))))"

definition index_interval :: "kernel_body \<Rightarrow> value_id \<Rightarrow> memo \<Rightarrow> (interval \<times> memo) option" where
  "index_interval body v memo = interval_fuel (Suc (length (kb_values body))) body v memo"

section \<open>The walk\<close>

function walk_loop ::
  "kernel_body \<Rightarrow> bool list \<Rightarrow> value_id list \<Rightarrow> nat list \<Rightarrow> value_id list" where
  "walk_loop body seen order [] = order"
| "walk_loop body seen order (block # stack) =
     (if length (kb_blocks body) \<le> block \<or> length seen \<le> block \<or> seen ! block
      then walk_loop body seen order stack
      else (let basic = kb_blocks body ! block
        in walk_loop body (seen[block := True]) (order @ bb_instrs basic)
             (map br_target (branches basic) @ stack)))"
  by pat_completeness auto

termination
  by (relation "measures [\<lambda>(body, seen, order, stack). card {i. i < length seen \<and> \<not> seen ! i},
      \<lambda>(body, seen, order, stack). length stack]") (auto simp: unmarked_less not_le)

text \<open>The flags are as many as the blocks, so the second guard never decides.\<close>

definition walk_order :: "kernel_body \<Rightarrow> value_id list" where
  "walk_order body = walk_loop body (replicate (length (kb_blocks body)) False) [] [kb_entry body]"

section \<open>Accesses no barrier decision can be made from\<close>

datatype scan_error =
    Empty_slice nat
  | Escaping_write value_id value_id u64 u32
  | Escaping_read value_id value_id u64 u32
  | Contended_write value_id value_id
  | Unobserved_read value_id "value_id option"

definition refuse_escaping_slice ::
  "kernel_body \<Rightarrow> (value_id \<Rightarrow> value_id \<Rightarrow> u64 \<Rightarrow> u32 \<Rightarrow> scan_error) \<Rightarrow> value_id \<Rightarrow> value_id list \<Rightarrow>
   slice list \<Rightarrow> memo \<Rightarrow> (memo, scan_error) res" where
  "refuse_escaping_slice body err v args slices memo =
     (case nth_opt args 1 of
        None \<Rightarrow> Ok memo
      | Some index \<Rightarrow>
          (case map_option s_count (Option.bind (slice_ordinal body v)
              (\<lambda>ordinal. nth_opt slices (unat ordinal))) of
             None \<Rightarrow> Ok memo
           | Some count \<Rightarrow>
               expect_some (index_interval body index memo) (\<lambda>(bound, memo).
                 if iv_high bound < ucast count then Ok memo
                 else Err (err v index (iv_high bound) count))))"

definition is_slice_write_at :: "kernel_body \<Rightarrow> value_id \<Rightarrow> bool" where
  "is_slice_write_at body v =
     (case value_at body v of Some (Instr (SliceWriteCall _) _ _) \<Rightarrow> True | _ \<Rightarrow> False)"

definition refuse_access ::
  "kernel_body \<Rightarrow> value_id \<Rightarrow> value_id list list list \<Rightarrow> slice list \<Rightarrow> value_id \<Rightarrow> memo \<Rightarrow>
   (memo, scan_error) res" where
  "refuse_access body lane incoming slices v memo =
     (case value_at body v of
        Some (Instr (SliceWriteCall _) args _) \<Rightarrow>
          res_bind (refuse_escaping_slice body Escaping_write v args slices memo) (\<lambda>memo.
            case nth_opt args 1 of
              None \<Rightarrow> Ok memo
            | Some index \<Rightarrow>
                if \<not> depends_on body index lane incoming then Err (Contended_write v index)
                else Ok memo)
      | Some (Instr (SliceReadCall _) args _) \<Rightarrow>
          res_bind (refuse_escaping_slice body Escaping_read v args slices memo) (\<lambda>memo.
            let observed = nth_opt args 2 in
            if (case observed of None \<Rightarrow> False | Some w \<Rightarrow> is_slice_write_at body w) then Ok memo
            else Err (Unobserved_read v observed))
      | _ \<Rightarrow> Ok memo)"

section \<open>The scan\<close>

definition positions :: "value_id list \<Rightarrow> value_id \<rightharpoonup> nat" where
  "positions order = fold (\<lambda>(at, v) position. position(v \<mapsto> at)) (enumerate 0 order) Map.empty"

text \<open>The recorded barriers: the last position of one, for each slice.\<close>

definition recorded ::
  "kernel_body \<Rightarrow> (value_id \<rightharpoonup> nat) \<Rightarrow> (u64 \<rightharpoonup> nat)" where
  "recorded body position =
     fold (\<lambda>expr separated.
         case (slice_ordinal body (b_read expr), position (b_read expr)) of
           (Some sl, Some at) \<Rightarrow>
             separated(sl \<mapsto> (case separated sl of None \<Rightarrow> at | Some held \<Rightarrow> max held at))
         | _ \<Rightarrow> separated)
       (kb_barriers body) Map.empty"

type_synonym scan = "memo \<times> (u64 \<rightharpoonup> nat) \<times> barrier list"

text \<open>Whether a barrier already stands after the write and no later than the read.\<close>

definition settled ::
  "(value_id \<rightharpoonup> nat) \<Rightarrow> (u64 \<rightharpoonup> nat) \<Rightarrow> value_id \<Rightarrow> value_id \<Rightarrow> u64 option \<Rightarrow> bool" where
  "settled position separated write read read_slice =
     (case (position write, position read, read_slice) of
        (Some write_at, Some read_at, Some sl) \<Rightarrow>
          (case separated sl of None \<Rightarrow> False
           | Some barrier \<Rightarrow> write_at < barrier \<and> barrier \<le> read_at)
      | _ \<Rightarrow> False)"

definition scan_pair ::
  "kernel_body \<Rightarrow> (value_id \<rightharpoonup> nat) \<Rightarrow> value_id \<Rightarrow> value_id \<Rightarrow> value_id \<Rightarrow> value_id \<Rightarrow> scan \<Rightarrow>
   scan option" where
  "scan_pair body position write write_index read read_index = (\<lambda>(memo, separated, exprs).
     if write_index = read_index then Some (memo, separated, exprs)
     else (let write_slice = slice_ordinal body write; read_slice = slice_ordinal body read in
       if (case (write_slice, read_slice) of
            (Some written, Some addressed) \<Rightarrow> written \<noteq> addressed | _ \<Rightarrow> False)
       then Some (memo, separated, exprs)
       else if settled position separated write read read_slice then Some (memo, separated, exprs)
       else do {
         (write_bound, memo) \<leftarrow> index_interval body write_index memo;
         (read_bound, memo) \<leftarrow> index_interval body read_index memo;
         if \<not> intersects write_bound read_bound then Some (memo, separated, exprs)
         else Some (memo,
           (case (read_slice, position read) of
              (Some sl, Some read_at) \<Rightarrow> separated(sl \<mapsto> read_at) | _ \<Rightarrow> separated),
           exprs @ [\<lparr>b_write = write, b_read = read\<rparr>])
       }))"

definition scan_read ::
  "kernel_body \<Rightarrow> (value_id \<rightharpoonup> nat) \<Rightarrow> value_id \<Rightarrow> scan \<Rightarrow> scan option" where
  "scan_read body position read s =
     (case value_at body read of
        Some (Instr (SliceReadCall _) args _) \<Rightarrow>
          (case (nth_opt args 2, nth_opt args 1) of
             (Some write, Some read_index) \<Rightarrow>
               (case value_at body write of
                  Some (Instr _ write_args _) \<Rightarrow>
                    (case nth_opt write_args 1 of
                       Some write_index \<Rightarrow> scan_pair body position write write_index read read_index s
                     | None \<Rightarrow> Some s)
                | _ \<Rightarrow> Some s)
           | _ \<Rightarrow> Some s)
      | _ \<Rightarrow> Some s)"

definition barrier_scan :: "kernel_body \<Rightarrow> value_id \<Rightarrow> slice list \<Rightarrow> (barrier list, scan_error) res" where
  "barrier_scan body lane slices =
     (let order = walk_order body; position = positions order; incoming = incoming_arguments body in
      res_bind (fold_res (refuse_access body lane incoming slices) order Map.empty) (\<lambda>memo.
      expect_some (fold_opt (scan_read body position) order (memo, recorded body position, []))
        (\<lambda>(_, _, exprs). Ok exprs)))"

definition fragment_validate :: "kernel_fragment \<Rightarrow> (unit, scan_error) res" where
  "fragment_validate f =
     (case find_pos (\<lambda>sl. s_count sl = 0) (kf_slices f) of
        Some ordinal \<Rightarrow> Err (Empty_slice ordinal)
      | None \<Rightarrow> Ok ())"

definition fragment_barrier_scan :: "kernel_fragment \<Rightarrow> value_id \<Rightarrow> (barrier list, scan_error) res" where
  "fragment_barrier_scan f lane =
     res_bind (fragment_validate f) (\<lambda>_. barrier_scan (kf_body f) lane (kf_slices f))"

section \<open>A bound is always answered\<close>

definition missing :: "kernel_body \<Rightarrow> memo \<Rightarrow> value_id set" where
  "missing body memo = {v. value_at body v \<noteq> None \<and> memo v = None}"

text \<open>\<open>answers n rec\<close>: \<open>rec\<close> answers while fewer than \<open>n\<close> values are missing, and forgets none.\<close>

definition answers ::
  "kernel_body \<Rightarrow> nat \<Rightarrow> (value_id \<Rightarrow> memo \<Rightarrow> (interval \<times> memo) option) \<Rightarrow> bool" where
  "answers body n rec \<longleftrightarrow> (\<forall>v memo. card (missing body memo) < n \<longrightarrow>
     (\<exists>i memo'. rec v memo = Some (i, memo') \<and> dom memo \<subseteq> dom memo'))"

lemma finite_missing [simp]: "finite (missing body memo)"
  by (rule finite_subset [OF subset_UNIV]) simp

lemma missing_mono: "dom memo \<subseteq> dom memo' \<Longrightarrow> card (missing body memo') \<le> card (missing body memo)"
  by (intro card_mono) (auto simp: missing_def)

lemma missing_upd:
  assumes "value_at body v \<noteq> None" "memo v = None"
  shows "card (missing body (memo(v \<mapsto> i))) < card (missing body memo)"
  using assms by (intro psubset_card_mono) (auto simp: missing_def split: if_splits)

lemma card_missing: "card (missing body memo) \<le> length (kb_values body)"
proof -
  have "card (missing body memo) \<le> card {..<length (kb_values body)}"
    by (rule card_inj_on_le [where f = unat])
      (auto simp: inj_on_def missing_def value_at_def word_unat_eq_iff)
  then show ?thesis by simp
qed

lemma operand_interval_answers:
  assumes "answers body n rec" "card (missing body memo) < n"
  shows "\<exists>i memo'. operand_interval rec args p memo = Some (i, memo') \<and> dom memo \<subseteq> dom memo'"
  using assms by (auto simp: operand_interval_def answers_def split: option.splits)

lemma two_operands_answers:
  assumes "answers body n rec" "card (missing body memo) < n"
  shows "\<exists>i memo'. two_operands rec args p q f memo = Some (i, memo') \<and> dom memo \<subseteq> dom memo'"
proof -
  obtain i m where 1: "operand_interval rec args p memo = Some (i, m)" "dom memo \<subseteq> dom m"
    using operand_interval_answers [OF assms] by blast
  have "card (missing body m) < n" using missing_mono [OF 1(2)] assms(2) by (rule order.strict_trans1)
  then obtain j m' where "operand_interval rec args q m = Some (j, m')" "dom m \<subseteq> dom m'"
    using operand_interval_answers [OF assms(1)] by blast
  with 1 show ?thesis by (auto simp: two_operands_def)
qed

lemma interval_of_answers:
  assumes "answers body n rec" "card (missing body memo) < n"
  shows "\<exists>i memo'. interval_of body rec op args memo = Some (i, memo') \<and> dom memo \<subseteq> dom memo'"
proof -
  note one = operand_interval_answers [OF assms]
  note two = two_operands_answers [OF assms]
  have "\<exists>i memo'. int_interval body rec k args memo = Some (i, memo') \<and> dom memo \<subseteq> dom memo'" for k
    using one [of args 0] two by (cases k) (auto simp: int_interval_def)
  then show ?thesis using two by (cases op) (auto simp: interval_of_def)
qed

lemma interval_fuel_answers: "answers body n (interval_fuel n body)"
proof (induction n)
  case (Suc n)
  show ?case
    unfolding answers_def
  proof (intro allI impI)
    fix v memo assume less: "card (missing body memo) < Suc n"
    let ?m = "memo(v \<mapsto> UNBOUNDED)"
    show "\<exists>i memo'. interval_fuel (Suc n) body v memo = Some (i, memo') \<and> dom memo \<subseteq> dom memo'"
    proof (cases "memo v")
      case None
      show ?thesis
      proof (cases "value_at body v")
        case None
        then show ?thesis using \<open>memo v = None\<close> by auto
      next
        case (Some d)
        show ?thesis
        proof (cases d)
          case (Block_param block index)
          then show ?thesis using Some \<open>memo v = None\<close> by auto
        next
          case (Instr op args classes)
          have "card (missing body ?m) < n"
            using missing_upd [of body v memo UNBOUNDED] Some None less by simp
          then obtain i m where "interval_of body (interval_fuel n body) op args ?m = Some (i, m)"
            "dom ?m \<subseteq> dom m"
            using interval_of_answers [OF Suc.IH] by blast
          then have "\<exists>i m. (case op of
               Const Int_class bits \<Rightarrow> Some (\<lparr>iv_low = bits, iv_high = bits\<rparr>, ?m)
             | _ \<Rightarrow> interval_of body (interval_fuel n body) op args ?m) = Some (i, m) \<and> dom memo \<subseteq> dom m"
            by (cases op) (auto split: scalar_class.split)
          then obtain i m where m: "(case op of
               Const Int_class bits \<Rightarrow> Some (\<lparr>iv_low = bits, iv_high = bits\<rparr>, ?m)
             | _ \<Rightarrow> interval_of body (interval_fuel n body) op args ?m) = Some (i, m)" "dom memo \<subseteq> dom m"
            by blast
          then have "interval_fuel (Suc n) body v memo = Some (i, m(v \<mapsto> i))"
            using Some Instr \<open>memo v = None\<close> by (simp add: Let_def)
          moreover have "dom memo \<subseteq> dom (m(v \<mapsto> i))" using m(2) by auto
          ultimately show ?thesis by blast
        qed
      qed
    qed auto
  qed
qed (simp add: answers_def)

lemma index_interval_answers: "\<exists>i memo'. index_interval body v memo = Some (i, memo')"
  using interval_fuel_answers [of body "Suc (length (kb_values body))"]
    card_missing [of body memo] unfolding answers_def index_interval_def
  by (meson le_imp_less_Suc)

section \<open>A bound holds of every value a lane computes\<close>

text \<open>
  The values of one lane: whatever each instruction that reaches no memory computes from its
  operands, and anything else for the others.
\<close>

definition consistent ::
  "f32_ops \<Rightarrow> (kernel_instr \<Rightarrow> f32 \<Rightarrow> f32 option) \<Rightarrow> kernel_body \<Rightarrow> (value_id \<Rightarrow> kval) \<Rightarrow> bool" where
  "consistent fl tr body \<rho> \<longleftrightarrow> (\<forall>v op args classes.
     value_at body v = Some (Instr op args classes) \<longrightarrow> \<not> reaches_memory op \<longrightarrow>
     eval_op fl tr op (map \<rho> args) = Some (\<rho> v))"

text \<open>No select, and a narrowing only of what a comparison answers.\<close>

definition plain_indices :: "kernel_body \<Rightarrow> bool" where
  "plain_indices body \<longleftrightarrow> (\<forall>v op args classes.
     value_at body v = Some (Instr op args classes) \<longrightarrow> op \<noteq> Select \<and>
     (op = I32WrapI64 \<longrightarrow> (\<forall>a \<in> set args. \<exists>c k cargs cclasses.
        value_at body a = Some (Instr (Bin c k) cargs cclasses) \<and> is_comparison k)))"

definition within :: "interval \<Rightarrow> kval \<Rightarrow> bool" where
  "within i x \<longleftrightarrow> (\<forall>w. x = K_int w \<longrightarrow> iv_low i \<le> w \<and> w \<le> iv_high i)"

definition memo_ok :: "(value_id \<Rightarrow> kval) \<Rightarrow> memo \<Rightarrow> bool" where
  "memo_ok \<rho> memo \<longleftrightarrow> (\<forall>v i. memo v = Some i \<longrightarrow> within i (\<rho> v))"

definition bounds :: "(value_id \<Rightarrow> kval) \<Rightarrow> (value_id \<Rightarrow> memo \<Rightarrow> (interval \<times> memo) option) \<Rightarrow> bool" where
  "bounds \<rho> rec \<longleftrightarrow> (\<forall>v memo i memo'. memo_ok \<rho> memo \<longrightarrow> rec v memo = Some (i, memo') \<longrightarrow>
     memo_ok \<rho> memo' \<and> within i (\<rho> v))"

lemma within_unbounded [simp]: "within UNBOUNDED x"
  by (simp add: within_def UNBOUNDED_def)

lemma operand_interval_within:
  assumes "bounds \<rho> rec" "memo_ok \<rho> memo" "operand_interval rec args p memo = Some (i, memo')"
  shows "memo_ok \<rho> memo' \<and> (p < length args \<longrightarrow> within i (\<rho> (args ! p)))"
  using assms by (auto simp: operand_interval_def bounds_def nth_opt_def split: if_splits)

lemma two_operands_within:
  assumes "bounds \<rho> rec" "memo_ok \<rho> memo" "two_operands rec args p q f memo = Some (i, memo')"
    "p < length args" "q < length args"
  shows "memo_ok \<rho> memo' \<and>
    (\<exists>left right. i = f left right \<and> within left (\<rho> (args ! p)) \<and> within right (\<rho> (args ! q)))"
proof -
  obtain left m right where "operand_interval rec args p memo = Some (left, m)"
    "operand_interval rec args q m = Some (right, memo')" "i = f left right"
    using assms(3) by (auto simp: two_operands_def split: Option.bind_splits)
  then show ?thesis using operand_interval_within assms by metis
qed

lemma two_operands_memo:
  assumes "bounds \<rho> rec" "memo_ok \<rho> memo" "two_operands rec args p q f memo = Some (i, memo')"
  shows "memo_ok \<rho> memo'"
proof -
  obtain left m right where "operand_interval rec args p memo = Some (left, m)"
    "operand_interval rec args q m = Some (right, memo')"
    using assms(3) by (auto simp: two_operands_def split: Option.bind_splits)
  then show ?thesis using operand_interval_within assms by metis
qed

text \<open>Each operator's bound, on words.\<close>

lemma ends_add:
  assumes "within l (K_int a)" "within r (K_int b)"
  shows "within (ends checked_add l r) (K_int (a + b))"
proof (cases "checked_add (iv_low l) (iv_low r) = None \<or> checked_add (iv_high l) (iv_high r) = None")
  case True
  then show ?thesis by (auto simp: ends_def split: option.splits)
next
  case False
  then have h: "unat (iv_low l) + unat (iv_low r) < 2 ^ 64" "unat (iv_high l) + unat (iv_high r) < 2 ^ 64"
    by (auto simp: checked_unat split: if_splits)
  have ab: "unat (iv_low l) \<le> unat a" "unat a \<le> unat (iv_high l)" "unat (iv_low r) \<le> unat b"
    "unat b \<le> unat (iv_high r)" using assms by (simp_all add: within_def word_le_nat_alt)
  have plus: "unat (x + y) = unat x + unat y" if "unat x + unat y < 2 ^ 64" for x y :: u64
    using that by (simp add: unat_plus_if_size word_size)
  show ?thesis using h ab
    by (auto simp: ends_def checked_unat within_def word_le_nat_alt plus)
qed

lemma ends_mul:
  assumes "within l (K_int a)" "within r (K_int b)"
  shows "within (ends checked_mul l r) (K_int (a * b))"
proof (cases "checked_mul (iv_low l) (iv_low r) = None \<or> checked_mul (iv_high l) (iv_high r) = None")
  case True
  then show ?thesis by (auto simp: ends_def split: option.splits)
next
  case False
  then have h: "unat (iv_low l) * unat (iv_low r) < 2 ^ 64" "unat (iv_high l) * unat (iv_high r) < 2 ^ 64"
    by (auto simp: checked_unat split: if_splits)
  have ab: "unat (iv_low l) \<le> unat a" "unat a \<le> unat (iv_high l)" "unat (iv_low r) \<le> unat b"
    "unat b \<le> unat (iv_high r)" using assms by (simp_all add: within_def word_le_nat_alt)
  have times: "unat (x * y) = unat x * unat y" if "unat x * unat y < 2 ^ 64" for x y :: u64
    using that by (simp add: unat_word_ariths)
  have up: "unat a * unat b \<le> unat (iv_high l) * unat (iv_high r)"
    "unat (iv_low l) * unat (iv_low r) \<le> unat a * unat b" using ab by (simp_all add: mult_le_mono)
  then have "unat a * unat b < 2 ^ 64" using h by simp
  then show ?thesis using h up
    by (simp add: ends_def checked_unat within_def word_le_nat_alt times)
qed

lemma rem_le: "a mod b \<le> a" for a b :: u64
  by (simp add: word_le_nat_alt unat_mod)

lemma rem_less: "0 < b \<Longrightarrow> a mod b \<le> b - 1" for a b :: u64
proof -
  assume "0 < b"
  then have "b \<noteq> 0" "unat a mod unat b < unat b" by (auto simp: word_less_nat_alt)
  moreover from this have "unat (b - 1) = unat b - 1" by (simp add: unat_minus_one)
  ultimately show ?thesis by (simp add: word_le_nat_alt unat_mod)
qed

lemma div_le: "a div b \<le> a" for a b :: u64
  by (simp add: word_le_nat_alt unat_div)

lemma eval_bin_int:
  assumes "eval_op fl tr (Bin Int_class k) (map \<rho> args) = Some r"
  obtains x y a b where "args = [x, y]" "\<rho> x = K_int a" "\<rho> y = K_int b" "int_bin_val k a b = Some r"
proof -
  obtain x y where args: "args = [x, y]"
    using assms by (auto simp: eval_op_def eval_unary_def eval_ternary_def transcendental_ops_def
        split: list.splits)
  then have "eval_bin fl Int_class k (\<rho> x) (\<rho> y) = Some r" using assms by (simp add: eval_op_def)
  then show thesis using args that
    by (cases "\<rho> x"; cases "\<rho> y") (auto simp: eval_bin_def)
qed

lemma int_interval_within:
  assumes rec: "bounds \<rho> rec" and memo: "memo_ok \<rho> memo"
    and eval: "eval_op fl tr (Bin Int_class k) (map \<rho> args) = Some r"
    and numbers: "\<And>v c. body_constant body (Some v) = Some c \<Longrightarrow> \<rho> v = K_int c"
    and int: "int_interval body rec k args memo = Some (i, memo')"
  shows "memo_ok \<rho> memo' \<and> within i r"
proof -
  obtain x y a b where args: "args = [x, y]" and xy: "\<rho> x = K_int a" "\<rho> y = K_int b"
    and r: "int_bin_val k a b = Some r" by (rule eval_bin_int [OF eval])
  note two = two_operands_within [OF rec memo, where args = args and p = 0 and q = 1]
  note one = operand_interval_within [OF rec memo, where args = args and p = 0]
  have nth: "args ! 0 = x" "args ! 1 = y" "length args = 2" using args by auto
  consider "k = Add" | "k = Mul" | "k = Rem" | "k = Div" | "k = Max" | "k = Min"
    | "k \<notin> {Add, Mul, Rem, Div, Max, Min}" by blast
  then show ?thesis
  proof cases
    case 1
    then obtain l u where "memo_ok \<rho> memo'" "i = ends checked_add l u" "within l (K_int a)" "within u (K_int b)"
      using two int xy nth by (fastforce simp: int_interval_def)
    then show ?thesis using ends_add r 1 by auto
  next
    case 2
    then obtain l u where "memo_ok \<rho> memo'" "i = ends checked_mul l u" "within l (K_int a)" "within u (K_int b)"
      using two int xy nth by (fastforce simp: int_interval_def)
    then show ?thesis using ends_mul r 2 by auto
  next
    case 3
    then obtain l where l: "operand_interval rec args 0 memo = Some (l, memo')"
      and i: "i = (case body_constant body (nth_opt args 1) of
            Some modulus \<Rightarrow>
              if 0 < modulus then \<lparr>iv_low = 0, iv_high = min (iv_high l) (modulus - 1)\<rparr>
              else \<lparr>iv_low = 0, iv_high = iv_high l\<rparr>
          | None \<Rightarrow> \<lparr>iv_low = 0, iv_high = iv_high l\<rparr>)"
      using int by (auto simp: int_interval_def split: Option.bind_splits)
    have "memo_ok \<rho> memo'" "a \<le> iv_high l" using one [OF l] nth xy by (auto simp: within_def)
    moreover have "r = K_int (a mod b)" using r 3 by (simp split: if_splits)
    moreover have "c = b" if "body_constant body (nth_opt args 1) = Some c" for c
      using numbers [of y c] that xy args by (simp add: nth_opt_def)
    ultimately show ?thesis using i rem_le [of a b] rem_less [of b a]
      by (auto simp: within_def split: option.splits intro: order.trans)
  next
    case 4
    then obtain l where l: "operand_interval rec args 0 memo = Some (l, memo')"
      and i: "i = \<lparr>iv_low = 0, iv_high = iv_high l\<rparr>"
      using int by (auto simp: int_interval_def split: Option.bind_splits)
    have "memo_ok \<rho> memo'" "a \<le> iv_high l" using one [OF l] nth xy by (auto simp: within_def)
    moreover have "r = K_int (a div b)" using r 4 by (simp split: if_splits)
    ultimately show ?thesis using i div_le [of a b] by (auto simp: within_def intro: order.trans)
  next
    case 5
    then obtain l u where "memo_ok \<rho> memo'" "within l (K_int a)" "within u (K_int b)"
      "i = \<lparr>iv_low = max (iv_low l) (iv_low u), iv_high = max (iv_high l) (iv_high u)\<rparr>"
      using two int xy nth by (fastforce simp: int_interval_def)
    then show ?thesis using r 5 by (auto simp: within_def max_def)
  next
    case 6
    then obtain l u where "memo_ok \<rho> memo'" "within l (K_int a)" "within u (K_int b)"
      "i = \<lparr>iv_low = min (iv_low l) (iv_low u), iv_high = min (iv_high l) (iv_high u)\<rparr>"
      using two int xy nth by (fastforce simp: int_interval_def)
    then show ?thesis using r 6 by (auto simp: within_def min_def)
  next
    case 7
    then have i: "i = (if is_comparison k then \<lparr>iv_low = 0, iv_high = 1\<rparr> else UNBOUNDED)" "memo' = memo"
      using int by (cases k; simp add: int_interval_def)+
    have "\<exists>p. r = truth p" if "is_comparison k"
      using that r by (cases k) (auto simp: is_comparison_def)
    then show ?thesis using i memo by (auto simp: within_def truth_def UNBOUNDED_def)
  qed
qed

lemma consistent_constant:
  assumes "consistent fl tr body \<rho>" "body_constant body (Some v) = Some c"
  shows "\<rho> v = K_int c"
proof -
  obtain args classes where v: "value_at body v = Some (Instr (Const Int_class c) args classes)"
    using assms(2) by (auto simp: body_constant_def split: option.splits value_def.splits
        kernel_instr.splits scalar_class.splits)
  then have "eval_op fl tr (Const Int_class c) (map \<rho> args) = Some (\<rho> v)"
    using assms(1) by (auto simp: consistent_def reaches_memory_def)
  then show ?thesis
    by (auto simp: eval_op_def eval_unary_def eval_ternary_def transcendental_ops_def split: list.splits)
qed

lemma eval_comparison:
  assumes "eval_op fl tr (Bin c k) xs = Some r" "is_comparison k"
  shows "\<exists>p. r = truth p"
proof -
  obtain a b where "eval_bin fl c k a b = Some r"
    using assms(1) by (auto simp: eval_op_def eval_unary_def eval_ternary_def transcendental_ops_def
        split: list.splits)
  then show ?thesis using assms(2)
    by (cases c; cases k) (auto simp: eval_bin_def is_comparison_def split: Option.bind_splits)
qed

lemma as_int_Some: "as_int x = Some n \<longleftrightarrow> x = K_int n"
  by (cases x) auto

lemma wrapped_truth:
  assumes "consistent fl tr body \<rho>" "plain_indices body"
    "value_at body v = Some (Instr I32WrapI64 args classes)"
  shows "within \<lparr>iv_low = 0, iv_high = 1\<rparr> (\<rho> v)"
proof -
  have ev: "eval_op fl tr I32WrapI64 (map \<rho> args) = Some (\<rho> v)"
    using assms(1,3) by (auto simp: consistent_def reaches_memory_def)
  have "\<exists>a. args = [a]"
    using ev by (auto simp: eval_op_def eval_ternary_def split: list.splits)
  then obtain a where "args = [a]" by blast
  moreover from this obtain n where "\<rho> a = K_int n" "\<rho> v = K_int (take_bit 32 n)"
    using ev by (auto simp: eval_op_def eval_unary_def as_int_Some)
  ultimately have a: "args = [a]" "\<rho> a = K_int n" "\<rho> v = K_int (take_bit 32 n)" by simp_all
  then obtain c k cargs cclasses where "value_at body a = Some (Instr (Bin c k) cargs cclasses)"
    "is_comparison k" using assms(2,3) unfolding plain_indices_def by (metis list.set_intros(1))
  moreover from this have "eval_op fl tr (Bin c k) (map \<rho> cargs) = Some (\<rho> a)"
    using assms(1) by (auto simp: consistent_def reaches_memory_def)
  ultimately obtain p where "\<rho> a = truth p" using eval_comparison by blast
  then show ?thesis using a by (auto simp: within_def truth_def)
qed

lemma interval_of_within:
  assumes "consistent fl tr body \<rho>" "plain_indices body" "bounds \<rho> rec" "memo_ok \<rho> memo"
    "value_at body v = Some (Instr op args classes)" "interval_of body rec op args memo = Some (i, memo')"
  shows "memo_ok \<rho> memo' \<and> within i (\<rho> v)"
proof (cases "\<exists>k. op = Bin Int_class k")
  case True
  then obtain k where op: "op = Bin Int_class k" by blast
  have "eval_op fl tr (Bin Int_class k) (map \<rho> args) = Some (\<rho> v)"
    using assms(1,5) op by (auto simp: consistent_def reaches_memory_def)
  from int_interval_within [OF assms(3,4) this consistent_constant [OF assms(1)]] show ?thesis
    using assms(6) op by (auto simp: interval_of_def)
next
  case False
  moreover have "op \<noteq> Select" using assms(2,5) by (auto simp: plain_indices_def)
  ultimately consider "op = I32WrapI64" "memo' = memo" "i = \<lparr>iv_low = 0, iv_high = 1\<rparr>"
    | "memo' = memo" "i = UNBOUNDED"
    using assms(6) by (cases op) (auto simp: interval_of_def split: if_splits)
  then show ?thesis
    using assms(4,5) wrapped_truth [OF assms(1,2)] by cases auto
qed

lemma memo_ok_upd: "memo_ok \<rho> memo \<Longrightarrow> within i (\<rho> v) \<Longrightarrow> memo_ok \<rho> (memo(v \<mapsto> i))"
  by (auto simp: memo_ok_def)

lemma interval_fuel_bounds:
  assumes "consistent fl tr body \<rho>" "plain_indices body"
  shows "bounds \<rho> (interval_fuel n body)"
proof (induction n)
  case (Suc n)
  show ?case
    unfolding bounds_def
  proof (intro allI impI)
    fix v memo i memo'
    assume memo: "memo_ok \<rho> memo" and answer: "interval_fuel (Suc n) body v memo = Some (i, memo')"
    let ?m = "memo(v \<mapsto> UNBOUNDED)"
    have m: "memo_ok \<rho> ?m" using memo by (simp add: memo_ok_upd)
    show "memo_ok \<rho> memo' \<and> within i (\<rho> v)"
    proof (cases "memo v")
      case (Some known)
      then show ?thesis using memo answer by (auto simp: memo_ok_def)
    next
      case None
      show ?thesis
      proof (cases "\<exists>op args classes. value_at body v = Some (Instr op args classes)")
        case False
        then have "i = UNBOUNDED" "memo' = ?m(v \<mapsto> UNBOUNDED)"
          using answer None by (auto simp: Let_def split: option.splits value_def.splits)
        then show ?thesis using m by (simp add: memo_ok_upd)
      next
        case True
        then obtain op args classes where v: "value_at body v = Some (Instr op args classes)" by blast
        show ?thesis
        proof (cases "\<exists>bits. op = Const Int_class bits")
          case True
          then obtain bits where "op = Const Int_class bits" by blast
          moreover from this have "\<rho> v = K_int bits"
            using consistent_constant [OF assms(1), of v bits] v by (simp add: body_constant_def)
          ultimately have "i = \<lparr>iv_low = bits, iv_high = bits\<rparr>" "memo' = ?m(v \<mapsto> i)" "within i (\<rho> v)"
            using answer None v by (auto simp: Let_def within_def)
          then show ?thesis using memo by (simp add: memo_ok_upd)
        next
          case False
          then have "(case op of Const Int_class bits \<Rightarrow> Some (\<lparr>iv_low = bits, iv_high = bits\<rparr>, ?m)
             | _ \<Rightarrow> interval_of body (interval_fuel n body) op args ?m) =
             interval_of body (interval_fuel n body) op args ?m"
            by (cases op) (auto split: scalar_class.splits)
          then obtain m' where m': "interval_of body (interval_fuel n body) op args ?m = Some (i, m')"
            "memo' = m'(v \<mapsto> i)"
            using answer None v by (auto simp: Let_def split: Option.bind_splits)
          from interval_of_within [OF assms Suc.IH m v m'(1)] show ?thesis
            using m'(2) by (simp add: memo_ok_upd)
        qed
      qed
    qed
  qed
qed (simp add: bounds_def)

lemma index_interval_within:
  assumes "consistent fl tr body \<rho>" "plain_indices body" "memo_ok \<rho> memo"
    "index_interval body v memo = Some (i, memo')"
  shows "memo_ok \<rho> memo' \<and> within i (\<rho> v)"
  using interval_fuel_bounds [OF assms(1,2)] assms(3,4) unfolding bounds_def index_interval_def by blast


lemma index_interval_total: "index_interval body v memo \<noteq> None"
  using index_interval_answers [of body v memo] by blast

section \<open>The order of the walk\<close>

abbreviation listing :: "kernel_body \<Rightarrow> nat list \<Rightarrow> value_id list" where
  "listing body bs \<equiv> concat (map (\<lambda>b. bb_instrs (kb_blocks body ! b)) bs)"

text \<open>The blocks a search enters: none twice, closed under edges, each from the stack or an earlier one.\<close>

definition search ::
  "kernel_body \<Rightarrow> bool list \<Rightarrow> nat list \<Rightarrow> nat list \<Rightarrow> bool" where
  "search body seen stack new \<longleftrightarrow> distinct new \<and>
     (\<forall>b \<in> set new. b < length seen \<and> \<not> seen ! b) \<and>
     (\<forall>b \<in> set stack. b < length seen \<longrightarrow> seen ! b \<or> b \<in> set new) \<and>
     (\<forall>a \<in> set new. \<forall>b. cfg_edge body a b \<longrightarrow> seen ! b \<or> b \<in> set new) \<and>
     (\<forall>i < length new. new ! i \<in> set stack \<or> (\<exists>j < i. cfg_edge body (new ! j) (new ! i)))"

lemma search_enter:
  assumes "search body (seen[block := True]) (map br_target (branches (kb_blocks body ! block)) @ stack) new"
    "block < length seen" "\<not> seen ! block" "length seen = length (kb_blocks body)"
  shows "search body seen (block # stack) (block # new)"
proof -
  let ?next = "map br_target (branches (kb_blocks body ! block)) @ stack"
  from assms(1) have s: "distinct new" "\<forall>b \<in> set new. b < length seen \<and> \<not> seen[block := True] ! b"
    "\<forall>b \<in> set ?next. b < length seen \<longrightarrow> seen[block := True] ! b \<or> b \<in> set new"
    "\<forall>a \<in> set new. \<forall>b. cfg_edge body a b \<longrightarrow> seen[block := True] ! b \<or> b \<in> set new"
    "\<forall>i < length new. new ! i \<in> set ?next \<or> (\<exists>j < i. cfg_edge body (new ! j) (new ! i))"
    by (simp_all add: search_def)
  have marked: "seen[block := True] ! b \<longleftrightarrow> seen ! b \<or> b = block" if "b < length seen" for b
    using that assms(2) by (simp add: nth_list_update)
  have edge: "b < length seen" if "cfg_edge body a b" for a b
    using that assms(4) by (simp add: cfg_edge_def)
  have "distinct (block # new)" "\<forall>b \<in> set (block # new). b < length seen \<and> \<not> seen ! b"
    using s(1,2) assms(2,3) marked by auto
  moreover have "\<forall>b \<in> set (block # stack). b < length seen \<longrightarrow> seen ! b \<or> b \<in> set (block # new)"
    using s(3) marked by auto
  moreover have "\<forall>a \<in> set (block # new). \<forall>b. cfg_edge body a b \<longrightarrow> seen ! b \<or> b \<in> set (block # new)"
  proof (intro ballI allI impI)
    fix a b assume "a \<in> set (block # new)" and e: "cfg_edge body a b"
    then consider "a = block" | "a \<in> set new" by auto
    then show "seen ! b \<or> b \<in> set (block # new)"
    proof cases
      case 1
      then have "b \<in> set ?next" using e by (auto simp: cfg_edge_def)
      then show ?thesis using s(3) edge [OF e] marked by auto
    next
      case 2
      then show ?thesis using s(4) e edge [OF e] marked by auto
    qed
  qed
  moreover have "\<forall>i < length (block # new). (block # new) ! i \<in> set (block # stack) \<or>
      (\<exists>j < i. cfg_edge body ((block # new) ! j) ((block # new) ! i))"
  proof (intro allI impI)
    fix i assume i: "i < length (block # new)"
    show "(block # new) ! i \<in> set (block # stack) \<or>
      (\<exists>j < i. cfg_edge body ((block # new) ! j) ((block # new) ! i))"
    proof (cases i)
      case (Suc k)
      then have k: "k < length new" using i by simp
      then consider "new ! k \<in> set stack" | "new ! k \<in> set (map br_target (branches (kb_blocks body ! block)))"
        | j where "j < k" "cfg_edge body (new ! j) (new ! k)" using s(5) by auto
      then show ?thesis
      proof cases
        case 2
        have "new ! k < length seen" using s(2) k nth_mem by blast
        then have "cfg_edge body block (new ! k)" using 2 assms(2,4) by (simp add: cfg_edge_def)
        then show ?thesis using Suc by auto
      next
        case 3
        then show ?thesis using Suc by (auto intro: exI [of _ "Suc j"])
      qed (use Suc in auto)
    qed simp
  qed
  ultimately show ?thesis unfolding search_def by blast
qed

lemma search_skip:
  "search body seen stack new \<Longrightarrow> length seen \<le> block \<or> seen ! block \<Longrightarrow> search body seen (block # stack) new"
  by (auto simp: search_def)

lemma walk_loop_search:
  assumes "length seen = length (kb_blocks body)"
  shows "\<exists>new. walk_loop body seen order stack = order @ listing body new \<and> search body seen stack new"
  using assms
proof (induction body seen order stack rule: walk_loop.induct)
  case (1 body seen order)
  then show ?case by (intro exI [of _ "[]"]) (simp add: search_def)
next
  case (2 body seen order block stack)
  show ?case
  proof (cases "length (kb_blocks body) \<le> block \<or> length seen \<le> block \<or> seen ! block")
    case True
    then obtain new where "walk_loop body seen order stack = order @ listing body new" "search body seen stack new"
      using 2 by blast
    then show ?thesis using True search_skip [of body seen stack new block] 2(3) by auto
  next
    case False
    then obtain new where new: "walk_loop body (seen[block := True])
        (order @ bb_instrs (kb_blocks body ! block))
        (map br_target (branches (kb_blocks body ! block)) @ stack) =
        (order @ bb_instrs (kb_blocks body ! block)) @ listing body new"
      "search body (seen[block := True]) (map br_target (branches (kb_blocks body ! block)) @ stack) new"
      using 2 by (metis length_list_update)
    have "search body seen (block # stack) (block # new)"
      using search_enter [OF new(2)] False 2(3) by auto
    moreover have "walk_loop body seen order (block # stack) = order @ listing body (block # new)"
      using False new(1) by (simp add: Let_def)
    ultimately show ?thesis by blast
  qed
qed

lemma search_walk:
  assumes "search body (replicate (length (kb_blocks body)) False) [kb_entry body] new" "i < length new"
  shows "\<exists>xs. cfg_walk body xs \<and> last xs = new ! i \<and> set xs \<subseteq> set (take (Suc i) new)"
  using assms(2)
proof (induction i rule: less_induct)
  case (less i)
  have i: "new ! i \<in> set (take (Suc i) new)" using less.prems by (simp add: take_Suc_conv_app_nth)
  have "new ! i \<in> set [kb_entry body] \<or> (\<exists>j < i. cfg_edge body (new ! j) (new ! i))"
    using assms(1) less.prems unfolding search_def by blast
  moreover have "new ! i < length (kb_blocks body)"
    using assms(1) nth_mem [OF less.prems] by (simp add: search_def)
  ultimately consider "new ! i = kb_entry body" "new ! i < length (kb_blocks body)"
    | j where "j < i" "cfg_edge body (new ! j) (new ! i)" by auto
  then show ?case
  proof cases
    case 1
    then have "cfg_walk body [kb_entry body]" by (intro walk_start) simp
    then show ?thesis using 1 i by (intro exI [of _ "[kb_entry body]"]) simp
  next
    case 2
    then obtain xs where xs: "cfg_walk body xs" "last xs = new ! j" "set xs \<subseteq> set (take (Suc j) new)"
      using less.IH [of j] less.prems by auto
    have "set (take (Suc j) new) \<subseteq> set (take (Suc i) new)"
      using 2(1) by (intro set_take_subset_set_take) simp
    then have "cfg_walk body (xs @ [new ! i])" "set (xs @ [new ! i]) \<subseteq> set (take (Suc i) new)"
      using xs 2(2) i by (auto intro: walk_step)
    then show ?thesis by (intro exI [of _ "xs @ [new ! i]"]) simp
  qed
qed

lemma walk_order_blocks:
  obtains bs where "walk_order body = listing body bs" "distinct bs"
    "\<And>b. b \<in> set bs \<longleftrightarrow> cfg_reaches body b"
    "\<And>i. i < length bs \<Longrightarrow> \<exists>xs. cfg_walk body xs \<and> last xs = bs ! i \<and> set xs \<subseteq> set (take (Suc i) bs)"
proof -
  let ?none = "replicate (length (kb_blocks body)) False"
  obtain bs where bs: "walk_order body = listing body bs" "search body ?none [kb_entry body] bs"
    using walk_loop_search [of ?none body "[]" "[kb_entry body]"] by (auto simp: walk_order_def)
  note walk = search_walk [OF bs(2)]
  have "b \<in> set bs \<longleftrightarrow> cfg_reaches body b" for b
  proof
    assume "b \<in> set bs"
    then obtain i where "i < length bs" "bs ! i = b" by (auto simp: in_set_conv_nth)
    then show "cfg_reaches body b" using walk [of i] by (auto simp: cfg_reaches_def)
  next
    assume "cfg_reaches body b"
    then obtain xs where xs: "cfg_walk body xs" "last xs = b" by (auto simp: cfg_reaches_def)
    have "kb_entry body < length (kb_blocks body)"
      using cfg_walk_facts [OF xs(1)] hd_in_set [OF cfg_walk_simps [OF xs(1)]] by auto
    then have "kb_entry body \<in> set bs" using bs(2) by (simp add: search_def)
    moreover have "c \<in> set bs" if "a \<in> set bs" "cfg_edge body a c" for a c
    proof -
      have "?none ! c \<or> c \<in> set bs" using bs(2) that unfolding search_def by blast
      then show ?thesis using that(2) by (simp add: cfg_edge_def)
    qed
    ultimately show "b \<in> set bs" using cfg_walk_closed [OF xs(1)] xs(2) by blast
  qed
  then show thesis using that bs walk by (simp add: search_def)
qed

text \<open>
  the scan's order lists the instructions of exactly the blocks the entry reaches, one block at
  a time and none twice, and no block comes before one that every walk to it passes through.
\<close>

theorem walk_order_dominators_first:
  "\<exists>bs. walk_order body = concat (map (\<lambda>b. bb_instrs (kb_blocks body ! b)) bs) \<and> distinct bs \<and>
     set bs = {b. cfg_reaches body b} \<and> sorted_wrt (\<lambda>b c. \<not> always_through body b c) bs"
proof -
  obtain bs where bs: "walk_order body = listing body bs" "distinct bs"
    "\<And>b. b \<in> set bs \<longleftrightarrow> cfg_reaches body b"
    "\<And>i. i < length bs \<Longrightarrow> \<exists>xs. cfg_walk body xs \<and> last xs = bs ! i \<and> set xs \<subseteq> set (take (Suc i) bs)"
    by (rule walk_order_blocks [of body]) (rule that)
  have "\<not> always_through body (bs ! i) (bs ! j)" if "i < j" "j < length bs" for i j
  proof -
    from bs(4) [of i] that obtain xs where xs: "cfg_walk body xs" "last xs = bs ! i"
      "set xs \<subseteq> set (take (Suc i) bs)" by auto
    have "bs ! j \<notin> set (take (Suc i) bs)" using that bs(2)
      by (auto simp: in_set_conv_nth nth_eq_iff_index_eq)
    then show ?thesis using xs by (auto simp: always_through_def)
  qed
  then show ?thesis using bs by (intro exI [of _ bs]) (auto simp: sorted_wrt_iff_nth_less)
qed

section \<open>Every bound the scan holds\<close>

text \<open>A memo whose bounds hold for every lane.\<close>

definition memo_all ::
  "f32_ops \<Rightarrow> (kernel_instr \<Rightarrow> f32 \<Rightarrow> f32 option) \<Rightarrow> kernel_body \<Rightarrow> memo \<Rightarrow> bool" where
  "memo_all fl tr body memo \<longleftrightarrow> (\<forall>\<rho>. consistent fl tr body \<rho> \<longrightarrow> memo_ok \<rho> memo)"

lemma memo_all_empty [simp]: "memo_all fl tr body Map.empty"
  by (simp add: memo_all_def memo_ok_def)

lemma index_interval_all:
  assumes "plain_indices body" "memo_all fl tr body memo" "index_interval body v memo = Some (i, memo')"
  shows "memo_all fl tr body memo' \<and> (\<forall>\<rho>. consistent fl tr body \<rho> \<longrightarrow> within i (\<rho> v))"
  using assms(2) index_interval_within [OF _ assms(1) _ assms(3)] by (auto simp: memo_all_def)

lemma refuse_escaping_Ok:
  assumes "refuse_escaping_slice body err v args slices memo = Ok memo'"
    "plain_indices body" "memo_all fl tr body memo"
  shows "memo_all fl tr body memo' \<and> (\<forall>index sl ordinal \<rho> w. nth_opt args 1 = Some index \<longrightarrow>
    slice_ordinal body v = Some ordinal \<longrightarrow> nth_opt slices (unat ordinal) = Some sl \<longrightarrow>
    consistent fl tr body \<rho> \<longrightarrow> \<rho> index = K_int w \<longrightarrow> unat w < unat (s_count sl))"
proof (cases "nth_opt args 1")
  case None
  then show ?thesis using assms by (simp add: refuse_escaping_slice_def del: nth_opt_Some nth_opt_None)
next
  case (Some index)
  show ?thesis
  proof (cases "Option.bind (slice_ordinal body v) (\<lambda>ordinal. nth_opt slices (unat ordinal))")
    case None
    then have "memo' = memo" using assms(1) \<open>nth_opt args 1 = Some index\<close>
      by (simp add: refuse_escaping_slice_def del: nth_opt_Some nth_opt_None)
    then show ?thesis using None assms(3) \<open>nth_opt args 1 = Some index\<close>
      by (auto simp del: nth_opt_Some nth_opt_None)
  next
    case (Some sl)
    obtain bound where "index_interval body index memo = Some (bound, memo')"
      "iv_high bound < ucast (s_count sl)"
      using assms(1) Some \<open>nth_opt args 1 = Some index\<close>
      by (auto simp: refuse_escaping_slice_def simp del: nth_opt_Some nth_opt_None split: if_splits)
    then show ?thesis
      using index_interval_all [OF assms(2,3)] Some \<open>nth_opt args 1 = Some index\<close> below_count
      by (fastforce simp: within_def simp del: nth_opt_Some nth_opt_None)
  qed
qed

text \<open>The operands of an instruction that stages through a slice.\<close>

definition slice_access :: "kernel_body \<Rightarrow> value_id \<Rightarrow> value_id list option" where
  "slice_access body v = (case value_at body v of
     Some (Instr (SliceWriteCall _) args _) \<Rightarrow> Some args
   | Some (Instr (SliceReadCall _) args _) \<Rightarrow> Some args
   | _ \<Rightarrow> None)"

definition access_ok ::
  "f32_ops \<Rightarrow> (kernel_instr \<Rightarrow> f32 \<Rightarrow> f32 option) \<Rightarrow> kernel_body \<Rightarrow> value_id \<Rightarrow> slice list \<Rightarrow> value_id \<Rightarrow>
   bool" where
  "access_ok fl tr body lane slices v \<longleftrightarrow> (\<forall>args index. slice_access body v = Some args \<longrightarrow>
     nth_opt args 1 = Some index \<longrightarrow>
     (\<forall>ordinal sl \<rho> w. slice_ordinal body v = Some ordinal \<longrightarrow>
        nth_opt slices (unat ordinal) = Some sl \<longrightarrow> consistent fl tr body \<rho> \<longrightarrow> \<rho> index = K_int w \<longrightarrow>
        unat w < unat (s_count sl)) \<and>
     (is_slice_write_at body v \<longrightarrow> depends_on body index lane (incoming_arguments body)) \<and>
     (\<not> is_slice_write_at body v \<longrightarrow>
        (\<exists>write. nth_opt args 2 = Some write \<and> is_slice_write_at body write)))"

lemma refuse_access_Ok:
  assumes "refuse_access body lane (incoming_arguments body) slices v memo = Ok memo'"
    "plain_indices body" "memo_all fl tr body memo"
  shows "memo_all fl tr body memo' \<and> access_ok fl tr body lane slices v"
proof -
  consider c args classes where "value_at body v = Some (Instr (SliceWriteCall c) args classes)"
    | c args classes where "value_at body v = Some (Instr (SliceReadCall c) args classes)"
    | "slice_access body v = None"
  proof -
    have "(\<exists>c args classes. value_at body v = Some (Instr (SliceWriteCall c) args classes)) \<or>
      (\<exists>c args classes. value_at body v = Some (Instr (SliceReadCall c) args classes)) \<or>
      slice_access body v = None"
      by (auto simp: slice_access_def split: option.split value_def.split kernel_instr.split)
    then show thesis using that by blast
  qed
  then show ?thesis
  proof cases
    case 1
    then have "refuse_escaping_slice body Escaping_write v args slices memo = Ok memo'"
      "nth_opt args 1 = Some index \<Longrightarrow> depends_on body index lane (incoming_arguments body)" for index
      using assms(1) by (auto simp: refuse_access_def simp del: nth_opt_Some nth_opt_None
          split: option.splits if_splits)
    then show ?thesis using refuse_escaping_Ok [OF _ assms(2,3)] 1
      by (fastforce simp: access_ok_def slice_access_def is_slice_write_at_def simp del: nth_opt_Some)
  next
    case 2
    then have "refuse_escaping_slice body Escaping_read v args slices memo = Ok memo'"
      "\<exists>write. nth_opt args 2 = Some write \<and> is_slice_write_at body write"
      using assms(1) by (auto simp: refuse_access_def Let_def simp del: nth_opt_Some nth_opt_None
          split: option.splits if_splits)
    then show ?thesis using refuse_escaping_Ok [OF _ assms(2,3)] 2
      by (fastforce simp: access_ok_def slice_access_def is_slice_write_at_def simp del: nth_opt_Some)
  next
    case 3
    then have "memo' = memo" using assms(1)
      by (auto simp: refuse_access_def slice_access_def
          split: option.splits value_def.splits kernel_instr.splits)
    then show ?thesis using 3 assms(3) by (simp add: access_ok_def)
  qed
qed

lemma refuse_accesses_Ok:
  assumes "fold_res (refuse_access body lane (incoming_arguments body) slices) order memo = Ok memo'"
    "plain_indices body" "memo_all fl tr body memo"
  shows "memo_all fl tr body memo' \<and> (\<forall>v \<in> set order. access_ok fl tr body lane slices v)"
  using assms
proof (induction order arbitrary: memo)
  case (Cons v order)
  obtain m where m: "refuse_access body lane (incoming_arguments body) slices v memo = Ok m"
    "fold_res (refuse_access body lane (incoming_arguments body) slices) order m = Ok memo'"
    using Cons.prems(1) by auto
  from refuse_access_Ok [OF m(1) Cons.prems(2,3)] Cons.IH [OF m(2) Cons.prems(2)] show ?case by simp
qed simp

section \<open>Every pair that may race is separated\<close>

text \<open>A barrier of the read's slice stands after the write and no later than the read.\<close>

definition separates ::
  "kernel_body \<Rightarrow> (value_id \<rightharpoonup> nat) \<Rightarrow> value_id \<Rightarrow> value_id \<Rightarrow> barrier \<Rightarrow> bool" where
  "separates body position write read b \<longleftrightarrow>
     (\<exists>sl pw pb pr. slice_ordinal body (b_read b) = Some sl \<and> slice_ordinal body read = Some sl \<and>
        position write = Some pw \<and> position (b_read b) = Some pb \<and> position read = Some pr \<and>
        pw < pb \<and> pb \<le> pr)"

definition covered ::
  "kernel_body \<Rightarrow> (value_id \<rightharpoonup> nat) \<Rightarrow> barrier set \<Rightarrow> value_id \<Rightarrow> value_id \<Rightarrow> bool" where
  "covered body position bs write read \<longleftrightarrow>
     \<lparr>b_write = write, b_read = read\<rparr> \<in> bs \<or> (\<exists>b \<in> bs. separates body position write read b)"

lemma covered_mono: "covered body position bs write read \<Longrightarrow> bs \<subseteq> cs \<Longrightarrow> covered body position cs write read"
  by (auto simp: covered_def)

text \<open>Each entry of \<open>separated\<close> is the position of a barrier already recorded or emitted.\<close>

definition separated_ok ::
  "kernel_body \<Rightarrow> (value_id \<rightharpoonup> nat) \<Rightarrow> barrier set \<Rightarrow> (u64 \<rightharpoonup> nat) \<Rightarrow> bool" where
  "separated_ok body position bs separated \<longleftrightarrow> (\<forall>sl at. separated sl = Some at \<longrightarrow>
     (\<exists>b \<in> bs. slice_ordinal body (b_read b) = Some sl \<and> position (b_read b) = Some at))"

lemma separated_ok_mono: "separated_ok body position bs s \<Longrightarrow> bs \<subseteq> cs \<Longrightarrow> separated_ok body position cs s"
  unfolding separated_ok_def by blast

lemma recorded_fold_ok:
  assumes "separated_ok body position bs separated" "set barriers \<subseteq> bs"
  shows "separated_ok body position bs (fold (\<lambda>expr separated.
         case (slice_ordinal body (b_read expr), position (b_read expr)) of
           (Some sl, Some at) \<Rightarrow>
             separated(sl \<mapsto> (case separated sl of None \<Rightarrow> at | Some held \<Rightarrow> max held at))
         | _ \<Rightarrow> separated) barriers separated)"
  using assms
proof (induction barriers arbitrary: separated)
  case (Cons b barriers)
  let ?step = "case (slice_ordinal body (b_read b), position (b_read b)) of
      (Some sl, Some at) \<Rightarrow>
        separated(sl \<mapsto> (case separated sl of None \<Rightarrow> at | Some held \<Rightarrow> max held at))
    | _ \<Rightarrow> separated"
  have "separated_ok body position bs ?step"
    using Cons.prems by (auto simp: separated_ok_def max_def split: option.split)
  then show ?case using Cons by simp
qed simp

lemma recorded_ok: "separated_ok body position (set (kb_barriers body)) (recorded body position)"
  unfolding recorded_def by (rule recorded_fold_ok) (auto simp: separated_ok_def)

lemma settled_covered:
  assumes "separated_ok body position bs separated"
    "settled position separated write read (slice_ordinal body read)"
  shows "covered body position bs write read"
  using assms unfolding settled_def separated_ok_def covered_def separates_def
  by (fastforce split: option.splits)

text \<open>Two lanes whose write and read may meet at one slot.\<close>

definition may_meet ::
  "f32_ops \<Rightarrow> (kernel_instr \<Rightarrow> f32 \<Rightarrow> f32 option) \<Rightarrow> kernel_body \<Rightarrow> value_id \<Rightarrow> value_id \<Rightarrow> bool" where
  "may_meet fl tr body write_index read_index \<longleftrightarrow>
     (\<exists>\<rho> \<sigma> w. consistent fl tr body \<rho> \<and> consistent fl tr body \<sigma> \<and>
        \<rho> write_index = K_int w \<and> \<sigma> read_index = K_int w)"

definition one_slice :: "kernel_body \<Rightarrow> value_id \<Rightarrow> value_id \<Rightarrow> bool" where
  "one_slice body write read \<longleftrightarrow> (\<forall>a b. slice_ordinal body write = Some a \<longrightarrow>
     slice_ordinal body read = Some b \<longrightarrow> a = b)"

text \<open>A read of another lane's write: at another index value, of a slice that may be the same.\<close>

definition crosses ::
  "f32_ops \<Rightarrow> (kernel_instr \<Rightarrow> f32 \<Rightarrow> f32 option) \<Rightarrow> kernel_body \<Rightarrow> value_id \<Rightarrow> value_id \<Rightarrow> bool" where
  "crosses fl tr body write read \<longleftrightarrow> (\<exists>c args classes op wargs wclasses wi ri.
     value_at body read = Some (Instr (SliceReadCall c) args classes) \<and>
     nth_opt args 2 = Some write \<and> nth_opt args 1 = Some ri \<and>
     value_at body write = Some (Instr op wargs wclasses) \<and> nth_opt wargs 1 = Some wi \<and>
     wi \<noteq> ri \<and> one_slice body write read \<and> may_meet fl tr body wi ri)"

lemma within_meet:
  assumes "within i (K_int w)" "within j (K_int w)"
  shows "intersects i j"
  using assms by (auto simp: within_def intersects_def intro: order.trans)

definition scan_ok ::
  "f32_ops \<Rightarrow> (kernel_instr \<Rightarrow> f32 \<Rightarrow> f32 option) \<Rightarrow> kernel_body \<Rightarrow> (value_id \<rightharpoonup> nat) \<Rightarrow> scan \<Rightarrow> bool" where
  "scan_ok fl tr body position = (\<lambda>(memo, separated, exprs). memo_all fl tr body memo \<and>
     separated_ok body position (set (kb_barriers body) \<union> set exprs) separated)"

definition scanned :: "kernel_body \<Rightarrow> scan \<Rightarrow> barrier set" where
  "scanned body = (\<lambda>(memo, separated, exprs). set (kb_barriers body) \<union> set exprs)"

lemma scan_pair_step:
  assumes step: "scan_pair body position write wi read ri s = Some s'"
    and ok: "scan_ok fl tr body position s" and plain: "plain_indices body"
  shows "scan_ok fl tr body position s' \<and> scanned body s \<subseteq> scanned body s' \<and>
    (wi \<noteq> ri \<longrightarrow> one_slice body write read \<longrightarrow> may_meet fl tr body wi ri \<longrightarrow>
       covered body position (scanned body s') write read)"
proof -
  obtain memo separated exprs where s: "s = (memo, separated, exprs)" by (cases s)
  let ?bars = "set (kb_barriers body) \<union> set exprs"
  have inv: "memo_all fl tr body memo" "separated_ok body position ?bars separated"
    using ok by (simp_all add: scan_ok_def s)
  consider (same) "s' = s" "wi = ri \<or> \<not> one_slice body write read"
    | (settled) "s' = s" "settled position separated write read (slice_ordinal body read)"
    | (bounded) "wi \<noteq> ri" "\<not> settled position separated write read (slice_ordinal body read)"
      "\<not> (case (slice_ordinal body write, slice_ordinal body read) of
            (Some written, Some addressed) \<Rightarrow> written \<noteq> addressed | _ \<Rightarrow> False)"
    using step by (cases "wi = ri") (auto simp: scan_pair_def s one_slice_def Let_def
        split: if_splits option.splits)
  then show ?thesis
  proof cases
    case same
    then show ?thesis using ok by auto
  next
    case settled
    then have "covered body position ?bars write read" using settled_covered inv(2) by blast
    then show ?thesis using ok settled(1) by (simp add: scanned_def s)
  next
    case bounded
    then obtain i m j m' where i: "index_interval body wi memo = Some (i, m)"
      and j: "index_interval body ri m = Some (j, m')"
      and s': "s' = (if \<not> intersects i j then (m', separated, exprs) else (m',
           (case (slice_ordinal body read, position read) of
              (Some sl, Some read_at) \<Rightarrow> separated(sl \<mapsto> read_at) | _ \<Rightarrow> separated),
           exprs @ [\<lparr>b_write = write, b_read = read\<rparr>]))"
      using step by (auto simp: scan_pair_def s Let_def split: Option.bind_splits if_splits)
    have m: "memo_all fl tr body m" "\<And>\<rho>. consistent fl tr body \<rho> \<Longrightarrow> within i (\<rho> wi)"
      using index_interval_all [OF plain inv(1) i] by auto
    have m': "memo_all fl tr body m'" "\<And>\<rho>. consistent fl tr body \<rho> \<Longrightarrow> within j (\<rho> ri)"
      using index_interval_all [OF plain m(1) j] by auto
    show ?thesis
    proof (cases "intersects i j")
      case False
      then have "\<not> may_meet fl tr body wi ri"
        using m(2) m'(2) within_meet unfolding may_meet_def by metis
      then show ?thesis using s' False m'(1) inv(2) by (simp add: scan_ok_def scanned_def s)
    next
      case True
      let ?new = "case (slice_ordinal body read, position read) of
          (Some sl, Some read_at) \<Rightarrow> separated(sl \<mapsto> read_at) | _ \<Rightarrow> separated"
      let ?b = "\<lparr>b_write = write, b_read = read\<rparr>"
      have "separated_ok body position (insert ?b ?bars) ?new"
        using inv(2) by (auto simp: separated_ok_def split: option.split)
      moreover have "?b \<in> scanned body s'" using s' True by (simp add: scanned_def)
      ultimately show ?thesis using s' True m'(1)
        by (auto simp: scan_ok_def scanned_def s covered_def Un_insert_right)
    qed
  qed
qed

lemma scan_read_step:
  assumes step: "scan_read body position read s = Some s'"
    and ok: "scan_ok fl tr body position s" and plain: "plain_indices body"
  shows "scan_ok fl tr body position s' \<and> scanned body s \<subseteq> scanned body s' \<and>
    (\<forall>write. crosses fl tr body write read \<longrightarrow> covered body position (scanned body s') write read)"
proof (cases "\<exists>c args classes write ri wop wargs wclasses wi.
    value_at body read = Some (Instr (SliceReadCall c) args classes) \<and>
    nth_opt args 2 = Some write \<and> nth_opt args 1 = Some ri \<and>
    value_at body write = Some (Instr wop wargs wclasses) \<and> nth_opt wargs 1 = Some wi")
  case True
  then obtain c args classes wr ri wop wargs wclasses wi where r:
    "value_at body read = Some (Instr (SliceReadCall c) args classes)"
    "nth_opt args 2 = Some wr" "nth_opt args 1 = Some ri"
    "value_at body wr = Some (Instr wop wargs wclasses)" "nth_opt wargs 1 = Some wi" by blast
  then have "scan_pair body position wr wi read ri s = Some s'"
    using step by (simp add: scan_read_def del: nth_opt_Some nth_opt_None)
  from scan_pair_step [OF this ok plain] show ?thesis
    using r by (auto simp: crosses_def simp del: nth_opt_Some nth_opt_None)
next
  case False
  then have "\<not> crosses fl tr body wr read" for wr
    unfolding crosses_def by blast
  moreover have "s' = s"
    using step False
    by (auto simp: scan_read_def simp del: nth_opt_Some nth_opt_None
        split: option.splits value_def.splits kernel_instr.splits)
  ultimately show ?thesis using ok by simp
qed

lemma scan_fold:
  assumes "fold_opt (scan_read body position) order s = Some s'" "scan_ok fl tr body position s"
    "plain_indices body"
  shows "scanned body s \<subseteq> scanned body s' \<and> (\<forall>read \<in> set order. \<forall>write.
    crosses fl tr body write read \<longrightarrow> covered body position (scanned body s') write read)"
  using assms
proof (induction order arbitrary: s)
  case (Cons read order)
  obtain t where t: "scan_read body position read s = Some t"
    "fold_opt (scan_read body position) order t = Some s'"
    using Cons.prems(1) by (auto split: Option.bind_splits)
  note step = scan_read_step [OF t(1) Cons.prems(2,3)]
  note rest = Cons.IH [OF t(2) conjunct1 [OF step] Cons.prems(3)]
  show ?case
  proof (intro conjI ballI allI impI)
    show "scanned body s \<subseteq> scanned body s'" using step rest by blast
  next
    fix r w assume "r \<in> set (read # order)" and r: "crosses fl tr body w r"
    then consider "r = read" | "r \<in> set order" by auto
    then show "covered body position (scanned body s') w r"
    proof cases
      case 1
      then show ?thesis using step rest r covered_mono by blast
    next
      case 2
      then show ?thesis using rest r by blast
    qed
  qed
qed simp

lemma barrier_scan_Ok:
  assumes "barrier_scan body lane slices = Ok exprs" "plain_indices body"
  shows "(\<forall>v \<in> set (walk_order body). access_ok fl tr body lane slices v) \<and>
    (\<forall>read \<in> set (walk_order body). \<forall>write. crosses fl tr body write read \<longrightarrow>
       covered body (positions (walk_order body)) (set (kb_barriers body) \<union> set exprs) write read)"
proof -
  let ?order = "walk_order body"
  obtain memo s where memo: "fold_res (refuse_access body lane (incoming_arguments body) slices) ?order
      Map.empty = Ok memo"
    and s: "fold_opt (scan_read body (positions ?order)) ?order
      (memo, recorded body (positions ?order), []) = Some s" "snd (snd s) = exprs"
    using assms(1) by (auto simp: barrier_scan_def Let_def)
  note accesses = refuse_accesses_Ok [OF memo assms(2), of fl tr]
  then have "scan_ok fl tr body (positions ?order) (memo, recorded body (positions ?order), [])"
    using recorded_ok by (simp add: scan_ok_def)
  from scan_fold [OF s(1) this assms(2)] show ?thesis
    using accesses s(2) by (cases s) (simp add: scanned_def)
qed

section \<open>The scan always answers\<close>

lemma fold_res_no_Panic:
  assumes "\<And>x s. f x s \<noteq> Panic"
  shows "fold_res f xs s \<noteq> Panic"
proof (induction xs arbitrary: s)
  case (Cons x xs)
  then show ?case using assms [of x s] by (cases "f x s") auto
qed simp

lemma fold_opt_total:
  assumes "\<And>x s. f x s \<noteq> None"
  shows "fold_opt f xs s \<noteq> None"
proof (induction xs arbitrary: s)
  case (Cons x xs)
  then show ?case using assms [of x s] by (cases "f x s") auto
qed simp

lemma expect_interval_no_Panic:
  "(\<And>i m. f (i, m) \<noteq> Panic) \<Longrightarrow> expect_some (index_interval body v memo) f \<noteq> Panic"
  using index_interval_answers [of body v memo] by auto

lemma refuse_escaping_no_Panic: "refuse_escaping_slice body err v args slices memo \<noteq> Panic"
  by (auto simp: refuse_escaping_slice_def split: option.split
      intro!: expect_interval_no_Panic split: if_splits)

lemma refuse_access_no_Panic: "refuse_access body lane incoming slices v memo \<noteq> Panic"
proof -
  have bind: "res_bind (refuse_escaping_slice body err v args slices memo) f \<noteq> Panic"
    if "\<And>m. f m \<noteq> Panic" for err args and f :: "memo \<Rightarrow> (memo, scan_error) res"
    using that refuse_escaping_no_Panic [of body err v args slices memo]
    by (cases "refuse_escaping_slice body err v args slices memo") auto
  show ?thesis
    unfolding refuse_access_def Let_def
    by (simp split: option.split value_def.split kernel_instr.split)
      (intro conjI allI impI bind; simp split: option.split)
qed

lemma scan_pair_total: "scan_pair body position w wi r ri s \<noteq> None"
proof -
  obtain memo separated exprs where s: "s = (memo, separated, exprs)" by (cases s)
  obtain i m where i: "index_interval body wi memo = Some (i, m)" using index_interval_answers by blast
  obtain j m' where j: "index_interval body ri m = Some (j, m')" using index_interval_answers by blast
  show ?thesis by (simp add: scan_pair_def s Let_def i j)
qed

lemma scan_read_total: "scan_read body position r s \<noteq> None"
  by (simp add: scan_read_def scan_pair_total del: not_None_eq
      split: option.split value_def.split kernel_instr.split)

text \<open>
  on every body, looping or ill-formed, the scan ends with pairs or with a refusal: the
  recursion on operands stops at the values it has entered, and the walk at the blocks.
\<close>

theorem barrier_scan_answers: "barrier_scan body lane slices \<noteq> Panic"
proof -
  have "fold_res (refuse_access body lane (incoming_arguments body) slices) (walk_order body) Map.empty \<noteq> Panic"
    by (rule fold_res_no_Panic) (rule refuse_access_no_Panic)
  moreover have "fold_opt (scan_read body position) order s \<noteq> None" for position order s
    by (rule fold_opt_total) (rule scan_read_total)
  ultimately show ?thesis
    by (cases "fold_res (refuse_access body lane (incoming_arguments body) slices) (walk_order body) Map.empty")
      (auto simp: barrier_scan_def Let_def expect_some_def split: option.split)
qed

section \<open>What an accepted scan promises\<close>

text \<open>
  the bound of a value is always answered, and on a body without selects it holds of the value
  in every lane.
\<close>

theorem index_bound_sound:
  assumes "consistent fl tr body \<rho>" "plain_indices body"
  shows "\<exists>i memo. index_interval body v Map.empty = Some (i, memo) \<and>
    (case \<rho> v of K_int w \<Rightarrow> iv_low i \<le> w \<and> w \<le> iv_high i | K_float _ \<Rightarrow> True)"
proof -
  obtain i memo where i: "index_interval body v Map.empty = Some (i, memo)"
    using index_interval_answers by blast
  then have "within i (\<rho> v)"
    using index_interval_within [OF assms _ i] by (simp add: memo_ok_def)
  then show ?thesis using i by (intro exI [of _ i] exI [of _ memo]) (simp add: within_def split: kval.split)
qed



text \<open>Lanes write slots modulo four and read their neighbour's, modulo two.\<close>

definition staged_body :: kernel_body where
  "staged_body = \<lparr>kb_values = [Block_param 0 0, Instr (Const Int_class 0) [] [Int_class],
       Instr (Const Int_class 4) [] [Int_class], Instr (Bin Int_class Rem) [0, 2] [Int_class],
       Instr (SliceWriteCall Int_class) [1, 3, 0] [Int_class], Instr (Const Int_class 1) [] [Int_class],
       Instr (Bin Int_class Add) [0, 5] [Int_class], Instr (Const Int_class 2) [] [Int_class],
       Instr (Bin Int_class Rem) [6, 7] [Int_class],
       Instr (SliceReadCall Int_class) [1, 8, 4] [Int_class]],
     kb_blocks = [\<lparr>bb_params = [0], bb_instrs = [1, 2, 3, 4, 5, 6, 7, 8, 9], bb_terminator = Return [9]\<rparr>],
     kb_entry = 0, kb_exact = False, kb_barriers = []\<rparr>"

definition staged_slices :: "slice list" where
  "staged_slices = [\<lparr>s_class = Int_class, s_count = 4, s_space = Shared\<rparr>]"

definition staged_values :: "u64 \<Rightarrow> value_id \<Rightarrow> kval" where
  "staged_values lane v = K_int (if v = 1 then 0 else if v = 2 then 4 else if v = 3 then lane mod 4
     else if v = 5 then 1 else if v = 6 then lane + 1 else if v = 7 then 2
     else if v = 8 then (lane + 1) mod 2 else lane)"

lemma value_at_listed:
  "value_at body v = Some d \<Longrightarrow> (v, d) \<in> set (map (\<lambda>(i, d). (of_nat i, d)) (enumerate 0 (kb_values body)))"
  by (auto simp: value_at_def in_set_enumerate_eq intro!: image_eqI [of _ _ "(unat v, d)"])

lemma staged_values_at: "value_at staged_body v = Some d \<Longrightarrow>
    (v, d) \<in> set (zip [0, 1, 2, 3, 4, 5, 6, 7, 8, 9] (kb_values staged_body))"
  by (drule value_at_listed) (simp add: staged_body_def)

lemma staged_consistent: "consistent fl tr staged_body (staged_values lane)"
  unfolding consistent_def
proof (intro allI impI)
  fix v wop args classes
  assume "value_at staged_body v = Some (Instr wop args classes)" "\<not> reaches_memory wop"
  from staged_values_at [OF this(1)] this(2)
  show "eval_op fl tr wop (map (staged_values lane) args) = Some (staged_values lane v)"
    unfolding staged_body_def
    by (auto simp: staged_values_def eval_op_def eval_bin_def reaches_memory_def)
qed

lemma staged_plain: "plain_indices staged_body"
  unfolding plain_indices_def
proof (intro allI impI)
  fix v wop args classes
  assume "value_at staged_body v = Some (Instr wop args classes)"
  from staged_values_at [OF this] have "wop \<noteq> Select" "wop \<noteq> I32WrapI64"
    by (auto simp: staged_body_def)
  then show "wop \<noteq> Select \<and> (wop = I32WrapI64 \<longrightarrow> (\<forall>a \<in> set args. \<exists>c k cargs cclasses.
        value_at staged_body a = Some (Instr (Bin c k) cargs cclasses) \<and> is_comparison k))" by simp
qed

lemma staged_scan: "barrier_scan staged_body 0 staged_slices = Ok [\<lparr>b_write = 4, b_read = 9\<rparr>]"
  by code_simp

theorem index_bound_sound_witness:
  "\<exists>i memo. index_interval staged_body 8 Map.empty = Some (i, memo) \<and> iv_low i \<le> 0"
proof -
  have "staged_values 7 8 = K_int 0" by (simp add: staged_values_def)
  then show ?thesis
    using index_bound_sound [OF staged_consistent [of sm_ops "\<lambda>_ _. None" 7] staged_plain, of 8]
    by auto
qed


section \<open>Where the scan misses\<close>

text \<open>A read at slot seven in the lanes below two, of a slice of two slots.\<close>

definition select_body :: kernel_body where
  "select_body = \<lparr>kb_values = [Block_param 0 0, Instr (Const Int_class 0) [] [Int_class],
       Instr (Const Int_class 2) [] [Int_class], Instr (Bin Int_class Rem) [0, 2] [Int_class],
       Instr (SliceWriteCall Int_class) [1, 3, 0] [Int_class],
       Instr (Bin Int_class Lt) [0, 2] [Int_class], Instr (Const Int_class 7) [] [Int_class],
       Instr Select [6, 1, 5] [Int_class], Instr (SliceReadCall Int_class) [1, 7, 4] [Int_class]],
     kb_blocks = [\<lparr>bb_params = [0], bb_instrs = [1, 2, 3, 4, 5, 6, 7, 8], bb_terminator = Return [8]\<rparr>],
     kb_entry = 0, kb_exact = False, kb_barriers = []\<rparr>"

definition select_values :: "value_id \<Rightarrow> kval" where
  "select_values v = K_int (if v = 2 then 2 else if v = 5 then 1 else if v = 6 \<or> v = 7 then 7 else 0)"

lemma select_consistent: "consistent fl tr select_body select_values"
  unfolding consistent_def
proof (intro allI impI)
  fix v wop args classes
  assume "value_at select_body v = Some (Instr wop args classes)" "\<not> reaches_memory wop"
  from value_at_listed [OF this(1)] this(2)
  show "eval_op fl tr wop (map select_values args) = Some (select_values v)"
    unfolding select_body_def
    by (auto simp: select_values_def eval_op_def eval_bin_def eval_ternary_def truth_def reaches_memory_def)
qed

text \<open>
  the bound of a select leaves out its first alternative: the scan accepts a read whose index is
  seven in lane zero, of a slice of two slots.
\<close>

theorem select_bound_drops_first:
  "barrier_scan select_body 0 [\<lparr>s_class = Int_class, s_count = 2, s_space = Shared\<rparr>] =
     Ok [\<lparr>b_write = 4, b_read = 8\<rparr>] \<and>
   consistent fl tr select_body select_values \<and> select_values 0 = K_int 0 \<and>
   slice_access select_body 8 = Some [1, 7, 4] \<and> select_values 7 = K_int 7"
proof -
  have "barrier_scan select_body 0 [\<lparr>s_class = Int_class, s_count = 2, s_space = Shared\<rparr>] =
     Ok [\<lparr>b_write = 4, b_read = 8\<rparr>]" "slice_access select_body 8 = Some [1, 7, 4]"
    by code_simp+
  then show ?thesis using select_consistent by (simp add: select_values_def)
qed

text \<open>One slice written, read, written again and read again.\<close>

definition twice_body :: kernel_body where
  "twice_body = \<lparr>kb_values = [Block_param 0 0, Instr (Const Int_class 0) [] [Int_class],
       Instr (Const Int_class 2) [] [Int_class], Instr (Bin Int_class Rem) [0, 2] [Int_class],
       Instr (SliceWriteCall Int_class) [1, 3, 0] [Int_class], Instr (Const Int_class 1) [] [Int_class],
       Instr (Bin Int_class Add) [0, 5] [Int_class], Instr (Bin Int_class Rem) [6, 2] [Int_class],
       Instr (SliceReadCall Int_class) [1, 7, 4] [Int_class],
       Instr (SliceWriteCall Int_class) [1, 3, 8] [Int_class],
       Instr (SliceReadCall Int_class) [1, 7, 9] [Int_class]],
     kb_blocks = [\<lparr>bb_params = [0], bb_instrs = [1, 2, 3, 4, 5, 6, 7, 8, 9, 10],
       bb_terminator = Return [10]\<rparr>],
     kb_entry = 0, kb_exact = False, kb_barriers = []\<rparr>"

text \<open>
  recording the barriers a scan returns does not make the next scan return none: only the last
  barrier of a slice is kept, and both pairs are returned again.
\<close>

theorem barrier_scan_repeats:
  "let pairs = [\<lparr>b_write = 4, b_read = 8\<rparr>, \<lparr>b_write = 9, b_read = 10\<rparr>] in
   barrier_scan twice_body 0 staged_slices = Ok pairs \<and>
   barrier_scan (twice_body\<lparr>kb_barriers := pairs\<rparr>) 0 staged_slices = Ok pairs"
proof -
  have "barrier_scan twice_body 0 staged_slices =
      Ok [\<lparr>b_write = 4, b_read = 8\<rparr>, \<lparr>b_write = 9, b_read = 10\<rparr>]"
    "barrier_scan (twice_body\<lparr>kb_barriers := [\<lparr>b_write = 4, b_read = 8\<rparr>,
       \<lparr>b_write = 9, b_read = 10\<rparr>]\<rparr>) 0 staged_slices =
      Ok [\<lparr>b_write = 4, b_read = 8\<rparr>, \<lparr>b_write = 9, b_read = 10\<rparr>]" by code_simp+
  then show ?thesis unfolding Let_def by blast
qed

end
