(* ===== verification/Fusion_Expr.thy ===== *)
theory Fusion_Expr
  imports Lichen_Prelude Complex_Main "HOL-Library.Char_ord" "HOL-Library.List_Lexorder"
begin

text \<open>
  The symbolic scalar language of the fusion engine (\<open>lichen-fusion/src/expr.rs\<close>,
  \<open>operators.rs\<close>, \<open>eval.rs\<close>): operators, variables, expression trees with their total order,
  occurrences, simultaneous substitution and evaluation.

  A literal is an \<open>f64\<close> in the code. The trees are over any linearly ordered type of numbers, the
  order being \<open>total_cmp\<close>, and the arithmetic is a record of operations: \<open>f64\<close> is its 64 bits with
  that order, and the laws about values are proved over the reals.
\<close>

section \<open>Comparisons\<close>

datatype ordering = Lesser | Equals | Greater

fun reverse :: "ordering \<Rightarrow> ordering" where
  "reverse Lesser = Greater"
| "reverse Equals = Equals"
| "reverse Greater = Lesser"

text \<open>\<open>Ordering::then_with\<close>.\<close>

fun then_with :: "ordering \<Rightarrow> ordering \<Rightarrow> ordering" where
  "then_with Equals o' = o'"
| "then_with o1 o' = o1"

definition compare_of :: "'a :: linorder \<Rightarrow> 'a \<Rightarrow> ordering" where
  "compare_of a b = (if a < b then Lesser else if a = b then Equals else Greater)"

text \<open>What an implementation of \<open>Ord\<close> promises.\<close>

locale total_compare =
  fixes compare :: "'a \<Rightarrow> 'a \<Rightarrow> ordering"
  assumes compare_eq: "compare a b = Equals \<longleftrightarrow> a = b"
    and compare_reverse: "compare b a = reverse (compare a b)"
    and compare_trans: "compare a b = Lesser \<Longrightarrow> compare b c = Lesser \<Longrightarrow> compare a c = Lesser"
begin

lemma same [simp]: "compare a a = Equals"
  by (simp add: compare_eq)

lemma greater: "compare a b = Greater \<longleftrightarrow> compare b a = Lesser"
  using compare_reverse [of b a] by (cases "compare a b"; cases "compare b a") auto

lemma less_le: "compare a b = Lesser \<longleftrightarrow> compare a b \<noteq> Greater \<and> compare b a = Greater"
  using compare_reverse [of a b] by (cases "compare a b"; cases "compare b a") auto

lemma le_trans:
  assumes "compare a b \<noteq> Greater" "compare b c \<noteq> Greater"
  shows "compare a c \<noteq> Greater"
proof (cases "compare a b = Equals \<or> compare b c = Equals")
  case True
  then show ?thesis using assms compare_eq by auto
next
  case False
  then have "compare a b = Lesser" "compare b c = Lesser"
    using assms by (cases "compare a b"; cases "compare b c"; simp)+
  then show ?thesis using compare_trans by fastforce
qed

lemma le_antisym: "compare a b \<noteq> Greater \<Longrightarrow> compare b a \<noteq> Greater \<Longrightarrow> a = b"
  using compare_reverse [of a b] compare_eq [of a b] by (cases "compare a b"; cases "compare b a") auto

lemma le_linear: "compare a b \<noteq> Greater \<or> compare b a \<noteq> Greater"
  using compare_reverse [of a b] by (cases "compare a b") auto

end

interpretation ord: total_compare "compare_of :: 'a :: linorder \<Rightarrow> 'a \<Rightarrow> ordering"
  by unfold_locales (auto simp: compare_of_def split: if_splits)

text \<open>
  The literals of the code: 64 bits in the order of \<open>total_cmp\<close>, which reads them as a signed integer
  after flipping every bit but the sign of a negative number.
\<close>

datatype f64 = F64 (f64_bits: u64)

definition total_key :: "f64 \<Rightarrow> int" where
  "total_key x = sint (if bit (f64_bits x) 63 then xor (f64_bits x) 0x7FFFFFFFFFFFFFFF else f64_bits x)"

lemma total_key_inj: "total_key x = total_key y \<longleftrightarrow> x = y"
proof -
  let ?m = "0x7FFFFFFFFFFFFFFF :: u64"
  have flip: "bit (xor w ?m) 63 = bit w 63" for w :: u64 by (simp add: bit_xor_iff)
  have "xor (xor w ?m) ?m = w" for w :: u64 by (simp add: xor.assoc)
  then have "xor v ?m = xor w ?m \<longleftrightarrow> v = w" for v w :: u64 by metis
  moreover have "v \<noteq> xor w ?m" "xor w ?m \<noteq> v" if "\<not> bit v 63" "bit w 63" for v w :: u64
    using flip [of w] that by auto
  moreover have "sint v = sint w \<longleftrightarrow> v = w" for v w :: u64 by (auto intro: signed_word_eqI)
  ultimately show ?thesis
    by (cases x; cases y) (auto simp: total_key_def)
qed

instantiation f64 :: linorder
begin

definition "x \<le> y \<longleftrightarrow> total_key x \<le> total_key y"
definition "x < y \<longleftrightarrow> total_key x < total_key y"

instance
  by standard (auto simp: less_eq_f64_def less_f64_def total_key_inj)

end

section \<open>Operators\<close>

datatype binary_op =
    Bin_Add | Bin_Sub | Bin_Mul | Bin_Div | Bin_Max | Bin_Min
  | Less_than | Greater_than | Less_equal | Greater_equal | Equal_to | Not_equal

datatype unary_op = Un_Neg | Un_Exp | Un_Ln | Un_Sqrt | Un_Sin | Un_Cos | Un_Square | Un_Relu

text \<open>The derived order of an enumeration is the order of its alternatives.\<close>

primrec binary_index :: "binary_op \<Rightarrow> nat" where
  "binary_index Bin_Add = 0" | "binary_index Bin_Sub = 1" | "binary_index Bin_Mul = 2"
| "binary_index Bin_Div = 3" | "binary_index Bin_Max = 4" | "binary_index Bin_Min = 5"
| "binary_index Less_than = 6" | "binary_index Greater_than = 7" | "binary_index Less_equal = 8"
| "binary_index Greater_equal = 9" | "binary_index Equal_to = 10" | "binary_index Not_equal = 11"

primrec unary_index :: "unary_op \<Rightarrow> nat" where
  "unary_index Un_Neg = 0" | "unary_index Un_Exp = 1" | "unary_index Un_Ln = 2"
| "unary_index Un_Sqrt = 3" | "unary_index Un_Sin = 4" | "unary_index Un_Cos = 5"
| "unary_index Un_Square = 6" | "unary_index Un_Relu = 7"

lemma binary_index_inj: "binary_index a = binary_index b \<longleftrightarrow> a = b"
  by (cases a; cases b) simp_all

lemma unary_index_inj: "unary_index a = unary_index b \<longleftrightarrow> a = b"
  by (cases a; cases b) simp_all

instantiation binary_op :: linorder
begin

definition "a \<le> b \<longleftrightarrow> binary_index a \<le> binary_index b"
definition "a < b \<longleftrightarrow> binary_index a < binary_index b"

instance
  by standard (auto simp: less_eq_binary_op_def less_binary_op_def binary_index_inj)

end

instantiation unary_op :: linorder
begin

definition "a \<le> b \<longleftrightarrow> unary_index a \<le> unary_index b"
definition "a < b \<longleftrightarrow> unary_index a < unary_index b"

instance
  by standard (auto simp: less_eq_unary_op_def less_unary_op_def unary_index_inj)

end

primrec binary_name :: "binary_op \<Rightarrow> string" where
  "binary_name Bin_Add = ''+''" | "binary_name Bin_Sub = ''-''" | "binary_name Bin_Mul = ''*''"
| "binary_name Bin_Div = ''/''" | "binary_name Bin_Max = ''max''" | "binary_name Bin_Min = ''min''"
| "binary_name Less_than = ''<''" | "binary_name Greater_than = ''>''"
| "binary_name Less_equal = ''<=''" | "binary_name Greater_equal = ''>=''"
| "binary_name Equal_to = ''==''" | "binary_name Not_equal = ''!=''"

primrec unary_name :: "unary_op \<Rightarrow> string" where
  "unary_name Un_Neg = ''-''" | "unary_name Un_Exp = ''exp''" | "unary_name Un_Ln = ''ln''"
| "unary_name Un_Sqrt = ''sqrt''" | "unary_name Un_Sin = ''sin''" | "unary_name Un_Cos = ''cos''"
| "unary_name Un_Square = ''square''" | "unary_name Un_Relu = ''relu''"

definition associative :: "binary_op \<Rightarrow> bool" where
  "associative f \<longleftrightarrow> f \<in> {Bin_Add, Bin_Mul, Bin_Max, Bin_Min}"

fun mirrored :: "binary_op \<Rightarrow> binary_op" where
  "mirrored Less_than = Greater_than"
| "mirrored Greater_than = Less_than"
| "mirrored Less_equal = Greater_equal"
| "mirrored Greater_equal = Less_equal"
| "mirrored f = f"

fun unary_inverse :: "unary_op \<Rightarrow> unary_op option" where
  "unary_inverse Un_Neg = Some Un_Neg"
| "unary_inverse Un_Exp = Some Un_Ln"
| "unary_inverse Un_Ln = Some Un_Exp"
| "unary_inverse _ = None"

fun binary_precedence :: "binary_op \<Rightarrow> nat" where
  "binary_precedence Bin_Add = 2"
| "binary_precedence Bin_Sub = 2"
| "binary_precedence Bin_Mul = 3"
| "binary_precedence Bin_Div = 3"
| "binary_precedence Bin_Max = 4"
| "binary_precedence Bin_Min = 4"
| "binary_precedence _ = 1"

fun unary_precedence :: "unary_op \<Rightarrow> nat" where
  "unary_precedence Un_Neg = 5"
| "unary_precedence Un_Square = 7"
| "unary_precedence _ = 6"

section \<open>Variables\<close>

text \<open>A variable is its name, compared as text.\<close>

type_synonym variable = string

definition DATUM :: variable where "DATUM = ''d''"
definition EXTENT :: variable where "EXTENT = ''n''"
definition INVOCATION :: variable where "INVOCATION = ''i''"
definition PRODUCER :: variable where "PRODUCER = ''r''"
definition RUNTIME_SCALAR :: variable where "RUNTIME_SCALAR = ''s0''"
definition CONSUMER_STATE :: variable where "CONSUMER_STATE = ''t''"
definition REPAIR_ARGUMENT :: variable where "REPAIR_ARGUMENT = ''x''"
definition PRODUCER_NEXT :: variable where "PRODUCER_NEXT = ''r'' @ [CHR 0x27]"
definition CONSUMER_NEXT :: variable where "CONSUMER_NEXT = ''t'' @ [CHR 0x27]"
definition PARAMETER :: variable where "PARAMETER = ''c''"
definition BIAS :: variable where "BIAS = ''bias''"

lemmas slot_names = DATUM_def EXTENT_def INVOCATION_def PRODUCER_def RUNTIME_SCALAR_def
  CONSUMER_STATE_def REPAIR_ARGUMENT_def PRODUCER_NEXT_def CONSUMER_NEXT_def PARAMETER_def BIAS_def

definition FAN_IN_INPUTS :: nat where "FAN_IN_INPUTS = 8"
definition RUNTIME_SCALAR_INPUTS :: nat where "RUNTIME_SCALAR_INPUTS = 8"

definition SLOTS :: "variable list" where
  "SLOTS = [PRODUCER, ''r1'', ''r2'', ''r3'', ''r4'', ''r5'', ''r6'', ''r7'',
     RUNTIME_SCALAR, ''s1'', ''s2'', ''s3'', ''s4'', ''s5'', ''s6'', ''s7'']"

definition producer_slot :: "nat \<Rightarrow> variable option" where
  "producer_slot ordinal = (if ordinal < FAN_IN_INPUTS then Some (SLOTS ! ordinal) else None)"

definition runtime_scalar_slot :: "nat \<Rightarrow> variable option" where
  "runtime_scalar_slot ordinal =
     (if ordinal < RUNTIME_SCALAR_INPUTS then Some (SLOTS ! (FAN_IN_INPUTS + ordinal)) else None)"

section \<open>Expressions\<close>

datatype 'c expr =
    Constant 'c
  | Variable variable
  | Binary binary_op "'c expr" "'c expr"
  | Unary unary_op "'c expr"

fun as_constant :: "'c expr \<Rightarrow> 'c option" where
  "as_constant (Constant c) = Some c"
| "as_constant _ = None"

fun rank :: "'c expr \<Rightarrow> nat" where
  "rank (Constant _) = 0"
| "rank (Variable _) = 1"
| "rank (Unary _ _) = 2"
| "rank (Binary _ _ _) = 3"

fun expr_cmp :: "'c :: linorder expr \<Rightarrow> 'c expr \<Rightarrow> ordering" where
  "expr_cmp (Constant a) (Constant b) = compare_of a b"
| "expr_cmp (Variable a) (Variable b) = compare_of a b"
| "expr_cmp (Unary f a) (Unary g b) = then_with (compare_of f g) (expr_cmp a b)"
| "expr_cmp (Binary f a1 a2) (Binary g b1 b2) =
     then_with (then_with (compare_of f g) (expr_cmp a1 b1)) (expr_cmp a2 b2)"
| "expr_cmp a b = compare_of (rank a) (rank b)"

lemma then_with_eq [simp]: "then_with p q = Equals \<longleftrightarrow> p = Equals \<and> q = Equals"
  by (cases p) simp_all

lemma then_with_reverse: "reverse (then_with p q) = then_with (reverse p) (reverse q)"
  by (cases p) simp_all

lemma then_with_lesser: "then_with p q = Lesser \<longleftrightarrow> p = Lesser \<or> p = Equals \<and> q = Lesser"
  by (cases p) simp_all

lemma expr_cmp_eq: "expr_cmp a b = Equals \<longleftrightarrow> a = b"
  by (induction a b rule: expr_cmp.induct) (auto simp: ord.compare_eq)

lemma expr_cmp_reverse: "expr_cmp b a = reverse (expr_cmp a b)"
proof (induction a b rule: expr_cmp.induct)
  case (3 f a g b)
  then show ?case using ord.compare_reverse [of g f] by (simp add: then_with_reverse)
next
  case (4 f a1 a2 g b1 b2)
  then show ?case using ord.compare_reverse [of g f] by (simp add: then_with_reverse)
qed (auto simp: compare_of_def)

lemma expr_cmp_rank: "rank a \<noteq> rank b \<Longrightarrow> expr_cmp a b = compare_of (rank a) (rank b)"
  by (cases a; cases b) simp_all

lemma expr_cmp_rank_le: "expr_cmp a b = Lesser \<Longrightarrow> rank a \<le> rank b"
  using expr_cmp_rank [of a b] by (cases "rank a = rank b") (auto simp: compare_of_def split: if_splits)

lemma expr_cmp_trans:
  "expr_cmp a b = Lesser \<Longrightarrow> expr_cmp b c = Lesser \<Longrightarrow> expr_cmp a c = Lesser"
proof (induction a arbitrary: b c)
  case (Constant x)
  then show ?case
    using expr_cmp_rank_le [of b c] by (cases b; cases c) (auto simp: compare_of_def split: if_splits)
next
  case (Variable x)
  then show ?case
    using expr_cmp_rank_le [of b c] by (cases b; cases c) (auto simp: compare_of_def split: if_splits)
next
  case (Unary f x)
  show ?case
  proof (cases "\<exists>g y h z. b = Unary g y \<and> c = Unary h z")
    case True
    then show ?thesis using Unary ord.compare_trans [of f]
      by (auto simp: then_with_lesser ord.compare_eq)
  next
    case False
    then have "rank (Unary f x) < rank c"
      using Unary.prems expr_cmp_rank_le [of b c] by (cases b; cases c) (auto simp: compare_of_def)
    then show ?thesis using expr_cmp_rank [of "Unary f x" c] by (auto simp: compare_of_def)
  qed
next
  case (Binary f x1 x2)
  obtain g y1 y2 h z1 z2 where "b = Binary g y1 y2" "c = Binary h z1 z2"
    using Binary.prems by (cases b; cases c) (auto simp: compare_of_def)
  then show ?case using Binary ord.compare_trans [of f]
    by (auto simp: then_with_lesser ord.compare_eq expr_cmp_eq)
qed

interpretation expr_order: total_compare "expr_cmp :: 'c :: linorder expr \<Rightarrow> 'c expr \<Rightarrow> ordering"
  by unfold_locales (fact expr_cmp_eq expr_cmp_reverse expr_cmp_trans)+

instantiation expr :: (linorder) linorder
begin

definition "a \<le> b \<longleftrightarrow> expr_cmp a b \<noteq> Greater"
definition "a < b \<longleftrightarrow> expr_cmp a b = Lesser"

instance
proof
  fix a b c :: "'a expr"
  show "a < b \<longleftrightarrow> a \<le> b \<and> \<not> b \<le> a"
    unfolding less_eq_expr_def less_expr_def using expr_order.less_le by blast
  show "a \<le> a" by (simp add: less_eq_expr_def)
  show "a \<le> b \<Longrightarrow> b \<le> c \<Longrightarrow> a \<le> c"
    unfolding less_eq_expr_def by (rule expr_order.le_trans)
  show "a \<le> b \<Longrightarrow> b \<le> a \<Longrightarrow> a = b"
    unfolding less_eq_expr_def by (rule expr_order.le_antisym)
  show "a \<le> b \<or> b \<le> a"
    unfolding less_eq_expr_def by (rule expr_order.le_linear)
qed

end

fun occurrences :: "'c expr \<Rightarrow> 'c expr \<Rightarrow> nat" where
  "occurrences (Constant c) target = (if Constant c = target then 1 else 0)"
| "occurrences (Variable v) target = (if Variable v = target then 1 else 0)"
| "occurrences (Unary f a) target = (if Unary f a = target then 1 else 0) + occurrences a target"
| "occurrences (Binary f a b) target =
     (if Binary f a b = target then 1 else 0) + occurrences a target + occurrences b target"

fun expr_variables :: "'c expr \<Rightarrow> variable set" where
  "expr_variables (Constant _) = {}"
| "expr_variables (Variable v) = {v}"
| "expr_variables (Unary _ a) = expr_variables a"
| "expr_variables (Binary _ a b) = expr_variables a \<union> expr_variables b"

fun substitute :: "'c expr \<Rightarrow> (variable \<rightharpoonup> 'c expr) \<Rightarrow> 'c expr" where
  "substitute (Constant c) bindings = Constant c"
| "substitute (Variable v) bindings = (case bindings v of None \<Rightarrow> Variable v | Some e \<Rightarrow> e)"
| "substitute (Unary f a) bindings = Unary f (substitute a bindings)"
| "substitute (Binary f a b) bindings = Binary f (substitute a bindings) (substitute b bindings)"

text \<open>Collecting a list into a map keeps the last entry of a key.\<close>

definition substitute_all :: "'c expr \<Rightarrow> (variable \<times> 'c expr) list \<Rightarrow> 'c expr" where
  "substitute_all e bindings = substitute e (map_of (rev bindings))"

section \<open>Evaluation\<close>

record 'c num_ops =
  n_add :: "'c \<Rightarrow> 'c \<Rightarrow> 'c"
  n_sub :: "'c \<Rightarrow> 'c \<Rightarrow> 'c"
  n_mul :: "'c \<Rightarrow> 'c \<Rightarrow> 'c"
  n_div :: "'c \<Rightarrow> 'c \<Rightarrow> 'c"
  n_max :: "'c \<Rightarrow> 'c \<Rightarrow> 'c"
  n_min :: "'c \<Rightarrow> 'c \<Rightarrow> 'c"
  n_neg :: "'c \<Rightarrow> 'c"
  n_exp :: "'c \<Rightarrow> 'c"
  n_ln :: "'c \<Rightarrow> 'c"
  n_sqrt :: "'c \<Rightarrow> 'c"
  n_sin :: "'c \<Rightarrow> 'c"
  n_cos :: "'c \<Rightarrow> 'c"
  n_lt :: "'c \<Rightarrow> 'c \<Rightarrow> bool"
  n_le :: "'c \<Rightarrow> 'c \<Rightarrow> bool"
  n_eq :: "'c \<Rightarrow> 'c \<Rightarrow> bool"
  n_finite :: "'c \<Rightarrow> bool"
  n_nan :: "'c \<Rightarrow> bool"
  n_positive :: "'c \<Rightarrow> bool"
  n_zero :: 'c
  n_one :: 'c
  n_infinity :: 'c
  n_neg_infinity :: 'c

definition bool_value :: "'c num_ops \<Rightarrow> bool \<Rightarrow> 'c" where
  "bool_value fl holds = (if holds then n_one fl else n_zero fl)"

fun unary_value :: "'c num_ops \<Rightarrow> unary_op \<Rightarrow> 'c \<Rightarrow> 'c" where
  "unary_value fl Un_Neg a = n_neg fl a"
| "unary_value fl Un_Exp a = n_exp fl a"
| "unary_value fl Un_Ln a = n_ln fl a"
| "unary_value fl Un_Sqrt a = n_sqrt fl a"
| "unary_value fl Un_Sin a = n_sin fl a"
| "unary_value fl Un_Cos a = n_cos fl a"
| "unary_value fl Un_Square a = n_mul fl a a"
| "unary_value fl Un_Relu a = n_max fl a (n_zero fl)"

fun comparison_holds :: "'c num_ops \<Rightarrow> binary_op \<Rightarrow> 'c \<Rightarrow> 'c \<Rightarrow> bool" where
  "comparison_holds fl Less_than a b = n_lt fl a b"
| "comparison_holds fl Greater_than a b = n_lt fl b a"
| "comparison_holds fl Less_equal a b = n_le fl a b"
| "comparison_holds fl Greater_equal a b = n_le fl b a"
| "comparison_holds fl Equal_to a b = n_eq fl a b"
| "comparison_holds fl _ a b = (\<not> n_eq fl a b)"

fun binary_value :: "'c num_ops \<Rightarrow> binary_op \<Rightarrow> 'c \<Rightarrow> 'c \<Rightarrow> 'c" where
  "binary_value fl Bin_Add a b = n_add fl a b"
| "binary_value fl Bin_Sub a b = n_sub fl a b"
| "binary_value fl Bin_Mul a b = n_mul fl a b"
| "binary_value fl Bin_Div a b = n_div fl a b"
| "binary_value fl Bin_Max a b = n_max fl a b"
| "binary_value fl Bin_Min a b = n_min fl a b"
| "binary_value fl f a b = bool_value fl (comparison_holds fl f a b)"

fun evaluate :: "'c num_ops \<Rightarrow> 'c expr \<Rightarrow> (variable \<rightharpoonup> 'c) \<Rightarrow> 'c option" where
  "evaluate fl (Constant c) bindings = Some c"
| "evaluate fl (Variable v) bindings = bindings v"
| "evaluate fl (Unary f a) bindings = map_option (unary_value fl f) (evaluate fl a bindings)"
| "evaluate fl (Binary f a b) bindings =
     Option.bind (evaluate fl a bindings) (\<lambda>a.
       map_option (binary_value fl f a) (evaluate fl b bindings))"

lemma evaluate_substituted:
  "evaluate fl (substitute e bindings) env =
     evaluate fl e (\<lambda>v. case bindings v of None \<Rightarrow> env v | Some b \<Rightarrow> evaluate fl b env)"
proof (induction e)
  case (Variable v)
  show ?case by (cases "bindings v") simp_all
qed simp_all

lemma substituted_two:
  "evaluate fl (substitute_all e [(v, a), (w, b)]) env =
     evaluate fl e (env(v := evaluate fl a env, w := evaluate fl b env))"
  by (auto simp: substitute_all_def evaluate_substituted intro!: arg_cong [where f = "evaluate fl e"])

text \<open>
  evaluating an expression after a substitution is evaluating it where each bound variable has
  the value of what it is bound to, in the environment from before: no binding reads another.
\<close>

theorem evaluate_substitute:
  "evaluate fl (substitute e bindings) env =
     evaluate fl e (\<lambda>v. case bindings v of None \<Rightarrow> env v | Some b \<Rightarrow> evaluate fl b env)"
  by (rule evaluate_substituted)

lemma evaluate_agree:
  "(\<And>v. v \<in> expr_variables e \<Longrightarrow> env v = env' v) \<Longrightarrow> evaluate fl e env = evaluate fl e env'"
  by (induction e) auto

lemma substitute_unbound:
  "expr_variables e \<inter> dom bindings = {} \<Longrightarrow> substitute e bindings = e"
  by (induction e) (auto simp: domIff split: option.split)

text \<open>Counting a variable counts what its name occurs in.\<close>

lemma occurrences_variable: "0 < occurrences e (Variable v) \<longleftrightarrow> v \<in> expr_variables e"
  by (induction e) auto

lemma occurrences_variable_none: "occurrences e (Variable v) = 0 \<longleftrightarrow> v \<notin> expr_variables e"
  using occurrences_variable [of e v] by auto

lemma occurrences_size: "0 < occurrences e target \<Longrightarrow> size target \<le> size e"
  by (induction e) (auto split: if_splits)

section \<open>Exact arithmetic\<close>

text \<open>The operations over the reals. HOL divides by zero to zero, so that is the infinity here.\<close>

definition real_ops :: "real num_ops" where
  "real_ops = \<lparr>n_add = (+), n_sub = (-), n_mul = (*), n_div = (/), n_max = max, n_min = min,
     n_neg = uminus, n_exp = exp, n_ln = ln, n_sqrt = sqrt, n_sin = sin, n_cos = cos,
     n_lt = (<), n_le = (\<le>), n_eq = (=), n_finite = \<lambda>_. True, n_nan = \<lambda>_. False,
     n_positive = \<lambda>x. 0 \<le> x, n_zero = 0, n_one = 1, n_infinity = 0, n_neg_infinity = 0\<rparr>"

lemma real_ops_simps [simp]:
  "n_add real_ops = (+)" "n_sub real_ops = (-)" "n_mul real_ops = (*)" "n_div real_ops = (/)"
  "n_max real_ops = max" "n_min real_ops = min" "n_neg real_ops = uminus" "n_exp real_ops = exp"
  "n_ln real_ops = ln" "n_sqrt real_ops = sqrt" "n_sin real_ops = sin" "n_cos real_ops = cos"
  "n_lt real_ops = (<)" "n_le real_ops = (\<le>)" "n_eq real_ops = (=)" "n_finite real_ops x"
  "\<not> n_nan real_ops x" "n_positive real_ops x \<longleftrightarrow> 0 \<le> x" "n_zero real_ops = 0" "n_one real_ops = 1"
  "n_infinity real_ops = 0" "n_neg_infinity real_ops = 0"
  by (simp_all add: real_ops_def)

end
