(* ===== verification/Fusion_Invert.thy ===== *)
theory Fusion_Invert
  imports Fusion_Expr
begin

text \<open>
  Solving an element function for its parameter (\<open>lichen-fusion/src/invert.rs\<close>) and reading it as
  a function of the producer's value (\<open>abstraction.rs\<close>). An inversion is followed on the reals: its
  answer recovers the parameter wherever the steps above it lose nothing.
\<close>

section \<open>Inversion\<close>

datatype 'c invert_refusal =
    Multiple_occurrences nat
  | Missing_parameter "'c expr"
  | Unsupported_operator string
  | Ambiguous_operator string

fun invert_walk :: "'c expr \<Rightarrow> 'c expr \<Rightarrow> 'c expr \<Rightarrow> ('c expr, 'c invert_refusal) res" where
  "invert_walk (Constant c) parameter rhs =
     (if Constant c = parameter then Ok rhs else Err (Missing_parameter parameter))"
| "invert_walk (Variable v) parameter rhs =
     (if Variable v = parameter then Ok rhs else Err (Missing_parameter parameter))"
| "invert_walk (Unary f a) parameter rhs =
     (if Unary f a = parameter then Ok rhs
      else case unary_inverse f of
        None \<Rightarrow> Err (Ambiguous_operator (unary_name f))
      | Some g \<Rightarrow> invert_walk a parameter (Unary g rhs))"
| "invert_walk (Binary f left right) parameter rhs =
     (if Binary f left right = parameter then Ok rhs
      else if f \<in> {Bin_Add, Bin_Sub, Bin_Mul, Bin_Div} then
        (let left_holds = 0 < occurrences left parameter;
             solution = (case f of
               Bin_Add \<Rightarrow> Binary Bin_Sub rhs (if left_holds then left else right)
             | Bin_Sub \<Rightarrow> if left_holds then Binary Bin_Add rhs right else Binary Bin_Sub left rhs
             | Bin_Mul \<Rightarrow> Binary Bin_Div rhs (if left_holds then right else left)
             | _ \<Rightarrow> if left_holds then Binary Bin_Mul rhs right else Binary Bin_Div left rhs)
         in if left_holds then invert_walk left parameter solution
            else invert_walk right parameter solution)
      else Err (Unsupported_operator (binary_name f)))"

definition invert :: "'c expr \<Rightarrow> 'c expr \<Rightarrow> variable \<Rightarrow> ('c expr, 'c invert_refusal) res" where
  "invert e parameter argument =
     (case occurrences e parameter of
        0 \<Rightarrow> Err (Missing_parameter parameter)
      | Suc 0 \<Rightarrow> invert_walk e parameter (Variable argument)
      | count \<Rightarrow> Err (Multiple_occurrences count))"

lemma invert_walk_occurs: "invert_walk e parameter rhs = Ok solution \<Longrightarrow> 0 < occurrences e parameter"
  by (induction e arbitrary: rhs) (auto simp: Let_def split: if_splits option.splits)

lemma invert_walk_reads:
  "invert_walk e parameter rhs = Ok solution \<Longrightarrow> expr_variables rhs \<subseteq> expr_variables solution"
proof (induction e arbitrary: rhs)
  case (Binary f left right)
  show ?case
  proof (cases "Binary f left right = parameter")
    case False
    then obtain s e where "invert_walk e parameter s = Ok solution" "e = left \<or> e = right"
      "expr_variables rhs \<subseteq> expr_variables s"
      using Binary.prems by (cases f) (auto simp: Let_def split: if_splits)
    then show ?thesis using Binary.IH by blast
  next
    case True
    then show ?thesis using Binary.prems True [symmetric] by simp
  qed
qed (fastforce split: if_splits option.splits)+

lemma invert_Ok:
  "invert e parameter argument = Ok solution \<longleftrightarrow>
     occurrences e parameter = 1 \<and> invert_walk e parameter (Variable argument) = Ok solution"
  by (auto simp: invert_def split: nat.split)

text \<open>
  an inversion through a sum is never a solution: the sum's arm subtracts the operand that holds
  the parameter, so what it answers reads the parameter itself.
\<close>

theorem invert_sum_reads_parameter:
  assumes "invert (Binary Bin_Add left right) (Variable c) argument = Ok solution"
  shows "c \<in> expr_variables solution"
proof -
  let ?held = "if 0 < occurrences left (Variable c) then left else right"
  have walk: "invert_walk ?held (Variable c) (Binary Bin_Sub (Variable argument) ?held) = Ok solution"
    using assms by (auto simp: invert_Ok Let_def split: if_splits)
  then have "0 < occurrences ?held (Variable c)" by (rule invert_walk_occurs)
  then have "c \<in> expr_variables ?held" by (simp only: occurrences_variable)
  then show ?thesis using invert_walk_reads [OF walk] by auto
qed

theorem invert_sum_reads_parameter_witness:
  "PARAMETER \<in> expr_variables
     (Binary Bin_Sub (Variable REPAIR_ARGUMENT) (Variable PARAMETER) :: real expr)"
proof -
  have "invert (Binary Bin_Add (Variable PARAMETER) (Variable PRODUCER)) (Variable PARAMETER)
      REPAIR_ARGUMENT = Ok (Binary Bin_Sub (Variable REPAIR_ARGUMENT) (Variable PARAMETER :: real expr))"
    by (simp add: invert_def slot_names)
  from invert_sum_reads_parameter [OF this] show ?thesis .
qed

section \<open>An inversion recovers the parameter\<close>

text \<open>
  Above the parameter, a factor or a divisor that is zero and a logarithm outside its domain lose the
  parameter's value; everywhere else a step can be undone.
\<close>

definition nonzero :: "(variable \<rightharpoonup> real) \<Rightarrow> real expr \<Rightarrow> bool" where
  "nonzero env e \<longleftrightarrow> evaluate real_ops e env \<noteq> Some 0"

fun recoverable :: "variable \<Rightarrow> (variable \<rightharpoonup> real) \<Rightarrow> real expr \<Rightarrow> bool" where
  "recoverable c env (Unary f a) \<longleftrightarrow> recoverable c env a \<and>
     (f = Un_Ln \<longrightarrow> (case evaluate real_ops a env of None \<Rightarrow> False | Some y \<Rightarrow> 0 < y))"
| "recoverable c env (Binary f a b) \<longleftrightarrow>
     (if 0 < occurrences a (Variable c)
      then recoverable c env a \<and> (f \<in> {Bin_Mul, Bin_Div} \<longrightarrow> nonzero env b)
      else recoverable c env b \<and> (f \<in> {Bin_Mul, Bin_Div} \<longrightarrow> nonzero env a))"
| "recoverable c env _ \<longleftrightarrow> True"

lemma invert_walk_recovers:
  assumes "invert_walk e (Variable c) rhs = Ok solution" "c \<notin> expr_variables solution"
    "recoverable c env e" "evaluate real_ops e env = Some y" "evaluate real_ops rhs env' = Some y"
    "\<And>v. v \<in> expr_variables e \<Longrightarrow> v \<noteq> c \<Longrightarrow> env' v = env v"
  shows "evaluate real_ops solution env' = env c"
  using assms
proof (induction e arbitrary: rhs y)
  case (Constant x)
  then show ?case by (simp split: if_splits)
next
  case (Variable x)
  then show ?case by (simp split: if_splits)
next
  case (Unary f a)
  obtain z where z: "evaluate real_ops a env = Some z" "y = unary_value real_ops f z"
    using Unary.prems(4) by auto
  obtain g where g: "unary_inverse f = Some g" "invert_walk a (Variable c) (Unary g rhs) = Ok solution"
    using Unary.prems(1) by (auto split: option.splits)
  have "evaluate real_ops (Unary g rhs) env' = Some z"
    using g(1) z Unary.prems(3,5) by (cases f) auto
  then show ?case
    using Unary.IH [OF g(2) Unary.prems(2) _ z(1)] Unary.prems(3,6) by auto
next
  case (Binary f left right)
  let ?in_left = "0 < occurrences left (Variable c)"
  obtain a b where ab: "evaluate real_ops left env = Some a" "evaluate real_ops right env = Some b"
    "y = binary_value real_ops f a b"
    using Binary.prems(4) by (auto split: Option.bind_splits)
  obtain s where s: "invert_walk (if ?in_left then left else right) (Variable c) s = Ok solution"
    and sol: "s = (case f of
       Bin_Add \<Rightarrow> Binary Bin_Sub rhs (if ?in_left then left else right)
     | Bin_Sub \<Rightarrow> if ?in_left then Binary Bin_Add rhs right else Binary Bin_Sub left rhs
     | Bin_Mul \<Rightarrow> Binary Bin_Div rhs (if ?in_left then right else left)
     | _ \<Rightarrow> if ?in_left then Binary Bin_Mul rhs right else Binary Bin_Div left rhs)"
    and f: "f \<in> {Bin_Add, Bin_Sub, Bin_Mul, Bin_Div}"
    using Binary.prems(1) by (cases ?in_left) (auto simp: Let_def split: if_splits)
  have free: "c \<notin> expr_variables s" using invert_walk_reads [OF s] Binary.prems(2) by blast
  have "c \<in> expr_variables (if ?in_left then left else right)"
    using invert_walk_occurs [OF s] by (simp only: occurrences_variable)
  then have "f \<noteq> Bin_Add" using free sol by auto
  show ?case
  proof (cases ?in_left)
    case True
    then have "c \<notin> expr_variables right"
      using free sol f \<open>f \<noteq> Bin_Add\<close> by (auto split: if_splits)
    then have "evaluate real_ops right env' = Some b"
      using evaluate_agree [of right env' env real_ops] Binary.prems(6) ab(2) by auto
    then have "evaluate real_ops s env' = Some a"
      using True sol f \<open>f \<noteq> Bin_Add\<close> ab Binary.prems(3,5) by (auto simp: nonzero_def)
    then show ?thesis using True s ab(1) Binary.IH(1) [OF _ Binary.prems(2)] Binary.prems(3,6) by auto
  next
    case False
    then have "c \<notin> expr_variables left" by (simp add: occurrences_variable_none)
    then have "evaluate real_ops left env' = Some a"
      using evaluate_agree [of left env' env real_ops] Binary.prems(6) ab(1) by auto
    then have "evaluate real_ops s env' = Some b"
      using False sol f \<open>f \<noteq> Bin_Add\<close> ab Binary.prems(3,5) by (auto simp: nonzero_def)
    then show ?thesis using False s ab(2) Binary.IH(2) [OF _ Binary.prems(2)] Binary.prems(3,6) by auto
  qed
qed



section \<open>Abstraction\<close>

datatype 'c fusion_refusal =
    Producer_value_absent "'c expr"
  | Not_invertible "'c expr" "'c invert_refusal"
  | Not_distributive "'c expr" binary_op
  | Repair_outside_its_slots "variable list"
  | Normalization_budget_exceeded nat

record 'c abstraction =
  ab_source :: "'c expr"
  ab_template :: "'c expr"

fun collect_producer_free :: "'c expr \<Rightarrow> variable \<Rightarrow> 'c expr list" where
  "collect_producer_free (Unary f a) producer =
     (if occurrences (Unary f a) (Variable producer) = 0 then [Unary f a]
      else collect_producer_free a producer)"
| "collect_producer_free (Binary f a b) producer =
     (if occurrences (Binary f a b) (Variable producer) = 0 then [Binary f a b]
      else collect_producer_free a producer @ collect_producer_free b producer)"
| "collect_producer_free e producer = (if occurrences e (Variable producer) = 0 then [e] else [])"

definition outermost_producer_free :: "'c expr \<Rightarrow> variable \<Rightarrow> 'c expr option" where
  "outermost_producer_free e producer = nth_opt (collect_producer_free e producer) 0"

fun replace_once :: "'c expr \<Rightarrow> 'c expr \<Rightarrow> 'c expr \<Rightarrow> 'c expr" where
  "replace_once (Unary f a) target replacement =
     (if Unary f a = target then replacement else Unary f (replace_once a target replacement))"
| "replace_once (Binary f a b) target replacement =
     (if Binary f a b = target then replacement
      else Binary f (replace_once a target replacement) (replace_once b target replacement))"
| "replace_once e target replacement = (if e = target then replacement else e)"

definition abstract_element_function ::
  "'c expr \<Rightarrow> variable \<Rightarrow> ('c abstraction, 'c fusion_refusal) res" where
  "abstract_element_function e producer =
     (if occurrences e (Variable producer) = 0 then Err (Producer_value_absent e)
      else case outermost_producer_free e producer of
        None \<Rightarrow> Err (Producer_value_absent e)
      | Some source \<Rightarrow>
          (let repeats = occurrences e source in
           if repeats \<noteq> 1 then Err (Not_invertible source (Multiple_occurrences repeats))
           else Ok \<lparr>ab_source = source,
             ab_template = replace_once e source (Variable PARAMETER)\<rparr>))"

lemma producer_free_collected:
  "a \<in> set (collect_producer_free e producer) \<Longrightarrow> occurrences a (Variable producer) = 0 \<and> 0 < occurrences e a"
  by (induction e producer rule: collect_producer_free.induct) (auto split: if_splits)

lemma substitute_replaced:
  "c \<notin> expr_variables e \<Longrightarrow> substitute (replace_once e target (Variable c)) [c \<mapsto> target] = e"
  by (induction e target "Variable c :: 'a expr" rule: replace_once.induct) auto

lemma replace_once_variables:
  "expr_variables (replace_once e target (Variable c)) \<subseteq> insert c (expr_variables e)"
  by (induction e) auto

lemma collected_variables:
  "a \<in> set (collect_producer_free e producer) \<Longrightarrow> expr_variables a \<subseteq> expr_variables e"
  by (induction e producer rule: collect_producer_free.induct) (auto split: if_splits)

lemma occurrences_below:
  assumes "size e < size target"
  shows "occurrences e target = 0"
  using assms occurrences_size [of e target] by (cases "occurrences e target = 0") simp_all

lemma occurrences_replaced:
  "c \<notin> expr_variables e \<Longrightarrow>
     occurrences (replace_once e target (Variable c)) (Variable c) = occurrences e target"
proof (induction e)
  case (Unary f a)
  then show ?case using occurrences_below [of a "Unary f a"] by auto
next
  case (Binary f a b)
  then show ?case
    using occurrences_below [of a "Binary f a b"] occurrences_below [of b "Binary f a b"] by auto
qed auto

text \<open>
  an accepted abstraction is exact: the template with its parameter replaced by the source is
  the element function, the parameter occurs once in it, and the source is a part of the element
  function that does not read the producer.
\<close>

theorem abstraction_exact:
  assumes "abstract_element_function e producer = Ok ab" "PARAMETER \<notin> expr_variables e"
  shows "substitute (ab_template ab) [PARAMETER \<mapsto> ab_source ab] = e \<and>
    occurrences (ab_template ab) (Variable PARAMETER) = 1 \<and>
    producer \<notin> expr_variables (ab_source ab) \<and> 0 < occurrences e (ab_source ab)"
proof -
  obtain source where s: "nth_opt (collect_producer_free e producer) 0 = Some source"
    "occurrences e source = 1"
    "ab = \<lparr>ab_source = source, ab_template = replace_once e source (Variable PARAMETER)\<rparr>"
    using assms(1) by (auto simp: abstract_element_function_def outermost_producer_free_def Let_def
        split: if_splits option.splits)
  have "occurrences source (Variable producer) = 0"
    using producer_free_collected [OF nth_opt_in_set [OF s(1)]] by blast
  then have "producer \<notin> expr_variables source" by (simp add: occurrences_variable_none)
  then show ?thesis
    using s substitute_replaced [OF assms(2)] occurrences_replaced [OF assms(2)] by simp
qed

theorem abstraction_exact_witness:
  "occurrences (Unary Un_Exp (Binary Bin_Sub (Variable PARAMETER) (Variable PRODUCER)) :: real expr)
     (Variable PARAMETER) = 1"
proof -
  let ?bias = "Binary Bin_Add (Variable DATUM) (Variable BIAS) :: real expr"
  let ?e = "Unary Un_Exp (Binary Bin_Sub ?bias (Variable PRODUCER))"
  have "abstract_element_function ?e PRODUCER = Ok \<lparr>ab_source = ?bias,
      ab_template = Unary Un_Exp (Binary Bin_Sub (Variable PARAMETER) (Variable PRODUCER))\<rparr>"
    by (simp add: abstract_element_function_def outermost_producer_free_def slot_names)
  from abstraction_exact [OF this] show ?thesis by (simp add: slot_names)
qed

end
