(* ===== verification/Fusion_Normalize.thy ===== *)
theory Fusion_Normalize
  imports Fusion_Expr
begin

text \<open>
  The canonicalizer (\<open>lichen-fusion/src/normalize.rs\<close>). Every function threads the budget of nodes it
  may still allocate and gives up when it is spent. The functions call one another on trees they have
  just built, so the recursion is a least fixed point: a run that does not end is \<open>None\<close>, one that
  exceeds the budget \<open>Some None\<close>.
\<close>

section \<open>Runs under a budget\<close>

type_synonym 'a budgeted = "nat \<Rightarrow> ('a \<times> nat) option option"

definition answer :: "'a \<Rightarrow> 'a budgeted" where
  "answer a = (\<lambda>remaining. Some (Some (a, remaining)))"

definition refuse :: "'a budgeted" where
  "refuse = (\<lambda>_. Some None)"

definition and_then :: "'a budgeted \<Rightarrow> ('a \<Rightarrow> 'b budgeted) \<Rightarrow> 'b budgeted" where
  "and_then m f = (\<lambda>remaining. Option.bind (m remaining) (\<lambda>x. case x of
      None \<Rightarrow> Some None | Some (a, remaining) \<Rightarrow> f a remaining))"

definition NORMALIZATION_BUDGET :: nat where
  "NORMALIZATION_BUDGET = 4096"

definition spend :: "unit budgeted" where
  "spend = (\<lambda>remaining. Some (if 0 < remaining then Some ((), remaining - 1) else None))"

text \<open>A node built after one unit of the budget is spent.\<close>

definition spend_on :: "'a \<Rightarrow> 'a budgeted" where
  "spend_on a = and_then spend (\<lambda>_. answer a)"

text \<open>A loop that pushes one answer for each item.\<close>

fun each :: "('a \<Rightarrow> 'b budgeted) \<Rightarrow> 'a list \<Rightarrow> 'b list budgeted" where
  "each f [] = answer []"
| "each f (x # xs) = and_then (f x) (\<lambda>y. and_then (each f xs) (\<lambda>ys. answer (y # ys)))"

section \<open>Literals\<close>

definition compare_literals :: "'c num_ops \<Rightarrow> binary_op \<Rightarrow> 'c \<Rightarrow> 'c \<Rightarrow> 'c" where
  "compare_literals fl f a b = bool_value fl (comparison_holds fl f a b)"

fun fold_constant :: "'c num_ops \<Rightarrow> unary_op \<Rightarrow> 'c expr \<Rightarrow> 'c option" where
  "fold_constant fl f (Constant c) =
     (if f = Un_Ln \<and> \<not> n_lt fl (n_zero fl) c \<or> f = Un_Sqrt \<and> \<not> n_le fl (n_zero fl) c then None
      else (let folded = unary_value fl f c in if n_finite fl folded then Some folded else None))"
| "fold_constant fl f _ = None"

definition infinity_of :: "'c num_ops \<Rightarrow> 'c \<Rightarrow> 'c \<Rightarrow> 'c option" where
  "infinity_of fl numerator divisor =
     (if n_eq fl numerator (n_zero fl) \<or> n_nan fl numerator then None
      else Some (if n_positive fl numerator = n_positive fl divisor then n_infinity fl
                 else n_neg_infinity fl))"

section \<open>Relations\<close>

datatype relation = Rel_max | Rel_min

fun relation_of :: "binary_op \<Rightarrow> relation option" where
  "relation_of Bin_Max = Some Rel_max"
| "relation_of Bin_Min = Some Rel_min"
| "relation_of _ = None"

fun relation_operator :: "relation \<Rightarrow> binary_op" where
  "relation_operator Rel_max = Bin_Max"
| "relation_operator Rel_min = Bin_Min"

fun relation_dual :: "relation \<Rightarrow> relation" where
  "relation_dual Rel_max = Rel_min"
| "relation_dual Rel_min = Rel_max"

text \<open>The operands of a nest of one relation, in order: the head is split until it is another term.\<close>

function relation_leaves :: "relation \<Rightarrow> 'c expr list \<Rightarrow> 'c expr list" where
  "relation_leaves r [] = []"
| "relation_leaves r (e # es) =
     (case e of
        Binary f a b \<Rightarrow>
          if relation_of f = Some r then relation_leaves r (a # b # es)
          else e # relation_leaves r es
      | _ \<Rightarrow> e # relation_leaves r es)"
  by pat_completeness auto

termination
  by (relation "measure (\<lambda>(_, es). sum_list (map (\<lambda>e. Suc (size e + size e)) es))") auto

fun relation_parts :: "'c expr \<Rightarrow> (relation \<times> 'c expr list) option" where
  "relation_parts (Binary f a b) = map_option (\<lambda>r. (r, relation_leaves r [a, b])) (relation_of f)"
| "relation_parts _ = None"

section \<open>Operand lists\<close>

fun flatten :: "'c expr list \<Rightarrow> binary_op \<Rightarrow> 'c expr list" where
  "flatten [] f = []"
| "flatten (e # es) f =
     (case e of Binary g a b \<Rightarrow> if g = f then [a, b] else [e] | _ \<Rightarrow> [e]) @ flatten es f"

fun fold_literals :: "('c \<Rightarrow> 'c \<Rightarrow> 'c) \<Rightarrow> 'c expr list \<Rightarrow> 'c option \<Rightarrow> 'c expr list \<Rightarrow> 'c expr list" where
  "fold_literals f [] accumulated rest =
     rest @ (case accumulated of None \<Rightarrow> [] | Some c \<Rightarrow> [Constant c])"
| "fold_literals f (e # es) accumulated rest =
     (case e of
        Constant c \<Rightarrow>
          fold_literals f es (Some (case accumulated of None \<Rightarrow> c | Some previous \<Rightarrow> f previous c)) rest
      | _ \<Rightarrow> fold_literals f es accumulated (rest @ [e]))"

definition fold_constants :: "'c expr list \<Rightarrow> ('c \<Rightarrow> 'c \<Rightarrow> 'c) \<Rightarrow> 'c expr list" where
  "fold_constants terms f = fold_literals f terms None []"

definition remove_at :: "nat \<Rightarrow> 'a list \<Rightarrow> 'a list" where
  "remove_at i xs = take i xs @ drop (Suc i) xs"

definition opposite_of :: "'c expr list \<Rightarrow> nat \<Rightarrow> nat option" where
  "opposite_of terms index =
     (case terms ! index of
        Unary Un_Neg magnitude \<Rightarrow> find_pos (\<lambda>e. e = magnitude) (drop (Suc index) terms)
      | _ \<Rightarrow> None)"

lemma opposite_of_bound: "opposite_of terms index = Some p \<Longrightarrow> Suc (index + p) < length terms"
  by (auto simp: opposite_of_def find_pos_Some split: expr.splits unary_op.splits)

function cancel_from :: "'c expr list \<Rightarrow> nat \<Rightarrow> 'c expr list" where
  "cancel_from terms index =
     (if length terms \<le> index then terms
      else case opposite_of terms index of
        Some position \<Rightarrow> cancel_from (remove_at index (remove_at position terms)) index
      | None \<Rightarrow> cancel_from terms (Suc index))"
  by pat_completeness auto

termination
  by (relation "measure (\<lambda>(terms, index). length terms - index)")
    (auto simp: remove_at_def dest!: opposite_of_bound)

definition cancel_opposites :: "'c expr list \<Rightarrow> 'c expr list" where
  "cancel_opposites terms = cancel_from terms 0"

text \<open>The list as a right-leaning chain; the last operand is its innermost.\<close>

fun right_chain :: "binary_op \<Rightarrow> 'c expr list \<Rightarrow> 'c expr \<Rightarrow> 'c expr budgeted" where
  "right_chain f [] node = answer node"
| "right_chain f (left # lefts) node = and_then spend (\<lambda>_. right_chain f lefts (Binary f left node))"

definition finish :: "'c expr list \<Rightarrow> binary_op \<Rightarrow> 'c \<Rightarrow> 'c expr budgeted" where
  "finish operands f none_left =
     (case rev operands of
        [] \<Rightarrow> answer (Constant none_left)
      | node # lefts \<Rightarrow> right_chain f lefts node)"

definition is_sum :: "'c expr \<Rightarrow> bool" where
  "is_sum e = (case e of Binary Bin_Add _ _ \<Rightarrow> True | _ \<Rightarrow> False)"

definition is_sum_or_product :: "'c expr \<Rightarrow> bool" where
  "is_sum_or_product e =
     (case e of Binary Bin_Add _ _ \<Rightarrow> True | Binary Bin_Mul _ _ \<Rightarrow> True | _ \<Rightarrow> False)"

definition is_literal :: "'c num_ops \<Rightarrow> 'c \<Rightarrow> 'c expr \<Rightarrow> bool" where
  "is_literal fl c e = (case e of Constant d \<Rightarrow> n_eq fl d c | _ \<Rightarrow> False)"

definition additive_sum :: "'c :: linorder num_ops \<Rightarrow> 'c expr list \<Rightarrow> 'c expr budgeted" where
  "additive_sum fl terms = finish (cancel_opposites (sort terms)) Bin_Add (n_zero fl)"

definition build_relation ::
  "'c num_ops \<Rightarrow> 'c expr list \<Rightarrow> relation \<Rightarrow> 'c expr budgeted" where
  "build_relation fl operands relation =
     finish (List.filter (\<lambda>e. \<not> is_literal fl (n_zero fl) e) operands) (relation_operator relation)
       (n_zero fl)"

definition canonical_comparison ::
  "binary_op \<Rightarrow> 'c :: linorder expr \<Rightarrow> 'c expr \<Rightarrow> binary_op \<times> 'c expr \<times> 'c expr" where
  "canonical_comparison f left right =
     (if expr_cmp left right = Greater then (mirrored f, right, left) else (f, left, right))"

section \<open>The recursion\<close>

text \<open>
  The functions call one another on trees they have just built. A call back is a value of this type,
  answered by the parameter \<open>go\<close>; \<open>canon\<close> ties the knot.
\<close>

datatype builder = Recursive_sum | Additive_sum

datatype 'c call =
    Build "'c expr"
  | Build_unary unary_op "'c expr"
  | Build_binary binary_op "'c expr" "'c expr"
  | Build_sum "'c expr list"
  | Build_sum_terms builder "'c expr list"
  | Build_product "'c expr list"
  | Negate "'c expr"
  | Apply_key "'c expr" "'c expr"

type_synonym 'c calls = "'c call \<Rightarrow> 'c expr budgeted"

definition distribute_key :: "'c calls \<Rightarrow> 'c num_ops \<Rightarrow> 'c expr \<Rightarrow> 'c expr \<Rightarrow> 'c expr budgeted" where
  "distribute_key go fl operand key =
     (case relation_parts operand of
        Some _ \<Rightarrow> and_then (go (Build_sum [operand, key])) (\<lambda>summed.
          go (Apply_key summed (Constant (n_zero fl))))
      | None \<Rightarrow> go (Build_sum [operand, key]))"

definition apply_key_over_relation ::
  "'c calls \<Rightarrow> 'c num_ops \<Rightarrow> 'c expr \<Rightarrow> 'c expr \<Rightarrow> 'c expr budgeted" where
  "apply_key_over_relation go fl e key =
     (case relation_parts e of
        None \<Rightarrow> go (Build_sum [e, key])
      | Some (nested, operands) \<Rightarrow>
          and_then (each (\<lambda>operand. and_then (go (Build_sum [operand, key])) (\<lambda>summed.
              go (Apply_key summed (Constant (n_zero fl))))) operands)
            (\<lambda>parts. build_relation fl parts nested))"

definition recursive_sum :: "'c calls \<Rightarrow> 'c num_ops \<Rightarrow> 'c expr list \<Rightarrow> 'c expr budgeted" where
  "recursive_sum go fl terms =
     (let relations = List.map_filter relation_parts terms;
          keyed = List.filter (\<lambda>e. relation_parts e = None) terms
      in case relations of
        [] \<Rightarrow> go (Build_sum_terms Additive_sum terms)
      | (relation, _) # _ \<Rightarrow>
          and_then (go (Build_sum_terms Recursive_sum keyed)) (\<lambda>key.
          and_then (each (\<lambda>operand. distribute_key go fl operand key) (concat (map snd relations)))
            (\<lambda>parts. build_relation fl parts relation)))"

definition build_sum_terms ::
  "'c calls \<Rightarrow> 'c :: linorder num_ops \<Rightarrow> builder \<Rightarrow> 'c expr list \<Rightarrow> 'c expr budgeted" where
  "build_sum_terms go fl builder terms =
     (let folded = fold_constants terms (n_add fl);
          kept = cancel_opposites (sort (List.filter (\<lambda>e. \<not> is_literal fl (n_zero fl) e) folded))
      in if list_ex (\<lambda>e. relation_parts e \<noteq> None) kept
         then (case builder of Recursive_sum \<Rightarrow> recursive_sum go fl kept
               | Additive_sum \<Rightarrow> additive_sum fl kept)
         else additive_sum fl kept)"

definition build_sum :: "'c calls \<Rightarrow> 'c :: linorder num_ops \<Rightarrow> 'c expr list \<Rightarrow> 'c expr budgeted" where
  "build_sum go fl terms =
     and_then (each (\<lambda>e. case e of
         Unary Un_Neg magnitude \<Rightarrow>
           if is_sum_or_product magnitude then go (Negate magnitude) else answer e
       | _ \<Rightarrow> answer e) terms) (\<lambda>signed.
       build_sum_terms go fl Recursive_sum (flatten signed Bin_Add))"

definition negate_relation ::
  "'c calls \<Rightarrow> 'c :: linorder num_ops \<Rightarrow> relation \<Rightarrow> 'c expr list \<Rightarrow> 'c expr budgeted" where
  "negate_relation go fl relation operands =
     and_then (each (\<lambda>e. go (Negate e)) operands) (\<lambda>negated.
       finish (sort negated) (relation_operator (relation_dual relation)) (n_zero fl))"

definition distribute_product :: "'c calls \<Rightarrow> 'c expr list \<Rightarrow> nat \<Rightarrow> 'c expr budgeted" where
  "distribute_product go factors index =
     (case factors ! index of
        Binary Bin_Add left right \<Rightarrow>
          and_then (each (\<lambda>e. go (Build_product (remove_at index factors @ [e]))) [left, right])
            (\<lambda>products. go (Build_sum products))
      | _ \<Rightarrow> refuse)"

definition build_product ::
  "'c calls \<Rightarrow> 'c :: linorder num_ops \<Rightarrow> 'c expr list \<Rightarrow> 'c expr budgeted" where
  "build_product go fl factors =
     (let folded = fold_constants (flatten factors Bin_Mul) (n_mul fl) in
      if list_ex (is_literal fl (n_zero fl)) folded then spend_on (Constant (n_zero fl))
      else (let kept = List.filter (\<lambda>e. \<not> is_literal fl (n_one fl) e) folded in
        case find_pos is_sum kept of
          Some index \<Rightarrow> distribute_product go kept index
        | None \<Rightarrow> finish (sort kept) Bin_Mul (n_one fl)))"

definition exponent_product :: "'c calls \<Rightarrow> 'c expr \<Rightarrow> 'c expr budgeted" where
  "exponent_product go operand =
     (case operand of
        Binary Bin_Add left right \<Rightarrow>
          and_then (go (Build_unary Un_Exp left)) (\<lambda>left.
          and_then (go (Build_unary Un_Exp right)) (\<lambda>right.
            go (Build_product [left, right])))
      | _ \<Rightarrow> refuse)"

definition negate ::
  "'c calls \<Rightarrow> 'c :: linorder num_ops \<Rightarrow> 'c expr \<Rightarrow> 'c expr budgeted" where
  "negate go fl e = (case e of
      Constant c \<Rightarrow> spend_on (Constant (n_neg fl c))
    | Unary Un_Neg inner \<Rightarrow> go (Build inner)
    | Binary Bin_Add left right \<Rightarrow> go (Build_binary Bin_Add (Unary Un_Neg left) (Unary Un_Neg right))
    | Binary Bin_Mul left right \<Rightarrow> go (Build_binary Bin_Mul (Unary Un_Neg left) (Unary Un_Neg right))
    | Binary Bin_Max left right \<Rightarrow> negate_relation go fl Rel_max (relation_leaves Rel_max [left, right])
    | Binary Bin_Min left right \<Rightarrow> negate_relation go fl Rel_min (relation_leaves Rel_min [left, right])
    | _ \<Rightarrow> and_then spend (\<lambda>_. and_then (go (Build e)) (\<lambda>e. answer (Unary Un_Neg e))))"

text \<open>The pairs of operators that undo each other, with what they leave.\<close>

fun undone :: "unary_op \<Rightarrow> 'c expr \<Rightarrow> 'c expr option" where
  "undone Un_Exp (Unary Un_Ln inner) = Some inner"
| "undone Un_Ln (Unary Un_Exp inner) = Some inner"
| "undone Un_Neg (Unary Un_Neg inner) = Some inner"
| "undone _ _ = None"

definition build_unary ::
  "'c calls \<Rightarrow> 'c :: linorder num_ops \<Rightarrow> unary_op \<Rightarrow> 'c expr \<Rightarrow> 'c expr budgeted" where
  "build_unary go fl f operand =
     (case undone f operand of
        Some inner \<Rightarrow> go (Build inner)
      | None \<Rightarrow> and_then (go (Build operand)) (\<lambda>operand.
          case fold_constant fl f operand of
            Some c \<Rightarrow> spend_on (Constant c)
          | None \<Rightarrow>
              if f = Un_Exp \<and> is_sum operand then exponent_product go operand
              else if f = Un_Neg \<and> is_sum_or_product operand then negate go fl operand
              else spend_on (Unary f operand)))"

definition build_comparison ::
  "'c calls \<Rightarrow> 'c :: linorder num_ops \<Rightarrow> binary_op \<Rightarrow> 'c expr \<Rightarrow> 'c expr \<Rightarrow> 'c expr budgeted" where
  "build_comparison go fl f left right =
     and_then (go (Build left)) (\<lambda>left. and_then (go (Build right)) (\<lambda>right.
       case canonical_comparison f left right of (f, left, right) \<Rightarrow>
       let literals = (case (as_constant left, as_constant right) of
           (Some a, Some b) \<Rightarrow> Some (compare_literals fl f a b) | _ \<Rightarrow> None)
       in case (case literals of Some c \<Rightarrow> Some c
                | None \<Rightarrow> if left = right then Some (compare_literals fl f (n_zero fl) (n_zero fl)) else None) of
            Some c \<Rightarrow> spend_on (Constant c)
          | None \<Rightarrow> spend_on (Binary f left right)))"

definition quotient_literal :: "'c num_ops \<Rightarrow> 'c expr \<Rightarrow> 'c expr \<Rightarrow> 'c option" where
  "quotient_literal fl left right = (case (as_constant left, as_constant right) of
      (Some c, Some divisor) \<Rightarrow>
        if \<not> n_eq fl divisor (n_zero fl) then Some (n_div fl c divisor) else infinity_of fl c divisor
    | _ \<Rightarrow> None)"

definition build_binary ::
  "'c calls \<Rightarrow> 'c :: linorder num_ops \<Rightarrow> binary_op \<Rightarrow> 'c expr \<Rightarrow> 'c expr \<Rightarrow> 'c expr budgeted" where
  "build_binary go fl f left right = (case f of
      Bin_Sub \<Rightarrow> and_then (go (Build left)) (\<lambda>left. and_then (go (Build right)) (\<lambda>right.
        and_then (go (Negate right)) (\<lambda>right. go (Build_sum [left, right]))))
    | Bin_Add \<Rightarrow> and_then (go (Build left)) (\<lambda>left. and_then (go (Build right)) (\<lambda>right.
        go (Build_sum [left, right])))
    | Bin_Mul \<Rightarrow> and_then (go (Build left)) (\<lambda>left. and_then (go (Build right)) (\<lambda>right.
        go (Build_product [left, right])))
    | Bin_Max \<Rightarrow> and_then (go (Build left)) (\<lambda>left. and_then (go (Build right)) (\<lambda>right.
        finish (sort (fold_constants (flatten [left, right] Bin_Max) (n_max fl))) Bin_Max (n_zero fl)))
    | Bin_Min \<Rightarrow> and_then (go (Build left)) (\<lambda>left. and_then (go (Build right)) (\<lambda>right.
        finish (sort (fold_constants (flatten [left, right] Bin_Min) (n_min fl))) Bin_Min (n_zero fl)))
    | Bin_Div \<Rightarrow> and_then (go (Build left)) (\<lambda>left. and_then (go (Build right)) (\<lambda>right.
        spend_on (case quotient_literal fl left right of
          None \<Rightarrow> Binary f left right | Some c \<Rightarrow> Constant c)))
    | _ \<Rightarrow> build_comparison go fl f left right)"

definition build :: "'c calls \<Rightarrow> 'c :: linorder num_ops \<Rightarrow> 'c expr \<Rightarrow> 'c expr budgeted" where
  "build go fl e = (case e of
      Constant c \<Rightarrow> answer (Constant c)
    | Variable v \<Rightarrow> answer (Variable v)
    | Unary f a \<Rightarrow> build_unary go fl f a
    | Binary f a b \<Rightarrow> build_binary go fl f a b)"

definition serve :: "'c calls \<Rightarrow> 'c :: linorder num_ops \<Rightarrow> 'c calls" where
  "serve go fl c = (case c of
      Build e \<Rightarrow> build go fl e
    | Build_unary f e \<Rightarrow> build_unary go fl f e
    | Build_binary f a b \<Rightarrow> build_binary go fl f a b
    | Build_sum es \<Rightarrow> build_sum go fl es
    | Build_sum_terms builder es \<Rightarrow> build_sum_terms go fl builder es
    | Build_product es \<Rightarrow> build_product go fl es
    | Negate e \<Rightarrow> negate go fl e
    | Apply_key e key \<Rightarrow> apply_key_over_relation go fl e key)"

text \<open>Each function only runs the calls it makes, so a call that ends ends the same way in more of them.\<close>

named_theorems run_mono \<open>monotonicity of a run in the calls it makes\<close>

lemma and_then_mono [run_mono]:
  assumes m: "\<And>r. mono_option (\<lambda>f. m f r)" and k: "\<And>a r. mono_option (\<lambda>f. k f a r)"
  shows "mono_option (\<lambda>f. and_then (m f) (k f) r)"
proof -
  have "mono_option (\<lambda>f. case x of None \<Rightarrow> Some None | Some (a, r) \<Rightarrow> k f a r)" for x
    by (cases x) (auto intro: k option.const_mono)
  then show ?thesis unfolding and_then_def by (intro bind_mono m)
qed

lemma done_mono [run_mono]:
  "mono_option (\<lambda>f. answer a r)" "mono_option (\<lambda>f. refuse r)" "mono_option (\<lambda>f. spend r)"
  "mono_option (\<lambda>f. spend_on b r)" "mono_option (\<lambda>f. finish es g c r)"
  "mono_option (\<lambda>f. additive_sum fl es r)" "mono_option (\<lambda>f. build_relation fl' es' relation r)"
  by (rule option.const_mono)+

lemma if_run_mono [run_mono]:
  assumes "mono_option (\<lambda>f. k f r)" "mono_option (\<lambda>f. k' f r)"
  shows "mono_option (\<lambda>f. (if b then k f else k' f) r)"
  using assms by (cases b) simp_all

lemma let_run_mono [run_mono]:
  assumes "\<And>x. mono_option (\<lambda>f. k f x r)"
  shows "mono_option (\<lambda>f. (let x = e in k f x) r)"
  using assms by simp

lemma case_expr_mono [run_mono]:
  assumes "\<And>a. mono_option (\<lambda>f. k0 f a r)" "\<And>a. mono_option (\<lambda>f. k1 f a r)" "\<And>a b c. mono_option (\<lambda>f. k2 f a b c r)" "\<And>a b. mono_option (\<lambda>f. k3 f a b r)"
  shows "mono_option (\<lambda>f. case_expr (k0 f) (k1 f) (k2 f) (k3 f) x r)"
  using assms by (cases x) simp_all

lemma case_option_mono [run_mono]:
  assumes "mono_option (\<lambda>f. k0 f r)" "\<And>a. mono_option (\<lambda>f. k1 f a r)"
  shows "mono_option (\<lambda>f. case_option (k0 f) (k1 f) x r)"
  using assms by (cases x) simp_all

lemma case_prod_mono [run_mono]:
  assumes "\<And>a b. mono_option (\<lambda>f. k0 f a b r)"
  shows "mono_option (\<lambda>f. case_prod (k0 f) x r)"
  using assms by (cases x) simp_all

lemma case_list_mono [run_mono]:
  assumes "mono_option (\<lambda>f. k0 f r)" "\<And>a b. mono_option (\<lambda>f. k1 f a b r)"
  shows "mono_option (\<lambda>f. case_list (k0 f) (k1 f) x r)"
  using assms by (cases x) simp_all

lemma case_binary_mono [run_mono]:
  assumes "mono_option (\<lambda>f. k0 f r)" "mono_option (\<lambda>f. k1 f r)" "mono_option (\<lambda>f. k2 f r)" "mono_option (\<lambda>f. k3 f r)" "mono_option (\<lambda>f. k4 f r)" "mono_option (\<lambda>f. k5 f r)" "mono_option (\<lambda>f. k6 f r)" "mono_option (\<lambda>f. k7 f r)" "mono_option (\<lambda>f. k8 f r)" "mono_option (\<lambda>f. k9 f r)" "mono_option (\<lambda>f. k10 f r)" "mono_option (\<lambda>f. k11 f r)"
  shows "mono_option (\<lambda>f. case_binary_op (k0 f) (k1 f) (k2 f) (k3 f) (k4 f) (k5 f) (k6 f) (k7 f) (k8 f) (k9 f) (k10 f) (k11 f) x r)"
  using assms by (cases x) simp_all

lemma case_unary_mono [run_mono]:
  assumes "mono_option (\<lambda>f. k0 f r)" "mono_option (\<lambda>f. k1 f r)" "mono_option (\<lambda>f. k2 f r)" "mono_option (\<lambda>f. k3 f r)" "mono_option (\<lambda>f. k4 f r)" "mono_option (\<lambda>f. k5 f r)" "mono_option (\<lambda>f. k6 f r)" "mono_option (\<lambda>f. k7 f r)"
  shows "mono_option (\<lambda>f. case_unary_op (k0 f) (k1 f) (k2 f) (k3 f) (k4 f) (k5 f) (k6 f) (k7 f) x r)"
  using assms by (cases x) simp_all

lemma case_builder_mono [run_mono]:
  assumes "mono_option (\<lambda>f. k0 f r)" "mono_option (\<lambda>f. k1 f r)"
  shows "mono_option (\<lambda>f. case_builder (k0 f) (k1 f) x r)"
  using assms by (cases x) simp_all

lemma case_call_mono [run_mono]:
  assumes "\<And>a. mono_option (\<lambda>f. k0 f a r)" "\<And>a b. mono_option (\<lambda>f. k1 f a b r)" "\<And>a b c. mono_option (\<lambda>f. k2 f a b c r)" "\<And>a. mono_option (\<lambda>f. k3 f a r)" "\<And>a b. mono_option (\<lambda>f. k4 f a b r)" "\<And>a. mono_option (\<lambda>f. k5 f a r)" "\<And>a. mono_option (\<lambda>f. k6 f a r)" "\<And>a b. mono_option (\<lambda>f. k7 f a b r)"
  shows "mono_option (\<lambda>f. case_call (k0 f) (k1 f) (k2 f) (k3 f) (k4 f) (k5 f) (k6 f) (k7 f) x r)"
  using assms by (cases x) simp_all

lemma each_mono [run_mono]:
  assumes "\<And>x r. mono_option (\<lambda>f. k f x r)"
  shows "mono_option (\<lambda>f. each (k f) xs r)"
  by (induction xs arbitrary: r) (simp_all only: each.simps, (intro run_mono assms | assumption)+)

lemma distribute_key_mono [run_mono]:
  assumes "\<And>c r. mono_option (\<lambda>f. go f c r)"
  shows "mono_option (\<lambda>f. distribute_key (go f) fl operand key r)"
  unfolding distribute_key_def by (intro run_mono assms)

lemma apply_key_over_relation_mono [run_mono]:
  assumes "\<And>c r. mono_option (\<lambda>f. go f c r)"
  shows "mono_option (\<lambda>f. apply_key_over_relation (go f) fl e key r)"
  unfolding apply_key_over_relation_def by (intro run_mono assms)

lemma recursive_sum_mono [run_mono]:
  assumes "\<And>c r. mono_option (\<lambda>f. go f c r)"
  shows "mono_option (\<lambda>f. recursive_sum (go f) fl terms r)"
  unfolding recursive_sum_def by (intro run_mono assms)

lemma build_sum_terms_mono [run_mono]:
  assumes "\<And>c r. mono_option (\<lambda>f. go f c r)"
  shows "mono_option (\<lambda>f. build_sum_terms (go f) fl builder terms r)"
  unfolding build_sum_terms_def by (intro run_mono assms)

lemma build_sum_mono [run_mono]:
  assumes "\<And>c r. mono_option (\<lambda>f. go f c r)"
  shows "mono_option (\<lambda>f. build_sum (go f) fl terms r)"
  unfolding build_sum_def by (intro run_mono assms)

lemma negate_relation_mono [run_mono]:
  assumes "\<And>c r. mono_option (\<lambda>f. go f c r)"
  shows "mono_option (\<lambda>f. negate_relation (go f) fl relation operands r)"
  unfolding negate_relation_def by (intro run_mono assms)

lemma distribute_product_mono [run_mono]:
  assumes "\<And>c r. mono_option (\<lambda>f. go f c r)"
  shows "mono_option (\<lambda>f. distribute_product (go f) factors index r)"
  unfolding distribute_product_def by (intro run_mono assms)

lemma build_product_mono [run_mono]:
  assumes "\<And>c r. mono_option (\<lambda>f. go f c r)"
  shows "mono_option (\<lambda>f. build_product (go f) fl factors r)"
  unfolding build_product_def by (intro run_mono assms)

lemma exponent_product_mono [run_mono]:
  assumes "\<And>c r. mono_option (\<lambda>f. go f c r)"
  shows "mono_option (\<lambda>f. exponent_product (go f) operand r)"
  unfolding exponent_product_def by (intro run_mono assms)

lemma negate_mono [run_mono]:
  assumes "\<And>c r. mono_option (\<lambda>f. go f c r)"
  shows "mono_option (\<lambda>f. negate (go f) fl e r)"
  unfolding negate_def by (intro run_mono assms)

lemma build_unary_mono [run_mono]:
  assumes "\<And>c r. mono_option (\<lambda>f. go f c r)"
  shows "mono_option (\<lambda>f. build_unary (go f) fl g operand r)"
  unfolding build_unary_def by (intro run_mono assms)

lemma build_comparison_mono [run_mono]:
  assumes "\<And>c r. mono_option (\<lambda>f. go f c r)"
  shows "mono_option (\<lambda>f. build_comparison (go f) fl g left right r)"
  unfolding build_comparison_def by (intro run_mono assms)

lemma build_binary_mono [run_mono]:
  assumes "\<And>c r. mono_option (\<lambda>f. go f c r)"
  shows "mono_option (\<lambda>f. build_binary (go f) fl g left right r)"
  unfolding build_binary_def by (intro run_mono assms)

lemma build_mono [run_mono]:
  assumes "\<And>c r. mono_option (\<lambda>f. go f c r)"
  shows "mono_option (\<lambda>f. build (go f) fl e r)"
  unfolding build_def by (intro run_mono assms)

lemma serve_mono [run_mono]:
  assumes "\<And>c r. mono_option (\<lambda>f. go f c r)"
  shows "mono_option (\<lambda>f. serve (go f) fl c r)"
  unfolding serve_def by (intro run_mono assms)

declare serve_mono [partial_function_mono]

partial_function (option) canon :: "'c :: linorder num_ops \<Rightarrow> 'c calls" where
  "canon fl c remaining = serve (canon fl) fl c remaining"

definition normalize :: "'c :: linorder num_ops \<Rightarrow> 'c expr \<Rightarrow> 'c expr option option" where
  "normalize fl e = map_option (map_option fst) (canon fl (Build e) NORMALIZATION_BUDGET)"

end
