(* ===== verification/Fusion_Normal_Sound.thy ===== *)
theory Fusion_Normal_Sound
  imports Fusion_Normalize "HOL-Library.Multiset"
begin

text \<open>
  The canonicalizer on the expressions that have no negation, subtraction, maximum or minimum: it
  always ends, and over the reals its answer has the value of the expression.
\<close>

section \<open>Runs that end\<close>

definition settles :: "'a budgeted \<Rightarrow> ('a \<Rightarrow> bool) \<Rightarrow> bool" where
  "settles m P \<longleftrightarrow> (\<forall>remaining. case m remaining of
     None \<Rightarrow> False | Some None \<Rightarrow> True | Some (Some (a, _)) \<Rightarrow> P a)"

lemma ends_answer: "P a \<Longrightarrow> settles (answer a) P"
  by (simp add: settles_def answer_def)

lemma ends_and_then:
  assumes m: "settles m P" and k: "\<And>a. P a \<Longrightarrow> settles (k a) Q"
  shows "settles (and_then m k) Q"
  unfolding settles_def
proof
  fix remaining
  let ?ok = "\<lambda>R x. case x of None \<Rightarrow> False | Some None \<Rightarrow> True | Some (Some (a, _)) \<Rightarrow> R a"
  have "?ok P (m remaining)" using m unfolding settles_def ..
  then consider "m remaining = Some None" | a r where "m remaining = Some (Some (a, r))" "P a"
    by (auto split: option.splits)
  then show "?ok Q (and_then m k remaining)"
  proof cases
    case 1
    then show ?thesis by (simp add: and_then_def)
  next
    case (2 a r)
    have "?ok Q (k a r)" using k [OF 2(2)] unfolding settles_def ..
    then show ?thesis using 2(1) by (simp add: and_then_def)
  qed
qed

lemma ends_spend: "settles spend (\<lambda>_. True)"
  by (simp add: settles_def spend_def)

lemma ends_spend_on: "P a \<Longrightarrow> settles (spend_on a) P"
  unfolding spend_on_def by (rule ends_and_then [OF ends_spend]) (rule ends_answer)

lemma and_then_assoc: "and_then (and_then m f) g = and_then m (\<lambda>a. and_then (f a) g)"
  by (auto simp: and_then_def fun_eq_iff split: Option.bind_split option.split)

lemma ends_mono: "settles m P \<Longrightarrow> (\<And>a. P a \<Longrightarrow> Q a) \<Longrightarrow> settles m Q"
  unfolding settles_def by (fastforce split: option.splits)

section \<open>Values and weights\<close>

fun real_value :: "(variable \<Rightarrow> real) \<Rightarrow> real expr \<Rightarrow> real" where
  "real_value env (Constant c) = c"
| "real_value env (Variable v) = env v"
| "real_value env (Unary f a) = unary_value real_ops f (real_value env a)"
| "real_value env (Binary f a b) = binary_value real_ops f (real_value env a) (real_value env b)"

lemma evaluate_real: "evaluate real_ops e (Some \<circ> env) = Some (real_value env e)"
  by (induction e) simp_all

text \<open>No negation, subtraction or relation, and no logarithm outside its domain.\<close>

fun tame :: "(variable \<Rightarrow> real) \<Rightarrow> real expr \<Rightarrow> bool" where
  "tame env (Constant c) \<longleftrightarrow> True"
| "tame env (Variable v) \<longleftrightarrow> True"
| "tame env (Unary f a) \<longleftrightarrow> tame env a \<and> f \<noteq> Un_Neg \<and> (f = Un_Ln \<longrightarrow> 0 < real_value env a)"
| "tame env (Binary f a b) \<longleftrightarrow> tame env a \<and> tame env b \<and> f \<notin> {Bin_Sub, Bin_Max, Bin_Min}"

text \<open>A weight that no rewriting step increases and every call back decreases.\<close>

fun weight :: "'c expr \<Rightarrow> nat" where
  "weight (Constant _) = 2"
| "weight (Variable _) = 2"
| "weight (Unary f a) = (if f = Un_Exp then 2 ^ weight a else weight a + 1)"
| "weight (Binary f a b) = (if f = Bin_Mul then weight a * weight b
     else if f = Bin_Add then weight a + weight b + 1 else weight a + weight b)"

lemma two_le_weight: "2 \<le> weight e"
proof (induction e)
  case (Binary f a b)
  then have "2 * 2 \<le> weight a * weight b" by (intro mult_le_mono)
  then show ?case using Binary by auto
next
  case (Unary f a)
  then have "2 ^ 1 \<le> (2 :: nat) ^ weight a" by (intro power_increasing) auto
  then show ?case using Unary by auto
qed simp_all

lemma weight_pos [simp]: "0 < weight e"
  using two_le_weight [of e] by linarith

definition good :: "(variable \<Rightarrow> real) \<Rightarrow> real \<Rightarrow> nat \<Rightarrow> real expr \<Rightarrow> bool" where
  "good env x n e \<longleftrightarrow> tame env e \<and> real_value env e = x \<and> weight e \<le> n"

abbreviation all_tame :: "(variable \<Rightarrow> real) \<Rightarrow> real expr list \<Rightarrow> bool" where
  "all_tame env es \<equiv> \<forall>e \<in> set es. tame env e"

section \<open>Operand lists of one operator\<close>

lemma fold_literals_form:
  "fold_literals f es accumulated rest =
     rest @ List.filter (\<lambda>e. as_constant e = None) es @
     (case (accumulated, List.map_filter as_constant es) of
        (None, []) \<Rightarrow> [] | (None, c # cs) \<Rightarrow> [Constant (foldl f c cs)]
      | (Some a, cs) \<Rightarrow> [Constant (foldl f a cs)])"
proof (induction f es accumulated rest rule: fold_literals.induct)
  case (1 f accumulated rest)
  show ?case by (cases accumulated) (simp_all add: map_filter_simps)
next
  case (2 f e es accumulated rest)
  then show ?case
    by (cases e; cases accumulated) (auto simp: map_filter_simps split: list.split)
qed

lemma fold_constants_form:
  "fold_constants es f = List.filter (\<lambda>e. as_constant e = None) es @
     (case List.map_filter as_constant es of [] \<Rightarrow> [] | c # cs \<Rightarrow> [Constant (foldl f c cs)])"
  by (simp add: fold_constants_def fold_literals_form split: list.split)

text \<open>A list folded by an associative and commutative operator.\<close>

locale folded = comm_monoid f z for f :: "'m \<Rightarrow> 'm \<Rightarrow> 'm" and z
begin

definition total :: "('e \<Rightarrow> 'm) \<Rightarrow> 'e list \<Rightarrow> 'm" where
  "total h es = foldr (\<lambda>e. f (h e)) es z"

lemma total_simps [simp]: "total h [] = z" "total h (e # es) = f (h e) (total h es)"
  by (simp_all add: total_def)

lemma total_append [simp]: "total h (xs @ ys) = f (total h xs) (total h ys)"
  by (induction xs) (simp_all add: assoc)

lemma total_perm: "mset xs = mset ys \<Longrightarrow> total h xs = total h ys"
proof (induction xs arbitrary: ys)
  case (Cons x xs)
  then have "x \<in> set ys" by (metis list.set_intros(1) mset_eq_setD)
  then obtain us vs where ys: "ys = us @ x # vs" by (meson split_list)
  then have "mset xs = mset (us @ vs)" using Cons.prems by simp
  then have "total h xs = total h (us @ vs)" by (rule Cons.IH)
  then show ?case using ys by (simp add: left_commute)
qed simp

lemma total_sort [simp]: "total h (sort es) = total h es"
  by (rule total_perm) simp

lemma total_rev [simp]: "total h (rev es) = total h es"
  by (rule total_perm) simp

lemma total_remove_at:
  assumes "i < length es"
  shows "f (h (es ! i)) (total h (remove_at i es)) = total h es"
proof -
  have "mset es = mset (take i es @ es ! i # drop (Suc i) es)" using id_take_nth_drop [OF assms] by simp
  then have "mset es = mset (es ! i # remove_at i es)" by (simp add: remove_at_def)
  then show ?thesis using total_perm [of es "es ! i # remove_at i es" h] by simp
qed

lemma total_literals:
  "total h es = f (total h (List.filter (\<lambda>e. as_constant e = None) es))
     (total (h \<circ> Constant) (List.map_filter as_constant es))"
proof (induction es)
  case (Cons e es)
  then show ?case by (cases e) (simp_all add: map_filter_simps assoc left_commute)
qed (simp add: map_filter_simps)

end

text \<open>
  An operator of the language as such a fold, of values and of weights: the weight of a node, and of
  each operand, counts the extra \<open>k\<close> once.
\<close>

locale operand_list = v: folded f z + w: folded w u
  for f :: "real \<Rightarrow> real \<Rightarrow> real" and z :: real and w :: "nat \<Rightarrow> nat \<Rightarrow> nat" and u :: nat +
  fixes g :: binary_op and k :: nat
  assumes node: "binary_value real_ops g a b = f a b" and kept: "g \<notin> {Bin_Sub, Bin_Max, Bin_Min}"
    and weight_node: "weight (Binary g e e' :: real expr) + k = w (weight e + k) (weight e' + k)"
    and grows: "0 < n \<Longrightarrow> m \<le> w m n" and w_mono: "m \<le> n \<Longrightarrow> w m l \<le> w n l"
begin

abbreviation value_of :: "(variable \<Rightarrow> real) \<Rightarrow> real expr list \<Rightarrow> real" where
  "value_of env \<equiv> v.total (real_value env)"

definition heft :: "real expr list \<Rightarrow> nat" where
  "heft = w.total (\<lambda>e. weight e + k)"

lemma heft_simps [simp]:
  "heft [] = u" "heft (e # es) = w (weight e + k) (heft es)" "heft (sort es) = heft es"
  "heft (rev es) = heft es" "heft (xs @ ys) = w (heft xs) (heft ys)"
  by (simp_all add: heft_def)

lemma heft_remove_at: "i < length es \<Longrightarrow> w (weight (es ! i) + k) (heft (remove_at i es)) = heft es"
  unfolding heft_def by (rule w.total_remove_at)

lemma value_flatten [simp]: "value_of env (flatten es g) = value_of env es"
  by (induction es) (auto simp: node v.assoc split: expr.split)

lemma heft_flatten [simp]: "heft (flatten es g) = heft es"
  by (induction es) (auto simp: w.assoc weight_node simp del: weight.simps split: expr.split)

lemma value_drop_units [simp]:
  "value_of env (List.filter (\<lambda>e. \<not> is_literal real_ops z e) es) = value_of env es"
  by (induction es) (auto simp: is_literal_def split: expr.splits)

lemma heft_pos: "es \<noteq> [] \<Longrightarrow> 0 < heft es"
proof (induction es)
  case (Cons e es)
  show ?case
  proof (cases "es = []")
    case False
    then have "weight e + k \<le> w (weight e + k) (heft es)" using Cons.IH by (intro grows)
    moreover have "0 < weight e + k" by simp
    ultimately have "0 < w (weight e + k) (heft es)" by (rule less_le_trans [rotated])
    then show ?thesis by simp
  qed simp
qed simp

lemma heft_Cons_le: "heft es \<le> heft (e # es)"
  using grows [of "weight e + k" "heft es"] by (simp add: w.commute)

lemma heft_filter: "heft (List.filter p es) \<le> heft es"
proof (induction es)
  case (Cons e es)
  show ?case
  proof (cases "p e")
    case True
    then show ?thesis using w_mono [OF Cons] by (simp add: w.commute)
  next
    case False
    then show ?thesis using Cons heft_Cons_le [of es e] by simp
  qed
qed simp

lemma value_fold_constants [simp]: "value_of env (fold_constants es f) = value_of env es"
proof -
  have "foldl f c cs = f c (v.total (\<lambda>x. x) cs)" for c cs
    by (induction cs arbitrary: c) (simp_all add: v.assoc)
  then show ?thesis unfolding fold_constants_form v.total_literals [of "real_value env" es]
    by (cases "List.map_filter as_constant es") (simp_all add: comp_def)
qed

lemma heft_fold_constants: "heft (fold_constants es f) \<le> heft es"
proof (cases "List.map_filter as_constant es")
  case Nil
  then show ?thesis by (simp add: fold_constants_form heft_filter)
next
  case (Cons c cs)
  have "2 + k \<le> w (2 + k) (w.total ((\<lambda>e. weight e + k) \<circ> Constant) cs)"
  proof (cases cs)
    case (Cons d ds)
    have "0 < w.total ((\<lambda>e. weight e + k) \<circ> Constant) cs"
      using heft_pos [of "map Constant cs"] Cons by (simp add: heft_def w.total_def foldr_map comp_def)
    then show ?thesis by (rule grows)
  qed simp
  then show ?thesis
    unfolding fold_constants_form heft_def w.total_literals [of _ es] using Cons w_mono
    by (simp add: comp_def w.commute)
qed

lemma chain_ends:
  assumes "all_tame env es" "tame env e"
  shows "settles (right_chain g es e) (\<lambda>a. tame env a \<and>
    real_value env a = f (value_of env es) (real_value env e) \<and> weight a + k = w (heft es) (weight e + k))"
  using assms
proof (induction es arbitrary: e)
  case Nil
  then show ?case by (simp add: ends_answer)
next
  case (Cons x es)
  let ?e = "Binary g x e"
  have "tame env ?e" using Cons.prems kept by simp
  then have "settles (right_chain g es ?e) (\<lambda>a. tame env a \<and>
      real_value env a = f (value_of env es) (real_value env ?e) \<and> weight a + k = w (heft es) (weight ?e + k))"
    using Cons.prems by (intro Cons.IH) simp_all
  then have "settles (right_chain g es ?e) (\<lambda>a. tame env a \<and>
      real_value env a = f (value_of env (x # es)) (real_value env e) \<and>
      weight a + k = w (heft (x # es)) (weight e + k))"
    by (simp add: weight_node node v.assoc v.left_commute w.assoc w.left_commute del: weight.simps)
  then show ?case by (auto intro: ends_and_then [OF ends_spend])
qed

lemma finish_ends:
  assumes "all_tame env es" "heft es \<le> n + k" "es = [] \<Longrightarrow> 2 \<le> n"
  shows "settles (finish es g z) (good env (value_of env es) n)"
proof (cases "rev es")
  case Nil
  then show ?thesis using assms by (simp add: finish_def ends_answer good_def)
next
  case (Cons e lefts)
  then have es: "es = rev (e # lefts)" by (metis rev_rev_ident)
  have "heft es = w (heft lefts) (weight e + k)" "value_of env es = f (value_of env lefts) (real_value env e)"
    unfolding es by simp_all
  moreover have "all_tame env lefts" "tame env e" using assms(1) unfolding es by auto
  ultimately show ?thesis using chain_ends [where env = env and es = lefts and e = e] assms(2)
    unfolding finish_def Cons by (auto simp: good_def elim!: ends_mono)
qed

end

interpretation sums: operand_list "(+)" 0 "(+)" 0 Bin_Add "Suc 0"
  by unfold_locales simp_all

interpretation products: operand_list "(*)" 1 "(*)" "Suc 0" Bin_Mul 0
  by unfold_locales simp_all

section \<open>The calls on tame expressions\<close>

lemma tame_not_neg: "tame env e \<Longrightarrow> e \<noteq> Unary Un_Neg a"
  by auto

lemma tame_no_relation: "tame env e \<Longrightarrow> relation_parts e = None"
proof (cases e)
  case (Binary f a b)
  assume "tame env e"
  then have "relation_of f = None" using Binary by (cases f) simp_all
  then show ?thesis using Binary by simp
qed simp_all

lemma cancel_tame: "all_tame env es \<Longrightarrow> cancel_from es i = es"
proof (induction es i rule: cancel_from.induct)
  case (1 es i)
  show ?case
  proof (cases "length es \<le> i")
    case False
    then have "tame env (es ! i)" using 1 by simp
    then have "opposite_of es i = None"
      by (auto simp: opposite_of_def split: expr.split unary_op.split)
    then show ?thesis using False 1 by simp
  qed simp
qed

declare cancel_from.simps [simp del]

lemma all_tame_fold_constants: "all_tame env es \<Longrightarrow> all_tame env (fold_constants es f)"
  by (auto simp: fold_constants_form split: list.split)

lemma all_tame_flatten: "all_tame env es \<Longrightarrow> all_tame env (flatten es g)"
  by (induction es) (auto split: expr.splits if_splits)

lemma canon_serve: "canon fl c = serve (canon fl) fl c"
  by (rule ext) (rule canon.simps)

lemma additive_sum_ends:
  assumes "all_tame env es" "sums.heft es \<le> Suc n" "2 \<le> n"
  shows "settles (additive_sum real_ops es) (good env (sums.value_of env es) n)"
  using assms sums.finish_ends [where env = env and es = "sort es" and n = n]
  by (simp add: additive_sum_def cancel_opposites_def cancel_tame)

lemma sum_terms_ends:
  assumes "all_tame env es" "sums.heft es \<le> Suc n" "2 \<le> n"
  shows "settles (build_sum_terms go real_ops builder es) (good env (sums.value_of env es) n)"
proof -
  let ?kept = "List.filter (\<lambda>e. \<not> is_literal real_ops 0 e) (fold_constants es (+))"
  have tame: "all_tame env (sort ?kept)" using all_tame_fold_constants [OF assms(1), of "(+)"] by auto
  then have kept: "cancel_opposites (sort ?kept) = sort ?kept"
    by (simp add: cancel_opposites_def cancel_tame)
  have "\<not> list_ex (\<lambda>e. relation_parts e \<noteq> None) (sort ?kept)"
    using tame tame_no_relation by (auto simp: list_ex_iff)
  then have "build_sum_terms go real_ops builder es = additive_sum real_ops (sort ?kept)"
    by (simp add: build_sum_terms_def Let_def kept)
  moreover have "sums.heft (sort ?kept) \<le> Suc n"
    using sums.heft_filter sums.heft_fold_constants [of es] assms(2) unfolding sums.heft_simps
    by (meson le_trans)
  ultimately show ?thesis using additive_sum_ends [OF tame _ assms(3)] by simp
qed

lemma each_answer: "(\<And>x. x \<in> set xs \<Longrightarrow> f x = answer x) \<Longrightarrow> each f xs = answer xs"
  by (induction xs) (auto simp: and_then_def answer_def)

lemma answer_then [simp]: "and_then (answer a) k = k a"
  by (simp add: and_then_def answer_def)

lemma canon_sum_ends:
  assumes "all_tame env es" "sums.heft es \<le> Suc n" "2 \<le> n"
  shows "settles (canon real_ops (Build_sum es)) (good env (sums.value_of env es) n)"
proof -
  have "each (\<lambda>e. case e of Unary Un_Neg magnitude \<Rightarrow>
        if is_sum_or_product magnitude then canon real_ops (Negate magnitude) else answer e
      | _ \<Rightarrow> answer e) es = answer es"
    using assms(1) by (intro each_answer) (auto split: expr.split unary_op.split)
  then show ?thesis
    using sum_terms_ends [OF all_tame_flatten [OF assms(1), of Bin_Add], where go = "canon real_ops" and
        n = n] assms(2,3)
    by (simp add: canon_serve [of _ "Build_sum es"] serve_def build_sum_def)
qed

lemma zero_factor: "Constant 0 \<in> set es \<Longrightarrow> products.value_of env es = 0"
  by (induction es) auto

lemma canon_product_ends:
  assumes "all_tame env es" "es \<noteq> []" "products.heft es \<le> n"
  shows "settles (canon real_ops (Build_product es)) (good env (products.value_of env es) n)"
  using assms
proof (induction n arbitrary: es rule: less_induct)
  case (less n)
  let ?folded = "fold_constants (flatten es Bin_Mul) (*)"
  let ?kept = "List.filter (\<lambda>e. \<not> is_literal real_ops 1 e) ?folded"
  have tame: "all_tame env ?folded"
    using all_tame_fold_constants [OF all_tame_flatten [OF less.prems(1)]] .
  have heft: "products.heft ?kept \<le> n"
    using products.heft_filter products.heft_fold_constants [of "flatten es Bin_Mul"] less.prems(3)
    unfolding products.heft_flatten by (meson le_trans)
  obtain e rest where "es = e # rest" using less.prems(2) by (cases es) auto
  then have "weight e \<le> products.heft es"
    using products.heft_pos [of rest] products.grows [of "products.heft rest" "weight e"]
    by (cases "rest = []") simp_all
  then have "2 \<le> n" using less.prems(3) two_le_weight [of e] by linarith
  have vals: "products.value_of env ?folded = products.value_of env es"
    "products.value_of env ?kept = products.value_of env es" by simp_all
  show ?case
  proof (cases "list_ex (is_literal real_ops 0) ?folded")
    case True
    then obtain e where "e \<in> set ?folded" "is_literal real_ops 0 e" by (auto simp: list_ex_iff)
    then have "Constant 0 \<in> set ?folded" by (auto simp: is_literal_def split: expr.splits)
    then have "products.value_of env ?folded = 0"
      by (rule zero_factor)
    then show ?thesis using True \<open>2 \<le> n\<close> vals(1)
      by (simp add: canon_serve [of _ "Build_product es"] serve_def build_product_def Let_def
          ends_spend_on good_def)
  next
    case False
    show ?thesis
    proof (cases "find_pos is_sum ?kept")
      case None
      then have "canon real_ops (Build_product es) = finish (sort ?kept) Bin_Mul 1"
        using False by (simp add: canon_serve [of _ "Build_product es"] serve_def build_product_def Let_def
            del: find_pos_None)
      then show ?thesis
        using products.finish_ends [where env = env and es = "sort ?kept" and n = n] tame heft \<open>2 \<le> n\<close> vals(2) by simp
    next
      case (Some i)
      then have i: "i < length ?kept" "is_sum (?kept ! i)" by (simp_all add: find_pos_Some)
      then obtain l r where lr: "?kept ! i = Binary Bin_Add l r"
        by (auto simp: is_sum_def split: expr.splits binary_op.splits)
      have "tame env (?kept ! i)" using tame i(1) nth_mem by fastforce
      then have tame_lr: "tame env l" "tame env r" unfolding lr by simp_all
      let ?rest = "remove_at i ?kept"
      let ?X = "products.heft ?rest"
      have rest: "all_tame env ?rest"
        using tame by (auto simp: remove_at_def dest: in_set_takeD in_set_dropD)
      have X: "?X * (weight l + weight r + 1) \<le> n"
        using products.heft_remove_at [OF i(1)] heft lr
        by (simp add: mult.commute)
      have "0 < ?X" using products.heft_pos [of ?rest] by (cases "?rest = []") simp_all
      then have less: "?X * weight l < n" "?X * weight r < n" "?X * weight l + ?X * weight r + 1 \<le> n"
        using X by (auto simp: algebra_simps)
      have step: "settles (canon real_ops (Build_product (?rest @ [e])))
          (good env (products.value_of env ?rest * real_value env e) (?X * weight e))"
        if "e = l \<or> e = r" for e
        using less.IH [of "?X * weight e" "?rest @ [e]"] that rest tame_lr less by auto
      let ?v = "products.value_of env ?rest"
      have "?v * real_value env l + ?v * real_value env r = products.value_of env ?kept"
        using products.v.total_remove_at [OF i(1), of "real_value env"] lr by (simp add: algebra_simps)
      then have sum: "settles (canon real_ops (Build_sum [a, b])) (good env (products.value_of env es) n)"
        if "good env (?v * real_value env l) (?X * weight l) a" "good env (?v * real_value env r) (?X * weight r) b"
        for a b
        using that canon_sum_ends [where env = env and es = "[a, b]" and n = n] less(3) \<open>2 \<le> n\<close> vals(2)
        by (simp add: good_def)
      have "canon real_ops (Build_product es) = distribute_product (canon real_ops) ?kept i"
        using False Some by (simp add: canon_serve [of _ "Build_product es"] serve_def build_product_def Let_def)
      moreover have "settles (distribute_product (canon real_ops) ?kept i) (good env (products.value_of env es) n)"
        unfolding distribute_product_def lr
        by (auto intro!: ends_and_then [OF step] ends_answer sum simp: and_then_assoc)
      ultimately show ?thesis by simp
    qed
  qed
qed

section \<open>Building\<close>

lemma canon_build: "canon fl (Build e) = build (canon fl) fl e"
  by (simp add: canon_serve [of fl "Build e"] serve_def)

lemma canon_unary: "canon fl (Build_unary f a) = canon fl (Build (Unary f a))"
  by (simp add: canon_serve [of fl "Build_unary f a"] canon_build serve_def build_def)

text \<open>The statement the recursion proves of each smaller expression.\<close>

definition built :: "(variable \<Rightarrow> real) \<Rightarrow> real expr \<Rightarrow> bool" where
  "built env e \<longleftrightarrow> settles (canon real_ops (Build e)) (good env (real_value env e) (weight e))"

lemma fold_constant_real:
  "fold_constant real_ops f e = Some c \<Longrightarrow> \<exists>d. e = Constant d \<and> c = unary_value real_ops f d"
  by (cases e) (auto simp: Let_def split: if_splits)

lemma weight_unary_mono: "weight a \<le> weight b \<Longrightarrow> weight (Unary f a) \<le> weight (Unary f b)"
  by (auto intro: power_increasing)

lemma weight_undone: "undone f a = Some inner \<Longrightarrow> weight inner < weight (Unary f a)"
proof (induction f a rule: undone.induct)
  case (1 a)
  have "weight a < 2 ^ Suc (weight a)" using less_exp [of "Suc (weight a)"] by linarith
  then show ?case using 1 by simp
next
  case (2 a)
  then show ?case using less_exp [of "weight a"] by (simp add: less_Suc_eq)
qed auto

lemma undone_value:
  "tame env (Unary f a) \<Longrightarrow> undone f a = Some inner \<Longrightarrow>
     tame env inner \<and> real_value env inner = real_value env (Unary f a)"
  by (induction f a rule: undone.induct) auto

lemma exponent_ends:
  assumes small: "\<And>x. weight x < 2 ^ n \<Longrightarrow> tame env x \<Longrightarrow> built env x"
    and a: "good env y n a" "is_sum a"
  shows "settles (exponent_product (canon real_ops) a) (good env (exp y) (2 ^ n))"
proof -
  obtain l r where lr: "a = Binary Bin_Add l r"
    using a(2) by (auto simp: is_sum_def split: expr.splits binary_op.splits)
  then have facts: "tame env l" "tame env r" "y = real_value env l + real_value env r"
    "weight l + weight r + 1 \<le> n" using a(1) by (auto simp: good_def)
  have less: "(2 :: nat) ^ weight l < 2 ^ n" "(2 :: nat) ^ weight r < 2 ^ n"
    using facts(4) by (auto intro: power_strict_increasing)
  have step: "settles (canon real_ops (Build_unary Un_Exp x)) (good env (exp (real_value env x)) (2 ^ weight x))"
    if "x = l \<or> x = r" for x
    using small [of "Unary Un_Exp x"] that less facts(1,2) unfolding built_def canon_unary by auto
  have "(2 :: nat) ^ weight l * 2 ^ weight r \<le> 2 ^ n"
    using facts(4) by (auto simp flip: power_add intro: power_increasing)
  then have product: "settles (canon real_ops (Build_product [x, x'])) (good env (exp y) (2 ^ n))"
    if "good env (exp (real_value env l)) (2 ^ weight l) x" "good env (exp (real_value env r)) (2 ^ weight r) x'"
    for x x'
    using that canon_product_ends [where env = env and es = "[x, x']" and n = "2 ^ n"]
      mult_le_mono [of "weight x" "2 ^ weight l" "weight x'" "2 ^ weight r"]
    by (simp add: good_def facts(3) exp_add)
  show ?thesis unfolding exponent_product_def lr by (auto intro!: ends_and_then [OF step] product)
qed

lemma build_unary_ends:
  assumes small: "\<And>x. weight x < weight (Unary f a) \<Longrightarrow> tame env x \<Longrightarrow> built env x"
    and tame: "tame env (Unary f a)"
  shows "built env (Unary f a)"
proof (cases "undone f a")
  case (Some inner)
  then have "built env inner" using small weight_undone undone_value [OF tame] by blast
  then have "settles (canon real_ops (Build inner)) (good env (real_value env (Unary f a)) (weight (Unary f a)))"
    using weight_undone [OF Some] undone_value [OF tame Some] unfolding built_def
    by (elim ends_mono) (simp add: good_def del: weight.simps real_value.simps)
  then show ?thesis unfolding built_def by (simp add: canon_build [of _ "Unary f a"] build_def build_unary_def Some)
next
  case None
  have "weight a < weight (Unary f a)" using less_exp [of "weight a"] by simp
  then have a: "settles (canon real_ops (Build a)) (good env (real_value env a) (weight a))"
    using small tame unfolding built_def by simp
  let ?k = "\<lambda>b. case fold_constant real_ops f b of Some c \<Rightarrow> spend_on (Constant c)
      | None \<Rightarrow> if f = Un_Exp \<and> is_sum b then exponent_product (canon real_ops) b
          else if f = Un_Neg \<and> is_sum_or_product b then negate (canon real_ops) real_ops b
          else spend_on (Unary f b)"
  have "settles (?k b) (good env (real_value env (Unary f a)) (weight (Unary f a)))"
    if b: "good env (real_value env a) (weight a) b" for b
  proof (cases "fold_constant real_ops f b")
    case (Some c)
    then have "c = real_value env (Unary f a)" using fold_constant_real [OF Some] b by (auto simp: good_def)
    then show ?thesis using Some two_le_weight [of "Unary f a"]
      by (auto simp: good_def intro!: ends_spend_on simp del: weight.simps(3))
  next
    case None
    have "settles (exponent_product (canon real_ops) b) (good env (exp (real_value env a)) (2 ^ weight a))"
      if "f = Un_Exp" "is_sum b"
      using exponent_ends [OF _ b that(2)] small that(1) by simp
    moreover have "good env (real_value env (Unary f a)) (weight (Unary f a)) (Unary f b)"
      using b tame weight_unary_mono [of b a f] unfolding good_def by (simp del: weight.simps)
    moreover have "f \<noteq> Un_Neg" using tame by simp
    ultimately show ?thesis using None by (auto intro: ends_spend_on)
  qed
  moreover have "canon real_ops (Build (Unary f a)) = and_then (canon real_ops (Build a)) ?k"
    by (simp add: canon_build [of _ "Unary f a"] build_def build_unary_def None)
  ultimately show ?thesis unfolding built_def using ends_and_then [OF a, of ?k] by (simp only:)
qed

lemma holds_mirrored:
  "binary_value real_ops (mirrored f) b a = binary_value real_ops f a b" if "f \<notin> {Bin_Sub, Bin_Div}"
  using that by (cases f) (auto simp: add.commute mult.commute max.commute min.commute eq_commute [of b a])

definition is_comparison_op :: "binary_op \<Rightarrow> bool" where
  "is_comparison_op f \<longleftrightarrow> f \<notin> {Bin_Add, Bin_Sub, Bin_Mul, Bin_Div, Bin_Max, Bin_Min}"

lemma comparison_value:
  "is_comparison_op f \<Longrightarrow> binary_value real_ops f a b = compare_literals real_ops f a b"
  by (cases f) (simp_all add: is_comparison_op_def compare_literals_def)

lemma comparison_equal:
  "is_comparison_op f \<Longrightarrow> compare_literals real_ops f a a = compare_literals real_ops f 0 0"
  by (cases f) (simp_all add: is_comparison_op_def compare_literals_def)

lemma mirrored_comparison: "is_comparison_op f \<Longrightarrow> is_comparison_op (mirrored f)"
  by (cases f) (simp_all add: is_comparison_op_def)

lemma canonical_comparison_good:
  assumes "canonical_comparison f l r = (g, a, b)" "is_comparison_op f" "tame env l" "tame env r"
  shows "is_comparison_op g \<and> tame env a \<and> tame env b \<and> weight a + weight b = weight l + weight r \<and>
    binary_value real_ops g (real_value env a) (real_value env b) =
    binary_value real_ops f (real_value env l) (real_value env r)"
proof (cases "expr_cmp l r = Greater")
  case True
  then have "g = mirrored f" "a = r" "b = l" using assms(1) by (simp_all add: canonical_comparison_def)
  moreover have "binary_value real_ops (mirrored f) (real_value env r) (real_value env l) =
      binary_value real_ops f (real_value env l) (real_value env r)"
    using assms(2) by (intro holds_mirrored) (auto simp: is_comparison_op_def)
  ultimately show ?thesis using mirrored_comparison assms by simp
qed (use assms in \<open>simp add: canonical_comparison_def\<close>)

lemma comparison_ends:
  assumes f: "is_comparison_op f"
    and l: "settles (canon real_ops (Build l)) (good env x m)"
    and r: "settles (canon real_ops (Build r)) (good env y n)"
  shows "settles (build_comparison (canon real_ops) real_ops f l r)
    (good env (binary_value real_ops f x y) (max 2 (m + n)))"
  unfolding build_comparison_def
proof (rule ends_and_then [OF l], rule ends_and_then [OF r])
  fix a b assume a: "good env x m a" and b: "good env y n b"
  obtain g a' b' where c: "canonical_comparison f a b = (g, a', b')" by (cases "canonical_comparison f a b")
  let ?v = "binary_value real_ops f x y"
  have c': "is_comparison_op g" "tame env a'" "tame env b'" "weight a' + weight b' = weight a + weight b"
    "binary_value real_ops g (real_value env a') (real_value env b') = ?v"
    using canonical_comparison_good [OF c f, of env] a b by (auto simp: good_def)
  let ?literals = "case (as_constant a', as_constant b') of
      (Some a, Some b) \<Rightarrow> Some (compare_literals real_ops g a b) | _ \<Rightarrow> None"
  let ?folded = "case ?literals of Some c \<Rightarrow> Some c
      | None \<Rightarrow> if a' = b' then Some (compare_literals real_ops g 0 0) else None"
  have v: "?v = compare_literals real_ops g (real_value env a') (real_value env b')"
    using c'(5) comparison_value [OF c'(1)] by simp
  have literals: "d = ?v" if "?literals = Some d" for d
    using that v by (cases a'; cases b') simp_all
  have folded: "d = ?v" if "?folded = Some d" for d
  proof (cases ?literals)
    case None
    then have "a' = b'" "d = compare_literals real_ops g 0 0" using that by (simp_all split: if_splits)
    then show ?thesis using v comparison_equal [OF c'(1), of "real_value env b'"] by simp
  next
    case (Some e)
    then show ?thesis using that literals by simp
  qed
  have "good env ?v (max 2 (m + n)) (Constant d)" if "?folded = Some d" for d
    using folded [OF that] by (simp add: good_def)
  moreover have "good env ?v (max 2 (m + n)) (Binary g a' b')"
    using c' a b by (auto simp: good_def is_comparison_op_def)
  ultimately show "settles (case canonical_comparison f a b of (f, left, right) \<Rightarrow>
       let literals = (case (as_constant left, as_constant right) of
           (Some a, Some b) \<Rightarrow> Some (compare_literals real_ops f a b) | _ \<Rightarrow> None)
       in case (case literals of Some c \<Rightarrow> Some c
                | None \<Rightarrow> if left = right
                    then Some (compare_literals real_ops f (n_zero real_ops) (n_zero real_ops)) else None) of
            Some c \<Rightarrow> spend_on (Constant c)
          | None \<Rightarrow> spend_on (Binary f left right))
     (good env ?v (max 2 (m + n)))"
    unfolding c Let_def prod.case real_ops_simps(19)
    by (cases ?folded) (auto intro: ends_spend_on simp del: real_ops_simps)
qed

lemma quotient_value:
  "quotient_literal real_ops a b = Some c \<Longrightarrow> c = real_value env a / real_value env b"
  by (cases a; cases b) (auto simp: quotient_literal_def infinity_of_def split: if_splits)

lemma build_binary_ends:
  assumes small: "\<And>x. weight x < weight (Binary f l r) \<Longrightarrow> tame env x \<Longrightarrow> built env x"
    and tame: "tame env (Binary f l r)"
  shows "built env (Binary f l r)"
proof -
  have "1 * weight l < weight r * weight l" "1 * weight r < weight l * weight r"
    using two_le_weight [of l] two_le_weight [of r] by (intro mult_strict_right_mono; simp)+
  then have "weight l < weight (Binary f l r)" "weight r < weight (Binary f l r)"
    by (auto simp: mult.commute)
  then have l: "settles (canon real_ops (Build l)) (good env (real_value env l) (weight l))"
    and r: "settles (canon real_ops (Build r)) (good env (real_value env r) (weight r))"
    using small tame unfolding built_def by auto
  let ?v = "real_value env (Binary f l r)" and ?w = "weight (Binary f l r)"
  have two: "2 \<le> ?w" by (rule two_le_weight)
  consider "f = Bin_Add" | "f = Bin_Mul" | "f = Bin_Div" | "is_comparison_op f"
    using tame by (auto simp: is_comparison_op_def)
  then have "settles (build_binary (canon real_ops) real_ops f l r) (good env ?v ?w)"
  proof cases
    case 1
    have "settles (canon real_ops (Build_sum [a, b])) (good env ?v ?w)"
      if "good env (real_value env l) (weight l) a" "good env (real_value env r) (weight r) b" for a b
      using that canon_sum_ends [where env = env and es = "[a, b]" and n = ?w] 1 two by (auto simp: good_def)
    then show ?thesis unfolding build_binary_def 1
      by (auto intro!: ends_and_then [OF l] ends_and_then [OF r])
  next
    case 2
    have "settles (canon real_ops (Build_product [a, b])) (good env ?v ?w)"
      if "good env (real_value env l) (weight l) a" "good env (real_value env r) (weight r) b" for a b
      using that canon_product_ends [where env = env and es = "[a, b]" and n = ?w] 2
      by (auto simp: good_def mult_le_mono)
    then show ?thesis unfolding build_binary_def 2
      by (auto intro!: ends_and_then [OF l] ends_and_then [OF r])
  next
    case 3
    have "good env ?v ?w (case quotient_literal real_ops a b of None \<Rightarrow> Binary f a b | Some c \<Rightarrow> Constant c)"
      if "good env (real_value env l) (weight l) a" "good env (real_value env r) (weight r) b" for a b
      using that quotient_value [of a b _ env] two 3 by (auto simp: good_def split: option.split)
    then show ?thesis unfolding build_binary_def 3
      by (auto intro!: ends_and_then [OF l] ends_and_then [OF r] ends_spend_on)
  next
    case 4
    then have "build_binary (canon real_ops) real_ops f l r = build_comparison (canon real_ops) real_ops f l r"
      "?w = max 2 (weight l + weight r)"
      using two by (cases f; simp add: build_binary_def is_comparison_op_def)+
    then show ?thesis using comparison_ends [OF 4 l r] by simp
  qed
  then show ?thesis unfolding built_def by (simp add: canon_build [of _ "Binary f l r"] build_def)
qed

lemma tame_built: "tame env e \<Longrightarrow> built env e"
proof (induction "weight e" arbitrary: e rule: less_induct)
  case less
  show ?case
  proof (cases e)
    case (Unary f a)
    then show ?thesis using build_unary_ends [of f a env] less by blast
  next
    case (Binary f a b)
    then show ?thesis using build_binary_ends [of f a b env] less by blast
  qed (simp_all add: built_def canon_build build_def ends_answer good_def)
qed

text \<open>
  C10: on an expression without negation, subtraction, maximum or minimum, and no logarithm outside
  its domain, the canonicalizer ends, and a form it answers has the value of the expression.
\<close>

theorem normalize_keeps_value:
  assumes "tame env e"
  shows "case normalize real_ops e of
      None \<Rightarrow> False
    | Some None \<Rightarrow> True
    | Some (Some e') \<Rightarrow> evaluate real_ops e' (Some \<circ> env) = evaluate real_ops e (Some \<circ> env)"
proof -
  have "settles (canon real_ops (Build e)) (good env (real_value env e) (weight e))"
    using tame_built [OF assms] by (simp add: built_def)
  then show ?thesis
    unfolding settles_def normalize_def evaluate_real
    by (auto simp: good_def split: option.splits dest!: spec [of _ NORMALIZATION_BUDGET])
qed

text \<open>A product of sums under an exponential, with a quotient and a comparison.\<close>

definition mixed_expr :: "real expr" where
  "mixed_expr = Binary Bin_Mul (Binary Bin_Add (Variable DATUM) (Variable PRODUCER))
     (Unary Un_Exp (Binary Bin_Add (Variable PRODUCER) (Binary Less_than (Variable DATUM) (Variable BIAS))))"

theorem normalize_keeps_value_witness:
  "case normalize real_ops mixed_expr of
      None \<Rightarrow> False
    | Some None \<Rightarrow> True
    | Some (Some e) \<Rightarrow> evaluate real_ops e (Some \<circ> (\<lambda>_. 2)) = Some (4 * exp 2)"
proof -
  have "tame (\<lambda>_. 2) mixed_expr" by (simp add: mixed_expr_def)
  moreover have "evaluate real_ops mixed_expr (Some \<circ> (\<lambda>_. 2)) = Some (4 * exp 2)"
    by (simp add: evaluate_real mixed_expr_def bool_value_def)
  ultimately show ?thesis using normalize_keeps_value [of "\<lambda>_. 2" mixed_expr]
    by (auto split: option.split option.split_asm)
qed

section \<open>Where a canonical form changes the value\<close>

declare canon.simps [code]

text \<open>
  C40: the negation of a product negates both factors, so subtracting a product adds it: the
  canonical form of \<open>x - y * z\<close> has the value of \<open>x + y * z\<close>.
\<close>

theorem negated_product_keeps_sign:
  "normalize fl (Binary Bin_Sub (Variable ''x'') (Binary Bin_Mul (Variable ''y'') (Variable ''z''))) =
     Some (Some (Binary Bin_Add (Variable ''x'')
       (Binary Bin_Mul (Unary Un_Neg (Variable ''y'')) (Unary Un_Neg (Variable ''z'')))) :: real expr option) \<and>
   real_value env (Binary Bin_Add (Variable ''x'')
       (Binary Bin_Mul (Unary Un_Neg (Variable ''y'')) (Unary Un_Neg (Variable ''z'')))) =
     env ''x'' + env ''y'' * env ''z''"
proof -
  have "normalize fl (Binary Bin_Sub (Variable ''x'') (Binary Bin_Mul (Variable ''y'') (Variable ''z''))) =
     Some (Some (Binary Bin_Add (Variable ''x'')
       (Binary Bin_Mul (Unary Un_Neg (Variable ''y'')) (Unary Un_Neg (Variable ''z'')))) :: real expr option)"
    by code_simp
  then show ?thesis by simp
qed

text \<open>
  C38: cancelling an opposite removes the term at the offset of its partner instead of the partner:
  the canonical form of \<open>x - exp y + exp y\<close> is \<open>- exp y\<close>, and \<open>x\<close> is lost.
\<close>

theorem cancelled_pair_takes_another_term:
  "normalize fl (Binary Bin_Add (Binary Bin_Add (Variable ''x'') (Unary Un_Neg (Unary Un_Exp (Variable ''y''))))
     (Unary Un_Exp (Variable ''y''))) =
     Some (Some (Unary Un_Neg (Unary Un_Exp (Variable ''y''))) :: real expr option) \<and>
   real_value env (Binary Bin_Add
     (Binary Bin_Add (Variable ''x'') (Unary Un_Neg (Unary Un_Exp (Variable ''y''))))
     (Unary Un_Exp (Variable ''y''))) = env ''x''"
proof -
  have "normalize fl (Binary Bin_Add (Binary Bin_Add (Variable ''x'')
       (Unary Un_Neg (Unary Un_Exp (Variable ''y'')))) (Unary Un_Exp (Variable ''y''))) =
     Some (Some (Unary Un_Neg (Unary Un_Exp (Variable ''y''))) :: real expr option)"
    by code_simp
  then show ?thesis by simp
qed

text \<open>Arithmetic on integers; the functions it cannot have are arguments.\<close>

definition int_ops :: "(int \<Rightarrow> int) \<Rightarrow> int num_ops" where
  "int_ops f = \<lparr>n_add = (+), n_sub = (-), n_mul = (*), n_div = (div), n_max = max, n_min = min,
     n_neg = uminus, n_exp = f, n_ln = f, n_sqrt = f, n_sin = f, n_cos = f,
     n_lt = (<), n_le = (\<le>), n_eq = (=), n_finite = \<lambda>_. True, n_nan = \<lambda>_. False,
     n_positive = \<lambda>x. 0 \<le> x, n_zero = 0, n_one = 1, n_infinity = 0, n_neg_infinity = 0\<rparr>"

text \<open>
  C39: a maximum inside a sum loses its zero operands: the canonical form of \<open>max(0, y) + 0\<close> is \<open>y\<close>,
  which differs from it wherever \<open>y\<close> is negative.
\<close>

theorem relation_loses_zero:
  "normalize (int_ops f) (Binary Bin_Add (Binary Bin_Max (Constant 0) (Variable ''y'')) (Constant 0)) =
     Some (Some (Variable ''y'')) \<and>
   evaluate (int_ops f) (Binary Bin_Add (Binary Bin_Max (Constant 0) (Variable ''y'')) (Constant 0))
     [''y'' \<mapsto> -1] = Some 0 \<and>
   evaluate (int_ops f) (Variable ''y'') [''y'' \<mapsto> -1] = Some (-1)"
proof -
  have "normalize (int_ops f) (Binary Bin_Add (Binary Bin_Max (Constant 0) (Variable ''y'')) (Constant 0)) =
      Some (Some (Variable ''y''))" by code_simp
  then show ?thesis by (simp add: int_ops_def)
qed

end
