(* ===== verification/Fusion_Derive.thy ===== *)
theory Fusion_Derive
  imports Fusion_Invert Fusion_Normal_Sound
begin

text \<open>
  The derivation of a fused rolling update (\<open>lichen-fusion/src/repair.rs\<close>): the repair function,
  whichever way it came, the distributivity check and the emitted loop body.
\<close>

section \<open>Repair functions\<close>

record 'c reduction =
  rd_combine :: binary_op
  rd_identity :: 'c

record 'c repair_function =
  rf_body :: "'c expr"

record 'c assignment =
  as_target :: variable
  as_value :: "'c expr"

datatype 'c origin = Derived "'c abstraction" "'c expr" | Hand_specified

record 'c fused_reduction =
  fr_producer :: "'c reduction"
  fr_consumer :: "'c reduction"
  fr_origin :: "'c origin"
  fr_repair :: "'c repair_function"
  fr_steps :: "'c assignment list"

definition SECOND_REPAIR_ARGUMENT :: variable where
  "SECOND_REPAIR_ARGUMENT = ''y''"

text \<open>A canonical form, or the refusal of the budget; a run that does not end is a panic here.\<close>

definition canonicalize ::
  "'c :: linorder num_ops \<Rightarrow> 'c expr \<Rightarrow> ('c expr, 'c fusion_refusal) res" where
  "canonicalize fl e = expect_some (normalize fl e) (\<lambda>form. case form of
      None \<Rightarrow> Err (Normalization_budget_exceeded NORMALIZATION_BUDGET) | Some e \<Rightarrow> Ok e)"

definition repair_new ::
  "'c :: linorder num_ops \<Rightarrow> 'c expr \<Rightarrow> ('c repair_function, 'c fusion_refusal) res" where
  "repair_new fl body =
     (let outside = List.filter (\<lambda>v. v \<notin> {REPAIR_ARGUMENT, PRODUCER, PRODUCER_NEXT})
        (sorted_list_of_set (expr_variables body))
      in if outside = [] then res_bind (canonicalize fl body) (\<lambda>body. Ok \<lparr>rf_body = body\<rparr>)
         else Err (Repair_outside_its_slots outside))"

definition repair_apply ::
  "'c repair_function \<Rightarrow> 'c expr \<Rightarrow> 'c expr \<Rightarrow> 'c expr \<Rightarrow> 'c expr" where
  "repair_apply h x previous_producer next_producer =
     substitute_all (rf_body h)
       [(REPAIR_ARGUMENT, x), (PRODUCER, previous_producer), (PRODUCER_NEXT, next_producer)]"

definition distributivity_sides ::
  "'c repair_function \<Rightarrow> binary_op \<Rightarrow> 'c expr \<times> 'c expr" where
  "distributivity_sides h combine =
     (let left = Variable REPAIR_ARGUMENT; right = Variable SECOND_REPAIR_ARGUMENT;
          repaired = (\<lambda>x. repair_apply h x (Variable PRODUCER) (Variable PRODUCER_NEXT))
      in (repaired (Binary combine left right), Binary combine (repaired left) (repaired right)))"

definition distributivity ::
  "'c :: linorder num_ops \<Rightarrow> 'c repair_function \<Rightarrow> binary_op \<Rightarrow> (unit, 'c fusion_refusal) res" where
  "distributivity fl h combine =
     (case distributivity_sides h combine of (combined, apart) \<Rightarrow>
      res_bind (canonicalize fl combined) (\<lambda>combined.
      res_bind (canonicalize fl apart) (\<lambda>apart.
        if combined = apart then Ok () else Err (Not_distributive (rf_body h) combine))))"

definition emit ::
  "'c :: linorder num_ops \<Rightarrow> 'c reduction \<Rightarrow> 'c reduction \<Rightarrow> 'c repair_function \<Rightarrow> 'c expr \<Rightarrow>
   ('c assignment list, 'c fusion_refusal) res" where
  "emit fl producer consumer h element_function =
     res_bind (distributivity fl h (rd_combine consumer)) (\<lambda>_.
     let producer_value = Variable PRODUCER; next_producer = Variable PRODUCER_NEXT;
         element_at_next = substitute_all element_function [(PRODUCER, next_producer)]
     in res_bind (canonicalize fl (Binary (rd_combine producer) producer_value (Variable DATUM)))
       (\<lambda>producer_step.
     res_bind (canonicalize fl (Binary (rd_combine consumer)
         (repair_apply h (Variable CONSUMER_STATE) producer_value next_producer) element_at_next))
       (\<lambda>consumer_step.
     Ok [\<lparr>as_target = PRODUCER_NEXT, as_value = producer_step\<rparr>,
         \<lparr>as_target = CONSUMER_NEXT, as_value = consumer_step\<rparr>])))"

text \<open>The body of a derived repair: the template at the next producer, its parameter the solution.\<close>

definition repair_body :: "'c abstraction \<Rightarrow> 'c expr \<Rightarrow> 'c expr" where
  "repair_body ab solution =
     substitute_all (ab_template ab) [(PARAMETER, solution), (PRODUCER, Variable PRODUCER_NEXT)]"

definition invert_template :: "'c abstraction \<Rightarrow> ('c expr, 'c fusion_refusal) res" where
  "invert_template ab =
     (case invert (ab_template ab) (Variable PARAMETER) REPAIR_ARGUMENT of
        Ok solution \<Rightarrow> Ok solution
      | Err cause \<Rightarrow> Err (Not_invertible (ab_template ab) cause)
      | Panic \<Rightarrow> Panic)"

definition derive ::
  "'c :: linorder num_ops \<Rightarrow> 'c reduction \<Rightarrow> 'c expr \<Rightarrow> 'c reduction \<Rightarrow>
   ('c fused_reduction, 'c fusion_refusal) res" where
  "derive fl producer element_function consumer =
     res_bind (abstract_element_function element_function PRODUCER) (\<lambda>ab.
     res_bind (invert_template ab) (\<lambda>solution.
     res_bind (repair_new fl (repair_body ab solution)) (\<lambda>h.
     res_bind (emit fl producer consumer h element_function) (\<lambda>steps.
     Ok \<lparr>fr_producer = producer, fr_consumer = consumer, fr_origin = Derived ab solution,
       fr_repair = h, fr_steps = steps\<rparr>))))"

definition derive_with_repair ::
  "'c :: linorder num_ops \<Rightarrow> 'c reduction \<Rightarrow> 'c expr \<Rightarrow> 'c reduction \<Rightarrow> 'c expr \<Rightarrow>
   ('c fused_reduction, 'c fusion_refusal) res" where
  "derive_with_repair fl producer element_function consumer body =
     res_bind (repair_new fl body) (\<lambda>h.
     res_bind (emit fl producer consumer h element_function) (\<lambda>steps.
     Ok \<lparr>fr_producer = producer, fr_consumer = consumer, fr_origin = Hand_specified,
       fr_repair = h, fr_steps = steps\<rparr>))"

section \<open>The repair of a derived fusion\<close>

lemma finite_expr_variables [simp]: "finite (expr_variables e)"
  by (induction e) simp_all

lemma repair_new_slots:
  "repair_new fl body = Ok h \<Longrightarrow> expr_variables body \<subseteq> {REPAIR_ARGUMENT, PRODUCER, PRODUCER_NEXT}"
  by (auto simp: repair_new_def Let_def filter_empty_conv split: if_splits)

lemma variables_substitute:
  "c \<in> expr_variables e \<Longrightarrow> bindings c = Some b \<Longrightarrow> expr_variables b \<subseteq> expr_variables (substitute e bindings)"
  by (induction e) auto

lemma derive_Ok:
  assumes "derive fl producer g consumer = Ok fused"
  obtains ab solution where "abstract_element_function g PRODUCER = Ok ab"
    "invert (ab_template ab) (Variable PARAMETER) REPAIR_ARGUMENT = Ok solution"
    "repair_new fl (repair_body ab solution) = Ok (fr_repair fused)"
    "fr_origin fused = Derived ab solution"
proof -
  obtain ab solution h where "abstract_element_function g PRODUCER = Ok ab"
    "invert_template ab = Ok solution" "repair_new fl (repair_body ab solution) = Ok h"
    "fr_repair fused = h" "fr_origin fused = Derived ab solution"
    using assms by (auto simp: derive_def)
  then show thesis using that by (auto simp: invert_template_def split: res.splits)
qed

text \<open>
  the repair of an accepted derivation repairs an element: at the value the element function
  takes at one producer value, the body before canonicalization evaluates to its value at the next,
  wherever the inversion loses nothing.
\<close>

theorem derived_repair_repairs:
  assumes "derive real_ops producer g consumer = Ok fused" "fr_origin fused = Derived ab solution"
    "expr_variables g \<inter> {PARAMETER, REPAIR_ARGUMENT, PRODUCER_NEXT} = {}"
    "evaluate real_ops (ab_source ab) env = Some s"
    "recoverable PARAMETER (env(PARAMETER \<mapsto> s)) (ab_template ab)"
    "evaluate real_ops g env = Some y"
  shows "evaluate real_ops (repair_body ab solution) (env(REPAIR_ARGUMENT \<mapsto> y)) =
    evaluate real_ops g (env(PRODUCER := env PRODUCER_NEXT))"
proof -
  from assms(1) obtain ab' solution' where ab: "abstract_element_function g PRODUCER = Ok ab"
    and solution: "invert (ab_template ab) (Variable PARAMETER) REPAIR_ARGUMENT = Ok solution"
    and new: "repair_new real_ops (repair_body ab solution) = Ok (fr_repair fused)"
    using assms(2) by (elim derive_Ok) auto
  let ?t = "ab_template ab" and ?env = "env(REPAIR_ARGUMENT \<mapsto> y)"
  obtain source where t: "?t = replace_once g source (Variable PARAMETER)" "ab_source ab = source"
    and collected: "source \<in> set (collect_producer_free g PRODUCER)"
    using ab by (auto simp: abstract_element_function_def outermost_producer_free_def Let_def
        dest: nth_opt_in_set simp del: nth_opt_Some split: if_splits option.splits)
  then have "PRODUCER \<notin> expr_variables source"
    using producer_free_collected by (auto simp flip: occurrences_variable_none)
  have g: "g = substitute ?t [PARAMETER \<mapsto> source]"
    using substitute_replaced [of PARAMETER g source] assms(3) t(1) by simp
  have parted: "evaluate real_ops g \<rho> = evaluate real_ops ?t (\<rho>(PARAMETER := evaluate real_ops source \<rho>))" for \<rho>
    by (subst g) (auto simp: evaluate_substituted intro!: arg_cong [where f = "evaluate real_ops ?t"])
  have reads: "expr_variables ?t \<subseteq> insert PARAMETER (expr_variables g)"
    "expr_variables source \<subseteq> expr_variables g"
    unfolding t(1) using replace_once_variables collected_variables [OF collected] by blast+
  have "PARAMETER \<notin> expr_variables solution"
  proof
    assume c: "PARAMETER \<in> expr_variables solution"
    have "PARAMETER \<in> expr_variables ?t"
      using solution by (simp add: invert_Ok flip: occurrences_variable)
    then have "PARAMETER \<in> expr_variables (repair_body ab solution)"
      using variables_substitute [of PARAMETER ?t "map_of (rev [(PARAMETER, solution), (PRODUCER, Variable PRODUCER_NEXT)])" solution]
        c unfolding repair_body_def substitute_all_def by (auto simp: slot_names)
    then show False using repair_new_slots [OF new] by (auto simp: slot_names)
  qed
  moreover have x: "REPAIR_ARGUMENT \<notin> expr_variables ?t" using reads assms(3) by (auto simp: slot_names)
  moreover have "evaluate real_ops ?t (env(PARAMETER \<mapsto> s)) = Some y"
    using parted [of env] assms(4,6) t(2) by simp
  ultimately have recovered: "evaluate real_ops solution ?env = Some s"
    using invert_walk_recovers [of ?t PARAMETER "Variable REPAIR_ARGUMENT" solution "env(PARAMETER \<mapsto> s)" y ?env]
      solution assms(5) by (force simp: invert_Ok)
  have "evaluate real_ops source (env(PRODUCER := env PRODUCER_NEXT)) = Some s"
    using evaluate_agree [of source "env(PRODUCER := env PRODUCER_NEXT)" env real_ops] t(2) assms(4)
      \<open>PRODUCER \<notin> expr_variables source\<close> by force
  then have "evaluate real_ops g (env(PRODUCER := env PRODUCER_NEXT)) =
      evaluate real_ops ?t (env(PRODUCER := env PRODUCER_NEXT, PARAMETER \<mapsto> s))" using parted by simp
  also have "\<dots> = evaluate real_ops ?t (?env(PARAMETER \<mapsto> s, PRODUCER := env PRODUCER_NEXT))"
    using x by (intro evaluate_agree) (auto simp: slot_names)
  also have "\<dots> = evaluate real_ops (repair_body ab solution) ?env"
    unfolding repair_body_def substituted_two using recovered by (simp add: slot_names)
  finally show ?thesis by simp
qed

section \<open>The rolling softmax\<close>

text \<open>
  The fused loop over a list of data: each assignment of the body is made in order, and the next
  values become the current ones.
\<close>

definition run_step :: "real assignment list \<Rightarrow> real \<Rightarrow> real \<times> real \<Rightarrow> (real \<times> real) option" where
  "run_step steps d = (\<lambda>(r, t). case steps of
      [first, second] \<Rightarrow>
        (let env = [DATUM \<mapsto> d, PRODUCER \<mapsto> r, CONSUMER_STATE \<mapsto> t] in
         Option.bind (evaluate real_ops (as_value first) env) (\<lambda>r'.
         map_option (Pair r') (evaluate real_ops (as_value second) (env(as_target first \<mapsto> r')))))
    | _ \<Rightarrow> None)"

definition run_fused :: "real fused_reduction \<Rightarrow> real list \<Rightarrow> (real \<times> real) option" where
  "run_fused fused ds = fold_opt (run_step (fr_steps fused)) ds
     (rd_identity (fr_producer fused), rd_identity (fr_consumer fused))"

text \<open>The sum of exponentials of the data less their maximum, from a starting maximum.\<close>

definition softmax_element :: "real expr" where
  "softmax_element = Unary Un_Exp (Binary Bin_Sub (Variable DATUM) (Variable PRODUCER))"

definition softmax_maximum :: "real \<Rightarrow> real reduction" where
  "softmax_maximum low = \<lparr>rd_combine = Bin_Max, rd_identity = low\<rparr>"

definition softmax_sum :: "real reduction" where
  "softmax_sum = \<lparr>rd_combine = Bin_Add, rd_identity = 0\<rparr>"

definition softmax_repair :: "real repair_function" where
  "softmax_repair = \<lparr>rf_body = Binary Bin_Mul (Variable REPAIR_ARGUMENT)
     (Binary Bin_Mul (Unary Un_Exp (Variable PRODUCER))
       (Unary Un_Exp (Unary Un_Neg (Variable PRODUCER_NEXT))))\<rparr>"

definition softmax_steps :: "real assignment list" where
  "softmax_steps =
     [\<lparr>as_target = PRODUCER_NEXT, as_value = Binary Bin_Max (Variable DATUM) (Variable PRODUCER)\<rparr>,
      \<lparr>as_target = CONSUMER_NEXT, as_value = Binary Bin_Add
         (Binary Bin_Mul (Variable CONSUMER_STATE) (Binary Bin_Mul (Unary Un_Exp (Variable PRODUCER))
           (Unary Un_Exp (Unary Un_Neg (Variable PRODUCER_NEXT)))))
         (Binary Bin_Mul (Unary Un_Exp (Variable DATUM))
           (Unary Un_Exp (Unary Un_Neg (Variable PRODUCER_NEXT))))\<rparr>]"

text \<open>Each stage is evaluated on its own, in any arithmetic: the trees hold no literal.\<close>

lemma softmax_stages:
  "abstract_element_function softmax_element PRODUCER = Ok \<lparr>ab_source = Variable DATUM,
     ab_template = Unary Un_Exp (Binary Bin_Sub (Variable PARAMETER) (Variable PRODUCER))\<rparr>"
  "invert_template \<lparr>ab_source = Variable DATUM,
     ab_template = Unary Un_Exp (Binary Bin_Sub (Variable PARAMETER) (Variable PRODUCER))\<rparr> =
   Ok (Binary Bin_Add (Unary Un_Ln (Variable REPAIR_ARGUMENT)) (Variable PRODUCER) :: real expr)"
  "repair_new fl (repair_body \<lparr>ab_source = Variable DATUM,
     ab_template = Unary Un_Exp (Binary Bin_Sub (Variable PARAMETER) (Variable PRODUCER))\<rparr>
     (Binary Bin_Add (Unary Un_Ln (Variable REPAIR_ARGUMENT)) (Variable PRODUCER))) = Ok softmax_repair"
  by code_simp+

lemma softmax_distributes: "distributivity fl softmax_repair Bin_Add = Ok ()"
  by code_simp

lemma softmax_forms:
  "canonicalize fl (Binary Bin_Max (Variable PRODUCER) (Variable DATUM)) =
     Ok (Binary Bin_Max (Variable DATUM) (Variable PRODUCER) :: real expr)"
  "canonicalize fl (Binary Bin_Add
     (repair_apply softmax_repair (Variable CONSUMER_STATE) (Variable PRODUCER) (Variable PRODUCER_NEXT))
     (substitute_all softmax_element [(PRODUCER, Variable PRODUCER_NEXT)])) =
     Ok (as_value (softmax_steps ! 1))"
  by code_simp+

lemma softmax_derived:
  "derive fl (softmax_maximum low) softmax_element softmax_sum =
     Ok \<lparr>fr_producer = softmax_maximum low, fr_consumer = softmax_sum,
       fr_origin = Derived \<lparr>ab_source = Variable DATUM,
         ab_template = Unary Un_Exp (Binary Bin_Sub (Variable PARAMETER) (Variable PRODUCER))\<rparr>
         (Binary Bin_Add (Unary Un_Ln (Variable REPAIR_ARGUMENT)) (Variable PRODUCER)),
       fr_repair = softmax_repair, fr_steps = softmax_steps\<rparr>"
proof -
  have "emit fl (softmax_maximum low) softmax_sum softmax_repair softmax_element = Ok softmax_steps"
    unfolding emit_def softmax_maximum_def softmax_sum_def
    by (simp add: softmax_distributes softmax_forms [simplified]) (simp add: softmax_steps_def)
  then show ?thesis by (simp add: derive_def softmax_stages)
qed

lemma softmax_step:
  "run_step softmax_steps d (r, t) =
     Some (max d r, t * exp (r - max d r) + exp (d - max d r))"
  by (simp add: run_step_def softmax_steps_def slot_names exp_diff exp_minus divide_inverse)

lemma softmax_loop:
  "fold_opt (run_step softmax_steps) ds (r, t) = Some (foldl (\<lambda>r d. max d r) r ds,
     t * exp (r - foldl (\<lambda>r d. max d r) r ds) + (\<Sum>d \<leftarrow> ds. exp (d - foldl (\<lambda>r d. max d r) r ds)))"
proof (induction ds arbitrary: r t)
  case (Cons d ds)
  let ?R = "foldl (\<lambda>r d. max d r) (max d r) ds"
  have "(t * exp (r - max d r) + exp (d - max d r)) * exp (max d r - ?R) =
      t * exp (r - ?R) + exp (d - ?R)"
    by (simp add: distrib_right mult.assoc flip: exp_add)
  then show ?case by (simp add: Cons.IH softmax_step)
qed simp


section \<open>A repair of the wrong sign\<close>

definition negating_repair :: "real expr" where
  "negating_repair = Unary Un_Neg (Binary Bin_Mul (Variable REPAIR_ARGUMENT) (Variable PRODUCER))"

definition negated_repair :: "real repair_function" where
  "negated_repair = \<lparr>rf_body = Binary Bin_Mul (Unary Un_Neg (Variable PRODUCER))
     (Unary Un_Neg (Variable REPAIR_ARGUMENT))\<rparr>"

lemma negated_stages:
  "repair_new fl negating_repair = Ok negated_repair" "distributivity fl negated_repair Bin_Add = Ok ()"
  by code_simp+

lemma negated_forms:
  "canonicalize fl (Binary Bin_Add (Variable PRODUCER) (Variable DATUM)) =
     Ok (Binary Bin_Add (Variable DATUM) (Variable PRODUCER) :: real expr)"
  "\<exists>e. canonicalize fl (Binary Bin_Add
     (repair_apply negated_repair (Variable CONSUMER_STATE) (Variable PRODUCER) (Variable PRODUCER_NEXT))
     (substitute_all (Variable DATUM) [(PRODUCER, Variable PRODUCER_NEXT)])) = Ok e"
proof -
  show "canonicalize fl (Binary Bin_Add (Variable PRODUCER) (Variable DATUM)) =
     Ok (Binary Bin_Add (Variable DATUM) (Variable PRODUCER) :: real expr)" by code_simp
  have "case canonicalize fl (Binary Bin_Add
     (repair_apply negated_repair (Variable CONSUMER_STATE) (Variable PRODUCER) (Variable PRODUCER_NEXT))
     (substitute_all (Variable DATUM) [(PRODUCER, Variable PRODUCER_NEXT)])) of Ok e \<Rightarrow> True | _ \<Rightarrow> False"
    by code_simp
  then show "\<exists>e. canonicalize fl (Binary Bin_Add
     (repair_apply negated_repair (Variable CONSUMER_STATE) (Variable PRODUCER) (Variable PRODUCER_NEXT))
     (substitute_all (Variable DATUM) [(PRODUCER, Variable PRODUCER_NEXT)])) = Ok e"
    by (auto split: res.splits)
qed

text \<open>
  C40: a repair handed in as \<open>- (x * r)\<close> is accepted for a sum, and what the fusion carries has the
  opposite value.
\<close>

theorem hand_specified_repair_changes_sign:
  "\<exists>fused. derive_with_repair fl softmax_sum (Variable DATUM) softmax_sum negating_repair = Ok fused \<and>
     real_value env (rf_body (fr_repair fused)) = - real_value env negating_repair"
proof -
  obtain e where "canonicalize fl (Binary Bin_Add
     (repair_apply negated_repair (Variable CONSUMER_STATE) (Variable PRODUCER) (Variable PRODUCER_NEXT))
     (substitute_all (Variable DATUM) [(PRODUCER, Variable PRODUCER_NEXT)])) = Ok e"
    using negated_forms(2) [of fl] by blast
  then obtain steps where "emit fl softmax_sum softmax_sum negated_repair (Variable DATUM) = Ok steps"
    by (simp add: emit_def softmax_sum_def negated_stages negated_forms(1) Let_def)
  then show ?thesis
    by (simp add: derive_with_repair_def negated_stages)
      (simp add: negated_repair_def negating_repair_def)
qed

theorem derived_repair_repairs_witness:
  "evaluate real_ops (repair_body \<lparr>ab_source = Variable DATUM,
       ab_template = Unary Un_Exp (Binary Bin_Sub (Variable PARAMETER) (Variable PRODUCER))\<rparr>
       (Binary Bin_Add (Unary Un_Ln (Variable REPAIR_ARGUMENT)) (Variable PRODUCER)))
     [DATUM \<mapsto> 5, PRODUCER \<mapsto> 3, PRODUCER_NEXT \<mapsto> 4, REPAIR_ARGUMENT \<mapsto> exp 2] = Some (exp 1)"
proof -
  let ?env = "[DATUM \<mapsto> 5, PRODUCER \<mapsto> 3, PRODUCER_NEXT \<mapsto> 4] :: variable \<rightharpoonup> real"
  have "expr_variables softmax_element \<inter> {PARAMETER, REPAIR_ARGUMENT, PRODUCER_NEXT} = {}"
    "evaluate real_ops softmax_element ?env = Some (exp 2)"
    by (simp_all add: softmax_element_def slot_names)
  then show ?thesis
    using derived_repair_repairs [OF softmax_derived [of real_ops 0], where env = ?env and s = 5 and y = "exp 2"]
    by (simp add: softmax_element_def slot_names)
qed

end
