(* ===== verification/Scope_Tree.thy ===== *)
theory Scope_Tree
  imports Lichen_Prelude Disjoint
begin

unbundle bit_operations_syntax

text \<open>
  The lexical scope tree (\<open>lichen-lowlevel/src/scope.rs\<close>): a scope names a function, hangs under
  its parent, and carries a table of its \<open>2^k\<close>-th ancestors. The ancestor test and the nearest
  common ancestor climb by that table; here they are shown to answer what a walk over the parents
  would.

  A scope is immutable and shared behind an \<open>Arc\<close>, so it is a value. Scopes are compared by the
  function they name, as the code does, and never by their whole contents.
\<close>

section \<open>The code\<close>

definition LEVELS :: nat where
  "LEVELS = 32"

datatype 'f scope = Scope
  (sc_function: 'f)
  (sc_parent: "'f scope option")
  (sc_depth: u32)
  (sc_up: "'f scope option list")

text \<open>One entry of the table: the \<open>2^(level-1)\<close>-th ancestor of the \<open>2^(level-1)\<close>-th ancestor.\<close>

definition grand_ancestor :: "'f scope option list \<Rightarrow> nat \<Rightarrow> 'f scope option option" where
  "grand_ancestor up level =
     Option.bind (nth_opt up (level - 1)) (\<lambda>entry.
       case entry of
         None \<Rightarrow> Some None
       | Some scope \<Rightarrow> nth_opt (sc_up scope) (level - 1))"

definition scope_child :: "'f \<Rightarrow> 'f scope option \<Rightarrow> 'f scope option" where
  "scope_child function parent =
     Option.bind (case parent of None \<Rightarrow> Some 0 | Some p \<Rightarrow> add_u32 (sc_depth p) 1) (\<lambda>depth.
     Option.bind (fold_opt (\<lambda>level up. map_option (\<lambda>grand. up @ [grand]) (grand_ancestor up level))
         [1..<LEVELS] [parent]) (\<lambda>up.
       Some (Scope function parent depth up)))"

lemma halving: "unat (drop_bit (Suc 0) difference :: u32) = unat difference div 2"
  by (simp add: drop_bit_Suc unat_div)

text \<open>
  The loop both readers climb with: \<open>difference\<close> steps up from \<open>current\<close>, by the bits of the
  difference. \<open>None\<close> is a table that is too short; \<open>Some None\<close> an ancestor that does not exist,
  which one reader takes for a panic and the other for an answer.
\<close>

function scope_climb :: "'f scope \<Rightarrow> u32 \<Rightarrow> nat \<Rightarrow> 'f scope option option" where
  "scope_climb current difference level =
     (if difference = 0 then Some (Some current)
      else if difference AND 1 = 1 then
        Option.bind (nth_opt (sc_up current) level) (\<lambda>entry.
          case entry of
            None \<Rightarrow> Some None
          | Some scope \<Rightarrow> scope_climb scope (drop_bit 1 difference) (level + 1))
      else scope_climb current (drop_bit 1 difference) (level + 1))"
  by pat_completeness auto

termination
  by (relation "measure (\<lambda>(_, difference, _). unat difference)")
    (auto simp: halving unat_gt_0)

declare scope_climb.simps [simp del]

definition is_ancestor_or_self :: "'f scope \<Rightarrow> 'f scope \<Rightarrow> bool option" where
  "is_ancestor_or_self self other =
     (if sc_depth self > sc_depth other then Some False
      else Option.bind (scope_climb other (sc_depth other - sc_depth self) 0) (\<lambda>climbed.
        Option.bind climbed (\<lambda>current. Some (sc_function current = sc_function self))))"

text \<open>One level of the common climb: both jump if that keeps them apart.\<close>

definition apart_step :: "nat \<Rightarrow> 'f scope \<times> 'f scope \<Rightarrow> ('f scope \<times> 'f scope) option" where
  "apart_step level = (\<lambda>(x, y).
     Option.bind (nth_opt (sc_up x) level) (\<lambda>xa. Option.bind (nth_opt (sc_up y) level) (\<lambda>ya.
       case (xa, ya) of
         (Some xa, Some ya) \<Rightarrow>
           if sc_function xa \<noteq> sc_function ya then Some (xa, ya) else Some (x, y)
       | _ \<Rightarrow> Some (x, y))))"

definition scope_lca :: "'f scope \<Rightarrow> 'f scope \<Rightarrow> 'f scope option option" where
  "scope_lca left right =
     (let (x, y) = (if sc_depth left < sc_depth right then (right, left) else (left, right)) in
      Option.bind (scope_climb x (sc_depth x - sc_depth y) 0) (\<lambda>climbed.
        case climbed of
          None \<Rightarrow> Some None
        | Some x \<Rightarrow>
            if sc_function x = sc_function y then Some (Some x)
            else Option.bind (fold_opt apart_step (rev [0..<LEVELS]) (x, y)) (\<lambda>(x, y).
              nth_opt (sc_up x) 0)))"

definition merge_summaries ::
  "'f scope option \<Rightarrow> 'f scope option \<Rightarrow> 'f scope option option" where
  "merge_summaries left right =
     (case (left, right) of
        (Some left, Some right) \<Rightarrow> scope_lca left right
      | _ \<Rightarrow> Some None)"

section \<open>The walk over the parents\<close>

text \<open>A scope and everything above it, nearest first; the virtual root has nothing above it.\<close>

fun scope_chain :: "'f scope \<Rightarrow> 'f scope list" where
  "scope_chain (Scope function parent depth up) =
     Scope function parent depth up # (case parent of None \<Rightarrow> [] | Some p \<Rightarrow> scope_chain p)"

definition scope_path :: "'f scope option \<Rightarrow> 'f scope list" where
  "scope_path scope = (case scope of None \<Rightarrow> [] | Some s \<Rightarrow> scope_chain s)"

inductive built :: "'f scope \<Rightarrow> bool" where
  built_child: "scope_child f p = Some s \<Longrightarrow> (\<And>q. p = Some q \<Longrightarrow> built q) \<Longrightarrow> built s"

lemma scope_path_simps [simp]: "scope_path None = []" "scope_path (Some s) = scope_chain s"
  by (simp_all add: scope_path_def)

lemma scope_chain_unfold: "scope_chain s = s # scope_path (sc_parent s)"
  by (cases s) (simp add: scope_path_def)

lemma scope_chain_hd [simp]: "hd (scope_chain s) = s" "scope_chain s \<noteq> []"
  "s \<in> set (scope_chain s)" "scope_chain s ! 0 = s" "nth_opt (scope_chain s) 0 = Some s"
  by (simp_all add: scope_chain_unfold del: nth_opt_Some)

lemma scope_chain_drop: "i < length (scope_chain s) \<Longrightarrow>
    scope_chain (scope_chain s ! i) = drop i (scope_chain s)"
proof (induction s arbitrary: i)
  case (Scope f p d up)
  show ?case
  proof (cases i)
    case (Suc j)
    with Scope show ?thesis by (cases p) auto
  qed simp
qed

lemma nth_opt_drop: "nth_opt (drop i xs) j = nth_opt xs (i + j)"
  by (auto simp: nth_opt_def)

lemma nth_opt_pos: "0 < i \<Longrightarrow> nth_opt (x # xs) i = nth_opt xs (i - 1)"
  by (cases i) (auto simp: nth_opt_def)

lemma scope_chain_jump:
  assumes "nth_opt (scope_chain s) i = Some t"
  shows "nth_opt (scope_chain t) j = nth_opt (scope_chain s) (i + j)"
  using assms by (auto simp del: nth_opt_None simp: nth_opt_drop [symmetric] scope_chain_drop)

lemma built_chain: "built s \<Longrightarrow> t \<in> set (scope_chain s) \<Longrightarrow> built t"
proof (induction rule: built.induct)
  case (built_child f p s)
  have s: "built s" using built_child by (auto intro: built.built_child)
  have "sc_parent s = p" using built_child.hyps(1)
    by (auto simp: scope_child_def bind_eq_Some_conv)
  with built_child s show ?case by (cases p) (auto simp: scope_chain_unfold [of s])
qed

definition table_of :: "'f scope \<Rightarrow> bool" where
  "table_of s \<longleftrightarrow> length (sc_up s) = LEVELS \<and>
     (\<forall>k < LEVELS. sc_up s ! k = nth_opt (scope_chain s) (2 ^ k)) \<and>
     length (scope_chain s) = Suc (unat (sc_depth s))"

lemma fill_table:
  assumes "\<forall>t \<in> set path. table_of t" "\<And>i. i < length path \<Longrightarrow> scope_chain (path ! i) = drop i path"
    and "path = scope_path parent" "n < LEVELS"
  shows "\<exists>up. fold_opt (\<lambda>level up. map_option (\<lambda>grand. up @ [grand]) (grand_ancestor up level))
      [1..<Suc n] [parent] = Some up \<and>
    length up = Suc n \<and> (\<forall>k \<le> n. up ! k = nth_opt path (2 ^ k - 1))"
  using assms(4)
proof (induction n)
  case 0
  have "parent = nth_opt path 0"
    unfolding assms(3) by (cases parent) (auto simp: nth_opt_def)
  then show ?case by simp
next
  case (Suc n)
  then obtain up where up: "fold_opt (\<lambda>level up. map_option (\<lambda>grand. up @ [grand])
      (grand_ancestor up level)) [1..<Suc n] [parent] = Some up"
    "length up = Suc n" "\<forall>k \<le> n. up ! k = nth_opt path (2 ^ k - 1)"
    by auto
  have un: "nth_opt up n = Some (nth_opt path (2 ^ n - 1))" using up by simp
  have "grand_ancestor up (Suc n) = Some (nth_opt path (2 ^ Suc n - 1))"
  proof (cases "nth_opt path (2 ^ n - 1)")
    case None
    then have "length path \<le> 2 ^ n - 1" by simp
    then have "nth_opt path (2 ^ Suc n - 1) = None" by simp
    with None un show ?thesis
      unfolding grand_ancestor_def by (simp del: nth_opt_Some nth_opt_None)
  next
    case (Some t)
    then have i: "2 ^ n - 1 < length path" "path ! (2 ^ n - 1) = t" by simp_all
    then have "table_of t" using assms(1) by auto
    then have "nth_opt (sc_up t) n = Some (nth_opt (scope_chain t) (2 ^ n))"
      using Suc.prems by (simp add: table_of_def)
    moreover have "scope_chain t = drop (2 ^ n - 1) path" using assms(2) i by metis
    ultimately have "nth_opt (sc_up t) n = Some (nth_opt path (2 ^ n - 1 + 2 ^ n))"
      by (simp add: nth_opt_drop)
    moreover have "2 ^ n - 1 + 2 ^ n = (2 ^ Suc n - 1 :: nat)" by simp
    ultimately show ?thesis
      unfolding grand_ancestor_def using un Some by (simp del: nth_opt_Some nth_opt_None)
  qed
  then have "fold_opt (\<lambda>level up. map_option (\<lambda>grand. up @ [grand]) (grand_ancestor up level))
      [1..<Suc (Suc n)] [parent] = Some (up @ [nth_opt path (2 ^ Suc n - 1)])"
    using up(1) by (simp add: fold_opt_append)
  moreover have "\<forall>k \<le> Suc n. (up @ [nth_opt path (2 ^ Suc n - 1)]) ! k = nth_opt path (2 ^ k - 1)"
    using up(2,3) by (auto simp: nth_append le_Suc_eq)
  ultimately show ?case using up(2) by (intro exI conjI) simp_all
qed

definition tables :: "'f scope \<Rightarrow> bool" where
  "tables s \<longleftrightarrow> (\<forall>t \<in> set (scope_chain s). table_of t)"

lemma tables_at: "tables s \<Longrightarrow> nth_opt (scope_chain s) i = Some t \<Longrightarrow> tables t"
  by (auto simp: tables_def scope_chain_drop dest!: in_set_dropD)

lemma tablesD:
  assumes "tables s"
  shows "length (sc_up s) = LEVELS" "length (scope_chain s) = Suc (unat (sc_depth s))"
    and "k < LEVELS \<Longrightarrow> nth_opt (sc_up s) k = Some (nth_opt (scope_chain s) (2 ^ k))"
  using assms unfolding tables_def table_of_def by (auto simp: nth_opt_def)

lemma built_tables: "built s \<Longrightarrow> tables s"
proof (induction rule: built.induct)
  case (built_child f p s)
  from built_child.hyps(1) obtain d up where
    d: "(case p of None \<Rightarrow> Some 0 | Some q \<Rightarrow> add_u32 (sc_depth q) 1) = Some d" and
    up: "fold_opt (\<lambda>level up. map_option (\<lambda>grand. up @ [grand]) (grand_ancestor up level))
      [1..<LEVELS] [p] = Some up" and s: "s = Scope f p d up"
    by (auto simp: scope_child_def bind_eq_Some_conv)
  have path: "\<forall>t \<in> set (scope_path p). table_of t"
    using built_child.IH by (cases p) (auto simp: tables_def)
  have drops: "scope_chain (scope_path p ! i) = drop i (scope_path p)" if "i < length (scope_path p)" for i
    using that by (cases p) (auto simp: scope_chain_drop)
  have "[1..<LEVELS] = [1..<Suc 31]" "31 < LEVELS" by (simp_all add: LEVELS_def)
  with fill_table [OF path drops refl, of 31] up
  have up: "length up = 32" "\<forall>k \<le> 31. up ! k = nth_opt (scope_path p) (2 ^ k - 1)" by auto
  have chain: "scope_chain s = s # scope_path p" using s by (simp add: scope_chain_unfold)
  have sup: "sc_up s = up" using s by simp
  have "sc_up s ! k = nth_opt (scope_chain s) (2 ^ k)" if "k < LEVELS" for k
    using that up(2) unfolding chain sup by (simp add: nth_opt_pos LEVELS_def del: nth_opt_Some)
  moreover have "length (scope_chain s) = Suc (unat (sc_depth s))"
  proof (cases p)
    case (Some q)
    then have "length (scope_chain q) = Suc (unat (sc_depth q))"
      using built_child.IH by (simp add: tablesD)
    moreover have "unat d = Suc (unat (sc_depth q))"
      using d Some by (auto simp: add_u32_def unat_word_ariths split: if_splits)
    ultimately show ?thesis using Some s by (simp add: chain)
  qed (use d s in \<open>simp add: chain\<close>)
  ultimately have "table_of s" using up(1) s by (simp add: table_of_def LEVELS_def)
  with path show ?case by (simp add: tables_def chain)
qed

lemma split_half: "q * 2 ^ Suc l + r * 2 ^ l = (2 * q + r) * 2 ^ l" for q r :: nat
  by (simp add: algebra_simps)

lemma scope_child_fields:
  "scope_child f p = Some s \<Longrightarrow> sc_function s = f \<and> sc_parent s = p"
  by (auto simp: scope_child_def bind_eq_Some_conv)

lemma scope_child_total:
  assumes "\<And>q. p = Some q \<Longrightarrow> tables q \<and> unat (sc_depth q) + 1 < 2 ^ 32"
  obtains s where "scope_child f p = Some s"
proof -
  have path: "\<forall>t \<in> set (scope_path p). table_of t"
    using assms by (cases p) (auto simp: tables_def)
  have drops: "scope_chain (scope_path p ! i) = drop i (scope_path p)" if "i < length (scope_path p)" for i
    using that by (cases p) (auto simp: scope_chain_drop)
  have "[1..<LEVELS] = [1..<Suc 31]" "31 < LEVELS" by (simp_all add: LEVELS_def)
  with fill_table [OF path drops refl, of 31] obtain up where
    up: "fold_opt (\<lambda>level up. map_option (\<lambda>grand. up @ [grand]) (grand_ancestor up level))
      [1..<LEVELS] [p] = Some up" by auto
  obtain d where "(case p of None \<Rightarrow> Some 0 | Some q \<Rightarrow> add_u32 (sc_depth q) 1) = Some d"
    using assms by (cases p) (auto simp: add_u32_def)
  with up show thesis by (intro that) (simp add: scope_child_def)
qed

lemma climb_chain:
  "tables s \<Longrightarrow> unat d * 2 ^ l < 2 ^ LEVELS \<Longrightarrow>
    scope_climb s d l = Some (nth_opt (scope_chain s) (unat d * 2 ^ l))"
proof (induction s d l rule: scope_climb.induct)
  case (1 s d l)
  show ?case
  proof (cases "d = 0")
    case True
    then show ?thesis by (subst scope_climb.simps) simp
  next
    case False
    then have "1 * 2 ^ l \<le> unat d * 2 ^ l" by (intro mult_right_mono) (simp_all add: unat_gt_0 Suc_le_eq)
    with "1.prems"(2) have "(2::nat) ^ l < 2 ^ LEVELS" by linarith
    then have l: "l < LEVELS" by simp
    have l1: "Suc l \<le> LEVELS" using l by simp
    have odd: "d AND 1 = 1 \<longleftrightarrow> odd (unat d)"
      by (simp add: and_one_eq mod_2_eq_odd flip: bit_0) (simp add: bit_unsigned_iff)
    have half: "unat (drop_bit 1 d) * 2 ^ Suc l + (unat d mod 2) * 2 ^ l = unat d * 2 ^ l"
      unfolding split_half halving One_nat_def by simp
    then have small: "unat (drop_bit 1 d) * 2 ^ Suc l < 2 ^ LEVELS"
      using "1.prems"(2) by linarith
    show ?thesis
    proof (cases "d AND 1 = 1")
      case True
      then have o: "unat d mod 2 = 1" using odd by (simp add: odd_iff_mod_2_eq_one)
      have up: "nth_opt (sc_up s) l = Some (nth_opt (scope_chain s) (2 ^ l))"
        using "1.prems"(1) l by (rule tablesD)
      show ?thesis
      proof (cases "nth_opt (scope_chain s) (2 ^ l)")
        case None
        then have "length (scope_chain s) \<le> unat d * 2 ^ l"
          using half o by simp
        then have "nth_opt (scope_chain s) (unat d * 2 ^ l) = None" by simp
        with False True up None show ?thesis
          by (subst scope_climb.simps) (simp del: nth_opt_Some nth_opt_None)
      next
        case (Some t)
        have "scope_climb t (drop_bit 1 d) (l + 1) =
            Some (nth_opt (scope_chain t) (unat (drop_bit 1 d) * 2 ^ (l + 1)))"
          using small by (intro "1.IH"(1) [OF False True up Some tables_at [OF "1.prems"(1) Some]]) simp
        also have "nth_opt (scope_chain t) (unat (drop_bit 1 d) * 2 ^ (l + 1)) =
            nth_opt (scope_chain s) (unat d * 2 ^ l)"
          unfolding scope_chain_jump [OF Some] using half o by (simp add: add.commute)
        finally show ?thesis
          using False True up Some by (subst scope_climb.simps) (simp del: nth_opt_Some nth_opt_None)
      qed
    next
      case e: False
      then have "unat d mod 2 = 0" using odd by (simp add: even_iff_mod_2_eq_zero)
      then have idx: "unat (drop_bit 1 d) * 2 ^ (l + 1) = unat d * 2 ^ l" using half by simp
      have "scope_climb s (drop_bit 1 d) (l + 1) =
          Some (nth_opt (scope_chain s) (unat (drop_bit 1 d) * 2 ^ (l + 1)))"
        using small by (intro "1.IH"(2) [OF False e "1.prems"(1)]) simp
      then show ?thesis using False e unfolding idx by (subst scope_climb.simps) simp
    qed
  qed
qed

section \<open>Ancestors\<close>

lemma chain_depth:
  assumes "tables s" "i < length (scope_chain s)"
  shows "unat (sc_depth (scope_chain s ! i)) = unat (sc_depth s) - i" "i \<le> unat (sc_depth s)"
proof -
  have "tables (scope_chain s ! i)" by (rule tables_at [OF assms(1), of i]) (use assms(2) in simp)
  then have "length (drop i (scope_chain s)) = Suc (unat (sc_depth (scope_chain s ! i)))"
    unfolding scope_chain_drop [OF assms(2), symmetric] by (rule tablesD)
  moreover have "length (scope_chain s) = Suc (unat (sc_depth s))" using assms(1) by (rule tablesD)
  ultimately show "unat (sc_depth (scope_chain s ! i)) = unat (sc_depth s) - i"
    "i \<le> unat (sc_depth s)" using assms(2) by auto
qed

lemma chain_at_depth:
  assumes "tables s" "a \<in> set (scope_chain s)"
  shows "a = scope_chain s ! (unat (sc_depth s) - unat (sc_depth a))"
    "unat (sc_depth a) \<le> unat (sc_depth s)"
proof -
  obtain i where "i < length (scope_chain s)" "scope_chain s ! i = a"
    using assms(2) by (auto simp: in_set_conv_nth)
  with chain_depth [OF assms(1), of i] show
    "a = scope_chain s ! (unat (sc_depth s) - unat (sc_depth a))"
    "unat (sc_depth a) \<le> unat (sc_depth s)" by auto
qed

lemma climb_to_depth:
  assumes "tables t" "\<not> sc_depth t < d"
  defines "a \<equiv> scope_chain t ! (unat (sc_depth t) - unat d)"
  shows "scope_climb t (sc_depth t - d) 0 = Some (Some a)" "a \<in> set (scope_chain t)"
    "sc_depth a = d" "tables a"
    "scope_chain a = drop (unat (sc_depth t) - unat d) (scope_chain t)"
proof -
  let ?i = "unat (sc_depth t) - unat d"
  have le: "unat d \<le> unat (sc_depth t)" using assms(2) by (simp add: word_less_nat_alt)
  have i: "?i < length (scope_chain t)" using tablesD(2) [OF assms(1)] by simp
  have diff: "unat (sc_depth t - d) = ?i" using le by (simp add: unat_sub word_le_nat_alt)
  have "unat (sc_depth t - d) * 2 ^ 0 < 2 ^ LEVELS" by (simp add: LEVELS_def)
  from climb_chain [OF assms(1) this] i show "scope_climb t (sc_depth t - d) 0 = Some (Some a)"
    by (simp add: diff nth_opt_def a_def)
  show "a \<in> set (scope_chain t)" using i by (simp add: a_def)
  have "unat (sc_depth a) = unat d" using chain_depth(1) [OF assms(1) i] le by (simp add: a_def)
  then show "sc_depth a = d" by (simp add: word_unat_eq_iff)
  show "tables a" by (rule tables_at [OF assms(1), of ?i]) (use i in \<open>simp add: a_def\<close>)
  show "scope_chain a = drop ?i (scope_chain t)" using i by (simp add: a_def scope_chain_drop)
qed

lemma ancestor_by_function:
  assumes "tables s" "tables t"
  shows "is_ancestor_or_self s t = Some (\<exists>a \<in> set (scope_chain t).
    sc_depth a = sc_depth s \<and> sc_function a = sc_function s)"
proof (cases "sc_depth t < sc_depth s")
  case True
  then have "\<not> (\<exists>a \<in> set (scope_chain t). sc_depth a = sc_depth s)"
    using chain_at_depth(2) [OF assms(2)] by (metis word_less_nat_alt linorder_not_less)
  with True show ?thesis unfolding is_ancestor_or_self_def by auto
next
  case False
  note up = climb_to_depth [OF assms(2) False]
  have "(\<exists>a \<in> set (scope_chain t). sc_depth a = sc_depth s \<and> sc_function a = sc_function s) \<longleftrightarrow>
      sc_function (scope_chain t ! (unat (sc_depth t) - unat (sc_depth s))) = sc_function s"
    using chain_at_depth(1) [OF assms(2)] up(2,3) by metis
  with False up(1) show ?thesis by (simp add: is_ancestor_or_self_def)
qed

text \<open>Where a function has one scope, as in a module between two moves of a function.\<close>

definition one_scope_each :: "'f scope set \<Rightarrow> bool" where
  "one_scope_each scopes \<longleftrightarrow>
     (\<forall>a \<in> scopes. \<forall>b \<in> scopes. sc_function a = sc_function b \<longrightarrow> a = b)"

lemma one_scope_eachD:
  "one_scope_each A \<Longrightarrow> a \<in> A \<Longrightarrow> b \<in> A \<Longrightarrow> sc_function a = sc_function b \<Longrightarrow> a = b"
  by (auto simp: one_scope_each_def)

lemma one_scope_each_mono: "one_scope_each A \<Longrightarrow> B \<subseteq> A \<Longrightarrow> one_scope_each B"
  unfolding one_scope_each_def by blast

lemma ancestor_is_on_chain:
  assumes "tables s" "tables t" "one_scope_each (set (scope_chain s) \<union> set (scope_chain t))"
  shows "is_ancestor_or_self s t = Some (s \<in> set (scope_chain t))"
proof -
  have "a = s" if "a \<in> set (scope_chain t)" "sc_function a = sc_function s" for a
    using one_scope_eachD [OF assms(3), of a s] that by simp
  then show ?thesis unfolding ancestor_by_function [OF assms(1,2)] by blast
qed

section \<open>The nearest common ancestor\<close>

lemma nth_in_drop: "k \<le> i \<Longrightarrow> i < length xs \<Longrightarrow> xs ! i \<in> set (drop k xs)"
  by (auto simp: in_set_conv_nth intro!: exI [of _ "i - k"])

text \<open>
  Two chains of one length agree from some position on, the split; below it they are apart.
\<close>

lemma common_split:
  assumes "tables x" "tables y" "sc_depth x = sc_depth y"
    and one: "one_scope_each (set (scope_chain x) \<union> set (scope_chain y))"
  obtains split where "split \<le> length (scope_chain x)"
    "\<And>i. i < length (scope_chain x) \<Longrightarrow>
      sc_function (scope_chain x ! i) = sc_function (scope_chain y ! i) \<longleftrightarrow> split \<le> i"
    "set (scope_chain x) \<inter> set (scope_chain y) = set (drop split (scope_chain x))"
proof -
  let ?x = "scope_chain x" and ?y = "scope_chain y"
  have len: "length ?y = length ?x" using assms by (simp add: tablesD)
  define agree where "agree i \<longleftrightarrow> ?x ! i = ?y ! i" for i
  have fn: "sc_function (?x ! i) = sc_function (?y ! i) \<longleftrightarrow> agree i" if "i < length ?x" for i
    using one_scope_eachD [OF one, of "?x ! i" "?y ! i"] that len by (auto simp: agree_def)
  have later: "agree j" if "agree i" "i \<le> j" "j < length ?x" for i j
  proof -
    have "drop i ?x = drop i ?y"
      using that len scope_chain_drop [of i x] scope_chain_drop [of i y] by (simp add: agree_def)
    then have "drop i ?x ! (j - i) = drop i ?y ! (j - i)" by simp
    with that len show ?thesis by (simp add: agree_def)
  qed
  define split where "split = (LEAST i. i = length ?x \<or> agree i)"
  have ex: "split = length ?x \<or> agree split" unfolding split_def by (rule LeastI [of _ "length ?x"]) simp
  have le: "split \<le> length ?x" unfolding split_def by (rule Least_le) simp
  have iff: "agree i \<longleftrightarrow> split \<le> i" if "i < length ?x" for i
  proof
    assume "agree i"
    then show "split \<le> i" unfolding split_def by (intro Least_le) simp
  next
    assume "split \<le> i"
    with ex later that show "agree i" by fastforce
  qed
  have "a \<in> set (drop split ?x)" if a: "a \<in> set ?x" "a \<in> set ?y" for a
  proof -
    obtain i where i: "i < length ?x" "?x ! i = a" using a(1) by (auto simp: in_set_conv_nth)
    have "i = unat (sc_depth x) - unat (sc_depth a)"
      using chain_depth [OF assms(1) i(1)] i(2) by simp
    then have "?y ! i = a" using chain_at_depth(1) [OF assms(2) a(2)] assms(3) by simp
    then have "split \<le> i" using iff [OF i(1)] i by (simp add: agree_def)
    then have "drop split ?x ! (i - split) = a" "i - split < length (drop split ?x)" using i by auto
    then show ?thesis by (metis nth_mem)
  qed
  moreover have "a \<in> set ?y" if a: "a \<in> set (drop split ?x)" for a
  proof -
    obtain j where "j < length (drop split ?x)" "drop split ?x ! j = a"
      using a unfolding in_set_conv_nth by blast
    then have "split + j < length ?x" "?x ! (split + j) = a" by auto
    then show ?thesis using iff [of "split + j"] len by (auto simp: agree_def)
  qed
  ultimately have "set ?x \<inter> set ?y = set (drop split ?x)" by (auto dest: in_set_dropD)
  with le fn iff that show thesis by metis
qed

lemma apart_climb:
  assumes tx: "tables x" and ty: "tables y" and d: "sc_depth x = sc_depth y"
    and split: "\<And>i. i < length (scope_chain x) \<Longrightarrow>
      sc_function (scope_chain x ! i) = sc_function (scope_chain y ! i) \<longleftrightarrow> split \<le> i"
  shows "n \<le> LEVELS \<Longrightarrow> p < split \<Longrightarrow> split \<le> p + 2 ^ n \<Longrightarrow> p < length (scope_chain x) \<Longrightarrow>
    split \<le> length (scope_chain x) \<Longrightarrow>
    fold_opt apart_step (rev [0..<n]) (scope_chain x ! p, scope_chain y ! p) =
      Some (scope_chain x ! (split - 1), scope_chain y ! (split - 1))"
proof (induction n arbitrary: p)
  case 0
  then have "split - 1 = p" by simp
  then show ?case by simp
next
  case (Suc n)
  let ?x = "scope_chain x" and ?y = "scope_chain y"
  have len: "length ?y = length ?x" using tx ty d by (simp add: tablesD)
  have px: "nth_opt ?x p = Some (?x ! p)" and py: "nth_opt ?y p = Some (?y ! p)"
    using Suc.prems(4) len by simp_all
  have n: "n < LEVELS" using Suc.prems(1) by simp
  have ux: "nth_opt (sc_up (?x ! p)) n = Some (nth_opt ?x (p + 2 ^ n))"
    using tablesD(3) [OF tables_at [OF tx px] n] unfolding scope_chain_jump [OF px] .
  have uy: "nth_opt (sc_up (?y ! p)) n = Some (nth_opt ?y (p + 2 ^ n))"
    using tablesD(3) [OF tables_at [OF ty py] n] unfolding scope_chain_jump [OF py] .
  show ?case
  proof (cases "p + 2 ^ n < split")
    case True
    then have i: "p + 2 ^ n < length ?x" using Suc.prems(5) by simp
    have "apart_step n (?x ! p, ?y ! p) = Some (?x ! (p + 2 ^ n), ?y ! (p + 2 ^ n))"
      using ux uy i len split [OF i] True
      by (simp add: apart_step_def nth_opt_def del: nth_opt_Some)
    with Suc.IH [of "p + 2 ^ n"] Suc.prems n i True show ?thesis by simp
  next
    case False
    have "apart_step n (?x ! p, ?y ! p) = Some (?x ! p, ?y ! p)"
    proof (cases "p + 2 ^ n < length ?x")
      case True
      with ux uy len split [OF True] False show ?thesis
        by (simp add: apart_step_def nth_opt_def del: nth_opt_Some)
    next
      case no: False
      with ux uy len show ?thesis by (simp add: apart_step_def nth_opt_def del: nth_opt_Some)
    qed
    with Suc.IH [of p] Suc.prems False show ?thesis by simp
  qed
qed

text \<open>The scopes above both arguments are the answer and those above it.\<close>

lemma lca_level:
  assumes tx: "tables x" and ty: "tables y" and d: "sc_depth x = sc_depth y"
    and one: "one_scope_each (set (scope_chain x) \<union> set (scope_chain y))"
    and ne: "sc_function x \<noteq> sc_function y"
  shows "\<exists>a. Option.bind (fold_opt apart_step (rev [0..<LEVELS]) (x, y)) (\<lambda>(x, y). nth_opt (sc_up x) 0) =
      Some a \<and> set (scope_path a) = set (scope_chain x) \<inter> set (scope_chain y) \<and>
    (\<forall>b. a = Some b \<longrightarrow> b \<in> set (scope_chain x))"
proof -
  let ?x = "scope_chain x" and ?y = "scope_chain y"
  obtain split where s: "split \<le> length ?x"
    "\<And>i. i < length ?x \<Longrightarrow> sc_function (?x ! i) = sc_function (?y ! i) \<longleftrightarrow> split \<le> i"
    "set ?x \<inter> set ?y = set (drop split ?x)"
    using common_split [OF tx ty d one] by metis
  have pos: "0 < split" using s(2) [of 0] ne by simp
  have "Suc (unat (sc_depth x)) \<le> 4294967296" by (rule Suc_leI) simp
  then have "length ?x \<le> 2 ^ LEVELS" unfolding tablesD(2) [OF tx] LEVELS_def by simp
  with s(1) have "split \<le> 0 + 2 ^ LEVELS" by simp
  from apart_climb [OF tx ty d s(2) order_refl pos this _ s(1)]
  have f: "fold_opt apart_step (rev [0..<LEVELS]) (x, y) = Some (?x ! (split - 1), ?y ! (split - 1))"
    by simp
  have q: "nth_opt ?x (split - 1) = Some (?x ! (split - 1))" using s(1) pos by simp
  have "(0::nat) < LEVELS" by (simp add: LEVELS_def)
  from tablesD(3) [OF tables_at [OF tx q] this]
  have u: "nth_opt (sc_up (?x ! (split - 1))) 0 = Some (nth_opt ?x split)"
    unfolding scope_chain_jump [OF q] using pos by (simp del: nth_opt_Some)
  have "set (scope_path (nth_opt ?x split)) = set (drop split ?x)"
    by (cases "split < length ?x") (simp_all add: nth_opt_def scope_chain_drop)
  with f u s(3) show ?thesis by (auto simp del: nth_opt_None dest: nth_opt_in_set)
qed

lemma lca_common:
  assumes tl: "tables l" and tr: "tables r"
    and one: "one_scope_each (set (scope_chain l) \<union> set (scope_chain r))"
  shows "\<exists>a. scope_lca l r = Some a \<and>
    set (scope_path a) = set (scope_chain l) \<inter> set (scope_chain r) \<and>
    (\<forall>b. a = Some b \<longrightarrow> b \<in> set (scope_chain l) \<union> set (scope_chain r))"
proof -
  define x y where "x = (if sc_depth l < sc_depth r then r else l)"
    and "y = (if sc_depth l < sc_depth r then l else r)"
  have lr: "set (scope_chain l) \<inter> set (scope_chain r) = set (scope_chain x) \<inter> set (scope_chain y)"
    "set (scope_chain l) \<union> set (scope_chain r) = set (scope_chain x) \<union> set (scope_chain y)"
    by (auto simp: x_def y_def)
  have tx: "tables x" and ty: "tables y" and le: "\<not> sc_depth x < sc_depth y"
    using tl tr by (auto simp: x_def y_def)
  define z where "z = scope_chain x ! (unat (sc_depth x) - unat (sc_depth y))"
  note up = climb_to_depth [OF tx le, folded z_def]
  have sub: "set (scope_chain z) \<subseteq> set (scope_chain x)" unfolding up(5) by (rule set_drop_subset)
  have common: "set (scope_chain x) \<inter> set (scope_chain y) = set (scope_chain z) \<inter> set (scope_chain y)"
  proof -
    have "a \<in> set (scope_chain z)" if "a \<in> set (scope_chain x)" "a \<in> set (scope_chain y)" for a
    proof -
      let ?i = "unat (sc_depth x) - unat (sc_depth a)" and ?k = "unat (sc_depth x) - unat (sc_depth y)"
      have a: "a = scope_chain x ! ?i" using chain_at_depth(1) [OF tx that(1)] .
      have "unat (sc_depth a) \<le> unat (sc_depth y)" using chain_at_depth(2) [OF ty that(2)] .
      then have "?k \<le> ?i" by simp
      moreover have "?i < length (scope_chain x)" using tablesD(2) [OF tx] by simp
      ultimately have "scope_chain x ! ?i \<in> set (drop ?k (scope_chain x))" by (rule nth_in_drop)
      then show ?thesis using a unfolding up(5) by simp
    qed
    with sub show ?thesis by blast
  qed
  have one': "one_scope_each (set (scope_chain z) \<union> set (scope_chain y))"
    using one sub unfolding lr(2) by (elim one_scope_each_mono) blast
  have lca: "scope_lca l r = (if sc_function z = sc_function y then Some (Some z)
      else Option.bind (fold_opt apart_step (rev [0..<LEVELS]) (z, y)) (\<lambda>(x, y). nth_opt (sc_up x) 0))"
    using up(1) by (simp add: scope_lca_def x_def y_def split: if_splits)
  show ?thesis
  proof (cases "sc_function z = sc_function y")
    case True
    then have "z = y" using one_scope_eachD [OF one', of z y] by simp
    with True lca lr common up(2) show ?thesis by auto
  next
    case False
    from lca_level [OF up(4) ty up(3) one' False] lca False lr common show ?thesis
      by (auto intro: subsetD [OF sub])
  qed
qed

section \<open>Summaries\<close>

text \<open>The scopes of a module: built by the code, one for each function, with all that is above.\<close>

definition scope_world :: "'f scope set \<Rightarrow> bool" where
  "scope_world scopes \<longleftrightarrow> one_scope_each scopes \<and>
     (\<forall>s \<in> scopes. built s \<and> set (scope_chain s) \<subseteq> scopes)"

definition in_world :: "'f scope set \<Rightarrow> 'f scope option \<Rightarrow> bool" where
  "in_world scopes s \<longleftrightarrow> set_option s \<subseteq> scopes"

lemma in_world_simps [simp]: "in_world A None" "in_world A (Some s) \<longleftrightarrow> s \<in> A"
  by (simp_all add: in_world_def)

lemma scope_worldD:
  assumes "scope_world A" "s \<in> A"
  shows "tables s" "set (scope_chain s) \<subseteq> A"
  using assms by (auto simp: scope_world_def intro: built_tables)

lemma world_one_each: "scope_world A \<Longrightarrow> s \<in> A \<Longrightarrow> t \<in> A \<Longrightarrow>
    one_scope_each (set (scope_chain s) \<union> set (scope_chain t))"
  by (rule one_scope_each_mono [of A]) (auto simp: scope_world_def)

lemma path_inj:
  assumes A: "scope_world A" and "in_world A a" "in_world A b"
    and eq: "set (scope_path a) = set (scope_path b)"
  shows "a = b"
proof (cases a)
  case None
  with eq show ?thesis by (cases b) auto
next
  case (Some s)
  with eq obtain t where t: "b = Some t" by (cases b) auto
  have tb: "tables s" "tables t" using assms Some t by (auto intro: scope_worldD)
  have mem: "s \<in> set (scope_chain t)" "t \<in> set (scope_chain s)"
    using eq Some t scope_chain_hd(3) by force+
  have "sc_depth s = sc_depth t"
    using chain_at_depth(2) [OF tb(2) mem(1)] chain_at_depth(2) [OF tb(1) mem(2)]
    by (simp add: word_unat_eq_iff)
  then have "s = t" using chain_at_depth(1) [OF tb(2) mem(1)] by simp
  with Some t show ?thesis by simp
qed

lemma merge_common:
  assumes A: "scope_world A" and l: "in_world A l" and r: "in_world A r"
  shows "\<exists>a. merge_summaries l r = Some a \<and> in_world A a \<and>
    set (scope_path a) = set (scope_path l) \<inter> set (scope_path r)"
proof (cases l)
  case None
  then show ?thesis by (simp add: merge_summaries_def)
next
  case (Some s)
  show ?thesis
  proof (cases r)
    case None
    then show ?thesis using Some by (simp add: merge_summaries_def)
  next
    case t: (Some t)
    from Some t l r have st: "s \<in> A" "t \<in> A" by simp_all
    obtain a where a: "scope_lca s t = Some a"
      "set (scope_path a) = set (scope_chain s) \<inter> set (scope_chain t)"
      "\<forall>b. a = Some b \<longrightarrow> b \<in> set (scope_chain s) \<union> set (scope_chain t)"
      using lca_common [OF scope_worldD(1) [OF A st(1)] scope_worldD(1) [OF A st(2)]
          world_one_each [OF A st]] by blast
    have "in_world A a"
      using a(3) scope_worldD(2) [OF A st(1)] scope_worldD(2) [OF A st(2)] by (cases a) auto
    with a(1,2) Some t show ?thesis by (simp add: merge_summaries_def)
  qed
qed

definition summarizes :: "'f scope set \<Rightarrow> 'f scope option \<Rightarrow> 'f scope option set \<Rightarrow> bool" where
  "summarizes A summary ss \<longleftrightarrow>
     in_world A summary \<and> set (scope_path summary) = (\<Inter>s \<in> ss. set (scope_path s))"

text \<open>
  What a class asks of the summaries it merges: each stands for the scopes above it, a merge stands
  for those above both, and two summaries that stand for the same are one.
\<close>

locale meet =
  fixes merge :: "'s \<Rightarrow> 's \<Rightarrow> 's option" and up :: "'s \<Rightarrow> 'c set" and ok :: "'s \<Rightarrow> bool"
  assumes merge_meets: "ok a \<Longrightarrow> ok b \<Longrightarrow> \<exists>m. merge a b = Some m \<and> ok m \<and> up m = up a \<inter> up b"
    and up_inj: "ok a \<Longrightarrow> ok b \<Longrightarrow> up a = up b \<Longrightarrow> a = b"
begin

lemma merge_commutes: "ok a \<Longrightarrow> ok b \<Longrightarrow> merge a b = merge b a"
  using merge_meets [of a b] merge_meets [of b a] up_inj by (metis Int_commute)

lemma merge_idem: "ok a \<Longrightarrow> merge a a = Some a"
  using merge_meets [of a a] up_inj by (metis Int_absorb)

lemma fold_meets:
  "ok s \<Longrightarrow> \<forall>x \<in> set xs. ok x \<Longrightarrow>
    \<exists>m. fold_opt (\<lambda>x s. merge s x) xs s = Some m \<and> ok m \<and> up m = up s \<inter> (\<Inter>x \<in> set xs. up x)"
proof (induction xs arbitrary: s)
  case (Cons x xs)
  obtain a where a: "merge s x = Some a" "ok a" "up a = up s \<inter> up x"
    using merge_meets [of s x] Cons.prems by auto
  obtain m where "fold_opt (\<lambda>x s. merge s x) xs a = Some m" "ok m"
    "up m = up a \<inter> (\<Inter>x \<in> set xs. up x)" using Cons.IH [OF a(2)] Cons.prems by auto
  with a show ?case by auto
qed simp

lemma fold_order:
  assumes "ok s" "\<forall>x \<in> set xs. ok x" "set ys = set xs"
  shows "fold_opt (\<lambda>x s. merge s x) ys s = fold_opt (\<lambda>x s. merge s x) xs s"
  using fold_meets [of s xs] fold_meets [of s ys] assms up_inj by metis

end

interpretation scopes: meet merge_summaries "\<lambda>s. set (scope_path s)"
  "\<lambda>s. scope_world A \<and> in_world A s" for A
  using merge_common path_inj by unfold_locales blast+

lemma fold_summarizes:
  assumes A: "scope_world A" and s: "in_world A s" and ss: "\<forall>x \<in> set ss. in_world A x"
  shows "\<exists>m. fold_opt (\<lambda>x s. merge_summaries s x) ss s = Some m \<and> summarizes A m (insert s (set ss))"
  using scopes.fold_meets [of A s ss] assms by (auto simp: summarizes_def)

lemma summary_unique:
  "scope_world A \<Longrightarrow> summarizes A a S \<Longrightarrow> summarizes A b S \<Longrightarrow> a = b"
  by (auto simp: summarizes_def intro: path_inj)

section \<open>A small tree\<close>

definition demo_root :: "nat scope" where
  "demo_root = the (scope_child 5 None)"

definition demo_left :: "nat scope" where
  "demo_left = the (scope_child 2 (Some demo_root))"

definition demo_leaf :: "nat scope" where
  "demo_leaf = the (scope_child 3 (Some demo_left))"

definition demo_right :: "nat scope" where
  "demo_right = the (scope_child 4 (Some demo_root))"

lemma the_child:
  assumes "\<And>q. p = Some q \<Longrightarrow> built q \<and> length (scope_chain q) < 10"
  shows "scope_child f p = Some (the (scope_child f p))" "built (the (scope_child f p))"
    "sc_function (the (scope_child f p)) = f"
    "scope_chain (the (scope_child f p)) = the (scope_child f p) # scope_path p"
proof -
  obtain s where s: "scope_child f p = Some s"
    by (rule scope_child_total [of p f]) (use assms built_tables tablesD(2) in fastforce)+
  then show "scope_child f p = Some (the (scope_child f p))" by simp
  from s show "built (the (scope_child f p))" using assms by (auto intro: built_child)
  show "sc_function (the (scope_child f p)) = f"
    "scope_chain (the (scope_child f p)) = the (scope_child f p) # scope_path p"
    using scope_child_fields [OF s] s by (simp_all add: scope_chain_unfold [of s])
qed

lemma demo_scope_root: "built demo_root" "sc_function demo_root = 5" "scope_chain demo_root = [demo_root]"
  "scope_child 5 None = Some demo_root"
  using the_child [of None 5] unfolding demo_root_def by auto

lemma demo_scope_left: "built demo_left" "sc_function demo_left = 2"
  "scope_chain demo_left = [demo_left, demo_root]" "scope_child 2 (Some demo_root) = Some demo_left"
  using the_child [of "Some demo_root" 2] demo_scope_root unfolding demo_left_def by auto

lemma demo_scope_right: "built demo_right" "sc_function demo_right = 4"
  "scope_chain demo_right = [demo_right, demo_root]" "scope_child 4 (Some demo_root) = Some demo_right"
  using the_child [of "Some demo_root" 4] demo_scope_root unfolding demo_right_def by auto

lemma demo_scope_leaf: "built demo_leaf" "sc_function demo_leaf = 3"
  "scope_chain demo_leaf = [demo_leaf, demo_left, demo_root]"
  "scope_child 3 (Some demo_left) = Some demo_leaf"
  using the_child [of "Some demo_left" 3] demo_scope_left unfolding demo_leaf_def by auto

lemmas demo_scopes = demo_scope_root demo_scope_left demo_scope_right demo_scope_leaf

definition demo_world :: "nat scope set" where
  "demo_world = {demo_root, demo_left, demo_leaf, demo_right}"

lemma demo_distinct: "distinct [demo_root, demo_left, demo_leaf, demo_right]"
proof -
  have "distinct (map sc_function [demo_root, demo_left, demo_leaf, demo_right])"
    by (simp add: demo_scopes)
  then show ?thesis by (simp only: distinct_map)
qed

lemma demo_scope_world: "scope_world demo_world"
  by (auto simp: scope_world_def demo_world_def demo_scopes one_scope_each_def)

section \<open>Properties\<close>

text \<open>
  The ancestor test by the table answers whether the one scope is the other or above it: it
  never meets a missing entry, whatever the depth, and its answer is that of a walk over the
  parents, where no two scopes of the two chains name one function.
\<close>

theorem ancestor_test_is_ancestry:
  assumes "built scope" "built other"
    and "one_scope_each (set (scope_chain scope) \<union> set (scope_chain other))"
  shows "is_ancestor_or_self scope other = Some (scope \<in> set (scope_chain other))"
  using assms by (intro ancestor_is_on_chain built_tables)

theorem ancestor_test_is_ancestry_witness:
  "is_ancestor_or_self demo_root demo_leaf = Some True \<and>
   is_ancestor_or_self demo_right demo_leaf = Some False"
proof -
  have one: "one_scope_each (set (scope_chain s) \<union> set (scope_chain demo_leaf))"
    if "s \<in> demo_world" for s
    using that by (intro world_one_each [OF demo_scope_world]) (auto simp: demo_world_def)
  show ?thesis
    using ancestor_test_is_ancestry [OF demo_scopes(1) demo_scope_leaf(1) one]
      ancestor_test_is_ancestry [OF demo_scope_right(1) demo_scope_leaf(1) one] demo_distinct
    by (auto simp: demo_scopes demo_world_def)
qed

text \<open>
  C21: The common climb answers the nearest common ancestor: the scopes that are above both
  arguments are exactly the answer and what is above it, and no answer is given exactly if
  nothing is above both.
\<close>

theorem lca_is_nearest:
  assumes "built left" "built right"
    and "one_scope_each (set (scope_chain left) \<union> set (scope_chain right))"
  shows "\<exists>a. scope_lca left right = Some a \<and>
    set (scope_path a) = set (scope_chain left) \<inter> set (scope_chain right)"
  using lca_common [OF built_tables built_tables] assms by blast

theorem lca_is_nearest_witness:
  "\<exists>a. scope_lca demo_leaf demo_right = Some a \<and> set (scope_path a) = {demo_root}"
proof -
  have "one_scope_each (set (scope_chain demo_leaf) \<union> set (scope_chain demo_right))"
    by (intro world_one_each [OF demo_scope_world]) (auto simp: demo_world_def)
  from lca_is_nearest [OF demo_scope_leaf(1) demo_scope_right(1) this] demo_distinct
  show ?thesis by (auto simp: demo_scopes)
qed

end
