(* ===== verification/Class_Store.thy ===== *)
theory Class_Store
  imports Lichen_Prelude Disjoint Scope_Tree
begin

text \<open>
  The equality classes of a module and what is stored for a whole class
  (\<open>lichen-lowlevel/src/equality.rs\<close>, the \<open>Module\<close> part of \<open>scope.rs\<close>, \<open>flatten_class\<close> of
  \<open>gc.rs\<close> and the function scopes of \<open>module.rs\<close>): the value every member holds, the low type and
  the scope summary its representative holds.

  A node is kept by columns: one map for each field of \<open>Node\<close> the class operations touch, read
  only at keys the union-find table \<open>cl_meta\<close> holds (the slot map's keys), so an index that is
  absent is a panic. A program's value type is a parameter; all that is read of a value is the
  structural variant \<open>as_enum\<close> answers, an argument of the operations that ask for it. A failed
  \<open>debug_assert\<close> is a panic, as in a build that checks overflow.
\<close>

section \<open>Values, low types and the store\<close>

datatype ('a, 't, 'f) low_value =
    Low_USize u64
  | Low_Float u32
  | Low_Str string
  | Low_Array 'a
  | Low_Table 't
  | Low_Function 'f
  | Low_None
  | Low_Error
  | Low_Any

datatype low_shape =
    Shape_USize
  | Shape_Float
  | Shape_Tuple "low_shape option list"
  | Shape_Array "low_shape option" u64
  | Shape_Function "low_shape option" "low_shape option"
  | Shape_Table "low_shape option" "low_shape option"

fun observed_low_shape :: "('a, 't, 'f) low_value option \<Rightarrow> low_shape option" where
  "observed_low_shape (Some (Low_USize _)) = Some Shape_USize"
| "observed_low_shape (Some (Low_Float _)) = Some Shape_Float"
| "observed_low_shape _ = None"

text \<open>A function's entry: the nodes its template lists, its lexical parent and its scope.\<close>

record ('k, 'f) func =
  fn_nodes :: "'k list"
  fn_parent :: "'f option"
  fn_scope :: "'f scope option"

record ('k, 'v, 'f, 'b) class_store =
  cl_meta :: "'k uf"
  cl_value :: "'k \<Rightarrow> 'v option"
  cl_shape :: "'k \<Rightarrow> low_shape option"
  cl_owner :: "'k \<Rightarrow> 'f option"
  cl_summary :: "'k \<Rightarrow> 'f scope option"
  cl_block :: "'k \<Rightarrow> 'b"
  cl_functions :: "'f \<Rightarrow> ('k, 'f) func option"

section \<open>Reading a class\<close>

partial_function (option) class_root :: "'k uf \<Rightarrow> 'k \<Rightarrow> 'k option" where
  "class_root nodes node =
     Option.bind (nodes node) (\<lambda>m.
       case m_parent m of None \<Rightarrow> Some node | Some parent \<Rightarrow> class_root nodes parent)"

declare class_root.simps [code]

text \<open>The loop that visits a member list from \<open>member\<close> on: \<open>next\<close> is read before the body runs.\<close>

partial_function (option) walk_members ::
  "'k uf \<Rightarrow> ('k \<Rightarrow> 's \<Rightarrow> 's option) \<Rightarrow> 'k option \<Rightarrow> 's \<Rightarrow> 's option" where
  "walk_members nodes body member s =
     (case member of
        None \<Rightarrow> Some s
      | Some current \<Rightarrow>
          Option.bind (nodes current) (\<lambda>m.
          Option.bind (body current s) (\<lambda>s. walk_members nodes body (m_next m) s)))"

declare walk_members.simps [code]

definition class_value :: "('k, 'v, 'f, 'b) class_store \<Rightarrow> 'k \<Rightarrow> 'v option option" where
  "class_value st node = Option.bind (class_root (cl_meta st) node) (\<lambda>root.
     Some (case cl_meta st root of None \<Rightarrow> None | Some _ \<Rightarrow> cl_value st root))"

definition class_low_type :: "('k, 'v, 'f, 'b) class_store \<Rightarrow> 'k \<Rightarrow> low_shape option option" where
  "class_low_type st node = Option.bind (class_root (cl_meta st) node) (\<lambda>root.
     Some (case cl_meta st root of None \<Rightarrow> None | Some _ \<Rightarrow> cl_shape st root))"

definition function_scope :: "('k, 'v, 'f, 'b) class_store \<Rightarrow> 'f \<Rightarrow> 'f scope option" where
  "function_scope st function =
     (case cl_functions st function of None \<Rightarrow> None | Some entry \<Rightarrow> fn_scope entry)"

definition owner_scope :: "('k, 'v, 'f, 'b) class_store \<Rightarrow> 'k \<Rightarrow> 'f scope option option" where
  "owner_scope st node = Option.bind (cl_meta st node) (\<lambda>_.
     Some (case cl_owner st node of None \<Rightarrow> None | Some owner \<Rightarrow> function_scope st owner))"

definition class_scope_summary ::
  "('k, 'v, 'f, 'b) class_store \<Rightarrow> 'k \<Rightarrow> 'f scope option option" where
  "class_scope_summary st node = Option.bind (class_root (cl_meta st) node) (\<lambda>root.
     Some (case cl_meta st root of None \<Rightarrow> None | Some _ \<Rightarrow> cl_summary st root))"

definition class_inside_scope ::
  "('k, 'v, 'f, 'b) class_store \<Rightarrow> 'k \<Rightarrow> 'f scope \<Rightarrow> bool option" where
  "class_inside_scope st node scope =
     Option.bind (class_scope_summary st node) (\<lambda>summary.
       case summary of
         None \<Rightarrow> Some False
       | Some summary \<Rightarrow> is_ancestor_or_self scope summary)"

section \<open>Writing a class\<close>

definition refine_class_low_type :: "('k, 'v, 'f, 'b) class_store \<Rightarrow> 'k \<Rightarrow> low_shape \<Rightarrow>
    (('k, 'v, 'f, 'b) class_store \<times> bool) option" where
  "refine_class_low_type st node shape =
     Option.bind (class_root (cl_meta st) node) (\<lambda>root.
       case cl_meta st root of
         None \<Rightarrow> Some (st, False)
       | Some _ \<Rightarrow>
           (case cl_shape st root of
              None \<Rightarrow> Some (st\<lparr>cl_shape := (cl_shape st)(root := Some shape)\<rparr>, True)
            | Some current \<Rightarrow> if current = shape then Some (st, False) else None))"

definition observe_class_low_type ::
  "('v \<Rightarrow> ('a, 't, 'g) low_value option) \<Rightarrow> ('k, 'v, 'f, 'b) class_store \<Rightarrow> 'k \<Rightarrow> 'v \<Rightarrow>
    ('k, 'v, 'f, 'b) class_store option" where
  "observe_class_low_type as_enum st node v =
     (case observed_low_shape (as_enum v) of
        None \<Rightarrow> Some st
      | Some shape \<Rightarrow> map_option fst (refine_class_low_type st node shape))"

definition fill_hole :: "'v \<Rightarrow> 'k \<Rightarrow> ('k \<Rightarrow> 'v option) \<Rightarrow> ('k \<Rightarrow> 'v option) option" where
  "fill_hole v current vals =
     Some (if vals current = None then vals(current := Some v) else vals)"

definition fill_class_holes ::
  "('k, 'v, 'f, 'b) class_store \<Rightarrow> 'k \<Rightarrow> 'v \<Rightarrow> ('k, 'v, 'f, 'b) class_store option" where
  "fill_class_holes st representative v =
     map_option (\<lambda>vals. st\<lparr>cl_value := vals\<rparr>)
       (walk_members (cl_meta st) (fill_hole v) (Some representative) (cl_value st))"

definition propagate_class_value ::
  "('k, 'v, 'f, 'b) class_store \<Rightarrow> 'k \<Rightarrow> 'v \<Rightarrow> ('k, 'v, 'f, 'b) class_store option" where
  "propagate_class_value st representative v =
     map_option (\<lambda>vals. st\<lparr>cl_value := vals\<rparr>)
       (walk_members (cl_meta st) (\<lambda>current vals. Some (vals(current := Some v)))
         (Some representative) (cl_value st))"

definition set_node_value ::
  "('k, 'v, 'f, 'b) class_store \<Rightarrow> 'k \<Rightarrow> 'v option \<Rightarrow> ('k, 'v, 'f, 'b) class_store option" where
  "set_node_value st node v = Option.bind (cl_meta st node) (\<lambda>_.
     Some (st\<lparr>cl_value := (cl_value st)(node := v)\<rparr>))"

definition write_node_value ::
  "('v \<Rightarrow> ('a, 't, 'g) low_value option) \<Rightarrow> ('k, 'v, 'f, 'b) class_store \<Rightarrow> 'k \<Rightarrow> 'v option \<Rightarrow>
    ('k, 'v, 'f, 'b) class_store option" where
  "write_node_value as_enum st node v =
     (if cl_value st node \<noteq> None then None
      else Option.bind (set_node_value st node v) (\<lambda>st.
        case v of
          None \<Rightarrow> Some st
        | Some v \<Rightarrow>
            Option.bind (cl_meta st node) (\<lambda>m.
              if m_parent m = None \<and> m_next m = None then Some st
              else Option.bind (uf_find (cl_meta st) node) (\<lambda>(nodes, representative).
                Option.bind (propagate_class_value (st\<lparr>cl_meta := nodes\<rparr>) representative v) (\<lambda>st.
                  observe_class_low_type as_enum st representative v)))))"

definition write_node_value_if_absent ::
  "('v \<Rightarrow> ('a, 't, 'g) low_value option) \<Rightarrow> ('k, 'v, 'f, 'b) class_store \<Rightarrow> 'k \<Rightarrow> 'v option \<Rightarrow>
    ('k, 'v, 'f, 'b) class_store option" where
  "write_node_value_if_absent as_enum st node v = Option.bind (cl_meta st node) (\<lambda>_.
     if cl_value st node \<noteq> None then Some st else write_node_value as_enum st node v)"

text \<open>One member in the loop of \<open>refresh_class_summary\<close>: the summary so far, if any was seen.\<close>

definition summary_step :: "('k, 'v, 'f, 'b) class_store \<Rightarrow> 'k \<Rightarrow> 'f scope option \<times> bool \<Rightarrow>
    ('f scope option \<times> bool) option" where
  "summary_step st current = (\<lambda>(summary, seen).
     Option.bind (owner_scope st current) (\<lambda>owner.
       if seen then map_option (\<lambda>m. (m, seen)) (merge_summaries summary owner)
       else Some (owner, True)))"

definition refresh_class_summary ::
  "('k, 'v, 'f, 'b) class_store \<Rightarrow> 'k \<Rightarrow> ('k, 'v, 'f, 'b) class_store option" where
  "refresh_class_summary st node =
     Option.bind (uf_find (cl_meta st) node) (\<lambda>(nodes, root).
       let st = st\<lparr>cl_meta := nodes\<rparr> in
       Option.bind (nodes root) (\<lambda>m.
         if m_next m = None then
           Option.bind (owner_scope st root) (\<lambda>summary.
             Some (st\<lparr>cl_summary := (cl_summary st)(root := summary)\<rparr>))
         else
           Option.bind (walk_members nodes (summary_step st) (Some root) (None, False))
             (\<lambda>(summary, seen).
               Some (st\<lparr>cl_summary := (cl_summary st)(root := summary)\<rparr>))))"

definition set_node_owner ::
  "('k, 'v, 'f, 'b) class_store \<Rightarrow> 'k \<Rightarrow> 'f option \<Rightarrow> ('k, 'v, 'f, 'b) class_store option" where
  "set_node_owner st node owner = Option.bind (cl_meta st node) (\<lambda>_.
     refresh_class_summary (st\<lparr>cl_owner := (cl_owner st)(node := owner)\<rparr>) node)"

definition merge_class_summaries ::
  "('k, 'v, 'f, 'b) class_store \<Rightarrow> 'k \<Rightarrow> 'k \<Rightarrow> 'k \<Rightarrow> ('k, 'v, 'f, 'b) class_store option" where
  "merge_class_summaries st left right representative =
     Option.bind (cl_meta st left) (\<lambda>_. Option.bind (cl_meta st right) (\<lambda>_.
     Option.bind (merge_summaries (cl_summary st left) (cl_summary st right)) (\<lambda>summary.
     Option.bind (cl_meta st representative) (\<lambda>_.
       Some (st\<lparr>cl_summary := (cl_summary st)(representative := summary)\<rparr>)))))"

definition add_equality :: "('k, 'v, 'f, 'b) class_store \<Rightarrow> 'k \<Rightarrow> 'k \<Rightarrow>
    (('k, 'v, 'f, 'b) class_store \<times> 'k) option" where
  "add_equality st a b =
     Option.bind (uf_find (cl_meta st) a) (\<lambda>(nodes, root_a).
     Option.bind (uf_find nodes b) (\<lambda>(nodes, root_b).
       let st = st\<lparr>cl_meta := nodes\<rparr>; left = cl_shape st root_a; right = cl_shape st root_b in
       Option.bind (case (cl_value st a, cl_value st b) of
           (None, Some v) \<Rightarrow> fill_class_holes st root_a v
         | (Some v, None) \<Rightarrow> fill_class_holes st root_b v
         | _ \<Rightarrow> Some st) (\<lambda>st.
       Option.bind (uf_union (cl_meta st) root_a root_b) (\<lambda>(nodes, representative).
       Option.bind (merge_class_summaries (st\<lparr>cl_meta := nodes\<rparr>) root_a root_b representative) (\<lambda>st.
       Option.bind (fold_opt (\<lambda>shape st. map_option fst (refine_class_low_type st representative shape))
           (List.map_filter (\<lambda>shape. shape) [left, right]) st) (\<lambda>st.
         Some (st, representative)))))))"

text \<open>A new node: \<open>key\<close> is what the slot map answers to the insertion.\<close>

definition add_node ::
  "('v \<Rightarrow> ('a, 't, 'g) low_value option) \<Rightarrow> ('k, 'v, 'f, 'b) class_store \<Rightarrow> 'k \<Rightarrow> 'b \<Rightarrow> 'v option \<Rightarrow>
    ('k, 'v, 'f, 'b) class_store option" where
  "add_node as_enum st key block v =
     Option.bind (make_set ((cl_meta st)(key \<mapsto> meta_new None None None 0)) key) (\<lambda>nodes.
       let st = st\<lparr>cl_meta := nodes, cl_value := (cl_value st)(key := v),
           cl_shape := (cl_shape st)(key := None), cl_owner := (cl_owner st)(key := None),
           cl_summary := (cl_summary st)(key := None), cl_block := (cl_block st)(key := block)\<rparr> in
       case v of
         None \<Rightarrow> Some st
       | Some v \<Rightarrow> observe_class_low_type as_enum st key v)"

definition register_in_function ::
  "('k, 'v, 'f, 'b) class_store \<Rightarrow> 'f \<Rightarrow> 'k \<Rightarrow> ('k, 'v, 'f, 'b) class_store option" where
  "register_in_function st function node =
     Option.bind (cl_functions st function) (\<lambda>_.
     Option.bind (set_node_owner st node (Some function)) (\<lambda>st.
     Option.bind (cl_functions st function) (\<lambda>entry.
       Some (st\<lparr>cl_functions := (cl_functions st)(function \<mapsto>
         entry\<lparr>fn_nodes := fn_nodes entry @ [node]\<rparr>)\<rparr>))))"

text \<open>The class of a dropped block's representative loses the members homed in the block.\<close>

definition flatten_class ::
  "('k, 'v, 'f, 'b) class_store \<Rightarrow> 'k \<Rightarrow> 'b \<Rightarrow> ('k, 'v, 'f, 'b) class_store option" where
  "flatten_class st rep dropped =
     Option.bind (cl_meta st rep) (\<lambda>_.
     let low_shape = cl_shape st rep in
     Option.bind (walk_members (cl_meta st)
         (\<lambda>member survivors. Some (if cl_block st member = dropped then survivors
            else survivors @ [member])) (Some rep) []) (\<lambda>survivors.
     Option.bind (uf_rebuild (cl_meta st) survivors) (\<lambda>nodes.
       let st = st\<lparr>cl_meta := nodes\<rparr> in
       case survivors of
         [] \<Rightarrow> Some st
       | representative # _ \<Rightarrow>
           Option.bind (refresh_class_summary st representative) (\<lambda>st.
           Option.bind (case List.map_filter
                 (\<lambda>member. if cl_meta st member = None then None else cl_value st member) survivors of
               [] \<Rightarrow> Some st
             | v # _ \<Rightarrow> fill_class_holes st representative v) (\<lambda>st.
             case low_shape of
               None \<Rightarrow> Some st
             | Some shape \<Rightarrow> map_option fst (refine_class_low_type st representative shape))))))"

end
