(* ===== verification/Class_Invariant.thy ===== *)
theory Class_Invariant
  imports Class_Store
begin

text \<open>
  What the class operations keep: one value for a class, one low type, and a scope summary that is
  the nearest scope above every member's owner.
\<close>

section \<open>Walks over a class\<close>

lemma class_root_rep: "rep_of nodes k r \<Longrightarrow> class_root nodes k = Some r"
proof -
  have "climbs nodes k d r \<Longrightarrow> class_root nodes k = Some r" for d
  proof (induction rule: climbs.induct)
    case (climbs_root k m)
    then show ?case by (subst class_root.simps) simp
  next
    case (climbs_step k m p d r)
    then show ?case by (subst class_root.simps) simp
  qed
  then show "rep_of nodes k r \<Longrightarrow> class_root nodes k = Some r" by (auto simp: rep_of_def)
qed

lemma walk_chain:
  "next_chain nodes ms \<Longrightarrow> walk_members nodes body (Some (hd ms)) s = fold_opt body ms s"
proof (induction ms arbitrary: s rule: induct_list012)
  case (2 k)
  then obtain m where "nodes k = Some m" "m_next m = None" by auto
  then show ?case
    by (subst walk_members.simps) (cases "body k s"; simp; subst walk_members.simps; simp)
next
  case (3 k k' ks)
  then obtain m where "nodes k = Some m" "m_next m = Some k'" by auto
  moreover have "walk_members nodes body (Some k') t = fold_opt body (k' # ks) t" for t
    using 3 by simp
  ultimately show ?case by (subst walk_members.simps) (cases "body k s"; simp)
qed simp

definition filled :: "'v \<Rightarrow> 'k set \<Rightarrow> ('k \<Rightarrow> 'v option) \<Rightarrow> 'k \<Rightarrow> 'v option" where
  "filled v ks vals k = (if k \<in> ks \<and> vals k = None then Some v else vals k)"

lemma fill_fold: "fold_opt (fill_hole v) ms vals = Some (filled v (set ms) vals)"
proof (induction ms arbitrary: vals)
  case Nil
  show ?case by (simp add: filled_def fun_eq_iff)
next
  case (Cons k ms)
  then show ?case by (auto simp: fill_hole_def filled_def fun_eq_iff)
qed

lemma propagate_fold:
  "fold_opt (\<lambda>current vals. Some (vals(current := Some v))) ms vals =
    Some (\<lambda>k. if k \<in> set ms then Some v else vals k)"
proof (induction ms arbitrary: vals)
  case (Cons k ms)
  then show ?case by (auto simp: fun_eq_iff)
qed simp

lemma survivors_fold:
  "fold_opt (\<lambda>member survivors. Some (if cl_block st member = b then survivors else survivors @ [member]))
     ms acc = Some (acc @ List.filter (\<lambda>k. cl_block st k \<noteq> b) ms)"
  by (induction ms arbitrary: acc) auto

section \<open>The scope of a member's owner\<close>

definition owner_of :: "('k, 'v, 'f, 'b) class_store \<Rightarrow> 'k \<Rightarrow> 'f scope option" where
  "owner_of st k = (case cl_owner st k of None \<Rightarrow> None | Some f \<Rightarrow> function_scope st f)"

lemma owner_scope_of [simp]: "k \<in> dom (cl_meta st) \<Longrightarrow> owner_scope st k = Some (owner_of st k)"
  by (auto simp: owner_scope_def owner_of_def)

lemma summary_fold:
  "set ms \<subseteq> dom (cl_meta st) \<Longrightarrow> fold_opt (summary_step st) ms (summary, True) =
    map_option (\<lambda>m. (m, True))
      (fold_opt (\<lambda>x s. merge_summaries s x) (map (owner_of st) ms) summary)"
proof (induction ms arbitrary: summary)
  case (Cons k ms)
  then show ?case
    by (cases "merge_summaries summary (owner_of st k)") (simp_all add: summary_step_def)
qed simp

definition store_ok :: "'f scope set \<Rightarrow> ('k, 'v, 'f, 'b) class_store \<Rightarrow> bool" where
  "store_ok A st \<longleftrightarrow> scope_world A \<and> (\<forall>f. in_world A (function_scope st f))"

lemma store_ok_owner: "store_ok A st \<Longrightarrow> in_world A (owner_of st k)"
  by (cases "cl_owner st k") (auto simp: store_ok_def owner_of_def)

lemma summarizes_one: "in_world A s \<Longrightarrow> summarizes A s {s}"
  by (simp add: summarizes_def)

lemma function_scope_upd [simp]:
  "function_scope (st\<lparr>cl_meta := n\<rparr>) = function_scope st"
  "function_scope (st\<lparr>cl_summary := s\<rparr>) = function_scope st"
  "function_scope (st\<lparr>cl_value := vals\<rparr>) = function_scope st"
  "function_scope (st\<lparr>cl_shape := sh\<rparr>) = function_scope st"
  "function_scope (st\<lparr>cl_owner := ow\<rparr>) = function_scope st"
  "function_scope (st\<lparr>cl_block := bl\<rparr>) = function_scope st"
  by (simp_all add: function_scope_def fun_eq_iff)

lemma owner_of_upd [simp]:
  "owner_of (st\<lparr>cl_meta := n\<rparr>) = owner_of st"
  "owner_of (st\<lparr>cl_summary := s\<rparr>) = owner_of st"
  "owner_of (st\<lparr>cl_value := vals\<rparr>) = owner_of st"
  "owner_of (st\<lparr>cl_shape := sh\<rparr>) = owner_of st"
  "owner_of (st\<lparr>cl_block := bl\<rparr>) = owner_of st"
  by (simp_all add: owner_of_def fun_eq_iff split: option.split)

lemma store_ok_upd [simp]:
  "store_ok A (st\<lparr>cl_meta := n\<rparr>) = store_ok A st"
  "store_ok A (st\<lparr>cl_summary := s\<rparr>) = store_ok A st"
  "store_ok A (st\<lparr>cl_value := vals\<rparr>) = store_ok A st"
  "store_ok A (st\<lparr>cl_shape := sh\<rparr>) = store_ok A st"
  "store_ok A (st\<lparr>cl_owner := ow\<rparr>) = store_ok A st"
  "store_ok A (st\<lparr>cl_block := bl\<rparr>) = store_ok A st"
  by (simp_all add: store_ok_def)

text \<open>The refresh, from a table whose member list is known.\<close>

lemma refresh_chain:
  assumes ok: "store_ok A st" and f: "uf_find (cl_meta st) k = Some (n, hd ms)"
    and c: "next_chain n ms"
  shows "\<exists>s. refresh_class_summary st k =
      Some (st\<lparr>cl_meta := n, cl_summary := (cl_summary st)(hd ms := s)\<rparr>) \<and>
    summarizes A s (owner_of st ` set ms)"
proof -
  let ?st = "st\<lparr>cl_meta := n\<rparr>"
  have A: "scope_world A" using ok by (simp add: store_ok_def)
  have sub: "set ms \<subseteq> dom (cl_meta ?st)" using next_chain_dom [OF c] by simp
  obtain r rs where ms: "ms = r # rs" using c by (cases ms) auto
  obtain m where m: "n r = Some m" "m_next m = None \<longleftrightarrow> rs = []"
    using c ms by (cases rs) auto
  show ?thesis
  proof (cases "rs = []")
    case True
    have "owner_scope ?st r = Some (owner_of st r)" using sub ms by simp
    with True m f ms store_ok_owner [OF ok, of r] show ?thesis
      by (intro exI [of _ "owner_of st r"])
        (simp add: refresh_class_summary_def summarizes_one)
  next
    case False
    have w: "walk_members n (summary_step ?st) (Some r) (None, False) =
        fold_opt (summary_step ?st) ms (None, False)"
      using walk_chain [OF c] ms by simp
    have first: "summary_step ?st r (None, False) = Some (owner_of st r, True)"
      using sub ms by (simp add: summary_step_def)
    have "set rs \<subseteq> dom (cl_meta ?st)" using sub ms by simp
    note rest = summary_fold [OF this, of "owner_of st r"]
    obtain s where s: "fold_opt (\<lambda>x s. merge_summaries s x) (map (owner_of st) rs) (owner_of st r) =
        Some s" "summarizes A s (insert (owner_of st r) (set (map (owner_of st) rs)))"
      using fold_summarizes [OF A store_ok_owner [OF ok, of r], of "map (owner_of st) rs"]
        store_ok_owner [OF ok] by auto
    have "walk_members n (summary_step ?st) (Some r) (None, False) = Some (s, True)"
      unfolding w unfolding ms using first rest s(1) by simp
    moreover have "insert (owner_of st r) (set (map (owner_of st) rs)) = owner_of st ` set ms"
      using ms by auto
    moreover have "m_next m \<noteq> None" using m(2) False by simp
    ultimately show ?thesis using f m(1) s(2) ms
      by (intro exI [of _ s]) (simp add: refresh_class_summary_def Let_def del: not_None_eq)
  qed
qed

section \<open>The invariant\<close>

definition class_of :: "'k uf \<Rightarrow> 'k \<Rightarrow> 'k set" where
  "class_of nodes r = {k. rep_of nodes k r}"

definition one_value :: "('k, 'v, 'f, 'b) class_store \<Rightarrow> 'k set \<Rightarrow> 'k \<Rightarrow> bool" where
  "one_value st ks r \<longleftrightarrow> (\<forall>k \<in> ks. cl_value st k = cl_value st r)"

definition one_shape :: "('k, 'v, 'f, 'b) class_store \<Rightarrow> 'k set \<Rightarrow> 'k \<Rightarrow> bool" where
  "one_shape st ks r \<longleftrightarrow> (\<forall>k \<in> ks. cl_shape st k = None \<or> cl_shape st k = cl_shape st r)"

definition class_ok :: "'f scope set \<Rightarrow> ('k, 'v, 'f, 'b) class_store \<Rightarrow> 'k set \<Rightarrow> 'k \<Rightarrow> bool" where
  "class_ok A st ks r \<longleftrightarrow> summarizes A (cl_summary st r) (owner_of st ` ks) \<and>
     one_value st ks r \<and> one_shape st ks r"

definition class_inv :: "'f scope set \<Rightarrow> ('k, 'v, 'f, 'b) class_store \<Rightarrow> bool" where
  "class_inv A st \<longleftrightarrow> store_ok A st \<and> uf_inv (cl_meta st) \<and>
     (\<forall>r. is_root (cl_meta st) r \<longrightarrow> class_ok A st (class_of (cl_meta st) r) r)"

lemma class_ofI [intro]: "rep_of nodes k r \<Longrightarrow> k \<in> class_of nodes r"
  by (simp add: class_of_def)

lemma class_of_list: "set_list nodes r ms \<Longrightarrow> class_of nodes r = set ms"
  by (simp add: class_of_def set_list_def)

lemma class_of_compressed: "uf_inv nodes \<Longrightarrow> compressed nodes n \<Longrightarrow> class_of n r = class_of nodes r"
  unfolding class_of_def by (simp only: compressed_rep_of)

lemma class_ok_cong:
  assumes "cl_summary st' r = cl_summary st r" "\<And>k. k \<in> ks \<Longrightarrow> owner_of st' k = owner_of st k"
    "\<And>k. k \<in> ks \<Longrightarrow> cl_value st' k = cl_value st k" "\<And>k. k \<in> ks \<Longrightarrow> cl_shape st' k = cl_shape st k"
    "r \<in> ks"
  shows "class_ok A st' ks r = class_ok A st ks r"
proof -
  have "owner_of st' ` ks = owner_of st ` ks" using assms(2) by (rule image_cong [OF refl])
  with assms show ?thesis by (simp add: class_ok_def one_value_def one_shape_def)
qed

lemma class_invD:
  assumes "class_inv A st"
  shows "store_ok A st" "uf_inv (cl_meta st)"
    and "rep_of (cl_meta st) k r \<Longrightarrow> class_ok A st (class_of (cl_meta st) r) r"
  using assms by (auto simp: class_inv_def dest: rep_of_is_root)

lemma class_inv_rep:
  assumes "class_inv A st" "k \<in> dom (cl_meta st)"
  obtains r where "rep_of (cl_meta st) k r"
  using class_invD(2) [OF assms(1)] assms(2) by (auto simp: uf_inv_def)

lemma class_inv_compressed:
  assumes inv: "class_inv A st" and c: "compressed (cl_meta st) n"
  shows "class_inv A (st\<lparr>cl_meta := n\<rparr>)"
proof -
  note u = class_invD(2) [OF inv]
  have "class_ok A (st\<lparr>cl_meta := n\<rparr>) (class_of n r) r" if "is_root n r" for r
  proof -
    have r: "rep_of (cl_meta st) r r"
      using that compressed_rep_of [OF u c] by (simp add: is_root_iff_rep)
    then have "class_ok A st (class_of (cl_meta st) r) r" by (rule class_invD [OF inv])
    moreover have "class_ok A (st\<lparr>cl_meta := n\<rparr>) (class_of (cl_meta st) r) r =
        class_ok A st (class_of (cl_meta st) r) r"
      by (rule class_ok_cong) (use r in auto)
    ultimately show ?thesis by (simp add: class_of_compressed [OF u c])
  qed
  then show ?thesis using inv compressed_inv [OF u c] by (simp add: class_inv_def)
qed

lemma refresh_spec:
  assumes ok: "store_ok A st" and u: "uf_inv (cl_meta st)" and k: "rep_of (cl_meta st) k r"
  obtains n s where "refresh_class_summary st k =
      Some (st\<lparr>cl_meta := n, cl_summary := (cl_summary st)(r := s)\<rparr>)"
    "compressed (cl_meta st) n" "summarizes A s (owner_of st ` class_of (cl_meta st) r)"
proof -
  have "k \<in> dom (cl_meta st)" using rep_of_dom [OF k] by simp
  with u obtain n r' where f: "uf_find (cl_meta st) k = Some (n, r')" "rep_of (cl_meta st) k r'"
    "compressed (cl_meta st) n" by (rule find_total)
  have "r' = r" using k f(2) by (rule rep_of_unique)
  obtain ms where l: "set_list (cl_meta st) r ms"
    using u rep_of_is_root [OF k] by (rule uf_inv_set_list)
  then have l': "set_list n r ms" using compressed_set_list [OF u f(3)] by simp
  then have "next_chain n ms" "hd ms = r" by (auto simp: set_list_def)
  with refresh_chain [OF ok, of k n ms] f(1) \<open>r' = r\<close> that [OF _ f(3)] show thesis
    unfolding class_of_list [OF l] by auto
qed

text \<open>A class whose members stay together may be rewritten by itself.\<close>

lemma class_inv_change:
  assumes inv: "class_inv A st" and r: "is_root (cl_meta st) r"
    and st: "cl_meta st' = cl_meta st" "store_ok A st'"
    and here: "class_ok A st' (class_of (cl_meta st) r) r"
    and same: "\<And>k s. rep_of (cl_meta st) k s \<Longrightarrow> s \<noteq> r \<Longrightarrow> owner_of st' k = owner_of st k \<and>
      cl_value st' k = cl_value st k \<and> cl_shape st' k = cl_shape st k \<and>
      (k = s \<longrightarrow> cl_summary st' k = cl_summary st k)"
  shows "class_inv A st'"
  unfolding class_inv_def st(1)
proof (intro conjI allI impI)
  fix s assume s: "is_root (cl_meta st) s"
  show "class_ok A st' (class_of (cl_meta st) s) s"
  proof (cases "s = r")
    case False
    have ss: "rep_of (cl_meta st) s s" using s by (simp add: is_root_iff_rep)
    have "class_ok A st' (class_of (cl_meta st) s) s = class_ok A st (class_of (cl_meta st) s) s"
      by (rule class_ok_cong) (use same [OF _ False] ss in \<open>auto simp: class_of_def\<close>)
    then show ?thesis using class_invD(3) [OF inv ss] by simp
  qed (use here in simp)
qed (use st class_invD(2) [OF inv] in auto)

lemma set_owner_spec:
  assumes inv: "class_inv A st" and k: "rep_of (cl_meta st) k r"
  obtains st' where "set_node_owner st k owner = Some st'" "class_inv A st'"
    "compressed (cl_meta st) (cl_meta st')" "cl_owner st' = (cl_owner st)(k := owner)"
    "cl_value st' = cl_value st" "cl_shape st' = cl_shape st" "cl_functions st' = cl_functions st"
proof -
  let ?st = "st\<lparr>cl_owner := (cl_owner st)(k := owner)\<rparr>"
  have ok: "store_ok A ?st" "uf_inv (cl_meta ?st)" "rep_of (cl_meta ?st) k r"
    using class_invD(1,2) [OF inv] k by simp_all
  from refresh_spec [OF this] obtain n s where
    f: "refresh_class_summary ?st k =
      Some (?st\<lparr>cl_meta := n, cl_summary := (cl_summary ?st)(r := s)\<rparr>)"
    "compressed (cl_meta ?st) n" "summarizes A s (owner_of ?st ` class_of (cl_meta ?st) r)" .
  let ?st' = "st\<lparr>cl_owner := (cl_owner st)(k := owner), cl_summary := (cl_summary st)(r := s)\<rparr>"
  have own: "owner_of ?st' = owner_of ?st" by (simp add: owner_of_def function_scope_def fun_eq_iff)
  have "class_inv A ?st'"
  proof (rule class_inv_change [OF inv])
    show "is_root (cl_meta st) r" using k by (rule rep_of_is_root)
    have "class_ok A st (class_of (cl_meta st) r) r" using k by (rule class_invD [OF inv])
    with f(3) show "class_ok A ?st' (class_of (cl_meta st) r) r"
      unfolding class_ok_def one_value_def one_shape_def own by simp
    fix x t assume x: "rep_of (cl_meta st) x t" "t \<noteq> r"
    then have "x \<noteq> k" using k rep_of_unique by metis
    moreover have "x \<noteq> r" using x rep_of_is_root [OF k] by auto
    ultimately show "owner_of ?st' x = owner_of st x \<and> cl_value ?st' x = cl_value st x \<and>
        cl_shape ?st' x = cl_shape st x \<and> (x = t \<longrightarrow> cl_summary ?st' x = cl_summary st x)"
      by (simp add: owner_of_def split: option.split)
  qed (use class_invD(1) [OF inv] in simp_all)
  from class_inv_compressed [OF this] f(2)
  have "class_inv A (?st'\<lparr>cl_meta := n\<rparr>)" by simp
  moreover have "set_node_owner st k owner = Some (?st'\<lparr>cl_meta := n\<rparr>)"
    using rep_of_dom [OF k] f(1) by (auto simp: set_node_owner_def)
  ultimately show thesis using f(2) by (intro that [of "?st'\<lparr>cl_meta := n\<rparr>"]) simp_all
qed

section \<open>Merging two classes\<close>

lemma union_classes:
  assumes u: "uf_inv nodes" and ra: "is_root nodes ra" and rb: "is_root nodes rb"
  obtains n r where "uf_union nodes ra rb = Some (n, r)" "uf_inv n" "r = ra \<or> r = rb"
    "dom n = dom nodes" "class_of n r = class_of nodes ra \<union> class_of nodes rb"
    "\<And>t. is_root n t \<Longrightarrow> t \<noteq> r \<Longrightarrow>
      is_root nodes t \<and> t \<noteq> ra \<and> t \<noteq> rb \<and> class_of n t = class_of nodes t"
proof -
  have reps: "rep_of nodes ra ra" "rep_of nodes rb rb" using ra rb by (simp_all add: is_root_iff_rep)
  then have "ra \<in> dom nodes" "rb \<in> dom nodes" using rep_of_dom by metis+
  from union_total [OF u this] obtain n r where
    f: "uf_union nodes ra rb = Some (n, r)" and e: "union_ends nodes ra rb n r" by metis
  have e': "uf_inv n" "dom n = dom nodes" "merged nodes n ra rb" "rep_of n ra r" "rep_of n rb r"
    using e by (simp_all add: union_ends_def)
  have to: "same_set nodes k ra \<longleftrightarrow> rep_of nodes k ra" "same_set nodes ra k \<longleftrightarrow> rep_of nodes k ra"
    "same_set nodes k rb \<longleftrightarrow> rep_of nodes k rb" "same_set nodes rb k \<longleftrightarrow> rep_of nodes k rb" for k
    using reps same_set_iff_rep same_set_sym by metis+
  have "rep_of n k r \<longleftrightarrow> same_set n k ra" for k
    using same_set_iff_rep [OF e'(4)] same_set_sym by metis
  then have cls: "rep_of n k r \<longleftrightarrow> rep_of nodes k ra \<or> rep_of nodes k rb" for k
    using e'(3) to(1,3) [of k] reps(1) unfolding merged_def same_set_def by blast
  have "r \<in> {ra, rb} \<and> (\<forall>t. is_root n t \<longrightarrow> t \<noteq> r \<longrightarrow> is_root nodes t \<and> t \<noteq> ra \<and> t \<noteq> rb \<and>
      class_of n t = class_of nodes t)"
  proof (cases "same_set nodes ra rb")
    case True
    then have "compressed nodes n" using e by (simp add: union_ends_def)
    note rep = compressed_rep_of [OF u this]
    have "ra = rb" using True reps rep_of_unique unfolding same_set_def by metis
    moreover have "r = ra" using e'(4) reps rep_of_unique unfolding rep by metis
    ultimately show ?thesis by (auto simp: is_root_iff_rep rep class_of_def)
  next
    case False
    then obtain s where sp: "splices nodes n r s"
      and "rep_of nodes ra r \<and> rep_of nodes rb s \<or> rep_of nodes rb r \<and> rep_of nodes ra s"
      using e by (auto simp: union_ends_def)
    then have rs: "r = ra \<and> s = rb \<or> r = rb \<and> s = ra" using reps rep_of_unique by metis
    have "is_root nodes t \<and> t \<noteq> ra \<and> t \<noteq> rb \<and> class_of n t = class_of nodes t"
      if t: "is_root n t" "t \<noteq> r" for t
    proof -
      have tt: "rep_of n t t" using t by (simp add: is_root_iff_rep)
      have no: "\<not> rep_of nodes t ra" "\<not> rep_of nodes t rb"
        using cls [of t] rep_of_unique [OF tt] t(2) by auto
      have "t \<in> dom nodes" using rep_of_dom [OF tt] e'(2) by simp
      then obtain q where q: "rep_of nodes t q"
        using u unfolding uf_inv_def by blast
      have nq: "q \<noteq> ra" "q \<noteq> rb" using q no by auto
      obtain ms where l: "set_list nodes q ms"
        using u rep_of_is_root [OF q] by (rule uf_inv_set_list)
      have l': "set_list n q ms"
        using sp l rep_of_is_root [OF q] nq rs unfolding splices_def by metis
      have "rep_of n t q" using q set_list_mem [OF l] set_list_mem [OF l'] by simp
      then have "q = t" using tt rep_of_unique by metis
      then show ?thesis using rep_of_is_root [OF q] nq class_of_list [OF l] class_of_list [OF l']
        by simp
    qed
    with rs show ?thesis by blast
  qed
  with that [OF f e'(1) _ e'(2)] cls show thesis by (auto simp: class_of_def)
qed

lemma fill_chain:
  assumes "next_chain (cl_meta st) ms"
  shows "fill_class_holes st (hd ms) v = Some (st\<lparr>cl_value := filled v (set ms) (cl_value st)\<rparr>)"
  using walk_chain [OF assms, of "fill_hole v" "cl_value st"]
  by (simp add: fill_class_holes_def fill_fold)

lemma propagate_chain:
  assumes "next_chain (cl_meta st) ms"
  shows "propagate_class_value st (hd ms) v =
    Some (st\<lparr>cl_value := (\<lambda>k. if k \<in> set ms then Some v else cl_value st k)\<rparr>)"
  using walk_chain [OF assms, of "\<lambda>current vals. Some (vals(current := Some v))" "cl_value st"]
  by (simp add: propagate_class_value_def propagate_fold)

lemma root_chain:
  assumes "uf_inv nodes" "is_root nodes r"
  obtains ms where "next_chain nodes ms" "hd ms = r" "set ms = class_of nodes r"
  using assms by (metis class_of_list set_list_def uf_inv_set_list)

lemma fill_root:
  assumes "uf_inv (cl_meta st)" "is_root (cl_meta st) r"
  shows "fill_class_holes st r v =
    Some (st\<lparr>cl_value := filled v (class_of (cl_meta st) r) (cl_value st)\<rparr>)"
  using fill_chain root_chain [OF assms] by metis

lemma refine_root:
  assumes "is_root (cl_meta st) r" "cl_shape st r = None \<or> cl_shape st r = Some shape"
  shows "map_option fst (refine_class_low_type st r shape) =
    Some (st\<lparr>cl_shape := (cl_shape st)(r := Some shape)\<rparr>)"
proof -
  have "class_root (cl_meta st) r = Some r"
    using assms(1) by (intro class_root_rep) (simp add: is_root_iff_rep)
  moreover obtain m where "cl_meta st r = Some m" using assms(1) by (auto simp: is_root_def)
  moreover have "st\<lparr>cl_shape := (cl_shape st)(r := Some shape)\<rparr> = st" if "cl_shape st r = Some shape"
    using that by (simp add: fun_upd_idem)
  ultimately show ?thesis using assms(2) by (auto simp: refine_class_low_type_def)
qed

text \<open>Two statements for one class that do not disagree, and what they state together.\<close>

fun agree :: "'a option \<Rightarrow> 'a option \<Rightarrow> bool" where
  "agree (Some x) (Some y) = (x = y)"
| "agree _ _ = True"

definition either :: "'a option \<Rightarrow> 'a option \<Rightarrow> 'a option" where
  "either x y = (case x of None \<Rightarrow> y | Some _ \<Rightarrow> x)"

lemma either_stated:
  "agree x y \<Longrightarrow> z = None \<or> z = x \<Longrightarrow> z = None \<or> z = either x y"
  "agree x y \<Longrightarrow> z = None \<or> z = y \<Longrightarrow> z = None \<or> z = either x y"
  by (cases x; cases y; auto simp: either_def)+

lemma refine_both:
  assumes "is_root (cl_meta st) r" "agree left right" "cl_shape st r = left \<or> cl_shape st r = right"
  shows "fold_opt (\<lambda>shape st. map_option fst (refine_class_low_type st r shape))
      (List.map_filter (\<lambda>shape. shape) [left, right]) st =
    Some (st\<lparr>cl_shape := (cl_shape st)(r := either left right)\<rparr>)"
proof -
  have "is_root (cl_meta (st\<lparr>cl_shape := sh\<rparr>)) r" for sh using assms(1) by simp
  with assms show ?thesis
    by (cases left; cases right) (auto simp: refine_root List.map_filter_simps either_def
        fun_upd_idem simp del: map_option_eq_Some)
qed

lemma summarizes_union:
  assumes A: "scope_world A" and l: "summarizes A s S" and r: "summarizes A t T"
  obtains m where "merge_summaries s t = Some m" "summarizes A m (S \<union> T)"
proof -
  have "in_world A s" "in_world A t" using l r by (simp_all add: summarizes_def)
  from merge_common [OF A this] obtain m where "merge_summaries s t = Some m" "in_world A m"
    "set (scope_path m) = set (scope_path s) \<inter> set (scope_path t)" by blast
  with l r show thesis by (intro that [of m]) (auto simp: summarizes_def)
qed

lemma add_equality_spec:
  assumes inv: "class_inv A st"
    and a: "rep_of (cl_meta st) a ra" and b: "rep_of (cl_meta st) b rb"
    and vals: "agree (cl_value st a) (cl_value st b)"
    and shapes: "agree (cl_shape st ra) (cl_shape st rb)"
  obtains st' r where "add_equality st a b = Some (st', r)" "class_inv A st'" "r = ra \<or> r = rb"
    "dom (cl_meta st') = dom (cl_meta st)"
    "class_of (cl_meta st') r = class_of (cl_meta st) ra \<union> class_of (cl_meta st) rb"
    "cl_value st' r = either (cl_value st a) (cl_value st b)"
    "cl_shape st' r = either (cl_shape st ra) (cl_shape st rb)"
    "cl_functions st' = cl_functions st" "cl_owner st' = cl_owner st"
proof -
  note u = class_invD(2) [OF inv]
  have "a \<in> dom (cl_meta st)" using rep_of_dom [OF a] by simp
  with u obtain n1 ra' where f1: "uf_find (cl_meta st) a = Some (n1, ra')"
    "rep_of (cl_meta st) a ra'" "compressed (cl_meta st) n1" "uf_inv n1" by (rule find_total)
  have b1: "rep_of n1 b rb" using b compressed_rep_of [OF u f1(3)] by simp
  then have "b \<in> dom n1" using rep_of_dom by metis
  with f1(4) obtain n rb' where f2: "uf_find n1 b = Some (n, rb')"
    "rep_of n1 b rb'" "compressed n1 n" "uf_inv n" by (rule find_total)
  have r: "ra' = ra" "rb' = rb" using a b1 f1(2) f2(2) rep_of_unique by metis+
  have c: "compressed (cl_meta st) n" using f1(3) f2(3) by (rule compressed_trans)
  note rep = compressed_rep_of [OF u c] and cls = class_of_compressed [OF u c]
  let ?st1 = "st\<lparr>cl_meta := n\<rparr>"
  have inv1: "class_inv A ?st1" using inv c by (rule class_inv_compressed)
  have roots: "is_root n ra" "is_root n rb"
    using rep_of_is_root [OF a] rep_of_is_root [OF b] by (simp_all add: is_root_iff_rep rep)
  have ok: "class_ok A st (class_of (cl_meta st) ra) ra" "class_ok A st (class_of (cl_meta st) rb) rb"
    using class_invD(3) [OF inv] a b by blast+
  then have va: "cl_value st k = cl_value st a" if "k \<in> class_of (cl_meta st) ra" for k
    using a that unfolding class_ok_def one_value_def by (metis class_ofI)
  from ok have vb: "cl_value st k = cl_value st b" if "k \<in> class_of (cl_meta st) rb" for k
    using b that unfolding class_ok_def one_value_def by (metis class_ofI)
  define v where "v = either (cl_value st a) (cl_value st b)"
  let ?C = "class_of (cl_meta st) ra \<union> class_of (cl_meta st) rb"
  obtain vs where fill: "(case (cl_value ?st1 a, cl_value ?st1 b) of
           (None, Some v) \<Rightarrow> fill_class_holes ?st1 ra v
         | (Some v, None) \<Rightarrow> fill_class_holes ?st1 rb v
         | _ \<Rightarrow> Some ?st1) = Some (?st1\<lparr>cl_value := vs\<rparr>)"
    "\<forall>k \<in> ?C. vs k = v" "\<forall>k. k \<notin> ?C \<longrightarrow> vs k = cl_value st k"
  proof (cases "cl_value st a")
    case None
    show thesis
    proof (cases "cl_value st b")
      case none: None
      show thesis
        by (rule that [of "cl_value st"]) (use None none va vb in \<open>auto simp: v_def either_def\<close>)
    next
      case (Some w)
      show thesis
        by (rule that [of "filled w (class_of (cl_meta st) ra) (cl_value st)"])
          (use None Some va vb fill_root [of ?st1 ra w] f2(4) roots cls in
            \<open>auto simp: v_def either_def filled_def\<close>)
    qed
  next
    case (Some w)
    show thesis
    proof (cases "cl_value st b")
      case None
      show thesis
        by (rule that [of "filled w (class_of (cl_meta st) rb) (cl_value st)"])
          (use None Some va vb fill_root [of ?st1 rb w] f2(4) roots cls in
            \<open>auto simp: v_def either_def filled_def\<close>)
    next
      case w': (Some w')
      show thesis
        by (rule that [of "cl_value st"]) (use Some w' vals va vb in \<open>auto simp: v_def either_def\<close>)
    qed
  qed
  obtain m r where un: "uf_union n ra rb = Some (m, r)" "uf_inv m" "r = ra \<or> r = rb"
    "dom m = dom n" "class_of m r = class_of n ra \<union> class_of n rb"
    "\<And>t. is_root m t \<Longrightarrow> t \<noteq> r \<Longrightarrow> is_root n t \<and> t \<noteq> ra \<and> t \<noteq> rb \<and> class_of m t = class_of n t"
    using union_classes [OF f2(4) roots] by metis
  have A: "scope_world A" using class_invD(1) [OF inv] by (simp add: store_ok_def)
  have sums: "summarizes A (cl_summary st ra) (owner_of st ` class_of (cl_meta st) ra)"
    "summarizes A (cl_summary st rb) (owner_of st ` class_of (cl_meta st) rb)"
    using ok by (simp_all add: class_ok_def)
  obtain s where s: "merge_summaries (cl_summary st ra) (cl_summary st rb) = Some s"
    "summarizes A s (owner_of st ` class_of (cl_meta st) ra \<union> owner_of st ` class_of (cl_meta st) rb)"
    by (rule summarizes_union [OF A sums])
  have dm: "ra \<in> dom m" "rb \<in> dom m" "r \<in> dom m"
    using roots un(3,4) by (auto simp: is_root_def)
  define sh where "sh = either (cl_shape st ra) (cl_shape st rb)"
  let ?st' = "st\<lparr>cl_meta := m, cl_value := vs, cl_summary := (cl_summary st)(r := s),
    cl_shape := (cl_shape st)(r := sh)\<rparr>"
  have rm: "is_root m r"
  proof -
    have "ra \<in> class_of m r" using un(5) roots(1) by (simp add: class_of_def is_root_iff_rep)
    then have "rep_of m ra r" by (simp add: class_of_def)
    then show ?thesis by (rule rep_of_is_root)
  qed
  have run: "add_equality st a b = Some (?st', r)"
  proof -
    let ?st2 = "st\<lparr>cl_meta := m, cl_value := vs, cl_summary := (cl_summary st)(r := s)\<rparr>"
    have merge: "merge_class_summaries (st\<lparr>cl_meta := m, cl_value := vs\<rparr>) ra rb r = Some ?st2"
      using dm s(1) by (auto simp: merge_class_summaries_def)
    have "cl_shape ?st2 r = cl_shape st ra \<or> cl_shape ?st2 r = cl_shape st rb" using un(3) by auto
    with rm have shape: "fold_opt (\<lambda>shape st. map_option fst (refine_class_low_type st r shape))
        (List.map_filter (\<lambda>shape. shape) [cl_shape st ra, cl_shape st rb]) ?st2 = Some ?st'"
      using refine_both [of ?st2 r, OF _ shapes] by (simp add: sh_def)
    have un': "uf_union (cl_meta (st\<lparr>cl_meta := n, cl_value := vs\<rparr>)) ra rb = Some (m, r)"
      "st\<lparr>cl_meta := n, cl_value := vs, cl_meta := m\<rparr> = st\<lparr>cl_meta := m, cl_value := vs\<rparr>"
      using un(1) by simp_all
    have sh: "cl_shape ?st1 = cl_shape st" by simp
    show ?thesis
      unfolding add_equality_def f1(1) r Option.bind.simps prod.case f2(1) Let_def
        fill(1) [unfolded prod.case] un' merge sh shape ..
  qed
  have "rep_of (cl_meta st) ra ra" "rep_of (cl_meta st) rb rb"
    using roots by (simp_all add: is_root_iff_rep rep)
  then have rC: "r \<in> ?C" using un(3) by blast
  have meta: "cl_meta ?st' = m" by simp
  have "class_inv A ?st'"
    unfolding class_inv_def meta
  proof (intro conjI allI impI)
    have own: "owner_of ?st' = owner_of st" by (simp add: owner_of_def function_scope_def fun_eq_iff)
    fix t assume t: "is_root m t"
    show "class_ok A ?st' (class_of m t) t"
    proof (cases "t = r")
      case True
      have "one_value ?st' ?C r" using fill(2) rC by (simp add: one_value_def)
      moreover have "one_shape ?st' ?C r"
        using ok shapes unfolding class_ok_def one_shape_def sh_def
        using either_stated [OF shapes] by auto
      ultimately show ?thesis using True s(2) un(5)
        unfolding class_ok_def own by (simp add: cls image_Un)
    next
      case False
      with un(6) t have old: "is_root n t" "t \<noteq> ra" "t \<noteq> rb" "class_of m t = class_of (cl_meta st) t"
        by (simp_all add: cls)
      then have tt: "rep_of (cl_meta st) t t" by (simp add: is_root_iff_rep rep)
      have out: "k \<notin> ?C" if k: "k \<in> class_of (cl_meta st) t" for k
      proof
        assume "k \<in> ?C"
        then have "rep_of (cl_meta st) k ra \<or> rep_of (cl_meta st) k rb" by (simp add: class_of_def)
        with k old(2,3) show False unfolding class_of_def mem_Collect_eq using rep_of_unique by metis
      qed
      have tC: "t \<in> class_of (cl_meta st) t" using tt by blast
      have keep: "k \<noteq> r" "vs k = cl_value st k" if "k \<in> class_of (cl_meta st) t" for k
        using out [OF that] fill(3) rC by auto
      have "class_ok A ?st' (class_of (cl_meta st) t) t = class_ok A st (class_of (cl_meta st) t) t"
        by (rule class_ok_cong [OF _ _ _ _ tC]) (use keep False in \<open>simp_all add: own\<close>)
      then show ?thesis using class_invD(3) [OF inv tt] old(4) by simp
    qed
  qed (use class_invD(1) [OF inv] un(2) in simp_all)
  then show thesis
    using rC run un(3,4,5) fill(2) keeps_list_dom [OF compressed_keeps_list [OF c]]
    by (intro that [of ?st' r]) (simp_all add: v_def sh_def cls)
qed

section \<open>Writing a value\<close>

lemma observe_root:
  assumes "is_root (cl_meta st) r" "agree (cl_shape st r) (observed_low_shape (as_enum v))"
  shows "observe_class_low_type as_enum st r v = Some (st\<lparr>cl_shape :=
    (cl_shape st)(r := either (cl_shape st r) (observed_low_shape (as_enum v)))\<rparr>)"
  using assms(2) refine_root [OF assms(1)]
  by (cases "observed_low_shape (as_enum v)"; cases "cl_shape st r")
    (auto simp: observe_class_low_type_def either_def fun_upd_idem simp del: map_option_eq_Some)

text \<open>The class an undecided node is in holds the value, and the class alone is written.\<close>

lemma class_inv_write:
  assumes inv: "class_inv A st" and r: "is_root (cl_meta st) r"
    and vs: "\<forall>k \<in> class_of (cl_meta st) r. vs k = v"
      "\<forall>k. k \<notin> class_of (cl_meta st) r \<longrightarrow> vs k = cl_value st k"
    and sh: "sh = cl_shape st r \<or> cl_shape st r = None"
  shows "class_inv A (st\<lparr>cl_value := vs, cl_shape := (cl_shape st)(r := sh)\<rparr>)"
proof (rule class_inv_change [OF inv r])
  let ?st = "st\<lparr>cl_value := vs, cl_shape := (cl_shape st)(r := sh)\<rparr>"
  have rr: "rep_of (cl_meta st) r r" using r by (simp add: is_root_iff_rep)
  have "class_ok A st (class_of (cl_meta st) r) r" using rr by (rule class_invD [OF inv])
  with vs rr sh show "class_ok A ?st (class_of (cl_meta st) r) r"
    by (auto simp: class_ok_def one_value_def one_shape_def)
  fix k s assume k: "rep_of (cl_meta st) k s" "s \<noteq> r"
  then have "\<not> rep_of (cl_meta st) k r" using rep_of_unique by metis
  moreover from this rr have "k \<noteq> r" by auto
  ultimately show "owner_of ?st k = owner_of st k \<and> cl_value ?st k = cl_value st k \<and>
      cl_shape ?st k = cl_shape st k \<and> (k = s \<longrightarrow> cl_summary ?st k = cl_summary st k)"
    using vs(2) by (simp add: class_of_def)
qed (use class_invD(1) [OF inv] in simp_all)

lemma write_spec:
  assumes inv: "class_inv A st" and k: "rep_of (cl_meta st) k r" and none: "cl_value st k = None"
    and ag: "agree (cl_shape st r) (observed_low_shape (as_enum v))"
  obtains st' where "write_node_value as_enum st k (Some v) = Some st'" "class_inv A st'"
    "compressed (cl_meta st) (cl_meta st')"
    "cl_value st' = (\<lambda>x. if x \<in> class_of (cl_meta st) r then Some v else cl_value st x)"
    "cl_functions st' = cl_functions st" "cl_owner st' = cl_owner st"
proof -
  note u = class_invD(2) [OF inv]
  have dom: "k \<in> dom (cl_meta st)" using rep_of_dom [OF k] by simp
  obtain m where m: "cl_meta st k = Some m" using dom by auto
  have root: "is_root (cl_meta st) r" using k by (rule rep_of_is_root)
  let ?vs = "\<lambda>x. if x \<in> class_of (cl_meta st) r then Some v else cl_value st x"
  let ?st1 = "st\<lparr>cl_value := (cl_value st)(k := Some v)\<rparr>"
  have set1: "set_node_value st k (Some v) = Some ?st1" using m by (simp add: set_node_value_def)
  show thesis
  proof (cases "m_parent m = None \<and> m_next m = None")
    case True
    then have "is_root (cl_meta st) k" using m by (simp add: is_root_def)
    then have "r = k" using k by simp
    obtain ms where ms: "next_chain (cl_meta st) ms" "hd ms = r" "set ms = class_of (cl_meta st) r"
      using root_chain [OF u root] .
    have "ms = [k]" using ms True m \<open>r = k\<close> by (cases ms rule: remdups_adj.cases) auto
    then have cls: "class_of (cl_meta st) r = {k}" using ms by simp
    have vs: "(cl_value st)(k := Some v) = ?vs" by (auto simp: cls)
    have "class_inv A (st\<lparr>cl_value := ?vs, cl_shape := (cl_shape st)(r := cl_shape st r)\<rparr>)"
      by (rule class_inv_write [OF inv root]) auto
    then have "class_inv A ?st1" unfolding vs by simp
    moreover have "write_node_value as_enum st k (Some v) = Some ?st1"
      using none set1 m True by (simp add: write_node_value_def)
    ultimately show thesis by (intro that [of ?st1]) (simp_all add: vs)
  next
    case False
    obtain n r' where f: "uf_find (cl_meta st) k = Some (n, r')" "rep_of (cl_meta st) k r'"
      "compressed (cl_meta st) n" "uf_inv n" using u dom by (rule find_total)
    have "r' = r" using k f(2) by (rule rep_of_unique)
    have rn: "is_root n r" using root compressed_rep_of [OF u f(3)] by (simp add: is_root_iff_rep)
    note cls = class_of_compressed [OF u f(3)]
    obtain ms where ms: "next_chain n ms" "hd ms = r" "set ms = class_of (cl_meta st) r"
      using root_chain [OF f(4) rn] unfolding cls .
    let ?st2 = "st\<lparr>cl_meta := n\<rparr>"
    let ?sh = "either (cl_shape st r) (observed_low_shape (as_enum v))"
    have kr: "k \<in> class_of (cl_meta st) r" using k by blast
    have spread: "propagate_class_value (?st1\<lparr>cl_meta := n\<rparr>) r v = Some (?st2\<lparr>cl_value := ?vs\<rparr>)"
      using propagate_chain [of "?st1\<lparr>cl_meta := n\<rparr>" ms v] ms kr
      by (auto simp: fun_eq_iff intro!: arg_cong [of _ _ "\<lambda>f. st\<lparr>cl_meta := n, cl_value := f\<rparr>"])
    have obs: "observe_class_low_type as_enum (?st2\<lparr>cl_value := ?vs\<rparr>) r v =
        Some (?st2\<lparr>cl_value := ?vs, cl_shape := (cl_shape st)(r := ?sh)\<rparr>)"
      using observe_root [of "?st2\<lparr>cl_value := ?vs\<rparr>" r as_enum v] rn ag by simp
    have "class_inv A (?st2\<lparr>cl_value := ?vs, cl_shape := (cl_shape ?st2)(r := ?sh)\<rparr>)"
    proof (rule class_inv_write [OF class_inv_compressed [OF inv f(3)]])
      show "?sh = cl_shape ?st2 r \<or> cl_shape ?st2 r = None"
        by (cases "cl_shape st r") (auto simp: either_def)
    qed (use rn cls in auto)
    moreover have "write_node_value as_enum st k (Some v) =
        Some (?st2\<lparr>cl_value := ?vs, cl_shape := (cl_shape st)(r := ?sh)\<rparr>)"
      unfolding write_node_value_def set1 Option.bind.simps option.case
      using none m False f(1) \<open>r' = r\<close> spread obs by auto
    ultimately show thesis using f(3)
      by (intro that [of "?st2\<lparr>cl_value := ?vs, cl_shape := (cl_shape st)(r := ?sh)\<rparr>"]) simp_all
  qed
qed

section \<open>A class that loses a block's members\<close>

lemma reaped_of_rebuilt:
  assumes u: "uf_inv nodes" and l: "set_list nodes r ms" and ne: "List.filter live ms \<noteq> []"
  obtains n where "uf_rebuild nodes (List.filter live ms) = Some n"
    "n |` (- {k \<in> set ms. \<not> live k}) = reaped nodes ms live"
    "next_chain n (List.filter live ms)" "is_root n (hd (List.filter live ms))"
proof -
  let ?L = "List.filter live ms"
  have d: "distinct ms" "set ms \<subseteq> dom nodes"
    using l by (auto simp: set_list_def dest!: next_chain_dom)
  obtain n where n: "uf_rebuild nodes ?L = Some n"
    "n |` (- {k \<in> set ms. \<not> live k}) = reaped nodes ms live"
    using rebuild_reaped [OF d, of live] by blast
  have at: "reaped nodes ms live k = n k" if "k \<in> set ?L" for k
    using that by (simp add: n(2) [symmetric] restrict_map_def)
  have sl: "set_list (reaped nodes ms live) (hd ?L) ?L" using reaped_set_list [OF u l ne] .
  then have "next_chain (reaped nodes ms live) ?L" by (simp add: set_list_def)
  then have c: "next_chain n ?L" using next_chain_cong [of ?L n "reaped nodes ms live"] at by simp
  have "rep_of (reaped nodes ms live) (hd ?L) (hd ?L)"
    using set_list_mem [OF sl] set_list_root_in [OF sl] by simp
  then have "is_root (reaped nodes ms live) (hd ?L)" by (simp add: is_root_iff_rep)
  then have "is_root n (hd ?L)" using at [OF hd_in_set [OF ne]] by (simp add: is_root_def)
  with n c that show thesis by blast
qed

lemma find_root: "is_root n r \<Longrightarrow> uf_find n r = Some (n, r)"
  by (subst uf_find.simps) (auto simp: is_root_def)

lemma case_list_hd: "xs \<noteq> [] \<Longrightarrow> (case xs of [] \<Rightarrow> a | x # ys \<Rightarrow> f x) = f (hd xs)"
  by (cases xs) auto

lemma map_filter_const: "(\<And>x. x \<in> set xs \<Longrightarrow> f x = c) \<Longrightarrow>
    List.map_filter f xs = (case c of None \<Rightarrow> [] | Some v \<Rightarrow> replicate (length xs) v)"
  by (induction xs) (auto simp: List.map_filter_simps split: option.splits)

definition released :: "('k, 'v, 'f, 'b) class_store \<Rightarrow> 'b \<Rightarrow> 'k set \<Rightarrow> ('k, 'v, 'f, 'b) class_store" where
  "released st b ks = st\<lparr>cl_meta := cl_meta st |` (- {k \<in> ks. cl_block st k = b})\<rparr>"

lemma reaped_class_inv:
  assumes inv: "class_inv A st" and l: "set_list (cl_meta st) r ms"
    and st: "cl_meta st' = reaped (cl_meta st) ms live" "store_ok A st'" "owner_of st' = owner_of st"
      "cl_value st' = cl_value st"
    and other: "\<And>k. k \<notin> set ms \<Longrightarrow> cl_shape st' k = cl_shape st k \<and> cl_summary st' k = cl_summary st k"
    and here: "List.filter live ms \<noteq> [] \<Longrightarrow>
      class_ok A st' (set (List.filter live ms)) (hd (List.filter live ms))"
  shows "class_inv A st'"
  unfolding class_inv_def st(1)
proof (intro conjI allI impI)
  let ?L = "List.filter live ms"
  note u = class_invD(2) [OF inv] and rep = reaped_rep_of [OF class_invD(2) [OF inv] l, of live]
  show "uf_inv (reaped (cl_meta st) ms live)" using reaped_inv(1) [OF u l] .
  fix t assume "is_root (reaped (cl_meta st) ms live) t"
  then consider "t \<in> set ms" "live t" "t = hd ?L" | "t \<notin> set ms" "rep_of (cl_meta st) t t"
    unfolding is_root_iff_rep rep by blast
  then show "class_ok A st' (class_of (reaped (cl_meta st) ms live) t) t"
  proof cases
    case 1
    then have ne: "?L \<noteq> []" by (auto simp: filter_empty_conv)
    have "class_of (reaped (cl_meta st) ms live) (hd ?L) = set ?L"
      using reaped_set_list [OF u l ne] by (rule class_of_list)
    with here [OF ne] 1(3) show ?thesis by metis
  next
    case 2
    have hd: "hd ?L \<in> set ms" if "k \<in> set ms" "live k" for k
      using that hd_in_set [of ?L] by (auto simp: filter_empty_conv)
    have out: "k \<notin> set ms" if "rep_of (cl_meta st) k t" for k
    proof
      assume "k \<in> set ms"
      then have "rep_of (cl_meta st) k r" using set_list_mem [OF l] by simp
      then have "t = r" using that rep_of_unique by metis
      with 2 set_list_root_in [OF l] show False by simp
    qed
    have cls: "class_of (reaped (cl_meta st) ms live) t = class_of (cl_meta st) t"
      using 2 hd out unfolding class_of_def rep by blast
    have tC: "t \<in> class_of (cl_meta st) t" using 2(2) by blast
    have keep: "cl_shape st' k = cl_shape st k" "cl_summary st' k = cl_summary st k"
      if "k \<in> class_of (cl_meta st) t" for k
      using that out other by (auto simp: class_of_def)
    have "class_ok A st' (class_of (cl_meta st) t) t = class_ok A st (class_of (cl_meta st) t) t"
      by (rule class_ok_cong [OF _ _ _ _ tC]) (use keep tC st in simp_all)
    then show ?thesis using class_invD(3) [OF inv 2(2)] cls by simp
  qed
qed (rule st(2))

lemma flatten_spec:
  assumes inv: "class_inv A st" and root: "is_root (cl_meta st) r"
  obtains st' where "flatten_class st r b = Some st'"
    "class_inv A (released st' b (class_of (cl_meta st) r))"
    "\<And>x y. same_set (cl_meta (released st' b (class_of (cl_meta st) r))) x y \<longleftrightarrow>
      same_set (cl_meta st) x y \<and> (rep_of (cl_meta st) x r \<longrightarrow> cl_block st x \<noteq> b) \<and>
      (rep_of (cl_meta st) y r \<longrightarrow> cl_block st y \<noteq> b)"
    "cl_value st' = cl_value st" "cl_functions st' = cl_functions st" "cl_owner st' = cl_owner st"
proof -
  note u = class_invD(2) [OF inv]
  obtain ms where l: "set_list (cl_meta st) r ms" using u root by (rule uf_inv_set_list)
  let ?live = "\<lambda>k. cl_block st k \<noteq> b"
  let ?L = "List.filter ?live ms"
  note cls = class_of_list [OF l]
  have dead: "{k \<in> class_of (cl_meta st) r. cl_block st k = b} = {k \<in> set ms. \<not> ?live k}"
    using cls by simp
  have chain: "next_chain (cl_meta st) ms" "hd ms = r" using l by (auto simp: set_list_def)
  have walk: "walk_members (cl_meta st) (\<lambda>member survivors. Some (if cl_block st member = b
      then survivors else survivors @ [member])) (Some r) [] = Some ?L"
    unfolding chain(2) [symmetric] walk_chain [OF chain(1)] survivors_fold by simp
  obtain m where m: "cl_meta st r = Some m" using root by (auto simp: is_root_def)
  have ok: "class_ok A st (set ms) r"
    using class_invD(3) [OF inv, of r r] root by (simp add: is_root_iff_rep cls)
  have run: "flatten_class st r b = Option.bind (uf_rebuild (cl_meta st) ?L) (\<lambda>nodes.
       let st' = st\<lparr>cl_meta := nodes\<rparr> in
       case ?L of
         [] \<Rightarrow> Some st'
       | representative # _ \<Rightarrow>
           Option.bind (refresh_class_summary st' representative) (\<lambda>st'.
           Option.bind (case List.map_filter
                 (\<lambda>member. if cl_meta st' member = None then None else cl_value st' member) ?L of
               [] \<Rightarrow> Some st'
             | v # _ \<Rightarrow> fill_class_holes st' representative v) (\<lambda>st'.
             case cl_shape st r of
               None \<Rightarrow> Some st'
             | Some shape \<Rightarrow> map_option fst (refine_class_low_type st' representative shape))))"
    unfolding flatten_class_def m Let_def walk Option.bind.simps ..
  have same: "same_set (reaped (cl_meta st) ms ?live) x y \<longleftrightarrow> same_set (cl_meta st) x y \<and>
      (rep_of (cl_meta st) x r \<longrightarrow> ?live x) \<and> (rep_of (cl_meta st) y r \<longrightarrow> ?live y)" for x y
    unfolding reaped_same_set [OF u l] set_list_mem [OF l] by simp
  show thesis
  proof (cases "?L = []")
    case True
    have un: "uf_rebuild (cl_meta st) ?L = Some (cl_meta st)" by (simp add: True uf_rebuild_def)
    have rel: "released st b (class_of (cl_meta st) r) = st\<lparr>cl_meta := reaped (cl_meta st) ms ?live\<rparr>"
      unfolding released_def dead by (simp add: reaped_def rebuilt_def True)
    have "class_inv A (released st b (class_of (cl_meta st) r))"
      unfolding rel by (rule reaped_class_inv [OF inv l]) (use True class_invD(1) [OF inv] in auto)
    moreover have "flatten_class st r b = Some st"
      unfolding run un by (simp add: True)
    ultimately show thesis using same by (intro that [of st]) (simp_all add: rel)
  next
    case False
    obtain n where n: "uf_rebuild (cl_meta st) ?L = Some n"
      "n |` (- {k \<in> set ms. \<not> ?live k}) = reaped (cl_meta st) ms ?live"
      "next_chain n ?L" "is_root n (hd ?L)" by (rule reaped_of_rebuilt [OF u l False])
    let ?h = "hd ?L" and ?st = "st\<lparr>cl_meta := n\<rparr>"
    have Lm: "set ?L \<subseteq> set ms" by auto
    have hL: "?h \<in> set ?L" using False by (rule hd_in_set)
    have "store_ok A ?st" using class_invD(1) [OF inv] by simp
    moreover have "uf_find (cl_meta ?st) ?h = Some (n, ?h)" using find_root [OF n(4)] by simp
    ultimately obtain s where s: "refresh_class_summary ?st ?h =
        Some (?st\<lparr>cl_meta := n, cl_summary := (cl_summary ?st)(?h := s)\<rparr>)"
      "summarizes A s (owner_of ?st ` set ?L)" using refresh_chain [OF _ _ n(3)] by blast
    let ?st2 = "st\<lparr>cl_meta := n, cl_summary := (cl_summary st)(?h := s)\<rparr>"
    have refresh: "refresh_class_summary ?st ?h = Some ?st2" using s(1) by simp
    have val: "cl_value st k = cl_value st r" if "k \<in> set ?L" for k
      using ok that by (auto simp: class_ok_def one_value_def)
    have fill: "(case List.map_filter
          (\<lambda>member. if cl_meta ?st2 member = None then None else cl_value ?st2 member) ?L of
        [] \<Rightarrow> Some ?st2 | v # _ \<Rightarrow> fill_class_holes ?st2 ?h v) = Some ?st2"
    proof -
      have "set ?L \<subseteq> dom n" using n(3) by (rule next_chain_dom)
      then have mf: "List.map_filter
          (\<lambda>member. if cl_meta ?st2 member = None then None else cl_value ?st2 member) ?L =
        (case cl_value st r of None \<Rightarrow> [] | Some v \<Rightarrow> replicate (length ?L) v)"
        by (intro map_filter_const) (use val in auto)
      have "filled v (set ?L) (cl_value st) = cl_value st" if "cl_value st r = Some v" for v
        using val that by (auto simp: filled_def fun_eq_iff)
      then have "fill_class_holes ?st2 ?h v = Some ?st2" if "cl_value st r = Some v" for v
        using that fill_chain [of ?st2 ?L v] n(3) by simp
      then show ?thesis unfolding mf using False by (cases "cl_value st r"; cases ?L) auto
    qed
    let ?st3 = "?st2\<lparr>cl_shape := (cl_shape st)(?h := cl_shape st r)\<rparr>"
    have shp: "cl_shape st k = None \<or> cl_shape st k = cl_shape st r" if "k \<in> set ?L" for k
      using ok that by (auto simp: class_ok_def one_shape_def)
    have shape: "(case cl_shape st r of None \<Rightarrow> Some ?st2
        | Some shape \<Rightarrow> map_option fst (refine_class_low_type ?st2 ?h shape)) = Some ?st3"
      using shp [OF hL] refine_root [of ?st2 ?h] n(4)
      by (cases "cl_shape st r") (auto simp: fun_upd_idem simp del: map_option_eq_Some)
    have run': "flatten_class st r b = Some ?st3"
      unfolding run n(1) Option.bind.simps Let_def case_list_hd [OF False] refresh fill shape ..
    have rel: "released ?st3 b (class_of (cl_meta st) r) =
        ?st3\<lparr>cl_meta := reaped (cl_meta st) ms ?live\<rparr>"
      unfolding released_def n(2) [symmetric] using dead by simp
    have "class_inv A (released ?st3 b (class_of (cl_meta st) r))"
      unfolding rel
    proof (rule reaped_class_inv [OF inv l])
      have own: "owner_of (?st3\<lparr>cl_meta := reaped (cl_meta st) ms ?live\<rparr>) = owner_of st"
        by (simp add: owner_of_def function_scope_def fun_eq_iff)
      then show "owner_of (?st3\<lparr>cl_meta := reaped (cl_meta st) ms ?live\<rparr>) = owner_of st" .
      show "class_ok A (?st3\<lparr>cl_meta := reaped (cl_meta st) ms ?live\<rparr>) (set ?L) ?h"
        unfolding class_ok_def own
        using s(2) val hL shp by (auto simp: one_value_def one_shape_def)
    qed (use class_invD(1) [OF inv] Lm hL in auto)
    then show thesis using run' same by (intro that [of ?st3]) (simp_all add: rel)
  qed
qed

section \<open>New nodes, functions and the reachable stores\<close>

lemma class_of_new:
  assumes "\<And>k r. rep_of n k r \<longleftrightarrow> rep_of nodes k r \<or> (k = key \<and> r = key)" "key \<notin> dom nodes"
  shows "class_of n key = {key}" "t \<noteq> key \<Longrightarrow> class_of n t = class_of nodes t"
  using assms rep_of_dom by (fastforce simp: class_of_def)+

lemma add_node_spec:
  assumes inv: "class_inv A st" and fresh: "key \<notin> dom (cl_meta st)"
    and room: "card (dom (cl_meta st)) + 1 < 2 ^ 32"
  obtains st' where "add_node as_enum st key block v = Some st'" "class_inv A st'"
    "dom (cl_meta st') = insert key (dom (cl_meta st))" "class_of (cl_meta st') key = {key}"
    "cl_value st' = (cl_value st)(key := v)" "cl_functions st' = cl_functions st"
    "cl_owner st' = (cl_owner st)(key := None)"
proof -
  note u = class_invD(2) [OF inv]
  obtain n where n: "make_set ((cl_meta st)(key \<mapsto> meta_new None None None 0)) key = Some n"
    "uf_inv n" "dom n = insert key (dom (cl_meta st))"
    "\<And>k r. rep_of n k r \<longleftrightarrow> rep_of (cl_meta st) k r \<or> (k = key \<and> r = key)"
    using make_set_spec [OF u fresh room] by metis
  note cls = class_of_new [OF n(4) fresh]
  have root: "is_root n key" by (simp add: is_root_iff_rep n(4))
  define sh where "sh = (case v of None \<Rightarrow> None | Some w \<Rightarrow> observed_low_shape (as_enum w))"
  let ?st1 = "st\<lparr>cl_meta := n, cl_value := (cl_value st)(key := v),
    cl_shape := (cl_shape st)(key := None), cl_owner := (cl_owner st)(key := None),
    cl_summary := (cl_summary st)(key := None), cl_block := (cl_block st)(key := block)\<rparr>"
  let ?st = "?st1\<lparr>cl_shape := (cl_shape st)(key := sh)\<rparr>"
  have "observe_class_low_type as_enum ?st1 key w =
      Some (?st1\<lparr>cl_shape := (cl_shape st)(key := observed_low_shape (as_enum w))\<rparr>)" for w
    using observe_root [of ?st1 key as_enum w] root by (simp add: either_def)
  then have run: "add_node as_enum st key block v = Some ?st"
    unfolding add_node_def n(1) Option.bind.simps Let_def
    by (cases v) (simp_all add: sh_def)
  have own: "owner_of ?st key = None" "k \<noteq> key \<Longrightarrow> owner_of ?st k = owner_of st k" for k
    by (auto simp: owner_of_def function_scope_def split: option.split)
  have "class_inv A ?st"
    unfolding class_inv_def
  proof (intro conjI allI impI)
    fix t assume t: "is_root (cl_meta ?st) t"
    show "class_ok A ?st (class_of (cl_meta ?st) t) t"
    proof (cases "t = key")
      case True
      then show ?thesis using cls(1) own(1)
        by (simp add: class_ok_def one_value_def one_shape_def summarizes_def)
    next
      case False
      then have tt: "rep_of (cl_meta st) t t" using t by (simp add: is_root_iff_rep n(4))
      have "k \<noteq> key" if "k \<in> class_of (cl_meta st) t" for k
        using that fresh rep_of_dom by (fastforce simp: class_of_def)
      then have "class_ok A ?st (class_of (cl_meta st) t) t = class_ok A st (class_of (cl_meta st) t) t"
        using tt own(2) False by (intro class_ok_cong) auto
      then show ?thesis using class_invD(3) [OF inv tt] cls(2) [OF False] by simp
    qed
  qed (use class_invD(1) [OF inv] n(2) in \<open>simp_all add: store_ok_def function_scope_def\<close>)
  with run n(3) cls(1) show thesis by (intro that [of ?st]) simp_all
qed

lemma register_spec:
  assumes inv: "class_inv A st" and k: "k \<in> dom (cl_meta st)" and f: "cl_functions st f = Some e"
  obtains st' where "register_in_function st f k = Some st'" "class_inv A st'"
    "compressed (cl_meta st) (cl_meta st')" "owner_of st' k = fn_scope e"
    "function_scope st' = function_scope st"
    "cl_functions st' = (cl_functions st)(f \<mapsto> e\<lparr>fn_nodes := fn_nodes e @ [k]\<rparr>)"
proof -
  obtain r where r: "rep_of (cl_meta st) k r" using inv k by (rule class_inv_rep)
  obtain st1 where st1: "set_node_owner st k (Some f) = Some st1" "class_inv A st1"
    "compressed (cl_meta st) (cl_meta st1)" "cl_owner st1 = (cl_owner st)(k := Some f)"
    "cl_functions st1 = cl_functions st"
    using set_owner_spec [OF inv r, of "Some f"] by metis
  let ?st = "st1\<lparr>cl_functions := (cl_functions st1)(f \<mapsto> e\<lparr>fn_nodes := fn_nodes e @ [k]\<rparr>)\<rparr>"
  have fs: "function_scope ?st = function_scope st1"
    using f st1(5) by (auto simp: function_scope_def fun_eq_iff)
  then have own: "owner_of ?st = owner_of st1" by (auto simp: owner_of_def fun_eq_iff split: option.split)
  have "class_inv A ?st"
    using st1(2) fs own unfolding class_inv_def store_ok_def class_ok_def one_value_def one_shape_def
    by simp
  moreover have "register_in_function st f k = Some ?st"
    using f st1(1,5) by (simp add: register_in_function_def)
  moreover have "owner_of ?st k = fn_scope e"
    unfolding own using st1(4,5) f by (simp add: owner_of_def function_scope_def)
  moreover have "function_scope ?st = function_scope st"
    unfolding fs using st1(5) by (simp add: function_scope_def fun_eq_iff)
  ultimately show thesis using st1(3,5) by (intro that [of ?st]) simp_all
qed

end
