(* ===== verification/Function_Scopes.thy ===== *)
theory Function_Scopes
  imports Class_Invariant "HOL-Library.Multiset"
begin

text \<open>
  The scopes of a module's functions (\<open>begin_function\<close>, \<open>set_function_parent\<close> and what they call in
  \<open>lichen-lowlevel/src/module.rs\<close>): a function is given its scope when its shell is built, and a
  function that moves under another parent takes the scope tree below it along, after which every
  class summary is rebuilt.

  A slot map is iterated in the order of its slots; the loops here take that order as a list of
  the keys.
\<close>

section \<open>The code\<close>

definition set_scope ::
  "('k, 'v, 'f, 'b) class_store \<Rightarrow> 'f \<Rightarrow> 'f scope \<Rightarrow> ('k, 'v, 'f, 'b) class_store option" where
  "set_scope st function scope = Option.bind (cl_functions st function) (\<lambda>entry.
     Some (st\<lparr>cl_functions := (cl_functions st)(function \<mapsto> entry\<lparr>fn_scope := Some scope\<rparr>)\<rparr>))"

text \<open>A new shell: \<open>function\<close> is what the slot map answers to the insertion.\<close>

definition begin_function ::
  "('k, 'v, 'f, 'b) class_store \<Rightarrow> 'f \<Rightarrow> 'f option \<Rightarrow> ('k, 'v, 'f, 'b) class_store option" where
  "begin_function st function parent =
     (let st = st\<lparr>cl_functions := (cl_functions st)(function \<mapsto>
          \<lparr>fn_nodes = [], fn_parent = parent, fn_scope = None\<rparr>)\<rparr>;
        parent_scope = Option.bind parent (function_scope st) in
      Option.bind (scope_child function parent_scope) (set_scope st function))"

definition function_parent :: "('k, 'v, 'f, 'b) class_store \<Rightarrow> 'f \<Rightarrow> 'f option" where
  "function_parent st function =
     (case cl_functions st function of None \<Rightarrow> None | Some entry \<Rightarrow> fn_parent entry)"

fun descendants_loop :: "('k, 'v, 'f, 'b) class_store \<Rightarrow> 'f \<Rightarrow> 'f scope \<Rightarrow> 'f list \<Rightarrow>
    (u32 \<times> 'f) list option" where
  "descendants_loop st function root [] = Some []"
| "descendants_loop st function root (candidate # keys) =
     Option.bind (if candidate = function then Some []
       else case function_scope st candidate of
         None \<Rightarrow> Some []
       | Some scope \<Rightarrow> Option.bind (is_ancestor_or_self root scope) (\<lambda>below.
           Some (if below then [(sc_depth scope, candidate)] else []))) (\<lambda>found.
     Option.bind (descendants_loop st function root keys) (\<lambda>rest. Some (found @ rest)))"

definition scope_descendants ::
  "'f list \<Rightarrow> ('k, 'v, 'f, 'b) class_store \<Rightarrow> 'f \<Rightarrow> 'f list option" where
  "scope_descendants functions st function =
     (case function_scope st function of
        None \<Rightarrow> Some []
      | Some root \<Rightarrow> map_option (\<lambda>descendants. map snd (sort_key fst descendants))
          (descendants_loop st function root functions))"

definition refresh_all_class_summaries ::
  "'k list \<Rightarrow> ('k, 'v, 'f, 'b) class_store \<Rightarrow> ('k, 'v, 'f, 'b) class_store option" where
  "refresh_all_class_summaries nodes st =
     (let representatives = List.filter (\<lambda>node. case cl_meta st node of
          None \<Rightarrow> False | Some m \<Rightarrow> m_parent m = None) nodes in
      fold_opt (\<lambda>representative st. refresh_class_summary st representative) representatives st)"

text \<open>The scope of \<open>function\<close> is hung anew under that of \<open>parent\<close>.\<close>

definition rehang ::
  "('k, 'v, 'f, 'b) class_store \<Rightarrow> 'f \<Rightarrow> 'f option \<Rightarrow> ('k, 'v, 'f, 'b) class_store option" where
  "rehang st function parent =
     (let parent_scope = Option.bind parent (function_scope st) in
      Option.bind (scope_child function parent_scope) (set_scope st function))"

definition set_function_parent ::
  "'k list \<Rightarrow> 'f list \<Rightarrow> ('k, 'v, 'f, 'b) class_store \<Rightarrow> 'f \<Rightarrow> 'f option \<Rightarrow>
    ('k, 'v, 'f, 'b) class_store option" where
  "set_function_parent nodes functions st function parent =
     Option.bind (scope_descendants functions st function) (\<lambda>moved.
     Option.bind (cl_functions st function) (\<lambda>entry.
     Option.bind (rehang (st\<lparr>cl_functions := (cl_functions st)(function \<mapsto>
         entry\<lparr>fn_parent := parent\<rparr>)\<rparr>) function parent) (\<lambda>st.
     Option.bind (fold_opt (\<lambda>descendant st. rehang st descendant (function_parent st descendant))
         moved st)
       (refresh_all_class_summaries nodes))))"

section \<open>Scopes that follow the parents\<close>

text \<open>Every function has the scope its parent's scope gives it.\<close>

definition homed :: "('k, 'v, 'f, 'b) class_store \<Rightarrow> 'f \<Rightarrow> bool" where
  "homed st f \<longleftrightarrow> (\<exists>s. function_scope st f = Some s \<and>
     scope_child f (Option.bind (function_parent st f) (function_scope st)) = Some s)"

definition scopes_follow :: "('k, 'v, 'f, 'b) class_store \<Rightarrow> bool" where
  "scopes_follow st \<longleftrightarrow> (\<forall>f \<in> dom (cl_functions st). homed st f)"

definition module_scopes :: "('k, 'v, 'f, 'b) class_store \<Rightarrow> 'f scope set" where
  "module_scopes st = {s. \<exists>f. function_scope st f = Some s}"

lemma function_scope_dom: "function_scope st f = Some s \<Longrightarrow> f \<in> dom (cl_functions st)"
  by (auto simp: function_scope_def split: option.splits)

lemma homed_child:
  assumes "scopes_follow st" "function_scope st f = Some s"
  shows "scope_child f (Option.bind (function_parent st f) (function_scope st)) = Some s"
proof -
  have "homed st f" using assms function_scope_dom [OF assms(2)] by (simp add: scopes_follow_def)
  with assms(2) show ?thesis unfolding homed_def by (metis option.inject)
qed

lemma homedD:
  assumes "scopes_follow st" "function_scope st f = Some s"
  shows "sc_function s = f" "sc_parent s = Option.bind (function_parent st f) (function_scope st)"
  using scope_child_fields [OF homed_child [OF assms]] by simp_all

lemma homed_parent:
  assumes f: "scopes_follow st" and h: "function_scope st f = Some s" and p: "sc_parent s = Some q"
  obtains g where "function_parent st f = Some g" "function_scope st g = Some q"
  using homedD(2) [OF f h] p by (cases "function_parent st f") auto

text \<open>
  Such scopes are the chains of the parents: built by the code, one for a function, closed upward.
\<close>

lemma scopes_follow_chain:
  assumes f: "scopes_follow st"
  shows "function_scope st h = Some s \<Longrightarrow> built s \<and> set (scope_chain s) \<subseteq> module_scopes st"
proof (induction s arbitrary: h)
  case (Scope g p d up)
  let ?s = "Scope g p d up"
  have s: "?s \<in> module_scopes st" using Scope.prems by (auto simp: module_scopes_def)
  have c: "scope_child h p = Some ?s"
    using homedD(2) [OF f Scope.prems] homed_child [OF f Scope.prems] by simp
  show ?case
  proof (cases p)
    case None
    with c s show ?thesis by (auto intro: built_child)
  next
    case (Some q)
    then obtain i where i: "function_scope st i = Some q"
      using homed_parent [OF f Scope.prems, of q] by auto
    have "built q \<and> set (scope_chain q) \<subseteq> module_scopes st"
      by (rule Scope.IH(1) [OF _ i]) (simp_all add: Some)
    with Some c s show ?thesis by (auto intro: built_child)
  qed
qed

lemma scopes_follow_world:
  assumes f: "scopes_follow st"
  shows "scope_world (module_scopes st)"
proof -
  have "one_scope_each (module_scopes st)"
    unfolding one_scope_each_def
  proof (intro ballI impI)
    fix a b assume "a \<in> module_scopes st" "b \<in> module_scopes st" "sc_function a = sc_function b"
    then show "a = b" using homedD(1) [OF f] by (auto simp: module_scopes_def)
  qed
  then show ?thesis using scopes_follow_chain [OF f]
    by (auto simp: scope_world_def module_scopes_def)
qed

section \<open>The functions below one\<close>

definition scope_depth :: "('k, 'v, 'f, 'b) class_store \<Rightarrow> 'f \<Rightarrow> u32" where
  "scope_depth st g = (case function_scope st g of None \<Rightarrow> 0 | Some s \<Rightarrow> sc_depth s)"

definition below :: "('k, 'v, 'f, 'b) class_store \<Rightarrow> 'f \<Rightarrow> 'f \<Rightarrow> bool" where
  "below st f g \<longleftrightarrow> (\<exists>root s. function_scope st f = Some root \<and> function_scope st g = Some s \<and>
     root \<in> set (scope_chain s))"

lemma descendants_found:
  assumes f: "scopes_follow st" and root: "function_scope st h = Some root"
  shows "descendants_loop st h root gs =
    Some (map (\<lambda>g. (scope_depth st g, g)) (List.filter (\<lambda>g. g \<noteq> h \<and> below st h g) gs))"
proof (induction gs)
  case (Cons g gs)
  note A = scopes_follow_world [OF f]
  have mem: "root \<in> module_scopes st" using root by (auto simp: module_scopes_def)
  show ?case
  proof (cases "function_scope st g")
    case None
    then show ?thesis using Cons by (simp add: below_def)
  next
    case (Some s)
    then have s: "s \<in> module_scopes st" by (auto simp: module_scopes_def)
    have "is_ancestor_or_self root s = Some (root \<in> set (scope_chain s))"
      using scope_worldD(1) [OF A] mem s world_one_each [OF A mem s] by (intro ancestor_is_on_chain)
    with Cons Some root show ?thesis by (simp add: below_def scope_depth_def)
  qed
qed simp

lemma below_parent:
  assumes f: "scopes_follow st" and b: "below st h g" and "g \<noteq> h"
  obtains q where "function_parent st g = Some q" "below st h q"
    "unat (scope_depth st q) < unat (scope_depth st g)"
proof -
  from b obtain root s where r: "function_scope st h = Some root" "function_scope st g = Some s"
    "root \<in> set (scope_chain s)" by (auto simp: below_def)
  have "root \<noteq> s" using homedD(1) [OF f] r(1,2) \<open>g \<noteq> h\<close> by metis
  with r(3) obtain q where q: "sc_parent s = Some q" "root \<in> set (scope_chain q)"
    by (cases "sc_parent s") (auto simp: scope_chain_unfold [of s])
  obtain i where i: "function_parent st g = Some i" "function_scope st i = Some q"
    using homed_parent [OF f r(2) q(1)] .
  have "tables s" "tables q"
    using scopes_follow_chain [OF f r(2)] scopes_follow_chain [OF f i(2)] by (simp_all add: built_tables)
  then have "unat (sc_depth q) < unat (sc_depth s)"
    using tablesD(2) [of s] tablesD(2) [of q] q(1) by (simp add: scope_chain_unfold [of s])
  with that [OF i(1)] i r q show thesis by (auto simp: below_def scope_depth_def)
qed

lemma below_child:
  assumes f: "scopes_follow st" and "function_parent st g = Some q" "below st h q"
    and "g \<in> dom (cl_functions st)"
  shows "below st h g"
proof -
  obtain root s where r: "function_scope st h = Some root" "function_scope st q = Some s"
    "root \<in> set (scope_chain s)" using assms(3) by (auto simp: below_def)
  obtain t where t: "function_scope st g = Some t" using f assms(4) by (auto simp: scopes_follow_def homed_def)
  then have "sc_parent t = Some s" using homedD(2) [OF f t] assms(2) r(2) by simp
  with r t show ?thesis by (auto simp: below_def scope_chain_unfold [of t])
qed

section \<open>Moving a function\<close>

abbreviation with_functions ::
  "('k, 'v, 'f, 'b) class_store \<Rightarrow> ('f \<Rightarrow> ('k, 'f) func option) \<Rightarrow> ('k, 'v, 'f, 'b) class_store" where
  "with_functions st F \<equiv> st\<lparr>cl_functions := F\<rparr>"

lemma rehang_spec:
  assumes e: "cl_functions st g = Some e"
    and p: "\<And>q. Option.bind parent (function_scope st) = Some q \<Longrightarrow>
      built q \<and> unat (sc_depth q) + 1 < 2 ^ 32"
  obtains s where "scope_child g (Option.bind parent (function_scope st)) = Some s" "built s"
    "rehang st g parent =
      Some (with_functions st ((cl_functions st)(g \<mapsto> e\<lparr>fn_scope := Some s\<rparr>)))"
proof -
  obtain s where s: "scope_child g (Option.bind parent (function_scope st)) = Some s"
    by (rule scope_child_total [of "Option.bind parent (function_scope st)" g])
      (use p built_tables in blast)+
  moreover from s have "built s" using p by (auto intro: built_child)
  ultimately show thesis using e by (intro that) (simp_all add: rehang_def set_scope_def)
qed

lemma child_depth:
  assumes "scope_child g p = Some s" "built s"
  shows "unat (sc_depth s) = length (scope_path p)"
  using tablesD(2) [OF built_tables [OF assms(2)]] scope_child_fields [OF assms(1)]
  by (simp add: scope_chain_unfold [of s])

text \<open>
  How far a move has come: the functions \<open>done\<close>, and the moved one, follow their parents' new
  scopes; the others have the scope they had.
\<close>

definition rehung :: "('k, 'v, 'f, 'b) class_store \<Rightarrow> 'f \<Rightarrow> 'f list \<Rightarrow> 'f list \<Rightarrow>
    ('k, 'v, 'f, 'b) class_store \<Rightarrow> bool" where
  "rehung st f done todo cur \<longleftrightarrow>
     (\<forall>g. g \<noteq> f \<longrightarrow> g \<notin> set done \<longrightarrow> function_scope cur g = function_scope st g) \<and>
     (\<forall>g. g = f \<or> g \<in> set done \<longrightarrow> homed cur g \<and> (\<forall>s. function_scope cur g = Some s \<longrightarrow>
        built s \<and> unat (sc_depth s) \<le> 2 ^ 31 + unat (scope_depth st g)) \<and>
        (\<forall>q. function_parent cur g = Some q \<longrightarrow> q \<notin> set todo))"

lemma rehang_step:
  assumes f: "scopes_follow st" and b: "below st f g" "g \<noteq> f"
    and small: "\<And>s. s \<in> module_scopes st \<Longrightarrow> unat (sc_depth s) < 2 ^ 31"
    and cur: "cl_functions cur g = Some e" "function_parent cur g = function_parent st g"
    and h: "rehung st f done (g # todo) cur" and new: "g \<notin> set done" "g \<notin> set todo"
    and order: "\<And>q. function_parent st g = Some q \<Longrightarrow> q = f \<or> q \<in> set done"
    and later: "\<And>q. q \<in> set (g # todo) \<Longrightarrow> q \<noteq> f \<and> q \<notin> set done"
  obtains s where "rehang cur g (function_parent cur g) =
      Some (with_functions cur ((cl_functions cur)(g \<mapsto> e\<lparr>fn_scope := Some s\<rparr>)))"
    "rehung st f (done @ [g]) todo
      (with_functions cur ((cl_functions cur)(g \<mapsto> e\<lparr>fn_scope := Some s\<rparr>)))"
proof -
  obtain q where q: "function_parent st g = Some q" "below st f q"
    "unat (scope_depth st q) < unat (scope_depth st g)" using below_parent [OF f b] .
  have qd: "q = f \<or> q \<in> set done" using order q(1) .
  then obtain sq where sq: "function_scope cur q = Some sq" "built sq"
    "unat (sc_depth sq) \<le> 2 ^ 31 + unat (scope_depth st q)"
    using h unfolding rehung_def homed_def by blast
  obtain sg where "function_scope st g = Some sg" using b by (auto simp: below_def)
  then have "unat (scope_depth st g) < 2 ^ 31"
    using small by (auto simp: scope_depth_def module_scopes_def)
  with sq(3) q(3) have room: "unat (sc_depth sq) + 1 \<le> 2 ^ 31 + unat (scope_depth st g)"
    "unat (sc_depth sq) + 1 < 2 ^ 32" by simp_all
  have par: "Option.bind (function_parent cur g) (function_scope cur) = Some sq"
    using cur(2) q(1) sq(1) by simp
  obtain s where s: "scope_child g (Some sq) = Some s" "built s"
    "rehang cur g (function_parent cur g) =
      Some (with_functions cur ((cl_functions cur)(g \<mapsto> e\<lparr>fn_scope := Some s\<rparr>)))"
    by (rule rehang_spec [OF cur(1), of "function_parent cur g"]) (use par sq room in auto)
  let ?cur = "with_functions cur ((cl_functions cur)(g \<mapsto> e\<lparr>fn_scope := Some s\<rparr>))"
  have fs: "function_scope ?cur i = (if i = g then Some s else function_scope cur i)" for i
    by (simp add: function_scope_def)
  have fp: "function_parent ?cur i = function_parent cur i" for i
    using cur(1) by (simp add: function_parent_def)
  have qg: "q \<noteq> g" using qd new b(2) by auto
  have depth: "unat (sc_depth s) \<le> 2 ^ 31 + unat (scope_depth st g)"
    using child_depth [OF s(1,2)] tablesD(2) [OF built_tables [OF sq(2)]] room(1) by simp
  have "homed ?cur i \<and> (\<forall>s. function_scope ?cur i = Some s \<longrightarrow>
        built s \<and> unat (sc_depth s) \<le> 2 ^ 31 + unat (scope_depth st i)) \<and>
        (\<forall>q. function_parent ?cur i = Some q \<longrightarrow> q \<notin> set todo)"
    if i: "i = f \<or> i \<in> set (done @ [g])" for i
  proof (cases "i = g")
    case True
    have "homed ?cur g" unfolding homed_def fs fp cur(2) q(1) using qg sq(1) s(1) by (simp add: fs)
    with True depth s(2) cur(2) q(1) qd later show ?thesis unfolding fs fp by auto
  next
    case False
    with i h have old: "homed cur i" "\<forall>s. function_scope cur i = Some s \<longrightarrow>
        built s \<and> unat (sc_depth s) \<le> 2 ^ 31 + unat (scope_depth st i)"
      "\<forall>q. function_parent cur i = Some q \<longrightarrow> q \<notin> set (g # todo)" unfolding rehung_def by auto
    have "Option.bind (function_parent cur i) (function_scope ?cur) =
        Option.bind (function_parent cur i) (function_scope cur)"
      using old(3) by (cases "function_parent cur i") (auto simp: fs)
    with old False show ?thesis unfolding homed_def fs fp by simp
  qed
  moreover have "\<forall>i. i \<noteq> f \<longrightarrow> i \<notin> set (done @ [g]) \<longrightarrow> function_scope ?cur i = function_scope st i"
    using h by (auto simp: fs rehung_def)
  ultimately have "rehung st f (done @ [g]) todo ?cur" unfolding rehung_def by blast
  with s(3) show thesis by (rule that)
qed

lemma rehang_loop:
  assumes f: "scopes_follow st"
    and small: "\<And>s. s \<in> module_scopes st \<Longrightarrow> unat (sc_depth s) < 2 ^ 31"
  shows "set (done @ todo) = {g. below st f g \<and> g \<noteq> f} \<Longrightarrow> distinct (done @ todo) \<Longrightarrow>
    sorted (map (scope_depth st) (done @ todo)) \<Longrightarrow> dom (cl_functions cur) = dom (cl_functions st) \<Longrightarrow>
    (\<And>g. g \<noteq> f \<Longrightarrow> function_parent cur g = function_parent st g) \<Longrightarrow> rehung st f done todo cur \<Longrightarrow>
    \<exists>F. fold_opt (\<lambda>d st. rehang st d (function_parent st d)) todo cur = Some (with_functions cur F) \<and>
      rehung st f (done @ todo) [] (with_functions cur F) \<and> dom F = dom (cl_functions cur) \<and>
      function_parent (with_functions cur F) = function_parent cur"
proof (induction todo arbitrary: "done" cur)
  case Nil
  then show ?case by (intro exI [of _ "cl_functions cur"]) simp
next
  case (Cons g todo)
  have g: "below st f g" "g \<noteq> f" using Cons.prems(1) by auto
  then obtain s0 where "function_scope st g = Some s0" by (auto simp: below_def)
  then have "g \<in> dom (cl_functions cur)" using function_scope_dom Cons.prems(4) by metis
  then obtain e where e: "cl_functions cur g = Some e" by auto
  have order: "q = f \<or> q \<in> set done" if p: "function_parent st g = Some q" for q
  proof (rule ccontr)
    assume no: "\<not> (q = f \<or> q \<in> set done)"
    obtain q' where q': "function_parent st g = Some q'" "below st f q'"
      "unat (scope_depth st q') < unat (scope_depth st g)" using below_parent [OF f g] .
    with p no Cons.prems(1) have "q \<in> set (g # todo)" by auto
    then have "scope_depth st g \<le> scope_depth st q"
      using Cons.prems(3) by (auto simp: sorted_append)
    with q' p show False by (simp add: word_le_nat_alt)
  qed
  obtain s where s: "rehang cur g (function_parent cur g) =
      Some (with_functions cur ((cl_functions cur)(g \<mapsto> e\<lparr>fn_scope := Some s\<rparr>)))"
    "rehung st f (done @ [g]) todo
      (with_functions cur ((cl_functions cur)(g \<mapsto> e\<lparr>fn_scope := Some s\<rparr>)))"
    by (rule rehang_step [OF f g small e _ Cons.prems(6) _ _ order])
      (use Cons.prems(1,2,5) g in auto)
  let ?cur = "with_functions cur ((cl_functions cur)(g \<mapsto> e\<lparr>fn_scope := Some s\<rparr>))"
  have fp: "function_parent ?cur = function_parent cur"
    using e by (simp add: function_parent_def fun_eq_iff)
  have dm: "dom (cl_functions ?cur) = dom (cl_functions cur)" using e by auto
  have "\<exists>F. fold_opt (\<lambda>d st. rehang st d (function_parent st d)) todo ?cur =
      Some (with_functions ?cur F) \<and> rehung st f ((done @ [g]) @ todo) [] (with_functions ?cur F) \<and>
    dom F = dom (cl_functions ?cur) \<and> function_parent (with_functions ?cur F) = function_parent ?cur"
    by (rule Cons.IH [OF _ _ _ _ _ s(2)])
      (use Cons.prems(1-5) dm in \<open>simp_all only: append_assoc append.simps fp\<close>)
  then obtain F where F: "fold_opt (\<lambda>d st. rehang st d (function_parent st d)) todo ?cur =
      Some (with_functions ?cur F)" "rehung st f ((done @ [g]) @ todo) [] (with_functions ?cur F)"
    "dom F = dom (cl_functions ?cur)" "function_parent (with_functions ?cur F) = function_parent ?cur"
    by blast
  have over: "with_functions ?cur F = with_functions cur F" by simp
  have "fold_opt (\<lambda>d st. rehang st d (function_parent st d)) (g # todo) cur =
      Some (with_functions cur F)"
    using s(1) F(1) unfolding over by simp
  then show ?case using F(2-4) unfolding over fp dm by (intro exI [of _ F]) simp
qed

lemma moved_functions:
  assumes f: "scopes_follow st" and g: "f \<in> dom (cl_functions st)"
    and fs: "set functions = dom (cl_functions st)" "distinct functions"
  obtains moved where "scope_descendants functions st f = Some moved"
    "set moved = {g. below st f g \<and> g \<noteq> f}" "distinct moved" "sorted (map (scope_depth st) moved)"
proof -
  obtain root where root: "function_scope st f = Some root"
    using f g by (auto simp: scopes_follow_def homed_def)
  let ?found = "map (\<lambda>g. (scope_depth st g, g)) (List.filter (\<lambda>g. g \<noteq> f \<and> below st f g) functions)"
  let ?moved = "map snd (sort_key fst ?found)"
  have dom: "g \<in> dom (cl_functions st)" if "below st f g" for g
    using that function_scope_dom unfolding below_def by metis
  have m: "scope_descendants functions st f = Some ?moved"
    using descendants_found [OF f root] root by (simp add: scope_descendants_def)
  moreover have "set ?moved = {g. below st f g \<and> g \<noteq> f}"
    using fs(1) dom by (force simp: image_iff)
  moreover have "distinct ?moved"
  proof -
    have "mset ?moved = mset (map snd ?found)" by (simp only: mset_map mset_sort)
    also have "map snd ?found = List.filter (\<lambda>g. g \<noteq> f \<and> below st f g) functions"
      by (simp add: comp_def)
    finally have "distinct ?moved = distinct (List.filter (\<lambda>g. g \<noteq> f \<and> below st f g) functions)"
      by (rule mset_eq_imp_distinct_iff)
    then show ?thesis using distinct_filter [OF fs(2)] by (rule iffD2)
  qed
  moreover have keys: "map (scope_depth st) ?moved = map fst (sort_key fst ?found)"
    unfolding map_map by (intro map_cong refl) auto
  have "sorted (map (scope_depth st) ?moved)" unfolding keys by (rule sorted_sort_key)
  ultimately show thesis by (rule that)
qed

lemma refresh_list:
  assumes A: "scope_world A"
  shows "\<forall>g. in_world A (function_scope st g) \<Longrightarrow> uf_inv (cl_meta st) \<Longrightarrow>
    \<forall>r \<in> set rs. is_root (cl_meta st) r \<Longrightarrow>
    \<exists>n s. fold_opt (\<lambda>r st. refresh_class_summary st r) rs st =
        Some (st\<lparr>cl_meta := n, cl_summary := s\<rparr>) \<and> compressed (cl_meta st) n \<and>
      (\<forall>r \<in> set rs. summarizes A (s r) (owner_of st ` class_of (cl_meta st) r)) \<and>
      (\<forall>r. r \<notin> set rs \<longrightarrow> s r = cl_summary st r)"
proof (induction rs arbitrary: st)
  case Nil
  show ?case by (intro exI [of _ "cl_meta st"] exI [of _ "cl_summary st"]) simp
next
  case (Cons r rs)
  have ok: "store_ok A st" using A Cons.prems(1) by (simp add: store_ok_def)
  have "rep_of (cl_meta st) r r" using Cons.prems(3) by (simp add: is_root_iff_rep)
  from refresh_spec [OF ok Cons.prems(2) this] obtain n1 s1 where
    f: "refresh_class_summary st r =
      Some (st\<lparr>cl_meta := n1, cl_summary := (cl_summary st)(r := s1)\<rparr>)"
    "compressed (cl_meta st) n1" "summarizes A s1 (owner_of st ` class_of (cl_meta st) r)" .
  let ?st = "st\<lparr>cl_meta := n1, cl_summary := (cl_summary st)(r := s1)\<rparr>"
  note rep = compressed_rep_of [OF Cons.prems(2) f(2)]
  have cls: "class_of n1 x = class_of (cl_meta st) x" for x by (simp add: class_of_def rep)
  have "\<forall>g. in_world A (function_scope ?st g)" using Cons.prems(1) by simp
  moreover have "uf_inv (cl_meta ?st)" using compressed_inv [OF Cons.prems(2) f(2)] by simp
  moreover have "\<forall>r \<in> set rs. is_root (cl_meta ?st) r"
    using Cons.prems(3) by (simp add: is_root_iff_rep rep)
  ultimately obtain n s where IH: "fold_opt (\<lambda>r st. refresh_class_summary st r) rs ?st =
      Some (?st\<lparr>cl_meta := n, cl_summary := s\<rparr>)" "compressed (cl_meta ?st) n"
    "\<forall>r \<in> set rs. summarizes A (s r) (owner_of ?st ` class_of (cl_meta ?st) r)"
    "\<forall>r. r \<notin> set rs \<longrightarrow> s r = cl_summary ?st r"
    using Cons.IH [of ?st] by blast
  have "\<forall>x \<in> set (r # rs). summarizes A (s x) (owner_of st ` class_of (cl_meta st) x)"
    using IH(3,4) f(3) cls by (cases "r \<in> set rs") auto
  moreover have "\<forall>x. x \<notin> set (r # rs) \<longrightarrow> s x = cl_summary st x" using IH(4) by auto
  moreover have "compressed (cl_meta st) n" using f(2) IH(2) by (auto intro: compressed_trans)
  moreover have "fold_opt (\<lambda>r st. refresh_class_summary st r) (r # rs) st =
      Some (st\<lparr>cl_meta := n, cl_summary := s\<rparr>)" using f(1) IH(1) by simp
  ultimately show ?case by blast
qed

lemma refresh_all_spec:
  assumes A: "scope_world A" "\<forall>g. in_world A (function_scope st g)" and u: "uf_inv (cl_meta st)"
    and one: "\<And>r. is_root (cl_meta st) r \<Longrightarrow> one_value st (class_of (cl_meta st) r) r \<and>
      one_shape st (class_of (cl_meta st) r) r"
    and nodes: "set nodes = dom (cl_meta st)"
  obtains n s where "refresh_all_class_summaries nodes st =
      Some (st\<lparr>cl_meta := n, cl_summary := s\<rparr>)" "compressed (cl_meta st) n"
    "class_inv A (st\<lparr>cl_meta := n, cl_summary := s\<rparr>)"
proof -
  let ?rs = "List.filter (\<lambda>node. case cl_meta st node of None \<Rightarrow> False | Some m \<Rightarrow> m_parent m = None) nodes"
  have rs: "r \<in> set ?rs \<longleftrightarrow> is_root (cl_meta st) r" for r
    using nodes by (auto simp: is_root_def split: option.splits)
  obtain n s where f: "fold_opt (\<lambda>r st. refresh_class_summary st r) ?rs st =
      Some (st\<lparr>cl_meta := n, cl_summary := s\<rparr>)" "compressed (cl_meta st) n"
    "\<forall>r \<in> set ?rs. summarizes A (s r) (owner_of st ` class_of (cl_meta st) r)"
    using refresh_list [OF A u, of ?rs] rs by blast
  let ?st = "st\<lparr>cl_meta := n, cl_summary := s\<rparr>"
  note rep = compressed_rep_of [OF u f(2)]
  have cls: "class_of n x = class_of (cl_meta st) x" for x by (simp add: class_of_def rep)
  have "class_inv A ?st"
    unfolding class_inv_def
  proof (intro conjI allI impI)
    fix r assume "is_root (cl_meta ?st) r"
    then have r: "is_root (cl_meta st) r" by (simp add: is_root_iff_rep rep)
    with one [OF r] f(3) rs show "class_ok A ?st (class_of (cl_meta ?st) r) r"
      by (simp add: class_ok_def one_value_def one_shape_def cls)
  qed (use A compressed_inv [OF u f(2)] in \<open>simp_all add: store_ok_def\<close>)
  with f(1,2) show thesis by (intro that) (simp_all add: refresh_all_class_summaries_def)
qed

text \<open>The whole move.\<close>

lemma set_parent_spec:
  assumes inv: "class_inv A st" and f: "scopes_follow st" and g: "f \<in> dom (cl_functions st)"
    and keys: "set nodes = dom (cl_meta st)" "set functions = dom (cl_functions st)" "distinct functions"
    and small: "\<And>s. s \<in> module_scopes st \<Longrightarrow> unat (sc_depth s) < 2 ^ 31"
    and p: "\<And>q. parent = Some q \<Longrightarrow> q \<in> dom (cl_functions st) \<and> \<not> below st f q"
  obtains st' where "set_function_parent nodes functions st f parent = Some st'"
    "scopes_follow st'" "class_inv (module_scopes st') st'"
    "function_parent st' = (function_parent st)(f := parent)"
    "dom (cl_functions st') = dom (cl_functions st)"
    "cl_owner st' = cl_owner st" "compressed (cl_meta st) (cl_meta st')"
proof -
  obtain moved where moved: "scope_descendants functions st f = Some moved"
    "set moved = {g. below st f g \<and> g \<noteq> f}" "distinct moved" "sorted (map (scope_depth st) moved)"
    using moved_functions [OF f g keys(2,3)] .
  obtain e where e: "cl_functions st f = Some e" using g by auto
  let ?st1 = "with_functions st ((cl_functions st)(f \<mapsto> e\<lparr>fn_parent := parent\<rparr>))"
  have fs1: "function_scope ?st1 = function_scope st" using e by (auto simp: function_scope_def)
  have fp1: "function_parent ?st1 = (function_parent st)(f := parent)"
    by (auto simp: function_parent_def fun_eq_iff)
  have e1: "cl_functions ?st1 f = Some (e\<lparr>fn_parent := parent\<rparr>)" by simp
  have up: "built q \<and> unat (sc_depth q) + 1 < 2 ^ 32 \<and> unat (sc_depth q) < 2 ^ 31"
    if b: "Option.bind parent (function_scope ?st1) = Some q" for q
  proof -
    obtain h where "function_scope st h = Some q" using b unfolding fs1 by (auto simp: bind_eq_Some_conv)
    moreover from this have "unat (sc_depth q) < 2 ^ 31" using small by (auto simp: module_scopes_def)
    ultimately show ?thesis using scopes_follow_chain [OF f] by auto
  qed
  obtain s where s: "scope_child f (Option.bind parent (function_scope ?st1)) = Some s" "built s"
    "rehang ?st1 f parent =
      Some (with_functions ?st1 ((cl_functions ?st1)(f \<mapsto> e\<lparr>fn_parent := parent, fn_scope := Some s\<rparr>)))"
    by (rule rehang_spec [OF e1, of parent]) (use up in auto)
  let ?st2 = "with_functions st ((cl_functions st)(f \<mapsto> e\<lparr>fn_parent := parent, fn_scope := Some s\<rparr>))"
  have s3: "rehang ?st1 f parent = Some ?st2" using s(3) by simp
  have fs2: "function_scope ?st2 i = (if i = f then Some s else function_scope st i)" for i
    by (simp add: function_scope_def)
  have fp2: "function_parent ?st2 = (function_parent st)(f := parent)"
    by (auto simp: function_parent_def fun_eq_iff)
  have dm2: "dom (cl_functions ?st2) = dom (cl_functions st)" using e by auto
  obtain root where root: "function_scope st f = Some root"
    using f g unfolding scopes_follow_def homed_def by blast
  then have ff: "below st f f" by (simp add: below_def)
  have pf: "q \<noteq> f" "q \<notin> set moved" if "parent = Some q" for q
    using p [OF that] ff moved(2) by auto
  have "length (scope_path (Option.bind parent (function_scope st))) \<le> 2 ^ 31"
  proof (cases "Option.bind parent (function_scope st)")
    case (Some q)
    with up [of q] tablesD(2) [OF built_tables, of q] show ?thesis by (simp add: fs1)
  qed simp
  then have depth: "unat (sc_depth s) \<le> 2 ^ 31" using child_depth [OF s(1,2)] by (simp add: fs1)
  have rest: "rehung st f [] moved ?st2"
    unfolding rehung_def
  proof (intro conjI allI impI)
    fix i assume "i = f \<or> i \<in> set []"
    then have i: "i = f" by simp
    have "Option.bind parent (function_scope ?st2) = Option.bind parent (function_scope ?st1)"
      using pf(1) by (cases parent) (auto simp: function_scope_def)
    with s(1) show "homed ?st2 i" unfolding homed_def fp2 i by (simp add: fs2)
    show "built t" "unat (sc_depth t) \<le> 2 ^ 31 + unat (scope_depth st i)"
      if "function_scope ?st2 i = Some t" for t
      using that s(2) depth i by (simp_all add: fs2)
    show "q \<notin> set moved" if "function_parent ?st2 i = Some q" for q
      using that pf i unfolding fp2 by simp
  qed (simp add: fs2)
  have "\<exists>F. fold_opt (\<lambda>d st. rehang st d (function_parent st d)) moved ?st2 =
      Some (with_functions ?st2 F) \<and> rehung st f ([] @ moved) [] (with_functions ?st2 F) \<and>
    dom F = dom (cl_functions ?st2) \<and> function_parent (with_functions ?st2 F) = function_parent ?st2"
    by (rule rehang_loop [OF f _ _ _ _ dm2 _ rest])
      (use small moved(2-4) in \<open>simp_all add: fp2\<close>)
  then obtain F where F: "fold_opt (\<lambda>d st. rehang st d (function_parent st d)) moved ?st2 =
      Some (with_functions ?st2 F)" "rehung st f moved [] (with_functions ?st2 F)"
    "dom F = dom (cl_functions ?st2)" "function_parent (with_functions ?st2 F) = function_parent ?st2"
    by auto
  let ?st3 = "with_functions st F"
  have over: "with_functions ?st2 F = ?st3" by simp
  note F = F [unfolded over]
  have follow: "scopes_follow ?st3"
    unfolding scopes_follow_def
  proof
    fix i assume i: "i \<in> dom (cl_functions ?st3)"
    show "homed ?st3 i"
    proof (cases "i = f \<or> i \<in> set moved")
      case True
      with F(2) show ?thesis by (auto simp: rehung_def)
    next
      case False
      have out: "function_scope ?st3 j = function_scope st j" if "j \<noteq> f" "j \<notin> set moved" for j
        using F(2) that by (simp add: rehung_def)
      have par: "function_parent ?st3 i = function_parent st i" using False F(4) fp2 by simp
      have dom: "i \<in> dom (cl_functions st)" using i F(3) g by auto
      have "q \<noteq> f \<and> q \<notin> set moved" if q: "function_parent st i = Some q" for q
      proof -
        have "\<not> below st f i" using False moved(2) by auto
        then have "\<not> below st f q" using below_child [OF f q _ dom] by blast
        then show ?thesis using ff moved(2) by auto
      qed
      then have "Option.bind (function_parent st i) (function_scope ?st3) =
          Option.bind (function_parent st i) (function_scope st)"
        using out by (cases "function_parent st i") auto
      then show ?thesis using f dom out [of i] False unfolding scopes_follow_def homed_def par by auto
    qed
  qed
  note A = scopes_follow_world [OF follow]
  have "\<forall>g. in_world (module_scopes ?st3) (function_scope ?st3 g)"
  proof
    fix g show "in_world (module_scopes ?st3) (function_scope ?st3 g)"
      by (cases "function_scope ?st3 g") (auto simp: module_scopes_def)
  qed
  then obtain n s' where n: "refresh_all_class_summaries nodes ?st3 =
      Some (?st3\<lparr>cl_meta := n, cl_summary := s'\<rparr>)" "compressed (cl_meta ?st3) n"
    "class_inv (module_scopes ?st3) (?st3\<lparr>cl_meta := n, cl_summary := s'\<rparr>)"
  proof (rule refresh_all_spec [OF A])
    show "uf_inv (cl_meta ?st3)" using class_invD(2) [OF inv] by simp
    show "one_value ?st3 (class_of (cl_meta ?st3) r) r \<and> one_shape ?st3 (class_of (cl_meta ?st3) r) r"
      if "is_root (cl_meta ?st3) r" for r
      using class_invD(3) [OF inv, of r r] that
      by (simp add: is_root_iff_rep class_ok_def one_value_def one_shape_def)
  qed (use keys(1) in simp_all)
  let ?st' = "?st3\<lparr>cl_meta := n, cl_summary := s'\<rparr>"
  have fs: "function_scope ?st' = function_scope ?st3" by simp
  have fp: "function_parent ?st' = function_parent ?st3" by (simp add: function_parent_def fun_eq_iff)
  have ms: "module_scopes ?st' = module_scopes ?st3" unfolding module_scopes_def fs ..
  have "scopes_follow ?st'" using follow unfolding scopes_follow_def homed_def fs fp by simp
  moreover have "set_function_parent nodes functions st f parent = Some ?st'"
    using moved(1) e s3 F(1) n(1) by (simp add: set_function_parent_def)
  ultimately show thesis using n(2,3) F(3,4) dm2 ms unfolding fp2
    by (intro that [of ?st']) (simp_all add: fp)
qed

end
