(* ===== verification/Module_Classes.thy ===== *)
theory Module_Classes
  imports Function_Scopes
begin

text \<open>
  The stores a module reaches by its own operations: nodes are made, classes are merged and
  written, nodes are given owners, a dropped block's members leave their class, functions are begun
  and moved. Every reachable store keeps one value and one low type for a class, a summary that is
  the nearest scope above every member's owner, and the scopes where the parents say.

  The removal of a function with its block is not a step here.
\<close>

section \<open>Beginning a function\<close>

lemma same_functions:
  assumes "cl_functions st' = cl_functions st"
  shows "function_scope st' = function_scope st" "function_parent st' = function_parent st"
    "scopes_follow st' = scopes_follow st" "module_scopes st' = module_scopes st"
proof -
  show fs: "function_scope st' = function_scope st" and fp: "function_parent st' = function_parent st"
    using assms by (simp_all add: function_scope_def function_parent_def fun_eq_iff)
  show "scopes_follow st' = scopes_follow st" "module_scopes st' = module_scopes st"
    unfolding scopes_follow_def homed_def module_scopes_def fs fp assms by simp_all
qed

lemma class_inv_more_scopes:
  assumes inv: "class_inv A st" and sub: "A \<subseteq> B" and B: "scope_world B"
    and st: "cl_meta st' = cl_meta st" "cl_value st' = cl_value st" "cl_shape st' = cl_shape st"
      "cl_summary st' = cl_summary st" "owner_of st' = owner_of st"
    and fs: "\<And>f. in_world B (function_scope st' f)"
  shows "class_inv B st'"
proof -
  have "summarizes B s S" if "summarizes A s S" for s S
    using that sub by (auto simp: summarizes_def in_world_def)
  with inv B fs show ?thesis
    unfolding class_inv_def store_ok_def class_ok_def one_value_def one_shape_def st by auto
qed

text \<open>A key the function table never gave out before names no owner and no parent.\<close>

definition fresh_function :: "('k, 'v, 'f, 'b) class_store \<Rightarrow> 'f \<Rightarrow> bool" where
  "fresh_function st f \<longleftrightarrow> f \<notin> dom (cl_functions st) \<and> (\<forall>k. cl_owner st k \<noteq> Some f) \<and>
     (\<forall>g. function_parent st g \<noteq> Some f)"

lemma begin_spec:
  assumes inv: "class_inv (module_scopes st) st" and follow: "scopes_follow st"
    and fresh: "fresh_function st f" and p: "\<And>q. parent = Some q \<Longrightarrow> q \<in> dom (cl_functions st)"
    and run: "begin_function st f parent = Some st'"
  shows "class_inv (module_scopes st') st' \<and> scopes_follow st'"
proof -
  let ?st1 = "with_functions st ((cl_functions st)(f \<mapsto>
    \<lparr>fn_nodes = [], fn_parent = parent, fn_scope = None\<rparr>))"
  have new: "f \<notin> dom (cl_functions st)" using fresh by (simp add: fresh_function_def)
  have none: "function_scope st f = None" using new by (simp add: function_scope_def domIff)
  have fs1: "function_scope ?st1 = function_scope st"
    using none by (auto simp: function_scope_def fun_eq_iff)
  obtain s where s: "scope_child f (Option.bind parent (function_scope st)) = Some s"
    and st': "st' = with_functions st ((cl_functions st)(f \<mapsto>
      \<lparr>fn_nodes = [], fn_parent = parent, fn_scope = Some s\<rparr>))"
    using run unfolding begin_function_def Let_def fs1
    by (auto simp: set_scope_def bind_eq_Some_conv)
  have fs: "function_scope st' g = (if g = f then Some s else function_scope st g)" for g
    by (simp add: st' function_scope_def)
  have fp: "function_parent st' g = (if g = f then parent else function_parent st g)" for g
    by (simp add: st' function_parent_def)
  have keep: "Option.bind q (function_scope st') = Option.bind q (function_scope st)"
    if "q \<noteq> Some f" for q using that by (cases q) (auto simp: fs)
  have nf: "parent \<noteq> Some f" using p new by blast
  have follow': "scopes_follow st'"
    unfolding scopes_follow_def
  proof
    fix g assume g: "g \<in> dom (cl_functions st')"
    show "homed st' g"
    proof (cases "g = f")
      case True
      with s keep [OF nf] show ?thesis by (simp add: homed_def fs fp)
    next
      case False
      then have "homed st g" using g follow by (auto simp: st' scopes_follow_def)
      moreover have "function_parent st g \<noteq> Some f" using fresh by (simp add: fresh_function_def)
      ultimately show ?thesis using False keep by (simp add: homed_def fs fp)
    qed
  qed
  have "class_inv (module_scopes st') st'"
  proof (rule class_inv_more_scopes [OF inv _ scopes_follow_world [OF follow']])
    show "module_scopes st \<subseteq> module_scopes st'"
    proof
      fix x assume "x \<in> module_scopes st"
      then obtain g where g: "function_scope st g = Some x" by (auto simp: module_scopes_def)
      with none have "g \<noteq> f" by auto
      with g have "function_scope st' g = Some x" by (simp add: fs)
      then show "x \<in> module_scopes st'" by (auto simp: module_scopes_def)
    qed
    show "owner_of st' = owner_of st"
    proof
      fix k show "owner_of st' k = owner_of st k"
        using fresh by (cases "cl_owner st k") (auto simp: owner_of_def st' fs fresh_function_def
            function_scope_def)
    qed
    show "in_world (module_scopes st') (function_scope st' g)" for g
      by (cases "function_scope st' g") (auto simp: module_scopes_def)
  qed (simp_all add: st')
  then show ?thesis using follow' ..
qed

section \<open>The reachable stores\<close>

definition no_classes :: "('k, 'v, 'f, 'b) class_store \<Rightarrow> bool" where
  "no_classes st \<longleftrightarrow> cl_meta st = Map.empty \<and> cl_functions st = Map.empty"

inductive class_step :: "('v \<Rightarrow> ('a, 't, 'g) low_value option) \<Rightarrow> ('k, 'v, 'f, 'b) class_store \<Rightarrow>
    ('k, 'v, 'f, 'b) class_store \<Rightarrow> bool" for as_enum where
  step_node: "key \<notin> dom (cl_meta st) \<Longrightarrow> card (dom (cl_meta st)) + 1 < 2 ^ 32 \<Longrightarrow>
    add_node as_enum st key block v = Some st' \<Longrightarrow> class_step as_enum st st'"
| step_equality: "a \<in> dom (cl_meta st) \<Longrightarrow> b \<in> dom (cl_meta st) \<Longrightarrow>
    agree (cl_value st a) (cl_value st b) \<Longrightarrow> class_low_type st a = Some left \<Longrightarrow>
    class_low_type st b = Some right \<Longrightarrow> agree left right \<Longrightarrow>
    add_equality st a b = Some (st', r) \<Longrightarrow> class_step as_enum st st'"
| step_write: "k \<in> dom (cl_meta st) \<Longrightarrow> class_low_type st k = Some shape \<Longrightarrow>
    agree shape (observed_low_shape (as_enum v)) \<Longrightarrow>
    write_node_value_if_absent as_enum st k (Some v) = Some st' \<Longrightarrow> class_step as_enum st st'"
| step_owner: "k \<in> dom (cl_meta st) \<Longrightarrow> set_node_owner st k owner = Some st' \<Longrightarrow>
    class_step as_enum st st'"
| step_register: "k \<in> dom (cl_meta st) \<Longrightarrow> register_in_function st f k = Some st' \<Longrightarrow>
    class_step as_enum st st'"
| step_release: "is_root (cl_meta st) r \<Longrightarrow> flatten_class st r block = Some st' \<Longrightarrow>
    class_step as_enum st (released st' block (class_of (cl_meta st) r))"
| step_begin: "fresh_function st f \<Longrightarrow> (\<forall>q. parent = Some q \<longrightarrow> q \<in> dom (cl_functions st)) \<Longrightarrow>
    begin_function st f parent = Some st' \<Longrightarrow> class_step as_enum st st'"
| step_move: "f \<in> dom (cl_functions st) \<Longrightarrow> set nodes = dom (cl_meta st) \<Longrightarrow>
    set functions = dom (cl_functions st) \<Longrightarrow> distinct functions \<Longrightarrow>
    (\<forall>s \<in> module_scopes st. unat (sc_depth s) < 2 ^ 31) \<Longrightarrow>
    (\<forall>q. parent = Some q \<longrightarrow> q \<in> dom (cl_functions st) \<and> \<not> below st f q) \<Longrightarrow>
    set_function_parent nodes functions st f parent = Some st' \<Longrightarrow> class_step as_enum st st'"

inductive class_reach :: "('v \<Rightarrow> ('a, 't, 'g) low_value option) \<Rightarrow> ('k, 'v, 'f, 'b) class_store \<Rightarrow> bool"
  for as_enum where
  reach_none: "no_classes st \<Longrightarrow> class_reach as_enum st"
| reach_class: "class_reach as_enum st \<Longrightarrow> class_step as_enum st st' \<Longrightarrow> class_reach as_enum st'"

definition module_inv :: "('k, 'v, 'f, 'b) class_store \<Rightarrow> bool" where
  "module_inv st \<longleftrightarrow> scopes_follow st \<and> class_inv (module_scopes st) st"

lemma module_invD:
  assumes "module_inv st"
  shows "scopes_follow st" "class_inv (module_scopes st) st"
  using assms by (simp_all add: module_inv_def)

lemma module_inv_same:
  assumes "module_inv st" "class_inv (module_scopes st) st'" "cl_functions st' = cl_functions st"
  shows "module_inv st'"
  using assms same_functions [OF assms(3)] by (simp add: module_inv_def)

lemma low_type_root:
  assumes "rep_of (cl_meta st) k r"
  shows "class_low_type st k = Some (cl_shape st r)"
  using class_root_rep [OF assms] rep_of_dom [OF assms] by (auto simp: class_low_type_def)

lemma class_step_inv:
  assumes "class_step as_enum st st'" and m: "module_inv st"
  shows "module_inv st'"
  using assms(1)
proof cases
  case (step_node key block v)
  obtain st2 where "add_node as_enum st key block v = Some st2" "class_inv (module_scopes st) st2"
    "cl_functions st2 = cl_functions st"
    using add_node_spec [OF module_invD(2) [OF m] step_node(1,2)] by metis
  with step_node(3) m show ?thesis by (auto intro: module_inv_same)
next
  case (step_equality a b left right r)
  obtain ra rb where r: "rep_of (cl_meta st) a ra" "rep_of (cl_meta st) b rb"
    using class_inv_rep [OF module_invD(2) [OF m]] step_equality(1,2) by metis
  then have ag: "agree (cl_shape st ra) (cl_shape st rb)"
    using step_equality(4-6) low_type_root by (metis option.inject)
  obtain st2 r2 where "add_equality st a b = Some (st2, r2)" "class_inv (module_scopes st) st2"
    "cl_functions st2 = cl_functions st"
    using add_equality_spec [OF module_invD(2) [OF m] r step_equality(3) ag] by metis
  with step_equality(7) m show ?thesis by (auto intro: module_inv_same)
next
  case (step_write k shape v)
  show ?thesis
  proof (cases "cl_value st k = None")
    case False
    with step_write(1,4) m show ?thesis by (auto simp: write_node_value_if_absent_def)
  next
    case True
    obtain r where r: "rep_of (cl_meta st) k r"
      using class_inv_rep [OF module_invD(2) [OF m]] step_write(1) by metis
    then have ag: "agree (cl_shape st r) (observed_low_shape (as_enum v))"
      using step_write(2,3) low_type_root by (metis option.inject)
    obtain st2 where "write_node_value as_enum st k (Some v) = Some st2"
      "class_inv (module_scopes st) st2" "cl_functions st2 = cl_functions st"
      using write_spec [where as_enum = as_enum and v = v, OF module_invD(2) [OF m] r True ag] by metis
    with step_write(1,4) True m show ?thesis
      by (auto simp: write_node_value_if_absent_def intro: module_inv_same)
  qed
next
  case (step_owner k owner)
  obtain r where r: "rep_of (cl_meta st) k r"
    using class_inv_rep [OF module_invD(2) [OF m]] step_owner(1) by metis
  obtain st2 where "set_node_owner st k owner = Some st2" "class_inv (module_scopes st) st2"
    "cl_functions st2 = cl_functions st"
    using set_owner_spec [OF module_invD(2) [OF m] r] by metis
  with step_owner(2) m show ?thesis by (auto intro: module_inv_same)
next
  case (step_register k f)
  then obtain e where e: "cl_functions st f = Some e"
    by (auto simp: register_in_function_def bind_eq_Some_conv)
  obtain st2 where "register_in_function st f k = Some st2" "class_inv (module_scopes st) st2"
    "function_scope st2 = function_scope st"
    "cl_functions st2 = (cl_functions st)(f \<mapsto> e\<lparr>fn_nodes := fn_nodes e @ [k]\<rparr>)"
    using register_spec [OF module_invD(2) [OF m] step_register(1) e] by metis
  moreover from this have "dom (cl_functions st2) = dom (cl_functions st)" using e by auto
  moreover from \<open>cl_functions st2 = _\<close> have "function_parent st2 = function_parent st"
    using e by (simp add: function_parent_def fun_eq_iff)
  ultimately show ?thesis using step_register(2) m
    by (simp add: module_inv_def scopes_follow_def homed_def module_scopes_def)
next
  case (step_release r block st2)
  obtain st3 where "flatten_class st r block = Some st3"
    "class_inv (module_scopes st) (released st3 block (class_of (cl_meta st) r))"
    "cl_functions st3 = cl_functions st"
    using flatten_spec [OF module_invD(2) [OF m] step_release(2)] by metis
  with step_release m show ?thesis by (auto intro: module_inv_same simp: released_def)
next
  case (step_begin f parent)
  then show ?thesis using begin_spec [OF module_invD(2) [OF m] module_invD(1) [OF m], of f parent]
    by (simp add: module_inv_def)
next
  case (step_move f nodes keys parent)
  obtain st2 where "set_function_parent nodes keys st f parent = Some st2"
    "scopes_follow st2" "class_inv (module_scopes st2) st2"
    using set_parent_spec [OF module_invD(2) [OF m] module_invD(1) [OF m] step_move(1-4)] step_move(5,6)
    by metis
  with step_move(7) show ?thesis by (simp add: module_inv_def)
qed

lemma class_reach_inv: "class_reach as_enum st \<Longrightarrow> module_inv st"
proof (induction rule: class_reach.induct)
  case (reach_none st)
  then have "cl_meta st = Map.empty" "function_scope st = (\<lambda>_. None)" "cl_functions st = Map.empty"
    by (auto simp: no_classes_def function_scope_def)
  then show ?case using uf_inv_empty(1)
    by (simp add: module_inv_def scopes_follow_def class_inv_def store_ok_def is_root_def
        module_scopes_def scope_world_def one_scope_each_def)
qed (rule class_step_inv)

text \<open>The class of a member, over the relation the table stands for.\<close>

lemma same_set_class:
  assumes "rep_of nodes k r"
  shows "{l. same_set nodes k l} = class_of nodes r"
  using same_set_iff_rep [OF assms] by (auto simp: class_of_def)

lemma reach_class_ok:
  assumes inv: "module_inv st" and k: "k \<in> dom (cl_meta st)"
  obtains r where "rep_of (cl_meta st) k r" "{l. same_set (cl_meta st) k l} = class_of (cl_meta st) r"
    "class_ok (module_scopes st) st {l. same_set (cl_meta st) k l} r"
proof -
  obtain r where r: "rep_of (cl_meta st) k r" using class_inv_rep [OF module_invD(2) [OF inv] k] .
  have "class_ok (module_scopes st) st (class_of (cl_meta st) r) r"
    using class_invD(3) [OF module_invD(2) [OF inv] r] .
  with r same_set_class [OF r] that show thesis by metis
qed

lemma inv_summary:
  assumes inv: "module_inv st" and k: "k \<in> dom (cl_meta st)"
  obtains s where "class_scope_summary st k = Some s" "in_world (module_scopes st) s"
    "set (scope_path s) =
      (\<Inter>l \<in> {l. same_set (cl_meta st) k l}. set (scope_path (owner_of st l)))"
proof -
  obtain r where r: "rep_of (cl_meta st) k r"
    "class_ok (module_scopes st) st {l. same_set (cl_meta st) k l} r"
    using reach_class_ok [OF inv k] by metis
  have "class_scope_summary st k = Some (cl_summary st r)"
    using class_root_rep [OF r(1)] rep_of_dom [OF r(1)] by (auto simp: class_scope_summary_def)
  with r(2) that show thesis by (simp add: class_ok_def summarizes_def)
qed

lemma inv_inside:
  assumes inv: "module_inv st" and k: "k \<in> dom (cl_meta st)" and s: "function_scope st f = Some s"
  shows "class_inside_scope st k s =
    Some (\<forall>l. same_set (cl_meta st) k l \<longrightarrow> s \<in> set (scope_path (owner_of st l)))"
proof -
  note A = scopes_follow_world [OF module_invD(1) [OF inv]]
  have sA: "s \<in> module_scopes st" using s by (auto simp: module_scopes_def)
  obtain m where m: "class_scope_summary st k = Some m" "in_world (module_scopes st) m"
    "set (scope_path m) =
      (\<Inter>l \<in> {l. same_set (cl_meta st) k l}. set (scope_path (owner_of st l)))"
    using inv_summary [OF inv k] .
  have "class_inside_scope st k s = Some (s \<in> set (scope_path m))"
  proof (cases m)
    case None
    then show ?thesis using m(1) by (simp add: class_inside_scope_def)
  next
    case (Some t)
    then have tA: "t \<in> module_scopes st" using m(2) by simp
    have "is_ancestor_or_self s t = Some (s \<in> set (scope_chain t))"
      using scope_worldD(1) [OF A] sA tA world_one_each [OF A sA tA] by (intro ancestor_is_on_chain)
    then show ?thesis using m(1) Some by (simp add: class_inside_scope_def)
  qed
  then show ?thesis unfolding m(3) by simp
qed

section \<open>A small module\<close>

text \<open>Two functions inside one, and a node of each.\<close>

definition demo_enum :: "nat \<Rightarrow> (nat, nat, nat) low_value option" where
  "demo_enum v = Some (Low_USize (word_of_nat v))"

definition demo_empty :: "(nat, nat, nat, nat) class_store" where
  "demo_empty = \<lparr>cl_meta = Map.empty, cl_value = (\<lambda>_. None), cl_shape = (\<lambda>_. None),
     cl_owner = (\<lambda>_. None), cl_summary = (\<lambda>_. None), cl_block = (\<lambda>_. 0), cl_functions = Map.empty\<rparr>"

definition demo_func :: "nat list \<Rightarrow> nat option \<Rightarrow> nat scope \<Rightarrow> (nat, nat) func" where
  "demo_func nodes parent scope = \<lparr>fn_nodes = nodes, fn_parent = parent, fn_scope = Some scope\<rparr>"

definition demo_nested :: "(nat, nat, nat, nat) class_store" where
  "demo_nested = demo_empty\<lparr>cl_functions := [5 \<mapsto> demo_func [] None demo_root,
     2 \<mapsto> demo_func [] (Some 5) demo_left, 4 \<mapsto> demo_func [] (Some 5) demo_right]\<rparr>"

definition demo_store :: "(nat, nat, nat, nat) class_store" where
  "demo_store = demo_empty\<lparr>
     cl_meta := [7 \<mapsto> meta_new None None (Some 7) 1, 8 \<mapsto> meta_new None None (Some 8) 1],
     cl_owner := [7 \<mapsto> 2, 8 \<mapsto> 4], cl_summary := [7 \<mapsto> demo_left, 8 \<mapsto> demo_right],
     cl_functions := [5 \<mapsto> demo_func [] None demo_root,
       2 \<mapsto> demo_func [7] (Some 5) demo_left, 4 \<mapsto> demo_func [8] (Some 5) demo_right]\<rparr>"

lemma demo_begin:
  "begin_function demo_empty 5 None = Some (demo_empty\<lparr>cl_functions :=
     [5 \<mapsto> demo_func [] None demo_root]\<rparr>)"
  "begin_function (demo_empty\<lparr>cl_functions := [5 \<mapsto> demo_func [] None demo_root]\<rparr>) 2 (Some 5) =
     Some (demo_empty\<lparr>cl_functions := [5 \<mapsto> demo_func [] None demo_root,
       2 \<mapsto> demo_func [] (Some 5) demo_left]\<rparr>)"
  "begin_function (demo_empty\<lparr>cl_functions := [5 \<mapsto> demo_func [] None demo_root,
       2 \<mapsto> demo_func [] (Some 5) demo_left]\<rparr>) 4 (Some 5) = Some demo_nested"
  by (simp_all add: begin_function_def Let_def function_scope_def demo_func_def demo_scope_root(4)
      demo_scope_left(4) demo_scope_right(4) set_scope_def demo_nested_def fun_eq_iff demo_empty_def)

lemma demo_nested_reach: "class_reach demo_enum demo_nested"
proof -
  have "class_reach demo_enum demo_empty" by (rule reach_none) (simp add: no_classes_def demo_empty_def)
  then have "class_reach demo_enum (demo_empty\<lparr>cl_functions := [5 \<mapsto> demo_func [] None demo_root]\<rparr>)"
    by (rule reach_class) (rule step_begin [OF _ _ demo_begin(1)],
      simp_all add: fresh_function_def demo_empty_def function_parent_def)
  then have "class_reach demo_enum (demo_empty\<lparr>cl_functions := [5 \<mapsto> demo_func [] None demo_root,
       2 \<mapsto> demo_func [] (Some 5) demo_left]\<rparr>)"
    by (rule reach_class) (rule step_begin [OF _ _ demo_begin(2)],
      simp_all add: fresh_function_def demo_empty_def function_parent_def demo_func_def)
  then show ?thesis
    by (rule reach_class) (rule step_begin [OF _ _ demo_begin(3)],
      simp_all add: fresh_function_def demo_empty_def function_parent_def demo_func_def)
qed

abbreviation demo_lone :: "nat \<Rightarrow> nat meta" where
  "demo_lone k \<equiv> meta_new None None (Some k) 1"

lemma none_upd: "(\<lambda>_. None)(k := None) = (\<lambda>_. None)" "(\<lambda>_. c)(k := c) = (\<lambda>_. c)"
  by (simp_all add: fun_eq_iff)

lemma demo_nodes:
  "add_node demo_enum demo_nested 7 0 None = Some (demo_nested\<lparr>cl_meta := [7 \<mapsto> demo_lone 7]\<rparr>)"
  "add_node demo_enum (demo_nested\<lparr>cl_meta := [7 \<mapsto> demo_lone 7]\<rparr>) 8 0 None =
     Some (demo_nested\<lparr>cl_meta := [7 \<mapsto> demo_lone 7, 8 \<mapsto> demo_lone 8]\<rparr>)"
  by (simp_all add: add_node_def make_set_def upd_meta_def meta_new_def demo_nested_def
      demo_empty_def none_upd)

lemma demo_alone: "nodes k = Some (demo_lone k) \<Longrightarrow> uf_find nodes k = Some (nodes, k)"
  by (subst uf_find.simps) (simp add: meta_new_def)

lemma demo_registered:
  "register_in_function (demo_nested\<lparr>cl_meta := [7 \<mapsto> demo_lone 7, 8 \<mapsto> demo_lone 8]\<rparr>) 2 7 =
     Some (demo_nested\<lparr>cl_meta := [7 \<mapsto> demo_lone 7, 8 \<mapsto> demo_lone 8], cl_owner := [7 \<mapsto> 2],
       cl_summary := [7 \<mapsto> demo_left], cl_functions := [5 \<mapsto> demo_func [] None demo_root,
       2 \<mapsto> demo_func [7] (Some 5) demo_left, 4 \<mapsto> demo_func [] (Some 5) demo_right]\<rparr>)"
  "register_in_function (demo_nested\<lparr>cl_meta := [7 \<mapsto> demo_lone 7, 8 \<mapsto> demo_lone 8],
       cl_owner := [7 \<mapsto> 2], cl_summary := [7 \<mapsto> demo_left],
       cl_functions := [5 \<mapsto> demo_func [] None demo_root,
       2 \<mapsto> demo_func [7] (Some 5) demo_left, 4 \<mapsto> demo_func [] (Some 5) demo_right]\<rparr>) 4 8 =
     Some demo_store"
  by (simp_all add: register_in_function_def set_node_owner_def refresh_class_summary_def Let_def
      demo_alone owner_scope_def function_scope_def demo_nested_def demo_empty_def demo_func_def
      demo_store_def meta_new_def fun_upd_twist)

lemma demo_store_reach: "class_reach demo_enum demo_store"
proof -
  have "class_reach demo_enum (demo_nested\<lparr>cl_meta := [7 \<mapsto> demo_lone 7]\<rparr>)"
    by (rule reach_class [OF demo_nested_reach], rule step_node [OF _ _ demo_nodes(1)])
      (simp_all add: demo_nested_def demo_empty_def)
  then have "class_reach demo_enum
      (demo_nested\<lparr>cl_meta := [7 \<mapsto> demo_lone 7, 8 \<mapsto> demo_lone 8]\<rparr>)"
    by (rule reach_class) (rule step_node [OF _ _ demo_nodes(2)], simp_all)
  note a = reach_class [OF this step_register [OF _ demo_registered(1)]]
  show ?thesis by (rule reach_class [OF a step_register [OF _ demo_registered(2)]]) simp_all
qed

lemma demo_same: "same_set (cl_meta demo_store) k l \<longleftrightarrow> k = l \<and> (k = 7 \<or> k = 8)"
proof -
  have r: "is_root (cl_meta demo_store) 7" "is_root (cl_meta demo_store) 8"
    by (simp_all add: is_root_def demo_store_def meta_new_def)
  have "rep_of (cl_meta demo_store) x s \<longleftrightarrow> x = s \<and> (x = 7 \<or> x = 8)" for x s
  proof (cases "x = 7 \<or> x = 8")
    case True
    with rep_of_root [OF r(1)] rep_of_root [OF r(2)] show ?thesis by auto
  next
    case False
    then have "x \<notin> dom (cl_meta demo_store)" by (simp add: demo_store_def)
    with False rep_of_dom show ?thesis by metis
  qed
  then show ?thesis by (auto simp: same_set_def)
qed

lemma demo_owner_of: "owner_of demo_store 7 = Some demo_left" "owner_of demo_store 8 = Some demo_right"
  by (simp_all add: owner_of_def function_scope_def demo_store_def demo_func_def)

lemma demo_low_type: "class_low_type demo_store 7 = Some None" "class_low_type demo_store 8 = Some None"
proof -
  have "class_root (cl_meta demo_store) k = Some k" if "k = 7 \<or> k = 8" for k
    using that by (subst class_root.simps) (auto simp: demo_store_def meta_new_def)
  then show "class_low_type demo_store 7 = Some None" "class_low_type demo_store 8 = Some None"
    by (simp_all add: class_low_type_def) (simp_all add: demo_store_def demo_empty_def)
qed

lemma demo_module_scopes: "module_scopes demo_store = {demo_root, demo_left, demo_right}"
proof (intro set_eqI iffI)
  have fs: "function_scope demo_store f = (if f = 5 then Some demo_root else if f = 2 then
      Some demo_left else if f = 4 then Some demo_right else None)" for f
    by (simp add: function_scope_def demo_store_def demo_func_def)
  show "s \<in> {demo_root, demo_left, demo_right}" if "s \<in> module_scopes demo_store" for s
    using that by (auto simp: module_scopes_def fs split: if_splits)
  have "demo_root \<in> module_scopes demo_store" "demo_left \<in> module_scopes demo_store"
    "demo_right \<in> module_scopes demo_store"
    using fs [of 5] fs [of 2] fs [of 4] unfolding module_scopes_def mem_Collect_eq by simp_all blast+
  then show "s \<in> module_scopes demo_store" if "s \<in> {demo_root, demo_left, demo_right}" for s
    using that by blast
qed

section \<open>Properties\<close>

text \<open>
  C4: In every store a module reaches, the members of a class give one answer each time they are
  asked: one value, one low type, and one scope summary, which names exactly the scopes that are
  above the owner of every member (none, if some member has no owner or the owners share no scope).
\<close>

theorem reach_class_answers:
  assumes "class_reach as_enum st" "k \<in> dom (cl_meta st)" "same_set (cl_meta st) k l"
  shows "class_value st k = Some (cl_value st l) \<and> class_low_type st k = class_low_type st l \<and>
    (\<exists>s. class_scope_summary st k = Some s \<and> class_scope_summary st l = Some s \<and>
      set (scope_path s) =
        (\<Inter>m \<in> {m. same_set (cl_meta st) k m}. set (scope_path (owner_of st m))))"
proof -
  have inv: "module_inv st" using assms(1) by (rule class_reach_inv)
  obtain r where r: "rep_of (cl_meta st) k r"
    "class_ok (module_scopes st) st {l. same_set (cl_meta st) k l} r"
    using reach_class_ok [OF inv assms(2)] by metis
  then have l: "rep_of (cl_meta st) l r" using assms(3) same_set_iff_rep by metis
  obtain m where m: "cl_meta st r = Some m" using rep_of_dom [OF l] by auto
  have "cl_value st l = cl_value st r"
    using r(2) assms(3) by (auto simp: class_ok_def one_value_def)
  moreover have "class_scope_summary st x = Some (cl_summary st r)" "class_value st x = Some (cl_value st r)"
    if "rep_of (cl_meta st) x r" for x
    using class_root_rep [OF that] m by (simp_all add: class_scope_summary_def class_value_def)
  ultimately show ?thesis
    using r l low_type_root [of st] by (auto simp: class_ok_def summarizes_def)
qed

theorem reach_class_answers_witness:
  "\<exists>s. class_scope_summary demo_store 7 = Some s \<and> set (scope_path s) = {demo_left, demo_root}"
proof -
  have "7 \<in> dom (cl_meta demo_store)" "same_set (cl_meta demo_store) 7 7"
    by (simp_all add: demo_same) (simp add: demo_store_def)
  from reach_class_answers [OF demo_store_reach this] show ?thesis
    by (auto simp: demo_same demo_owner_of demo_scopes)
qed

text \<open>
  The verdict a clone walk asks for is a fact of the class: it is the same for every member,
  and it is yes exactly if the scope is the scope of, or above, every member's owner.
\<close>

theorem reach_inside_scope:
  assumes "class_reach as_enum st" "k \<in> dom (cl_meta st)" "function_scope st f = Some scope"
  shows "class_inside_scope st k scope =
    Some (\<forall>l. same_set (cl_meta st) k l \<longrightarrow> scope \<in> set (scope_path (owner_of st l)))"
  using class_reach_inv [OF assms(1)] assms(2,3) by (rule inv_inside)

theorem reach_inside_scope_witness:
  "class_inside_scope demo_store 7 demo_root = Some True \<and>
   class_inside_scope demo_store 7 demo_right = Some False"
proof -
  have k: "7 \<in> dom (cl_meta demo_store)" by (simp add: demo_store_def)
  have "function_scope demo_store 5 = Some demo_root" "function_scope demo_store 4 = Some demo_right"
    by (simp_all add: function_scope_def demo_store_def demo_func_def)
  from reach_inside_scope [OF demo_store_reach k this(1)]
    reach_inside_scope [OF demo_store_reach k this(2)] demo_distinct
  show ?thesis by (auto simp: demo_same demo_owner_of demo_scopes)
qed

text \<open>
  C31: A merge of two classes that do not disagree never panics: it merges exactly these two
  classes, every member of the merged class holds the value either side had, and no other class
  changes a value.
\<close>

theorem add_equality_merges:
  assumes "class_reach as_enum st" "a \<in> dom (cl_meta st)" "b \<in> dom (cl_meta st)"
    and "agree (cl_value st a) (cl_value st b)"
    and "class_low_type st a = Some left" "class_low_type st b = Some right" "agree left right"
  shows "\<exists>st' r. add_equality st a b = Some (st', r) \<and> rep_of (cl_meta st') a r \<and>
    (\<forall>k. rep_of (cl_meta st') k r \<longleftrightarrow>
      same_set (cl_meta st) k a \<or> same_set (cl_meta st) k b) \<and>
    (\<forall>k. rep_of (cl_meta st') k r \<longrightarrow> cl_value st' k = either (cl_value st a) (cl_value st b)) \<and>
    class_low_type st' a = Some (either left right)"
proof -
  have inv: "module_inv st" using assms(1) by (rule class_reach_inv)
  obtain ra rb where r: "rep_of (cl_meta st) a ra" "rep_of (cl_meta st) b rb"
    using class_inv_rep [OF module_invD(2) [OF inv]] assms(2,3) by metis
  then have sh: "left = cl_shape st ra" "right = cl_shape st rb"
    using assms(5,6) low_type_root by (metis option.inject)+
  obtain st' s where st': "add_equality st a b = Some (st', s)" "class_inv (module_scopes st) st'"
    "class_of (cl_meta st') s = class_of (cl_meta st) ra \<union> class_of (cl_meta st) rb"
    "cl_value st' s = either (cl_value st a) (cl_value st b)"
    "cl_shape st' s = either (cl_shape st ra) (cl_shape st rb)"
    using add_equality_spec [OF module_invD(2) [OF inv] r assms(4)] assms(7) unfolding sh by metis
  have cls: "rep_of (cl_meta st') k s \<longleftrightarrow> same_set (cl_meta st) k a \<or> same_set (cl_meta st) k b" for k
  proof -
    have "same_set (cl_meta st) k a \<longleftrightarrow> rep_of (cl_meta st) k ra"
      "same_set (cl_meta st) k b \<longleftrightarrow> rep_of (cl_meta st) k rb"
      using same_set_iff_rep [OF r(1), of k] same_set_iff_rep [OF r(2), of k] same_set_sym by metis+
    moreover have "k \<in> class_of (cl_meta st') s \<longleftrightarrow>
        k \<in> class_of (cl_meta st) ra \<or> k \<in> class_of (cl_meta st) rb" unfolding st'(3) by simp
    ultimately show ?thesis by (simp add: class_of_def)
  qed
  have a: "rep_of (cl_meta st') a s" using cls r(1) same_set_def by metis
  have "cl_value st' k = cl_value st' s" if "rep_of (cl_meta st') k s" for k
    using class_invD(3) [OF st'(2) that] that by (auto simp: class_ok_def one_value_def class_of_def)
  with st'(1,4,5) cls a low_type_root [OF a] show ?thesis unfolding sh by auto
qed

theorem add_equality_merges_witness:
  "\<exists>st' r. add_equality demo_store 7 8 = Some (st', r) \<and> rep_of (cl_meta st') 8 r \<and>
    class_low_type st' 7 = Some None"
proof -
  have k: "7 \<in> dom (cl_meta demo_store)" "8 \<in> dom (cl_meta demo_store)"
    by (simp_all add: demo_store_def)
  have "agree (cl_value demo_store 7) (cl_value demo_store 8)"
    by (simp add: demo_store_def demo_empty_def)
  from add_equality_merges [OF demo_store_reach k this demo_low_type]
  show ?thesis by (auto simp: demo_same either_def)
qed

text \<open>
  C18: A function moved under a parent that is not below it takes the scope tree below it along:
  the move returns, every function's scope is then the child of its parent's scope, and every
  class summary names the scopes that are now above all its owners.
\<close>

theorem set_function_parent_moves:
  assumes "class_reach as_enum st" "f \<in> dom (cl_functions st)"
    and "set nodes = dom (cl_meta st)" "set functions = dom (cl_functions st)" "distinct functions"
    and "\<forall>s \<in> module_scopes st. unat (sc_depth s) < 2 ^ 31"
    and "\<forall>q. parent = Some q \<longrightarrow> q \<in> dom (cl_functions st) \<and> \<not> below st f q"
  shows "\<exists>st'. set_function_parent nodes functions st f parent = Some st' \<and>
    function_parent st' = (function_parent st)(f := parent) \<and>
    (\<forall>g \<in> dom (cl_functions st). \<exists>s. function_scope st' g = Some s \<and>
      scope_child g (Option.bind (function_parent st' g) (function_scope st')) = Some s) \<and>
    (\<forall>k \<in> dom (cl_meta st). \<exists>s. class_scope_summary st' k = Some s \<and> set (scope_path s) =
      (\<Inter>l \<in> {l. same_set (cl_meta st) k l}. set (scope_path (owner_of st' l))))"
proof -
  have inv: "module_inv st" using assms(1) by (rule class_reach_inv)
  obtain st' where st': "set_function_parent nodes functions st f parent = Some st'"
    "scopes_follow st'" "class_inv (module_scopes st') st'"
    "function_parent st' = (function_parent st)(f := parent)"
    "dom (cl_functions st') = dom (cl_functions st)" "compressed (cl_meta st) (cl_meta st')"
    using set_parent_spec [OF module_invD(2) [OF inv] module_invD(1) [OF inv] assms(2-5)]
      assms(6,7) by metis
  have inv': "module_inv st'" using st'(2,3) by (simp add: module_inv_def)
  have u: "uf_inv (cl_meta st)" using module_invD(2) [OF inv] by (rule class_invD)
  have meta: "dom (cl_meta st') = dom (cl_meta st)" "same_set (cl_meta st') = same_set (cl_meta st)"
    using keeps_list_dom [OF compressed_keeps_list [OF st'(6)]] compressed_same_set [OF u st'(6)]
    by (simp_all add: fun_eq_iff)
  have "\<exists>s. class_scope_summary st' k = Some s \<and> set (scope_path s) =
      (\<Inter>l \<in> {l. same_set (cl_meta st) k l}. set (scope_path (owner_of st' l)))"
    if "k \<in> dom (cl_meta st)" for k
    using inv_summary [OF inv', of k] that unfolding meta by metis
  moreover have "\<forall>g \<in> dom (cl_functions st). \<exists>s. function_scope st' g = Some s \<and>
      scope_child g (Option.bind (function_parent st' g) (function_scope st')) = Some s"
    using st'(2) st'(5) by (simp add: scopes_follow_def homed_def)
  ultimately show ?thesis using st'(1,4) by blast
qed

theorem set_function_parent_moves_witness:
  "\<exists>st' s. set_function_parent [7, 8] [5, 2, 4] demo_store 2 (Some 4) = Some st' \<and>
    function_scope st' 2 = Some s \<and> function_parent st' 2 = Some 4"
proof -
  have dom: "dom (cl_functions demo_store) = {5, 2, 4}" "dom (cl_meta demo_store) = {7, 8}"
    by (auto simp: demo_store_def)
  have "\<forall>s \<in> module_scopes demo_store. unat (sc_depth s) < 2 ^ 31"
    using tablesD(2) [OF built_tables] demo_scope_root(1,3) demo_scope_left(1,3) demo_scope_right(1,3)
    unfolding demo_module_scopes by fastforce
  moreover have "\<not> below demo_store 2 4"
    using demo_distinct
    by (auto simp: below_def function_scope_def demo_store_def demo_func_def demo_scopes)
  ultimately show ?thesis
    using set_function_parent_moves [OF demo_store_reach, of 2 "[7, 8]" "[5, 2, 4]" "Some 4"]
    by (auto simp: dom)
qed

end
