(* ===== verification/Span_Lines.thy ===== *)
theory Span_Lines
  imports Lichen_Prelude
begin

text \<open>
  Source positions (\<open>lichen-span/src/lib.rs\<close>): the table of line starts, the map from a byte offset
  to a 1-based line and column, and its inverse.

  A \<open>&str\<close> is the list of its bytes, a byte a \<open>char\<close>. A \<open>usize\<close> here is a length or an index of a
  text, kept as a \<open>nat\<close>; the casts to \<open>u32\<close> are written out. \<open>saturating_sub\<close> is the subtraction
  of \<open>nat\<close>.
\<close>

type_synonym span = "u32 \<times> u32"

definition newline :: char where
  "newline = CHR 0x0A"

definition carriage_return :: char where
  "carriage_return = CHR 0x0D"

text \<open>A byte that does not begin a UTF-8 character; a slice of a text is cut before the others.\<close>

definition continuation :: "char \<Rightarrow> bool" where
  "continuation c \<longleftrightarrow> (128::nat) \<le> of_char c \<and> of_char c < (192::nat)"

definition is_char_boundary :: "string \<Rightarrow> nat \<Rightarrow> bool" where
  "is_char_boundary s i \<longleftrightarrow> i \<le> length s \<and> (i < length s \<longrightarrow> \<not> continuation (s ! i))"

definition str_get :: "string \<Rightarrow> nat \<Rightarrow> nat \<Rightarrow> string option" where
  "str_get s i j =
     (if i \<le> j \<and> is_char_boundary s i \<and> is_char_boundary s j then Some (drop i (take j s)) else None)"

fun line_starts_from :: "nat \<Rightarrow> string \<Rightarrow> nat list" where
  "line_starts_from i [] = []"
| "line_starts_from i (byte # bytes) =
     (if byte = newline then (i + 1) # line_starts_from (i + 1) bytes
      else line_starts_from (i + 1) bytes)"

definition line_starts :: "string \<Rightarrow> nat list" where
  "line_starts source = 0 # line_starts_from 0 source"

text \<open>\<open>slice::binary_search\<close> on an ascending table: \<open>Inl\<close> the index, or \<open>Inr\<close> where it would go.\<close>

definition binary_search :: "nat list \<Rightarrow> nat \<Rightarrow> nat + nat" where
  "binary_search starts pos =
     (let i = length (takeWhile (\<lambda>s. s < pos) starts) in
      if nth_opt starts i = Some pos then Inl i else Inr i)"

definition start_of :: "nat list \<Rightarrow> nat \<Rightarrow> nat" where
  "start_of starts i = (case nth_opt starts i of None \<Rightarrow> 0 | Some start \<Rightarrow> start)"

definition line_col :: "nat list \<Rightarrow> u32 \<Rightarrow> span" where
  "line_col starts pos =
     (let pos = unat pos;
        line = (case binary_search starts pos of Inl i \<Rightarrow> i + 1 | Inr i \<Rightarrow> max i 1);
        start = start_of starts (line - 1) in
      (of_nat line, of_nat (pos - start + 1)))"

definition offset_of_span :: "nat list \<Rightarrow> span \<Rightarrow> nat" where
  "offset_of_span starts span =
     (let line_count = max (length starts) 1;
        line = min (max (unat (fst span)) 1) line_count;
        start = start_of starts (line - 1) in
      start + (unat (snd span) - 1))"

definition strip_suffix :: "string \<Rightarrow> char \<Rightarrow> string" where
  "strip_suffix s c = (if s \<noteq> [] \<and> last s = c then butlast s else s)"

definition line_text :: "string \<Rightarrow> nat list \<Rightarrow> u32 \<Rightarrow> string option" where
  "line_text source starts line =
     (if unat line = 0 then None
      else let index = unat line - 1 in
        Option.bind (nth_opt starts index) (\<lambda>start.
          let end_of = (case nth_opt starts (index + 1) of None \<Rightarrow> length source | Some e \<Rightarrow> e) in
          Option.bind (str_get source start end_of) (\<lambda>text.
            Some (strip_suffix (strip_suffix text newline) carriage_return))))"

section \<open>The line a position is on\<close>

text \<open>How many lines end before a position, and where its line begins.\<close>

definition newlines :: "string \<Rightarrow> nat" where
  "newlines s = length (filter (\<lambda>c. c = newline) s)"

definition tail_line :: "string \<Rightarrow> nat" where
  "tail_line s = length (takeWhile (\<lambda>c. c \<noteq> newline) (rev s))"

lemma newlines_append [simp]: "newlines (s @ t) = newlines s + newlines t"
  by (simp add: newlines_def)

lemma starts_from_append:
  "line_starts_from i (s @ t) = line_starts_from i s @ line_starts_from (i + length s) t"
  by (induction s arbitrary: i) (auto simp: add.assoc)

lemma starts_from_length [simp]: "length (line_starts_from i s) = newlines s"
  by (induction s arbitrary: i) (auto simp: newlines_def)

lemma starts_from_bounds: "x \<in> set (line_starts_from i s) \<Longrightarrow> i < x \<and> x \<le> i + length s"
  by (induction s arbitrary: i) (fastforce split: if_splits)+

lemma takeWhile_split:
  assumes "\<And>x. x \<in> set xs \<Longrightarrow> P x" "\<And>x. x \<in> set ys \<Longrightarrow> \<not> P x"
  shows "takeWhile P (xs @ ys) = xs"
  using assms by (cases ys) (auto simp: takeWhile_append)

text \<open>The table, split at a position: the starts up to it and the starts after it.\<close>

lemma last_start: "last (0 # line_starts_from 0 s) = length s - tail_line s"
proof (induction s rule: rev_induct)
  case (snoc c s)
  then show ?case by (auto simp: starts_from_append tail_line_def Suc_diff_le)
qed (simp add: tail_line_def)

lemma tail_line_le: "tail_line s \<le> length s"
  unfolding tail_line_def by (metis length_rev length_takeWhile_le)

lemma search_split:
  assumes h: "sorted h" "distinct h" "h \<noteq> []" "\<And>x. x \<in> set h \<Longrightarrow> x \<le> p"
    and t: "\<And>x. x \<in> set t \<Longrightarrow> p < x"
  shows "(case binary_search (h @ t) p of Inl i \<Rightarrow> i + 1 | Inr i \<Rightarrow> max i 1) = length h"
    and "start_of (h @ t) (length h - 1) = last h"
proof -
  show "start_of (h @ t) (length h - 1) = last h"
    using h(3) by (cases h) (auto simp: start_of_def nth_opt_def nth_append last_conv_nth)
  obtain hs l where hs: "h = hs @ [l]" using h(3) by (metis append_butlast_last_id)
  have below: "x < l" if "x \<in> set hs" for x
    using h(1,2) that unfolding hs by (auto simp: sorted_append le_less)
  have lp: "l \<le> p" using h(4) unfolding hs by simp
  show "(case binary_search (h @ t) p of Inl i \<Rightarrow> i + 1 | Inr i \<Rightarrow> max i 1) = length h"
  proof (cases "l = p")
    case True
    have "takeWhile (\<lambda>s. s < p) (hs @ ([p] @ t)) = hs"
      using t below True by (intro takeWhile_split) fastforce+
    then show ?thesis
      by (simp add: binary_search_def Let_def nth_opt_append hs True)
  next
    case False
    have "takeWhile (\<lambda>s. s < p) (h @ t) = h"
      using t below False lp unfolding hs by (intro takeWhile_split) fastforce+
    moreover have "nth_opt (h @ t) (length h) \<noteq> Some p"
      using t [of p] nth_opt_in_set [of t 0 p] by (auto simp: nth_opt_append simp del: nth_opt_Some)
    ultimately show ?thesis using h(3) by (cases h) (auto simp: binary_search_def Let_def)
  qed
qed

lemma starts_from_sorted: "distinct (line_starts_from i s) \<and> sorted (line_starts_from i s)"
proof (induction s arbitrary: i)
  case (Cons c s)
  then show ?case using starts_from_bounds [of _ "Suc i" s] by (auto simp: less_imp_le)
qed simp

lemma line_of:
  assumes "p \<le> length source"
  shows "(case binary_search (line_starts source) p of Inl i \<Rightarrow> i + 1 | Inr i \<Rightarrow> max i 1) =
      1 + newlines (take p source)"
    and "start_of (line_starts source) (newlines (take p source)) = p - tail_line (take p source)"
proof -
  let ?h = "0 # line_starts_from 0 (take p source)" and ?t = "line_starts_from p (drop p source)"
  have st: "line_starts source = ?h @ ?t"
    using starts_from_append [of 0 "take p source" "drop p source"] assms
    by (simp add: line_starts_def)
  have h: "x \<le> p" if "x \<in> set ?h" for x using starts_from_bounds that by fastforce
  have t: "p < x" if "x \<in> set ?t" for x using starts_from_bounds that by fastforce
  have d: "sorted ?h" "distinct ?h"
    using starts_from_sorted [of 0] starts_from_bounds [of 0 0] by auto
  have l: "last ?h = p - tail_line (take p source)" using last_start [of "take p source"] assms by simp
  note split = search_split [where h = ?h and t = ?t and p = p, OF d _ h t]
  show "(case binary_search (line_starts source) p of Inl i \<Rightarrow> i + 1 | Inr i \<Rightarrow> max i 1) =
      1 + newlines (take p source)"
    unfolding st using split(1) by simp
  show "start_of (line_starts source) (newlines (take p source)) = p - tail_line (take p source)"
    unfolding st l [symmetric] using split(2) by simp
qed

lemma unat_of_nat_small: "n < 2 ^ 32 \<Longrightarrow> unat (of_nat n :: u32) = n"
  by (simp add: unat_of_nat take_bit_nat_eq_self)

text \<open>The line and column, as counts.\<close>

lemma line_col_eq:
  assumes "unat pos \<le> length source"
  shows "line_col (line_starts source) pos =
    (of_nat (1 + newlines (take (unat pos) source)), of_nat (1 + tail_line (take (unat pos) source)))"
proof -
  have "tail_line (take (unat pos) source) \<le> unat pos"
    using tail_line_le assms by (metis length_take min.absorb2)
  then show ?thesis
    unfolding line_col_def Let_def line_of(1) [OF assms] using line_of(2) [OF assms] by simp
qed

lemma newlines_le: "newlines s \<le> length s"
  by (simp add: newlines_def)

text \<open>Two texts that agree up to a position map it, and every one before it, to one span.\<close>

lemma line_col_agree:
  assumes "unat pos \<le> length s" "unat pos \<le> length t" "take (unat pos) s = take (unat pos) t"
  shows "line_col (line_starts s) pos = line_col (line_starts t) pos"
  using assms by (simp add: line_col_eq)

text \<open>What a line's start and end are, when the text is cut there.\<close>

lemma starts_from_free: "newlines s = 0 \<Longrightarrow> line_starts_from i s = []"
  by (metis length_0_conv starts_from_length)

lemma line_starts_split:
  assumes "newlines body = 0" "rest = [] \<or> hd rest = newline"
  shows "line_starts (pre @ body @ rest) = line_starts pre @
    (if rest = [] then [] else (length pre + length body + 1) #
      line_starts_from (length pre + length body + 1) (tl rest))"
proof -
  have "line_starts_from i rest = (if rest = [] then [] else (i + 1) # line_starts_from (i + 1) (tl rest))"
    for i using assms(2) by (cases rest) auto
  then show ?thesis
    using starts_from_free [OF assms(1)] by (simp add: line_starts_def starts_from_append)
qed

lemma last_line_start:
  assumes "pre = [] \<or> last pre = newline"
  shows "line_starts pre ! newlines pre = length pre" "length (line_starts pre) = 1 + newlines pre"
proof -
  show l: "length (line_starts pre) = 1 + newlines pre" by (simp add: line_starts_def)
  have "tail_line pre = 0"
    using assms by (auto simp: tail_line_def takeWhile_eq_Nil_iff hd_rev)
  then have "last (line_starts pre) = length pre" using last_start [of pre] by (simp add: line_starts_def)
  then show "line_starts pre ! newlines pre = length pre"
    using l by (metis One_nat_def Suc_eq_plus1_left add_diff_cancel_left' last_conv_nth length_0_conv
      nat.distinct(1) plus_1_eq_Suc)
qed

section \<open>Properties\<close>

text \<open>
  The line of a byte offset is one more than the number of newlines before it, its column one
  more than the number of bytes since the last of them.
\<close>

theorem line_col_counts:
  assumes "unat pos \<le> length source" "length source + 1 < 2 ^ 32"
  shows "unat (fst (line_col (line_starts source) pos)) = 1 + newlines (take (unat pos) source)
    \<and> unat (snd (line_col (line_starts source) pos)) =
      1 + length (takeWhile (\<lambda>c. c \<noteq> newline) (rev (take (unat pos) source)))"
proof -
  have "newlines (take (unat pos) source) \<le> length source"
    "tail_line (take (unat pos) source) \<le> length source"
    using newlines_le [of "take (unat pos) source"] tail_line_le [of "take (unat pos) source"] by simp_all
  with assms show ?thesis
    unfolding tail_line_def [symmetric] line_col_eq [OF assms(1)] fst_conv snd_conv
    by (simp add: unat_of_nat_small del: of_nat_add of_nat_Suc)
qed


theorem line_col_counts_witness:
  "unat (fst (line_col (line_starts (CHR ''a'' # newline # ''bc'')) 3)) = 2"
proof -
  have "unat (3::u32) \<le> length (CHR ''a'' # newline # ''bc'')"
    "length (CHR ''a'' # newline # ''bc'') + 1 < 2 ^ 32" by simp_all
  moreover have "unat (3::u32) = Suc (Suc (Suc 0))" by simp
  ultimately show ?thesis
    using line_col_counts [of 3 "CHR ''a'' # newline # ''bc''"]
    by (simp add: newlines_def newline_def del: unat_numeral)
qed

text \<open>
  A byte offset comes back from its span: the map to line and column loses nothing.
\<close>

theorem span_round_trip:
  assumes "unat pos \<le> length source" "length source + 1 < 2 ^ 32"
  shows "offset_of_span (line_starts source) (line_col (line_starts source) pos) = unat pos"
proof -
  let ?p = "take (unat pos) source"
  have b: "newlines ?p \<le> length source" "tail_line ?p \<le> length source" "tail_line ?p \<le> unat pos"
    "newlines ?p \<le> newlines source"
    using newlines_le [of ?p] tail_line_le [of ?p] newlines_append [of ?p "drop (unat pos) source"]
    by simp_all
  have n: "length (line_starts source) = 1 + newlines source" by (simp add: line_starts_def)
  show ?thesis
    unfolding offset_of_span_def Let_def line_col_eq [OF assms(1)] fst_conv snd_conv n
    using b assms line_of(2) [OF assms(1)]
    by (simp add: unat_of_nat_small del: of_nat_add of_nat_Suc)
qed

theorem span_round_trip_witness:
  "offset_of_span (line_starts (CHR ''a'' # newline # ''bc''))
     (line_col (line_starts (CHR ''a'' # newline # ''bc'')) 3) = 3"
  using span_round_trip [of 3 "CHR ''a'' # newline # ''bc''"] by simp

text \<open>
  C35: \<open>line_text\<close> answers the bytes between two line breaks, less a carriage return at the end, for
  every line of the source, and nothing for a line before the first or past the last.
\<close>

theorem line_text_line:
  assumes "source = pre @ body @ rest" "length source + 1 < 2 ^ 32"
    and "pre = [] \<or> last pre = newline" "newline \<notin> set body" "rest = [] \<or> hd rest = newline"
    and "is_char_boundary source (length pre)"
    and "is_char_boundary source (length pre + length body + (if rest = [] then 0 else 1))"
  shows "line_text source (line_starts source) (of_nat (1 + newlines pre)) =
      Some (strip_suffix body carriage_return) \<and>
    line_text source (line_starts source) 0 = None \<and>
    (\<forall>line. unat line > 1 + newlines source \<longrightarrow> line_text source (line_starts source) line = None)"
proof (intro conjI allI impI)
  show "line_text source (line_starts source) 0 = None" by (simp add: line_text_def)
  have n: "length (line_starts source) = 1 + newlines source" by (simp add: line_starts_def)
  show "line_text source (line_starts source) line = None" if "unat line > 1 + newlines source" for line
  proof -
    from that n have "nth_opt (line_starts source) (unat line - 1) = None"
      unfolding nth_opt_None by linarith
    then show ?thesis by (simp only: line_text_def Let_def Option.bind.simps if_cancel)
  qed
  have free: "newlines body = 0" using assms(4) by (auto simp: newlines_def filter_empty_conv)
  note starts = line_starts_split [OF free assms(5), of pre, folded assms(1)]
  note last_pre = last_line_start [OF assms(3)]
  have u: "unat (of_nat (1 + newlines pre) :: u32) = 1 + newlines pre"
    using newlines_le [of pre] assms(1,2) by (intro unat_of_nat_small) simp
  let ?e = "length pre + length body + (if rest = [] then 0 else 1)"
  have e: "(case nth_opt (line_starts source) (newlines pre + 1) of None \<Rightarrow> length source | Some e \<Rightarrow> e) = ?e"
    unfolding starts using last_pre assms(1) by (auto simp: nth_opt_def nth_append)
  have s: "nth_opt (line_starts source) (newlines pre) = Some (length pre)"
    unfolding starts using last_pre by (simp add: nth_append)
  have "drop (length pre) (take ?e source) = body @ (if rest = [] then [] else [newline])"
    using assms(5) by (cases rest) (auto simp: assms(1))
  moreover have "length pre \<le> ?e" by simp
  ultimately have g: "str_get source (length pre) ?e = Some (body @ (if rest = [] then [] else [newline]))"
    unfolding str_get_def using assms(6,7) by simp
  have strip: "strip_suffix (body @ (if rest = [] then [] else [newline])) newline = body"
    using assms(4) by (auto simp: strip_suffix_def dest: last_in_set)
  show "line_text source (line_starts source) (of_nat (1 + newlines pre)) =
      Some (strip_suffix body carriage_return)"
    unfolding line_text_def u Let_def using s e g strip by (simp del: nth_opt_Some)
qed

theorem line_text_line_witness:
  "line_text (CHR ''a'' # newline # ''bc'') (line_starts (CHR ''a'' # newline # ''bc''))
     (of_nat (1 + newlines (CHR ''a'' # [newline]))) = Some ''bc''"
proof -
  have b: "is_char_boundary (CHR ''a'' # newline # ''bc'') (length (CHR ''a'' # [newline]))"
    "is_char_boundary (CHR ''a'' # newline # ''bc'')
       (length (CHR ''a'' # [newline]) + length ''bc'' + (if [] = [] then 0 else 1))"
    by (simp_all add: is_char_boundary_def continuation_def)
  have n: "newline \<notin> set ''bc''" "strip_suffix ''bc'' carriage_return = ''bc''"
    by (simp_all add: newline_def strip_suffix_def carriage_return_def)
  have len: "length (CHR ''a'' # newline # ''bc'') + 1 < 2 ^ 32" by simp
  show ?thesis
    using line_text_line [OF _ len _ n(1) _ b] n(2) by simp
qed

end
