(* ===== verification/Lex_Tokens.thy ===== *)
theory Lex_Tokens
  imports Span_Lines
begin

unbundle bit_operations_syntax

text \<open>
  The tokens of the surface language (\<open>lichen-language-lex/src/lib.rs\<close>): the kinds of token the
  parser reads, the raw tokens with the pattern each is declared with, and the map from a raw token
  and the text it matched to a kind or a diagnostic.

  The scanner itself is generated from the patterns by a library, so it is an argument of the
  lexer; what is known of it is the rule the library documents, \<open>longest_match\<close>.
\<close>

section \<open>Kinds of token\<close>

datatype (plugins only: code size) token_kind =
    Tok_Int u64 | Tok_Float u32 | Tok_Str string | Tok_Name string | Tok_Placeholder | Tok_KwInt
    | Tok_KwFloat | Tok_KwString | Tok_KwType | Tok_KwTuple | Tok_KwArray | Tok_KwStruct |
    Tok_KwTable | Tok_KwSet | Tok_KwLet | Tok_KwIf | Tok_KwThen | Tok_KwElse | Tok_KwReturn |
    Tok_KwLoop | Tok_KwAssert | Tok_KwIn | Tok_KwShallow | Tok_Any | Tok_KwGc | Tok_KwPub |
    Tok_KwCache | Tok_KwInt2Float | Tok_KwFloat2Int | Tok_KwMax | Tok_KwMin | Tok_KwExp |
    Tok_KwSqrt | Tok_KwFloor | Tok_KwSin | Tok_KwCos | Tok_KwLn | Tok_FatArrow | Tok_Colon |
    Tok_ColonEquals | Tok_TemplateUnify | Tok_TableArrow | Tok_TableFindArrow | Tok_Hash |
    Tok_Question | Tok_Bang | Tok_Dollar | Tok_Equals | Tok_Eq | Tok_Neq | Tok_Leq | Tok_Geq |
    Tok_Plus | Tok_Minus | Tok_Star | Tok_Slash | Tok_Percent | Tok_Amp | Tok_Pipe | Tok_Caret |
    Tok_Dot | Tok_LParen | Tok_RParen | Tok_LBracket | Tok_RBracket | Tok_LBrace | Tok_RBrace |
    Tok_LAngle | Tok_RAngle | Tok_Tilde | Tok_Separator | Tok_Glue | Tok_Eof

definition tick :: string where
  "tick = [CHR 0x27]"

primrec describe_static :: "token_kind \<Rightarrow> string" where
  "describe_static (Tok_Int _) = ''an integer literal''"
| "describe_static (Tok_Float _) = ''a float literal''"
| "describe_static (Tok_Str _) = ''a string literal''"
| "describe_static (Tok_Name _) = ''a name''"
| "describe_static Tok_Placeholder = tick @ ''_'' @ tick"
| "describe_static Tok_KwInt = tick @ ''Int'' @ tick"
| "describe_static Tok_KwFloat = tick @ ''Float'' @ tick"
| "describe_static Tok_KwString = tick @ ''string'' @ tick"
| "describe_static Tok_KwType = tick @ ''Type'' @ tick"
| "describe_static Tok_KwTuple = tick @ ''Tuple'' @ tick"
| "describe_static Tok_KwArray = tick @ ''Array'' @ tick"
| "describe_static Tok_KwStruct = tick @ ''Struct'' @ tick"
| "describe_static Tok_KwTable = tick @ ''table'' @ tick"
| "describe_static Tok_KwSet = tick @ ''set'' @ tick"
| "describe_static Tok_KwLet = tick @ ''let'' @ tick"
| "describe_static Tok_KwIf = tick @ ''if'' @ tick"
| "describe_static Tok_KwThen = tick @ ''then'' @ tick"
| "describe_static Tok_KwElse = tick @ ''else'' @ tick"
| "describe_static Tok_KwReturn = tick @ ''return'' @ tick"
| "describe_static Tok_KwLoop = tick @ ''@loop'' @ tick"
| "describe_static Tok_KwAssert = tick @ ''@assert'' @ tick"
| "describe_static Tok_KwIn = tick @ ''@in'' @ tick"
| "describe_static Tok_KwShallow = tick @ ''@shallow'' @ tick"
| "describe_static Tok_Any = tick @ ''@any'' @ tick"
| "describe_static Tok_KwGc = tick @ ''@gc'' @ tick"
| "describe_static Tok_KwPub = tick @ ''pub'' @ tick"
| "describe_static Tok_KwCache = tick @ ''@cache'' @ tick"
| "describe_static Tok_KwInt2Float = tick @ ''int2float'' @ tick"
| "describe_static Tok_KwFloat2Int = tick @ ''float2int'' @ tick"
| "describe_static Tok_KwMax = tick @ ''max'' @ tick"
| "describe_static Tok_KwMin = tick @ ''min'' @ tick"
| "describe_static Tok_KwExp = tick @ ''exp'' @ tick"
| "describe_static Tok_KwSqrt = tick @ ''sqrt'' @ tick"
| "describe_static Tok_KwFloor = tick @ ''floor'' @ tick"
| "describe_static Tok_KwSin = tick @ ''sin'' @ tick"
| "describe_static Tok_KwCos = tick @ ''cos'' @ tick"
| "describe_static Tok_KwLn = tick @ ''ln'' @ tick"
| "describe_static Tok_FatArrow = tick @ ''=>'' @ tick"
| "describe_static Tok_Colon = tick @ '':'' @ tick"
| "describe_static Tok_ColonEquals = tick @ '':='' @ tick"
| "describe_static Tok_TemplateUnify = tick @ ''<:'' @ tick"
| "describe_static Tok_TableArrow = tick @ ''==>'' @ tick"
| "describe_static Tok_TableFindArrow = tick @ ''<=='' @ tick"
| "describe_static Tok_Hash = tick @ ''#'' @ tick"
| "describe_static Tok_Question = tick @ ''?'' @ tick"
| "describe_static Tok_Bang = tick @ ''!'' @ tick"
| "describe_static Tok_Dollar = tick @ ''$'' @ tick"
| "describe_static Tok_Equals = tick @ ''='' @ tick"
| "describe_static Tok_Eq = tick @ ''=='' @ tick"
| "describe_static Tok_Neq = tick @ ''!='' @ tick"
| "describe_static Tok_Leq = tick @ ''<='' @ tick"
| "describe_static Tok_Geq = tick @ ''>='' @ tick"
| "describe_static Tok_Plus = tick @ ''+'' @ tick"
| "describe_static Tok_Minus = tick @ ''-'' @ tick"
| "describe_static Tok_Star = tick @ ''*'' @ tick"
| "describe_static Tok_Slash = tick @ ''/'' @ tick"
| "describe_static Tok_Percent = tick @ ''%'' @ tick"
| "describe_static Tok_Amp = tick @ ''&'' @ tick"
| "describe_static Tok_Pipe = tick @ ''|'' @ tick"
| "describe_static Tok_Caret = tick @ ''^'' @ tick"
| "describe_static Tok_Dot = tick @ ''.'' @ tick"
| "describe_static Tok_LParen = tick @ ''('' @ tick"
| "describe_static Tok_RParen = tick @ '')'' @ tick"
| "describe_static Tok_LBracket = tick @ ''['' @ tick"
| "describe_static Tok_RBracket = tick @ '']'' @ tick"
| "describe_static Tok_LBrace = tick @ ''{'' @ tick"
| "describe_static Tok_RBrace = tick @ ''}'' @ tick"
| "describe_static Tok_LAngle = tick @ ''<'' @ tick"
| "describe_static Tok_RAngle = tick @ ''>'' @ tick"
| "describe_static Tok_Tilde = tick @ ''~'' @ tick"
| "describe_static Tok_Separator = ''a separator''"
| "describe_static Tok_Glue = ''a glued delimiter''"
| "describe_static Tok_Eof = ''the end of the program''"

record token =
  tk_kind :: token_kind
  tk_span :: span
  tk_range :: "u32 \<times> u32"

record lex_diag =
  ld_span :: "span option"
  ld_message :: string

section \<open>Raw tokens and their patterns\<close>

datatype (plugins only: code size) raw_token =
    Raw_Separator | Raw_IntLit | Raw_FloatLit | Raw_StrLit | Raw_KwInt | Raw_KwFloat |
    Raw_KwString | Raw_KwType | Raw_KwTuple | Raw_KwArray | Raw_KwStruct | Raw_KwTable |
    Raw_KwSet | Raw_KwLet | Raw_KwIf | Raw_KwThen | Raw_KwElse | Raw_KwReturn | Raw_KwPub |
    Raw_AtNameLit | Raw_KwInt2Float | Raw_KwFloat2Int | Raw_KwMax | Raw_KwMin | Raw_KwExp |
    Raw_KwSqrt | Raw_KwFloor | Raw_KwSin | Raw_KwCos | Raw_KwLn | Raw_NameLit | Raw_FatArrow |
    Raw_TableArrow | Raw_TableFindArrow | Raw_Colon | Raw_ColonEquals | Raw_TemplateUnify |
    Raw_Hash | Raw_Question | Raw_Bang | Raw_Dollar | Raw_Equals | Raw_Eq | Raw_Neq | Raw_Leq |
    Raw_Geq | Raw_Plus | Raw_Minus | Raw_Star | Raw_Slash | Raw_Percent | Raw_Amp | Raw_Pipe |
    Raw_Caret | Raw_Dot | Raw_LParen | Raw_RParen | Raw_LBracket | Raw_RBracket | Raw_LBrace |
    Raw_RBrace | Raw_LAngle | Raw_RAngle | Raw_Tilde

definition is_postfix_delim :: "raw_token \<Rightarrow> bool" where
  "is_postfix_delim raw \<longleftrightarrow> raw = Raw_LParen \<or> raw = Raw_LBracket \<or> raw = Raw_LBrace"

text \<open>The spelling of a raw token that is declared with a fixed text.\<close>

primrec raw_text :: "raw_token \<Rightarrow> string option" where
  "raw_text Raw_KwInt = Some ''Int''"
| "raw_text Raw_KwFloat = Some ''Float''"
| "raw_text Raw_KwString = Some ''string''"
| "raw_text Raw_KwType = Some ''Type''"
| "raw_text Raw_KwTuple = Some ''Tuple''"
| "raw_text Raw_KwArray = Some ''Array''"
| "raw_text Raw_KwStruct = Some ''Struct''"
| "raw_text Raw_KwTable = Some ''table''"
| "raw_text Raw_KwSet = Some ''set''"
| "raw_text Raw_KwLet = Some ''let''"
| "raw_text Raw_KwIf = Some ''if''"
| "raw_text Raw_KwThen = Some ''then''"
| "raw_text Raw_KwElse = Some ''else''"
| "raw_text Raw_KwReturn = Some ''return''"
| "raw_text Raw_KwPub = Some ''pub''"
| "raw_text Raw_KwInt2Float = Some ''int2float''"
| "raw_text Raw_KwFloat2Int = Some ''float2int''"
| "raw_text Raw_KwMax = Some ''max''"
| "raw_text Raw_KwMin = Some ''min''"
| "raw_text Raw_KwExp = Some ''exp''"
| "raw_text Raw_KwSqrt = Some ''sqrt''"
| "raw_text Raw_KwFloor = Some ''floor''"
| "raw_text Raw_KwSin = Some ''sin''"
| "raw_text Raw_KwCos = Some ''cos''"
| "raw_text Raw_KwLn = Some ''ln''"
| "raw_text Raw_FatArrow = Some ''=>''"
| "raw_text Raw_TableArrow = Some ''==>''"
| "raw_text Raw_TableFindArrow = Some ''<==''"
| "raw_text Raw_Colon = Some '':''"
| "raw_text Raw_ColonEquals = Some '':=''"
| "raw_text Raw_TemplateUnify = Some ''<:''"
| "raw_text Raw_Hash = Some ''#''"
| "raw_text Raw_Question = Some ''?''"
| "raw_text Raw_Bang = Some ''!''"
| "raw_text Raw_Dollar = Some ''$''"
| "raw_text Raw_Equals = Some ''=''"
| "raw_text Raw_Eq = Some ''==''"
| "raw_text Raw_Neq = Some ''!=''"
| "raw_text Raw_Leq = Some ''<=''"
| "raw_text Raw_Geq = Some ''>=''"
| "raw_text Raw_Plus = Some ''+''"
| "raw_text Raw_Minus = Some ''-''"
| "raw_text Raw_Star = Some ''*''"
| "raw_text Raw_Slash = Some ''/''"
| "raw_text Raw_Percent = Some ''%''"
| "raw_text Raw_Amp = Some ''&''"
| "raw_text Raw_Pipe = Some ''|''"
| "raw_text Raw_Caret = Some ''^''"
| "raw_text Raw_Dot = Some ''.''"
| "raw_text Raw_LParen = Some ''(''"
| "raw_text Raw_RParen = Some '')''"
| "raw_text Raw_LBracket = Some ''[''"
| "raw_text Raw_RBracket = Some '']''"
| "raw_text Raw_LBrace = Some ''{''"
| "raw_text Raw_RBrace = Some ''}''"
| "raw_text Raw_LAngle = Some ''<''"
| "raw_text Raw_RAngle = Some ''>''"
| "raw_text Raw_Tilde = Some ''~''"
| "raw_text Raw_Separator = None"
| "raw_text Raw_IntLit = None"
| "raw_text Raw_FloatLit = None"
| "raw_text Raw_StrLit = None"
| "raw_text Raw_AtNameLit = None"
| "raw_text Raw_NameLit = None"

definition byte_of :: "char \<Rightarrow> nat" where
  "byte_of c = of_char c"

definition is_digit :: "char \<Rightarrow> bool" where
  "is_digit c \<longleftrightarrow> 48 \<le> byte_of c \<and> byte_of c \<le> 57"

definition name_start :: "char \<Rightarrow> bool" where
  "name_start c \<longleftrightarrow> 65 \<le> byte_of c \<and> byte_of c \<le> 90 \<or> 97 \<le> byte_of c \<and> byte_of c \<le> 122 \<or> byte_of c = 95"

definition name_part :: "char \<Rightarrow> bool" where
  "name_part c \<longleftrightarrow> name_start c \<or> is_digit c"

definition quote_mark :: char where
  "quote_mark = CHR 0x22"

definition is_blank :: "char \<Rightarrow> bool" where
  "is_blank c \<longleftrightarrow> c = CHR 0x20 \<or> c = CHR 0x09 \<or> c = CHR 0x0D"

definition is_name :: "string \<Rightarrow> bool" where
  "is_name s \<longleftrightarrow> s \<noteq> [] \<and> name_start (hd s) \<and> list_all name_part (tl s)"

definition is_digits :: "string \<Rightarrow> bool" where
  "is_digits s \<longleftrightarrow> s \<noteq> [] \<and> list_all is_digit s"

text \<open>Whether the pattern of a raw token matches a text from its first byte to its last.\<close>

definition raw_matches :: "raw_token \<Rightarrow> string \<Rightarrow> bool" where
  "raw_matches raw s =
     (case raw of
        Raw_Separator \<Rightarrow> s = [newline] \<or> s = '','' \<or> s = '';''
      | Raw_IntLit \<Rightarrow> is_digits s
      | Raw_FloatLit \<Rightarrow> is_digits (takeWhile is_digit s) \<and>
          (case dropWhile is_digit s of c # fraction \<Rightarrow> c = CHR ''.'' \<and> is_digits fraction | [] \<Rightarrow> False)
      | Raw_StrLit \<Rightarrow> (case s of
            c # body \<Rightarrow> c = quote_mark \<and> (quote_mark \<notin> set body \<or>
              body \<noteq> [] \<and> last body = quote_mark \<and> quote_mark \<notin> set (butlast body))
          | [] \<Rightarrow> False)
      | Raw_AtNameLit \<Rightarrow> (case s of c # name \<Rightarrow> c = CHR ''@'' \<and> is_name name | [] \<Rightarrow> False)
      | Raw_NameLit \<Rightarrow> is_name s
      | _ \<Rightarrow> raw_text raw = Some s)"

section \<open>From a matched text to a kind\<close>

definition checked_mul_u64 :: "u64 \<Rightarrow> u64 \<Rightarrow> u64 option" where
  "checked_mul_u64 a b = (if unat a * unat b < 2 ^ 64 then Some (a * b) else None)"

definition checked_add_u64 :: "u64 \<Rightarrow> u64 \<Rightarrow> u64 option" where
  "checked_add_u64 a b = (if unat a + unat b < 2 ^ 64 then Some (a + b) else None)"

fun int_value :: "u64 \<Rightarrow> string \<Rightarrow> u64 option" where
  "int_value v [] = Some v"
| "int_value v (byte # bytes) =
     (let digit = of_nat (byte_of byte - 48) in
      Option.bind (Option.bind (checked_mul_u64 v 10) (\<lambda>v. checked_add_u64 v digit))
        (\<lambda>v. int_value v bytes))"

text \<open>
  \<open>str::parse::<f32>\<close> on digits, a dot and digits: the nearest single-precision number, ties to the
  even one, an infinity above the largest.
\<close>

definition decimal :: "string \<Rightarrow> nat" where
  "decimal s = foldl (\<lambda>v c. 10 * v + (byte_of c - 48)) 0 s"

fun floor_log :: "nat \<Rightarrow> nat" where
  "floor_log n = (if n < 2 then 0 else Suc (floor_log (n div 2)))"

definition round_even :: "nat \<Rightarrow> nat \<Rightarrow> nat" where
  "round_even n d =
     (let q = n div d; r = n mod d in
      if 2 * r < d \<or> 2 * r = d \<and> even q then q else q + 1)"

definition f32_of_ratio :: "nat \<Rightarrow> nat \<Rightarrow> u32" where
  "f32_of_ratio n d =
     (if n = 0 then 0
      else
        let guess = int (floor_log n) - int (floor_log d);
          reached = (if 0 \<le> guess then d * 2 ^ nat guess \<le> n else d \<le> n * 2 ^ nat (- guess));
          exponent = max (- 126) (if reached then guess else guess - 1);
          shift = 23 - exponent;
          q = (if 0 \<le> shift then round_even (n * 2 ^ nat shift) d
               else round_even n (d * 2 ^ nat (- shift)));
          bits = nat (exponent + 126) * 2 ^ 23 + q in
        if 0x7f800000 \<le> bits then 0x7f800000 else of_nat bits)"

definition parse_f32 :: "string \<Rightarrow> u32" where
  "parse_f32 s =
     (let whole = takeWhile is_digit s; fraction = tl (dropWhile is_digit s) in
      f32_of_ratio (decimal (whole @ fraction)) (10 ^ length fraction))"

definition name_kind :: "string \<Rightarrow> token_kind" where
  "name_kind lexeme =
     (if lexeme = ''Int'' then Tok_KwInt
      else if lexeme = ''Float'' then Tok_KwFloat
      else if lexeme = ''string'' then Tok_KwString
      else if lexeme = ''Type'' then Tok_KwType
      else if lexeme = ''Tuple'' then Tok_KwTuple
      else if lexeme = ''Array'' then Tok_KwArray
      else if lexeme = ''Struct'' then Tok_KwStruct
      else if lexeme = ''table'' then Tok_KwTable
      else if lexeme = ''set'' then Tok_KwSet
      else if lexeme = ''let'' then Tok_KwLet
      else if lexeme = ''if'' then Tok_KwIf
      else if lexeme = ''then'' then Tok_KwThen
      else if lexeme = ''else'' then Tok_KwElse
      else if lexeme = ''return'' then Tok_KwReturn
      else if lexeme = ''pub'' then Tok_KwPub
      else if lexeme = ''int2float'' then Tok_KwInt2Float
      else if lexeme = ''float2int'' then Tok_KwFloat2Int
      else if lexeme = ''max'' then Tok_KwMax
      else if lexeme = ''min'' then Tok_KwMin
      else if lexeme = ''exp'' then Tok_KwExp
      else if lexeme = ''sqrt'' then Tok_KwSqrt
      else if lexeme = ''floor'' then Tok_KwFloor
      else if lexeme = ''sin'' then Tok_KwSin
      else if lexeme = ''cos'' then Tok_KwCos
      else if lexeme = ''ln'' then Tok_KwLn
      else if lexeme = ''_'' then Tok_Placeholder
      else Tok_Name lexeme)"

definition at_error :: "string \<Rightarrow> string" where
  "at_error other = tick @ ''@'' @ other @ tick @ '' is not a keyword. `@` prefixes keywords, and `@loop`, '' @
     ''`@assert`, `@in`, `@shallow`, `@any`, `@gc` and `@cache` are the ones that exist''"

definition at_kind :: "string \<Rightarrow> span \<Rightarrow> token_kind option \<times> lex_diag list" where
  "at_kind name lc =
     (if name = ''loop'' then (Some Tok_KwLoop, [])
      else if name = ''assert'' then (Some Tok_KwAssert, [])
      else if name = ''in'' then (Some Tok_KwIn, [])
      else if name = ''shallow'' then (Some Tok_KwShallow, [])
      else if name = ''any'' then (Some Tok_Any, [])
      else if name = ''gc'' then (Some Tok_KwGc, [])
      else if name = ''cache'' then (Some Tok_KwCache, [])
      else (None, [\<lparr>ld_span = Some lc, ld_message = at_error name\<rparr>]))"

text \<open>The kind, if there is one, and the diagnostics pushed.\<close>

primrec raw_to_kind :: "raw_token \<Rightarrow> string \<Rightarrow> span \<Rightarrow> token_kind option \<times> lex_diag list" where
  "raw_to_kind Raw_IntLit lexeme lc =
     (case int_value 0 lexeme of
        Some v \<Rightarrow> (Some (Tok_Int v), [])
      | None \<Rightarrow> (None, [\<lparr>ld_span = Some lc, ld_message = ''integer literal out of range''\<rparr>]))"
| "raw_to_kind Raw_FloatLit lexeme lc = (Some (Tok_Float (parse_f32 lexeme)), [])"
| "raw_to_kind Raw_StrLit lexeme lc =
     (if length lexeme < 2 \<or> last lexeme \<noteq> quote_mark then
        (None, [\<lparr>ld_span = Some lc, ld_message = ''unterminated string literal''\<rparr>])
      else (Some (Tok_Str (butlast (tl lexeme))), []))"
| "raw_to_kind Raw_AtNameLit lexeme lc = at_kind (tl lexeme) lc"
| "raw_to_kind Raw_NameLit lexeme lc = (Some (name_kind lexeme), [])"
| "raw_to_kind Raw_KwInt lexeme lc = (Some Tok_KwInt, [])"
| "raw_to_kind Raw_KwFloat lexeme lc = (Some Tok_KwFloat, [])"
| "raw_to_kind Raw_KwString lexeme lc = (Some Tok_KwString, [])"
| "raw_to_kind Raw_KwType lexeme lc = (Some Tok_KwType, [])"
| "raw_to_kind Raw_KwTuple lexeme lc = (Some Tok_KwTuple, [])"
| "raw_to_kind Raw_KwArray lexeme lc = (Some Tok_KwArray, [])"
| "raw_to_kind Raw_KwStruct lexeme lc = (Some Tok_KwStruct, [])"
| "raw_to_kind Raw_KwTable lexeme lc = (Some Tok_KwTable, [])"
| "raw_to_kind Raw_KwSet lexeme lc = (Some Tok_KwSet, [])"
| "raw_to_kind Raw_KwLet lexeme lc = (Some Tok_KwLet, [])"
| "raw_to_kind Raw_KwIf lexeme lc = (Some Tok_KwIf, [])"
| "raw_to_kind Raw_KwThen lexeme lc = (Some Tok_KwThen, [])"
| "raw_to_kind Raw_KwElse lexeme lc = (Some Tok_KwElse, [])"
| "raw_to_kind Raw_KwReturn lexeme lc = (Some Tok_KwReturn, [])"
| "raw_to_kind Raw_KwPub lexeme lc = (Some Tok_KwPub, [])"
| "raw_to_kind Raw_KwInt2Float lexeme lc = (Some Tok_KwInt2Float, [])"
| "raw_to_kind Raw_KwFloat2Int lexeme lc = (Some Tok_KwFloat2Int, [])"
| "raw_to_kind Raw_KwMax lexeme lc = (Some Tok_KwMax, [])"
| "raw_to_kind Raw_KwMin lexeme lc = (Some Tok_KwMin, [])"
| "raw_to_kind Raw_KwExp lexeme lc = (Some Tok_KwExp, [])"
| "raw_to_kind Raw_KwSqrt lexeme lc = (Some Tok_KwSqrt, [])"
| "raw_to_kind Raw_KwFloor lexeme lc = (Some Tok_KwFloor, [])"
| "raw_to_kind Raw_KwSin lexeme lc = (Some Tok_KwSin, [])"
| "raw_to_kind Raw_KwCos lexeme lc = (Some Tok_KwCos, [])"
| "raw_to_kind Raw_KwLn lexeme lc = (Some Tok_KwLn, [])"
| "raw_to_kind Raw_FatArrow lexeme lc = (Some Tok_FatArrow, [])"
| "raw_to_kind Raw_TableArrow lexeme lc = (Some Tok_TableArrow, [])"
| "raw_to_kind Raw_TableFindArrow lexeme lc = (Some Tok_TableFindArrow, [])"
| "raw_to_kind Raw_Colon lexeme lc = (Some Tok_Colon, [])"
| "raw_to_kind Raw_ColonEquals lexeme lc = (Some Tok_ColonEquals, [])"
| "raw_to_kind Raw_TemplateUnify lexeme lc = (Some Tok_TemplateUnify, [])"
| "raw_to_kind Raw_Hash lexeme lc = (Some Tok_Hash, [])"
| "raw_to_kind Raw_Question lexeme lc = (Some Tok_Question, [])"
| "raw_to_kind Raw_Bang lexeme lc = (Some Tok_Bang, [])"
| "raw_to_kind Raw_Dollar lexeme lc = (Some Tok_Dollar, [])"
| "raw_to_kind Raw_Equals lexeme lc = (Some Tok_Equals, [])"
| "raw_to_kind Raw_Eq lexeme lc = (Some Tok_Eq, [])"
| "raw_to_kind Raw_Neq lexeme lc = (Some Tok_Neq, [])"
| "raw_to_kind Raw_Leq lexeme lc = (Some Tok_Leq, [])"
| "raw_to_kind Raw_Geq lexeme lc = (Some Tok_Geq, [])"
| "raw_to_kind Raw_Plus lexeme lc = (Some Tok_Plus, [])"
| "raw_to_kind Raw_Minus lexeme lc = (Some Tok_Minus, [])"
| "raw_to_kind Raw_Star lexeme lc = (Some Tok_Star, [])"
| "raw_to_kind Raw_Slash lexeme lc = (Some Tok_Slash, [])"
| "raw_to_kind Raw_Percent lexeme lc = (Some Tok_Percent, [])"
| "raw_to_kind Raw_Amp lexeme lc = (Some Tok_Amp, [])"
| "raw_to_kind Raw_Pipe lexeme lc = (Some Tok_Pipe, [])"
| "raw_to_kind Raw_Caret lexeme lc = (Some Tok_Caret, [])"
| "raw_to_kind Raw_Dot lexeme lc = (Some Tok_Dot, [])"
| "raw_to_kind Raw_LParen lexeme lc = (Some Tok_LParen, [])"
| "raw_to_kind Raw_RParen lexeme lc = (Some Tok_RParen, [])"
| "raw_to_kind Raw_LBracket lexeme lc = (Some Tok_LBracket, [])"
| "raw_to_kind Raw_RBracket lexeme lc = (Some Tok_RBracket, [])"
| "raw_to_kind Raw_LBrace lexeme lc = (Some Tok_LBrace, [])"
| "raw_to_kind Raw_RBrace lexeme lc = (Some Tok_RBrace, [])"
| "raw_to_kind Raw_LAngle lexeme lc = (Some Tok_LAngle, [])"
| "raw_to_kind Raw_RAngle lexeme lc = (Some Tok_RAngle, [])"
| "raw_to_kind Raw_Tilde lexeme lc = (Some Tok_Tilde, [])"
| "raw_to_kind Raw_Separator lexeme lc = (Some Tok_Separator, [])"

end
