(* ===== verification/Lex_Spelling.thy ===== *)
theory Lex_Spelling
  imports Lex_Tokens
begin

text \<open>
  What a token's kind says of the text it matched: a literal holds the value its digits or bytes
  spell, every other token the text \<open>describe_static\<close> prints for it.
\<close>

lemma decimal_snoc [simp]: "decimal [] = 0" "decimal (s @ [c]) = 10 * decimal s + (byte_of c - 48)"
  by (simp_all add: decimal_def)

lemma digit_value: "is_digit c \<Longrightarrow> byte_of c - 48 \<le> 9"
  unfolding is_digit_def by linarith

lemma decimal_from:
  "foldl (\<lambda>v c. 10 * v + (byte_of c - 48)) v s = v * 10 ^ length s + decimal s"
proof (induction s arbitrary: v)
  case (Cons c s)
  show ?case
    using Cons.IH [of "10 * v + (byte_of c - 48)"] Cons.IH [of "byte_of c - 48"]
    by (simp add: decimal_def algebra_simps)
qed simp

lemma int_value_from:
  assumes "list_all is_digit s"
  shows "int_value v s = (if unat v * 10 ^ length s + decimal s < 2 ^ 64
    then Some (of_nat (unat v * 10 ^ length s + decimal s)) else None)"
  using assms
proof (induction s arbitrary: v)
  case (Cons c s)
  let ?d = "byte_of c - 48" and ?w = "unat v * 10 + (byte_of c - 48)"
  have d: "?d \<le> 9" using Cons.prems digit_value by simp
  have dec: "unat v * 10 ^ length (c # s) + decimal (c # s) = ?w * 10 ^ length s + decimal s"
    using decimal_from [of ?d s] by (simp add: decimal_def algebra_simps)
  have u: "unat (of_nat ?d :: u64) = ?d" using d by (simp add: unat_of_nat take_bit_nat_eq_self)
  have le: "?w \<le> ?w * 10 ^ length s" by simp
  show ?case
  proof (cases "?w < 2 ^ 64")
    case True
    then have "unat v * 10 < 2 ^ 64" by linarith
    then have "unat (v * 10) = unat v * 10" by (simp add: unat_word_ariths)
    with True u have s: "Option.bind (checked_mul_u64 v 10) (\<lambda>v. checked_add_u64 v (of_nat ?d)) =
        Some (v * 10 + of_nat ?d)"
      by (simp add: checked_mul_u64_def checked_add_u64_def)
    have w: "unat (v * 10 + of_nat ?d) = ?w"
      using True u \<open>unat (v * 10) = unat v * 10\<close> by (simp add: unat_word_ariths)
    show ?thesis
      unfolding int_value.simps Let_def s dec using Cons.IH [of "v * 10 + of_nat ?d"] Cons.prems
      unfolding w by simp
  next
    case False
    have "Option.bind (checked_mul_u64 v 10) (\<lambda>v. checked_add_u64 v (of_nat ?d)) = None"
    proof (cases "unat v * 10 < 2 ^ 64")
      case True
      then have "unat (v * 10) = unat v * 10" by (simp add: unat_word_ariths)
      with True False u show ?thesis by (simp add: checked_mul_u64_def checked_add_u64_def)
    qed (simp add: checked_mul_u64_def)
    moreover have "\<not> ?w * 10 ^ length s + decimal s < 2 ^ 64" using False le by linarith
    ultimately show ?thesis unfolding int_value.simps Let_def dec by simp
  qed
qed simp

text \<open>
  The text a token of a kind stands for: a literal's own spelling, and for a token of fixed spelling
  what \<open>describe_static\<close> prints between its ticks.
\<close>

definition spelled :: "token_kind \<Rightarrow> string \<Rightarrow> bool" where
  "spelled kind lexeme =
     (case kind of
        Tok_Int v \<Rightarrow> is_digits lexeme \<and> unat v = decimal lexeme
      | Tok_Float bits \<Rightarrow> raw_matches Raw_FloatLit lexeme \<and> bits = parse_f32 lexeme
      | Tok_Str s \<Rightarrow> lexeme = quote_mark # s @ [quote_mark] \<and> quote_mark \<notin> set s
      | Tok_Name s \<Rightarrow> lexeme = s \<and> is_name s \<and> name_kind s = Tok_Name s
      | Tok_Separator \<Rightarrow> lexeme = [newline] \<or> lexeme = '','' \<or> lexeme = '';''
      | Tok_Glue \<Rightarrow> lexeme = []
      | Tok_Eof \<Rightarrow> lexeme = []
      | _ \<Rightarrow> describe_static kind = tick @ lexeme @ tick)"

lemma name_kind_spelled: "is_name s \<Longrightarrow> spelled (name_kind s) s"
  by (simp add: name_kind_def spelled_def tick_def)

lemma at_kind_spelled: "at_kind s lc = (Some k, es) \<Longrightarrow> spelled k (CHR ''@'' # s) \<and> es = []"
  by (auto simp: at_kind_def spelled_def tick_def split: if_splits)

lemma int_value_digits: "is_digits s \<Longrightarrow> int_value 0 s = Some v \<Longrightarrow> unat v = decimal s"
  using int_value_from [of s 0]
  by (auto simp: is_digits_def unat_of_nat take_bit_nat_eq_self split: if_splits)

lemma str_lexeme:
  assumes "raw_matches Raw_StrLit s" "\<not> length s < 2" "last s = quote_mark"
  shows "s = quote_mark # butlast (tl s) @ [quote_mark] \<and> quote_mark \<notin> set (butlast (tl s))"
proof -
  obtain body where s: "s = quote_mark # body" "body \<noteq> []"
    using assms(1,2) by (cases s) (auto simp: raw_matches_def)
  moreover from s assms(3) have "last body = quote_mark" by simp
  moreover from this s(2) have "quote_mark \<in> set body" by (metis last_in_set)
  ultimately show ?thesis
    using assms(1) append_butlast_last_id [OF s(2)] by (auto simp: raw_matches_def)
qed

text \<open>A token's kind is spelled by the text it matched, and only a refusal leaves a diagnostic.\<close>

lemma raw_to_kind_spelled:
  assumes "raw_matches raw lexeme" "raw_to_kind raw lexeme lc = (Some k, es)"
  shows "spelled k lexeme \<and> es = []"
proof (cases raw)
  case Raw_IntLit
  then show ?thesis
    using assms int_value_digits [of lexeme]
    by (auto simp: raw_matches_def spelled_def split: option.splits)
next
  case Raw_FloatLit
  then show ?thesis using assms by (auto simp: spelled_def)
next
  case Raw_StrLit
  then show ?thesis
    using assms str_lexeme [of lexeme] by (auto simp: spelled_def split: if_splits)
next
  case Raw_AtNameLit
  then show ?thesis
    using assms at_kind_spelled [of "tl lexeme" lc k es]
    by (auto simp: raw_matches_def split: list.splits)
next
  case Raw_NameLit
  then show ?thesis using assms name_kind_spelled by (auto simp: raw_matches_def)
next
  case Raw_Separator
  then show ?thesis using assms by (auto simp: raw_matches_def spelled_def)
qed (use assms in \<open>auto simp: raw_matches_def spelled_def tick_def\<close>)

lemma raw_to_kind_refused: "raw_to_kind raw lexeme lc = (None, es) \<Longrightarrow> es \<noteq> []"
  by (cases raw) (auto simp: at_kind_def split: option.splits if_splits)

end
