(* ===== verification/Lexer.thy ===== *)
theory Lexer
  imports Lex_Spelling
begin

text \<open>
  The lexer (\<open>lichen-language-lex/src/lib.rs\<close>): \<open>lex_with\<close> over a slice of a larger source, and
  \<open>lex_resume\<close>, which lexes an edited slice again from the token the edit touches and takes the old
  tokens back up where the two agree.

  The scanner is an argument: given the text from a position on, it answers the next raw token or
  an unmatched character, with the offsets where it starts and ends. A range is in \<open>u32\<close>, as in the
  code; an addition that overflows is a panic.
\<close>

section \<open>The scanner\<close>

type_synonym scanner = "string \<Rightarrow> (raw_token option \<times> nat \<times> nat) option"

text \<open>The bytes of the first character of a text.\<close>

definition char_len :: "string \<Rightarrow> nat" where
  "char_len s = (case s of [] \<Rightarrow> 0 | c # cs \<Rightarrow> 1 + length (takeWhile continuation cs))"

text \<open>
  The rule the scanner is generated by: blanks are skipped, the longest match of any pattern is the
  token, and a character no pattern matches at is answered alone.
\<close>

definition longest_match :: "scanner \<Rightarrow> bool" where
  "longest_match scan \<longleftrightarrow> (\<forall>text.
     case scan text of
       None \<Rightarrow> list_all is_blank text
     | Some (result, i, j) \<Rightarrow>
         i = length (takeWhile is_blank text) \<and> i < j \<and> j \<le> length text \<and>
         (case result of
            Some raw \<Rightarrow> raw_matches raw (drop i (take j text)) \<and>
              (\<forall>raw k. i < k \<longrightarrow> k \<le> length text \<longrightarrow> raw_matches raw (drop i (take k text)) \<longrightarrow> k \<le> j)
          | None \<Rightarrow> j = i + char_len (drop i text) \<and>
              (\<forall>raw k. i < k \<longrightarrow> k \<le> length text \<longrightarrow> \<not> raw_matches raw (drop i (take k text)))))"

section \<open>Lexing a slice\<close>

record lexed =
  lx_tokens :: "token list"
  lx_errors :: "lex_diag list"

definition add_offset :: "u32 \<Rightarrow> nat \<Rightarrow> u32 option" where
  "add_offset base offset =
     (let offset = of_nat offset in
      if unat base + unat offset < 2 ^ 32 then Some (base + offset) else None)"

definition mk_token :: "token_kind \<Rightarrow> span \<Rightarrow> u32 \<Rightarrow> u32 \<Rightarrow> token" where
  "mk_token kind lc start stop = \<lparr>tk_kind = kind, tk_span = lc, tk_range = (start, stop)\<rparr>"

definition unexpected :: "string \<Rightarrow> span \<Rightarrow> lex_diag" where
  "unexpected lexeme lc = \<lparr>ld_span = Some lc, ld_message = ''unexpected character '' @ tick @
     (case lexeme of [] \<Rightarrow> ''?'' | _ \<Rightarrow> take (char_len lexeme) lexeme) @ tick\<rparr>"

text \<open>
  One answer of the scanner: the tokens and diagnostics it adds, and the byte end of the last real
  token after it.
\<close>

definition lex_step :: "nat list \<Rightarrow> raw_token option \<Rightarrow> string \<Rightarrow> u32 \<Rightarrow> u32 \<Rightarrow> u32 option \<Rightarrow>
    token list \<times> lex_diag list \<times> u32 option" where
  "lex_step starts result lexeme start stop prev_end =
     (let lc = line_col starts start in
      case result of
        Some raw \<Rightarrow>
          if raw = Raw_Separator then ([mk_token Tok_Separator lc start stop], [], None)
          else
            let glued = is_postfix_delim raw \<and> prev_end = Some start;
              glue = (if glued then [mk_token Tok_Glue lc start start] else []);
              (kind, errors) = raw_to_kind raw lexeme lc in
            (case kind of
               Some kind \<Rightarrow> (glue @ [mk_token kind lc start stop], errors, Some stop)
             | None \<Rightarrow> (glue, errors, Some stop))
      | None \<Rightarrow> ([], [unexpected lexeme lc], None))"

partial_function (option) lex_loop :: "scanner \<Rightarrow> nat list \<Rightarrow> u32 \<Rightarrow> string \<Rightarrow> nat \<Rightarrow>
    token list \<Rightarrow> lex_diag list \<Rightarrow> u32 option \<Rightarrow> (token list \<times> lex_diag list) option" where
  "lex_loop scan starts base code at tokens errors prev_end =
     (case scan (drop at code) of
        None \<Rightarrow> Some (tokens, errors)
      | Some (result, i, j) \<Rightarrow>
          Option.bind (add_offset base (at + i)) (\<lambda>start.
          Option.bind (if result = None then Some start else add_offset base (at + j)) (\<lambda>stop.
            let (new_tokens, new_errors, prev_end) =
              lex_step starts result (drop (at + i) (take (at + j) code)) start stop prev_end in
            lex_loop scan starts base code (at + j) (tokens @ new_tokens) (errors @ new_errors)
              prev_end)))"

declare lex_loop.simps [code]

definition lex_with :: "scanner \<Rightarrow> string \<Rightarrow> nat list \<Rightarrow> u32 \<Rightarrow> lexed option" where
  "lex_with scan code starts base =
     Option.bind (lex_loop scan starts base code 0 [] [] None) (\<lambda>(tokens, errors).
     Option.bind (add_offset base (length code)) (\<lambda>pos.
       Some \<lparr>lx_tokens = tokens @ [mk_token Tok_Eof (line_col starts pos) pos pos],
             lx_errors = errors\<rparr>))"

definition lex_source :: "scanner \<Rightarrow> string \<Rightarrow> lexed option" where
  "lex_source scan source = lex_with scan source (line_starts source) 0"

section \<open>Lexing an edited slice\<close>

text \<open>The bytes of a token's range, as offsets of the source.\<close>

abbreviation tk_start :: "token \<Rightarrow> nat" where
  "tk_start t \<equiv> unat (fst (tk_range t))"

abbreviation tk_stop :: "token \<Rightarrow> nat" where
  "tk_stop t \<equiv> unat (snd (tk_range t))"

fun seed_prev_end :: "token list \<Rightarrow> nat \<Rightarrow> u32 option" where
  "seed_prev_end prev 0 = None"
| "seed_prev_end prev (Suc k) =
     (case tk_kind (prev ! k) of
        Tok_Glue \<Rightarrow> seed_prev_end prev k
      | Tok_Separator \<Rightarrow> None
      | _ \<Rightarrow> Some (snd (tk_range (prev ! k))))"

function resync_from :: "token list \<Rightarrow> nat \<Rightarrow> int \<Rightarrow> nat" where
  "resync_from prev j target =
     (if j < length prev \<and> int (tk_stop (prev ! j)) < target then resync_from prev (j + 1) target
      else j)"
  by pat_completeness auto

termination
  by (relation "measure (\<lambda>(prev, j, target). length prev - j)") auto

declare resync_from.simps [simp del]

text \<open>The probe index after the search, and the index the token is found at, if it is.\<close>

definition resync :: "token list \<Rightarrow> nat \<Rightarrow> token \<Rightarrow> int \<Rightarrow> nat \<Rightarrow> nat \<times> nat option" where
  "resync prev j t delta b =
     (let target = int (tk_start t) - delta in
      if target < int b - delta then (j, None)
      else
        let j = resync_from prev j target in
        if j < length prev \<and> int (tk_start (prev ! j)) = target \<and>
          int (tk_stop (prev ! j)) = int (tk_stop t) - delta \<and> tk_kind (prev ! j) = tk_kind t
        then (j, Some j) else (j, None))"

text \<open>
  The loop over the edited text. It ends with the token the old stream is found at again, or at the
  end of the text.
\<close>

partial_function (option) resume_loop :: "scanner \<Rightarrow> nat list \<Rightarrow> token list \<Rightarrow> int \<Rightarrow> nat \<Rightarrow> u32 \<Rightarrow>
    string \<Rightarrow> nat \<Rightarrow> nat \<Rightarrow> token list \<Rightarrow> lex_diag list \<Rightarrow> u32 option \<Rightarrow>
    (token list \<times> lex_diag list \<times> nat option) option" where
  "resume_loop scan starts prev delta b s code at j tokens errors prev_end =
     (case scan (drop at code) of
        None \<Rightarrow> Some (tokens, errors, None)
      | Some (result, i, i') \<Rightarrow>
          Option.bind (add_offset s (at + i)) (\<lambda>start.
            let lexeme = drop (at + i) (take (at + i') code); lc = line_col starts start in
            case result of
              None \<Rightarrow> resume_loop scan starts prev delta b s code (at + i') j tokens
                (errors @ [unexpected lexeme lc]) None
            | Some raw \<Rightarrow>
                Option.bind (add_offset s (at + i')) (\<lambda>stop.
                  if raw = Raw_Separator then
                    let t = mk_token Tok_Separator lc start stop; (j, found) = resync prev j t delta b in
                    (case found of
                       Some jj \<Rightarrow> Some (tokens, errors, Some jj)
                     | None \<Rightarrow> resume_loop scan starts prev delta b s code (at + i') j (tokens @ [t])
                         errors None)
                  else
                    let glued = is_postfix_delim raw \<and> prev_end = Some start;
                      g = mk_token Tok_Glue lc start start;
                      (j, found) = (if glued then resync prev j g delta b else (j, None)) in
                    (case found of
                       Some jj \<Rightarrow> Some (tokens, errors, Some jj)
                     | None \<Rightarrow>
                         let tokens = (if glued then tokens @ [g] else tokens);
                           (kind, new_errors) = raw_to_kind raw lexeme lc; errors = errors @ new_errors in
                         (case kind of
                            None \<Rightarrow> resume_loop scan starts prev delta b s code (at + i') j tokens
                              errors (Some stop)
                          | Some kind \<Rightarrow>
                              let t = mk_token kind lc start stop; (j, found) = resync prev j t delta b in
                              (case found of
                                 Some jj \<Rightarrow> Some (tokens, errors, Some jj)
                               | None \<Rightarrow> resume_loop scan starts prev delta b s code (at + i') j
                                   (tokens @ [t]) errors (Some stop)))))))"

declare resume_loop.simps [code]

text \<open>A token of the old suffix, moved by \<open>delta\<close> and given its new line and column.\<close>

definition shift_token :: "nat list \<Rightarrow> int \<Rightarrow> token \<Rightarrow> token" where
  "shift_token starts delta t =
     (let r = word_of_int (int (tk_start t) + delta); re = word_of_int (int (tk_stop t) + delta) in
      mk_token (tk_kind t) (line_col starts r) r re)"

definition lex_resume :: "scanner \<Rightarrow> token list \<Rightarrow> string \<Rightarrow> string \<Rightarrow> nat list \<Rightarrow> u32 \<Rightarrow> nat \<Rightarrow> nat \<Rightarrow>
    lexed option" where
  "lex_resume scan prev old_source new_source starts base a b =
     (let delta = int (length new_source) - int (length old_source);
        i = (case find_pos (\<lambda>t. tk_stop t \<ge> unat (of_nat a :: u32)) prev of
               Some i \<Rightarrow> i | None \<Rightarrow> length prev);
        s = (if i < length prev then fst (tk_range (prev ! i)) else of_nat a) in
      if unat s < unat base \<or> \<not> is_char_boundary new_source (unat s - unat base) then None
      else
        let code = drop (unat s - unat base) new_source in
        Option.bind (resume_loop scan starts prev delta b s code 0 i (take i prev) []
            (seed_prev_end prev i)) (\<lambda>(tokens, errors, resynced_at).
          case resynced_at of
            Some jj \<Rightarrow> Some \<lparr>lx_tokens = tokens @ map (shift_token starts delta) (drop jj prev),
                lx_errors = errors\<rparr>
          | None \<Rightarrow>
              Option.bind (add_offset s (length code)) (\<lambda>pos.
                Some \<lparr>lx_tokens = tokens @ [mk_token Tok_Eof (line_col starts pos) pos pos],
                  lx_errors = errors\<rparr>)))"

section \<open>A scanner\<close>

text \<open>The rule as a search over the lengths, for evaluation.\<close>

definition raw_tokens :: "raw_token list" where
  "raw_tokens = [Raw_Separator, Raw_IntLit, Raw_FloatLit, Raw_StrLit, Raw_KwInt, Raw_KwFloat, Raw_KwString,
     Raw_KwType, Raw_KwTuple, Raw_KwArray, Raw_KwStruct, Raw_KwTable, Raw_KwSet, Raw_KwLet,
     Raw_KwIf, Raw_KwThen, Raw_KwElse, Raw_KwReturn, Raw_KwPub, Raw_AtNameLit, Raw_KwInt2Float,
     Raw_KwFloat2Int, Raw_KwMax, Raw_KwMin, Raw_KwExp, Raw_KwSqrt, Raw_KwFloor, Raw_KwSin,
     Raw_KwCos, Raw_KwLn, Raw_NameLit, Raw_FatArrow, Raw_TableArrow, Raw_TableFindArrow,
     Raw_Colon, Raw_ColonEquals, Raw_TemplateUnify, Raw_Hash, Raw_Question, Raw_Bang, Raw_Dollar,
     Raw_Equals, Raw_Eq, Raw_Neq, Raw_Leq, Raw_Geq, Raw_Plus, Raw_Minus, Raw_Star, Raw_Slash,
     Raw_Percent, Raw_Amp, Raw_Pipe, Raw_Caret, Raw_Dot, Raw_LParen, Raw_RParen, Raw_LBracket,
     Raw_RBracket, Raw_LBrace, Raw_RBrace, Raw_LAngle, Raw_RAngle, Raw_Tilde]"

definition scan_patterns :: scanner where
  "scan_patterns text =
     (let i = length (takeWhile is_blank text); rest = drop i text in
      if rest = [] then None
      else
        case find (\<lambda>k. list_ex (\<lambda>raw. raw_matches raw (take k rest)) raw_tokens)
            (rev [1..<Suc (length rest)]) of
          None \<Rightarrow> Some (None, i, i + char_len rest)
        | Some k \<Rightarrow> Some (find (\<lambda>raw. raw_matches raw (take k rest)) raw_tokens, i, i + k))"

lemma raw_tokens_all: "raw \<in> set raw_tokens"
  by (cases raw) (simp_all add: raw_tokens_def)

lemma char_len_bounds: "s \<noteq> [] \<Longrightarrow> 0 < char_len s \<and> char_len s \<le> length s"
  by (cases s) (auto simp: char_len_def length_takeWhile_le)

lemma find_rev_upt:
  "find P (rev [1..<Suc n]) = Some k \<longleftrightarrow> 0 < k \<and> k \<le> n \<and> P k \<and> (\<forall>l. k < l \<and> l \<le> n \<longrightarrow> \<not> P l)"
  by (induction n) (auto simp: le_Suc_eq)

lemma scan_patterns_longest: "longest_match scan_patterns"
  unfolding longest_match_def
proof
  fix xs :: string
  let ?i = "length (takeWhile is_blank xs)" and ?rest = "dropWhile is_blank xs"
  let ?P = "\<lambda>k. list_ex (\<lambda>raw. raw_matches raw (take k ?rest)) raw_tokens"
  have rest: "drop ?i xs = ?rest" by (rule dropWhile_eq_drop [symmetric])
  have len: "length xs = ?i + length ?rest"
    by (metis length_append takeWhile_dropWhile_id)
  have cut: "drop ?i (take (?i + k) xs) = take k ?rest" for k
    using rest by (simp add: drop_take)
  have any: "raw_matches raw (take k ?rest) \<Longrightarrow> ?P k" for raw k
    using raw_tokens_all by (auto simp: list_ex_iff)
  show "case scan_patterns xs of None \<Rightarrow> list_all is_blank xs
    | Some (result, i, j) \<Rightarrow> i = ?i \<and> i < j \<and> j \<le> length xs \<and>
         (case result of
            Some raw \<Rightarrow> raw_matches raw (drop i (take j xs)) \<and>
              (\<forall>raw k. i < k \<longrightarrow> k \<le> length xs \<longrightarrow> raw_matches raw (drop i (take k xs)) \<longrightarrow> k \<le> j)
          | None \<Rightarrow> j = i + char_len (drop i xs) \<and>
              (\<forall>raw k. i < k \<longrightarrow> k \<le> length xs \<longrightarrow> \<not> raw_matches raw (drop i (take k xs))))"
  proof (cases "?rest = []")
    case True
    then have "scan_patterns xs = None" unfolding scan_patterns_def rest Let_def True by simp
    with True show ?thesis by (simp add: dropWhile_eq_Nil_conv list_all_iff)
  next
    case ne: False
    show ?thesis
    proof (cases "find ?P (rev [1..<Suc (length ?rest)])")
      case None
      have no: "\<not> raw_matches raw (drop ?i (take k xs))" if k: "?i < k" "k \<le> length xs" for raw k
      proof -
        obtain l where k: "k = ?i + l" "0 < l" "l \<le> length ?rest" using k len
          by (metis add_le_cancel_left less_imp_add_positive)
        have "l \<in> set (rev [1..<Suc (length ?rest)])" using k by auto
        with None have "\<not> ?P l" unfolding find_None_iff by blast
        then show ?thesis using any unfolding k(1) cut by blast
      qed
      have "scan_patterns xs = Some (None, ?i, ?i + char_len ?rest)"
        unfolding scan_patterns_def rest Let_def None using ne by simp
      then show ?thesis using no char_len_bounds [OF ne] len rest by simp
    next
      case (Some k)
      then have k: "0 < k" "k \<le> length ?rest" "?P k" "\<And>l. k < l \<Longrightarrow> l \<le> length ?rest \<Longrightarrow> \<not> ?P l"
        unfolding find_rev_upt by blast+
      obtain raw where raw: "find (\<lambda>raw. raw_matches raw (take k ?rest)) raw_tokens = Some raw"
        using k(3) by (metis (mono_tags, lifting) find_None_iff list_ex_iff not_None_eq)
      then have m: "raw_matches raw (take k ?rest)" by (metis (mono_tags, lifting) find_Some_iff)
      have "l \<le> ?i + k" if l: "?i < l" "l \<le> length xs" "raw_matches r (drop ?i (take l xs))" for r l
      proof -
        obtain m where m: "l = ?i + m" using l(1) by (metis less_imp_add_positive)
        have "?P m" using l(3) any unfolding m cut by blast
        then show ?thesis using k(4) [of m] l(2) len m by linarith
      qed
      moreover have "scan_patterns xs = Some (Some raw, ?i, ?i + k)"
        unfolding scan_patterns_def rest Let_def Some using ne raw by simp
      ultimately show ?thesis using k(1,2) m len by (simp add: cut)
    qed
  qed
qed

end
