(* ===== verification/Lexer_Correct.thy ===== *)
theory Lexer_Correct
  imports Lexer
begin

text \<open>
  What the lexer answers, for any scanner that follows the documented rule: \<open>lexes\<close> is the lexing
  of a text as a relation, one answer of the scanner after the other; the loop of the code computes
  it, and its tokens are laid in order over the text, each spelled by its own bytes.
\<close>

section \<open>Lexing as a relation\<close>

definition eof_token :: "nat list \<Rightarrow> nat \<Rightarrow> token" where
  "eof_token starts p = mk_token Tok_Eof (line_col starts (of_nat p)) (of_nat p) (of_nat p)"

text \<open>The text \<open>s\<close> begins at the offset \<open>p\<close>; the last real token before it ended at \<open>q\<close>.\<close>

inductive lexes :: "scanner \<Rightarrow> nat list \<Rightarrow> string \<Rightarrow> nat \<Rightarrow> u32 option \<Rightarrow>
    token list \<Rightarrow> lex_diag list \<Rightarrow> bool" for scan starts where
  lexes_end: "scan s = None \<Longrightarrow> lexes scan starts s p q [eof_token starts (p + length s)] []"
| lexes_next: "scan s = Some (result, i, j) \<Longrightarrow>
    lex_step starts result (drop i (take j s)) (of_nat (p + i)) (of_nat (p + j)) q = (ts, es, q') \<Longrightarrow>
    lexes scan starts (drop j s) (p + j) q' toks errs \<Longrightarrow>
    lexes scan starts s p q (ts @ toks) (es @ errs)"

lemma longest_None: "longest_match scan \<Longrightarrow> scan s = None \<Longrightarrow> list_all is_blank s"
  by (metis (mono_tags, lifting) longest_match_def option.case(1))

lemma longest_Some:
  assumes "longest_match scan" "scan s = Some (result, i, j)"
  shows "i = length (takeWhile is_blank s)" "i < j" "j \<le> length s"
    "\<And>raw. result = Some raw \<Longrightarrow> raw_matches raw (drop i (take j s))"
    "\<And>raw k. result \<noteq> None \<Longrightarrow> i < k \<Longrightarrow> k \<le> length s \<Longrightarrow> raw_matches raw (drop i (take k s)) \<Longrightarrow> k \<le> j"
    "\<And>raw k. result = None \<Longrightarrow> i < k \<Longrightarrow> k \<le> length s \<Longrightarrow> \<not> raw_matches raw (drop i (take k s))"
    "result = None \<Longrightarrow> j = i + char_len (drop i s)"
proof -
  have l: "case scan s of None \<Rightarrow> list_all is_blank s
    | Some (result, i, j) \<Rightarrow> i = length (takeWhile is_blank s) \<and> i < j \<and> j \<le> length s \<and>
         (case result of
            Some raw \<Rightarrow> raw_matches raw (drop i (take j s)) \<and>
              (\<forall>raw k. i < k \<longrightarrow> k \<le> length s \<longrightarrow> raw_matches raw (drop i (take k s)) \<longrightarrow> k \<le> j)
          | None \<Rightarrow> j = i + char_len (drop i s) \<and>
              (\<forall>raw k. i < k \<longrightarrow> k \<le> length s \<longrightarrow> \<not> raw_matches raw (drop i (take k s))))"
    using assms(1) by (simp add: longest_match_def)
  show "i = length (takeWhile is_blank s)" "i < j" "j \<le> length s"
    using l unfolding assms(2) by auto
  show "raw_matches raw (drop i (take j s))" if "result = Some raw" for raw
    using l that unfolding assms(2) by auto
  show "k \<le> j" if "result \<noteq> None" "i < k" "k \<le> length s" "raw_matches raw (drop i (take k s))" for raw k
    using l that unfolding assms(2) by auto
  show "\<not> raw_matches raw (drop i (take k s))" if "result = None" "i < k" "k \<le> length s" for raw k
    using l that unfolding assms(2) by auto
  show "j = i + char_len (drop i s)" if "result = None"
    using l that unfolding assms(2) by auto
qed

text \<open>A text can always be lexed, in one way.\<close>

lemma lexes_exists:
  assumes "longest_match scan"
  shows "\<exists>toks errs. lexes scan starts s p q toks errs"
proof (induction s arbitrary: p q rule: length_induct)
  case (1 s)
  show ?case
  proof (cases "scan s")
    case None
    then show ?thesis using lexes_end by metis
  next
    case (Some a)
    then obtain result i j where s: "scan s = Some (result, i, j)" by (cases a) auto
    obtain ts es q' where st: "lex_step starts result (drop i (take j s)) (of_nat (p + i))
        (of_nat (p + j)) q = (ts, es, q')" by (rule prod_cases3)
    have "length (drop j s) < length s" using longest_Some(2,3) [OF assms s] by simp
    with 1 obtain toks errs where "lexes scan starts (drop j s) (p + j) q' toks errs" by blast
    then show ?thesis using lexes_next [where scan = scan and s = s, OF s st] by blast
  qed
qed

lemma lexes_unique:
  assumes "lexes scan starts s p q toks errs" "lexes scan starts s p q toks' errs'"
  shows "toks = toks' \<and> errs = errs'"
  using assms
proof (induction arbitrary: toks' errs')
  case (lexes_end s p q)
  from lexes_end(2) show ?case by cases (use lexes_end(1) in auto)
next
  case (lexes_next s result i j p q ts es q' toks errs)
  from lexes_next(5) show ?case
  proof cases
    case (lexes_next result' i' j' ts' es' q'' toks'' errs'')
    note n = this
    have eq: "result' = result" "i' = i" "j' = j" using lexes_next.hyps(1) n(3) by auto
    then have "ts' = ts" "es' = es" "q'' = q'" using lexes_next.hyps(2) n(4) by auto
    with n(1,2,5) eq lexes_next.IH show ?thesis by blast
  qed (use lexes_next.hyps(1) in simp)
qed

section \<open>The loop of the code\<close>

lemma add_offset_Some:
  assumes "unat base + n < 2 ^ 32"
  shows "add_offset base n = Some (of_nat (unat base + n))"
proof -
  have "unat (of_nat n :: u32) = n" using assms by (simp add: unat_of_nat_small)
  with assms show ?thesis by (simp add: add_offset_def Let_def)
qed

lemma drop_take_drop: "drop i (take j (drop at s)) = drop (at + i) (take (at + j) s)"
  by (simp add: drop_take add.commute)

lemma lex_loop_lexes:
  assumes scan: "longest_match scan"
  shows "lexes scan starts s p q toks errs \<Longrightarrow> s = drop at code \<Longrightarrow> p = unat base + at \<Longrightarrow>
    at \<le> length code \<Longrightarrow> unat base + length code < 2 ^ 32 \<Longrightarrow>
    \<exists>front. toks = front @ [eof_token starts (unat base + length code)] \<and>
      lex_loop scan starts base code at tokens errors q = Some (tokens @ front, errors @ errs)"
proof (induction arbitrary: at tokens errors rule: lexes.induct)
  case (lexes_end s p q)
  then show ?case by (subst lex_loop.simps) simp
next
  case (lexes_next s result i j p q ts es q' toks errs)
  note b = longest_Some(2,3) [OF scan lexes_next.hyps(1)]
  have j: "at + j \<le> length code" using b(2) lexes_next.prems by simp
  have start: "add_offset base (at + i) = Some (of_nat (p + i))"
    using add_offset_Some [of base "at + i"] lexes_next.prems j b(1) by (simp add: add.assoc)
  have stop: "add_offset base (at + j) = Some (of_nat (p + j))"
    using add_offset_Some [of base "at + j"] lexes_next.prems j by (simp add: add.assoc)
  have "lex_step starts result (drop (at + i) (take (at + j) code)) (of_nat (p + i))
      (of_nat (p + j)) q = (ts, es, q')"
    using lexes_next.hyps(2) unfolding lexes_next.prems(1) drop_take_drop .
  then have st: "lex_step starts result (drop (at + i) (take (at + j) code)) (of_nat (p + i))
      (if result = None then of_nat (p + i) else of_nat (p + j)) q = (ts, es, q')"
    by (cases result) (simp_all add: lex_step_def Let_def)
  obtain front where f: "toks = front @ [eof_token starts (unat base + length code)]"
    "lex_loop scan starts base code (at + j) (tokens @ ts) (errors @ es) q' =
      Some ((tokens @ ts) @ front, (errors @ es) @ errs)"
    using lexes_next.IH [of "at + j" "tokens @ ts" "errors @ es"] lexes_next.prems j
    by (auto simp: add.commute add.assoc)
  have sc: "scan (drop at code) = Some (result, i, j)"
    using lexes_next.hyps(1) unfolding lexes_next.prems(1) .
  have stop': "(if result = None then Some (of_nat (p + i)) else add_offset base (at + j)) =
      Some (if result = None then of_nat (p + i) else of_nat (p + j))"
    using stop by simp
  have "lex_loop scan starts base code at tokens errors q =
      Some (tokens @ ts @ front, errors @ es @ errs)"
    by (subst lex_loop.simps)
      (simp only: sc option.case prod.case start stop' bind.simps Let_def st f(2) append.assoc)
  with f(1) show ?case by auto
qed

lemma lex_with_lexes:
  assumes "longest_match scan" "unat base + length code < 2 ^ 32"
  shows "\<exists>l. lex_with scan code starts base = Some l \<and>
    lexes scan starts code (unat base) None (lx_tokens l) (lx_errors l)"
proof -
  obtain toks errs where l: "lexes scan starts code (unat base) None toks errs"
    using lexes_exists [OF assms(1)] by metis
  obtain front where "toks = front @ [eof_token starts (unat base + length code)]"
    "lex_loop scan starts base code 0 [] [] None = Some ([] @ front, [] @ errs)"
    using lex_loop_lexes [OF assms(1) l, of 0 code base "[]" "[]"] assms(2) by auto
  with l add_offset_Some [OF assms(2)] show ?thesis
    by (auto simp: lex_with_def eof_token_def)
qed

lemma lex_with_iff:
  assumes "longest_match scan" "unat base + length code < 2 ^ 32"
    "lexes scan starts code (unat base) None toks errs"
  shows "lex_with scan code starts base = Some \<lparr>lx_tokens = toks, lx_errors = errs\<rparr>"
  using lex_with_lexes [OF assms(1,2), of starts] lexes_unique [OF assms(3)]
  by (metis lexed.surjective old.unit.exhaust)

section \<open>Where the tokens lie\<close>

text \<open>Ranges in order from \<open>p\<close> to \<open>e\<close>, and the text a token's range cuts.\<close>

fun laid :: "nat \<Rightarrow> nat \<Rightarrow> token list \<Rightarrow> bool" where
  "laid p e [] \<longleftrightarrow> p \<le> e"
| "laid p e (t # ts) \<longleftrightarrow> p \<le> tk_start t \<and> tk_start t \<le> tk_stop t \<and> laid (tk_stop t) e ts"

definition lexeme_of :: "string \<Rightarrow> nat \<Rightarrow> token \<Rightarrow> string" where
  "lexeme_of s p t = drop (tk_start t - p) (take (tk_stop t - p) s)"

definition token_ok :: "nat list \<Rightarrow> string \<Rightarrow> nat \<Rightarrow> token \<Rightarrow> bool" where
  "token_ok starts s p t \<longleftrightarrow> p \<le> tk_start t \<and> spelled (tk_kind t) (lexeme_of s p t) \<and>
     tk_span t = line_col starts (fst (tk_range t))"

lemma laid_append: "laid p m ts \<Longrightarrow> laid m e us \<Longrightarrow> laid p e (ts @ us)"
proof (induction ts arbitrary: p)
  case Nil
  then show ?case by (cases us) auto
qed auto

lemma laid_mono: "laid m e us \<Longrightarrow> p \<le> m \<Longrightarrow> laid p e us"
  by (cases us) auto

lemma laid_le: "laid p e ts \<Longrightarrow> p \<le> e"
  by (induction ts arbitrary: p) fastforce+

lemma mk_token_simps [simp]:
  "tk_kind (mk_token k lc x y) = k" "tk_span (mk_token k lc x y) = lc"
  "tk_range (mk_token k lc x y) = (x, y)"
  by (simp_all add: mk_token_def)

lemma spelled_nonempty: "spelled k s \<Longrightarrow> s \<noteq> [] \<Longrightarrow> k \<noteq> Tok_Eof \<and> k \<noteq> Tok_Glue"
  by (auto simp: spelled_def)

text \<open>What one answer of the scanner adds.\<close>

lemma lex_step_cases:
  assumes scan: "longest_match scan" "scan s = Some (result, i, j)"
    and step: "lex_step starts result (drop i (take j s)) start stop q = (ts, es, q')"
  obtains
    (error) "result = None" "ts = []" "es = [unexpected (drop i (take j s)) (line_col starts start)]"
      "q' = None"
  | (refused) glue raw where "result = Some raw" "raw \<noteq> Raw_Separator" "es \<noteq> []" "q' = Some stop" "ts = glue"
      "raw_to_kind raw (drop i (take j s)) (line_col starts start) = (None, es)"
      "glue = (if is_postfix_delim raw \<and> q = Some start
        then [mk_token Tok_Glue (line_col starts start) start start] else [])"
  | (separator) "result = Some Raw_Separator" "es = []" "q' = None"
      "ts = [mk_token Tok_Separator (line_col starts start) start stop]"
      "spelled Tok_Separator (drop i (take j s))"
  | (token) glue raw k where "result = Some raw" "raw \<noteq> Raw_Separator" "es = []" "q' = Some stop"
      "ts = glue @ [mk_token k (line_col starts start) start stop]"
      "spelled k (drop i (take j s))"
      "raw_to_kind raw (drop i (take j s)) (line_col starts start) = (Some k, [])"
      "glue = (if is_postfix_delim raw \<and> q = Some start
        then [mk_token Tok_Glue (line_col starts start) start start] else [])"
proof (cases result)
  case None
  with step show ?thesis by (intro error) (simp_all add: lex_step_def)
next
  case (Some raw)
  have m: "raw_matches raw (drop i (take j s))" using longest_Some(4) [OF scan Some] .
  show ?thesis
  proof (cases "raw = Raw_Separator")
    case True
    with m have "spelled Tok_Separator (drop i (take j s))" by (simp add: raw_matches_def spelled_def)
    with True Some step show ?thesis by (intro separator) (simp_all add: lex_step_def)
  next
    case False
    obtain kind errs where k: "raw_to_kind raw (drop i (take j s)) (line_col starts start) = (kind, errs)"
      by fastforce
    show ?thesis
    proof (cases kind)
      case None
      with k step False Some raw_to_kind_refused [of raw _ _ errs] show ?thesis
        by (intro refused [where raw = raw]) (auto simp: lex_step_def Let_def split: if_splits)
    next
      case (Some k')
      with raw_to_kind_spelled [OF m, of _ k' errs] k step False \<open>result = Some raw\<close> show ?thesis
        by (intro token [where raw = raw and k = k']) (auto simp: lex_step_def Let_def split: if_splits)
    qed
  qed
qed

lemma lex_step_tokens:
  assumes scan: "longest_match scan" "scan s = Some (result, i, j)"
    and step: "lex_step starts result (drop i (take j s)) (of_nat (p + i)) (of_nat (p + j)) q = (ts, es, q')"
    and len: "p + length s < 2 ^ 32"
  shows "laid (p + i) (p + j) ts" "\<forall>t \<in> set ts. tk_kind t \<noteq> Tok_Eof \<and> token_ok starts s p t"
    "es = [] \<Longrightarrow> \<exists>t \<in> set ts. tk_start t = p + i \<and> tk_stop t = p + j"
proof -
  have ij: "i < j" "j \<le> length s" using longest_Some(2,3) [OF scan] .
  then have u: "unat (of_nat (p + i) :: u32) = p + i" "unat (of_nat (p + j) :: u32) = p + j"
    using len by (simp_all add: unat_of_nat_small del: of_nat_add)
  have ne: "drop i (take j s) \<noteq> []" using ij by simp
  have lx: "lexeme_of s p (mk_token k lc (of_nat (p + i)) (of_nat (p + j))) = drop i (take j s)" for k lc
    unfolding lexeme_of_def mk_token_simps fst_conv snd_conv u by simp
  have lg: "lexeme_of s p (mk_token k lc (of_nat (p + i)) (of_nat (p + i))) = []" for k lc
    unfolding lexeme_of_def mk_token_simps fst_conv snd_conv u by simp
  have sg: "spelled Tok_Glue []" by (simp add: spelled_def)
  have "laid (p + i) (p + j) ts \<and> (\<forall>t \<in> set ts. tk_kind t \<noteq> Tok_Eof \<and> token_ok starts s p t) \<and>
      (es = [] \<longrightarrow> (\<exists>t \<in> set ts. tk_start t = p + i \<and> tk_stop t = p + j))"
    using scan step
  proof (cases rule: lex_step_cases)
    case (token glue raw k)
    then show ?thesis
      using spelled_nonempty [OF token(6) ne] ij(1) lx [of k] lg [of Tok_Glue] sg u
      by (auto simp: token_ok_def simp del: of_nat_add)
  next
    case (refused glue raw)
    then show ?thesis
      using ij(1) lg [of Tok_Glue] sg u by (auto simp: token_ok_def simp del: of_nat_add)
  next
    case separator
    then show ?thesis
      using ij(1) lx [of Tok_Separator] u by (auto simp: token_ok_def simp del: of_nat_add)
  qed (use ij in simp)
  then show "laid (p + i) (p + j) ts" "\<forall>t \<in> set ts. tk_kind t \<noteq> Tok_Eof \<and> token_ok starts s p t"
    "es = [] \<Longrightarrow> \<exists>t \<in> set ts. tk_start t = p + i \<and> tk_stop t = p + j" by blast+
qed

lemma token_ok_drop:
  assumes "token_ok starts (drop j s) (p + j) t"
  shows "token_ok starts s p t"
proof -
  have "p + j \<le> tk_start t" using assms by (simp add: token_ok_def)
  then have "lexeme_of (drop j s) (p + j) t = lexeme_of s p t"
    by (auto simp: lexeme_of_def drop_take add.commute)
  with assms show ?thesis by (simp add: token_ok_def)
qed

text \<open>The tokens of a lexing: in order up to the end marker, each spelled by its text.\<close>

lemma lexes_laid:
  assumes scan: "longest_match scan"
  shows "lexes scan starts s p q toks errs \<Longrightarrow> p + length s < 2 ^ 32 \<Longrightarrow>
    laid p (p + length s) toks \<and> (\<forall>t \<in> set toks. token_ok starts s p t) \<and>
    (\<exists>front. toks = front @ [eof_token starts (p + length s)] \<and> (\<forall>t \<in> set front. tk_kind t \<noteq> Tok_Eof))"
proof (induction rule: lexes.induct)
  case (lexes_end s p q)
  then show ?case
    by (auto simp: eof_token_def token_ok_def spelled_def lexeme_of_def unat_of_nat_small
        simp del: of_nat_add)
next
  case (lexes_next s result i j p q ts es q' toks errs)
  note ij = longest_Some(2,3) [OF scan lexes_next.hyps(1)]
  note st = lex_step_tokens [OF scan lexes_next.hyps(1,2) lexes_next.prems]
  have e: "p + j + length (drop j s) = p + length s" using ij(2) by simp
  note IH = lexes_next.IH [unfolded e, OF lexes_next.prems]
  have "laid (p + i) (p + length s) (ts @ toks)" using st(1) IH laid_append by metis
  then have "laid p (p + length s) (ts @ toks)" by (rule laid_mono) simp
  moreover have "\<forall>t \<in> set (ts @ toks). token_ok starts s p t" using st(2) IH token_ok_drop by auto
  moreover obtain front where "toks = front @ [eof_token starts (p + length s)]"
    "\<forall>t \<in> set front. tk_kind t \<noteq> Tok_Eof" using IH by blast
  ultimately show ?case using st(2) by (intro conjI exI [of _ "ts @ front"]) auto
qed

text \<open>Without a diagnostic, what no token covers is blank.\<close>

lemma lexes_cover:
  assumes scan: "longest_match scan"
  shows "lexes scan starts s p q toks errs \<Longrightarrow> p + length s < 2 ^ 32 \<Longrightarrow> errs = [] \<Longrightarrow> k < length s \<Longrightarrow>
    is_blank (s ! k) \<or> (\<exists>t \<in> set toks. tk_start t \<le> p + k \<and> p + k < tk_stop t)"
proof (induction arbitrary: k rule: lexes.induct)
  case (lexes_end s p q)
  then show ?case using longest_None [OF scan] by (simp add: list_all_length)
next
  case (lexes_next s result i j p q ts es q' toks errs)
  note ij = longest_Some(1,2,3) [OF scan lexes_next.hyps(1)]
  show ?case
  proof (cases "k < i")
    case True
    then have "is_blank (takeWhile is_blank s ! k)" unfolding ij(1) by (metis nth_mem set_takeWhileD)
    with True show ?thesis unfolding ij(1) by (simp add: takeWhile_nth)
  next
    case i: False
    show ?thesis
    proof (cases "k < j")
      case True
      have "es = []" using lexes_next.prems(2) by simp
      then obtain t where "t \<in> set ts" "tk_start t = p + i" "tk_stop t = p + j"
        using lex_step_tokens(3) [OF scan lexes_next.hyps(1,2) lexes_next.prems(1)] by blast
      with True i show ?thesis by (intro disjI2 bexI [of _ t]) auto
    next
      case False
      then have "is_blank (drop j s ! (k - j)) \<or>
          (\<exists>t \<in> set toks. tk_start t \<le> p + j + (k - j) \<and> p + j + (k - j) < tk_stop t)"
        using lexes_next.prems ij(3) by (intro lexes_next.IH) auto
      with False ij(3) lexes_next.prems(3) show ?thesis by auto
    qed
  qed
qed

section \<open>Glue\<close>

text \<open>The byte end of the last real token, after one more token.\<close>

definition prev_after :: "u32 option \<Rightarrow> token \<Rightarrow> u32 option" where
  "prev_after q t =
     (case tk_kind t of Tok_Glue \<Rightarrow> q | Tok_Separator \<Rightarrow> None | _ \<Rightarrow> Some (snd (tk_range t)))"

definition postfix_kind :: "token_kind \<Rightarrow> bool" where
  "postfix_kind k \<longleftrightarrow> k = Tok_LParen \<or> k = Tok_LBracket \<or> k = Tok_LBrace"

lemma prev_after_real:
  "tk_kind t \<noteq> Tok_Glue \<Longrightarrow> tk_kind t \<noteq> Tok_Separator \<Longrightarrow> prev_after q t = Some (snd (tk_range t))"
  by (auto simp: prev_after_def split: token_kind.splits)

lemma prev_after_simps [simp]:
  "tk_kind t = Tok_Glue \<Longrightarrow> prev_after q t = q" "tk_kind t = Tok_Separator \<Longrightarrow> prev_after q t = None"
  by (simp_all add: prev_after_def)

lemma name_kind_plain:
  "\<not> postfix_kind (name_kind s)" "name_kind s \<noteq> Tok_Glue" "name_kind s \<noteq> Tok_Separator"
  by (simp_all add: name_kind_def postfix_kind_def)

lemma at_kind_plain:
  assumes "at_kind s lc = (Some k, es)"
  shows "\<not> postfix_kind k \<and> k \<noteq> Tok_Glue \<and> k \<noteq> Tok_Separator"
  using assms by (auto simp: at_kind_def postfix_kind_def split: if_splits)

lemma raw_to_kind_plain:
  assumes "raw_to_kind raw lexeme lc = (Some k, es)" "raw \<noteq> Raw_Separator"
  shows "k \<noteq> Tok_Glue \<and> k \<noteq> Tok_Separator \<and> (postfix_kind k \<longleftrightarrow> is_postfix_delim raw)"
proof (cases "raw = Raw_AtNameLit \<or> raw = Raw_NameLit")
  case True
  then show ?thesis
    using assms name_kind_plain at_kind_plain [of "tl lexeme" lc k es] by (auto simp: is_postfix_delim_def)
next
  case False
  with assms show ?thesis
    by (cases raw) (auto simp: is_postfix_delim_def postfix_kind_def split: option.splits if_splits)
qed

lemma lex_step_prev:
  assumes scan: "longest_match scan" "scan s = Some (result, i, j)"
    and step: "lex_step starts result (drop i (take j s)) start stop q = (ts, [], q')"
  obtains t where "ts = [t]" "tk_kind t \<noteq> Tok_Glue" "tk_range t = (start, stop)" "q' = prev_after q t"
      "\<not> (postfix_kind (tk_kind t) \<and> q = Some start)"
  | g t where "ts = [g, t]" "tk_kind g = Tok_Glue" "tk_range g = (start, start)" "q = Some start"
      "postfix_kind (tk_kind t)" "tk_range t = (start, stop)" "q' = Some stop"
proof -
  note one = that(1) and two = that(2)
  have thesis if "result \<noteq> None"
    using scan step
  proof (cases rule: lex_step_cases)
    case separator
    then show ?thesis by (intro one [OF separator(4)]) (simp_all add: postfix_kind_def)
  next
    case (token glue raw k)
    note p = raw_to_kind_plain [OF token(7,2)]
    show ?thesis
    proof (cases "is_postfix_delim raw \<and> q = Some start")
      case True
      then show ?thesis using token p by (intro two) auto
    next
      case False
      then show ?thesis using token p prev_after_real by (intro one) auto
    qed
  qed (use that in auto)
  moreover have "result \<noteq> None" using step by (cases result) (simp_all add: lex_step_def Let_def)
  ultimately show thesis by blast
qed

text \<open>A lexing without diagnostics, with its steps.\<close>

lemma lexes_clean_induct [consumes 2, case_names finish token glue]:
  assumes scan: "longest_match scan"
    and l: "lexes scan starts s p q toks []"
    and e: "\<And>s p q. scan s = None \<Longrightarrow> P s p q [eof_token starts (p + length s)]"
    and t: "\<And>s p q result i j t toks. scan s = Some (result, i, j) \<Longrightarrow>
      lex_step starts result (drop i (take j s)) (of_nat (p + i)) (of_nat (p + j)) q =
        ([t], [], prev_after q t) \<Longrightarrow>
      tk_kind t \<noteq> Tok_Glue \<Longrightarrow> tk_range t = (of_nat (p + i), of_nat (p + j)) \<Longrightarrow>
      \<not> (postfix_kind (tk_kind t) \<and> q = Some (of_nat (p + i))) \<Longrightarrow>
      lexes scan starts (drop j s) (p + j) (prev_after q t) toks [] \<Longrightarrow>
      P (drop j s) (p + j) (prev_after q t) toks \<Longrightarrow> P s p q (t # toks)"
    and g: "\<And>s p q result i j g t toks. scan s = Some (result, i, j) \<Longrightarrow>
      lex_step starts result (drop i (take j s)) (of_nat (p + i)) (of_nat (p + j)) q =
        ([g, t], [], Some (of_nat (p + j))) \<Longrightarrow>
      tk_kind g = Tok_Glue \<Longrightarrow> tk_range g = (of_nat (p + i), of_nat (p + i)) \<Longrightarrow>
      q = Some (of_nat (p + i)) \<Longrightarrow>
      postfix_kind (tk_kind t) \<Longrightarrow> tk_range t = (of_nat (p + i), of_nat (p + j)) \<Longrightarrow>
      lexes scan starts (drop j s) (p + j) (Some (of_nat (p + j))) toks [] \<Longrightarrow>
      P (drop j s) (p + j) (Some (of_nat (p + j))) toks \<Longrightarrow> P s p q (g # t # toks)"
  shows "P s p q toks"
proof -
  have "errs = [] \<longrightarrow> P s p q toks" if "lexes scan starts s p q toks errs" for s p q toks errs
    using that
  proof (induction rule: lexes.induct)
    case (lexes_end s p q)
    then show ?case using e by simp
  next
    case (lexes_next s result i j p q ts es q' toks errs)
    show ?case
    proof
      assume "es @ errs = []"
      then have es: "es = []" "errs = []" by simp_all
      have P: "P (drop j s) (p + j) q' toks" using lexes_next.IH es by simp
      have l: "lexes scan starts (drop j s) (p + j) q' toks []" using lexes_next.hyps(3) es by simp
      note st = lexes_next.hyps(2) [unfolded es]
      from scan lexes_next.hyps(1) st show "P s p q (ts @ toks)"
      proof (cases rule: lex_step_prev)
        case (1 t)
        show ?thesis
          using t [OF lexes_next.hyps(1) st [unfolded 1(1,4)] 1(2,3,5)] l P by (simp add: 1(1,4))
      next
        case (2 g t)
        show ?thesis
          using g [OF lexes_next.hyps(1) st [unfolded 2(1,7)] 2(2,3,4,5,6)] l P by (simp add: 2(1,7))
      qed
    qed
  qed
  with l show ?thesis by blast
qed

text \<open>Neighbours: what follows a glue marker, and what a touching delimiter follows.\<close>

definition neighbours :: "u32 option \<Rightarrow> token list \<Rightarrow> bool" where
  "neighbours q toks \<longleftrightarrow> (\<forall>us u vs. toks = us @ u # vs \<longrightarrow>
     (postfix_kind (tk_kind u) \<and> foldl prev_after q us = Some (fst (tk_range u)) \<longrightarrow>
       us \<noteq> [] \<and> tk_kind (last us) = Tok_Glue) \<and>
     (tk_kind u = Tok_Glue \<longrightarrow> foldl prev_after q us = Some (fst (tk_range u)) \<and>
       (\<exists>v ws. vs = v # ws \<and> postfix_kind (tk_kind v) \<and> tk_range u = (fst (tk_range v), fst (tk_range v)))))"

lemma neighbours_Cons:
  assumes "neighbours (prev_after q t) toks" "tk_kind t \<noteq> Tok_Glue"
    "\<not> (postfix_kind (tk_kind t) \<and> q = Some (fst (tk_range t)))"
  shows "neighbours q (t # toks)"
  unfolding neighbours_def
proof (intro allI impI)
  fix us u vs
  assume e: "t # toks = us @ u # vs"
  show "(postfix_kind (tk_kind u) \<and> foldl prev_after q us = Some (fst (tk_range u)) \<longrightarrow>
       us \<noteq> [] \<and> tk_kind (last us) = Tok_Glue) \<and>
     (tk_kind u = Tok_Glue \<longrightarrow> foldl prev_after q us = Some (fst (tk_range u)) \<and>
       (\<exists>v ws. vs = v # ws \<and> postfix_kind (tk_kind v) \<and> tk_range u = (fst (tk_range v), fst (tk_range v))))"
  proof (cases us)
    case Nil
    with e assms(2,3) show ?thesis by auto
  next
    case (Cons x us')
    with e have x: "x = t" "toks = us' @ u # vs" by simp_all
    have n: "postfix_kind (tk_kind u) \<and> foldl prev_after (prev_after q t) us' = Some (fst (tk_range u)) \<longrightarrow>
        us' \<noteq> [] \<and> tk_kind (last us') = Tok_Glue"
      "tk_kind u = Tok_Glue \<longrightarrow> foldl prev_after (prev_after q t) us' = Some (fst (tk_range u)) \<and>
       (\<exists>v ws. vs = v # ws \<and> postfix_kind (tk_kind v) \<and> tk_range u = (fst (tk_range v), fst (tk_range v)))"
      using assms(1) x(2) unfolding neighbours_def by blast+
    then show ?thesis unfolding Cons x(1) by auto
  qed
qed

lemma neighbours_glue:
  assumes "neighbours (Some (snd (tk_range t))) toks" "tk_kind g = Tok_Glue" "postfix_kind (tk_kind t)"
    "q = Some (fst (tk_range t))" "tk_range g = (fst (tk_range t), fst (tk_range t))"
  shows "neighbours q (g # t # toks)"
  unfolding neighbours_def
proof (intro allI impI)
  fix us u vs
  assume e: "g # t # toks = us @ u # vs"
  have t: "prev_after q t = Some (snd (tk_range t))"
    using assms(3) by (intro prev_after_real) (auto simp: postfix_kind_def)
  show "(postfix_kind (tk_kind u) \<and> foldl prev_after q us = Some (fst (tk_range u)) \<longrightarrow>
       us \<noteq> [] \<and> tk_kind (last us) = Tok_Glue) \<and>
     (tk_kind u = Tok_Glue \<longrightarrow> foldl prev_after q us = Some (fst (tk_range u)) \<and>
       (\<exists>v ws. vs = v # ws \<and> postfix_kind (tk_kind v) \<and> tk_range u = (fst (tk_range v), fst (tk_range v))))"
  proof (cases us)
    case Nil
    with e assms show ?thesis by (auto simp: postfix_kind_def)
  next
    case (Cons x us')
    show ?thesis
    proof (cases us')
      case Nil
      with e Cons assms show ?thesis by (auto simp: postfix_kind_def)
    next
      case (Cons y us'')
      with e \<open>us = x # us'\<close> have x: "x = g" "y = t" "toks = us'' @ u # vs" by simp_all
      have n: "postfix_kind (tk_kind u) \<and> foldl prev_after (prev_after q t) us'' = Some (fst (tk_range u)) \<longrightarrow>
          us'' \<noteq> [] \<and> tk_kind (last us'') = Tok_Glue"
        "tk_kind u = Tok_Glue \<longrightarrow> foldl prev_after (prev_after q t) us'' = Some (fst (tk_range u)) \<and>
         (\<exists>v ws. vs = v # ws \<and> postfix_kind (tk_kind v) \<and> tk_range u = (fst (tk_range v), fst (tk_range v)))"
        using assms(1) x(3) unfolding neighbours_def t by blast+
      then show ?thesis unfolding \<open>us = x # us'\<close> Cons x(1,2) using assms(2) by auto
    qed
  qed
qed

lemma lexes_neighbours:
  assumes "longest_match scan" "lexes scan starts s p q toks []"
  shows "neighbours q toks"
  using assms
proof (induction rule: lexes_clean_induct)
  case (finish s p q)
  show ?case by (auto simp: neighbours_def eof_token_def postfix_kind_def Cons_eq_append_conv)
next
  case (token s p q result i j t toks)
  then show ?case by (intro neighbours_Cons) auto
next
  case (glue s p q result i j g t toks)
  then show ?case by (intro neighbours_glue) auto
qed

end
