(* ===== verification/Lex_Local.thy ===== *)
theory Lex_Local
  imports Lexer_Correct
begin

text \<open>
  How far the lexer looks: a token the scanner answers depends on its own bytes and the one after
  it, an integer before a dot on two. A lexing moves with its text, and blanks before a text change
  nothing. Scanners differ at most in which of several patterns they name for a text, and never in
  the token the lexer makes of it.
\<close>

section \<open>One text, one token\<close>

lemma raw_matches_cases:
  assumes "raw_matches raw w"
  obtains (literal) "raw_text raw = Some w"
  | (separator) "raw = Raw_Separator" "w = [newline] \<or> w = '','' \<or> w = '';''"
  | (int) "raw = Raw_IntLit" "is_digits w"
  | (float) fraction where "raw = Raw_FloatLit" "is_digits (takeWhile is_digit w)"
      "dropWhile is_digit w = CHR ''.'' # fraction" "is_digits fraction"
  | (str) body where "raw = Raw_StrLit" "w = quote_mark # body" "quote_mark \<notin> set body \<or>
              body \<noteq> [] \<and> last body = quote_mark \<and> quote_mark \<notin> set (butlast body)"
  | (at_name) name where "raw = Raw_AtNameLit" "w = CHR ''@'' # name" "is_name name"
  | (name) "raw = Raw_NameLit" "is_name w"
  using assms by (cases raw) (auto simp: raw_matches_def split: list.splits)

lemmas chars = byte_of_def newline_def quote_mark_def is_digit_def name_start_def name_part_def

lemma raw_text_distinct: "distinct (map raw_text (filter (\<lambda>raw. raw_text raw \<noteq> None) raw_tokens))"
  by code_simp

lemma raw_text_inj: "raw_text raw = Some w \<Longrightarrow> raw_text raw' = Some w \<Longrightarrow> raw = raw'"
proof -
  assume r: "raw_text raw = Some w" "raw_text raw' = Some w"
  then have "raw \<in> set (filter (\<lambda>raw. raw_text raw \<noteq> None) raw_tokens)"
    "raw' \<in> set (filter (\<lambda>raw. raw_text raw \<noteq> None) raw_tokens)"
    by (simp_all add: raw_tokens_all)
  with r raw_text_distinct show "raw = raw'" unfolding distinct_map by (metis inj_onD)
qed

text \<open>The class of a text: what its first byte already decides.\<close>

definition text_class :: "string \<Rightarrow> nat" where
  "text_class w =
     (if w = [] then 0 else let c = hd w in
      if c = newline \<or> c = CHR '','' \<or> c = CHR '';'' then 1
      else if is_digit c then (if list_all is_digit w then 2 else 3)
      else if c = quote_mark then 4 else if c = CHR ''@'' then 5
      else if name_start c then 6 else 7)"

definition literal_ok :: "raw_token \<Rightarrow> bool" where
  "literal_ok raw =
     (case raw_text raw of
        None \<Rightarrow> True
      | Some w \<Rightarrow> w \<noteq> [] \<and> \<not> continuation (hd w) \<and>
          (text_class w = 7 \<or> text_class w = 6 \<and> is_name w \<and>
            raw_to_kind raw w (0, 0) = (Some (name_kind w), [])))"

lemma literals_ok: "list_all literal_ok raw_tokens"
  by code_simp

lemma literal_class:
  assumes "raw_text raw = Some w"
  shows "text_class w = 7 \<or> text_class w = 6 \<and> is_name w \<and> raw_to_kind raw w lc = (Some (name_kind w), [])"
    "w \<noteq> []" "\<not> continuation (hd w)"
proof -
  have "literal_ok raw" using literals_ok raw_tokens_all by (simp add: list_all_iff)
  moreover have "raw_to_kind raw w lc = raw_to_kind raw w (0, 0)" using assms by (cases raw) simp_all
  ultimately show "text_class w = 7 \<or>
      text_class w = 6 \<and> is_name w \<and> raw_to_kind raw w lc = (Some (name_kind w), [])"
    "w \<noteq> []" "\<not> continuation (hd w)"
    using assms by (simp_all add: literal_ok_def)
qed

lemma not_chars:
  "is_digit c \<Longrightarrow> c \<noteq> newline \<and> c \<noteq> CHR '','' \<and> c \<noteq> CHR '';'' \<and> c \<noteq> quote_mark \<and> c \<noteq> CHR ''@'' \<and>
    c \<noteq> CHR ''.'' \<and> \<not> continuation c \<and> \<not> is_blank c"
  "name_start c \<Longrightarrow> c \<noteq> newline \<and> c \<noteq> CHR '','' \<and> c \<noteq> CHR '';'' \<and> c \<noteq> quote_mark \<and> c \<noteq> CHR ''@'' \<and>
    c \<noteq> CHR ''.'' \<and> \<not> continuation c \<and> \<not> is_digit c \<and> \<not> is_blank c"
  by (auto simp: chars continuation_def is_blank_def)

lemma special_chars:
  "quote_mark \<noteq> newline" "quote_mark \<noteq> CHR '',''" "quote_mark \<noteq> CHR '';''" "\<not> is_digit quote_mark"
  "\<not> is_digit (CHR ''@'')" "CHR ''@'' \<noteq> newline" "CHR ''@'' \<noteq> quote_mark" "\<not> is_digit (CHR ''.'')"
  "\<not> continuation quote_mark" "\<not> continuation (CHR ''@'')" "\<not> continuation newline"
  "\<not> continuation (CHR '','')" "\<not> continuation (CHR '';'')"
  by (simp_all add: chars continuation_def)

lemma match_class:
  assumes "raw_matches raw w"
  shows "w \<noteq> [] \<and> \<not> continuation (hd w) \<and>
    (text_class w = 1 \<and> raw = Raw_Separator \<or> text_class w = 2 \<and> raw = Raw_IntLit \<or>
     text_class w = 3 \<and> raw = Raw_FloatLit \<or> text_class w = 4 \<and> raw = Raw_StrLit \<or>
     text_class w = 5 \<and> raw = Raw_AtNameLit \<or>
     text_class w = 6 \<and> raw \<noteq> Raw_Separator \<and> (\<forall>lc. raw_to_kind raw w lc = (Some (name_kind w), [])) \<or>
     text_class w = 7 \<and> raw_text raw = Some w)"
  using assms
proof (cases rule: raw_matches_cases)
  case literal
  then have "raw \<noteq> Raw_Separator" by auto
  with literal_class [OF literal] literal show ?thesis by blast
next
  case separator
  then show ?thesis using special_chars by (auto simp: text_class_def)
next
  case int
  then obtain c w' where w: "w = c # w'" "is_digit c" by (cases w) (auto simp: is_digits_def)
  with int not_chars(1) [OF w(2)] show ?thesis by (simp add: text_class_def is_digits_def)
next
  case (float fraction)
  then obtain c w' where w: "w = c # w'" "is_digit c"
    by (cases w) (auto simp: is_digits_def split: if_splits)
  have "\<not> list_all is_digit w" using float(3) by (metis dropWhile_eq_Nil_conv list.distinct(1) list_all_iff)
  with w float(1) not_chars(1) [OF w(2)] show ?thesis by (simp add: text_class_def)
next
  case (str body)
  then show ?thesis using special_chars by (simp add: text_class_def)
next
  case (at_name name)
  then show ?thesis using special_chars by (simp add: text_class_def)
next
  case name
  then obtain c w' where w: "w = c # w'" "name_start c" by (cases w) (auto simp: is_name_def)
  with name not_chars(2) [OF w(2)] show ?thesis by (simp add: text_class_def)
qed

text \<open>Two patterns that match one text make one token of it.\<close>

lemma lex_step_text:
  assumes "raw_matches raw w" "raw_matches raw' w"
  shows "lex_step starts (Some raw') w start stop q = lex_step starts (Some raw) w start stop q"
proof (cases "raw' = raw")
  case False
  then have c: "raw \<noteq> Raw_Separator" "raw' \<noteq> Raw_Separator"
    "\<forall>lc. raw_to_kind raw w lc = (Some (name_kind w), [])"
    "\<forall>lc. raw_to_kind raw' w lc = (Some (name_kind w), [])"
    using match_class [OF assms(1)] match_class [OF assms(2)] raw_text_inj [of raw w raw'] by auto
  then have "\<not> is_postfix_delim raw" "\<not> is_postfix_delim raw'"
    using raw_to_kind_plain [of raw w _ "name_kind w" "[]"] raw_to_kind_plain [of raw' w _ "name_kind w" "[]"]
      name_kind_plain by blast+
  moreover have "raw_to_kind raw w lc = (Some (name_kind w), [])"
    "raw_to_kind raw' w lc = (Some (name_kind w), [])" for lc using c by blast+
  ultimately show ?thesis using c(1,2) by (simp add: lex_step_def Let_def)
qed simp

lemmas raw_matches_first = match_class [THEN conjunct1] match_class [THEN conjunct2, THEN conjunct1]

section \<open>How far a pattern looks\<close>

lemma is_name_take: "is_name w \<Longrightarrow> 0 < k \<Longrightarrow> is_name (take k w)"
  by (cases w; cases k) (auto simp: is_name_def list_all_iff dest: in_set_takeD)

lemma is_digits_take: "is_digits w \<Longrightarrow> 0 < k \<Longrightarrow> is_digits (take k w)"
  by (cases w; cases k) (auto simp: is_digits_def list_all_iff dest: in_set_takeD)

definition symbols :: "string list" where
  "symbols = [''=>'', ''==>'', ''<=='', '':='', ''<:'', ''=='', ''!='', ''<='', ''>='']"

lemma raw_text_shape:
  assumes "raw_text raw = Some w"
  shows "is_name w \<or> length w = 1 \<or> w \<in> set symbols"
proof -
  have "list_all (\<lambda>raw. case raw_text raw of None \<Rightarrow> True
    | Some w \<Rightarrow> is_name w \<or> length w = 1 \<or> w \<in> set symbols) raw_tokens"
    by code_simp
  then show ?thesis using assms raw_tokens_all [of raw] by (auto simp: list_all_iff)
qed

lemma prefix_of_symbol:
  assumes "w \<in> set symbols" "0 < k" "k < length w"
  shows "\<exists>raw. raw_matches raw (take k w)"
proof -
  have "list_all (\<lambda>w. list_all (\<lambda>k. list_ex (\<lambda>raw. raw_text raw = Some (take k w)) raw_tokens)
      [1..<length w]) symbols"
    by code_simp
  moreover have "k \<in> set [1..<length w]" using assms(2,3) by simp
  ultimately obtain raw where r: "raw_text raw = Some (take k w)"
    using assms(1) unfolding list_all_iff list_ex_iff by blast
  moreover have "raw \<notin> {Raw_Separator, Raw_IntLit, Raw_FloatLit, Raw_StrLit, Raw_AtNameLit, Raw_NameLit}"
    using r by auto
  ultimately have "raw_matches raw (take k w)" by (cases raw) (simp_all add: raw_matches_def)
  then show ?thesis by blast
qed

text \<open>
  The first bytes of a match are a match, but for the number before a fraction with its dot alone and
  the sigil alone.
\<close>

lemma prefix_matches:
  assumes "raw_matches raw w" "0 < k" "k \<le> length w"
  shows "(\<exists>raw. raw_matches raw (take k w)) \<or>
    raw = Raw_FloatLit \<and> k = Suc (length (takeWhile is_digit w)) \<or> raw = Raw_AtNameLit \<and> k = 1"
  using assms(1)
proof (cases rule: raw_matches_cases)
  case literal
  from raw_text_shape [OF this] show ?thesis
  proof (elim disjE)
    assume "is_name w"
    with assms(2) have "raw_matches Raw_NameLit (take k w)" by (simp add: raw_matches_def is_name_take)
    then show ?thesis by blast
  next
    assume "length w = 1"
    then have "take k w = w" using assms(2) by simp
    then show ?thesis using assms(1) by auto
  next
    assume "w \<in> set symbols"
    then show ?thesis
      using prefix_of_symbol [of w k] assms by (cases "k = length w") auto
  qed
next
  case separator
  then have "take k w = w" using assms(2,3) by auto
  then show ?thesis using assms(1) by auto
next
  case int
  then have "raw_matches Raw_IntLit (take k w)"
    using assms(2) by (simp add: raw_matches_def is_digits_take)
  then show ?thesis by blast
next
  case (float fraction)
  let ?ds = "takeWhile is_digit w"
  have w: "w = ?ds @ CHR ''.'' # fraction" using float(3) by (metis takeWhile_dropWhile_id)
  consider "k \<le> length ?ds" | "k = Suc (length ?ds)"
    | "k = length ?ds + Suc (k - length ?ds - 1)" "0 < k - length ?ds - 1"
    by linarith
  then show ?thesis
  proof cases
    case 1
    then have "take k w = take k ?ds" by (subst w) simp
    then have "raw_matches Raw_IntLit (take k w)"
      using float(2) assms(2) by (simp add: raw_matches_def is_digits_take)
    then show ?thesis by blast
  next
    case 3
    let ?l = "k - length ?ds - 1"
    have all: "\<forall>c \<in> set ?ds. is_digit c" by (metis set_takeWhileD)
    have "take k w = ?ds @ CHR ''.'' # take ?l fraction" by (subst 3(1), subst w) simp
    then have "takeWhile is_digit (take k w) = ?ds \<and> dropWhile is_digit (take k w) = CHR ''.'' # take ?l fraction"
      using special_chars(8) all by (simp add: takeWhile_append2 dropWhile_append2)
    then have "raw_matches Raw_FloatLit (take k w)"
      using float(2,4) 3(2) by (simp add: raw_matches_def is_digits_take)
    then show ?thesis by blast
  qed (use float(1) in simp)
next
  case (str body)
  have "raw_matches Raw_StrLit (take k w)"
  proof (cases "k = length w")
    case True
    with str(1) assms(1) show ?thesis by simp
  next
    case False
    then obtain l where l: "k = Suc l" "l < length body" using assms(2,3) str(2) by (cases k) auto
    then have "set (take l body) \<subseteq> set (butlast body)"
      by (metis butlast_conv_take diff_Suc_1 diff_is_0_eq less_Suc_eq_le Suc_leI set_take_subset_set_take
          One_nat_def Suc_pred' gr_implies_not0 gr0I)
    moreover have "set (butlast body) \<subseteq> set body" by (auto dest: in_set_butlastD)
    ultimately show ?thesis using str l by (auto simp: raw_matches_def)
  qed
  then show ?thesis by blast
next
  case (at_name name)
  then show ?thesis
  proof (cases "k = 1")
    case False
    then obtain l where "k = Suc l" "0 < l" using assms(2) by (cases k) auto
    then have "raw_matches Raw_AtNameLit (take k w)"
      using at_name by (simp add: raw_matches_def is_name_take)
    then show ?thesis by blast
  qed simp
next
  case name
  then have "raw_matches Raw_NameLit (take k w)" using assms(2) by (simp add: raw_matches_def is_name_take)
  then show ?thesis by blast
qed

section \<open>What an answer of the scanner depends on\<close>

text \<open>A text that ends in a digit and a dot: the next byte decides whether they are one number.\<close>

definition ends_int_dot :: "string \<Rightarrow> bool" where
  "ends_int_dot u \<longleftrightarrow> 2 \<le> length u \<and> is_digit (u ! (length u - 2)) \<and> last u = CHR ''.''"

lemma ends_int_dot_drop: "ends_int_dot (drop j u) \<Longrightarrow> ends_int_dot u"
  by (auto simp: ends_int_dot_def last_drop)

lemma blanks_prefix:
  assumes "length (takeWhile is_blank (u @ v)) < length u"
  shows "length (takeWhile is_blank (u @ v')) = length (takeWhile is_blank (u @ v))"
    "\<not> list_all is_blank (u @ v')"
  using assms by (auto simp: takeWhile_append list_all_iff split: if_splits)

lemma scan_Some:
  assumes "longest_match scan" "\<not> list_all is_blank s"
  obtains result j where "scan s = Some (result, length (takeWhile is_blank s), j)"
proof (cases "scan s")
  case None
  with longest_None [OF assms(1)] assms(2) show ?thesis by blast
next
  case (Some a)
  then obtain result i j where s: "scan s = Some (result, i, j)" by (cases a) auto
  with longest_Some(1) [OF assms(1) s] that show ?thesis by metis
qed

text \<open>The token before the last byte but one of a common prefix is the same after it.\<close>

lemma scan_prefix:
  assumes scan: "longest_match scan" and s: "scan (u @ v) = Some (Some raw, i, j)"
    and j: "j < length u" and dot: "\<not> ends_int_dot u"
  obtains raw' where "scan (u @ v') = Some (Some raw', i, j)"
    "raw_matches raw' (drop i (take j (u @ v')))" "drop i (take j (u @ v')) = drop i (take j (u @ v))"
proof -
  note l = longest_Some [OF scan s]
  have m: "raw_matches raw (drop i (take j u))" using l(4) [OF refl] j by simp
  have i: "length (takeWhile is_blank (u @ v)) < length u" using l(1,2) j by simp
  note b = blanks_prefix [OF i, where v' = v']
  obtain result j' where s': "scan (u @ v') = Some (result, i, j')"
    using scan_Some [OF scan b(2)] unfolding b(1) l(1) [symmetric] by metis
  note l' = longest_Some [OF scan s']
  have m': "raw_matches raw (drop i (take j (u @ v')))" "j \<le> length (u @ v')" using m j by simp_all
  obtain raw' where r: "result = Some raw'" using l'(6) [OF _ l(2) m'(2)] m'(1) by (cases result) auto
  have "j \<le> j'" using l'(5) [OF _ l(2) m'(2,1)] r by simp
  moreover have "\<not> j < j'"
  proof
    assume jj: "j < j'"
    let ?w = "drop i (take j' (u @ v'))"
    have w: "raw_matches raw' ?w" using l'(4) r by simp
    have cut: "take (k - i) ?w = drop i (take k u)" if "j \<le> k" "k \<le> j'" "k \<le> length u" for k
      using that l(2) by (simp add: drop_take min_def)
    have none: "\<not> raw_matches r (drop i (take k u))" if "j < k" "k \<le> length u" for r k
      using l(5) [of k r] l(2) that by auto
    have k: "0 < Suc j - i" "Suc j - i \<le> length ?w" using l(2) l'(3) jj by auto
    from prefix_matches [OF w k] show False
    proof (elim disjE exE conjE)
      fix r
      assume "raw_matches r (take (Suc j - i) ?w)"
      then show False using none [of "Suc j" r] j jj by (subst (asm) cut) auto
    next
      assume "raw' = Raw_AtNameLit" "Suc j - i = 1"
      then show False using l(2) by simp
    next
      assume f: "raw' = Raw_FloatLit" "Suc j - i = Suc (length (takeWhile is_digit ?w))"
      let ?ds = "takeWhile is_digit ?w"
      obtain fraction where fr: "is_digits ?ds" "dropWhile is_digit ?w = CHR ''.'' # fraction"
        "is_digits fraction"
        using w f(1) by (cases rule: raw_matches_cases) auto
      have weq: "?w = ?ds @ CHR ''.'' # fraction" using fr(2) by (metis takeWhile_dropWhile_id)
      have ds: "length ?ds = j - i" "0 < j - i" using f(2) l(2) by auto
      have last_ds: "is_digit (?w ! (j - i - 1))"
        using ds by (metis diff_less nth_mem set_takeWhileD takeWhile_nth zero_less_one)
      have dot_at: "?w ! (j - i) = CHR ''.''" using weq ds(1) by (metis nth_append_length)
      have at: "?w ! (k - i) = u ! k" if "i \<le> k" "k < length u" "k < j'" for k
        using that l'(3) by (subst nth_drop) (auto simp: nth_append)
      show False
      proof (cases "j + 1 < length u")
        case True
        have len: "length ?w = j' - i" unfolding length_drop length_take using l'(3) by linarith
        have "fraction \<noteq> []" using fr(3) by (simp add: is_digits_def)
        then have lw: "j - i + 2 \<le> length ?w" using weq ds(1)
          by (metis One_nat_def Suc_leI add_le_cancel_left length_Cons length_append length_greater_0_conv
            add_Suc_right numeral_2_eq_2 plus_1_eq_Suc Suc_le_mono)
        have k2: "0 < j + 2 - i" "j + 2 - i \<le> length ?w" using l(2) lw by linarith+
        have jj': "j \<le> j + 2" "j + 2 \<le> j'" "j + 2 \<le> length u" "j < j + 2"
          using True lw l(2) unfolding len by linarith+
        have "raw_matches r (take (j + 2 - i) ?w) \<Longrightarrow> False" for r
          using none [OF jj'(4,3)] unfolding cut [OF jj'(1-3)] by blast
        moreover have "j + 2 - i \<noteq> Suc (length ?ds)" using ds l(2) by simp
        ultimately show False using prefix_matches [OF w k2] f(1) by auto
      next
        case False
        then have u: "length u = j + 1" using j by simp
        have "i \<le> j - 1" "j - 1 < j'" using ds(2) jj by auto
        then have "is_digit (u ! (j - 1))" using last_ds at [of "j - 1"] u ds(2)
          by (metis diff_commute diff_less less_add_one less_trans zero_less_one l(2) gr_implies_not0 gr0I
            less_imp_diff_less)
        moreover have "u ! j = CHR ''.''" using dot_at at [of j] l(2) jj u by simp
        moreover have "u \<noteq> []" using u by auto
        ultimately have "ends_int_dot u"
          using u l(2) by (auto simp: ends_int_dot_def last_conv_nth)
        with dot show False by simp
      qed
    qed
  qed
  ultimately have "j' = j" by simp
  then show thesis using that [of raw'] s' r l'(4) j by simp
qed

text \<open>The same text after different blanks makes the same token.\<close>

lemma scan_same:
  assumes scan: "longest_match scan" and s: "scan s = Some (result, i, j)"
    and same: "drop i' s' = drop i s" "i' = length (takeWhile is_blank s')"
  obtains result' where "scan s' = Some (result', i', i' + (j - i))"
    "\<And>starts start stop q. lex_step starts result' (drop i (take j s)) start stop q =
      lex_step starts result (drop i (take j s)) start stop q"
proof -
  note l = longest_Some [OF scan s]
  have ne: "drop i s \<noteq> []" using l(2,3) by simp
  have len: "length s' = i' + (length s - i)" 
    using same(1) ne by (metis diff_diff_cancel drop_eq_Nil2 le_add_diff_inverse length_drop nat_le_linear)
  have "i' < length s'" using ne same(1) by (metis drop_eq_Nil2 not_le_imp_less)
  then have "\<not> list_all is_blank s'"
    unfolding same(2) by (metis list_all_iff nat_less_le takeWhile_eq_all_conv)
  then obtain result' j' where s': "scan s' = Some (result', i', j')"
    using scan_Some [OF scan] same(2) by metis
  note l' = longest_Some [OF scan s']
  have cut: "drop i' (take (i' + k) s') = drop i (take (i + k) s)" for k
    using same(1) by (simp add: drop_take)
  have to: "raw_matches raw (drop i (take k s)) \<longleftrightarrow> raw_matches raw (drop i' (take (i' + (k - i)) s'))"
    if "i < k" for raw k using that by (subst cut) simp
  have from': "raw_matches raw (drop i' (take k s')) \<longleftrightarrow> raw_matches raw (drop i (take (i + (k - i')) s))"
    if "i' < k" for raw k using that cut [of "k - i'"] by simp
  have le: "i < i + (j' - i')" "i + (j' - i') \<le> length s" "i' < i' + (j - i)" "i' + (j - i) \<le> length s'"
    using l'(2,3) l(2,3) len by linarith+
  show thesis
  proof (cases result)
    case None
    have "result' = None"
    proof (rule ccontr)
      assume "result' \<noteq> None"
      then obtain raw where "raw_matches raw (drop i' (take j' s'))" using l'(4) by auto
      then show False using l(6) [OF None le(1,2)] from' [OF l'(2)] by blast
    qed
    moreover from this have "j' = i' + (j - i)" using l'(7) l(7) [OF None] same(1) by simp
    ultimately show ?thesis using that s' None by blast
  next
    case (Some raw)
    have m: "raw_matches raw (drop i (take j s))" using l(4) [OF Some] .
    have "result' \<noteq> None"
      using m l'(6) [OF _ le(3,4)] to [OF l(2)] by blast
    then obtain raw' where r: "result' = Some raw'" by auto
    have m': "raw_matches raw' (drop i' (take j' s'))" using l'(4) [OF r] .
    have "i' + (j - i) \<le> j'"
      using m l'(5) [OF _ le(3,4)] to [OF l(2)] r by blast
    moreover have "i + (j' - i') \<le> j"
      using m' l(5) [OF _ le(1,2)] from' [OF l'(2)] Some by blast
    ultimately have j': "j' = i' + (j - i)" using l(2) l'(2) by linarith
    then have "raw_matches raw' (drop i (take j s))" using m' cut [of "j - i"] l(2) by simp
    then show ?thesis using that s' j' r Some lex_step_text [OF m] by metis
  qed
qed

lemma lexes_blanks:
  assumes scan: "longest_match scan" and l: "lexes scan starts (drop k s) (p + k) q toks errs"
    and b: "list_all is_blank (take k s)" "k \<le> length s"
  shows "lexes scan starts s p q toks errs"
proof -
  have tw: "length (takeWhile is_blank s) = k + length (takeWhile is_blank (drop k s))"
    using b by (metis append_take_drop_id length_append length_take list_all_iff min.absorb2 takeWhile_append2)
  from l show ?thesis
  proof cases
    case lexes_end
    have "list_all is_blank s"
      using longest_None [OF scan lexes_end(3)] b(1) by (metis append_take_drop_id list_all_append)
    then have "scan s = None"
    proof -
      { fix result i j assume s: "scan s = Some (result, i, j)"
        have "i = length s" using longest_Some(1) [OF scan s] \<open>list_all is_blank s\<close>
          by (metis list_all_iff takeWhile_eq_all_conv)
        then have False using longest_Some(2,3) [OF scan s] by simp }
      then show ?thesis by (metis not_None_eq prod_cases3)
    qed
    from lexes.lexes_end [where scan = scan and s = s, OF this, of starts p q] show ?thesis using lexes_end(1,2) b(2) by simp
  next
    case (lexes_next result i j ts es q' toks' errs')
    note n = longest_Some [OF scan lexes_next(3)]
    have "drop (k + i) s = drop i (drop k s)" by (simp add: add.commute)
    then obtain result' where r: "scan s = Some (result', k + i, k + i + (j - i))"
      "\<And>starts start stop q. lex_step starts result' (drop i (take j (drop k s))) start stop q =
        lex_step starts result (drop i (take j (drop k s))) start stop q"
      using scan_same [OF scan lexes_next(3), of "k + i" s] tw n(1) by metis
    have j: "k + i + (j - i) = k + j" using n(2) by simp
    have w: "drop (k + i) (take (k + j) s) = drop i (take j (drop k s))" by (simp add: drop_take_drop)
    have "lex_step starts result' (drop (k + i) (take (k + j) s)) (of_nat (p + (k + i)))
        (of_nat (p + (k + j))) q = (ts, es, q')"
      using lexes_next(4) unfolding w r(2) by (simp add: add.assoc)
    moreover have "lexes scan starts (drop (k + j) s) (p + (k + j)) q' toks' errs'"
      using lexes_next(5) by (simp add: add.commute add.left_commute)
    ultimately have "lexes scan starts s p q (ts @ toks') (es @ errs')"
      using lexes.lexes_next [where scan = scan and s = s] r(1) unfolding j by blast
    then show ?thesis using lexes_next(1,2) by simp
  qed
qed

text \<open>And back: with its blanks dropped a text is lexed alike.\<close>

lemma lexes_drop_blanks:
  assumes scan: "longest_match scan" and l: "lexes scan starts s p q toks errs"
    and b: "list_all is_blank (take k s)" "k \<le> length s"
  shows "lexes scan starts (drop k s) (p + k) q toks errs"
proof -
  obtain toks' errs' where l': "lexes scan starts (drop k s) (p + k) q toks' errs'"
    using lexes_exists [OF scan] by metis
  with lexes_unique [OF l lexes_blanks [OF scan l' b]] show ?thesis by simp
qed

end
