(* ===== verification/Lexer_Resume.thy ===== *)
theory Lexer_Resume
  imports Lex_Local
begin

text \<open>
  Lexing again after an edit: the old tokens before the edit are those of the new text, the loop
  lexes the new text from the token the edit touches, and the old tokens behind the place where the
  two streams meet are, moved by the change of length, the rest of the new ones.
\<close>

section \<open>The old stream, cut\<close>

lemma lexes_split:
  assumes scan: "longest_match scan" and l: "lexes scan starts s p q toks []"
    and len: "p + length s < 2 ^ 32"
    and toks: "toks = us @ vs" "vs \<noteq> []" "us = [] \<or> tk_kind (last us) \<noteq> Tok_Glue"
  shows "\<exists>j \<le> length s. lexes scan starts (drop j s) (p + j) (foldl prev_after q us) vs [] \<and>
    (us \<noteq> [] \<longrightarrow> p + j = tk_stop (last us))"
  using scan l len toks
proof (induction arbitrary: us rule: lexes_clean_induct)
  case (finish s p q)
  then show ?case using lexes_end [of scan s starts p q] by (auto simp: Cons_eq_append_conv)
next
  case (token s p q result i j t toks)
  note ij = longest_Some(2,3) [OF scan token.hyps(1)]
  have stop: "tk_stop t = p + j"
    using token.hyps(4) token.prems(1) ij by (simp add: unat_of_nat_small del: of_nat_add)
  show ?case
  proof (cases us)
    case Nil
    have "lexes scan starts s p q (t # toks) []"
      using lexes_next [where scan = scan and s = s, OF token.hyps(1,2,6)] by simp
    with Nil token.prems(2) show ?thesis by (intro exI [of _ 0]) simp
  next
    case (Cons x us')
    then have us: "x = t" "toks = us' @ vs" using token.prems(2) by simp_all
    have "p + j + length (drop j s) < 2 ^ 32" using token.prems(1) ij by simp
    moreover have "us' = [] \<or> tk_kind (last us') \<noteq> Tok_Glue" using token.prems(4) Cons by auto
    ultimately obtain k where k: "k \<le> length (drop j s)"
      "lexes scan starts (drop k (drop j s)) (p + j + k) (foldl prev_after (prev_after q t) us') vs []"
      "us' \<noteq> [] \<longrightarrow> p + j + k = tk_stop (last us')"
      using token.IH [OF _ us(2) token.prems(3)] by blast
    show ?thesis
    proof (cases "us' = []")
      case True
      with token.hyps(6) ij stop us Cons show ?thesis by (intro exI [of _ j]) simp
    next
      case False
      with k ij us Cons show ?thesis by (intro exI [of _ "j + k"]) (simp add: add.assoc add.commute [of k])
    qed
  qed
next
  case (glue s p q result i j g t toks)
  note ij = longest_Some(2,3) [OF scan glue.hyps(1)]
  have stop: "tk_stop t = p + j"
    using glue.hyps(7) glue.prems(1) ij by (simp add: unat_of_nat_small del: of_nat_add)
  have pt: "prev_after q t = Some (of_nat (p + j))"
    using glue.hyps(6,7) by (subst prev_after_real) (auto simp: postfix_kind_def)
  show ?case
  proof (cases us)
    case Nil
    have "lexes scan starts s p q (g # t # toks) []"
      using lexes_next [where scan = scan and s = s, OF glue.hyps(1,2,8)] by simp
    with Nil glue.prems(2) show ?thesis by (intro exI [of _ 0]) simp
  next
    case (Cons x us'')
    then obtain us' where us: "us = g # t # us'" "toks = us' @ vs"
      using glue.prems(2,4) glue.hyps(3) by (cases us'') auto
    have "p + j + length (drop j s) < 2 ^ 32" using glue.prems(1) ij by simp
    moreover have "us' = [] \<or> tk_kind (last us') \<noteq> Tok_Glue" using glue.prems(4) us by auto
    ultimately obtain k where k: "k \<le> length (drop j s)"
      "lexes scan starts (drop k (drop j s)) (p + j + k) (foldl prev_after (Some (of_nat (p + j))) us') vs []"
      "us' \<noteq> [] \<longrightarrow> p + j + k = tk_stop (last us')"
      using glue.IH [OF _ us(2) glue.prems(3)] by blast
    have f: "foldl prev_after q us = foldl prev_after (Some (of_nat (p + j))) us'"
      unfolding us(1) by (simp add: glue.hyps(3) pt del: of_nat_add)
    show ?thesis
    proof (cases "us' = []")
      case True
      with glue.hyps(8) ij stop us(2) show ?thesis
        unfolding f unfolding us(1) by (intro exI [of _ j]) simp
    next
      case False
      with k ij show ?thesis
        unfolding f unfolding us(1)
        by (intro exI [of _ "j + k"]) (simp add: add.assoc add.commute [of k])
    qed
  qed
qed

text \<open>A token at a place of the stream: the text from its end on is lexed to the rest.\<close>

lemma lexes_after:
  assumes scan: "longest_match scan" and l: "lexes scan starts s p q (us @ t # vs) []"
    and len: "p + length s < 2 ^ 32" and t: "tk_kind t \<noteq> Tok_Glue" "tk_kind t \<noteq> Tok_Eof"
  shows "p \<le> tk_stop t \<and> lexes scan starts (drop (tk_stop t - p) s) (tk_stop t) (prev_after q' t) vs []"
proof -
  have "vs \<noteq> []"
    using lexes_laid [OF scan l len] t(2) by (auto simp: eof_token_def)
  then obtain j where j: "p + j = tk_stop t"
    "lexes scan starts (drop j s) (p + j) (foldl prev_after q (us @ [t])) vs []"
    using lexes_split [OF scan l len, of "us @ [t]" vs] t(1) by auto
  moreover have "prev_after (foldl prev_after q us) t = prev_after q' t"
    using t(1) by (cases "tk_kind t = Tok_Separator") (simp_all add: prev_after_real)
  moreover have "j = tk_stop t - p" using j(1) by simp
  ultimately show ?thesis by (metis foldl_Cons foldl_Nil foldl_append le_add1)
qed

lemma lexes_at_start:
  assumes scan: "longest_match scan" and l: "lexes scan starts s p q toks []"
    and len: "p + length s < 2 ^ 32"
  shows "toks \<noteq> [] \<and> p \<le> tk_start (hd toks) \<and> tk_start (hd toks) \<le> p + length s \<and>
    list_all is_blank (take (tk_start (hd toks) - p) s)"
  using scan l len
proof (induction rule: lexes_clean_induct)
  case (finish s p q)
  then show ?case
    using longest_None [OF scan finish(1)] by (simp add: eof_token_def unat_of_nat_small del: of_nat_add)
next
  case (token s p q result i j t toks)
  note ij = longest_Some(1,2,3) [OF scan token.hyps(1)]
  then have "tk_start t = p + i" using token.hyps(4) token.prems by (simp add: unat_of_nat_small del: of_nat_add)
  moreover have "list_all is_blank (take i s)" unfolding ij(1)
    by (metis list_all_iff set_takeWhileD takeWhile_eq_take)
  ultimately show ?case using ij by simp
next
  case (glue s p q result i j g t toks)
  note ij = longest_Some(1,2,3) [OF scan glue.hyps(1)]
  then have "tk_start g = p + i" using glue.hyps(4) glue.prems by (simp add: unat_of_nat_small del: of_nat_add)
  moreover have "list_all is_blank (take i s)" unfolding ij(1)
    by (metis list_all_iff set_takeWhileD takeWhile_eq_take)
  ultimately show ?case using ij by simp
qed

lemma lexes_to_start:
  assumes scan: "longest_match scan" and l: "lexes scan starts (drop j s) (p + j) q toks []"
    and len: "p + length s < 2 ^ 32" and j: "j \<le> length s"
  shows "p \<le> tk_start (hd toks)" "tk_start (hd toks) \<le> p + length s"
    "lexes scan starts (drop (tk_start (hd toks) - p) s) (tk_start (hd toks)) q toks []"
proof -
  have jl: "p + j + length (drop j s) < 2 ^ 32" using len j by simp
  note st = lexes_at_start [OF scan l jl]
  show "p \<le> tk_start (hd toks)" "tk_start (hd toks) \<le> p + length s" using st j by auto
  have "tk_start (hd toks) - (p + j) \<le> length (drop j s)" using st by linarith
  with st have "lexes scan starts (drop (tk_start (hd toks) - (p + j)) (drop j s))
      (p + j + (tk_start (hd toks) - (p + j))) q toks []"
    by (intro lexes_drop_blanks [OF scan l]) simp_all
  then show "lexes scan starts (drop (tk_start (hd toks) - p) s) (tk_start (hd toks)) q toks []"
    using st by (simp add: add.commute [of j])
qed

lemma lexes_from_glue:
  assumes scan: "longest_match scan" and l: "lexes scan starts s p q (us @ g # vs) []"
    and len: "p + length s < 2 ^ 32" and g: "tk_kind g = Tok_Glue"
  shows "p \<le> tk_start g \<and>
    lexes scan starts (drop (tk_start g - p) s) (tk_start g) (Some (fst (tk_range g))) (g # vs) []"
proof -
  have n: "neighbours q (us @ g # vs)" using lexes_neighbours [OF scan l] .
  have f: "foldl prev_after q us = Some (fst (tk_range g))" using n g by (auto simp: neighbours_def)
  have "us = [] \<or> tk_kind (last us) \<noteq> Tok_Glue"
  proof (rule ccontr)
    assume "\<not> (us = [] \<or> tk_kind (last us) \<noteq> Tok_Glue)"
    then obtain us' g' where "us = us' @ [g']" "tk_kind g' = Tok_Glue" by (cases us rule: rev_cases) auto
    then have "postfix_kind (tk_kind g)" using n unfolding neighbours_def by fastforce
    with g show False by (simp add: postfix_kind_def)
  qed
  then obtain j where j: "j \<le> length s" "lexes scan starts (drop j s) (p + j) (Some (fst (tk_range g))) (g # vs) []"
    using lexes_split [OF scan l len, of us "g # vs"] f by auto
  show ?thesis using lexes_to_start [OF scan j(2) len j(1)] by simp
qed

section \<open>A text that moves\<close>

definition moved :: "int \<Rightarrow> u32 \<Rightarrow> u32" where
  "moved delta x = x + of_int delta"

lemma moved_eq: "word_of_int (int (unat x) + delta) = moved delta x"
  by (simp add: moved_def)

lemma moved_inject [simp]: "moved delta x = moved delta y \<longleftrightarrow> x = y"
  by (simp add: moved_def)

lemma moved_of_nat: "int p' = int p + delta \<Longrightarrow> of_nat p' = moved delta (of_nat p)"
  by (metis moved_def of_int_add of_int_of_nat_eq)

lemma shift_token_simps [simp]:
  "tk_kind (shift_token starts delta t) = tk_kind t"
  "tk_range (shift_token starts delta t) =
    (moved delta (fst (tk_range t)), moved delta (snd (tk_range t)))"
  by (simp_all add: shift_token_def Let_def moved_def)

lemma shift_mk_token [simp]:
  "shift_token starts delta (mk_token k lc x y) =
    mk_token k (line_col starts (moved delta x)) (moved delta x) (moved delta y)"
  by (simp add: shift_token_def Let_def moved_def)

lemma prev_after_shift:
  "prev_after (map_option (moved delta) q) (shift_token starts delta t) =
    map_option (moved delta) (prev_after q t)"
  by (simp add: prev_after_def split: token_kind.splits)

lemma raw_to_kind_span: "raw_to_kind raw w lc = (Some k, []) \<Longrightarrow> raw_to_kind raw w lc' = (Some k, [])"
  by (cases raw) (auto simp: at_kind_def split: option.splits if_splits)

lemma lex_step_shift:
  assumes "lex_step starts result w start stop q = (ts, [], q')"
  shows "lex_step starts' result w (moved delta start) (moved delta stop) (map_option (moved delta) q) =
    (map (shift_token starts' delta) ts, [], map_option (moved delta) q')"
proof (cases result)
  case None
  then show ?thesis using assms by (simp add: lex_step_def)
next
  case (Some raw)
  show ?thesis
  proof (cases "raw = Raw_Separator")
    case True
    then show ?thesis using assms Some by (auto simp: lex_step_def Let_def)
  next
    case False
    obtain kind errs where k: "raw_to_kind raw w (line_col starts start) = (kind, errs)" by fastforce
    then have "errs = []" using assms Some False by (auto simp: lex_step_def Let_def split: option.splits)
    then obtain k' where k': "kind = Some k'" using k raw_to_kind_refused by (cases kind) blast+
    have "raw_to_kind raw w lc = (Some k', [])" for lc
      using k raw_to_kind_span unfolding \<open>errs = []\<close> k' by blast
    moreover have "map_option (moved delta) q = Some (moved delta start) \<longleftrightarrow> q = Some start"
      by (cases q) auto
    ultimately show ?thesis using assms Some False by (auto simp: lex_step_def Let_def)
  qed
qed

lemma lexes_shift:
  assumes scan: "longest_match scan" and l: "lexes scan starts s p q toks []"
  shows "int p' = int p + delta \<Longrightarrow>
    lexes scan starts' s p' (map_option (moved delta) q) (map (shift_token starts' delta) toks) []"
  using scan l
proof (induction arbitrary: p' rule: lexes_clean_induct)
  case (finish s p q)
  have "of_nat (p' + length s) = moved delta (of_nat (p + length s))"
    using finish(2) by (intro moved_of_nat) simp
  then show ?case
    using lexes_end [where scan = scan and s = s, OF finish(1), of starts' p'] by (simp add: eof_token_def)
next
  case (token s p q result i j t toks)
  have m: "of_nat (p' + i) = moved delta (of_nat (p + i))" "of_nat (p' + j) = moved delta (of_nat (p + j))"
    by (rule moved_of_nat, use token.prems in simp)+
  have "lexes scan starts' (drop j s) (p' + j) (map_option (moved delta) (prev_after q t))
      (map (shift_token starts' delta) toks) []"
    using token.prems by (intro token.IH) simp
  from lexes_next [where scan = scan and s = s, OF token.hyps(1) _ this] show ?case
    using lex_step_shift [OF token.hyps(2), of starts' delta] unfolding m by fastforce
next
  case (glue s p q result i j g t toks)
  have m: "of_nat (p' + i) = moved delta (of_nat (p + i))" "of_nat (p' + j) = moved delta (of_nat (p + j))"
    by (rule moved_of_nat, use glue.prems in simp)+
  have "lexes scan starts' (drop j s) (p' + j) (map_option (moved delta) (Some (of_nat (p + j))))
      (map (shift_token starts' delta) toks) []"
    using glue.prems by (intro glue.IH) simp
  from lexes_next [where scan = scan and s = s, OF glue.hyps(1) _ this] show ?case
    using lex_step_shift [OF glue.hyps(2), of starts' delta] unfolding m by fastforce
qed

section \<open>Where the streams meet\<close>

text \<open>Behind the edit the two texts are one.\<close>

definition aligned :: "string \<Rightarrow> string \<Rightarrow> nat \<Rightarrow> int \<Rightarrow> nat \<Rightarrow> bool" where
  "aligned old new base delta b \<longleftrightarrow> (\<forall>x x'. int b \<le> int x' \<longrightarrow> int x' = int x + delta \<longrightarrow> base \<le> x \<longrightarrow>
     base \<le> x' \<and> drop (x - base) old = drop (x' - base) new)"

lemma alignedD:
  "aligned old new base delta b \<Longrightarrow> int b \<le> int x' \<Longrightarrow> int x' = int x + delta \<Longrightarrow> base \<le> x \<Longrightarrow>
    base \<le> x' \<and> drop (x - base) old = drop (x' - base) new"
  unfolding aligned_def by blast

lemma resync_found:
  assumes "resync prev j t delta b = (j', Some jj)"
  shows "jj < length prev" "int (tk_start (prev ! jj)) = int (tk_start t) - delta"
    "int (tk_stop (prev ! jj)) = int (tk_stop t) - delta" "tk_kind (prev ! jj) = tk_kind t"
    "int b \<le> int (tk_start t)"
  using assms by (auto simp: resync_def Let_def split: if_splits)

lemma moved_back: "int (unat x) = int (unat y) - delta \<Longrightarrow> moved delta x = y"
  by (metis add.commute diff_add_cancel moved_eq word_of_int_uint uint_nat)

lemma resync_shift:
  assumes "resync prev j (mk_token k (line_col starts x) x y) delta b = (j', Some jj)"
  shows "shift_token starts delta (prev ! jj) = mk_token k (line_col starts x) x y"
proof -
  have "moved delta (fst (tk_range (prev ! jj))) = x" "moved delta (snd (tk_range (prev ! jj))) = y"
    using resync_found(2,3) [OF assms] by (simp_all add: moved_back)
  then show ?thesis
    using resync_found(4) [OF assms] unfolding shift_token_def Let_def moved_eq by simp
qed

lemma meet_real:
  assumes scan: "longest_match scan" and old: "lexes scan starts s base None prev []"
    and len: "base + length s < 2 ^ 32" and al: "aligned s new base delta b"
    and r: "resync prev j (mk_token k (line_col starts' x) x y) delta b = (j', Some jj)"
    and k: "k \<noteq> Tok_Glue" "k \<noteq> Tok_Eof" "unat x \<le> unat y"
    and l: "lexes scan starts' (drop (unat y - base) new) (unat y)
      (prev_after q (mk_token k (line_col starts' x) x y)) toks errs"
  shows "errs = [] \<and> mk_token k (line_col starts' x) x y # toks = map (shift_token starts' delta) (drop jj prev)"
proof -
  let ?t = "prev ! jj" and ?t' = "mk_token k (line_col starts' x) x y"
  note f = resync_found [OF r]
  have split: "prev = take jj prev @ ?t # drop (Suc jj) prev" using f(1) by (rule id_take_nth_drop)
  have kt: "tk_kind ?t = k" using f(4) by simp
  have "base \<le> tk_stop ?t \<and> lexes scan starts (drop (tk_stop ?t - base) s) (tk_stop ?t)
      (prev_after None ?t) (drop (Suc jj) prev) []"
    using lexes_after [OF scan _ len, of starts None "take jj prev" ?t "drop (Suc jj) prev" None]
      old split k(1,2) kt by simp
  note a = conjunct1 [OF this] conjunct2 [OF this]
  have y: "int (unat y) = int (tk_stop ?t) + delta" using f(3) by simp
  have le: "int b \<le> int (unat y)" using f(5) k(3) unfolding mk_token_simps fst_conv by linarith
  have "drop (tk_stop ?t - base) s = drop (unat y - base) new"
    using alignedD [OF al le y a(1)] by simp
  from lexes_shift [OF scan a(2) y, of starts', unfolded this]
  have "lexes scan starts' (drop (unat y - base) new) (unat y)
      (map_option (moved delta) (prev_after None ?t)) (map (shift_token starts' delta) (drop (Suc jj) prev)) []" .
  moreover have "map_option (moved delta) (prev_after None ?t) = prev_after q ?t'"
    using prev_after_shift [of delta None starts' ?t] resync_shift [OF r] k(1)
    by (cases "k = Tok_Separator") (simp_all add: prev_after_real)
  ultimately have "toks = map (shift_token starts' delta) (drop (Suc jj) prev) \<and> errs = []"
    using lexes_unique [OF l] by simp
  moreover have "drop jj prev = ?t # drop (Suc jj) prev" using f(1) by (rule Cons_nth_drop_Suc [symmetric])
  ultimately show ?thesis using resync_shift [OF r] by simp
qed

lemma meet_glue:
  assumes scan: "longest_match scan" and old: "lexes scan starts s base None prev []"
    and len: "base + length s < 2 ^ 32" and al: "aligned s new base delta b"
    and r: "resync prev j (mk_token Tok_Glue (line_col starts' x) x x) delta b = (j', Some jj)"
    and l: "lexes scan starts' (drop (unat x - base) new) (unat x) (Some x) toks errs"
  shows "errs = [] \<and> toks = map (shift_token starts' delta) (drop jj prev)"
proof -
  let ?t = "prev ! jj"
  note f = resync_found [OF r]
  have d: "drop jj prev = ?t # drop (Suc jj) prev" using f(1) by (rule Cons_nth_drop_Suc [symmetric])
  have split: "prev = take jj prev @ ?t # drop (Suc jj) prev" using f(1) by (rule id_take_nth_drop)
  have "base \<le> tk_start ?t \<and> lexes scan starts (drop (tk_start ?t - base) s) (tk_start ?t)
      (Some (fst (tk_range ?t))) (?t # drop (Suc jj) prev) []"
    using lexes_from_glue [OF scan _ len, of starts None "take jj prev" ?t "drop (Suc jj) prev"]
      old split f(4) by simp
  note a = conjunct1 [OF this] conjunct2 [OF this]
  have x: "int (unat x) = int (tk_start ?t) + delta" using f(2) by simp
  have "drop (tk_start ?t - base) s = drop (unat x - base) new"
    using alignedD [OF al _ x a(1)] f(5) by simp
  from lexes_shift [OF scan a(2) x, of starts', unfolded this, folded d]
  have "lexes scan starts' (drop (unat x - base) new) (unat x) (Some (moved delta (fst (tk_range ?t))))
      (map (shift_token starts' delta) (drop jj prev)) []" by simp
  moreover have "moved delta (fst (tk_range ?t)) = x" using f(2) by (simp add: moved_back)
  ultimately show ?thesis using lexes_unique [OF l] by simp
qed

section \<open>The loop of the resumption\<close>

text \<open>One pass of the loop, for each answer of the scanner.\<close>

lemma resume_end:
  "scan (drop at code) = None \<Longrightarrow>
    resume_loop scan starts prev delta b s code at j tokens errors q = Some (tokens, errors, None)"
  by (subst resume_loop.simps) simp

lemma resume_error:
  "scan (drop at code) = Some (None, i, i') \<Longrightarrow> add_offset s (at + i) = Some start \<Longrightarrow>
    resume_loop scan starts prev delta b s code at j tokens errors q =
      resume_loop scan starts prev delta b s code (at + i') j tokens
        (errors @ [unexpected (drop (at + i) (take (at + i') code)) (line_col starts start)]) None"
  by (subst resume_loop.simps) (simp add: Let_def)

lemma resume_separator:
  "scan (drop at code) = Some (Some Raw_Separator, i, i') \<Longrightarrow> add_offset s (at + i) = Some start \<Longrightarrow>
    add_offset s (at + i') = Some stop \<Longrightarrow>
    resync prev j (mk_token Tok_Separator (line_col starts start) start stop) delta b = (j', found) \<Longrightarrow>
    resume_loop scan starts prev delta b s code at j tokens errors q =
      (case found of
         Some jj \<Rightarrow> Some (tokens, errors, Some jj)
       | None \<Rightarrow> resume_loop scan starts prev delta b s code (at + i') j'
           (tokens @ [mk_token Tok_Separator (line_col starts start) start stop]) errors None)"
  by (subst resume_loop.simps) (simp add: Let_def)

lemma resume_plain:
  "scan (drop at code) = Some (Some raw, i, i') \<Longrightarrow> add_offset s (at + i) = Some start \<Longrightarrow>
    add_offset s (at + i') = Some stop \<Longrightarrow> raw \<noteq> Raw_Separator \<Longrightarrow>
    \<not> (is_postfix_delim raw \<and> q = Some start) \<Longrightarrow>
    raw_to_kind raw (drop (at + i) (take (at + i') code)) (line_col starts start) = (kind, es) \<Longrightarrow>
    resume_loop scan starts prev delta b s code at j tokens errors q =
      (case kind of
         None \<Rightarrow> resume_loop scan starts prev delta b s code (at + i') j tokens (errors @ es) (Some stop)
       | Some k \<Rightarrow>
           let (j, found) = resync prev j (mk_token k (line_col starts start) start stop) delta b in
           (case found of
              Some jj \<Rightarrow> Some (tokens, errors @ es, Some jj)
            | None \<Rightarrow> resume_loop scan starts prev delta b s code (at + i') j
                (tokens @ [mk_token k (line_col starts start) start stop]) (errors @ es) (Some stop)))"
  by (subst resume_loop.simps, cases kind) (auto simp: Let_def)

lemma resume_glued:
  "scan (drop at code) = Some (Some raw, i, i') \<Longrightarrow> add_offset s (at + i) = Some start \<Longrightarrow>
    add_offset s (at + i') = Some stop \<Longrightarrow> raw \<noteq> Raw_Separator \<Longrightarrow>
    is_postfix_delim raw \<Longrightarrow> q = Some start \<Longrightarrow>
    raw_to_kind raw (drop (at + i) (take (at + i') code)) (line_col starts start) = (Some k, es) \<Longrightarrow>
    resync prev j (mk_token Tok_Glue (line_col starts start) start start) delta b = (j', found) \<Longrightarrow>
    resume_loop scan starts prev delta b s code at j tokens errors q =
      (case found of
         Some jj \<Rightarrow> Some (tokens, errors, Some jj)
       | None \<Rightarrow>
           let (j, found) = resync prev j' (mk_token k (line_col starts start) start stop) delta b in
           (case found of
              Some jj \<Rightarrow> Some (tokens @ [mk_token Tok_Glue (line_col starts start) start start],
                errors @ es, Some jj)
            | None \<Rightarrow> resume_loop scan starts prev delta b s code (at + i') j
                (tokens @ [mk_token Tok_Glue (line_col starts start) start start,
                  mk_token k (line_col starts start) start stop]) (errors @ es) (Some stop)))"
  by (subst resume_loop.simps) (simp add: Let_def split: option.splits)

lemma postfix_kind_known: "is_postfix_delim raw \<Longrightarrow> \<exists>k. raw_to_kind raw w lc = (Some k, [])"
  by (auto simp: is_postfix_delim_def)

text \<open>
  The loop over the new text: it ends with the tokens of the text, or with the first of them up to
  the place the old stream is found at, whose rest moved is the rest of them.
\<close>

definition resumed :: "nat list \<Rightarrow> token list \<Rightarrow> int \<Rightarrow> nat \<Rightarrow> token list \<Rightarrow> lex_diag list \<Rightarrow>
    (token list \<times> lex_diag list \<times> nat option) option \<Rightarrow> bool" where
  "resumed starts prev delta e toks errs result \<longleftrightarrow>
     (case result of
        None \<Rightarrow> False
      | Some (tokens, errors, found) \<Rightarrow> errors = errs \<and>
          (case found of
             None \<Rightarrow> tokens @ [eof_token starts e] = toks
           | Some jj \<Rightarrow> tokens @ map (shift_token starts delta) (drop jj prev) = toks))"

lemma resume_loop_lexes:
  assumes scan: "longest_match scan" and old: "lexes scan starts0 old base None prev []"
    and len: "base + length old < 2 ^ 32" and al: "aligned old new base delta b"
    and code: "code = drop (unat s - base) new" "base \<le> unat s" "unat s + length code < 2 ^ 32"
  shows "lexes scan starts t p q toks errs \<Longrightarrow> t = drop at code \<Longrightarrow> p = unat s + at \<Longrightarrow>
    at \<le> length code \<Longrightarrow>
    resumed starts prev delta (unat s + length code) (tokens @ toks) (errors @ errs)
      (resume_loop scan starts prev delta b s code at j tokens errors q)"
proof (induction arbitrary: at j tokens errors rule: lexes.induct)
  case (lexes_end t p q)
  then show ?case by (simp add: resume_end resumed_def)
next
  case (lexes_next t result i i' p q ts es q' toks errs)
  note b = longest_Some(2,3) [OF scan lexes_next.hyps(1)]
  have i': "at + i' \<le> length code" using b lexes_next.prems by simp
  have sc: "scan (drop at code) = Some (result, i, i')"
    using lexes_next.hyps(1) unfolding lexes_next.prems(1) .
  let ?start = "of_nat (p + i) :: u32" and ?stop = "of_nat (p + i') :: u32"
  have pi: "p + i < 2 ^ 32" "p + i' < 2 ^ 32"
    using code(3) i' b(1) lexes_next.prems(2) by linarith+
  have u: "unat ?start = p + i" "unat ?stop = p + i'" using pi by (simp_all only: unat_of_nat_small)
  have start: "add_offset s (at + i) = Some ?start" "add_offset s (at + i') = Some ?stop"
    using add_offset_Some [of s "at + i"] add_offset_Some [of s "at + i'"] pi lexes_next.prems(2)
    by (simp_all add: add.assoc)
  have w: "drop i (take i' t) = drop (at + i) (take (at + i') code)"
    unfolding lexes_next.prems(1) drop_take_drop ..
  have at': "drop i' t = drop (at + i') code" "p + i' = unat s + (at + i')"
    using lexes_next.prems by (simp_all add: add.commute)
  note IH = lexes_next.IH [OF at' i']
  have rest: "drop (unat ?stop - base) new = drop i' t"
    unfolding u(2) at'(1) code(1) using lexes_next.prems(2) code(2) by (simp add: ac_simps)
  have here: "lexes scan starts (drop (unat ?start - base) new) (unat ?start) q (ts @ toks) (es @ errs)"
  proof -
    have "list_all is_blank (take i t)" unfolding longest_Some(1) [OF scan lexes_next.hyps(1)]
      by (metis list_all_iff set_takeWhileD takeWhile_eq_take)
    moreover have "i \<le> length t" using b by simp
    moreover have "lexes scan starts t p q (ts @ toks) (es @ errs)"
      using lexes_next.hyps by (rule lexes.lexes_next)
    moreover have "drop (unat ?start - base) new = drop i t"
      unfolding u(1) unfolding lexes_next.prems(1,2) code(1) using code(2) by (simp add: ac_simps)
    ultimately show ?thesis unfolding u(1) using lexes_drop_blanks [OF scan] by simp
  qed
  have after: "lexes scan starts (drop (unat ?stop - base) new) (unat ?stop) q' toks errs"
    unfolding rest unfolding u(2) by (rule lexes_next.hyps(3))
  have le: "unat ?start \<le> unat ?stop" unfolding u using b(1) by simp
  note meets = meet_real [OF scan old len al _ _ _ le] meet_glue [OF scan old len al]
  from scan lexes_next.hyps(1,2) show ?case
  proof (cases rule: lex_step_cases)
    case error
    then show ?thesis
      using IH [where errors = "errors @ es" and j = j and tokens = tokens] sc start w by (simp add: resume_error)
  next
    case (refused glue raw)
    have "\<not> is_postfix_delim raw"
      using postfix_kind_known [of raw "drop i (take i' t)" "line_col starts ?start"] refused(6) by auto
    then show ?thesis
      using refused IH [where errors = "errors @ es" and j = j and tokens = tokens] w
        resume_plain [where scan = scan and at = at and code = code and s = s, OF sc [unfolded refused(1)] start refused(2),
          of q starts None es prev delta b j tokens errors] by simp
  next
    case separator
    let ?t = "mk_token Tok_Separator (line_col starts ?start) ?start ?stop"
    obtain j' found where r: "resync prev j ?t delta b = (j', found)" by fastforce
    note step = resume_separator [where scan = scan and at = at and code = code and s = s, OF sc [unfolded separator(1)] start r, of tokens errors q]
    show ?thesis
    proof (cases found)
      case None
      then show ?thesis using IH [where errors = "errors @ es" and j = j' and tokens = "tokens @ ts"] separator step by simp
    next
      case (Some jj)
      have "errs = [] \<and> ?t # toks = map (shift_token starts delta) (drop jj prev)"
        using r after separator(3) unfolding Some by (intro meets(1) [where q = q]) simp_all
      then show ?thesis using separator step Some by (simp add: resumed_def)
    qed
  next
    case (token glue raw k)
    let ?t = "mk_token k (line_col starts ?start) ?start ?stop"
    let ?g = "mk_token Tok_Glue (line_col starts ?start) ?start ?start"
    have k: "k \<noteq> Tok_Glue" "k \<noteq> Tok_Eof" "k \<noteq> Tok_Separator"
      using raw_to_kind_plain [OF token(7,2)] spelled_nonempty [OF token(6)] b by auto
    have meet: "errs = [] \<and> ?t # toks = map (shift_token starts delta) (drop jj prev)"
      if "resync prev j ?t delta b = (j', Some jj)" for j j' jj
      using that k after token(4) prev_after_real [of ?t q] by (intro meets(1) [where q = q]) simp_all
    note sc = sc [unfolded token(1)] and kind = token(7) [unfolded w]
    show ?thesis
    proof (cases "is_postfix_delim raw \<and> q = Some ?start")
      case False
      have ts: "ts = [?t]" unfolding token(5,8) if_not_P [OF False] by simp
      obtain j' found where r: "resync prev j ?t delta b = (j', found)" by fastforce
      note step = resume_plain [where scan = scan and at = at and code = code and s = s, OF sc start token(2) False kind, of prev delta b j tokens errors]
      show ?thesis
      proof (cases found)
        case None
        then show ?thesis
          using IH [where errors = "errors @ es" and j = j' and tokens = "tokens @ ts"] token(3,4) ts step r by simp
      next
        case (Some jj)
        then show ?thesis using meet [of j j' jj] r token(3) ts step by (simp add: resumed_def)
      qed
    next
      case True
      then have glued: "is_postfix_delim raw" "q = Some ?start" by simp_all
      then have ts: "ts = [?g, ?t]" using token(5,8) by simp
      obtain j' found where r: "resync prev j ?g delta b = (j', found)" by fastforce
      obtain j'' found' where r': "resync prev j' ?t delta b = (j'', found')" by fastforce
      note step = resume_glued [where scan = scan and at = at and code = code and s = s, OF sc start token(2) glued kind r, of tokens errors]
      show ?thesis
      proof (cases found)
        case (Some jj)
        have "es @ errs = [] \<and> ts @ toks = map (shift_token starts delta) (drop jj prev)"
          using r here unfolding Some glued(2) by (rule meets(2))
        then show ?thesis using Some step by (simp add: resumed_def)
      next
        case None
        show ?thesis
        proof (cases found')
          case None
          then show ?thesis
            using IH [where errors = "errors @ es" and j = j'' and tokens = "tokens @ ts"] token(3,4) \<open>found = None\<close> ts step r' by simp
        next
          case (Some jj)
          then show ?thesis
            using meet [of j' j'' jj] r' token(3) \<open>found = None\<close> ts step by (simp add: resumed_def)
        qed
      qed
    qed
  qed
qed

section \<open>The tokens before the edit\<close>

lemma seed_prev: "i \<le> length prev \<Longrightarrow> seed_prev_end prev i = foldl prev_after None (take i prev)"
proof (induction i)
  case (Suc i)
  then show ?case
    by (simp add: take_Suc_conv_app_nth prev_after_def split: token_kind.splits)
qed simp

lemma lex_step_starts:
  assumes "line_col starts start = line_col starts' start"
  shows "lex_step starts' result w start stop q = lex_step starts result w start stop q"
  using assms by (simp add: lex_step_def)

text \<open>One answer before the edit is the same in the new text, and in the new table of lines.\<close>

lemma prefix_step:
  assumes scan: "longest_match scan" and s: "scan (u @ v) = Some (result, i, j)"
    and step: "lex_step starts result (drop i (take j (u @ v))) (of_nat (p + i)) (of_nat (p + j)) q =
      (ts, [], q')"
    and j: "j < length u" and dot: "\<not> ends_int_dot u"
    and len: "p + length u < 2 ^ 32"
    and same: "\<And>pos. unat pos \<le> p + length u \<Longrightarrow> line_col starts pos = line_col starts' pos"
    and rest: "lexes scan starts' (drop j (u @ v')) (p + j) q' toks errs"
  shows "lexes scan starts' (u @ v') p q (ts @ toks) errs"
proof -
  obtain raw where r: "result = Some raw" using step by (cases result) (auto simp: lex_step_def Let_def)
  note l = longest_Some [OF scan s]
  obtain raw' where s': "scan (u @ v') = Some (Some raw', i, j)"
    "raw_matches raw' (drop i (take j (u @ v')))" "drop i (take j (u @ v')) = drop i (take j (u @ v))"
    using scan_prefix [OF scan s [unfolded r] j dot] by blast
  have "unat (of_nat (p + i) :: u32) = p + i" using l(2) j len by (intro unat_of_nat_small) simp
  then have "line_col starts (of_nat (p + i)) = line_col starts' (of_nat (p + i))"
    using l(2) j by (intro same) simp
  then have "lex_step starts' (Some raw') (drop i (take j (u @ v'))) (of_nat (p + i)) (of_nat (p + j)) q =
      (ts, [], q')"
    using step lex_step_text [OF l(4) [OF r] s'(2) [unfolded s'(3)]] unfolding s'(3) r
    by (simp add: lex_step_starts [of starts _ starts'] del: of_nat_add)
  from lexes_next [where scan = scan and s = "u @ v'", OF s'(1) this rest] show ?thesis by simp
qed

text \<open>The same with the rest of the stream, which begins where the answer ends.\<close>

lemma prefix_later:
  assumes scan: "longest_match scan" and s: "scan s = Some (result, i, j)"
    and step: "lex_step starts result (drop i (take j s)) (of_nat (p + i)) (of_nat (p + j)) q = (ts, [], q')"
    and q': "q' = foldl prev_after q ts"
    and l: "lexes scan starts (drop j s) (p + j) q' toks []" and len: "p + length s < 2 ^ 32"
    and u: "s = u @ v" "j < length u" "\<not> ends_int_dot u"
    and same: "\<And>pos. unat pos \<le> p + length u \<Longrightarrow> line_col starts pos = line_col starts' pos"
    and n: "n < length toks"
    and rest: "lexes scan starts' (drop (tk_start (toks ! n) - p) (u @ v')) (tk_start (toks ! n))
      (foldl prev_after q (ts @ take n toks)) ts' es'"
    and IH: "lexes scan starts' (drop (tk_start (toks ! n) - (p + j)) (drop j u @ v')) (tk_start (toks ! n))
        (foldl prev_after q' (take n toks)) ts' es' \<Longrightarrow>
      lexes scan starts' (drop j u @ v') (p + j) q' (take n toks @ ts') es'"
  shows "lexes scan starts' (u @ v') p q (ts @ take n toks @ ts') es'"
proof -
  have "p + j + length (drop j s) < 2 ^ 32" using len longest_Some(3) [OF scan s] by simp
  then have "p + j \<le> tk_start (toks ! n)"
    using lexes_laid [OF scan l] n by (simp add: token_ok_def)
  moreover from this have "drop (tk_start (toks ! n) - (p + j)) (drop j u @ v') =
      drop (tk_start (toks ! n) - p) (u @ v')" using u(2) by simp
  ultimately have "lexes scan starts' (drop j u @ v') (p + j) q' (take n toks @ ts') es'"
    using IH rest q' by simp
  moreover have "drop j (u @ v') = drop j u @ v'" using u(2) by simp
  ultimately have r: "lexes scan starts' (drop j (u @ v')) (p + j) q' (take n toks @ ts') es'" by simp
  have "p + length u < 2 ^ 32" using len u(1) by simp
  from prefix_step [OF scan s [unfolded u(1)] step [unfolded u(1)] u(2,3) this same r]
  show ?thesis .
qed

lemma lexes_prefix:
  assumes scan: "longest_match scan" and l: "lexes scan starts s p q toks []"
    and len: "p + length s < 2 ^ 32"
    and same: "\<And>pos. unat pos \<le> a \<Longrightarrow> line_col starts pos = line_col starts' pos"
  shows "s = u @ v \<Longrightarrow> a = p + length u \<Longrightarrow> find_pos (\<lambda>t. a \<le> tk_stop t) toks = Some i \<Longrightarrow>
    tk_start (toks ! i) \<le> a \<Longrightarrow> i = 0 \<or> tk_kind (toks ! (i - 1)) \<noteq> Tok_Glue \<Longrightarrow> \<not> ends_int_dot u \<Longrightarrow>
    lexes scan starts' (drop (tk_start (toks ! i) - p) (u @ v')) (tk_start (toks ! i))
      (foldl prev_after q (take i toks)) ts' es' \<Longrightarrow>
    lexes scan starts' (u @ v') p q (take i toks @ ts') es'"
proof -
  have first: "lexes scan starts' (u @ v') p q ts' es'"
    if "lexes scan starts (u @ v) p q toks []" "p + length (u @ v) < 2 ^ 32" "a = p + length u"
      "tk_start (hd toks) \<le> a"
      "lexes scan starts' (drop (tk_start (hd toks) - p) (u @ v')) (tk_start (hd toks)) q ts' es'"
    for u p q toks
  proof -
    let ?k = "tk_start (hd toks) - p"
    note st = lexes_at_start [OF scan that(1,2)]
    have k: "p + ?k = tk_start (hd toks)" "?k \<le> length u" using st that(3,4) by auto
    then have "list_all is_blank (take ?k (u @ v'))" using st by simp
    then show ?thesis using lexes_blanks [OF scan, of starts' ?k "u @ v'" p q ts' es'] that(5) k by simp
  qed
  show "s = u @ v \<Longrightarrow> a = p + length u \<Longrightarrow> find_pos (\<lambda>t. a \<le> tk_stop t) toks = Some i \<Longrightarrow>
    tk_start (toks ! i) \<le> a \<Longrightarrow> i = 0 \<or> tk_kind (toks ! (i - 1)) \<noteq> Tok_Glue \<Longrightarrow> \<not> ends_int_dot u \<Longrightarrow>
    lexes scan starts' (drop (tk_start (toks ! i) - p) (u @ v')) (tk_start (toks ! i))
      (foldl prev_after q (take i toks)) ts' es' \<Longrightarrow>
    lexes scan starts' (u @ v') p q (take i toks @ ts') es'"
    using scan l len
  proof (induction arbitrary: u i rule: lexes_clean_induct)
    case (finish s p q)
    note l = lexes_end [where scan = scan and s = s, OF finish(1), of starts p q]
    show ?case
      using first [OF l [unfolded finish.prems(1)]] finish.prems by (auto split: if_splits)
  next
    case (token s p q result i0 j0 t toks)
    note ij = longest_Some(2,3) [OF scan token.hyps(1)]
    have l: "lexes scan starts s p q (t # toks) []"
      using lexes_next [where scan = scan and s = s, OF token.hyps(1,2,6)] by simp
    have stop: "tk_stop t = p + j0"
      using token.hyps(4) token.prems(8) ij by (simp add: unat_of_nat_small del: of_nat_add)
    show ?case
    proof (cases "a \<le> tk_stop t")
      case True
      then have "i = 0" using token.prems(3) by simp
      then show ?thesis using first [OF l [unfolded token.prems(1)]] token.prems by simp
    next
      case False
      then have j: "j0 < length u" using stop token.prems(2) by simp
      obtain n where n: "i = Suc n" "find_pos (\<lambda>t. a \<le> tk_stop t) toks = Some n"
        using token.prems(3) False by auto
      have "n < length toks" using n(2) unfolding find_pos_Some by simp
      note later = prefix_later [OF scan token.hyps(1,2) _ token.hyps(6) token.prems(8,1) j token.prems(6) _ this,
        where starts' = starts' and v' = v' and ts' = ts' and es' = es']
      have "lexes scan starts' (u @ v') p q ([t] @ take n toks @ ts') es'"
      proof (rule later)
        assume r: "lexes scan starts' (drop (tk_start (toks ! n) - (p + j0)) (drop j0 u @ v'))
          (tk_start (toks ! n)) (foldl prev_after (prev_after q t) (take n toks)) ts' es'"
        show "lexes scan starts' (drop j0 u @ v') (p + j0) (prev_after q t) (take n toks @ ts') es'"
          using token.prems j n ij ends_int_dot_drop [of j0 u] by (intro token.IH [OF _ _ n(2) _ _ _ r]) (auto simp: nth_Cons')
      qed (use token.prems n(1) same in simp_all)
      then show ?thesis using n(1) by simp
    qed
  next
    case (glue s p q result i0 j0 g t toks)
    note ij = longest_Some(2,3) [OF scan glue.hyps(1)]
    have l: "lexes scan starts s p q (g # t # toks) []"
      using lexes_next [where scan = scan and s = s, OF glue.hyps(1,2,8)] by simp
    have stop: "tk_stop t = p + j0" "tk_stop g \<le> p + j0"
      using glue.hyps(4,7) glue.prems(8) ij by (simp_all add: unat_of_nat_small del: of_nat_add)
    have pt: "Some (of_nat (p + j0)) = foldl prev_after q [g, t]"
      using glue.hyps(3,6,7) prev_after_real [of t q] by (auto simp: postfix_kind_def)
    show ?case
    proof (cases "a \<le> tk_stop g")
      case True
      then have "i = 0" using glue.prems(3) by simp
      then show ?thesis using first [OF l [unfolded glue.prems(1)]] glue.prems by simp
    next
      case g: False
      have "\<not> a \<le> tk_stop t"
      proof
        assume "a \<le> tk_stop t"
        then have "i = 1" using glue.prems(3) g by simp
        then show False using glue.prems(5) glue.hyps(3) by simp
      qed
      then have j: "j0 < length u" using stop glue.prems(2) by simp
      obtain n where n: "i = Suc (Suc n)" "find_pos (\<lambda>t. a \<le> tk_stop t) toks = Some n"
        using glue.prems(3) g \<open>\<not> a \<le> tk_stop t\<close> by auto
      have "n < length toks" using n(2) unfolding find_pos_Some by simp
      note later = prefix_later [OF scan glue.hyps(1,2) pt glue.hyps(8) glue.prems(8,1) j glue.prems(6) _ this,
        where starts' = starts' and v' = v' and ts' = ts' and es' = es']
      have "lexes scan starts' (u @ v') p q ([g, t] @ take n toks @ ts') es'"
      proof (rule later)
        assume r: "lexes scan starts' (drop (tk_start (toks ! n) - (p + j0)) (drop j0 u @ v'))
          (tk_start (toks ! n)) (foldl prev_after (Some (of_nat (p + j0))) (take n toks)) ts' es'"
        show "lexes scan starts' (drop j0 u @ v') (p + j0) (Some (of_nat (p + j0))) (take n toks @ ts') es'"
          using glue.prems j n ij ends_int_dot_drop [of j0 u] by (intro glue.IH [OF _ _ n(2) _ _ _ r]) (auto simp: nth_Cons')
      qed (use glue.prems n(1) same in simp_all)
      then show ?thesis using n(1) by simp
    qed
  qed
qed

section \<open>The resumption\<close>

lemma lexes_start_boundary:
  assumes scan: "longest_match scan" and l: "lexes scan starts s p q toks []"
    and len: "p + length s < 2 ^ 32" and st: "tk_start (hd toks) = p" and s: "s \<noteq> []"
  shows "\<not> continuation (hd s)"
  using scan l len st s
proof (induction rule: lexes_clean_induct)
  case (finish s p q)
  then show ?case by (simp add: eof_token_def unat_of_nat_small del: of_nat_add)
next
  case (token s p q result i j t toks)
  note l = longest_Some [OF scan token.hyps(1)]
  obtain raw where r: "result = Some raw" using token.hyps(2) by (cases result) (auto simp: lex_step_def Let_def)
  have "i = 0" using token.hyps(4) token.prems l(2,3) by (simp add: unat_of_nat_small del: of_nat_add)
  then show ?case using raw_matches_first(2) [OF l(4) [OF r]] l(2) by (cases s; cases j) auto
next
  case (glue s p q result i j g t toks)
  note l = longest_Some [OF scan glue.hyps(1)]
  obtain raw where r: "result = Some raw" using glue.hyps(2) by (cases result) (auto simp: lex_step_def Let_def)
  have "i = 0" using glue.hyps(4) glue.prems l(2,3) by (simp add: unat_of_nat_small del: of_nat_add)
  then show ?case using raw_matches_first(2) [OF l(4) [OF r]] l(2) by (cases s; cases j) auto
qed

text \<open>Behind the edit the old text is the new one.\<close>

lemma aligned_edit:
  "aligned (pre @ old @ post) (pre @ new @ post) base (int (length new) - int (length old))
    (base + length pre + length new)"
  unfolding aligned_def
proof (intro allI impI)
  fix x x' :: nat
  assume x: "int (base + length pre + length new) \<le> int x'"
    "int x' = int x + (int (length new) - int (length old))"
  then obtain k where k: "x' = base + length pre + length new + k" by (metis le_Suc_ex of_nat_le_iff)
  then have "x = base + length pre + length old + k" using x(2) by simp
  with k show "base \<le> x' \<and> drop (x - base) (pre @ old @ post) = drop (x' - base) (pre @ new @ post)"
    by simp
qed

lemma lex_resume_core:
  assumes scan: "longest_match scan"
    and old: "lexes scan starts (pre @ old @ post) (unat base) None prev []"
    and len: "unat base + length (pre @ old @ post) < 2 ^ 32" "unat base + length (pre @ new @ post) < 2 ^ 32"
    and a: "a = unat base + length pre" and b: "b = a + length new"
    and same: "\<And>pos. unat pos \<le> a \<Longrightarrow> line_col starts pos = line_col starts' pos"
    and i: "find_pos (\<lambda>t. a \<le> tk_stop t) prev = Some i" "tk_start (prev ! i) \<le> a"
      "i = 0 \<or> tk_kind (prev ! (i - 1)) \<noteq> Tok_Glue"
    and pre: "\<not> ends_int_dot pre" "is_char_boundary (pre @ new @ post) (length pre)"
  shows "lex_resume scan prev (pre @ old @ post) (pre @ new @ post) starts' base a b =
    lex_with scan (pre @ new @ post) starts' base"
proof -
  let ?old = "pre @ old @ post" and ?new = "pre @ new @ post" and ?s = "fst (tk_range (prev ! i))"
  let ?delta = "int (length ?new) - int (length ?old)" and ?code = "drop (unat ?s - unat base) ?new"
  have il: "i < length prev" using i(1) unfolding find_pos_Some by simp
  have kind: "take i prev = [] \<or> tk_kind (last (take i prev)) \<noteq> Tok_Glue"
    using i(3) il by (cases i) (auto simp: take_Suc_conv_app_nth)
  have ne: "drop i prev \<noteq> []" "hd (drop i prev) = prev ! i" using il by (simp_all add: hd_drop_conv_nth)
  obtain j where j: "j \<le> length ?old"
    "lexes scan starts (drop j ?old) (unat base + j) (foldl prev_after None (take i prev)) (drop i prev) []"
    using lexes_split [OF scan old len(1) append_take_drop_id [symmetric] ne(1) kind] by blast
  note st = lexes_to_start [OF scan j(2) len(1) j(1), unfolded ne(2)]
  then have s: "unat base \<le> unat ?s" "unat ?s \<le> unat base + length ?old" by simp_all
  have boundary: "is_char_boundary ?new (unat ?s - unat base)"
  proof (cases "unat ?s = a")
    case True
    then show ?thesis using pre(2) a by simp
  next
    case False
    let ?x = "unat ?s - unat base"
    have x: "?x < length pre" using False i(2) a s(1) by simp
    note st(3)
    moreover have "unat ?s + length (drop ?x ?old) < 2 ^ 32" "drop ?x ?old \<noteq> []" using len(1) s x by auto
    ultimately have "\<not> continuation (hd (drop ?x ?old))"
      using lexes_start_boundary [OF scan] ne(2) by metis
    then show ?thesis using x by (simp add: is_char_boundary_def hd_drop_conv_nth nth_append)
  qed
  have al: "aligned ?old ?new (unat base) ?delta b"
    using aligned_edit [of pre old post new "unat base"] a b by simp
  have code: "unat ?s + length ?code < 2 ^ 32"
  proof -
    have "unat ?s - unat base \<le> length ?new" using i(2) a by simp
    then show ?thesis using len(2) s(1) by simp
  qed
  obtain toks errs where rest: "lexes scan starts' ?code (unat ?s) (foldl prev_after None (take i prev)) toks errs"
    using lexes_exists [OF scan] by metis
  have "lexes scan starts' ?new (unat base) None (take i prev @ toks) errs"
    using lexes_prefix [OF scan old len(1) same refl a i pre(1) rest] by simp
  then have full: "lex_with scan ?new starts' base = Some \<lparr>lx_tokens = take i prev @ toks, lx_errors = errs\<rparr>"
    by (rule lex_with_iff [OF scan len(2)])
  have res: "resumed starts' prev ?delta (unat ?s + length ?code) (take i prev @ toks) ([] @ errs)
      (resume_loop scan starts' prev ?delta b ?s ?code 0 i (take i prev) []
        (foldl prev_after None (take i prev)))"
    by (rule resume_loop_lexes [OF scan old len(1) al refl s(1) code rest]) simp_all
  have "a < 2 ^ 32" using a len(1) by simp
  then have fp: "find_pos (\<lambda>t. unat (of_nat a :: u32) \<le> tk_stop t) prev = Some i"
    using i(1) by (simp add: unat_of_nat_small)
  show ?thesis
    using res il s(1) boundary add_offset_Some [OF code] seed_prev [of i prev]
    unfolding full lex_resume_def Let_def fp
    by (auto simp: resumed_def eof_token_def split: option.splits)
qed

end
