(* ===== verification/Lex_Properties.thy ===== *)
theory Lex_Properties
  imports Lexer_Resume
begin

text \<open>
  What the lexer promises, for every scanner that follows the documented rule, with concrete texts
  lexed by the scanner of the model.
\<close>

section \<open>Concrete texts\<close>

lemma scans_ab: "scan_patterns ''a b'' = Some (Some Raw_NameLit, 0, 1)"
  "scan_patterns '' b'' = Some (Some Raw_NameLit, 1, 2)" "scan_patterns [] = None"
  "scan_patterns ''a bc'' = Some (Some Raw_NameLit, 0, 1)"
  "scan_patterns ''bc'' = Some (Some Raw_NameLit, 0, 2)"
  by code_simp+

lemma scans_call: "scan_patterns ''f(x)'' = Some (Some Raw_NameLit, 0, 1)"
  "scan_patterns ''(x)'' = Some (Some Raw_LParen, 0, 1)"
  "scan_patterns ''x)'' = Some (Some Raw_NameLit, 0, 1)"
  "scan_patterns '')'' = Some (Some Raw_RParen, 0, 1)"
  "scan_patterns ''(y)'' = Some (Some Raw_LParen, 0, 1)"
  "scan_patterns ''y)'' = Some (Some Raw_NameLit, 0, 1)"
  "scan_patterns ''f(y)'' = Some (Some Raw_NameLit, 0, 1)"
  by code_simp+

lemma scans_gap: "scan_patterns ''a   b'' = Some (Some Raw_NameLit, 0, 1)"
  "scan_patterns ''   b'' = Some (Some Raw_NameLit, 3, 4)"
  "scan_patterns ''b'' = Some (Some Raw_NameLit, 0, 1)"
  by code_simp+

lemmas lex_eval = add_offset_def Let_def lex_step_def is_postfix_delim_def name_kind_def
  scans_ab scans_call scans_gap

lemmas span_eval = line_col_def binary_search_def start_of_def nth_opt_def line_starts_def newline_def Let_def

lemma lex_ab: "lex_source scan_patterns ''a b'' = Some \<lparr>lx_tokens =
  [mk_token (Tok_Name ''a'') (1, 1) 0 1, mk_token (Tok_Name ''b'') (1, 3) 2 3, mk_token Tok_Eof (1, 4) 3 3],
  lx_errors = []\<rparr>"
  unfolding lex_source_def lex_with_def
  by (subst lex_loop.simps, simp add: lex_eval)+ (simp add: span_eval)

lemma lex_call: "lex_source scan_patterns ''f(x)'' = Some \<lparr>lx_tokens =
  [mk_token (Tok_Name ''f'') (1, 1) 0 1, mk_token Tok_Glue (1, 2) 1 1, mk_token Tok_LParen (1, 2) 1 2,
   mk_token (Tok_Name ''x'') (1, 3) 2 3, mk_token Tok_RParen (1, 4) 3 4, mk_token Tok_Eof (1, 5) 4 4],
  lx_errors = []\<rparr>"
  unfolding lex_source_def lex_with_def
  by (subst lex_loop.simps, simp add: lex_eval)+ (simp add: span_eval)

lemma lex_gap: "lex_source scan_patterns ''a   b'' = Some \<lparr>lx_tokens =
  [mk_token (Tok_Name ''a'') (1, 1) 0 1, mk_token (Tok_Name ''b'') (1, 5) 4 5, mk_token Tok_Eof (1, 6) 5 5],
  lx_errors = []\<rparr>"
  unfolding lex_source_def lex_with_def
  by (subst lex_loop.simps, simp add: lex_eval)+ (simp add: span_eval)

lemmas resume_eval = lex_resume_def is_char_boundary_def continuation_def resync_def resync_from.simps lex_eval

lemma double_glue:
  "map_option (\<lambda>l. map tk_kind (lx_tokens l)) (lex_resume scan_patterns
      [mk_token (Tok_Name ''f'') (1, 1) 0 1, mk_token Tok_Glue (1, 2) 1 1, mk_token Tok_LParen (1, 2) 1 2,
       mk_token (Tok_Name ''x'') (1, 3) 2 3, mk_token Tok_RParen (1, 4) 3 4, mk_token Tok_Eof (1, 5) 4 4]
      ''f(x)'' ''f(y)'' (line_starts ''f(y)'') 0 2 3) =
    Some [Tok_Name ''f'', Tok_Glue, Tok_Glue, Tok_LParen, Tok_Name ''y'', Tok_RParen, Tok_Eof]"
  by (simp add: lex_resume_def is_char_boundary_def continuation_def Let_def)
    (subst resume_loop.simps, simp add: resume_eval)+

lemma lost_panic:
  "lex_resume scan_patterns [mk_token (Tok_Name ''a'') (1, 1) 0 1, mk_token (Tok_Name ''b'') (1, 5) 4 5,
      mk_token Tok_Eof (1, 6) 5 5] ''a   b'' ''a b'' (line_starts ''a b'') 0 2 2 = None"
  by (simp add: lex_resume_def is_char_boundary_def Let_def)

lemma lost_token:
  "map_option (\<lambda>l. map tk_kind (lx_tokens l)) (lex_resume scan_patterns
      [mk_token (Tok_Name ''a'') (1, 1) 0 1, mk_token (Tok_Name ''b'') (1, 5) 4 5, mk_token Tok_Eof (1, 6) 5 5]
      ''a   b'' ''a x b'' (line_starts ''a x b'') 0 2 3) =
    Some [Tok_Name ''a'', Tok_Name ''b'', Tok_Eof]"
  by (simp add: lex_resume_def is_char_boundary_def continuation_def Let_def)
    (subst resume_loop.simps, simp add: resume_eval)+

text \<open>
  C29: Lexing a slice always ends. Its tokens lie in order inside the slice and end with the one end
  marker; each has the line and column of its first byte, and a kind that the bytes of its range
  spell.
\<close>

theorem lex_lays_tokens:
  assumes "longest_match scan" "unat base + length code < 2 ^ 32"
  shows "\<exists>l front. lex_with scan code starts base = Some l \<and>
    lx_tokens l = front @ [eof_token starts (unat base + length code)] \<and>
    (\<forall>t \<in> set front. tk_kind t \<noteq> Tok_Eof) \<and>
    laid (unat base) (unat base + length code) (lx_tokens l) \<and>
    (\<forall>t \<in> set (lx_tokens l). spelled (tk_kind t) (lexeme_of code (unat base) t) \<and>
      tk_span t = line_col starts (fst (tk_range t)))"
proof -
  obtain l where l: "lex_with scan code starts base = Some l"
    "lexes scan starts code (unat base) None (lx_tokens l) (lx_errors l)"
    using lex_with_lexes [OF assms] by blast
  from lexes_laid [OF assms(1) l(2) assms(2)] l(1) show ?thesis by (auto simp: token_ok_def)
qed

theorem lex_lays_tokens_witness:
  "\<exists>l. lex_with scan_patterns ''a b'' [0] 0 = Some l \<and> laid 0 3 (lx_tokens l)"
  using lex_lays_tokens [OF scan_patterns_longest, of 0 "''a b''" "[0]"] by (auto simp: numeral_3_eq_3)

text \<open>
  Without a diagnostic nothing of the slice is lost: every byte is in the range of a token or is
  a blank.
\<close>

theorem lex_covers:
  assumes "longest_match scan" "lex_with scan code starts base = Some l" "lx_errors l = []"
    and "unat base + length code < 2 ^ 32" "k < length code"
  shows "is_blank (code ! k) \<or>
    (\<exists>t \<in> set (lx_tokens l). tk_start t \<le> unat base + k \<and> unat base + k < tk_stop t)"
  using lex_with_lexes [OF assms(1,4), of starts] lexes_cover [OF assms(1) _ assms(4) _ assms(5)] assms(2,3)
  by auto

theorem lex_covers_witness:
  "\<exists>l. lex_source scan_patterns ''a b'' = Some l \<and>
    (\<exists>t \<in> set (lx_tokens l). tk_start t \<le> 2 \<and> 2 < tk_stop t)"
  using lex_covers [OF scan_patterns_longest lex_ab [unfolded lex_source_def], of 2] lex_ab
  by (auto simp: is_blank_def)

text \<open>
  A glue marker stands exactly before a delimiter that can make a postfix form and that touches
  the token before it, other than a separator.
\<close>

theorem lex_glue:
  assumes "longest_match scan" "lex_with scan code starts base = Some l" "lx_errors l = []"
    and "unat base + length code < 2 ^ 32" "lx_tokens l = us @ t # u # vs"
  shows "(tk_kind t = Tok_Glue \<longrightarrow> postfix_kind (tk_kind u) \<and>
      tk_range t = (fst (tk_range u), fst (tk_range u)) \<and>
      (\<exists>us' w. us = us' @ [w] \<and> tk_kind w \<noteq> Tok_Glue \<and> tk_kind w \<noteq> Tok_Separator \<and>
        snd (tk_range w) = fst (tk_range u))) \<and>
    (postfix_kind (tk_kind u) \<and> snd (tk_range t) = fst (tk_range u) \<longrightarrow>
      tk_kind t = Tok_Glue \<or> tk_kind t = Tok_Separator)"
proof (intro conjI impI)
  have n: "neighbours None (lx_tokens l)"
    using lex_with_lexes [OF assms(1,4), of starts] lexes_neighbours [OF assms(1)] assms(2,3) by fastforce
  have at: "postfix_kind (tk_kind x) \<and> foldl prev_after None ws = Some (fst (tk_range x)) \<longrightarrow>
      ws \<noteq> [] \<and> tk_kind (last ws) = Tok_Glue"
    "tk_kind x = Tok_Glue \<longrightarrow> foldl prev_after None ws = Some (fst (tk_range x)) \<and>
      (\<exists>v us. ys = v # us \<and> postfix_kind (tk_kind v) \<and> tk_range x = (fst (tk_range v), fst (tk_range v)))"
    if "lx_tokens l = ws @ x # ys" for ws x ys
    using n that unfolding neighbours_def by blast+
  { assume g: "tk_kind t = Tok_Glue"
    with at(2) [OF assms(5)] have f: "foldl prev_after None us = Some (fst (tk_range t))"
      "postfix_kind (tk_kind u)" "tk_range t = (fst (tk_range u), fst (tk_range u))" by auto
    then show "postfix_kind (tk_kind u)" "tk_range t = (fst (tk_range u), fst (tk_range u))" by simp_all
    obtain us' w where us: "us = us' @ [w]" using f(1) by (cases us rule: rev_cases) auto
    have w: "tk_kind w \<noteq> Tok_Glue"
      using at(2) [of us' w "t # u # vs"] assms(5) us g by (auto simp: postfix_kind_def)
    moreover from this f(1) us have "tk_kind w \<noteq> Tok_Separator" by auto
    moreover from this w f(1,3) us have "snd (tk_range w) = fst (tk_range u)" by (simp add: prev_after_real)
    ultimately show "\<exists>us' w. us = us' @ [w] \<and> tk_kind w \<noteq> Tok_Glue \<and> tk_kind w \<noteq> Tok_Separator \<and>
        snd (tk_range w) = fst (tk_range u)" using us by blast }
  assume p: "postfix_kind (tk_kind u) \<and> snd (tk_range t) = fst (tk_range u)"
  show "tk_kind t = Tok_Glue \<or> tk_kind t = Tok_Separator"
  proof (rule ccontr)
    assume "\<not> (tk_kind t = Tok_Glue \<or> tk_kind t = Tok_Separator)"
    then have t: "tk_kind t \<noteq> Tok_Glue" "foldl prev_after None (us @ [t]) = Some (fst (tk_range u))"
      using p prev_after_real by simp_all
    have "lx_tokens l = (us @ [t]) @ u # vs" using assms(5) by simp
    from at(1) [OF this] t p show False by simp
  qed
qed

theorem lex_glue_witness:
  "\<exists>l. lex_source scan_patterns ''f(x)'' = Some l \<and> (\<exists>w \<in> set (lx_tokens l). snd (tk_range w) = 1)"
proof -
  have "\<exists>us' w. [mk_token (Tok_Name ''f'') (1, 1) 0 1] = us' @ [w] \<and> tk_kind w \<noteq> Tok_Glue \<and>
      tk_kind w \<noteq> Tok_Separator \<and> snd (tk_range w) = (1::u32)"
    using lex_glue [OF scan_patterns_longest lex_call [unfolded lex_source_def],
      of "[mk_token (Tok_Name ''f'') (1, 1) 0 1]" "mk_token Tok_Glue (1, 2) 1 1"
        "mk_token Tok_LParen (1, 2) 1 2"]
    by simp
  then show ?thesis using lex_call by auto
qed

text \<open>
  C11: Lexing again after an edit answers what lexing the edited text answers, tokens, spans and
  diagnostics alike, when the old text had no diagnostic, the token the edit touches begins at or
  before the edit and is not the delimiter behind a glue marker, and the edit does not begin right
  behind a digit and a dot.
\<close>

theorem lex_resume_is_lex:
  assumes "longest_match scan"
    and "lex_with scan (pre @ old @ post) (line_starts (file @ pre @ old @ post)) base = Some lexed"
    and "lx_errors lexed = []" "prev = lx_tokens lexed" "unat base = length file"
    and "length (file @ pre @ old @ post) < 2 ^ 32" "length (file @ pre @ new @ post) < 2 ^ 32"
    and "a = unat base + length pre" "b = a + length new"
    and "find_pos (\<lambda>t. a \<le> tk_stop t) prev = Some i" "tk_start (prev ! i) \<le> a"
    and "i = 0 \<or> tk_kind (prev ! (i - 1)) \<noteq> Tok_Glue"
    and "\<not> ends_int_dot pre" "is_char_boundary (pre @ new @ post) (length pre)"
  shows "lex_resume scan prev (pre @ old @ post) (pre @ new @ post)
      (line_starts (file @ pre @ new @ post)) base a b =
    lex_with scan (pre @ new @ post) (line_starts (file @ pre @ new @ post)) base"
proof -
  have len: "unat base + length (pre @ old @ post) < 2 ^ 32" "unat base + length (pre @ new @ post) < 2 ^ 32"
    using assms(5-7) by simp_all
  have old: "lexes scan (line_starts (file @ pre @ old @ post)) (pre @ old @ post) (unat base) None prev []"
    using lex_with_lexes [OF assms(1) len(1), of "line_starts (file @ pre @ old @ post)"] assms(2-4) by auto
  have same: "line_col (line_starts (file @ pre @ old @ post)) pos =
      line_col (line_starts (file @ pre @ new @ post)) pos" if "unat pos \<le> a" for pos
    using that assms(5,8) by (intro line_col_agree) auto
  show ?thesis
    by (rule lex_resume_core [OF assms(1) old len assms(8,9) same assms(10-14)])
qed

theorem lex_resume_is_lex_witness:
  "\<exists>l. lex_source scan_patterns ''a b'' = Some l \<and>
    lex_resume scan_patterns (lx_tokens l) ''a b'' ''a bc'' (line_starts ''a bc'') 0 3 4 =
      lex_source scan_patterns ''a bc''"
proof -
  have b: "is_char_boundary (''a b'' @ ''c'' @ []) (length ''a b'')" "\<not> ends_int_dot ''a b''"
    by (simp_all add: is_char_boundary_def continuation_def ends_int_dot_def)
  let ?l = "\<lparr>lx_tokens = [mk_token (Tok_Name ''a'') (1, 1) 0 1, mk_token (Tok_Name ''b'') (1, 3) 2 3,
    mk_token Tok_Eof (1, 4) 3 3], lx_errors = []\<rparr>"
  have l: "lex_with scan_patterns (''a b'' @ [] @ []) (line_starts ([] @ ''a b'' @ [] @ [])) 0 = Some ?l"
    using lex_ab by (simp add: lex_source_def)
  have "lex_resume scan_patterns (lx_tokens ?l) (''a b'' @ [] @ []) (''a b'' @ ''c'' @ [])
      (line_starts ([] @ ''a b'' @ ''c'' @ [])) 0 3 4 =
    lex_with scan_patterns (''a b'' @ ''c'' @ []) (line_starts ([] @ ''a b'' @ ''c'' @ [])) 0"
    by (rule lex_resume_is_lex [where i = 1, OF scan_patterns_longest l _ refl])
      ((use b in simp; fail) | (simp add: numeral_3_eq_3; fail))+
  then show ?thesis using lex_ab by (simp add: lex_source_def)
qed


end
