(* ===== verification/Le_Bytes.thy ===== *)
theory Le_Bytes
  imports Lichen_Prelude
begin

unbundle bit_operations_syntax

text \<open>
  Machine integers as the bytes \<open>to_le_bytes\<close> lays out and \<open>from_le_bytes\<close> reads, lowest byte first,
  and the pieces \<open>chunks_exact\<close> cuts a slice of bytes into.
\<close>

section \<open>Little-endian bytes\<close>

text \<open>The bytes of the low \<open>n * 8\<close> bits.\<close>

primrec le_bytes :: "nat \<Rightarrow> 'a :: len word \<Rightarrow> u8 list" where
  "le_bytes 0 w = []"
| "le_bytes (Suc n) w = ucast w # le_bytes n (drop_bit 8 w)"

primrec from_le :: "u8 list \<Rightarrow> 'a :: len word" where
  "from_le [] = 0"
| "from_le (b # bs) = ucast b OR push_bit 8 (from_le bs)"

lemma length_le_bytes [simp]: "length (le_bytes n w) = n"
  by (induction n arbitrary: w) simp_all

lemma bit_from_le:
  "bit (from_le bs :: 'a :: len word) i \<longleftrightarrow>
     i < LENGTH('a) \<and> i div 8 < length bs \<and> bit (bs ! (i div 8)) (i mod 8)"
proof (induction bs arbitrary: i)
  case (Cons b bs)
  show ?case
  proof (cases "i < 8")
    case True
    then show ?thesis by (auto simp: bit_simps)
  next
    case False
    then obtain j where j: "i = j + 8" by (metis le_Suc_ex not_less add.commute)
    have "\<not> bit b i" using False by (auto dest: bit_imp_le_length)
    moreover have "(j + 8) div 8 = Suc (j div 8)" by simp
    ultimately show ?thesis unfolding j by (auto simp: bit_simps Cons.IH simp del: div_add_self2)
  qed
qed simp

lemma bit_nth_le_bytes:
  "k < n \<Longrightarrow> bit (le_bytes n (w :: 'a :: len word) ! k) j \<longleftrightarrow> j < 8 \<and> bit w (8 * k + j)"
proof (induction n arbitrary: w k)
  case (Suc n)
  then show ?case by (cases k) (auto simp: bit_simps ac_simps)
qed simp

text \<open>Reading the bytes of a word gives the word's low bits.\<close>

lemma from_le_bytes: "from_le (le_bytes n w) = (take_bit (8 * n) w :: 'a :: len word)"
proof (rule bit_word_eqI)
  fix i assume "i < LENGTH('a)"
  have "8 * (i div 8) + i mod 8 = i" by simp
  moreover have "i div 8 < n \<longleftrightarrow> i < 8 * n" by (auto simp: div_less_iff_less_mult)
  ultimately show "bit (from_le (le_bytes n w) :: 'a word) i \<longleftrightarrow> bit (take_bit (8 * n) w) i"
    using \<open>i < LENGTH('a)\<close> by (auto simp: bit_from_le bit_nth_le_bytes bit_take_bit_iff)
qed

lemma le_bytes_from_le:
  assumes "8 * length bs \<le> LENGTH('a :: len)"
  shows "le_bytes (length bs) (from_le bs :: 'a word) = bs"
proof (rule nth_equalityI, simp)
  fix k assume "k < length (le_bytes (length bs) (from_le bs :: 'a word))"
  then have k: "k < length bs" by simp
  show "le_bytes (length bs) (from_le bs :: 'a word) ! k = bs ! k"
  proof (rule bit_word_eqI)
    fix j assume "j < LENGTH(8)"
    then have "j < 8" by simp
    then have "(8 * k + j) div 8 = k" "(8 * k + j) mod 8 = j" "8 * k + j < LENGTH('a)"
      using k assms by (simp_all add: div_mult_self4)
    then show "bit (le_bytes (length bs) (from_le bs :: 'a word) ! k) j \<longleftrightarrow> bit (bs ! k) j"
      using \<open>j < 8\<close> k by (simp add: bit_nth_le_bytes bit_from_le)
  qed
qed

section \<open>Chunks\<close>

text \<open>\<open>chunks_exact\<close>: pieces of \<open>n\<close> bytes, without the rest a shorter tail leaves.\<close>

function chunks_exact :: "nat \<Rightarrow> 'a list \<Rightarrow> 'a list list" where
  "chunks_exact n xs =
     (if n = 0 \<or> length xs < n then [] else take n xs # chunks_exact n (drop n xs))"
  by auto
termination by (relation "measure (\<lambda>(n, xs). length xs)") auto

declare chunks_exact.simps [simp del]

lemma chunks_exact_step:
  "0 < n \<Longrightarrow> length c = n \<Longrightarrow> chunks_exact n (c @ xs) = c # chunks_exact n xs"
  by (subst chunks_exact.simps) simp

lemma chunks_exact_short: "length xs < n \<Longrightarrow> chunks_exact n xs = []"
  by (subst chunks_exact.simps) simp

lemma chunks_exact_concat:
  assumes "0 < n" "\<And>c. c \<in> set cs \<Longrightarrow> length c = n"
  shows "chunks_exact n (concat cs) = cs"
  using assms(2)
proof (induction cs)
  case Nil
  show ?case using assms(1) by (simp add: chunks_exact_short)
next
  case (Cons c cs)
  then show ?case using assms(1) by (simp add: chunks_exact_step)
qed

lemma chunks_exact_facts:
  assumes "0 < n"
  shows "concat (chunks_exact n xs) = take (n * (length xs div n)) xs"
    and "c \<in> set (chunks_exact n xs) \<Longrightarrow> length c = n"
    and "length (chunks_exact n xs) = length xs div n"
proof -
  have "concat (chunks_exact n xs) = take (n * (length xs div n)) xs \<and>
    (\<forall>c \<in> set (chunks_exact n xs). length c = n) \<and>
    length (chunks_exact n xs) = length xs div n"
    using assms
  proof (induction n xs rule: chunks_exact.induct)
    case (1 n xs)
    show ?case
    proof (cases "length xs < n")
      case True
      then show ?thesis by (simp add: chunks_exact_short)
    next
      case False
      then have eq: "chunks_exact n xs = take n xs # chunks_exact n (drop n xs)"
        using "1.prems" by (subst chunks_exact.simps) simp
      define k where "k = length (drop n xs) div n"
      have q: "length xs div n = Suc k"
        using False "1.prems" by (simp add: k_def le_div_geq)
      have IH: "concat (chunks_exact n (drop n xs)) = take (n * k) (drop n xs)"
        "\<forall>c \<in> set (chunks_exact n (drop n xs)). length c = n"
        "length (chunks_exact n (drop n xs)) = k"
        using "1.IH" False "1.prems" unfolding k_def by blast+
      have "take (n * Suc k) xs = take n xs @ take (n * k) (drop n xs)" by (simp add: take_add)
      moreover have "length (take n xs) = n" using False by simp
      ultimately show ?thesis unfolding eq q by (simp only: concat.simps list.set IH) (use IH in simp)
    qed
  qed
  then show "concat (chunks_exact n xs) = take (n * (length xs div n)) xs"
    "c \<in> set (chunks_exact n xs) \<Longrightarrow> length c = n"
    "length (chunks_exact n xs) = length xs div n" by auto
qed

end
