(* ===== verification/Backend.thy ===== *)
theory Backend
  imports Kernel_Fragment Le_Bytes
begin

text \<open>
  What a backend is handed and what it answers (\<open>lichen-kernel-ir/src/lib.rs\<close>): the slots of a dispatch,
  the batch, the submission in flight, and the operations of \<open>ParallelBackend\<close>.

  A backend is an argument: a record of its operations over a state of its own. An operation gives
  its answer and the state it leaves, also when it refuses.
\<close>

section \<open>Effects\<close>

type_synonym ('s, 'a, 'e) act = "'s \<Rightarrow> ('a, 'e) res \<times> 's"

definition act_ok :: "'a \<Rightarrow> ('s, 'a, 'e) act" where
  "act_ok a s = (Ok a, s)"

definition act_of :: "('a, 'e) res \<Rightarrow> ('s, 'a, 'e) act" where
  "act_of r s = (r, s)"

definition act_bind :: "('s, 'a, 'e) act \<Rightarrow> ('a \<Rightarrow> ('s, 'b, 'e) act) \<Rightarrow> ('s, 'b, 'e) act" where
  "act_bind m f s = (case m s of
      (Ok a, s') \<Rightarrow> f a s'
    | (Err e, s') \<Rightarrow> (Err e, s')
    | (Panic, s') \<Rightarrow> (Panic, s'))"

fun map_err :: "('e \<Rightarrow> 'f) \<Rightarrow> ('a, 'e) res \<Rightarrow> ('a, 'f) res" where
  "map_err f (Ok a) = Ok a"
| "map_err f (Err e) = Err (f e)"
| "map_err f Panic = Panic"

definition act_map_err :: "('e \<Rightarrow> 'f) \<Rightarrow> ('s, 'a, 'e) act \<Rightarrow> ('s, 'a, 'f) act" where
  "act_map_err f m s = (case m s of (r, s') \<Rightarrow> (map_err f r, s'))"

lemma act_bind_Ok:
  "act_bind m f s = (Ok b, s2) \<longleftrightarrow> (\<exists>a s1. m s = (Ok a, s1) \<and> f a s1 = (Ok b, s2))"
  by (auto simp: act_bind_def split: prod.splits res.splits)

lemma act_bind_Panic:
  "act_bind m f s = (Panic, s2) \<longleftrightarrow>
     m s = (Panic, s2) \<or> (\<exists>a s1. m s = (Ok a, s1) \<and> f a s1 = (Panic, s2))"
  by (auto simp: act_bind_def split: prod.splits res.splits)

lemma act_ok_iff [simp]: "act_ok a s = (r, s') \<longleftrightarrow> r = Ok a \<and> s' = s"
  by (auto simp: act_ok_def)

lemma act_of_iff [simp]: "act_of r s = (r', s') \<longleftrightarrow> r = r' \<and> s' = s"
  by (auto simp: act_of_def)

lemma act_bind_ok [simp]: "act_bind (act_ok a) f = f a"
  by (simp add: fun_eq_iff act_bind_def act_ok_def)

lemma map_err_Ok [simp]: "map_err f r = Ok a \<longleftrightarrow> r = Ok a"
  by (cases r) auto

lemma map_err_Panic [simp]: "map_err f r = Panic \<longleftrightarrow> r = Panic"
  by (cases r) auto

lemma map_err_Err: "map_err f r = Err e \<longleftrightarrow> (\<exists>d. r = Err d \<and> e = f d)"
  by (cases r) auto

lemma act_map_err_Ok [simp]: "act_map_err f m s = (Ok a, s') \<longleftrightarrow> m s = (Ok a, s')"
  by (auto simp: act_map_err_def split: prod.splits)

lemma act_map_err_Panic [simp]: "act_map_err f m s = (Panic, s') \<longleftrightarrow> m s = (Panic, s')"
  by (auto simp: act_map_err_def split: prod.splits)

section \<open>Dispatches\<close>

datatype buffer_slot = Host_slot "u8 list" | Resident_slot resident_id

datatype batch_input =
    Batch_host scalar_class "u8 list"
  | Batch_resident resident_id
  | Batch_produced nat nat

record dispatch =
  d_launch :: launch_set
  d_inputs :: "batch_input list"
  d_extent :: batch_extent

datatype 'r batch_refusal = Batch_cannot | Batch_refused 'r

definition BATCH_CANNOT :: string where
  "BATCH_CANNOT = ''this backend cannot record several dispatches into one submission''"

section \<open>The operations of a backend\<close>

text \<open>
  \<open>'s\<close> is the backend's state, \<open>'p\<close> a submission in flight and \<open>'r\<close> the sentence of a refusal.
\<close>

record ('s, 'p, 'r) backend =
  b_run :: "launch_set \<Rightarrow> buffer_slot list \<Rightarrow> nat \<Rightarrow> ('s, resident_id list, 'r) act"
  b_submit :: "launch_set \<Rightarrow> buffer_slot list \<Rightarrow> nat \<Rightarrow> ('s, 'p, 'r) act"
  b_outputs :: "'p \<Rightarrow> resident_id list"
  b_wait :: "'p \<Rightarrow> ('s, resident_id list, 'r) act"
  b_run_batch :: "dispatch list \<Rightarrow> ('s, resident_id list list, 'r batch_refusal) act"
  b_over_device :: "launch_set \<Rightarrow> buffer_slot list \<Rightarrow> device_extent \<Rightarrow>
    ('s, resident_id list, 'r) act"

text \<open>The operations the trait provides: a submission that has already finished, and no batch.\<close>

datatype waited = Waited "resident_id list"

fun waited_outputs :: "waited \<Rightarrow> resident_id list" where
  "waited_outputs (Waited ids) = ids"

fun waited_wait :: "waited \<Rightarrow> ('s, resident_id list, 'r) act" where
  "waited_wait (Waited ids) = act_ok ids"

definition default_submit ::
  "(launch_set \<Rightarrow> buffer_slot list \<Rightarrow> nat \<Rightarrow> ('s, resident_id list, 'r) act) \<Rightarrow>
   launch_set \<Rightarrow> buffer_slot list \<Rightarrow> nat \<Rightarrow> ('s, waited, 'r) act" where
  "default_submit run launch slots count =
     act_bind (run launch slots count) (\<lambda>ids. act_ok (Waited ids))"

definition default_run_batch ::
  "dispatch list \<Rightarrow> ('s, resident_id list list, 'r batch_refusal) act" where
  "default_run_batch batch s = (Err Batch_cannot, s)"

end
