(* ===== verification/Graph_IR.thy ===== *)
theory Graph_IR
  imports Backend
begin

text \<open>
  The graph of a recorded evaluation (\<open>lichen-graph-ir/src/graph.rs\<close>, with the refusals of
  \<open>refusal.rs\<close>): kernel nodes in evaluation order and the values they pass on. A value is named by
  its position in the table: the graph's arguments first, then each node's outputs in turn.

  An operation on \<open>&mut self\<close> answers the changed graph; where it refuses, the code has not yet
  changed anything.
\<close>

section \<open>Refusals\<close>

record fragment_shape =
  fs_inputs :: nat
  fs_outputs :: nat
  fs_flat_arity :: nat

definition shape_of :: "kernel_fragment \<Rightarrow> fragment_shape" where
  "shape_of f = \<lparr>fs_inputs = kf_inputs f, fs_outputs = kf_outputs f,
     fs_flat_arity = flat_arity (kf_param_shape f)\<rparr>"

text \<open>\<open>'r\<close> is the sentence a backend refuses with.\<close>

datatype 'r graph_refusal =
    Edge_before_its_producer nat nat nat
  | Output_count nat nat nat
  | No_such_node nat nat
  | Not_a_kernel_node nat string
  | Shape_disagrees nat fragment_shape fragment_shape
  | Unknown_value nat nat
  | Return_already_recorded nat
  | Run_arity nat nat
  | Input_arity nat nat nat
  | Not_buffer_data nat nat string
  | Count_not_a_number nat nat string
  | Count_negative u64
  | Scalar_arity nat nat nat
  | Scalar_not_a_number nat nat string
  | Scalar_class_mismatch nat nat scalar_class scalar_class
  | Extent_not_a_device nat nat string
  | Extent_is_not_in_flight nat
  | Policy_unsupported string string
  | Backend_refused string 'r

section \<open>Nodes\<close>

datatype scalar = Constant_scalar scalar_leaf | Value_scalar nat

datatype count = Constant_count nat | Value_count nat | Device_count nat nat

record kernel_node =
  kn_fragment :: kernel_fragment
  kn_inputs :: "nat list"
  kn_count :: count
  kn_scalars :: "scalar list"

datatype node = Kernel_node kernel_node

fun scalar_map_value :: "(nat \<Rightarrow> nat option) \<Rightarrow> scalar \<Rightarrow> scalar option" where
  "scalar_map_value f (Constant_scalar leaf) = Some (Constant_scalar leaf)"
| "scalar_map_value f (Value_scalar v) = map_option Value_scalar (f v)"

text \<open>\<open>None\<close> is the panic of a leaf the shape does not have.\<close>

definition scalar_class_of :: "kernel_fragment \<Rightarrow> nat \<Rightarrow> scalar_class option" where
  "scalar_class_of f ordinal = nth_opt (leaf_classes (kf_param_shape f)) (ordinal + 1)"

fun node_inputs :: "node \<Rightarrow> nat list" where
  "node_inputs (Kernel_node k) = kn_inputs k"

fun node_outputs :: "node \<Rightarrow> nat" where
  "node_outputs (Kernel_node k) = kf_outputs (kn_fragment k)"

fun node_kind :: "node \<Rightarrow> string" where
  "node_kind (Kernel_node _) = ''a kernel node''"

text \<open>\<open>fragment_mut\<close>: the fragment a node holds, and the node with another one in its place.\<close>

fun node_fragment :: "node \<Rightarrow> kernel_fragment option" where
  "node_fragment (Kernel_node k) = Some (kn_fragment k)"

fun set_fragment :: "kernel_fragment \<Rightarrow> node \<Rightarrow> node" where
  "set_fragment f (Kernel_node k) = Kernel_node (k\<lparr>kn_fragment := f\<rparr>)"

section \<open>Graphs\<close>

record graph =
  g_nodes :: "node list"
  g_inputs :: nat
  g_values :: nat
  g_returns :: "nat list option"

definition with_inputs :: "nat \<Rightarrow> graph" where
  "with_inputs inputs = \<lparr>g_nodes = [], g_inputs = inputs, g_values = inputs, g_returns = None\<rparr>"

definition usize_max :: nat where
  "usize_max = 2 ^ 64 - 1"

definition returning :: "nat list \<Rightarrow> graph \<Rightarrow> (graph, 'r graph_refusal) res" where
  "returning vs g = (case g_returns g of
      Some recorded \<Rightarrow> Err (Return_already_recorded (length recorded))
    | None \<Rightarrow>
        (case List.find (\<lambda>v. g_values g \<le> v) vs of
           Some bad \<Rightarrow> Err (Unknown_value usize_max bad)
         | None \<Rightarrow> Ok (g\<lparr>g_returns := Some vs\<rparr>)))"

definition push :: "node \<Rightarrow> nat \<Rightarrow> graph \<Rightarrow> (nat \<times> graph, 'r graph_refusal) res" where
  "push node outputs g =
     (let declared = node_outputs node in
      if declared \<noteq> outputs then Err (Output_count (length (g_nodes g)) declared outputs)
      else (case List.find (\<lambda>v. g_values g \<le> v) (node_inputs node) of
          Some bad \<Rightarrow> Err (Edge_before_its_producer (length (g_nodes g)) bad (g_values g))
        | None \<Rightarrow>
            let first = g_values g
            in Ok (first, g\<lparr>g_values := g_values g + outputs, g_nodes := g_nodes g @ [node]\<rparr>)))"

definition replace_kernel :: "nat \<Rightarrow> kernel_fragment \<Rightarrow> graph \<Rightarrow> (graph, 'r graph_refusal) res" where
  "replace_kernel node fragment g =
     (case nth_opt (g_nodes g) node of
        None \<Rightarrow> Err (No_such_node node (length (g_nodes g)))
      | Some held \<Rightarrow>
          (case node_fragment held of
             None \<Rightarrow> Err (Not_a_kernel_node node (node_kind held))
           | Some slot \<Rightarrow>
               let had = shape_of slot; got = shape_of fragment in
               if had \<noteq> got then Err (Shape_disagrees node had got)
               else Ok (g\<lparr>g_nodes := (g_nodes g)[node := set_fragment fragment held]\<rparr>)))"

definition graph_len :: "graph \<Rightarrow> nat" where
  "graph_len g = length (g_nodes g)"

definition graph_is_empty :: "graph \<Rightarrow> bool" where
  "graph_is_empty g \<longleftrightarrow> g_nodes g = []"

section \<open>The graphs the operations build\<close>

inductive built_graph :: "graph \<Rightarrow> bool" where
  start: "built_graph (with_inputs n)"
| returning: "built_graph g \<Longrightarrow> returning vs g = (Ok g' :: (graph, unit graph_refusal) res) \<Longrightarrow>
    built_graph g'"
| push: "built_graph g \<Longrightarrow> push node outputs g = (Ok (first, g') :: (_, unit graph_refusal) res) \<Longrightarrow>
    built_graph g'"
| replace: "built_graph g \<Longrightarrow> replace_kernel i f g = (Ok g' :: (graph, unit graph_refusal) res) \<Longrightarrow>
    built_graph g'"

text \<open>The value a node's first output has.\<close>

definition first_value :: "graph \<Rightarrow> nat \<Rightarrow> nat" where
  "first_value g i = g_inputs g + sum_list (map node_outputs (take i (g_nodes g)))"

text \<open>
  The table has the arguments and every node's outputs, an edge names a value that a node before it
  produces, and the return names values of the table.
\<close>

definition graph_ok :: "graph \<Rightarrow> bool" where
  "graph_ok g \<longleftrightarrow>
     g_values g = first_value g (length (g_nodes g)) \<and>
     (\<forall>i < length (g_nodes g). \<forall>v \<in> set (node_inputs (g_nodes g ! i)). v < first_value g i) \<and>
     (\<forall>vs. g_returns g = Some vs \<longrightarrow> (\<forall>v \<in> set vs. v < g_values g))"

lemma first_value_Suc:
  "i < length (g_nodes g) \<Longrightarrow>
   first_value g (Suc i) = first_value g i + node_outputs (g_nodes g ! i)"
  by (simp add: first_value_def take_Suc_conv_app_nth)

lemma first_value_mono: "i \<le> j \<Longrightarrow> first_value g i \<le> first_value g j"
  by (simp add: first_value_def)
    (metis le_add1 le_add_diff_inverse map_append sum_list_append take_add)

lemma node_inputs_set [simp]: "node_inputs (set_fragment f n) = node_inputs n"
  by (cases n) simp

lemma node_outputs_set [simp]: "node_outputs (set_fragment f n) = kf_outputs f"
  by (cases n) simp

lemma shape_of_outputs: "shape_of f = shape_of h \<Longrightarrow> kf_outputs f = kf_outputs h"
  by (simp add: shape_of_def)

lemma returning_Ok:
  "returning vs g = Ok g' \<longleftrightarrow>
     g_returns g = None \<and> (\<forall>v \<in> set vs. v < g_values g) \<and> g' = g\<lparr>g_returns := Some vs\<rparr>"
  by (auto simp: returning_def find_None_iff find_Some_iff not_le split: option.splits)
      (use nth_mem in fastforce)?

lemma push_Ok:
  "push node outputs g = Ok (first, g') \<longleftrightarrow>
     node_outputs node = outputs \<and> (\<forall>v \<in> set (node_inputs node). v < g_values g) \<and>
     first = g_values g \<and>
     g' = g\<lparr>g_values := g_values g + outputs, g_nodes := g_nodes g @ [node]\<rparr>"
  by (auto simp: push_def Let_def find_None_iff find_Some_iff not_le split: option.splits if_splits)
      (use nth_mem in fastforce)?

lemma replace_kernel_Ok:
  "replace_kernel i f g = Ok g' \<longleftrightarrow>
     i < length (g_nodes g) \<and>
     (\<exists>k. g_nodes g ! i = Kernel_node k \<and> shape_of (kn_fragment k) = shape_of f) \<and>
     g' = g\<lparr>g_nodes := (g_nodes g)[i := set_fragment f (g_nodes g ! i)]\<rparr>"
proof (cases "i < length (g_nodes g)")
  case True
  then show ?thesis
    by (cases "g_nodes g ! i") (auto simp: replace_kernel_def nth_opt_def Let_def split: if_splits)
qed (simp add: replace_kernel_def nth_opt_def)

lemma map_node_outputs_replace:
  assumes "replace_kernel i f g = Ok g'"
  shows "map node_outputs (g_nodes g') = map node_outputs (g_nodes g)"
    and "map node_inputs (g_nodes g') = map node_inputs (g_nodes g)"
proof -
  from assms obtain k where k: "i < length (g_nodes g)" "g_nodes g ! i = Kernel_node k"
    "shape_of (kn_fragment k) = shape_of f" "g' = g\<lparr>g_nodes := (g_nodes g)[i := set_fragment f (g_nodes g ! i)]\<rparr>"
    by (auto simp: replace_kernel_Ok)
  have "kf_outputs f = node_outputs (g_nodes g ! i)"
    using k(2) shape_of_outputs [OF k(3)] by simp
  then show "map node_outputs (g_nodes g') = map node_outputs (g_nodes g)"
    using k(1) by (auto simp: k(4) nth_list_update intro!: nth_equalityI)
  show "map node_inputs (g_nodes g') = map node_inputs (g_nodes g)"
    using k(1) by (auto simp: k(4) nth_list_update intro!: nth_equalityI)
qed

lemma first_value_cong:
  assumes "map node_outputs (g_nodes g') = map node_outputs (g_nodes g)" "g_inputs g' = g_inputs g"
  shows "first_value g' i = first_value g i"
  using assms by (simp add: first_value_def take_map [symmetric])

lemma first_value_append:
  "i \<le> length (g_nodes g) \<Longrightarrow>
   first_value (g\<lparr>g_values := n, g_nodes := g_nodes g @ [node]\<rparr>) i = first_value g i"
  by (simp add: first_value_def)

lemma graph_ok_push:
  assumes "graph_ok g" "push node outputs g = Ok (first, g')"
  shows "graph_ok g'"
proof -
  have p: "node_outputs node = outputs" "\<forall>v \<in> set (node_inputs node). v < g_values g"
    and g': "g' = g\<lparr>g_values := g_values g + outputs, g_nodes := g_nodes g @ [node]\<rparr>"
    using assms(2) by (auto simp: push_Ok)
  have "first_value g' (Suc (length (g_nodes g))) = g_values g + outputs"
    using assms(1) p(1) by (subst first_value_Suc) (simp_all add: g' first_value_append graph_ok_def)
  then show ?thesis
    using assms(1) p
    by (auto simp: graph_ok_def g' nth_append first_value_append less_Suc_eq trans_less_add1)
qed

lemma built_graph_ok: "built_graph g \<Longrightarrow> graph_ok g"
proof (induction rule: built_graph.induct)
  case (start n)
  show ?case by (simp add: graph_ok_def with_inputs_def first_value_def)
next
  case (returning g vs g')
  then show ?case by (auto simp: returning_Ok graph_ok_def first_value_def)
next
  case (push g node outputs first g')
  then show ?case by (blast intro: graph_ok_push)
next
  case (replace g i f g')
  have eqs: "map node_outputs (g_nodes g') = map node_outputs (g_nodes g)"
    "map node_inputs (g_nodes g') = map node_inputs (g_nodes g)"
    using map_node_outputs_replace [OF replace.hyps(2)] by simp_all
  have len: "length (g_nodes g') = length (g_nodes g)" using eqs(1) by (rule map_eq_imp_length_eq)
  have same: "g_inputs g' = g_inputs g" "g_values g' = g_values g" "g_returns g' = g_returns g"
    using replace.hyps(2) by (auto simp: replace_kernel_Ok)
  have ins: "node_inputs (g_nodes g' ! i) = node_inputs (g_nodes g ! i)"
    if "i < length (g_nodes g)" for i
    using eqs(2) that len by (metis nth_map)
  show ?case
    using replace.IH unfolding graph_ok_def first_value_cong [OF eqs(1) same(1)] len same
    by (metis ins)
qed

end
