(* ===== verification/Graph_Value.thy ===== *)
theory Graph_Value
  imports Graph_IR
begin

text \<open>
  The values of a graph's table (\<open>lichen-graph-ir/src/value.rs\<close>): a submission that may still be running,
  a buffer that was waited for, host data, a number.

  The outputs of one submission share it behind a lock, and the first of them to be settled takes
  it out. The shared place is a cell of a store: \<open>Some\<close> submission, or \<open>None\<close> once it was taken.
\<close>

section \<open>Payloads\<close>

text \<open>\<open>pack\<close> and \<open>elements\<close>: a word per element, at the width of the class.\<close>

fun pack_word :: "scalar_class \<Rightarrow> u64 \<Rightarrow> u8 list" where
  "pack_word Int_class w = le_bytes 8 w"
| "pack_word Float_class w = le_bytes 4 (ucast w :: u32)"
| "pack_word BFloat16_class w = take 2 (le_bytes 4 (drop_bit 16 (ucast w :: u32)))"

definition pack :: "scalar_class \<Rightarrow> u64 list \<Rightarrow> u8 list" where
  "pack c ws = concat (map (pack_word c) ws)"

fun element_word :: "scalar_class \<Rightarrow> u8 list \<Rightarrow> u64" where
  "element_word Int_class bs = from_le bs"
| "element_word Float_class bs = ucast (from_le bs :: u32)"
| "element_word BFloat16_class bs = push_bit 16 (ucast (ucast (from_le bs :: u16) :: u32))"

definition payload_elements :: "scalar_class \<Rightarrow> u8 list \<Rightarrow> u64 list" where
  "payload_elements c bs = map (element_word c) (chunks_exact (byte_width c) bs)"

section \<open>Values\<close>

datatype graph_value =
    Pending_value nat resident_id nat scalar_class
  | Device_value resident_id nat scalar_class
  | Host_value "u8 list" scalar_class
  | Int_value u64
  | Float_value f32

datatype bits_refusal = Not_a_number string | Other_class scalar_class

definition host :: "u64 list \<Rightarrow> graph_value" where
  "host es = Host_value (pack Int_class es) Int_class"

definition host_data :: "scalar_class \<Rightarrow> u8 list \<Rightarrow> graph_value" where
  "host_data c bs = Host_value bs c"

fun value_class_of :: "graph_value \<Rightarrow> scalar_class option" where
  "value_class_of (Host_value _ c) = Some c"
| "value_class_of (Device_value _ _ c) = Some c"
| "value_class_of (Pending_value _ _ _ c) = Some c"
| "value_class_of (Float_value _) = Some Float_class"
| "value_class_of (Int_value _) = None"

fun value_state :: "graph_value \<Rightarrow> string" where
  "value_state (Host_value _ _) = ''host data''"
| "value_state (Device_value _ _ _) = ''a device buffer that was waited for''"
| "value_state (Pending_value _ _ _ _) = ''a submission that has not been waited for''"
| "value_state (Int_value _) = ''a number''"
| "value_state (Float_value _) = ''a float''"

definition counts_at :: "nat list \<Rightarrow> nat \<Rightarrow> nat" where
  "counts_at counts ordinal = (case nth_opt counts ordinal of Some n \<Rightarrow> n | None \<Rightarrow> 0)"

definition class_at :: "scalar_class list \<Rightarrow> nat \<Rightarrow> scalar_class" where
  "class_at classes ordinal = (case nth_opt classes ordinal of Some c \<Rightarrow> c | None \<Rightarrow> Int_class)"

text \<open>\<open>pending_all\<close>: the new cell is the next free place of the store.\<close>

definition pending_all :: "nat \<Rightarrow> resident_id list \<Rightarrow> nat list \<Rightarrow> scalar_class list \<Rightarrow>
    graph_value list" where
  "pending_all cell ids counts classes =
     map (\<lambda>(ordinal, rid). Pending_value cell rid (counts_at counts ordinal) (class_at classes ordinal))
       (enumerate 0 ids)"

definition device_all :: "resident_id list \<Rightarrow> nat list \<Rightarrow> scalar_class list \<Rightarrow> graph_value list" where
  "device_all ids counts classes =
     map (\<lambda>(ordinal, rid). Device_value rid (counts_at counts ordinal) (class_at classes ordinal))
       (enumerate 0 ids)"

fun value_slot :: "graph_value \<Rightarrow> (buffer_slot, string) res" where
  "value_slot (Host_value bs _) = Ok (Host_slot bs)"
| "value_slot (Device_value rid _ _) = Ok (Resident_slot rid)"
| "value_slot (Pending_value _ rid _ _) = Ok (Resident_slot rid)"
| "value_slot v = Err (value_state v)"

fun device_buffer :: "graph_value \<Rightarrow> (resident_id, string) res" where
  "device_buffer (Device_value rid _ _) = Ok rid"
| "device_buffer (Pending_value _ rid _ _) = Ok rid"
| "device_buffer v = Err (value_state v)"

fun value_elements :: "graph_value \<Rightarrow> u64 list option" where
  "value_elements (Host_value bs c) = Some (payload_elements c bs)"
| "value_elements _ = None"

fun as_number :: "graph_value \<Rightarrow> (u64, string) res" where
  "as_number (Int_value n) = Ok n"
| "as_number v = Err (value_state v)"

fun bits_at :: "graph_value \<Rightarrow> scalar_class \<Rightarrow> (u64, bits_refusal) res" where
  "bits_at (Int_value n) Int_class = Ok n"
| "bits_at (Float_value x) Float_class = Ok (ucast x)"
| "bits_at (Int_value n) Float_class = Err (Other_class Int_class)"
| "bits_at (Float_value x) Int_class = Err (Other_class Float_class)"
| "bits_at v _ = Err (Not_a_number (value_state v))"

fun value_count :: "graph_value \<Rightarrow> nat option" where
  "value_count (Host_value bs c) = Some (length bs div byte_width c)"
| "value_count (Device_value _ n _) = Some n"
| "value_count (Pending_value _ _ n _) = Some n"
| "value_count _ = None"

fun is_ready :: "graph_value \<Rightarrow> bool" where
  "is_ready (Pending_value _ _ _ _) = False"
| "is_ready _ = True"

section \<open>Settling\<close>

record ('s, 'p) run_state =
  rs_backend :: 's
  rs_cells :: "'p option list"

text \<open>An operation of the backend leaves the cells as they are.\<close>

definition on_backend :: "('s, 'a, 'e) act \<Rightarrow> (('s, 'p) run_state, 'a, 'e) act" where
  "on_backend m rs = (case m (rs_backend rs) of (r, s) \<Rightarrow> (r, rs\<lparr>rs_backend := s\<rparr>))"

text \<open>A cell the store does not have is not an address the code can hold.\<close>

definition settle :: "('s, 'p, 'r) backend \<Rightarrow> graph_value \<Rightarrow>
    (('s, 'p) run_state, graph_value, 'r graph_refusal) act" where
  "settle B v = (case v of
      Pending_value cell rid count c \<Rightarrow> (\<lambda>rs.
        (case nth_opt (rs_cells rs) cell of
           None \<Rightarrow> (Panic, rs)
         | Some waiting \<Rightarrow>
             let rs = rs\<lparr>rs_cells := (rs_cells rs)[cell := None]\<rparr> in
             (case waiting of
                None \<Rightarrow> (Ok (Device_value rid count c), rs)
              | Some p \<Rightarrow>
                  act_bind
                    (act_map_err (Backend_refused ''waiting for a submission'')
                      (on_backend (b_wait B p)))
                    (\<lambda>_. act_ok (Device_value rid count c)) rs)))
    | _ \<Rightarrow> act_ok v)"

fun settle_all :: "('s, 'p, 'r) backend \<Rightarrow> graph_value list \<Rightarrow>
    (('s, 'p) run_state, graph_value list, 'r graph_refusal) act" where
  "settle_all B [] = act_ok []"
| "settle_all B (v # vs) = act_bind (settle B v) (\<lambda>w. act_bind (settle_all B vs) (\<lambda>ws. act_ok (w # ws)))"

section \<open>Payload facts\<close>

lemma length_pack_word [simp]: "length (pack_word c w) = byte_width c"
  by (cases c) simp_all

lemma byte_width_pos [simp]: "0 < byte_width c"
  by (cases c) simp_all

text \<open>What a word keeps at a class: everything, the low half, the high half of the low half.\<close>

fun kept_bits :: "scalar_class \<Rightarrow> u64 \<Rightarrow> u64" where
  "kept_bits Int_class w = w"
| "kept_bits Float_class w = take_bit 32 w"
| "kept_bits BFloat16_class w = push_bit 16 (drop_bit 16 (take_bit 32 w))"

lemma take_le_bytes: "n \<le> m \<Longrightarrow> take n (le_bytes m w) = le_bytes n w"
proof (induction n arbitrary: m w)
  case (Suc n)
  then show ?case by (cases m) simp_all
qed simp

lemma element_pack_word: "element_word c (pack_word c w) = kept_bits c w"
proof (cases c)
  case BFloat16_class
  show ?thesis unfolding BFloat16_class
    by (rule bit_word_eqI)
      (auto simp: take_le_bytes bit_simps bit_from_le bit_nth_le_bytes)
next
  case Float_class
  show ?thesis unfolding Float_class
    by (rule bit_word_eqI) (auto simp: from_le_bytes bit_simps)
qed (simp add: from_le_bytes take_bit_word_eq_self)

lemma pack_element_word:
  assumes "length bs = byte_width c"
  shows "pack_word c (element_word c bs) = bs"
proof (cases c)
  case Int_class
  then show ?thesis using assms le_bytes_from_le [of bs, where 'a = 64] by simp
next
  case Float_class
  have "ucast (ucast (from_le bs :: u32) :: u64) = (from_le bs :: u32)"
    by (rule bit_word_eqI) (simp add: bit_simps)
  then show ?thesis using assms Float_class le_bytes_from_le [of bs, where 'a = 32] by simp
next
  case BFloat16_class
  have "le_bytes 2 (drop_bit 16 (ucast (push_bit 16 (ucast (ucast (from_le bs :: u16) :: u32)) :: u64)) :: u32) =
      le_bytes 2 (from_le bs :: u16)"
    by (rule nth_equalityI) (auto simp: bit_nth_le_bytes bit_simps intro!: bit_word_eqI)
  then show ?thesis using assms BFloat16_class le_bytes_from_le [of bs, where 'a = 16]
    by (simp add: take_le_bytes)
qed

lemma elements_pack: "payload_elements c (pack c ws) = map (kept_bits c) ws"
  unfolding payload_elements_def pack_def
  by (subst chunks_exact_concat) (auto simp: element_pack_word)

lemma pack_elements:
  "pack c (payload_elements c bs) = take (byte_width c * (length bs div byte_width c)) bs"
proof -
  have "pack c (payload_elements c bs) = concat (chunks_exact (byte_width c) bs)"
    unfolding payload_elements_def pack_def map_map
    by (rule arg_cong [where f = concat], rule map_idI)
      (simp add: pack_element_word chunks_exact_facts(2) [OF byte_width_pos])
  then show ?thesis by (simp add: chunks_exact_facts(1))
qed

section \<open>Settling facts\<close>

lemma length_device_all [simp]: "length (device_all ids counts classes) = length ids"
  by (simp add: device_all_def)

lemma length_pending_all [simp]: "length (pending_all cell ids counts classes) = length ids"
  by (simp add: pending_all_def)

text \<open>What a value is once it was waited for.\<close>

fun once_settled :: "graph_value \<Rightarrow> graph_value" where
  "once_settled (Pending_value cell rid count c) = Device_value rid count c"
| "once_settled v = v"

lemma settled_ready [simp]: "is_ready (once_settled v)"
  by (cases v) simp_all

lemma settled_pending_all: "map once_settled (pending_all cell ids counts classes) = device_all ids counts classes"
  by (simp add: pending_all_def device_all_def case_prod_beta comp_def)

lemma settled_device_all [simp]: "map once_settled (device_all ids counts classes) = device_all ids counts classes"
  by (simp add: device_all_def case_prod_beta comp_def)

lemma settle_Ok: "settle B v rs = (Ok w, rs') \<Longrightarrow> w = once_settled v"
  by (auto simp: settle_def act_bind_Ok Let_def split: graph_value.splits option.splits)

lemma settle_ready: "is_ready v \<Longrightarrow> settle B v = act_ok v"
  by (cases v) (simp_all add: settle_def)

lemma settle_all_Ok: "settle_all B vs rs = (Ok ws, rs') \<Longrightarrow> ws = map once_settled vs"
  by (induction vs arbitrary: ws rs) (auto simp: act_bind_Ok dest: settle_Ok)

lemma settle_all_ready: "list_all is_ready vs \<Longrightarrow> settle_all B vs = act_ok vs"
  by (induction vs) (auto simp: settle_ready)

end
