(* ===== verification/Graph_Run.thy ===== *)
theory Graph_Run
  imports Graph_Value
begin

text \<open>
  Running a graph against a backend (\<open>lichen-graph-ir/src/run.rs\<close>): a node is resolved against the value
  table, then dispatched by the policy, or the whole graph is resolved and handed over as one batch.
\<close>

datatype policy = Serial | Async | Batch

datatype source = Given | Produced nat nat

record planned =
  pl_launch :: launch_set
  pl_inputs :: "batch_input list"
  pl_extent :: batch_extent
  pl_classes :: "scalar_class list"
  pl_counts :: "nat list"

section \<open>Resolving a node\<close>

text \<open>An iterator of results collected: the first refusal ends it.\<close>

fun collect_res :: "('a \<Rightarrow> ('b, 'e) res) \<Rightarrow> 'a list \<Rightarrow> ('b list, 'e) res" where
  "collect_res f [] = Ok []"
| "collect_res f (x # xs) = res_bind (f x) (\<lambda>y. res_bind (collect_res f xs) (\<lambda>ys. Ok (y # ys)))"

definition ok_or :: "'e \<Rightarrow> 'a option \<Rightarrow> ('a, 'e) res" where
  "ok_or e x = (case x of Some a \<Rightarrow> Ok a | None \<Rightarrow> Err e)"

definition plan_input :: "nat \<Rightarrow> graph_value list \<Rightarrow> source list \<Rightarrow> nat \<Rightarrow>
    (batch_input, 'r graph_refusal) res" where
  "plan_input node vs sources v =
     (case nth_opt sources v of
        Some (Produced dispatch ordinal) \<Rightarrow> Ok (Batch_produced dispatch ordinal)
      | _ \<Rightarrow>
          res_bind (ok_or (Unknown_value node v) (nth_opt vs v)) (\<lambda>held. case held of
             Host_value data c \<Rightarrow> Ok (Batch_host c data)
           | Device_value rid _ _ \<Rightarrow> Ok (Batch_resident rid)
           | Pending_value _ rid _ _ \<Rightarrow> Ok (Batch_resident rid)
           | other \<Rightarrow> Err (Not_buffer_data node v (value_state other))))"

text \<open>
  The arm of an extent on the device names the element \<open>index\<close>, as it names the node outside, so its
  refusals name the element.
\<close>

definition plan_extent :: "nat \<Rightarrow> graph_value list \<Rightarrow> source list \<Rightarrow> nat list \<Rightarrow> count \<Rightarrow>
    (batch_extent, 'r graph_refusal) res" where
  "plan_extent node vs sources allocations c = (case c of
      Constant_count n \<Rightarrow> Ok (Host_extent n)
    | Value_count v \<Rightarrow>
        res_bind (ok_or (Unknown_value node v) (nth_opt vs v)) (\<lambda>held.
        res_bind (map_err (Count_not_a_number node v) (as_number held)) (\<lambda>number.
        if sint number < 0 then Err (Count_negative number) else Ok (Host_extent (nat (sint number)))))
    | Device_count v index \<Rightarrow>
        (case nth_opt sources v of
           Some (Produced dispatch ordinal) \<Rightarrow>
             Ok (Produced_extent dispatch ordinal index
               (case nth_opt allocations dispatch of Some n \<Rightarrow> n | None \<Rightarrow> 0))
         | _ \<Rightarrow>
             res_bind (ok_or (Unknown_value index v) (nth_opt vs v)) (\<lambda>counted.
             res_bind (map_err (Extent_not_a_device index v) (device_buffer counted)) (\<lambda>buffer.
             Ok (Resident_extent buffer index
               (case value_count counted of Some n \<Rightarrow> n | None \<Rightarrow> 0))))))"

text \<open>\<open>Vec::resize\<close>: shorter is cut, longer is filled.\<close>

definition resize :: "nat \<Rightarrow> 'a \<Rightarrow> 'a list \<Rightarrow> 'a list" where
  "resize n x xs = take n xs @ replicate (n - length xs) x"

definition output_counts :: "kernel_fragment \<Rightarrow> nat \<Rightarrow> nat list" where
  "output_counts f launch =
     resize (kf_outputs f) launch
       (map (\<lambda>extent. case extent of Some n \<Rightarrow> unat n | None \<Rightarrow> launch)
         (r_output_extents (kf_roles f)))"

definition scalar_refused :: "nat \<Rightarrow> nat \<Rightarrow> scalar_class \<Rightarrow> bits_refusal \<Rightarrow> 'r graph_refusal" where
  "scalar_refused node v c refused = (case refused of
      Not_a_number found \<Rightarrow> Scalar_not_a_number node v found
    | Other_class found \<Rightarrow> Scalar_class_mismatch node v c found)"

definition leaf_of :: "nat \<Rightarrow> kernel_node \<Rightarrow> graph_value list \<Rightarrow> nat \<times> scalar \<Rightarrow>
    (scalar_leaf, 'r graph_refusal) res" where
  "leaf_of node k vs = (\<lambda>(ordinal, scalar).
     expect_some (scalar_class_of (kn_fragment k) ordinal) (\<lambda>c.
     case scalar of
       Constant_scalar leaf \<Rightarrow> Ok (leaf\<lparr>leaf_class := c\<rparr>)
     | Value_scalar v \<Rightarrow>
         res_bind (ok_or (Unknown_value node v) (nth_opt vs v)) (\<lambda>held.
         res_bind (map_err (scalar_refused node v c) (bits_at held c)) (\<lambda>bits.
         Ok \<lparr>leaf_class = c, leaf_bits = bits\<rparr>))))"

definition leaves_of :: "nat \<Rightarrow> kernel_node \<Rightarrow> graph_value list \<Rightarrow>
    (scalar_leaf list, 'r graph_refusal) res" where
  "leaves_of node k vs =
     (let wanted = runtime_scalars (kn_fragment k) in
      if length (kn_scalars k) \<noteq> wanted
      then Err (Scalar_arity node wanted (length (kn_scalars k)))
      else collect_res (leaf_of node k vs) (enumerate 0 (kn_scalars k)))"

definition plan :: "nat \<Rightarrow> kernel_node \<Rightarrow> graph_value list \<Rightarrow> source list \<Rightarrow> nat list \<Rightarrow>
    (planned, 'r graph_refusal) res" where
  "plan node k vs sources allocations =
     (let wanted = kf_inputs (kn_fragment k) in
      if length (kn_inputs k) \<noteq> wanted then Err (Input_arity node wanted (length (kn_inputs k)))
      else
        res_bind (collect_res (plan_input node vs sources) (kn_inputs k)) (\<lambda>inputs.
        res_bind (plan_extent node vs sources allocations (kn_count k)) (\<lambda>extent.
        res_bind (leaves_of node k vs) (\<lambda>leaves.
        Ok \<lparr>pl_launch = with_leaves leaves (launch_single (kn_fragment k)),
          pl_inputs = inputs, pl_extent = extent,
          pl_classes = kf_output_classes (kn_fragment k),
          pl_counts = output_counts (kn_fragment k) (allocated extent)\<rparr>))))"

section \<open>Dispatching a node\<close>

definition issued_at :: "resident_id list list \<Rightarrow> nat \<Rightarrow> nat \<Rightarrow> resident_id option" where
  "issued_at issued dispatch ordinal =
     Option.bind (nth_opt issued dispatch) (\<lambda>ids. nth_opt ids ordinal)"

definition slot_of :: "resident_id list list \<Rightarrow> nat \<Rightarrow> batch_input \<Rightarrow>
    (buffer_slot, 'r graph_refusal) res" where
  "slot_of issued node input = (case input of
      Batch_host _ data \<Rightarrow> Ok (Host_slot data)
    | Batch_resident rid \<Rightarrow> Ok (Resident_slot rid)
    | Batch_produced dispatch ordinal \<Rightarrow>
        res_bind (ok_or (Unknown_value node ordinal) (issued_at issued dispatch ordinal))
          (\<lambda>rid. Ok (Resident_slot rid)))"

definition slots_of :: "batch_input list \<Rightarrow> resident_id list list \<Rightarrow> nat \<Rightarrow>
    (buffer_slot list, 'r graph_refusal) res" where
  "slots_of inputs issued node = collect_res (slot_of issued node) inputs"

definition over_device :: "('s, 'p, 'r) backend \<Rightarrow> planned \<Rightarrow> buffer_slot list \<Rightarrow> device_extent \<Rightarrow>
    ('s, resident_id list, 'r graph_refusal) act" where
  "over_device B pl slots device =
     act_map_err (Backend_refused ''dispatching a kernel node over a device-held count'')
       (b_over_device B (pl_launch pl) slots device)"

definition dispatch_serial :: "('s, 'p, 'r) backend \<Rightarrow> planned \<Rightarrow> buffer_slot list \<Rightarrow>
    resident_id list list \<Rightarrow> ('s, resident_id list, 'r graph_refusal) act" where
  "dispatch_serial B pl slots issued = (case pl_extent pl of
      Host_extent count \<Rightarrow>
        act_map_err (Backend_refused ''dispatching a kernel node'')
          (b_run B (pl_launch pl) slots count)
    | Resident_extent buffer index capacity \<Rightarrow>
        over_device B pl slots \<lparr>de_count = buffer, de_index = index, de_capacity = capacity\<rparr>
    | Produced_extent dispatch ordinal index capacity \<Rightarrow>
        (case issued_at issued dispatch ordinal of
           None \<Rightarrow> act_of Panic
         | Some buffer \<Rightarrow>
             over_device B pl slots \<lparr>de_count = buffer, de_index = index, de_capacity = capacity\<rparr>))"

text \<open>A new submission gets the next cell of the store.\<close>

definition new_cell :: "'p \<Rightarrow> (('s, 'p) run_state, nat, 'e) act" where
  "new_cell p rs = (Ok (length (rs_cells rs)), rs\<lparr>rs_cells := rs_cells rs @ [Some p]\<rparr>)"

definition dispatch_node :: "('s, 'p, 'r) backend \<Rightarrow> policy \<Rightarrow> nat \<Rightarrow> planned \<Rightarrow> buffer_slot list \<Rightarrow>
    resident_id list list \<Rightarrow>
    (('s, 'p) run_state, graph_value list \<times> resident_id list, 'r graph_refusal) act" where
  "dispatch_node B policy node pl slots issued = (case policy of
      Serial \<Rightarrow>
        act_bind (on_backend (dispatch_serial B pl slots issued)) (\<lambda>ids.
        act_ok (device_all ids (pl_counts pl) (pl_classes pl), ids))
    | _ \<Rightarrow>
        (case pl_extent pl of
           Host_extent count \<Rightarrow>
             act_bind (act_map_err (Backend_refused ''submitting a kernel node'')
               (on_backend (b_submit B (pl_launch pl) slots count))) (\<lambda>p.
             let ids = b_outputs B p in
             act_bind (new_cell p) (\<lambda>cell.
             act_ok (pending_all cell ids (pl_counts pl) (pl_classes pl), ids)))
         | _ \<Rightarrow> act_of (Err (Extent_is_not_in_flight node))))"

section \<open>Running a graph\<close>

text \<open>What the loop over the nodes keeps.\<close>

record progress =
  pr_values :: "graph_value list"
  pr_sources :: "source list"
  pr_allocated :: "nat list"
  pr_issued :: "resident_id list list"

definition start_progress :: "graph_value list \<Rightarrow> progress" where
  "start_progress vs = \<lparr>pr_values = vs, pr_sources = replicate (length vs) Given,
     pr_allocated = [], pr_issued = []\<rparr>"

definition produced_sources :: "nat \<Rightarrow> nat \<Rightarrow> source list" where
  "produced_sources node n = map (Produced node) [0..<n]"

definition node_step :: "('s, 'p, 'r) backend \<Rightarrow> policy \<Rightarrow> nat \<Rightarrow> node \<Rightarrow> progress \<Rightarrow>
    (('s, 'p) run_state, progress, 'r graph_refusal) act" where
  "node_step B policy index node pr = (case node of Kernel_node k \<Rightarrow>
     act_bind (act_of (plan index k (pr_values pr) (pr_sources pr) (pr_allocated pr))) (\<lambda>pl.
     act_bind (act_of (slots_of (pl_inputs pl) (pr_issued pr) index)) (\<lambda>slots.
     act_bind (dispatch_node B policy index pl slots (pr_issued pr)) (\<lambda>(produced, ids).
     act_ok \<lparr>pr_values = pr_values pr @ produced,
       pr_sources = pr_sources pr @ produced_sources index (length produced),
       pr_allocated = pr_allocated pr @ [allocated (pl_extent pl)],
       pr_issued = pr_issued pr @ [ids]\<rparr>))))"

fun node_loop :: "('s, 'p, 'r) backend \<Rightarrow> policy \<Rightarrow> nat \<Rightarrow> node list \<Rightarrow> progress \<Rightarrow>
    (('s, 'p) run_state, progress, 'r graph_refusal) act" where
  "node_loop B policy index [] pr = act_ok pr"
| "node_loop B policy index (node # nodes) pr =
     act_bind (node_step B policy index node pr) (node_loop B policy (Suc index) nodes)"

definition run_node_by_node :: "('s, 'p, 'r) backend \<Rightarrow> policy \<Rightarrow> graph \<Rightarrow> graph_value list \<Rightarrow>
    (('s, 'p) run_state, graph_value list, 'r graph_refusal) act" where
  "run_node_by_node B policy g vs =
     act_bind (node_loop B policy 0 (g_nodes g) (start_progress vs)) (\<lambda>pr. act_ok (pr_values pr))"

text \<open>The loop that resolves the whole graph before anything is dispatched.\<close>

fun plan_loop :: "graph_value list \<Rightarrow> nat \<Rightarrow> node list \<Rightarrow> source list \<Rightarrow> nat list \<Rightarrow>
    (planned list, 'r graph_refusal) res" where
  "plan_loop vs index [] sources allocations = Ok []"
| "plan_loop vs index (Kernel_node k # nodes) sources allocations =
     res_bind (plan index k vs sources allocations) (\<lambda>pl.
     res_bind (plan_loop vs (Suc index) nodes
       (sources @ produced_sources index (length (pl_classes pl)))
       (allocations @ [allocated (pl_extent pl)])) (\<lambda>pls.
     Ok (pl # pls)))"

definition dispatch_of :: "planned \<Rightarrow> dispatch" where
  "dispatch_of pl = \<lparr>d_launch = pl_launch pl, d_inputs = pl_inputs pl, d_extent = pl_extent pl\<rparr>"

definition batch_refused :: "'r batch_refusal \<Rightarrow> 'r graph_refusal" where
  "batch_refused refusal = (case refusal of
      Batch_cannot \<Rightarrow> Policy_unsupported ''batch'' BATCH_CANNOT
    | Batch_refused reason \<Rightarrow> Backend_refused ''recording the graph in one submission'' reason)"

text \<open>\<open>None\<close> is the panic of an answer that lacks a dispatch or has another number of ids.\<close>

definition batch_values :: "resident_id list list \<Rightarrow> nat \<times> planned \<Rightarrow> graph_value list option" where
  "batch_values issued = (\<lambda>(index, pl).
     Option.bind (nth_opt issued index) (\<lambda>ids.
     if length ids = length (pl_classes pl)
     then Some (device_all ids (pl_counts pl) (pl_classes pl)) else None))"

definition run_in_one_submission :: "('s, 'p, 'r) backend \<Rightarrow> graph \<Rightarrow> graph_value list \<Rightarrow>
    (('s, 'p) run_state, graph_value list, 'r graph_refusal) act" where
  "run_in_one_submission B g vs =
     act_bind (act_of (plan_loop vs 0 (g_nodes g) (replicate (length vs) Given) [])) (\<lambda>pls.
     act_bind (act_map_err batch_refused (on_backend (b_run_batch B (map dispatch_of pls)))) (\<lambda>issued.
     case map_opt (batch_values issued) (enumerate 0 pls) of
       None \<Rightarrow> act_of Panic
     | Some produced \<Rightarrow> act_ok (vs @ concat produced)))"

definition run_graph :: "('s, 'p, 'r) backend \<Rightarrow> policy \<Rightarrow> graph \<Rightarrow> graph_value list \<Rightarrow>
    (('s, 'p) run_state, graph_value list, 'r graph_refusal) act" where
  "run_graph B policy g inputs =
     (if length inputs \<noteq> g_inputs g
      then act_of (Err (Run_arity (g_inputs g) (length inputs)))
      else
        act_bind
          (case policy of
             Batch \<Rightarrow> run_in_one_submission B g inputs
           | _ \<Rightarrow> run_node_by_node B policy g inputs)
          (settle_all B))"

end
