(* ===== verification/Graph_Plan_Facts.thy ===== *)
theory Graph_Plan_Facts
  imports Graph_Run
begin

text \<open>
  What resolving a node depends on: a value the run produced is read through the place that
  produced it, so the table may hold it pending, waited for, or not yet at all.
\<close>

section \<open>Collected results\<close>

lemma collect_res_Ok:
  "collect_res f xs = Ok ys \<longleftrightarrow> list_all2 (\<lambda>x y. f x = Ok y) xs ys"
  by (induction xs arbitrary: ys) (auto simp: list_all2_Cons1)

lemma collect_res_Panic: "collect_res f xs = Panic \<Longrightarrow> \<exists>x \<in> set xs. f x = Panic"
proof (induction xs)
  case (Cons x xs)
  then show ?case by (cases "f x"; cases "collect_res f xs") auto
qed simp

lemma collect_res_cong:
  assumes "\<And>x y. x \<in> set xs \<Longrightarrow> f x = Ok y \<longleftrightarrow> g x = Ok y"
  shows "collect_res f xs = Ok ys \<longleftrightarrow> collect_res g xs = Ok ys"
proof -
  have "f (xs ! i) = Ok y \<longleftrightarrow> g (xs ! i) = Ok y" if "i < length xs" for i y
    using assms that by simp
  then show ?thesis unfolding collect_res_Ok list_all2_conv_all_nth by auto
qed

lemma ok_or_Ok [simp]: "ok_or e x = Ok a \<longleftrightarrow> x = Some a"
  by (auto simp: ok_or_def split: option.splits)

lemma ok_or_Panic [simp]: "ok_or e x \<noteq> Panic"
  by (auto simp: ok_or_def split: option.splits)

lemma res_bind_Panic_iff:
  "res_bind r f = Panic \<longleftrightarrow> r = Panic \<or> (\<exists>a. r = Ok a \<and> f a = Panic)"
  by (cases r) auto

section \<open>Resolving does not read what the run produced\<close>

text \<open>A value that is a buffer on the device, whether it was waited for or not.\<close>

fun on_device :: "graph_value \<Rightarrow> bool" where
  "on_device (Pending_value _ _ _ _) = True"
| "on_device (Device_value _ _ _) = True"
| "on_device _ = False"

fun is_produced :: "source \<Rightarrow> bool" where
  "is_produced Given = False"
| "is_produced (Produced _ _) = True"

text \<open>The sources of a table: what was given, then what the run produced.\<close>

definition sources_of :: "nat \<Rightarrow> source list \<Rightarrow> bool" where
  "sources_of n sources \<longleftrightarrow>
     (\<exists>later. sources = replicate n Given @ later \<and> list_all is_produced later)"

lemma sources_of_nth:
  assumes "sources_of n sources"
  shows "v < n \<Longrightarrow> nth_opt sources v = Some Given"
    and "n \<le> v \<Longrightarrow> v < length sources \<Longrightarrow> \<exists>d k. nth_opt sources v = Some (Produced d k)"
proof -
  obtain later where l: "sources = replicate n Given @ later" "list_all is_produced later"
    using assms by (auto simp: sources_of_def)
  show "v < n \<Longrightarrow> nth_opt sources v = Some Given" by (simp add: l(1) nth_append)
  assume v: "n \<le> v" "v < length sources"
  then have "is_produced (sources ! v)"
    using l(2) by (simp add: l(1) nth_append list_all_length)
  then show "\<exists>d k. nth_opt sources v = Some (Produced d k)"
    using v by (cases "sources ! v") auto
qed

lemma sources_of_append:
  "sources_of n sources \<Longrightarrow> sources_of n (sources @ produced_sources i m)"
  by (auto simp: sources_of_def produced_sources_def list_all_iff)

lemma sources_of_start: "sources_of n (replicate n Given)"
  by (auto simp: sources_of_def)

lemma nth_opt_outside: "length xs \<le> i \<Longrightarrow> nth_opt xs i = None"
  by simp

text \<open>
  A table of given values and the values of the run, \<open>news\<close>, which is as long as the sources say, or
  left out.
\<close>

definition table_fits :: "graph_value list \<Rightarrow> graph_value list \<Rightarrow> source list \<Rightarrow> bool" where
  "table_fits vs news sources \<longleftrightarrow>
     sources_of (length vs) sources \<and> list_all on_device news \<and>
     length vs + length news \<le> length sources"

lemma table_nth:
  assumes "table_fits vs news sources"
  obtains (given) "v < length vs" "nth_opt (vs @ news) v = nth_opt vs v" "nth_opt sources v = Some Given"
  | (produced) d k where "length vs \<le> v" "nth_opt sources v = Some (Produced d k)"
      "\<And>h. nth_opt (vs @ news) v = Some h \<Longrightarrow> on_device h" "nth_opt vs v = None"
  | (none) "length sources \<le> v" "nth_opt sources v = None" "nth_opt (vs @ news) v = None" "nth_opt vs v = None"
proof -
  have f: "sources_of (length vs) sources" "list_all on_device news"
    "length vs + length news \<le> length sources"
    using assms by (simp_all add: table_fits_def)
  consider "v < length vs" | "length vs \<le> v" "v < length sources" | "length sources \<le> v" "length vs \<le> v"
    using f(3) by linarith
  then show thesis
  proof cases
    case 1
    then show thesis using given sources_of_nth(1) [OF f(1)] by (simp add: nth_opt_append)
  next
    case 2
    obtain d k where dk: "nth_opt sources v = Some (Produced d k)"
      using sources_of_nth(2) [OF f(1) 2] by blast
    show thesis
    proof (rule produced [OF 2(1) dk])
      fix h assume "nth_opt (vs @ news) v = Some h"
      then have "nth_opt news (v - length vs) = Some h" using 2(1) by (simp only: nth_opt_append if_not_P not_less)
      then show "on_device h" using f(2) nth_opt_in_set by (auto simp: list_all_iff)
    qed (use 2(1) in simp)
  next
    case 3
    then show thesis using none f(3) by simp
  qed
qed

lemma plan_input_produced:
  assumes "table_fits vs news sources"
  shows "plan_input node (vs @ news) sources v = (Ok b :: (_, 'r graph_refusal) res) \<longleftrightarrow>
    plan_input node vs sources v = (Ok b :: (_, 'r graph_refusal) res)"
  by (cases rule: table_nth [OF assms, of v])
    (simp_all add: plan_input_def del: nth_opt_Some nth_opt_None)

lemma on_device_number: "on_device h \<Longrightarrow> as_number h \<noteq> Ok n" "on_device h \<Longrightarrow> bits_at h c \<noteq> Ok b"
  by (cases h; cases c; simp)+

lemma plan_extent_produced:
  assumes "table_fits vs news sources"
  shows "plan_extent node (vs @ news) sources allocations c = (Ok e :: (_, 'r graph_refusal) res) \<longleftrightarrow>
    plan_extent node vs sources allocations c = (Ok e :: (_, 'r graph_refusal) res)"
proof (cases c)
  case (Value_count v)
  show ?thesis
    by (cases rule: table_nth [OF assms, of v])
      (auto simp: plan_extent_def Value_count on_device_number simp del: nth_opt_Some nth_opt_None
        dest!: on_device_number(1))
next
  case (Device_count v index)
  show ?thesis
    by (cases rule: table_nth [OF assms, of v])
      (simp_all add: plan_extent_def Device_count del: nth_opt_Some nth_opt_None)
qed (simp add: plan_extent_def)

lemma leaf_of_produced:
  assumes "table_fits vs news sources"
  shows "leaf_of node k (vs @ news) x = (Ok leaf :: (_, 'r graph_refusal) res) \<longleftrightarrow>
    leaf_of node k vs x = (Ok leaf :: (_, 'r graph_refusal) res)"
proof (cases x)
  case (Pair ordinal s)
  show ?thesis
  proof (cases s)
    case (Value_scalar v)
    show ?thesis
      by (cases rule: table_nth [OF assms, of v])
        (auto simp: leaf_of_def Pair Value_scalar simp del: nth_opt_Some nth_opt_None
          dest!: on_device_number(2))
  qed (simp add: leaf_of_def Pair)
qed

lemma leaves_of_produced:
  assumes "table_fits vs news sources"
  shows "leaves_of node k (vs @ news) = (Ok ls :: (_, 'r graph_refusal) res) \<longleftrightarrow>
    leaves_of node k vs = (Ok ls :: (_, 'r graph_refusal) res)"
proof -
  let ?xs = "enumerate 0 (kn_scalars k)"
  have "collect_res (leaf_of node k (vs @ news)) ?xs = (Ok ls :: (_, 'r graph_refusal) res) \<longleftrightarrow>
      collect_res (leaf_of node k vs) ?xs = (Ok ls :: (_, 'r graph_refusal) res)"
    by (rule collect_res_cong) (rule leaf_of_produced [OF assms])
  then show ?thesis by (simp add: leaves_of_def Let_def)
qed

lemma plan_produced:
  assumes "table_fits vs news sources"
  shows "plan node k (vs @ news) sources allocations = (Ok pl :: (_, 'r graph_refusal) res) \<longleftrightarrow>
    plan node k vs sources allocations = (Ok pl :: (_, 'r graph_refusal) res)"
proof -
  have "collect_res (plan_input node (vs @ news) sources) (kn_inputs k) =
        (Ok inputs :: (_, 'r graph_refusal) res) \<longleftrightarrow>
      collect_res (plan_input node vs sources) (kn_inputs k) =
        (Ok inputs :: (_, 'r graph_refusal) res)" for inputs
    by (rule collect_res_cong) (rule plan_input_produced [OF assms])
  then show ?thesis
    using plan_extent_produced [OF assms, where 'r = 'r] leaves_of_produced [OF assms, where 'r = 'r]
    by (simp add: plan_def Let_def)
qed

section \<open>What a resolved node carries\<close>

lemma plan_launch_root:
  "plan node k vs sources allocations = Ok pl \<Longrightarrow> launch_root (pl_launch pl) = Some (kn_fragment k)"
  by (auto simp: plan_def Let_def launch_root_def with_leaves_def launch_single_def split: if_splits)

lemma plan_fields:
  assumes "plan node k vs sources allocations = (Ok pl :: (_, 'r graph_refusal) res)"
  shows "pl_classes pl = kf_output_classes (kn_fragment k)"
    and "pl_counts pl = output_counts (kn_fragment k) (allocated (pl_extent pl))"
    and "list_all2 (\<lambda>v b. plan_input node vs sources v = (Ok b :: (_, 'r graph_refusal) res))
      (kn_inputs k) (pl_inputs pl)"
    and "plan_extent node vs sources allocations (kn_count k) =
      (Ok (pl_extent pl) :: (_, 'r graph_refusal) res)"
  using assms by (auto simp: plan_def Let_def collect_res_Ok split: if_splits)

end
