(* ===== verification/Graph_Schedules.thy ===== *)
theory Graph_Schedules
  imports Graph_Plan_Facts
begin

text \<open>
  The schedules of a run compared: one dispatch after the other, all of them as one batch, and
  submissions that are waited for at the end.
\<close>

section \<open>What the contract asks of a backend\<close>

text \<open>One id for each declared output.\<close>

definition one_per_output :: "('s, 'p, 'r) backend \<Rightarrow> bool" where
  "one_per_output B \<longleftrightarrow>
     (\<forall>launch slots n s ids s' f. launch_root launch = Some f \<longrightarrow>
        b_run B launch slots n s = (Ok ids, s') \<longrightarrow> length ids = kf_outputs f) \<and>
     (\<forall>launch slots extent s ids s' f. launch_root launch = Some f \<longrightarrow>
        b_over_device B launch slots extent s = (Ok ids, s') \<longrightarrow> length ids = kf_outputs f) \<and>
     (\<forall>launch slots n s p s' f. launch_root launch = Some f \<longrightarrow>
        b_submit B launch slots n s = (Ok p, s') \<longrightarrow> length (b_outputs B p) = kf_outputs f)"

text \<open>The dispatches of a batch run one by one, each reading what the ones before it issued.\<close>

definition one_dispatch :: "('s, 'p, 'r) backend \<Rightarrow> resident_id list list \<Rightarrow> dispatch \<Rightarrow>
    ('s, resident_id list, 'r) act" where
  "one_dispatch B issued d =
     (case (slots_of (d_inputs d) issued 0 :: (_, 'r graph_refusal) res) of
        Ok slots \<Rightarrow>
          (case d_extent d of
             Host_extent n \<Rightarrow> b_run B (d_launch d) slots n
           | Resident_extent buffer index capacity \<Rightarrow>
               b_over_device B (d_launch d) slots
                 \<lparr>de_count = buffer, de_index = index, de_capacity = capacity\<rparr>
           | Produced_extent dispatch ordinal index capacity \<Rightarrow>
               (case issued_at issued dispatch ordinal of
                  None \<Rightarrow> act_of Panic
                | Some buffer \<Rightarrow>
                    b_over_device B (d_launch d) slots
                      \<lparr>de_count = buffer, de_index = index, de_capacity = capacity\<rparr>))
      | _ \<Rightarrow> act_of Panic)"

fun sequential :: "('s, 'p, 'r) backend \<Rightarrow> resident_id list list \<Rightarrow> dispatch list \<Rightarrow>
    ('s, resident_id list list, 'r) act" where
  "sequential B issued [] = act_ok []"
| "sequential B issued (d # ds) =
     act_bind (one_dispatch B issued d) (\<lambda>ids.
     act_bind (sequential B (issued @ [ids]) ds) (\<lambda>rest. act_ok (ids # rest)))"

text \<open>Host data handed over at the class the fragment declares for its position.\<close>

definition at_declared_class :: "dispatch \<Rightarrow> bool" where
  "at_declared_class d \<longleftrightarrow>
     (\<forall>f i c bytes. launch_root (d_launch d) = Some f \<longrightarrow>
        nth_opt (d_inputs d) i = Some (Batch_host c bytes) \<longrightarrow> nth_opt (kf_input_classes f) i = Some c)"

definition batch_runs_each :: "('s, 'p, 'r) backend \<Rightarrow> bool" where
  "batch_runs_each B \<longleftrightarrow>
     (\<forall>batch s issued s'. list_all at_declared_class batch \<longrightarrow>
        (b_run_batch B batch s = (Ok issued, s') \<longleftrightarrow> sequential B [] batch s = (Ok issued, s')))"

section \<open>The progress of a run\<close>

definition sources_after :: "nat \<Rightarrow> node list \<Rightarrow> source list" where
  "sources_after n finished = replicate n Given @
     concat (map (\<lambda>(d, node). produced_sources d (node_outputs node)) (enumerate 0 finished))"

lemma sources_after_Nil [simp]: "sources_after n [] = replicate n Given"
  by (simp add: sources_after_def)

lemma sources_after_snoc:
  "sources_after n (finished @ [node]) =
     sources_after n finished @ produced_sources (length finished) (node_outputs node)"
  by (simp add: sources_after_def enumerate_append_eq)

lemma length_produced_sources [simp]: "length (produced_sources i n) = n"
  by (simp add: produced_sources_def)

lemma sources_of_after: "sources_of n (sources_after n finished)"
  by (induction finished rule: rev_induct)
    (simp_all add: sources_after_snoc sources_of_start sources_of_append)

definition reached :: "graph_value list \<Rightarrow> node list \<Rightarrow> progress \<Rightarrow> bool" where
  "reached vs finished pr \<longleftrightarrow>
     (\<exists>news. pr_values pr = vs @ news \<and> list_all on_device news \<and>
        length vs + length news = length (pr_sources pr)) \<and>
     pr_sources pr = sources_after (length vs) finished \<and>
     map length (pr_issued pr) = map node_outputs finished \<and>
     length (pr_allocated pr) = length finished"

lemma reached_start: "reached vs [] (start_progress vs)"
  by (simp add: reached_def start_progress_def)

lemma reached_plan:
  assumes "reached vs finished pr"
  shows "plan i k (pr_values pr) (pr_sources pr) allocations = (Ok pl :: (_, 'r graph_refusal) res) \<longleftrightarrow>
    plan i k vs (pr_sources pr) allocations = (Ok pl :: (_, 'r graph_refusal) res)"
proof -
  obtain news where "pr_values pr = vs @ news" "table_fits vs news (pr_sources pr)"
    using assms by (auto simp: reached_def table_fits_def sources_of_after)
  then show ?thesis by (simp add: plan_produced)
qed

lemma on_backend_Ok:
  "on_backend m rs = (Ok a, rs') \<longleftrightarrow>
     (\<exists>s. m (rs_backend rs) = (Ok a, s) \<and> rs' = rs\<lparr>rs_backend := s\<rparr>)"
  by (auto simp: on_backend_def split: prod.splits)

lemma on_device_all [simp]: "list_all on_device (device_all ids counts classes)"
  by (auto simp: device_all_def list_all_iff)

lemma on_device_pending_all [simp]: "list_all on_device (pending_all cell ids counts classes)"
  by (auto simp: pending_all_def list_all_iff)

section \<open>One node\<close>

text \<open>What a step gives, under every policy.\<close>

lemma node_step_Ok:
  assumes "node_step B policy i (Kernel_node k) pr rs = (Ok pr', rs')"
  obtains pl slots produced ids where
    "plan i k (pr_values pr) (pr_sources pr) (pr_allocated pr) = (Ok pl :: (_, 'r graph_refusal) res)"
    "slots_of (pl_inputs pl) (pr_issued pr) i = (Ok slots :: (_, 'r graph_refusal) res)"
    "dispatch_node (B :: ('s, 'p, 'r) backend) policy i pl slots (pr_issued pr) rs = (Ok (produced, ids), rs')"
    "pr' = \<lparr>pr_values = pr_values pr @ produced,
       pr_sources = pr_sources pr @ produced_sources i (length produced),
       pr_allocated = pr_allocated pr @ [allocated (pl_extent pl)],
       pr_issued = pr_issued pr @ [ids]\<rparr>"
  using assms by (auto simp: node_step_def act_bind_Ok split: prod.splits)

lemma dispatch_serial_ids:
  assumes "one_per_output B" "launch_root (pl_launch pl) = Some f"
    "dispatch_serial B pl slots issued s = (Ok ids, s')"
  shows "length ids = kf_outputs f"
  using assms unfolding one_per_output_def
  by (auto simp: dispatch_serial_def over_device_def split: batch_extent.splits option.splits)

lemma dispatch_node_ids:
  assumes "one_per_output B" "launch_root (pl_launch pl) = Some f"
    "dispatch_node B policy i pl slots issued rs = (Ok (produced, ids), rs')"
  shows "length ids = kf_outputs f \<and> length produced = length ids \<and> list_all on_device produced"
proof (cases "policy = Serial")
  case True
  then show ?thesis
    using assms dispatch_serial_ids [OF assms(1,2)]
    by (auto simp: dispatch_node_def act_bind_Ok on_backend_Ok)
next
  case False
  then obtain n p s where "pl_extent pl = Host_extent n"
    "b_submit B (pl_launch pl) slots n (rs_backend rs) = (Ok p, s)"
    "ids = b_outputs B p" "produced = pending_all (length (rs_cells rs)) ids (pl_counts pl) (pl_classes pl)"
    using assms(3)
    by (cases policy) (auto simp: dispatch_node_def act_bind_Ok on_backend_Ok new_cell_def Let_def
        split: batch_extent.splits)
  then show ?thesis using assms(1,2) unfolding one_per_output_def by auto
qed

lemma node_step_reached:
  assumes "one_per_output B" "reached vs finished pr"
    "node_step B policy (length finished) node pr rs = (Ok pr', rs')"
  shows "reached vs (finished @ [node]) pr'"
proof (cases node)
  case (Kernel_node k)
  obtain pl slots produced ids where s:
    "plan (length finished) k (pr_values pr) (pr_sources pr) (pr_allocated pr) = (Ok pl :: (_, 'c graph_refusal) res)"
    "dispatch_node B policy (length finished) pl slots (pr_issued pr) rs = (Ok (produced, ids), rs')"
    "pr' = \<lparr>pr_values = pr_values pr @ produced,
       pr_sources = pr_sources pr @ produced_sources (length finished) (length produced),
       pr_allocated = pr_allocated pr @ [allocated (pl_extent pl)],
       pr_issued = pr_issued pr @ [ids]\<rparr>"
    using assms(3) unfolding Kernel_node by (rule node_step_Ok) blast
  have d: "length ids = kf_outputs (kn_fragment k)" "length produced = length ids" "list_all on_device produced"
    using dispatch_node_ids [OF assms(1) plan_launch_root [OF s(1)] s(2)] by auto
  obtain news where n: "pr_values pr = vs @ news" "list_all on_device news"
    "length vs + length news = length (pr_sources pr)"
    using assms(2) by (auto simp: reached_def)
  have "pr_values pr' = vs @ (news @ produced)" "list_all on_device (news @ produced)"
    "length vs + length (news @ produced) = length (pr_sources pr')"
    using n d by (simp_all add: s(3))
  moreover have "pr_sources pr' = sources_after (length vs) (finished @ [node])"
    using assms(2) d by (simp add: s(3) reached_def sources_after_snoc Kernel_node)
  ultimately show ?thesis
    using assms(2) d by (auto simp: reached_def s(3) Kernel_node sources_after_snoc)
qed

section \<open>A batch is the serial run\<close>

lemma slots_of_node:
  "slots_of inputs issued i = (Ok slots :: (_, 'r graph_refusal) res) \<longleftrightarrow>
   slots_of inputs issued j = (Ok slots :: (_, 'q graph_refusal) res)"
  unfolding slots_of_def
  by (rule collect_res_cong) (simp add: slot_of_def del: nth_opt_Some split: batch_input.splits)

lemma one_dispatch_serial:
  fixes B :: "('s, 'p, 'r) backend"
  shows "one_dispatch B issued (dispatch_of pl) s = (Ok ids, s') \<longleftrightarrow>
    (\<exists>slots. slots_of (pl_inputs pl) issued i = (Ok slots :: (_, 'r graph_refusal) res) \<and>
       dispatch_serial B pl slots issued s = (Ok ids, s'))"
proof (cases "slots_of (pl_inputs pl) issued 0 :: (_, 'r graph_refusal) res")
  case (Ok slots)
  then have "slots_of (pl_inputs pl) issued i = (Ok slots' :: (_, 'r graph_refusal) res) \<longleftrightarrow>
      slots' = slots" for slots'
    using slots_of_node [of "pl_inputs pl" issued i slots' 0, where 'r = 'r and 'q = 'r] by auto
  then show ?thesis
    by (auto simp: one_dispatch_def dispatch_of_def Ok dispatch_serial_def over_device_def
        split: batch_extent.splits option.splits)
next
  case (Err e)
  then show ?thesis
    using slots_of_node [of "pl_inputs pl" issued i _ 0, where 'r = 'r and 'q = 'r]
    by (simp add: one_dispatch_def dispatch_of_def)
next
  case Panic
  then show ?thesis
    using slots_of_node [of "pl_inputs pl" issued i _ 0, where 'r = 'r and 'q = 'r]
    by (simp add: one_dispatch_def dispatch_of_def)
qed

text \<open>The values the dispatches of a batch make.\<close>

definition made_values :: "planned list \<Rightarrow> resident_id list list \<Rightarrow> graph_value list" where
  "made_values pls issued =
     concat (map2 (\<lambda>pl ids. device_all ids (pl_counts pl) (pl_classes pl)) pls issued)"

definition typed_nodes :: "node list \<Rightarrow> bool" where
  "typed_nodes nodes \<longleftrightarrow>
     (\<forall>k. Kernel_node k \<in> set nodes \<longrightarrow>
        length (kf_output_classes (kn_fragment k)) = kf_outputs (kn_fragment k))"

lemma serial_step:
  fixes B :: "('s, 'p, 'r) backend"
  assumes "reached vs finished pr"
  shows "node_step B Serial i (Kernel_node k) pr rs = (Ok pr', rs') \<longleftrightarrow>
    (\<exists>pl ids s. plan i k vs (pr_sources pr) (pr_allocated pr) = (Ok pl :: (_, 'r graph_refusal) res) \<and>
       one_dispatch B (pr_issued pr) (dispatch_of pl) (rs_backend rs) = (Ok ids, s) \<and>
       rs' = rs\<lparr>rs_backend := s\<rparr> \<and>
       pr' = \<lparr>pr_values = pr_values pr @ device_all ids (pl_counts pl) (pl_classes pl),
         pr_sources = pr_sources pr @ produced_sources i (length ids),
         pr_allocated = pr_allocated pr @ [allocated (pl_extent pl)],
         pr_issued = pr_issued pr @ [ids]\<rparr>)"
  by (auto simp: node_step_def act_bind_Ok dispatch_node_def on_backend_Ok one_dispatch_serial [of _ _ _ _ _ _ i]
      reached_plan [OF assms, where 'r = 'r])

lemma serial_loop:
  fixes B :: "('s, 'p, 'r) backend"
  assumes "one_per_output B" "typed_nodes nodes" "reached vs finished pr"
  shows "(\<exists>pr'. node_loop B Serial (length finished) nodes pr rs = (Ok pr', rs') \<and> pr_values pr' = ws) \<longleftrightarrow>
    (\<exists>pls issued s.
       plan_loop vs (length finished) nodes (pr_sources pr) (pr_allocated pr) =
         (Ok pls :: (_, 'r graph_refusal) res) \<and>
       sequential B (pr_issued pr) (map dispatch_of pls) (rs_backend rs) = (Ok issued, s) \<and>
       rs' = rs\<lparr>rs_backend := s\<rparr> \<and> ws = pr_values pr @ made_values pls issued)"
  using assms(2,3)
proof (induction nodes arbitrary: finished pr rs)
  case Nil
  show ?case by (auto simp: made_values_def)
next
  case (Cons node nodes)
  obtain k where node: "node = Kernel_node k" by (cases node)
  have typed: "typed_nodes nodes"
    "length (kf_output_classes (kn_fragment k)) = kf_outputs (kn_fragment k)"
    using Cons.prems(1) by (auto simp: typed_nodes_def node)
  let ?i = "length finished"
  have len: "length (pl_classes pl) = length ids"
    if "plan ?i k vs (pr_sources pr) (pr_allocated pr) = (Ok pl :: (_, 'r graph_refusal) res)"
      "one_dispatch B (pr_issued pr) (dispatch_of pl) s = (Ok ids, s')" for pl ids s s'
    using that dispatch_serial_ids [OF assms(1) plan_launch_root [OF that(1)]]
      plan_fields(1) [OF that(1)] typed(2)
    by (auto simp: one_dispatch_serial [of _ _ _ _ _ _ 0])
  show ?case (is "?serial \<longleftrightarrow> ?batch")
  proof
    assume ?serial
    then obtain pr1 rs1 pr' where step: "node_step B Serial ?i (Kernel_node k) pr rs = (Ok pr1, rs1)"
      and loop: "node_loop B Serial (Suc ?i) nodes pr1 rs1 = (Ok pr', rs')" "pr_values pr' = ws"
      by (auto simp: act_bind_Ok node)
    note r = node_step_reached [OF assms(1) Cons.prems(2) step]
    obtain pl ids s where st: "plan ?i k vs (pr_sources pr) (pr_allocated pr) = (Ok pl :: (_, 'r graph_refusal) res)"
      "one_dispatch B (pr_issued pr) (dispatch_of pl) (rs_backend rs) = (Ok ids, s)"
      "rs1 = rs\<lparr>rs_backend := s\<rparr>"
      "pr1 = \<lparr>pr_values = pr_values pr @ device_all ids (pl_counts pl) (pl_classes pl),
         pr_sources = pr_sources pr @ produced_sources ?i (length ids),
         pr_allocated = pr_allocated pr @ [allocated (pl_extent pl)],
         pr_issued = pr_issued pr @ [ids]\<rparr>"
      using step unfolding serial_step [OF Cons.prems(2)] by blast
    show ?batch
      using iffD1 [OF Cons.IH [OF typed(1) r, of rs1]] loop st len [OF st(1,2)]
      by (fastforce simp: node act_bind_Ok made_values_def)
  next
    assume ?batch
    then obtain pl pls ids issued s1 s where
      st: "plan ?i k vs (pr_sources pr) (pr_allocated pr) = (Ok pl :: (_, 'r graph_refusal) res)"
      "one_dispatch B (pr_issued pr) (dispatch_of pl) (rs_backend rs) = (Ok ids, s1)" and
      rest: "plan_loop vs (Suc ?i) nodes (pr_sources pr @ produced_sources ?i (length (pl_classes pl)))
          (pr_allocated pr @ [allocated (pl_extent pl)]) = (Ok pls :: (_, 'r graph_refusal) res)"
        "sequential B (pr_issued pr @ [ids]) (map dispatch_of pls) s1 = (Ok issued, s)"
        "rs' = rs\<lparr>rs_backend := s\<rparr>" "ws = pr_values pr @ made_values (pl # pls) (ids # issued)"
      by (auto simp: node act_bind_Ok)
    define pr1 where "pr1 = \<lparr>pr_values = pr_values pr @ device_all ids (pl_counts pl) (pl_classes pl),
         pr_sources = pr_sources pr @ produced_sources ?i (length ids),
         pr_allocated = pr_allocated pr @ [allocated (pl_extent pl)],
         pr_issued = pr_issued pr @ [ids]\<rparr>"
    have step: "node_step B Serial ?i (Kernel_node k) pr rs = (Ok pr1, rs\<lparr>rs_backend := s1\<rparr>)"
      using st unfolding serial_step [OF Cons.prems(2)] pr1_def by blast
    note r = node_step_reached [OF assms(1) Cons.prems(2) step]
    have "\<exists>pr'. node_loop B Serial (Suc ?i) nodes pr1 (rs\<lparr>rs_backend := s1\<rparr>) = (Ok pr', rs') \<and>
        pr_values pr' = ws"
      using iffD2 [OF Cons.IH [OF typed(1) r, of "rs\<lparr>rs_backend := s1\<rparr>"]] rest len [OF st]
      by (fastforce simp: pr1_def made_values_def)
    then show ?serial using step by (auto simp: act_bind_Ok node)
  qed
qed

lemma sequential_answers:
  assumes "one_per_output B" "sequential B issued ds s = (Ok answers, s')"
  shows "list_all2 (\<lambda>d ids. \<forall>f. launch_root (d_launch d) = Some f \<longrightarrow> length ids = kf_outputs f) ds answers"
  using assms(2)
proof (induction ds arbitrary: issued s answers)
  case (Cons d ds)
  then obtain ids rest s1 where ids: "one_dispatch B issued d s = (Ok ids, s1)"
    "sequential B (issued @ [ids]) ds s1 = (Ok rest, s')" "answers = ids # rest"
    by (auto simp: act_bind_Ok)
  have "length ids = kf_outputs f" if "launch_root (d_launch d) = Some f" for f
    using ids(1) assms(1) that unfolding one_per_output_def one_dispatch_def
    by (auto split: res.splits batch_extent.splits option.splits)
  then show ?case using Cons.IH [OF ids(2)] by (simp add: ids(3))
qed simp

lemma plan_loop_each:
  assumes "plan_loop vs i nodes sources allocations = (Ok pls :: (_, 'r graph_refusal) res)"
    "sources_of (length vs) sources" "pl \<in> set pls"
  shows "\<exists>k j sources' allocations'. Kernel_node k \<in> set nodes \<and> sources_of (length vs) sources' \<and>
    plan j k vs sources' allocations' = (Ok pl :: (_, 'r graph_refusal) res)"
  using assms
proof (induction vs i nodes sources allocations arbitrary: pls rule: plan_loop.induct)
  case (2 vs i k nodes sources allocations)
  then obtain pl0 rest where p: "plan i k vs sources allocations = (Ok pl0 :: (_, 'r graph_refusal) res)"
    "plan_loop vs (Suc i) nodes (sources @ produced_sources i (length (pl_classes pl0)))
       (allocations @ [allocated (pl_extent pl0)]) = (Ok rest :: (_, 'r graph_refusal) res)" "pls = pl0 # rest"
    by auto
  show ?case
  proof (cases "pl = pl0")
    case True
    then show ?thesis using p(1) "2.prems"(2) by auto
  next
    case False
    then show ?thesis
      using "2.IH" [OF p(2) sources_of_append [OF "2.prems"(2)]] "2.prems"(3) p(3) by auto
  qed
qed simp

text \<open>Host data given at the class every kernel reading it declares.\<close>

definition given_at_declared :: "graph \<Rightarrow> graph_value list \<Rightarrow> bool" where
  "given_at_declared g vs \<longleftrightarrow>
     (\<forall>k i v bytes c. Kernel_node k \<in> set (g_nodes g) \<longrightarrow> nth_opt (kn_inputs k) i = Some v \<longrightarrow>
        nth_opt vs v = Some (Host_value bytes c) \<longrightarrow>
        nth_opt (kf_input_classes (kn_fragment k)) i = Some c)"

lemma plan_input_host:
  assumes "plan_input j vs sources v = Ok (Batch_host c bytes)"
  shows "nth_opt vs v = Some (Host_value bytes c)"
proof (cases "nth_opt vs v")
  case None
  then show ?thesis using assms unfolding plan_input_def
    by (simp add: ok_or_def del: nth_opt_None split: option.splits source.splits)
next
  case (Some held)
  then show ?thesis using assms unfolding plan_input_def
    by (cases held) (simp_all add: ok_or_def del: nth_opt_Some split: option.splits source.splits)
qed

lemma plan_declared:
  assumes "plan j k vs sources allocations = (Ok pl :: (_, 'r graph_refusal) res)"
    "given_at_declared g vs" "Kernel_node k \<in> set (g_nodes g)"
  shows "at_declared_class (dispatch_of pl)"
  unfolding at_declared_class_def
proof (intro allI impI)
  fix f i c bytes
  assume f: "launch_root (d_launch (dispatch_of pl)) = Some f"
    and i: "nth_opt (d_inputs (dispatch_of pl)) i = Some (Batch_host c bytes)"
  have "f = kn_fragment k" using f plan_launch_root [OF assms(1)] by (simp add: dispatch_of_def)
  have ins: "list_all2 (\<lambda>v b. plan_input j vs sources v = (Ok b :: (_, 'r graph_refusal) res))
      (kn_inputs k) (pl_inputs pl)"
    by (rule plan_fields(3) [OF assms(1)])
  then have "i < length (kn_inputs k)" "plan_input j vs sources (kn_inputs k ! i) = (Ok (Batch_host c bytes) :: (_, 'r graph_refusal) res)"
    using i by (auto simp: dispatch_of_def list_all2_conv_all_nth)
  then have "nth_opt (kn_inputs k) i = Some (kn_inputs k ! i)"
    "nth_opt vs (kn_inputs k ! i) = Some (Host_value bytes c)"
    using plan_input_host by (simp, blast)
  then show "nth_opt (kf_input_classes f) i = Some c"
    using assms(2,3) \<open>f = kn_fragment k\<close> unfolding given_at_declared_def by blast
qed

lemma batch_values_made:
  assumes "list_all2 (\<lambda>pl ids. length ids = length (pl_classes pl)) pls issued"
  shows "\<exists>produced. map_opt (batch_values issued) (enumerate 0 pls) = Some produced \<and>
    concat produced = made_values pls issued"
proof -
  have l: "length issued = length pls" using assms by (simp add: list_all2_lengthD)
  have "map_opt (batch_values issued) (enumerate 0 pls) =
      Some (map2 (\<lambda>pl ids. device_all ids (pl_counts pl) (pl_classes pl)) pls issued)"
    unfolding map_opt_Some
    using assms l by (auto simp: batch_values_def nth_opt_def nth_enumerate_eq list_all2_conv_all_nth)
  then show ?thesis by (simp add: made_values_def)
qed

lemma run_batch_serial:
  assumes B: "one_per_output B" "batch_runs_each B"
    and g: "typed_nodes (g_nodes g)" "given_at_declared g vs"
  shows "run_in_one_submission B g vs rs = (Ok ws, rs') \<longleftrightarrow>
    run_node_by_node B Serial g vs rs = (Ok ws, rs')"
proof -
  let ?loop = "plan_loop vs 0 (g_nodes g) (replicate (length vs) Given) []"
  have issued: "b_run_batch B (map dispatch_of pls) s = (Ok issued, s') \<longleftrightarrow>
      sequential B [] (map dispatch_of pls) s = (Ok issued, s')"
    if "?loop = (Ok pls :: (_, 'c graph_refusal) res)" for pls s issued s'
  proof -
    have "list_all at_declared_class (map dispatch_of pls)"
      unfolding list_all_iff
      using plan_loop_each [OF that sources_of_start] plan_declared [where 'r = 'c, OF _ g(2)] by fastforce
    then show ?thesis using B(2) unfolding batch_runs_each_def by blast
  qed
  have made: "\<exists>produced. map_opt (batch_values issued) (enumerate 0 pls) = Some produced \<and>
      concat produced = made_values pls issued"
    if loop: "?loop = (Ok pls :: (_, 'c graph_refusal) res)"
      and answers: "sequential B [] (map dispatch_of pls) s = (Ok issued, s')" for pls s issued s'
  proof (rule batch_values_made)
    have "\<forall>f. launch_root (pl_launch pl) = Some f \<longrightarrow> kf_outputs f = length (pl_classes pl)"
      if "pl \<in> set pls" for pl
      using plan_loop_each [OF loop sources_of_start that] plan_launch_root plan_fields(1) g(1)
      by (fastforce simp: typed_nodes_def)
    moreover have "\<exists>f. launch_root (pl_launch pl) = Some f" if "pl \<in> set pls" for pl
      using plan_loop_each [OF loop sources_of_start that] plan_launch_root by blast
    ultimately show "list_all2 (\<lambda>pl ids. length ids = length (pl_classes pl)) pls issued"
      using sequential_answers [OF B(1) answers]
      by (auto simp: list_all2_conv_all_nth dispatch_of_def) (metis nth_mem)
  qed
  have "run_in_one_submission B g vs rs = (Ok ws, rs') \<longleftrightarrow>
      (\<exists>pls issued s. ?loop = (Ok pls :: (_, 'c graph_refusal) res) \<and>
        sequential B [] (map dispatch_of pls) (rs_backend rs) = (Ok issued, s) \<and>
        rs' = rs\<lparr>rs_backend := s\<rparr> \<and> ws = vs @ made_values pls issued)"
    (is "_ \<longleftrightarrow> ?batch")
    using issued made
    by (fastforce simp: run_in_one_submission_def act_bind_Ok on_backend_Ok split: option.splits)
  also have "\<dots> \<longleftrightarrow> (\<exists>pr. node_loop B Serial 0 (g_nodes g) (start_progress vs) rs = (Ok pr, rs') \<and> pr_values pr = ws)"
    using serial_loop [OF B(1) g(1) reached_start [of vs], of rs rs' ws]
    by (simp add: start_progress_def)
  finally show ?thesis by (auto simp: run_node_by_node_def act_bind_Ok)
qed

end
