(* ===== verification/Graph_In_Flight.thy ===== *)
theory Graph_In_Flight
  imports Graph_Schedules
begin

text \<open>
  Submissions in flight: the interface of a backend whose submissions end in what a run would have
  answered, the asynchronous run against the serial one, and what becomes of the cells a run's
  submissions are shared through.
\<close>

section \<open>Settling a table\<close>

text \<open>The cell a value waits for.\<close>

fun waits_for :: "graph_value \<Rightarrow> nat option" where
  "waits_for (Pending_value cell _ _ _) = Some cell"
| "waits_for _ = None"

definition cells_held :: "graph_value list \<Rightarrow> nat \<Rightarrow> bool" where
  "cells_held vs n \<longleftrightarrow> (\<forall>v \<in> set vs. \<forall>c. waits_for v = Some c \<longrightarrow> c < n)"

lemma settle_cells:
  assumes "settle B v rs = (Ok w, rs')"
  shows "rs_cells rs' = (case waits_for v of None \<Rightarrow> rs_cells rs | Some c \<Rightarrow> (rs_cells rs)[c := None])"
  using assms
  by (cases v) (auto simp: settle_def act_bind_Ok on_backend_Ok Let_def split: option.splits)

lemma settle_all_cells:
  assumes "settle_all B vs rs = (Ok ws, rs')"
  shows "length (rs_cells rs') = length (rs_cells rs) \<and>
    (\<forall>c < length (rs_cells rs). rs_cells rs' ! c =
       (if \<exists>v \<in> set vs. waits_for v = Some c then None else rs_cells rs ! c))"
  using assms
proof (induction vs arbitrary: ws rs)
  case (Cons v vs)
  then obtain w ws' rs1 where s: "settle B v rs = (Ok w, rs1)" "settle_all B vs rs1 = (Ok ws', rs')"
    by (auto simp: act_bind_Ok)
  show ?case
    using Cons.IH [OF s(2)] settle_cells [OF s(1)]
    by (auto simp: nth_list_update split: option.splits)
qed simp

lemma settle_total:
  assumes "cells_held vs (length (rs_cells rs))"
    and "\<And>p s. R s \<Longrightarrow> \<exists>ids s'. b_wait B p s = (Ok ids, s') \<and> R s'"
    and "R (rs_backend rs)"
  shows "\<exists>rs'. settle_all B vs rs = (Ok (map once_settled vs), rs') \<and> R (rs_backend rs')"
  using assms(1,3)
proof (induction vs arbitrary: rs)
  case (Cons v vs)
  have "\<exists>rs1. settle B v rs = (Ok (once_settled v), rs1) \<and> R (rs_backend rs1) \<and>
      length (rs_cells rs1) = length (rs_cells rs)"
  proof (cases v)
    case (Pending_value c rid n cl)
    then have c: "c < length (rs_cells rs)" using Cons.prems(1) by (simp add: cells_held_def)
    show ?thesis
    proof (cases "rs_cells rs ! c")
      case None
      then show ?thesis using c Cons.prems(2) by (simp add: settle_def Pending_value nth_opt_def Let_def)
    next
      case (Some p)
      obtain ids s' where "b_wait B p (rs_backend rs) = (Ok ids, s')" "R s'"
        using assms(2) Cons.prems(2) by blast
      then show ?thesis using c Some
        by (auto simp: settle_def Pending_value nth_opt_def Let_def act_bind_Ok on_backend_Ok)
    qed
  qed (use Cons.prems in \<open>simp_all add: settle_ready\<close>)
  then obtain rs1 where rs1: "settle B v rs = (Ok (once_settled v), rs1)" "R (rs_backend rs1)"
    "length (rs_cells rs1) = length (rs_cells rs)" by blast
  have "cells_held vs (length (rs_cells rs1))" using Cons.prems(1) rs1(3) by (simp add: cells_held_def)
  then show ?case using Cons.IH [OF _ rs1(2)] rs1(1) by (auto simp: act_bind_Ok)
qed simp

section \<open>The interface of submissions in flight\<close>

text \<open>
  \<open>agrees s t\<close>: the backend that waits is in the state \<open>s\<close>, the one with submissions in flight in
  a state \<open>t\<close> that ends as \<open>s\<close>.
\<close>

locale in_flight =
  fixes B :: "('s, 'p, 'r) backend" and agrees :: "'s \<Rightarrow> 's \<Rightarrow> bool"
  assumes submit_runs: "agrees s t \<Longrightarrow> b_run B launch slots n s = (Ok ids, s') \<Longrightarrow>
      \<exists>p t'. b_submit B launch slots n t = (Ok p, t') \<and> b_outputs B p = ids \<and> agrees s' t'"
    and wait_settles: "agrees s t \<Longrightarrow> \<exists>ids t'. b_wait B p t = (Ok ids, t') \<and> agrees s t'"

text \<open>The extents the host holds.\<close>

definition host_counts :: "node list \<Rightarrow> bool" where
  "host_counts nodes \<longleftrightarrow>
     (\<forall>k v i. Kernel_node k \<in> set nodes \<longrightarrow> kn_count k \<noteq> Device_count v i)"

lemma plan_host_extent:
  assumes "plan i k vs sources allocations = (Ok pl :: (_, 'r graph_refusal) res)"
    "\<And>v i. kn_count k \<noteq> Device_count v i"
  shows "\<exists>n. pl_extent pl = Host_extent n"
  using plan_fields(4) [OF assms(1)] assms(2)
  by (cases "kn_count k") (auto simp: plan_extent_def split: if_splits dest: sym [of "Host_extent _"])

text \<open>The progress of the two runs: they differ in what was waited for.\<close>

definition behind :: "progress \<Rightarrow> progress \<Rightarrow> bool" where
  "behind pr pra \<longleftrightarrow> pr_values pr = map once_settled (pr_values pra) \<and> pr_sources pr = pr_sources pra \<and>
     pr_allocated pr = pr_allocated pra \<and> pr_issued pr = pr_issued pra"

context in_flight
begin

lemma async_step:
  assumes "one_per_output B" "reached vs finished pr" "reached vs finished pra" "behind pr pra"
    and step: "node_step B Serial (length finished) (Kernel_node k) pr rs = (Ok pr', rs')"
    and host: "\<And>v i. kn_count k \<noteq> Device_count v i"
    and related: "agrees (rs_backend rs) (rs_backend ra)"
    and held: "cells_held (pr_values pra) (length (rs_cells ra))"
  shows "\<exists>pra' ra'. node_step B Async (length finished) (Kernel_node k) pra ra = (Ok pra', ra') \<and>
    behind pr' pra' \<and> agrees (rs_backend rs') (rs_backend ra') \<and>
    cells_held (pr_values pra') (length (rs_cells ra'))"
proof -
  let ?i = "length finished"
  obtain pl ids s where st:
    "plan ?i k vs (pr_sources pr) (pr_allocated pr) = (Ok pl :: (_, 'r graph_refusal) res)"
    "one_dispatch B (pr_issued pr) (dispatch_of pl) (rs_backend rs) = (Ok ids, s)"
    "rs' = rs\<lparr>rs_backend := s\<rparr>"
    "pr' = \<lparr>pr_values = pr_values pr @ device_all ids (pl_counts pl) (pl_classes pl),
       pr_sources = pr_sources pr @ produced_sources ?i (length ids),
       pr_allocated = pr_allocated pr @ [allocated (pl_extent pl)],
       pr_issued = pr_issued pr @ [ids]\<rparr>"
    using step unfolding serial_step [OF assms(2)] by blast
  obtain n where n: "pl_extent pl = Host_extent n" using plan_host_extent [OF st(1) host] by blast
  obtain slots where slots: "slots_of (pl_inputs pl) (pr_issued pr) ?i = (Ok slots :: (_, 'r graph_refusal) res)"
    and run: "b_run B (pl_launch pl) slots n (rs_backend rs) = (Ok ids, s)"
    using st(2) by (auto simp: one_dispatch_serial [of _ _ _ _ _ _ ?i] dispatch_serial_def n)
  obtain p t where sub: "b_submit B (pl_launch pl) slots n (rs_backend ra) = (Ok p, t)"
    "b_outputs B p = ids" "agrees s t"
    using submit_runs [OF related run] by blast
  have same: "pr_sources pra = pr_sources pr" "pr_allocated pra = pr_allocated pr" "pr_issued pra = pr_issued pr"
    "pr_values pr = map once_settled (pr_values pra)"
    using assms(4) by (simp_all add: behind_def)
  have plan: "plan ?i k (pr_values pra) (pr_sources pr) (pr_allocated pr) = (Ok pl :: (_, 'r graph_refusal) res)"
    using st(1) reached_plan [OF assms(3)] same(1) by metis
  define pra' where "pra' = \<lparr>pr_values = pr_values pra @ pending_all (length (rs_cells ra)) ids (pl_counts pl) (pl_classes pl),
       pr_sources = pr_sources pr @ produced_sources ?i (length ids),
       pr_allocated = pr_allocated pr @ [allocated (pl_extent pl)],
       pr_issued = pr_issued pr @ [ids]\<rparr>"
  let ?ra = "ra\<lparr>rs_backend := t, rs_cells := rs_cells ra @ [Some p]\<rparr>"
  have "node_step B Async ?i (Kernel_node k) pra ra = (Ok pra', ?ra)"
    using plan slots sub(1,2) n same
    by (simp add: node_step_def act_bind_def act_of_def dispatch_node_def act_map_err_def on_backend_def
        new_cell_def Let_def pra'_def act_ok_def)
  moreover have "behind pr' pra'"
    by (simp add: behind_def st(4) pra'_def same settled_pending_all)
  moreover have "cells_held (pr_values pra') (length (rs_cells ?ra))"
    using held by (auto simp: cells_held_def pra'_def pending_all_def less_Suc_eq)
  ultimately show ?thesis using sub(3) st(3) by auto
qed

lemma async_loop:
  assumes "one_per_output B" "host_counts nodes"
    and "reached vs finished pr" "reached vs finished pra" "behind pr pra"
    and "node_loop B Serial (length finished) nodes pr rs = (Ok pr', rs')"
    and "agrees (rs_backend rs) (rs_backend ra)" "cells_held (pr_values pra) (length (rs_cells ra))"
  shows "\<exists>pra' ra'. node_loop B Async (length finished) nodes pra ra = (Ok pra', ra') \<and>
    behind pr' pra' \<and> agrees (rs_backend rs') (rs_backend ra') \<and>
    cells_held (pr_values pra') (length (rs_cells ra'))"
  using assms(2-)
proof (induction nodes arbitrary: finished pr pra rs ra)
  case (Cons node nodes)
  obtain k where node: "node = Kernel_node k" by (cases node)
  have host: "\<And>v i. kn_count k \<noteq> Device_count v i" "host_counts nodes"
    using Cons.prems(1) by (auto simp: host_counts_def node)
  obtain pr1 rs1 where s: "node_step B Serial (length finished) (Kernel_node k) pr rs = (Ok pr1, rs1)"
    "node_loop B Serial (length (finished @ [node])) nodes pr1 rs1 = (Ok pr', rs')"
    using Cons.prems(5) by (auto simp: act_bind_Ok node)
  obtain pra1 ra1 where a: "node_step B Async (length finished) (Kernel_node k) pra ra = (Ok pra1, ra1)"
    "behind pr1 pra1" "agrees (rs_backend rs1) (rs_backend ra1)"
    "cells_held (pr_values pra1) (length (rs_cells ra1))"
    using async_step [OF assms(1) Cons.prems(2-4) s(1) host(1) Cons.prems(6,7)] by blast
  have r: "reached vs (finished @ [node]) pr1" "reached vs (finished @ [node]) pra1"
    using node_step_reached [OF assms(1) Cons.prems(2) s(1) [folded node]]
      node_step_reached [OF assms(1) Cons.prems(3) a(1) [folded node]] by simp_all
  show ?case
    using Cons.IH [OF host(2) r a(2) s(2) a(3,4)] a(1) by (auto simp: act_bind_Ok node)
qed simp

lemma async_run:
  assumes "one_per_output B" "host_counts (g_nodes g)" "list_all is_ready vs"
    and serial: "run_graph B Serial g vs rs = (Ok ws, rs')"
    and related: "agrees (rs_backend rs) (rs_backend ra)"
  shows "\<exists>ra'. run_graph B Async g vs ra = (Ok ws, ra') \<and> agrees (rs_backend rs') (rs_backend ra')"
proof -
  have arity: "length vs = g_inputs g" using serial by (auto simp: run_graph_def split: if_splits)
  obtain pr rs1 where loop: "node_loop B Serial 0 (g_nodes g) (start_progress vs) rs = (Ok pr, rs1)"
    and settle: "settle_all B (pr_values pr) rs1 = (Ok ws, rs')"
    using serial arity by (auto simp: run_graph_def run_node_by_node_def act_bind_Ok)
  have once_settled: "map once_settled vs = vs"
    using assms(3) by (induction vs) (auto split: graph_value.splits elim!: is_ready.elims)
  have start: "behind (start_progress vs) (start_progress vs)" "cells_held (pr_values (start_progress vs)) n" for n
    using assms(3) once_settled
    by (auto simp: behind_def start_progress_def cells_held_def list_all_iff elim!: waits_for.elims)
  obtain pra ra1 where a: "node_loop B Async 0 (g_nodes g) (start_progress vs) ra = (Ok pra, ra1)"
    "behind pr pra" "agrees (rs_backend rs1) (rs_backend ra1)" "cells_held (pr_values pra) (length (rs_cells ra1))"
    using async_loop [where finished = "[]", OF assms(1,2) reached_start reached_start start(1) _ related start(2)]
      loop by auto
  have ready: "list_all is_ready (pr_values pr)"
    using a(2) by (auto simp: behind_def list_all_iff)
  then have same: "ws = pr_values pr" "rs' = rs1" using settle by (simp_all add: settle_all_ready)
  obtain ra' where "settle_all B (pr_values pra) ra1 = (Ok (map once_settled (pr_values pra)), ra')"
    "agrees (rs_backend rs1) (rs_backend ra')"
    using settle_total [where R = "agrees (rs_backend rs1)", OF a(4) wait_settles a(3)] by blast
  then show ?thesis
    using a(1,2) arity same by (auto simp: run_graph_def run_node_by_node_def act_bind_Ok behind_def)
qed

end

section \<open>The operations the contract provides\<close>

text \<open>A backend with its own run, and the submission and the batch the trait provides.\<close>

definition provided ::
  "(launch_set \<Rightarrow> buffer_slot list \<Rightarrow> nat \<Rightarrow> ('s, resident_id list, 'r) act) \<Rightarrow>
   (launch_set \<Rightarrow> buffer_slot list \<Rightarrow> device_extent \<Rightarrow> ('s, resident_id list, 'r) act) \<Rightarrow>
   ('s, waited, 'r) backend" where
  "provided run over = \<lparr>b_run = run, b_submit = default_submit run, b_outputs = waited_outputs,
     b_wait = waited_wait, b_run_batch = default_run_batch, b_over_device = over\<rparr>"

lemma waited_wait_Ok: "\<exists>ids. waited_wait p t = (Ok ids, t)"
  by (cases p) simp

interpretation waited: in_flight "provided run over" "(=)"
  by unfold_locales (auto simp: provided_def default_submit_def act_bind_Ok waited_wait_Ok)

end
