(* ===== verification/Graph_Table.thy ===== *)
theory Graph_Table
  imports Graph_In_Flight
begin

text \<open>
  What every run answers with: the arguments, then the outputs of each node in turn, all waited for;
  and that a run whose backend keeps its contract does not panic.
\<close>

section \<open>The table\<close>

text \<open>The values a node adds: its ids at the classes its fragment declares, each with the length of its
  own buffer.\<close>

fun node_made :: "node \<Rightarrow> graph_value list \<Rightarrow> bool" where
  "node_made (Kernel_node k) made \<longleftrightarrow>
     (\<exists>n ids. length ids = kf_outputs (kn_fragment k) \<and>
        (\<forall>m. kn_count k = Constant_count m \<longrightarrow> n = m) \<and>
        made = device_all ids (output_counts (kn_fragment k) n) (kf_output_classes (kn_fragment k)))"

definition table_of :: "graph_value list \<Rightarrow> node list \<Rightarrow> graph_value list \<Rightarrow> bool" where
  "table_of vs nodes ws \<longleftrightarrow>
     (\<exists>chunks. ws = vs @ concat chunks \<and> list_all2 node_made nodes chunks)"

lemma node_made_length: "node_made node made \<Longrightarrow> length made = node_outputs node"
  by (cases node) auto

lemma table_of_Nil [simp]: "table_of vs [] ws \<longleftrightarrow> ws = vs"
  by (simp add: table_of_def)

lemma table_of_snoc:
  "table_of vs nodes ws \<Longrightarrow> node_made node made \<Longrightarrow> table_of vs (nodes @ [node]) (ws @ made)"
  unfolding table_of_def
  by (metis (no_types, lifting) append.assoc concat.simps concat_append append_Nil2 list_all2_appendI
      list_all2_Cons list_all2_Nil)

lemma list_all2_node_made_length:
  "list_all2 node_made nodes chunks \<Longrightarrow> length (concat chunks) = sum_list (map node_outputs nodes)"
  by (induction nodes chunks rule: list_all2_induct) (simp_all add: node_made_length)

lemma table_of_length:
  "table_of vs nodes ws \<Longrightarrow> length ws = length vs + sum_list (map node_outputs nodes)"
  by (auto simp: table_of_def list_all2_node_made_length)

lemma plan_constant_extent:
  assumes "plan i k vs sources allocations = (Ok pl :: (_, 'r graph_refusal) res)" "kn_count k = Constant_count m"
  shows "allocated (pl_extent pl) = m"
  using plan_fields(4) [OF assms(1)] assms(2) by (auto simp: plan_extent_def dest: sym)

lemma node_made_plan:
  assumes "plan i k vs sources allocations = (Ok pl :: (_, 'r graph_refusal) res)"
    "length ids = kf_outputs (kn_fragment k)"
  shows "node_made (Kernel_node k) (device_all ids (pl_counts pl) (pl_classes pl))"
  using plan_fields(1,2) [OF assms(1)] plan_constant_extent [OF assms(1)] assms(2)
  by (auto intro!: exI [where x = "allocated (pl_extent pl)"])

lemma dispatch_node_settled:
  assumes "dispatch_node B policy i pl slots issued rs = (Ok (produced, ids), rs')"
  shows "map once_settled produced = device_all ids (pl_counts pl) (pl_classes pl)"
  using assms
  by (cases policy) (auto simp: dispatch_node_def act_bind_Ok Let_def settled_pending_all
      split: batch_extent.splits)

lemma node_loop_table:
  assumes "one_per_output B"
    and "node_loop B policy i nodes pr rs = (Ok pr', rs')"
    and "table_of vs finished (map once_settled (pr_values pr))"
  shows "table_of vs (finished @ nodes) (map once_settled (pr_values pr'))"
  using assms(2,3)
proof (induction nodes arbitrary: i finished pr rs)
  case (Cons node nodes)
  obtain k where node: "node = Kernel_node k" by (cases node)
  obtain pr1 rs1 where s: "node_step B policy i (Kernel_node k) pr rs = (Ok pr1, rs1)"
    "node_loop B policy (Suc i) nodes pr1 rs1 = (Ok pr', rs')"
    using Cons.prems(1) by (auto simp: act_bind_Ok node)
  obtain pl slots produced ids where st:
    "plan i k (pr_values pr) (pr_sources pr) (pr_allocated pr) = (Ok pl :: (_, 'c graph_refusal) res)"
    "dispatch_node B policy i pl slots (pr_issued pr) rs = (Ok (produced, ids), rs1)"
    "pr_values pr1 = pr_values pr @ produced"
    using s(1) by (rule node_step_Ok) simp
  have "length ids = kf_outputs (kn_fragment k)"
    using dispatch_node_ids [OF assms(1) plan_launch_root [OF st(1)] st(2)] by simp
  then have "table_of vs (finished @ [node]) (map once_settled (pr_values pr1))"
    using table_of_snoc [OF Cons.prems(2) node_made_plan [OF st(1)]] dispatch_node_settled [OF st(2)]
    by (simp add: st(3) node)
  then have "table_of vs ((finished @ [node]) @ nodes) (map once_settled (pr_values pr'))"
    by (rule Cons.IH [OF s(2)])
  then show ?case by simp
qed simp

lemma plan_loop_made:
  assumes "plan_loop vs i nodes sources allocations = (Ok pls :: (_, 'r graph_refusal) res)"
    "typed_nodes nodes"
  shows "list_all2 (\<lambda>node pl. \<forall>ids. length ids = length (pl_classes pl) \<longrightarrow>
    node_made node (device_all ids (pl_counts pl) (pl_classes pl))) nodes pls"
  using assms
proof (induction vs i nodes sources allocations arbitrary: pls rule: plan_loop.induct)
  case (2 vs i k nodes sources allocations)
  then obtain pl rest where p: "plan i k vs sources allocations = (Ok pl :: (_, 'r graph_refusal) res)"
    "plan_loop vs (Suc i) nodes (sources @ produced_sources i (length (pl_classes pl)))
       (allocations @ [allocated (pl_extent pl)]) = (Ok rest :: (_, 'r graph_refusal) res)" "pls = pl # rest"
    by auto
  have "typed_nodes nodes" "length (kf_output_classes (kn_fragment k)) = kf_outputs (kn_fragment k)"
    using "2.prems"(2) by (auto simp: typed_nodes_def)
  then show ?case
    using "2.IH" [OF p(2)] node_made_plan [OF p(1)] plan_fields(1) [OF p(1)]
    by (simp add: p(3) del: node_made.simps)
qed simp

lemma batch_values_table:
  assumes made: "list_all2 (\<lambda>node pl. \<forall>ids. length ids = length (pl_classes pl) \<longrightarrow>
      node_made node (device_all ids (pl_counts pl) (pl_classes pl))) nodes pls"
    and "map_opt (batch_values issued) (enumerate 0 pls) = Some produced"
  shows "list_all2 node_made nodes produced"
proof -
  have p: "length produced = length pls"
    "\<And>i. i < length pls \<Longrightarrow> batch_values issued (i, pls ! i) = Some (produced ! i)"
    using assms(2) by (auto simp: map_opt_Some nth_enumerate_eq)
  show ?thesis
    using made p by (fastforce simp: list_all2_conv_all_nth batch_values_def bind_eq_Some_conv
        split: if_splits)
qed

text \<open>Whatever the policy, the answered table is the settled arguments and what each node made.\<close>

lemma run_table:
  assumes "one_per_output B" "typed_nodes (g_nodes g)"
    "run_graph B policy g vs rs = (Ok ws, rs')"
  shows "length vs = g_inputs g \<and> table_of (map once_settled vs) (g_nodes g) ws"
proof -
  have arity: "length vs = g_inputs g" using assms(3) by (auto simp: run_graph_def split: if_splits)
  obtain us rs1 where us: "(case policy of Batch \<Rightarrow> run_in_one_submission B g vs
      | _ \<Rightarrow> run_node_by_node B policy g vs) rs = (Ok us, rs1)" "settle_all B us rs1 = (Ok ws, rs')"
    using assms(3) arity by (auto simp: run_graph_def act_bind_Ok)
  have ws: "ws = map once_settled us" by (rule settle_all_Ok [OF us(2)])
  show ?thesis
  proof (cases "policy = Batch")
    case True
    obtain pls issued produced where b:
      "plan_loop vs 0 (g_nodes g) (replicate (length vs) Given) [] = (Ok pls :: (_, 'c graph_refusal) res)"
      "map_opt (batch_values issued) (enumerate 0 pls) = Some produced" "us = vs @ concat produced"
      using us(1) by (auto simp: True run_in_one_submission_def act_bind_Ok split: option.splits)
    have made: "list_all2 node_made (g_nodes g) produced"
      by (rule batch_values_table [OF plan_loop_made [OF b(1) assms(2)] b(2)])
    have "map once_settled m = m" if "m \<in> set produced" for m
    proof -
      obtain i where "i < length produced" "m = produced ! i"
        using \<open>m \<in> set produced\<close> by (auto simp: in_set_conv_nth)
      then obtain node where "node_made node m" using made by (metis list_all2_conv_all_nth)
      then show ?thesis by (cases node) auto
    qed
    then have "map once_settled (concat produced) = concat produced"
      by (simp add: map_concat map_idI)
    then show ?thesis using made arity unfolding table_of_def ws b(3) by auto
  next
    case False
    then obtain pr where pr: "node_loop B policy 0 (g_nodes g) (start_progress vs) rs = (Ok pr, rs1)"
      "us = pr_values pr"
      using us(1) by (cases policy) (auto simp: run_node_by_node_def act_bind_Ok)
    have "table_of (map once_settled vs) ([] @ g_nodes g) (map once_settled (pr_values pr))"
      by (rule node_loop_table [OF assms(1) pr(1)]) (simp add: start_progress_def)
    then show ?thesis using arity by (simp add: ws pr(2))
  qed
qed

lemma table_of_value:
  assumes "table_of vs nodes ws" "i < length nodes"
  shows "\<exists>made. node_made (nodes ! i) made \<and>
    (\<forall>j < length made. ws ! (length vs + sum_list (map node_outputs (take i nodes)) + j) = made ! j)"
proof -
  obtain chunks where c: "ws = vs @ concat chunks" "list_all2 node_made nodes chunks"
    using assms(1) by (auto simp: table_of_def)
  have i: "i < length chunks" using assms(2) c(2) by (simp add: list_all2_lengthD)
  have "concat chunks = concat (take i chunks) @ chunks ! i @ concat (drop (Suc i) chunks)"
    by (metis Cons_nth_drop_Suc append_take_drop_id concat.simps(2) concat_append i)
  moreover have "length (concat (take i chunks)) = sum_list (map node_outputs (take i nodes))"
    using list_all2_takeI [OF c(2), of i] by (rule list_all2_node_made_length)
  ultimately have "\<forall>j < length (chunks ! i).
      ws ! (length vs + sum_list (map node_outputs (take i nodes)) + j) = chunks ! i ! j"
    by (simp add: c(1) nth_append)
  moreover have "node_made (nodes ! i) (chunks ! i)"
    using c(2) assms(2) by (simp add: list_all2_nthD)
  ultimately show ?thesis by blast
qed

section \<open>No panic\<close>

definition never_panics :: "('s, 'p, 'r) backend \<Rightarrow> bool" where
  "never_panics B \<longleftrightarrow>
     (\<forall>launch slots n s. fst (b_run B launch slots n s) \<noteq> Panic) \<and>
     (\<forall>launch slots n s. fst (b_submit B launch slots n s) \<noteq> Panic) \<and>
     (\<forall>launch slots extent s. fst (b_over_device B launch slots extent s) \<noteq> Panic) \<and>
     (\<forall>p s. fst (b_wait B p s) \<noteq> Panic) \<and>
     (\<forall>batch s. fst (b_run_batch B batch s) \<noteq> Panic)"

text \<open>A batch answers with one list of ids for each dispatch, an id for each output.\<close>

definition batch_answers :: "('s, 'p, 'r) backend \<Rightarrow> bool" where
  "batch_answers B \<longleftrightarrow>
     (\<forall>batch s issued s'. b_run_batch B batch s = (Ok issued, s') \<longrightarrow>
        list_all2 (\<lambda>d ids. \<forall>f. launch_root (d_launch d) = Some f \<longrightarrow> length ids = kf_outputs f) batch issued)"

lemma plan_input_Panic [simp]: "plan_input i vs sources v \<noteq> Panic"
  by (auto simp: plan_input_def res_bind_Panic_iff split: option.splits source.splits graph_value.splits)

lemma as_number_Panic [simp]: "as_number v \<noteq> Panic" by (cases v) simp_all

lemma device_buffer_Panic [simp]: "device_buffer v \<noteq> Panic" by (cases v) simp_all

lemma bits_at_Panic [simp]: "bits_at v c \<noteq> Panic" by (cases v; cases c) simp_all

lemma plan_extent_Panic [simp]: "plan_extent i vs sources allocations c \<noteq> Panic"
  by (auto simp: plan_extent_def res_bind_Panic_iff split: count.splits option.splits source.splits)

lemma leaves_of_Panic [simp]: "(leaves_of i k vs :: (_, 'r graph_refusal) res) \<noteq> Panic"
proof
  assume p: "leaves_of i k vs = (Panic :: (_, 'r graph_refusal) res)"
  then have len: "length (kn_scalars k) = flat_arity (kf_param_shape (kn_fragment k)) - 2"
    by (auto simp: leaves_of_def Let_def runtime_scalars_def shape_runtime_scalars_def split: if_splits)
  obtain x where x: "x \<in> set (enumerate 0 (kn_scalars k))" "leaf_of i k vs x = (Panic :: (_, 'r graph_refusal) res)"
  proof -
    have "collect_res (leaf_of i k vs) (enumerate 0 (kn_scalars k)) =
        (Panic :: (_, 'r graph_refusal) res)"
      using p by (auto simp: leaves_of_def Let_def split: if_splits)
    from collect_res_Panic [OF this] show thesis using that by blast
  qed
  obtain n s where xs: "x = (n, s)" by fastforce
  have "n < length (kn_scalars k)" using x(1) by (auto simp: xs in_set_enumerate_eq)
  then have "\<exists>c. scalar_class_of (kn_fragment k) n = Some c"
    using len by (simp add: scalar_class_of_def leaf_classes_length)
  then show False
    using x(2) by (auto simp: xs leaf_of_def res_bind_Panic_iff split: scalar.splits)
qed

lemma plan_Panic [simp]: "plan i k vs sources allocations \<noteq> Panic"
  by (auto simp: plan_def Let_def res_bind_Panic_iff dest: collect_res_Panic)

lemma slots_of_Panic [simp]: "slots_of inputs issued i \<noteq> Panic"
  unfolding slots_of_def
  by (auto dest!: collect_res_Panic simp: slot_of_def res_bind_Panic_iff split: batch_input.splits)

lemma plan_loop_Panic [simp]: "plan_loop vs i nodes sources allocations \<noteq> Panic"
  by (induction vs i nodes sources allocations rule: plan_loop.induct) (auto simp: res_bind_Panic_iff)

lemma sources_after_produced:
  assumes "nth_opt (sources_after n finished) v = Some (Produced d j)"
  shows "d < length finished \<and> j < node_outputs (finished ! d)"
  using assms
proof (induction finished rule: rev_induct)
  case Nil
  then show ?case by auto
next
  case (snoc node finished)
  then show ?case
    by (auto simp: sources_after_snoc nth_opt_append nth_append produced_sources_def simp del: nth_opt_Some
        split: if_splits) (auto simp: nth_append)
qed

lemma plan_produced_extent:
  assumes "plan i k vs sources allocations = (Ok pl :: (_, 'r graph_refusal) res)"
    "pl_extent pl = Produced_extent d j index capacity"
  shows "\<exists>v. nth_opt sources v = Some (Produced d j)"
  using plan_fields(4) [OF assms(1)] assms(2)
  by (auto simp: plan_extent_def simp del: nth_opt_Some nth_opt_None
      split: count.splits option.splits source.splits if_splits dest: sym)

lemma on_backend_Panic:
  "on_backend m rs = (Panic, rs') \<longleftrightarrow>
     (\<exists>s. m (rs_backend rs) = (Panic, s) \<and> rs' = rs\<lparr>rs_backend := s\<rparr>)"
  by (auto simp: on_backend_def split: prod.splits)

lemma never_panicsD:
  assumes "never_panics B"
  shows "b_run B launch slots n s \<noteq> (Panic, s')" "b_submit B launch slots n s \<noteq> (Panic, s')"
    "b_over_device B launch slots extent s \<noteq> (Panic, s')" "b_wait B p s \<noteq> (Panic, s')"
    "b_run_batch B batch s \<noteq> (Panic, s')"
  using assms unfolding never_panics_def by (metis fst_conv)+

lemma issued_at_produced:
  assumes "reached vs finished pr" "nth_opt (pr_sources pr) v = Some (Produced d j)"
  shows "issued_at (pr_issued pr) d j \<noteq> None"
proof -
  have "d < length finished" "j < node_outputs (finished ! d)" "map length (pr_issued pr) = map node_outputs finished"
    using assms sources_after_produced [of "length vs" finished v d j] by (auto simp: reached_def)
  then have "d < length (pr_issued pr)" "j < length (pr_issued pr ! d)"
    by (metis length_map, metis length_map nth_map)
  then show ?thesis by (simp add: issued_at_def nth_opt_def)
qed

lemma node_step_no_panic:
  assumes "never_panics B" "reached vs finished pr"
  shows "node_step B policy (length finished) node pr rs \<noteq> (Panic, rs')"
proof
  obtain k where node: "node = Kernel_node k" by (cases node)
  let ?i = "length finished"
  assume "node_step B policy ?i node pr rs = (Panic, rs')"
  then obtain pl slots where plan:
    "plan ?i k (pr_values pr) (pr_sources pr) (pr_allocated pr) = (Ok pl :: (_, 'c graph_refusal) res)"
    and d: "dispatch_node B policy ?i pl slots (pr_issued pr) rs = (Panic, rs')"
    by (auto simp: node_step_def node act_bind_Panic split: prod.splits)
  have "issued_at (pr_issued pr) d j \<noteq> None" if "pl_extent pl = Produced_extent d j index capacity"
    for d j index capacity
    using plan_produced_extent [OF plan that] issued_at_produced [OF assms(2)] by blast
  then have "dispatch_serial B pl slots (pr_issued pr) s \<noteq> (Panic, s')" for s s'
    using never_panicsD [OF assms(1)]
    by (auto simp: dispatch_serial_def over_device_def split: batch_extent.splits option.splits)
  then show False
    using d never_panicsD [OF assms(1)]
    by (cases policy) (auto simp: dispatch_node_def act_bind_Panic on_backend_Panic new_cell_def Let_def
        split: batch_extent.splits)
qed

lemma node_loop_no_panic:
  assumes "never_panics B" "one_per_output B" "reached vs finished pr"
  shows "node_loop B policy (length finished) nodes pr rs \<noteq> (Panic, rs')"
  using assms(3)
proof (induction nodes arbitrary: finished pr rs)
  case (Cons node nodes)
  show ?case
  proof
    assume "node_loop B policy (length finished) (node # nodes) pr rs = (Panic, rs')"
    then obtain pr1 rs1 where s: "node_step B policy (length finished) node pr rs = (Ok pr1, rs1)"
      "node_loop B policy (length (finished @ [node])) nodes pr1 rs1 = (Panic, rs')"
      using node_step_no_panic [OF assms(1) Cons.prems] by (auto simp: act_bind_Panic)
    show False using Cons.IH [OF node_step_reached [OF assms(2) Cons.prems s(1)]] s(2) by blast
  qed
qed simp

text \<open>A table's cells are those of the store.\<close>

lemma node_loop_cells:
  assumes "node_loop B policy i nodes pr rs = (Ok pr', rs')"
    "cells_held (pr_values pr) (length (rs_cells rs))"
  shows "cells_held (pr_values pr') (length (rs_cells rs'))"
  using assms
proof (induction nodes arbitrary: i pr rs)
  case (Cons node nodes)
  obtain k where node: "node = Kernel_node k" by (cases node)
  obtain pr1 rs1 where s: "node_step B policy i (Kernel_node k) pr rs = (Ok pr1, rs1)"
    "node_loop B policy (Suc i) nodes pr1 rs1 = (Ok pr', rs')"
    using Cons.prems(1) by (auto simp: act_bind_Ok node)
  obtain pl slots produced ids where st:
    "dispatch_node B policy i pl slots (pr_issued pr) rs = (Ok (produced, ids), rs1)"
    "pr_values pr1 = pr_values pr @ produced"
    using s(1) by (rule node_step_Ok) simp
  have "length (rs_cells rs) \<le> length (rs_cells rs1) \<and> cells_held produced (length (rs_cells rs1))"
    using st(1) by (cases policy) (auto simp: dispatch_node_def act_bind_Ok on_backend_Ok new_cell_def
        Let_def cells_held_def device_all_def pending_all_def split: batch_extent.splits)
  then have "cells_held (pr_values pr1) (length (rs_cells rs1))"
    using Cons.prems(2) by (auto simp: cells_held_def st(2) intro: less_le_trans)
  then show ?case by (rule Cons.IH [OF s(2)])
qed simp

lemma settle_all_no_panic:
  assumes "never_panics B" "cells_held vs (length (rs_cells rs))"
  shows "settle_all B vs rs \<noteq> (Panic, rs')"
  using assms(2)
proof (induction vs arbitrary: rs)
  case (Cons v vs)
  have "settle B v rs \<noteq> (Panic, rs')"
    using Cons.prems never_panicsD(4) [OF assms(1)]
    by (cases v) (auto simp: settle_def cells_held_def act_bind_Panic on_backend_Panic Let_def
        split: option.splits)
  moreover have "cells_held vs (length (rs_cells rs1))" if "settle B v rs = (Ok w, rs1)" for w rs1
    using Cons.prems settle_cells [OF that] by (auto simp: cells_held_def split: option.splits)
  ultimately show ?case using Cons.IH by (auto simp: act_bind_Panic)
qed simp

lemma cells_held_append: "cells_held (vs @ ws) n \<longleftrightarrow> cells_held vs n \<and> cells_held ws n"
  by (auto simp: cells_held_def)

lemma cells_held_concat: "(\<And>m. m \<in> set ms \<Longrightarrow> cells_held m n) \<Longrightarrow> cells_held (concat ms) n"
  by (auto simp: cells_held_def)

lemma run_no_panic:
  assumes "never_panics B" "one_per_output B" "batch_answers B"
    and "typed_nodes (g_nodes g)" "cells_held vs (length (rs_cells rs))"
  shows "run_graph B policy g vs rs \<noteq> (Panic, rs')"
proof
  assume p: "run_graph B policy g vs rs = (Panic, rs')"
  let ?run = "case policy of Batch \<Rightarrow> run_in_one_submission B g vs | _ \<Rightarrow> run_node_by_node B policy g vs"
  have node_by_node: "run_node_by_node B policy g vs rs \<noteq> (Panic, rs1)" for rs1
    using node_loop_no_panic [OF assms(1,2) reached_start [of vs], of policy "g_nodes g" rs]
    by (auto simp: run_node_by_node_def act_bind_Panic)
  have batch: "run_in_one_submission B g vs rs \<noteq> (Panic, rs1)" for rs1
  proof
    assume "run_in_one_submission B g vs rs = (Panic, rs1)"
    then obtain pls issued s where b:
      "plan_loop vs 0 (g_nodes g) (replicate (length vs) Given) [] = (Ok pls :: (_, 'c graph_refusal) res)"
      "b_run_batch B (map dispatch_of pls) (rs_backend rs) = (Ok issued, s)"
      "map_opt (batch_values issued) (enumerate 0 pls) = None"
      using never_panicsD(5) [OF assms(1)]
      by (auto simp: run_in_one_submission_def act_bind_Panic on_backend_Panic on_backend_Ok split: option.splits)
    have "list_all2 (\<lambda>d ids. \<forall>f. launch_root (d_launch d) = Some f \<longrightarrow> length ids = kf_outputs f)
        (map dispatch_of pls) issued"
      using assms(3) b(2) unfolding batch_answers_def by blast
    moreover have "\<exists>f. launch_root (pl_launch pl) = Some f \<and> kf_outputs f = length (pl_classes pl)"
      if "pl \<in> set pls" for pl
      using plan_loop_each [OF b(1) sources_of_start that] plan_launch_root plan_fields(1) assms(4)
      by (fastforce simp: typed_nodes_def)
    ultimately have "list_all2 (\<lambda>pl ids. length ids = length (pl_classes pl)) pls issued"
      by (auto simp: list_all2_conv_all_nth dispatch_of_def) (metis nth_mem)
    then show False using batch_values_made b(3) by fastforce
  qed
  have cells: "cells_held us (length (rs_cells rs1))" if "?run rs = (Ok us, rs1)" for us rs1
  proof (cases "policy = Batch")
    case True
    note run = that
    have "cells_held (device_all ids counts classes) n" for ids counts classes n
      by (auto simp: cells_held_def device_all_def)
    moreover obtain produced pls issued where us: "us = vs @ concat produced"
      and cells: "rs_cells rs1 = rs_cells rs"
      and made: "map_opt (batch_values issued) (enumerate 0 pls) = Some produced"
      using run by (auto simp: True run_in_one_submission_def act_bind_Ok on_backend_Ok split: option.splits)
    moreover have "\<exists>ids counts classes. m = device_all ids counts classes" if m: "m \<in> set produced" for m
    proof -
      obtain i where i: "i < length produced" "m = produced ! i" using m by (auto simp: in_set_conv_nth)
      then have "batch_values issued (enumerate 0 pls ! i) = Some m"
        using made by (simp add: map_opt_Some)
      then show ?thesis
        by (cases "enumerate 0 pls ! i") (auto simp: batch_values_def bind_eq_Some_conv split: if_splits)
    qed
    ultimately show ?thesis
      using assms(5) unfolding us cells cells_held_append by (metis cells_held_concat)
  next
    case False
    then have "run_node_by_node B policy g vs rs = (Ok us, rs1)" using that by (cases policy) simp_all
    then show ?thesis using node_loop_cells assms(5)
      by (fastforce simp: run_node_by_node_def act_bind_Ok start_progress_def)
  qed
  show False
    using p node_by_node batch settle_all_no_panic [OF assms(1) cells]
    by (cases policy) (auto simp: run_graph_def act_bind_Panic split: if_splits)
qed

end
