(* ===== verification/Graph_Properties.thy ===== *)
theory Graph_Properties
  imports Graph_Table
begin

text \<open>
  What a graph and its run promise, with a small graph run on a backend that hands out ids in order.
\<close>

section \<open>A small graph\<close>

definition copy_fragment :: "nat \<Rightarrow> kernel_fragment" where
  "copy_fragment outputs =
     \<lparr>kf_param_shape = Tuple_shape [Scalar_shape Int_class, Scalar_shape Int_class],
      kf_roles = \<lparr>r_scalars = [], r_inputs = [], r_outputs = [], r_input_classes = [],
        r_output_classes = [], r_output_extents = [Some 8]\<rparr>,
      kf_body = body_new, kf_inputs = 1, kf_outputs = outputs, kf_input_classes = [Int_class],
      kf_output_classes = replicate outputs Int_class, kf_result_classes = [],
      kf_target = \<lparr>tf_int_width = I64, tf_lane_width = 32, tf_lane_height = 1\<rparr>,
      kf_slices = [], kf_marks = []\<rparr>"

definition copy_node :: "nat \<Rightarrow> nat \<Rightarrow> count \<Rightarrow> node" where
  "copy_node v outputs c = Kernel_node \<lparr>kn_fragment = copy_fragment outputs, kn_inputs = [v],
     kn_count = c, kn_scalars = []\<rparr>"

text \<open>Two copies of a host argument over two lanes, the second of the first.\<close>

definition chain :: graph where
  "chain = \<lparr>g_nodes = [copy_node 0 1 (Constant_count 2), copy_node 2 1 (Value_count 1)],
     g_inputs = 2, g_values = 4, g_returns = None\<rparr>"

definition chain_arguments :: "graph_value list" where
  "chain_arguments = [Host_value (replicate 16 0) Int_class, Int_value 2]"

text \<open>A backend that hands out the next ids.\<close>

definition next_ids :: "launch_set \<Rightarrow> buffer_slot list \<Rightarrow> nat \<Rightarrow> (nat, resident_id list, string) act" where
  "next_ids launch slots n s = (case launch_root launch of
      None \<Rightarrow> (Err ''no root'', s)
    | Some f \<Rightarrow> (Ok (map (\<lambda>i. ResidentId (word_of_nat (s + i))) [0..<kf_outputs f]), s + kf_outputs f))"

definition next_over :: "launch_set \<Rightarrow> buffer_slot list \<Rightarrow> device_extent \<Rightarrow>
    (nat, resident_id list, string) act" where
  "next_over launch slots extent = next_ids launch slots (de_capacity extent)"

definition handing :: "(nat, waited, string) backend" where
  "handing = provided next_ids next_over"

text \<open>The same with a batch that runs its dispatches in order.\<close>

definition handing_batch :: "(nat, waited, string) backend" where
  "handing_batch = handing\<lparr>b_run_batch :=
     \<lambda>batch. act_map_err Batch_refused (sequential handing [] batch)\<rparr>"

lemma next_ids_length: "next_ids launch slots n s = (Ok ids, s') \<Longrightarrow> launch_root launch = Some f \<Longrightarrow>
    length ids = kf_outputs f"
  by (auto simp: next_ids_def)

lemma handing_one_per_output: "one_per_output handing" "one_per_output handing_batch"
  by (auto simp: one_per_output_def handing_batch_def handing_def provided_def next_over_def
      default_submit_def act_bind_Ok dest: next_ids_length)

lemma one_dispatch_handing: "one_dispatch handing_batch issued d = one_dispatch handing issued d"
proof -
  have same: "b_run handing_batch = b_run handing" "b_over_device handing_batch = b_over_device handing"
    by (simp_all add: handing_batch_def)
  show ?thesis unfolding one_dispatch_def same ..
qed

lemma sequential_handing: "sequential handing_batch issued ds = sequential handing issued ds"
  by (induction ds arbitrary: issued) (simp_all add: one_dispatch_handing)

lemma handing_batch_runs_each: "batch_runs_each handing_batch"
  unfolding batch_runs_each_def sequential_handing by (simp add: handing_batch_def)

lemma handing_never_panics: "never_panics handing" "batch_answers handing"
  by (auto simp: never_panics_def batch_answers_def handing_def provided_def next_over_def next_ids_def
      default_submit_def default_run_batch_def act_bind_def act_ok_def split: option.splits)
    (metis act_ok_def fst_conv res.distinct(3) waited_wait_Ok)

lemma chain_typed: "typed_nodes (g_nodes chain)"
  by (auto simp: typed_nodes_def chain_def copy_node_def copy_fragment_def)

lemma chain_declared: "given_at_declared chain chain_arguments"
  by (auto simp: given_at_declared_def chain_def copy_node_def copy_fragment_def chain_arguments_def nth_Cons'
      split: if_splits)

lemma chain_host: "host_counts (g_nodes chain)"
  by (auto simp: host_counts_def chain_def copy_node_def)

lemma chain_built: "built_graph chain"
proof -
  let ?first = "copy_node 0 1 (Constant_count 2)" and ?second = "copy_node 2 1 (Value_count 1)"
  let ?one = "\<lparr>g_nodes = [?first], g_inputs = 2, g_values = 3, g_returns = None\<rparr>"
  have "push ?first 1 (with_inputs 2) = (Ok (2, ?one) :: (_, unit graph_refusal) res)"
    by (simp add: push_Ok with_inputs_def copy_node_def copy_fragment_def)
  then have "built_graph ?one" by (rule built_graph.push [OF built_graph.start])
  moreover have "push ?second 1 ?one = (Ok (3, chain) :: (_, unit graph_refusal) res)"
    by (simp add: push_Ok chain_def copy_node_def copy_fragment_def)
  ultimately show ?thesis by (rule built_graph.push)
qed

definition fresh_state :: "(nat, waited) run_state" where
  "fresh_state = \<lparr>rs_backend = 0, rs_cells = []\<rparr>"

definition chain_table :: "graph_value list" where
  "chain_table = chain_arguments @
     [Device_value (ResidentId 0) 8 Int_class, Device_value (ResidentId 1) 8 Int_class]"

lemmas run_simps = run_graph_def run_node_by_node_def node_step_def act_bind_def act_of_def act_ok_def
  plan_def plan_input_def plan_extent_def leaves_of_def slots_of_def slot_of_def issued_at_def
  dispatch_node_def dispatch_serial_def on_backend_def act_map_err_def ok_or_def output_counts_def
  resize_def device_all_def counts_at_def class_at_def start_progress_def produced_sources_def
  runtime_scalars_def shape_runtime_scalars_def next_ids_def provided_def handing_def nth_opt_def
  launch_root_def with_leaves_def launch_single_def settle_def default_submit_def new_cell_def
  pending_all_def

lemma chain_serial:
  "run_graph handing Serial chain chain_arguments fresh_state =
     (Ok chain_table, fresh_state\<lparr>rs_backend := 2\<rparr>)"
  by (simp add: run_simps chain_def chain_arguments_def chain_table_def copy_node_def copy_fragment_def
      fresh_state_def Let_def)

section \<open>The graph\<close>

text \<open>
  In every graph the operations build, the value table has the arguments and the outputs of every
  node, an edge of a node names an argument or a value that an earlier node produces, and the recorded
  return names values of the table.
\<close>

theorem graph_edges_point_back:
  assumes "built_graph g"
  shows "g_values g = first_value g (length (g_nodes g)) \<and>
    (\<forall>i < length (g_nodes g). \<forall>v \<in> set (node_inputs (g_nodes g ! i)). v < first_value g i) \<and>
    (\<forall>vs. g_returns g = Some vs \<longrightarrow> (\<forall>v \<in> set vs. v < g_values g))"
  using built_graph_ok [OF assms] unfolding graph_ok_def by blast

theorem graph_edges_point_back_witness:
  "g_values chain = first_value chain 2 \<and> set (node_inputs (g_nodes chain ! 1)) \<subseteq> {..<first_value chain 1}"
proof -
  have "length (g_nodes chain) = 2" by (simp add: chain_def)
  then show ?thesis
    using graph_edges_point_back [OF chain_built]
    by (metis lessThan_iff one_less_numeral_iff semiring_norm(76) subsetI)
qed

section \<open>Payloads\<close>

text \<open>
  The elements read from a packed payload are the words packed, cut to what the class keeps; packing
  the elements of a payload gives its bytes, without the rest of an incomplete element.
\<close>

theorem payload_round_trip:
  "payload_elements c (pack c ws) = map (kept_bits c) ws \<and>
   pack c (payload_elements c bs) = take (byte_width c * (length bs div byte_width c)) bs \<and>
   value_count (host_data c (pack c ws)) = Some (length ws)"
proof -
  have "length (pack c ws) = byte_width c * length ws"
    by (simp add: pack_def length_concat comp_def sum_list_triv)
  then show ?thesis by (simp add: elements_pack pack_elements host_data_def)
qed

section \<open>The schedules agree\<close>

text \<open>
  C8: On a backend that answers an id for each output and runs a batch as its dispatches one after the
  other, the batch policy answers a table exactly when the serial policy does, the same table, and
  leaves the backend in the same state. Host data has to be given at the class each kernel reading it
  declares, because only a batch tells the backend the class it was given at.
\<close>

theorem batch_answers_serial:
  assumes "one_per_output B" "batch_runs_each B"
    and "typed_nodes (g_nodes g)" "given_at_declared g vs"
  shows "run_graph B Batch g vs rs = (Ok ws, rs') \<longleftrightarrow> run_graph B Serial g vs rs = (Ok ws, rs')"
  using run_batch_serial [OF assms] by (auto simp: run_graph_def act_bind_Ok)

theorem batch_answers_serial_witness:
  "run_graph handing_batch Batch chain chain_arguments fresh_state =
     (Ok chain_table, fresh_state\<lparr>rs_backend := 2\<rparr>)"
  unfolding batch_answers_serial [OF handing_one_per_output(2) handing_batch_runs_each chain_typed chain_declared]
  by (simp add: run_simps chain_def chain_arguments_def chain_table_def copy_node_def copy_fragment_def
      fresh_state_def Let_def handing_batch_def)

text \<open>
  C19: On a backend whose submissions end in what a run would have answered, the asynchronous policy
  answers the table the serial policy answers, when every extent is a number the host holds.
\<close>

theorem async_answers_serial:
  assumes "in_flight B agrees" "one_per_output B" "host_counts (g_nodes g)" "list_all is_ready vs"
    and "run_graph B Serial g vs rs = (Ok ws, rs')" "agrees (rs_backend rs) (rs_backend ra)"
  shows "\<exists>ra'. run_graph B Async g vs ra = (Ok ws, ra') \<and> agrees (rs_backend rs') (rs_backend ra')"
  by (rule in_flight.async_run [OF assms])

theorem async_answers_serial_witness:
  "\<exists>ra'. run_graph handing Async chain chain_arguments fresh_state = (Ok chain_table, ra') \<and>
     rs_backend ra' = 2"
proof -
  have "in_flight handing (=)" unfolding handing_def by (rule waited.in_flight_axioms)
  moreover have "list_all is_ready chain_arguments" by (simp add: chain_arguments_def)
  ultimately show ?thesis
    using async_answers_serial [OF _ handing_one_per_output(1) chain_host _ chain_serial, of "(=)" fresh_state]
    by fastforce
qed

section \<open>Submissions are waited for\<close>

lemma async_step_cells:
  fixes B :: "('s, 'p, 'r) backend"
  assumes "node_step B Async i node pr rs = (Ok pr', rs')" "one_per_output B"
  shows "\<exists>p. rs_cells rs' = rs_cells rs @ [Some p] \<and>
    (\<forall>c. (\<exists>v \<in> set (pr_values pr'). waits_for v = Some c) \<longleftrightarrow>
       (\<exists>v \<in> set (pr_values pr). waits_for v = Some c) \<or> c = length (rs_cells rs) \<and> 0 < node_outputs node)"
proof -
  obtain k where node: "node = Kernel_node k" by (cases node)
  obtain pl slots produced ids where st:
    "plan i k (pr_values pr) (pr_sources pr) (pr_allocated pr) = (Ok pl :: (_, 'r graph_refusal) res)"
    "dispatch_node B Async i pl slots (pr_issued pr) rs = (Ok (produced, ids), rs')"
    "pr_values pr' = pr_values pr @ produced"
    using assms(1) unfolding node by (rule node_step_Ok) simp
  have len: "length ids = node_outputs node"
    using dispatch_node_ids [OF assms(2) plan_launch_root [OF st(1)] st(2)] by (simp add: node)
  obtain p where p: "rs_cells rs' = rs_cells rs @ [Some p]"
    "produced = pending_all (length (rs_cells rs)) ids (pl_counts pl) (pl_classes pl)"
    using st(2) by (auto simp: dispatch_node_def act_bind_Ok on_backend_Ok new_cell_def Let_def
        split: batch_extent.splits)
  have "(\<exists>v \<in> set produced. waits_for v = Some c) \<longleftrightarrow> c = length (rs_cells rs) \<and> 0 < length ids" for c
    by (cases ids) (auto simp: p(2) pending_all_def)
  then show ?thesis using p(1) len by (auto simp: st(3) bex_Un)
qed

lemma async_loop_cells:
  assumes "node_loop B Async i nodes pr rs = (Ok pr', rs')" "one_per_output B"
  shows "\<exists>ps. rs_cells rs' = rs_cells rs @ map Some ps \<and> length ps = length nodes \<and>
    (\<forall>c. (\<exists>v \<in> set (pr_values pr'). waits_for v = Some c) \<longleftrightarrow>
       (\<exists>v \<in> set (pr_values pr). waits_for v = Some c) \<or>
       (\<exists>j < length nodes. c = length (rs_cells rs) + j \<and> 0 < node_outputs (nodes ! j)))"
  using assms(1)
proof (induction nodes arbitrary: i pr rs)
  case (Cons node nodes)
  obtain pr1 rs1 where s: "node_step B Async i node pr rs = (Ok pr1, rs1)"
    "node_loop B Async (Suc i) nodes pr1 rs1 = (Ok pr', rs')"
    using Cons.prems by (auto simp: act_bind_Ok)
  obtain p where p: "rs_cells rs1 = rs_cells rs @ [Some p]"
    "\<And>c. (\<exists>v \<in> set (pr_values pr1). waits_for v = Some c) \<longleftrightarrow>
       (\<exists>v \<in> set (pr_values pr). waits_for v = Some c) \<or> c = length (rs_cells rs) \<and> 0 < node_outputs node"
    using async_step_cells [OF s(1) assms(2)] by blast
  obtain ps where ps: "rs_cells rs' = rs_cells rs1 @ map Some ps" "length ps = length nodes"
    "\<And>c. (\<exists>v \<in> set (pr_values pr'). waits_for v = Some c) \<longleftrightarrow>
       (\<exists>v \<in> set (pr_values pr1). waits_for v = Some c) \<or>
       (\<exists>j < length nodes. c = length (rs_cells rs1) + j \<and> 0 < node_outputs (nodes ! j))"
    using Cons.IH [OF s(2)] by blast
  have "(\<exists>j < length (node # nodes). c = n + j \<and> 0 < node_outputs ((node # nodes) ! j)) \<longleftrightarrow>
      c = n \<and> 0 < node_outputs node \<or> (\<exists>j < length nodes. c = Suc n + j \<and> 0 < node_outputs (nodes ! j))"
    for c n by (auto simp: less_Suc_eq_0_disj)
  then show ?case
    using p(1) ps(1,2) by (intro exI [where x = "p # ps"]) (auto simp: ps(3) p(2))
qed simp



section \<open>What a run answers\<close>





section \<open>Counts and scalars the host reads\<close>

lemma node_loop_plans:
  fixes B :: "('s, 'p, 'r) backend"
  assumes "one_per_output B" "reached vs finished pr"
    and "node_loop B policy (length finished) nodes pr rs = (Ok pr', rs')" "Kernel_node k \<in> set nodes"
  shows "\<exists>j sources allocations pl. plan j k vs sources allocations = (Ok pl :: (_, 'r graph_refusal) res)"
  using assms(2-)
proof (induction nodes arbitrary: finished pr rs)
  case (Cons node nodes)
  obtain pr1 rs1 where s: "node_step B policy (length finished) node pr rs = (Ok pr1, rs1)"
    "node_loop B policy (length (finished @ [node])) nodes pr1 rs1 = (Ok pr', rs')"
    using Cons.prems(2) by (auto simp: act_bind_Ok)
  show ?case
  proof (cases "node = Kernel_node k")
    case True
    obtain pl where "plan (length finished) k (pr_values pr) (pr_sources pr) (pr_allocated pr) =
        (Ok pl :: (_, 'r graph_refusal) res)"
      using s(1) unfolding True by (rule node_step_Ok) simp
    then show ?thesis using reached_plan [OF Cons.prems(1)] by blast
  next
    case False
    then show ?thesis
      using Cons.IH [OF node_step_reached [OF assms(1) Cons.prems(1) s(1)] s(2)] Cons.prems(3) by simp
  qed
qed simp

lemma run_plans:
  fixes B :: "('s, 'p, 'r) backend"
  assumes "one_per_output B" "run_graph B policy g vs rs = (Ok ws, rs')" "Kernel_node k \<in> set (g_nodes g)"
  shows "\<exists>j sources allocations pl. plan j k vs sources allocations = (Ok pl :: (_, 'r graph_refusal) res)"
proof (cases "policy = Batch")
  case True
  obtain pls where loop: "plan_loop vs 0 (g_nodes g) (replicate (length vs) Given) [] =
      (Ok pls :: (_, 'r graph_refusal) res)"
    using assms(2) by (auto simp: True run_graph_def run_in_one_submission_def act_bind_Ok split: if_splits)
  have "\<exists>j sources allocations pl. plan j k vs sources allocations = (Ok pl :: (_, 'r graph_refusal) res)"
    if "plan_loop vs i nodes sources allocations = (Ok pls :: (_, 'r graph_refusal) res)" "Kernel_node k \<in> set nodes"
    for i nodes sources allocations pls
    using that by (induction vs i nodes sources allocations arbitrary: pls rule: plan_loop.induct) auto
  then show ?thesis using loop assms(3) by blast
next
  case False
  then obtain pr rs1 where "node_loop B policy 0 (g_nodes g) (start_progress vs) rs = (Ok pr, rs1)"
    using assms(2) by (cases policy) (auto simp: run_graph_def run_node_by_node_def act_bind_Ok split: if_splits)
  then show ?thesis using node_loop_plans [where finished = "[]" and vs = vs, OF assms(1) reached_start] assms(3)
    by simp
qed

text \<open>
  A run answers only if every count edge of a kernel names an argument of the graph that is a number
  not below zero, and every scalar edge an argument that is a number: the outputs of a node are never
  numbers. Appending a node does not look at these edges.
\<close>

theorem run_needs_given_numbers:
  assumes "one_per_output B" "run_graph B policy g vs rs = (Ok ws, rs')" "Kernel_node k \<in> set (g_nodes g)"
  shows "(\<forall>v. kn_count k = Value_count v \<longrightarrow> v < g_inputs g \<and> (\<exists>n. vs ! v = Int_value n \<and> 0 \<le> sint n)) \<and>
    (\<forall>v. Value_scalar v \<in> set (kn_scalars k) \<longrightarrow>
       v < g_inputs g \<and> ((\<exists>n. vs ! v = Int_value n) \<or> (\<exists>x. vs ! v = Float_value x)))"
proof -
  have arity: "length vs = g_inputs g" using assms(2) by (auto simp: run_graph_def split: if_splits)
  obtain j sources allocations pl where pl: "plan j k vs sources allocations = (Ok pl :: (_, 'c graph_refusal) res)"
    using run_plans [OF assms] by blast
  obtain e where e: "plan_extent j vs sources allocations (kn_count k) = (Ok e :: (_, 'c graph_refusal) res)"
    using plan_fields(4) [OF pl] by blast
  have number: "v = Int_value m" if "as_number v = Ok m" for v m using that by (cases v) auto
  have bits: "(\<exists>n. v = Int_value n) \<or> (\<exists>x. v = Float_value x)" if "bits_at v c = Ok b" for v c b
    using that by (cases v; cases c) auto
  obtain ls where "leaves_of j k vs = (Ok ls :: (_, 'c graph_refusal) res)"
    using pl by (auto simp: plan_def Let_def split: if_splits)
  then have leaves: "list_all2 (\<lambda>x leaf. leaf_of j k vs x = (Ok leaf :: (_, 'c graph_refusal) res))
      (enumerate 0 (kn_scalars k)) ls"
    by (auto simp: leaves_of_def Let_def collect_res_Ok split: if_splits)
  have "v < g_inputs g \<and> ((\<exists>n. vs ! v = Int_value n) \<or> (\<exists>x. vs ! v = Float_value x))"
    if v: "Value_scalar v \<in> set (kn_scalars k)" for v
  proof -
    obtain i where i: "i < length (kn_scalars k)" "kn_scalars k ! i = Value_scalar v"
      using v by (auto simp: in_set_conv_nth)
    then have "leaf_of j k vs (i, Value_scalar v) = (Ok (ls ! i) :: (_, 'c graph_refusal) res)"
      using leaves by (auto simp: list_all2_conv_all_nth nth_enumerate_eq)
    then show ?thesis using arity by (auto simp: leaf_of_def dest: bits)
  qed
  moreover have "v < g_inputs g \<and> (\<exists>n. vs ! v = Int_value n \<and> 0 \<le> sint n)"
    if c: "kn_count k = Value_count v" for v
  proof -
    obtain a where "v < length vs" "as_number (vs ! v) = Ok a" "\<not> sint a < 0"
      using e by (auto simp: plan_extent_def c split: if_splits)
    then show ?thesis using number [of "vs ! v" a] arity by simp
  qed
  ultimately show ?thesis by blast
qed

theorem run_needs_given_numbers_witness:
  "\<exists>n. chain_arguments ! 1 = Int_value n \<and> 0 \<le> sint n"
proof -
  let ?k = "\<lparr>kn_fragment = copy_fragment 1, kn_inputs = [2], kn_count = Value_count 1, kn_scalars = []\<rparr>"
  have "Kernel_node ?k \<in> set (g_nodes chain)" by (simp add: chain_def copy_node_def)
  from run_needs_given_numbers [OF handing_one_per_output(1) chain_serial this] show ?thesis by auto
qed

section \<open>The capacity of an extent on the device\<close>

text \<open>
  An extent read from a buffer the run produced gets the extent of the launch that wrote it as its
  capacity, and not the elements the buffer holds, when its declaration states a length of its own; the
  same buffer given as an argument gives the elements it holds. An extent that names a number is
  refused in the name of the element instead of the node.
\<close>

theorem device_extent_slips:
  assumes "nth_opt sources v = Some (Produced d j)" "nth_opt allocations d = Some launch"
    and "nth_opt (r_output_extents (kf_roles f)) j = Some (Some n)" "j < kf_outputs f"
    and "nth_opt given v = Some Given" "nth_opt us v = Some (Device_value rid (output_counts f launch ! j) c)"
    and "nth_opt given w = Some Given" "nth_opt us w = Some (Int_value m)"
  shows "plan_extent i vs sources allocations (Device_count v e) = Ok (Produced_extent d j e launch) \<and>
    plan_extent i us given allocations (Device_count v e) = Ok (Resident_extent rid e (unat n)) \<and>
    plan_extent i us given allocations (Device_count w e) = Err (Extent_not_a_device e w ''a number'')"
proof -
  have "output_counts f launch ! j = unat n"
    using assms(3,4) by (simp add: output_counts_def resize_def nth_append)
  then show ?thesis using assms(1,2,5-8)
    by (simp add: plan_extent_def ok_or_def del: nth_opt_Some)
qed

theorem device_extent_slips_witness:
  "plan_extent 1 chain_arguments [Given, Given, Produced 0 0] [2] (Device_count 2 5) =
     (Ok (Produced_extent 0 0 5 2) :: (_, unit graph_refusal) res) \<and>
   plan_extent 1 [Int_value 0, Int_value 0, Device_value (ResidentId 7) 8 Int_class]
     [Given, Given, Given] [2] (Device_count 2 5) =
     (Ok (Resident_extent (ResidentId 7) 5 8) :: (_, unit graph_refusal) res) \<and>
   plan_extent 1 [Int_value 0, Int_value 0, Device_value (ResidentId 7) 8 Int_class]
     [Given, Given, Given] [2] (Device_count 0 5) =
     (Err (Extent_not_a_device 5 0 ''a number'') :: (_, unit graph_refusal) res)"
  using device_extent_slips [of "[Given, Given, Produced 0 0]" 2 0 0 "[2]" 2 "copy_fragment 1" 8
      "[Given, Given, Given]" "[Int_value 0, Int_value 0, Device_value (ResidentId 7) 8 Int_class]" "ResidentId 7" Int_class
      0 0 1 chain_arguments 5]
  by (simp add: copy_fragment_def output_counts_def resize_def)

end
