(* ===== verification/Key_Graph.thy ===== *)
theory Key_Graph
  imports Class_Store
begin

text \<open>
  The value graph a table key is read from (\<open>lichen-lowlevel/src/lib.rs\<close>, \<open>static_module.rs\<close>,
  \<open>resolve.rs\<close>, \<open>module.rs\<close>): nodes of the module itself and of the frozen modules it has registered,
  the values they hold, and the reads that never evaluate.

  A handle is the name of a payload; two handles are equal when they name the same storage. What a
  payload holds is read from the module by \<open>kg_arrays\<close> and \<open>kg_tables\<close>, whose answer at a handle
  that is not live is nothing the code may ask for (the reads are \<open>unsafe\<close>). The program's own
  value variants are a parameter \<open>'x\<close>; their equality is an argument of the operations that compare.
  A string is its bytes. \<open>None\<close> is a panic: an index outside a frozen module's nodes, a module that is
  not registered.
\<close>

section \<open>Names and values\<close>

datatype any_node = Dyn nat | Static nat nat

datatype any_function = Dyn_function nat | Static_function nat nat

datatype any_handle = Dyn_handle nat | Static_handle nat nat

record array_item =
  ai_node :: any_node
  ai_shallow :: bool
  ai_template :: bool

record array_value =
  av_items :: any_handle
  av_layout :: u32

definition array_new :: "any_handle \<Rightarrow> array_value" where
  "array_new items = \<lparr>av_items = items, av_layout = 0\<rparr>"

record table_item =
  ti_key :: any_node
  ti_value :: any_node
  ti_hash :: u64

type_synonym low = "(array_value, any_handle, any_function) low_value"

datatype 'x prog_value = Low low | Ext 'x

fun as_enum :: "'x prog_value \<Rightarrow> low option" where
  "as_enum (Low v) = Some v"
| "as_enum (Ext x) = None"

text \<open>
  The equality of two values: of two structural values the one \<open>LowValue\<close> writes out, which
  compares a float by its bits and a payload by its storage; of two values of the program its own.
\<close>

fun value_eq :: "('x \<Rightarrow> 'x \<Rightarrow> bool) \<Rightarrow> 'x prog_value \<Rightarrow> 'x prog_value \<Rightarrow> bool" where
  "value_eq ext_eq (Low a) (Low b) \<longleftrightarrow> a = b"
| "value_eq ext_eq (Ext x) (Ext y) \<longleftrightarrow> ext_eq x y"
| "value_eq ext_eq _ _ \<longleftrightarrow> False"

section \<open>The module\<close>

text \<open>
  A node: its value, its operation's operand (\<open>Some None\<close> for an operation without one), and what
  the deep pass left, \<open>Some True\<close> for a walk that met something undecided.
\<close>

record 'x key_node =
  kn_value :: "'x prog_value option"
  kn_operation :: "nat option option"
  kn_deep :: "bool option"

record template =
  tp_return :: nat
  tp_asserts :: "nat list"

record 'x static_module =
  sm_nodes :: "'x key_node list"
  sm_functions :: "template list"
  sm_read_only :: bool

record 'x key_graph =
  kg_nodes :: "nat \<rightharpoonup> 'x key_node"
  kg_functions :: "nat \<rightharpoonup> template"
  kg_static :: "nat \<rightharpoonup> 'x static_module"
  kg_arrays :: "any_handle \<Rightarrow> array_item list"
  kg_tables :: "any_handle \<Rightarrow> table_item list"

fun static_node :: "'x key_graph \<Rightarrow> nat \<Rightarrow> nat \<Rightarrow> 'x key_node option" where
  "static_node G m i = do { sm \<leftarrow> kg_static G m; nth_opt (sm_nodes sm) i }"

text \<open>The value behind a node, without evaluating; a node that was released has none.\<close>

fun node_value :: "'x key_graph \<Rightarrow> any_node \<Rightarrow> 'x prog_value option option" where
  "node_value G (Dyn n) = Some (case kg_nodes G n of None \<Rightarrow> None | Some node \<Rightarrow> kn_value node)"
| "node_value G (Static m i) = do { node \<leftarrow> static_node G m i; Some (kn_value node) }"

fun read_only_static :: "'x key_graph \<Rightarrow> any_node \<Rightarrow> bool option" where
  "read_only_static G (Dyn n) = Some False"
| "read_only_static G (Static m i) = do { sm \<leftarrow> kg_static G m; Some (sm_read_only sm) }"

text \<open>
  The operation edge of a node: \<open>None\<close> for none, \<open>Some None\<close> for an operation without an operand.
\<close>

fun operation_operand :: "'x key_graph \<Rightarrow> any_node \<Rightarrow> any_node option option option" where
  "operation_operand G (Dyn n) =
     Some (case kg_nodes G n of None \<Rightarrow> None
           | Some node \<Rightarrow> map_option (map_option Dyn) (kn_operation node))"
| "operation_operand G (Static m i) = do {
     sm \<leftarrow> kg_static G m;
     Some (case nth_opt (sm_nodes sm) i of None \<Rightarrow> None
           | Some node \<Rightarrow> map_option (map_option (Static m)) (kn_operation node)) }"

text \<open>
  What an element slot states: the first position of an array that carries attributes, the node
  itself otherwise.
\<close>

definition element_value_node :: "'x key_graph \<Rightarrow> any_node \<Rightarrow> any_node option option" where
  "element_value_node G node = do {
     value \<leftarrow> node_value G node;
     Some (case Option.bind value as_enum of
       Some (Low_Array a) \<Rightarrow>
         if av_layout a \<noteq> 0
         then (case kg_arrays G (av_items a) of [] \<Rightarrow> None | item # _ \<Rightarrow> Some (ai_node item))
         else Some node
     | _ \<Rightarrow> Some node) }"

text \<open>The node whose value an array's item contributes to a key: \<open>unwrap_or\<close> of the slot's.\<close>

definition item_node :: "'x key_graph \<Rightarrow> array_item \<Rightarrow> any_node option" where
  "item_node G item = do {
     slot \<leftarrow> element_value_node G (ai_node item);
     Some (case slot of None \<Rightarrow> ai_node item | Some node \<Rightarrow> node) }"

section \<open>Tables from names to positions\<close>

text \<open>
  One entry as its name and position; \<open>None\<close> inside when either is not what the table promises.
\<close>

definition name_table_entry :: "'x key_graph \<Rightarrow> table_item \<Rightarrow> (string \<times> u64) option option" where
  "name_table_entry G item = do {
     k \<leftarrow> node_value G (ti_key item);
     case Option.bind k as_enum of
       Some (Low_Str name) \<Rightarrow> do {
         v \<leftarrow> node_value G (ti_value item);
         Some (case Option.bind v as_enum of Some (Low_USize i) \<Rightarrow> Some (name, i) | _ \<Rightarrow> None) }
     | _ \<Rightarrow> Some None }"

fun find_map_opt :: "('a \<Rightarrow> 'b option option) \<Rightarrow> 'a list \<Rightarrow> 'b option option" where
  "find_map_opt f [] = Some None"
| "find_map_opt f (x # xs) = do {
     r \<leftarrow> f x;
     case r of Some y \<Rightarrow> Some (Some y) | None \<Rightarrow> find_map_opt f xs }"

definition name_table_index :: "'x key_graph \<Rightarrow> any_handle \<Rightarrow> string \<Rightarrow> u64 option option" where
  "name_table_index G table name = find_map_opt
     (\<lambda>item. do {
        entry \<leftarrow> name_table_entry G item;
        Some (case entry of Some (n, i) \<Rightarrow> if n = name then Some i else None | None \<Rightarrow> None) })
     (kg_tables G table)"

definition name_table_name :: "'x key_graph \<Rightarrow> any_handle \<Rightarrow> u64 \<Rightarrow> string option option" where
  "name_table_name G table position = find_map_opt
     (\<lambda>item. do {
        entry \<leftarrow> name_table_entry G item;
        Some (case entry of Some (n, i) \<Rightarrow> if i = position then Some n else None | None \<Rightarrow> None) })
     (kg_tables G table)"

section \<open>Pairs on a recursion path\<close>

text \<open>
  \<open>AncestorPairs\<close> (\<open>ancestors.rs\<close>): a set that holds each pair in both orientations.
\<close>

type_synonym pairs = "(any_node \<times> any_node) set"

definition pairs_new :: pairs where
  "pairs_new = {}"

definition pairs_contains :: "pairs \<Rightarrow> any_node \<Rightarrow> any_node \<Rightarrow> bool" where
  "pairs_contains path a b \<longleftrightarrow> (a, b) \<in> path"

definition pairs_insert :: "pairs \<Rightarrow> any_node \<Rightarrow> any_node \<Rightarrow> pairs" where
  "pairs_insert path a b = insert (b, a) (insert (a, b) path)"

definition pairs_remove :: "pairs \<Rightarrow> any_node \<Rightarrow> any_node \<Rightarrow> pairs" where
  "pairs_remove path a b = path - {(a, b)} - {(b, a)}"

definition pairs_clear :: "pairs \<Rightarrow> pairs" where
  "pairs_clear path = {}"

text \<open>A pair inserted when it was absent is taken off again without a trace.\<close>

lemma pairs_remove_insert:
  assumes "sym path" and "\<not> pairs_contains path a b"
  shows "pairs_remove (pairs_insert path a b) a b = path"
  using assms by (auto simp: pairs_remove_def pairs_insert_def pairs_contains_def sym_def)

lemma pairs_insert_sym [intro]: "sym path \<Longrightarrow> sym (pairs_insert path a b)"
  by (auto simp: pairs_insert_def sym_def)

lemma pairs_new_sym [simp]: "sym pairs_new"
  by (simp add: pairs_new_def sym_def)

end
