(* ===== verification/Key_Hash.thy ===== *)
theory Key_Hash
  imports Key_Graph
begin

text \<open>
  The content hash of a table key (\<open>lichen-lowlevel/src/table.rs\<close>): the value graph unfolded to a
  depth of eight, each node, mode and remaining depth answered once. A function that calls the
  unfolding one level down takes that unfolding as an argument, as the code passes the remaining
  depth. Beside it, the same unfolding without the memo, which is what the memo must not change.
\<close>

unbundle bit_operations_syntax

section \<open>Tokens\<close>

text \<open>The finalizer of splitmix64 on 64-bit words, where addition and multiplication wrap.\<close>

definition mix :: "u64 \<Rightarrow> u64" where
  "mix h =
     (let z = h + 0x9e3779b97f4a7c15;
          z = (z XOR drop_bit 30 z) * 0xbf58476d1ce4e5b9;
          z = (z XOR drop_bit 27 z) * 0x94d049bb133111eb
      in z XOR drop_bit 31 z)"

definition none_token :: u64 where "none_token = 0x6e6f6e6500000001"
definition frontier_token :: u64 where "frontier_token = 0x66726f6e00000005"
definition function_token :: u64 where "function_token = 0x66756e6300000006"
definition operation_token :: u64 where "operation_token = 0x6f70657200000007"
definition undecided_token :: u64 where "undecided_token = 0x756e646500000008"
definition error_token :: u64 where "error_token = 0x766f696400000009"
definition extension_token :: u64 where "extension_token = 0x657874650000000a"
definition null_token :: u64 where "null_token = 0x6e756c6c0000000b"
definition array_seed :: u64 where "array_seed = 0xa22eb3e100000004"
definition table_seed :: u64 where "table_seed = 0x7461626c0000000c"
definition template_token :: u64 where "template_token = 0x74656d700000000d"

definition unfold_depth :: nat where
  "unfold_depth = 8"

datatype unfold_mode = Key_mode | Template_mode

datatype key_verdict = Hashed u64 | Undecided | Unhashable

record unfold_memo =
  un_nodes :: "unfold_mode \<times> any_node \<times> nat \<rightharpoonup> key_verdict"
  un_functions :: "any_function \<times> nat \<rightharpoonup> u64 option"

definition unfolding_new :: unfold_memo where
  "unfolding_new = \<lparr>un_nodes = Map.empty, un_functions = Map.empty\<rparr>"

text \<open>A walk of the nodes one level down: mode, node, memo; \<open>None\<close> is a panic.\<close>

type_synonym node_walk = "unfold_mode \<Rightarrow> any_node \<Rightarrow> unfold_memo \<Rightarrow> (key_verdict \<times> unfold_memo) option"

section \<open>The unfolding of the code\<close>

text \<open>A template's answer: anything but a hash is a state the code calls unreachable.\<close>

definition hash_template :: "node_walk \<Rightarrow> any_node \<Rightarrow> unfold_memo \<Rightarrow> (u64 \<times> unfold_memo) option" where
  "hash_template walk node memo = do {
     (verdict, memo) \<leftarrow> walk Template_mode node memo;
     case verdict of Hashed h \<Rightarrow> Some (h, memo) | _ \<Rightarrow> None }"

fun hash_asserts :: "node_walk \<Rightarrow> any_node list \<Rightarrow> u64 \<Rightarrow> unfold_memo \<Rightarrow> (u64 \<times> unfold_memo) option" where
  "hash_asserts walk [] h memo = Some (h, memo)"
| "hash_asserts walk (a # asserts) h memo = do {
     (t, memo) \<leftarrow> hash_template walk a memo;
     hash_asserts walk asserts (mix (h XOR t)) memo }"

definition hash_entry_points ::
    "node_walk \<Rightarrow> any_node \<Rightarrow> any_node list \<Rightarrow> unfold_memo \<Rightarrow> (u64 \<times> unfold_memo) option" where
  "hash_entry_points walk return_node asserts memo = do {
     (r, memo) \<leftarrow> hash_template walk return_node memo;
     hash_asserts walk asserts (mix (function_token XOR r)) memo }"

text \<open>
  A function's template, by the nodes it returns and asserts; \<open>Some None\<close> for a function that is not
  there, which ends \<open>hash_function\<close> before anything is remembered.
\<close>

fun entry_points :: "'x key_graph \<Rightarrow> any_function \<Rightarrow> (any_node \<times> any_node list) option option" where
  "entry_points G (Dyn_function f) =
     Some (map_option (\<lambda>t. (Dyn (tp_return t), map Dyn (tp_asserts t))) (kg_functions G f))"
| "entry_points G (Static_function m f) = do {
     sm \<leftarrow> kg_static G m;
     Some (map_option (\<lambda>t. (Static m (tp_return t), map (Static m) (tp_asserts t)))
             (nth_opt (sm_functions sm) f)) }"

text \<open>\<open>walk\<close> is the unfolding of nodes at the same remaining \<open>depth\<close>.\<close>

definition hash_function ::
    "'x key_graph \<Rightarrow> nat \<Rightarrow> node_walk \<Rightarrow> any_function \<Rightarrow> unfold_memo \<Rightarrow>
       (u64 option \<times> unfold_memo) option" where
  "hash_function G depth walk function memo =
     (if depth = 0 then Some (Some frontier_token, memo)
      else case un_functions memo (function, depth) of
        Some answer \<Rightarrow> Some (answer, memo)
      | None \<Rightarrow> do {
          points \<leftarrow> entry_points G function;
          case points of
            None \<Rightarrow> Some (None, memo)
          | Some (return_node, asserts) \<Rightarrow> do {
              (h, memo) \<leftarrow> hash_entry_points walk return_node asserts memo;
              Some (Some h, memo\<lparr>un_functions := (un_functions memo)((function, depth) \<mapsto> Some h)\<rparr>) } })"

fun hash_items ::
    "'x key_graph \<Rightarrow> node_walk \<Rightarrow> unfold_mode \<Rightarrow> array_item list \<Rightarrow> u64 \<Rightarrow> unfold_memo \<Rightarrow>
       (key_verdict \<times> unfold_memo) option" where
  "hash_items G walk mode [] h memo = Some (Hashed h, memo)"
| "hash_items G walk mode (item # items) h memo =
     (if ai_template item \<and> mode = Key_mode
      then hash_items G walk mode items (mix (h XOR template_token)) memo
      else do {
        node \<leftarrow> item_node G item;
        (verdict, memo) \<leftarrow> walk mode node memo;
        case verdict of
          Hashed i \<Rightarrow> hash_items G walk mode items (mix (h XOR i)) memo
        | _ \<Rightarrow> Some (verdict, memo) })"

text \<open>What is not decided is a state of the whole key, or one more token of a template's shape.\<close>

fun undecided_in :: "unfold_mode \<Rightarrow> key_verdict" where
  "undecided_in Key_mode = Undecided"
| "undecided_in Template_mode = Hashed undecided_token"

fun error_in :: "unfold_mode \<Rightarrow> key_verdict" where
  "error_in Key_mode = Unhashable"
| "error_in Template_mode = Hashed error_token"

definition str_hash :: "string \<Rightarrow> u64" where
  "str_hash s = mix (fold (\<lambda>byte h. mix (h XOR of_char byte)) s 0)"

definition table_hash :: "table_item list \<Rightarrow> u64" where
  "table_hash items = fold (\<lambda>item h. mix (h XOR ti_hash item)) items table_seed"

text \<open>The arms of \<open>hash_step\<close> on a value, \<open>depth\<close> being what remains below this node.\<close>

definition hash_value ::
    "'x key_graph \<Rightarrow> nat \<Rightarrow> node_walk \<Rightarrow> unfold_mode \<Rightarrow> 'x prog_value \<Rightarrow> unfold_memo \<Rightarrow>
       (key_verdict \<times> unfold_memo) option" where
  "hash_value G depth walk mode v memo =
     (case as_enum v of
        None \<Rightarrow> Some (Hashed extension_token, memo)
      | Some (Low_USize n) \<Rightarrow> Some (Hashed (mix n), memo)
      | Some (Low_Float bits) \<Rightarrow> Some (Hashed (mix (ucast bits)), memo)
      | Some (Low_Str s) \<Rightarrow> Some (Hashed (str_hash s), memo)
      | Some Low_None \<Rightarrow> Some (Hashed none_token, memo)
      | Some Low_Any \<Rightarrow> Some (undecided_in mode, memo)
      | Some Low_Error \<Rightarrow> Some (error_in mode, memo)
      | Some (Low_Function f) \<Rightarrow> do {
          (h, memo) \<leftarrow> hash_function G depth walk f memo;
          Some (case h of Some h \<Rightarrow> Hashed h | None \<Rightarrow> undecided_in mode, memo) }
      | Some (Low_Array a) \<Rightarrow> hash_items G walk mode (kg_arrays G (av_items a)) array_seed memo
      | Some (Low_Table t) \<Rightarrow> Some (Hashed (table_hash (kg_tables G t)), memo))"

definition hash_step ::
    "'x key_graph \<Rightarrow> nat \<Rightarrow> node_walk \<Rightarrow> unfold_mode \<Rightarrow> any_node \<Rightarrow> unfold_memo \<Rightarrow>
       (key_verdict \<times> unfold_memo) option" where
  "hash_step G depth walk mode node memo = do {
     edge \<leftarrow> (if mode = Template_mode then operation_operand G node else Some None);
     case edge of
       Some (Some operand) \<Rightarrow> do {
         (nested, memo) \<leftarrow> hash_template walk operand memo;
         Some (Hashed (mix (operation_token XOR nested)), memo) }
     | Some None \<Rightarrow> Some (Hashed (mix (operation_token XOR null_token)), memo)
     | None \<Rightarrow> do {
         refused \<leftarrow> (if mode = Template_mode then read_only_static G node else Some False);
         if refused then Some (Undecided, memo)
         else do {
           held \<leftarrow> node_value G node;
           case held of
             None \<Rightarrow> Some (undecided_in mode, memo)
           | Some v \<Rightarrow> hash_value G depth walk mode v memo } } }"

primrec hash_node :: "'x key_graph \<Rightarrow> nat \<Rightarrow> node_walk" where
  "hash_node G 0 mode node memo = Some (Hashed frontier_token, memo)"
| "hash_node G (Suc depth) mode node memo =
     (case un_nodes memo (mode, node, Suc depth) of
        Some verdict \<Rightarrow> Some (verdict, memo)
      | None \<Rightarrow> do {
          (verdict, memo) \<leftarrow> hash_step G depth (hash_node G depth) mode node memo;
          Some (verdict,
            memo\<lparr>un_nodes := (un_nodes memo)((mode, node, Suc depth) \<mapsto> verdict)\<rparr>) })"

text \<open>The unfolding a key's state is read from.\<close>

definition content_state :: "'x key_graph \<Rightarrow> any_node \<Rightarrow> key_verdict option" where
  "content_state G node = map_option fst (hash_node G unfold_depth Key_mode node unfolding_new)"

section \<open>The unfolding without the memo\<close>

type_synonym plain_walk = "unfold_mode \<Rightarrow> any_node \<Rightarrow> key_verdict option"

definition plain_template :: "plain_walk \<Rightarrow> any_node \<Rightarrow> u64 option" where
  "plain_template walk node = do {
     verdict \<leftarrow> walk Template_mode node;
     case verdict of Hashed h \<Rightarrow> Some h | _ \<Rightarrow> None }"

fun plain_asserts :: "plain_walk \<Rightarrow> any_node list \<Rightarrow> u64 \<Rightarrow> u64 option" where
  "plain_asserts walk [] h = Some h"
| "plain_asserts walk (a # rest) h = do { t \<leftarrow> plain_template walk a; plain_asserts walk rest (mix (h XOR t)) }"

definition plain_function :: "'x key_graph \<Rightarrow> nat \<Rightarrow> plain_walk \<Rightarrow> any_function \<Rightarrow> u64 option option" where
  "plain_function G depth walk function =
     (if depth = 0 then Some (Some frontier_token)
      else do {
        points \<leftarrow> entry_points G function;
        case points of
          None \<Rightarrow> Some None
        | Some (return_node, asserts) \<Rightarrow> do {
            r \<leftarrow> plain_template walk return_node;
            h \<leftarrow> plain_asserts walk asserts (mix (function_token XOR r));
            Some (Some h) } })"

fun plain_items :: "'x key_graph \<Rightarrow> plain_walk \<Rightarrow> unfold_mode \<Rightarrow> array_item list \<Rightarrow> u64 \<Rightarrow> key_verdict option" where
  "plain_items G walk mode [] h = Some (Hashed h)"
| "plain_items G walk mode (item # items) h =
     (if ai_template item \<and> mode = Key_mode
      then plain_items G walk mode items (mix (h XOR template_token))
      else do {
        node \<leftarrow> item_node G item;
        verdict \<leftarrow> walk mode node;
        case verdict of
          Hashed i \<Rightarrow> plain_items G walk mode items (mix (h XOR i))
        | _ \<Rightarrow> Some verdict })"

definition plain_value ::
    "'x key_graph \<Rightarrow> nat \<Rightarrow> plain_walk \<Rightarrow> unfold_mode \<Rightarrow> 'x prog_value \<Rightarrow> key_verdict option" where
  "plain_value G depth walk mode v =
     (case as_enum v of
        None \<Rightarrow> Some (Hashed extension_token)
      | Some (Low_USize n) \<Rightarrow> Some (Hashed (mix n))
      | Some (Low_Float bits) \<Rightarrow> Some (Hashed (mix (ucast bits)))
      | Some (Low_Str s) \<Rightarrow> Some (Hashed (str_hash s))
      | Some Low_None \<Rightarrow> Some (Hashed none_token)
      | Some Low_Any \<Rightarrow> Some (undecided_in mode)
      | Some Low_Error \<Rightarrow> Some (error_in mode)
      | Some (Low_Function f) \<Rightarrow> do {
          h \<leftarrow> plain_function G depth walk f;
          Some (case h of Some h \<Rightarrow> Hashed h | None \<Rightarrow> undecided_in mode) }
      | Some (Low_Array a) \<Rightarrow> plain_items G walk mode (kg_arrays G (av_items a)) array_seed
      | Some (Low_Table t) \<Rightarrow> Some (Hashed (table_hash (kg_tables G t))))"

definition plain_step ::
    "'x key_graph \<Rightarrow> nat \<Rightarrow> plain_walk \<Rightarrow> unfold_mode \<Rightarrow> any_node \<Rightarrow> key_verdict option" where
  "plain_step G depth walk mode node = do {
     edge \<leftarrow> (if mode = Template_mode then operation_operand G node else Some None);
     case edge of
       Some (Some operand) \<Rightarrow> do {
         nested \<leftarrow> plain_template walk operand;
         Some (Hashed (mix (operation_token XOR nested))) }
     | Some None \<Rightarrow> Some (Hashed (mix (operation_token XOR null_token)))
     | None \<Rightarrow> do {
         refused \<leftarrow> (if mode = Template_mode then read_only_static G node else Some False);
         if refused then Some Undecided
         else do {
           held \<leftarrow> node_value G node;
           case held of
             None \<Rightarrow> Some (undecided_in mode)
           | Some v \<Rightarrow> plain_value G depth walk mode v } } }"

primrec plain_node :: "'x key_graph \<Rightarrow> nat \<Rightarrow> plain_walk" where
  "plain_node G 0 mode node = Some (Hashed frontier_token)"
| "plain_node G (Suc depth) mode node = plain_step G depth (plain_node G depth) mode node"

section \<open>The memo changes no answer\<close>

text \<open>Every entry of a memo is the answer without it.\<close>

definition memo_true :: "'x key_graph \<Rightarrow> unfold_memo \<Rightarrow> bool" where
  "memo_true G memo \<longleftrightarrow>
     (\<forall>mode node depth verdict. un_nodes memo (mode, node, depth) = Some verdict \<longrightarrow>
        plain_node G depth mode node = Some verdict) \<and>
     (\<forall>function depth answer. un_functions memo (function, depth) = Some answer \<longrightarrow>
        plain_function G depth (plain_node G depth) function = Some answer)"

text \<open>A run with the memo ends as the run without it, and leaves the memo true.\<close>

definition same_end :: "'x key_graph \<Rightarrow> ('r \<times> unfold_memo) option \<Rightarrow> 'r option \<Rightarrow> bool" where
  "same_end G run plain \<longleftrightarrow>
     (case run of None \<Rightarrow> plain = None | Some (r, memo) \<Rightarrow> plain = Some r \<and> memo_true G memo)"

lemma same_end_simps [simp]:
  "same_end G None plain \<longleftrightarrow> plain = None"
  "same_end G (Some (r, memo)) plain \<longleftrightarrow> plain = Some r \<and> memo_true G memo"
  by (auto simp: same_end_def)

lemma same_end_bind:
  assumes "same_end G run plain"
    and "\<And>r memo. memo_true G memo \<Longrightarrow> plain = Some r \<Longrightarrow> same_end G (f (r, memo)) (g r)"
  shows "same_end G (Option.bind run f) (Option.bind plain g)"
  using assms by (cases run) auto

definition walks_alike :: "'x key_graph \<Rightarrow> node_walk \<Rightarrow> plain_walk \<Rightarrow> bool" where
  "walks_alike G walk plain \<longleftrightarrow>
     (\<forall>mode node memo. memo_true G memo \<longrightarrow> same_end G (walk mode node memo) (plain mode node))"

lemma walks_alikeD:
  "walks_alike G walk plain \<Longrightarrow> memo_true G memo \<Longrightarrow>
     same_end G (walk mode node memo) (plain mode node)"
  by (simp add: walks_alike_def)

lemma template_same:
  assumes "walks_alike G walk plain" and "memo_true G memo"
  shows "same_end G (hash_template walk node memo) (plain_template plain node)"
  unfolding hash_template_def plain_template_def
  by (rule same_end_bind [OF walks_alikeD [OF assms]]) (auto split: key_verdict.split)

lemma asserts_same:
  assumes "walks_alike G walk plain"
  shows "memo_true G memo \<Longrightarrow> same_end G (hash_asserts walk asserts h memo) (plain_asserts plain asserts h)"
proof (induction asserts arbitrary: h memo)
  case (Cons a asserts)
  then show ?case
    unfolding hash_asserts.simps plain_asserts.simps
    by (auto intro!: same_end_bind [OF template_same [OF assms]])
qed simp

lemma entry_points_same:
  assumes "walks_alike G walk plain" and "memo_true G memo"
  shows "same_end G (hash_entry_points walk return_node asserts memo)
     (do { r \<leftarrow> plain_template plain return_node; plain_asserts plain asserts (mix (function_token XOR r)) })"
  unfolding hash_entry_points_def
  by (rule same_end_bind [OF template_same [OF assms]]) (auto intro: asserts_same [OF assms(1)])

lemma function_same:
  assumes walks: "walks_alike G walk (plain_node G depth)" and memo: "memo_true G memo"
  shows "same_end G (hash_function G depth walk function memo)
           (plain_function G depth (plain_node G depth) function)"
proof (cases "depth = 0 \<or> un_functions memo (function, depth) \<noteq> None")
  case True
  moreover have "same_end G (Some (answer, memo)) (plain_function G depth (plain_node G depth) function)"
    if "un_functions memo (function, depth) = Some answer" for answer
    using that memo by (simp add: memo_true_def)
  moreover have "plain_function G 0 (plain_node G 0) function = Some (Some frontier_token)"
    by (simp add: plain_function_def)
  ultimately show ?thesis using memo by (auto simp: hash_function_def)
next
  case False
  show ?thesis
  proof (cases "entry_points G function")
    case (Some points)
    show ?thesis
    proof (cases points)
      case (Some p)
      obtain return_node asserts where p: "p = (return_node, asserts)" by (cases p)
      have plain: "plain_function G depth (plain_node G depth) function =
          do { h \<leftarrow> do { r \<leftarrow> plain_template (plain_node G depth) return_node;
                   plain_asserts (plain_node G depth) asserts (mix (function_token XOR r)) };
               Some (Some h) }"
        using False Some p \<open>entry_points G function = Some points\<close>
        by (simp add: plain_function_def Option.bind_assoc)
      have run: "hash_function G depth walk function memo =
          do { (h, memo) \<leftarrow> hash_entry_points walk return_node asserts memo;
               Some (Some h, memo\<lparr>un_functions := (un_functions memo)((function, depth) \<mapsto> Some h)\<rparr>) }"
        using False Some p \<open>entry_points G function = Some points\<close>
        by (simp add: hash_function_def)
      show ?thesis
        unfolding run
      proof (cases "hash_entry_points walk return_node asserts memo")
        case None
        then show "same_end G (do { (h, memo) \<leftarrow> hash_entry_points walk return_node asserts memo;
               Some (Some h, memo\<lparr>un_functions := (un_functions memo)((function, depth) \<mapsto> Some h)\<rparr>) })
             (plain_function G depth (plain_node G depth) function)"
          using entry_points_same [OF walks memo, of return_node asserts] plain by simp
      next
        case (Some r)
        then show "same_end G (do { (h, memo) \<leftarrow> hash_entry_points walk return_node asserts memo;
               Some (Some h, memo\<lparr>un_functions := (un_functions memo)((function, depth) \<mapsto> Some h)\<rparr>) })
             (plain_function G depth (plain_node G depth) function)"
          using entry_points_same [OF walks memo, of return_node asserts] plain
          by (cases r) (auto simp: memo_true_def)
      qed
    qed (use False memo Some in \<open>simp add: hash_function_def plain_function_def\<close>)
  qed (use False in \<open>simp add: hash_function_def plain_function_def\<close>)
qed

lemma items_same:
  assumes "walks_alike G walk plain"
  shows "memo_true G memo \<Longrightarrow> same_end G (hash_items G walk mode items h memo) (plain_items G plain mode items h)"
proof (induction items arbitrary: h memo)
  case (Cons item items)
  show ?case
  proof (cases "ai_template item \<and> mode = Key_mode")
    case True
    then show ?thesis using Cons by simp
  next
    case False
    show ?thesis
    proof (cases "item_node G item")
      case (Some node)
      show ?thesis
        unfolding hash_items.simps plain_items.simps using False Some
        by (auto intro!: same_end_bind [OF walks_alikeD [OF assms Cons.prems]] Cons.IH
              split: key_verdict.split)
    qed (use False in auto)
  qed
qed simp

lemma value_same:
  assumes walks: "walks_alike G walk (plain_node G depth)" and memo: "memo_true G memo"
  shows "same_end G (hash_value G depth walk mode v memo) (plain_value G depth (plain_node G depth) mode v)"
proof (cases "\<exists>f. as_enum v = Some (Low_Function f)")
  case True
  then obtain f where f: "as_enum v = Some (Low_Function f)" ..
  show ?thesis
    unfolding hash_value_def plain_value_def f
    by (auto intro!: same_end_bind [OF function_same [OF walks memo]])
next
  case False
  then show ?thesis
    using memo items_same [OF walks memo]
    by (auto simp: hash_value_def plain_value_def split: option.split low_value.split)
qed

lemma step_same:
  assumes walks: "walks_alike G walk (plain_node G depth)" and memo: "memo_true G memo"
  shows "same_end G (hash_step G depth walk mode node memo)
           (plain_step G depth (plain_node G depth) mode node)"
proof -
  have operand: "same_end G
      (do { (nested, memo) \<leftarrow> hash_template walk operand memo;
            Some (Hashed (mix (operation_token XOR nested)), memo) })
      (do { nested \<leftarrow> plain_template (plain_node G depth) operand;
            Some (Hashed (mix (operation_token XOR nested))) })" for operand
    by (rule same_end_bind [OF template_same [OF walks memo]]) auto
  show ?thesis
    unfolding hash_step_def plain_step_def
    using operand memo value_same [OF walks memo]
    by (auto split: option.split bind_splits)
qed

lemma node_same: "walks_alike G (hash_node G depth) (plain_node G depth)"
proof (induction depth)
  case (Suc depth)
  show ?case
    unfolding walks_alike_def
  proof (intro allI impI)
    fix mode node memo
    assume memo: "memo_true G memo"
    show "same_end G (hash_node G (Suc depth) mode node memo) (plain_node G (Suc depth) mode node)"
    proof (cases "un_nodes memo (mode, node, Suc depth)")
      case None
      then show ?thesis
        using step_same [OF Suc memo, of mode node]
        by (cases "hash_step G depth (hash_node G depth) mode node memo")
          (auto simp: memo_true_def)
    next
      case (Some verdict)
      then have "plain_node G (Suc depth) mode node = Some verdict"
        using memo unfolding memo_true_def by blast
      with Some memo show ?thesis by simp
    qed
  qed
qed (simp add: walks_alike_def)

lemma memo_true_new: "memo_true G unfolding_new"
  by (simp add: memo_true_def unfolding_new_def)

lemma content_state_plain: "content_state G node = plain_node G unfold_depth Key_mode node"
  using walks_alikeD [OF node_same memo_true_new, of G unfold_depth Key_mode node]
  by (cases "hash_node G unfold_depth Key_mode node unfolding_new") (auto simp: content_state_def)

end
