(* ===== verification/Key_Equal.thy ===== *)
theory Key_Equal
  imports Key_Graph
begin

text \<open>
  The equality of two table keys (\<open>key_eq\<close> of \<open>lichen-lowlevel/src/table.rs\<close>): an elementwise
  descent that takes a pair met again on its path as equal. The values may be cyclic, so the
  descent is a partial function whose \<open>None\<close> is a panic or no return; on a finite set of nodes
  closed under the descent it returns, gives the path back as it was, and answers the greatest
  relation that respects the values, which is stated on its own as a coinductive predicate.
\<close>

section \<open>The comparison of the code\<close>

type_synonym node_compare = "any_node \<Rightarrow> any_node \<Rightarrow> pairs \<Rightarrow> (bool \<times> pairs) option"

text \<open>The items of two arrays: a slot that holds an element template is compared by its presence.\<close>

definition item_eq :: "'x key_graph \<Rightarrow> node_compare \<Rightarrow> array_item \<times> array_item \<Rightarrow> pairs \<Rightarrow> (bool \<times> pairs) option" where
  "item_eq G compare items path =
     (if ai_template (fst items) \<or> ai_template (snd items)
      then Some (ai_template (fst items) = ai_template (snd items), path)
      else do {
        a \<leftarrow> item_node G (fst items);
        b \<leftarrow> item_node G (snd items);
        compare a b path })"

text \<open>\<open>all\<close> on an iterator, with what its closure mutates.\<close>

fun all_with :: "('a \<Rightarrow> 's \<Rightarrow> (bool \<times> 's) option) \<Rightarrow> 'a list \<Rightarrow> 's \<Rightarrow> (bool \<times> 's) option" where
  "all_with f [] s = Some (True, s)"
| "all_with f (x # xs) s = do {
     (ok, s) \<leftarrow> f x s;
     if ok then all_with f xs s else Some (False, s) }"

definition held_eq ::
    "'x key_graph \<Rightarrow> ('x \<Rightarrow> 'x \<Rightarrow> bool) \<Rightarrow> node_compare \<Rightarrow> 'x prog_value option \<Rightarrow> 'x prog_value option \<Rightarrow>
       pairs \<Rightarrow> (bool \<times> pairs) option" where
  "held_eq G ext_eq compare held held' path =
     (case (held, held') of
        (Some va, Some vb) \<Rightarrow>
          (case (as_enum va, as_enum vb) of
             (Some (Low_Array pa), Some (Low_Array pb)) \<Rightarrow>
               let left = kg_arrays G (av_items pa); right = kg_arrays G (av_items pb) in
               if length left = length right
               then all_with (item_eq G compare) (zip left right) path
               else Some (False, path)
           | (Some (Low_Table ta), Some (Low_Table tb)) \<Rightarrow> Some (ta = tb, path)
           | _ \<Rightarrow> Some (value_eq ext_eq va vb, path))
      | _ \<Rightarrow> Some (False, path))"

lemma mono_all_with [partial_function_mono]:
  assumes "\<And>x s. mono_option (\<lambda>f. g f x s)"
  shows "mono_option (\<lambda>f. all_with (g f) xs s)"
proof (induction xs arbitrary: s)
  case (Cons x xs)
  show ?case
    unfolding all_with.simps
    by (intro bind_mono assms) (auto intro!: Cons.IH option.const_mono if_mono split: prod.split)
qed (simp add: option.const_mono)

lemma mono_item_eq [partial_function_mono]:
  assumes "\<And>a b path. mono_option (\<lambda>f. g f a b path)"
  shows "mono_option (\<lambda>f. item_eq G (g f) items path)"
  unfolding item_eq_def by (cases "ai_template (fst items) \<or> ai_template (snd items)")
    (auto intro!: bind_mono assms option.const_mono)

lemma mono_held_eq [partial_function_mono]:
  assumes "\<And>a b path. mono_option (\<lambda>f. g f a b path)"
  shows "mono_option (\<lambda>f. held_eq G ext_eq (g f) held held' path)"
proof -
  have items: "mono_option (\<lambda>f. all_with (item_eq G (g f)) (zip left right) path)" for left right
    by (intro mono_all_with mono_item_eq assms)
  show ?thesis
    unfolding held_eq_def
    apply (cases held; cases held'; simp add: option.const_mono)
    subgoal for va vb
      apply (cases "as_enum va"; cases "as_enum vb"; simp add: option.const_mono)
      subgoal for la by (cases la; simp add: option.const_mono)
      subgoal for la lb
        by (cases la; cases lb; auto intro!: items option.const_mono if_mono simp: Let_def)
      done
    done
qed

partial_function (option) key_eq ::
    "'x key_graph \<Rightarrow> ('x \<Rightarrow> 'x \<Rightarrow> bool) \<Rightarrow> any_node \<Rightarrow> any_node \<Rightarrow> pairs \<Rightarrow> (bool \<times> pairs) option" where
  "key_eq G ext_eq a b path =
     (if a = b then Some (True, path)
      else if pairs_contains path a b then Some (True, path)
      else do {
        held \<leftarrow> node_value G a;
        held' \<leftarrow> node_value G b;
        (ok, path) \<leftarrow> held_eq G ext_eq (\<lambda>a b path. key_eq G ext_eq a b path) held held'
                        (pairs_insert path a b);
        Some (ok, pairs_remove path a b) })"

definition structural_eq ::
    "'x key_graph \<Rightarrow> ('x \<Rightarrow> 'x \<Rightarrow> bool) \<Rightarrow> any_node \<Rightarrow> any_node \<Rightarrow> bool option" where
  "structural_eq G ext_eq a b = map_option fst (key_eq G ext_eq a b pairs_new)"

section \<open>What two keys must agree on\<close>

text \<open>
  The pairs two values leave to be compared, \<open>None\<close> where the values themselves differ; on nodes
  whose reads do not panic.
\<close>

definition item_pairs :: "'x key_graph \<Rightarrow> array_item \<times> array_item \<Rightarrow> (any_node \<times> any_node) list" where
  "item_pairs G items =
     (if ai_template (fst items) then []
      else [(the (item_node G (fst items)), the (item_node G (snd items)))])"

definition held_pairs ::
    "'x key_graph \<Rightarrow> ('x \<Rightarrow> 'x \<Rightarrow> bool) \<Rightarrow> 'x prog_value option \<Rightarrow> 'x prog_value option \<Rightarrow>
       (any_node \<times> any_node) list option" where
  "held_pairs G ext_eq held held' =
     (case (held, held') of
        (Some va, Some vb) \<Rightarrow>
          (case (as_enum va, as_enum vb) of
             (Some (Low_Array pa), Some (Low_Array pb)) \<Rightarrow>
               let left = kg_arrays G (av_items pa); right = kg_arrays G (av_items pb) in
               if map ai_template left = map ai_template right
               then Some (concat (map (item_pairs G) (zip left right)))
               else None
           | _ \<Rightarrow> if value_eq ext_eq va vb then Some [] else None)
      | _ \<Rightarrow> None)"

lemma held_pairs_arrays:
  "held_pairs G ext_eq (Some (Low (Low_Array p))) (Some (Low (Low_Array q))) =
     (if map ai_template (kg_arrays G (av_items p)) = map ai_template (kg_arrays G (av_items q))
      then Some (concat (map (item_pairs G) (zip (kg_arrays G (av_items p)) (kg_arrays G (av_items q)))))
      else None)"
  by (simp add: held_pairs_def Let_def)

lemma held_pairs_empty: "h = None \<or> h' = None \<Longrightarrow> held_pairs G ext_eq h h' = None"
  by (auto simp: held_pairs_def split: option.split)

lemma held_other:
  assumes "\<nexists>p q. v = Low (Low_Array p) \<and> w = Low (Low_Array q)"
  shows "held_pairs G ext_eq (Some v) (Some w) = (if value_eq ext_eq v w then Some [] else None)"
    and "held_eq G ext_eq compare (Some v) (Some w) path = Some (value_eq ext_eq v w, path)"
proof -
  have "held_pairs G ext_eq (Some v) (Some w) = (if value_eq ext_eq v w then Some [] else None) \<and>
    held_eq G ext_eq compare (Some v) (Some w) path = Some (value_eq ext_eq v w, path)"
  proof (cases v; cases w)
    fix l k
    assume "v = Low l" "w = Low k"
    then show ?thesis using assms by (cases l; cases k; simp add: held_pairs_def held_eq_def)
  next
    fix l x
    assume "v = Low l" "w = Ext x"
    then show ?thesis by (cases l; simp add: held_pairs_def held_eq_def)
  qed (auto simp: held_pairs_def held_eq_def)
  then show "held_pairs G ext_eq (Some v) (Some w) = (if value_eq ext_eq v w then Some [] else None)"
    and "held_eq G ext_eq compare (Some v) (Some w) path = Some (value_eq ext_eq v w, path)" by auto
qed

lemma held_cases:
  obtains (vacant) "h = None \<or> h' = None"
  | (arrays) p q where "h = Some (Low (Low_Array p))" "h' = Some (Low (Low_Array q))"
  | (other) v w where "h = Some v" "h' = Some w" "\<nexists>p q. v = Low (Low_Array p) \<and> w = Low (Low_Array q)"
  by (cases h; cases h') blast+

definition pairs_below ::
    "'x key_graph \<Rightarrow> ('x \<Rightarrow> 'x \<Rightarrow> bool) \<Rightarrow> any_node \<Rightarrow> any_node \<Rightarrow> (any_node \<times> any_node) list option" where
  "pairs_below G ext_eq a b = held_pairs G ext_eq (the (node_value G a)) (the (node_value G b))"

text \<open>Two keys are alike: one node, or values that agree and leave only pairs that are alike.\<close>

coinductive key_alike :: "'x key_graph \<Rightarrow> ('x \<Rightarrow> 'x \<Rightarrow> bool) \<Rightarrow> any_node \<Rightarrow> any_node \<Rightarrow> bool"
  for G ext_eq where
  alike_same: "key_alike G ext_eq a a"
| alike_below: "\<lbrakk>pairs_below G ext_eq a b = Some ps; \<forall>(x, y) \<in> set ps. key_alike G ext_eq x y\<rbrakk>
    \<Longrightarrow> key_alike G ext_eq a b"

text \<open>Two keys differ after a number of steps down.\<close>

fun apart_in :: "'x key_graph \<Rightarrow> ('x \<Rightarrow> 'x \<Rightarrow> bool) \<Rightarrow> nat \<Rightarrow> any_node \<Rightarrow> any_node \<Rightarrow> bool" where
  "apart_in G ext_eq 0 a b \<longleftrightarrow> a \<noteq> b \<and> pairs_below G ext_eq a b = None"
| "apart_in G ext_eq (Suc n) a b \<longleftrightarrow> a \<noteq> b \<and>
     (\<exists>ps. pairs_below G ext_eq a b = Some ps \<and> (\<exists>(x, y) \<in> set ps. apart_in G ext_eq n x y))"

lemma alike_iff: "key_alike G ext_eq a b \<longleftrightarrow> (\<nexists>n. apart_in G ext_eq n a b)"
proof
  have "apart_in G ext_eq n a b \<Longrightarrow> \<not> key_alike G ext_eq a b" for n
  proof (induction n arbitrary: a b)
    case 0
    then show ?case by (auto elim: key_alike.cases)
  next
    case (Suc n)
    then show ?case by (fastforce elim: key_alike.cases)
  qed
  then show "key_alike G ext_eq a b \<Longrightarrow> \<nexists>n. apart_in G ext_eq n a b" by blast
next
  assume "\<nexists>n. apart_in G ext_eq n a b"
  then show "key_alike G ext_eq a b"
  proof (coinduction arbitrary: a b)
    case key_alike
    show ?case
    proof (cases "a = b")
      case False
      with key_alike have "pairs_below G ext_eq a b \<noteq> None" by (metis apart_in.simps(1))
      then obtain ps where ps: "pairs_below G ext_eq a b = Some ps" by blast
      have "\<not> apart_in G ext_eq n x y" if "(x, y) \<in> set ps" for x y n
      proof
        assume "apart_in G ext_eq n x y"
        with that False ps have "apart_in G ext_eq (Suc n) a b" by auto
        with key_alike show False by blast
      qed
      with ps show ?thesis by auto
    qed simp
  qed
qed

section \<open>The comparison answers\<close>

text \<open>A finite set of nodes whose reads do not panic, closed under the descent into arrays.\<close>

definition key_nodes :: "'x key_graph \<Rightarrow> any_node set \<Rightarrow> bool" where
  "key_nodes G N \<longleftrightarrow> finite N \<and>
     (\<forall>a \<in> N. node_value G a \<noteq> None \<and>
        (\<forall>v p. node_value G a = Some (Some v) \<longrightarrow> as_enum v = Some (Low_Array p) \<longrightarrow>
           (\<forall>item \<in> set (kg_arrays G (av_items p)). \<not> ai_template item \<longrightarrow>
              (\<exists>n \<in> N. item_node G item = Some n))))"

lemma key_nodes_value: "key_nodes G N \<Longrightarrow> a \<in> N \<Longrightarrow> node_value G a = Some (the (node_value G a))"
  unfolding key_nodes_def by force

lemma key_nodes_item:
  assumes "key_nodes G N" and "a \<in> N" and "the (node_value G a) = Some v"
    and "as_enum v = Some (Low_Array p)"
    and "item \<in> set (kg_arrays G (av_items p))" and "\<not> ai_template item"
  shows "item_node G item = Some (the (item_node G item)) \<and> the (item_node G item) \<in> N"
proof -
  have "node_value G a = Some (Some v)" using key_nodes_value [OF assms(1,2)] assms(3) by simp
  then obtain n where "n \<in> N" "item_node G item = Some n"
    using assms unfolding key_nodes_def by blast
  then show ?thesis by simp
qed

lemma all_with_pure:
  "\<forall>x \<in> set xs. f x s = Some (P x, s) \<Longrightarrow> all_with f xs s = Some (\<forall>x \<in> set xs. P x, s)"
  by (induction xs) auto

lemma map_eq_zip:
  "map f xs = map f ys \<longleftrightarrow> length xs = length ys \<and> (\<forall>(x, y) \<in> set (zip xs ys). f x = f y)"
proof -
  have "map f xs = map f ys \<longleftrightarrow> list_all2 (\<lambda>x y. f x = f y) xs ys"
    unfolding list.rel_eq [symmetric] list.rel_map ..
  then show ?thesis by (simp add: list_all2_iff)
qed

text \<open>The comparison of two held values, when the comparison below it is pure.\<close>

lemma held_eq_pure:
  assumes N: "key_nodes G N" "a \<in> N" "b \<in> N"
    and below: "\<And>x y. x \<in> N \<Longrightarrow> y \<in> N \<Longrightarrow> compare x y path = Some (Q x y, path)"
  shows "held_eq G ext_eq compare (the (node_value G a)) (the (node_value G b)) path =
     Some (case pairs_below G ext_eq a b of None \<Rightarrow> False | Some ps \<Rightarrow> \<forall>(x, y) \<in> set ps. Q x y, path)"
proof (cases "the (node_value G a)" "the (node_value G b)" rule: held_cases)
  case vacant
  then show ?thesis by (auto simp: held_eq_def pairs_below_def held_pairs_empty split: option.split)
next
  case (arrays p q)
  define left where "left = kg_arrays G (av_items p)"
  define right where "right = kg_arrays G (av_items q)"
  define agree where "agree = (\<lambda>items. ai_template (fst items) = ai_template (snd items) \<and>
    (\<forall>(x, y) \<in> set (item_pairs G items). Q x y))"
  have "item_eq G compare items path = Some (agree items, path)" if mem: "items \<in> set (zip left right)" for items
  proof -
    obtain i j where pair: "items = (i, j)" by (cases items)
    with mem have items: "items = (i, j)" "i \<in> set left" "j \<in> set right"
      by (auto dest: set_zip_leftD set_zip_rightD)
    show ?thesis
      using key_nodes_item [OF N(1,2) arrays(1), of p i] key_nodes_item [OF N(1,3) arrays(2), of q j] items below
      by (auto simp: item_eq_def agree_def item_pairs_def left_def right_def Option.bind_eq_Some_conv)
  qed
  then have all: "all_with (item_eq G compare) (zip left right) path =
      Some (\<forall>items \<in> set (zip left right). agree items, path)"
    by (intro all_with_pure) blast
  have agree: "map ai_template left = map ai_template right \<and>
      (\<forall>(x, y) \<in> set (concat (map (item_pairs G) (zip left right))). Q x y) \<longleftrightarrow>
    length left = length right \<and> (\<forall>items \<in> set (zip left right). agree items)"
    unfolding map_eq_zip agree_def by fastforce
  have "held_eq G ext_eq compare (the (node_value G a)) (the (node_value G b)) path =
      (if length left = length right then all_with (item_eq G compare) (zip left right) path
       else Some (False, path))"
    by (simp add: arrays held_eq_def Let_def left_def right_def)
  moreover have "pairs_below G ext_eq a b =
      (if map ai_template left = map ai_template right
       then Some (concat (map (item_pairs G) (zip left right))) else None)"
    by (simp add: pairs_below_def arrays held_pairs_arrays left_def right_def)
  ultimately show ?thesis
    using all agree by (auto simp del: set_concat dest: map_eq_imp_length_eq)
next
  case (other v w)
  then show ?thesis by (simp add: pairs_below_def held_other)
qed

text \<open>Two keys are found to differ a number of steps down, by a descent that stays off the path.\<close>

fun found_in :: "'x key_graph \<Rightarrow> ('x \<Rightarrow> 'x \<Rightarrow> bool) \<Rightarrow> nat \<Rightarrow> pairs \<Rightarrow> any_node \<Rightarrow> any_node \<Rightarrow> bool" where
  "found_in G ext_eq 0 path a b \<longleftrightarrow> a \<noteq> b \<and> (a, b) \<notin> path \<and> pairs_below G ext_eq a b = None"
| "found_in G ext_eq (Suc n) path a b \<longleftrightarrow> a \<noteq> b \<and> (a, b) \<notin> path \<and>
     (\<exists>ps. pairs_below G ext_eq a b = Some ps \<and>
        (\<exists>(x, y) \<in> set ps. found_in G ext_eq n (pairs_insert path a b) x y))"

lemma found_iff:
  assumes "a \<noteq> b" and "(a, b) \<notin> path"
  shows "(\<exists>n. found_in G ext_eq n path a b) \<longleftrightarrow>
     (case pairs_below G ext_eq a b of
        None \<Rightarrow> True
      | Some ps \<Rightarrow> \<exists>(x, y) \<in> set ps. \<exists>n. found_in G ext_eq n (pairs_insert path a b) x y)" (is "?found \<longleftrightarrow> ?below")
proof
  assume ?found
  then obtain n where "found_in G ext_eq n path a b" ..
  then show ?below by (cases n) (fastforce split: option.split)+
next
  assume below: ?below
  show ?found
  proof (cases "pairs_below G ext_eq a b")
    case None
    with assms have "found_in G ext_eq 0 path a b" by simp
    then show ?thesis ..
  next
    case (Some ps)
    with below obtain x y n where "(x, y) \<in> set ps" "found_in G ext_eq n (pairs_insert path a b) x y"
      by auto
    with assms Some have "found_in G ext_eq (Suc n) path a b" by auto
    then show ?thesis ..
  qed
qed

lemma key_eq_found:
  assumes N: "key_nodes G N"
  shows "a \<in> N \<Longrightarrow> b \<in> N \<Longrightarrow> sym path \<Longrightarrow>
    key_eq G ext_eq a b path = Some (\<nexists>n. found_in G ext_eq n path a b, path)"
proof (induction "card (N \<times> N - path)" arbitrary: a b path rule: less_induct)
  case less
  show ?case
  proof (cases "a = b \<or> (a, b) \<in> path")
    case True
    have "\<not> found_in G ext_eq n path a b" for n using True by (cases n) auto
    then show ?thesis using True by (subst key_eq.simps) (auto simp: pairs_contains_def)
  next
    case False
    have "finite (N \<times> N - path)" using N unfolding key_nodes_def by blast
    then have fewer: "card (N \<times> N - pairs_insert path a b) < card (N \<times> N - path)"
      using False less.prems by (intro psubset_card_mono) (auto simp: pairs_insert_def)
    obtain va vb where reads: "node_value G a = Some va" "node_value G b = Some vb"
      using key_nodes_value [OF N less.prems(1)] key_nodes_value [OF N less.prems(2)] by blast
    have held: "held_eq G ext_eq (\<lambda>a b path. key_eq G ext_eq a b path)
        (the (node_value G a)) (the (node_value G b)) (pairs_insert path a b) =
      Some (case pairs_below G ext_eq a b of None \<Rightarrow> False
            | Some ps \<Rightarrow> \<forall>(x, y) \<in> set ps. \<nexists>n. found_in G ext_eq n (pairs_insert path a b) x y,
            pairs_insert path a b)"
      using less.hyps [OF fewer] less.prems
      by (intro held_eq_pure [OF N less.prems(1,2)]) (auto simp del: found_in.simps)
    have "pairs_remove (pairs_insert path a b) a b = path"
      using False less.prems by (intro pairs_remove_insert) (auto simp: pairs_contains_def)
    then have "key_eq G ext_eq a b path =
      Some (case pairs_below G ext_eq a b of None \<Rightarrow> False
            | Some ps \<Rightarrow> \<forall>(x, y) \<in> set ps. \<nexists>n. found_in G ext_eq n (pairs_insert path a b) x y, path)"
      using False held reads by (subst key_eq.simps) (simp add: pairs_contains_def)
    then show ?thesis
      using found_iff [of a b path G ext_eq] False
      by (auto split: option.split simp del: found_in.simps)
  qed
qed

text \<open>Where the program's own equality is symmetric, the two orders of a pair leave the same pairs.\<close>

lemma value_eq_commute: "symp ext_eq \<Longrightarrow> value_eq ext_eq v w \<longleftrightarrow> value_eq ext_eq w v"
  by (cases v; cases w) (auto simp: symp_def)

lemma pairs_below_None:
  assumes "symp ext_eq" and "pairs_below G ext_eq a b = None"
  shows "pairs_below G ext_eq b a = None"
proof (cases "the (node_value G a)" "the (node_value G b)" rule: held_cases)
  case vacant
  then show ?thesis by (auto simp: pairs_below_def held_pairs_empty)
next
  case (arrays p q)
  then show ?thesis using assms(2) by (auto simp: pairs_below_def held_pairs_arrays split: if_splits)
next
  case (other v w)
  moreover have "\<nexists>p q. w = Low (Low_Array p) \<and> v = Low (Low_Array q)" using other(3) by blast
  ultimately show ?thesis
    using assms(2) value_eq_commute [OF assms(1), of v w]
    by (simp add: pairs_below_def held_other split: if_splits)
qed

lemma item_pairs_swap:
  assumes "map ai_template left = map ai_template right"
    and "(x, y) \<in> set (concat (map (item_pairs G) (zip left right)))"
  shows "(y, x) \<in> set (concat (map (item_pairs G) (zip right left)))"
proof -
  obtain i j where ij: "(i, j) \<in> set (zip left right)" "(x, y) \<in> set (item_pairs G (i, j))"
    using assms(2) by auto
  then have "(j, i) \<in> set (zip right left)" by (auto simp: in_set_zip)
  moreover have "ai_template i = ai_template j" using assms(1) ij(1) by (auto simp: map_eq_zip)
  then have "(y, x) \<in> set (item_pairs G (j, i))"
    using ij(2) by (auto simp: item_pairs_def split: if_splits)
  ultimately show ?thesis by force
qed

lemma pairs_below_Some:
  assumes "symp ext_eq" and below: "pairs_below G ext_eq a b = Some ps"
  shows "\<exists>ps'. pairs_below G ext_eq b a = Some ps' \<and> (\<forall>(x, y) \<in> set ps. (y, x) \<in> set ps')"
proof (cases "the (node_value G a)" "the (node_value G b)" rule: held_cases)
  case vacant
  then show ?thesis using below by (auto simp: pairs_below_def held_pairs_empty)
next
  case (arrays p q)
  then have same: "map ai_template (kg_arrays G (av_items p)) = map ai_template (kg_arrays G (av_items q))"
    and ps: "ps = concat (map (item_pairs G) (zip (kg_arrays G (av_items p)) (kg_arrays G (av_items q))))"
    using below by (auto simp: pairs_below_def held_pairs_arrays split: if_splits)
  have "pairs_below G ext_eq b a =
      Some (concat (map (item_pairs G) (zip (kg_arrays G (av_items q)) (kg_arrays G (av_items p)))))"
    using arrays same by (simp add: pairs_below_def held_pairs_arrays)
  then show ?thesis unfolding ps using item_pairs_swap [OF same] by blast
next
  case (other v w)
  moreover have "\<nexists>p q. w = Low (Low_Array p) \<and> v = Low (Low_Array q)" using other(3) by blast
  ultimately show ?thesis
    using below value_eq_commute [OF assms(1), of v w]
    by (auto simp: pairs_below_def held_other split: if_splits)
qed

lemma apart_commute: "symp ext_eq \<Longrightarrow> apart_in G ext_eq n a b \<Longrightarrow> apart_in G ext_eq n b a"
proof (induction n arbitrary: a b)
  case 0
  then show ?case using pairs_below_None [of ext_eq G a b] by auto
next
  case (Suc n)
  then obtain ps x y where ps: "a \<noteq> b" "pairs_below G ext_eq a b = Some ps" "(x, y) \<in> set ps"
    and below: "apart_in G ext_eq n x y" by auto
  obtain ps' where "pairs_below G ext_eq b a = Some ps'" "(y, x) \<in> set ps'"
    using pairs_below_Some [OF Suc.prems(1) ps(2)] ps(3) by blast
  then show ?case using ps(1) Suc.IH [OF Suc.prems(1) below] by auto
qed

lemma found_apart: "found_in G ext_eq n path a b \<Longrightarrow> apart_in G ext_eq n a b"
  by (induction n arbitrary: path a b) fastforce+

text \<open>A shortest way down to a difference meets no pair twice, in either order.\<close>

lemma apart_found:
  assumes sym: "symp ext_eq"
  shows "apart_in G ext_eq n a b \<Longrightarrow> \<forall>m < n. \<not> apart_in G ext_eq m a b \<Longrightarrow>
    \<forall>(x, y) \<in> path. \<forall>m \<le> n. \<not> apart_in G ext_eq m x y \<Longrightarrow> found_in G ext_eq n path a b"
proof (induction n arbitrary: a b path)
  case 0
  then show ?case by fastforce
next
  case (Suc n)
  obtain ps x y where ps: "a \<noteq> b" "pairs_below G ext_eq a b = Some ps" "(x, y) \<in> set ps"
    and below: "apart_in G ext_eq n x y" using Suc.prems(1) by auto
  have off: "(a, b) \<notin> path" using Suc.prems(1,3) by blast
  have near: "\<not> apart_in G ext_eq m a b \<and> \<not> apart_in G ext_eq m b a" if "m \<le> n" for m
    using that Suc.prems(2) apart_commute [OF sym] by (meson le_imp_less_Suc)
  have "found_in G ext_eq n (pairs_insert path a b) x y"
  proof (rule Suc.IH [OF below])
    show "\<forall>m < n. \<not> apart_in G ext_eq m x y"
    proof (intro allI impI notI)
      fix m
      assume "m < n" "apart_in G ext_eq m x y"
      then have "apart_in G ext_eq (Suc m) a b" using ps by auto
      with \<open>m < n\<close> Suc.prems(2) show False by (meson Suc_less_eq)
    qed
    show "\<forall>(x, y) \<in> pairs_insert path a b. \<forall>m \<le> n. \<not> apart_in G ext_eq m x y"
      using near Suc.prems(3) by (fastforce simp: pairs_insert_def simp del: apart_in.simps)
  qed
  then show ?case using ps off by auto
qed

lemma found_iff_apart:
  assumes "symp ext_eq"
  shows "(\<exists>n. found_in G ext_eq n {} a b) \<longleftrightarrow> (\<exists>n. apart_in G ext_eq n a b)"
proof
  assume "\<exists>n. apart_in G ext_eq n a b"
  then obtain n where "apart_in G ext_eq n a b" "\<forall>m < n. \<not> apart_in G ext_eq m a b"
    using exists_least_iff [of "\<lambda>n. apart_in G ext_eq n a b"] by blast
  then show "\<exists>n. found_in G ext_eq n {} a b" using apart_found [OF assms, of G n a b "{}"] by blast
qed (blast intro: found_apart)

lemma key_eq_alike:
  assumes "symp ext_eq" and "key_nodes G N" and "a \<in> N" and "b \<in> N"
  shows "key_eq G ext_eq a b pairs_new = Some (key_alike G ext_eq a b, pairs_new)"
  using key_eq_found [OF assms(2-4) pairs_new_sym] found_iff_apart [OF assms(1)]
  by (simp only: alike_iff pairs_new_def not_ex [symmetric])

end
