(* ===== verification/Key_Table.thy ===== *)
theory Key_Table
  imports Key_Hash Key_Equal
begin

text \<open>
  Tables (\<open>build_table\<close>, \<open>key_state\<close> and \<open>key_hash\<close> of \<open>lichen-lowlevel/src/table.rs\<close>, the table arm
  of \<open>TableGet\<close> in \<open>evaluation.rs\<close>): entries sorted by the content hash of their keys, looked up by
  a binary search for the hash and the equality of keys on the run of entries that share it.

  The deep evaluation of a key, which comes first, is an argument: it may change the module. What a
  read does with the entry it found, joining its class and evaluating it, is not in this part.
\<close>

section \<open>The state of a key\<close>

type_synonym 'x deep_pass = "'x key_graph \<Rightarrow> nat \<Rightarrow> 'x key_graph option"

definition static_undecided :: "'x key_node \<Rightarrow> bool" where
  "static_undecided node = (case kn_deep node of None \<Rightarrow> True | Some undecided \<Rightarrow> undecided)"

fun key_state :: "'x deep_pass \<Rightarrow> 'x key_graph \<Rightarrow> any_node \<Rightarrow> (key_verdict \<times> 'x key_graph) option" where
  "key_state deep G (Dyn n) = do {
     G \<leftarrow> deep G n;
     node \<leftarrow> kg_nodes G n;
     if kn_deep node = Some True then Some (Undecided, G)
     else do { verdict \<leftarrow> content_state G (Dyn n); Some (verdict, G) } }"
| "key_state deep G (Static m i) = do {
     node \<leftarrow> static_node G m i;
     if static_undecided node then Some (Undecided, G)
     else do { verdict \<leftarrow> content_state G (Static m i); Some (verdict, G) } }"

definition hash_of_state :: "key_verdict \<Rightarrow> u64 option" where
  "hash_of_state verdict = (case verdict of Hashed h \<Rightarrow> Some h | _ \<Rightarrow> None)"

definition key_hash :: "'x deep_pass \<Rightarrow> 'x key_graph \<Rightarrow> any_node \<Rightarrow> (u64 option \<times> 'x key_graph) option" where
  "key_hash deep G key = do {
     (verdict, G) \<leftarrow> key_state deep G key;
     Some (hash_of_state verdict, G) }"

section \<open>Building a table\<close>

datatype table_error = Table_key_undecided any_node | Table_miss any_node any_node

fun build_items ::
    "'x deep_pass \<Rightarrow> (any_node \<times> any_node) list \<Rightarrow> table_item list \<Rightarrow> table_error list \<Rightarrow> 'x key_graph \<Rightarrow>
       (table_item list \<times> table_error list \<times> 'x key_graph) option" where
  "build_items deep [] items errors G = Some (items, errors, G)"
| "build_items deep ((key, v) # entries) items errors G = do {
     (h, G) \<leftarrow> key_hash deep G key;
     case h of
       None \<Rightarrow> build_items deep entries items (errors @ [Table_key_undecided key]) G
     | Some h \<Rightarrow> build_items deep entries (items @ [\<lparr>ti_key = key, ti_value = v, ti_hash = h\<rparr>]) errors G }"

text \<open>\<open>handle\<close> is the storage the block's arena gives the payload.\<close>

definition build_table ::
    "'x deep_pass \<Rightarrow> any_handle \<Rightarrow> 'x key_graph \<Rightarrow> table_error list \<Rightarrow> (any_node \<times> any_node) list \<Rightarrow>
       (any_handle \<times> table_error list \<times> 'x key_graph) option" where
  "build_table deep handle G errors entries = do {
     (items, errors, G) \<leftarrow> build_items deep entries [] errors G;
     Some (handle, errors, G\<lparr>kg_tables := (kg_tables G)(handle := sort_key ti_hash items)\<rparr>) }"

section \<open>Reading a table\<close>

definition partition_point :: "('a \<Rightarrow> bool) \<Rightarrow> 'a list \<Rightarrow> nat" where
  "partition_point P xs = length (takeWhile P xs)"

fun probe ::
    "'x key_graph \<Rightarrow> ('x \<Rightarrow> 'x \<Rightarrow> bool) \<Rightarrow> any_node \<Rightarrow> u64 \<Rightarrow> table_item list \<Rightarrow> pairs \<Rightarrow> any_node option option" where
  "probe G ext_eq key h [] path = Some None"
| "probe G ext_eq key h (item # items) path =
     (if ti_hash item \<noteq> h then Some None
      else do {
        (ok, path) \<leftarrow> key_eq G ext_eq key (ti_key item) path;
        if ok then Some (Some (ti_value item)) else probe G ext_eq key h items path })"

definition table_find ::
    "'x key_graph \<Rightarrow> ('x \<Rightarrow> 'x \<Rightarrow> bool) \<Rightarrow> table_item list \<Rightarrow> any_node \<Rightarrow> u64 \<Rightarrow> any_node option option" where
  "table_find G ext_eq items key h =
     probe G ext_eq key h (drop (partition_point (\<lambda>item. ti_hash item < h) items) items) pairs_new"

text \<open>How a read ends: it stays to be run again, it finds an entry's value node, or it misses.\<close>

datatype table_read = Read_later | Read_found any_node | Read_missing

definition table_get ::
    "'x deep_pass \<Rightarrow> ('x \<Rightarrow> 'x \<Rightarrow> bool) \<Rightarrow> 'x key_graph \<Rightarrow> table_error list \<Rightarrow> any_node \<Rightarrow> any_node \<Rightarrow>
       any_handle \<Rightarrow> (table_read \<times> table_error list \<times> 'x key_graph) option" where
  "table_get deep ext_eq G errors table key payload = do {
     (verdict, G) \<leftarrow> key_state deep G key;
     case verdict of
       Undecided \<Rightarrow> Some (Read_later, errors, G)
     | Unhashable \<Rightarrow> Some (Read_missing, errors @ [Table_miss table key], G)
     | Hashed h \<Rightarrow> do {
         found \<leftarrow> table_find G ext_eq (kg_tables G payload) key h;
         Some (case found of
           Some v \<Rightarrow> (Read_found v, errors, G)
         | None \<Rightarrow> (Read_missing, errors @ [Table_miss table key], G)) } }"

section \<open>Keys that are alike hash alike\<close>

lemma plain_key_step:
  "plain_node G (Suc depth) Key_mode a = do {
     held \<leftarrow> node_value G a;
     case held of None \<Rightarrow> Some Undecided | Some v \<Rightarrow> plain_value G depth (plain_node G depth) Key_mode v }"
  by (simp add: plain_step_def)

lemma plain_items_alike:
  assumes "length left = length right"
    and "\<forall>(i, j) \<in> set (zip left right). ai_template i = ai_template j \<and>
      (\<not> ai_template i \<longrightarrow> (\<exists>x y. item_node G i = Some x \<and> item_node G j = Some y \<and>
         walk Key_mode x = walk Key_mode y))"
  shows "plain_items G walk Key_mode left h = plain_items G walk Key_mode right h"
  using assms
proof (induction left right arbitrary: h rule: list_induct2)
  case (Cons i left j right)
  show ?case
  proof (cases "ai_template i")
    case False
    then obtain x y where "item_node G i = Some x" "item_node G j = Some y"
        "walk Key_mode x = walk Key_mode y" "\<not> ai_template j" using Cons.prems by auto
    with False Cons show ?thesis by (auto intro!: bind_option_cong split: key_verdict.split)
  qed (use Cons in auto)
qed simp

lemma array_items_alike:
  assumes N: "key_nodes G N" and ab: "a \<in> N" "b \<in> N"
    and arrays: "the (node_value G a) = Some (Low (Low_Array p))" "the (node_value G b) = Some (Low (Low_Array q))"
    and below: "pairs_below G ext_eq a b = Some ps"
    and walk: "\<And>x y. (x, y) \<in> set ps \<Longrightarrow> x \<in> N \<Longrightarrow> y \<in> N \<Longrightarrow> walk Key_mode x = walk Key_mode y"
  shows "plain_items G walk Key_mode (kg_arrays G (av_items p)) h =
    plain_items G walk Key_mode (kg_arrays G (av_items q)) h"
proof (rule plain_items_alike)
  let ?left = "kg_arrays G (av_items p)" and ?right = "kg_arrays G (av_items q)"
  have same: "map ai_template ?left = map ai_template ?right"
    and ps: "ps = concat (map (item_pairs G) (zip ?left ?right))"
    using below arrays by (auto simp: pairs_below_def held_pairs_arrays split: if_splits)
  show "length ?left = length ?right" using same by (rule map_eq_imp_length_eq)
  show "\<forall>(i, j) \<in> set (zip ?left ?right). ai_template i = ai_template j \<and> (\<not> ai_template i \<longrightarrow>
      (\<exists>x y. item_node G i = Some x \<and> item_node G j = Some y \<and> walk Key_mode x = walk Key_mode y))"
  proof clarify
    fix i j
    assume ij: "(i, j) \<in> set (zip ?left ?right)"
    then have templates: "ai_template i = ai_template j" using same by (auto simp: map_eq_zip)
    have "\<exists>x y. item_node G i = Some x \<and> item_node G j = Some y \<and> walk Key_mode x = walk Key_mode y"
      if plain: "\<not> ai_template i"
    proof -
      have i: "item_node G i = Some (the (item_node G i))" "the (item_node G i) \<in> N"
        using key_nodes_item [OF N ab(1) arrays(1), of p i] plain set_zip_leftD [OF ij] by auto
      have j: "item_node G j = Some (the (item_node G j))" "the (item_node G j) \<in> N"
        using key_nodes_item [OF N ab(2) arrays(2), of q j] plain templates set_zip_rightD [OF ij] by auto
      have "(the (item_node G i), the (item_node G j)) \<in> set ps"
        unfolding ps using ij plain by (force simp: item_pairs_def)
      then show ?thesis using walk i j by blast
    qed
    with templates show "ai_template i = ai_template j \<and> (\<not> ai_template i \<longrightarrow>
        (\<exists>x y. item_node G i = Some x \<and> item_node G j = Some y \<and> walk Key_mode x = walk Key_mode y))"
      by blast
  qed
qed

lemma alike_plain:
  assumes sym: "symp ext_eq" and N: "key_nodes G N"
  shows "a \<in> N \<Longrightarrow> b \<in> N \<Longrightarrow> key_alike G ext_eq a b \<Longrightarrow>
    plain_node G depth Key_mode a = plain_node G depth Key_mode b"
proof (induction depth arbitrary: a b)
  case (Suc depth)
  show ?case
  proof (cases "a = b")
    case False
    with Suc.prems(3) obtain ps where ps: "pairs_below G ext_eq a b = Some ps"
      and below: "\<forall>(x, y) \<in> set ps. key_alike G ext_eq x y" by (auto elim: key_alike.cases)
    have reads: "node_value G a = Some (the (node_value G a))" "node_value G b = Some (the (node_value G b))"
      using key_nodes_value [OF N] Suc.prems(1,2) by blast+
    show ?thesis
    proof (cases "the (node_value G a)" "the (node_value G b)" rule: held_cases)
      case vacant
      then show ?thesis using ps by (auto simp: pairs_below_def held_pairs_empty)
    next
      case (arrays p q)
      have "plain_items G (plain_node G depth) Key_mode (kg_arrays G (av_items p)) array_seed =
          plain_items G (plain_node G depth) Key_mode (kg_arrays G (av_items q)) array_seed"
        using below Suc.IH by (intro array_items_alike [OF N Suc.prems(1,2) arrays ps]) blast
      moreover have "node_value G a = Some (Some (Low (Low_Array p)))"
        "node_value G b = Some (Some (Low (Low_Array q)))" using reads arrays by auto
      ultimately show ?thesis unfolding plain_key_step by (simp add: plain_value_def)
    next
      case (other v w)
      then have eq: "value_eq ext_eq v w"
        using ps by (auto simp: pairs_below_def held_other split: if_splits)
      have "node_value G a = Some (Some v)" "node_value G b = Some (Some w)" using reads other by auto
      then show ?thesis
        unfolding plain_key_step using eq by (cases v; cases w; simp add: plain_value_def)
    qed
  qed simp
qed simp

section \<open>A search by hash\<close>

text \<open>
  What a table asks of its keys: those that are the same hash the same. A sorted run of entries is
  then searched as the entries in their source order would be, from the first to the last.
\<close>

lemma find_filter: "(\<And>x. x \<in> set xs \<Longrightarrow> P x \<Longrightarrow> Q x) \<Longrightarrow> List.find P (filter Q xs) = List.find P xs"
  by (induction xs) auto

lemma sorted_run:
  fixes f :: "'a \<Rightarrow> 'h :: linorder"
  assumes "sorted (map f xs)"
  shows "takeWhile (\<lambda>x. f x = h) (dropWhile (\<lambda>x. f x < h) xs) = filter (\<lambda>x. f x = h) xs"
  using assms
proof (induction xs)
  case (Cons x xs)
  have later: "filter (\<lambda>x. f x = h) xs = []" if "h < f x"
    using Cons.prems that by (auto simp: filter_empty_conv)
  have here: "dropWhile (\<lambda>x. f x < h) xs = xs" if "f x = h"
    using Cons.prems that by (cases xs) auto
  show ?case
    using Cons later here by (cases "f x < h"; cases "f x = h") auto
qed simp

locale hashed_keys =
  fixes hash :: "'k \<Rightarrow> 'h :: linorder option" and same :: "'k \<Rightarrow> 'k \<Rightarrow> bool"
  assumes same_hash: "same k k' \<Longrightarrow> hash k = Some h \<Longrightarrow> hash k' = Some h' \<Longrightarrow> h = h'"
begin

lemma run_is_search:
  assumes "hash k = Some h" and "\<forall>e \<in> set entries. hash (key e) = Some (code e)"
  shows "List.find (\<lambda>e. same k (key e))
      (takeWhile (\<lambda>e. code e = h) (dropWhile (\<lambda>e. code e < h) (sort_key code entries))) =
    List.find (\<lambda>e. same k (key e)) entries"
proof -
  have "takeWhile (\<lambda>e. code e = h) (dropWhile (\<lambda>e. code e < h) (sort_key code entries)) =
      filter (\<lambda>e. code e = h) (sort_key code entries)"
    by (rule sorted_run) simp
  also have "\<dots> = filter (\<lambda>e. code e = h) entries" by (rule sort_key_stable)
  finally have run: "takeWhile (\<lambda>e. code e = h) (dropWhile (\<lambda>e. code e < h) (sort_key code entries)) =
      filter (\<lambda>e. code e = h) entries" .
  have "code e = h" if "e \<in> set entries" "same k (key e)" for e
    using same_hash [OF that(2) assms(1)] assms(2) that(1) by auto
  then show ?thesis unfolding run by (rule find_filter)
qed

end

definition content_hash :: "'x key_graph \<Rightarrow> any_node \<Rightarrow> u64 option" where
  "content_hash G key = Option.bind (content_state G key) hash_of_state"

definition keys_equal :: "'x key_graph \<Rightarrow> ('x \<Rightarrow> 'x \<Rightarrow> bool) \<Rightarrow> any_node set \<Rightarrow> any_node \<Rightarrow> any_node \<Rightarrow> bool" where
  "keys_equal G ext_eq N a b \<longleftrightarrow>
     symp ext_eq \<and> key_nodes G N \<and> a \<in> N \<and> b \<in> N \<and> key_alike G ext_eq a b"

interpretation key_run: hashed_keys "content_hash G" "keys_equal G ext_eq N" for G ext_eq N
proof
  fix k k' h h'
  assume "keys_equal G ext_eq N k k'"
  then have "content_state G k = content_state G k'"
    using alike_plain unfolding keys_equal_def content_state_plain by blast
  then show "content_hash G k = Some h \<Longrightarrow> content_hash G k' = Some h' \<Longrightarrow> h = h'"
    by (simp add: content_hash_def)
qed

text \<open>A probe of a run answers as a search in it, and never fails on keys that can be compared.\<close>

lemma probe_run:
  assumes "symp ext_eq" "key_nodes G N" "key \<in> N"
  shows "\<forall>item \<in> set items. ti_key item \<in> N \<Longrightarrow>
    probe G ext_eq key h items pairs_new = Some (map_option ti_value
      (List.find (\<lambda>item. keys_equal G ext_eq N key (ti_key item)) (takeWhile (\<lambda>item. ti_hash item = h) items)))"
proof (induction items)
  case (Cons item items)
  then have "key_eq G ext_eq key (ti_key item) pairs_new =
      Some (keys_equal G ext_eq N key (ti_key item), pairs_new)"
    using key_eq_alike [OF assms, of "ti_key item"] assms by (simp add: keys_equal_def)
  with Cons show ?case by simp
qed simp

lemma drop_partition_point: "drop (partition_point P xs) xs = dropWhile P xs"
  by (simp add: partition_point_def dropWhile_eq_drop)

lemma table_find_first:
  assumes "symp ext_eq" "key_nodes G N" "key \<in> N"
    and items: "\<forall>item \<in> set items. ti_key item \<in> N \<and> content_hash G (ti_key item) = Some (ti_hash item)"
    and key: "content_hash G key = Some h"
  shows "table_find G ext_eq (sort_key ti_hash items) key h =
    Some (map_option ti_value (List.find (\<lambda>item. keys_equal G ext_eq N key (ti_key item)) items))"
proof -
  have "\<forall>item \<in> set (dropWhile (\<lambda>item. ti_hash item < h) (sort_key ti_hash items)). ti_key item \<in> N"
    using items by (auto dest: set_dropWhileD)
  then show ?thesis
    unfolding table_find_def drop_partition_point
    using probe_run [OF assms(1-3)] key_run.run_is_search [OF key, of items ti_key ti_hash] items by simp
qed

section \<open>Building\<close>

text \<open>The keys the deep pass is through with: it leaves the module as it is.\<close>

definition pass_done :: "'x deep_pass \<Rightarrow> 'x key_graph \<Rightarrow> any_node set \<Rightarrow> bool" where
  "pass_done deep G N \<longleftrightarrow> (\<forall>n. Dyn n \<in> N \<longrightarrow> deep G n = Some G)"

lemma key_state_done:
  assumes "pass_done deep G N" and "key \<in> N" and "key_state deep G key = Some (verdict, G')"
  shows "G' = G \<and> (verdict = Undecided \<or> content_state G key = Some verdict)"
  using assms by (cases key)
    (auto simp: pass_done_def Option.bind_eq_Some_conv split: if_splits)

lemma key_hash_done:
  assumes "pass_done deep G N" and "key \<in> N" and "key_hash deep G key = Some (found, G')"
  shows "G' = G \<and> (\<forall>h. found = Some h \<longrightarrow> content_hash G key = Some h)"
  using assms key_state_done [OF assms(1,2)]
  by (fastforce simp: key_hash_def content_hash_def hash_of_state_def Option.bind_eq_Some_conv)

text \<open>What the loop keeps of the entries: those whose key has a hash, in their order.\<close>

definition kept :: "'x deep_pass \<Rightarrow> 'x key_graph \<Rightarrow> any_node \<Rightarrow> bool" where
  "kept deep G key \<longleftrightarrow> (\<exists>h G'. key_hash deep G key = Some (Some h, G'))"

definition item_of :: "'x key_graph \<Rightarrow> any_node \<times> any_node \<Rightarrow> table_item" where
  "item_of G entry = \<lparr>ti_key = fst entry, ti_value = snd entry, ti_hash = the (content_hash G (fst entry))\<rparr>"

lemma build_items_kept:
  assumes "pass_done deep G N"
  shows "build_items deep entries items errors G = Some (items', errors', G') \<Longrightarrow>
    fst ` set entries \<subseteq> N \<Longrightarrow>
    G' = G \<and>
    items' = items @ map (item_of G) (filter (\<lambda>e. kept deep G (fst e)) entries) \<and>
    errors' = errors @ map (\<lambda>e. Table_key_undecided (fst e)) (filter (\<lambda>e. \<not> kept deep G (fst e)) entries)"
proof (induction entries arbitrary: items errors)
  case (Cons entry entries)
  obtain key v where entry: "entry = (key, v)" by (cases entry)
  with Cons.prems obtain found G1 where hash: "key_hash deep G key = Some (found, G1)"
    by (auto simp: Option.bind_eq_Some_conv)
  have same: "G1 = G" "\<forall>h. found = Some h \<longrightarrow> content_hash G key = Some h"
    using key_hash_done [OF assms _ hash] Cons.prems(2) entry by auto
  have kept: "kept deep G key \<longleftrightarrow> found \<noteq> None" using hash by (auto simp: kept_def)
  show ?case
  proof (cases found)
    case None
    then show ?thesis
      using Cons.IH [of items "errors @ [Table_key_undecided key]"] Cons.prems entry hash same kept by simp
  next
    case (Some h)
    then show ?thesis
      using Cons.IH [of "items @ [\<lparr>ti_key = key, ti_value = v, ti_hash = h\<rparr>]" errors] Cons.prems
        entry hash same kept by (simp add: item_of_def)
  qed
qed simp

lemma kept_hash:
  assumes "pass_done deep G N" and "key \<in> N" and "kept deep G key"
  shows "content_hash G key = Some (the (content_hash G key))"
  using assms key_hash_done [OF assms(1,2)] unfolding kept_def by fastforce

lemma find_map_item:
  "map_option ti_value (List.find (\<lambda>item. P (ti_key item)) (map (item_of G) (filter Q entries))) =
   map_option snd (List.find (\<lambda>e. Q e \<and> P (fst e)) entries)"
  by (induction entries) (auto simp: item_of_def)

lemma built_find:
  assumes keys: "symp ext_eq" "key_nodes G N" "key \<in> N" and over: "pass_done deep G N"
    and run: "build_items deep entries [] errors G = Some (items, errors', G')"
    and inside: "fst ` set entries \<subseteq> N" and hash: "content_hash G key = Some h"
  shows "table_find G ext_eq (sort_key ti_hash items) key h = Some (map_option snd
    (List.find (\<lambda>e. kept deep G (fst e) \<and> keys_equal G ext_eq N key (fst e)) entries))"
proof -
  have items: "items = map (item_of G) (filter (\<lambda>e. kept deep G (fst e)) entries)"
    using build_items_kept [OF over run inside] by simp
  have "ti_key item \<in> N \<and> content_hash G (ti_key item) = Some (ti_hash item)" if "item \<in> set items" for item
    using that inside kept_hash [OF over] unfolding items by (auto simp: item_of_def)
  then show ?thesis
    using table_find_first [OF keys _ hash, of items] unfolding items find_map_item by blast
qed

end
