(* ===== verification/Key_Properties.thy ===== *)
theory Key_Properties
  imports Key_Table
begin

text \<open>
  What table keys and tables promise: the equality of keys decides the greatest relation that
  respects the values, the hash agrees with it and is not changed by its memo, and a table built
  from entries answers a read with the first of them whose key is equal. And where a key's hash
  panics.
\<close>

section \<open>A module with one more table\<close>

lemma node_value_table [simp]: "node_value (G\<lparr>kg_tables := T\<rparr>) a = node_value G a"
  by (cases a) (auto cong: option.case_cong bind_option_cong)

lemma operation_operand_table [simp]: "operation_operand (G\<lparr>kg_tables := T\<rparr>) a = operation_operand G a"
  by (cases a) auto

lemma read_only_static_table [simp]: "read_only_static (G\<lparr>kg_tables := T\<rparr>) a = read_only_static G a"
  by (cases a) auto

lemma entry_points_table [simp]: "entry_points (G\<lparr>kg_tables := T\<rparr>) f = entry_points G f"
  by (cases f) auto

lemma kg_arrays_table: "kg_arrays (G\<lparr>kg_tables := T\<rparr>) = kg_arrays G"
  by simp

lemma item_node_table [simp]: "item_node (G\<lparr>kg_tables := T\<rparr>) item = item_node G item"
  unfolding item_node_def element_value_node_def node_value_table kg_arrays_table ..

lemma key_nodes_table [simp]: "key_nodes (G\<lparr>kg_tables := T\<rparr>) N = key_nodes G N"
  by (simp add: key_nodes_def)

lemma pairs_below_table [simp]: "pairs_below (G\<lparr>kg_tables := T\<rparr>) ext_eq a b = pairs_below G ext_eq a b"
proof -
  have pairs: "item_pairs (G\<lparr>kg_tables := T\<rparr>) = item_pairs G" by (rule ext) (simp add: item_pairs_def)
  show ?thesis unfolding pairs_below_def held_pairs_def node_value_table kg_arrays_table pairs ..
qed

lemma keys_equal_table [simp]: "keys_equal (G\<lparr>kg_tables := T\<rparr>) ext_eq N a b = keys_equal G ext_eq N a b"
proof -
  have "apart_in (G\<lparr>kg_tables := T\<rparr>) ext_eq n x y = apart_in G ext_eq n x y" for n x y
    by (induction n arbitrary: x y) (simp_all add: split_def)
  then show ?thesis by (simp add: keys_equal_def alike_iff)
qed

lemma plain_items_table [simp]:
  "plain_items (G\<lparr>kg_tables := T\<rparr>) walk mode items h = plain_items G walk mode items h"
  by (induction items arbitrary: h) (auto intro!: bind_option_cong split: key_verdict.split)

lemma plain_node_table:
  assumes fresh: "\<And>a. node_value G a \<noteq> Some (Some (Low (Low_Table handle)))"
  shows "plain_node (G\<lparr>kg_tables := (kg_tables G)(handle := items)\<rparr>) depth = plain_node G depth"
    (is "plain_node ?G depth = _")
proof (induction depth)
  case (Suc depth)
  have "plain_value ?G depth (plain_node G depth) mode v = plain_value G depth (plain_node G depth) mode v"
    if "node_value G a = Some (Some v)" for mode a v
  proof (cases v)
    case (Low l)
    then show ?thesis using fresh [of a] that by (cases l) (auto simp: plain_value_def plain_function_def)
  qed (simp add: plain_value_def)
  then have same: "plain_step ?G depth (plain_node G depth) mode a = plain_step G depth (plain_node G depth) mode a" for mode a
    unfolding plain_step_def operation_operand_table read_only_static_table node_value_table
    by (auto intro!: bind_option_cong split: option.split)
  show ?case by (intro ext) (simp only: plain_node.simps Suc same)
qed (intro ext, simp)

lemma content_state_table:
  assumes "\<And>a. node_value G a \<noteq> Some (Some (Low (Low_Table handle)))"
  shows "content_state (G\<lparr>kg_tables := (kg_tables G)(handle := items)\<rparr>) key = content_state G key"
  by (simp add: content_state_plain plain_node_table [OF assms])

section \<open>A sample of cyclic keys\<close>

text \<open>
  Node 0 is the cyclic value \<open>[1, itself]\<close>, nodes 2 and 3 the same value unrolled,
  \<open>[1, [1, itself]]\<close>; node 1 is the number, nodes 4 and 5 are values to be found.
\<close>

definition plain_item :: "nat \<Rightarrow> array_item" where
  "plain_item n = \<lparr>ai_node = Dyn n, ai_shallow = False, ai_template = False\<rparr>"

definition solved :: "low \<Rightarrow> unit key_node" where
  "solved v = \<lparr>kn_value = Some (Low v), kn_operation = None, kn_deep = Some False\<rparr>"

definition cyclic_keys :: "unit key_graph" where
  "cyclic_keys =
    \<lparr>kg_nodes = [0 \<mapsto> solved (Low_Array (array_new (Dyn_handle 0))), 1 \<mapsto> solved (Low_USize 1),
       2 \<mapsto> solved (Low_Array (array_new (Dyn_handle 2))), 3 \<mapsto> solved (Low_Array (array_new (Dyn_handle 3))),
       4 \<mapsto> solved (Low_USize 10), 5 \<mapsto> solved (Low_USize 20)],
     kg_functions = Map.empty, kg_static = Map.empty,
     kg_arrays = (\<lambda>_. [])(Dyn_handle 0 := [plain_item 1, plain_item 0],
       Dyn_handle 2 := [plain_item 1, plain_item 3], Dyn_handle 3 := [plain_item 1, plain_item 2]),
     kg_tables = (\<lambda>_. [])\<rparr>"

abbreviation cyclic_nodes :: "any_node set" where
  "cyclic_nodes \<equiv> {Dyn 0, Dyn 1, Dyn 2, Dyn 3}"

definition no_pass :: "'x deep_pass" where
  "no_pass G n = Some G"

lemma cyclic_values [simp]:
  "node_value cyclic_keys (Dyn 0) = Some (Some (Low (Low_Array (array_new (Dyn_handle 0)))))"
  "node_value cyclic_keys (Dyn (Suc 0)) = Some (Some (Low (Low_USize 1)))"
  "node_value cyclic_keys (Dyn 2) = Some (Some (Low (Low_Array (array_new (Dyn_handle 2)))))"
  "node_value cyclic_keys (Dyn 3) = Some (Some (Low (Low_Array (array_new (Dyn_handle 3)))))"
  "kg_arrays cyclic_keys (Dyn_handle 0) = [plain_item 1, plain_item 0]"
  "kg_arrays cyclic_keys (Dyn_handle 2) = [plain_item 1, plain_item 3]"
  "kg_arrays cyclic_keys (Dyn_handle 3) = [plain_item 1, plain_item 2]"
  by (simp_all add: cyclic_keys_def solved_def)

declare node_value.simps [simp del]

lemma cyclic_items [simp]:
  "av_items (array_new h) = h" "av_layout (array_new h) = 0"
  "\<not> ai_template (plain_item n)" "ai_node (plain_item n) = Dyn n"
  by (simp_all add: array_new_def plain_item_def)

lemma cyclic_item_node [simp]: "item_node cyclic_keys (plain_item n) = Some (Dyn n)"
  by (auto simp: item_node_def element_value_node_def cyclic_keys_def solved_def array_new_def
      node_value.simps split: option.split if_splits)

lemma cyclic_key_nodes: "key_nodes cyclic_keys cyclic_nodes"
  by (simp add: key_nodes_def)

lemma cyclic_below:
  "pairs_below cyclic_keys ext_eq (Dyn 2) (Dyn 0) = Some [(Dyn 1, Dyn 1), (Dyn 3, Dyn 0)]"
  "pairs_below cyclic_keys ext_eq (Dyn 3) (Dyn 0) = Some [(Dyn 1, Dyn 1), (Dyn 2, Dyn 0)]"
  "pairs_below cyclic_keys ext_eq (Dyn 2) (Dyn 1) = None"
  by (simp_all add: pairs_below_def held_pairs_arrays held_other item_pairs_def)

lemma cyclic_alike: "key_alike cyclic_keys ext_eq (Dyn 2) (Dyn 0)"
proof -
  have "(a = Dyn 2 \<or> a = Dyn 3) \<and> b = Dyn 0 \<Longrightarrow> key_alike cyclic_keys ext_eq a b" for a b
  proof (coinduction arbitrary: a b)
    case key_alike
    then show ?case by (auto simp: cyclic_below alike_same)
  qed
  then show ?thesis by blast
qed

lemma cyclic_not_alike: "\<not> key_alike cyclic_keys ext_eq (Dyn 2) (Dyn 1)"
  using cyclic_below(3) by (auto elim: key_alike.cases)

lemma cyclic_hashed:
  "\<exists>h. plain_node cyclic_keys depth Key_mode (Dyn 0) = Some (Hashed h)"
  "\<exists>h. plain_node cyclic_keys depth Key_mode (Dyn (Suc 0)) = Some (Hashed h)"
  "\<exists>h. plain_node cyclic_keys depth Key_mode (Dyn 2) = Some (Hashed h) \<and>
     (\<exists>h. plain_node cyclic_keys depth Key_mode (Dyn 3) = Some (Hashed h))"
proof (induction depth)
  case (Suc depth)
  { case 1 show ?case using Suc by (auto simp: plain_step_def plain_value_def) }
  { case 2 show ?case using Suc by (auto simp: plain_step_def plain_value_def) }
  { case 3 show ?case using Suc by (auto simp: plain_step_def plain_value_def) }
qed auto

lemma cyclic_contents:
  "\<exists>h. content_state cyclic_keys (Dyn 0) = Some (Hashed h)"
  "\<exists>h. content_state cyclic_keys (Dyn (Suc 0)) = Some (Hashed h)"
  "\<exists>h. content_state cyclic_keys (Dyn 2) = Some (Hashed h)"
  using cyclic_hashed [of unfold_depth] by (auto simp: content_state_plain)

lemma cyclic_fresh: "node_value cyclic_keys a \<noteq> Some (Some (Low (Low_Table t)))"
  by (cases a) (auto simp: cyclic_keys_def solved_def node_value.simps split: option.split if_splits)

section \<open>The equality of keys\<close>

text \<open>
  C12: On a finite set of nodes closed under the descent, whose reads do not panic, comparing two keys
  returns, leaves the path as it was, and answers whether the two are related by the greatest relation
  that respects their values, cyclic values included; the program's own equality is only assumed
  symmetric.
\<close>

theorem key_eq_decides:
  assumes "symp ext_eq" and "key_nodes G N" and "a \<in> N" and "b \<in> N"
  shows "key_eq G ext_eq a b pairs_new = Some (key_alike G ext_eq a b, pairs_new)"
  by (rule key_eq_alike [OF assms])

theorem key_eq_decides_witness:
  "key_eq cyclic_keys (=) (Dyn 2) (Dyn 0) pairs_new = Some (True, pairs_new) \<and>
   key_eq cyclic_keys (=) (Dyn 2) (Dyn 1) pairs_new = Some (False, pairs_new)"
  using key_eq_decides [OF _ cyclic_key_nodes, of "(=)" "Dyn 2" "Dyn 0"]
    key_eq_decides [OF _ cyclic_key_nodes, of "(=)" "Dyn 2" "Dyn 1"]
    cyclic_alike cyclic_not_alike by (simp add: symp_def)

section \<open>The hash of keys\<close>

text \<open>
  C16: Two keys the comparison takes as equal have the same state, and so the same hash when they have
  one: the hash never separates equal keys, whatever the depth a cyclic value is cut at.
\<close>

theorem equal_keys_hash_equal:
  assumes "symp ext_eq" and "key_nodes G N" and "a \<in> N" and "b \<in> N"
    and "key_eq G ext_eq a b pairs_new = Some (True, path)"
  shows "content_state G a = content_state G b"
  using key_eq_alike [OF assms(1-4)] assms(5) alike_plain [OF assms(1-4)]
  by (simp add: content_state_plain)

theorem equal_keys_hash_equal_witness:
  "content_state cyclic_keys (Dyn 2) = content_state cyclic_keys (Dyn 0)"
  using equal_keys_hash_equal [OF _ cyclic_key_nodes, of "(=)" "Dyn 2" "Dyn 0"]
    key_eq_alike [OF _ cyclic_key_nodes, of "(=)" "Dyn 2" "Dyn 0"] cyclic_alike by (simp add: symp_def)

text \<open>
  C26: Unfolding a node with the memo, of nodes by mode and depth and of functions by depth, answers as
  the unfolding without it, at every depth, in both modes, panics included.
\<close>

theorem memo_keeps_unfolding:
  "map_option fst (hash_node G depth mode node unfolding_new) = plain_node G depth mode node"
  using walks_alikeD [OF node_same memo_true_new, of G depth mode node]
  by (cases "hash_node G depth mode node unfolding_new") auto

section \<open>Tables\<close>

lemma table_find_table:
  assumes "symp ext_eq" "key_nodes G N" "key \<in> N" and "\<forall>item \<in> set items. ti_key item \<in> N"
  shows "table_find (G\<lparr>kg_tables := T\<rparr>) ext_eq items key h = table_find G ext_eq items key h"
proof -
  have "\<forall>item \<in> set (drop (partition_point (\<lambda>item. ti_hash item < h) items) items). ti_key item \<in> N"
    using assms(4) by (auto dest: in_set_dropD)
  then show ?thesis
    using probe_run [OF assms(1-3)] probe_run [of ext_eq "G\<lparr>kg_tables := T\<rparr>" N] assms
    by (simp add: table_find_def)
qed

lemma built_get:
  assumes keys: "symp ext_eq" "key_nodes G N" "key \<in> N" and inside: "fst ` set entries \<subseteq> N"
    and fresh: "\<And>a. node_value G a \<noteq> Some (Some (Low (Low_Table handle)))"
    and over: "pass_done deep G N" and run: "build_items deep entries [] errors G = Some (items, errors', G)"
    and state: "content_state (G\<lparr>kg_tables := T\<rparr>) key = Some (Hashed h)"
    and table: "T = (kg_tables G)(handle := sort_key ti_hash items)"
  shows "table_find (G\<lparr>kg_tables := T\<rparr>) ext_eq (T handle) key h = Some (map_option snd
    (List.find (\<lambda>e. kept deep G (fst e) \<and> key_alike G ext_eq key (fst e)) entries))"
proof -
  have "content_hash G key = Some h"
    using state content_state_table [OF fresh] by (simp add: table content_hash_def hash_of_state_def)
  note found = built_find [OF keys over run inside this]
  have "\<forall>item \<in> set (sort_key ti_hash items). ti_key item \<in> N"
    using build_items_kept [OF over run inside] inside by (auto simp: item_of_def)
  note same = table_find_table [OF keys this, of T h]
  have "List.find (\<lambda>e. kept deep G (fst e) \<and> keys_equal G ext_eq N key (fst e)) entries =
      List.find (\<lambda>e. kept deep G (fst e) \<and> key_alike G ext_eq key (fst e)) entries"
    using keys inside by (intro find_cong) (auto simp: keys_equal_def)
  with found same show ?thesis by (simp add: table)
qed


lemma cyclic_pass: "pass_done no_pass G N"
  by (simp add: pass_done_def no_pass_def)

lemma cyclic_state:
  assumes "n \<in> {0, 1, 2}"
  shows "\<exists>h. key_state no_pass (cyclic_keys\<lparr>kg_tables := (kg_tables cyclic_keys)(Dyn_handle 9 := items)\<rparr>) (Dyn n) =
    Some (Hashed h, cyclic_keys\<lparr>kg_tables := (kg_tables cyclic_keys)(Dyn_handle 9 := items)\<rparr>)"
  using assms cyclic_contents content_state_table [OF cyclic_fresh, of "Dyn_handle 9" items]
  by (auto simp: no_pass_def) (auto simp: cyclic_keys_def solved_def)

lemma cyclic_kept: "n \<in> {0, 1} \<Longrightarrow> \<exists>h. key_hash no_pass cyclic_keys (Dyn n) = Some (Some h, cyclic_keys)"
  using cyclic_contents
  by (auto simp: key_hash_def no_pass_def hash_of_state_def) (auto simp: cyclic_keys_def solved_def)


section \<open>A key that cannot be hashed\<close>

text \<open>
  C39: A key that is a function of a module frozen for reading only, whose return node kept no
  operation, has no state at all: the unfolding answers \<open>Undecided\<close> for the node in template mode,
  which the caller has declared unreachable, and the hash panics instead of refusing the key.
\<close>

theorem read_only_function_key_panics:
  assumes "node_value G key = Some (Some (Low (Low_Function (Static_function m f))))"
    and "kg_static G m = Some sm" and "sm_read_only sm"
    and "nth_opt (sm_functions sm) f = Some t"
    and "nth_opt (sm_nodes sm) (tp_return t) = Some node" and "kn_operation node = None"
  shows "content_state G key = None"
proof -
  have "plain_step G d walk Template_mode (Static m (tp_return t)) = Some Undecided" for d walk
    using assms by (simp add: plain_step_def del: nth_opt_Some)
  then have refused: "plain_template (plain_node G (Suc d)) (Static m (tp_return t)) = None" for d
    by (simp add: plain_template_def)
  have "plain_function G (Suc d) (plain_node G (Suc d)) (Static_function m f) = None" for d
    unfolding plain_function_def using assms(2,4) refused [of d] by (simp del: nth_opt_Some)
  then have "plain_node G (Suc (Suc d)) Key_mode key = None" for d
    unfolding plain_key_step using assms(1) by (simp add: plain_value_def del: plain_node.simps)
  then show ?thesis
    by (simp add: content_state_plain unfold_depth_def numeral_eq_Suc del: plain_node.simps)
qed

definition read_only_module :: "unit static_module" where
  "read_only_module =
    \<lparr>sm_nodes = [solved (Low_USize 1)], sm_functions = [\<lparr>tp_return = 0, tp_asserts = []\<rparr>], sm_read_only = True\<rparr>"

definition frozen_function :: "unit key_graph" where
  "frozen_function =
    \<lparr>kg_nodes = [0 \<mapsto> solved (Low_Function (Static_function 7 0))],
     kg_functions = Map.empty,
     kg_static = [7 \<mapsto> read_only_module],
     kg_arrays = (\<lambda>_. []), kg_tables = (\<lambda>_. [])\<rparr>"

theorem read_only_function_key_panics_witness:
  "content_state frozen_function (Dyn 0) = None \<and> key_state no_pass frozen_function (Dyn 0) = None"
proof -
  have "content_state frozen_function (Dyn 0) = None"
    by (rule read_only_function_key_panics [where m = 7 and f = 0 and sm = read_only_module
          and t = "\<lparr>tp_return = 0, tp_asserts = []\<rparr>" and node = "solved (Low_USize 1)"])
      (simp_all add: frozen_function_def read_only_module_def solved_def node_value.simps)
  moreover have "kg_nodes frozen_function 0 = Some (solved (Low_Function (Static_function 7 0)))"
    by (simp add: frozen_function_def)
  ultimately show ?thesis by (simp add: no_pass_def solved_def)
qed

end
