(* ===== verification/Block_Lex.thy ===== *)
theory Block_Lex
  imports Lex_Tokens Span_Lines
begin

text \<open>
  The tokens of a directive block and its lexer (\<open>lichen-preprocess/src/lex.rs\<close>).

  The scanner is generated from the patterns by a library and so an argument: given the text from a
  position on, it answers the next pattern or an unexpected character, with the offsets where it
  starts and ends. What is known of it is the rule the library documents: blanks are skipped, the
  longest match is the token, and of two patterns that match the same text a keyword wins over a
  name. The callbacks that read a token's content from its text are the source's own.
\<close>

section \<open>Tokens\<close>

datatype block_kind =
    Block_separator
  | Block_equals
  | Block_import
  | Block_depend
  | Block_plug
  | Block_link
  | Block_string string
  | Block_name string

definition dquote :: char where
  "dquote = CHR 0x22"

definition squote :: char where
  "squote = CHR 0x27"

definition quoted :: "string \<Rightarrow> string" where
  "quoted s = squote # s @ [squote]"

fun describe_block :: "block_kind \<Rightarrow> string" where
  "describe_block Block_separator = ''a separator''"
| "describe_block Block_equals = quoted ''=''"
| "describe_block Block_import = quoted ''import''"
| "describe_block Block_depend = quoted ''depend''"
| "describe_block Block_plug = quoted ''plug''"
| "describe_block Block_link = quoted ''link''"
| "describe_block (Block_string s) = ''a string''"
| "describe_block (Block_name s) = ''a name''"

record block_token =
  bt_kind :: block_kind
  bt_range :: "u32 \<times> u32"

record block_error =
  be_message :: string
  be_offset :: u32

section \<open>The scanner\<close>

datatype block_pattern =
    Pat_separator
  | Pat_equals
  | Pat_import
  | Pat_depend
  | Pat_plug
  | Pat_link
  | Pat_string
  | Pat_name

fun keyword_text :: "block_pattern \<Rightarrow> string option" where
  "keyword_text Pat_import = Some ''import''"
| "keyword_text Pat_depend = Some ''depend''"
| "keyword_text Pat_plug = Some ''plug''"
| "keyword_text Pat_link = Some ''link''"
| "keyword_text _ = None"

definition pattern_matches :: "block_pattern \<Rightarrow> string \<Rightarrow> bool" where
  "pattern_matches p s =
     (case p of
        Pat_separator \<Rightarrow> s = [newline] \<or> s = '','' \<or> s = '';''
      | Pat_equals \<Rightarrow> s = ''=''
      | Pat_string \<Rightarrow> length s \<ge> 2 \<and> hd s = dquote \<and> last s = dquote \<and> dquote \<notin> set (butlast (tl s))
      | Pat_name \<Rightarrow> is_name s
      | _ \<Rightarrow> keyword_text p = Some s)"

text \<open>The callbacks of the patterns: what a token's text becomes.\<close>

fun block_callback :: "block_pattern \<Rightarrow> string \<Rightarrow> block_kind" where
  "block_callback Pat_separator s = Block_separator"
| "block_callback Pat_equals s = Block_equals"
| "block_callback Pat_import s = Block_import"
| "block_callback Pat_depend s = Block_depend"
| "block_callback Pat_plug s = Block_plug"
| "block_callback Pat_link s = Block_link"
| "block_callback Pat_string s = Block_string (drop 1 (take (length s - 1) s))"
| "block_callback Pat_name s = Block_name s"

type_synonym block_scanner = "string \<Rightarrow> (block_pattern option \<times> nat \<times> nat) option"

definition block_longest :: "block_scanner \<Rightarrow> bool" where
  "block_longest scan \<longleftrightarrow> (\<forall>text.
     case scan text of
       None \<Rightarrow> list_all is_blank text
     | Some (found, i, j) \<Rightarrow>
         i = length (takeWhile is_blank text) \<and> i < j \<and> j \<le> length text \<and>
         (case found of
            Some p \<Rightarrow> pattern_matches p (drop i (take j text)) \<and>
              (\<forall>q k. i < k \<longrightarrow> k \<le> length text \<longrightarrow> pattern_matches q (drop i (take k text)) \<longrightarrow> k \<le> j) \<and>
              (p = Pat_name \<longrightarrow> (\<forall>q. keyword_text q \<noteq> Some (drop i (take j text))))
          | None \<Rightarrow>
              (\<forall>q k. i < k \<longrightarrow> k \<le> length text \<longrightarrow> \<not> pattern_matches q (drop i (take k text)))))"

section \<open>The lexer\<close>

text \<open>The first character of a text, a question mark if there is none.\<close>

definition first_char :: "string \<Rightarrow> string" where
  "first_char s = (case s of [] \<Rightarrow> ''?'' | c # cs \<Rightarrow> c # takeWhile continuation cs)"

definition unexpected_char :: "string \<Rightarrow> nat \<Rightarrow> block_error" where
  "unexpected_char lexeme start =
     \<lparr>be_message = ''unexpected character '' @ quoted (first_char lexeme), be_offset = of_nat start\<rparr>"

partial_function (option) block_loop ::
    "block_scanner \<Rightarrow> string \<Rightarrow> nat \<Rightarrow> block_token list \<Rightarrow> (block_token list \<times> block_error list) option" where
  "block_loop scan interior at tokens =
     (case scan (drop at interior) of
        None \<Rightarrow> Some (tokens, [])
      | Some (Some p, i, j) \<Rightarrow>
          block_loop scan interior (at + j)
            (tokens @ [\<lparr>bt_kind = block_callback p (drop (at + i) (take (at + j) interior)),
                       bt_range = (of_nat (at + i), of_nat (at + j))\<rparr>])
      | Some (None, i, j) \<Rightarrow>
          Some (tokens, [unexpected_char (drop (at + i) (take (at + j) interior)) (at + i)]))"

definition block_tokenize :: "block_scanner \<Rightarrow> string \<Rightarrow> (block_token list \<times> block_error list) option" where
  "block_tokenize scan interior = block_loop scan interior 0 []"

section \<open>A scanner of the patterns\<close>

definition block_patterns :: "block_pattern list" where
  "block_patterns = [Pat_separator, Pat_equals, Pat_import, Pat_depend, Pat_plug, Pat_link, Pat_string, Pat_name]"

definition scan_block_patterns :: block_scanner where
  "scan_block_patterns text =
     (let i = length (takeWhile is_blank text); rest = drop i text in
      if rest = [] then None
      else
        case List.find (\<lambda>k. list_ex (\<lambda>p. pattern_matches p (take k rest)) block_patterns)
            (rev [1..<Suc (length rest)]) of
          None \<Rightarrow> Some (None, i, i + 1)
        | Some k \<Rightarrow> Some (List.find (\<lambda>p. pattern_matches p (take k rest)) block_patterns, i, i + k))"

lemma find_latest:
  "List.find P (rev [1..<Suc n]) = Some k \<longleftrightarrow> 0 < k \<and> k \<le> n \<and> P k \<and> (\<forall>l. k < l \<and> l \<le> n \<longrightarrow> \<not> P l)"
  by (induction n) (auto simp: le_Suc_eq)

lemma block_patterns_all: "p \<in> set block_patterns"
  by (cases p) (simp_all add: block_patterns_def)

lemma keyword_matches: "keyword_text p = Some s \<Longrightarrow> pattern_matches p s"
  by (cases p) (simp_all add: pattern_matches_def)

lemma find_name_last:
  assumes "List.find (\<lambda>p. pattern_matches p s) block_patterns = Some Pat_name"
  shows "keyword_text q \<noteq> Some s"
proof
  assume "keyword_text q = Some s"
  then have "pattern_matches q s" "q \<noteq> Pat_name" "q \<noteq> Pat_string" "q \<noteq> Pat_equals" "q \<noteq> Pat_separator"
    using keyword_matches by auto
  with assms show False by (cases q) (auto simp: block_patterns_def split: if_splits)
qed

lemma scan_block_patterns_longest: "block_longest scan_block_patterns"
  unfolding block_longest_def
proof
  fix input
  let ?i = "length (takeWhile is_blank input)"
  let ?rest = "drop ?i input"
  let ?P = "\<lambda>k. list_ex (\<lambda>p. pattern_matches p (take k ?rest)) block_patterns"
  have cut: "drop ?i (take k input) = take (k - ?i) ?rest" for k by (simp add: drop_take)
  have any: "pattern_matches p (take k ?rest) \<Longrightarrow> ?P k" for p k
    using block_patterns_all by (auto simp: list_ex_iff)
  show "case scan_block_patterns input of
       None \<Rightarrow> list_all is_blank input
     | Some (found, i, j) \<Rightarrow>
         i = ?i \<and> i < j \<and> j \<le> length input \<and>
         (case found of
            Some p \<Rightarrow> pattern_matches p (drop i (take j input)) \<and>
              (\<forall>q k. i < k \<longrightarrow> k \<le> length input \<longrightarrow> pattern_matches q (drop i (take k input)) \<longrightarrow> k \<le> j) \<and>
              (p = Pat_name \<longrightarrow> (\<forall>q. keyword_text q \<noteq> Some (drop i (take j input))))
          | None \<Rightarrow>
              (\<forall>q k. i < k \<longrightarrow> k \<le> length input \<longrightarrow> \<not> pattern_matches q (drop i (take k input))))"
  proof (cases "?rest = []")
    case True
    then have "list_all is_blank input"
      by (metis append_Nil2 append_take_drop_id list_all_iff set_takeWhileD takeWhile_eq_take)
    with True show ?thesis by (simp add: scan_block_patterns_def)
  next
    case False
    then have less: "?i < length input" by simp
    show ?thesis
    proof (cases "List.find ?P (rev [1..<Suc (length ?rest)])")
      case None
      have "\<not> pattern_matches q (take (k - ?i) ?rest)" if "?i < k" "k \<le> length input" for q k
      proof -
        have "\<not> ?P (k - ?i)"
          using None that unfolding find_None_iff by (auto simp del: upt_Suc)
        then show ?thesis using any by blast
      qed
      moreover have "scan_block_patterns input = Some (None, ?i, ?i + 1)"
        using None False by (simp add: scan_block_patterns_def Let_def del: upt_Suc)
      ultimately show ?thesis using less by (auto simp: cut)
    next
      case (Some k)
      then have k: "0 < k" "k \<le> length ?rest" "?P k" "\<forall>l. k < l \<and> l \<le> length ?rest \<longrightarrow> \<not> ?P l"
        unfolding find_latest by auto
      from k(3) obtain p where p: "List.find (\<lambda>p. pattern_matches p (take k ?rest)) block_patterns = Some p"
        by (metis (mono_tags, lifting) find_None_iff list_ex_iff not_None_eq)
      then have "pattern_matches p (take k ?rest)" by (metis (mono_tags, lifting) find_Some_iff)
      moreover have "l \<le> ?i + k" if "?i < l" "l \<le> length input" "pattern_matches q (take (l - ?i) ?rest)" for q l
      proof (rule ccontr)
        assume "\<not> l \<le> ?i + k"
        then have "k < l - ?i \<and> l - ?i \<le> length ?rest" using that(2) by auto
        then have "\<not> ?P (l - ?i)" using k(4) by blast
        with any that(3) show False by blast
      qed
      moreover have "p = Pat_name \<Longrightarrow> keyword_text q \<noteq> Some (take k ?rest)" for q
        using find_name_last [of "take k ?rest" q] p by blast
      moreover have "scan_block_patterns input = Some (Some p, ?i, ?i + k)"
        using False Some p by (simp add: scan_block_patterns_def Let_def del: upt_Suc)
      ultimately show ?thesis using k(1,2) less by (auto simp: cut)
    qed
  qed
qed

section \<open>Printed tokens\<close>

text \<open>A token as it is written, and the tokens that are written so that they are read back.\<close>

fun token_text :: "block_kind \<Rightarrow> string" where
  "token_text Block_separator = [newline]"
| "token_text Block_equals = ''=''"
| "token_text Block_import = ''import''"
| "token_text Block_depend = ''depend''"
| "token_text Block_plug = ''plug''"
| "token_text Block_link = ''link''"
| "token_text (Block_string s) = dquote # s @ [dquote]"
| "token_text (Block_name s) = s"

definition plain_name :: "string \<Rightarrow> bool" where
  "plain_name s \<longleftrightarrow> is_name s \<and> s \<notin> {''import'', ''depend'', ''plug'', ''link''}"

fun token_writable :: "block_kind \<Rightarrow> bool" where
  "token_writable (Block_string s) \<longleftrightarrow> dquote \<notin> set s"
| "token_writable (Block_name s) \<longleftrightarrow> plain_name s"
| "token_writable _ \<longleftrightarrow> True"

fun token_pattern :: "block_kind \<Rightarrow> block_pattern" where
  "token_pattern Block_separator = Pat_separator"
| "token_pattern Block_equals = Pat_equals"
| "token_pattern Block_import = Pat_import"
| "token_pattern Block_depend = Pat_depend"
| "token_pattern Block_plug = Pat_plug"
| "token_pattern Block_link = Pat_link"
| "token_pattern (Block_string s) = Pat_string"
| "token_pattern (Block_name s) = Pat_name"

lemma token_matches: "token_writable k \<Longrightarrow> pattern_matches (token_pattern k) (token_text k)"
  by (cases k) (auto simp: pattern_matches_def plain_name_def)

lemma token_callback: "block_callback (token_pattern k) (token_text k) = k"
  by (cases k) auto

text \<open>No text of a pattern holds a blank outside a string, and a text of a pattern begins with no blank.\<close>

lemma is_name_chars: "is_name s \<Longrightarrow> c \<in> set s \<Longrightarrow> name_part c"
  by (cases s) (auto simp: is_name_def list_all_iff name_part_def)

lemma name_part_plain: "name_part c \<Longrightarrow> \<not> is_blank c \<and> c \<noteq> dquote \<and> c \<noteq> newline \<and> c \<notin> set '',;=''"
  by (auto simp: name_part_def name_start_def is_digit_def is_blank_def dquote_def newline_def byte_of_def)

lemma keyword_name: "keyword_text p = Some s \<Longrightarrow> is_name s"
  by (cases p) (auto simp: is_name_def name_part_def name_start_def byte_of_def)

lemma pattern_text_cases:
  assumes "pattern_matches p s"
  obtains (mark) c where "s = [c]" "c = newline \<or> c \<in> set '',;=''" "p = Pat_separator \<or> p = Pat_equals"
  | (word) "is_name s" "p = Pat_name \<or> keyword_text p = Some s"
  | (string) body where "p = Pat_string" "s = dquote # body @ [dquote]" "dquote \<notin> set body"
proof (cases p)
  case Pat_string
  then have s: "length s \<ge> 2" "hd s = dquote" "last s = dquote" "dquote \<notin> set (butlast (tl s))"
    using assms by (simp_all add: pattern_matches_def)
  then obtain r where r: "s = dquote # r" "r \<noteq> []" by (cases s) (auto simp: Suc_le_eq)
  then have "r = butlast r @ [dquote]" using s(3) by (metis append_butlast_last_id last_ConsR)
  then show ?thesis using string [of "butlast r"] Pat_string r s(4) by simp
next
  case Pat_separator
  then show ?thesis using assms mark by (auto simp: pattern_matches_def)
next
  case Pat_equals
  then show ?thesis using assms mark by (auto simp: pattern_matches_def)
next
  case Pat_name
  then show ?thesis using assms word by (simp add: pattern_matches_def)
qed (use assms word keyword_name [of p s] in \<open>simp_all add: pattern_matches_def\<close>)

lemma keyword_text_in: "keyword_text p = Some v \<Longrightarrow> v \<in> {''import'', ''depend'', ''plug'', ''link''}"
  by (cases p) auto

lemma matching_ends:
  assumes k: "token_writable k" and p: "pattern_matches p (token_text k @ u)"
    and after: "u = [] \<or> is_blank (hd u)"
  shows "u = []"
proof (rule ccontr)
  assume u: "u \<noteq> []"
  then have blank: "is_blank (hd u)" "hd u \<in> set u" using after by auto
  have k_text: "token_text k \<noteq> []" using k by (cases k) (auto simp: plain_name_def is_name_def)
  show False
    using p
  proof (cases rule: pattern_text_cases)
    case (mark c)
    then have "length (token_text k) + length u = 1" by (metis length_append length_Cons list.size(3) One_nat_def)
    then show False using k_text u by (cases "token_text k"; cases u) auto
  next
    case word
    then have "name_part (hd u)" using is_name_chars blank(2) by auto
    then show False using blank(1) name_part_plain by blast
  next
    case (string body)
    show False
    proof (cases k)
      case (Block_string v)
      have "v @ dquote # u = body @ [dquote]" using string Block_string by simp
      then have "body = v @ dquote # butlast u"
        using u by (metis butlast.simps(2) butlast_append butlast_snoc list.distinct(1))
      then show False using string by simp
    next
      case (Block_name n)
      then have "name_part dquote"
        using k string is_name_chars [of n dquote] by (cases n) (auto simp: plain_name_def is_name_def)
      then show False using name_part_plain by blast
    qed (use string in \<open>auto simp: dquote_def newline_def\<close>)
  qed
qed

lemma pattern_unique:
  assumes k: "token_writable k" and p: "pattern_matches p (token_text k)"
    and first: "p = Pat_name \<Longrightarrow> keyword_text (token_pattern k) \<noteq> Some (token_text k)"
  shows "p = token_pattern k"
  using p
proof (cases rule: pattern_text_cases)
  case (mark c)
  then show ?thesis
    using k p by (cases k) (auto simp: pattern_matches_def plain_name_def is_name_def newline_def
        name_start_def byte_of_def)
next
  case word
  have names: "\<not> is_name [newline]" "\<not> is_name ''=''" "\<not> is_name (dquote # v)" for v
    by (auto simp: is_name_def name_start_def newline_def dquote_def byte_of_def)
  show ?thesis
  proof (cases "p = Pat_name")
    case True
    then show ?thesis using k word(1) first [OF True] names by (cases k) simp_all
  next
    case False
    then have "keyword_text p = Some (token_text k)" using word(2) by blast
    then show ?thesis
      using k by (cases p; simp; cases k) (auto simp: plain_name_def dquote_def newline_def)
  qed
next
  case (string body)
  then show ?thesis
    using k by (cases k) (auto simp: newline_def dquote_def plain_name_def is_name_def name_start_def byte_of_def)
qed

lemma token_text_first:
  assumes "token_writable k"
  obtains c r where "token_text k = c # r" "\<not> is_blank c"
proof -
  have "token_text k \<noteq> [] \<and> \<not> is_blank (hd (token_text k))"
    using assms name_part_plain
    by (cases k) (auto simp: plain_name_def is_name_def name_part_def is_blank_def newline_def dquote_def)
  then show thesis using that by (cases "token_text k") auto
qed

lemma block_longestD:
  assumes "block_longest scan"
  shows "scan input = None \<Longrightarrow> list_all is_blank input"
    and "scan input = Some (found, i, j) \<Longrightarrow>
      i = length (takeWhile is_blank input) \<and> i < j \<and> j \<le> length input"
    and "scan input = Some (Some p, i, j) \<Longrightarrow> pattern_matches p (drop i (take j input)) \<and>
      (\<forall>q k. i < k \<longrightarrow> k \<le> length input \<longrightarrow> pattern_matches q (drop i (take k input)) \<longrightarrow> k \<le> j) \<and>
      (p = Pat_name \<longrightarrow> (\<forall>q. keyword_text q \<noteq> Some (drop i (take j input))))"
    and "scan input = Some (None, i, j) \<Longrightarrow>
      \<forall>q k. i < k \<longrightarrow> k \<le> length input \<longrightarrow> \<not> pattern_matches q (drop i (take k input))"
  using assms [unfolded block_longest_def, rule_format, of input] by auto

lemma scan_token:
  assumes longest: "block_longest scan" and k: "token_writable k" and after: "u = [] \<or> is_blank (hd u)"
  shows "scan (CHR 0x20 # token_text k @ u) =
    Some (Some (token_pattern k), 1, Suc (length (token_text k)))"
proof -
  let ?input = "CHR 0x20 # token_text k @ u"
  obtain c r where first: "token_text k = c # r" "\<not> is_blank c" using token_text_first [OF k] .
  have skip: "length (takeWhile is_blank ?input) = 1" using first by (simp add: is_blank_def)
  have here: "pattern_matches (token_pattern k) (drop 1 (take (Suc (length (token_text k))) ?input))"
    using token_matches [OF k] by simp
  show ?thesis
  proof (cases "scan ?input")
    case None
    then show ?thesis using block_longestD(1) [OF longest None] first by simp
  next
    case (Some answer)
    then obtain found i j where scan: "scan ?input = Some (found, i, j)" by (cases answer) auto
    note ij = block_longestD(2) [OF longest scan]
    have i: "i = 1" using ij skip by simp
    show ?thesis
    proof (cases found)
      case None
      then show ?thesis
        using block_longestD(4) [OF longest scan [unfolded None i], rule_format,
            of "Suc (length (token_text k))" "token_pattern k"] here first by simp
    next
      case (Some p)
      note best = block_longestD(3) [OF longest scan [unfolded Some i]]
      have reach: "Suc (length (token_text k)) \<le> j"
        using conjunct1 [OF conjunct2 [OF best], rule_format, of "Suc (length (token_text k))"
            "token_pattern k"] here first by simp
      define u' where "u' = take (j - Suc (length (token_text k))) u"
      have cut: "drop 1 (take j ?input) = token_text k @ u'"
        using reach by (cases j) (auto simp: u'_def)
      have "u' = [] \<or> is_blank (hd u')" using after by (cases u) (auto simp: u'_def take_Cons')
      then have "u' = []" using matching_ends [OF k] best cut by metis
      then have j: "j = Suc (length (token_text k))" using ij reach by (auto simp: u'_def)
      have "p = token_pattern k"
        using best cut \<open>u' = []\<close> by (intro pattern_unique [OF k]) auto
      with scan Some i j show ?thesis by simp
    qed
  qed
qed

text \<open>Tokens written one after another, a blank before each, are read back at their places.\<close>

definition write_tokens :: "block_kind list \<Rightarrow> string" where
  "write_tokens ks = concat (map (\<lambda>k. CHR 0x20 # token_text k) ks)"

fun placed_at :: "nat \<Rightarrow> block_kind list \<Rightarrow> block_token list" where
  "placed_at i [] = []"
| "placed_at i (k # ks) =
     \<lparr>bt_kind = k, bt_range = (of_nat (i + 1), of_nat (i + 1 + length (token_text k)))\<rparr> #
     placed_at (i + 1 + length (token_text k)) ks"

lemma write_tokens_Cons: "write_tokens (k # ks) = CHR 0x20 # token_text k @ write_tokens ks"
  by (simp add: write_tokens_def)

lemma block_loop_written:
  assumes longest: "block_longest scan"
  shows "list_all token_writable ks \<Longrightarrow> drop i interior = write_tokens ks \<Longrightarrow> i \<le> length interior \<Longrightarrow>
    block_loop scan interior i tokens = Some (tokens @ placed_at i ks, [])"
proof (induction ks arbitrary: i tokens)
  case Nil
  have "scan [] = None"
    using block_longestD(2) [OF longest, of "[]"] by (cases "scan []") fastforce+
  with Nil show ?case by (subst block_loop.simps) (simp add: write_tokens_def)
next
  case (Cons k ks)
  let ?len = "length (token_text k)"
  have rest: "drop i interior = CHR 0x20 # token_text k @ write_tokens ks"
    using Cons.prems(2) by (simp add: write_tokens_Cons)
  have scan: "scan (drop i interior) = Some (Some (token_pattern k), 1, Suc ?len)"
    unfolding rest using Cons.prems(1)
    by (intro scan_token [OF longest]) (cases ks; simp add: write_tokens_def is_blank_def)+
  have lexeme: "drop (i + 1) (take (i + Suc ?len) interior) = token_text k"
  proof -
    have "drop (i + 1) (take (i + Suc ?len) interior) = drop 1 (take (Suc ?len) (drop i interior))"
      by (simp add: drop_take)
    then show ?thesis by (simp add: rest)
  qed
  have next_rest: "drop (i + Suc ?len) interior = write_tokens ks"
  proof -
    have "drop (i + Suc ?len) interior = drop (Suc ?len) (drop i interior)" by (simp add: add.commute)
    then show ?thesis by (simp add: rest)
  qed
  have "i + Suc ?len \<le> length interior"
    using arg_cong [OF rest, of length] Cons.prems(3) by simp
  then show ?case
    using Cons.IH [OF _ next_rest] Cons.prems(1) scan lexeme
    by (subst block_loop.simps) (simp add: token_callback)
qed

lemma tokenize_written:
  assumes "block_longest scan" and "list_all token_writable ks"
  shows "block_tokenize scan (write_tokens ks) = Some (placed_at 0 ks, [])"
  using block_loop_written [OF assms, of 0 "write_tokens ks" "[]"] by (simp add: block_tokenize_def)

text \<open>
  The lexer returns on every text, with tokens inside it, names spelled as names, and at most one
  error, also inside it.
\<close>

definition tokens_inside :: "nat \<Rightarrow> block_token list \<Rightarrow> bool" where
  "tokens_inside n tokens \<longleftrightarrow>
     (\<forall>t \<in> set tokens. unat (fst (bt_range t)) < unat (snd (bt_range t)) \<and> unat (snd (bt_range t)) \<le> n \<and>
        (\<forall>name. bt_kind t = Block_name name \<longrightarrow> is_name name))"

lemma callback_name: "block_callback p s = Block_name name \<Longrightarrow> pattern_matches p s \<Longrightarrow> is_name name"
  by (cases p) (auto simp: pattern_matches_def)

lemma block_loop_inside:
  assumes longest: "block_longest scan" and small: "length interior < 2 ^ 32"
  shows "i \<le> length interior \<Longrightarrow> tokens_inside (length interior) tokens \<Longrightarrow>
    \<exists>tokens' errors. block_loop scan interior i tokens = Some (tokens', errors) \<and>
      tokens_inside (length interior) tokens' \<and> length errors \<le> 1 \<and>
      (\<forall>e \<in> set errors. unat (be_offset e) < length interior)"
proof (induction "length interior - i" arbitrary: i tokens rule: less_induct)
  case less
  show ?case
  proof (cases "scan (drop i interior)")
    case None
    then show ?thesis using less.prems by (subst block_loop.simps) simp
  next
    case (Some answer)
    then obtain found a b where scan: "scan (drop i interior) = Some (found, a, b)" by (cases answer) auto
    note ab = block_longestD(2) [OF longest scan]
    then have b: "i + b \<le> length interior" "a < b" by auto
    have word: "unat (of_nat n :: u32) = n" if "n \<le> length interior" for n
      using that small by (simp add: unat_of_nat_small)
    show ?thesis
    proof (cases found)
      case None
      then show ?thesis
        using scan less.prems b word [of "i + a"]
        by (subst block_loop.simps) (auto simp: unexpected_char_def)
    next
      case (Some p)
      define token where "token = \<lparr>bt_kind = block_callback p (drop (i + a) (take (i + b) interior)),
        bt_range = (of_nat (i + a), of_nat (i + b))\<rparr>"
      have "drop (i + a) (take (i + b) interior) = drop a (take b (drop i interior))"
        by (simp add: drop_take add.commute)
      then have "pattern_matches p (drop (i + a) (take (i + b) interior))"
        using block_longestD(3) [OF longest scan [unfolded Some]] by simp
      then have "tokens_inside (length interior) (tokens @ [token])"
        using less.prems(2) b word [of "i + a"] word [of "i + b"] callback_name
        by (auto simp: tokens_inside_def token_def)
      moreover have "length interior - (i + b) < length interior - i" using b by simp
      ultimately show ?thesis
        using less.hyps [of "i + b" "tokens @ [token]"] b scan Some
        by (subst block_loop.simps) (simp add: token_def)
    qed
  qed
qed

lemma tokenize_inside:
  assumes "block_longest scan" and "length interior < 2 ^ 32"
  obtains tokens errors where "block_tokenize scan interior = Some (tokens, errors)"
    "tokens_inside (length interior) tokens" "length errors \<le> 1"
    "\<forall>e \<in> set errors. unat (be_offset e) < length interior"
  using block_loop_inside [OF assms, of 0 "[]"] by (auto simp: block_tokenize_def tokens_inside_def)

end
