(* ===== verification/Block_Parse.thy ===== *)
theory Block_Parse
  imports Block_Lex
begin

text \<open>
  The parser of a directive block (\<open>lichen-preprocess/src/parse.rs\<close>). The index the code moves over
  the tokens is the list of the tokens from it on; \<open>stop\<close> is the end of the last token of all, where
  a failure at the end of the block is placed.
\<close>

section \<open>Directives\<close>

datatype directive =
    Import (dir_name: string) string
  | Link (dir_name: string) string
  | Metadata (dir_name: string) string
  | Depend string (dir_name: string) "string option" "string option" "string option" "string option"
      "string option" bool
  | Plug string (dir_name: string) "string option" "string option" "string option" "string option"
      "string option"

record located_directive =
  ld_directive :: directive
  ld_offset :: u32

type_synonym parse_failure = "u32 \<times> string"

type_synonym 'a parsed = "('a \<times> block_token list, parse_failure list) res"

text \<open>The locals of an option loop.\<close>

record dep_options =
  op_rev :: "string option"
  op_branch :: "string option"
  op_tag :: "string option"
  op_package :: "string option"
  op_sub :: "string option"
  op_plugin :: bool

definition no_options :: dep_options where
  "no_options = \<lparr>op_rev = None, op_branch = None, op_tag = None, op_package = None, op_sub = None,
     op_plugin = False\<rparr>"

section \<open>The parser\<close>

definition err_at :: "block_token list \<Rightarrow> u32 \<Rightarrow> string \<Rightarrow> parse_failure" where
  "err_at rest stop message = (case rest of t # _ \<Rightarrow> fst (bt_range t) | [] \<Rightarrow> stop, message)"

definition found_text :: "block_kind option \<Rightarrow> string" where
  "found_text k = (case k of Some k \<Rightarrow> describe_block k | None \<Rightarrow> ''the end of the block'')"

definition next_kind :: "block_token list \<Rightarrow> block_kind option" where
  "next_kind rest = (case rest of t # _ \<Rightarrow> Some (bt_kind t) | [] \<Rightarrow> None)"

definition expect_string :: "block_token list \<Rightarrow> u32 \<Rightarrow> string \<Rightarrow> string parsed" where
  "expect_string rest stop expected =
     (case next_kind rest of
        Some (Block_string v) \<Rightarrow> Ok (v, tl rest)
      | k \<Rightarrow> Err [err_at rest stop (expected @ '', found '' @ found_text k)])"

definition expect_string_after_eq :: "block_token list \<Rightarrow> u32 \<Rightarrow> string \<Rightarrow> string parsed" where
  "expect_string_after_eq rest stop keyword =
     (if next_kind rest \<noteq> Some Block_equals
      then Err [err_at rest stop (''expected '' @ quoted ''='' @ '' after '' @ keyword)]
      else expect_string (tl rest) stop (''expected a string after '' @ quoted (keyword @ '' ='')))"

text \<open>The options that take a value, by their keyword.\<close>

definition set_rev where "set_rev v opts = opts\<lparr>op_rev := Some v\<rparr>"
definition set_branch where "set_branch v opts = opts\<lparr>op_branch := Some v\<rparr>"
definition set_tag where "set_tag v opts = opts\<lparr>op_tag := Some v\<rparr>"
definition set_package where "set_package v opts = opts\<lparr>op_package := Some v\<rparr>"
definition set_sub where "set_sub v opts = opts\<lparr>op_sub := Some v\<rparr>"

definition value_option :: "string \<Rightarrow> (string \<Rightarrow> dep_options \<Rightarrow> dep_options) option" where
  "value_option keyword =
     (if keyword = ''rev'' then Some set_rev
      else if keyword = ''branch'' then Some set_branch
      else if keyword = ''tag'' then Some set_tag
      else if keyword = ''package'' then Some set_package
      else if keyword = ''sub'' then Some set_sub
      else None)"

lemma res_bind_cong [fundef_cong]:
  "r = r' \<Longrightarrow> (\<And>a. r' = Ok a \<Longrightarrow> f a = g a) \<Longrightarrow> res_bind r f = res_bind r' g"
  by (cases r') auto

lemma expect_string_shorter:
  "expect_string rest stop e = Ok (v, rest') \<Longrightarrow> length rest' < length rest"
  by (cases rest) (auto simp: expect_string_def next_kind_def split: option.splits block_kind.splits)

lemma expect_string_after_eq_shorter:
  "expect_string_after_eq rest stop k = Ok (v, rest') \<Longrightarrow> length rest' < length rest"
  by (cases rest)
    (auto simp: expect_string_after_eq_def next_kind_def dest!: expect_string_shorter split: if_splits)

function depend_options :: "block_token list \<Rightarrow> u32 \<Rightarrow> dep_options \<Rightarrow> dep_options parsed" where
  "depend_options rest stop opts =
     (case rest of
        [] \<Rightarrow> Ok (opts, [])
      | t # ts \<Rightarrow>
          (case bt_kind t of
             Block_separator \<Rightarrow> Ok (opts, rest)
           | Block_name keyword \<Rightarrow>
               (case value_option keyword of
                  Some assign \<Rightarrow>
                    res_bind (expect_string_after_eq ts stop keyword) (\<lambda>(v, ts).
                      depend_options ts stop (assign v opts))
                | None \<Rightarrow>
                    if keyword = ''plugin'' then depend_options ts stop (opts\<lparr>op_plugin := True\<rparr>)
                    else Err [err_at rest stop (''unknown depend option '' @ quoted keyword)])
           | k \<Rightarrow> Err [err_at rest stop
               (''expected a depend option (rev/branch/tag/package/sub/plugin), found '' @ describe_block k)]))"
  by pat_completeness auto

termination
  by (relation "measure (\<lambda>(rest, stop, opts). length rest)") (auto dest: expect_string_after_eq_shorter)

function plug_options :: "block_token list \<Rightarrow> u32 \<Rightarrow> dep_options \<Rightarrow> dep_options parsed" where
  "plug_options rest stop opts =
     (case rest of
        [] \<Rightarrow> Ok (opts, [])
      | t # ts \<Rightarrow>
          (case bt_kind t of
             Block_separator \<Rightarrow> Ok (opts, rest)
           | Block_name keyword \<Rightarrow>
               (case value_option keyword of
                  Some assign \<Rightarrow>
                    res_bind (expect_string_after_eq ts stop keyword) (\<lambda>(v, ts).
                      plug_options ts stop (assign v opts))
                | None \<Rightarrow> Err [err_at rest stop (''unknown plug option '' @ quoted keyword)])
           | k \<Rightarrow> Err [err_at rest stop
               (''expected a plug option (rev/branch/tag/package/sub), found '' @ describe_block k)]))"
  by pat_completeness auto

termination
  by (relation "measure (\<lambda>(rest, stop, opts). length rest)") (auto dest: expect_string_after_eq_shorter)

declare depend_options.simps [simp del] plug_options.simps [simp del]

definition parse_depend :: "block_token list \<Rightarrow> u32 \<Rightarrow> string \<Rightarrow> directive parsed" where
  "parse_depend rest stop name =
     res_bind (expect_string rest stop ''expected a url after depend'') (\<lambda>(url, rest).
     res_bind (depend_options rest stop no_options) (\<lambda>(opts, rest).
       Ok (Depend url name (op_rev opts) (op_branch opts) (op_tag opts) (op_package opts) (op_sub opts)
             (op_plugin opts), rest)))"

definition parse_plugin :: "block_token list \<Rightarrow> u32 \<Rightarrow> string \<Rightarrow> directive parsed" where
  "parse_plugin rest stop name =
     res_bind (expect_string rest stop ''expected a url after plug'') (\<lambda>(url, rest).
     res_bind (plug_options rest stop no_options) (\<lambda>(opts, rest).
       Ok (Plug url name (op_rev opts) (op_branch opts) (op_tag opts) (op_package opts) (op_sub opts), rest)))"

text \<open>The right-hand side of a statement, after its name and the equals sign.\<close>

definition parse_value :: "block_token list \<Rightarrow> u32 \<Rightarrow> string \<Rightarrow> directive parsed" where
  "parse_value rest stop name =
     (case next_kind rest of
        Some Block_import \<Rightarrow>
          res_bind (expect_string (tl rest) stop ''expected a path after import'') (\<lambda>(path, rest).
            Ok (Import name path, rest))
      | Some Block_link \<Rightarrow>
          res_bind (expect_string (tl rest) stop ''expected a path after link'') (\<lambda>(path, rest).
            Ok (Link name path, rest))
      | Some Block_depend \<Rightarrow> parse_depend (tl rest) stop name
      | Some Block_plug \<Rightarrow> parse_plugin (tl rest) stop name
      | Some (Block_string v) \<Rightarrow> Ok (Metadata name v, tl rest)
      | k \<Rightarrow> Err [err_at rest stop (''expected a value, found '' @ found_text k)])"

lemma depend_options_shorter:
  "depend_options rest stop opts = Ok (opts', rest') \<Longrightarrow> length rest' \<le> length rest"
proof (induction rest stop opts rule: depend_options.induct)
  case (1 rest stop opts)
  show ?case
    using 1 by (subst (asm) (3) depend_options.simps)
      (fastforce dest: expect_string_after_eq_shorter split: list.splits block_kind.splits option.splits if_splits)
qed

lemma plug_options_shorter:
  "plug_options rest stop opts = Ok (opts', rest') \<Longrightarrow> length rest' \<le> length rest"
proof (induction rest stop opts rule: plug_options.induct)
  case (1 rest stop opts)
  show ?case
    using 1 by (subst (asm) (2) plug_options.simps)
      (fastforce dest: expect_string_after_eq_shorter split: list.splits block_kind.splits option.splits)
qed

lemma parse_value_shorter:
  "parse_value rest stop name = Ok (d, rest') \<Longrightarrow> length rest' \<le> length rest"
  by (cases rest)
    (fastforce simp: parse_value_def parse_depend_def parse_plugin_def next_kind_def
      dest: expect_string_shorter depend_options_shorter plug_options_shorter
      split: option.splits block_kind.splits)+

function parse_loop :: "block_token list \<Rightarrow> u32 \<Rightarrow> located_directive list \<Rightarrow>
    (located_directive list, parse_failure list) res" where
  "parse_loop rest stop out =
     (case rest of
        [] \<Rightarrow> Ok out
      | t # ts \<Rightarrow>
          (case bt_kind t of
             Block_separator \<Rightarrow> parse_loop ts stop out
           | Block_name name \<Rightarrow>
               if next_kind ts \<noteq> Some Block_equals
               then Err [err_at ts stop (''expected '' @ quoted ''='')]
               else res_bind (parse_value (tl ts) stop name) (\<lambda>(d, rest).
                 parse_loop rest stop (out @ [\<lparr>ld_directive = d, ld_offset = fst (bt_range t)\<rparr>]))
           | k \<Rightarrow> Err [(fst (bt_range t), ''expected a name, found '' @ describe_block k)]))"
  by pat_completeness auto

termination
  by (relation "measure (\<lambda>(rest, stop, out). length rest)") (auto dest!: parse_value_shorter)

declare parse_loop.simps [simp del]

definition block_stop :: "block_token list \<Rightarrow> u32" where
  "block_stop tokens = (if tokens = [] then 0 else snd (bt_range (last tokens)))"

definition parse_block :: "block_token list \<Rightarrow> (located_directive list, parse_failure list) res" where
  "parse_block tokens = parse_loop tokens (block_stop tokens) []"

section \<open>Where the parser fails and what it leaves\<close>

text \<open>
  A parser leaves a suffix of its tokens or answers one failure, placed at one of the tokens or at the
  end of the block.
\<close>

definition failure_inside :: "block_token list \<Rightarrow> u32 \<Rightarrow> parse_failure list \<Rightarrow> bool" where
  "failure_inside rest stop failures \<longleftrightarrow>
     (\<exists>offset message. failures = [(offset, message)] \<and>
        (offset = stop \<or> (\<exists>t \<in> set rest. offset = fst (bt_range t))))"

definition parser_ends :: "block_token list \<Rightarrow> u32 \<Rightarrow> 'a parsed \<Rightarrow> bool" where
  "parser_ends rest stop r \<longleftrightarrow>
     (case r of Ok (a, rest') \<Rightarrow> suffix rest' rest | Err failures \<Rightarrow> failure_inside rest stop failures
      | Panic \<Rightarrow> False)"

lemma failure_inside_mono: "failure_inside rest' stop fs \<Longrightarrow> suffix rest' rest \<Longrightarrow> failure_inside rest stop fs"
  unfolding failure_inside_def using set_mono_suffix by blast

lemma parser_ends_suffix: "parser_ends rest' stop r \<Longrightarrow> suffix rest' rest \<Longrightarrow> parser_ends rest stop r"
  by (auto simp: parser_ends_def failure_inside_mono split: res.splits intro: suffix_order.trans)

lemma parser_ends_bind:
  assumes "parser_ends rest stop r" and "\<And>a rest'. r = Ok (a, rest') \<Longrightarrow> parser_ends rest' stop (f (a, rest'))"
  shows "parser_ends rest stop (res_bind r f)"
proof (cases r)
  case (Ok p)
  then obtain a rest' where ok: "r = Ok (a, rest')" by (cases p) auto
  then have "suffix rest' rest" using assms(1) by (simp add: parser_ends_def)
  then show ?thesis using parser_ends_suffix [OF assms(2) [OF ok]] ok by simp
qed (use assms in \<open>auto simp: parser_ends_def\<close>)

lemma parser_ends_err_at [simp]: "parser_ends rest stop (Err [err_at rest stop m])"
  by (cases rest) (auto simp: parser_ends_def failure_inside_def err_at_def)

lemma parser_ends_Ok [simp]: "parser_ends rest stop (Ok (a, rest')) \<longleftrightarrow> suffix rest' rest"
  by (simp add: parser_ends_def)

lemma suffix_tl_self [simp]: "suffix (tl rest) rest"
  by (cases rest) (auto simp: suffix_ConsI)

lemma expect_string_ends: "parser_ends rest stop (expect_string rest stop e)"
  by (auto simp: expect_string_def split: option.split block_kind.split)

lemma expect_string_after_eq_ends: "parser_ends rest stop (expect_string_after_eq rest stop k)"
  using parser_ends_suffix [OF expect_string_ends suffix_tl_self] by (simp add: expect_string_after_eq_def)

lemma depend_options_ends: "parser_ends rest stop (depend_options rest stop opts)"
proof (induction rest stop opts rule: depend_options.induct)
  case (1 rest stop opts)
  show ?case
  proof (cases rest)
    case (Cons t ts)
    have tail: "parser_ends (t # ts) stop r" if "parser_ends ts stop r" for r :: "dep_options parsed"
      using that parser_ends_suffix by (metis list.sel(3) suffix_tl_self)
    show ?thesis
      using 1 Cons
      by (subst depend_options.simps)
        (auto split: block_kind.split option.split intro!: tail parser_ends_bind [OF expect_string_after_eq_ends])
  qed (simp add: depend_options.simps)
qed

lemma plug_options_ends: "parser_ends rest stop (plug_options rest stop opts)"
proof (induction rest stop opts rule: plug_options.induct)
  case (1 rest stop opts)
  show ?case
  proof (cases rest)
    case (Cons t ts)
    have tail: "parser_ends (t # ts) stop r" if "parser_ends ts stop r" for r :: "dep_options parsed"
      using that parser_ends_suffix by (metis list.sel(3) suffix_tl_self)
    show ?thesis
      using 1 Cons
      by (subst plug_options.simps)
        (auto split: block_kind.split option.split intro!: tail parser_ends_bind [OF expect_string_after_eq_ends])
  qed (simp add: plug_options.simps)
qed

lemma parse_value_ends: "parser_ends rest stop (parse_value rest stop name)"
proof -
  have tail: "parser_ends rest stop r" if "parser_ends (tl rest) stop r" for r :: "directive parsed"
    using that parser_ends_suffix by (metis suffix_tl_self)
  show ?thesis
    unfolding parse_value_def parse_depend_def parse_plugin_def
    by (auto split: option.split block_kind.split prod.split intro!: tail parser_ends_bind [OF expect_string_ends]
        parser_ends_bind [OF depend_options_ends] parser_ends_bind [OF plug_options_ends])
qed

lemma parse_value_name: "parse_value rest stop name = Ok (d, rest') \<Longrightarrow> dir_name d = name"
  by (auto simp: parse_value_def parse_depend_def parse_plugin_def split: option.splits block_kind.splits)

text \<open>Every directive is placed at the token of its name.\<close>

definition from_token :: "block_token list \<Rightarrow> located_directive \<Rightarrow> bool" where
  "from_token rest located \<longleftrightarrow>
     (\<exists>t \<in> set rest. bt_kind t = Block_name (dir_name (ld_directive located)) \<and>
        ld_offset located = fst (bt_range t))"

lemma parse_loop_ends:
  "case parse_loop rest stop out of
     Ok located \<Rightarrow> \<forall>l \<in> set located. l \<in> set out \<or> from_token rest l
   | Err failures \<Rightarrow> failure_inside rest stop failures
   | Panic \<Rightarrow> False"
proof (induction rest stop out rule: parse_loop.induct)
  case (1 rest stop out)
  show ?case
  proof (cases rest)
    case Nil
    then show ?thesis by (simp add: parse_loop.simps)
  next
    case (Cons t ts)
    have grow: "from_token ts l \<Longrightarrow> from_token rest l" "failure_inside ts stop fs \<Longrightarrow> failure_inside rest stop fs"
      for l fs using Cons failure_inside_mono [of ts stop fs rest] by (auto simp: from_token_def suffix_ConsI)
    show ?thesis
    proof (cases "bt_kind t")
      case Block_separator
      then show ?thesis
        using 1(1) [OF Cons] grow Cons by (subst parse_loop.simps) (auto split: res.splits)
    next
      case (Block_name name)
      show ?thesis
      proof (cases "next_kind ts = Some Block_equals")
        case False
        then show ?thesis
          using Cons Block_name grow(2) [of "[err_at ts stop (''expected '' @ quoted ''='')]"]
            parser_ends_err_at [of ts stop "''expected '' @ quoted ''=''"]
          by (subst parse_loop.simps) (simp add: parser_ends_def)
      next
        case True
        note ends = parser_ends_suffix [OF parse_value_ends suffix_tl_self, of ts stop name]
        show ?thesis
        proof (cases "parse_value (tl ts) stop name")
          case (Ok p)
          then obtain d rest' where parsed: "parse_value (tl ts) stop name = Ok (d, rest')" by (cases p) auto
          then have sub: "suffix rest' ts" using ends by simp
          let ?l = "\<lparr>ld_directive = d, ld_offset = fst (bt_range t)\<rparr>"
          have "from_token rest ?l"
            using Cons Block_name parse_value_name [OF parsed] by (auto simp: from_token_def)
          moreover have "from_token rest' l \<Longrightarrow> from_token rest l" for l
            using set_mono_suffix [OF sub] grow(1) by (auto simp: from_token_def)
          moreover have "failure_inside rest' stop fs \<Longrightarrow> failure_inside rest stop fs" for fs
            using failure_inside_mono [OF _ sub] grow(2) by blast
          moreover have "case parse_loop rest' stop (out @ [?l]) of
              Ok located \<Rightarrow> \<forall>l \<in> set located. l \<in> set (out @ [?l]) \<or> from_token rest' l
            | Err failures \<Rightarrow> failure_inside rest' stop failures | Panic \<Rightarrow> False"
            using 1(2) [OF Cons Block_name _ parsed refl] True by simp
          moreover have "parse_loop rest stop out = parse_loop rest' stop (out @ [?l])"
            using Cons Block_name True parsed by (subst parse_loop.simps) simp
          ultimately show ?thesis by (auto split: res.splits)
        next
          case (Err failures)
          then have "parse_loop rest stop out = Err failures"
            using Cons Block_name True by (subst parse_loop.simps) simp
          then show ?thesis using ends Err grow(2) by (simp add: parser_ends_def)
        next
          case Panic
          then show ?thesis using ends by (simp add: parser_ends_def)
        qed
      qed
    qed (use Cons in \<open>auto simp: parse_loop.simps failure_inside_def\<close>)
  qed
qed

end
