(* ===== verification/Preprocess.thy ===== *)
theory Preprocess
  imports Block_Parse
begin

text \<open>
  The preprocessor (\<open>lichen-preprocess/src/lib.rs\<close>): the leading block of a source is cut out, its
  directives are read, the imports resolved, and the dependencies staged.

  What the crate gets from outside is an argument: the resolver with its own state, the environment,
  and whether a directory is there. A source and a path are their bytes. \<open>None\<close> is a panic (a \<open>u32\<close>
  that overflows) or a lexer that does not return.
\<close>

section \<open>Diagnostics and what the resolver answers\<close>

record pre_diag =
  pd_span :: "span option"
  pd_message :: string

definition diag_new :: "span \<Rightarrow> string \<Rightarrow> pre_diag" where
  "diag_new span message = \<lparr>pd_span = Some span, pd_message = message\<rparr>"

definition diag_unattributed :: "string \<Rightarrow> pre_diag" where
  "diag_unattributed message = \<lparr>pd_span = None, pd_message = message\<rparr>"

record 'e resolved_package =
  rp_export :: 'e
  rp_path :: string
  rp_direct :: "(string \<times> 'e) list"

record ('r, 'e) import_resolver =
  resolve_import :: "'r \<Rightarrow> string option \<Rightarrow> string \<Rightarrow> ('e resolved_package, pre_diag) res \<times> 'r"
  register_vendored :: "'r \<Rightarrow> string \<Rightarrow> string \<Rightarrow> 'r"

record 'e resolved_import =
  ri_name :: string
  ri_span :: span
  ri_export :: 'e
  ri_path :: string
  ri_direct :: "(string \<times> 'e) list"

record link =
  lk_name :: string
  lk_path :: string
  lk_span :: span

section \<open>Dependencies\<close>

record depend =
  dp_url :: string
  dp_name :: string
  dp_rev :: "string option"
  dp_branch :: "string option"
  dp_tag :: "string option"
  dp_package :: "string option"
  dp_sub :: "string option"
  dp_plugin :: bool

definition dep_alias :: "depend \<Rightarrow> string" where
  "dep_alias d = dp_name d"

text \<open>The fields both keys append, in order, each as a hash sign, its name, an equals sign and its value.\<close>

definition dep_fields :: "depend \<Rightarrow> (string \<times> string option) list" where
  "dep_fields d = [(''rev'', dp_rev d), (''branch'', dp_branch d), (''tag'', dp_tag d),
     (''package'', dp_package d), (''sub'', dp_sub d)]"

definition push_field :: "string \<times> string option \<Rightarrow> string \<Rightarrow> string" where
  "push_field f out =
     (case snd f of None \<Rightarrow> out | Some v \<Rightarrow> out @ ''#'' @ fst f @ ''='' @ v)"

definition dep_identity :: "depend \<Rightarrow> string" where
  "dep_identity d =
     (let out = fold push_field (dep_fields d) (dep_alias d @ ''#'' @ dp_url d) in
      if dp_plugin d then out @ ''#plugin'' else out)"

definition plugin_key :: "depend \<Rightarrow> string" where
  "plugin_key d = fold push_field (dep_fields d) (dp_url d)"

definition alias_char :: "char \<Rightarrow> bool" where
  "alias_char c \<longleftrightarrow> name_part c \<or> c \<in> set ''-.''"

text \<open>
  One character at a time: a character outside ASCII is one underscore, so of its bytes only the
  first counts.
\<close>

definition sanitize_alias :: "string \<Rightarrow> string" where
  "sanitize_alias a =
     (let out = concat (map (\<lambda>c. if alias_char c then [c] else if continuation c then [] else ''_'') a) in
      if out = [] then ''dep'' else out)"

section \<open>Paths\<close>

text \<open>
  The parts of a path as \<open>std::path\<close> documents them on a system with one separator: a leading separator
  is the root, a dot is kept at the start only, empty parts are dropped.
\<close>

datatype path_part = Root_dir | Cur_dir | Parent_dir | Normal string

definition separator :: char where
  "separator = CHR 0x2F"

definition is_absolute :: "string \<Rightarrow> bool" where
  "is_absolute p \<longleftrightarrow> p \<noteq> [] \<and> hd p = separator"

fun part_of :: "string \<Rightarrow> path_part" where
  "part_of s = (if s = ''.'' then Cur_dir else if s = ''..'' then Parent_dir else Normal s)"

definition path_components :: "string \<Rightarrow> path_part list" where
  "path_components p =
     (let parts = split_on separator p in
      (if is_absolute p then [Root_dir] else if hd parts = ''.'' then [Cur_dir] else []) @
      map part_of (List.filter (\<lambda>s. s \<noteq> [] \<and> s \<noteq> ''.'') parts))"

definition path_join :: "string \<Rightarrow> string \<Rightarrow> string" where
  "path_join p q =
     (if is_absolute q then q
      else if p = [] \<or> last p = separator then p @ q
      else p @ separator # q)"

definition lichendir :: "(string \<Rightarrow> string option) \<Rightarrow> string" where
  "lichendir env =
     (case env ''LICHEN_HOME'' of
        Some home \<Rightarrow> home
      | None \<Rightarrow>
          (case (case env ''HOME'' of Some home \<Rightarrow> Some home | None \<Rightarrow> env ''USERPROFILE'') of
             Some home \<Rightarrow> path_join home ''.lichen''
           | None \<Rightarrow> ''.lichen''))"

definition SOURCES_DIR :: string where
  "SOURCES_DIR = ''sources''"

definition sources_root :: "(string \<Rightarrow> string option) \<Rightarrow> string" where
  "sources_root env = path_join (lichendir env) SOURCES_DIR"

definition sources_dir :: "(string \<Rightarrow> string option) \<Rightarrow> depend \<Rightarrow> string" where
  "sources_dir env d = path_join (sources_root env) (sanitize_alias (dep_alias d))"

definition vendored_dir :: "(string \<Rightarrow> string option) \<Rightarrow> depend \<Rightarrow> (string, string) res" where
  "vendored_dir env d =
     (let root = sources_dir env d in
      case dp_sub d of
        Some sub \<Rightarrow>
          if is_absolute sub \<or> list_ex (\<lambda>c. c = Parent_dir \<or> c = Root_dir) (path_components sub)
          then Err (''dependency '' @ quoted (dep_alias d) @ '' has a `sub` path '' @ quoted sub @
            '' that is not a relative path inside the clone'')
          else Ok (path_join root sub)
      | None \<Rightarrow> Ok root)"

section \<open>The block\<close>

definition find_str :: "string \<Rightarrow> string \<Rightarrow> nat option" where
  "find_str pat s = List.find (\<lambda>i. prefix pat (drop i s)) [0..<Suc (length s)]"

definition dashes :: string where
  "dashes = ''---''"

definition scan_block :: "string \<Rightarrow> (nat \<times> nat \<times> nat) option" where
  "scan_block raw = do {
     at \<leftarrow> find_str dashes raw;
     close \<leftarrow> find_str dashes (drop (at + 3) raw);
     let code_start = at + 3 + close + 3;
     let code_start =
       (if nth_opt raw code_start = Some newline then code_start + 1
        else if nth_opt raw code_start = Some carriage_return \<and> nth_opt raw (code_start + 1) = Some newline
        then code_start + 2
        else code_start);
     Some (at + 3, at + 3 + close, code_start) }"

definition split_block :: "string \<Rightarrow> string option \<times> string" where
  "split_block source =
     (case scan_block source of
        Some (is, ie, cs) \<Rightarrow> (Some (drop is (take ie source)), drop cs source)
      | None \<Rightarrow> (None, source))"

definition block_directives :: "block_scanner \<Rightarrow> string \<Rightarrow> located_directive list option" where
  "block_directives scan interior = do {
     (tokens, errors) \<leftarrow> block_tokenize scan interior;
     Some (if errors \<noteq> [] then [] else case parse_block tokens of Ok dirs \<Rightarrow> dirs | _ \<Rightarrow> []) }"

fun depend_of :: "directive \<Rightarrow> depend option" where
  "depend_of (Depend url name revision branch tag package sub plugin) =
     Some \<lparr>dp_url = url, dp_name = name, dp_rev = revision, dp_branch = branch, dp_tag = tag,
       dp_package = package, dp_sub = sub, dp_plugin = plugin\<rparr>"
| "depend_of (Plug url name revision branch tag package sub) =
     Some \<lparr>dp_url = url, dp_name = name, dp_rev = revision, dp_branch = branch, dp_tag = tag,
       dp_package = package, dp_sub = sub, dp_plugin = True\<rparr>"
| "depend_of _ = None"

fun metadata_of :: "directive \<Rightarrow> (string \<times> string) option" where
  "metadata_of (Metadata name v) = Some (name, v)"
| "metadata_of _ = None"

definition block_metadata :: "block_scanner \<Rightarrow> string \<Rightarrow> (string \<times> string) list option" where
  "block_metadata scan interior =
     map_option (List.map_filter (\<lambda>located. metadata_of (ld_directive located))) (block_directives scan interior)"

definition block_depends :: "block_scanner \<Rightarrow> string \<Rightarrow> depend list option" where
  "block_depends scan interior =
     map_option (List.map_filter (\<lambda>located. depend_of (ld_directive located))) (block_directives scan interior)"

section \<open>Preprocessing\<close>

record 'e preprocessed =
  pp_code :: string
  pp_code_base :: u32
  pp_imports :: "'e resolved_import list"
  pp_metadata :: "(string \<times> string) list"
  pp_depends :: "depend list"
  pp_links :: "link list"

text \<open>An offset of the interior as one of the source; an overflow of \<open>u32\<close> is a panic.\<close>

definition global_offset :: "nat \<Rightarrow> u32 \<Rightarrow> u32 option" where
  "global_offset start offset =
     (if unat (of_nat start :: u32) + unat offset < 2 ^ 32 then Some (of_nat start + offset) else None)"

text \<open>What the loop over the directives changes: the output, the diagnostics, the resolver.\<close>

type_synonym ('e, 'r) pre_state = "'e preprocessed \<times> pre_diag list \<times> 'r"

fun take_directive :: "('r, 'e) import_resolver \<Rightarrow> string option \<Rightarrow> span \<Rightarrow> directive \<Rightarrow>
    ('e, 'r) pre_state \<Rightarrow> ('e, 'r) pre_state option" where
  "take_directive rv base span (Import name path) (pp, diags, r) =
     (case resolve_import rv r base path of
        (Ok pkg, r) \<Rightarrow> Some (pp\<lparr>pp_imports := pp_imports pp @ [\<lparr>ri_name = name, ri_span = span,
            ri_export = rp_export pkg, ri_path = rp_path pkg, ri_direct = rp_direct pkg\<rparr>]\<rparr>, diags, r)
      | (Err diag, r) \<Rightarrow> Some (pp, diags @ [\<lparr>pd_span = Some span, pd_message =
            ''cannot load package '' @ quoted path @ '': '' @ pd_message diag\<rparr>], r)
      | (Panic, r) \<Rightarrow> None)"
| "take_directive rv base span (Metadata name v) (pp, diags, r) =
     Some (pp\<lparr>pp_metadata := pp_metadata pp @ [(name, v)]\<rparr>, diags, r)"
| "take_directive rv base span (Link name path) (pp, diags, r) =
     Some (pp\<lparr>pp_links := pp_links pp @ [\<lparr>lk_name = name, lk_path = path, lk_span = span\<rparr>]\<rparr>, diags, r)"
| "take_directive rv base span other (pp, diags, r) =
     Some (case depend_of other of
       Some dep \<Rightarrow> (pp\<lparr>pp_depends := pp_depends pp @ [dep]\<rparr>, diags, r)
     | None \<Rightarrow> (pp, diags, r))"

fun take_directives :: "('r, 'e) import_resolver \<Rightarrow> string option \<Rightarrow> nat list \<Rightarrow> nat \<Rightarrow>
    located_directive list \<Rightarrow> ('e, 'r) pre_state \<Rightarrow> ('e, 'r) pre_state option" where
  "take_directives rv base starts interior_start [] s = Some s"
| "take_directives rv base starts interior_start (located # dirs) s = do {
     global \<leftarrow> global_offset interior_start (ld_offset located);
     s \<leftarrow> take_directive rv base (line_col starts global) (ld_directive located) s;
     take_directives rv base starts interior_start dirs s }"

text \<open>The diagnostics of a lexer or a parser, placed in the source.\<close>

fun place_failures :: "nat list \<Rightarrow> nat \<Rightarrow> parse_failure list \<Rightarrow> pre_diag list option" where
  "place_failures starts interior_start [] = Some []"
| "place_failures starts interior_start ((offset, message) # failures) = do {
     global \<leftarrow> global_offset interior_start offset;
     diags \<leftarrow> place_failures starts interior_start failures;
     Some (diag_new (line_col starts global) message # diags) }"

definition preprocess :: "block_scanner \<Rightarrow> ('r, 'e) import_resolver \<Rightarrow> string \<Rightarrow> string option \<Rightarrow> 'r \<Rightarrow>
    ('e, 'r) pre_state option" where
  "preprocess scan rv raw base r =
     (case scan_block raw of
        None \<Rightarrow> Some (\<lparr>pp_code = raw, pp_code_base = 0, pp_imports = [], pp_metadata = [],
                  pp_depends = [], pp_links = []\<rparr>, [], r)
      | Some (interior_start, interior_end, code_start) \<Rightarrow>
          let starts = line_starts raw;
              pp = \<lparr>pp_code = drop code_start raw, pp_code_base = of_nat code_start, pp_imports = [],
                    pp_metadata = [], pp_depends = [], pp_links = []\<rparr> in
          do {
            (tokens, errors) \<leftarrow> block_tokenize scan (drop interior_start (take interior_end raw));
            diags \<leftarrow> place_failures starts interior_start (map (\<lambda>e. (be_offset e, be_message e)) errors);
            if errors \<noteq> [] then Some (pp, diags, r)
            else case parse_block tokens of
              Ok dirs \<Rightarrow> take_directives rv base starts interior_start dirs (pp, diags, r)
            | Err failures \<Rightarrow> do {
                more \<leftarrow> place_failures starts interior_start failures;
                Some (pp, diags @ more, r) }
            | Panic \<Rightarrow> None })"

section \<open>Staging\<close>

definition not_fetched :: "string \<Rightarrow> string \<Rightarrow> string" where
  "not_fetched a dir =
     ''dependency '' @ quoted a @ '' is not fetched (expected '' @ dir @ '') '' @
     [CHR 0xE2, CHR 0x80, CHR 0x94] @ '' run `lichen fetch` first''"

fun stage_loop :: "(string \<Rightarrow> string option) \<Rightarrow> (string \<Rightarrow> bool) \<Rightarrow> ('r, 'e) import_resolver \<Rightarrow> nat list \<Rightarrow> nat \<Rightarrow>
    located_directive list \<Rightarrow> pre_diag list \<times> 'r \<Rightarrow> (pre_diag list \<times> 'r) option" where
  "stage_loop env is_dir rv starts interior_start [] s = Some s"
| "stage_loop env is_dir rv starts interior_start (located # dirs) (diags, r) =
     (case depend_of (ld_directive located) of
        None \<Rightarrow> stage_loop env is_dir rv starts interior_start dirs (diags, r)
      | Some dep \<Rightarrow> do {
          global \<leftarrow> global_offset interior_start (ld_offset located);
          let span = line_col starts global;
          stage_loop env is_dir rv starts interior_start dirs
            (case vendored_dir env dep of
               Ok dir \<Rightarrow>
                 if is_dir dir then (diags, register_vendored rv r (dep_alias dep) dir)
                 else (diags @ [diag_new span (not_fetched (dep_alias dep) dir)], r)
             | Err message \<Rightarrow> (diags @ [diag_new span message], r)
             | Panic \<Rightarrow> (diags, r)) })"

definition stage_depends :: "block_scanner \<Rightarrow> (string \<Rightarrow> string option) \<Rightarrow> (string \<Rightarrow> bool) \<Rightarrow>
    ('r, 'e) import_resolver \<Rightarrow> 'r \<Rightarrow> string \<Rightarrow> (pre_diag list \<times> 'r) option" where
  "stage_depends scan env is_dir rv r source =
     (case scan_block source of
        None \<Rightarrow> Some ([], r)
      | Some (interior_start, interior_end, _) \<Rightarrow> do {
          dirs \<leftarrow> block_directives scan (drop interior_start (take interior_end source));
          stage_loop env is_dir rv (line_starts source) interior_start dirs ([], r) })"

end
