(* ===== verification/Pre_Properties.thy ===== *)
theory Pre_Properties
  imports Preprocess
begin

text \<open>
  What the preprocessor promises: directives that are written out are read back, the block is cut where
  the dashes are, every diagnostic is placed inside the source, a vendored directory stays inside its
  clone, and two dependencies of a block never share one.
\<close>

section \<open>Directives written and read back\<close>

definition option_kinds :: "string \<Rightarrow> string option \<Rightarrow> block_kind list" where
  "option_kinds keyword v =
     (case v of None \<Rightarrow> [] | Some v \<Rightarrow> [Block_name keyword, Block_equals, Block_string v])"

fun directive_kinds :: "directive \<Rightarrow> block_kind list" where
  "directive_kinds (Import name path) =
     [Block_name name, Block_equals, Block_import, Block_string path, Block_separator]"
| "directive_kinds (Link name path) =
     [Block_name name, Block_equals, Block_link, Block_string path, Block_separator]"
| "directive_kinds (Metadata name v) = [Block_name name, Block_equals, Block_string v, Block_separator]"
| "directive_kinds (Depend url name revision branch tag package sub plugin) =
     [Block_name name, Block_equals, Block_depend, Block_string url] @
     option_kinds ''rev'' revision @ option_kinds ''branch'' branch @ option_kinds ''tag'' tag @
     option_kinds ''package'' package @ option_kinds ''sub'' sub @
     (if plugin then [Block_name ''plugin''] else []) @ [Block_separator]"
| "directive_kinds (Plug url name revision branch tag package sub) =
     [Block_name name, Block_equals, Block_plug, Block_string url] @
     option_kinds ''rev'' revision @ option_kinds ''branch'' branch @ option_kinds ''tag'' tag @
     option_kinds ''package'' package @ option_kinds ''sub'' sub @ [Block_separator]"

definition directives_text :: "directive list \<Rightarrow> string" where
  "directives_text ds = write_tokens (concat (map directive_kinds ds))"

text \<open>Names that are no keyword, and strings without a double quote.\<close>

definition directive_writable :: "directive \<Rightarrow> bool" where
  "directive_writable d \<longleftrightarrow> list_all token_writable (directive_kinds d)"

abbreviation kinds :: "block_token list \<Rightarrow> block_kind list" where
  "kinds tokens \<equiv> map bt_kind tokens"

lemma next_kind_kinds [simp]: "next_kind rest = (case kinds rest of [] \<Rightarrow> None | k # _ \<Rightarrow> Some k)"
  by (cases rest) (simp_all add: next_kind_def)

lemma expect_string_kinds:
  "kinds rest = Block_string v # ks \<Longrightarrow> expect_string rest stop e = Ok (v, tl rest)"
  by (simp add: expect_string_def)

lemma expect_string_after_eq_kinds:
  "kinds rest = Block_equals # Block_string v # ks \<Longrightarrow>
    expect_string_after_eq rest stop keyword = Ok (v, tl (tl rest))"
  by (cases rest) (auto simp: expect_string_after_eq_def expect_string_kinds)

lemma value_option_simps [simp]:
  "value_option ''rev'' = Some set_rev" "value_option ''branch'' = Some set_branch"
  "value_option ''tag'' = Some set_tag" "value_option ''package'' = Some set_package"
  "value_option ''sub'' = Some set_sub" "value_option ''plugin'' = None"
  by (simp_all add: value_option_def)

definition opt_set :: "(string \<Rightarrow> dep_options \<Rightarrow> dep_options) \<Rightarrow> string option \<Rightarrow> dep_options \<Rightarrow> dep_options" where
  "opt_set assign v opts = (case v of None \<Rightarrow> opts | Some v \<Rightarrow> assign v opts)"

lemma depend_option_step:
  assumes "kinds rest = option_kinds keyword v @ ks" and "value_option keyword = Some assign"
  shows "\<exists>rest'. kinds rest' = ks \<and>
    depend_options rest stop opts = depend_options rest' stop (opt_set assign v opts)"
proof (cases v)
  case (Some w)
  then obtain t ts where rest: "rest = t # ts" "bt_kind t = Block_name keyword"
    "kinds ts = Block_equals # Block_string w # ks"
    using assms(1) by (cases rest) (auto simp: option_kinds_def)
  then have "depend_options rest stop opts = depend_options (tl (tl ts)) stop (assign w opts)"
    using assms(2) expect_string_after_eq_kinds [OF rest(3)]
    by (subst depend_options.simps) simp
  then show ?thesis using rest(3) Some by (intro exI [of _ "tl (tl ts)"]) (simp add: opt_set_def map_tl)
qed (use assms in \<open>auto simp: option_kinds_def opt_set_def\<close>)

lemma plug_option_step:
  assumes "kinds rest = option_kinds keyword v @ ks" and "value_option keyword = Some assign"
  shows "\<exists>rest'. kinds rest' = ks \<and>
    plug_options rest stop opts = plug_options rest' stop (opt_set assign v opts)"
proof (cases v)
  case (Some w)
  then obtain t ts where rest: "rest = t # ts" "bt_kind t = Block_name keyword"
    "kinds ts = Block_equals # Block_string w # ks"
    using assms(1) by (cases rest) (auto simp: option_kinds_def)
  then have "plug_options rest stop opts = plug_options (tl (tl ts)) stop (assign w opts)"
    using assms(2) expect_string_after_eq_kinds [OF rest(3)]
    by (subst plug_options.simps) simp
  then show ?thesis using rest(3) Some by (intro exI [of _ "tl (tl ts)"]) (simp add: opt_set_def map_tl)
qed (use assms in \<open>auto simp: option_kinds_def opt_set_def\<close>)

text \<open>What the option loops leave, from the options as they are written.\<close>

lemma opt_set_all:
  "opt_set set_sub sub (opt_set set_package package (opt_set set_tag tag
     (opt_set set_branch branch (opt_set set_rev revision no_options)))) =
   \<lparr>op_rev = revision, op_branch = branch, op_tag = tag, op_package = package, op_sub = sub, op_plugin = False\<rparr>"
  by (simp add: opt_set_def set_sub_def set_package_def set_tag_def set_branch_def set_rev_def no_options_def
      split: option.split)

definition value_kinds :: "string option \<Rightarrow> string option \<Rightarrow> string option \<Rightarrow> string option \<Rightarrow> string option \<Rightarrow> block_kind list" where
  "value_kinds revision branch tag package sub =
     option_kinds ''rev'' revision @ option_kinds ''branch'' branch @ option_kinds ''tag'' tag @
     option_kinds ''package'' package @ option_kinds ''sub'' sub"

lemma value_options_written:
  assumes step: "\<And>keyword v ks assign rest opts. kinds rest = option_kinds keyword v @ ks \<Longrightarrow>
      value_option keyword = Some assign \<Longrightarrow>
      \<exists>rest'. kinds rest' = ks \<and> run rest opts = run rest' (opt_set assign v opts)"
    and kinds: "kinds rest = value_kinds revision branch tag package sub @ ks"
  shows "\<exists>rest'. kinds rest' = ks \<and> run rest no_options = run rest'
    \<lparr>op_rev = revision, op_branch = branch, op_tag = tag, op_package = package, op_sub = sub, op_plugin = False\<rparr>"
proof -
  obtain r1 where r1: "kinds r1 = option_kinds ''branch'' branch @ option_kinds ''tag'' tag @
      option_kinds ''package'' package @ option_kinds ''sub'' sub @ ks"
      "run rest no_options = run r1 (opt_set set_rev revision no_options)"
    using step [OF _ value_option_simps(1), of rest revision] kinds by (auto simp: value_kinds_def)
  obtain r2 where r2: "kinds r2 = option_kinds ''tag'' tag @ option_kinds ''package'' package @
      option_kinds ''sub'' sub @ ks"
      "run r1 (opt_set set_rev revision no_options) =
        run r2 (opt_set set_branch branch (opt_set set_rev revision no_options))"
    using step [OF r1(1) value_option_simps(2)] by blast
  obtain r3 where r3: "kinds r3 = option_kinds ''package'' package @ option_kinds ''sub'' sub @ ks"
      "run r2 (opt_set set_branch branch (opt_set set_rev revision no_options)) =
        run r3 (opt_set set_tag tag (opt_set set_branch branch (opt_set set_rev revision no_options)))"
    using step [OF r2(1) value_option_simps(3)] by blast
  obtain r4 where r4: "kinds r4 = option_kinds ''sub'' sub @ ks"
      "run r3 (opt_set set_tag tag (opt_set set_branch branch (opt_set set_rev revision no_options))) =
        run r4 (opt_set set_package package
          (opt_set set_tag tag (opt_set set_branch branch (opt_set set_rev revision no_options))))"
    using step [OF r3(1) value_option_simps(4)] by blast
  obtain r5 where r5: "kinds r5 = ks"
      "run r4 (opt_set set_package package
          (opt_set set_tag tag (opt_set set_branch branch (opt_set set_rev revision no_options)))) =
        run r5 (opt_set set_sub sub (opt_set set_package package
          (opt_set set_tag tag (opt_set set_branch branch (opt_set set_rev revision no_options)))))"
    using step [OF r4(1) value_option_simps(5)] by blast
  show ?thesis using r1(2) r2(2) r3(2) r4(2) r5 opt_set_all by auto
qed

lemma depend_options_written:
  assumes "kinds rest = value_kinds revision branch tag package sub @
    (if plugin then [Block_name ''plugin''] else []) @ Block_separator # ks"
  shows "\<exists>rest'. kinds rest' = Block_separator # ks \<and> depend_options rest stop no_options =
    Ok (\<lparr>op_rev = revision, op_branch = branch, op_tag = tag, op_package = package, op_sub = sub,
      op_plugin = plugin\<rparr>, rest')"
proof -
  obtain r5 where r5: "kinds r5 = (if plugin then [Block_name ''plugin''] else []) @ Block_separator # ks"
    and run: "depend_options rest stop no_options = depend_options r5 stop
      \<lparr>op_rev = revision, op_branch = branch, op_tag = tag, op_package = package, op_sub = sub, op_plugin = False\<rparr>"
    using value_options_written [where run = "\<lambda>rest. depend_options rest stop", OF _ assms] depend_option_step
    by blast
  show ?thesis
  proof (cases plugin)
    case True
    then obtain t u us where "r5 = t # u # us" "bt_kind t = Block_name ''plugin''"
        "bt_kind u = Block_separator" "kinds (u # us) = Block_separator # ks"
      using r5 by (cases r5; cases "tl r5") auto
    then show ?thesis
      unfolding run using True
      by (subst depend_options.simps, simp) (subst depend_options.simps, simp)
  next
    case False
    then obtain t ts where "r5 = t # ts" "bt_kind t = Block_separator" using r5 by (cases r5) auto
    then show ?thesis unfolding run using False r5 by (subst depend_options.simps) simp
  qed
qed

lemma plug_options_written:
  assumes "kinds rest = value_kinds revision branch tag package sub @ Block_separator # ks"
  shows "\<exists>rest'. kinds rest' = Block_separator # ks \<and> plug_options rest stop no_options =
    Ok (\<lparr>op_rev = revision, op_branch = branch, op_tag = tag, op_package = package, op_sub = sub,
      op_plugin = False\<rparr>, rest')"
proof -
  obtain r5 where r5: "kinds r5 = Block_separator # ks"
    and run: "plug_options rest stop no_options = plug_options r5 stop
      \<lparr>op_rev = revision, op_branch = branch, op_tag = tag, op_package = package, op_sub = sub, op_plugin = False\<rparr>"
    using value_options_written [where run = "\<lambda>rest. plug_options rest stop", OF _ assms] plug_option_step
    by metis
  then obtain t ts where "r5 = t # ts" "bt_kind t = Block_separator" by (cases r5) auto
  then show ?thesis unfolding run using r5 by (subst plug_options.simps) simp
qed

lemma parse_value_written:
  assumes "kinds rest = tl (tl (directive_kinds d)) @ ks"
  shows "\<exists>rest'. kinds rest' = Block_separator # ks \<and> parse_value rest stop (dir_name d) = Ok (d, rest')"
proof (cases d)
  case (Depend url name revision branch tag package sub plugin)
  then have rest: "kinds rest = Block_depend # Block_string url # value_kinds revision branch tag package sub @
      (if plugin then [Block_name ''plugin''] else []) @ Block_separator # ks"
    using assms by (simp add: value_kinds_def)
  then have "kinds (tl (tl rest)) = value_kinds revision branch tag package sub @
      (if plugin then [Block_name ''plugin''] else []) @ Block_separator # ks" by (simp add: map_tl)
  from depend_options_written [OF this, where stop = stop] obtain rest' where "kinds rest' = Block_separator # ks"
    "depend_options (tl (tl rest)) stop no_options = Ok (\<lparr>op_rev = revision, op_branch = branch,
      op_tag = tag, op_package = package, op_sub = sub, op_plugin = plugin\<rparr>, rest')" by (elim exE conjE)
  then show ?thesis
    using rest Depend expect_string_kinds [of "tl rest" url] by (simp add: parse_value_def parse_depend_def map_tl)
next
  case (Plug url name revision branch tag package sub)
  then have rest: "kinds rest = Block_plug # Block_string url # value_kinds revision branch tag package sub @
      Block_separator # ks"
    using assms by (simp add: value_kinds_def)
  then have "kinds (tl (tl rest)) = value_kinds revision branch tag package sub @ Block_separator # ks"
    by (simp add: map_tl)
  from plug_options_written [OF this, where stop = stop] obtain rest' where "kinds rest' = Block_separator # ks"
    "plug_options (tl (tl rest)) stop no_options = Ok (\<lparr>op_rev = revision, op_branch = branch,
      op_tag = tag, op_package = package, op_sub = sub, op_plugin = False\<rparr>, rest')" by (elim exE conjE)
  then show ?thesis
    using rest Plug expect_string_kinds [of "tl rest" url] by (simp add: parse_value_def parse_plugin_def map_tl)
next
  case (Import name path)
  then show ?thesis
    using assms expect_string_kinds [of "tl rest" path] by (simp add: parse_value_def map_tl)
next
  case (Link name path)
  then show ?thesis
    using assms expect_string_kinds [of "tl rest" path] by (simp add: parse_value_def map_tl)
next
  case (Metadata name v)
  then show ?thesis using assms by (simp add: parse_value_def map_tl)
qed

lemma directive_kinds_start:
  "directive_kinds d = Block_name (dir_name d) # Block_equals # tl (tl (directive_kinds d))"
  by (cases d) auto

lemma parse_loop_written:
  "kinds rest = concat (map directive_kinds ds) \<Longrightarrow>
    \<exists>located. parse_loop rest stop out = Ok (out @ located) \<and> map ld_directive located = ds"
proof (induction ds arbitrary: rest out)
  case Nil
  then show ?case by (subst parse_loop.simps) simp
next
  case (Cons d ds)
  have "kinds rest = Block_name (dir_name d) # Block_equals # tl (tl (directive_kinds d)) @ concat (map directive_kinds ds)"
    using Cons.prems directive_kinds_start [of d] by (metis append_Cons concat.simps(2) list.simps(9))
  then obtain t u ts where rest: "rest = t # u # ts" "bt_kind t = Block_name (dir_name d)" "bt_kind u = Block_equals"
    and ts: "kinds ts = tl (tl (directive_kinds d)) @ concat (map directive_kinds ds)"
    by (cases rest; cases "tl rest") auto
  obtain v vs where parsed: "parse_value ts stop (dir_name d) = Ok (d, v # vs)"
    and v: "bt_kind v = Block_separator" "kinds vs = concat (map directive_kinds ds)"
    using parse_value_written [OF ts, of stop] by auto
  let ?out = "out @ [\<lparr>ld_directive = d, ld_offset = fst (bt_range t)\<rparr>]"
  obtain located where "parse_loop vs stop ?out = Ok (?out @ located)" "map ld_directive located = ds"
    using Cons.IH [OF v(2)] by blast
  moreover have "parse_loop (v # vs) stop ?out = parse_loop vs stop ?out"
    using v(1) by (subst parse_loop.simps) simp
  moreover have "parse_loop rest stop out = parse_loop (v # vs) stop ?out"
    using rest parsed by (subst parse_loop.simps) simp
  ultimately show ?case
    by (intro exI [of _ "\<lparr>ld_directive = d, ld_offset = fst (bt_range t)\<rparr> # located"]) simp
qed

lemma kinds_placed: "kinds (placed_at i ks) = ks"
  by (induction ks arbitrary: i) auto

lemma written_parsed:
  assumes "block_longest scan" and "list_all directive_writable ds"
  obtains tokens located where "block_tokenize scan (directives_text ds) = Some (tokens, [])"
    "parse_block tokens = Ok located" "map ld_directive located = ds"
proof -
  let ?ks = "concat (map directive_kinds ds)"
  have "list_all token_writable ?ks" using assms(2) by (induction ds) (auto simp: directive_writable_def)
  then have "block_tokenize scan (directives_text ds) = Some (placed_at 0 ?ks, [])"
    unfolding directives_text_def by (rule tokenize_written [OF assms(1)])
  moreover obtain located where "parse_block (placed_at 0 ?ks) = Ok located" "map ld_directive located = ds"
    using parse_loop_written [OF kinds_placed, of 0 ds "block_stop (placed_at 0 ?ks)" "[]"] by (auto simp: parse_block_def)
  ultimately show thesis by (rule that)
qed

section \<open>Cutting the block\<close>

lemma find_str_Some:
  "find_str pat s = Some i \<longleftrightarrow> i \<le> length s \<and> prefix pat (drop i s) \<and> (\<forall>j < i. \<not> prefix pat (drop j s))"
proof
  assume "find_str pat s = Some i"
  then obtain k where "k < Suc (length s)" "i = [0..<Suc (length s)] ! k" "prefix pat (drop i s)"
    "\<forall>j < k. \<not> prefix pat (drop ([0..<Suc (length s)] ! j) s)"
    by (auto simp: find_str_def find_Some_iff simp del: upt_Suc)
  then show "i \<le> length s \<and> prefix pat (drop i s) \<and> (\<forall>j < i. \<not> prefix pat (drop j s))"
    by (auto simp: nth_upt simp del: upt_Suc)
next
  assume "i \<le> length s \<and> prefix pat (drop i s) \<and> (\<forall>j < i. \<not> prefix pat (drop j s))"
  then show "find_str pat s = Some i"
    unfolding find_str_def find_Some_iff by (intro exI [of _ i]) (simp add: nth_upt del: upt_Suc)
qed

lemma find_str_None: "find_str pat s = None \<longleftrightarrow> (\<forall>i \<le> length s. \<not> prefix pat (drop i s))"
  by (auto simp: find_str_def find_None_iff simp del: upt_Suc)

text \<open>A text that holds no three dashes, and no dash at its end.\<close>

definition dash_free :: "string \<Rightarrow> bool" where
  "dash_free s \<longleftrightarrow> find_str dashes s = None \<and> (s = [] \<or> last s \<noteq> CHR ''-'')"

lemma dashes_prefix: "prefix dashes s \<longleftrightarrow> 3 \<le> length s \<and> (\<forall>k < 3. s ! k = CHR ''-'')"
  by (cases s; cases "tl s"; cases "tl (tl s)") (auto simp: dashes_def numeral_3_eq_3 less_Suc_eq)

lemma dashes_inside:
  assumes "prefix dashes (drop i (before @ dashes @ rest))" and "i < length before"
    and last: "before = [] \<or> last before \<noteq> CHR ''-''"
  shows "prefix dashes (drop i before)"
proof -
  have at_dash: "(before @ dashes @ rest) ! (i + k) = CHR ''-''" if "k < 3" for k
    using assms(1) that by (auto simp: dashes_prefix simp del: drop_append)
  have "i + 3 \<le> length before"
  proof (rule ccontr)
    assume "\<not> i + 3 \<le> length before"
    then have "length before - 1 - i < 3" "i + (length before - 1 - i) = length before - 1"
      using assms(2) by auto
    then have "before ! (length before - 1) = CHR ''-''"
      using at_dash [of "length before - 1 - i"] assms(2) by (simp add: nth_append split: if_splits)
    then show False using last assms(2) by (cases "before = []") (simp_all add: last_conv_nth)
  qed
  then show ?thesis using at_dash by (auto simp: dashes_prefix nth_append)
qed

lemma find_str_cut:
  assumes "dash_free before"
  shows "find_str dashes (before @ dashes @ rest) = Some (length before)"
  using assms dashes_inside [of _ before rest]
  by (auto simp: find_str_Some dash_free_def find_str_None)

text \<open>A source made of a preamble, the block between dashes, the end of its line, and the code.\<close>

definition line_end :: "string \<Rightarrow> bool" where
  "line_end eol \<longleftrightarrow> eol = [newline] \<or> eol = [carriage_return, newline]"

definition block_source :: "string \<Rightarrow> string \<Rightarrow> string \<Rightarrow> string \<Rightarrow> string" where
  "block_source before interior eol rest = before @ dashes @ interior @ dashes @ eol @ rest"

lemma scan_block_source:
  assumes "dash_free before" and "dash_free interior" and "line_end eol"
  shows "scan_block (block_source before interior eol rest) = Some (length before + 3,
    length before + 3 + length interior, length before + length interior + 6 + length eol)"
proof -
  let ?raw = "block_source before interior eol rest"
  have "find_str dashes ?raw = Some (length before)"
    unfolding block_source_def by (rule find_str_cut [OF assms(1)])
  moreover have "drop (length before + 3) ?raw = interior @ dashes @ eol @ rest"
    by (simp add: block_source_def dashes_def)
  moreover have "find_str dashes (interior @ dashes @ eol @ rest) = Some (length interior)"
    by (rule find_str_cut [OF assms(2)])
  moreover have "nth_opt ?raw (6 + (length before + length interior)) = nth_opt (eol @ rest) 0"
    "nth_opt ?raw (7 + (length before + length interior)) = nth_opt (eol @ rest) 1"
    by (simp_all add: nth_opt_def block_source_def dashes_def nth_append del: nth_opt_Some nth_opt_None)
  moreover have "nth_opt (eol @ rest) 0 = Some newline \<and> eol = [newline] \<or>
      nth_opt (eol @ rest) 0 = Some carriage_return \<and> nth_opt (eol @ rest) 1 = Some newline \<and>
      eol = [carriage_return, newline]"
    using assms(3) by (auto simp: line_end_def nth_opt_def)
  moreover have "newline \<noteq> carriage_return" by (simp add: newline_def carriage_return_def)
  ultimately show ?thesis
    unfolding scan_block_def by (auto simp: Let_def simp del: nth_opt_Some nth_opt_None)
qed

section \<open>Directives taken\<close>

text \<open>
  What the resolver answers to the imports of the directives, in their order, each asked with the state
  the one before left.
\<close>

fun import_answers :: "('r, 'e) import_resolver \<Rightarrow> string option \<Rightarrow> directive list \<Rightarrow> 'r \<Rightarrow>
    (string \<times> string \<times> ('e resolved_package, pre_diag) res) list \<times> 'r" where
  "import_answers rv base [] r = ([], r)"
| "import_answers rv base (Import name path # ds) r =
     (let (answer, r) = resolve_import rv r base path; (answers, r) = import_answers rv base ds r
      in ((name, path, answer) # answers, r))"
| "import_answers rv base (d # ds) r = import_answers rv base ds r"

fun loaded_package :: "string \<times> string \<times> ('e resolved_package, pre_diag) res \<Rightarrow>
    (string \<times> 'e \<times> string \<times> (string \<times> 'e) list) option" where
  "loaded_package (name, path, Ok pkg) = Some (name, rp_export pkg, rp_path pkg, rp_direct pkg)"
| "loaded_package _ = None"

fun load_error :: "string \<times> string \<times> ('e resolved_package, pre_diag) res \<Rightarrow> string option" where
  "load_error (name, path, Err diag) = Some (''cannot load package '' @ quoted path @ '': '' @ pd_message diag)"
| "load_error _ = None"

fun link_of :: "directive \<Rightarrow> (string \<times> string) option" where
  "link_of (Link name path) = Some (name, path)"
| "link_of _ = None"

definition import_view :: "'e resolved_import \<Rightarrow> string \<times> 'e \<times> string \<times> (string \<times> 'e) list" where
  "import_view i = (ri_name i, ri_export i, ri_path i, ri_direct i)"

definition link_view :: "link \<Rightarrow> string \<times> string" where
  "link_view l = (lk_name l, lk_path l)"

definition resolver_returns :: "('r, 'e) import_resolver \<Rightarrow> bool" where
  "resolver_returns rv \<longleftrightarrow> (\<forall>r base path. fst (resolve_import rv r base path) \<noteq> Panic)"

text \<open>A diagnostic of the source is placed at one of its offsets.\<close>

definition diag_inside :: "string \<Rightarrow> pre_diag \<Rightarrow> bool" where
  "diag_inside raw d \<longleftrightarrow>
     (\<exists>offset. unat offset \<le> length raw \<and> pd_span d = Some (line_col (line_starts raw) offset))"

lemma diag_placed:
  "unat offset \<le> length raw \<Longrightarrow>
    diag_inside raw \<lparr>pd_span = Some (line_col (line_starts raw) offset), pd_message = m\<rparr>"
  by (auto simp: diag_inside_def)

text \<open>What the directives add to a state.\<close>

definition taken :: "('r, 'e) import_resolver \<Rightarrow> string option \<Rightarrow> string \<Rightarrow> directive list \<Rightarrow>
    ('e, 'r) pre_state \<Rightarrow> ('e, 'r) pre_state \<Rightarrow> bool" where
  "taken rv base raw ds s s' \<longleftrightarrow>
     (case (s, s') of ((pp, diags, r), (pp', diags', r')) \<Rightarrow>
        let (answers, r'') = import_answers rv base ds r in
        r' = r'' \<and> pp_code pp' = pp_code pp \<and> pp_code_base pp' = pp_code_base pp \<and>
        pp_metadata pp' = pp_metadata pp @ List.map_filter metadata_of ds \<and>
        pp_depends pp' = pp_depends pp @ List.map_filter depend_of ds \<and>
        map link_view (pp_links pp') = map link_view (pp_links pp) @ List.map_filter link_of ds \<and>
        map import_view (pp_imports pp') =
          map import_view (pp_imports pp) @ List.map_filter loaded_package answers \<and>
        map pd_message diags' = map pd_message diags @ List.map_filter load_error answers \<and>
        ((\<forall>d \<in> set diags. diag_inside raw d) \<longrightarrow> (\<forall>d \<in> set diags'. diag_inside raw d)))"

lemma map_filter_Cons:
  "List.map_filter f (x # xs) = (case f x of None \<Rightarrow> [] | Some y \<Rightarrow> [y]) @ List.map_filter f xs"
  by (simp add: map_filter_simps split: option.split)

lemma taken_Nil: "taken rv base raw [] s s"
  by (cases s) (simp add: taken_def map_filter_simps)

lemma map_filter_append: "List.map_filter f (xs @ ys) = List.map_filter f xs @ List.map_filter f ys"
  by (simp add: List.map_filter_def)

lemma import_answers_append:
  "import_answers rv base (ds @ es) r =
    (let (a, r1) = import_answers rv base ds r; (b, r2) = import_answers rv base es r1 in (a @ b, r2))"
proof (induction ds arbitrary: r)
  case (Cons d ds)
  then show ?case by (cases d) (simp_all add: split_beta Let_def)
qed simp

lemma taken_append:
  assumes "taken rv base raw ds s s'" and "taken rv base raw es s' s''"
  shows "taken rv base raw (ds @ es) s s''"
proof -
  obtain pp diags r pp' diags' r' pp'' diags'' r'' where s: "s = (pp, diags, r)" "s' = (pp', diags', r')"
    "s'' = (pp'', diags'', r'')" by (metis prod_cases3)
  obtain a r1 where a: "import_answers rv base ds r = (a, r1)" by fastforce
  obtain b r2 where b: "import_answers rv base es r1 = (b, r2)" by fastforce
  show ?thesis
    using assms unfolding s taken_def
    by (simp only: prod.case Let_def a b import_answers_append map_filter_append append_assoc)
      (elim conjE, intro conjI refl, blast)
qed

lemma take_directive_taken:
  assumes "resolver_returns rv" and "unat offset \<le> length raw"
  obtains s' where "take_directive rv base (line_col (line_starts raw) offset) d s = Some s'"
    "taken rv base raw [d] s s'"
proof -
  obtain pp diags r where s: "s = (pp, diags, r)" by (cases s)
  have "\<exists>s'. take_directive rv base (line_col (line_starts raw) offset) d s = Some s' \<and>
    taken rv base raw [d] s s'"
  proof (cases d)
    case (Import name path)
    obtain answer r' where answer: "resolve_import rv r base path = (answer, r')" by fastforce
    then have "answer \<noteq> Panic" using assms(1) by (metis fst_conv resolver_returns_def)
    then show ?thesis
      using Import answer diag_placed [OF assms(2)] s
      by (cases answer) (auto simp: taken_def map_filter_Cons map_filter_simps import_view_def)
  qed (auto simp: s taken_def map_filter_Cons map_filter_simps link_view_def)
  then show thesis using that by blast
qed

lemma global_offset_inside:
  assumes "start + n \<le> length raw" and "length raw < 2 ^ 32" and "unat offset \<le> n"
  shows "\<exists>global. global_offset start offset = Some global \<and> unat global = start + unat offset"
proof -
  have start: "unat (of_nat start :: u32) = start" using assms by (simp add: unat_of_nat_small)
  moreover have "unat (of_nat start + offset) = start + unat offset"
    using start assms by (simp add: unat_word_ariths)
  ultimately show ?thesis using assms by (simp add: global_offset_def)
qed

lemma take_directives_taken:
  assumes returns: "resolver_returns rv" and room: "start + n \<le> length raw" and small: "length raw < 2 ^ 32"
  shows "\<forall>l \<in> set located. unat (ld_offset l) \<le> n \<Longrightarrow>
    \<exists>s'. take_directives rv base (line_starts raw) start located s = Some s' \<and>
      taken rv base raw (map ld_directive located) s s'"
proof (induction located arbitrary: s)
  case Nil
  then show ?case by (simp add: taken_Nil)
next
  case (Cons l located)
  then have "unat (ld_offset l) \<le> n" by simp
  from global_offset_inside [OF room small this] obtain global
    where global: "global_offset start (ld_offset l) = Some global" "unat global \<le> length raw"
    using room \<open>unat (ld_offset l) \<le> n\<close> by auto
  obtain s1 where s1: "take_directive rv base (line_col (line_starts raw) global) (ld_directive l) s = Some s1"
    "taken rv base raw [ld_directive l] s s1" using take_directive_taken [OF returns global(2)] .
  obtain s2 where "take_directives rv base (line_starts raw) start located s1 = Some s2"
    "taken rv base raw (map ld_directive located) s1 s2" using Cons.IH [of s1] Cons.prems by auto
  then show ?case using global(1) s1 taken_append [OF s1(2)] by auto
qed

section \<open>Preprocessing returns, with its diagnostics inside the source\<close>

lemma scan_block_inside:
  assumes "scan_block raw = Some (start, stop, code_start)"
  shows "start \<le> stop" "stop \<le> code_start" "code_start \<le> length raw"
proof -
  obtain first where first: "find_str dashes raw = Some first"
    using assms by (cases "find_str dashes raw") (auto simp: scan_block_def)
  obtain close where close: "find_str dashes (drop (first + 3) raw) = Some close"
    using assms first by (cases "find_str dashes (drop (first + 3) raw)") (auto simp: scan_block_def)
  have start: "start = first + 3" "stop = first + 3 + close"
    using assms first close by (simp_all add: scan_block_def Let_def)
  have skip: "code_start = 6 + (first + close) \<or>
      nth_opt raw (6 + (first + close)) = Some newline \<and> code_start = 7 + (first + close) \<or>
      nth_opt raw (7 + (first + close)) = Some newline \<and> code_start = 8 + (first + close)"
    using assms first close by (auto simp: scan_block_def Let_def simp del: nth_opt_Some split: if_splits)
  have "3 \<le> length raw - (first + 3) - close"
    using close by (auto simp: find_str_Some dashes_prefix)
  then show "start \<le> stop" "stop \<le> code_start" "code_start \<le> length raw"
    using start skip by auto
qed

lemma place_failures_inside:
  assumes room: "start + n \<le> length raw" and small: "length raw < 2 ^ 32"
  shows "\<forall>f \<in> set failures. unat (fst f) \<le> n \<Longrightarrow>
    \<exists>diags. place_failures (line_starts raw) start failures = Some diags \<and>
      map pd_message diags = map snd failures \<and> (\<forall>d \<in> set diags. diag_inside raw d)"
proof (induction failures)
  case (Cons f failures)
  obtain offset message where f: "f = (offset, message)" by fastforce
  then have "unat offset \<le> n" using Cons.prems by simp
  then obtain global where "global_offset start offset = Some global" "unat global = start + unat offset"
    using global_offset_inside [OF room small] by blast
  then show ?case
    using Cons room \<open>unat offset \<le> n\<close> f
    by (auto simp: diag_new_def diag_placed)
qed simp

lemma parsed_inside:
  assumes "tokens_inside n tokens"
  shows "parse_block tokens = Ok located \<Longrightarrow> \<forall>l \<in> set located. unat (ld_offset l) \<le> n \<and> is_name (dir_name (ld_directive l))"
    and "parse_block tokens = Err failures \<Longrightarrow> \<forall>f \<in> set failures. unat (fst f) \<le> n"
    and "parse_block tokens \<noteq> Panic"
proof -
  note ends = parse_loop_ends [where rest = tokens and stop = "block_stop tokens" and out = "[]", folded parse_block_def]
  have stop: "unat (block_stop tokens) \<le> n"
    using assms by (auto simp: block_stop_def tokens_inside_def)
  show "parse_block tokens = Ok located \<Longrightarrow>
      \<forall>l \<in> set located. unat (ld_offset l) \<le> n \<and> is_name (dir_name (ld_directive l))"
    using ends assms by (fastforce simp: from_token_def tokens_inside_def)
  show "parse_block tokens = Err failures \<Longrightarrow> \<forall>f \<in> set failures. unat (fst f) \<le> n"
    using ends assms stop by (fastforce simp: failure_inside_def tokens_inside_def)
  show "parse_block tokens \<noteq> Panic" using ends by auto
qed

text \<open>What a preprocessed source is, whether its block could be read or not.\<close>

definition code_of_source :: "string \<Rightarrow> 'e preprocessed \<Rightarrow> bool" where
  "code_of_source raw pp \<longleftrightarrow>
     unat (pp_code_base pp) \<le> length raw \<and> pp_code pp = drop (unat (pp_code_base pp)) raw"

lemma taken_code:
  assumes "taken rv base raw ds (pp, diags, r) (pp', diags', r')"
  shows "pp_code pp' = pp_code pp" "pp_code_base pp' = pp_code_base pp"
    "\<forall>d \<in> set diags. diag_inside raw d \<Longrightarrow> \<forall>d \<in> set diags'. diag_inside raw d"
  using assms by (auto simp: taken_def split: prod.splits)

text \<open>
  C20: Preprocessing always returns, on every source shorter than 4 GiB: the code it hands on is the
  source from \<open>code_base\<close> on, and every diagnostic, of the lexer, of the parser or of an import, is
  placed at the line and column of an offset inside the source.
\<close>

theorem preprocess_inside:
  fixes rv :: "('r, 'e) import_resolver"
  assumes longest: "block_longest scan" and small: "length raw < 2 ^ 32" and returns: "resolver_returns rv"
  shows "\<exists>pp diags r'. preprocess scan rv raw base r = Some (pp, diags, r') \<and> code_of_source raw pp \<and>
    (\<forall>d \<in> set diags. diag_inside raw d)"
proof (cases "scan_block raw")
  case None
  then show ?thesis by (simp add: preprocess_def code_of_source_def)
next
  case (Some cut)
  then obtain start stop code_start where cut: "scan_block raw = Some (start, stop, code_start)" by (cases cut) auto
  note ordered = scan_block_inside [OF cut]
  define interior where "interior = drop start (take stop raw)"
  have room: "start + length interior \<le> length raw" using ordered by (simp add: interior_def)
  have "length interior < 2 ^ 32" using room small by simp
  then obtain tokens errors where lexed: "block_tokenize scan interior = Some (tokens, errors)"
    "tokens_inside (length interior) tokens" "\<forall>e \<in> set errors. unat (be_offset e) < length interior"
    using tokenize_inside [OF longest] by metis
  have "\<forall>f \<in> set (map (\<lambda>e. (be_offset e, be_message e)) errors). unat (fst f) \<le> length interior"
    using lexed(3) by fastforce
  from place_failures_inside [OF room small this] obtain diags
    where diags: "place_failures (line_starts raw) start (map (\<lambda>e. (be_offset e, be_message e)) errors) = Some diags"
      "\<forall>d \<in> set diags. diag_inside raw d" by blast
  define pp :: "'e preprocessed" where "pp = \<lparr>pp_code = drop code_start raw, pp_code_base = of_nat code_start,
    pp_imports = [], pp_metadata = [], pp_depends = [], pp_links = []\<rparr>"
  have code: "code_of_source raw pp"
    using ordered small by (simp add: code_of_source_def pp_def unat_of_nat_small)
  have start: "preprocess scan rv raw base r =
      (if errors \<noteq> [] then Some (pp, diags, r)
       else case parse_block tokens of
         Ok located \<Rightarrow> take_directives rv base (line_starts raw) start located (pp, diags, r)
       | Err failures \<Rightarrow>
           place_failures (line_starts raw) start failures \<bind> (\<lambda>more. Some (pp, diags @ more, r))
       | Panic \<Rightarrow> None)"
    using lexed(1) diags(1)
    by (cases "parse_block tokens") (simp_all add: preprocess_def cut Let_def interior_def pp_def)
  show ?thesis
  proof (cases "parse_block tokens")
    case (Ok located)
    have "\<forall>l \<in> set located. unat (ld_offset l) \<le> length interior"
      using parsed_inside(1) [OF lexed(2) Ok] by blast
    from take_directives_taken [OF returns room small this, of base "(pp, diags, r)"]
    obtain s where s: "take_directives rv base (line_starts raw) start located (pp, diags, r) = Some s"
      "taken rv base raw (map ld_directive located) (pp, diags, r) s" by blast
    obtain pp' diags' r' where "s = (pp', diags', r')" by (cases s)
    then show ?thesis
      using s taken_code [of rv base raw "map ld_directive located" pp diags r pp' diags' r'] code diags(2) Ok start
      by (cases "errors = []") (auto simp: code_of_source_def)
  next
    case (Err failures)
    from place_failures_inside [OF room small parsed_inside(2) [OF lexed(2) Err]] obtain more_diags
      where "place_failures (line_starts raw) start failures = Some more_diags"
        "\<forall>d \<in> set more_diags. diag_inside raw d" by blast
    then show ?thesis using start Err code diags(2) by (cases "errors = []") auto
  next
    case Panic
    then show ?thesis using parsed_inside(3) [OF lexed(2)] by simp
  qed
qed

section \<open>A written source, preprocessed\<close>

text \<open>A resolver that knows one package and counts the questions it gets.\<close>

definition one_package :: "(nat, nat) import_resolver" where
  "one_package =
     \<lparr>resolve_import = (\<lambda>r base path.
        (if path = ''lib'' then Ok \<lparr>rp_export = 7, rp_path = ''/lib'', rp_direct = []\<rparr>
         else Err (diag_unattributed ''no such package''), r + 1)),
      register_vendored = (\<lambda>r name dir. r + 1)\<rparr>"

definition some_directives :: "directive list" where
  "some_directives = [Metadata ''order'' ''3'', Import ''m'' ''lib'', Import ''n'' ''other'',
     Depend ''https://x.org/f.git'' ''f'' None None (Some ''v1'') None (Some ''sub/dir'') True,
     Link ''l'' ''so'']"

lemma one_package_returns: "resolver_returns one_package"
  by (simp add: resolver_returns_def one_package_def)

lemma no_dash_free: "CHR ''-'' \<notin> set s \<Longrightarrow> dash_free s"
proof -
  assume none: "CHR ''-'' \<notin> set s"
  have "\<not> prefix dashes (drop i s)" for i
  proof
    assume "prefix dashes (drop i s)"
    then have "CHR ''-'' \<in> set (drop i s)" by (auto simp: dashes_def prefix_def)
    then show False using none in_set_dropD by fast
  qed
  moreover have "s \<noteq> [] \<Longrightarrow> last s \<noteq> CHR ''-''" using none last_in_set by metis
  ultimately show "dash_free s" by (auto simp: dash_free_def find_str_None)
qed

lemmas directives_written = directives_text_def some_directives_def write_tokens_def option_kinds_def

lemma some_directives_fit:
  "list_all directive_writable some_directives" "dash_free (directives_text some_directives)"
  "dash_free ''intro''"
proof -
  show "list_all directive_writable some_directives" by code_simp
  show "dash_free (directives_text some_directives)" "dash_free ''intro''"
    by (rule no_dash_free; simp add: directives_written dquote_def newline_def)+
qed

lemma some_source_short:
  "length (block_source ''intro'' (directives_text some_directives) [newline] ''code'') < 2 ^ 32"
  by (simp add: block_source_def dashes_def directives_written)

text \<open>
  C15: A source whose block holds directives that were written out is preprocessed back to them: the
  code is what follows the line of the block, metadata, dependencies and links are the written ones in
  their order, and the resolver is asked for the imports in their order, each success an import and
  each failure a diagnostic.
\<close>

theorem preprocess_reads_back:
  assumes longest: "block_longest scan" and returns: "resolver_returns rv"
    and writable: "list_all directive_writable ds" and free: "dash_free before" "dash_free (directives_text ds)"
    and line: "line_end eol"
    and small: "length (block_source before (directives_text ds) eol rest) < 2 ^ 32"
  shows "\<exists>pp diags r'.
    preprocess scan rv (block_source before (directives_text ds) eol rest) base r = Some (pp, diags, r') \<and>
    pp_code pp = rest \<and> pp_metadata pp = List.map_filter metadata_of ds \<and>
    pp_depends pp = List.map_filter depend_of ds \<and> map link_view (pp_links pp) = List.map_filter link_of ds \<and>
    map import_view (pp_imports pp) = List.map_filter loaded_package (fst (import_answers rv base ds r)) \<and>
    map pd_message diags = List.map_filter load_error (fst (import_answers rv base ds r)) \<and>
    r' = snd (import_answers rv base ds r)"
proof -
  define raw where "raw = block_source before (directives_text ds) eol rest"
  define start where "start = length before + 3"
  define stop where "stop = start + length (directives_text ds)"
  define code_start where "code_start = length before + length (directives_text ds) + 6 + length eol"
  have cut: "scan_block raw = Some (start, stop, code_start)"
    using scan_block_source [OF free line] by (simp add: raw_def start_def stop_def code_start_def)
  have interior: "drop start (take stop raw) = directives_text ds"
    by (simp add: raw_def block_source_def start_def stop_def dashes_def drop_take)
  have code: "drop code_start raw = rest"
  proof -
    have "raw = (before @ dashes @ directives_text ds @ dashes @ eol) @ rest"
      by (simp add: raw_def block_source_def)
    moreover have "length (before @ dashes @ directives_text ds @ dashes @ eol) = code_start"
      by (simp add: code_start_def dashes_def)
    ultimately show ?thesis by (metis append_eq_conv_conj)
  qed
  have room: "start + length (directives_text ds) \<le> length raw" and less: "length raw < 2 ^ 32"
    using small by (simp_all add: raw_def block_source_def start_def dashes_def)
  obtain tokens located where lexed: "block_tokenize scan (directives_text ds) = Some (tokens, [])"
    and parsed: "parse_block tokens = Ok located" and ds: "map ld_directive located = ds"
    using written_parsed [OF longest writable] .
  have "length (directives_text ds) < 2 ^ 32" using room less by simp
  then have "tokens_inside (length (directives_text ds)) tokens"
    using tokenize_inside [OF longest] lexed by (metis option.inject prod.inject)
  from parsed_inside(1) [OF this parsed] have "\<forall>l \<in> set located. unat (ld_offset l) \<le> length (directives_text ds)"
    by blast
  from take_directives_taken [OF returns room less this, of base] obtain s
    where s: "take_directives rv base (line_starts raw) start located (\<lparr>pp_code = drop code_start raw,
        pp_code_base = of_nat code_start, pp_imports = [], pp_metadata = [], pp_depends = [], pp_links = []\<rparr>, [], r) = Some s"
      and taken: "taken rv base raw ds (\<lparr>pp_code = drop code_start raw, pp_code_base = of_nat code_start,
        pp_imports = [], pp_metadata = [], pp_depends = [], pp_links = []\<rparr>, [], r) s"
    unfolding ds by blast
  have "preprocess scan rv raw base r = Some s"
    using s by (simp add: preprocess_def cut interior lexed parsed)
  moreover obtain pp diags r' where "s = (pp, diags, r')" by (cases s)
  ultimately show ?thesis
    using taken code unfolding raw_def [symmetric] by (auto simp: taken_def split: prod.splits)
qed

theorem preprocess_inside_witness:
  "\<exists>pp diags r'. preprocess scan_block_patterns one_package ''---x = ? ---c'' None 0 = Some (pp, diags, r') \<and>
    code_of_source ''---x = ? ---c'' pp \<and> list_all (diag_inside ''---x = ? ---c'') diags"
  using preprocess_inside [OF scan_block_patterns_longest _ one_package_returns, of "''---x = ? ---c''" None 0]
  by (simp add: list_all_iff)

theorem preprocess_reads_back_witness:
  "\<exists>pp diags r'. preprocess scan_block_patterns one_package
      (block_source ''intro'' (directives_text some_directives) [newline] ''code'') None 0 = Some (pp, diags, r') \<and>
    pp_code pp = ''code'' \<and> pp_metadata pp = [(''order'', ''3'')] \<and>
    map import_view (pp_imports pp) = [(''m'', 7, ''/lib'', [])] \<and>
    map pd_message diags = [''cannot load package '' @ quoted ''other'' @ '': no such package''] \<and> r' = 2"
proof -
  have "List.map_filter metadata_of some_directives = [(''order'', ''3'')]"
    "import_answers one_package None some_directives 0 =
      ([(''m'', ''lib'', Ok \<lparr>rp_export = 7, rp_path = ''/lib'', rp_direct = []\<rparr>),
        (''n'', ''other'', Err (diag_unattributed ''no such package''))], 2)"
    by (simp_all add: some_directives_def one_package_def map_filter_simps)
  then show ?thesis
    using preprocess_reads_back [OF scan_block_patterns_longest one_package_returns some_directives_fit(1,3,2)
      _ some_source_short, of None 0]
    by (auto simp: map_filter_simps diag_unattributed_def line_end_def)
qed

section \<open>Vendored directories\<close>

lemma split_on_not_Nil [simp]: "split_on sep s \<noteq> []"
  by (induction s) (auto split: list.split)

lemma split_on_join_at: "split_on sep (s @ sep # t) = split_on sep s @ split_on sep t"
  by (induction s) (auto split: list.split)

lemma hd_split_on_append: "s \<noteq> [] \<Longrightarrow> hd (split_on sep (s @ sep # t)) = hd (split_on sep s)"
  by (simp add: split_on_join_at)

definition plain_parts :: "string \<Rightarrow> string list" where
  "plain_parts p = List.filter (\<lambda>s. s \<noteq> [] \<and> s \<noteq> ''.'') (split_on separator p)"

lemma path_components_plain:
  "path_components p =
    (if is_absolute p then [Root_dir] else if hd (split_on separator p) = ''.'' then [Cur_dir] else []) @
    map part_of (plain_parts p)"
  by (simp add: path_components_def plain_parts_def Let_def)

lemma path_join_components:
  assumes "p \<noteq> []" and "last p \<noteq> separator" and "\<not> is_absolute q"
  shows "path_components (path_join p q) = path_components p @ map part_of (plain_parts q)"
proof -
  have "path_join p q = p @ separator # q" using assms by (simp add: path_join_def)
  moreover have "is_absolute (p @ separator # q) = is_absolute p" using assms(1) by (simp add: is_absolute_def)
  ultimately show ?thesis by (simp add: path_components_plain plain_parts_def split_on_join_at)
qed

declare part_of.simps [simp del]

lemma plain_parts_normal:
  assumes "Parent_dir \<notin> set (path_components q)"
  shows "map part_of (plain_parts q) = map Normal (plain_parts q)"
proof -
  have "part_of s = Normal s" if "s \<in> set (plain_parts q)" for s
  proof -
    have "part_of s \<in> set (path_components q)" using that by (simp add: path_components_plain)
    then have "s \<noteq> ''..''" using assms by (auto simp: part_of.simps)
    then show ?thesis using that by (simp add: plain_parts_def part_of.simps)
  qed
  then show ?thesis by simp
qed

lemma sanitize_alias_chars: "sanitize_alias a \<noteq> []" "list_all alias_char (sanitize_alias a)"
  by (auto simp: sanitize_alias_def Let_def list_all_iff alias_char_def name_part_def name_start_def byte_of_def
      split: if_splits)

lemma alias_char_plain: "alias_char c \<Longrightarrow> c \<noteq> separator"
  by (auto simp: alias_char_def name_part_def name_start_def is_digit_def separator_def byte_of_def)

lemma sanitize_alias_relative: "\<not> is_absolute (sanitize_alias a)" "last (sanitize_alias a) \<noteq> separator"
  using sanitize_alias_chars [of a] alias_char_plain
  by (auto simp: is_absolute_def list_all_iff dest: hd_in_set last_in_set)

lemma path_join_relative: "\<not> is_absolute q \<Longrightarrow> q \<noteq> [] \<Longrightarrow> \<exists>head. path_join p q = head @ q"
  by (auto simp: path_join_def)

lemma sources_dir_ends:
  obtains head where "\<And>d. sources_dir env d = head @ sanitize_alias (dep_alias d)"
proof -
  let ?head = "if sources_root env = [] \<or> last (sources_root env) = separator then sources_root env
    else sources_root env @ [separator]"
  have "sources_dir env d = ?head @ sanitize_alias (dep_alias d)" for d
    by (simp add: sources_dir_def path_join_def sanitize_alias_relative)
  then show thesis by (rule that)
qed

lemma sources_dir_open: "sources_dir env d \<noteq> []" "last (sources_dir env d) \<noteq> separator"
proof -
  obtain head where "sources_dir env d = head @ sanitize_alias (dep_alias d)" using sources_dir_ends by metis
  then show "sources_dir env d \<noteq> []" "last (sources_dir env d) \<noteq> separator"
    using sanitize_alias_chars(1) sanitize_alias_relative(2) by simp_all
qed

text \<open>
  C23: A dependency's vendored directory lies inside its clone: whatever its \<open>sub\<close> is, either the
  directory has the components of the clone followed by plain names only, or the \<open>sub\<close> is absolute or
  climbs out by a parent component and is refused.
\<close>

theorem vendored_inside:
  "(\<exists>p names. vendored_dir env d = Ok p \<and>
      path_components p = path_components (sources_dir env d) @ map Normal names) \<or>
   (\<exists>message sub. vendored_dir env d = Err message \<and> dp_sub d = Some sub \<and>
      (is_absolute sub \<or> Parent_dir \<in> set (path_components sub)))"
proof (cases "dp_sub d")
  case None
  then have "vendored_dir env d = Ok (sources_dir env d)" by (simp add: vendored_dir_def Let_def)
  then show ?thesis by (metis append_Nil2 list.simps(8))
next
  case (Some sub)
  show ?thesis
  proof (cases "is_absolute sub \<or> Parent_dir \<in> set (path_components sub)")
    case True
    then show ?thesis using Some by (auto simp: vendored_dir_def Let_def list_ex_iff)
  next
    case False
    then have "Root_dir \<notin> set (path_components sub)"
      using plain_parts_normal [of sub] by (auto simp: path_components_plain split: if_splits)
    then have "vendored_dir env d = Ok (path_join (sources_dir env d) sub)"
      using Some False by (auto simp: vendored_dir_def Let_def list_ex_iff)
    then show ?thesis
      using path_join_components [OF sources_dir_open, of sub env d] plain_parts_normal [of sub] False by metis
  qed
qed

text \<open>
  Two dependencies that one block declares under different aliases never share a clone: what the
  lexer accepts as a name is kept as it is by the sanitizer, which for other names it is not.
\<close>

theorem clones_apart:
  assumes "block_longest scan" and "length interior < 2 ^ 32"
    and "block_depends scan interior = Some deps" and "d \<in> set deps" and "e \<in> set deps"
    and "sources_dir env d = sources_dir env e"
  shows "dep_alias d = dep_alias e"
proof -
  have name: "is_name (dep_alias d)" if dep: "d \<in> set deps" for d
  proof -
    obtain tokens errors where lexed: "block_tokenize scan interior = Some (tokens, errors)"
      "tokens_inside (length interior) tokens" using tokenize_inside [OF assms(1,2)] by metis
    obtain located where located: "parse_block tokens = Ok located" "d \<in> set (List.map_filter (\<lambda>l. depend_of (ld_directive l)) located)"
      using assms(3) dep lexed(1)
      by (auto simp: block_depends_def block_directives_def map_filter_simps split: if_splits res.splits)
    then obtain l where "l \<in> set located" "depend_of (ld_directive l) = Some d"
      by (auto simp: List.map_filter_def)
    then show ?thesis
      using parsed_inside(1) [OF lexed(2) located(1)] by (cases "ld_directive l") (auto simp: dep_alias_def)
  qed
  have kept: "sanitize_alias a = a" if "is_name a" for a
  proof -
    have "\<forall>c \<in> set a. alias_char c" using that is_name_chars by (auto simp: alias_char_def)
    then have "concat (map (\<lambda>c. if alias_char c then [c] else if continuation c then [] else ''_'') a) = a"
      by (induction a) auto
    then show ?thesis using that by (simp add: sanitize_alias_def is_name_def)
  qed
  obtain head where "\<And>d. sources_dir env d = head @ sanitize_alias (dep_alias d)" using sources_dir_ends by metis
  then show ?thesis using assms(4,5,6) name kept by simp
qed

lemma block_depends_written:
  assumes "block_longest scan" and "list_all directive_writable ds"
  shows "block_depends scan (directives_text ds) = Some (List.map_filter depend_of ds)"
proof -
  obtain tokens located where "block_tokenize scan (directives_text ds) = Some (tokens, [])"
    "parse_block tokens = Ok located" and ds: "map ld_directive located = ds"
    using written_parsed [OF assms] .
  moreover have "List.map_filter (\<lambda>l. depend_of (ld_directive l)) located = List.map_filter depend_of ds"
    using ds by (auto simp: List.map_filter_def filter_map o_def)
  ultimately show ?thesis by (simp add: block_depends_def block_directives_def)
qed

definition plain_depend :: "string \<Rightarrow> string \<Rightarrow> string option \<Rightarrow> depend" where
  "plain_depend url name revision = \<lparr>dp_url = url, dp_name = name, dp_rev = revision, dp_branch = None,
     dp_tag = None, dp_package = None, dp_sub = None, dp_plugin = False\<rparr>"

theorem clones_apart_witness:
  "sources_dir (\<lambda>_. None) (plain_depend ''u'' ''f'' None) \<noteq> sources_dir (\<lambda>_. None) (plain_depend ''u'' ''g'' None)"
proof
  let ?ds = "[Depend ''u'' ''f'' None None None None None False, Depend ''u'' ''g'' None None None None None False]"
  assume same: "sources_dir (\<lambda>_. None) (plain_depend ''u'' ''f'' None) = sources_dir (\<lambda>_. None) (plain_depend ''u'' ''g'' None)"
  have "list_all directive_writable ?ds" by code_simp
  from block_depends_written [OF scan_block_patterns_longest this]
  have deps: "block_depends scan_block_patterns (directives_text ?ds) =
      Some [plain_depend ''u'' ''f'' None, plain_depend ''u'' ''g'' None]"
    by (simp add: map_filter_simps plain_depend_def)
  have "length (directives_text ?ds) < 2 ^ 32" by (simp add: directives_written)
  from clones_apart [OF scan_block_patterns_longest this deps _ _ same] show False
    by (simp add: dep_alias_def plain_depend_def)
qed

section \<open>Staging\<close>

text \<open>The directory a dependency is staged from, if it is one to stage.\<close>

definition staged_dir :: "(string \<Rightarrow> string option) \<Rightarrow> (string \<Rightarrow> bool) \<Rightarrow> depend \<Rightarrow> string option" where
  "staged_dir env is_dir d =
     (case vendored_dir env d of Ok dir \<Rightarrow> if is_dir dir then Some dir else None | _ \<Rightarrow> None)"

definition register_staged :: "(string \<Rightarrow> string option) \<Rightarrow> (string \<Rightarrow> bool) \<Rightarrow> ('r, 'e) import_resolver \<Rightarrow>
    depend \<Rightarrow> 'r \<Rightarrow> 'r" where
  "register_staged env is_dir rv d r =
     (case staged_dir env is_dir d of None \<Rightarrow> r | Some dir \<Rightarrow> register_vendored rv r (dep_alias d) dir)"

lemma vendored_not_panic: "vendored_dir env d \<noteq> Panic"
  by (auto simp: vendored_dir_def Let_def split: option.split)

lemma stage_loop_stages:
  assumes room: "start + n \<le> length raw" and small: "length raw < 2 ^ 32"
  shows "\<forall>l \<in> set located. unat (ld_offset l) \<le> n \<Longrightarrow> \<exists>added.
    stage_loop env is_dir rv (line_starts raw) start located (diags, r) =
      Some (diags @ added, fold (register_staged env is_dir rv)
        (List.map_filter (\<lambda>l. depend_of (ld_directive l)) located) r) \<and>
    length added = length (List.filter (\<lambda>d. staged_dir env is_dir d = None)
        (List.map_filter (\<lambda>l. depend_of (ld_directive l)) located)) \<and>
    (\<forall>d \<in> set added. diag_inside raw d)"
proof (induction located arbitrary: diags r)
  case Nil
  then show ?case by (simp add: map_filter_simps)
next
  case (Cons l located)
  then have offset: "unat (ld_offset l) \<le> n" by simp
  show ?case
  proof (cases "depend_of (ld_directive l)")
    case None
    then show ?thesis using Cons by (simp add: map_filter_simps)
  next
    case (Some d)
    obtain global where global: "global_offset start (ld_offset l) = Some global" "unat global = start + unat (ld_offset l)"
      using global_offset_inside [OF room small offset] by blast
    then have inside: "diag_inside raw (diag_new (line_col (line_starts raw) global) m)" for m
      using room offset by (simp add: diag_new_def diag_placed)
    define next_state where "next_state = (case vendored_dir env d of
        Ok dir \<Rightarrow> if is_dir dir then (diags, register_vendored rv r (dep_alias d) dir)
          else (diags @ [diag_new (line_col (line_starts raw) global) (not_fetched (dep_alias d) dir)], r)
      | Err message \<Rightarrow> (diags @ [diag_new (line_col (line_starts raw) global) message], r)
      | Panic \<Rightarrow> (diags, r))"
    have "\<exists>first. next_state = (diags @ first, register_staged env is_dir rv d r) \<and>
      length first = (if staged_dir env is_dir d = None then 1 else 0) \<and> (\<forall>d \<in> set first. diag_inside raw d)"
      using inside vendored_not_panic [of env d]
      by (cases "vendored_dir env d") (auto simp: next_state_def register_staged_def staged_dir_def)
    then obtain first where first: "next_state = (diags @ first, register_staged env is_dir rv d r)"
      "length first = (if staged_dir env is_dir d = None then 1 else 0)" "\<forall>d \<in> set first. diag_inside raw d"
      by (elim exE conjE)
    have step: "stage_loop env is_dir rv (line_starts raw) start (l # located) (diags, r) =
        stage_loop env is_dir rv (line_starts raw) start located next_state"
      using Some global(1) by (simp add: next_state_def Let_def)
    show ?thesis
      using Cons.IH [of "diags @ first" "register_staged env is_dir rv d r"] Cons.prems first Some
      unfolding step by (auto simp: map_filter_simps intro!: exI [of _ "first @ added" for added])
  qed
qed

text \<open>
  C30: Staging a source registers each dependency of its block whose directory is there, in the order of
  the block and under its alias, and answers one diagnostic, placed inside the source, for each that is
  not fetched or whose \<open>sub\<close> leaves the clone; a source without a block changes nothing.
\<close>

theorem staging_registers:
  assumes longest: "block_longest scan" and small: "length raw < 2 ^ 32"
  shows "case scan_block raw of
    None \<Rightarrow> stage_depends scan env is_dir rv r raw = Some ([], r)
  | Some (start, stop, code_start) \<Rightarrow> (\<exists>deps diags.
      block_depends scan (drop start (take stop raw)) = Some deps \<and>
      stage_depends scan env is_dir rv r raw = Some (diags, fold (register_staged env is_dir rv) deps r) \<and>
      length diags = length (List.filter (\<lambda>d. staged_dir env is_dir d = None) deps) \<and>
      list_all (diag_inside raw) diags)"
proof (cases "scan_block raw")
  case None
  then show ?thesis by (simp add: stage_depends_def)
next
  case (Some cut)
  then obtain start stop code_start where cut: "scan_block raw = Some (start, stop, code_start)" by (cases cut) auto
  define interior where "interior = drop start (take stop raw)"
  have room: "start + length interior \<le> length raw"
    using scan_block_inside [OF cut] by (simp add: interior_def)
  then have "length interior < 2 ^ 32" using small by simp
  then obtain tokens errors where lexed: "block_tokenize scan interior = Some (tokens, errors)"
    "tokens_inside (length interior) tokens" using tokenize_inside [OF longest] by metis
  define dirs where "dirs = (if errors \<noteq> [] then [] else case parse_block tokens of Ok dirs \<Rightarrow> dirs | _ \<Rightarrow> [])"
  have "\<forall>l \<in> set dirs. unat (ld_offset l) \<le> length interior"
    using parsed_inside(1) [OF lexed(2)] by (cases "parse_block tokens") (auto simp: dirs_def)
  from stage_loop_stages [OF room small this, of env is_dir rv "[]" r] show ?thesis
    unfolding cut option.case prod.case interior_def [symmetric]
    using lexed(1)
    by (auto simp: stage_depends_def cut block_depends_def block_directives_def dirs_def list_all_iff
        interior_def [symmetric])
qed

theorem staging_registers_witness:
  "case scan_block ''---x = ?---'' of
    None \<Rightarrow> stage_depends scan_block_patterns (\<lambda>_. None) (\<lambda>_. True) one_package 0 ''---x = ?---'' = Some ([], 0)
  | Some (start, stop, code_start) \<Rightarrow> (\<exists>deps diags.
      block_depends scan_block_patterns (drop start (take stop ''---x = ?---'')) = Some deps \<and>
      stage_depends scan_block_patterns (\<lambda>_. None) (\<lambda>_. True) one_package 0 ''---x = ?---'' =
        Some (diags, fold (register_staged (\<lambda>_. None) (\<lambda>_. True) one_package) deps 0) \<and>
      length diags = length (List.filter (\<lambda>d. staged_dir (\<lambda>_. None) (\<lambda>_. True) d = None) deps) \<and>
      list_all (diag_inside ''---x = ?---'') diags)"
  by (rule staging_registers [OF scan_block_patterns_longest]) simp

section \<open>Identities\<close>

text \<open>The parts of an identity between the hash signs.\<close>

definition option_part :: "string \<Rightarrow> string option \<Rightarrow> string list" where
  "option_part key v = (case v of None \<Rightarrow> [] | Some v \<Rightarrow> [key @ ''='' @ v])"

definition identity_parts :: "depend \<Rightarrow> string list" where
  "identity_parts d = [dep_alias d, dp_url d] @ option_part ''rev'' (dp_rev d) @ option_part ''branch'' (dp_branch d) @
     option_part ''tag'' (dp_tag d) @ option_part ''package'' (dp_package d) @ option_part ''sub'' (dp_sub d) @
     (if dp_plugin d then [''plugin''] else [])"

definition hash_free :: "depend \<Rightarrow> bool" where
  "hash_free d \<longleftrightarrow> list_all (\<lambda>part. CHR ''#'' \<notin> set part) (identity_parts d)"

fun hashed :: "string list \<Rightarrow> string" where
  "hashed [] = []"
| "hashed (part # parts) = ''#'' @ part @ hashed parts"

lemma hashed_append: "hashed (ps @ qs) = hashed ps @ hashed qs"
  by (induction ps) simp_all

lemma push_field_hashed: "push_field (key, v) out = out @ hashed (option_part key v)"
  by (simp add: push_field_def option_part_def split: option.split)

lemma dep_identity_hashed: "''#'' @ dep_identity d = hashed (identity_parts d)"
  by (simp add: dep_identity_def dep_fields_def push_field_hashed identity_parts_def hashed_append Let_def)

lemma split_on_hashed:
  "list_all (\<lambda>part. CHR ''#'' \<notin> set part) parts \<Longrightarrow> split_on (CHR ''#'') (hashed parts) = [] # parts"
proof (induction parts)
  case (Cons part parts)
  then show ?case
    by (cases parts) (auto simp: split_on_single split_on_append)
qed simp

lemma option_part_unique:
  assumes "option_part key v @ rest = option_part key w @ rest'"
    and "\<forall>part \<in> set rest \<union> set rest'. \<not> prefix (key @ ''='') part"
  shows "v = w \<and> rest = rest'"
  using assms by (auto simp: option_part_def split: option.splits)

text \<open>
  C35: The identity of a dependency names one checkout when none of its fields holds a hash sign: two
  such dependencies with the same identity are the same.
\<close>

theorem identity_names_one:
  assumes "hash_free d" and "hash_free e" and "dep_identity d = dep_identity e"
  shows "d = e"
proof -
  have "hashed (identity_parts d) = hashed (identity_parts e)"
    using assms(3) dep_identity_hashed by metis
  then have parts: "identity_parts d = identity_parts e"
    using assms(1,2) split_on_hashed unfolding hash_free_def by (metis list.inject)
  define tail where "tail d = (if dp_plugin d then [''plugin''] else [])" for d :: depend
  define subs where "subs d = option_part ''sub'' (dp_sub d) @ tail d" for d :: depend
  define packages where "packages d = option_part ''package'' (dp_package d) @ subs d" for d :: depend
  define tags where "tags d = option_part ''tag'' (dp_tag d) @ packages d" for d :: depend
  define branches where "branches d = option_part ''branch'' (dp_branch d) @ tags d" for d :: depend
  note chain = tail_def subs_def packages_def tags_def branches_def
  have "dep_alias d = dep_alias e" "dp_url d = dp_url e"
    and revs: "option_part ''rev'' (dp_rev d) @ branches d = option_part ''rev'' (dp_rev e) @ branches e"
    using parts by (simp_all add: identity_parts_def chain)
  moreover have rev: "dp_rev d = dp_rev e \<and> branches d = branches e"
    by (rule option_part_unique [OF revs]) (auto simp: chain option_part_def split: option.splits)
  moreover have branch: "dp_branch d = dp_branch e \<and> tags d = tags e"
    by (rule option_part_unique [OF conjunct2 [OF rev, unfolded branches_def]])
      (auto simp: chain option_part_def split: option.splits)
  moreover have tag: "dp_tag d = dp_tag e \<and> packages d = packages e"
    by (rule option_part_unique [OF conjunct2 [OF branch, unfolded tags_def]])
      (auto simp: chain option_part_def split: option.splits)
  moreover have package: "dp_package d = dp_package e \<and> subs d = subs e"
    by (rule option_part_unique [OF conjunct2 [OF tag, unfolded packages_def]])
      (auto simp: chain option_part_def split: option.splits)
  moreover have sub: "dp_sub d = dp_sub e \<and> tail d = tail e"
    by (rule option_part_unique [OF conjunct2 [OF package, unfolded subs_def]])
      (auto simp: chain split: if_splits)
  moreover have "dp_plugin d = dp_plugin e" using sub by (auto simp: tail_def split: if_splits)
  ultimately show ?thesis by (cases d; cases e) (simp add: dep_alias_def)
qed

text \<open>With a hash sign in the source, two dependencies of one alias and different checkouts collide.\<close>

lemma identities_collide:
  "dep_identity (plain_depend ''u'' ''f'' (Some ''x'')) = dep_identity (plain_depend ''u#rev=x'' ''f'' None)"
  by (simp add: dep_identity_def dep_fields_def push_field_def dep_alias_def plain_depend_def)

theorem identity_names_one_witness:
  "dep_identity (plain_depend ''u'' ''f'' (Some ''x'')) \<noteq> dep_identity (plain_depend ''u'' ''f'' (Some ''y''))"
proof -
  have "hash_free (plain_depend ''u'' ''f'' (Some ''x''))" "hash_free (plain_depend ''u'' ''f'' (Some ''y''))"
    by (simp_all add: hash_free_def identity_parts_def plain_depend_def dep_alias_def option_part_def)
  from identity_names_one [OF this] show ?thesis by (auto simp: plain_depend_def)
qed

end
