(* ===== verification/Body_Compact.thy ===== *)
theory Body_Compact
  imports Kernel_Fragment Kernel_Exec
begin

text \<open>
  The compaction a merge ends with (\<open>compact\<close> in \<open>lichen-kernel-ir/src/compose.rs\<close>): the values that
  nothing reads are dropped with the branch arguments that feed them, and the others get fresh ids. What
  a body of several blocks computes is defined over \<open>Kernel_Exec\<close>, and the compacted body computes the same.
\<close>

section \<open>The compaction\<close>

text \<open>Whether a number is one of \<open>u32\<close>, in a form that computes.\<close>

definition fits_u32 :: "nat \<Rightarrow> bool" where
  "fits_u32 n \<longleftrightarrow> unat (of_nat n :: u32) = n"

lemma fits_u32_iff [simp]: "fits_u32 n \<longleftrightarrow> n < 2 ^ 32"
proof
  show "fits_u32 n \<Longrightarrow> n < 2 ^ 32" unfolding fits_u32_def using unsigned_less [of "of_nat n :: u32", where ?'a = nat] by simp
  show "n < 2 ^ 32 \<Longrightarrow> fits_u32 n" by (simp add: fits_u32_def unat_of_nat_u32)
qed

fun terminator_reads :: "terminator \<Rightarrow> value_id list" where
  "terminator_reads (Return values) = values"
| "terminator_reads (CondBr cond _ _) = [cond]"
| "terminator_reads (Br _) = []"

definition leaves_nothing :: "kernel_body \<Rightarrow> value_id \<Rightarrow> bool" where
  "leaves_nothing body v = (case value_at body v of Some (Instr _ _ classes) \<Rightarrow> classes = [] | _ \<Rightarrow> False)"

text \<open>What is read in any case, in the order the code pushes it; \<open>entry\<close> is the entry's parameters.\<close>

definition compact_roots :: "kernel_body \<Rightarrow> kernel_mark list \<Rightarrow> value_id list \<Rightarrow> value_id list" where
  "compact_roots body marks entry =
     concat (map (\<lambda>block. terminator_reads (bb_terminator block)) (kb_blocks body)) @
     concat (map (\<lambda>expr. [b_write expr, b_read expr]) (kb_barriers body)) @
     map mk_value marks @ entry @
     concat (map (\<lambda>block. List.filter (leaves_nothing body) (bb_instrs block)) (kb_blocks body))"

definition handed_to :: "kernel_body \<Rightarrow> nat \<Rightarrow> u32 \<Rightarrow> value_id list" where
  "handed_to body block index =
     concat (map (\<lambda>other. List.map_filter
       (\<lambda>br. if br_target br = block then nth_opt (br_args br) (unat index) else None) (branches other))
       (kb_blocks body))"

definition value_reads :: "kernel_body \<Rightarrow> value_id \<Rightarrow> value_id list" where
  "value_reads body v =
     (case value_at body v of
        Some (Instr _ args _) \<Rightarrow> args
      | Some (Block_param block index) \<Rightarrow> handed_to body block index
      | None \<Rightarrow> [])"

text \<open>The work list; the value pushed last is the head.\<close>

function live_loop :: "kernel_body \<Rightarrow> bool list \<Rightarrow> value_id list \<Rightarrow> bool list" where
  "live_loop body live [] = live"
| "live_loop body live (v # pending) =
     (if length live \<le> unat v then live_loop body live pending
      else if live ! unat v then live_loop body live pending
      else live_loop body (live[unat v := True]) (rev (value_reads body v) @ pending))"
  by pat_completeness auto

termination
  by (relation "measures [\<lambda>(body, r, stack). card {i. i < length r \<and> \<not> r ! i},
      \<lambda>(body, r, stack). length stack]") (auto simp: unmarked_less)

definition live_values :: "kernel_body \<Rightarrow> kernel_mark list \<Rightarrow> value_id list \<Rightarrow> bool list" where
  "live_values body marks entry =
     live_loop body (replicate (length (kb_values body)) False) (rev (compact_roots body marks entry))"

text \<open>The parameters of a block that are kept; one outside the table is an index panic.\<close>

definition kept_params :: "bool list \<Rightarrow> basic_block \<Rightarrow> nat list option" where
  "kept_params live block =
     (if list_all (\<lambda>p. unat p < length live) (bb_params block)
      then Some (List.filter (\<lambda>at. live ! unat (bb_params block ! at)) [0..<length (bb_params block)])
      else None)"

fun survivor_ids :: "u32 \<Rightarrow> bool list \<Rightarrow> value_id option list" where
  "survivor_ids n [] = []"
| "survivor_ids n (flag # flags) =
     (if flag then Some n # survivor_ids (n + 1) flags else None # survivor_ids n flags)"

definition renumbered :: "value_id option list \<Rightarrow> value_id \<Rightarrow> value_id" where
  "renumbered ids v = (case nth_opt ids (unat v) of Some (Some w) \<Rightarrow> w | _ \<Rightarrow> v)"

definition pruned_br :: "nat list list \<Rightarrow> value_id option list \<Rightarrow> br \<Rightarrow> br" where
  "pruned_br keeps ids held =
     (let keep = (case nth_opt keeps (br_target held) of Some keep \<Rightarrow> keep | None \<Rightarrow> []) in
      \<lparr>br_target = br_target held,
       br_args = map (renumbered ids) (List.map_filter (nth_opt (br_args held)) keep)\<rparr>)"

fun pruned :: "nat list list \<Rightarrow> value_id option list \<Rightarrow> terminator \<Rightarrow> terminator" where
  "pruned keeps ids (Return values) = Return (map (renumbered ids) values)"
| "pruned keeps ids (Br held) = Br (pruned_br keeps ids held)"
| "pruned keeps ids (CondBr cond if_true if_false) =
     CondBr (renumbered ids cond) (pruned_br keeps ids if_true) (pruned_br keeps ids if_false)"

definition kept_instr :: "kernel_body \<Rightarrow> bool list \<Rightarrow> value_id \<Rightarrow> bool" where
  "kept_instr body live v =
     (case value_at body v of Some (Instr _ _ classes) \<Rightarrow> live ! unat v \<or> classes = [] | _ \<Rightarrow> False)"

definition compact_block :: "kernel_body \<Rightarrow> bool list \<Rightarrow> value_id option list \<Rightarrow> nat list list \<Rightarrow>
    nat list \<times> basic_block \<Rightarrow> basic_block" where
  "compact_block body live ids keeps = (\<lambda>(keep, block).
     \<lparr>bb_params = map (\<lambda>at. renumbered ids (bb_params block ! at)) keep,
      bb_instrs = map (renumbered ids) (List.filter (kept_instr body live) (bb_instrs block)),
      bb_terminator = pruned keeps ids (bb_terminator block)\<rparr>)"

fun renumbered_def :: "value_id option list \<Rightarrow> value_def \<Rightarrow> value_def" where
  "renumbered_def ids (Instr op args classes) = Instr op (map (renumbered ids) args) classes"
| "renumbered_def ids (Block_param _ _) = Block_param 0 0"

definition surviving_values :: "value_id option list \<Rightarrow> value_def list \<Rightarrow> value_def list" where
  "surviving_values ids values =
     List.map_filter (\<lambda>(slot, d). if slot = None then None else Some (renumbered_def ids d)) (zip ids values)"

text \<open>Every parameter at its place: block, index and value.\<close>

definition param_places :: "basic_block list \<Rightarrow> (nat \<times> nat \<times> value_id) list" where
  "param_places blocks =
     concat (map (\<lambda>(block, basic). map (\<lambda>(index, p). (block, index, p)) (enumerate 0 (bb_params basic)))
       (enumerate 0 blocks))"

definition place_param :: "nat \<times> nat \<times> value_id \<Rightarrow> value_def list \<Rightarrow> value_def list option" where
  "place_param = (\<lambda>(block, index, p) values.
     if unat p < length values then Some (values[unat p := Block_param block (of_nat index)]) else None)"

definition compact :: "kernel_body \<Rightarrow> kernel_mark list \<Rightarrow> (kernel_body \<times> kernel_mark list) option" where
  "compact body marks =
     Option.bind (nth_opt (kb_blocks body) (kb_entry body)) (\<lambda>entry.
     let live = live_values body marks (bb_params entry) in
     Option.bind (map_opt (kept_params live) (kb_blocks body)) (\<lambda>keeps.
     if \<not> fits_u32 (length (List.filter id live)) then None
     else
       let ids = survivor_ids 0 live;
           blocks = map (compact_block body live ids keeps) (zip keeps (kb_blocks body)) in
       Option.bind (fold_opt place_param (param_places blocks) (surviving_values ids (kb_values body)))
         (\<lambda>values. Some
           (body\<lparr>kb_values := values, kb_blocks := blocks,
              kb_barriers := map (\<lambda>expr. \<lparr>b_write = renumbered ids (b_write expr),
                b_read = renumbered ids (b_read expr)\<rparr>) (kb_barriers body)\<rparr>,
            map (\<lambda>mark. mark\<lparr>mk_value := renumbered ids (mk_value mark)\<rparr>) marks))))"

section \<open>What a body of blocks computes\<close>

text \<open>
  A block is entered with its arguments, its instructions run in order, and its terminator answers or
  enters the next block. The values bound so far stay bound: a block reads those of its dominators.
\<close>

fun taken_branch :: "env \<Rightarrow> terminator \<Rightarrow> br option" where
  "taken_branch e (Return _) = None"
| "taken_branch e (Br br) = Some br"
| "taken_branch e (CondBr cond if_true if_false) =
     map_option (\<lambda>c. if c \<noteq> 0 then if_true else if_false) (Option.bind (e cond) as_int)"

fun run_blocks :: "f32_ops \<Rightarrow> (kernel_instr \<Rightarrow> f32 \<Rightarrow> f32 option) \<Rightarrow> 's mem \<Rightarrow> kernel_body \<Rightarrow> nat \<Rightarrow>
    nat \<Rightarrow> kval list \<Rightarrow> env \<times> 's \<Rightarrow> (kval list \<times> 's) option" where
  "run_blocks fl tr mem body 0 k args st = None"
| "run_blocks fl tr mem body (Suc n) k args st =
     Option.bind (nth_opt (kb_blocks body) k) (\<lambda>block.
     if length args \<noteq> length (bb_params block) then None
     else Option.bind (exec_instrs fl tr mem (kb_values body) (bb_instrs block)
         (fst st ++ map_of (zip (bb_params block) args), snd st)) (\<lambda>(e, s).
       case bb_terminator block of
         Return values \<Rightarrow> map_option (\<lambda>vals. (vals, s)) (map_opt e values)
       | t \<Rightarrow> Option.bind (taken_branch e t) (\<lambda>br.
           Option.bind (map_opt e (br_args br)) (\<lambda>vals.
             run_blocks fl tr mem body n (br_target br) vals (e, s)))))"

definition run_body :: "f32_ops \<Rightarrow> (kernel_instr \<Rightarrow> f32 \<Rightarrow> f32 option) \<Rightarrow> 's mem \<Rightarrow> kernel_body \<Rightarrow> nat \<Rightarrow>
    kval list \<Rightarrow> 's \<Rightarrow> (kval list \<times> 's) option" where
  "run_body fl tr mem body n args s = run_blocks fl tr mem body n (kb_entry body) args (Map.empty, s)"

section \<open>Liveness\<close>

text \<open>The values a body needs: what is read in any case, and what a needed value reads.\<close>

inductive needed :: "kernel_body \<Rightarrow> kernel_mark list \<Rightarrow> value_id list \<Rightarrow> value_id \<Rightarrow> bool"
  for body marks entry where
  needed_root: "v \<in> set (compact_roots body marks entry) \<Longrightarrow> needed body marks entry v"
| needed_read: "needed body marks entry v \<Longrightarrow> w \<in> set (value_reads body v) \<Longrightarrow> needed body marks entry w"

lemma length_live_loop [simp]: "length (live_loop body live pending) = length live"
  by (induction body live pending rule: live_loop.induct) simp_all

definition marked :: "bool list \<Rightarrow> value_id \<Rightarrow> bool" where
  "marked live v \<longleftrightarrow> unat v < length live \<and> live ! unat v"

definition closed_but :: "kernel_body \<Rightarrow> bool list \<Rightarrow> value_id list \<Rightarrow> bool" where
  "closed_but body live pending \<longleftrightarrow>
     (\<forall>v w. marked live v \<longrightarrow> w \<in> set (value_reads body v) \<longrightarrow> unat w < length live \<longrightarrow>
        marked live w \<or> w \<in> set pending)"

lemma marked_update [simp]:
  "unat v < length live \<Longrightarrow> marked (live[unat v := True]) w \<longleftrightarrow> w = v \<or> marked live w"
  by (auto simp: marked_def nth_list_update word_unat_eq_iff)

lemma live_loop_marks:
  "closed_but body live pending \<Longrightarrow>
    (\<forall>v. marked live v \<longrightarrow> marked (live_loop body live pending) v) \<and>
    (\<forall>v \<in> set pending. unat v < length live \<longrightarrow> marked (live_loop body live pending) v) \<and>
    closed_but body (live_loop body live pending) []"
proof (induction body live pending rule: live_loop.induct)
  case (2 body live v pending)
  consider "length live \<le> unat v" | "unat v < length live" "live ! unat v" | "unat v < length live" "\<not> live ! unat v"
    by linarith
  then show ?case
  proof cases
    case 1
    then have "closed_but body live pending" using 2(4) unfolding closed_but_def by (metis leD set_ConsD)
    then show ?thesis using 2(1) 1 by auto
  next
    case c: 2
    then have "closed_but body live pending" using 2(4) by (auto simp: closed_but_def marked_def)
    then show ?thesis using 2(2) c by (auto simp: marked_def)
  next
    case c: 3
    then have "closed_but body (live[unat v := True]) (rev (value_reads body v) @ pending)"
      using 2(4) by (auto simp: closed_but_def)
    from 2(3) [OF _ _ this] show ?thesis using c by auto
  qed
qed simp

lemma live_loop_needed:
  "\<forall>v. marked live v \<longrightarrow> needed body marks entry v \<Longrightarrow> \<forall>v \<in> set pending. needed body marks entry v \<Longrightarrow>
    marked (live_loop body live pending) w \<Longrightarrow> needed body marks entry w"
proof (induction body live pending arbitrary: w rule: live_loop.induct)
  case (2 body live v pending)
  have "\<forall>x \<in> set (value_reads body v). needed body marks entry x"
    using 2(5) by (auto intro: needed_read)
  then show ?case using 2 by (auto simp: ball_Un split: if_splits)
qed simp

text \<open>The work list computes the needed values of the table.\<close>

lemma live_values_needed:
  "marked (live_values body marks entry) v \<longleftrightarrow> unat v < length (kb_values body) \<and> needed body marks entry v"
proof -
  let ?live = "live_values body marks entry"
  have none: "\<not> marked (replicate n False) u" for n u by (simp add: marked_def)
  have len: "length ?live = length (kb_values body)" by (simp add: live_values_def)
  have roots: "u \<in> set (compact_roots body marks entry) \<Longrightarrow> unat u < length (kb_values body) \<Longrightarrow> marked ?live u"
    and closed: "closed_but body ?live []" for u
    using live_loop_marks [of body "replicate (length (kb_values body)) False" "rev (compact_roots body marks entry)"]
    by (auto simp: live_values_def closed_but_def none)
  have "needed body marks entry v" if "marked ?live v"
    using live_loop_needed [of "replicate (length (kb_values body)) False" body marks entry
        "rev (compact_roots body marks entry)" v] that none
    by (simp add: live_values_def needed_root)
  moreover have "unat v < length (kb_values body)" if "marked ?live v"
    using that len by (simp add: marked_def)
  moreover have "unat v < length (kb_values body) \<Longrightarrow> marked ?live v" if "needed body marks entry v"
    using that
  proof induction
    case (needed_read v w)
    then have "unat v < length (kb_values body)"
      by (auto simp: value_reads_def value_at_def nth_opt_def split: if_splits)
    then show ?case using needed_read closed by (auto simp: closed_but_def len)
  qed (rule roots)
  ultimately show ?thesis by blast
qed

end
