(* ===== verification/Sibling_Merge.thy ===== *)
theory Sibling_Merge
  imports Barrier_Scan Body_Cone Body_Compact
begin

text \<open>
  Fragments that read one input become one fragment (\<open>lichen-kernel-ir/src/siblings.rs\<close>, with the
  parts of \<open>compose.rs\<close> and \<open>fan_in.rs\<close> it calls): the parameter lists are joined, each branch is
  renumbered and lands on the block the branch before it returns from, and the merged body is compacted.

  The sentences of a refusal are left out. A usize is a natural number; an addition that leaves \<open>u32\<close> is
  a panic.
\<close>

section \<open>The joined parameter list\<close>

record scalar_union =
  su_counts :: "nat list"
  su_classes :: "scalar_class list"

fun scalar_union_of :: "kernel_shape list \<Rightarrow> scalar_union option" where
  "scalar_union_of [] = Some \<lparr>su_counts = [], su_classes = []\<rparr>"
| "scalar_union_of (shape # shapes) =
     (let leaves = leaf_classes shape in
      if length leaves < 2 \<or> hd leaves \<noteq> Int_class \<or> last leaves \<noteq> Int_class then None
      else map_option (\<lambda>u. \<lparr>su_counts = (length leaves - 2) # su_counts u,
          su_classes = butlast (tl leaves) @ su_classes u\<rparr>) (scalar_union_of shapes))"

definition scalar_total :: "scalar_union \<Rightarrow> nat" where
  "scalar_total u = sum_list (su_counts u)"

definition union_own :: "scalar_union \<Rightarrow> nat \<Rightarrow> nat option" where
  "union_own u ordinal = nth_opt (su_counts u) ordinal"

definition union_before :: "scalar_union \<Rightarrow> nat \<Rightarrow> nat option" where
  "union_before u ordinal =
     (if ordinal \<le> length (su_counts u) then Some (sum_list (take ordinal (su_counts u))) else None)"

definition union_shape :: "scalar_union \<Rightarrow> kernel_shape" where
  "union_shape u = Tuple_shape ([Scalar_shape Int_class] @ map Scalar_shape (su_classes u) @ [Scalar_shape Int_class])"

definition landed_slot :: "nat \<Rightarrow> nat \<Rightarrow> nat \<Rightarrow> nat \<Rightarrow> nat" where
  "landed_slot slot own earlier scalars =
     (if slot = 0 then 0 else if slot \<le> own then earlier + slot else scalars + 1)"

definition spliced_value :: "nat \<Rightarrow> nat \<Rightarrow> nat \<Rightarrow> value_def \<Rightarrow> value_def option" where
  "spliced_value entry own extra d =
     (case d of
        Block_param block index \<Rightarrow>
          if block = entry \<and> of_nat own < index
          then (if fits_u32 (unat index + unat (of_nat extra :: u32)) then Some (Block_param block (index + of_nat extra)) else None)
          else Some d
      | Instr _ _ _ \<Rightarrow> Some d)"

definition splice_runtime_scalars :: "kernel_body \<Rightarrow> nat \<Rightarrow> nat \<Rightarrow> kernel_body option" where
  "splice_runtime_scalars body own extra =
     (if extra = 0 then Some body
      else
        Option.bind (map_opt (spliced_value (kb_entry body) own extra) (kb_values body)) (\<lambda>values.
        Option.bind (nth_opt (kb_blocks body) (kb_entry body)) (\<lambda>entry.
        let at = min (own + 1) (length (bb_params entry));
            fresh = map (\<lambda>ordinal. of_nat (length values + ordinal)) [0..<extra] in
        Some (body\<lparr>
          kb_values := values @ map (\<lambda>ordinal. Block_param (kb_entry body) (of_nat (at + ordinal))) [0..<extra],
          kb_blocks := (kb_blocks body)[kb_entry body :=
            entry\<lparr>bb_params := take at (bb_params entry) @ fresh @ drop at (bb_params entry)\<rparr>]\<rparr>))))"

section \<open>Renumbering\<close>

record renumber =
  rn_bound :: "value_id \<rightharpoonup> value_id"
  rn_landed :: "value_id \<rightharpoonup> value_id"

definition rn_empty :: renumber where
  "rn_empty = \<lparr>rn_bound = Map.empty, rn_landed = Map.empty\<rparr>"

definition rn_bind :: "value_id \<Rightarrow> value_id \<Rightarrow> renumber \<Rightarrow> renumber" where
  "rn_bind v target r = r\<lparr>rn_bound := (rn_bound r)(v \<mapsto> target)\<rparr>"

definition rn_resolve :: "renumber \<Rightarrow> value_id \<Rightarrow> value_id" where
  "rn_resolve r v =
     (case rn_bound r v of Some w \<Rightarrow> w | None \<Rightarrow> (case rn_landed r v of Some w \<Rightarrow> w | None \<Rightarrow> v))"

definition rn_reserve :: "value_id \<Rightarrow> renumber \<times> value_def list \<Rightarrow> value_id option \<times> renumber \<times> value_def list" where
  "rn_reserve v = (\<lambda>(r, values).
     if rn_bound r v \<noteq> None then (None, r, values)
     else
       let id = of_nat (length values) in
       (Some id, r\<lparr>rn_landed := (rn_landed r)(v \<mapsto> id)\<rparr>, values @ [Block_param 0 0]))"

fun rn_reserve_all :: "value_id list \<Rightarrow> renumber \<times> value_def list \<Rightarrow> value_id option list \<times> renumber \<times> value_def list" where
  "rn_reserve_all [] s = ([], s)"
| "rn_reserve_all (v # vs) s =
     (let (slot, s) = rn_reserve v s; (slots, s) = rn_reserve_all vs s in (slot # slots, s))"

section \<open>Refusals\<close>

datatype compose_refusal =
    No_consumer_to_inline
  | No_producer_to_inline
  | No_branch_to_inline
  | One_branch_is_not_a_sibling_set nat
  | One_body_is_not_a_fan_in nat
  | Absorbed_is_not_an_earlier_body nat nat nat
  | One_input_is_filled_twice nat nat
  | One_producer_feeds_two_inputs nat nat
  | Body_does_not_return_in_one_block nat
  | Producer_is_not_well_formed
  | Consumer_is_not_well_formed "body_error option"
  | Shapes_differ kernel_shape kernel_shape
  | Targets_differ target_facts target_facts
  | Classes_differ scalar_class scalar_class
  | Parameter_counts_differ nat nat nat
  | Absorbed_is_out_of_range u32 nat
  | Absorbed_is_not_read u32
  | Read_position_is_not_a_constant value_id
  | Producer_reads_outside_the_merge u32 nat
  | Producer_writes_nothing
  | Producer_writes_several nat
  | Producer_does_not_return_in_one_block nat
  | Consumer_entry_is_a_branch_target nat
  | Consumer_entry_does_not_return nat
  | Forwarded_value_is_lane_dependent value_id value_id not_index_local
  | Staged_producer_is_not_a_producer nat
  | Staged_output_is_read_by_a_recomputed_producer nat nat
  | Duplicated_mark str
  | Slices_collide u32 u32
  | Merged_body_is_refused body_error
  | Merged_fragment_is_refused scan_error

definition map_refusal :: "('e \<Rightarrow> 'f) \<Rightarrow> ('a, 'e) res \<Rightarrow> ('a, 'f) res" where
  "map_refusal f r = (case r of Ok a \<Rightarrow> Ok a | Err e \<Rightarrow> Err (f e) | Panic \<Rightarrow> Panic)"

section \<open>What is asked of a body\<close>

definition is_buffer_read :: "kernel_instr \<Rightarrow> bool" where
  "is_buffer_read op = (case op of BufferReadCall _ \<Rightarrow> True | _ \<Rightarrow> False)"

definition is_buffer_write :: "kernel_instr \<Rightarrow> bool" where
  "is_buffer_write op = (case op of BufferWriteCall _ \<Rightarrow> True | _ \<Rightarrow> False)"

definition is_slice_access :: "kernel_instr \<Rightarrow> bool" where
  "is_slice_access op = (case op of SliceWriteCall _ \<Rightarrow> True | SliceReadCall _ \<Rightarrow> True | _ \<Rightarrow> False)"

definition listed :: "kernel_body \<Rightarrow> value_id list" where
  "listed body = concat (map bb_instrs (kb_blocks body))"

definition instr_of :: "kernel_body \<Rightarrow> value_id \<Rightarrow> (kernel_instr \<times> value_id list) option" where
  "instr_of body v = (case value_at body v of Some (Instr op args _) \<Rightarrow> Some (op, args) | _ \<Rightarrow> None)"

definition write_sites :: "kernel_body \<Rightarrow> value_id list" where
  "write_sites body = List.filter
     (\<lambda>v. case instr_of body v of Some (op, _) \<Rightarrow> is_buffer_write op | None \<Rightarrow> False) (listed body)"

text \<open>A position is read as \<open>u32\<close>: a constant past it is cut to its low bits.\<close>

definition read_site :: "kernel_body \<Rightarrow> value_id \<Rightarrow> ((value_id \<times> u32) option, compose_refusal) res" where
  "read_site body v =
     (case instr_of body v of
        Some (op, args) \<Rightarrow>
          if is_buffer_read op
          then (case Option.bind (nth_opt args 0) (\<lambda>a. body_constant body (Some a)) of
              Some position \<Rightarrow> Ok (Some (v, ucast position))
            | None \<Rightarrow> Err (Read_position_is_not_a_constant v))
          else Ok None
      | None \<Rightarrow> Ok None)"

fun read_sites :: "kernel_body \<Rightarrow> value_id list \<Rightarrow> ((value_id \<times> u32) list, compose_refusal) res" where
  "read_sites body [] = Ok []"
| "read_sites body (v # vs) =
     res_bind (read_site body v) (\<lambda>site.
     res_bind (read_sites body vs) (\<lambda>sites. Ok (case site of Some s \<Rightarrow> s # sites | None \<Rightarrow> sites)))"

definition buffer_reads :: "kernel_body \<Rightarrow> ((value_id \<times> u32) list, compose_refusal) res" where
  "buffer_reads body = read_sites body (listed body)"

definition branch_targeting :: "kernel_body \<Rightarrow> nat \<Rightarrow> nat option" where
  "branch_targeting body target =
     find_pos (\<lambda>block. list_ex (\<lambda>br. br_target br = target) (branches block)) (kb_blocks body)"

definition first_slice_ordinal :: "kernel_body \<Rightarrow> u32" where
  "first_slice_ordinal body =
     (let ordinals = List.map_filter
        (\<lambda>v. case instr_of body v of
            Some (op, _) \<Rightarrow> if is_slice_access op then slice_ordinal body v else None
          | None \<Rightarrow> None) (listed body) in
      case ordinals of [] \<Rightarrow> 0
      | o1 # os \<Rightarrow> ucast (fold (\<lambda>a b. if sint a < sint b then a else b) os o1))"

fun duplicated_mark :: "str set \<Rightarrow> kernel_mark list \<Rightarrow> (unit, compose_refusal) res" where
  "duplicated_mark seen [] = Ok ()"
| "duplicated_mark seen (mark # marks) =
     (case mark_text mark of
        None \<Rightarrow> duplicated_mark seen marks
      | Some t \<Rightarrow> if t \<in> seen then Err (Duplicated_mark t) else duplicated_mark (insert t seen) marks)"

definition returns_of :: "kernel_body \<Rightarrow> (nat, compose_refusal) res" where
  "returns_of body =
     (case List.filter (\<lambda>k. is_return (bb_terminator (kb_blocks body ! k))) [0..<length (kb_blocks body)] of
        [block] \<Rightarrow> Ok block
      | returns \<Rightarrow> Err (Body_does_not_return_in_one_block (length returns)))"

section \<open>Positions\<close>

text \<open>\<open>saturating_add\<close> on \<open>usize\<close>, and \<open>i64::try_from\<close> with the greatest number where it fails.\<close>

definition saturated :: "nat \<Rightarrow> nat" where
  "saturated n = (if unat (of_nat n :: u64) = n then n else unat (- 1 :: u64))"

definition i64_of :: "nat \<Rightarrow> u64" where
  "i64_of n = (let w = of_nat n in if unat w = n \<and> 0 \<le> sint w then w else 0x7FFFFFFFFFFFFFFF)"

definition position_constant :: "value_def list \<Rightarrow> u64 \<Rightarrow> value_def list \<times> value_id" where
  "position_constant values at =
     (values @ [Instr (Const Int_class at) [] [Int_class]], of_nat (length values))"

type_synonym shifted_table = "value_def list \<times> (value_id \<rightharpoonup> value_id)"

definition shift_read :: "nat \<Rightarrow> nat list \<Rightarrow> value_id \<times> u32 \<Rightarrow> shifted_table \<Rightarrow> shifted_table" where
  "shift_read base absorbed = (\<lambda>(read, position) (values, shifted).
     if unat position \<in> set absorbed then (values, shifted)
     else
       let at = base + unat position - length (List.filter (\<lambda>ordinal. ordinal < unat position) absorbed);
           (values, id) = position_constant values (i64_of at) in
       (values, shifted(read \<mapsto> id)))"

definition shifted_past :: "value_def list \<Rightarrow> (value_id \<times> u32) list \<Rightarrow> nat \<Rightarrow> nat list \<Rightarrow> shifted_table" where
  "shifted_past values reads base absorbed = fold (shift_read base absorbed) reads (values, Map.empty)"

definition shift_write :: "kernel_body \<Rightarrow> nat \<Rightarrow> value_id \<Rightarrow> shifted_table \<Rightarrow> shifted_table" where
  "shift_write consumer base = (\<lambda>write (values, shifted).
     (case Option.bind (instr_of consumer write) (\<lambda>(_, args). Option.bind (nth_opt args 0)
         (\<lambda>a. body_constant consumer (Some a))) of
        None \<Rightarrow> (values, shifted)
      | Some held \<Rightarrow>
          let at = saturated (base + unat held) in
          if at = unat held then (values, shifted)
          else let (values, id) = position_constant values (i64_of at) in (values, shifted(write \<mapsto> id))))"

definition shifted_write_positions :: "value_def list \<Rightarrow> kernel_body \<Rightarrow> nat \<Rightarrow> shifted_table" where
  "shifted_write_positions values consumer base =
     fold (shift_write consumer base) (write_sites consumer) (values, Map.empty)"

section \<open>One branch\<close>

definition mapped_br :: "(value_id \<Rightarrow> value_id) \<Rightarrow> (nat \<Rightarrow> nat) \<Rightarrow> br \<Rightarrow> br" where
  "mapped_br f block b = \<lparr>br_target = block (br_target b), br_args = map f (br_args b)\<rparr>"

fun mapped_terminator :: "(value_id \<Rightarrow> value_id) \<Rightarrow> (nat \<Rightarrow> nat) \<Rightarrow> terminator \<Rightarrow> terminator" where
  "mapped_terminator f block (Return values) = Return (map f values)"
| "mapped_terminator f block (Br b) = Br (mapped_br f block b)"
| "mapped_terminator f block (CondBr cond if_true if_false) =
     CondBr (f cond) (mapped_br f block if_true) (mapped_br f block if_false)"

record sibling =
  sb_fragment :: kernel_fragment
  sb_shared :: u32

record sibling_edge =
  ed_fragment :: kernel_fragment
  ed_shared :: nat
  ed_reads :: "(value_id \<times> u32) list"
  ed_reads_shared :: "value_id list"

definition edge_of :: "kernel_fragment \<Rightarrow> nat \<Rightarrow> sibling \<Rightarrow> (sibling_edge, compose_refusal) res" where
  "edge_of first ports branch =
     (let f = sb_fragment branch; body = kf_body f; shared = unat (sb_shared branch) in
      res_bind (map_refusal (\<lambda>cause. Consumer_is_not_well_formed (Some cause)) (validate body)) (\<lambda>_.
      res_bind (require (kf_target first = kf_target f) (Targets_differ (kf_target first) (kf_target f))) (\<lambda>_.
      res_bind (require (length (kf_input_classes f) = kf_inputs f) (Consumer_is_not_well_formed None)) (\<lambda>_.
      res_bind (duplicated_mark {} (kf_marks f)) (\<lambda>_.
      res_bind (case branch_targeting body (kb_entry body) of
          Some block \<Rightarrow> Err (Consumer_entry_is_a_branch_target block) | None \<Rightarrow> Ok ()) (\<lambda>_.
      res_bind (returns_of body) (\<lambda>_.
      res_bind (require (shared < kf_inputs f) (Absorbed_is_out_of_range (sb_shared branch) (kf_inputs f))) (\<lambda>_.
      res_bind (buffer_reads body) (\<lambda>reads.
      res_bind (case List.find (\<lambda>position. kf_inputs f \<le> unat position) (map snd reads) of
          Some position \<Rightarrow> Err (Producer_reads_outside_the_merge position ports) | None \<Rightarrow> Ok ()) (\<lambda>_.
      let reads_shared = map fst (List.filter (\<lambda>(_, position). unat position = shared) reads) in
      res_bind (require (reads_shared \<noteq> []) (Absorbed_is_not_read (sb_shared branch))) (\<lambda>_.
        Ok \<lparr>ed_fragment = f, ed_shared = shared, ed_reads = reads, ed_reads_shared = reads_shared\<rparr>)))))))))))"

fun edges_of :: "kernel_fragment \<Rightarrow> nat \<Rightarrow> sibling list \<Rightarrow> (sibling_edge list, compose_refusal) res" where
  "edges_of first ports [] = Ok []"
| "edges_of first ports (branch # rest) =
     res_bind (edge_of first ports branch) (\<lambda>edge.
     res_bind (edges_of first ports rest) (\<lambda>edges. Ok (edge # edges)))"

text \<open>What the loop over the branches changes.\<close>

record merge_state =
  ms_body :: kernel_body
  ms_landing :: nat
  ms_union :: nat
  ms_outputs :: nat
  ms_slices :: "slice list"
  ms_blocks_base :: nat
  ms_input_classes :: "scalar_class list"
  ms_output_classes :: "scalar_class list"

text \<open>The id every value of a branch takes, and the values it lands on, appended to those there are.\<close>

definition branch_params :: "scalar_union \<Rightarrow> nat \<Rightarrow> value_id list \<Rightarrow> value_id list \<Rightarrow> renumber option" where
  "branch_params u index first_params params =
     Option.bind (union_own u index) (\<lambda>own. Option.bind (union_before u index) (\<lambda>earlier.
     fold_opt (\<lambda>(slot, p) r. map_option (\<lambda>target. rn_bind p target r)
         (nth_opt first_params (landed_slot slot own earlier (scalar_total u))))
       (enumerate 0 params) rn_empty))"

definition moved_access :: "(value_id \<rightharpoonup> value_id) \<Rightarrow> (value_id \<rightharpoonup> value_id) \<Rightarrow> value_id \<Rightarrow> value_id option" where
  "moved_access shifted writes v = (case shifted v of Some c \<Rightarrow> Some c | None \<Rightarrow> writes v)"

definition branch_sequence :: "(value_id \<Rightarrow> value_id) \<Rightarrow> (value_id \<Rightarrow> value_id option) \<Rightarrow> value_id list \<Rightarrow> value_id list" where
  "branch_sequence f moved vs =
     concat (map (\<lambda>v. case moved v of None \<Rightarrow> [f v] | Some c \<Rightarrow> [c, f v]) vs)"

definition branch_def :: "(value_id \<Rightarrow> value_id) \<Rightarrow> (nat \<Rightarrow> nat) \<Rightarrow> (value_id \<Rightarrow> value_id option) \<Rightarrow> value_id \<Rightarrow>
    value_def \<Rightarrow> value_def" where
  "branch_def f block moved v d =
     (case d of
        Block_param k index \<Rightarrow> Block_param (block k) index
      | Instr op args classes \<Rightarrow>
          let args = map f args in
          Instr op (case moved v of Some c \<Rightarrow> if args = [] then [] else c # tl args | None \<Rightarrow> args) classes)"

definition branch_block :: "nat \<Rightarrow> nat \<Rightarrow> nat \<Rightarrow> nat \<Rightarrow> nat" where
  "branch_block entry landing base block =
     (if block = entry then landing else base + block - (if entry < block then 1 else 0))"

definition write_back :: "(value_id option \<times> value_def) list \<Rightarrow> value_def list \<Rightarrow> value_def list option" where
  "write_back slots values =
     fold_opt (\<lambda>(slot, d) values. case slot of None \<Rightarrow> Some values
         | Some target \<Rightarrow> if unat target < length values then Some (values[unat target := d]) else None)
       slots values"

text \<open>The ids of a branch, the positions its accesses take, and the table that holds its values.\<close>

record branch_plan =
  bp_ids :: renumber
  bp_shifted :: "value_id \<rightharpoonup> value_id"
  bp_writes :: "value_id \<rightharpoonup> value_id"
  bp_block :: "nat \<Rightarrow> nat"
  bp_values :: "value_def list"

definition plan_branch :: "scalar_union \<Rightarrow> value_id list \<Rightarrow> nat \<Rightarrow> nat \<Rightarrow> sibling_edge \<Rightarrow> merge_state \<Rightarrow> branch_plan option" where
  "plan_branch u first_params shared_port index edge ms =
     (let branch = kf_body (ed_fragment edge) in
      Option.bind (parameters branch) (\<lambda>params.
      Option.bind (branch_params u index first_params params) (\<lambda>bound.
      let (slots, ids, reserved) =
            rn_reserve_all (map of_nat [0..<length (kb_values branch)]) (bound, kb_values (ms_body ms));
          (values, shifted) = shifted_past reserved (ed_reads edge) (ms_union ms) [ed_shared edge];
          (values, shared) = position_constant values (i64_of shared_port);
          shifted = fold (\<lambda>read shifted. shifted(read \<mapsto> shared)) (ed_reads_shared edge) shifted;
          (values, writes) = shifted_write_positions values branch (ms_outputs ms);
          block = branch_block (kb_entry branch) (ms_landing ms) (ms_blocks_base ms) in
      map_option (\<lambda>values. \<lparr>bp_ids = ids, bp_shifted = shifted, bp_writes = writes, bp_block = block, bp_values = values\<rparr>)
        (write_back (zip slots (map (\<lambda>(v, d). branch_def (rn_resolve ids) block (moved_access shifted writes) (of_nat v) d)
           (enumerate 0 (kb_values branch)))) values))))"

definition bp_sequence :: "branch_plan \<Rightarrow> value_id list \<Rightarrow> value_id list" where
  "bp_sequence bp = branch_sequence (rn_resolve (bp_ids bp)) (moved_access (bp_shifted bp) (bp_writes bp))"

definition pushed_block :: "branch_plan \<Rightarrow> basic_block \<Rightarrow> basic_block" where
  "pushed_block bp b =
     \<lparr>bb_params = map (rn_resolve (bp_ids bp)) (bb_params b), bb_instrs = bp_sequence bp (bb_instrs b),
      bb_terminator = mapped_terminator (rn_resolve (bp_ids bp)) (bp_block bp) (bb_terminator b)\<rparr>"

definition landed_block :: "branch_plan \<Rightarrow> basic_block \<Rightarrow> basic_block \<Rightarrow> basic_block" where
  "landed_block bp landing b =
     landing\<lparr>bb_instrs := bb_instrs landing @ bp_sequence bp (bb_instrs b),
       bb_terminator := mapped_terminator (rn_resolve (bp_ids bp)) (bp_block bp) (bb_terminator b)\<rparr>"

definition land_branch :: "branch_plan \<Rightarrow> kernel_body \<Rightarrow> nat \<Rightarrow> kernel_body \<Rightarrow> kernel_body option" where
  "land_branch bp branch landing body =
     (let entry = kb_entry branch;
          blocks = kb_blocks body @ map (\<lambda>(_, b). pushed_block bp b)
            (List.filter (\<lambda>(k, _). k \<noteq> entry) (enumerate 0 (kb_blocks branch))) in
      Option.bind (nth_opt blocks landing) (\<lambda>landing_block.
      Option.bind (nth_opt (kb_blocks branch) entry) (\<lambda>entry_block.
      Some (body\<lparr>kb_values := bp_values bp,
        kb_blocks := blocks[landing := landed_block bp landing_block entry_block],
        kb_barriers := kb_barriers body @ map (\<lambda>expr.
          \<lparr>b_write = rn_resolve (bp_ids bp) (b_write expr), b_read = rn_resolve (bp_ids bp) (b_read expr)\<rparr>)
          (kb_barriers branch)\<rparr>))))"

definition merge_branch :: "scalar_union \<Rightarrow> value_id list \<Rightarrow> nat \<Rightarrow> kernel_body \<Rightarrow> nat \<times> sibling_edge \<Rightarrow> merge_state \<Rightarrow>
    (merge_state, compose_refusal) res" where
  "merge_branch u first_params shared_port first_body = (\<lambda>(index, edge) ms.
     let f = ed_fragment edge; branch = kf_body f in
     if ms_slices ms \<noteq> [] \<and> kf_slices f \<noteq> []
     then Err (Slices_collide (first_slice_ordinal first_body) (first_slice_ordinal branch))
     else
     expect_some (plan_branch u first_params shared_port index edge ms) (\<lambda>bp.
     expect_some (land_branch bp branch (ms_landing ms) (ms_body ms)) (\<lambda>body.
     res_bind (returns_of branch) (\<lambda>returned.
       Ok \<lparr>ms_body = body,
           ms_landing = bp_block bp returned,
           ms_union = ms_union ms + (kf_inputs f - 1),
           ms_outputs = ms_outputs ms + kf_outputs f,
           ms_slices = (if ms_slices ms = [] then kf_slices f else ms_slices ms),
           ms_blocks_base = ms_blocks_base ms + (length (kb_blocks branch) - 1),
           ms_input_classes = ms_input_classes ms @
             map snd (List.filter (\<lambda>(ordinal, _). ordinal \<noteq> ed_shared edge) (enumerate 0 (kf_input_classes f))),
           ms_output_classes = ms_output_classes ms @ kf_output_classes f\<rparr>))))"

definition no_roles :: kernel_roles where
  "no_roles = \<lparr>r_scalars = [], r_inputs = [], r_outputs = [], r_input_classes = [], r_output_classes = [],
     r_output_extents = []\<rparr>"

text \<open>Every branch binds its own domain.\<close>

definition check_domain :: "kernel_fragment \<Rightarrow> kernel_fragment \<Rightarrow> nat \<times> sibling_edge \<Rightarrow> (unit, compose_refusal) res" where
  "check_domain first last_fragment = (\<lambda>(index, edge).
     let f = ed_fragment edge; leaves = flat_arity (kf_param_shape f) in
     expect_some (parameters (kf_body f)) (\<lambda>params.
     expect_some (parameters (kf_body first)) (\<lambda>first_params.
       require (length params = leaves)
         (if index = 0 then Shapes_differ (kf_param_shape first) (kf_param_shape last_fragment)
          else Parameter_counts_differ (length first_params) (length params) leaves))))"

text \<open>The body the branches are merged into, and the fragment it becomes once it is compacted and checked.\<close>

definition merge_start :: "sibling list \<Rightarrow> sibling_edge list \<Rightarrow> scalar_union \<Rightarrow> (value_id list \<times> merge_state, compose_refusal) res" where
  "merge_start siblings edges u =
     (let first = ed_fragment (hd edges) in
      expect_some (union_own u 0) (\<lambda>own.
      expect_some (splice_runtime_scalars ((kf_body first)\<lparr>kb_exact :=
          list_ex (\<lambda>b. kb_exact (kf_body (sb_fragment b))) siblings\<rparr>) own (scalar_total u - own)) (\<lambda>body.
      expect_some (parameters body) (\<lambda>first_params.
      res_bind (returns_of (kf_body first)) (\<lambda>landing.
        Ok (first_params, \<lparr>ms_body = body, ms_landing = landing, ms_union = kf_inputs first,
          ms_outputs = kf_outputs first, ms_slices = kf_slices first, ms_blocks_base = length (kb_blocks body),
          ms_input_classes = kf_input_classes first, ms_output_classes = kf_output_classes first\<rparr>))))))"

definition merged_fragment :: "scalar_union \<Rightarrow> nat \<Rightarrow> kernel_fragment \<Rightarrow> kernel_fragment \<Rightarrow> merge_state \<Rightarrow>
    kernel_body \<Rightarrow> kernel_mark list \<Rightarrow> kernel_fragment" where
  "merged_fragment u ports first last_fragment ms body marks =
     \<lparr>kf_param_shape = union_shape u, kf_roles = no_roles, kf_body = body, kf_inputs = ports,
      kf_outputs = ms_outputs ms, kf_input_classes = ms_input_classes ms,
      kf_output_classes = ms_output_classes ms, kf_result_classes = kf_result_classes last_fragment,
      kf_target = kf_target first, kf_slices = ms_slices ms, kf_marks = marks\<rparr>"

definition merge_edges :: "sibling list \<Rightarrow> nat \<Rightarrow> sibling_edge list \<Rightarrow> scalar_union \<Rightarrow> (kernel_fragment, compose_refusal) res" where
  "merge_edges siblings ports edges u =
     (let first = ed_fragment (hd edges) in
      res_bind (merge_start siblings edges u) (\<lambda>(first_params, ms).
      res_bind (fold_res (merge_branch u first_params (ed_shared (hd edges)) (kf_body first)) (tl (enumerate 0 edges)) ms) (\<lambda>ms.
      expect_some (compact (ms_body ms) (kf_marks first)) (\<lambda>(body, marks).
      let fragment = merged_fragment u ports first (ed_fragment (last edges)) ms body marks in
      res_bind (map_refusal Merged_body_is_refused (validate body)) (\<lambda>_.
      res_bind (map_refusal Merged_fragment_is_refused (fragment_validate fragment)) (\<lambda>_.
        Ok fragment))))))"

definition compose_siblings :: "sibling list \<Rightarrow> (kernel_fragment, compose_refusal) res" where
  "compose_siblings siblings =
     (if siblings = [] then Err No_branch_to_inline
      else if length siblings < 2 then Err (One_branch_is_not_a_sibling_set (length siblings))
      else
        let first = sb_fragment (hd siblings);
            last_fragment = sb_fragment (last siblings);
            ports = sum_list (map (\<lambda>b. kf_inputs (sb_fragment b)) siblings) - (length siblings - 1) in
        res_bind (require (length (kf_input_classes first) = kf_inputs first) Producer_is_not_well_formed) (\<lambda>_.
        case scalar_union_of (map (\<lambda>b. kf_param_shape (sb_fragment b)) siblings) of
          None \<Rightarrow> Err (Shapes_differ (kf_param_shape first) (kf_param_shape last_fragment))
        | Some u \<Rightarrow>
            res_bind (edges_of first ports siblings) (\<lambda>edges.
            res_bind (check_each (check_domain first last_fragment) (enumerate 0 edges)) (\<lambda>_.
            if kf_inputs first + sum_list (map (\<lambda>e. kf_inputs (ed_fragment e) - 1) (tl edges)) \<noteq> ports then Panic
            else merge_edges siblings ports edges u))))"

end
