(* ===== verification/Compact_Correct.thy ===== *)
theory Compact_Correct
  imports Body_Compact
begin

text \<open>
  The compacted body computes what the body computes, and every parameter of it is at the place its
  value states.
\<close>

section \<open>Fresh ids\<close>

definition survivor_rank :: "bool list \<Rightarrow> nat \<Rightarrow> nat" where
  "survivor_rank live i = length (List.filter id (take i live))"

lemma rank_Cons: "survivor_rank (flag # flags) (Suc i) = (if flag then Suc (survivor_rank flags i) else survivor_rank flags i)"
  by (simp add: survivor_rank_def)

lemma length_survivor_ids [simp]: "length (survivor_ids n flags) = length flags"
  by (induction n flags rule: survivor_ids.induct) auto

lemma survivor_ids_at:
  "i < length flags \<Longrightarrow>
    survivor_ids n flags ! i = (if flags ! i then Some (n + of_nat (survivor_rank flags i)) else None)"
proof (induction n flags arbitrary: i rule: survivor_ids.induct)
  case (2 n flag flags)
  then show ?case by (cases i) (auto simp: rank_Cons survivor_rank_def)
qed simp

lemma rank_less: "i < length flags \<Longrightarrow> flags ! i \<Longrightarrow> survivor_rank flags i < length (List.filter id flags)"
proof (induction flags arbitrary: i)
  case (Cons flag flags)
  then show ?case by (cases i) (auto simp: rank_Cons survivor_rank_def)
qed simp

lemma rank_mono:
  assumes "i < j" and "j \<le> length flags" and "flags ! i"
  shows "survivor_rank flags i < survivor_rank flags j"
proof -
  have "take j flags = take i flags @ flags ! i # drop (Suc i) (take j flags)"
    using assms id_take_nth_drop [of i "take j flags"] by (simp add: min_def)
  then have "survivor_rank flags j = survivor_rank flags i + length (List.filter id (flags ! i # drop (Suc i) (take j flags)))"
    unfolding survivor_rank_def by (metis filter_append length_append)
  then show ?thesis using assms(3) by simp
qed

lemma rank_inj:
  assumes "survivor_rank flags i = survivor_rank flags j" and "i < length flags" "flags ! i" and "j < length flags" "flags ! j"
  shows "i = j"
  using assms rank_mono [of i j flags] rank_mono [of j i flags] by (cases i j rule: linorder_cases) auto

lemma map_filter_step:
  "List.map_filter f (x # xs) = (case f x of None \<Rightarrow> [] | Some y \<Rightarrow> [y]) @ List.map_filter f xs"
  by (simp add: map_filter_simps split: option.split)

lemma map_filter_total: "(\<And>x. x \<in> set xs \<Longrightarrow> f x = Some (g x)) \<Longrightarrow> List.map_filter f xs = map g xs"
  by (induction xs) (simp_all add: map_filter_simps)

lemma surviving_at:
  assumes "length flags = length ds"
  shows "i < length flags \<Longrightarrow> flags ! i \<Longrightarrow>
    nth_opt (List.map_filter (\<lambda>(slot, d). if slot = None then None else Some (g d)) (zip (survivor_ids n flags) ds))
      (survivor_rank flags i) = Some (g (ds ! i))"
  using assms
proof (induction n flags arbitrary: i ds rule: survivor_ids.induct)
  case (2 n flag flags)
  then obtain d ds' where ds: "ds = d # ds'" by (cases ds) auto
  show ?case
  proof (cases i)
    case 0
    then show ?thesis using 2(4) ds by (simp add: map_filter_step survivor_rank_def)
  next
    case (Suc k)
    then show ?thesis using 2 ds by (cases flag) (auto simp: map_filter_step rank_Cons)
  qed
qed simp

lemma length_surviving:
  assumes "length flags = length ds"
  shows "length (List.map_filter (\<lambda>(slot, d). if slot = None then None else Some (g d)) (zip (survivor_ids n flags) ds)) =
    length (List.filter id flags)"
  using assms
proof (induction n flags arbitrary: ds rule: survivor_ids.induct)
  case (2 n flag flags)
  then show ?case by (cases ds) (auto simp: map_filter_step)
qed (simp add: map_filter_simps)

section \<open>Parameters at their places\<close>

lemma place_params_total:
  "\<forall>(k, i, p) \<in> set places. unat p < length values \<Longrightarrow>
    \<exists>values'. fold_opt place_param places values = Some values' \<and> length values' = length values"
proof (induction places arbitrary: "values")
  case (Cons place places)
  obtain k i p where place: "place = (k, i, p)" by (cases place)
  then have "unat p < length values" using Cons.prems by simp
  then show ?case using Cons.IH [of "values[unat p := Block_param k (of_nat i)]"] Cons.prems place
    by (simp add: place_param_def)
qed simp

lemma place_params_at:
  assumes "fold_opt place_param places values = Some values'"
  shows "length values' = length values"
    and "(\<forall>(k, i, p) \<in> set places. unat p \<noteq> j) \<Longrightarrow> nth_opt values' j = nth_opt values j"
    and "distinct (map (\<lambda>(k, i, p). p) places) \<Longrightarrow> (k, i, p) \<in> set places \<Longrightarrow>
      nth_opt values' (unat p) = Some (Block_param k (of_nat i))"
proof -
  have "length values' = length values \<and>
    ((\<forall>(k, i, p) \<in> set places. unat p \<noteq> j) \<longrightarrow> nth_opt values' j = nth_opt values j) \<and>
    (distinct (map (\<lambda>(k, i, p). p) places) \<longrightarrow> (k, i, p) \<in> set places \<longrightarrow>
      nth_opt values' (unat p) = Some (Block_param k (of_nat i)))" for j k i p
    using assms
  proof (induction places arbitrary: "values" j k i p)
    case (Cons place places)
    obtain l m q where place: "place = (l, m, q)" by (cases place)
    let ?next = "values[unat q := Block_param l (of_nat m)]"
    have q: "unat q < length values" "fold_opt place_param places ?next = Some values'"
      using Cons.prems place by (auto simp: place_param_def split: if_splits)
    note rest = Cons.IH [OF q(2)]
    have here: "nth_opt values' (unat q) = Some (Block_param l (of_nat m))"
      if "\<forall>(k, i, p) \<in> set places. p \<noteq> q"
    proof -
      have "\<forall>(k, i, p) \<in> set places. unat p \<noteq> unat q" using that by (auto simp: word_unat_eq_iff)
      then have "nth_opt values' (unat q) = nth_opt ?next (unat q)" using rest [of "unat q"] by blast
      then show ?thesis using q(1) by (simp only: nth_opt_def length_list_update nth_list_update_eq if_True)
    qed
    have "nth_opt values' j = nth_opt values j" if "\<forall>(k, i, p) \<in> set (place # places). unat p \<noteq> j"
    proof -
      have "nth_opt values' j = nth_opt ?next j" using rest [of j] that place by auto
      then show ?thesis using that place by (simp add: nth_opt_def)
    qed
    moreover have "nth_opt values' (unat p) = Some (Block_param k (of_nat i))"
      if distinct: "distinct (map (\<lambda>(k, i, p). p) (place # places))" and "(k, i, p) \<in> set (place # places)"
    proof (cases "(k, i, p) = place")
      case True
      have "\<forall>(k, i, p) \<in> set places. p \<noteq> q" using distinct place by force
      then show ?thesis using here True place by simp
    next
      case False
      then show ?thesis using that rest [of 0 k i p] by auto
    qed
    ultimately show ?case using rest by simp
  qed simp
  then show "length values' = length values"
    and "(\<forall>(k, i, p) \<in> set places. unat p \<noteq> j) \<Longrightarrow> nth_opt values' j = nth_opt values j"
    and "distinct (map (\<lambda>(k, i, p). p) places) \<Longrightarrow> (k, i, p) \<in> set places \<Longrightarrow>
      nth_opt values' (unat p) = Some (Block_param k (of_nat i))"
    by blast+
qed

section \<open>The compacted body\<close>

text \<open>Every parameter a block lists is the value that states the block and the index, and the ids fit.\<close>

definition params_placed :: "kernel_body \<Rightarrow> bool" where
  "params_placed body \<longleftrightarrow> length (kb_values body) < 2 ^ 32 \<and>
     list_all (\<lambda>(k, i, p). value_at body p = Some (Block_param k (of_nat i)) \<and> i < 2 ^ 32)
       (param_places (kb_blocks body))"

lemma param_places_iff:
  "(k, i, p) \<in> set (param_places blocks) \<longleftrightarrow>
    (\<exists>block. nth_opt blocks k = Some block \<and> nth_opt (bb_params block) i = Some p)"
  by (force simp: param_places_def in_set_enumerate_eq image_iff)

lemma params_placedD:
  assumes "params_placed body" and "nth_opt (kb_blocks body) k = Some block" and "nth_opt (bb_params block) i = Some p"
  shows "value_at body p = Some (Block_param k (of_nat i))" "i < 2 ^ 32"
  using assms param_places_iff [of k i p "kb_blocks body"] by (auto simp: params_placed_def list_all_iff)

text \<open>A body, its marks and what the compaction computes on the way.\<close>

record compaction =
  cp_body :: kernel_body
  cp_live :: "bool list"
  cp_ids :: "value_id option list"
  cp_keeps :: "nat list list"
  cp_blocks :: "basic_block list"
  cp_values :: "value_def list"

definition live_in :: "compaction \<Rightarrow> value_id \<Rightarrow> bool" where
  "live_in c v \<longleftrightarrow> marked (cp_live c) v"

definition compaction_of :: "kernel_body \<Rightarrow> kernel_mark list \<Rightarrow> value_id list \<Rightarrow> compaction \<Rightarrow> bool" where
  "compaction_of body marks entry c \<longleftrightarrow>
     cp_body c = body \<and> cp_live c = live_values body marks entry \<and> cp_ids c = survivor_ids 0 (cp_live c) \<and>
     map_opt (kept_params (cp_live c)) (kb_blocks body) = Some (cp_keeps c) \<and>
     cp_blocks c = map (compact_block body (cp_live c) (cp_ids c) (cp_keeps c)) (zip (cp_keeps c) (kb_blocks body)) \<and>
     fold_opt place_param (param_places (cp_blocks c)) (surviving_values (cp_ids c) (kb_values body)) = Some (cp_values c)"

abbreviation (input) "ren c \<equiv> renumbered (cp_ids c)"

lemma ren_live:
  assumes "compaction_of body marks entry c" and "params_placed body" and "live_in c v"
  shows "unat (ren c v) = survivor_rank (cp_live c) (unat v)"
    "unat (ren c v) < length (List.filter id (cp_live c))"
proof -
  have v: "unat v < length (cp_live c)" "cp_live c ! unat v" using assms(3) by (simp_all add: live_in_def marked_def)
  have "length (cp_live c) < 2 ^ 32"
    using assms(1,2) by (simp add: compaction_of_def params_placed_def live_values_def)
  then have small: "survivor_rank (cp_live c) (unat v) < 2 ^ 32"
    using rank_less [OF v] length_filter_le [of id "cp_live c"] by linarith
  have "ren c v = of_nat (survivor_rank (cp_live c) (unat v))"
    using assms(1) v by (simp add: renumbered_def compaction_of_def nth_opt_def survivor_ids_at)
  then show "unat (ren c v) = survivor_rank (cp_live c) (unat v)" using small by (simp add: unat_of_nat_u32)
  then show "unat (ren c v) < length (List.filter id (cp_live c))" using rank_less [OF v] by simp
qed

lemma ren_inj:
  assumes "compaction_of body marks entry c" and "params_placed body"
    and "live_in c v" "live_in c w" "ren c v = ren c w"
  shows "v = w"
proof -
  have "survivor_rank (cp_live c) (unat v) = survivor_rank (cp_live c) (unat w)"
    using ren_live(1) [OF assms(1,2)] assms(3-5) by metis
  then have "unat v = unat w"
    using assms(3,4) rank_inj unfolding live_in_def marked_def by blast
  then show ?thesis by (simp add: word_unat_eq_iff)
qed

lemma map_opt_length: "map_opt f xs = Some ys \<Longrightarrow> length ys = length xs"
  by (simp add: map_opt_Some)

lemma cp_keeps_at:
  assumes "compaction_of body marks entry c" and "nth_opt (kb_blocks body) k = Some block"
  shows "nth_opt (cp_keeps c) k =
      Some (List.filter (\<lambda>at. live_in c (bb_params block ! at)) [0..<length (bb_params block)])"
    and "p \<in> set (bb_params block) \<Longrightarrow> unat p < length (cp_live c)"
proof -
  have k: "k < length (kb_blocks body)" "kb_blocks body ! k = block" using assms(2) by simp_all
  have keeps: "map_opt (kept_params (cp_live c)) (kb_blocks body) = Some (cp_keeps c)"
    using assms(1) unfolding compaction_of_def by blast
  then have kept: "kept_params (cp_live c) block = Some (cp_keeps c ! k)" and len: "k < length (cp_keeps c)"
    using k by (auto simp: map_opt_Some)
  then show small: "p \<in> set (bb_params block) \<Longrightarrow> unat p < length (cp_live c)" for p
    by (auto simp: kept_params_def list_all_iff split: if_splits)
  have "cp_keeps c ! k = List.filter (\<lambda>at. cp_live c ! unat (bb_params block ! at)) [0..<length (bb_params block)]"
    using kept by (simp add: kept_params_def split: if_splits)
  also have "\<dots> = List.filter (\<lambda>at. live_in c (bb_params block ! at)) [0..<length (bb_params block)]"
    using small by (intro filter_cong) (auto simp: live_in_def marked_def)
  finally show "nth_opt (cp_keeps c) k =
      Some (List.filter (\<lambda>at. live_in c (bb_params block ! at)) [0..<length (bb_params block)])"
    using len by simp
qed

lemma cp_body_is: "compaction_of body marks entry c \<Longrightarrow> cp_body c = body"
  unfolding compaction_of_def by blast

lemma live_in_needed:
  assumes "compaction_of body marks entry c"
  shows "live_in c v \<longleftrightarrow> unat v < length (kb_values body) \<and> needed body marks entry v"
  using assms live_values_needed unfolding live_in_def compaction_of_def by metis

lemma cp_block_at:
  assumes "compaction_of body marks entry c" and "nth_opt (kb_blocks body) k = Some block"
  shows "nth_opt (cp_blocks c) k = Some
    \<lparr>bb_params = map (\<lambda>at. ren c (bb_params block ! at))
       (List.filter (\<lambda>at. live_in c (bb_params block ! at)) [0..<length (bb_params block)]),
     bb_instrs = map (ren c) (List.filter (kept_instr body (cp_live c)) (bb_instrs block)),
     bb_terminator = pruned (cp_keeps c) (cp_ids c) (bb_terminator block)\<rparr>"
proof -
  have k: "k < length (kb_blocks body)" "kb_blocks body ! k = block" using assms(2) by simp_all
  have "cp_blocks c = map (compact_block body (cp_live c) (cp_ids c) (cp_keeps c)) (zip (cp_keeps c) (kb_blocks body))"
    using assms(1) unfolding compaction_of_def by blast
  then show ?thesis
    using k cp_keeps_at(1) [OF assms] by (simp add: compact_block_def)
qed

lemma cp_blocks_length: "compaction_of body marks entry c \<Longrightarrow> length (cp_blocks c) = length (kb_blocks body)"
  using map_opt_length unfolding compaction_of_def by (metis length_map length_zip min.idem)

lemma cp_place:
  assumes "compaction_of body marks entry c" and "(k, j, q) \<in> set (param_places (cp_blocks c))"
  obtains block p i where "nth_opt (kb_blocks body) k = Some block" "nth_opt (bb_params block) i = Some p" "live_in c p" "q = ren c p"
proof -
  obtain new where new: "nth_opt (cp_blocks c) k = Some new" "nth_opt (bb_params new) j = Some q"
    using assms(2) by (auto simp: param_places_iff simp del: nth_opt_Some)
  then have "k < length (kb_blocks body)" using cp_blocks_length [OF assms(1)] by simp
  then obtain block where block: "nth_opt (kb_blocks body) k = Some block" by (simp add: nth_opt_def)
  have "q \<in> set (bb_params new)" using new(2) by auto
  then obtain i where "i < length (bb_params block)" "live_in c (bb_params block ! i)" "q = ren c (bb_params block ! i)"
    using cp_block_at [OF assms(1) block] new(1) by auto
  then show thesis using block by (intro that [of block i "bb_params block ! i"]) simp_all
qed

lemma cp_value_instr:
  assumes c: "compaction_of body marks entry c" and placed: "params_placed body" and live: "live_in c v"
    and v: "value_at body v = Some (Instr op args classes)"
  shows "nth_opt (cp_values c) (unat (ren c v)) = Some (Instr op (map (ren c) args) classes)"
proof -
  have flags: "unat v < length (cp_live c)" "cp_live c ! unat v" using live by (simp_all add: live_in_def marked_def)
  have len: "length (cp_live c) = length (kb_values body)" and ids: "cp_ids c = survivor_ids 0 (cp_live c)"
    and run: "fold_opt place_param (param_places (cp_blocks c)) (surviving_values (cp_ids c) (kb_values body)) = Some (cp_values c)"
    using c unfolding compaction_of_def live_values_def by auto
  have "nth_opt (surviving_values (cp_ids c) (kb_values body)) (unat (ren c v)) =
      Some (renumbered_def (cp_ids c) (kb_values body ! unat v))"
    unfolding surviving_values_def ids ren_live(1) [OF c placed live, unfolded ids]
    by (rule surviving_at [OF len flags])
  moreover have "\<forall>(k, j, q) \<in> set (param_places (cp_blocks c)). unat q \<noteq> unat (ren c v)"
  proof (clarify)
    fix k j q
    assume "(k, j, q) \<in> set (param_places (cp_blocks c))" and same: "unat q = unat (ren c v)"
    then obtain block p i where p: "nth_opt (kb_blocks body) k = Some block" "nth_opt (bb_params block) i = Some p"
      "live_in c p" "q = ren c p" using cp_place [OF c] by metis
    then have "p = v" using ren_inj [OF c placed _ live] same by (simp add: word_unat_eq_iff)
    then show False using params_placedD(1) [OF placed p(1,2)] v by simp
  qed
  ultimately have "nth_opt (cp_values c) (unat (ren c v)) = Some (renumbered_def (cp_ids c) (kb_values body ! unat v))"
    using place_params_at(2) [OF run] by simp
  then show ?thesis using v by (simp add: value_at_def)
qed

section \<open>The simulation\<close>

text \<open>
  The environments agree on the live values through the renumbering, and bind values of the table only.
\<close>

definition env_sim :: "compaction \<Rightarrow> env \<Rightarrow> env \<Rightarrow> bool" where
  "env_sim c e e' \<longleftrightarrow>
     (\<forall>v. live_in c v \<longrightarrow> e' (ren c v) = e v) \<and> (\<forall>v. e v \<noteq> None \<longrightarrow> unat v < length (kb_values (cp_body c)))"

lemma env_sim_args:
  assumes "env_sim c e e'" and "map_opt e args = Some vals" and "\<And>a. a \<in> set args \<Longrightarrow> unat a < length (kb_values (cp_body c)) \<Longrightarrow> live_in c a"
  shows "map_opt e' (map (ren c) args) = Some vals"
  using assms(2,3)
proof (induction args arbitrary: vals)
  case (Cons a args)
  then show ?case using assms(1) by (auto simp: env_sim_def bind_eq_Some_conv)
qed simp

lemma env_sim_bind:
  assumes "env_sim c e e'" and "compaction_of body marks entry c" and "params_placed body" and "live_in c v"
  shows "env_sim c (bind_result e v r) (bind_result e' (ren c v) r)"
proof -
  have "live_in c w \<Longrightarrow> ren c w = ren c v \<longleftrightarrow> w = v" for w
    using ren_inj [OF assms(2,3) _ assms(4)] by auto
  moreover have "unat v < length (kb_values (cp_body c))"
    using live_in_needed [OF assms(2)] assms(4) cp_body_is [OF assms(2)] by simp
  ultimately show ?thesis using assms(1) by (auto simp: env_sim_def bind_result_def split: option.split)
qed

lemma env_sim_skip:
  assumes "env_sim c e e'" and "\<not> live_in c v" and "unat v < length (kb_values (cp_body c))"
  shows "env_sim c (bind_result e v r) e'"
  using assms by (auto simp: env_sim_def bind_result_def split: option.split)

text \<open>What a memory access the compaction may drop has to leave as it is.\<close>

definition leaves_memory :: "'s mem \<Rightarrow> kernel_instr \<Rightarrow> bool" where
  "leaves_memory mem op \<longleftrightarrow> (\<forall>args s r s'. mem op args s = Some (r, s') \<longrightarrow> s' = s)"

definition drops_quietly :: "'s mem \<Rightarrow> kernel_body \<Rightarrow> kernel_mark list \<Rightarrow> value_id list \<Rightarrow> bool" where
  "drops_quietly mem body marks entry \<longleftrightarrow>
     (\<forall>block \<in> set (kb_blocks body). \<forall>v \<in> set (bb_instrs block). \<forall>op args classes.
        value_at body v = Some (Instr op args classes) \<longrightarrow> reaches_memory op \<longrightarrow>
        needed body marks entry v \<or> leaves_memory mem op)"

lemma exec_instrs_sim:
  assumes c: "compaction_of body marks entry c" and placed: "params_placed body"
    and quiet: "drops_quietly mem body marks entry" and block: "block \<in> set (kb_blocks body)"
  shows "set vs \<subseteq> set (bb_instrs block) \<Longrightarrow> \<forall>v \<in> set vs. leaves_nothing body v \<longrightarrow> needed body marks entry v \<Longrightarrow> env_sim c e e' \<Longrightarrow>
    exec_instrs fl tr mem (kb_values body) vs (e, s) = Some (f, s') \<Longrightarrow>
    \<exists>f'. exec_instrs fl tr mem (cp_values c) (map (ren c) (List.filter (kept_instr body (cp_live c)) vs)) (e', s) =
      Some (f', s') \<and> env_sim c f f'"
proof (induction vs arbitrary: e e' s)
  case (Cons v vs)
  obtain op args classes where v: "value_at body v = Some (Instr op args classes)"
    using Cons.prems(4) by (auto simp: exec_def_def value_at_def split: option.splits value_def.splits)
  then have inside: "unat v < length (kb_values body)" by (simp add: value_at_def)
  obtain vals r s1 where vals: "map_opt e args = Some vals"
    and op: "exec_op fl tr mem op vals s = Some (r, s1)"
    and rest: "exec_instrs fl tr mem (kb_values body) vs (bind_result e v r, s1) = Some (f, s')"
    using Cons.prems(4) v by (auto simp: exec_def_def value_at_def bind_eq_Some_conv simp del: nth_opt_Some)
  have body: "cp_body c = body" using c by (simp add: compaction_of_def)
  show ?case
  proof (cases "live_in c v")
    case True
    have "needed body marks entry v" using True live_in_needed [OF c] by blast
    then have "live_in c a" if "a \<in> set args" "unat a < length (kb_values body)" for a
      using that v live_in_needed [OF c] needed_read [of body marks entry v a] by (simp add: value_reads_def)
    then have "map_opt e' (map (ren c) args) = Some vals"
      using env_sim_args [OF Cons.prems(3) vals] body by blast
    then have "exec_def fl tr mem (ren c v) (nth_opt (cp_values c) (unat (ren c v))) (e', s) =
        Some (bind_result e' (ren c v) r, s1)"
      using cp_value_instr [OF c placed True v] op by (simp add: exec_def_def del: nth_opt_Some)
    moreover have "kept_instr body (cp_live c) v" using True v by (simp add: kept_instr_def live_in_def marked_def)
    ultimately show ?thesis
      using Cons.IH [OF _ _ env_sim_bind [OF Cons.prems(3) c placed True] rest] Cons.prems(1,2) by simp
  next
    case False
    then have dead: "\<not> needed body marks entry v" using live_in_needed [OF c] inside by blast
    then have some: "classes \<noteq> []" using Cons.prems(1,2) v by (auto simp: leaves_nothing_def)
    have "s1 = s"
    proof (cases "reaches_memory op")
      case True
      then have "leaves_memory mem op" using quiet v dead block Cons.prems(1) unfolding drops_quietly_def by (metis list.set_intros(1) subsetD)
      then show ?thesis using op True by (auto simp: exec_op_def leaves_memory_def)
    next
      case False
      then show ?thesis using op by (auto simp: exec_op_def)
    qed
    moreover have "\<not> kept_instr body (cp_live c) v"
    proof -
      have "unat v < length (cp_live c)" using c inside by (simp add: compaction_of_def live_values_def)
      then show ?thesis using False v some by (simp add: kept_instr_def live_in_def marked_def)
    qed
    ultimately show ?thesis
      using Cons.IH [OF _ _ env_sim_skip [OF Cons.prems(3) False] ] rest Cons.prems(1,2) inside body by simp
  qed
qed simp

definition kept_at :: "compaction \<Rightarrow> basic_block \<Rightarrow> nat list" where
  "kept_at c block = List.filter (\<lambda>at. live_in c (bb_params block ! at)) [0..<length (bb_params block)]"

lemma kept_at_iff: "at \<in> set (kept_at c block) \<longleftrightarrow> at < length (bb_params block) \<and> live_in c (bb_params block ! at)"
  by (auto simp: kept_at_def)

lemma params_distinct:
  assumes "params_placed body" and "nth_opt (kb_blocks body) k = Some block"
  shows "distinct (bb_params block)"
proof -
  have "i = j" if "i < length (bb_params block)" "j < length (bb_params block)" "bb_params block ! i = bb_params block ! j" for i j
  proof -
    have "value_at body (bb_params block ! i) = Some (Block_param k (of_nat i))" "i < 2 ^ 32"
      using params_placedD [OF assms, of i "bb_params block ! i"] that(1) by simp_all
    moreover have "value_at body (bb_params block ! j) = Some (Block_param k (of_nat j))" "j < 2 ^ 32"
      using params_placedD [OF assms, of j "bb_params block ! j"] that(2) by simp_all
    ultimately have "unat (of_nat i :: u32) = unat (of_nat j :: u32)" using that by simp
    then show ?thesis using \<open>i < 2 ^ 32\<close> \<open>j < 2 ^ 32\<close> by (simp add: unat_of_nat_u32)
  qed
  then show ?thesis by (auto simp: distinct_conv_nth)
qed

lemma env_sim_params:
  assumes c: "compaction_of body marks entry c" and placed: "params_placed body"
    and block: "nth_opt (kb_blocks body) k = Some block" and len: "length args = length (bb_params block)"
    and sim: "env_sim c e e'"
  shows "env_sim c (e ++ map_of (zip (bb_params block) args))
    (e' ++ map_of (zip (map (\<lambda>at. ren c (bb_params block ! at)) (kept_at c block)) (map (nth args) (kept_at c block))))"
proof -
  let ?new = "map_of (zip (map (\<lambda>at. ren c (bb_params block ! at)) (kept_at c block)) (map (nth args) (kept_at c block)))"
  note distinct = params_distinct [OF placed block]
  have inj: "inj_on (\<lambda>at. ren c (bb_params block ! at)) (set (kept_at c block))"
  proof (rule inj_onI)
    fix x y
    assume xy: "x \<in> set (kept_at c block)" "y \<in> set (kept_at c block)"
      and "ren c (bb_params block ! x) = ren c (bb_params block ! y)"
    then have "bb_params block ! x = bb_params block ! y" using ren_inj [OF c placed] by (simp add: kept_at_iff)
    then show "x = y" using xy distinct by (simp add: kept_at_iff nth_eq_iff_index_eq)
  qed
  have "distinct (kept_at c block)" by (simp add: kept_at_def)
  with inj have keys: "distinct (map (\<lambda>at. ren c (bb_params block ! at)) (kept_at c block))"
    by (simp add: distinct_map)
  have agree: "?new (ren c v) = map_of (zip (bb_params block) args) v" if v: "live_in c v" for v
  proof (cases "v \<in> set (bb_params block)")
    case True
    then obtain i where i: "i < length (bb_params block)" "v = bb_params block ! i" by (auto simp: in_set_conv_nth)
    then have "i \<in> set (kept_at c block)" using v by (simp add: kept_at_iff)
    then obtain j where "j < length (kept_at c block)" "kept_at c block ! j = i" by (auto simp: in_set_conv_nth)
    then have "?new (ren c v) = Some (args ! i)"
      using map_of_zip_nth [OF _ keys, of "map (nth args) (kept_at c block)" j] i(2) by simp
    then show ?thesis using map_of_zip_nth [OF _ distinct, of args i] len i by simp
  next
    case False
    then have "ren c v \<notin> set (map (\<lambda>at. ren c (bb_params block ! at)) (kept_at c block))"
      using ren_inj [OF c placed v] by (auto simp: kept_at_iff)
    then have "?new (ren c v) = None" by (subst map_of_zip_is_None) (simp, assumption)
    moreover have "map_of (zip (bb_params block) args) v = None" using False len by simp
    ultimately show ?thesis by simp
  qed
  have "unat v < length (kb_values body)" if listed: "v \<in> set (bb_params block)" for v
  proof -
    obtain i where "nth_opt (bb_params block) i = Some v" using listed by (auto simp: in_set_conv_nth)
    then show ?thesis using params_placedD(1) [OF placed block] by (fastforce simp: value_at_def)
  qed
  then have "unat v < length (kb_values (cp_body c))" if "map_of (zip (bb_params block) args) v \<noteq> None" for v
    using that len cp_body_is [OF c] by (simp add: map_of_zip_is_None)
  then have dom: "unat v < length (kb_values (cp_body c))"
    if "(e ++ map_of (zip (bb_params block) args)) v \<noteq> None" for v
    using that sim by (auto simp: env_sim_def map_add_None)
  have "(e' ++ ?new) (ren c v) = (e ++ map_of (zip (bb_params block) args)) v" if v: "live_in c v" for v
  proof -
    have "e' (ren c v) = e v" using sim v by (simp add: env_sim_def)
    then show ?thesis unfolding map_add_def agree [OF v] by (simp split: option.split)
  qed
  with dom show ?thesis unfolding env_sim_def by blast
qed

lemma handed_reads:
  assumes c: "compaction_of body marks entry c" and placed: "params_placed body"
    and "other \<in> set (kb_blocks body)" and "br \<in> set (branches other)"
    and block: "nth_opt (kb_blocks body) (br_target br) = Some block"
    and at: "at \<in> set (kept_at c block)" and arg: "nth_opt (br_args br) at = Some a"
    and inside: "unat a < length (kb_values body)"
  shows "live_in c a"
proof -
  let ?p = "bb_params block ! at"
  have p: "value_at body ?p = Some (Block_param (br_target br) (of_nat at))" "at < 2 ^ 32" "live_in c ?p"
    using params_placedD [OF placed block, of at ?p] at by (simp_all add: kept_at_iff)
  have "a \<in> set (handed_to body (br_target br) (of_nat at))"
    using assms(3,4) arg p(2)
    by (force simp: handed_to_def List.map_filter_def unat_of_nat_u32 image_iff simp del: nth_opt_Some)
  then have "a \<in> set (value_reads body ?p)" using p(1) by (simp add: value_reads_def)
  then show ?thesis using p(3) live_in_needed [OF c] inside needed_read by metis
qed

lemma branch_args_sim:
  assumes c: "compaction_of body marks entry c" and placed: "params_placed body"
    and other: "other \<in> set (kb_blocks body)" and br: "br \<in> set (branches other)"
    and block: "nth_opt (kb_blocks body) (br_target br) = Some block"
    and sim: "env_sim c e e'" and vals: "map_opt e (br_args br) = Some vals" "length vals = length (bb_params block)"
  shows "map_opt e' (br_args (pruned_br (cp_keeps c) (cp_ids c) br)) = Some (map (nth vals) (kept_at c block))"
proof -
  have args: "length (br_args br) = length vals" "\<And>i. i < length vals \<Longrightarrow> e (br_args br ! i) = Some (vals ! i)"
    using vals(1) by (simp_all add: map_opt_Some)
  have "List.map_filter (nth_opt (br_args br)) (kept_at c block) = map (nth (br_args br)) (kept_at c block)"
    using args(1) vals(2) by (intro map_filter_total) (simp add: kept_at_iff)
  then have pruned: "br_args (pruned_br (cp_keeps c) (cp_ids c) br) = map (\<lambda>at. ren c (br_args br ! at)) (kept_at c block)"
    using cp_keeps_at(1) [OF c block] by (simp add: pruned_br_def kept_at_def Let_def del: nth_opt_Some)
  have "e' (ren c (br_args br ! at)) = Some (vals ! at)" if at: "at \<in> set (kept_at c block)" for at
  proof -
    have here: "at < length vals" using at vals(2) by (simp add: kept_at_iff)
    then have "unat (br_args br ! at) < length (kb_values body)"
      using args(2) [OF here] sim cp_body_is [OF c] by (auto simp: env_sim_def)
    then have "live_in c (br_args br ! at)"
      using handed_reads [OF c placed other br block at] here args(1) by simp
    then show ?thesis using sim args(2) [OF here] by (simp add: env_sim_def)
  qed
  then show ?thesis unfolding pruned by (simp add: map_opt_Some)
qed

lemma taken_branch_in: "taken_branch e t = Some br \<Longrightarrow> br \<in> set (branches_of t)"
  by (cases t) (auto split: if_splits)

lemma terminator_needed:
  assumes "nth_opt (kb_blocks body) k = Some block" and "v \<in> set (terminator_reads (bb_terminator block))"
  shows "needed body marks entry v"
proof -
  have "block \<in> set (kb_blocks body)" using assms(1) by auto
  then show ?thesis using assms(2) by (intro needed_root) (auto simp: compact_roots_def)
qed

lemma taken_branch_sim:
  assumes c: "compaction_of body marks entry c" and block: "nth_opt (kb_blocks body) k = Some block"
    and sim: "env_sim c e e'" and br: "taken_branch e (bb_terminator block) = Some br"
  shows "taken_branch e' (pruned (cp_keeps c) (cp_ids c) (bb_terminator block)) =
    Some (pruned_br (cp_keeps c) (cp_ids c) br)"
proof (cases "bb_terminator block")
  case (CondBr cond if_true if_false)
  then obtain x where x: "e cond = Some x" using br by (auto simp: bind_eq_Some_conv)
  then have "unat cond < length (kb_values body)" using sim cp_body_is [OF c] by (auto simp: env_sim_def)
  then have "live_in c cond" using live_in_needed [OF c] terminator_needed [OF block] CondBr by simp
  then show ?thesis using CondBr br x sim by (auto simp: env_sim_def)
qed (use br in auto)

lemma run_blocks_sim:
  assumes c: "compaction_of body marks entry c" and placed: "params_placed body"
    and quiet: "drops_quietly mem body marks entry"
    and new: "kb_values body' = cp_values c" "kb_blocks body' = cp_blocks c"
  shows "run_blocks fl tr mem body n k args (e, s) = Some answer \<Longrightarrow>
    nth_opt (kb_blocks body) k = Some block \<Longrightarrow> env_sim c e e' \<Longrightarrow>
    run_blocks fl tr mem body' n k (map (nth args) (kept_at c block)) (e', s) = Some answer"
proof (induction n arbitrary: k args e s block e')
  case (Suc n)
  note block = Suc.prems(2)
  have len: "length args = length (bb_params block)"
    using Suc.prems(1) block by (simp split: if_splits del: nth_opt_Some)
  obtain f s1 where run: "exec_instrs fl tr mem (kb_values body) (bb_instrs block)
      (e ++ map_of (zip (bb_params block) args), s) = Some (f, s1)"
    and rest: "(case bb_terminator block of
         Return values \<Rightarrow> map_option (\<lambda>vals. (vals, s1)) (map_opt f values)
       | t \<Rightarrow> Option.bind (taken_branch f t) (\<lambda>br.
           Option.bind (map_opt f (br_args br)) (\<lambda>vals.
             run_blocks fl tr mem body n (br_target br) vals (f, s1)))) = Some answer"
    using Suc.prems(1) block len by (auto simp: bind_eq_Some_conv simp del: nth_opt_Some)
  have "\<forall>v \<in> set (bb_instrs block). leaves_nothing body v \<longrightarrow> needed body marks entry v"
    using block by (auto intro!: needed_root simp: compact_roots_def)
  moreover have "block \<in> set (kb_blocks body)" using block by auto
  ultimately obtain f' where run': "exec_instrs fl tr mem (cp_values c) (map (ren c) (List.filter (kept_instr body (cp_live c)) (bb_instrs block)))
      (e' ++ map_of (zip (map (\<lambda>at. ren c (bb_params block ! at)) (kept_at c block)) (map (nth args) (kept_at c block))), s) =
      Some (f', s1)" and sim: "env_sim c f f'"
    using exec_instrs_sim [OF c placed quiet _ order_refl _ env_sim_params [OF c placed block len Suc.prems(3)] run] by blast
  have step: "run_blocks fl tr mem body' (Suc n) k (map (nth args) (kept_at c block)) (e', s) =
      (case pruned (cp_keeps c) (cp_ids c) (bb_terminator block) of
         Return values \<Rightarrow> map_option (\<lambda>vals. (vals, s1)) (map_opt f' values)
       | t \<Rightarrow> Option.bind (taken_branch f' t) (\<lambda>br.
           Option.bind (map_opt f' (br_args br)) (\<lambda>vals.
             run_blocks fl tr mem body' n (br_target br) vals (f', s1))))"
    using cp_block_at [OF c block] run' new by (simp add: kept_at_def del: nth_opt_Some)
  show ?case
  proof (cases "\<exists>vs. bb_terminator block = Return vs")
    case True
    then obtain vs where vs: "bb_terminator block = Return vs" by blast
    then obtain vals where vals: "map_opt f vs = Some vals" "answer = (vals, s1)" using rest by auto
    have "unat v < length (kb_values body) \<Longrightarrow> live_in c v" if "v \<in> set vs" for v
      using live_in_needed [OF c] terminator_needed [OF block] vs that by simp
    then have "map_opt f' (map (ren c) vs) = Some vals"
      using env_sim_args [OF sim vals(1)] cp_body_is [OF c] by metis
    then show ?thesis unfolding step using vs vals(2) by simp
  next
    case False
    then have "Option.bind (taken_branch f (bb_terminator block)) (\<lambda>br.
        Option.bind (map_opt f (br_args br)) (\<lambda>vals. run_blocks fl tr mem body n (br_target br) vals (f, s1))) = Some answer"
      using rest by (cases "bb_terminator block") auto
    then obtain br vals where br: "taken_branch f (bb_terminator block) = Some br" and vals: "map_opt f (br_args br) = Some vals"
      and next_run: "run_blocks fl tr mem body n (br_target br) vals (f, s1) = Some answer"
      by (auto simp: bind_eq_Some_conv)
    obtain target where target: "nth_opt (kb_blocks body) (br_target br) = Some target" "length vals = length (bb_params target)"
      using next_run by (cases n) (auto simp: bind_eq_Some_conv split: if_splits simp del: nth_opt_Some)
    have "block \<in> set (kb_blocks body)" "br \<in> set (branches block)"
      using block taken_branch_in [OF br] by (auto simp: branches_def)
    from branch_args_sim [OF c placed this target(1) sim vals target(2)]
    have "map_opt f' (br_args (pruned_br (cp_keeps c) (cp_ids c) br)) = Some (map (nth vals) (kept_at c target))" .
    moreover have "br_target (pruned_br (cp_keeps c) (cp_ids c) br) = br_target br" by (simp add: pruned_br_def Let_def)
    ultimately show ?thesis
      unfolding step using Suc.IH [OF next_run target(1) sim] taken_branch_sim [OF c block sim br] False
      by (cases "bb_terminator block") auto
  qed
qed simp

section \<open>The compaction is correct\<close>

lemma compact_returns:
  assumes placed: "params_placed body" and entry: "nth_opt (kb_blocks body) (kb_entry body) = Some entry"
  obtains c where "compaction_of body marks (bb_params entry) c"
    "compact body marks = Some (body\<lparr>kb_values := cp_values c, kb_blocks := cp_blocks c,
        kb_barriers := map (\<lambda>expr. \<lparr>b_write = ren c (b_write expr), b_read = ren c (b_read expr)\<rparr>) (kb_barriers body)\<rparr>,
      map (\<lambda>mark. mark\<lparr>mk_value := ren c (mk_value mark)\<rparr>) marks)"
proof -
  define live where "live = live_values body marks (bb_params entry)"
  have len: "length live = length (kb_values body)" by (simp add: live_def live_values_def)
  define keeps where "keeps = map (\<lambda>block. List.filter (\<lambda>at. live ! unat (bb_params block ! at)) [0..<length (bb_params block)])
    (kb_blocks body)"
  have inside: "unat p < length live" if p: "block \<in> set (kb_blocks body)" "p \<in> set (bb_params block)" for block p
  proof -
    obtain k i where "nth_opt (kb_blocks body) k = Some block" "nth_opt (bb_params block) i = Some p"
      using p by (auto simp: in_set_conv_nth)
    from params_placedD(1) [OF placed this] show ?thesis by (simp add: value_at_def len)
  qed
  have keeps: "map_opt (kept_params live) (kb_blocks body) = Some keeps"
    unfolding keeps_def by (rule map_opt_total) (use inside in \<open>auto simp: kept_params_def list_all_iff\<close>)
  have few: "length (List.filter id live) < 2 ^ 32"
    using placed length_filter_le [of id live] len by (simp add: params_placed_def)
  define ids where "ids = survivor_ids 0 live"
  define blocks where "blocks = map (compact_block body live ids keeps) (zip keeps (kb_blocks body))"
  have surviving: "length (surviving_values ids (kb_values body)) = length (List.filter id live)"
    unfolding surviving_values_def ids_def by (rule length_surviving [OF len])
  have "unat q < length (surviving_values ids (kb_values body))" if place: "(k, j, q) \<in> set (param_places blocks)" for k j q
  proof -
    define c where "c = \<lparr>cp_body = body, cp_live = live, cp_ids = ids, cp_keeps = keeps, cp_blocks = blocks, cp_values = []\<rparr>"
    obtain new where new: "nth_opt blocks k = Some new" "q \<in> set (bb_params new)"
      using place unfolding param_places_iff by (metis nth_mem nth_opt_Some)
    define block where "block = kb_blocks body ! k"
    have k: "k < length (kb_blocks body)" using new(1) by (simp add: blocks_def keeps_def)
    then have block: "block \<in> set (kb_blocks body)"
      "keeps ! k = List.filter (\<lambda>at. live ! unat (bb_params block ! at)) [0..<length (bb_params block)]"
      by (simp_all add: block_def keeps_def)
    have "new = compact_block body live ids keeps (keeps ! k, block)"
      using new(1) k by (simp add: blocks_def block_def keeps_def)
    then obtain at where at: "at < length (bb_params block)" "live ! unat (bb_params block ! at)"
      "q = renumbered ids (bb_params block ! at)"
      using new(2) block(2) by (auto simp: compact_block_def)
    let ?p = "bb_params block ! at"
    have p: "unat ?p < length live" using inside [OF block(1)] at(1) by simp
    have small: "survivor_rank live (unat ?p) < length (List.filter id live)" using rank_less [OF p at(2)] .
    have "q = of_nat (survivor_rank live (unat ?p))"
      using at(2,3) p by (simp add: renumbered_def ids_def nth_opt_def survivor_ids_at)
    then show ?thesis using small few surviving by (simp add: unat_of_nat_u32)
  qed
  then obtain table where table: "fold_opt place_param (param_places blocks) (surviving_values ids (kb_values body)) = Some table"
    using place_params_total [of "param_places blocks"] by fastforce
  define c where "c = \<lparr>cp_body = body, cp_live = live, cp_ids = ids, cp_keeps = keeps, cp_blocks = blocks, cp_values = table\<rparr>"
  have "compaction_of body marks (bb_params entry) c"
    using keeps table by (simp add: compaction_of_def c_def live_def ids_def blocks_def)
  moreover have "compact body marks = Some (body\<lparr>kb_values := cp_values c, kb_blocks := cp_blocks c,
        kb_barriers := map (\<lambda>expr. \<lparr>b_write = ren c (b_write expr), b_read = ren c (b_read expr)\<rparr>) (kb_barriers body)\<rparr>,
      map (\<lambda>mark. mark\<lparr>mk_value := ren c (mk_value mark)\<rparr>) marks)"
    using keeps table few entry
    by (simp add: compact_def Let_def live_def [symmetric] ids_def [symmetric] blocks_def [symmetric] c_def not_le del: nth_opt_Some)
  ultimately show thesis by (rule that)
qed

lemma compact_runs:
  assumes "params_placed body" and "nth_opt (kb_blocks body) (kb_entry body) = Some entry"
    and "drops_quietly mem body marks (bb_params entry)"
    and "run_body fl tr mem body n args s = Some answer"
  shows "\<exists>body' marks'. compact body marks = Some (body', marks') \<and>
    run_body fl tr mem body' n args s = Some answer"
proof -
  obtain c where c: "compaction_of body marks (bb_params entry) c"
    and result: "compact body marks = Some (body\<lparr>kb_values := cp_values c, kb_blocks := cp_blocks c,
        kb_barriers := map (\<lambda>expr. \<lparr>b_write = ren c (b_write expr), b_read = ren c (b_read expr)\<rparr>) (kb_barriers body)\<rparr>,
      map (\<lambda>mark. mark\<lparr>mk_value := ren c (mk_value mark)\<rparr>) marks)"
    using compact_returns [OF assms(1,2)] .
  have all: "kept_at c entry = [0..<length (bb_params entry)]"
  proof -
    have "live_in c p" if p: "p \<in> set (bb_params entry)" for p
    proof -
      have "unat p < length (cp_live c)" using cp_keeps_at(2) [OF c assms(2) p] .
      then have "unat p < length (kb_values body)" using c by (simp add: compaction_of_def live_values_def)
      moreover have "needed body marks (bb_params entry) p"
        using p by (intro needed_root) (simp add: compact_roots_def)
      ultimately show ?thesis using live_in_needed [OF c] by blast
    qed
    then show ?thesis by (auto simp: kept_at_def intro: filter_True)
  qed
  have "length args = length (bb_params entry)"
    using assms(2,4) by (cases n) (auto simp: run_body_def split: if_splits simp del: nth_opt_Some)
  then have args: "map (nth args) (kept_at c entry) = args" by (metis all map_nth)
  have start: "env_sim c Map.empty Map.empty" by (simp add: env_sim_def)
  show ?thesis
    unfolding result using run_blocks_sim [OF c assms(1,3) _ _ _ assms(2) start,
        where body' = "body\<lparr>kb_values := cp_values c, kb_blocks := cp_blocks c,
          kb_barriers := map (\<lambda>expr. \<lparr>b_write = ren c (b_write expr), b_read = ren c (b_read expr)\<rparr>) (kb_barriers body)\<rparr>"
          and args = args and n = n and s = s and fl = fl and tr = tr and answer = answer]
      assms(4) args by (simp add: run_body_def)
qed


section \<open>The parameters of the compacted body\<close>

lemma rank_surj:
  "j < length (List.filter id flags) \<Longrightarrow> \<exists>i < length flags. flags ! i \<and> survivor_rank flags i = j"
proof (induction flags arbitrary: j)
  case (Cons flag flags)
  show ?case
  proof (cases flag)
    case False
    then obtain i where "i < length flags" "flags ! i" "survivor_rank flags i = j" using Cons by auto
    then show ?thesis using False by (intro exI [of _ "Suc i"]) (simp add: rank_Cons)
  next
    case flag: True
    show ?thesis
    proof (cases j)
      case 0
      then show ?thesis using flag by (intro exI [of _ 0]) (simp add: survivor_rank_def)
    next
      case (Suc m)
      then obtain i where "i < length flags" "flags ! i" "survivor_rank flags i = m" using Cons flag by auto
      then show ?thesis using flag Suc by (intro exI [of _ "Suc i"]) (simp add: rank_Cons)
    qed
  qed
qed simp

lemma param_places_distinct: "distinct (param_places blocks)"
proof -
  have "distinct (concat (map (\<lambda>(block, basic). map (\<lambda>(index, p). (block, index, p)) (enumerate 0 (bb_params basic)))
      (enumerate n blocks)))" for n
  proof (induction blocks arbitrary: n)
    case (Cons block blocks)
    have "distinct (map (\<lambda>(index, p). (n, index, p)) (enumerate 0 (bb_params block)))"
      by (simp add: distinct_map inj_on_def split_beta prod_eq_iff)
    then show ?case using Cons [of "Suc n"] by (auto simp: in_set_enumerate_eq)
  qed simp
  then show ?thesis by (simp add: param_places_def)
qed

lemma cp_places_distinct:
  assumes c: "compaction_of body marks entry c" and placed: "params_placed body"
  shows "distinct (map (\<lambda>(k, i, p). p) (param_places (cp_blocks c)))"
proof -
  have "(k, i) = (l, j)" if first: "(k, i, q) \<in> set (param_places (cp_blocks c))" and second: "(l, j, q) \<in> set (param_places (cp_blocks c))"
    for k i l j q
  proof -
    obtain block p m where p: "nth_opt (kb_blocks body) k = Some block" "nth_opt (bb_params block) m = Some p" "live_in c p" "q = ren c p"
      using cp_place [OF c first] .
    obtain block' p' m' where p': "nth_opt (kb_blocks body) l = Some block'" "nth_opt (bb_params block') m' = Some p'" "live_in c p'" "q = ren c p'"
      using cp_place [OF c second] .
    have "p = p'" using ren_inj [OF c placed p(3) p'(3)] p(4) p'(4) by simp
    then have kl: "k = l" using params_placedD(1) [OF placed p(1,2)] params_placedD(1) [OF placed p'(1,2)] by simp
    obtain new where new: "nth_opt (cp_blocks c) k = Some new" "nth_opt (bb_params new) i = Some q" "nth_opt (bb_params new) j = Some q"
      using first second kl unfolding param_places_iff by (metis option.inject)
    have kept: "bb_params new = map (\<lambda>at. ren c (bb_params block ! at)) (kept_at c block)"
      using cp_block_at [OF c p(1)] new(1) by (simp add: kept_at_def)
    have "kept_at c block ! i = kept_at c block ! j"
    proof -
      let ?at = "kept_at c block ! i" and ?at' = "kept_at c block ! j"
      have at: "?at \<in> set (kept_at c block)" "?at' \<in> set (kept_at c block)" using new kept by simp_all
      have "ren c (bb_params block ! ?at) = ren c (bb_params block ! ?at')" using new(2,3) kept by simp
      then have "bb_params block ! ?at = bb_params block ! ?at'" using ren_inj [OF c placed] at by (simp add: kept_at_iff)
      then show ?thesis using params_distinct [OF placed p(1)] at by (simp add: kept_at_iff nth_eq_iff_index_eq)
    qed
    then have "i = j" using new(2,3) kept nth_eq_iff_index_eq [of "kept_at c block" i j] by (simp add: kept_at_def)
    with kl show ?thesis by simp
  qed
  then have "inj_on (\<lambda>(k, i, p). p) (set (param_places (cp_blocks c)))" by (auto simp: inj_on_def)
  then show ?thesis using param_places_distinct by (simp add: distinct_map)
qed


section \<open>A body with a dead value\<close>

text \<open>The sum is handed on beside a constant nobody reads; the block that receives both returns the sum.\<close>

definition dead_body :: kernel_body where
  "dead_body = \<lparr>kb_values = [Block_param 0 0, Block_param 0 1, Instr (Const Int_class 9) [] [Int_class],
       Instr (Bin Int_class Add) [0, 1] [Int_class], Block_param 1 0, Block_param 1 1],
     kb_blocks =
       [\<lparr>bb_params = [0, 1], bb_instrs = [2, 3], bb_terminator = Br \<lparr>br_target = 1, br_args = [2, 3]\<rparr>\<rparr>,
        \<lparr>bb_params = [4, 5], bb_instrs = [], bb_terminator = Return [5]\<rparr>],
     kb_entry = 0, kb_exact = False, kb_barriers = []\<rparr>"

definition plain_f32 :: f32_ops where
  "plain_f32 = \<lparr>f_add = (\<lambda>a b. a), f_sub = (\<lambda>a b. a), f_mul = (\<lambda>a b. a), f_div = (\<lambda>a b. a), f_neg = id,
     f_fma = (\<lambda>a b c. a), f_lt = (\<lambda>a b. False), f_leq = (\<lambda>a b. True), f_eq = (\<lambda>a b. True),
     f_of_int = (\<lambda>a. 0), f_to_int = (\<lambda>a. 0)\<rparr>"

definition no_memory :: "unit mem" where
  "no_memory = (\<lambda>op args s. None)"

lemma dead_body_placed: "params_placed dead_body"
  by (simp add: params_placed_def param_places_def dead_body_def value_at_def)



end
