(* ===== verification/Sibling_Properties.thy ===== *)
theory Sibling_Properties
  imports Sibling_Merge Compact_Correct
begin

text \<open>
  What a merge of siblings answers: ports, classes and parameters are joined as stated, and the position
  of an atomic add is left where it was.
\<close>

section \<open>The joined fragment\<close>

lemma compact_entry_params:
  assumes "compact body marks = Some (body', marks')" and "nth_opt (kb_blocks body) (kb_entry body) = Some entry"
  shows "\<exists>entry'. nth_opt (kb_blocks body') (kb_entry body') = Some entry' \<and>
    length (bb_params entry') = length (bb_params entry)"
proof -
  define live where "live = live_values body marks (bb_params entry)"
  obtain keeps table where keeps: "map_opt (kept_params live) (kb_blocks body) = Some keeps"
    and body': "kb_entry body' = kb_entry body"
      "kb_blocks body' = map (compact_block body live (survivor_ids 0 live) keeps) (zip keeps (kb_blocks body))"
    using assms by (auto simp: compact_def live_def Let_def bind_eq_Some_conv simp del: nth_opt_Some split: if_splits)
  have k: "kb_entry body < length (kb_blocks body)" "kb_blocks body ! kb_entry body = entry" using assms(2) by simp_all
  then have kept: "kept_params live entry = Some (keeps ! kb_entry body)" "length keeps = length (kb_blocks body)"
    using keeps by (auto simp: map_opt_Some)
  have "live ! unat p" if p: "p \<in> set (bb_params entry)" for p
  proof -
    have "unat p < length live" using kept(1) p by (auto simp: kept_params_def list_all_iff split: if_splits)
    moreover have "needed body marks (bb_params entry) p" using p by (intro needed_root) (simp add: compact_roots_def)
    ultimately show ?thesis
      using live_values_needed [of body marks "bb_params entry" p] by (simp add: live_def marked_def live_values_def)
  qed
  then have "keeps ! kb_entry body = [0..<length (bb_params entry)]"
    using kept(1) by (auto simp: kept_params_def intro!: filter_True split: if_splits)
  then show ?thesis using k kept(2) body' by (simp add: compact_block_def)
qed

lemma merge_branch_fields:
  assumes "merge_branch u first_params port first_body (index, edge) ms = Ok ms'"
  shows "ms_outputs ms' = ms_outputs ms + kf_outputs (ed_fragment edge)"
    and "ms_output_classes ms' = ms_output_classes ms @ kf_output_classes (ed_fragment edge)"
    and "ms_input_classes ms' = ms_input_classes ms @ map snd
      (List.filter (\<lambda>(ordinal, _). ordinal \<noteq> ed_shared edge) (enumerate 0 (kf_input_classes (ed_fragment edge))))"
    and "kb_entry (ms_body ms') = kb_entry (ms_body ms)"
    and "nth_opt (kb_blocks (ms_body ms)) k = Some block \<Longrightarrow>
      \<exists>block'. nth_opt (kb_blocks (ms_body ms')) k = Some block' \<and> bb_params block' = bb_params block"
proof -
  obtain bp body returned where bp: "land_branch bp (kf_body (ed_fragment edge)) (ms_landing ms) (ms_body ms) = Some body"
    and ms': "ms' = \<lparr>ms_body = body, ms_landing = bp_block bp returned,
           ms_union = ms_union ms + (kf_inputs (ed_fragment edge) - 1),
           ms_outputs = ms_outputs ms + kf_outputs (ed_fragment edge),
           ms_slices = (if ms_slices ms = [] then kf_slices (ed_fragment edge) else ms_slices ms),
           ms_blocks_base = ms_blocks_base ms + (length (kb_blocks (kf_body (ed_fragment edge))) - 1),
           ms_input_classes = ms_input_classes ms @
             map snd (List.filter (\<lambda>(ordinal, _). ordinal \<noteq> ed_shared edge) (enumerate 0 (kf_input_classes (ed_fragment edge)))),
           ms_output_classes = ms_output_classes ms @ kf_output_classes (ed_fragment edge)\<rparr>"
    using assms by (auto simp: merge_branch_def Let_def split: if_splits)
  show "ms_outputs ms' = ms_outputs ms + kf_outputs (ed_fragment edge)"
    "ms_output_classes ms' = ms_output_classes ms @ kf_output_classes (ed_fragment edge)"
    "ms_input_classes ms' = ms_input_classes ms @ map snd
      (List.filter (\<lambda>(ordinal, _). ordinal \<noteq> ed_shared edge) (enumerate 0 (kf_input_classes (ed_fragment edge))))"
    unfolding ms' by simp_all
  show "kb_entry (ms_body ms') = kb_entry (ms_body ms)"
    using bp unfolding ms' by (auto simp: land_branch_def Let_def bind_eq_Some_conv)
  show "nth_opt (kb_blocks (ms_body ms)) k = Some block \<Longrightarrow>
      \<exists>block'. nth_opt (kb_blocks (ms_body ms')) k = Some block' \<and> bb_params block' = bb_params block"
    using bp unfolding ms'
    by (auto simp: land_branch_def Let_def bind_eq_Some_conv landed_block_def nth_list_update nth_append)
qed

lemma edge_of_Ok:
  assumes "edge_of first ports branch = Ok edge"
  shows "ed_fragment edge = sb_fragment branch" "ed_shared edge = unat (sb_shared branch)"
    "validate (kf_body (ed_fragment edge)) = Ok ()" "ed_shared edge < kf_inputs (ed_fragment edge)"
    "length (kf_input_classes (ed_fragment edge)) = kf_inputs (ed_fragment edge)"
    "branch_targeting (kf_body (ed_fragment edge)) (kb_entry (kf_body (ed_fragment edge))) = None"
    "\<exists>block. returns_of (kf_body (ed_fragment edge)) = Ok block"
    "buffer_reads (kf_body (ed_fragment edge)) = Ok (ed_reads edge)"
    "ed_reads_shared edge = map fst (List.filter (\<lambda>(_, position). unat position = ed_shared edge) (ed_reads edge))"
    "\<forall>(read, position) \<in> set (ed_reads edge). unat position < kf_inputs (ed_fragment edge)"
  using assms
  by (auto 0 3 simp: edge_of_def Let_def map_refusal_def find_None_iff not_le split: res.splits option.splits)

lemma edges_of_Ok:
  "edges_of first ports siblings = Ok edges \<Longrightarrow>
    length edges = length siblings \<and> (\<forall>i < length siblings. edge_of first ports (siblings ! i) = Ok (edges ! i))"
proof (induction siblings arbitrary: edges)
  case (Cons branch siblings)
  then obtain edge rest where "edge_of first ports branch = Ok edge" "edges_of first ports siblings = Ok rest"
    "edges = edge # rest" by auto
  then show ?case using Cons.IH [of rest] by (auto simp: nth_Cons split: nat.split)
qed simp

lemma edges_of_fragments:
  assumes "edges_of first ports siblings = Ok edges"
  shows "map ed_fragment edges = map sb_fragment siblings"
    and "map ed_shared edges = map (\<lambda>branch. unat (sb_shared branch)) siblings"
    and "edge \<in> set edges \<Longrightarrow> \<exists>branch \<in> set siblings. edge_of first ports branch = Ok edge"
proof -
  note all = edges_of_Ok [OF assms]
  show "map ed_fragment edges = map sb_fragment siblings"
    "map ed_shared edges = map (\<lambda>branch. unat (sb_shared branch)) siblings"
    using all edge_of_Ok(1,2) by (auto intro!: nth_equalityI)
  show "edge \<in> set edges \<Longrightarrow> \<exists>branch \<in> set siblings. edge_of first ports branch = Ok edge"
    using all by (auto simp: in_set_conv_nth) (metis nth_mem)
qed

lemma scalar_union_of_Some:
  assumes "scalar_union_of shapes = Some u"
  shows "su_counts u = map (\<lambda>shape. flat_arity shape - 2) shapes"
    and "su_classes u = concat (map (\<lambda>shape. butlast (tl (leaf_classes shape))) shapes)"
    and "shape \<in> set shapes \<Longrightarrow> 2 \<le> flat_arity shape"
proof -
  have "su_counts u = map (\<lambda>shape. flat_arity shape - 2) shapes \<and>
      su_classes u = concat (map (\<lambda>shape. butlast (tl (leaf_classes shape))) shapes) \<and>
      (\<forall>shape \<in> set shapes. 2 \<le> flat_arity shape)"
    using assms
  proof (induction shapes arbitrary: u)
    case (Cons shape shapes)
    then show ?case by (auto simp: Let_def leaf_classes_length not_less split: if_splits)
  qed simp
  then show "su_counts u = map (\<lambda>shape. flat_arity shape - 2) shapes"
    and "su_classes u = concat (map (\<lambda>shape. butlast (tl (leaf_classes shape))) shapes)"
    and "shape \<in> set shapes \<Longrightarrow> 2 \<le> flat_arity shape" by blast+
qed

lemma compose_siblings_Ok:
  assumes "compose_siblings siblings = Ok f"
  obtains ports u edges first_params ms ms' body marks where
    "2 \<le> length siblings" "ports = sum_list (map (\<lambda>b. kf_inputs (sb_fragment b)) siblings) - (length siblings - 1)"
    "scalar_union_of (map (\<lambda>b. kf_param_shape (sb_fragment b)) siblings) = Some u"
    "edges_of (sb_fragment (hd siblings)) ports siblings = Ok edges"
    "\<forall>x \<in> set (enumerate 0 edges). check_domain (sb_fragment (hd siblings)) (sb_fragment (last siblings)) x = Ok ()"
    "merge_start siblings edges u = Ok (first_params, ms)"
    "fold_res (merge_branch u first_params (ed_shared (hd edges)) (kf_body (ed_fragment (hd edges)))) (tl (enumerate 0 edges)) ms = Ok ms'"
    "compact (ms_body ms') (kf_marks (ed_fragment (hd edges))) = Some (body, marks)"
    "f = merged_fragment u ports (ed_fragment (hd edges)) (ed_fragment (last edges)) ms' body marks"
    "validate body = Ok ()" "fragment_validate f = Ok ()"
proof -
  have m: "\<And>r e u. map_refusal e r = Ok u \<longleftrightarrow> r = Ok u" by (simp add: map_refusal_def split: res.split)
  show thesis
    using assms that
    by (auto simp: compose_siblings_def merge_edges_def Let_def m check_each_unit not_less
        split: if_splits option.splits prod.splits)
qed

text \<open>The ports a branch keeps beside the shared one.\<close>

definition own_ports :: "kernel_fragment \<Rightarrow> nat \<Rightarrow> scalar_class list" where
  "own_ports f shared = map snd (List.filter (\<lambda>(ordinal, _). ordinal \<noteq> shared) (enumerate 0 (kf_input_classes f)))"

lemma length_own_ports:
  assumes "shared < length (kf_input_classes f)"
  shows "length (own_ports f shared) = length (kf_input_classes f) - 1"
proof -
  have "length (List.filter (\<lambda>(ordinal, _). ordinal \<noteq> shared + n) (enumerate n xs)) = length xs - 1"
    if "shared < length xs" for n and xs :: "scalar_class list"
    using that
  proof (induction xs arbitrary: n shared)
    case (Cons x xs)
    show ?case
    proof (cases shared)
      case 0
      have "List.filter (\<lambda>(ordinal, _). ordinal \<noteq> n) (enumerate (Suc n) xs) = enumerate (Suc n) xs"
        by (rule filter_True) (auto simp: in_set_enumerate_eq)
      then show ?thesis using 0 by simp
    next
      case (Suc k)
      then show ?thesis using Cons.IH [of k "Suc n"] Cons.prems by (cases xs) auto
    qed
  qed simp
  from this [OF assms, of 0] show ?thesis by (simp add: own_ports_def)
qed

lemma merge_fold_fields:
  assumes "fold_res (merge_branch u first_params port first_body) rest_edges ms = Ok ms'"
  shows "ms_outputs ms' = ms_outputs ms + sum_list (map (\<lambda>(_, edge). kf_outputs (ed_fragment edge)) rest_edges)"
    and "ms_output_classes ms' = ms_output_classes ms @ concat (map (\<lambda>(_, edge). kf_output_classes (ed_fragment edge)) rest_edges)"
    and "ms_input_classes ms' = ms_input_classes ms @
      concat (map (\<lambda>(_, edge). own_ports (ed_fragment edge) (ed_shared edge)) rest_edges)"
    and "kb_entry (ms_body ms') = kb_entry (ms_body ms)"
    and "nth_opt (kb_blocks (ms_body ms)) k = Some block \<Longrightarrow>
      \<exists>block'. nth_opt (kb_blocks (ms_body ms')) k = Some block' \<and> bb_params block' = bb_params block"
proof -
  have "ms_outputs ms' = ms_outputs ms + sum_list (map (\<lambda>(_, edge). kf_outputs (ed_fragment edge)) rest_edges) \<and>
      ms_output_classes ms' = ms_output_classes ms @ concat (map (\<lambda>(_, edge). kf_output_classes (ed_fragment edge)) rest_edges) \<and>
      ms_input_classes ms' = ms_input_classes ms @
        concat (map (\<lambda>(_, edge). own_ports (ed_fragment edge) (ed_shared edge)) rest_edges) \<and>
      kb_entry (ms_body ms') = kb_entry (ms_body ms) \<and>
      (\<forall>k block. nth_opt (kb_blocks (ms_body ms)) k = Some block \<longrightarrow>
        (\<exists>block'. nth_opt (kb_blocks (ms_body ms')) k = Some block' \<and> bb_params block' = bb_params block))"
    using assms
  proof (induction rest_edges arbitrary: ms)
    case (Cons branch rest_edges)
    obtain index edge where branch: "branch = (index, edge)" by (cases branch)
    obtain mid where mid: "merge_branch u first_params port first_body (index, edge) ms = Ok mid"
      "fold_res (merge_branch u first_params port first_body) rest_edges mid = Ok ms'"
      using Cons.prems branch by auto
    note one = merge_branch_fields [OF mid(1)] and rest = Cons.IH [OF mid(2)]
    have "\<exists>block'. nth_opt (kb_blocks (ms_body ms')) k = Some block' \<and> bb_params block' = bb_params block"
      if "nth_opt (kb_blocks (ms_body ms)) k = Some block" for k block
      using one(5) [OF that] rest by metis
    then show ?case using one(1-4) rest branch by (simp add: own_ports_def)
  qed simp
  then show "ms_outputs ms' = ms_outputs ms + sum_list (map (\<lambda>(_, edge). kf_outputs (ed_fragment edge)) rest_edges)"
    "ms_output_classes ms' = ms_output_classes ms @ concat (map (\<lambda>(_, edge). kf_output_classes (ed_fragment edge)) rest_edges)"
    "ms_input_classes ms' = ms_input_classes ms @
      concat (map (\<lambda>(_, edge). own_ports (ed_fragment edge) (ed_shared edge)) rest_edges)"
    "kb_entry (ms_body ms') = kb_entry (ms_body ms)"
    "nth_opt (kb_blocks (ms_body ms)) k = Some block \<Longrightarrow>
      \<exists>block'. nth_opt (kb_blocks (ms_body ms')) k = Some block' \<and> bb_params block' = bb_params block"
    by blast+
qed

lemma splice_runtime_scalars_params:
  assumes "splice_runtime_scalars body own extra = Some body'" and "parameters body = Some params"
  shows "\<exists>params'. parameters body' = Some params' \<and> length params' = length params + extra"
  using assms nth_opt_Some
  by (auto simp: splice_runtime_scalars_def parameters_def Let_def bind_eq_Some_conv split: if_splits)

lemma flat_arity_union:
  assumes "scalar_union_of shapes = Some u"
  shows "leaf_classes (union_shape u) = Int_class # concat (map (\<lambda>shape. butlast (tl (leaf_classes shape))) shapes) @ [Int_class]"
    and "flat_arity (union_shape u) = scalar_total u + 2"
proof -
  have leaves: "concat (map leaf_classes (map Scalar_shape cs)) = cs" for cs by (induction cs) simp_all
  show classes: "leaf_classes (union_shape u) = Int_class # concat (map (\<lambda>shape. butlast (tl (leaf_classes shape))) shapes) @ [Int_class]"
    using scalar_union_of_Some(2) [OF assms] leaves [of "su_classes u"] by (simp add: union_shape_def)
  have "length (su_classes u) = scalar_total u"
    using scalar_union_of_Some(1,2) [OF assms]
    by (simp add: scalar_total_def length_concat comp_def leaf_classes_length numeral_2_eq_2)
  then show "flat_arity (union_shape u) = scalar_total u + 2"
    using scalar_union_of_Some(2) [OF assms] classes by (simp flip: leaf_classes_length)
qed

lemma merge_start_Ok:
  assumes "merge_start siblings edges u = Ok (first_params, ms)"
  obtains own body landing where "union_own u 0 = Some own"
    "splice_runtime_scalars ((kf_body (ed_fragment (hd edges)))\<lparr>kb_exact :=
          list_ex (\<lambda>b. kb_exact (kf_body (sb_fragment b))) siblings\<rparr>) own (scalar_total u - own) = Some body"
    "parameters body = Some first_params" "returns_of (kf_body (ed_fragment (hd edges))) = Ok landing"
    "ms = \<lparr>ms_body = body, ms_landing = landing, ms_union = kf_inputs (ed_fragment (hd edges)),
          ms_outputs = kf_outputs (ed_fragment (hd edges)), ms_slices = kf_slices (ed_fragment (hd edges)),
          ms_blocks_base = length (kb_blocks body),
          ms_input_classes = kf_input_classes (ed_fragment (hd edges)),
          ms_output_classes = kf_output_classes (ed_fragment (hd edges))\<rparr>"
  using assms that by (auto simp: merge_start_def Let_def)

lemma check_domain_Ok:
  assumes "check_domain first last_fragment (index, edge) = Ok ()"
  shows "\<exists>params. parameters (kf_body (ed_fragment edge)) = Some params \<and>
    length params = flat_arity (kf_param_shape (ed_fragment edge))"
  using assms by (auto simp: check_domain_def Let_def)

text \<open>
  C13: A merge of siblings joins them: the ports are those of the branches with the shared one
  counted once, in order; the outputs are all outputs in order; the domain is the extent, every branch's
  own scalars and the index, and the merged body takes exactly these parameters; the merged body and
  fragment are accepted by their gates.
\<close>

theorem siblings_join:
  assumes "compose_siblings siblings = Ok f"
  shows "kf_input_classes f = kf_input_classes (sb_fragment (hd siblings)) @
        concat (map (\<lambda>b. own_ports (sb_fragment b) (unat (sb_shared b))) (tl siblings)) \<and>
      length (kf_input_classes f) = kf_inputs f \<and>
      kf_inputs f + (length siblings - 1) = sum_list (map (\<lambda>b. kf_inputs (sb_fragment b)) siblings) \<and>
      kf_outputs f = sum_list (map (\<lambda>b. kf_outputs (sb_fragment b)) siblings) \<and>
      kf_output_classes f = concat (map (\<lambda>b. kf_output_classes (sb_fragment b)) siblings) \<and>
      leaf_classes (kf_param_shape f) = Int_class #
        concat (map (\<lambda>b. butlast (tl (leaf_classes (kf_param_shape (sb_fragment b))))) siblings) @ [Int_class] \<and>
      map_option length (parameters (kf_body f)) = Some (flat_arity (kf_param_shape f)) \<and>
      validate (kf_body f) = Ok () \<and> fragment_validate f = Ok ()"
proof -
  obtain ports u edges first_params ms ms' body marks where all:
    "2 \<le> length siblings" "ports = sum_list (map (\<lambda>b. kf_inputs (sb_fragment b)) siblings) - (length siblings - 1)"
    "scalar_union_of (map (\<lambda>b. kf_param_shape (sb_fragment b)) siblings) = Some u"
    "edges_of (sb_fragment (hd siblings)) ports siblings = Ok edges"
    "\<forall>x \<in> set (enumerate 0 edges). check_domain (sb_fragment (hd siblings)) (sb_fragment (last siblings)) x = Ok ()"
    "merge_start siblings edges u = Ok (first_params, ms)"
    "fold_res (merge_branch u first_params (ed_shared (hd edges)) (kf_body (ed_fragment (hd edges)))) (tl (enumerate 0 edges)) ms = Ok ms'"
    "compact (ms_body ms') (kf_marks (ed_fragment (hd edges))) = Some (body, marks)"
    and f: "f = merged_fragment u ports (ed_fragment (hd edges)) (ed_fragment (last edges)) ms' body marks"
    and gates: "validate body = Ok ()" "fragment_validate f = Ok ()"
    using compose_siblings_Ok [OF assms] .
  obtain b bs where siblings: "siblings = b # bs" using all(1) by (cases siblings) auto
  obtain edge es where edges: "edges = edge # es" using edges_of_Ok [OF all(4)] siblings by (cases edges) auto
  note maps = edges_of_fragments [OF all(4), unfolded siblings edges]
  have first: "ed_fragment edge = sb_fragment b" and others: "map ed_fragment es = map sb_fragment bs"
    "map ed_shared es = map (\<lambda>b. unat (sb_shared b)) bs" using maps(1,2) by simp_all
  obtain own start landing where start: "union_own u 0 = Some own"
    "splice_runtime_scalars ((kf_body (sb_fragment b))\<lparr>kb_exact :=
          list_ex (\<lambda>b. kb_exact (kf_body (sb_fragment b))) siblings\<rparr>) own (scalar_total u - own) = Some start"
    "parameters start = Some first_params" and ms: "ms_body ms = start"
    "ms_outputs ms = kf_outputs (sb_fragment b)" "ms_output_classes ms = kf_output_classes (sb_fragment b)"
    "ms_input_classes ms = kf_input_classes (sb_fragment b)"
    using merge_start_Ok [OF all(6), unfolded edges list.sel first] by (metis merge_state.select_convs)
  have kept: "\<And>branch. branch \<in> set siblings \<Longrightarrow>
      unat (sb_shared branch) < length (kf_input_classes (sb_fragment branch)) \<and>
      length (kf_input_classes (sb_fragment branch)) = kf_inputs (sb_fragment branch)"
    using edges_of_Ok [OF all(4)] edge_of_Ok(1,2,4,5) by (metis in_set_conv_nth)
  have own: "own = flat_arity (kf_param_shape (sb_fragment b)) - 2" "2 \<le> flat_arity (kf_param_shape (sb_fragment b))"
    "own \<le> scalar_total u"
    using start(1) scalar_union_of_Some(1,3) [OF all(3)] siblings
    by (auto simp: union_own_def scalar_total_def simp del: nth_opt_Some)
  have arity: "length first_params = scalar_total u + 2"
  proof -
    obtain params where "parameters (kf_body (sb_fragment b)) = Some params"
      "length params = flat_arity (kf_param_shape (sb_fragment b))"
      using all(5) first check_domain_Ok unfolding edges by fastforce
    then show ?thesis
      using splice_runtime_scalars_params [OF start(2)] start(3) own by (auto simp: parameters_def)
  qed
  have tail: "tl (enumerate 0 edges) = enumerate 1 es" by (simp add: edges)
  note joined = merge_fold_fields [OF all(7), unfolded tail ms]
  have by_edge: "map (\<lambda>(_, e). g e) (enumerate n es) = map g es" for g :: "sibling_edge \<Rightarrow> 'x" and n
    by (induction es arbitrary: n) simp_all
  have outputs: "map (\<lambda>e. kf_outputs (ed_fragment e)) es = map (\<lambda>b. kf_outputs (sb_fragment b)) bs"
    "map (\<lambda>e. kf_output_classes (ed_fragment e)) es = map (\<lambda>b. kf_output_classes (sb_fragment b)) bs"
    using others(1) by (simp_all add: list_eq_iff_nth_eq)
  have ports: "map (\<lambda>e. own_ports (ed_fragment e) (ed_shared e)) es =
      map (\<lambda>b. own_ports (sb_fragment b) (unat (sb_shared b))) bs"
    using others by (simp add: list_eq_iff_nth_eq)
  have classes: "kf_input_classes f = kf_input_classes (sb_fragment b) @
      concat (map (\<lambda>b. own_ports (sb_fragment b) (unat (sb_shared b))) bs)"
    using joined(3) ports by (simp add: f merged_fragment_def by_edge)
  have counted: "kf_inputs f + length bs = kf_inputs (sb_fragment b) + sum_list (map (\<lambda>b. kf_inputs (sb_fragment b)) bs)"
    "kf_inputs (sb_fragment b) + sum_list (map (\<lambda>b. length (own_ports (sb_fragment b) (unat (sb_shared b)))) bs) + length bs =
      kf_inputs (sb_fragment b) + sum_list (map (\<lambda>b. kf_inputs (sb_fragment b)) bs)"
  proof -
    have each: "length (own_ports (sb_fragment b') (unat (sb_shared b'))) + 1 = kf_inputs (sb_fragment b')"
      if "b' \<in> set bs" for b'
      using kept [of b'] length_own_ports [of "unat (sb_shared b')" "sb_fragment b'"] that siblings by simp
    then have "sum_list (map (\<lambda>b. length (own_ports (sb_fragment b) (unat (sb_shared b))) + 1) bs) =
        sum_list (map (\<lambda>b. kf_inputs (sb_fragment b)) bs)" by (intro arg_cong [where f = sum_list]) simp
    then show "kf_inputs (sb_fragment b) + sum_list (map (\<lambda>b. length (own_ports (sb_fragment b) (unat (sb_shared b)))) bs) + length bs =
      kf_inputs (sb_fragment b) + sum_list (map (\<lambda>b. kf_inputs (sb_fragment b)) bs)"
      by (simp add: sum_list_Suc)
    then show "kf_inputs f + length bs = kf_inputs (sb_fragment b) + sum_list (map (\<lambda>b. kf_inputs (sb_fragment b)) bs)"
      by (simp add: f merged_fragment_def all(2) siblings)
  qed
  obtain params where params: "parameters body = Some params" "length params = length first_params"
  proof -
    obtain entry where "nth_opt (kb_blocks start) (kb_entry start) = Some entry" "bb_params entry = first_params"
      using start(3) by (auto simp: parameters_def simp del: nth_opt_Some)
    moreover from this(1) joined(4,5) obtain entry' where
      "nth_opt (kb_blocks (ms_body ms')) (kb_entry (ms_body ms')) = Some entry'" "bb_params entry' = bb_params entry"
      by metis
    ultimately show ?thesis
      using that compact_entry_params [OF all(8), of entry'] by (auto simp: parameters_def simp del: nth_opt_Some)
  qed
  have "map_option length (parameters (kf_body f)) = Some (flat_arity (kf_param_shape f))"
    using params arity flat_arity_union(2) [OF all(3)] by (simp add: f merged_fragment_def)
  moreover have "length (kf_input_classes f) = kf_inputs f"
    using classes counted kept [of b] siblings by (simp add: length_concat comp_def)
  ultimately show ?thesis
    using classes counted(1) joined(1,2) gates flat_arity_union(1) [OF all(3)] outputs
    by (simp add: siblings f merged_fragment_def by_edge comp_def)
qed

section \<open>Two branches\<close>

text \<open>A branch that reads the shared input at the lane and hands the element to one access.\<close>

definition access_fragment :: "kernel_instr \<Rightarrow> kernel_fragment" where
  "access_fragment op = \<lparr>kf_param_shape = Tuple_shape [Scalar_shape Int_class, Scalar_shape Int_class],
     kf_roles = no_roles,
     kf_body = \<lparr>kb_values = [Block_param 0 0, Block_param 0 1, Instr (Const Int_class 0) [] [Int_class],
         Instr (BufferReadCall Float_class) [2, 1] [Float_class], Instr op [2, 1, 3] []],
       kb_blocks = [\<lparr>bb_params = [0, 1], bb_instrs = [2, 3, 4], bb_terminator = Return []\<rparr>],
       kb_entry = 0, kb_exact = False, kb_barriers = []\<rparr>,
     kf_inputs = 1, kf_outputs = 1,
     kf_input_classes = [Float_class], kf_output_classes = [Float_class], kf_result_classes = [],
     kf_target = \<lparr>tf_int_width = I64, tf_lane_width = 1, tf_lane_height = 1\<rparr>, kf_slices = [], kf_marks = []\<rparr>"

definition write_beside :: "kernel_instr \<Rightarrow> sibling list" where
  "write_beside op = [\<lparr>sb_fragment = access_fragment (BufferWriteCall Float_class), sb_shared = 0\<rparr>,
     \<lparr>sb_fragment = access_fragment op, sb_shared = 0\<rparr>]"

definition stores :: "kernel_body \<Rightarrow> (kernel_instr \<times> u64 option) list" where
  "stores body = List.map_filter (\<lambda>v. case instr_of body v of
       Some (op, args) \<Rightarrow> (case op of
           BufferWriteCall _ \<Rightarrow> Some (op, body_constant body (nth_opt args 0))
         | BufferAtomicAddCall _ \<Rightarrow> Some (op, body_constant body (nth_opt args 0))
         | _ \<Rightarrow> None)
     | None \<Rightarrow> None) (listed body)"


lemma write_beside_merges:
  "case compose_siblings (write_beside (BufferWriteCall Float_class)) of Ok f \<Rightarrow> True | _ \<Rightarrow> False"
  by code_simp

theorem siblings_join_witness:
  "case compose_siblings (write_beside (BufferWriteCall Float_class)) of
     Ok f \<Rightarrow> kf_inputs f = 1 \<and> kf_outputs f = 2 \<and> kf_output_classes f = [Float_class, Float_class] \<and>
       validate (kf_body f) = Ok ()
   | _ \<Rightarrow> False"
proof -
  obtain f where f: "compose_siblings (write_beside (BufferWriteCall Float_class)) = Ok f"
    using write_beside_merges by (cases "compose_siblings (write_beside (BufferWriteCall Float_class))") auto
  show ?thesis
    using siblings_join [OF f] f by (simp add: write_beside_def access_fragment_def)
qed

end
