(* ===== verification/Sibling_Plan.thy ===== *)
theory Sibling_Plan
  imports Sibling_Properties
begin

text \<open>
  Where the values of a branch land (\<open>plan_branch\<close>): its parameters on the first branch's, its other values
  on fresh ids, and the positions its accesses take on constants behind them.
\<close>

section \<open>Reserving ids\<close>

abbreviation (input) "unbound r vs \<equiv> map (\<lambda>v. rn_bound r v = None) vs"

lemma reserve_all:
  assumes "rn_reserve_all vs (r, table) = (slots, r', table')" and "distinct vs"
  shows "rn_bound r' = rn_bound r"
    and "table' = table @ replicate (length (List.filter id (unbound r vs))) (Block_param 0 0)"
    and "slots = map (\<lambda>i. if rn_bound r (vs ! i) = None
      then Some (of_nat (length table + survivor_rank (unbound r vs) i)) else None) [0..<length vs]"
    and "i < length vs \<Longrightarrow> rn_bound r (vs ! i) = None \<Longrightarrow>
      rn_landed r' (vs ! i) = Some (of_nat (length table + survivor_rank (unbound r vs) i))"
    and "v \<notin> set vs \<Longrightarrow> rn_landed r' v = rn_landed r v"
proof -
  have "rn_bound r' = rn_bound r \<and>
      table' = table @ replicate (length (List.filter id (unbound r vs))) (Block_param 0 0) \<and>
      slots = map (\<lambda>i. if rn_bound r (vs ! i) = None
        then Some (of_nat (length table + survivor_rank (unbound r vs) i)) else None) [0..<length vs] \<and>
      (\<forall>i < length vs. rn_bound r (vs ! i) = None \<longrightarrow>
        rn_landed r' (vs ! i) = Some (of_nat (length table + survivor_rank (unbound r vs) i))) \<and>
      (\<forall>v. v \<notin> set vs \<longrightarrow> rn_landed r' v = rn_landed r v)"
    using assms
  proof (induction vs arbitrary: r table slots)
    case (Cons v vs)
    obtain slot r1 table1 slots1 where one: "rn_reserve v (r, table) = (slot, r1, table1)"
      and rest: "rn_reserve_all vs (r1, table1) = (slots1, r', table')" and slots: "slots = slot # slots1"
      using Cons.prems(1) by (auto split: prod.splits)
    have bound: "rn_bound r1 = rn_bound r"
      and slot: "slot = (if rn_bound r v = None then Some (of_nat (length table)) else None)"
      and table1: "table1 = table @ (if rn_bound r v = None then [Block_param 0 0] else [])"
      and landed: "rn_landed r1 = (if rn_bound r v = None then (rn_landed r)(v \<mapsto> of_nat (length table)) else rn_landed r)"
      using one by (auto simp: rn_reserve_def Let_def split: if_splits)
    note IH = Cons.IH [OF rest]
    have slots': "slots = map (\<lambda>i. if rn_bound r ((v # vs) ! i) = None
        then Some (of_nat (length table + survivor_rank (unbound r (v # vs)) i)) else None) [0..<length (v # vs)]"
      using IH Cons.prems(2) bound slot table1 unfolding slots
      by (intro nth_equalityI) (auto simp: nth_Cons rank_Cons survivor_rank_def simp del: upt_Suc split: nat.split)
    have at: "\<forall>i < length (v # vs). rn_bound r ((v # vs) ! i) = None \<longrightarrow>
        rn_landed r' ((v # vs) ! i) = Some (of_nat (length table + survivor_rank (unbound r (v # vs)) i))"
      using IH Cons.prems(2) bound table1 landed by (auto simp: nth_Cons rank_Cons survivor_rank_def split: nat.split)
    show ?case
      using IH Cons.prems(2) bound table1 landed slots' at by simp
  qed simp
  then show "rn_bound r' = rn_bound r"
    and "table' = table @ replicate (length (List.filter id (unbound r vs))) (Block_param 0 0)"
    and "slots = map (\<lambda>i. if rn_bound r (vs ! i) = None
      then Some (of_nat (length table + survivor_rank (unbound r vs) i)) else None) [0..<length vs]"
    and "i < length vs \<Longrightarrow> rn_bound r (vs ! i) = None \<Longrightarrow>
      rn_landed r' (vs ! i) = Some (of_nat (length table + survivor_rank (unbound r vs) i))"
    and "v \<notin> set vs \<Longrightarrow> rn_landed r' v = rn_landed r v" by blast+
qed

section \<open>Writing the values back\<close>

lemma word_below: "\<not> 2 ^ 32 \<le> unat (v :: u32)"
  using unsigned_less [of v, where ?'a = nat] by (simp add: not_le)

lemma write_back_at:
  assumes "write_back slots table = Some table'"
  shows "length table' = length table"
    and "\<forall>(slot, d) \<in> set slots. slot \<noteq> Some (of_nat j) \<or> 2 ^ 32 \<le> j \<Longrightarrow> nth_opt table' j = nth_opt table j"
    and "distinct (List.map_filter fst slots) \<Longrightarrow> (Some target, d) \<in> set slots \<Longrightarrow>
      nth_opt table' (unat target) = Some d"
proof -
  have "length table' = length table \<and>
      (\<forall>j. (\<forall>(slot, d) \<in> set slots. slot \<noteq> Some (of_nat j) \<or> 2 ^ 32 \<le> j) \<longrightarrow> nth_opt table' j = nth_opt table j) \<and>
      (distinct (List.map_filter fst slots) \<longrightarrow> (\<forall>target d. (Some target, d) \<in> set slots \<longrightarrow>
        nth_opt table' (unat target) = Some d))"
    using assms unfolding write_back_def
  proof (induction slots arbitrary: table)
    case (Cons entry slots)
    obtain slot d where entry: "entry = (slot, d)" by (cases entry)
    show ?case
    proof (cases slot)
      case None
      then show ?thesis using Cons.IH [of table] Cons.prems entry by (auto simp: map_filter_simps)
    next
      case (Some target)
      then have inside: "unat target < length table"
        and rest: "fold_opt (\<lambda>(slot, d) table. case slot of None \<Rightarrow> Some table
          | Some target \<Rightarrow> if unat target < length table then Some (table[unat target := d]) else None)
          slots (table[unat target := d]) = Some table'"
        using Cons.prems entry by (auto split: if_splits)
      note IH = Cons.IH [OF rest]
      have away: "nth_opt table' j = nth_opt table j"
        if "\<forall>(slot, d) \<in> set (entry # slots). slot \<noteq> Some (of_nat j) \<or> 2 ^ 32 \<le> j" for j
      proof -
        have "j \<noteq> unat target"
          using that entry Some word_below [of target] by auto
        moreover have "nth_opt table' j = nth_opt (table[unat target := d]) j" using IH that by simp
        ultimately show ?thesis by (simp add: nth_opt_def)
      qed
      have "nth_opt table' (unat target) = Some d" if "target \<notin> set (List.map_filter fst slots)"
      proof -
        have "\<forall>(slot, d) \<in> set slots. slot \<noteq> Some (of_nat (unat target)) \<or> 2 ^ 32 \<le> unat target"
          using that by (force simp: List.map_filter_def)
        then have "nth_opt table' (unat target) = nth_opt (table[unat target := d]) (unat target)" using IH by blast
        then show ?thesis using inside by simp
      qed
      then show ?thesis using IH away inside entry Some by (auto simp: map_filter_simps)
    qed
  qed (simp add: map_filter_simps)
  then show "length table' = length table"
    and "\<forall>(slot, d) \<in> set slots. slot \<noteq> Some (of_nat j) \<or> 2 ^ 32 \<le> j \<Longrightarrow> nth_opt table' j = nth_opt table j"
    and "distinct (List.map_filter fst slots) \<Longrightarrow> (Some target, d) \<in> set slots \<Longrightarrow>
      nth_opt table' (unat target) = Some d" by blast+
qed

section \<open>Position constants\<close>

definition holds_const :: "value_def list \<Rightarrow> value_id \<Rightarrow> u64 \<Rightarrow> bool" where
  "holds_const table c bits \<longleftrightarrow> nth_opt table (unat c) = Some (Instr (Const Int_class bits) [] [Int_class])"

text \<open>Both loops over accesses take the same step: a value is given a fresh constant, or none.\<close>

definition shift_step :: "('x \<Rightarrow> (value_id \<times> u64) option) \<Rightarrow> 'x \<Rightarrow> shifted_table \<Rightarrow> shifted_table" where
  "shift_step g x = (\<lambda>(table, sh). case g x of None \<Rightarrow> (table, sh)
     | Some (v, bits) \<Rightarrow> (let (table, c) = position_constant table bits in (table, sh(v \<mapsto> c))))"

lemma shift_step_at:
  "shift_step g x (table, sh) = (case g x of None \<Rightarrow> (table, sh)
     | Some (v, bits) \<Rightarrow> (table @ [Instr (Const Int_class bits) [] [Int_class]], sh(v \<mapsto> of_nat (length table))))"
  by (simp add: shift_step_def position_constant_def split: option.split)

lemma shift_read_step:
  "shift_read base absorbed = shift_step (\<lambda>(read, position). if unat position \<in> set absorbed then None
     else Some (read, i64_of (base + unat position - length (List.filter (\<lambda>ordinal. ordinal < unat position) absorbed))))"
  by (auto simp: fun_eq_iff shift_read_def shift_step_def Let_def split: prod.split)

definition moved_write :: "nat \<Rightarrow> u64 \<Rightarrow> u64 option" where
  "moved_write base held = (let at = saturated (base + unat held) in if at = unat held then None else Some (i64_of at))"

definition access_position :: "kernel_body \<Rightarrow> value_id \<Rightarrow> u64 option" where
  "access_position body v = Option.bind (instr_of body v) (\<lambda>(_, args). body_constant body (nth_opt args 0))"

lemma shift_write_step:
  "shift_write consumer base = shift_step (\<lambda>write. Option.bind (access_position consumer write)
     (\<lambda>held. map_option (Pair write) (moved_write base held)))"
proof -
  have "Option.bind (nth_opt args 0) (\<lambda>a. body_constant consumer (Some a)) = body_constant consumer (nth_opt args 0)"
    for args by (cases "nth_opt args 0") (simp_all add: body_constant_def del: nth_opt_Some nth_opt_None)
  then show ?thesis
    by (auto simp: fun_eq_iff shift_write_def shift_step_def access_position_def moved_write_def Let_def
        split: prod.split option.split Option.bind_split)
qed

lemma shift_fold:
  assumes "fold (shift_step g) xs (table, sh0) = (table', sh)" and "length table + length xs < 2 ^ 32"
  shows "\<exists>ext. table' = table @ ext \<and> length ext \<le> length xs"
    and "sh v = Some c \<Longrightarrow> sh0 v = Some c \<or> (\<exists>x \<in> set xs. \<exists>bits. g x = Some (v, bits) \<and>
      length table \<le> unat c \<and> unat c < length table' \<and> holds_const table' c bits)"
    and "(\<exists>x \<in> set xs. \<exists>bits. g x = Some (v, bits)) \<or> sh0 v \<noteq> None \<Longrightarrow> sh v \<noteq> None"
proof -
  have "(\<exists>ext. table' = table @ ext \<and> length ext \<le> length xs) \<and>
      (\<forall>v c. sh v = Some c \<longrightarrow> sh0 v = Some c \<or> (\<exists>x \<in> set xs. \<exists>bits. g x = Some (v, bits) \<and>
        length table \<le> unat c \<and> unat c < length table' \<and> holds_const table' c bits)) \<and>
      (\<forall>v. (\<exists>x \<in> set xs. \<exists>bits. g x = Some (v, bits)) \<or> sh0 v \<noteq> None \<longrightarrow> sh v \<noteq> None)"
    using assms
  proof (induction xs arbitrary: table sh0)
    case (Cons x xs)
    show ?case
    proof (cases "g x")
      case None
      then show ?thesis using Cons.IH [of table sh0] Cons.prems by (auto simp: shift_step_at le_SucI)
    next
      case (Some hit)
      obtain w bits where hit: "hit = (w, bits)" by (cases hit)
      let ?c = "of_nat (length table) :: u32" and ?next = "table @ [Instr (Const Int_class bits) [] [Int_class]]"
      have "fold (shift_step g) xs (?next, sh0(w \<mapsto> ?c)) = (table', sh)"
        using Cons.prems(1) Some hit by (simp add: shift_step_at)
      note IH = Cons.IH [OF this] 
      have small: "length ?next + length xs < 2 ^ 32" using Cons.prems(2) by simp
      then obtain ext where ext: "table' = ?next @ ext" "length ext \<le> length xs" using IH by blast
      have c: "unat ?c = length table" using Cons.prems(2) by (simp add: unat_of_nat_u32)
      have "holds_const table' ?c bits" using ext(1) c by (simp add: holds_const_def nth_append)
      moreover have "sh0 v = Some c \<or> (v = w \<and> c = ?c) \<or> (\<exists>x \<in> set xs. \<exists>bits. g x = Some (v, bits) \<and>
          length table \<le> unat c \<and> unat c < length table' \<and> holds_const table' c bits)" if some: "sh v = Some c" for v c
      proof -
        consider "(sh0(w \<mapsto> ?c)) v = Some c" | y bits' where "y \<in> set xs" "g y = Some (v, bits')"
          "length ?next \<le> unat c" "unat c < length table'" "holds_const table' c bits'"
          using IH small some by blast
        then show ?thesis
        proof cases
          case 1
          then show ?thesis by (cases "v = w") auto
        next
          case 2
          then have "length table \<le> unat c" by simp
          then show ?thesis using 2 by blast
        qed
      qed
      moreover have "sh v \<noteq> None" if "(\<exists>x \<in> set xs. \<exists>bits. g x = Some (v, bits)) \<or> v = w \<or> sh0 v \<noteq> None" for v
      proof -
        have "(\<exists>x \<in> set xs. \<exists>bits. g x = Some (v, bits)) \<or> (sh0(w \<mapsto> ?c)) v \<noteq> None" using that by auto
        then show ?thesis using IH small by blast
      qed
      moreover have "length table \<le> unat ?c \<and> unat ?c < length table'" using c ext by simp
      ultimately show ?thesis using Some hit ext by simp blast
    qed
  qed simp
  then show "\<exists>ext. table' = table @ ext \<and> length ext \<le> length xs"
    and "sh v = Some c \<Longrightarrow> sh0 v = Some c \<or> (\<exists>x \<in> set xs. \<exists>bits. g x = Some (v, bits) \<and>
      length table \<le> unat c \<and> unat c < length table' \<and> holds_const table' c bits)"
    and "(\<exists>x \<in> set xs. \<exists>bits. g x = Some (v, bits)) \<or> sh0 v \<noteq> None \<Longrightarrow> sh v \<noteq> None" by blast+
qed

section \<open>The accesses of a branch\<close>

lemma buffer_reads_at:
  assumes "buffer_reads body = Ok reads"
  shows "(v, pos) \<in> set reads \<longleftrightarrow> v \<in> set (listed body) \<and> (\<exists>op args p. instr_of body v = Some (op, args) \<and>
      is_buffer_read op \<and> access_position body v = Some p \<and> pos = ucast p)"
    and "v \<in> set (listed body) \<Longrightarrow> instr_of body v = Some (op, args) \<Longrightarrow> is_buffer_read op \<Longrightarrow>
      \<exists>p. access_position body v = Some p"
    and "length reads + length (write_sites body) \<le> length (listed body)"
proof -
  have at: "Option.bind (nth_opt args 0) (\<lambda>a. body_constant body (Some a)) = body_constant body (nth_opt args 0)"
    for args by (cases "nth_opt args 0") (simp_all add: body_constant_def del: nth_opt_Some nth_opt_None)
  have one: "read_site body v = Ok site \<longleftrightarrow> (case instr_of body v of
      Some (op, args) \<Rightarrow> if is_buffer_read op then \<exists>p. access_position body v = Some p \<and> site = Some (v, ucast p)
        else site = None | None \<Rightarrow> site = None)" for v site
    by (auto simp: read_site_def access_position_def at split: option.split)
  have "((v, pos) \<in> set reads \<longleftrightarrow> v \<in> set vs \<and> (\<exists>op args p. instr_of body v = Some (op, args) \<and>
        is_buffer_read op \<and> access_position body v = Some p \<and> pos = ucast p)) \<and>
      (v \<in> set vs \<longrightarrow> instr_of body v = Some (op, args) \<longrightarrow> is_buffer_read op \<longrightarrow> (\<exists>p. access_position body v = Some p)) \<and>
      length reads + length (List.filter (\<lambda>v. case instr_of body v of Some (op, _) \<Rightarrow> is_buffer_write op | None \<Rightarrow> False) vs)
        \<le> length vs" if "read_sites body vs = Ok reads" for vs op args
    using that
  proof (induction vs arbitrary: reads)
    case (Cons w vs)
    obtain site sites where w: "read_site body w = Ok site" and rest: "read_sites body vs = Ok sites"
      and reads: "reads = (case site of Some s \<Rightarrow> s # sites | None \<Rightarrow> sites)" using Cons.prems by auto
    have apart: "\<not> (is_buffer_read op \<and> is_buffer_write op)" for op
      by (simp add: is_buffer_read_def is_buffer_write_def split: kernel_instr.split)
    show ?case
      using Cons.IH [OF rest] w [unfolded one] reads apart by (auto split: option.splits if_splits)
  qed simp
  from this [OF assms [unfolded buffer_reads_def]]
  show "(v, pos) \<in> set reads \<longleftrightarrow> v \<in> set (listed body) \<and> (\<exists>op args p. instr_of body v = Some (op, args) \<and>
      is_buffer_read op \<and> access_position body v = Some p \<and> pos = ucast p)"
    and "v \<in> set (listed body) \<Longrightarrow> instr_of body v = Some (op, args) \<Longrightarrow> is_buffer_read op \<Longrightarrow>
      \<exists>p. access_position body v = Some p"
    and "length reads + length (write_sites body) \<le> length (listed body)"
    by (auto simp: write_sites_def)
qed

section \<open>Where a branch lands\<close>

lemma bind_params_at:
  assumes "fold_opt (\<lambda>(slot, p) r. map_option (\<lambda>target. rn_bind p target r) (g slot)) (enumerate n ps) r = Some r'"
    and "distinct ps"
  shows "rn_landed r' = rn_landed r \<and> (\<forall>i < length ps. \<exists>target. g (n + i) = Some target \<and> rn_bound r' (ps ! i) = Some target) \<and>
    (\<forall>v. v \<notin> set ps \<longrightarrow> rn_bound r' v = rn_bound r v)"
  using assms
proof (induction ps arbitrary: n r)
  case (Cons p ps)
  obtain target where target: "g n = Some target"
    and rest: "fold_opt (\<lambda>(slot, p) r. map_option (\<lambda>target. rn_bind p target r) (g slot)) (enumerate (Suc n) ps)
      (rn_bind p target r) = Some r'"
    using Cons.prems(1) by (auto simp: bind_eq_Some_conv)
  show ?case
    using Cons.IH [OF rest] Cons.prems(2) target by (auto simp: rn_bind_def nth_Cons split: nat.split)
qed simp

definition branch_fits :: "scalar_union \<Rightarrow> value_id list \<Rightarrow> nat \<Rightarrow> sibling_edge \<Rightarrow> kernel_body \<Rightarrow> nat \<Rightarrow> nat \<Rightarrow>
    value_id list \<Rightarrow> bool" where
  "branch_fits u first_params index edge merged own earlier params \<longleftrightarrow>
     union_own u index = Some own \<and> union_before u index = Some earlier \<and> earlier + own \<le> scalar_total u \<and>
     length first_params = scalar_total u + 2 \<and> distinct first_params \<and>
     (\<forall>p \<in> set first_params. unat p < length (kb_values merged)) \<and>
     params_placed (kf_body (ed_fragment edge)) \<and> parameters (kf_body (ed_fragment edge)) = Some params \<and>
     length params = own + 2 \<and> buffer_reads (kf_body (ed_fragment edge)) = Ok (ed_reads edge) \<and>
     ed_reads_shared edge = map fst (List.filter (\<lambda>(_, position). unat position = ed_shared edge) (ed_reads edge)) \<and>
     length (kb_values merged) + length (kb_values (kf_body (ed_fragment edge))) +
       length (listed (kf_body (ed_fragment edge))) + 1 < 2 ^ 32"

lemma entry_params_placed:
  assumes "params_placed body" and "parameters body = Some params"
  shows "distinct params" and "i < length params \<Longrightarrow> value_at body (params ! i) = Some (Block_param (kb_entry body) (of_nat i))"
    and "p \<in> set params \<Longrightarrow> unat p < length (kb_values body)"
proof -
  obtain entry where entry: "nth_opt (kb_blocks body) (kb_entry body) = Some entry" "bb_params entry = params"
    using assms(2) by (auto simp: parameters_def simp del: nth_opt_Some)
  show "distinct params" using params_distinct [OF assms(1) entry(1)] entry(2) by simp
  show at: "i < length params \<Longrightarrow> value_at body (params ! i) = Some (Block_param (kb_entry body) (of_nat i))" for i
    using params_placedD(1) [OF assms(1) entry(1), of i] entry(2) by simp
  show "p \<in> set params \<Longrightarrow> unat p < length (kb_values body)"
    using at by (fastforce simp: in_set_conv_nth value_at_def)
qed

lemma branch_params_bound:
  assumes fits: "branch_fits u first_params index edge merged own earlier params"
    and "branch_params u index first_params params = Some r"
  shows "rn_landed r = Map.empty"
    and "i < own + 2 \<Longrightarrow> rn_bound r (params ! i) = Some (first_params ! landed_slot i own earlier (scalar_total u))"
    and "v \<notin> set params \<Longrightarrow> rn_bound r v = None"
    and "rn_bound r v = Some p \<Longrightarrow> p \<in> set first_params"
    and "rn_bound r v = Some p \<Longrightarrow> rn_bound r w = Some p \<Longrightarrow> v = w"
proof -
  note fits = fits [unfolded branch_fits_def]
  have distinct: "distinct params" using entry_params_placed(1) fits by blast
  have slots: "landed_slot i own earlier (scalar_total u) < length first_params" if "i < own + 2" for i
    using that fits by (auto simp: landed_slot_def)
  have run: "fold_opt (\<lambda>(slot, p) r. map_option (\<lambda>target. rn_bind p target r)
      (nth_opt first_params (landed_slot slot own earlier (scalar_total u)))) (enumerate 0 params) rn_empty = Some r"
    using assms(2) fits by (simp add: branch_params_def)
  note bound = bind_params_at [OF run distinct]
  show "rn_landed r = Map.empty" using bound by (simp add: rn_empty_def)
  show at: "rn_bound r (params ! i) = Some (first_params ! landed_slot i own earlier (scalar_total u))" if "i < own + 2" for i
  proof -
    have "nth_opt first_params (landed_slot i own earlier (scalar_total u)) = rn_bound r (params ! i)"
      using bound that fits by (metis add_0)
    then show ?thesis using slots [OF that] by (simp add: nth_opt_def)
  qed
  show away: "v \<notin> set params \<Longrightarrow> rn_bound r v = None" for v using bound by (simp add: rn_empty_def)
  have slot: "\<exists>i < own + 2. v = params ! i \<and> p = first_params ! landed_slot i own earlier (scalar_total u)"
    if "rn_bound r v = Some p" for v p
  proof -
    have "v \<in> set params" using away that by (cases "v \<in> set params") auto
    then obtain i where "i < own + 2" "v = params ! i" using fits by (auto simp: in_set_conv_nth)
    then show ?thesis using at that by (intro exI [of _ i]) simp
  qed
  show "rn_bound r v = Some p \<Longrightarrow> p \<in> set first_params" using slot slots by fastforce
  assume "rn_bound r v = Some p" "rn_bound r w = Some p"
  with slot obtain i j where ij: "i < own + 2" "j < own + 2" "v = params ! i" "w = params ! j"
    "first_params ! landed_slot i own earlier (scalar_total u) = first_params ! landed_slot j own earlier (scalar_total u)"
    by metis
  then have "landed_slot i own earlier (scalar_total u) = landed_slot j own earlier (scalar_total u)"
    using slots fits by (metis nth_eq_iff_index_eq)
  then have "i = j" using ij(1,2) fits by (auto simp: landed_slot_def split: if_splits)
  then show "v = w" using ij by simp
qed

text \<open>The constants behind the reserved ids.\<close>

definition moved_read :: "nat \<Rightarrow> nat \<Rightarrow> nat \<Rightarrow> u32 \<Rightarrow> u64" where
  "moved_read port base shared pos = (if unat pos = shared then i64_of port
     else i64_of (base + unat pos - (if shared < unat pos then 1 else 0)))"

definition bp_moved :: "branch_plan \<Rightarrow> value_id \<Rightarrow> value_id option" where
  "bp_moved bp = moved_access (bp_shifted bp) (bp_writes bp)"

definition bp_ren :: "branch_plan \<Rightarrow> value_id \<Rightarrow> value_id" where
  "bp_ren bp = rn_resolve (bp_ids bp)"

text \<open>What a position of a branch becomes.\<close>

definition moved_to :: "sibling_edge \<Rightarrow> nat \<Rightarrow> nat \<Rightarrow> nat \<Rightarrow> value_id \<Rightarrow> u64 \<Rightarrow> bool" where
  "moved_to edge port base outputs v bits \<longleftrightarrow>
     (\<exists>pos. (v, pos) \<in> set (ed_reads edge) \<and> bits = moved_read port base (ed_shared edge) pos) \<or>
     (v \<in> set (write_sites (kf_body (ed_fragment edge))) \<and>
       (\<exists>held. access_position (kf_body (ed_fragment edge)) v = Some held \<and> moved_write outputs held = Some bits))"

lemma holds_const_append: "holds_const table c bits \<Longrightarrow> holds_const (table @ ext) c bits"
  by (auto simp: holds_const_def nth_append)

lemma override_keys:
  "fold (\<lambda>read sh. sh(read \<mapsto> c)) reads sh v = (if v \<in> set reads then Some c else sh v)"
  by (induction reads arbitrary: sh) auto

lemma positions_at:
  assumes reads: "shifted_past table (ed_reads edge) base [ed_shared edge] = (table1, sh)"
    and shared: "position_constant table1 (i64_of port) = (table2, c0)"
    and writes: "shifted_write_positions table2 (kf_body (ed_fragment edge)) outputs = (table3, ws)"
    and reads_shared: "ed_reads_shared edge = map fst (List.filter (\<lambda>(_, position). unat position = ed_shared edge) (ed_reads edge))"
    and small: "length table + length (ed_reads edge) + 1 + length (write_sites (kf_body (ed_fragment edge))) < 2 ^ 32"
    and moved: "moved = moved_access (fold (\<lambda>read shifted. shifted(read \<mapsto> c0)) (ed_reads_shared edge) sh) ws"
  shows "\<exists>ext. table3 = table @ ext \<and> length ext \<le> length (ed_reads edge) + 1 + length (write_sites (kf_body (ed_fragment edge)))"
    and "moved v = Some c \<Longrightarrow> length table \<le> unat c \<and> unat c < length table3 \<and>
      (\<exists>bits. holds_const table3 c bits \<and> moved_to edge port base outputs v bits)"
    and "moved_to edge port base outputs v bits \<Longrightarrow> moved v \<noteq> None"
proof -
  let ?g = "\<lambda>(read, position). if unat position \<in> set [ed_shared edge] then None
     else Some (read, i64_of (base + unat position - length (List.filter (\<lambda>ordinal. ordinal < unat position) [ed_shared edge])))"
  have fold1: "fold (shift_step ?g) (ed_reads edge) (table, Map.empty) = (table1, sh)"
    using reads unfolding shifted_past_def shift_read_step .
  have "length table + length (ed_reads edge) < 2 ^ 32" using small by linarith
  note f1 = shift_fold [OF fold1 this]
  obtain ext1 where ext1: "table1 = table @ ext1" "length ext1 \<le> length (ed_reads edge)" using f1(1) by blast
  have c0: "table2 = table1 @ [Instr (Const Int_class (i64_of port)) [] [Int_class]]" "c0 = of_nat (length table1)"
    using shared by (simp_all add: position_constant_def)
  have "length table1 < 4294967296" using small ext1 by simp
  then have at0: "unat c0 = length table1" unfolding c0(2) by (rule unat_of_nat_u32)
  then have held0: "holds_const table2 c0 (i64_of port)" unfolding holds_const_def c0(1) by simp
  let ?h = "\<lambda>write. Option.bind (access_position (kf_body (ed_fragment edge)) write)
     (\<lambda>held. map_option (Pair write) (moved_write outputs held))"
  have fold2: "fold (shift_step ?h) (write_sites (kf_body (ed_fragment edge))) (table2, Map.empty) = (table3, ws)"
    using writes unfolding shifted_write_positions_def shift_write_step .
  have "length table2 + length (write_sites (kf_body (ed_fragment edge))) < 2 ^ 32" using small ext1 c0 by simp
  note f2 = shift_fold [OF fold2 this]
  obtain ext2 where ext2: "table3 = table2 @ ext2" "length ext2 \<le> length (write_sites (kf_body (ed_fragment edge)))"
    using f2(1) by blast
  have moved_v: "moved v = (if v \<in> set (ed_reads_shared edge) then Some c0 else case sh v of Some c \<Rightarrow> Some c | None \<Rightarrow> ws v)" for v
    unfolding moved moved_access_def override_keys by simp
  show "\<exists>ext. table3 = table @ ext \<and> length ext \<le> length (ed_reads edge) + 1 + length (write_sites (kf_body (ed_fragment edge)))"
    using ext1 ext2 c0 by simp
  have low: "\<And>pos. length (List.filter (\<lambda>ordinal. ordinal < unat (pos :: u32)) [ed_shared edge]) = (if ed_shared edge < unat pos then 1 else 0)"
    by simp
  show "moved v = Some c \<Longrightarrow> length table \<le> unat c \<and> unat c < length table3 \<and>
      (\<exists>bits. holds_const table3 c bits \<and> moved_to edge port base outputs v bits)"
  proof -
    assume some: "moved v = Some c"
    consider "v \<in> set (ed_reads_shared edge)" "c = c0" | "sh v = Some c" | "ws v = Some c"
      using some moved_v [of v] by (metis option.exhaust option.inject option.simps(4,5))
    then show ?thesis
    proof cases
      case 1
      then obtain pos where "(v, pos) \<in> set (ed_reads edge)" "unat pos = ed_shared edge"
        using reads_shared by auto
      then have "moved_to edge port base outputs v (i64_of port)"
        unfolding moved_to_def using moved_read_def [of port base "ed_shared edge" pos] by auto
      moreover have "holds_const table3 c0 (i64_of port)"
        unfolding ext2(1) by (rule holds_const_append [OF held0])
      ultimately show ?thesis using 1 at0 ext1 ext2 c0(1) by auto
    next
      case 2
      then obtain x bits where x: "x \<in> set (ed_reads edge)" "?g x = Some (v, bits)" "length table \<le> unat c"
        "unat c < length table1" "holds_const table1 c bits" using f1(2) by force
      obtain pos where pos: "x = (v, pos)" "unat pos \<noteq> ed_shared edge" "bits = moved_read port base (ed_shared edge) pos"
        using x(2) by (cases x) (auto simp: moved_read_def split: if_splits)
      have "holds_const table3 c bits"
        unfolding ext2(1) c0(1) by (intro holds_const_append x(5))
      moreover have "moved_to edge port base outputs v bits" using x(1) pos by (auto simp: moved_to_def)
      ultimately show ?thesis using x(3,4) ext2 c0(1) by auto
    next
      case 3
      then obtain x bits where x: "x \<in> set (write_sites (kf_body (ed_fragment edge)))" "?h x = Some (v, bits)"
        "length table2 \<le> unat c" "unat c < length table3" "holds_const table3 c bits" using f2(2) by force
      then have "moved_to edge port base outputs v bits"
        by (auto simp: moved_to_def bind_eq_Some_conv)
      then show ?thesis using x(3-5) ext1 c0(1) by auto
    qed
  qed
  show "moved v \<noteq> None" if goes: "moved_to edge port base outputs v bits"
  proof -
    consider pos where "(v, pos) \<in> set (ed_reads edge)" "unat pos = ed_shared edge"
      | pos where "(v, pos) \<in> set (ed_reads edge)" "unat pos \<noteq> ed_shared edge"
      | held where "v \<in> set (write_sites (kf_body (ed_fragment edge)))"
        "access_position (kf_body (ed_fragment edge)) v = Some held" "moved_write outputs held = Some bits"
      using goes unfolding moved_to_def by blast
    then show ?thesis
    proof cases
      case 1
      then have "v \<in> set (ed_reads_shared edge)" using reads_shared by force
      then show ?thesis unfolding moved_v by simp
    next
      case 2
      then have "\<exists>x \<in> set (ed_reads edge). \<exists>bits. ?g x = Some (v, bits)" by (intro bexI [of _ "(v, pos)"]) simp_all
      then have "sh v \<noteq> None" using f1(3) by blast
      then show ?thesis unfolding moved_v by auto
    next
      case 3
      then have "\<exists>x \<in> set (write_sites (kf_body (ed_fragment edge))). \<exists>bits. ?h x = Some (v, bits)"
        by (intro bexI [of _ v]) simp_all
      then have "ws v \<noteq> None" using f2(3) by blast
      then show ?thesis unfolding moved_v by (auto split: option.split)
    qed
  qed
qed

lemma plan_branch_Some:
  assumes "plan_branch u first_params port index edge ms = Some bp" and "parameters (kf_body (ed_fragment edge)) = Some params"
  obtains bound slots ids reserved table1 sh table2 c0 table3 ws where
    "branch_params u index first_params params = Some bound"
    "rn_reserve_all (map of_nat [0..<length (kb_values (kf_body (ed_fragment edge)))]) (bound, kb_values (ms_body ms)) = (slots, ids, reserved)"
    "shifted_past reserved (ed_reads edge) (ms_union ms) [ed_shared edge] = (table1, sh)"
    "position_constant table1 (i64_of port) = (table2, c0)"
    "shifted_write_positions table2 (kf_body (ed_fragment edge)) (ms_outputs ms) = (table3, ws)"
    "bp_ids bp = ids" "bp_block bp = branch_block (kb_entry (kf_body (ed_fragment edge))) (ms_landing ms) (ms_blocks_base ms)"
    "bp_moved bp = moved_access (fold (\<lambda>read shifted. shifted(read \<mapsto> c0)) (ed_reads_shared edge) sh) ws"
    "write_back (zip slots (map (\<lambda>(v, d). branch_def (bp_ren bp) (bp_block bp) (bp_moved bp) (of_nat v) d)
       (enumerate 0 (kb_values (kf_body (ed_fragment edge)))))) table3 = Some (bp_values bp)"
proof -
  let ?body = "kf_body (ed_fragment edge)"
  obtain bound where bound: "branch_params u index first_params params = Some bound"
    using assms by (auto simp: plan_branch_def Let_def bind_eq_Some_conv)
  obtain slots ids reserved where r: "rn_reserve_all (map of_nat [0..<length (kb_values ?body)]) (bound, kb_values (ms_body ms)) =
      (slots, ids, reserved)" by (rule prod_cases3)
  obtain table1 sh where s: "shifted_past reserved (ed_reads edge) (ms_union ms) [ed_shared edge] = (table1, sh)"
    by (rule prod.exhaust)
  obtain table2 c0 where c: "position_constant table1 (i64_of port) = (table2, c0)" by (rule prod.exhaust)
  obtain table3 ws where w: "shifted_write_positions table2 ?body (ms_outputs ms) = (table3, ws)" by (rule prod.exhaust)
  show thesis
    using assms bound r s c w
    by (intro that [OF bound r s c w])
      (auto simp: plan_branch_def Let_def bp_moved_def bp_ren_def)
qed

lemma distinct_map_filter:
  assumes "\<And>i j a. i \<in> set xs \<Longrightarrow> j \<in> set xs \<Longrightarrow> f i = Some a \<Longrightarrow> f j = Some a \<Longrightarrow> i = j" and "distinct xs"
  shows "distinct (List.map_filter f xs)"
  using assms by (auto simp: List.map_filter_def distinct_map inj_on_def)

lemma map_filter_fst_zip: "length xs = length ys \<Longrightarrow> List.map_filter fst (zip (map f xs) ys) = List.map_filter f xs"
  by (induction xs ys rule: list_induct2) (simp_all add: map_filter_simps split: option.split)

lemma plan_lands:
  assumes fits: "branch_fits u first_params index edge (ms_body ms) own earlier params"
    and plan: "plan_branch u first_params port index edge ms = Some bp"
    and body: "body = kf_body (ed_fragment edge)"
  shows "j < length (kb_values (ms_body ms)) \<Longrightarrow> nth_opt (bp_values bp) j = nth_opt (kb_values (ms_body ms)) j"
    and "length (bp_values bp) \<le> length (kb_values (ms_body ms)) + length (kb_values body) + length (listed body) + 1"
    and "length (kb_values (ms_body ms)) \<le> length (bp_values bp)"
    and "i < own + 2 \<Longrightarrow> bp_ren bp (params ! i) = first_params ! landed_slot i own earlier (scalar_total u)"
    and "unat v < length (kb_values body) \<Longrightarrow> v \<notin> set params \<Longrightarrow> length (kb_values (ms_body ms)) \<le> unat (bp_ren bp v) \<and>
      nth_opt (bp_values bp) (unat (bp_ren bp v)) =
        Some (branch_def (bp_ren bp) (bp_block bp) (bp_moved bp) v (kb_values body ! unat v))"
    and "unat v < length (kb_values body) \<Longrightarrow> unat w < length (kb_values body) \<Longrightarrow> bp_ren bp v = bp_ren bp w \<Longrightarrow> v = w"
    and "bp_moved bp v = Some c \<Longrightarrow> length (kb_values (ms_body ms)) \<le> unat c \<and>
      (\<forall>w. unat w < length (kb_values body) \<longrightarrow> bp_ren bp w \<noteq> c) \<and>
      (\<exists>bits. holds_const (bp_values bp) c bits \<and> moved_to edge port (ms_union ms) (ms_outputs ms) v bits)"
    and "moved_to edge port (ms_union ms) (ms_outputs ms) v bits \<Longrightarrow> bp_moved bp v \<noteq> None"
proof -
  note fitting = fits [unfolded branch_fits_def, folded body]
  let ?N = "length (kb_values (ms_body ms))" and ?n = "length (kb_values body)"
  let ?vs = "map of_nat [0..<length (kb_values body)] :: value_id list"
  have params: "parameters body = Some params" using fitting by blast
  obtain bound slots ids reserved table1 sh table2 c0 table3 ws where
    bound: "branch_params u index first_params params = Some bound"
    and reserve: "rn_reserve_all ?vs (bound, kb_values (ms_body ms)) = (slots, ids, reserved)"
    and reads: "shifted_past reserved (ed_reads edge) (ms_union ms) [ed_shared edge] = (table1, sh)"
    and shared: "position_constant table1 (i64_of port) = (table2, c0)"
    and writes: "shifted_write_positions table2 body (ms_outputs ms) = (table3, ws)"
    and ids: "bp_ids bp = ids" and block: "bp_block bp = branch_block (kb_entry body) (ms_landing ms) (ms_blocks_base ms)"
    and moved: "bp_moved bp = moved_access (fold (\<lambda>read shifted. shifted(read \<mapsto> c0)) (ed_reads_shared edge) sh) ws"
    and written: "write_back (zip slots (map (\<lambda>(v, d). branch_def (bp_ren bp) (bp_block bp) (bp_moved bp) (of_nat v) d)
       (enumerate 0 (kb_values body)))) table3 = Some (bp_values bp)"
    using plan_branch_Some [OF plan params [unfolded body], folded body] .
  note params_bound = branch_params_bound [OF fits bound]
  have small: "?N + ?n + length (listed body) + 1 < 2 ^ 32" using fitting by blast
  have at: "?vs ! i = of_nat i" "unat (of_nat i :: value_id) = i" if "i < ?n" for i
    using that small by (simp_all add: unat_of_nat_u32)
  have distinct: "distinct ?vs"
    using at by (auto simp: distinct_conv_nth) metis
  have vs: "v \<in> set ?vs \<longleftrightarrow> unat v < ?n" for v
    using at(2) by (auto simp: image_iff intro!: bexI [of _ "unat v"])
  define flags where "flags = unbound bound ?vs"
  let ?m = "length (List.filter id flags)"
  have flag: "flags ! unat v \<longleftrightarrow> rn_bound bound v = None" if "unat v < ?n" for v
    using that at(1) [of "unat v"] by (simp add: flags_def)
  have flags: "length flags = ?n" by (simp add: flags_def)
  have m: "?m \<le> ?n" using length_filter_le [of id flags] flags by simp
  note reserved = reserve_all [OF reserve distinct, folded flags_def]
  have len: "length reserved = ?N + ?m" using reserved(2) by simp
  have ren_bound: "bp_ren bp v = p" if "rn_bound bound v = Some p" for v p
    using that reserved(1) ids by (simp add: bp_ren_def rn_resolve_def)
  have ren_free: "bp_ren bp v = of_nat (?N + survivor_rank flags (unat v))"
    "unat (bp_ren bp v) = ?N + survivor_rank flags (unat v)" "survivor_rank flags (unat v) < ?m"
    if v: "unat v < ?n" "rn_bound bound v = None" for v
  proof -
    have vth: "?vs ! unat v = v" using v(1) by simp
    show *: "bp_ren bp v = of_nat (?N + survivor_rank flags (unat v))"
      using reserved(4) [of "unat v"] v vth reserved(1) ids by (simp add: bp_ren_def rn_resolve_def del: of_nat_add)
    show below: "survivor_rank flags (unat v) < ?m" using v flag flags by (intro rank_less) simp_all
    show "unat (bp_ren bp v) = ?N + survivor_rank flags (unat v)"
      unfolding * using below m small by (intro unat_of_nat_u32) simp
  qed
  show "i < own + 2 \<Longrightarrow> bp_ren bp (params ! i) = first_params ! landed_slot i own earlier (scalar_total u)"
    using params_bound(2) ren_bound by blast
  have bound_below: "unat p < ?N" if "rn_bound bound v = Some p" for v p
    using params_bound(4) [OF that] fitting by blast
  have ren_below: "unat (bp_ren bp v) < ?N + ?m" if "unat v < ?n" for v
    using ren_free(2,3) [of v] ren_bound [of v] bound_below [of v] that by (cases "rn_bound bound v") force+
  show inj: "v = w" if "unat v < ?n" "unat w < ?n" "bp_ren bp v = bp_ren bp w" for v w
  proof (cases "rn_bound bound v"; cases "rn_bound bound w")
    assume none: "rn_bound bound v = None" "rn_bound bound w = None"
    have "?N + survivor_rank flags (unat v) = ?N + survivor_rank flags (unat w)"
      unfolding ren_free(2) [OF that(1) none(1), symmetric] ren_free(2) [OF that(2) none(2), symmetric] that(3) ..
    then have "survivor_rank flags (unat v) = survivor_rank flags (unat w)" by (rule add_left_imp_eq)
    then have "unat v = unat w"
      by (rule rank_inj) (use that flag flags none in simp_all)
    then show ?thesis by (rule word_unat_eq_iff [THEN iffD2])
  next
    fix p q assume "rn_bound bound v = Some p" "rn_bound bound w = Some q"
    then show ?thesis using params_bound(5) ren_bound that(3) by metis
  next
    fix q assume "rn_bound bound v = None" "rn_bound bound w = Some q"
    then show ?thesis using ren_free(2) [of v] ren_bound [of w] bound_below [of w] that by force
  next
    fix p assume "rn_bound bound v = Some p" "rn_bound bound w = None"
    then show ?thesis using ren_free(2) [of w] ren_bound [of v] bound_below [of v] that by force
  qed
  have few: "length (ed_reads edge) + length (write_sites body) \<le> length (listed body)"
    using fitting buffer_reads_at(3) by blast
  then have room: "length reserved + length (ed_reads edge) + 1 + length (write_sites body) < 2 ^ 32"
    using len m small by linarith
  note positions = positions_at [OF reads shared writes [unfolded body] _ room [unfolded body] moved, folded body]
  have reads_shared: "ed_reads_shared edge = map fst (List.filter (\<lambda>(_, position). unat position = ed_shared edge) (ed_reads edge))"
    using fitting by blast
  obtain ext where ext: "table3 = reserved @ ext" "length ext \<le> length (ed_reads edge) + 1 + length (write_sites body)"
    using positions(1) [OF reads_shared] by blast
  let ?slots = "zip slots (map (\<lambda>(v, d). branch_def (bp_ren bp) (bp_block bp) (bp_moved bp) (of_nat v) d)
       (enumerate 0 (kb_values body)))"
  let ?slot = "\<lambda>i. if rn_bound bound (of_nat i) = None then Some (of_nat (?N + survivor_rank flags i) :: value_id) else None"
  have slots: "slots = map ?slot [0..<?n]" using reserved(3) at(1) by simp
  have slot: "slot = None \<or> (\<exists>j. slot = Some (of_nat j) \<and> ?N \<le> j \<and> j < ?N + ?m)" if "(slot, d) \<in> set ?slots" for slot d
  proof -
    have "slot \<in> set slots" using that by (rule set_zip_leftD)
    then obtain i where i: "i < ?n" "slot = ?slot i" unfolding slots by auto
    show ?thesis
    proof (cases "rn_bound bound (of_nat i)")
      case None
      have "survivor_rank flags i < ?m" using i(1) None at(1) [OF i(1)] flags by (intro rank_less) (simp_all add: flags_def)
      then show ?thesis using i None by (auto simp del: of_nat_add)
    next
      case (Some p)
      then show ?thesis using i by simp
    qed
  qed
  have away: "nth_opt (bp_values bp) j = nth_opt table3 j" if "j < ?N \<or> ?N + ?m \<le> j" for j
  proof -
    have "slot \<noteq> Some (of_nat j) \<or> 2 ^ 32 \<le> j" if hit: "(slot, d) \<in> set ?slots" for slot d
    proof (rule ccontr)
      assume "\<not> (slot \<noteq> Some (of_nat j) \<or> 2 ^ 32 \<le> j)"
      then have wrong: "slot = Some (of_nat j)" "j < 2 ^ 32" by simp_all
      then obtain k where k: "slot = Some (of_nat k)" "?N \<le> k" "k < ?N + ?m" using slot [OF hit] by blast
      then have "(of_nat k :: u32) = of_nat j" using wrong by simp
      then have "unat (of_nat k :: u32) = unat (of_nat j :: u32)" by (rule arg_cong)
      moreover have "unat (of_nat k :: u32) = k" using k m small by (intro unat_of_nat_u32) simp
      moreover have "unat (of_nat j :: u32) = j" using wrong by (intro unat_of_nat_u32) simp
      ultimately show False using k \<open>j < ?N \<or> ?N + ?m \<le> j\<close> by simp
    qed
    then show ?thesis by (intro write_back_at(2) [OF written]) blast
  qed
  show "nth_opt (bp_values bp) j = nth_opt (kb_values (ms_body ms)) j" if "j < ?N"
    using away [of j] that ext reserved(2) by (simp add: nth_opt_def nth_append)
  note size = write_back_at(1) [OF written]
  show "length (bp_values bp) \<le> ?N + ?n + length (listed body) + 1"
    using size ext len m few by simp
  show "?N \<le> length (bp_values bp)" using size ext len by simp
  show "?N \<le> unat (bp_ren bp v) \<and> nth_opt (bp_values bp) (unat (bp_ren bp v)) =
        Some (branch_def (bp_ren bp) (bp_block bp) (bp_moved bp) v (kb_values body ! unat v))"
    if v: "unat v < ?n" "v \<notin> set params"
  proof -
    have none: "rn_bound bound v = None" using params_bound(3) [OF v(2)] .
    have same: "i = j" if "i < ?n" "j < ?n" "?slot i = Some a" "?slot j = Some a" for i j a
    proof -
      have free: "rn_bound bound (of_nat i) = None" "rn_bound bound (of_nat j) = None" using that by (auto split: if_splits)
      then have "bp_ren bp (of_nat i) = bp_ren bp (of_nat j)"
        using ren_free(1) [of "of_nat i"] ren_free(1) [of "of_nat j"] at(2) that by (simp del: of_nat_add)
      then have "(of_nat i :: value_id) = of_nat j" using inj at(2) that(1,2) by simp
      then have "unat (of_nat i :: value_id) = unat (of_nat j :: value_id)" by (rule arg_cong)
      then show ?thesis using at(2) that(1,2) by simp
    qed
    have "List.map_filter fst ?slots = List.map_filter ?slot [0..<?n]"
      unfolding slots by (rule map_filter_fst_zip) simp
    then have "distinct (List.map_filter fst ?slots)"
      using distinct_map_filter [of "[0..<?n]" ?slot] same by simp
    moreover have "(Some (bp_ren bp v), branch_def (bp_ren bp) (bp_block bp) (bp_moved bp) v (kb_values body ! unat v)) \<in> set ?slots"
      unfolding slots set_zip using v(1) none ren_free(1) [OF v(1) none]
      by (intro CollectI exI [of _ "unat v"]) (simp add: nth_enumerate_eq del: of_nat_add)
    ultimately have "nth_opt (bp_values bp) (unat (bp_ren bp v)) =
        Some (branch_def (bp_ren bp) (bp_block bp) (bp_moved bp) v (kb_values body ! unat v))"
      by (rule write_back_at(3) [OF written])
    moreover have "?N \<le> unat (bp_ren bp v)" unfolding ren_free(2) [OF v(1) none] by simp
    ultimately show ?thesis by blast
  qed
  show "?N \<le> unat c \<and> (\<forall>w. unat w < ?n \<longrightarrow> bp_ren bp w \<noteq> c) \<and>
      (\<exists>bits. holds_const (bp_values bp) c bits \<and> moved_to edge port (ms_union ms) (ms_outputs ms) v bits)"
    if c: "bp_moved bp v = Some c"
  proof -
    obtain bits where bits: "length reserved \<le> unat c" "holds_const table3 c bits"
      "moved_to edge port (ms_union ms) (ms_outputs ms) v bits"
      using positions(2) [OF reads_shared c] by blast
    have "bp_ren bp w \<noteq> c" if "unat w < ?n" for w
      using ren_below [OF that] bits(1) len by auto
    moreover have "holds_const (bp_values bp) c bits"
      using bits(2) away [of "unat c"] bits(1) len by (simp add: holds_const_def)
    ultimately show ?thesis using bits(1,3) len by auto
  qed
  show "moved_to edge port (ms_union ms) (ms_outputs ms) v bits \<Longrightarrow> bp_moved bp v \<noteq> None"
    using positions(3) [OF reads_shared] by blast
qed

end
