(* ===== verification/Sibling_Run.thy ===== *)
theory Sibling_Run
  imports Sibling_Plan
begin

text \<open>
  What a merged body computes: the branches, one after another, each on its own scalars and on the ports
  and outputs that are its own. A branch sees the memory through \<open>branch_view\<close>.
\<close>

section \<open>The memory a branch sees\<close>

text \<open>The port of the merged fragment for port \<open>p\<close> of a branch, the shared one counted once.\<close>

definition port_of :: "nat \<Rightarrow> nat \<Rightarrow> nat \<Rightarrow> nat \<Rightarrow> nat" where
  "port_of port base shared p = (if p = shared then port else base + p - (if shared < p then 1 else 0))"

definition branch_view :: "'s mem \<Rightarrow> nat \<Rightarrow> nat \<Rightarrow> nat \<Rightarrow> nat \<Rightarrow> 's mem" where
  "branch_view mem port shared base outputs op args =
     mem op (case args of
         K_int p # rest \<Rightarrow>
           if is_buffer_read op
           then K_int (of_nat (port_of port base shared (unat p))) # rest
           else if is_buffer_write op then K_int (of_nat (outputs + unat p)) # rest
           else args
       | _ \<Rightarrow> args)"

text \<open>Every access names a port or an output of its own fragment.\<close>

definition positions_named :: "kernel_fragment \<Rightarrow> bool" where
  "positions_named f \<longleftrightarrow> list_all (\<lambda>v. case instr_of (kf_body f) v of
      Some (op, _) \<Rightarrow>
        (case access_position (kf_body f) v of
           Some p \<Rightarrow> (is_buffer_read op \<longrightarrow> unat p < kf_inputs f) \<and> (is_buffer_write op \<longrightarrow> unat p < kf_outputs f)
         | None \<Rightarrow> \<not> is_buffer_read op \<and> \<not> is_buffer_write op)
    | None \<Rightarrow> True) (listed (kf_body f))"

lemma i64_of_small: "n < 2 ^ 33 \<Longrightarrow> i64_of n = of_nat n"
proof -
  assume n: "n < 2 ^ 33"
  then have same: "unat (of_nat n :: u64) = n" by (simp add: unsigned_of_nat take_bit_nat_eq_self)
  have "0 \<le> sint (of_nat n :: u64)"
  proof -
    have "\<not> bit (of_nat n :: u64) 63"
    proof -
      have "\<not> bit n 63" using n by (simp add: bit_iff_odd)
      then have "\<not> bit (unat (of_nat n :: u64)) 63" unfolding same .
      then show ?thesis unfolding bit_unsigned_iff by simp
    qed
    then show ?thesis by (simp add: sint_uint signed_take_bit_nonnegative_iff bit_uint_iff)
  qed
  then show ?thesis using same by (simp add: i64_of_def)
qed

lemma saturated_small: "n < 2 ^ 33 \<Longrightarrow> saturated n = n"
  by (simp add: saturated_def unsigned_of_nat take_bit_nat_eq_self)

lemma moved_read_small:
  assumes "unat p < inputs" "inputs < 2 ^ 32" "base + inputs < 2 ^ 33" "port < 2 ^ 33"
  shows "moved_read port base shared (ucast (p :: u64)) =
    of_nat (port_of port base shared (unat p))"
proof -
  have "unat (ucast p :: u32) = unat p" using assms(1,2) by (simp add: unsigned_ucast_eq take_bit_nat_eq_self)
  then show ?thesis using assms by (simp add: moved_read_def port_of_def i64_of_small)
qed

lemma moved_write_small:
  assumes "outputs + unat held < 2 ^ 33"
  shows "moved_write outputs held = (if outputs = 0 then None else Some (of_nat (outputs + unat held)))"
  using assms by (simp add: moved_write_def saturated_small i64_of_small)

section \<open>Running the instructions of a branch\<close>

text \<open>The values of the branch are in the merged body under their new ids; a constant is its number.\<close>

definition branch_sim :: "branch_plan \<Rightarrow> kernel_body \<Rightarrow> env \<Rightarrow> env \<Rightarrow> bool" where
  "branch_sim bp body e m \<longleftrightarrow>
     (\<forall>v x. e v = Some x \<longrightarrow> unat v < length (kb_values body) \<and> m (bp_ren bp v) = Some x \<and>
       (\<forall>bits. body_constant body (Some v) = Some bits \<longrightarrow> x = K_int bits))"

lemma branch_sim_args:
  assumes "branch_sim bp body e m" and "map_opt e args = Some vals"
  shows "map_opt m (map (bp_ren bp) args) = Some vals"
  using assms by (simp add: map_opt_Some branch_sim_def)

lemma exec_const:
  assumes "exec_op fl tr mem (Const Int_class bits) vals s = Some (r, s')"
  shows "r = Some (K_int bits)" "s' = s"
  using assms
  by (auto simp: exec_op_def reaches_memory_def eval_op_def eval_unary_def eval_bin_def eval_ternary_def
      transcendental_ops_def split: list.splits)

lemma exec_prefix:
  assumes "\<And>j. j < length table \<Longrightarrow> nth_opt table' j = nth_opt table j"
    and "exec_instrs fl tr mem table vs st = Some st'"
  shows "exec_instrs fl tr mem table' vs st = Some st'"
  using assms(2)
proof (induction vs arbitrary: st)
  case (Cons v vs)
  have "exec_def fl tr mem v (nth_opt table' (unat v)) st = exec_def fl tr mem v (nth_opt table (unat v)) st"
  proof (cases "unat v < length table")
    case False
    then have "exec_def fl tr mem v (nth_opt table (unat v)) st = None"
      by (cases st) (simp add: exec_def_def nth_opt_def)
    then show ?thesis using Cons.prems by simp
  qed (simp only: assms(1))
  then show ?case using Cons by (auto simp: bind_eq_Some_conv)
qed simp

definition plan_ok :: "branch_plan \<Rightarrow> sibling_edge \<Rightarrow> value_id list \<Rightarrow> nat \<Rightarrow> nat \<Rightarrow> nat \<Rightarrow> bool" where
  "plan_ok bp edge params port base outputs \<longleftrightarrow>
     (\<forall>v. unat v < length (kb_values (kf_body (ed_fragment edge))) \<longrightarrow> v \<notin> set params \<longrightarrow>
        nth_opt (bp_values bp) (unat (bp_ren bp v)) = Some (branch_def (bp_ren bp) (bp_block bp) (bp_moved bp) v
          (kb_values (kf_body (ed_fragment edge)) ! unat v))) \<and>
     (\<forall>v w. unat v < length (kb_values (kf_body (ed_fragment edge))) \<longrightarrow>
        unat w < length (kb_values (kf_body (ed_fragment edge))) \<longrightarrow> bp_ren bp v = bp_ren bp w \<longrightarrow> v = w) \<and>
     (\<forall>v c. bp_moved bp v = Some c \<longrightarrow>
        (\<forall>w. unat w < length (kb_values (kf_body (ed_fragment edge))) \<longrightarrow> bp_ren bp w \<noteq> c) \<and>
        (\<exists>bits. holds_const (bp_values bp) c bits \<and> moved_to edge port base outputs v bits)) \<and>
     (\<forall>v bits. moved_to edge port base outputs v bits \<longrightarrow> bp_moved bp v \<noteq> None)"

definition edge_ok :: "sibling_edge \<Rightarrow> value_id list \<Rightarrow> nat \<Rightarrow> nat \<Rightarrow> nat \<Rightarrow> bool" where
  "edge_ok edge params port base outputs \<longleftrightarrow>
     buffer_reads (kf_body (ed_fragment edge)) = Ok (ed_reads edge) \<and> positions_named (ed_fragment edge) \<and>
     params_placed (kf_body (ed_fragment edge)) \<and> parameters (kf_body (ed_fragment edge)) = Some params \<and>
     kf_inputs (ed_fragment edge) < 2 ^ 32 \<and> base + kf_inputs (ed_fragment edge) < 2 ^ 33 \<and>
     port < 2 ^ 33 \<and> outputs + kf_outputs (ed_fragment edge) < 2 ^ 33"

lemma write_sites_iff:
  "v \<in> set (write_sites body) \<longleftrightarrow> v \<in> set (listed body) \<and> (\<exists>op args. instr_of body v = Some (op, args) \<and> is_buffer_write op)"
  by (auto simp: write_sites_def split: option.splits)

lemma read_not_write: "is_buffer_read op \<Longrightarrow> \<not> is_buffer_write op"
  by (cases op) (simp_all add: is_buffer_read_def is_buffer_write_def)

lemma moved_to_access:
  assumes edge: "edge_ok edge params port base outputs" and v: "v \<in> set (listed (kf_body (ed_fragment edge)))"
    and op: "instr_of (kf_body (ed_fragment edge)) v = Some (op, args)"
  shows "moved_to edge port base outputs v bits \<longleftrightarrow>
    (\<exists>p. access_position (kf_body (ed_fragment edge)) v = Some p \<and>
      (is_buffer_read op \<and> bits = of_nat (port_of port base (ed_shared edge) (unat p)) \<or>
       is_buffer_write op \<and> outputs \<noteq> 0 \<and> bits = of_nat (outputs + unat p)))"
proof -
  note ok = edge [unfolded edge_ok_def]
  have named: "(is_buffer_read op \<longrightarrow> unat p < kf_inputs (ed_fragment edge)) \<and>
      (is_buffer_write op \<longrightarrow> unat p < kf_outputs (ed_fragment edge))"
    if "access_position (kf_body (ed_fragment edge)) v = Some p" for p
    using ok v op that by (auto simp: positions_named_def list_all_iff split: option.splits)
  have reads: "(v, pos) \<in> set (ed_reads edge) \<longleftrightarrow> is_buffer_read op \<and>
      (\<exists>p. access_position (kf_body (ed_fragment edge)) v = Some p \<and> pos = ucast p)" for pos
    using buffer_reads_at(1) ok v op by auto
  have read: "moved_read port base (ed_shared edge) (ucast p) =
      of_nat (port_of port base (ed_shared edge) (unat p))"
    if "access_position (kf_body (ed_fragment edge)) v = Some p" "is_buffer_read op" for p
    using moved_read_small [of p "kf_inputs (ed_fragment edge)" base port] named that ok by blast
  have wrote: "moved_write outputs p = Some bits \<longleftrightarrow> outputs \<noteq> 0 \<and> bits = of_nat (outputs + unat p)"
    if "access_position (kf_body (ed_fragment edge)) v = Some p" "is_buffer_write op" for p
    using named [OF that(1)] that(2) ok moved_write_small [of outputs p] by auto
  have site: "v \<in> set (write_sites (kf_body (ed_fragment edge))) \<longleftrightarrow> is_buffer_write op"
    unfolding write_sites_iff using v op by auto
  show ?thesis
  proof (cases "access_position (kf_body (ed_fragment edge)) v")
    case None
    then show ?thesis by (simp add: moved_to_def reads)
  next
    case (Some p)
    then show ?thesis using read [OF Some] wrote [OF Some] by (auto simp: moved_to_def reads site simp del: of_nat_add)
  qed
qed

lemma view_moved:
  assumes edge: "edge_ok edge params port base outputs" and plan: "plan_ok bp edge params port base outputs"
    and v: "v \<in> set (listed (kf_body (ed_fragment edge)))"
    and op: "instr_of (kf_body (ed_fragment edge)) v = Some (op, args)"
    and vals: "\<And>p. access_position (kf_body (ed_fragment edge)) v = Some p \<Longrightarrow> \<exists>rest. vals = K_int p # rest"
  shows "bp_moved bp v = None \<Longrightarrow> branch_view mem port (ed_shared edge) base outputs op vals = mem op vals"
    and "bp_moved bp v = Some c \<Longrightarrow> \<exists>bits. holds_const (bp_values bp) c bits \<and> reaches_memory op \<and> vals \<noteq> [] \<and>
      branch_view mem port (ed_shared edge) base outputs op vals = mem op (K_int bits # tl vals)"
proof -
  let ?body = "kf_body (ed_fragment edge)"
  note access = moved_to_access [OF edge v op]
  have named: "is_buffer_read op \<or> is_buffer_write op \<Longrightarrow> \<exists>p. access_position ?body v = Some p"
    using edge v op by (auto simp: edge_ok_def positions_named_def list_all_iff split: option.splits)
  show "branch_view mem port (ed_shared edge) base outputs op vals = mem op vals" if none: "bp_moved bp v = None"
  proof -
    have stays: "\<not> moved_to edge port base outputs v bits" for bits using plan none by (auto simp: plan_ok_def)
    have "\<not> is_buffer_read op" using named stays access by blast
    moreover have "outputs = 0" if "is_buffer_write op" using named stays access that by blast
    ultimately show ?thesis
      by (auto simp: branch_view_def fun_eq_iff split: list.split kval.split)
  qed
  show "\<exists>bits. holds_const (bp_values bp) c bits \<and> reaches_memory op \<and> vals \<noteq> [] \<and>
      branch_view mem port (ed_shared edge) base outputs op vals = mem op (K_int bits # tl vals)"
    if some: "bp_moved bp v = Some c"
  proof -
    obtain bits where bits: "holds_const (bp_values bp) c bits" "moved_to edge port base outputs v bits"
      using plan some unfolding plan_ok_def by blast
    then obtain p where p: "access_position ?body v = Some p" and
      case': "is_buffer_read op \<and> bits = of_nat (port_of port base (ed_shared edge) (unat p)) \<or>
       is_buffer_write op \<and> outputs \<noteq> 0 \<and> bits = of_nat (outputs + unat p)"
      unfolding access by blast
    obtain rest where rest: "vals = K_int p # rest" using vals [OF p] by blast
    have "reaches_memory op"
      using case' by (cases op) (auto simp: reaches_memory_def is_buffer_read_def is_buffer_write_def)
    moreover have "branch_view mem port (ed_shared edge) base outputs op vals = mem op (K_int bits # tl vals)"
      using case' read_not_write [of op] rest by (auto simp: branch_view_def simp del: of_nat_add)
    ultimately show ?thesis using bits(1) rest by blast
  qed
qed

lemma bp_sequence_Nil [simp]: "bp_sequence bp [] = []"
  by (simp add: bp_sequence_def branch_sequence_def)

lemma bp_sequence_Cons [simp]:
  "bp_sequence bp (v # vs) =
    (case bp_moved bp v of None \<Rightarrow> [bp_ren bp v] | Some c \<Rightarrow> [c, bp_ren bp v]) @ bp_sequence bp vs"
  by (simp add: bp_sequence_def branch_sequence_def bp_moved_def bp_ren_def split: option.split)

lemma listed_params:
  assumes "params_placed body" and "parameters body = Some params" and "value_at body v = Some (Instr op args classes)"
  shows "v \<notin> set params" "unat v < length (kb_values body)"
proof -
  show "v \<notin> set params"
    using entry_params_placed(2) [OF assms(1,2)] assms(3) by (force simp: in_set_conv_nth)
  show "unat v < length (kb_values body)" using assms(3) by (simp add: value_at_def)
qed

lemma branch_sim_bind:
  assumes "branch_sim bp body e m" and "unat v < length (kb_values body)"
    and "\<And>w. unat w < length (kb_values body) \<Longrightarrow> bp_ren bp w = bp_ren bp v \<Longrightarrow> w = v"
    and "\<And>bits. body_constant body (Some v) = Some bits \<Longrightarrow> r = Some (K_int bits)"
  shows "branch_sim bp body (bind_result e v r) (bind_result m (bp_ren bp v) r)"
  using assms by (fastforce simp: branch_sim_def bind_result_def split: option.splits)

lemma branch_step:
  assumes edge: "edge_ok edge params port base outputs" and plan: "plan_ok bp edge params port base outputs"
    and body: "body = kf_body (ed_fragment edge)" and v: "v \<in> set (listed body)"
    and sim: "branch_sim bp body e m"
    and step: "exec_def fl tr (branch_view mem port (ed_shared edge) base outputs) v (nth_opt (kb_values body) (unat v)) (e, s) =
      Some (e', s')"
  shows "\<exists>m'. exec_instrs fl tr mem (bp_values bp) (bp_sequence bp [v]) (m, s) = Some (m', s') \<and> branch_sim bp body e' m'"
proof -
  let ?view = "branch_view mem port (ed_shared edge) base outputs"
  obtain op args classes vals r where def: "value_at body v = Some (Instr op args classes)"
    and vals: "map_opt e args = Some vals" and op: "exec_op fl tr ?view op vals s = Some (r, s')"
    and e': "e' = bind_result e v r"
    using step by (auto simp: exec_def_def value_at_def bind_eq_Some_conv simp del: nth_opt_Some split: option.splits value_def.splits)
  have instr: "instr_of body v = Some (op, args)" using def by (simp add: instr_of_def)
  have placed: "params_placed body" "parameters body = Some params" using edge body by (simp_all add: edge_ok_def)
  note inside = listed_params [OF placed def]
  have landed: "nth_opt (bp_values bp) (unat (bp_ren bp v)) =
      Some (branch_def (bp_ren bp) (bp_block bp) (bp_moved bp) v (Instr op args classes))"
    using plan inside def body by (simp add: plan_ok_def value_at_def nth_opt_def)
  have inj: "unat w < length (kb_values body) \<Longrightarrow> bp_ren bp w = bp_ren bp v \<Longrightarrow> w = v" for w
    using plan inside(2) body by (simp add: plan_ok_def)
  have const: "r = Some (K_int bits)" if "body_constant body (Some v) = Some bits" for bits
  proof -
    have "op = Const Int_class bits"
      using that def by (auto simp: body_constant_def split: kernel_instr.splits scalar_class.splits)
    then show ?thesis using exec_const(1) op by metis
  qed
  have first: "\<exists>rest. vals = K_int p # rest" if p: "access_position body v = Some p" for p
  proof -
    have at: "body_constant body (nth_opt args 0) = Some p" using p instr by (simp add: access_position_def)
    then obtain a as where args: "args = a # as" by (cases args) (simp_all add: nth_opt_def body_constant_def)
    then obtain x rest where x: "vals = x # rest" "e a = Some x" using vals by (auto simp: bind_eq_Some_conv)
    then show ?thesis using sim at args by (auto simp: branch_sim_def nth_opt_def)
  qed
  note view = view_moved [OF edge plan v [unfolded body] instr [unfolded body], folded body, OF first]
  have margs: "map_opt m (map (bp_ren bp) args) = Some vals" by (rule branch_sim_args [OF sim vals])
  show ?thesis
  proof (cases "bp_moved bp v")
    case None
    have "exec_op fl tr mem op vals s = Some (r, s')" using op view(1) [OF _ None, where mem = mem] by (simp add: exec_op_def split: if_splits)
    then have "exec_instrs fl tr mem (bp_values bp) (bp_sequence bp [v]) (m, s) = Some (bind_result m (bp_ren bp v) r, s')"
      using None landed margs by (simp add: exec_def_def branch_def_def del: nth_opt_Some)
    then show ?thesis using branch_sim_bind [OF sim inside(2) inj const] e' by blast
  next
    case (Some c)
    obtain bits where bits: "holds_const (bp_values bp) c bits" "reaches_memory op" "vals \<noteq> []"
      "?view op vals = mem op (K_int bits # tl vals)" using view(2) [OF _ Some, where mem = mem] by blast
    have apart: "unat w < length (kb_values body) \<Longrightarrow> bp_ren bp w \<noteq> c" for w
      using plan Some body by (auto simp: plan_ok_def)
    have sim': "branch_sim bp body e (m(c \<mapsto> K_int bits))"
      using sim apart unfolding branch_sim_def by simp
    obtain a as x xs where args: "args = a # as" "vals = x # xs" using vals bits(3) by (cases args) (auto simp: bind_eq_Some_conv)
    have "map_opt (m(c \<mapsto> K_int bits)) (map (bp_ren bp) as) = Some xs"
      using branch_sim_args [OF sim', of as xs] vals args by (auto simp: bind_eq_Some_conv)
    moreover have "exec_op fl tr mem op (K_int bits # xs) s = Some (r, s')" using op bits args by (simp add: exec_op_def)
    ultimately have "exec_def fl tr mem (bp_ren bp v) (nth_opt (bp_values bp) (unat (bp_ren bp v))) (m(c \<mapsto> K_int bits), s) =
        Some (bind_result (m(c \<mapsto> K_int bits)) (bp_ren bp v) r, s')"
      using Some landed args by (simp add: exec_def_def branch_def_def del: nth_opt_Some)
    moreover have "exec_def fl tr mem c (nth_opt (bp_values bp) (unat c)) (m, s) = Some (m(c \<mapsto> K_int bits), s)"
      using bits(1) by (simp add: holds_const_def exec_def_def exec_op_def reaches_memory_def eval_op_def bind_result_def del: nth_opt_Some)
    ultimately have "exec_instrs fl tr mem (bp_values bp) (bp_sequence bp [v]) (m, s) =
        Some (bind_result (m(c \<mapsto> K_int bits)) (bp_ren bp v) r, s')"
      using Some by (simp del: nth_opt_Some)
    then show ?thesis using branch_sim_bind [OF sim' inside(2) inj const] e' by blast
  qed
qed

lemma branch_instrs:
  assumes edge: "edge_ok edge params port base outputs" and plan: "plan_ok bp edge params port base outputs"
    and body: "body = kf_body (ed_fragment edge)"
  shows "set vs \<subseteq> set (listed body) \<Longrightarrow> branch_sim bp body e m \<Longrightarrow>
    exec_instrs fl tr (branch_view mem port (ed_shared edge) base outputs) (kb_values body) vs (e, s) = Some (e', s') \<Longrightarrow>
    \<exists>m'. exec_instrs fl tr mem (bp_values bp) (bp_sequence bp vs) (m, s) = Some (m', s') \<and> branch_sim bp body e' m'"
proof (induction vs arbitrary: e m s)
  case (Cons v vs)
  obtain e1 s1 where one: "exec_def fl tr (branch_view mem port (ed_shared edge) base outputs) v
      (nth_opt (kb_values body) (unat v)) (e, s) = Some (e1, s1)"
    and rest: "exec_instrs fl tr (branch_view mem port (ed_shared edge) base outputs) (kb_values body) vs (e1, s1) = Some (e', s')"
    using Cons.prems(3) by (auto simp: bind_eq_Some_conv)
  have "v \<in> set (listed body)" using Cons.prems(1) by simp
  from branch_step [OF edge plan body this Cons.prems(2) one] obtain m1 where
    m1: "exec_instrs fl tr mem (bp_values bp) (bp_sequence bp [v]) (m, s) = Some (m1, s1)" "branch_sim bp body e1 m1" by blast
  have split_v: "bp_sequence bp (v # vs) = bp_sequence bp [v] @ bp_sequence bp vs" by simp
  show ?case
    using Cons.IH [OF _ m1(2) rest] Cons.prems(1) m1(1)
    unfolding split_v exec_instrs_append by simp
qed auto

section \<open>The blocks of the merged body\<close>

lemma enumerate_others:
  "map (\<lambda>(_, b). g b) (List.filter (\<lambda>(k, _). k \<noteq> n + entry) (enumerate n xs)) =
    map g (take entry xs @ drop (Suc entry) xs)"
proof (induction xs arbitrary: n entry)
  case (Cons x xs)
  show ?case
  proof (cases entry)
    case 0
    have "List.filter (\<lambda>(k, _). k \<noteq> n) (enumerate (Suc n) xs) = enumerate (Suc n) xs"
      by (rule filter_True) (auto simp: in_set_enumerate_eq)
    moreover have "map (\<lambda>(_, b). g b) (enumerate (Suc n) xs) = map g xs"
      by (intro nth_equalityI) (simp_all add: nth_enumerate_eq)
    ultimately show ?thesis using 0 by simp
  next
    case (Suc m)
    then show ?thesis using Cons.IH [of "Suc n" m] by simp
  qed
qed simp

lemma land_branch_blocks:
  assumes land: "land_branch bp branch landing merged = Some merged'"
    and block: "bp_block bp = branch_block (kb_entry branch) landing (length (kb_blocks merged))"
  shows "kb_values merged' = bp_values bp" "kb_entry merged' = kb_entry merged"
    and "k < length (kb_blocks merged) \<Longrightarrow> k \<noteq> landing \<Longrightarrow> nth_opt (kb_blocks merged') k = nth_opt (kb_blocks merged) k"
    and "nth_opt (kb_blocks merged) landing = Some old \<Longrightarrow> nth_opt (kb_blocks branch) (kb_entry branch) = Some entry \<Longrightarrow>
      nth_opt (kb_blocks merged') landing = Some (landed_block bp old entry)"
    and "nth_opt (kb_blocks branch) k = Some b \<Longrightarrow> k \<noteq> kb_entry branch \<Longrightarrow> landing < length (kb_blocks merged) \<Longrightarrow>
      length (kb_blocks merged) \<le> bp_block bp k \<and> nth_opt (kb_blocks merged') (bp_block bp k) = Some (pushed_block bp b)"
    and "\<exists>entry. nth_opt (kb_blocks branch) (kb_entry branch) = Some entry"
    and "length (kb_blocks merged') = length (kb_blocks merged) + (length (kb_blocks branch) - 1)"
    and "length (kb_blocks merged) \<le> j \<Longrightarrow> j < length (kb_blocks merged') \<Longrightarrow>
      \<exists>k < length (kb_blocks branch). k \<noteq> kb_entry branch \<and> bp_block bp k = j"
proof -
  let ?e = "kb_entry branch" and ?n = "length (kb_blocks merged)"
  have others: "map (\<lambda>(_, b). pushed_block bp b) (List.filter (\<lambda>(k, _). k \<noteq> ?e) (enumerate 0 (kb_blocks branch))) =
      map (pushed_block bp) (take ?e (kb_blocks branch) @ drop (Suc ?e) (kb_blocks branch))"
    using enumerate_others [of "pushed_block bp" 0 ?e "kb_blocks branch"] by simp
  define blocks where "blocks = kb_blocks merged @ map (pushed_block bp) (take ?e (kb_blocks branch) @ drop (Suc ?e) (kb_blocks branch))"
  obtain old entry where old: "nth_opt blocks landing = Some old" and entry: "nth_opt (kb_blocks branch) ?e = Some entry"
    and merged': "kb_values merged' = bp_values bp" "kb_entry merged' = kb_entry merged"
      "kb_blocks merged' = blocks[landing := landed_block bp old entry]"
    using land unfolding land_branch_def Let_def others blocks_def [symmetric]
    by (auto simp: bind_eq_Some_conv simp del: nth_opt_Some)
  have e: "?e < length (kb_blocks branch)" "kb_blocks branch ! ?e = entry" using entry by simp_all
  show "kb_values merged' = bp_values bp" "kb_entry merged' = kb_entry merged" by (fact merged')+
  show "\<exists>entry. nth_opt (kb_blocks branch) ?e = Some entry" using entry by blast
  show "k < ?n \<Longrightarrow> k \<noteq> landing \<Longrightarrow> nth_opt (kb_blocks merged') k = nth_opt (kb_blocks merged) k"
    by (simp add: merged'(3) blocks_def nth_opt_def nth_append)
  show "nth_opt (kb_blocks merged') landing = Some (landed_block bp old' entry')"
    if "nth_opt (kb_blocks merged) landing = Some old'" "nth_opt (kb_blocks branch) ?e = Some entry'" for old' entry'
    using that old e by (simp add: merged'(3) blocks_def nth_append)
  show pushed: "?n \<le> bp_block bp k \<and> nth_opt (kb_blocks merged') (bp_block bp k) = Some (pushed_block bp b)"
    if "nth_opt (kb_blocks branch) k = Some b" "k \<noteq> ?e" "landing < ?n" for k b
    using that e by (auto simp: block branch_block_def merged'(3) blocks_def nth_list_update nth_append nth_opt_def min_def not_less
        split: if_splits)
  show "length (kb_blocks merged') = ?n + (length (kb_blocks branch) - 1)"
    using e by (simp add: merged'(3) blocks_def min_def)
  show "\<exists>k < length (kb_blocks branch). k \<noteq> ?e \<and> bp_block bp k = j" if "?n \<le> j" "j < length (kb_blocks merged')"
  proof (cases "j - ?n < ?e")
    case True
    then show ?thesis using that e by (intro exI [of _ "j - ?n"]) (auto simp: block branch_block_def)
  next
    case False
    then show ?thesis using that e
      by (intro exI [of _ "Suc (j - ?n)"]) (auto simp: block branch_block_def merged'(3) blocks_def min_def)
  qed
qed

section \<open>Running the blocks of a branch\<close>

text \<open>What happens behind the instructions of a block.\<close>

definition block_end :: "f32_ops \<Rightarrow> (kernel_instr \<Rightarrow> f32 \<Rightarrow> f32 option) \<Rightarrow> 's mem \<Rightarrow> kernel_body \<Rightarrow> nat \<Rightarrow>
    terminator \<Rightarrow> env \<times> 's \<Rightarrow> (kval list \<times> 's) option" where
  "block_end fl tr mem body n t = (\<lambda>(e, s).
     case t of
       Return values \<Rightarrow> map_option (\<lambda>vals. (vals, s)) (map_opt e values)
     | t \<Rightarrow> Option.bind (taken_branch e t) (\<lambda>br. Option.bind (map_opt e (br_args br)) (\<lambda>vals.
         run_blocks fl tr mem body n (br_target br) vals (e, s))))"

lemma run_blocks_Suc:
  "run_blocks fl tr mem body (Suc n) k args (e, s) =
    Option.bind (nth_opt (kb_blocks body) k) (\<lambda>block.
    if length args \<noteq> length (bb_params block) then None
    else Option.bind (exec_instrs fl tr mem (kb_values body) (bb_instrs block) (e ++ map_of (zip (bb_params block) args), s))
      (block_end fl tr mem body n (bb_terminator block)))"
  unfolding run_blocks.simps block_end_def fst_conv snd_conv ..

lemma block_end_Return [simp]:
  "block_end fl tr mem body n (Return values) (e, s) = map_option (\<lambda>vals. (vals, s)) (map_opt e values)"
  by (simp add: block_end_def)

lemma block_end_taken:
  "\<not> is_return t \<Longrightarrow> block_end fl tr mem body n t (e, s) = Option.bind (taken_branch e t) (\<lambda>br.
    Option.bind (map_opt e (br_args br)) (\<lambda>vals. run_blocks fl tr mem body n (br_target br) vals (e, s)))"
  by (cases t) (simp_all add: block_end_def is_return_def)

lemma map_of_zip_inj:
  "length ps = length xs \<Longrightarrow> (\<And>p. p \<in> set ps \<Longrightarrow> f p = f v \<Longrightarrow> p = v) \<Longrightarrow>
    map_of (zip (map f ps) xs) (f v) = map_of (zip ps xs) v"
proof (induction ps xs rule: list_induct2)
  case (Cons p ps x xs)
  then show ?case using Cons.prems [of p] by (cases "f p = f v") auto
qed simp

lemma branch_sim_params:
  assumes "branch_sim bp body e m" and "length ps = length args"
    and "\<And>p. p \<in> set ps \<Longrightarrow> \<exists>k i. value_at body p = Some (Block_param k i)"
    and inj: "\<And>v w. unat v < length (kb_values body) \<Longrightarrow> unat w < length (kb_values body) \<Longrightarrow> bp_ren bp v = bp_ren bp w \<Longrightarrow> v = w"
  shows "branch_sim bp body (e ++ map_of (zip ps args)) (m ++ map_of (zip (map (bp_ren bp) ps) args))"
  unfolding branch_sim_def
proof (intro allI impI)
  fix v x assume bound: "(e ++ map_of (zip ps args)) v = Some x"
  have inside: "unat p < length (kb_values body)" if "p \<in> set ps" for p
    using assms(3) [OF that] by (auto simp: value_at_def)
  have dom: "map_of (zip ps args) v = None \<longleftrightarrow> v \<notin> set ps" using assms(2) by (simp add: map_of_zip_is_None)
  have v: "unat v < length (kb_values body)"
    using bound assms(1) inside dom by (cases "v \<in> set ps") (auto simp: branch_sim_def map_add_def split: option.splits)
  have same: "map_of (zip (map (bp_ren bp) ps) args) (bp_ren bp v) = map_of (zip ps args) v"
    using assms(2) inside v inj by (intro map_of_zip_inj) auto
  show "unat v < length (kb_values body) \<and> (m ++ map_of (zip (map (bp_ren bp) ps) args)) (bp_ren bp v) = Some x \<and>
      (\<forall>bits. body_constant body (Some v) = Some bits \<longrightarrow> x = K_int bits)"
  proof (cases "v \<in> set ps")
    case True
    then have "body_constant body (Some v) = None" using assms(3) by (force simp: body_constant_def)
    then show ?thesis using v bound same True dom by (auto simp: map_add_def split: option.splits)
  next
    case False
    then show ?thesis using v bound same dom assms(1) by (auto simp: map_add_def branch_sim_def)
  qed
qed

lemma branch_taken:
  assumes "branch_sim bp body e m" and "taken_branch e t = Some br"
  shows "taken_branch m (mapped_terminator (bp_ren bp) block t) = Some (mapped_br (bp_ren bp) block br)"
  using assms by (cases t) (auto simp: bind_eq_Some_conv branch_sim_def)

lemma mapped_return [simp]: "is_return (mapped_terminator f block t) \<longleftrightarrow> is_return t"
  by (cases t) (simp_all add: is_return_def)

lemma branch_end:
  assumes sim: "branch_sim bp body e m" and run: "block_end fl tr view body n t (e, s) = Some answer"
    and later: "\<And>br vals. taken_branch e t = Some br \<Longrightarrow> run_blocks fl tr view body n (br_target br) vals (e, s) = Some answer \<Longrightarrow>
      run_blocks fl tr mem merged n (block (br_target br)) vals (m, s) = Some answer"
  shows "block_end fl tr mem merged n (mapped_terminator (bp_ren bp) block t) (m, s) = Some answer"
proof (cases "is_return t")
  case True
  then obtain vs where "t = Return vs" by (cases t) (simp_all add: is_return_def)
  then show ?thesis using run branch_sim_args [OF sim] by auto
next
  case False
  then obtain br vals where br: "taken_branch e t = Some br" "map_opt e (br_args br) = Some vals"
    "run_blocks fl tr view body n (br_target br) vals (e, s) = Some answer"
    using run by (auto simp: block_end_taken bind_eq_Some_conv)
  then show ?thesis
    using False branch_taken [OF sim br(1)] branch_sim_args [OF sim br(2)] later [OF br(1,3)]
    by (simp add: block_end_taken mapped_br_def)
qed

lemma listed_block: "nth_opt (kb_blocks body) k = Some b \<Longrightarrow> set (bb_instrs b) \<subseteq> set (listed body)"
  using nth_mem [of k "kb_blocks body"] by (auto simp: listed_def)

text \<open>No branch of the body enters its entry again.\<close>

definition entry_left :: "kernel_body \<Rightarrow> bool" where
  "entry_left body \<longleftrightarrow> (\<forall>block \<in> set (kb_blocks body). \<forall>br \<in> set (branches block). br_target br \<noteq> kb_entry body)"

lemma entry_leftD: "entry_left body \<Longrightarrow> nth_opt (kb_blocks body) k = Some b \<Longrightarrow>
    taken_branch e (bb_terminator b) = Some br \<Longrightarrow> br_target br \<noteq> kb_entry body"
  using taken_branch_in by (fastforce simp: entry_left_def branches_def)

lemma branch_targeting_None: "branch_targeting body (kb_entry body) = None \<Longrightarrow> entry_left body"
  by (auto simp: branch_targeting_def entry_left_def list_ex_iff)

lemma run_branch:
  assumes edge: "edge_ok edge params port base outputs" and plan: "plan_ok bp edge params port base outputs"
    and body: "body = kf_body (ed_fragment edge)" and table: "kb_values merged = bp_values bp" and left: "entry_left body"
    and pushed: "\<And>k b. nth_opt (kb_blocks body) k = Some b \<Longrightarrow> k \<noteq> kb_entry body \<Longrightarrow>
      nth_opt (kb_blocks merged) (bp_block bp k) = Some (pushed_block bp b)"
  shows "k \<noteq> kb_entry body \<Longrightarrow> branch_sim bp body e m \<Longrightarrow>
    run_blocks fl tr (branch_view mem port (ed_shared edge) base outputs) body n k args (e, s) = Some answer \<Longrightarrow>
    run_blocks fl tr mem merged n (bp_block bp k) args (m, s) = Some answer"
proof (induction n arbitrary: k e m s args)
  case (Suc n)
  obtain b where b: "nth_opt (kb_blocks body) k = Some b" and len: "length args = length (bb_params b)"
    using Suc.prems(3) by (auto simp: bind_eq_Some_conv run_blocks_Suc simp del: nth_opt_Some run_blocks.simps split: if_splits)
  obtain e1 s1 where instrs: "exec_instrs fl tr (branch_view mem port (ed_shared edge) base outputs) (kb_values body) (bb_instrs b)
      (e ++ map_of (zip (bb_params b) args), s) = Some (e1, s1)"
    and ends: "block_end fl tr (branch_view mem port (ed_shared edge) base outputs) body n (bb_terminator b) (e1, s1) = Some answer"
    using Suc.prems(3) b len by (auto simp: bind_eq_Some_conv run_blocks_Suc simp del: nth_opt_Some run_blocks.simps)
  have placed: "params_placed body" using edge body by (simp add: edge_ok_def)
  have "\<exists>k i. value_at body p = Some (Block_param k i)" if "p \<in> set (bb_params b)" for p
    using params_placedD(1) [OF placed b] that by (fastforce simp: in_set_conv_nth)
  moreover have "unat v < length (kb_values body) \<Longrightarrow> unat w < length (kb_values body) \<Longrightarrow> bp_ren bp v = bp_ren bp w \<Longrightarrow> v = w" for v w
    using plan body by (simp add: plan_ok_def)
  ultimately have "branch_sim bp body (e ++ map_of (zip (bb_params b) args))
      (m ++ map_of (zip (map (bp_ren bp) (bb_params b)) args))"
    using branch_sim_params [OF Suc.prems(2)] len by metis
  from branch_instrs [OF edge plan body listed_block [OF b] this instrs] obtain m1 where
    m1: "exec_instrs fl tr mem (bp_values bp) (bp_sequence bp (bb_instrs b))
      (m ++ map_of (zip (map (bp_ren bp) (bb_params b)) args), s) = Some (m1, s1)" "branch_sim bp body e1 m1" by blast
  have "block_end fl tr mem merged n (mapped_terminator (bp_ren bp) (bp_block bp) (bb_terminator b)) (m1, s1) = Some answer"
    using Suc.IH m1(2) entry_leftD [OF left b] by (intro branch_end [OF m1(2) ends]) blast
  then show ?case
    using pushed [OF b Suc.prems(1)] m1(1) len table
    by (simp add: run_blocks_Suc pushed_block_def bp_ren_def del: nth_opt_Some run_blocks.simps)
qed simp

lemma run_landed:
  assumes edge: "edge_ok edge params port base outputs" and plan: "plan_ok bp edge params port base outputs"
    and body: "body = kf_body (ed_fragment edge)" and table: "kb_values merged = bp_values bp" and left: "entry_left body"
    and pushed: "\<And>k b. nth_opt (kb_blocks body) k = Some b \<Longrightarrow> k \<noteq> kb_entry body \<Longrightarrow>
      nth_opt (kb_blocks merged) (bp_block bp k) = Some (pushed_block bp b)"
    and entry: "nth_opt (kb_blocks body) (kb_entry body) = Some entry"
    and run: "run_blocks fl tr (branch_view mem port (ed_shared edge) base outputs) body (Suc n) (kb_entry body) args
      (Map.empty, s) = Some answer"
    and given: "\<And>i. i < length args \<Longrightarrow> m (bp_ren bp (params ! i)) = Some (args ! i)"
  shows "Option.bind (exec_instrs fl tr mem (bp_values bp) (bp_sequence bp (bb_instrs entry)) (m, s))
    (block_end fl tr mem merged n (mapped_terminator (bp_ren bp) (bp_block bp) (bb_terminator entry))) = Some answer"
proof -
  have params: "bb_params entry = params" using edge entry body by (simp add: edge_ok_def parameters_def del: nth_opt_Some)
  obtain e1 s1 where len: "length args = length params"
    and instrs: "exec_instrs fl tr (branch_view mem port (ed_shared edge) base outputs) (kb_values body) (bb_instrs entry)
      (map_of (zip params args), s) = Some (e1, s1)"
    and ends: "block_end fl tr (branch_view mem port (ed_shared edge) base outputs) body n (bb_terminator entry) (e1, s1) = Some answer"
    using run entry params
    by (auto simp: bind_eq_Some_conv run_blocks_Suc simp del: nth_opt_Some run_blocks.simps split: if_splits)
  have placed: "params_placed body" "parameters body = Some params" using edge body by (simp_all add: edge_ok_def)
  note at = entry_params_placed [OF placed]
  have "branch_sim bp body (map_of (zip params args)) m"
    unfolding branch_sim_def
  proof (intro allI impI)
    fix v x assume "map_of (zip params args) v = Some x"
    then have "(v, x) \<in> set (zip params args)" by (rule map_of_SomeD)
    then obtain i where i: "i < length params" "v = params ! i" "x = args ! i" using len by (auto simp: set_zip)
    have "body_constant body (Some v) = None" using at(2) [OF i(1)] i(2) by (simp add: body_constant_def)
    then show "unat v < length (kb_values body) \<and> m (bp_ren bp v) = Some x \<and>
        (\<forall>bits. body_constant body (Some v) = Some bits \<longrightarrow> x = K_int bits)"
      using given [of i] i at(3) len by simp
  qed
  from branch_instrs [OF edge plan body listed_block [OF entry] this instrs] obtain m1 where
    m1: "exec_instrs fl tr mem (bp_values bp) (bp_sequence bp (bb_instrs entry)) (m, s) = Some (m1, s1)"
      "branch_sim bp body e1 m1" by blast
  have "block_end fl tr mem merged n (mapped_terminator (bp_ren bp) (bp_block bp) (bb_terminator entry)) (m1, s1) = Some answer"
  proof (rule branch_end [OF m1(2) ends])
    fix br vals
    assume taken: "taken_branch e1 (bb_terminator entry) = Some br"
      and rest: "run_blocks fl tr (branch_view mem port (ed_shared edge) base outputs) body n (br_target br) vals (e1, s1) = Some answer"
    show "run_blocks fl tr mem merged n (bp_block bp (br_target br)) vals (m1, s1) = Some answer"
      by (rule run_branch [OF edge plan body table left _ entry_leftD [OF left entry taken] m1(2) rest]) (rule pushed)
  qed
  then show ?thesis using m1(1) by simp
qed

section \<open>Running what was merged before\<close>

lemma exec_keeps:
  assumes "exec_instrs fl tr mem table vs (e, s) = Some (e', s')"
    and "\<And>op args classes. nth_opt table (unat p) \<noteq> Some (Instr op args classes)"
  shows "e' p = e p"
  using assms(1)
proof (induction vs arbitrary: e s)
  case (Cons v vs)
  obtain e1 s1 where one: "exec_def fl tr mem v (nth_opt table (unat v)) (e, s) = Some (e1, s1)"
    and rest: "exec_instrs fl tr mem table vs (e1, s1) = Some (e', s')"
    using Cons.prems by (auto simp: bind_eq_Some_conv)
  obtain op args classes r where "nth_opt table (unat v) = Some (Instr op args classes)" "e1 = bind_result e v r"
    using one by (auto simp: exec_def_def bind_eq_Some_conv simp del: nth_opt_Some split: option.splits value_def.splits)
  moreover from this(1) have "v \<noteq> p" using assms(2) by auto
  ultimately have "e1 p = e p" by (simp add: bind_result_def split: option.split)
  then show ?case using Cons.IH [OF rest] by simp
qed simp

text \<open>The body before a branch lands, and what the landing changes.\<close>

definition lands_on :: "kernel_body \<Rightarrow> value_id list \<Rightarrow> nat \<Rightarrow> bool" where
  "lands_on merged params landing \<longleftrightarrow> params_placed merged \<and> parameters merged = Some params \<and> entry_left merged \<and>
     landing < length (kb_blocks merged) \<and>
     (\<forall>k b. nth_opt (kb_blocks merged) k = Some b \<longrightarrow> (is_return (bb_terminator b) \<longleftrightarrow> k = landing))"

lemma run_merged:
  assumes on: "lands_on merged params landing" and len: "length xs = length params"
    and others: "\<And>k b. nth_opt (kb_blocks merged) k = Some b \<Longrightarrow> k \<noteq> landing \<Longrightarrow> nth_opt (kb_blocks merged') k = Some b"
    and landed: "\<And>old. nth_opt (kb_blocks merged) landing = Some old \<Longrightarrow>
      nth_opt (kb_blocks merged') landing = Some (landed_block bp old entry)"
    and table: "\<And>j. j < length (kb_values merged) \<Longrightarrow> nth_opt (kb_values merged') j = nth_opt (kb_values merged) j"
    and behind: "\<And>m. (\<forall>i < length params. m (params ! i) = Some (xs ! i)) \<Longrightarrow>
      Option.bind (exec_instrs fl tr mem (kb_values merged') (bp_sequence bp (bb_instrs entry)) (m, s1))
        (block_end fl tr mem merged' n' (mapped_terminator (bp_ren bp) (bp_block bp) (bb_terminator entry))) = Some answer"
  shows "run_blocks fl tr mem merged n k args (e, s) = Some (vals, s1) \<Longrightarrow>
    k = kb_entry merged \<and> args = xs \<or> k \<noteq> kb_entry merged \<and> (\<forall>i < length params. e (params ! i) = Some (xs ! i)) \<Longrightarrow>
    \<exists>j. run_blocks fl tr mem merged' j k args (e, s) = Some answer"
proof (induction n arbitrary: k args e s)
  case (Suc n)
  note on = on [unfolded lands_on_def]
  obtain b where b: "nth_opt (kb_blocks merged) k = Some b" and args: "length args = length (bb_params b)"
    using Suc.prems(1) by (auto simp: bind_eq_Some_conv run_blocks_Suc simp del: nth_opt_Some run_blocks.simps split: if_splits)
  obtain e1 s2 where instrs: "exec_instrs fl tr mem (kb_values merged) (bb_instrs b) (e ++ map_of (zip (bb_params b) args), s) = Some (e1, s2)"
    and ends: "block_end fl tr mem merged n (bb_terminator b) (e1, s2) = Some (vals, s1)"
    using Suc.prems(1) b args by (auto simp: bind_eq_Some_conv run_blocks_Suc simp del: nth_opt_Some run_blocks.simps)
  have instrs': "exec_instrs fl tr mem (kb_values merged') (bb_instrs b) (e ++ map_of (zip (bb_params b) args), s) = Some (e1, s2)"
    by (rule exec_prefix [OF table instrs])
  obtain eb where eb: "nth_opt (kb_blocks merged) (kb_entry merged) = Some eb" "bb_params eb = params"
    using on by (auto simp: parameters_def simp del: nth_opt_Some)
  have given: "e1 (params ! i) = Some (xs ! i)" if i: "i < length params" for i
  proof -
    have at: "value_at merged (params ! i) = Some (Block_param (kb_entry merged) (of_nat i))"
      using entry_params_placed(2) on i by blast
    have "e1 (params ! i) = (e ++ map_of (zip (bb_params b) args)) (params ! i)"
      by (rule exec_keeps [OF instrs]) (use at in \<open>simp add: value_at_def del: nth_opt_Some\<close>)
    also have "\<dots> = Some (xs ! i)"
    proof (cases "k = kb_entry merged")
      case True
      then have "b = eb" "args = xs" using b eb Suc.prems(2) by (simp_all del: nth_opt_Some)
      moreover have "map_of (zip params xs) (params ! i) = Some (xs ! i)"
        using entry_params_placed(1) on len i by (intro map_of_zip_nth) auto
      ultimately show ?thesis using eb(2) by (simp add: map_add_def)
    next
      case False
      have "params ! i \<notin> set (bb_params b)"
      proof
        assume "params ! i \<in> set (bb_params b)"
        then obtain j where "nth_opt (bb_params b) j = Some (params ! i)" by (auto simp: in_set_conv_nth)
        then have "value_at merged (params ! i) = Some (Block_param k (of_nat j))" using params_placedD(1) on b by blast
        then show False using at False by simp
      qed
      then have "map_of (zip (bb_params b) args) (params ! i) = None" using args by (simp add: map_of_zip_is_None)
      then show ?thesis using False Suc.prems(2) i by (simp add: map_add_def)
    qed
    finally show ?thesis .
  qed
  show ?case
  proof (cases "k = landing")
    case True
    obtain returned where ret: "bb_terminator b = Return returned" using on b True by (cases "bb_terminator b") (auto simp: is_return_def)
    then have "s2 = s1" using ends by auto
    then have "run_blocks fl tr mem merged' (Suc n') k args (e, s) = Some answer"
      using landed b True args instrs' behind [of e1] given
      by (simp add: run_blocks_Suc landed_block_def exec_instrs_append bp_ren_def del: nth_opt_Some run_blocks.simps)
    then show ?thesis by blast
  next
    case False
    then have no: "\<not> is_return (bb_terminator b)" using on b by blast
    then obtain br bvals where br: "taken_branch e1 (bb_terminator b) = Some br" "map_opt e1 (br_args br) = Some bvals"
      and rest: "run_blocks fl tr mem merged n (br_target br) bvals (e1, s2) = Some (vals, s1)"
      using ends by (auto simp: block_end_taken bind_eq_Some_conv)
    have "br_target br \<noteq> kb_entry merged" using entry_leftD [OF _ b br(1)] on by blast
    then obtain j where "run_blocks fl tr mem merged' j (br_target br) bvals (e1, s2) = Some answer"
      using Suc.IH [OF rest] given by blast
    then have "run_blocks fl tr mem merged' (Suc j) k args (e, s) = Some answer"
      using others [OF b False] args instrs' br no
      by (simp add: run_blocks_Suc block_end_taken del: nth_opt_Some run_blocks.simps)
    then show ?thesis by blast
  qed
qed simp

end
