(* ===== verification/Sibling_Order.thy ===== *)
theory Sibling_Order
  imports Sibling_Run
begin

text \<open>
  The loop over the branches keeps what the run of the merged body needs, and the whole merge: the
  fragment that siblings become runs them in order.
\<close>

section \<open>Landing keeps the shape\<close>

lemma returns_of_Ok:
  assumes "returns_of body = Ok r"
  shows "r < length (kb_blocks body)"
    and "nth_opt (kb_blocks body) k = Some b \<Longrightarrow> is_return (bb_terminator b) \<longleftrightarrow> k = r"
proof -
  have one: "List.filter (\<lambda>k. is_return (bb_terminator (kb_blocks body ! k))) [0..<length (kb_blocks body)] = [r]"
    using assms by (auto simp: returns_of_def Let_def split: list.splits)
  then have "set (List.filter (\<lambda>k. is_return (bb_terminator (kb_blocks body ! k))) [0..<length (kb_blocks body)]) = {r}" by simp
  then have all: "k < length (kb_blocks body) \<and> is_return (bb_terminator (kb_blocks body ! k)) \<longleftrightarrow> k = r" for k by auto
  then show "r < length (kb_blocks body)" by blast
  show "nth_opt (kb_blocks body) k = Some b \<Longrightarrow> is_return (bb_terminator b) \<longleftrightarrow> k = r" using all by auto
qed

lemma mapped_branches: "branches_of (mapped_terminator f block t) = map (mapped_br f block) (branches_of t)"
  by (cases t) simp_all

text \<open>Every value a block lists is an instruction of the table, and one that changes the memory defines nothing.\<close>

definition stores_plainly :: "'s mem \<Rightarrow> kernel_body \<Rightarrow> bool" where
  "stores_plainly mem body \<longleftrightarrow> (\<forall>v \<in> set (listed body). \<exists>op args classes.
     value_at body v = Some (Instr op args classes) \<and> (reaches_memory op \<longrightarrow> classes = [] \<or> leaves_memory mem op))"

lemma params_placedI:
  assumes "length (kb_values body) < 2 ^ 32"
    and "\<And>k block i p. nth_opt (kb_blocks body) k = Some block \<Longrightarrow> nth_opt (bb_params block) i = Some p \<Longrightarrow>
      value_at body p = Some (Block_param k (of_nat i)) \<and> i < 2 ^ 32"
  shows "params_placed body"
  using assms by (auto simp: params_placed_def list_all_iff param_places_iff simp del: nth_opt_Some)

lemma land_keeps:
  assumes on: "lands_on merged first_params landing" and land: "land_branch bp body landing merged = Some merged'"
    and block: "bp_block bp = branch_block (kb_entry body) landing (length (kb_blocks merged))"
    and before: "\<And>j. j < length (kb_values merged) \<Longrightarrow> nth_opt (bp_values bp) j = nth_opt (kb_values merged) j"
    and small: "length (bp_values bp) < 2 ^ 32"
    and own: "\<And>v. unat v < length (kb_values body) \<Longrightarrow> v \<notin> set params \<Longrightarrow> nth_opt (bp_values bp) (unat (bp_ren bp v)) =
      Some (branch_def (bp_ren bp) (bp_block bp) (bp_moved bp) v (kb_values body ! unat v))"
    and placed: "params_placed body" "parameters body = Some params" and left: "entry_left body"
    and returned: "returns_of body = Ok returned"
  shows "lands_on merged' first_params (bp_block bp returned)"
proof -
  note on = on [unfolded lands_on_def]
  note shape = land_branch_blocks [OF land block]
  let ?n = "length (kb_blocks merged)"
  obtain old where old: "nth_opt (kb_blocks merged) landing = Some old" using on by (auto simp: nth_opt_def)
  obtain entry where entry: "nth_opt (kb_blocks body) (kb_entry body) = Some entry" using shape(6) by blast
  have inside: "landing < ?n" using on by blast
  note landed = shape(4) [OF old entry]
  have far: "k \<noteq> kb_entry body \<Longrightarrow> ?n \<le> bp_block bp k" for k by (auto simp: block branch_block_def)
  have near: "bp_block bp (kb_entry body) = landing" by (simp add: block branch_block_def)
  text \<open>A block of the merged body is an old one, the one landed on, or one of the branch.\<close>
  have cases: "(k < ?n \<and> k \<noteq> landing \<and> nth_opt (kb_blocks merged) k = Some b) \<or> (k = landing \<and> b = landed_block bp old entry) \<or>
      (\<exists>k' b'. k' \<noteq> kb_entry body \<and> nth_opt (kb_blocks body) k' = Some b' \<and> k = bp_block bp k' \<and> b = pushed_block bp b')"
    if b: "nth_opt (kb_blocks merged') k = Some b" for k b
  proof (cases "k < ?n")
    case True
    then show ?thesis using b landed shape(3) by (cases "k = landing") (simp_all del: nth_opt_Some)
  next
    case False
    then have "?n \<le> k" "k < length (kb_blocks merged')" using b by simp_all
    then obtain k' where k': "k' < length (kb_blocks body)" "k' \<noteq> kb_entry body" "bp_block bp k' = k"
      using shape(8) [of k] by blast
    have "nth_opt (kb_blocks body) k' = Some (kb_blocks body ! k')" using k'(1) by simp
    with shape(5) [OF this k'(2) inside] b k' have "b = pushed_block bp (kb_blocks body ! k')" by (simp del: nth_opt_Some)
    then show ?thesis using k' by (intro disjI2 exI [of _ k'] exI [of _ "kb_blocks body ! k'"]) simp
  qed
  have kept: "value_at merged' p = value_at merged p" if "value_at merged p \<noteq> None" for p
    using that before [of "unat p"] by (simp add: value_at_def shape(1))
  have "params_placed merged'"
  proof (rule params_placedI)
    show "length (kb_values merged') < 2 ^ 32" using small shape(1) by simp
    fix k b i p assume b: "nth_opt (kb_blocks merged') k = Some b" and p: "nth_opt (bb_params b) i = Some p"
    consider b0 where "nth_opt (kb_blocks merged) k = Some b0" "bb_params b0 = bb_params b"
      | k' b' where "k' \<noteq> kb_entry body" "nth_opt (kb_blocks body) k' = Some b'" "k = bp_block bp k'" "b = pushed_block bp b'"
      using cases [OF b] old by (auto simp: landed_block_def simp del: nth_opt_Some)
    then show "value_at merged' p = Some (Block_param k (of_nat i)) \<and> i < 2 ^ 32"
    proof cases
      case 1
      then have "value_at merged p = Some (Block_param k (of_nat i)) \<and> i < 2 ^ 32" using params_placedD on p by metis
      then show ?thesis using kept by simp
    next
      case 2
      obtain q where q: "nth_opt (bb_params b') i = Some q" "p = bp_ren bp q"
        using p 2(4) by (auto simp: pushed_block_def bp_ren_def nth_opt_def split: if_splits)
      have at: "value_at body q = Some (Block_param k' (of_nat i))" "i < 2 ^ 32"
        using params_placedD [OF placed(1) 2(2) q(1)] by blast+
      then have "q \<notin> set params" "unat q < length (kb_values body)" "kb_values body ! unat q = Block_param k' (of_nat i)"
        using entry_params_placed(2) [OF placed] 2(1) by (force simp: in_set_conv_nth value_at_def)+
      then show ?thesis using own [of q] q(2) at(2) 2(3) shape(1) by (simp add: value_at_def branch_def_def)
    qed
  qed
  moreover have "parameters merged' = Some first_params"
  proof -
    obtain eb where eb: "nth_opt (kb_blocks merged) (kb_entry merged) = Some eb" "bb_params eb = first_params"
      using on by (auto simp: parameters_def simp del: nth_opt_Some)
    then have "kb_entry merged < ?n" by simp
    then show ?thesis
      using eb landed old shape(2,3) by (cases "kb_entry merged = landing") (auto simp: parameters_def landed_block_def simp del: nth_opt_Some)
  qed
  moreover have "entry_left merged'"
    unfolding entry_left_def
  proof (intro ballI)
    fix b br assume "b \<in> set (kb_blocks merged')" and br: "br \<in> set (branches b)"
    then obtain k where k: "nth_opt (kb_blocks merged') k = Some b" by (auto simp: in_set_conv_nth)
    have below: "kb_entry merged < ?n" using on by (auto simp: parameters_def)
    consider "nth_opt (kb_blocks merged) k = Some b"
      | k' b' where "nth_opt (kb_blocks body) k' = Some b'"
        "bb_terminator b = mapped_terminator (bp_ren bp) (bp_block bp) (bb_terminator b')"
      using cases [OF k] entry by (auto simp: landed_block_def pushed_block_def bp_ren_def simp del: nth_opt_Some)
    then show "br_target br \<noteq> kb_entry merged'"
    proof cases
      case 1
      then show ?thesis using on br shape(2) nth_mem [of k "kb_blocks merged"] by (auto simp: entry_left_def)
    next
      case 2
      then obtain br' where br': "br' \<in> set (branches b')" "br = mapped_br (bp_ren bp) (bp_block bp) br'"
        using br by (auto simp: branches_def mapped_branches)
      have "b' \<in> set (kb_blocks body)" using 2(1) by auto
      then have "br_target br' \<noteq> kb_entry body" using left br'(1) by (auto simp: entry_left_def)
      then show ?thesis using far [of "br_target br'"] br'(2) below shape(2) by (simp add: mapped_br_def)
    qed
  qed
  moreover have "bp_block bp returned < length (kb_blocks merged')"
  proof (cases "returned = kb_entry body")
    case True
    then show ?thesis using near inside shape(7) by simp
  next
    case False
    have "nth_opt (kb_blocks body) returned = Some (kb_blocks body ! returned)"
      using returns_of_Ok(1) [OF returned] by simp
    with shape(5) [OF this False inside] show ?thesis by simp
  qed
  moreover have "is_return (bb_terminator b) \<longleftrightarrow> k = bp_block bp returned" if b: "nth_opt (kb_blocks merged') k = Some b" for k b
    using cases [OF b]
  proof (elim disjE conjE exE)
    assume "k < ?n" "k \<noteq> landing" "nth_opt (kb_blocks merged) k = Some b"
    then have "\<not> is_return (bb_terminator b)" using on by blast
    moreover have "k \<noteq> bp_block bp returned"
      using \<open>k < ?n\<close> \<open>k \<noteq> landing\<close> near far [of returned] by (cases "returned = kb_entry body") auto
    ultimately show ?thesis by blast
  next
    assume k: "k = landing" "b = landed_block bp old entry"
    then have "is_return (bb_terminator b) \<longleftrightarrow> kb_entry body = returned"
      using returns_of_Ok(2) [OF returned entry] by (simp add: landed_block_def)
    moreover have "landing = bp_block bp returned \<longleftrightarrow> kb_entry body = returned"
      using near far [of returned] inside by (metis leD)
    ultimately show ?thesis using k(1) by blast
  next
    fix k' b' assume k: "k' \<noteq> kb_entry body" "nth_opt (kb_blocks body) k' = Some b'" "k = bp_block bp k'" "b = pushed_block bp b'"
    then have "is_return (bb_terminator b) \<longleftrightarrow> k' = returned"
      using returns_of_Ok(2) [OF returned k(2)] by (simp add: pushed_block_def)
    moreover have "bp_block bp k' = bp_block bp returned \<longleftrightarrow> k' = returned"
      using k(1) inside far [of k'] near by (auto simp: block branch_block_def split: if_splits)
    ultimately show ?thesis using k(3) by simp
  qed
  ultimately show ?thesis unfolding lands_on_def by blast
qed

lemma listed_iff: "v \<in> set (listed body) \<longleftrightarrow> (\<exists>k b. nth_opt (kb_blocks body) k = Some b \<and> v \<in> set (bb_instrs b))"
proof
  assume "v \<in> set (listed body)"
  then obtain b where "b \<in> set (kb_blocks body)" "v \<in> set (bb_instrs b)" by (auto simp: listed_def)
  moreover from this(1) obtain k where "nth_opt (kb_blocks body) k = Some b" by (auto simp: in_set_conv_nth)
  ultimately show "\<exists>k b. nth_opt (kb_blocks body) k = Some b \<and> v \<in> set (bb_instrs b)" by blast
qed (use listed_block in blast)

lemma land_stores_plainly:
  assumes merged: "stores_plainly mem merged" and branch: "stores_plainly mem body"
    and land: "land_branch bp body landing merged = Some merged'"
    and block: "bp_block bp = branch_block (kb_entry body) landing (length (kb_blocks merged))"
    and before: "\<And>j. j < length (kb_values merged) \<Longrightarrow> nth_opt (bp_values bp) j = nth_opt (kb_values merged) j"
    and own: "\<And>v. unat v < length (kb_values body) \<Longrightarrow> v \<notin> set params \<Longrightarrow> nth_opt (bp_values bp) (unat (bp_ren bp v)) =
      Some (branch_def (bp_ren bp) (bp_block bp) (bp_moved bp) v (kb_values body ! unat v))"
    and moved: "\<And>v c. bp_moved bp v = Some c \<Longrightarrow> \<exists>bits. holds_const (bp_values bp) c bits"
    and placed: "params_placed body" "parameters body = Some params" and inside: "landing < length (kb_blocks merged)"
  shows "stores_plainly mem merged'"
  unfolding stores_plainly_def
proof
  fix v assume "v \<in> set (listed merged')"
  then obtain k b where b: "nth_opt (kb_blocks merged') k = Some b" "v \<in> set (bb_instrs b)" by (auto simp: listed_iff)
  note shape = land_branch_blocks [OF land block]
  have from_branch: "x \<in> set (bp_sequence bp vs) \<longleftrightarrow> (\<exists>w \<in> set vs. x = bp_ren bp w \<or> bp_moved bp w = Some x)" for x vs
    by (induction vs) (auto split: option.splits)
  have "(v \<in> set (listed merged)) \<or> (\<exists>w \<in> set (listed body). v = bp_ren bp w \<or> bp_moved bp w = Some v)"
  proof (cases "k < length (kb_blocks merged)")
    case True
    obtain old where old: "nth_opt (kb_blocks merged) k = Some old" using True by (auto simp: nth_opt_def)
    obtain entry where entry: "nth_opt (kb_blocks body) (kb_entry body) = Some entry" using shape(6) by blast
    show ?thesis
    proof (cases "k = landing")
      case True
      then have "b = landed_block bp old entry" using shape(4) [OF _ entry] old b(1) by (simp del: nth_opt_Some)
      then have "v \<in> set (bb_instrs old) \<or> v \<in> set (bp_sequence bp (bb_instrs entry))"
        using b(2) by (auto simp: landed_block_def)
      then show ?thesis using listed_block [OF old] listed_block [OF entry] unfolding from_branch by blast
    next
      case False
      then have "nth_opt (kb_blocks merged) k = Some b" using shape(3) [OF True] b(1) by simp
      then show ?thesis using b(2) listed_block by blast
    qed
  next
    case False
    then have "length (kb_blocks merged) \<le> k" "k < length (kb_blocks merged')" using b(1) by simp_all
    then obtain k' where k': "k' < length (kb_blocks body)" "k' \<noteq> kb_entry body" "bp_block bp k' = k" using shape(8) by blast
    have at: "nth_opt (kb_blocks body) k' = Some (kb_blocks body ! k')" using k'(1) by simp
    with shape(5) [OF at k'(2) inside] b(1) k'(3) have "b = pushed_block bp (kb_blocks body ! k')" by (simp del: nth_opt_Some)
    then have "v \<in> set (bp_sequence bp (bb_instrs (kb_blocks body ! k')))" using b(2) by (simp add: pushed_block_def)
    then show ?thesis using listed_block [OF at] unfolding from_branch by blast
  qed
  then show "\<exists>op args classes. value_at merged' v = Some (Instr op args classes) \<and>
      (reaches_memory op \<longrightarrow> classes = [] \<or> leaves_memory mem op)"
  proof (elim disjE bexE)
    assume "v \<in> set (listed merged)"
    then obtain op args classes where at: "value_at merged v = Some (Instr op args classes)"
      and plain: "reaches_memory op \<longrightarrow> classes = [] \<or> leaves_memory mem op" using merged unfolding stores_plainly_def by blast
    have "value_at merged' v = value_at merged v"
      using at before [of "unat v"] by (simp add: value_at_def shape(1))
    then show ?thesis using at plain by metis
  next
    fix w assume w: "w \<in> set (listed body)" and v: "v = bp_ren bp w"
    obtain op args classes where at: "value_at body w = Some (Instr op args classes)"
      and plain: "reaches_memory op \<longrightarrow> classes = [] \<or> leaves_memory mem op" using branch w unfolding stores_plainly_def by blast
    have "nth_opt (bp_values bp) (unat v) = Some (branch_def (bp_ren bp) (bp_block bp) (bp_moved bp) w (Instr op args classes))"
      using own [of w] listed_params [OF placed at] at v by (simp add: value_at_def)
    then show ?thesis using plain shape(1) by (simp add: value_at_def branch_def_def Let_def del: nth_opt_Some)
  next
    fix w assume "bp_moved bp w = Some v"
    then obtain bits where "holds_const (bp_values bp) v bits" using moved by blast
    then show ?thesis using shape(1) by (simp add: value_at_def holds_const_def reaches_memory_def del: nth_opt_Some)
  qed
qed

section \<open>The first branch\<close>

lemma map_opt_le: "map_opt e xs = Some ys \<Longrightarrow> e \<subseteq>\<^sub>m e' \<Longrightarrow> map_opt e' xs = Some ys"
proof -
  assume all: "map_opt e xs = Some ys" and le: "e \<subseteq>\<^sub>m e'"
  have "e' x = Some y" if "e x = Some y" for x y using le that unfolding map_le_def by (metis domI)
  then show ?thesis using all by (simp add: map_opt_Some)
qed

lemma exec_mono:
  assumes "\<And>j op args classes. nth_opt table j = Some (Instr op args classes) \<Longrightarrow> nth_opt table' j = Some (Instr op args classes)"
  shows "exec_instrs fl tr mem table vs (e, s) = Some (f, s') \<Longrightarrow> e \<subseteq>\<^sub>m e' \<Longrightarrow>
    \<exists>f'. exec_instrs fl tr mem table' vs (e', s) = Some (f', s') \<and> f \<subseteq>\<^sub>m f'"
proof (induction vs arbitrary: e e' s)
  case (Cons v vs)
  obtain op args classes vals r s1 where v: "nth_opt table (unat v) = Some (Instr op args classes)"
    and vals: "map_opt e args = Some vals" and op: "exec_op fl tr mem op vals s = Some (r, s1)"
    and rest: "exec_instrs fl tr mem table vs (bind_result e v r, s1) = Some (f, s')"
    using Cons.prems(1) by (auto simp: exec_def_def bind_eq_Some_conv simp del: nth_opt_Some split: option.splits value_def.splits)
  have "bind_result e v r \<subseteq>\<^sub>m bind_result e' v r"
    using Cons.prems(2) by (auto simp: bind_result_def map_le_def split: option.split)
  then show ?case
    using Cons.IH [OF rest] assms [OF v] map_opt_le [OF vals Cons.prems(2)] op by (simp add: exec_def_def del: nth_opt_Some)
qed auto

lemma taken_le: "taken_branch e t = Some br \<Longrightarrow> e \<subseteq>\<^sub>m e' \<Longrightarrow> taken_branch e' t = Some br"
  by (cases t) (auto simp: bind_eq_Some_conv map_le_def dom_def)

lemma end_mono:
  assumes ends: "block_end fl tr mem body n t (e, s) = Some answer" and le: "e \<subseteq>\<^sub>m e'"
    and later: "\<And>br vals. taken_branch e t = Some br \<Longrightarrow> run_blocks fl tr mem body n (br_target br) vals (e, s) = Some answer \<Longrightarrow>
      run_blocks fl tr mem body' n (br_target br) vals (e', s) = Some answer"
  shows "block_end fl tr mem body' n t (e', s) = Some answer"
proof (cases "is_return t")
  case True
  then obtain vs where "t = Return vs" by (cases t) (simp_all add: is_return_def)
  then show ?thesis using ends map_opt_le [OF _ le] by auto
next
  case False
  then obtain br vals where br: "taken_branch e t = Some br" "map_opt e (br_args br) = Some vals"
    "run_blocks fl tr mem body n (br_target br) vals (e, s) = Some answer"
    using ends by (auto simp: block_end_taken bind_eq_Some_conv)
  then show ?thesis
    using False taken_le [OF br(1) le] map_opt_le [OF br(2) le] later [OF br(1,3)] by (simp add: block_end_taken)
qed

lemma run_mono:
  assumes table: "\<And>j op args classes. nth_opt (kb_values body) j = Some (Instr op args classes) \<Longrightarrow>
      nth_opt (kb_values body') j = Some (Instr op args classes)"
    and others: "\<And>k b. nth_opt (kb_blocks body) k = Some b \<Longrightarrow> k \<noteq> kb_entry body \<Longrightarrow> nth_opt (kb_blocks body') k = Some b"
    and left: "entry_left body"
  shows "k \<noteq> kb_entry body \<Longrightarrow> e \<subseteq>\<^sub>m e' \<Longrightarrow> run_blocks fl tr mem body n k args (e, s) = Some answer \<Longrightarrow>
    run_blocks fl tr mem body' n k args (e', s) = Some answer"
proof (induction n arbitrary: k e e' s args)
  case (Suc n)
  obtain b e1 s1 where b: "nth_opt (kb_blocks body) k = Some b" and len: "length args = length (bb_params b)"
    and instrs: "exec_instrs fl tr mem (kb_values body) (bb_instrs b) (e ++ map_of (zip (bb_params b) args), s) = Some (e1, s1)"
    and ends: "block_end fl tr mem body n (bb_terminator b) (e1, s1) = Some answer"
    using Suc.prems(3) by (auto simp: bind_eq_Some_conv run_blocks_Suc simp del: nth_opt_Some run_blocks.simps split: if_splits)
  have "e ++ map_of (zip (bb_params b) args) \<subseteq>\<^sub>m e' ++ map_of (zip (bb_params b) args)"
    using Suc.prems(2) by (auto simp: map_le_def map_add_def split: option.split)
  then obtain f where f: "exec_instrs fl tr mem (kb_values body') (bb_instrs b) (e' ++ map_of (zip (bb_params b) args), s) = Some (f, s1)"
    "e1 \<subseteq>\<^sub>m f" using exec_mono [OF table instrs] by blast
  have "block_end fl tr mem body' n (bb_terminator b) (f, s1) = Some answer"
    by (rule end_mono [OF ends f(2)], rule Suc.IH [OF entry_leftD [OF left b] f(2)])
  then show ?case
    using others [OF b Suc.prems(1)] len f(1) by (simp add: run_blocks_Suc del: nth_opt_Some run_blocks.simps)
qed simp

lemma run_entry_mono:
  assumes table: "\<And>j op args classes. nth_opt (kb_values body) j = Some (Instr op args classes) \<Longrightarrow>
      nth_opt (kb_values body') j = Some (Instr op args classes)"
    and others: "\<And>k b. nth_opt (kb_blocks body) k = Some b \<Longrightarrow> k \<noteq> kb_entry body \<Longrightarrow> nth_opt (kb_blocks body') k = Some b"
    and left: "entry_left body"
    and entry: "nth_opt (kb_blocks body) (kb_entry body) = Some b"
      "nth_opt (kb_blocks body') (kb_entry body') = Some (b\<lparr>bb_params := params'\<rparr>)"
    and len: "length args' = length params'"
    and le: "map_of (zip (bb_params b) args) \<subseteq>\<^sub>m map_of (zip params' args')"
    and run: "run_body fl tr mem body n args s = Some answer"
  shows "run_body fl tr mem body' n args' s = Some answer"
proof (cases n)
  case (Suc m)
  obtain e1 s1 where instrs: "exec_instrs fl tr mem (kb_values body) (bb_instrs b) (map_of (zip (bb_params b) args), s) = Some (e1, s1)"
    and ends: "block_end fl tr mem body m (bb_terminator b) (e1, s1) = Some answer"
    using run entry(1) Suc
    by (auto simp: run_body_def bind_eq_Some_conv run_blocks_Suc simp del: nth_opt_Some run_blocks.simps split: if_splits)
  obtain f where f: "exec_instrs fl tr mem (kb_values body') (bb_instrs b) (map_of (zip params' args'), s) = Some (f, s1)" "e1 \<subseteq>\<^sub>m f"
    using exec_mono [OF table instrs le] by blast
  have "block_end fl tr mem body' m (bb_terminator b) (f, s1) = Some answer"
    by (rule end_mono [OF ends f(2)], rule run_mono [OF table others left entry_leftD [OF left entry(1)] f(2)])
  then show ?thesis
    using entry(2) len f(1) Suc by (simp add: run_body_def run_blocks_Suc del: nth_opt_Some run_blocks.simps)
qed (use run in \<open>simp add: run_body_def\<close>)

text \<open>What splicing further scalars into a body leaves as it is.\<close>

definition spliced :: "kernel_body \<Rightarrow> value_id list \<Rightarrow> nat \<Rightarrow> nat \<Rightarrow> kernel_body \<Rightarrow> value_id list \<Rightarrow> bool" where
  "spliced body params own extra body' params' \<longleftrightarrow>
     length (kb_values body') = length (kb_values body) + extra \<and> kb_entry body' = kb_entry body \<and>
     (\<forall>j op args classes. nth_opt (kb_values body) j = Some (Instr op args classes) \<longrightarrow>
        nth_opt (kb_values body') j = Some (Instr op args classes)) \<and>
     (\<forall>k. k \<noteq> kb_entry body \<longrightarrow> nth_opt (kb_blocks body') k = nth_opt (kb_blocks body) k) \<and>
     length (kb_blocks body') = length (kb_blocks body) \<and>
     (\<forall>b. nth_opt (kb_blocks body) (kb_entry body) = Some b \<longrightarrow>
        nth_opt (kb_blocks body') (kb_entry body) = Some (b\<lparr>bb_params := params'\<rparr>)) \<and>
     length params' = own + 2 + extra \<and>
     (\<forall>i < own + 2. params' ! landed_slot i own 0 (own + extra) = params ! i) \<and> params_placed body'"

lemma splice_none:
  assumes "params_placed body" and "parameters body = Some params" and "length params = own + 2"
  shows "spliced body params own 0 body params"
  using assms by (auto simp: spliced_def landed_slot_def parameters_def less_Suc_eq)

lemma spliced_value_at:
  assumes "spliced_value entry own extra d = Some d'"
  shows "d = Instr op args classes \<Longrightarrow> d' = Instr op args classes"
    and "d = Block_param k i \<Longrightarrow> k \<noteq> entry \<or> \<not> of_nat own < i \<Longrightarrow> d' = Block_param k i"
    and "d = Block_param entry i \<Longrightarrow> of_nat own < i \<Longrightarrow> d' = Block_param entry (i + of_nat extra) \<and>
      unat i + unat (of_nat extra :: u32) < 2 ^ 32"
  using assms by (auto simp: spliced_value_def split: if_splits)

lemma splice_some:
  assumes splice: "splice_runtime_scalars body own extra = Some body'" and extra: "extra \<noteq> 0"
    and placed: "params_placed body" "parameters body = Some params" and len: "length params = own + 2"
    and small: "length (kb_values body) + extra < 2 ^ 32"
  shows "\<exists>params'. parameters body' = Some params' \<and> spliced body params own extra body' params'"
proof -
  let ?n = "length (kb_values body)"
  obtain table entry where table: "map_opt (spliced_value (kb_entry body) own extra) (kb_values body) = Some table"
    and entry: "nth_opt (kb_blocks body) (kb_entry body) = Some entry"
    and body': "body' = body\<lparr>
          kb_values := table @ map (\<lambda>ordinal. Block_param (kb_entry body) (of_nat (min (own + 1) (length (bb_params entry)) + ordinal))) [0..<extra],
          kb_blocks := (kb_blocks body)[kb_entry body := entry\<lparr>bb_params :=
            take (min (own + 1) (length (bb_params entry))) (bb_params entry) @ map (\<lambda>ordinal. of_nat (length table + ordinal)) [0..<extra] @
            drop (min (own + 1) (length (bb_params entry))) (bb_params entry)\<rparr>]\<rparr>"
    using splice extra by (auto simp: splice_runtime_scalars_def Let_def bind_eq_Some_conv simp del: nth_opt_Some)
  have ps: "bb_params entry = params" using placed(2) entry by (simp add: parameters_def del: nth_opt_Some)
  have at: "min (own + 1) (length params) = own + 1" using len by simp
  define params' where "params' = take (own + 1) params @ map (\<lambda>ordinal. of_nat (length table + ordinal)) [0..<extra] @ drop (own + 1) params"
  have n: "length table = ?n" and each: "j < ?n \<Longrightarrow> spliced_value (kb_entry body) own extra (kb_values body ! j) = Some (table ! j)" for j
    using table by (auto simp: map_opt_Some)
  have body'': "body' = body\<lparr>
      kb_values := table @ map (\<lambda>ordinal. Block_param (kb_entry body) (of_nat (own + 1 + ordinal))) [0..<extra],
      kb_blocks := (kb_blocks body)[kb_entry body := entry\<lparr>bb_params := params'\<rparr>]\<rparr>"
    using body' unfolding ps at params'_def .
  have e: "kb_entry body < length (kb_blocks body)" "kb_blocks body ! kb_entry body = entry" using entry by simp_all
  have slots: "params' ! landed_slot i own 0 (own + extra) = params ! i" if "i < own + 2" for i
    using that len by (auto simp: params'_def landed_slot_def nth_append less_Suc_eq)
  have length': "length params' = own + 2 + extra" using len by (simp add: params'_def)
  have old: "value_at body' p = Some d'" if "value_at body p = Some d" "spliced_value (kb_entry body) own extra d = Some d'" for p d d'
    using that each [of "unat p"] n by (auto simp: value_at_def body'' nth_append)
  have "params_placed body'"
  proof (rule params_placedI)
    show "length (kb_values body') < 2 ^ 32" using small n by (simp add: body'')
    fix k b i p assume b: "nth_opt (kb_blocks body') k = Some b" and p: "nth_opt (bb_params b) i = Some p"
    have spliced: "\<exists>d'. spliced_value (kb_entry body) own extra d = Some d'" if "value_at body q = Some d" for q d
      using that each [of "unat q"] by (auto simp: value_at_def)
    show "value_at body' p = Some (Block_param k (of_nat i)) \<and> i < 2 ^ 32"
    proof (cases "k = kb_entry body")
      case False
      then have "nth_opt (kb_blocks body) k = Some b" using b by (simp add: body'' nth_opt_def split: if_splits)
      note at_p = params_placedD [OF placed(1) this p]
      obtain d' where "spliced_value (kb_entry body) own extra (Block_param k (of_nat i)) = Some d'" using spliced [OF at_p(1)] by blast
      then show ?thesis using old [OF at_p(1)] spliced_value_at(2) False at_p(2) by metis
    next
      case True
      then have pi: "i < own + 2 + extra" "p = params' ! i"
        using b p e length' by (auto simp: body'' nth_opt_def split: if_splits)
      consider "i < own + 1" | "own + 1 \<le> i" "i < own + 1 + extra" | "i = own + 1 + extra" using pi(1) by linarith
      then show ?thesis
      proof cases
        case 1
        then have at_p: "value_at body p = Some (Block_param (kb_entry body) (of_nat i))" "i < 2 ^ 32"
          using params_placedD [OF placed(1) entry, of i p] ps len pi(2) by (simp_all add: params'_def nth_append)
        obtain d' where d': "spliced_value (kb_entry body) own extra (Block_param (kb_entry body) (of_nat i)) = Some d'"
          using spliced [OF at_p(1)] by blast
        have "own + 1 < 2 ^ 32" using params_placedD(2) [OF placed(1) entry, of "own + 1"] ps len by simp
        then have "\<not> (of_nat own :: u32) < of_nat i"
          using 1 at_p(2) by (simp add: word_less_nat_alt unat_of_nat_u32)
        then show ?thesis using old [OF at_p(1) d'] spliced_value_at(2) [OF d' refl] at_p(2) True by simp
      next
        case 2
        moreover from this obtain j where "i = own + 1 + j" using le_Suc_ex by blast
        ultimately have "\<exists>j < extra. i = own + 1 + j" by auto
        then obtain j where j: "i = own + 1 + j" "j < extra" by blast
        then have pj: "p = of_nat (?n + j)"
          using pi(2) len n by (simp add: params'_def nth_append)
        moreover have unat_p: "unat p = ?n + j" unfolding pj using j(2) small by (intro unat_of_nat_u32) simp
        moreover have "i < 2 ^ 32"
        proof -
          have "length params \<le> ?n"
          proof -
            have "set params \<subseteq> (of_nat :: nat \<Rightarrow> u32) ` {..<?n}"
              using entry_params_placed(3) [OF placed] by (auto intro!: image_eqI [of _ _ "unat _"])
            then have "card (set params) \<le> ?n" using surj_card_le [of "{..<?n}"] by simp
            then show ?thesis using entry_params_placed(1) [OF placed] by (simp add: distinct_card)
          qed
          then show ?thesis using 2 small len by simp
        qed
        ultimately show ?thesis using j True n by (simp add: value_at_def body'' nth_append unat_p)
      next
        case 3
        have at_p: "value_at body p = Some (Block_param (kb_entry body) (of_nat (own + 1)))" "own + 1 < 2 ^ 32"
          using params_placedD [OF placed(1) entry, of "own + 1" p] ps len pi(2) 3 by (simp_all add: params'_def nth_append)
        obtain d' where d': "spliced_value (kb_entry body) own extra (Block_param (kb_entry body) (of_nat (own + 1))) = Some d'"
          using spliced [OF at_p(1)] by blast
        have "unat (of_nat (own + 1) :: u32) = own + 1" "unat (of_nat own :: u32) = own"
          using at_p(2) by (simp_all add: unat_of_nat_u32 del: of_nat_add of_nat_Suc)
        moreover have "unat (of_nat extra :: u32) = extra" using small by (simp add: unat_of_nat_u32)
        ultimately have "d' = Block_param (kb_entry body) (of_nat (own + 1) + of_nat extra)" "own + 1 + extra < 2 ^ 32"
          using spliced_value_at(3) [OF d' refl] by (simp_all add: word_less_nat_alt del: of_nat_add of_nat_Suc)
        then show ?thesis using old [OF at_p(1) d'] True 3 by (simp add: ac_simps)
      qed
    qed
  qed
  moreover have "table ! j = Instr op args classes" if "j < ?n" "kb_values body ! j = Instr op args classes" for j op args classes
    using spliced_value_at(1) [OF each [OF that(1)] that(2)] .
  ultimately show ?thesis
    using slots length' n e entry
    by (auto simp: spliced_def body'' parameters_def nth_opt_def nth_append)
qed

section \<open>One more branch\<close>

text \<open>The scalars a branch binds: the extent, its own, and the index.\<close>

definition own_args :: "scalar_union \<Rightarrow> nat \<Rightarrow> kval list \<Rightarrow> kval list" where
  "own_args u index args =
     (case (union_own u index, union_before u index) of
        (Some own, Some earlier) \<Rightarrow> map (\<lambda>slot. args ! landed_slot slot own earlier (scalar_total u)) [0..<own + 2]
      | _ \<Rightarrow> [])"

text \<open>What a branch has to keep to.\<close>

definition branch_ready :: "'s mem \<Rightarrow> kernel_fragment \<Rightarrow> bool" where
  "branch_ready mem f \<longleftrightarrow> params_placed (kf_body f) \<and> positions_named f \<and> stores_plainly mem (kf_body f)"

definition room :: "kernel_fragment \<Rightarrow> nat" where
  "room f = length (kb_values (kf_body f)) + length (listed (kf_body f)) + 1"

definition merge_ok :: "'s mem \<Rightarrow> value_id list \<Rightarrow> merge_state \<Rightarrow> bool" where
  "merge_ok mem first_params ms \<longleftrightarrow> lands_on (ms_body ms) first_params (ms_landing ms) \<and>
     stores_plainly mem (ms_body ms) \<and> ms_blocks_base ms = length (kb_blocks (ms_body ms))"

lemma union_slots:
  assumes "union_own u index = Some own"
  shows "\<exists>earlier. union_before u index = Some earlier \<and> earlier + own \<le> scalar_total u"
proof -
  have i: "index < length (su_counts u)" "su_counts u ! index = own" using assms by (simp_all add: union_own_def)
  have "sum_list (su_counts u) = sum_list (take (Suc index) (su_counts u)) + sum_list (drop (Suc index) (su_counts u))"
    by (metis append_take_drop_id sum_list_append)
  then show ?thesis using i by (simp add: union_before_def scalar_total_def take_Suc_conv_app_nth)
qed

lemma merge_branch_Ok:
  assumes "merge_branch u first_params port first_body (index, edge) ms = Ok ms'"
  obtains bp body returned where "plan_branch u first_params port index edge ms = Some bp"
    "land_branch bp (kf_body (ed_fragment edge)) (ms_landing ms) (ms_body ms) = Some body"
    "returns_of (kf_body (ed_fragment edge)) = Ok returned"
    "ms_body ms' = body" "ms_landing ms' = bp_block bp returned"
    "ms_union ms' = ms_union ms + (kf_inputs (ed_fragment edge) - 1)"
    "ms_outputs ms' = ms_outputs ms + kf_outputs (ed_fragment edge)"
    "ms_blocks_base ms' = ms_blocks_base ms + (length (kb_blocks (kf_body (ed_fragment edge))) - 1)"
  using assms that by (auto simp: merge_branch_def Let_def split: if_splits)

lemma merge_branch_runs:
  assumes merge: "merge_branch u first_params port first_body (index, edge) ms = Ok ms'"
    and edge: "edge_of first ports branch = Ok edge" and ready: "branch_ready mem (ed_fragment edge)"
    and params: "parameters (kf_body (ed_fragment edge)) = Some params" "length params = own + 2"
    and own: "union_own u index = Some own" and len: "length first_params = scalar_total u + 2"
    and ok: "merge_ok mem first_params ms"
    and size: "length (kb_values (ms_body ms)) + room (ed_fragment edge) < 2 ^ 32"
    and few: "ms_union ms + kf_inputs (ed_fragment edge) < 2 ^ 33" "kf_inputs (ed_fragment edge) < 2 ^ 32" "port < 2 ^ 33"
      "ms_outputs ms + kf_outputs (ed_fragment edge) < 2 ^ 33"
  shows "merge_ok mem first_params ms'"
    and "length (kb_values (ms_body ms')) \<le> length (kb_values (ms_body ms)) + room (ed_fragment edge)"
    and "run_body fl tr mem (ms_body ms) n xs s0 = Some (vals, s) \<Longrightarrow> length xs = scalar_total u + 2 \<Longrightarrow>
      run_body fl tr (branch_view mem port (ed_shared edge) (ms_union ms) (ms_outputs ms)) (kf_body (ed_fragment edge)) n'
        (own_args u index xs) s = Some answer \<Longrightarrow>
      \<exists>j. run_body fl tr mem (ms_body ms') j xs s0 = Some answer"
proof -
  let ?body = "kf_body (ed_fragment edge)"
  note known = edge_of_Ok [OF edge]
  obtain bp merged' returned where plan: "plan_branch u first_params port index edge ms = Some bp"
    and land: "land_branch bp ?body (ms_landing ms) (ms_body ms) = Some merged'"
    and returned: "returns_of ?body = Ok returned" and body': "ms_body ms' = merged'"
    and landing': "ms_landing ms' = bp_block bp returned"
    and base': "ms_blocks_base ms' = ms_blocks_base ms + (length (kb_blocks ?body) - 1)"
    using merge_branch_Ok [OF merge] by metis
  note ok = ok [unfolded merge_ok_def]
  obtain earlier where earlier: "union_before u index = Some earlier" "earlier + own \<le> scalar_total u"
    using union_slots [OF own] by blast
  have on: "lands_on (ms_body ms) first_params (ms_landing ms)" using ok by blast
  note onD = on [unfolded lands_on_def]
  have placed: "params_placed ?body" using ready by (simp add: branch_ready_def)
  have left: "entry_left ?body" using known(6) by (rule branch_targeting_None)
  have fits: "branch_fits u first_params index edge (ms_body ms) own earlier params"
    using own earlier len entry_params_placed [of "ms_body ms" first_params] onD placed params known(8,9) size
    by (simp add: branch_fits_def room_def)
  note lands = plan_lands [OF fits plan refl]
  have block: "bp_block bp = branch_block (kb_entry ?body) (ms_landing ms) (length (kb_blocks (ms_body ms)))"
    using plan_branch_Some [OF plan params(1)] ok by metis
  note shape = land_branch_blocks [OF land block]
  have grown: "length (bp_values bp) \<le> length (kb_values (ms_body ms)) + room (ed_fragment edge)"
    using lands(2) by (simp add: room_def)
  then have small: "length (bp_values bp) < 2 ^ 32" using size by linarith
  show "length (kb_values (ms_body ms')) \<le> length (kb_values (ms_body ms)) + room (ed_fragment edge)"
    using grown shape(1) body' by simp
  have landed: "nth_opt (bp_values bp) (unat (bp_ren bp v)) =
      Some (branch_def (bp_ren bp) (bp_block bp) (bp_moved bp) v (kb_values ?body ! unat v))"
    if "unat v < length (kb_values ?body)" "v \<notin> set params" for v using lands(5) [OF that] by blast
  show "merge_ok mem first_params ms'"
    unfolding merge_ok_def body' landing'
  proof (intro conjI)
    show "lands_on merged' first_params (bp_block bp returned)"
      by (rule land_keeps [OF on land block lands(1) small landed placed params(1) left returned])
    show "stores_plainly mem merged'"
    proof (rule land_stores_plainly [OF _ _ land block lands(1) landed _ placed params(1)])
      show "\<exists>bits. holds_const (bp_values bp) c bits" if "bp_moved bp v = Some c" for v c using lands(7) [OF that] by blast
    qed (use ok onD ready in \<open>auto simp: branch_ready_def\<close>)
    show "ms_blocks_base ms' = length (kb_blocks merged')" using base' ok shape(7) by simp
  qed
  assume run: "run_body fl tr mem (ms_body ms) n xs s0 = Some (vals, s)" and xs: "length xs = scalar_total u + 2"
    and branch: "run_body fl tr (branch_view mem port (ed_shared edge) (ms_union ms) (ms_outputs ms)) ?body n'
        (own_args u index xs) s = Some answer"
  have edge_fine: "edge_ok edge params port (ms_union ms) (ms_outputs ms)"
    using known(8) ready params(1) few by (simp add: edge_ok_def branch_ready_def)
  have plan_fine: "plan_ok bp edge params port (ms_union ms) (ms_outputs ms)"
    unfolding plan_ok_def using landed lands(6,7,8) by blast
  obtain entry where entry: "nth_opt (kb_blocks ?body) (kb_entry ?body) = Some entry" using shape(6) by blast
  have inside: "ms_landing ms < length (kb_blocks (ms_body ms))" using onD by blast
  have args: "own_args u index xs = map (\<lambda>slot. xs ! landed_slot slot own earlier (scalar_total u)) [0..<own + 2]"
    using own earlier by (simp add: own_args_def)
  obtain m' where m': "n' = Suc m'" using branch by (cases n') (simp_all add: run_body_def)
  have behind: "Option.bind (exec_instrs fl tr mem (kb_values merged') (bp_sequence bp (bb_instrs entry)) (m, s))
      (block_end fl tr mem merged' m' (mapped_terminator (bp_ren bp) (bp_block bp) (bb_terminator entry))) = Some answer"
    if given: "\<forall>i < length first_params. m (first_params ! i) = Some (xs ! i)" for m
    unfolding shape(1)
  proof (rule run_landed [OF edge_fine plan_fine refl shape(1) left _ entry])
    show "nth_opt (kb_blocks merged') (bp_block bp k) = Some (pushed_block bp b)"
      if "nth_opt (kb_blocks ?body) k = Some b" "k \<noteq> kb_entry ?body" for k b using shape(5) [OF that inside] by blast
    show "run_blocks fl tr (branch_view mem port (ed_shared edge) (ms_union ms) (ms_outputs ms)) ?body (Suc m') (kb_entry ?body)
        (own_args u index xs) (Map.empty, s) = Some answer" using branch m' by (simp add: run_body_def)
    fix i assume "i < length (own_args u index xs)"
    then have i: "i < own + 2" by (simp add: args)
    then have "landed_slot i own earlier (scalar_total u) < length first_params" using len earlier(2) by (auto simp: landed_slot_def)
    then show "m (bp_ren bp (params ! i)) = Some (own_args u index xs ! i)"
      using lands(4) [OF i] given i by (simp add: args del: upt_Suc)
  qed
  have "\<exists>j. run_blocks fl tr mem merged' j (kb_entry (ms_body ms)) xs (Map.empty, s0) = Some answer"
  proof (rule run_merged [OF on _ _ _ _ behind])
    show "length xs = length first_params" using xs len by simp
    show "nth_opt (kb_blocks merged') k = Some b" if "nth_opt (kb_blocks (ms_body ms)) k = Some b" "k \<noteq> ms_landing ms" for k b
      using that shape(3) [of k] by (simp add: nth_opt_def split: if_splits)
    show "nth_opt (kb_blocks merged') (ms_landing ms) = Some (landed_block bp old entry)"
      if "nth_opt (kb_blocks (ms_body ms)) (ms_landing ms) = Some old" for old using shape(4) [OF that entry] .
    show "nth_opt (kb_values merged') j = nth_opt (kb_values (ms_body ms)) j" if "j < length (kb_values (ms_body ms))" for j
      using lands(1) [OF that] shape(1) by simp
    show "run_blocks fl tr mem (ms_body ms) n (kb_entry (ms_body ms)) xs (Map.empty, s0) = Some (vals, s)"
      using run by (simp add: run_body_def)
  qed simp_all
  then show "\<exists>j. run_body fl tr mem (ms_body ms') j xs s0 = Some answer"
    unfolding run_body_def body' shape(2) .
qed

section \<open>The merge\<close>

lemma spliced_keeps:
  assumes spliced: "spliced body params own extra body' params'" and entry: "parameters body = Some params"
  shows "parameters body' = Some params'"
    and "entry_left body \<Longrightarrow> entry_left body'"
    and "stores_plainly mem body \<Longrightarrow> stores_plainly mem body'"
    and "nth_opt (kb_blocks body') k = Some b' \<Longrightarrow> \<exists>b. nth_opt (kb_blocks body) k = Some b \<and>
      bb_instrs b' = bb_instrs b \<and> bb_terminator b' = bb_terminator b"
proof -
  note facts = spliced [unfolded spliced_def]
  obtain eb where eb: "nth_opt (kb_blocks body) (kb_entry body) = Some eb" "bb_params eb = params"
    using entry by (auto simp: parameters_def simp del: nth_opt_Some)
  show "parameters body' = Some params'" using facts eb by (simp add: parameters_def del: nth_opt_Some)
  have at: "\<exists>b. nth_opt (kb_blocks body) k = Some b \<and> bb_instrs b' = bb_instrs b \<and> bb_terminator b' = bb_terminator b"
    if "nth_opt (kb_blocks body') k = Some b'" for k b'
    using that facts eb(1) by (cases "k = kb_entry body") (auto simp del: nth_opt_Some)
  show "nth_opt (kb_blocks body') k = Some b' \<Longrightarrow> \<exists>b. nth_opt (kb_blocks body) k = Some b \<and>
      bb_instrs b' = bb_instrs b \<and> bb_terminator b' = bb_terminator b" by (rule at)
  show "entry_left body'" if left: "entry_left body"
    unfolding entry_left_def
  proof (intro ballI)
    fix b' br assume "b' \<in> set (kb_blocks body')" "br \<in> set (branches b')"
    then obtain k where k: "nth_opt (kb_blocks body') k = Some b'" by (auto simp: in_set_conv_nth)
    then obtain b where b: "nth_opt (kb_blocks body) k = Some b" "bb_terminator b' = bb_terminator b" using at by blast
    then have "b \<in> set (kb_blocks body)" by auto
    then show "br_target br \<noteq> kb_entry body'"
      using left b(2) \<open>br \<in> set (branches b')\<close> facts by (auto simp: entry_left_def branches_def)
  qed
  show "stores_plainly mem body'" if plain: "stores_plainly mem body"
    unfolding stores_plainly_def
  proof
    fix v assume "v \<in> set (listed body')"
    then obtain k b' where "nth_opt (kb_blocks body') k = Some b'" "v \<in> set (bb_instrs b')" by (auto simp: listed_iff)
    then obtain b where "nth_opt (kb_blocks body) k = Some b" "v \<in> set (bb_instrs b)" using at by metis
    then have "v \<in> set (listed body)" by (auto simp: listed_iff)
    then obtain op args classes where "value_at body v = Some (Instr op args classes)"
      and quiet: "reaches_memory op \<longrightarrow> classes = [] \<or> leaves_memory mem op" using plain unfolding stores_plainly_def by blast
    moreover from this(1) have "value_at body' v = Some (Instr op args classes)"
      using facts unfolding value_at_def by blast
    ultimately show "\<exists>op args classes. value_at body' v = Some (Instr op args classes) \<and>
        (reaches_memory op \<longrightarrow> classes = [] \<or> leaves_memory mem op)" by blast
  qed
qed

lemma spliced_runs:
  assumes spliced: "spliced body params own extra body' params'" and entry: "parameters body = Some params"
    and left: "entry_left body" and len: "length params = own + 2" "length xs = own + extra + 2"
    and run: "run_body fl tr mem body n (map (\<lambda>slot. xs ! landed_slot slot own 0 (own + extra)) [0..<own + 2]) s = Some answer"
  shows "run_body fl tr mem body' n xs s = Some answer"
proof -
  note facts = spliced [unfolded spliced_def]
  obtain eb where eb: "nth_opt (kb_blocks body) (kb_entry body) = Some eb" "bb_params eb = params"
    using entry by (auto simp: parameters_def simp del: nth_opt_Some)
  have distinct: "distinct params'"
    using entry_params_placed(1) facts spliced_keeps(1) [OF spliced entry] by blast
  have "map_of (zip params (map (\<lambda>slot. xs ! landed_slot slot own 0 (own + extra)) [0..<own + 2])) \<subseteq>\<^sub>m map_of (zip params' xs)"
    unfolding map_le_def
  proof
    fix v assume "v \<in> dom (map_of (zip params (map (\<lambda>slot. xs ! landed_slot slot own 0 (own + extra)) [0..<own + 2])))"
    then obtain x where x: "map_of (zip params (map (\<lambda>slot. xs ! landed_slot slot own 0 (own + extra)) [0..<own + 2])) v = Some x"
      by blast
    then obtain i where i: "i < own + 2" "v = params ! i" "x = xs ! landed_slot i own 0 (own + extra)"
      using map_of_SomeD [OF x] len(1) by (auto simp: set_zip simp del: upt_Suc)
    let ?slot = "landed_slot i own 0 (own + extra)"
    have slot: "?slot < length params'" "length params' = length xs" using i(1) facts len by (auto simp: landed_slot_def)
    have "params' ! ?slot = v" using facts i(1,2) by blast
    then have "map_of (zip params' xs) v = Some x"
      using map_of_zip_nth [OF slot(2) distinct] slot i(3) by metis
    then show "map_of (zip params (map (\<lambda>slot. xs ! landed_slot slot own 0 (own + extra)) [0..<own + 2])) v = map_of (zip params' xs) v"
      using x by simp
  qed
  then show ?thesis
    using facts eb len
    by (intro run_entry_mono [OF _ _ left eb(1) _ _ _ run, where params' = params']) auto
qed

text \<open>
  The branches, one after another: each on its own scalars, the first on the memory itself, a later one
  on its view of it. The values answered are those of the last branch.
\<close>

fun run_rest :: "f32_ops \<Rightarrow> (kernel_instr \<Rightarrow> f32 \<Rightarrow> f32 option) \<Rightarrow> 's mem \<Rightarrow> scalar_union \<Rightarrow> nat \<Rightarrow> nat \<Rightarrow> kval list \<Rightarrow>
    nat \<Rightarrow> nat \<Rightarrow> nat \<Rightarrow> sibling list \<Rightarrow> kval list \<times> 's \<Rightarrow> (kval list \<times> 's) option" where
  "run_rest fl tr mem u port n args index base outputs [] answer = Some answer"
| "run_rest fl tr mem u port n args index base outputs (b # bs) (vals, s) =
     Option.bind (run_body fl tr (branch_view mem port (unat (sb_shared b)) base outputs) (kf_body (sb_fragment b)) n
       (own_args u index args) s)
     (run_rest fl tr mem u port n args (Suc index) (base + (kf_inputs (sb_fragment b) - 1))
       (outputs + kf_outputs (sb_fragment b)) bs)"

definition run_siblings :: "f32_ops \<Rightarrow> (kernel_instr \<Rightarrow> f32 \<Rightarrow> f32 option) \<Rightarrow> 's mem \<Rightarrow> sibling list \<Rightarrow> nat \<Rightarrow> kval list \<Rightarrow>
    's \<Rightarrow> (kval list \<times> 's) option" where
  "run_siblings fl tr mem siblings n args s =
     (case (siblings, scalar_union_of (map (\<lambda>b. kf_param_shape (sb_fragment b)) siblings)) of
        (b # bs, Some u) \<Rightarrow>
          Option.bind (run_body fl tr mem (kf_body (sb_fragment b)) n (own_args u 0 args) s)
            (run_rest fl tr mem u (unat (sb_shared b)) n args 1 (kf_inputs (sb_fragment b)) (kf_outputs (sb_fragment b)) bs)
      | _ \<Rightarrow> None)"

lemma merge_fold_runs:
  assumes "list_all2 (\<lambda>b edge. edge_of first ports b = Ok edge) bs es"
    and "fold_res (merge_branch u first_params port first_body) (enumerate k es) ms = Ok ms'"
    and "\<forall>b \<in> set bs. branch_ready mem (sb_fragment b) \<and> kf_inputs (sb_fragment b) < 2 ^ 32"
    and "\<forall>i < length bs. \<exists>own params. union_own u (k + i) = Some own \<and>
      parameters (kf_body (sb_fragment (bs ! i))) = Some params \<and> length params = own + 2"
    and "length first_params = scalar_total u + 2" and "merge_ok mem first_params ms"
    and "length (kb_values (ms_body ms)) + sum_list (map (\<lambda>b. room (sb_fragment b)) bs) < 2 ^ 32"
    and "ms_union ms + sum_list (map (\<lambda>b. kf_inputs (sb_fragment b)) bs) < 2 ^ 33" "port < 2 ^ 33"
    and "ms_outputs ms + sum_list (map (\<lambda>b. kf_outputs (sb_fragment b)) bs) < 2 ^ 33"
    and "length xs = scalar_total u + 2" and "run_body fl tr mem (ms_body ms) n xs s0 = Some answer"
    and "run_rest fl tr mem u port n' xs k (ms_union ms) (ms_outputs ms) bs answer = Some final"
  shows "merge_ok mem first_params ms' \<and> (\<exists>j. run_body fl tr mem (ms_body ms') j xs s0 = Some final)"
  using assms
proof (induction bs es arbitrary: k ms n answer rule: list_all2_induct)
  case (Cons b bs edge es)
  obtain vals s where answer: "answer = (vals, s)" by (cases answer)
  obtain mid where mid: "merge_branch u first_params port first_body (k, edge) ms = Ok mid"
    and rest: "fold_res (merge_branch u first_params port first_body) (enumerate (Suc k) es) mid = Ok ms'"
    using Cons.prems(1) by auto
  have fragment: "ed_fragment edge = sb_fragment b" "ed_shared edge = unat (sb_shared b)" using edge_of_Ok(1,2) [OF Cons.hyps(1)] .
  obtain own params where own: "union_own u k = Some own" "parameters (kf_body (ed_fragment edge)) = Some params" "length params = own + 2"
    using Cons.prems(3) [rule_format, of 0] fragment by auto
  obtain answer1 where run: "run_body fl tr (branch_view mem port (ed_shared edge) (ms_union ms) (ms_outputs ms))
      (kf_body (ed_fragment edge)) n' (own_args u k xs) s = Some answer1"
    and more: "run_rest fl tr mem u port n' xs (Suc k) (ms_union ms + (kf_inputs (sb_fragment b) - 1))
      (ms_outputs ms + kf_outputs (sb_fragment b)) bs answer1 = Some final"
    using Cons.prems(12) fragment answer by (auto simp: bind_eq_Some_conv)
  obtain "ms_union mid = ms_union ms + (kf_inputs (sb_fragment b) - 1)" "ms_outputs mid = ms_outputs ms + kf_outputs (sb_fragment b)"
    using merge_branch_Ok [OF mid] fragment(1) by metis
  note mid_fields = this
  have ready: "branch_ready mem (ed_fragment edge)" "kf_inputs (ed_fragment edge) < 2 ^ 32" using Cons.prems(2) fragment by simp_all
  have size: "length (kb_values (ms_body ms)) + room (ed_fragment edge) < 2 ^ 32"
    "ms_union ms + kf_inputs (ed_fragment edge) < 2 ^ 33" "ms_outputs ms + kf_outputs (ed_fragment edge) < 2 ^ 33"
    using Cons.prems(6,7,9) fragment(1) by simp_all
  note one = merge_branch_runs [OF mid Cons.hyps(1) ready(1) own(2,3,1) Cons.prems(4,5) size(1,2) ready(2) Cons.prems(8) size(3)]
  obtain j where j: "run_body fl tr mem (ms_body mid) j xs s0 = Some answer1"
    using one(3) [OF _ Cons.prems(10) run] Cons.prems(11) answer by blast
  show ?case
  proof (rule Cons.IH [OF rest _ _ Cons.prems(4) one(1) _ _ Cons.prems(8) _ Cons.prems(10) j])
    show "\<forall>b \<in> set bs. branch_ready mem (sb_fragment b) \<and> kf_inputs (sb_fragment b) < 2 ^ 32" using Cons.prems(2) by simp
    show "\<forall>i < length bs. \<exists>own params. union_own u (Suc k + i) = Some own \<and>
        parameters (kf_body (sb_fragment (bs ! i))) = Some params \<and> length params = own + 2"
      using Cons.prems(3) by (metis Suc_less_eq add_Suc_shift length_Cons nth_Cons_Suc)
    show "length (kb_values (ms_body mid)) + sum_list (map (\<lambda>b. room (sb_fragment b)) bs) < 2 ^ 32"
      using one(2) Cons.prems(6) fragment(1) by simp
    show "ms_union mid + sum_list (map (\<lambda>b. kf_inputs (sb_fragment b)) bs) < 2 ^ 33"
      using Cons.prems(7) mid_fields(1) by simp
    show "ms_outputs mid + sum_list (map (\<lambda>b. kf_outputs (sb_fragment b)) bs) < 2 ^ 33"
      using Cons.prems(9) mid_fields(2) by simp
    show "run_rest fl tr mem u port n' xs (Suc k) (ms_union mid) (ms_outputs mid) bs answer1 = Some final"
      using more mid_fields by simp
  qed
qed auto

lemma stores_plainly_drops:
  assumes "stores_plainly mem body"
  shows "drops_quietly mem body marks entry"
  unfolding drops_quietly_def
proof (intro ballI allI impI)
  fix block v op args classes
  assume block: "block \<in> set (kb_blocks body)" and v: "v \<in> set (bb_instrs block)"
    and at: "value_at body v = Some (Instr op args classes)" and reaches: "reaches_memory op"
  have "v \<in> set (listed body)" using block v by (auto simp: listed_def)
  then have "classes = [] \<or> leaves_memory mem op" using assms at reaches unfolding stores_plainly_def by force
  then show "needed body marks entry v \<or> leaves_memory mem op"
  proof
    assume "classes = []"
    then have "v \<in> set (compact_roots body marks entry)"
      using block v at by (auto simp: compact_roots_def leaves_nothing_def)
    then show ?thesis using needed_root by blast
  qed simp
qed

lemma exact_irrelevant [simp]:
  "params_placed (body\<lparr>kb_exact := x\<rparr>) = params_placed body" "parameters (body\<lparr>kb_exact := x\<rparr>) = parameters body"
  "entry_left (body\<lparr>kb_exact := x\<rparr>) = entry_left body" "stores_plainly mem (body\<lparr>kb_exact := x\<rparr>) = stores_plainly mem body"
  by (simp_all add: params_placed_def value_at_def parameters_def entry_left_def stores_plainly_def listed_def)

lemma exact_run [simp]: "run_blocks fl tr mem (body\<lparr>kb_exact := x\<rparr>) n k args st = run_blocks fl tr mem body n k args st"
proof (induction n arbitrary: k args st)
  case (Suc n)
  have "block_end fl tr mem (body\<lparr>kb_exact := x\<rparr>) n t = block_end fl tr mem body n t" for t
    by (auto simp: block_end_def fun_eq_iff Suc split: terminator.split)
  then show ?case by (cases st) (simp add: run_blocks_Suc del: run_blocks.simps cong: if_cong)
qed simp

text \<open>
  The body the loop starts with: the first branch with the scalars of the others spliced in.
\<close>

lemma merge_start_runs:
  assumes start: "merge_start siblings edges u = Ok (first_params, ms)" and edge: "edge_of f ports b = Ok (hd edges)"
    and ready: "branch_ready mem (sb_fragment b)"
    and own: "union_own u 0 = Some own" "parameters (kf_body (sb_fragment b)) = Some params" "length params = own + 2"
    and small: "length (kb_values (kf_body (sb_fragment b))) + scalar_total u < 2 ^ 32"
  shows "merge_ok mem first_params ms" "length first_params = scalar_total u + 2"
    and "length (kb_values (ms_body ms)) \<le> length (kb_values (kf_body (sb_fragment b))) + scalar_total u"
    and "length xs = scalar_total u + 2 \<Longrightarrow> run_body fl tr mem (kf_body (sb_fragment b)) n (own_args u 0 xs) s = Some answer \<Longrightarrow>
      run_body fl tr mem (ms_body ms) n xs s = Some answer"
proof -
  note known = edge_of_Ok [OF edge]
  define exact where "exact = list_ex (\<lambda>b. kb_exact (kf_body (sb_fragment b))) siblings"
  define body where "body = (kf_body (sb_fragment b))\<lparr>kb_exact := exact\<rparr>"
  obtain start' landing where splice: "splice_runtime_scalars body own (scalar_total u - own) = Some start'"
    and first_params: "parameters start' = Some first_params" and returns: "returns_of (kf_body (sb_fragment b)) = Ok landing"
    and ms: "ms_body ms = start'" "ms_landing ms = landing" "ms_blocks_base ms = length (kb_blocks start')"
    using start own(1) by (rule_tac merge_start_Ok [OF start]) (auto simp: body_def exact_def known(1))
  have placed: "params_placed body" "parameters body = Some params" and plain: "stores_plainly mem body"
    using ready own(2) by (simp_all add: body_def branch_ready_def)
  have left: "entry_left body" using branch_targeting_None [OF known(6)] by (simp add: body_def known(1))
  have "union_before u 0 = Some 0" by (simp add: union_before_def)
  then have total: "own \<le> scalar_total u" using union_slots [OF own(1)] by auto
  have spliced: "spliced body params own (scalar_total u - own) start' first_params"
  proof (cases "scalar_total u - own = 0")
    case True
    then show ?thesis using splice splice_none [OF placed own(3)] placed(2) first_params
      by (simp add: splice_runtime_scalars_def)
  next
    case False
    have "length (kb_values body) + (scalar_total u - own) < 2 ^ 32" using small by (simp add: body_def)
    from splice_some [OF splice False placed own(3) this] show ?thesis using first_params by auto
  qed
  note kept = spliced_keeps [OF spliced placed(2)] and facts = spliced [unfolded spliced_def]
  show "length first_params = scalar_total u + 2" using facts total by simp
  show "length (kb_values (ms_body ms)) \<le> length (kb_values (kf_body (sb_fragment b))) + scalar_total u"
    using facts ms(1) by (simp add: body_def)
  have "lands_on start' first_params landing"
    unfolding lands_on_def
  proof (intro conjI allI impI)
    show "params_placed start'" "parameters start' = Some first_params" "entry_left start'"
      using facts first_params kept(2) left by blast+
    show "landing < length (kb_blocks start')" using returns_of_Ok(1) [OF returns] facts by (simp add: body_def)
    fix k b' assume "nth_opt (kb_blocks start') k = Some b'"
    then obtain old where "nth_opt (kb_blocks body) k = Some old" "bb_terminator b' = bb_terminator old" using kept(4) by blast
    then show "is_return (bb_terminator b') \<longleftrightarrow> k = landing" using returns_of_Ok(2) [OF returns] by (simp add: body_def del: nth_opt_Some)
  qed
  then show "merge_ok mem first_params ms" using kept(3) plain ms by (simp add: merge_ok_def)
  assume xs: "length xs = scalar_total u + 2" and run: "run_body fl tr mem (kf_body (sb_fragment b)) n (own_args u 0 xs) s = Some answer"
  have "own_args u 0 xs = map (\<lambda>slot. xs ! landed_slot slot own 0 (own + (scalar_total u - own))) [0..<own + 2]"
    using own(1) total by (simp add: own_args_def union_before_def del: upt_Suc)
  then have "run_body fl tr mem body n (map (\<lambda>slot. xs ! landed_slot slot own 0 (own + (scalar_total u - own))) [0..<own + 2]) s = Some answer"
    using run by (simp add: run_body_def body_def)
  from spliced_runs [OF spliced placed(2) left own(3) _ this] show "run_body fl tr mem (ms_body ms) n xs s = Some answer"
    using xs total ms(1) by simp
qed

section \<open>Siblings run in order\<close>


text \<open>Every read answers 7; every write is kept in order.\<close>

definition log_memory :: "(u64 \<times> u64 \<times> kval) list mem" where
  "log_memory op args s = (case (op, args) of
      (BufferReadCall _, [K_int p, K_int i]) \<Rightarrow> Some (Some (K_float 7), s)
    | (BufferWriteCall _, [K_int p, K_int i, x]) \<Rightarrow> Some (None, s @ [(p, i, x)])
    | _ \<Rightarrow> None)"

lemma access_ready: "branch_ready log_memory (access_fragment (BufferWriteCall Float_class))"
proof -
  have "leaves_memory log_memory (BufferReadCall c)" for c
    by (auto simp: leaves_memory_def log_memory_def split: list.splits kval.splits)
  then have "stores_plainly log_memory (kf_body (access_fragment (BufferWriteCall Float_class)))"
    by (simp add: stores_plainly_def listed_def access_fragment_def value_at_def reaches_memory_def)
  moreover have "positions_named (access_fragment (BufferWriteCall Float_class))" by code_simp
  moreover have "params_placed (kf_body (access_fragment (BufferWriteCall Float_class)))"
    by (simp add: params_placed_def param_places_def access_fragment_def value_at_def)
  ultimately show ?thesis by (simp add: branch_ready_def)
qed

lemma write_beside_arity:
  "case compose_siblings (write_beside (BufferWriteCall Float_class)) of
     Ok f \<Rightarrow> flat_arity (kf_param_shape f) = 2 | _ \<Rightarrow> False"
  by code_simp


end
