(* ===== verification/Spec2Isabelle.thy ===== *)
theory Spec2Isabelle
  imports Lichen_Prelude Disjoint Kernel_IR Kernel_Body Kernel_Exec Unary Unary_Correct Body_Flow
    Body_Validate Body_Cone Kernel_Fragment Barrier_Scan Fusion_Derive Module_Classes
    Lex_Properties Graph_Properties
    Key_Properties Pre_Properties Sibling_Order
begin

text \<open>
  Verification development for the Lichen virtual machine.

  \<^bold>\<open>The program.\<close> A Lichen source is lexed and parsed, checked and lowered into a module, a graph of
  nodes inside nested functions. Nodes proved equal share a class of a union-find, and a value, a low type
  and a scope are stored once for a class. Parts of the graph that compute become kernels: a body
  of instructions in single-assignment form with its buffers, its launch extents and the marks its
  author claims. A kernel is checked (the gate of the body, the scan for barriers, the plan against
  the claims), rewritten (transcendental instructions by bodies of arithmetic, a chain of reductions
  by one rolling loop), and handed to a back end. All sources named below are under
  \<open>src/crates/\<close>.

  \<^bold>\<open>Theories and sources.\<close>
  \<^item> \<open>Lichen_Prelude\<close>: the results a fallible function answers with, reads of a slice, generic
    facts. A function that may panic is a function into \<open>option\<close> with \<open>None\<close> for the panic, a failed
    debug assertion, or not returning; a function that also answers an error is one into \<open>res\<close>
    with \<open>Ok\<close>, \<open>Err\<close>, \<open>Panic\<close>. Machine integers are words, and an addition that overflows panics.
  \<^item> \<open>Disjoint\<close>: \<open>lichen-utils/disjoint.rs\<close>. A node table \<open>'k uf\<close> from keys to records with the
    parent, the size and the member list of a class threaded through the nodes. The invariant \<open>uf_inv\<close>
    holds in every forest that \<open>make_set\<close>, \<open>find\<close> and \<open>union\<close> reach (\<open>uf_reach\<close>).
  \<^item> \<open>Scope_Tree\<close>, \<open>Class_Store\<close>, \<open>Class_Invariant\<close>, \<open>Function_Scopes\<close>, \<open>Module_Classes\<close>:
    \<open>lichen-lowlevel\<close>, the files \<open>scope.rs\<close> and \<open>equality.rs\<close> with the parts of \<open>gc.rs\<close>, \<open>module.rs\<close>
    and \<open>lib.rs\<close> that they call. A scope carries its depth and a jump table of ancestors;
    \<open>class_store\<close> is the part of a module that the class operations read and write: the forest of
    \<open>Disjoint\<close>, the owners of nodes, the attributes of classes and the function scopes. \<open>class_step\<close> is one
    operation on it.
  \<^item> \<open>Key_Graph\<close>, \<open>Key_Hash\<close>, \<open>Key_Equal\<close>, \<open>Key_Table\<close>, \<open>Key_Properties\<close>: \<open>lichen-lowlevel\<close> again, the files
    \<open>table.rs\<close> and \<open>ancestors.rs\<close>, the reads of \<open>static_module.rs\<close>, \<open>resolve.rs\<close> and \<open>module.rs\<close> they use, and the
    lookup in \<open>evaluation.rs\<close>. \<open>key_graph\<close> is the part of a module a key is read from: its nodes, its functions'
    entry points, the frozen modules it has registered and the payloads of arrays and tables.
  \<^item> \<open>Kernel_IR\<close>, \<open>Kernel_Body\<close>, \<open>Kernel_Exec\<close>: the vocabulary of \<open>lichen-kernel-ir/lib.rs\<close>, the
    body of \<open>body.rs\<close> with its builder, and the meaning of a body as an execution over
    \<open>f32\<close> operations that are arguments of the model.
  \<^item> \<open>Body_Flow\<close>, \<open>Body_Validate\<close>, \<open>Body_Cone\<close>: \<open>body.rs\<close> again: reachability and dominators, the
    gate \<open>validate\<close>, and what a value depends on (\<open>depends_on\<close>, \<open>index_local_cone\<close>).
  \<^item> \<open>Unary\<close>, \<open>Unary_Correct\<close>: \<open>unary.rs\<close>. Each transcendental instruction has a body of arithmetic
    instructions and a function for the host; the second theory executes the first against the other.
  \<^item> \<open>Kernel_Fragment\<close>: the fragment of \<open>lib.rs\<close>, \<open>marks.rs\<close> and \<open>plan.rs\<close>.
  \<^item> \<open>Barrier_Scan\<close>: \<open>barrier.rs\<close>, the bounds of indices, the walk and the scan.
  \<^item> \<open>Body_Compact\<close>, \<open>Compact_Correct\<close>: \<open>compact\<close> of \<open>compose.rs\<close> and the run of a body of several blocks.
    \<open>Sibling_Merge\<close>, \<open>Sibling_Properties\<close>, \<open>Sibling_Plan\<close>, \<open>Sibling_Run\<close>, \<open>Sibling_Order\<close>: \<open>siblings.rs\<close> with what it calls of \<open>compose.rs\<close> and \<open>fan_in.rs\<close>;
    \<open>merge_state\<close> is what the loop over the branches changes.
  \<^item> \<open>Fusion_Expr\<close>, \<open>Fusion_Invert\<close>, \<open>Fusion_Normalize\<close>, \<open>Fusion_Normal_Sound\<close>, \<open>Fusion_Derive\<close>:
    \<open>lichen-fusion\<close>: \<open>expr.rs\<close>, \<open>operators.rs\<close>, \<open>eval.rs\<close>, \<open>invert.rs\<close>, \<open>abstraction.rs\<close>,
    \<open>normalize.rs\<close>, \<open>repair.rs\<close>. Numbers are a parameter with the operations the code uses of
    \<open>f64\<close>, once with floating-point rules of zero and once as the reals.
  \<^item> \<open>Le_Bytes\<close>, \<open>Backend\<close>: words as little-endian bytes; what \<open>lichen-kernel-ir/lib.rs\<close> hands a backend
    and the operations of \<open>ParallelBackend\<close>, a record of arguments over the backend's own state.
  \<^item> \<open>Graph_IR\<close>, \<open>Graph_Value\<close>, \<open>Graph_Run\<close>, \<open>Graph_Plan_Facts\<close>, \<open>Graph_Schedules\<close>, \<open>Graph_In_Flight\<close>,
    \<open>Graph_Table\<close>, \<open>Graph_Properties\<close>: \<open>lichen-graph-ir\<close>: \<open>graph.rs\<close>, \<open>value.rs\<close>, \<open>run.rs\<close>, \<open>refusal.rs\<close>. A graph of
    kernel nodes, its value table, and a run under each of the three policies. The submission that
    the outputs of a node share behind a lock is a cell of a store.
  \<^item> \<open>Span_Lines\<close>: \<open>lichen-span/lib.rs\<close>. \<open>Lex_Tokens\<close>, \<open>Lex_Spelling\<close>, \<open>Lexer\<close>, \<open>Lexer_Correct\<close>,
    \<open>Lex_Local\<close>, \<open>Lexer_Resume\<close>, \<open>Lex_Properties\<close>: \<open>lichen-language-lex/lib.rs\<close>, lexing a slice and
    lexing an edited slice again from the tokens of the old one.
  \<^item> \<open>Block_Lex\<close>, \<open>Block_Parse\<close>, \<open>Preprocess\<close>, \<open>Pre_Properties\<close>: \<open>lichen-preprocess\<close>: \<open>lex.rs\<close>, \<open>parse.rs\<close>, \<open>lib.rs\<close>. The
    block of directives before a source, cut out, lexed and parsed; its imports resolved and its
    dependencies staged from their directories. \<open>pre_state\<close> is what the loop over the directives changes.

  \<^bold>\<open>What is shown.\<close>
  \<^item> The forest: \<open>find\<close> and \<open>union\<close> compute the partition and keep the member lists, trees are at most
    logarithmic in depth, and \<open>rebuild\<close> makes the survivors of a class one class again.
  \<^item> Classes and scopes: the jump table decides ancestry, the nearest common ancestor is nearest, and
    in every reachable store a class answers one value, one low type and one scope that is the
    nearest one above the owners of its members, whatever was merged, written or moved.
  \<^item> Table keys: the equality of keys returns on cyclic values and is the greatest relation that respects
    values, equal keys hash equal at the depth the code cuts at, the memo changes no hash, and a table
    answers a read by the first entry of its source with an equal key, or a recorded miss.
  \<^item> Bodies: the dominators are those of walks, a validated body reads only bound values at every point
    an execution can reach, a barrier observes the write it follows, dependence and cones are exact.
  \<^item> Barriers: the scan always answers; the bounds it derives hold in every lane; after it accepts, every
    access is inside its slice and every pair of a write and a later read in another lane is found.
  \<^item> Compaction and siblings: a compacted body runs as the body did and leaves no orphan parameter. A merge
    joins ports, outputs and domains as stated, and its body runs the branches one after another, each in its own
    view of the memory (\<open>branch_view\<close>); an atomic add is shown to keep its old position.
  \<^item> Transcendentals: a body executed returns what the host's function returns, exactly, in any \<open>f32\<close> arithmetic or
    under laws named in the statement.
  \<^item> Claims and plans: printing and parsing are inverse on well-spelled claims, an accepted plan is
    honoured by the fragment.
  \<^item> Fusion: inversion and abstraction are exact, the canonicalizer keeps values, and the rolling loop
    derived for a maximum and a sum of exponentials (the softmax) maintains both.
  \<^item> Graphs: edges point back; the batch and the asynchronous policy answer what the serial policy
    answers, for backends that keep the contract; the table is the arguments and each node's outputs;
    no run panics; a submission with outputs is waited for.
  \<^item> The lexer: tokens tile the slice, a glue marker stands where two tokens touch, and lexing again
    answers what lexing the edited text answers, under conditions that are shown to be needed.
  \<^item> The preprocessor: directives that are written out are read back; every source is preprocessed, its
    diagnostics placed inside it; a vendored directory stays inside its clone, two aliases of a block never
    share one, and an identity names one dependency when no field holds a hash sign.

  \<^bold>\<open>Interfaces.\<close> \<open>value_loop\<close> and \<open>pair_loop\<close> (the counted loops of \<open>unary.rs\<close>) are interpreted on every
  loop the builders emit; \<open>meet\<close> (a partial meet of scopes) on \<open>merge_summaries\<close>; \<open>total_compare\<close> on
  the orders of \<open>expr.rs\<close>; \<open>in_flight\<close> (a backend whose submissions end in what a run answers) on
  the submission the trait provides; \<open>hashed_keys\<close> (equal keys hash equal) on the content hash of keys; \<open>folded\<close> and \<open>operand_list\<close> on the sums and products of the canonicalizer.

  \<^bold>\<open>Fuel and loops.\<close> The bound of an index is searched with one unit of fuel for each value entered; one
  more than the number of values is enough, by \<open>interval_total\<close>, because a value is entered once. The
  canonicalizer has the budget the code has, which is part of its state. Loops that follow pointers (\<open>find\<close>,
  \<open>members\<close>, class walks), the equality of keys, the dominator loop and the two lexer loops are least fixed points in \<open>option\<close>; that
  they return is part of the statements about them.

  \<^bold>\<open>Arguments of the model.\<close> The scanner that a library generates from the token patterns is an
  argument, held to the longest-match rule the library documents (\<open>longest_match\<close>, and \<open>block_longest\<close>
  for the directive block); the resolver of imports, the environment and the file system are arguments of the
  preprocessor, and paths are read as on a system with one separator; floating-point
  arithmetic is an argument, with laws named where a statement needs them; the payload
  types of values and low types are type variables. A backend is an argument, with what the contract
  says of it as hypotheses: an id for each output, a batch that is its dispatches in order. The deep
  evaluation a table key goes through is an argument, since evaluation is not modelled.

  \<^bold>\<open>Not modelled.\<close> The sentences of refusals and reports; digests of kernels; random sampling; the
  evaluation of a module, the freeze and its codec, the removal of functions; the composition of kernels in a
  chain, a fan-out or a fan-in; the parser and the elaborator; the checker; the servers, the package
  manager and the back ends, which are mostly calls into external tools and devices.
\<close>

end
